(* ===== verification/Prelude.thy ===== *)
theory Prelude
  imports Main "HOL-Library.Word"
begin

text \<open>
  Shared vocabulary of the development: the machine integers of the code, the faults a run
  can end in, the result type of code that can fault together with its sequencing operator,
  checked array accesses, and the generic lemmas on lists and words the components share.
\<close>

unbundle bit_operations_syntax

section \<open>Machine integers\<close>

text \<open>
  The code is built for RV64: \<open>unsigned long\<close>, \<open>size_t\<close>, \<open>uint64_t\<close>, \<open>paddr_t\<close> and
  \<open>vaddr_t\<close> are 64 bits wide, \<open>uint32_t\<close> and \<open>unsigned\<close> 32 bits, \<open>uint8_t\<close> 8 bits.
\<close>

type_synonym u8 = "8 word"
type_synonym u16 = "16 word"
type_synonym u32 = "32 word"
type_synonym u64 = "64 word"
type_synonym paddr = u64
type_synonym vaddr = u64
type_synonym cpuid = nat
type_synonym vcpuid = nat
type_synonym irqid = nat

text \<open>Types of \<open>core/inc/types.h\<close> that the MMU and the MPU share.\<close>

datatype as_type = AS_HYP | AS_VM | AS_HYP_CPY

definition SEC_HYP_GLOBAL :: nat where "SEC_HYP_GLOBAL = 0"
definition SEC_HYP_IMAGE :: nat where "SEC_HYP_IMAGE = 1"
definition SEC_HYP_PRIVATE :: nat where "SEC_HYP_PRIVATE = 2"
definition SEC_HYP_VM :: nat where "SEC_HYP_VM = 3"
definition SEC_VM_ANY :: nat where "SEC_VM_ANY = 0"

definition MAX_VA :: vaddr where "MAX_VA = - 1"
definition INVALID_VA :: vaddr where "INVALID_VA = MAX_VA"

section \<open>Faults and results\<close>

text \<open>
  A run of the code either delivers a value or ends in a fault. \<open>Out_of_bounds\<close> is an
  access outside the array it indexes, \<open>Null_deref\<close> a dereference of \<open>NULL\<close>,
  \<open>Bad_shift\<close> a shift by at least the width of its operand (undefined in C),
  \<open>Div_zero\<close> a division by zero (likewise),
  \<open>Panic\<close> the endless loop of the macro \<open>ERROR\<close>, and \<open>Hang\<close> a loop of the code whose
  exit condition can no longer come true.
\<close>

datatype fault = Out_of_bounds | Null_deref | Bad_shift | Div_zero | Panic | Hang

type_synonym 'a res = "fault + 'a"

definition bindR :: "'a res \<Rightarrow> ('a \<Rightarrow> 'b res) \<Rightarrow> 'b res" where
  "bindR m f = (case m of Inl e \<Rightarrow> Inl e | Inr x \<Rightarrow> f x)"

abbreviation seqR :: "'a res \<Rightarrow> 'b res \<Rightarrow> 'b res" where
  "seqR m k \<equiv> bindR m (\<lambda>_. k)"

definition ok :: "'a res \<Rightarrow> bool" where
  "ok m = (case m of Inl _ \<Rightarrow> False | Inr _ \<Rightarrow> True)"

text \<open>The result of a loop that may not end.\<close>

definition ended :: "'a res option \<Rightarrow> 'a res" where
  "ended r = (case r of None \<Rightarrow> Inl Hang | Some x \<Rightarrow> x)"

fun foldR :: "('a \<Rightarrow> 's \<Rightarrow> 's res) \<Rightarrow> 'a list \<Rightarrow> 's \<Rightarrow> 's res" where
  "foldR f [] s = Inr s"
| "foldR f (x # xs) s = bindR (f x s) (foldR f xs)"

lemma bindR_Inl [simp]: "bindR (Inl e) f = Inl e"
  and bindR_Inr [simp]: "bindR (Inr x) f = f x"
  by (simp_all add: bindR_def)

lemma bindR_cong [fundef_cong]:
  "m = m' \<Longrightarrow> (\<And>x. m' = Inr x \<Longrightarrow> f x = g x) \<Longrightarrow> bindR m f = bindR m' g"
  by (cases m') (simp_all add: bindR_def)

lemma bindR_eq_Inr [simp]: "bindR m f = Inr y \<longleftrightarrow> (\<exists>x. m = Inr x \<and> f x = Inr y)"
  by (cases m) simp_all

lemma Inr_eq_bindR [simp]: "Inr y = bindR m f \<longleftrightarrow> (\<exists>x. m = Inr x \<and> f x = Inr y)"
  by (cases m) auto

lemma bindR_eq_Inl: "bindR m f = Inl e \<longleftrightarrow> m = Inl e \<or> (\<exists>x. m = Inr x \<and> f x = Inl e)"
  by (cases m) simp_all

lemma bindR_assoc: "bindR (bindR m f) g = bindR m (\<lambda>x. bindR (f x) g)"
  by (cases m) simp_all

lemma bindR_unit [simp]: "bindR m Inr = m"
  by (cases m) simp_all

lemma bindR_if: "bindR (if b then m else m') f = (if b then bindR m f else bindR m' f)"
  by simp

lemma ok_simps [simp]: "\<not> ok (Inl e)" "ok (Inr x)"
  by (simp_all add: ok_def)

lemma ok_iff: "ok m \<longleftrightarrow> (\<exists>x. m = Inr x)"
  by (cases m) simp_all

lemma foldR_append: "foldR f (xs @ ys) s = bindR (foldR f xs s) (foldR f ys)"
  by (induction xs arbitrary: s) (simp_all add: bindR_assoc cong: bindR_cong)

lemma foldR_snoc: "foldR f (xs @ [x]) s = bindR (foldR f xs s) (f x)"
  by (induction xs arbitrary: s) (simp_all add: bindR_assoc cong: bindR_cong)

lemma foldR_upt_Suc: "foldR f [0..<Suc n] s = bindR (foldR f [0..<n] s) (f n)"
  by (simp add: foldR_snoc)

text \<open>A loop whose body keeps an invariant and does not fault keeps it and does not fault.\<close>

lemma foldR_inv:
  assumes "P s" and "\<And>x s. x \<in> set xs \<Longrightarrow> P s \<Longrightarrow> \<exists>s'. f x s = Inr s' \<and> P s'"
  shows "\<exists>s'. foldR f xs s = Inr s' \<and> P s'"
  using assms
proof (induction xs arbitrary: s)
  case Nil
  then show ?case by simp
next
  case (Cons x xs)
  from Cons.prems obtain s' where "f x s = Inr s'" "P s'" by fastforce
  with Cons.IH [of s'] Cons.prems(2) show ?case by simp
qed

section \<open>Checked array accesses\<close>

definition rd :: "'a list \<Rightarrow> nat \<Rightarrow> 'a res" where
  "rd xs i = (if i < length xs then Inr (xs ! i) else Inl Out_of_bounds)"

definition wr :: "'a list \<Rightarrow> nat \<Rightarrow> 'a \<Rightarrow> 'a list res" where
  "wr xs i v = (if i < length xs then Inr (xs[i := v]) else Inl Out_of_bounds)"

lemma rd_in [simp]: "i < length xs \<Longrightarrow> rd xs i = Inr (xs ! i)"
  and rd_out: "\<not> i < length xs \<Longrightarrow> rd xs i = Inl Out_of_bounds"
  by (simp_all add: rd_def)

lemma wr_in [simp]: "i < length xs \<Longrightarrow> wr xs i v = Inr (xs[i := v])"
  and wr_out: "\<not> i < length xs \<Longrightarrow> wr xs i v = Inl Out_of_bounds"
  by (simp_all add: wr_def)

lemma rd_Inr_iff: "rd xs i = Inr v \<longleftrightarrow> i < length xs \<and> v = xs ! i"
  by (auto simp: rd_def)

lemma wr_Inr_iff: "wr xs i v = Inr ys \<longleftrightarrow> i < length xs \<and> ys = xs[i := v]"
  by (auto simp: wr_def)

section \<open>Generic lemmas\<close>

named_theorems model_simps \<open>equations that evaluate the model on a concrete state\<close>

text \<open>Bits of the words that occur in the masks of the code.\<close>

lemma bit_one_shift: "bit (push_bit n (1 :: 'a::len word)) k \<longleftrightarrow> k = n \<and> n < LENGTH('a)"
  by (auto simp: bit_exp_iff)

lemma bit_two_power [simp]: "bit (2 ^ n :: 'a::len word) k \<longleftrightarrow> k = n \<and> n < LENGTH('a)"
  by (auto simp: bit_exp_iff)

lemma and_one_shift: "(w AND push_bit n 1 = 0) \<longleftrightarrow> \<not> bit w n" if "n < LENGTH('a)" for w :: "'a::len word"
  using that
  by (auto simp: bit_eq_iff [of "w AND push_bit n 1"] bit_and_iff bit_one_shift simp del: push_bit_of_1)

lemma and_two_power [simp]: "(w AND 2 ^ n = 0) \<longleftrightarrow> \<not> bit w n" if "n < LENGTH('a)" for w :: "'a::len word"
  using and_one_shift [OF that, of w] by (simp add: push_bit_of_1)

lemma word_le_not_less_conv: "(a :: 'a::len word) \<le> b \<longleftrightarrow> unat a \<le> unat b"
  by (simp add: word_le_nat_alt)

lemma word_pos_iff: "0 < (w :: 'a::len word) \<longleftrightarrow> 0 < unat w"
  by (simp add: word_less_nat_alt)

lemma unat_of_nat_u64 [simp]: "n < 2 ^ 64 \<Longrightarrow> unat (of_nat n :: u64) = n"
  by (simp add: unat_of_nat take_bit_nat_eq_self)

lemma unat_of_nat_u32 [simp]: "n < 2 ^ 32 \<Longrightarrow> unat (of_nat n :: u32) = n"
  by (simp add: unat_of_nat take_bit_nat_eq_self)

lemma unat_lt_u64 [simp]: "unat (x :: u64) < 18446744073709551616"
  using unsigned_less [of x] by simp

lemma unat_lt_u32 [simp]: "unat (x :: u32) < 4294967296"
  using unsigned_less [of x] by simp

lemma unat_ucast_32_64 [simp]: "unat (ucast (w :: u32) :: u64) = unat w"
  using unat_lt_u32 [of w]
  by (simp add: unsigned_ucast_eq take_bit_eq_mod mod_less order_less_trans del: unat_lt_u32)

lemma unat_add_u64: "unat (a + b :: u64) = (unat a + unat b) mod 2 ^ 64"
  by (simp add: unat_word_ariths)

lemma unat_add_no_wrap: "unat a + unat b < 2 ^ 64 \<Longrightarrow> unat (a + b :: u64) = unat a + unat b"
  by (simp add: unat_word_ariths)

lemma unat_mul_no_wrap: "unat a * unat b < 2 ^ 64 \<Longrightarrow> unat (a * b :: u64) = unat a * unat b"
  by (simp add: unat_word_ariths)

lemma unat_sub_no_wrap: "b \<le> a \<Longrightarrow> unat (a - b :: 'a::len word) = unat a - unat b"
  by (rule unat_sub) (simp add: word_le_nat_alt)

end
