(* ===== verification/Irq_Rate_Limit.thy ===== *)
theory Irq_Rate_Limit
  imports Prelude
begin

text \<open>
  The interrupt rate limiter, \<open>src/core/inc/irq_rate_limit.h\<close>: a token bucket per interrupt
  source. Every read of the time CSR is an argument \<open>now\<close> of the operation. The buckets keep
  their counters in 32-bit words and their time stamps in 64-bit words, as the code does.
\<close>

section \<open>The bucket and its operations\<close>

record irq_token_bucket =
  tokens :: u32
  max_tokens :: u32
  rate :: u32
  deferred_count :: u32
  max_deferred :: u32
  last_refill :: u64
  dropped :: u64

datatype irq_rl_action = IRQ_RL_ALLOW | IRQ_RL_DEFERRED | IRQ_RL_DROPPED

definition IRQ_RL_CRIT_HIGH_MAX_TOKENS :: u32 where "IRQ_RL_CRIT_HIGH_MAX_TOKENS = 1000"
definition IRQ_RL_CRIT_HIGH_RATE :: u32 where "IRQ_RL_CRIT_HIGH_RATE = 10000"
definition IRQ_RL_CRIT_HIGH_MAX_DEFERRED :: u32 where "IRQ_RL_CRIT_HIGH_MAX_DEFERRED = 32"
definition IRQ_RL_CRIT_LOW_MAX_TOKENS :: u32 where "IRQ_RL_CRIT_LOW_MAX_TOKENS = 100"
definition IRQ_RL_CRIT_LOW_RATE :: u32 where "IRQ_RL_CRIT_LOW_RATE = 1000"
definition IRQ_RL_CRIT_LOW_MAX_DEFERRED :: u32 where "IRQ_RL_CRIT_LOW_MAX_DEFERRED = 8"
definition IRQ_RL_TIMER_FREQ :: u64 where "IRQ_RL_TIMER_FREQ = 10000000"

lemmas irq_rl_params = IRQ_RL_CRIT_HIGH_MAX_TOKENS_def IRQ_RL_CRIT_HIGH_RATE_def
  IRQ_RL_CRIT_HIGH_MAX_DEFERRED_def IRQ_RL_CRIT_LOW_MAX_TOKENS_def IRQ_RL_CRIT_LOW_RATE_def
  IRQ_RL_CRIT_LOW_MAX_DEFERRED_def IRQ_RL_TIMER_FREQ_def

definition irq_bucket_init :: "u32 \<Rightarrow> u64 \<Rightarrow> irq_token_bucket" where
  "irq_bucket_init criticality now =
    (if 1 \<le> criticality
     then \<lparr>tokens = IRQ_RL_CRIT_HIGH_MAX_TOKENS, max_tokens = IRQ_RL_CRIT_HIGH_MAX_TOKENS,
           rate = IRQ_RL_CRIT_HIGH_RATE, deferred_count = 0,
           max_deferred = IRQ_RL_CRIT_HIGH_MAX_DEFERRED, last_refill = now, dropped = 0\<rparr>
     else \<lparr>tokens = IRQ_RL_CRIT_LOW_MAX_TOKENS, max_tokens = IRQ_RL_CRIT_LOW_MAX_TOKENS,
           rate = IRQ_RL_CRIT_LOW_RATE, deferred_count = 0,
           max_deferred = IRQ_RL_CRIT_LOW_MAX_DEFERRED, last_refill = now, dropped = 0\<rparr>)"

definition irq_bucket_refill :: "irq_token_bucket \<Rightarrow> u64 \<Rightarrow> irq_token_bucket" where
  "irq_bucket_refill b now =
    (let elapsed = now - last_refill b in
     if elapsed = 0 then b
     else
       let new_tokens = (elapsed * ucast (rate b)) div IRQ_RL_TIMER_FREQ in
       if 0 < new_tokens then
         let b1 = b\<lparr>tokens := tokens b + ucast new_tokens\<rparr>;
             b2 = (if max_tokens b1 < tokens b1 then b1\<lparr>tokens := max_tokens b1\<rparr> else b1)
         in b2\<lparr>last_refill := now\<rparr>
       else b)"

text \<open>The loop that pays for deferred interrupts, with the counter \<open>drained\<close> of the variant.\<close>

function irq_bucket_drain_loop :: "irq_token_bucket \<Rightarrow> u32 \<Rightarrow> irq_token_bucket \<times> u32" where
  "irq_bucket_drain_loop b drained =
    (if 0 < deferred_count b \<and> 0 < tokens b
     then irq_bucket_drain_loop
       (b\<lparr>deferred_count := deferred_count b - 1, tokens := tokens b - 1\<rparr>) (drained + 1)
     else (b, drained))"
  by pat_completeness auto
termination
  by (relation "measure (\<lambda>(b, _). unat (deferred_count b))") (auto simp: measure_unat word_neq_0_conv)

declare irq_bucket_drain_loop.simps [simp del]

definition irq_bucket_consume :: "irq_token_bucket \<Rightarrow> u64 \<Rightarrow> irq_token_bucket \<times> irq_rl_action" where
  "irq_bucket_consume b now =
    (let b1 = irq_bucket_refill b now;
         b2 = fst (irq_bucket_drain_loop b1 0)
     in if 0 < tokens b2 then (b2\<lparr>tokens := tokens b2 - 1\<rparr>, IRQ_RL_ALLOW)
        else if deferred_count b2 < max_deferred b2
        then (b2\<lparr>deferred_count := deferred_count b2 + 1\<rparr>, IRQ_RL_DEFERRED)
        else (b2\<lparr>dropped := dropped b2 + 1\<rparr>, IRQ_RL_DROPPED))"

definition irq_bucket_drain_deferred :: "irq_token_bucket \<Rightarrow> u64 \<Rightarrow> irq_token_bucket \<times> u32" where
  "irq_bucket_drain_deferred b now = irq_bucket_drain_loop (irq_bucket_refill b now) 0"

text \<open>A history of the bucket: one \<open>irq_bucket_consume\<close> per arrival time.\<close>

fun irq_bucket_arrivals :: "irq_token_bucket \<Rightarrow> u64 list \<Rightarrow> irq_token_bucket \<times> irq_rl_action list" where
  "irq_bucket_arrivals b [] = (b, [])"
| "irq_bucket_arrivals b (t # ts) =
    (let (b1, a) = irq_bucket_consume b t; (b2, as) = irq_bucket_arrivals b1 ts in (b2, a # as))"

section \<open>The loop in closed form\<close>

definition bucket_wf :: "irq_token_bucket \<Rightarrow> bool" where
  "bucket_wf b \<longleftrightarrow> tokens b \<le> max_tokens b \<and> deferred_count b \<le> max_deferred b"

definition params_eq :: "irq_token_bucket \<Rightarrow> irq_token_bucket \<Rightarrow> bool" where
  "params_eq b b' \<longleftrightarrow> max_tokens b' = max_tokens b \<and> rate b' = rate b \<and>
    max_deferred b' = max_deferred b"

lemma drain_loop_eq:
  "irq_bucket_drain_loop b k =
    (let m = min (deferred_count b) (tokens b) in
     (b\<lparr>deferred_count := deferred_count b - m, tokens := tokens b - m\<rparr>, k + m))"
proof (induction b k rule: irq_bucket_drain_loop.induct)
  case (1 b k)
  show ?case
  proof (cases "0 < deferred_count b \<and> 0 < tokens b")
    case True
    let ?d = "deferred_count b" and ?t = "tokens b"
    have m: "min (?d - 1) (?t - 1) = min ?d ?t - 1"
      using True by (auto simp: min_def word_le_nat_alt unat_minus_one word_neq_0_conv
          word_pos_iff word_unat_eq_iff)
    show ?thesis
      using 1 True by (subst irq_bucket_drain_loop.simps) (simp add: Let_def m)
  next
    case False
    then have "min (deferred_count b) (tokens b) = 0"
      by (auto simp: min_def word_pos_iff word_unat_eq_iff word_le_nat_alt)
    with False show ?thesis by (subst irq_bucket_drain_loop.simps) (auto simp: Let_def)
  qed
qed

lemma refill_params [simp]: "params_eq b (irq_bucket_refill b now)"
  by (simp add: params_eq_def irq_bucket_refill_def Let_def)

lemma refill_fields [simp]:
  "deferred_count (irq_bucket_refill b now) = deferred_count b"
  "max_tokens (irq_bucket_refill b now) = max_tokens b"
  "max_deferred (irq_bucket_refill b now) = max_deferred b"
  "rate (irq_bucket_refill b now) = rate b"
  "dropped (irq_bucket_refill b now) = dropped b"
  by (simp_all add: irq_bucket_refill_def Let_def)

lemma refill_le_max:
  "tokens b \<le> max_tokens b \<Longrightarrow> tokens (irq_bucket_refill b now) \<le> max_tokens b"
  by (auto simp: irq_bucket_refill_def Let_def not_less)

text \<open>
  The abstract bucket: a pair of naturals, tokens and deferred interrupts, that a request
  pays from. This is the contract of the header comment.
\<close>

definition spec_consume :: "nat \<Rightarrow> nat \<times> nat \<Rightarrow> (nat \<times> nat) \<times> irq_rl_action" where
  "spec_consume lim td = (case td of (t, d) \<Rightarrow>
    if d < t then ((t - d - 1, 0), IRQ_RL_ALLOW)
    else if d - t < lim then ((0, d - t + 1), IRQ_RL_DEFERRED)
    else ((0, d - t), IRQ_RL_DROPPED))"

definition abs_bucket :: "irq_token_bucket \<Rightarrow> nat \<times> nat" where
  "abs_bucket b = (unat (tokens b), unat (deferred_count b))"

lemma consume_refines:
  assumes "irq_bucket_consume b now = (b', a)"
  shows "spec_consume (unat (max_deferred b)) (abs_bucket (irq_bucket_refill b now)) = (abs_bucket b', a)"
proof -
  let ?r = "irq_bucket_refill b now"
  let ?d = "deferred_count ?r" and ?t = "tokens ?r"
  show ?thesis
  proof (cases "?d < ?t")
    case True
    then have m: "min ?d ?t = ?d" by (simp add: min_def less_imp_le)
    from True have p: "0 < ?t - ?d"
      by (auto simp: word_less_nat_alt word_le_nat_alt unat_sub_no_wrap)
    have u: "unat (?t - ?d - 1) = unat ?t - unat ?d - 1"
      using p True by (simp add: unat_minus_one word_neq_0_conv unat_sub_no_wrap)
    have "deferred_count b < ?t" using True by simp
    with assms p True u show ?thesis
      by (auto simp: irq_bucket_consume_def drain_loop_eq Let_def m spec_consume_def abs_bucket_def
          word_less_nat_alt)
  next
    case False
    then have m: "min ?d ?t = ?t" by (simp add: min_def)
    have u: "unat (deferred_count b - ?t) = unat (deferred_count b) - unat ?t"
      using False by (simp add: unat_sub_no_wrap)
    have v: "unat (deferred_count b - ?t + 1) = Suc (unat (deferred_count b) - unat ?t)"
      if "deferred_count b - ?t < max_deferred b"
    proof -
      from that have "unat (deferred_count b - ?t) < unat (max_deferred b)"
        by (simp add: word_less_nat_alt)
      then have "unat (deferred_count b - ?t) + 1 < 2 ^ 32"
        using unat_lt_u32 [of "max_deferred b"] by (simp del: unat_lt_u32)
      then show ?thesis by (simp add: unat_word_ariths u)
    qed
    from assms False u v m show ?thesis
      by (auto simp: irq_bucket_consume_def drain_loop_eq Let_def spec_consume_def abs_bucket_def
          word_less_nat_alt split: if_splits)
  qed
qed

lemma consume_params: "irq_bucket_consume b now = (b', a) \<Longrightarrow> params_eq b b'"
  by (auto simp: irq_bucket_consume_def drain_loop_eq Let_def params_eq_def split: if_splits)

lemma consume_last_refill:
  "irq_bucket_consume b now = (b', a) \<Longrightarrow> last_refill b' = last_refill (irq_bucket_refill b now)"
  by (auto simp: irq_bucket_consume_def drain_loop_eq Let_def split: if_splits)

lemma consume_wf:
  assumes "bucket_wf b" "irq_bucket_consume b now = (b', a)"
  shows "bucket_wf b'"
proof -
  have "unat (tokens (irq_bucket_refill b now)) \<le> unat (max_tokens b)"
    using assms(1) refill_le_max [of b now] by (simp add: bucket_wf_def word_le_nat_alt)
  moreover have "unat (deferred_count b) \<le> unat (max_deferred b)"
    using assms(1) by (simp add: bucket_wf_def word_le_nat_alt)
  moreover note consume_refines [OF assms(2)] consume_params [OF assms(2)]
  ultimately show ?thesis
    by (auto simp: bucket_wf_def word_le_nat_alt spec_consume_def abs_bucket_def params_eq_def
        split: if_splits)
qed

lemma drain_wf:
  assumes "bucket_wf b"
  shows "bucket_wf (fst (irq_bucket_drain_deferred b now))"
proof -
  have "unat (tokens (irq_bucket_refill b now)) \<le> unat (max_tokens b)"
    using assms(1) refill_le_max [of b now] by (simp add: bucket_wf_def word_le_nat_alt)
  then show ?thesis
    using assms by (auto simp: bucket_wf_def irq_bucket_drain_deferred_def drain_loop_eq Let_def
        word_le_nat_alt unat_sub_no_wrap min_def)
qed

lemma init_wf: "bucket_wf (irq_bucket_init c now)"
  by (simp add: bucket_wf_def irq_bucket_init_def irq_rl_params)

lemma arrivals_inv:
  assumes "irq_bucket_arrivals b ts = (b', as)"
    and "\<And>b t b1 a. P b \<Longrightarrow> irq_bucket_consume b t = (b1, a) \<Longrightarrow> P b1" "P b"
  shows "P b'"
  using assms(1,3)
proof (induction ts arbitrary: b as)
  case (Cons t ts)
  obtain b1 a where c: "irq_bucket_consume b t = (b1, a)" by fastforce
  obtain b2 bs where r: "irq_bucket_arrivals b1 ts = (b2, bs)" by fastforce
  from Cons.prems(1) c r have "b2 = b'" by simp
  with Cons.IH [of b1 bs] r assms(2) [OF Cons.prems(2) c] show ?case by simp
qed simp


section \<open>Refilling, and the budget a bucket can spend\<close>

abbreviation freq :: nat where "freq \<equiv> unat IRQ_RL_TIMER_FREQ"

lemma freq_val: "freq = 10000000"
  by (simp add: IRQ_RL_TIMER_FREQ_def)

definition ticks :: "irq_token_bucket \<Rightarrow> u64 \<Rightarrow> nat" where
  "ticks b now = unat now - unat (last_refill b)"

text \<open>Wrap-around of the counters can only lose budget: a refill never adds more than was earned.\<close>

lemma refill_budget:
  assumes "last_refill b \<le> now" "tokens b \<le> max_tokens b"
  defines "r \<equiv> irq_bucket_refill b now"
  shows "unat (tokens r) * freq + unat (last_refill b) * unat (rate b)
      \<le> unat (tokens b) * freq + unat (last_refill r) * unat (rate b)"
    and "last_refill b \<le> last_refill r" and "last_refill r \<le> now"
proof -
  define e where "e = now - last_refill b"
  define n where "n = (e * ucast (rate b)) div IRQ_RL_TIMER_FREQ"
  show "last_refill b \<le> last_refill r" "last_refill r \<le> now"
    using assms(1) by (simp_all add: r_def irq_bucket_refill_def Let_def)
  have ue: "unat e = unat now - unat (last_refill b)"
    using assms(1) by (simp add: e_def unat_sub_no_wrap)
  have "unat n * freq \<le> unat (e * ucast (rate b) :: u64)"
    by (simp add: n_def unat_div)
  also have "\<dots> \<le> unat e * unat (rate b)"
    by (simp add: unat_word_ariths)
  finally have n0: "unat n * freq \<le> unat e * unat (rate b)" .
  have "unat (last_refill b) * unat (rate b) \<le> unat now * unat (rate b)"
    using assms(1) by (intro mult_le_mono1) (simp add: word_le_nat_alt)
  with n0 have n: "unat n * freq + unat (last_refill b) * unat (rate b) \<le> unat now * unat (rate b)"
    unfolding ue diff_mult_distrib by linarith
  have t: "unat (tokens b + ucast n) \<le> unat (tokens b) + unat n"
    by (simp add: unat_word_ariths unsigned_ucast_eq take_bit_eq_mod)
  show "unat (tokens r) * freq + unat (last_refill b) * unat (rate b)
      \<le> unat (tokens b) * freq + unat (last_refill r) * unat (rate b)"
  proof (cases "0 < n")
    case True
    then have e: "e \<noteq> 0" by (auto simp: n_def)
    then have "unat (tokens r) \<le> unat (tokens b + ucast n)" "last_refill r = now"
      using True by (auto simp: r_def irq_bucket_refill_def Let_def word_le_nat_alt
          word_less_nat_alt e_def [symmetric] n_def [symmetric])
    with t have "unat (tokens r) \<le> unat (tokens b) + unat n" "last_refill r = now" by simp_all
    then show ?thesis using n
      by (smt (verit, best) add.assoc add_le_mono add_mult_distrib le_refl mult_le_mono1 order_trans)
  next
    case False
    then have "r = b"
      by (auto simp: r_def irq_bucket_refill_def Let_def e_def [symmetric] n_def [symmetric])
    then show ?thesis by simp
  qed
qed

lemma refill_exact:
  assumes "last_refill b \<le> now" "tokens b \<le> max_tokens b"
    and "ticks b now * unat (rate b) < 2 ^ 64"
    and "unat (tokens b) + ticks b now * unat (rate b) div freq < 2 ^ 32"
  defines "r \<equiv> irq_bucket_refill b now" and "n \<equiv> ticks b now * unat (rate b) div freq"
  shows "unat (tokens r) = min (unat (max_tokens b)) (unat (tokens b) + n)"
    and "last_refill r = (if 0 < n then now else last_refill b)"
proof -
  define e where "e = now - last_refill b"
  define w where "w = (e * ucast (rate b)) div IRQ_RL_TIMER_FREQ"
  have ue: "unat e = ticks b now"
    using assms(1) by (simp add: e_def ticks_def unat_sub_no_wrap)
  have uw: "unat w = n"
    using assms(3) by (simp add: w_def n_def unat_div unat_word_ariths ue)
  have ut: "unat (tokens b + ucast w) = unat (tokens b) + n"
    using assms(4) by (simp add: unat_word_ariths unsigned_ucast_eq take_bit_eq_mod uw n_def)
  have z: "0 < w \<longleftrightarrow> 0 < n" by (simp add: word_pos_iff uw)
  have e0: "e = 0 \<Longrightarrow> n = 0" using ue by (auto simp: n_def)
  show "last_refill r = (if 0 < n then now else last_refill b)"
    using z e0 by (auto simp: r_def irq_bucket_refill_def Let_def e_def [symmetric] w_def [symmetric])
  show "unat (tokens r) = min (unat (max_tokens b)) (unat (tokens b) + n)"
  proof (cases "0 < n")
    case True
    with z e0 have "0 < w" "e \<noteq> 0" by auto
    then show ?thesis
      using ut by (auto simp: r_def irq_bucket_refill_def Let_def word_less_nat_alt
          e_def [symmetric] w_def [symmetric] min_def)
  next
    case False
    then have "r = b" using z
      by (auto simp: r_def irq_bucket_refill_def Let_def e_def [symmetric] w_def [symmetric])
    then show ?thesis using False assms(2) by (simp add: word_le_nat_alt min_def)
  qed
qed

lemma consume_budget:
  assumes "last_refill b \<le> now" "bucket_wf b" "irq_bucket_consume b now = (b', a)"
  shows "(if a = IRQ_RL_ALLOW then freq else 0) + unat (tokens b') * freq
        + unat (last_refill b) * unat (rate b)
      \<le> unat (tokens b) * freq + unat (last_refill b') * unat (rate b)"
    and "last_refill b \<le> last_refill b'" and "last_refill b' \<le> now"
proof -
  note rb = refill_budget [OF assms(1), of] and lr = consume_last_refill [OF assms(3)]
  have le: "tokens b \<le> max_tokens b" using assms(2) by (simp add: bucket_wf_def)
  show "last_refill b \<le> last_refill b'" "last_refill b' \<le> now" using rb(2,3) [OF le] lr by simp_all
  have "(if a = IRQ_RL_ALLOW then 1 else 0) + unat (tokens b')
      \<le> unat (tokens (irq_bucket_refill b now))"
    using consume_refines [OF assms(3)] by (auto simp: spec_consume_def abs_bucket_def split: if_splits)
  then have "((if a = IRQ_RL_ALLOW then 1 else 0) + unat (tokens b')) * freq
      \<le> unat (tokens (irq_bucket_refill b now)) * freq" by (rule mult_le_mono1)
  with rb(1) [OF le] lr show "(if a = IRQ_RL_ALLOW then freq else 0) + unat (tokens b') * freq
        + unat (last_refill b) * unat (rate b)
      \<le> unat (tokens b) * freq + unat (last_refill b') * unat (rate b)"
    by (simp add: add_mult_distrib split: if_splits)
qed

definition allowed :: "irq_rl_action list \<Rightarrow> nat" where
  "allowed as = length (filter (\<lambda>a. a = IRQ_RL_ALLOW) as)"

lemma arrivals_budget:
  assumes "irq_bucket_arrivals b ts = (b', as)" "bucket_wf b" "sorted (last_refill b # ts)"
  shows "allowed as * freq + unat (tokens b') * freq + unat (last_refill b) * unat (rate b)
      \<le> unat (tokens b) * freq + unat (last_refill b') * unat (rate b)
    \<and> last_refill b' \<le> last (last_refill b # ts)"
  using assms
proof (induction ts arbitrary: b as)
  case Nil
  then show ?case by (simp add: allowed_def)
next
  case (Cons t ts)
  obtain b1 a where c: "irq_bucket_consume b t = (b1, a)" by fastforce
  obtain b2 bs where r: "irq_bucket_arrivals b1 ts = (b2, bs)" by fastforce
  from Cons.prems(1) c r have eq: "b2 = b'" "as = a # bs" by auto
  have le: "last_refill b \<le> t" using Cons.prems(3) by simp
  note cb = consume_budget [OF le Cons.prems(2) c]
  have "sorted (last_refill b1 # ts)" using Cons.prems(3) cb(3) by auto
  note ih = Cons.IH [OF r [unfolded eq(1)] consume_wf [OF Cons.prems(2) c] this]
  have "rate b1 = rate b" using consume_params [OF c] by (simp add: params_eq_def)
  with ih cb(1) eq(2) have "allowed as * freq + unat (tokens b') * freq + unat (last_refill b) * unat (rate b)
      \<le> unat (tokens b) * freq + unat (last_refill b') * unat (rate b)"
    by (auto simp: allowed_def split: if_splits)
  moreover have "last_refill b' \<le> last (last_refill b # t # ts)"
    using ih cb(3) by (auto split: if_splits)
  ultimately show ?case by blast
qed

section \<open>Sources that keep to their rate\<close>

fun spaced :: "nat \<Rightarrow> nat \<Rightarrow> u64 list \<Rightarrow> bool" where
  "spaced lo hi (s # t # ts) \<longleftrightarrow> s \<le> t \<and> lo \<le> unat t - unat s \<and> unat t - unat s \<le> hi \<and> spaced lo hi (t # ts)"
| "spaced lo hi _ \<longleftrightarrow> True"

text \<open>The parameters of a bucket that \<open>irq_bucket_init\<close> can set up.\<close>

definition rl_params_ok :: "irq_token_bucket \<Rightarrow> bool" where
  "rl_params_ok b \<longleftrightarrow> 0 < rate b \<and> rate b \<le> IRQ_RL_CRIT_HIGH_RATE \<and> 0 < max_tokens b
    \<and> max_tokens b \<le> IRQ_RL_CRIT_HIGH_MAX_TOKENS"

lemma init_params_ok: "rl_params_ok (irq_bucket_init c now)"
  by (simp add: rl_params_ok_def irq_bucket_init_def irq_rl_params)

lemma spaced_consume:
  assumes "rl_params_ok b" "bucket_wf b" "deferred_count b = 0" "dropped b = 0"
    and "last_refill b \<le> t" "freq \<le> ticks b t * unat (rate b)" "ticks b t \<le> 2 ^ 40"
    and "irq_bucket_consume b t = (b', a)"
  shows "a = IRQ_RL_ALLOW \<and> deferred_count b' = 0 \<and> dropped b' = 0 \<and> last_refill b' = t"
proof -
  have p: "unat (rate b) \<le> 10000" "unat (max_tokens b) \<le> 1000" "0 < unat (max_tokens b)"
    "unat (tokens b) \<le> unat (max_tokens b)"
    using assms(1,2) by (simp_all add: rl_params_ok_def bucket_wf_def irq_rl_params word_le_nat_alt word_pos_iff)
  have m: "ticks b t * unat (rate b) \<le> 2 ^ 40 * 10000" using assms(7) p(1) by (rule mult_le_mono)
  then have d: "ticks b t * unat (rate b) div freq \<le> 2 ^ 40 * 10000 div freq" by (rule div_le_mono)
  have n: "0 < ticks b t * unat (rate b) div freq"
    using assms(6) freq_val by (simp add: div_greater_zero_iff)
  have b1: "ticks b t * unat (rate b) < 2 ^ 64" using m by simp
  have b2: "unat (tokens b) + ticks b t * unat (rate b) div freq < 2 ^ 32"
    using d p(2,4) by (simp add: freq_val)
  have le: "tokens b \<le> max_tokens b" using assms(2) by (simp add: bucket_wf_def)
  note ex = refill_exact [OF assms(5) le b1 b2]
  have pos: "0 < unat (tokens (irq_bucket_refill b t))" using ex(1) n p(3) by simp
  have "a = IRQ_RL_ALLOW" "deferred_count b' = 0"
    using consume_refines [OF assms(8)] assms(3) pos
    by (auto simp: spec_consume_def abs_bucket_def word_unat_eq_iff split: if_splits)
  moreover have "dropped b' = 0" using assms(4,8) \<open>a = IRQ_RL_ALLOW\<close>
    by (auto simp: irq_bucket_consume_def drain_loop_eq Let_def split: if_splits)
  moreover have "last_refill b' = t" using consume_last_refill [OF assms(8)] ex(2) n by simp
  ultimately show ?thesis by blast
qed

lemma spaced_arrivals:
  assumes "irq_bucket_arrivals b ts = (b', as)" "rl_params_ok b" "bucket_wf b"
    "deferred_count b = 0" "dropped b = 0" "freq \<le> lo * unat (rate b)"
    "spaced lo (2 ^ 40) (last_refill b # ts)"
  shows "set as \<subseteq> {IRQ_RL_ALLOW} \<and> dropped b' = 0 \<and> deferred_count b' = 0"
  using assms
proof (induction ts arbitrary: b as)
  case (Cons t ts)
  obtain b1 a where c: "irq_bucket_consume b t = (b1, a)" by fastforce
  obtain b2 bs where r: "irq_bucket_arrivals b1 ts = (b2, bs)" by fastforce
  from Cons.prems(1) c r have eq: "b2 = b'" "as = a # bs" by auto
  have g: "lo \<le> ticks b t" "ticks b t \<le> 2 ^ 40" "last_refill b \<le> t"
    using Cons.prems(7) by (simp_all add: ticks_def)
  have "freq \<le> ticks b t * unat (rate b)"
    using Cons.prems(6) mult_le_mono1 [OF g(1)] by (rule order_trans)
  with g have sc: "a = IRQ_RL_ALLOW \<and> deferred_count b1 = 0 \<and> dropped b1 = 0 \<and> last_refill b1 = t"
    by (intro spaced_consume [OF Cons.prems(2-5) _ _ _ c])
  have pe: "rate b1 = rate b" "rl_params_ok b1"
    using consume_params [OF c] Cons.prems(2) by (simp_all add: params_eq_def rl_params_ok_def)
  have "set bs \<subseteq> {IRQ_RL_ALLOW} \<and> dropped b' = 0 \<and> deferred_count b' = 0"
    using Cons.IH [OF r [unfolded eq(1)] pe(2) consume_wf [OF Cons.prems(3) c]] sc pe(1) Cons.prems(6,7)
    by simp
  with sc eq(2) show ?case by simp
qed simp


section \<open>Properties\<close>

text \<open>
  C1. A source cannot exceed its budget: whatever the arrival times (in order), the number of
  interrupts \<open>irq_bucket_consume\<close> lets through from a well-formed bucket is at most the burst
  capacity plus the refill rate times the elapsed time, counter wrap-around included.
\<close>

theorem irq_rate_bounded:
  assumes "irq_bucket_arrivals b ts = (b', as)" "bucket_wf b" "sorted (last_refill b # ts)"
  shows "allowed as * freq
    \<le> unat (max_tokens b) * freq
      + (unat (last (last_refill b # ts)) - unat (last_refill b)) * unat (rate b)"
proof -
  note ab = arrivals_budget [OF assms]
  have "unat (tokens b) * freq \<le> unat (max_tokens b) * freq"
    using assms(2) by (intro mult_le_mono1) (simp add: bucket_wf_def word_le_nat_alt)
  moreover have "unat (last_refill b') * unat (rate b)
      \<le> unat (last (last_refill b # ts)) * unat (rate b)"
    using ab by (intro mult_le_mono1) (simp add: word_le_nat_alt)
  ultimately show ?thesis using ab [THEN conjunct1] unfolding diff_mult_distrib by linarith
qed

theorem irq_rate_bounded_witness:
  "\<exists>b' as. irq_bucket_arrivals (irq_bucket_init 0 5) [5, 6, 20006] = (b', as) \<and> as = replicate 3 IRQ_RL_ALLOW
    \<and> allowed as * freq \<le> 100 * freq + 20001 * 1000"
proof -
  let ?b = "irq_bucket_init 0 5"
  obtain b' as where r: "irq_bucket_arrivals ?b [5, 6, 20006] = (b', as)" by fastforce
  have s: "sorted (last_refill ?b # [5, 6, 20006])" by (simp add: irq_bucket_init_def)
  from irq_rate_bounded [OF r init_wf s] have "allowed as * freq \<le> 100 * freq + 20001 * 1000"
    by (simp add: irq_bucket_init_def irq_rl_params)
  moreover have "as = replicate 3 IRQ_RL_ALLOW"
    using r by (simp add: irq_bucket_init_def irq_rl_params irq_bucket_consume_def Let_def
        irq_bucket_refill_def drain_loop_eq numeral_3_eq_3)
  ultimately show ?thesis using r by blast
qed

text \<open>
  \<open>irq_bucket_consume\<close> implements the contract of its header comment: on a well-formed
  bucket it refills, pays for the deferred interrupts first, lets the interrupt through exactly
  if a token is left, defers it exactly if there is none and the buffer has room, drops and
  counts it otherwise; the bucket stays well-formed and its parameters do not change.
\<close>

theorem irq_consume_contract:
  assumes "bucket_wf b" "irq_bucket_consume b now = (b', a)"
  shows "spec_consume (unat (max_deferred b)) (abs_bucket (irq_bucket_refill b now)) = (abs_bucket b', a)
    \<and> bucket_wf b' \<and> params_eq b b'
    \<and> dropped b' = (if a = IRQ_RL_DROPPED then dropped b + 1 else dropped b)"
  using consume_refines [OF assms(2)] consume_wf [OF assms] consume_params [OF assms(2)] assms(2)
  by (auto simp: irq_bucket_consume_def drain_loop_eq Let_def split: if_splits)

theorem irq_consume_contract_witness:
  "let b = (irq_bucket_init 0 0)\<lparr>tokens := 2, deferred_count := 8\<rparr>; (b', a) = irq_bucket_consume b 10 in
    a = IRQ_RL_DEFERRED \<and> abs_bucket b' = (0, 7) \<and> bucket_wf b'"
proof -
  let ?b = "(irq_bucket_init 0 0)\<lparr>tokens := 2, deferred_count := 8\<rparr>"
  obtain b' a where c: "irq_bucket_consume ?b 10 = (b', a)" by fastforce
  have "bucket_wf ?b" by (simp add: bucket_wf_def irq_bucket_init_def irq_rl_params)
  from irq_consume_contract [OF this c] show ?thesis
    unfolding Let_def c prod.case
    by (auto simp: irq_bucket_init_def irq_rl_params abs_bucket_def spec_consume_def
        irq_bucket_refill_def Let_def)
qed

text \<open>
  A source that keeps to its rate is never throttled: from a fresh bucket of either level,
  if successive arrivals are at least one token period apart (and less than $2^{40}$ ticks, the
  range in which the counters do not wrap), every interrupt is let through.
\<close>

theorem irq_rate_respected_never_throttled:
  assumes "irq_bucket_arrivals (irq_bucket_init c t0) ts = (b', as)"
    and "spaced (if 1 \<le> c then 1000 else 10000) (2 ^ 40) (t0 # ts)"
  shows "set as \<subseteq> {IRQ_RL_ALLOW} \<and> dropped b' = 0 \<and> deferred_count b' = 0"
proof (rule spaced_arrivals [OF assms(1) init_params_ok init_wf])
  show "spaced (if 1 \<le> c then 1000 else 10000) (2 ^ 40) (last_refill (irq_bucket_init c t0) # ts)"
    using assms(2) by (cases "1 \<le> c") (simp_all add: irq_bucket_init_def)
qed (simp_all add: irq_bucket_init_def irq_rl_params)

theorem irq_rate_respected_never_throttled_witness:
  "set (snd (irq_bucket_arrivals (irq_bucket_init 1 0) [1000, 2000, 5000])) \<subseteq> {IRQ_RL_ALLOW}"
proof -
  obtain b' as where r: "irq_bucket_arrivals (irq_bucket_init 1 0) [1000, 2000, 5000] = (b', as)"
    by fastforce
  have "spaced (if (1::u32) \<le> 1 then 1000 else 10000) (2 ^ 40) (0 # [1000, 2000, 5000])" by simp
  from irq_rate_respected_never_throttled [OF r this] r show ?thesis by simp
qed

text \<open>
  The 32-bit refill loses budget after a long idle time: the token counter of a fresh
  high-criticality bucket wraps to zero when the source stays quiet for exactly
  4294966296000 ticks (about five days), and the next interrupt is deferred although the
  bucket should be full.
\<close>

theorem irq_refill_wraps:
  "tokens (irq_bucket_refill (irq_bucket_init 1 t) (t + 4294966296000)) = 0
    \<and> snd (irq_bucket_consume (irq_bucket_init 1 t) (t + 4294966296000)) = IRQ_RL_DEFERRED"
  by (simp add: irq_bucket_consume_def irq_bucket_init_def irq_bucket_refill_def irq_rl_params
      Let_def drain_loop_eq)

end
