(* ===== verification/Health_Monitor.thy ===== *)
theory Health_Monitor
  imports Prelude
begin

text \<open>
  The heartbeat monitor, \<open>src/core/health_monitor.c\<close> and \<open>src/core/inc/health_monitor.h\<close>,
  and the decision of \<open>vm_recovery_start\<close> in \<open>src/core/vm_recovery.c\<close>. The reads of the time
  CSR are the arguments \<open>now\<close>; the flag \<open>rec\<close> stands for the build option \<open>BAO_RECOVERY\<close>.
\<close>

section \<open>States, configuration and operations\<close>

datatype vm_health_status = VM_HEALTHY | VM_SUSPECT | VM_UNHEALTHY | VM_NOT_MONITORED | VM_RECOVERING

record vm_health =
  status :: vm_health_status
  last_heartbeat :: u64
  missed_count :: u32
  max_missed :: u32
  heartbeat_timeout :: u64
  recovery_count :: u32

record vm_health_config =
  enabled :: bool
  heartbeat_period_ms :: u64
  timeout_ms :: u64
  cfg_max_missed :: u32
  auto_recover :: bool
  max_recoveries :: u32

definition HEALTH_TIMER_FREQ :: u64 where "HEALTH_TIMER_FREQ = 10000000"

definition HEALTH_MS_TO_TICKS :: "u64 \<Rightarrow> u64" where
  "HEALTH_MS_TO_TICKS ms = (ms * HEALTH_TIMER_FREQ) div 1000"

definition HEALTH_DEFAULT_TIMEOUT_MS :: u64 where "HEALTH_DEFAULT_TIMEOUT_MS = 5000"
definition HEALTH_DEFAULT_MAX_MISSED :: u32 where "HEALTH_DEFAULT_MAX_MISSED = 3"

definition HEALTH_WATCHDOG_TICKS :: u64 where "HEALTH_WATCHDOG_TICKS = HEALTH_MS_TO_TICKS 2000"

fun health_status_str :: "vm_health_status \<Rightarrow> string" where
  "health_status_str VM_HEALTHY = ''HEALTHY''"
| "health_status_str VM_SUSPECT = ''SUSPECT''"
| "health_status_str VM_UNHEALTHY = ''UNHEALTHY''"
| "health_status_str VM_NOT_MONITORED = ''NOT_MONITORED''"
| "health_status_str VM_RECOVERING = ''RECOVERING''"

text \<open>The configuration is \<open>None\<close> when the pointer is \<open>NULL\<close>.\<close>

definition health_monitor_init :: "vm_health \<Rightarrow> vm_health_config option \<Rightarrow> u64 \<Rightarrow> vm_health" where
  "health_monitor_init h cfg now =
    (case cfg of
       None \<Rightarrow> h\<lparr>status := VM_NOT_MONITORED, last_heartbeat := 0, missed_count := 0, max_missed := 0,
                 heartbeat_timeout := 0\<rparr>
     | Some c \<Rightarrow>
         if \<not> enabled c
         then h\<lparr>status := VM_NOT_MONITORED, last_heartbeat := 0, missed_count := 0, max_missed := 0,
                heartbeat_timeout := 0\<rparr>
         else h\<lparr>status := VM_HEALTHY, last_heartbeat := now, missed_count := 0,
                max_missed := (if 0 < cfg_max_missed c then cfg_max_missed c else HEALTH_DEFAULT_MAX_MISSED),
                heartbeat_timeout := (if 0 < timeout_ms c then HEALTH_MS_TO_TICKS (timeout_ms c)
                                      else HEALTH_MS_TO_TICKS HEALTH_DEFAULT_TIMEOUT_MS)\<rparr>)"

definition health_monitor_heartbeat :: "vm_health \<Rightarrow> u64 \<Rightarrow> vm_health" where
  "health_monitor_heartbeat h now =
    (if status h = VM_NOT_MONITORED then h
     else
       let h1 = h\<lparr>last_heartbeat := now, missed_count := 0\<rparr> in
       if status h1 \<noteq> VM_HEALTHY then h1\<lparr>status := VM_HEALTHY\<rparr> else h1)"

text \<open>
  \<open>vm_recovery_start\<close>: the returned flag says that the function went past its guards, that is,
  broadcast \<open>VM_RESET\<close> to the other cores of the VM and entered the recovery protocol.
\<close>

definition vm_recovery_start :: "bool \<Rightarrow> vm_health_config \<Rightarrow> vm_health \<Rightarrow> vm_health \<times> bool" where
  "vm_recovery_start rec cfg h =
    (if rec then
       if \<not> auto_recover cfg then (h, False)
       else if 0 < max_recoveries cfg \<and> max_recoveries cfg \<le> recovery_count h then (h, False)
       else if status h = VM_RECOVERING then (h, False)
       else (h\<lparr>status := VM_RECOVERING, recovery_count := recovery_count h + 1\<rparr>, True)
     else (h, False))"

definition health_monitor_check :: "bool \<Rightarrow> vm_health_config \<Rightarrow> vm_health \<Rightarrow> u64 \<Rightarrow> vm_health \<times> bool" where
  "health_monitor_check rec cfg h now =
    (if status h = VM_NOT_MONITORED \<or> status h = VM_RECOVERING then (h, False)
     else
       let elapsed = now - last_heartbeat h in
       if elapsed \<le> heartbeat_timeout h then (h, False)
       else
         let h1 = h\<lparr>missed_count := missed_count h + 1\<rparr>; prev = status h1 in
         if max_missed h1 \<le> missed_count h1 then
           let h2 = h1\<lparr>status := VM_UNHEALTHY\<rparr> in
           if prev \<noteq> VM_UNHEALTHY then vm_recovery_start rec cfg h2 else (h2, False)
         else (h1\<lparr>status := VM_SUSPECT\<rparr>, False))"

section \<open>Histories\<close>

text \<open>
  What happens to the health record of one VM: the guest's heartbeats, the timer's checks and,
  when a recovery has run, the re-initialisation at its end.
\<close>

datatype health_event = Heartbeat u64 | Check u64 | Recovered u64

fun health_step :: "bool \<Rightarrow> vm_health_config \<Rightarrow> vm_health \<Rightarrow> health_event \<Rightarrow> vm_health \<times> bool" where
  "health_step rec cfg h (Heartbeat t) = (health_monitor_heartbeat h t, False)"
| "health_step rec cfg h (Check t) = health_monitor_check rec cfg h t"
| "health_step rec cfg h (Recovered t) = (health_monitor_init h (Some cfg) t, False)"

fun health_run :: "bool \<Rightarrow> vm_health_config \<Rightarrow> vm_health \<Rightarrow> health_event list \<Rightarrow> vm_health \<times> nat" where
  "health_run rec cfg h [] = (h, 0)"
| "health_run rec cfg h (e # es) =
    (let (h1, started) = health_step rec cfg h e; (h2, k) = health_run rec cfg h1 es
     in (h2, (if started then k + 1 else k)))"

definition overdue :: "vm_health \<Rightarrow> u64 \<Rightarrow> bool" where
  "overdue h now \<longleftrightarrow> heartbeat_timeout h < now - last_heartbeat h"

lemmas health_ops = health_monitor_check_def health_monitor_heartbeat_def vm_recovery_start_def
  health_monitor_init_def Let_def

lemma check_not_overdue: "\<not> overdue h t \<Longrightarrow> health_monitor_check rec cfg h t = (h, False)"
  by (auto simp: health_ops overdue_def not_less)

lemma check_keeps:
  "health_monitor_check rec cfg h t = (h', s) \<Longrightarrow>
    last_heartbeat h' = last_heartbeat h \<and> max_missed h' = max_missed h
    \<and> heartbeat_timeout h' = heartbeat_timeout h"
  by (auto simp: health_ops split: if_splits)

text \<open>The automaton of a single overdue check of a monitored VM.\<close>

lemma check_overdue:
  assumes "overdue h t" "status h \<notin> {VM_NOT_MONITORED, VM_RECOVERING}"
    and "health_monitor_check rec cfg h t = (h', s)"
  shows "missed_count h' = missed_count h + 1
    \<and> (status h' = VM_SUSPECT \<longleftrightarrow> missed_count h + 1 < max_missed h)
    \<and> (status h' \<in> {VM_UNHEALTHY, VM_RECOVERING} \<longleftrightarrow> max_missed h \<le> missed_count h + 1)
    \<and> (s \<longleftrightarrow> status h' = VM_RECOVERING)"
  using assms by (auto simp: health_ops overdue_def split: if_splits)

lemma recovery_started:
  assumes "vm_recovery_start rec cfg h = (h', True)"
  shows "rec \<and> auto_recover cfg \<and> status h \<noteq> VM_RECOVERING \<and> status h' = VM_RECOVERING
    \<and> recovery_count h' = recovery_count h + 1
    \<and> (0 < max_recoveries cfg \<longrightarrow> recovery_count h < max_recoveries cfg)"
  using assms by (auto simp: health_ops split: if_splits)

subsection \<open>Detection\<close>

lemma silent_checks:
  assumes "status h \<notin> {VM_NOT_MONITORED, VM_RECOVERING}" "list_all (overdue h) ts"
    and "unat (missed_count h) + length ts < 2 ^ 32"
    and "status h = VM_UNHEALTHY \<longrightarrow> max_missed h \<le> missed_count h"
    and "health_run rec cfg h (map Check ts) = (h', k)" "ts \<noteq> []"
  shows "status h' \<in> {VM_UNHEALTHY, VM_RECOVERING}
      \<longleftrightarrow> unat (max_missed h) \<le> unat (missed_count h) + length ts"
  using assms
proof (induction ts arbitrary: h k)
  case (Cons t ts)
  obtain h1 s where c: "health_monitor_check rec cfg h t = (h1, s)" by fastforce
  obtain k1 where r: "health_run rec cfg h1 (map Check ts) = (h', k1)"
    using Cons.prems(5) c by (auto split: prod.splits)
  have od: "overdue h t" using Cons.prems(2) by simp
  note co = check_overdue [OF od Cons.prems(1) c] and ck = check_keeps [OF c]
  have u: "unat (missed_count h + 1) = Suc (unat (missed_count h))"
    using Cons.prems(3) by (simp add: unat_word_ariths)
  show ?case
  proof (cases "ts = [] \<or> status h1 = VM_RECOVERING")
    case True
    have stuck: "health_run rec cfg h1 (map Check ts) = (h1, 0)" if "status h1 = VM_RECOVERING"
      using that by (induction ts) (auto simp: health_monitor_check_def)
    from True show ?thesis
    proof
      assume "ts = []"
      with r co u show ?thesis by (auto simp: word_le_nat_alt)
    next
      assume s: "status h1 = VM_RECOVERING"
      with r stuck have "h' = h1" by simp
      with s co u show ?thesis by (auto simp: word_le_nat_alt)
    qed
  next
    case False
    have 1: "status h1 \<notin> {VM_NOT_MONITORED, VM_RECOVERING}"
      using False co by (cases "missed_count h + 1 < max_missed h") auto
    have 2: "list_all (overdue h1) ts"
      using Cons.prems(2) ck by (auto simp: list_all_iff overdue_def)
    have 3: "unat (missed_count h1) + length ts < 2 ^ 32" using Cons.prems(3) co u by simp
    have 4: "status h1 = VM_UNHEALTHY \<longrightarrow> max_missed h1 \<le> missed_count h1" using co ck by auto
    from Cons.IH [OF 1 2 3 4 r] False ck co u show ?thesis by simp
  qed
qed simp

subsection \<open>Guests that beat in time\<close>

text \<open>Every check finds the VM within its deadline.\<close>

fun in_time :: "u64 \<Rightarrow> u64 \<Rightarrow> health_event list \<Rightarrow> bool" where
  "in_time timeout lasthb [] \<longleftrightarrow> True"
| "in_time timeout lasthb (Heartbeat t # es) \<longleftrightarrow> in_time timeout t es"
| "in_time timeout lasthb (Check t # es) \<longleftrightarrow> t - lasthb \<le> timeout \<and> in_time timeout lasthb es"
| "in_time timeout lasthb (Recovered t # es) \<longleftrightarrow> False"

lemma in_time_healthy:
  assumes "status h = VM_HEALTHY" "missed_count h = 0"
    and "in_time (heartbeat_timeout h) (last_heartbeat h) es" "health_run rec cfg h es = (h', k)"
  shows "status h' = VM_HEALTHY \<and> missed_count h' = 0 \<and> k = 0"
  using assms
proof (induction es arbitrary: h k)
  case (Cons e es)
  show ?case
  proof (cases e)
    case (Heartbeat t)
    with Cons.prems have "status (health_monitor_heartbeat h t) = VM_HEALTHY"
      "missed_count (health_monitor_heartbeat h t) = 0"
      "in_time (heartbeat_timeout (health_monitor_heartbeat h t)) (last_heartbeat (health_monitor_heartbeat h t)) es"
      by (simp_all add: health_monitor_heartbeat_def)
    from Cons.IH [OF this] Cons.prems(4) Heartbeat show ?thesis by (auto split: prod.splits)
  next
    case (Check t)
    with Cons.prems(3) have "\<not> overdue h t" by (simp add: overdue_def not_less)
    then have "health_monitor_check rec cfg h t = (h, False)" by (rule check_not_overdue)
    with Cons Check show ?thesis by (auto split: prod.splits)
  next
    case (Recovered t)
    with Cons.prems show ?thesis by simp
  qed
qed simp

subsection \<open>The number of recoveries\<close>

lemma health_step_recoveries:
  assumes "health_step rec cfg h e = (h', s)" "0 < max_recoveries cfg"
    and "recovery_count h \<le> max_recoveries cfg"
  shows "unat (recovery_count h') = unat (recovery_count h) + (if s then 1 else 0)
    \<and> recovery_count h' \<le> max_recoveries cfg"
proof (cases e)
  case (Check t)
  have "unat (recovery_count h + 1) = Suc (unat (recovery_count h))"
    if "recovery_count h < max_recoveries cfg"
    using that unat_lt_u32 [of "max_recoveries cfg"]
    by (simp add: unat_word_ariths word_less_nat_alt mod_less del: unat_lt_u32)
  with Check assms show ?thesis
    by (auto simp: health_ops word_le_nat_alt word_less_nat_alt split: if_splits)
qed (use assms in \<open>auto simp: health_ops\<close>)

lemma health_run_recoveries:
  assumes "health_run rec cfg h es = (h', k)" "0 < max_recoveries cfg"
    and "recovery_count h \<le> max_recoveries cfg"
  shows "unat (recovery_count h') = unat (recovery_count h) + k
    \<and> recovery_count h' \<le> max_recoveries cfg"
  using assms
proof (induction es arbitrary: h k)
  case (Cons e es)
  obtain h1 s where c: "health_step rec cfg h e = (h1, s)" by fastforce
  obtain k1 where r: "health_run rec cfg h1 es = (h', k1)" and k: "k = (if s then k1 + 1 else k1)"
    using Cons.prems(1) c by (auto split: prod.splits)
  from health_step_recoveries [OF c Cons.prems(2,3)] Cons.IH [OF r Cons.prems(2)] k
  show ?case by (auto split: if_splits)
qed simp


section \<open>Properties\<close>

text \<open>
  C2. A silent guest is detected, exactly at its threshold: after $n$ checks of a monitored VM,
  all past the deadline with no heartbeat in between, the VM is unhealthy or recovering if and
  only if the missed checks have reached \<open>max_missed\<close>. The bound keeps the 32-bit counter of
  missed checks from wrapping.
\<close>

theorem health_silent_guest_detected:
  assumes "status h \<in> {VM_HEALTHY, VM_SUSPECT}" "list_all (overdue h) ts" "ts \<noteq> []"
    and "unat (missed_count h) + length ts < 2 ^ 32"
    and "health_run rec cfg h (map Check ts) = (h', k)"
  shows "status h' \<in> {VM_UNHEALTHY, VM_RECOVERING}
      \<longleftrightarrow> unat (max_missed h) \<le> unat (missed_count h) + length ts"
  using assms(1) by (intro silent_checks [OF _ assms(2,4) _ assms(5,3)]) auto

definition demo_cfg :: vm_health_config where
  "demo_cfg = \<lparr>enabled = True, heartbeat_period_ms = 0, timeout_ms = 1, cfg_max_missed = 2,
    auto_recover = True, max_recoveries = 1\<rparr>"

definition demo_health :: vm_health where
  "demo_health = health_monitor_init
     \<lparr>status = VM_NOT_MONITORED, last_heartbeat = 0, missed_count = 0, max_missed = 0,
      heartbeat_timeout = 0, recovery_count = 0\<rparr> (Some demo_cfg) 0"

lemmas demo_defs = demo_cfg_def demo_health_def health_monitor_init_def HEALTH_MS_TO_TICKS_def
  HEALTH_TIMER_FREQ_def

theorem health_silent_guest_detected_witness:
  "\<exists>h' k. health_run True demo_cfg demo_health (map Check [10001, 20002]) = (h', k)
    \<and> status h' \<in> {VM_UNHEALTHY, VM_RECOVERING}"
proof -
  obtain h' k where r: "health_run True demo_cfg demo_health (map Check [10001, 20002]) = (h', k)"
    by fastforce
  have "status demo_health \<in> {VM_HEALTHY, VM_SUSPECT}"
    "list_all (overdue demo_health) [10001, 20002]" "[10001, 20002] \<noteq> ([] :: u64 list)"
    "unat (missed_count demo_health) + length [10001, 20002 :: u64] < 2 ^ 32"
    by (simp_all add: demo_defs overdue_def)
  from health_silent_guest_detected [OF this r]
  have "status h' \<in> {VM_UNHEALTHY, VM_RECOVERING}" by (simp add: demo_defs)
  with r show ?thesis by blast
qed

text \<open>
  C3. No false alarm: a healthy VM whose every check falls within the timeout of its latest
  heartbeat stays healthy, its missed count stays zero and no recovery is started.
\<close>

theorem health_no_false_alarm:
  assumes "status h = VM_HEALTHY" "missed_count h = 0"
    and "in_time (heartbeat_timeout h) (last_heartbeat h) es" "health_run rec cfg h es = (h', k)"
  shows "status h' = VM_HEALTHY \<and> missed_count h' = 0 \<and> k = 0"
  using assms by (rule in_time_healthy)

theorem health_no_false_alarm_witness:
  "\<exists>h' k. health_run True demo_cfg demo_health [Check 10000, Heartbeat 15000, Check 25000] = (h', k)
    \<and> status h' = VM_HEALTHY \<and> k = 0"
proof -
  obtain h' k where r: "health_run True demo_cfg demo_health
      [Check 10000, Heartbeat 15000, Check 25000] = (h', k)" by fastforce
  have "status demo_health = VM_HEALTHY" "missed_count demo_health = 0"
    "in_time (heartbeat_timeout demo_health) (last_heartbeat demo_health)
      [Check 10000, Heartbeat 15000, Check 25000]"
    by (simp_all add: demo_defs)
  from health_no_false_alarm [OF this r] r show ?thesis by blast
qed

text \<open>
  C4. Recoveries are bounded: with \<open>max_recoveries\<close> configured, no sequence of heartbeats,
  checks and completed recoveries starts more recoveries than configured, over the whole life
  of the record; the recovery counter counts exactly the recoveries started.
\<close>

theorem health_recoveries_bounded:
  assumes "health_run rec cfg h es = (h', k)" "0 < max_recoveries cfg"
    and "recovery_count h \<le> max_recoveries cfg"
  shows "unat (recovery_count h') = unat (recovery_count h) + k
    \<and> unat (recovery_count h) + k \<le> unat (max_recoveries cfg)"
  using health_run_recoveries [OF assms] by (auto simp: word_le_nat_alt)

theorem health_recoveries_bounded_witness:
  "\<exists>h' k. health_run True demo_cfg demo_health
      (map Check [10001, 20002] @ [Recovered 30000] @ map Check [50001, 60002]) = (h', k)
    \<and> k \<le> 1 \<and> unat (recovery_count h') = k"
proof -
  obtain h' k where r: "health_run True demo_cfg demo_health
      (map Check [10001, 20002] @ [Recovered 30000] @ map Check [50001, 60002]) = (h', k)" by fastforce
  have "0 < max_recoveries demo_cfg" "recovery_count demo_health \<le> max_recoveries demo_cfg"
    by (simp_all add: demo_defs)
  from health_recoveries_bounded [OF r this] have "k \<le> 1 \<and> unat (recovery_count h') = k"
    by (simp add: demo_defs)
  with r show ?thesis by blast
qed

end
