(* ===== verification/Bits.thy ===== *)
theory Bits
  imports Prelude
begin

text \<open>
  The bit operations of \<open>lib/inc/bit.h\<close> and the arithmetic macros and range predicates of
  \<open>lib/inc/util.h\<close>. The macro \<open>BIT_OPS_GEN\<close> is instantiated at 32 and 64 bits; here each
  operation is one definition that is polymorphic in the width.
\<close>

section \<open>bit.h\<close>

text \<open>A left shift, undefined in C when the amount reaches the width.\<close>

definition shl :: "'a::len word \<Rightarrow> nat \<Rightarrow> 'a word res" where
  "shl w n = (if n < LENGTH('a) then Inr (push_bit n w) else Inl Bad_shift)"

text \<open>
  \<open>BIT_MASK(OFF, LEN)\<close> shifts \<open>1\<close> by \<open>LEN - 1\<close> and then once more, so that a mask of the
  whole word is possible. \<open>LEN\<close> is a \<open>size_t\<close>: with \<open>LEN = 0\<close> the first shift is by
  \<open>SIZE_MAX\<close>, which is undefined.
\<close>

definition BIT_MASK :: "nat \<Rightarrow> nat \<Rightarrow> 'a::len word res" where
  "BIT_MASK off len =
     (if len = 0 then Inl Bad_shift
      else bindR (shl 1 (len - 1)) (\<lambda>m. shl (push_bit 1 m - 1) off))"

definition bit_get :: "'a::len word \<Rightarrow> nat \<Rightarrow> 'a word res" where
  "bit_get w off = bindR (shl 1 off) (\<lambda>m. Inr (w AND m))"

definition bit_set :: "'a::len word \<Rightarrow> nat \<Rightarrow> 'a word res" where
  "bit_set w off = bindR (shl 1 off) (\<lambda>m. Inr (w OR m))"

definition bit_clear :: "'a::len word \<Rightarrow> nat \<Rightarrow> 'a word res" where
  "bit_clear w off = bindR (shl 1 off) (\<lambda>m. Inr (w AND NOT m))"

definition bit_extract :: "'a::len word \<Rightarrow> nat \<Rightarrow> nat \<Rightarrow> 'a word res" where
  "bit_extract w off len =
     (if off < LENGTH('a)
      then bindR (BIT_MASK 0 len) (\<lambda>m. Inr (drop_bit off w AND m))
      else Inl Bad_shift)"

definition bit_insert :: "'a::len word \<Rightarrow> 'a word \<Rightarrow> nat \<Rightarrow> nat \<Rightarrow> 'a word res" where
  "bit_insert w val off len =
     bindR (BIT_MASK off len) (\<lambda>m.
     bindR (BIT_MASK 0 len) (\<lambda>m0.
     bindR (shl (m0 AND val) off) (\<lambda>v. Inr ((NOT m AND w) OR v))))"

lemma shl_in [simp]: "n < LENGTH('a) \<Longrightarrow> shl (w :: 'a::len word) n = Inr (push_bit n w)"
  by (simp add: shl_def)

text \<open>The mask covers exactly the bits \<open>[off, off + len)\<close> that lie inside the word.\<close>

lemma BIT_MASK_eq:
  assumes "0 < len" "len \<le> LENGTH('a)" "off < LENGTH('a)"
  shows "BIT_MASK off len = Inr (push_bit off (mask len) :: 'a::len word)"
proof -
  have "push_bit 1 (push_bit (len - 1) (1 :: 'a word)) = 2 ^ len"
    using assms(1) by (cases len) (simp_all add: push_bit_eq_mult)
  with assms show ?thesis
    by (simp add: BIT_MASK_def mask_eq_exp_minus_1)
qed

lemma BIT_MASK_0: "BIT_MASK off 0 = Inl Bad_shift"
  by (simp add: BIT_MASK_def)

lemma bit_field_mask:
  "bit (push_bit off (mask len) :: 'a::len word) k \<longleftrightarrow> off \<le> k \<and> k < off + len \<and> k < LENGTH('a)"
  by (auto simp: bit_push_bit_iff bit_mask_iff)

lemma bit_set_bits:
  assumes "off < LENGTH('a)" and "bit_set (w :: 'a::len word) off = Inr w'"
  shows "bit w' k \<longleftrightarrow> bit w k \<or> k = off"
  using assms by (auto simp: bit_set_def bit_or_iff bit_one_shift)

lemma bit_clear_bits:
  assumes "off < LENGTH('a)" and "bit_clear (w :: 'a::len word) off = Inr w'"
  shows "bit w' k \<longleftrightarrow> bit w k \<and> k \<noteq> off"
  using assms
  by (auto simp: bit_clear_def bit_and_iff bit_not_iff bit_one_shift intro: bit_imp_le_length)

text \<open>
  \<open>bit_insert\<close> writes a field and leaves the other bits alone, and \<open>bit_extract\<close> reads back
  what was written, cut to the length of the field.
\<close>

lemma bit_insert_bits:
  assumes "0 < len" "off + len \<le> LENGTH('a)"
  shows "\<exists>w'. bit_insert (w :: 'a::len word) val off len = Inr w' \<and>
    (\<forall>k < LENGTH('a). bit w' k = (if off \<le> k \<and> k < off + len then bit val (k - off) else bit w k))"
proof -
  have off: "off < LENGTH('a)" and len: "len \<le> LENGTH('a)" using assms by simp_all
  show ?thesis
    using assms off len
    by (auto simp: bit_insert_def BIT_MASK_eq bit_or_iff bit_and_iff bit_not_iff
          bit_field_mask bit_push_bit_iff bit_mask_iff)
qed

lemma bit_extract_insert:
  assumes "0 < len" "off + len \<le> LENGTH('a)"
  shows "bindR (bit_insert (w :: 'a::len word) val off len) (\<lambda>w'. bit_extract w' off len) =
    Inr (take_bit len val)"
proof -
  have off: "off < LENGTH('a)" and len: "len \<le> LENGTH('a)" using assms by simp_all
  obtain w' where w': "bit_insert w val off len = Inr w'"
    and bits: "\<And>k. k < LENGTH('a) \<Longrightarrow>
      bit w' k = (if off \<le> k \<and> k < off + len then bit val (k - off) else bit w k)"
    using bit_insert_bits [OF assms, of w val] by auto
  have "drop_bit off w' AND mask len = take_bit len val"
    using assms by (intro bit_word_eqI) (auto simp: bit_and_iff bit_drop_bit_eq bit_mask_iff bit_take_bit_iff bits)
  with w' off len assms(1) show ?thesis
    by (simp add: bit_extract_def BIT_MASK_eq)
qed

section \<open>util.h\<close>

definition PAGE_SIZE :: u64 where
  "PAGE_SIZE = 0x1000"

definition ALIGN :: "u64 \<Rightarrow> u64 \<Rightarrow> u64" where
  "ALIGN val to = ((val + to - 1) div to) * to"

definition IS_ALIGNED :: "u64 \<Rightarrow> u64 \<Rightarrow> bool" where
  "IS_ALIGNED val to = (val mod to = 0)"

definition ALIGN_FLOOR :: "u64 \<Rightarrow> u64 \<Rightarrow> u64" where
  "ALIGN_FLOOR val to = val AND NOT (to - 1)"

definition NUM_PAGES :: "u64 \<Rightarrow> u64" where
  "NUM_PAGES sz = ALIGN sz PAGE_SIZE div PAGE_SIZE"

definition range_overlap_range :: "u64 \<Rightarrow> u64 \<Rightarrow> u64 \<Rightarrow> u64 \<Rightarrow> bool" where
  "range_overlap_range base1 size1 base2 size2 =
     (let reg1_lim = base1 + size1 - 1;
          reg2_lim = base2 + size2 - 1
      in (base1 \<ge> base2 \<and> base1 \<le> reg2_lim) \<or>
         (reg1_lim \<ge> base2 \<and> reg1_lim \<le> reg2_lim) \<or>
         (base1 \<le> base2 \<and> reg1_lim \<ge> reg2_lim))"

definition range_in_range :: "u64 \<Rightarrow> u64 \<Rightarrow> u64 \<Rightarrow> u64 \<Rightarrow> bool" where
  "range_in_range base1 size1 base2 size2 =
     (let limit1 = base1 + size1;
          limit2 = base2 + size2;
          limit1 = (if limit1 < base1 then - 1 else limit1);
          limit2 = (if limit2 < base2 then - 1 else limit2)
      in base1 \<ge> base2 \<and> limit1 \<le> limit2)"

definition in_range :: "u64 \<Rightarrow> u64 \<Rightarrow> u64 \<Rightarrow> bool" where
  "in_range addr base sz = range_in_range addr 0 base sz"

lemma PAGE_SIZE_unat [simp]: "unat PAGE_SIZE = 4096"
  by (simp add: PAGE_SIZE_def)

lemma unat_ALIGN:
  assumes "unat sz + 4095 < 2 ^ 64"
  shows "unat (ALIGN sz PAGE_SIZE) = (unat sz + 4095) div 4096 * 4096"
proof -
  let ?q = "(unat sz + 4095) div 4096"
  have "unat (sz + PAGE_SIZE - 1) = unat sz + 4095"
  proof -
    have *: "sz + PAGE_SIZE - 1 = sz + 4095" by (simp add: PAGE_SIZE_def)
    show ?thesis unfolding * using assms unat_add_no_wrap [of sz 4095] by simp
  qed
  then have q: "unat ((sz + PAGE_SIZE - 1) div PAGE_SIZE) = ?q"
    by (simp add: unat_div)
  have "?q * 4096 \<le> unat sz + 4095" by simp
  with assms have "?q * 4096 < 2 ^ 64" by linarith
  with q show ?thesis by (simp add: ALIGN_def unat_word_ariths)
qed

lemma unat_NUM_PAGES:
  assumes "unat sz + 4095 < 2 ^ 64"
  shows "unat (NUM_PAGES sz) = (unat sz + 4095) div 4096"
  by (simp add: NUM_PAGES_def unat_div unat_ALIGN [OF assms])

text \<open>
  Without wrap-around and for non-empty ranges, \<open>range_overlap_range\<close> holds exactly when the
  two intervals share an address, and \<open>range_in_range\<close> exactly when one contains the other.
\<close>

lemma range_overlap_range_iff:
  assumes "size1 \<noteq> 0" "size2 \<noteq> 0"
    and "unat base1 + unat size1 \<le> 2 ^ 64" "unat base2 + unat size2 \<le> 2 ^ 64"
  shows "range_overlap_range base1 size1 base2 size2 \<longleftrightarrow>
    {unat base1 ..< unat base1 + unat size1} \<inter> {unat base2 ..< unat base2 + unat size2} \<noteq> {}"
proof -
  have lim: "unat (b + s - 1) = unat b + unat s - 1"
    if "s \<noteq> 0" "unat b + unat s \<le> 2 ^ 64" for b s :: u64
  proof -
    have *: "b + s - 1 = b + (s - 1)" by simp
    have "unat (s - 1) = unat s - 1" using that(1) by (simp add: unat_minus_one)
    moreover have "0 < unat s" using that(1) by (simp add: unat_gt_0)
    ultimately show ?thesis unfolding * using that(2) unat_add_no_wrap [of b "s - 1"] by simp
  qed
  have "0 < unat size1" "0 < unat size2" using assms(1,2) by (simp_all add: unat_gt_0)
  then have "{unat base1 ..< unat base1 + unat size1} \<inter> {unat base2 ..< unat base2 + unat size2} \<noteq> {}
    \<longleftrightarrow> unat base1 < unat base2 + unat size2 \<and> unat base2 < unat base1 + unat size1"
    by (auto simp: disjoint_iff intro: exI [of _ "max (unat base1) (unat base2)"])
  with lim [OF assms(1,3)] lim [OF assms(2,4)] \<open>0 < unat size1\<close> \<open>0 < unat size2\<close> show ?thesis
    by (auto simp: range_overlap_range_def Let_def word_le_nat_alt)
qed

lemma range_in_range_iff:
  assumes "unat base1 + unat size1 < 2 ^ 64" "unat base2 + unat size2 < 2 ^ 64"
  shows "range_in_range base1 size1 base2 size2 \<longleftrightarrow>
    unat base2 \<le> unat base1 \<and> unat base1 + unat size1 \<le> unat base2 + unat size2"
  using assms
  by (auto simp: range_in_range_def Let_def word_le_nat_alt word_less_nat_alt unat_add_no_wrap)

text \<open>
  \<open>in_range\<close> asks for a range of size 0, so the address one past the end still counts as in
  range.
\<close>

lemma in_range_iff:
  assumes "unat base + unat sz < 2 ^ 64"
  shows "in_range addr base sz \<longleftrightarrow> unat base \<le> unat addr \<and> unat addr \<le> unat base + unat sz"
  using assms unsigned_less [of addr] by (simp add: in_range_def range_in_range_iff)

end
