(* ===== verification/Cpu_Sync.thy ===== *)
theory Cpu_Sync
  imports Bits
begin

text \<open>
  The synchronisation barrier of \<open>src/core/inc/cpu.h\<close>. A token counts the arrivals of all
  cores in a \<open>size_t\<close>; an arrival waits until the count reaches the next multiple of the number
  of cores. The increment and the computation of \<open>next_count\<close> happen under the token's lock and
  are one step, the exit from the spinning loop is another, so that the cores interleave as
  they do.
\<close>

section \<open>The token\<close>

record cpu_synctoken =
  n :: u64
  ready :: bool
  count :: u64

definition cpu_sync_init :: "u64 \<Rightarrow> cpu_synctoken" where
  "cpu_sync_init k = \<lparr>n = k, ready = True, count = 0\<rparr>"

text \<open>
  \<open>None\<close>: still in the loop \<open>while (!token->ready)\<close>; otherwise the token and \<open>next_count\<close>, or
  the division by zero of \<open>ALIGN\<close> for a token of no cores.
\<close>

definition cpu_sync_arrive :: "cpu_synctoken \<Rightarrow> (cpu_synctoken \<times> u64) res option" where
  "cpu_sync_arrive tok =
    (if \<not> ready tok then None
     else let c = count tok + 1 in
       Some (if n tok = 0 then Inl Div_zero else Inr (tok\<lparr>count := c\<rparr>, ALIGN c (n tok))))"

text \<open>The condition of the final loop \<open>while (token->count < next_count)\<close>, negated.\<close>

definition cpu_sync_passed :: "cpu_synctoken \<Rightarrow> u64 \<Rightarrow> bool" where
  "cpu_sync_passed tok next_count \<longleftrightarrow> \<not> count tok < next_count"

text \<open>
  The cores at the barrier: \<open>bwaits c\<close> is the \<open>next_count\<close> of a core inside it, \<open>bpassed\<close> counts
  the barriers a core has left.
\<close>

record barrier_state =
  btoken :: cpu_synctoken
  bwaits :: "cpuid \<Rightarrow> u64 option"
  bpassed :: "cpuid \<Rightarrow> nat"

inductive barrier_step :: "cpuid set \<Rightarrow> barrier_state \<Rightarrow> cpuid \<Rightarrow> barrier_state \<Rightarrow> bool" for P where
  benter: "c \<in> P \<Longrightarrow> bwaits s c = None \<Longrightarrow> cpu_sync_arrive (btoken s) = Some (Inr (tok, k)) \<Longrightarrow>
    barrier_step P s c (s\<lparr>btoken := tok, bwaits := (bwaits s)(c := Some k)\<rparr>)"
| bleave: "c \<in> P \<Longrightarrow> bwaits s c = Some k \<Longrightarrow> cpu_sync_passed (btoken s) k \<Longrightarrow>
    barrier_step P s c (s\<lparr>bwaits := (bwaits s)(c := None), bpassed := (bpassed s)(c := Suc (bpassed s c))\<rparr>)"

inductive_cases barrier_stepE: "barrier_step P s c s'"

inductive barrier_steps :: "cpuid set \<Rightarrow> barrier_state \<Rightarrow> barrier_state \<Rightarrow> bool" for P where
  brefl: "barrier_steps P s s"
| bstep: "barrier_steps P s s1 \<Longrightarrow> barrier_step P s1 c s2 \<Longrightarrow> barrier_steps P s s2"

text \<open>How often a core has arrived at the barrier.\<close>

definition barrier_arrivals :: "barrier_state \<Rightarrow> cpuid \<Rightarrow> nat" where
  "barrier_arrivals s c = (if bwaits s c = None then bpassed s c else Suc (bpassed s c))"

section \<open>The ideal barrier\<close>

text \<open>
  The specification: the same barrier with counters of unbounded size. It is what the recovery
  of a VM is proved over; the barrier of the code refines it as long as its counter does not
  wrap (below).
\<close>

record ideal_token =
  parties :: nat
  opened :: bool
  arrived :: nat

definition ALIGN_COUNT :: "nat \<Rightarrow> nat \<Rightarrow> nat" where
  "ALIGN_COUNT val to = ((val + to - 1) div to) * to"

definition ideal_arrive :: "ideal_token \<Rightarrow> (ideal_token \<times> nat) option" where
  "ideal_arrive tok =
    (if \<not> opened tok then None
     else let c = arrived tok + 1 in Some (tok\<lparr>arrived := c\<rparr>, ALIGN_COUNT c (parties tok)))"

definition ideal_passed :: "ideal_token \<Rightarrow> nat \<Rightarrow> bool" where
  "ideal_passed tok next_count \<longleftrightarrow> \<not> arrived tok < next_count"

text \<open>
  \<open>waits c\<close> is the \<open>next_count\<close> of a core inside the barrier; \<open>passed\<close> counts the barriers a
  core has left.
\<close>

record sync_state =
  token :: ideal_token
  waits :: "cpuid \<Rightarrow> nat option"
  passed :: "cpuid \<Rightarrow> nat"

inductive sync_step :: "cpuid set \<Rightarrow> sync_state \<Rightarrow> cpuid \<Rightarrow> sync_state \<Rightarrow> bool" for P where
  enter: "c \<in> P \<Longrightarrow> waits s c = None \<Longrightarrow> ideal_arrive (token s) = Some (tok, k) \<Longrightarrow>
    sync_step P s c (s\<lparr>token := tok, waits := (waits s)(c := Some k)\<rparr>)"
| leave: "c \<in> P \<Longrightarrow> waits s c = Some k \<Longrightarrow> ideal_passed (token s) k \<Longrightarrow>
    sync_step P s c (s\<lparr>waits := (waits s)(c := None), passed := (passed s)(c := Suc (passed s c))\<rparr>)"

inductive_cases sync_stepE: "sync_step P s c s'"

inductive sync_steps :: "cpuid set \<Rightarrow> sync_state \<Rightarrow> sync_state \<Rightarrow> bool" for P where
  refl: "sync_steps P s s"
| step: "sync_steps P s s1 \<Longrightarrow> sync_step P s1 c s2 \<Longrightarrow> sync_steps P s s2"

definition arrivals :: "sync_state \<Rightarrow> cpuid \<Rightarrow> nat" where
  "arrivals s c = (if waits s c = None then passed s c else Suc (passed s c))"

text \<open>
  The invariant: in round \<open>r\<close> some of the cores have arrived once more than the others, the
  counter says how many, and each waits for the end of its own round.
\<close>

definition sync_inv :: "cpuid set \<Rightarrow> sync_state \<Rightarrow> nat \<Rightarrow> bool" where
  "sync_inv P s r \<longleftrightarrow> finite P \<and> 0 < card P \<and> parties (token s) = card P \<and> opened (token s)
    \<and> arrived (token s) = card P * r + card {c \<in> P. arrivals s c = Suc r}
    \<and> card {c \<in> P. arrivals s c = Suc r} < card P
    \<and> (\<forall>c \<in> P. arrivals s c = r \<or> arrivals s c = Suc r)
    \<and> (\<forall>c \<in> P. passed s c \<le> r)
    \<and> (\<forall>c \<in> P. \<forall>k. waits s c = Some k \<longrightarrow> k = card P * arrivals s c)"

lemma sync_invD:
  assumes "sync_inv P s r"
  shows "finite P" "0 < card P" "parties (token s) = card P" "opened (token s)"
    "arrived (token s) = card P * r + card {c \<in> P. arrivals s c = Suc r}"
    "card {c \<in> P. arrivals s c = Suc r} < card P"
    "\<And>c. c \<in> P \<Longrightarrow> arrivals s c = r \<or> arrivals s c = Suc r"
    "\<And>c. c \<in> P \<Longrightarrow> passed s c \<le> r"
    "\<And>c k. c \<in> P \<Longrightarrow> waits s c = Some k \<Longrightarrow> k = card P * arrivals s c"
  using assms unfolding sync_inv_def by blast+

lemma ALIGN_COUNT_round:
  assumes "0 < m" "m \<le> k"
  shows "ALIGN_COUNT (k * r + m) k = k * Suc r"
proof -
  have eq: "k * r + m + k - 1 = (m - 1) + k * Suc r" using assms by simp
  have "(m - 1) div k = 0" "k \<noteq> 0" using assms by simp_all
  then have "(k * r + m + k - 1) div k = Suc r"
    unfolding eq by (subst div_mult_self2) simp_all
  then show ?thesis by (simp add: ALIGN_COUNT_def)
qed

lemma sync_inv_start:
  assumes "finite P" "P \<noteq> {}" "token s = \<lparr>parties = card P, opened = True, arrived = card P * r\<rparr>"
    and "\<And>c. waits s c = None" "\<And>c. passed s c = r"
  shows "sync_inv P s r"
  using assms by (simp add: sync_inv_def arrivals_def card_gt_0_iff)

lemma sync_inv_enter:
  assumes inv: "sync_inv P s r" and c: "c \<in> P" "waits s c = None"
    and arr: "ideal_arrive (token s) = Some (tok, k)"
  shows "\<exists>r'. sync_inv P (s\<lparr>token := tok, waits := (waits s)(c := Some k)\<rparr>) r'"
proof -
  let ?s = "s\<lparr>token := tok, waits := (waits s)(c := Some k)\<rparr>"
  define A where "A = {d \<in> P. arrivals s d = Suc r}"
  have fin: "finite A" "finite P" using inv by (simp_all add: A_def sync_inv_def)
  have "arrivals s c = passed s c" using c by (simp add: arrivals_def)
  with sync_invD(7,8) [OF inv c(1)] have ac: "arrivals s c = r" "passed s c = r" by auto
  have cA: "c \<notin> A" using ac by (simp add: A_def)
  have A': "{d \<in> P. arrivals ?s d = Suc r} = insert c A"
    using ac(2) c(1) by (auto simp: A_def arrivals_def)
  then have cA': "card {d \<in> P. arrivals ?s d = Suc r} = Suc (card A)" using cA fin(1) by simp
  have lt: "Suc (card A) \<le> card P" using inv by (simp add: A_def sync_inv_def)
  have tok: "tok = (token s)\<lparr>arrived := card P * r + Suc (card A)\<rparr>" "k = card P * Suc r"
    using arr inv ALIGN_COUNT_round [of "Suc (card A)" "card P" r] lt
    by (auto simp: ideal_arrive_def sync_inv_def Let_def A_def)
  have arr': "arrivals (s\<lparr>token := tok', waits := (waits s)(c := Some k')\<rparr>) d
      = (if d = c then Suc r else arrivals s d)" for d tok' k'
    using ac(2) by (simp add: arrivals_def)
  show ?thesis
  proof (cases "Suc (card A) = card P")
    case False
    then have "sync_inv P ?s r"
      using inv tok lt unfolding sync_inv_def cA' by (auto simp: arr' A_def [symmetric])
    then show ?thesis ..
  next
    case True
    have all: "{d \<in> P. arrivals ?s d = Suc r} = P"
      using True cA' fin(2) by (intro card_subset_eq) auto
    then have eq: "\<forall>d \<in> P. arrivals ?s d = Suc r" by auto
    then have none: "{d \<in> P. arrivals ?s d = Suc (Suc r)} = {}" by auto
    have "sync_inv P ?s (Suc r)"
      unfolding sync_inv_def none using inv tok True eq
      by (auto simp: sync_inv_def arr' le_Suc_eq split: if_splits) (metis mult_Suc_right)
    then show ?thesis ..
  qed
qed

lemma sync_inv_leave:
  assumes inv: "sync_inv P s r" and c: "c \<in> P" "waits s c = Some k" "ideal_passed (token s) k"
  shows "sync_inv P (s\<lparr>waits := (waits s)(c := None), passed := (passed s)(c := Suc (passed s c))\<rparr>) r"
proof -
  let ?s = "s\<lparr>waits := (waits s)(c := None), passed := (passed s)(c := Suc (passed s c))\<rparr>"
  have arr: "arrivals ?s = arrivals s" using c(2) by (auto simp: arrivals_def fun_eq_iff)
  have "k = card P * arrivals s c" "arrivals s c = Suc (passed s c)"
    using inv c by (auto simp: sync_inv_def arrivals_def)
  with c(3) have "card P * Suc (passed s c) \<le> arrived (token s)" by (simp add: ideal_passed_def)
  also have "\<dots> < card P * Suc r" using sync_invD(5,6) [OF inv] by simp
  finally have "passed s c < r" by (simp only: nat_mult_less_cancel1 sync_invD(2) [OF inv] Suc_less_eq)
  with inv show ?thesis unfolding sync_inv_def arr by auto
qed

lemma sync_inv_steps:
  assumes "sync_steps P s s'" "sync_inv P s r"
  shows "\<exists>r'. sync_inv P s' r'"
  using assms
proof (induction rule: sync_steps.induct)
  case (step s s1 c s2)
  then obtain r1 where inv: "sync_inv P s1 r1" by blast
  from step.hyps(2) show ?case
    using sync_inv_enter [OF inv] sync_inv_leave [OF inv] by (elim sync_stepE) blast+
qed blast

text \<open>A core leaves a barrier exactly when every core has arrived at it.\<close>

lemma sync_pass_iff:
  assumes "sync_inv P s r" "c \<in> P" "waits s c = Some k"
  shows "ideal_passed (token s) k \<longleftrightarrow> (\<forall>d \<in> P. arrivals s c \<le> arrivals s d)"
proof -
  define A where "A = {d \<in> P. arrivals s d = Suc r}"
  have k: "k = card P * arrivals s c" and pos: "0 < card P" "finite P"
    and cnt: "arrived (token s) = card P * r + card A" and lt: "card A < card P"
    and arr: "\<forall>d \<in> P. arrivals s d = r \<or> arrivals s d = Suc r"
    using assms by (auto simp: sync_inv_def A_def)
  show ?thesis
  proof (cases "arrivals s c = r")
    case True
    then show ?thesis using k cnt arr by (auto simp: ideal_passed_def)
  next
    case False
    with arr assms(2) have c: "arrivals s c = Suc r" by blast
    have "\<exists>d \<in> P. arrivals s d \<noteq> Suc r"
    proof (rule ccontr)
      assume "\<not> ?thesis"
      then have "A = P" by (auto simp: A_def)
      with lt show False by simp
    qed
    with arr have "\<exists>d \<in> P. arrivals s d = r" by blast
    then have "\<not> (\<forall>d \<in> P. arrivals s c \<le> arrivals s d)" using c by force
    moreover have "\<not> ideal_passed (token s) k"
      using k c cnt lt by (simp add: ideal_passed_def)
    ultimately show ?thesis by blast
  qed
qed

text \<open>No core has left a barrier that another one has not entered.\<close>

lemma sync_passed_arrived: "sync_inv P s r \<Longrightarrow> c \<in> P \<Longrightarrow> d \<in> P \<Longrightarrow> passed s c \<le> arrivals s d"
  using sync_invD(7) [of P s r d] sync_invD(8) [of P s r c] by auto

lemma sync_can_step:
  assumes "sync_inv P s r" "\<forall>c \<in> P. waits s c \<noteq> None"
  shows "\<exists>c \<in> P. \<exists>k. waits s c = Some k \<and> ideal_passed (token s) k"
proof -
  define A where "A = {d \<in> P. arrivals s d = Suc r}"
  have "A \<noteq> P" using assms(1) by (auto simp: A_def sync_inv_def)
  then obtain c where c: "c \<in> P" "arrivals s c \<noteq> Suc r" by (auto simp: A_def)
  then have "\<forall>d \<in> P. arrivals s c \<le> arrivals s d"
    using sync_invD(7) [OF assms(1)] by (metis le_SucI le_refl)
  moreover obtain k where "waits s c = Some k" using assms(2) c(1) by auto
  ultimately show ?thesis using sync_pass_iff [OF assms(1) c(1)] c(1) by blast
qed

section \<open>The code's barrier refines the ideal one\<close>

definition ideal_of :: "barrier_state \<Rightarrow> sync_state" where
  "ideal_of s = \<lparr>token = \<lparr>parties = unat (n (btoken s)), opened = ready (btoken s), arrived = unat (count (btoken s))\<rparr>,
     waits = (\<lambda>c. map_option unat (bwaits s c)), passed = bpassed s\<rparr>"

lemma ideal_of_simps [simp]:
  "arrivals (ideal_of s) = barrier_arrivals s"
  "passed (ideal_of s) = bpassed s"
  "waits (ideal_of s) c = map_option unat (bwaits s c)"
  by (auto simp: ideal_of_def arrivals_def barrier_arrivals_def fun_eq_iff)

lemma ideal_of_token [simp]:
  "token (ideal_of s) = \<lparr>parties = unat (n (btoken s)), opened = ready (btoken s), arrived = unat (count (btoken s))\<rparr>"
  by (simp add: ideal_of_def)

lemma ideal_of_passed: "ideal_passed (token (ideal_of s)) (unat k) \<longleftrightarrow> cpu_sync_passed (btoken s) k"
  by (simp add: ideal_passed_def cpu_sync_passed_def word_less_nat_alt)

lemma unat_ALIGN_COUNT:
  assumes "0 < unat k" "unat c + unat k \<le> 2 ^ 64"
  shows "unat (ALIGN c k) = ALIGN_COUNT (unat c) (unat k)"
proof -
  have s: "unat (c + k - 1) = unat c + unat k - 1"
  proof -
    have "c + k - 1 = of_nat (unat c + unat k - 1)" using assms(1) by (simp add: of_nat_diff)
    then have "unat (c + k - 1) = (unat c + unat k - 1) mod 2 ^ 64" by (simp only: unat_of_nat) simp
    moreover have "unat c + unat k - 1 < 2 ^ 64" using assms by linarith
    ultimately show ?thesis by simp
  qed
  have "(unat c + unat k - 1) div unat k * unat k \<le> unat c + unat k - 1" by simp
  then have "(unat c + unat k - 1) div unat k * unat k < 2 ^ 64" using assms by linarith
  then show ?thesis by (simp add: ALIGN_def ALIGN_COUNT_def unat_word_ariths unat_div s mod_simps)
qed

text \<open>The counter of the ideal barrier is the number of arrivals.\<close>

lemma sync_inv_arrivals:
  assumes "sync_inv P s r"
  shows "(\<Sum>c \<in> P. arrivals s c) = arrived (token s)"
proof -
  define A where "A = {c \<in> P. arrivals s c = Suc r}"
  have fin: "finite P" "A \<subseteq> P" using sync_invD(1) [OF assms] by (auto simp: A_def)
  have "(\<Sum>c \<in> P. arrivals s c) = (\<Sum>c \<in> P. r + (if c \<in> A then 1 else 0))"
    using sync_invD(7) [OF assms] by (intro sum.cong) (auto simp: A_def)
  also have "\<dots> = card P * r + card A"
    using fin by (simp add: sum.distrib sum.If_cases Int_absorb1)
  finally show ?thesis using sync_invD(5) [OF assms] by (simp add: A_def)
qed

lemma barrier_step_arrivals:
  assumes "barrier_step P s c s'" "finite P"
  shows "(\<Sum>d \<in> P. barrier_arrivals s d) \<le> (\<Sum>d \<in> P. barrier_arrivals s' d)"
  using assms(1) by (intro sum_mono) (auto simp: barrier_arrivals_def elim!: barrier_stepE split: if_splits)

lemma barrier_step_refines:
  assumes "barrier_step P s c s'" "sync_inv P (ideal_of s) r"
    and "(\<Sum>d \<in> P. barrier_arrivals s' d) + card P < 2 ^ 64"
  shows "sync_step P (ideal_of s) c (ideal_of s')"
  using assms(1)
proof cases
  case (benter tok k)
  note fin = sync_invD(1,2) [OF assms(2)]
  have n: "unat (n (btoken s)) = card P" using sync_invD(3) [OF assms(2)] by (simp add: ideal_of_def)
  have "(\<Sum>d \<in> P. barrier_arrivals s d) = unat (count (btoken s))"
    using sync_inv_arrivals [OF assms(2)] by simp
  moreover have "(\<Sum>d \<in> P. barrier_arrivals s d) < (\<Sum>d \<in> P. barrier_arrivals s' d)"
    using benter fin by (intro sum_strict_mono_ex1) (auto simp: barrier_arrivals_def)
  ultimately have lt: "unat (count (btoken s)) + 1 + card P < 2 ^ 64" using assms(3) by linarith
  then have c: "unat (count (btoken s) + 1) = unat (count (btoken s)) + 1"
    by (simp add: unat_word_ariths)
  have "unat (ALIGN (count (btoken s) + 1) (n (btoken s))) = ALIGN_COUNT (unat (count (btoken s)) + 1) (card P)"
    using unat_ALIGN_COUNT [of "n (btoken s)" "count (btoken s) + 1"] lt fin n c by simp
  with benter(4) c n have arr: "ideal_arrive (token (ideal_of s))
      = Some ((token (ideal_of s))\<lparr>arrived := unat (count (btoken s) + 1)\<rparr>, unat k)"
    and tok: "tok = (btoken s)\<lparr>count := count (btoken s) + 1\<rparr>"
    by (auto simp: ideal_arrive_def cpu_sync_arrive_def Let_def split: if_splits)
  have "ideal_of s' = (ideal_of s)\<lparr>token := (token (ideal_of s))\<lparr>arrived := unat (count (btoken s) + 1)\<rparr>,
      waits := (waits (ideal_of s))(c := Some (unat k))\<rparr>"
    unfolding benter(1) tok by (simp add: ideal_of_def fun_eq_iff)
  with sync_step.enter [OF benter(2) _ arr] benter(3) show ?thesis by simp
next
  case (bleave k)
  have pass: "ideal_passed (token (ideal_of s)) (unat k)" using bleave(4) by (simp only: ideal_of_passed)
  have "ideal_of s' = (ideal_of s)\<lparr>waits := (waits (ideal_of s))(c := None),
      passed := (passed (ideal_of s))(c := Suc (passed (ideal_of s) c))\<rparr>"
    unfolding bleave(1) by (simp add: ideal_of_def fun_eq_iff)
  with sync_step.leave [OF bleave(2) _ pass] bleave(3) show ?thesis by simp
qed

lemma barrier_steps_refine:
  assumes "barrier_steps P s0 s" "sync_inv P (ideal_of s0) r0"
    and "(\<Sum>d \<in> P. barrier_arrivals s d) + card P < 2 ^ 64"
  shows "sync_steps P (ideal_of s0) (ideal_of s)"
  using assms
proof (induction rule: barrier_steps.induct)
  case (bstep s s1 c s2)
  have fin: "finite P" using sync_invD(1) [OF bstep.prems(1)] .
  have "(\<Sum>d \<in> P. barrier_arrivals s1 d) + card P < 2 ^ 64"
    using barrier_step_arrivals [OF bstep.hyps(2) fin] bstep.prems(2) by linarith
  from bstep.IH [OF bstep.prems(1) this] have st: "sync_steps P (ideal_of s) (ideal_of s1)" .
  from sync_inv_steps [OF st bstep.prems(1)] obtain r1 where "sync_inv P (ideal_of s1) r1" ..
  from sync_steps.step [OF st barrier_step_refines [OF bstep.hyps(2) this bstep.prems(2)]] show ?case .
qed (rule sync_steps.refl)

definition barrier_start :: "nat \<Rightarrow> barrier_state" where
  "barrier_start k = \<lparr>btoken = cpu_sync_init (of_nat k), bwaits = (\<lambda>_. None), bpassed = (\<lambda>_. 0)\<rparr>"

lemma barrier_start_inv:
  assumes "finite P" "P \<noteq> {}" "card P < 2 ^ 64"
  shows "sync_inv P (ideal_of (barrier_start (card P))) 0"
  by (rule sync_inv_start [OF assms(1,2)])
    (use assms(3) in \<open>simp_all add: barrier_start_def cpu_sync_init_def unat_of_nat\<close>)

text \<open>
  At the wrap of the counter the barrier does not hold: an arrival that takes it to one of the
  last values below $2^{64}$, or past it, computes \<open>next_count = 0\<close> and passes at once, whoever
  else has arrived.
\<close>

lemma barrier_wrap:
  assumes "ready tok" "unat (- (count tok + 1)) < unat (n tok)"
  shows "\<exists>tok'. cpu_sync_arrive tok = Some (Inr (tok', 0)) \<and> cpu_sync_passed tok' 0"
proof -
  define j where "j = - (count tok + 1)"
  have lt: "unat j < unat (n tok)" using assms(2) by (simp add: j_def)
  then have n: "n tok \<noteq> 0" by auto
  have "n tok - 1 - j = of_nat (unat (n tok) - 1 - unat j)" using lt by (simp add: of_nat_diff)
  then have "unat (n tok - 1 - j) = (unat (n tok) - 1 - unat j) mod 2 ^ 64" by (simp only: unat_of_nat) simp
  also have "\<dots> \<le> unat (n tok) - 1 - unat j" by (rule mod_less_eq_dividend)
  finally have "unat (n tok - 1 - j) < unat (n tok)" using lt by linarith
  then have "(n tok - 1 - j) div n tok = 0" by (simp add: div_word_less word_less_nat_alt)
  moreover have "count tok + 1 + n tok - 1 = n tok - 1 - j" by (simp add: j_def)
  ultimately have "ALIGN (count tok + 1) (n tok) = 0" by (simp only: ALIGN_def) simp
  with assms(1) n show ?thesis by (simp add: cpu_sync_arrive_def cpu_sync_passed_def)
qed

section \<open>Properties\<close>

text \<open>
  C8. The barrier is a rendezvous: from an initialised token, however the cores interleave, a
  core that waits may leave exactly when every core of the group has arrived as often as it, so
  no core gets past a barrier before all have reached it; and whenever all cores wait, one of
  them may leave, so the barrier never deadlocks. The counter is the \<open>size_t\<close> of the code: this
  holds as long as the arrivals made, with one more of every core, are fewer than $2^{64}$.
\<close>

theorem barrier_rendezvous:
  assumes "finite P" "P \<noteq> {}" "barrier_steps P (barrier_start (card P)) s"
    and "(\<Sum>c \<in> P. barrier_arrivals s c) + card P < 2 ^ 64"
  shows "(\<forall>c \<in> P. \<forall>k. bwaits s c = Some k \<longrightarrow>
      (cpu_sync_passed (btoken s) k \<longleftrightarrow> (\<forall>d \<in> P. barrier_arrivals s c \<le> barrier_arrivals s d)))
    \<and> (\<forall>c \<in> P. \<forall>d \<in> P. bpassed s c \<le> barrier_arrivals s d)
    \<and> ((\<forall>c \<in> P. bwaits s c \<noteq> None) \<longrightarrow> (\<exists>c \<in> P. \<exists>k. bwaits s c = Some k \<and> cpu_sync_passed (btoken s) k))"
proof -
  have "card P < 2 ^ 64" using assms(4) by linarith
  note start = barrier_start_inv [OF assms(1,2) this]
  from sync_inv_steps [OF barrier_steps_refine [OF assms(3) start assms(4)] start]
  obtain r where inv: "sync_inv P (ideal_of s) r" ..
  have 1: "cpu_sync_passed (btoken s) k \<longleftrightarrow> (\<forall>d \<in> P. barrier_arrivals s c \<le> barrier_arrivals s d)"
    if "c \<in> P" "bwaits s c = Some k" for c k
    using sync_pass_iff [OF inv that(1), of "unat k"] that(2) by (simp del: ideal_of_token add: ideal_of_passed)
  have 2: "bpassed s c \<le> barrier_arrivals s d" if "c \<in> P" "d \<in> P" for c d
    using sync_passed_arrived [OF inv that] by simp
  have 3: "\<exists>c \<in> P. \<exists>k. bwaits s c = Some k \<and> cpu_sync_passed (btoken s) k" if "\<forall>c \<in> P. bwaits s c \<noteq> None"
    using sync_can_step [OF inv] that by (fastforce simp del: ideal_of_token simp: ideal_of_passed)
  from 1 2 3 show ?thesis by blast
qed

theorem barrier_rendezvous_witness:
  "\<exists>s t. barrier_steps {0, 1} (barrier_start 2) s \<and> bwaits s 0 = Some 2 \<and> \<not> cpu_sync_passed (btoken s) 2
    \<and> barrier_steps {0, 1} (barrier_start 2) t \<and> bwaits t 0 = Some 2 \<and> cpu_sync_passed (btoken t) 2"
proof -
  let ?o = "barrier_start 2"
  let ?s = "?o\<lparr>btoken := (btoken ?o)\<lparr>count := 1\<rparr>, bwaits := (bwaits ?o)(0 := Some 2)\<rparr>"
  let ?t = "?s\<lparr>btoken := (btoken ?s)\<lparr>count := 2\<rparr>, bwaits := (bwaits ?s)(1 := Some 2)\<rparr>"
  have "barrier_step {0, 1} ?o 0 ?s"
    by (rule barrier_step.benter) (simp_all add: barrier_start_def cpu_sync_init_def cpu_sync_arrive_def ALIGN_def)
  then have s: "barrier_steps {0, 1} ?o ?s" by (rule barrier_steps.bstep [OF barrier_steps.brefl])
  have "barrier_step {0, 1} ?s 1 ?t"
    by (rule barrier_step.benter) (simp_all add: barrier_start_def cpu_sync_init_def cpu_sync_arrive_def ALIGN_def)
  then have t: "barrier_steps {0, 1} ?o ?t" by (rule barrier_steps.bstep [OF s])
  have P: "finite {0, 1 :: cpuid}" "{0, 1 :: cpuid} \<noteq> {}" and c: "card {0, 1 :: cpuid} = 2" by simp_all
  from barrier_rendezvous [OF P, unfolded c, OF s] have "\<not> cpu_sync_passed (btoken ?s) 2"
    by (simp add: barrier_arrivals_def barrier_start_def)
  moreover from barrier_rendezvous [OF P, unfolded c, OF t] have "cpu_sync_passed (btoken ?t) 2"
    by (simp add: barrier_arrivals_def barrier_start_def)
  ultimately show ?thesis using s t by (intro exI [of _ ?s] exI [of _ ?t]) simp
qed

end
