(* ===== verification/Vm_Config.thy ===== *)
theory Vm_Config
  imports Bits Health_Monitor
begin

text \<open>
  The static configuration: \<open>src/core/inc/config.h\<close>, the configuration types of
  \<open>src/core/inc/vm.h\<close>, \<open>ipc.h\<close> and \<open>mem.h\<close>, and \<open>src/core/config.c\<close>. A counted array is the
  list of its elements.
\<close>

section \<open>Criticality levels\<close>

datatype vm_criticality = CRIT_LOW | CRIT_HIGH

text \<open>The enumeration's numeric values; the levels are compared through them.\<close>

fun crit_val :: "vm_criticality \<Rightarrow> u32" where
  "crit_val CRIT_LOW = 0"
| "crit_val CRIT_HIGH = 1"

instantiation vm_criticality :: linorder
begin

definition less_eq_vm_criticality :: "vm_criticality \<Rightarrow> vm_criticality \<Rightarrow> bool" where
  "a \<le> b \<longleftrightarrow> crit_val a \<le> crit_val b"

definition less_vm_criticality :: "vm_criticality \<Rightarrow> vm_criticality \<Rightarrow> bool" where
  "a < b \<longleftrightarrow> crit_val a < crit_val b"

instance
proof
  fix x y z :: vm_criticality
  show "x < y \<longleftrightarrow> x \<le> y \<and> \<not> y \<le> x" by (auto simp: less_eq_vm_criticality_def less_vm_criticality_def)
  show "x \<le> x" by (simp add: less_eq_vm_criticality_def)
  show "x \<le> y \<Longrightarrow> y \<le> z \<Longrightarrow> x \<le> z" by (auto simp: less_eq_vm_criticality_def)
  show "x \<le> y \<Longrightarrow> y \<le> x \<Longrightarrow> x = y" by (cases x; cases y) (simp_all add: less_eq_vm_criticality_def)
  show "x \<le> y \<or> y \<le> x" by (auto simp: less_eq_vm_criticality_def)
qed

end

section \<open>Virtual machine descriptions\<close>

type_synonym colormap = u64
type_synonym cpumap = u64

record vm_mem_region =
  rgn_base :: paddr
  rgn_size :: u64
  rgn_colors :: colormap
  rgn_place_phys :: bool
  rgn_phys :: paddr

record vm_irq =
  irq_id :: irqid
  irq_criticality :: vm_criticality

record vm_dev_region =
  dev_pa :: paddr
  dev_va :: vaddr
  dev_size :: u64
  dev_interrupts :: "vm_irq list"
  dev_id :: u32

record ipc =
  ipc_base :: paddr
  ipc_size :: u64
  ipc_shmem_id :: nat
  ipc_interrupts :: "irqid list"

record shmem =
  shm_size :: u64
  shm_colors :: colormap
  shm_place_phys :: bool
  shm_phys :: paddr
  shm_cpu_masters :: cpumap

record vm_image =
  base_addr :: vaddr
  load_addr :: paddr
  img_size :: u64
  separately_loaded :: bool
  inplace :: bool

record vm_platform =
  plat_cpu_num :: nat
  plat_regions :: "vm_mem_region list"
  plat_ipcs :: "ipc list"
  plat_devs :: "vm_dev_region list"
  plat_plic_base :: paddr

record vm_config =
  cfg_image :: vm_image
  cfg_entry :: vaddr
  cpu_affinity :: cpumap
  cfg_colors :: colormap
  cfg_platform :: vm_platform
  cfg_criticality :: vm_criticality
  cfg_health :: vm_health_config

record config =
  hyp_colors :: colormap
  shmemlist :: "shmem list"
  vmlist :: "vm_config list"

section \<open>Relocating the images\<close>

definition BAO_VAS_BASE :: u64 where
  "BAO_VAS_BASE = 0xffffffc000000000"

definition config_adjust_vm_image_addr :: "config \<Rightarrow> paddr \<Rightarrow> config" where
  "config_adjust_vm_image_addr cfg load =
    cfg\<lparr>vmlist := List.map (\<lambda>vm.
      if \<not> separately_loaded (cfg_image vm)
      then vm\<lparr>cfg_image := (cfg_image vm)\<lparr>load_addr := (load_addr (cfg_image vm) - BAO_VAS_BASE) + load\<rparr>\<rparr>
      else vm) (vmlist cfg)\<rparr>"

definition config_init :: "config \<Rightarrow> paddr \<Rightarrow> config" where
  "config_init cfg load = config_adjust_vm_image_addr cfg load"

lemma config_init_built_in:
  assumes "i < length (vmlist cfg)" "\<not> separately_loaded (cfg_image (vmlist cfg ! i))"
    and "load_addr (cfg_image (vmlist cfg ! i)) = BAO_VAS_BASE + off"
  shows "load_addr (cfg_image (vmlist (config_init cfg load) ! i)) = load + off"
  using assms by (simp add: config_init_def config_adjust_vm_image_addr_def)

end
