(* ===== verification/Bitmaps.thy ===== *)
theory Bitmaps
  imports Bits
begin

text \<open>
  The bitmaps of \<open>lib/inc/bitmap.h\<close> and \<open>lib/bitmap.c\<close>. A bitmap is the array of its 32-bit
  granules. Positions and counts are \<open>nat\<close>: the code keeps them in \<open>size_t\<close>, and the model
  faults with \<open>Out_of_bounds\<close> as soon as a position leaves the array, long before a
  64-bit counter could wrap. \<open>ssize_t\<close> results are \<open>int\<close>, with \<open>-1\<close> for not found.
\<close>

type_synonym bitmap = "u32 list"

definition BITMAP_GRANULE_LEN :: nat where
  "BITMAP_GRANULE_LEN = 32"

definition BITMAP_SIZE :: "nat \<Rightarrow> nat" where
  "BITMAP_SIZE sz = sz div BITMAP_GRANULE_LEN + (if sz mod BITMAP_GRANULE_LEN \<noteq> 0 then 1 else 0)"

section \<open>Operations\<close>

definition bitmap_set :: "bitmap \<Rightarrow> nat \<Rightarrow> bitmap res" where
  "bitmap_set bm b =
     bindR (rd bm (b div BITMAP_GRANULE_LEN)) (\<lambda>g.
     wr bm (b div BITMAP_GRANULE_LEN) (g OR push_bit (b mod BITMAP_GRANULE_LEN) 1))"

definition bitmap_clear :: "bitmap \<Rightarrow> nat \<Rightarrow> bitmap res" where
  "bitmap_clear bm b =
     bindR (rd bm (b div BITMAP_GRANULE_LEN)) (\<lambda>g.
     wr bm (b div BITMAP_GRANULE_LEN) (g AND NOT (push_bit (b mod BITMAP_GRANULE_LEN) 1)))"

definition bitmap_get :: "bitmap \<Rightarrow> nat \<Rightarrow> bool res" where
  "bitmap_get bm b =
     bindR (rd bm (b div BITMAP_GRANULE_LEN)) (\<lambda>g.
     Inr (g AND push_bit (b mod BITMAP_GRANULE_LEN) 1 \<noteq> 0))"

definition bitmap_clear_consecutive :: "bitmap \<Rightarrow> nat \<Rightarrow> nat \<Rightarrow> bitmap res" where
  "bitmap_clear_consecutive bm start n =
     foldR (\<lambda>i bm. bitmap_clear bm (start + i)) [0..<n] bm"

definition bitmap_count :: "bitmap \<Rightarrow> nat \<Rightarrow> nat \<Rightarrow> bool \<Rightarrow> nat res" where
  "bitmap_count bm start n st =
     foldR (\<lambda>i count. bindR (bitmap_get bm i) (\<lambda>b.
       Inr (if b = st then count + 1 else count))) [start..<n] 0"

function bitmap_find_nth_loop ::
  "bitmap \<Rightarrow> nat \<Rightarrow> nat \<Rightarrow> bool \<Rightarrow> nat \<Rightarrow> nat \<Rightarrow> int res" where
  "bitmap_find_nth_loop bm sz nr st i count =
     (if i < sz then
        bindR (bitmap_get bm i) (\<lambda>b.
          if b = st then
            (if count + 1 = nr then Inr (int i)
             else bitmap_find_nth_loop bm sz nr st (i + 1) (count + 1))
          else bitmap_find_nth_loop bm sz nr st (i + 1) count)
      else Inr (- 1))"
  by pat_completeness auto
termination
  by (relation "measure (\<lambda>(bm, sz, nr, st, i, count). sz - i)") auto

definition bitmap_find_nth :: "bitmap \<Rightarrow> nat \<Rightarrow> nat \<Rightarrow> nat \<Rightarrow> bool \<Rightarrow> int res" where
  "bitmap_find_nth bm sz nr start st =
     (if sz = 0 \<or> nr = 0 then Inr (- 1)
      else bitmap_find_nth_loop bm sz nr st start 0)"

text \<open>The two loops of \<open>bitmap_count_consecutive\<close>: by granule, then by bit.\<close>

function count_words :: "bitmap \<Rightarrow> u32 \<Rightarrow> nat \<Rightarrow> nat \<Rightarrow> nat \<Rightarrow> (nat \<times> nat) res" where
  "count_words bm msk n pos count =
     bindR (rd bm (pos div BITMAP_GRANULE_LEN)) (\<lambda>g.
       if g XOR msk = 0 \<and> count < n
       then count_words bm msk n (pos + BITMAP_GRANULE_LEN) (count + BITMAP_GRANULE_LEN)
       else Inr (pos, count))"
  by pat_completeness auto
termination
  by (relation "measure (\<lambda>(bm, msk, n, pos, count). n - count)") (auto simp: BITMAP_GRANULE_LEN_def)

function count_bits :: "bitmap \<Rightarrow> bool \<Rightarrow> nat \<Rightarrow> nat \<Rightarrow> nat \<Rightarrow> nat res" where
  "count_bits bm st n pos count =
     bindR (bitmap_get bm pos) (\<lambda>b.
       if b = st \<and> count < n then count_bits bm st n (pos + 1) (count + 1)
       else Inr count)"
  by pat_completeness auto
termination
  by (relation "measure (\<lambda>(bm, st, n, pos, count). n - count)") auto

definition bitmap_count_consecutive :: "bitmap \<Rightarrow> nat \<Rightarrow> nat \<Rightarrow> nat \<Rightarrow> nat res" where
  "bitmap_count_consecutive bm sz start n =
     (let start_offset = start mod BITMAP_GRANULE_LEN;
          first_word_bits = min (BITMAP_GRANULE_LEN - start_offset) n in
      bindR (bitmap_get bm start) (\<lambda>st.
      bindR (BIT_MASK start_offset first_word_bits) (\<lambda>init_mask.
      if n \<le> 1 then Inr n
      else
        bindR (rd bm (start div BITMAP_GRANULE_LEN)) (\<lambda>g.
        let msk = (if st then init_mask else NOT init_mask);
            count = (if (g XOR msk) AND init_mask = 0 then first_word_bits else 0);
            pos = start + count;
            msk = (if st then NOT 0 else 0) in
        bindR (count_words bm msk n pos count) (\<lambda>(pos, count).
        count_bits bm st n pos count)))))"

text \<open>
  \<open>bitmap_find_consec\<close> alternates between a run of \<open>st\<close> bits that turns out too short and
  the run of opposite bits behind it; the second count passes \<open>n = -1\<close>, that is
  \<open>SIZE_MAX\<close>. The result of the loop is the final value of \<open>i\<close>.
\<close>

definition SIZE_MAX :: nat where
  "SIZE_MAX = 2 ^ 64 - 1"

function find_consec_loop :: "bitmap \<Rightarrow> nat \<Rightarrow> nat \<Rightarrow> nat \<Rightarrow> nat res" where
  "find_consec_loop bm sz n i =
     (if i < sz then
        bindR (bitmap_count_consecutive bm sz i n) (\<lambda>count.
          if count < n then
            bindR (bitmap_count_consecutive bm sz (i + count) SIZE_MAX) (\<lambda>rest.
            find_consec_loop bm sz n (i + count + rest))
          else Inr i)
      else Inr i)"
  by pat_completeness auto

definition bitmap_find_consec :: "bitmap \<Rightarrow> nat \<Rightarrow> nat \<Rightarrow> nat \<Rightarrow> bool \<Rightarrow> int res" where
  "bitmap_find_consec bm sz start n st =
     bindR (bitmap_find_nth bm sz 1 start st) (\<lambda>i.
     if i < 0 then Inr (- 1)
     else bindR (find_consec_loop bm sz n (nat i)) (\<lambda>i.
       if i \<ge> sz then Inr (- 1) else Inr (int i)))"

function set_words :: "bitmap \<Rightarrow> nat \<Rightarrow> nat \<Rightarrow> (bitmap \<times> nat \<times> nat) res" where
  "set_words bm pos count =
     (if count \<ge> BITMAP_GRANULE_LEN then
        bindR (rd bm (pos div BITMAP_GRANULE_LEN)) (\<lambda>g.
        bindR (wr bm (pos div BITMAP_GRANULE_LEN) (g OR NOT 0)) (\<lambda>bm.
        set_words bm (pos + BITMAP_GRANULE_LEN) (count - BITMAP_GRANULE_LEN)))
      else Inr (bm, pos, count))"
  by pat_completeness auto
termination
  by (relation "measure (\<lambda>(bm, pos, count). count)") (auto simp: BITMAP_GRANULE_LEN_def)

definition bitmap_set_consecutive :: "bitmap \<Rightarrow> nat \<Rightarrow> nat \<Rightarrow> bitmap res" where
  "bitmap_set_consecutive bm start n =
     (let start_offset = start mod BITMAP_GRANULE_LEN;
          first_word_bits = min (BITMAP_GRANULE_LEN - start_offset) n in
      bindR (BIT_MASK start_offset first_word_bits) (\<lambda>m.
      bindR (rd bm (start div BITMAP_GRANULE_LEN)) (\<lambda>g.
      bindR (wr bm (start div BITMAP_GRANULE_LEN) (g OR m)) (\<lambda>bm.
      bindR (set_words bm (start + first_word_bits) (n - first_word_bits)) (\<lambda>(bm, pos, count).
      if count > 0 then
        bindR (BIT_MASK 0 count) (\<lambda>m.
        bindR (rd bm (pos div BITMAP_GRANULE_LEN)) (\<lambda>g.
        wr bm (pos div BITMAP_GRANULE_LEN) (g OR m)))
      else Inr bm)))))"

declare bitmap_find_nth_loop.simps [simp del] count_words.simps [simp del]
  count_bits.simps [simp del] set_words.simps [simp del]

section \<open>The abstract view: a set of bit positions\<close>

definition bm_len :: "bitmap \<Rightarrow> nat" where
  "bm_len bm = 32 * length bm"

definition bm_bit :: "bitmap \<Rightarrow> nat \<Rightarrow> bool" where
  "bm_bit bm i = bit (bm ! (i div 32)) (i mod 32)"

text \<open>\<open>run bm i n b\<close>: the \<open>n\<close> bits from \<open>i\<close> on are all \<open>b\<close>.\<close>

definition run :: "bitmap \<Rightarrow> nat \<Rightarrow> nat \<Rightarrow> bool \<Rightarrow> bool" where
  "run bm i n b = (\<forall>k \<in> {i ..< i + n}. bm_bit bm k = b)"

lemma run_0 [simp]: "run bm i 0 b"
  by (simp add: run_def)

lemma run_iff: "run bm i n b \<longleftrightarrow> (\<forall>k < n. bm_bit bm (i + k) = b)"
proof
  assume *: "\<forall>k < n. bm_bit bm (i + k) = b"
  show "run bm i n b"
    unfolding run_def
  proof
    fix k assume "k \<in> {i ..< i + n}"
    with * [rule_format, of "k - i"] show "bm_bit bm k = b" by auto
  qed
qed (simp add: run_def)

lemma run_Suc: "run bm i (Suc n) b \<longleftrightarrow> bm_bit bm i = b \<and> run bm (Suc i) n b"
  by (simp add: run_iff All_less_Suc2)

lemma run_add: "run bm i (m + n) b \<longleftrightarrow> run bm i m b \<and> run bm (i + m) n b"
  by (auto simp: run_def)

lemma run_mono: "run bm i n b \<Longrightarrow> m \<le> n \<Longrightarrow> run bm i m b"
  by (auto simp: run_def)

lemma granule_bound: "i < bm_len bm \<Longrightarrow> i div 32 < length bm"
  by (simp add: bm_len_def less_mult_imp_div_less mult.commute)

lemma granule_bound_iff: "i div 32 < length bm \<longleftrightarrow> i < bm_len bm"
  by (auto simp: bm_len_def div_less_iff_less_mult mult.commute)

lemma bitmap_get_eq: "i < bm_len bm \<Longrightarrow> bitmap_get bm i = Inr (bm_bit bm i)"
  by (simp add: bitmap_get_def BITMAP_GRANULE_LEN_def granule_bound bm_bit_def and_one_shift
      del: push_bit_of_1)

lemma bitmap_get_Inr_iff: "bitmap_get bm i = Inr b \<longleftrightarrow> i < bm_len bm \<and> b = bm_bit bm i"
  by (cases "i < bm_len bm")
    (auto simp: bitmap_get_eq, auto simp: bitmap_get_def BITMAP_GRANULE_LEN_def rd_def granule_bound_iff)

lemma same_bit_pos: "i div 32 = j div 32 \<Longrightarrow> i mod 32 = j mod 32 \<Longrightarrow> i = (j :: nat)"
  by (metis div_mult_mod_eq)

lemma bitmap_set_eq:
  assumes "i < bm_len bm"
  shows "\<exists>bm'. bitmap_set bm i = Inr bm' \<and> length bm' = length bm \<and>
    (\<forall>k. bm_bit bm' k = (if k = i then True else bm_bit bm k))"
  using granule_bound [OF assms]
  by (auto simp: bitmap_set_def BITMAP_GRANULE_LEN_def bm_bit_def nth_list_update bit_or_iff
      dest: same_bit_pos)

lemma bitmap_clear_eq:
  assumes "i < bm_len bm"
  shows "\<exists>bm'. bitmap_clear bm i = Inr bm' \<and> length bm' = length bm \<and>
    (\<forall>k. bm_bit bm' k = (if k = i then False else bm_bit bm k))"
  using granule_bound [OF assms]
  by (auto simp: bitmap_clear_def BITMAP_GRANULE_LEN_def bm_bit_def nth_list_update bit_and_iff
      bit_not_iff dest: same_bit_pos)

lemma bitmap_set_Inr_iff: "bitmap_set bm i = Inr bm' \<Longrightarrow> i < bm_len bm"
  by (auto simp: bitmap_set_def BITMAP_GRANULE_LEN_def rd_Inr_iff wr_Inr_iff granule_bound_iff)

lemma bitmap_clear_Inr_iff: "bitmap_clear bm i = Inr bm' \<Longrightarrow> i < bm_len bm"
  by (auto simp: bitmap_clear_def BITMAP_GRANULE_LEN_def rd_Inr_iff wr_Inr_iff granule_bound_iff)

section \<open>bitmap_find_nth\<close>

text \<open>
  Started on the first position whose bit is \<open>st\<close>: what \<open>bitmap_find_nth\<close> computes for
  \<open>nth = 1\<close>, the case \<open>bitmap_find_consec\<close> and the object pool use, is the least such position.
\<close>

lemma find_first_loop:
  assumes "sz \<le> bm_len bm"
  shows "bitmap_find_nth_loop bm sz (Suc 0) st i 0 =
    (if \<exists>k \<in> {i..<sz}. bm_bit bm k = st
     then Inr (int (LEAST k. i \<le> k \<and> k < sz \<and> bm_bit bm k = st)) else Inr (- 1))"
  using assms
proof (induction "sz - i" arbitrary: i)
  case 0
  then show ?case by (simp add: bitmap_find_nth_loop.simps)
next
  case (Suc d)
  then have i: "i < sz" by simp
  show ?case
  proof (cases "bm_bit bm i = st")
    case True
    then have "(LEAST k. i \<le> k \<and> k < sz \<and> bm_bit bm k = st) = i"
      using i by (intro Least_equality) auto
    with True i Suc.prems show ?thesis
      by (subst bitmap_find_nth_loop.simps) (auto simp: bitmap_get_eq)
  next
    case False
    have eq: "(i \<le> k \<and> k < sz \<and> bm_bit bm k = st) \<longleftrightarrow> (i + 1 \<le> k \<and> k < sz \<and> bm_bit bm k = st)" for k
      using False by (metis Suc_eq_plus1 Suc_leD le_antisym not_less_eq_eq)
    have "(\<exists>k \<in> {i..<sz}. bm_bit bm k = st) \<longleftrightarrow> (\<exists>k \<in> {i + 1..<sz}. bm_bit bm k = st)"
      using eq by (simp add: Bex_def)
    with False i Suc eq show ?thesis
      by (subst bitmap_find_nth_loop.simps) (simp add: bitmap_get_eq)
  qed
qed

lemma find_first:
  assumes "sz \<le> bm_len bm"
  shows "bitmap_find_nth bm sz (Suc 0) start st =
    (if \<exists>k \<in> {start..<sz}. bm_bit bm k = st
     then Inr (int (LEAST k. start \<le> k \<and> k < sz \<and> bm_bit bm k = st)) else Inr (- 1))"
  using find_first_loop [OF assms] by (auto simp: bitmap_find_nth_def)

text \<open>Whatever the index asked for, a position found lies in range and carries the bit.\<close>

lemma find_nth_loop_sound:
  "bitmap_find_nth_loop bm sz nr st i count = Inr r \<Longrightarrow> r \<noteq> - 1 \<Longrightarrow>
    \<exists>k. r = int k \<and> i \<le> k \<and> k < sz \<and> k < bm_len bm \<and> bm_bit bm k = st \<and>
      card {j \<in> {i..k}. bm_bit bm j = st} + count = nr"
proof (induction bm sz nr st i count rule: bitmap_find_nth_loop.induct)
  case (1 bm sz nr st i count)
  from "1.prems" have i: "i < sz"
    by (subst (asm) bitmap_find_nth_loop.simps) (auto split: if_splits)
  with "1.prems"(1) obtain b where b: "bitmap_get bm i = Inr b"
    and rest: "(if b = st then (if count + 1 = nr then Inr (int i)
        else bitmap_find_nth_loop bm sz nr st (i + 1) (count + 1))
      else bitmap_find_nth_loop bm sz nr st (i + 1) count) = Inr r"
    by (subst (asm) bitmap_find_nth_loop.simps) auto
  from b have len: "i < bm_len bm" and bb: "b = bm_bit bm i" by (simp_all add: bitmap_get_Inr_iff)
  have step: "card {j \<in> {i..k}. bm_bit bm j = st} =
      card {j \<in> {i + 1..k}. bm_bit bm j = st} + (if b = st then 1 else 0)" if "i + 1 \<le> k" for k
  proof -
    have "{j \<in> {i..k}. bm_bit bm j = st} =
        (if b = st then insert i {j \<in> {i + 1..k}. bm_bit bm j = st} else {j \<in> {i + 1..k}. bm_bit bm j = st})"
      using that bb by (auto simp: le_eq_less_or_eq Suc_le_eq)
    then show ?thesis by simp
  qed
  consider (hit) "b = st" "count + 1 = nr" | (next1) "b = st" "count + 1 \<noteq> nr" | (next0) "b \<noteq> st"
    by blast
  then show ?case
  proof cases
    case hit
    then have "{j \<in> {i..i}. bm_bit bm j = st} = {i}" using bb by auto
    then have "card {j \<in> {i..i}. bm_bit bm j = st} = 1" by simp
    with hit rest i len bb show ?thesis by (intro exI [of _ i]) (simp del: atLeastAtMost_iff)
  next
    case next1
    with rest have "bitmap_find_nth_loop bm sz nr st (i + 1) (count + 1) = Inr r" by simp
    from "1.IH"(1) [OF i b next1 this "1.prems"(2)] step next1 show ?thesis by fastforce
  next
    case next0
    with rest have "bitmap_find_nth_loop bm sz nr st (i + 1) count = Inr r" by simp
    from "1.IH"(2) [OF i b next0 this "1.prems"(2)] step next0 show ?thesis by fastforce
  qed
qed

lemma find_nth_sound:
  assumes "bitmap_find_nth bm sz nr start st = Inr r" "r \<noteq> - 1"
  shows "\<exists>k. r = int k \<and> start \<le> k \<and> k < sz \<and> bm_bit bm k = st \<and>
    card {j \<in> {start..k}. bm_bit bm j = st} = nr"
  using assms find_nth_loop_sound [of bm sz nr st start 0 r]
  by (auto simp: bitmap_find_nth_def split: if_splits)

section \<open>bitmap_count_consecutive\<close>

lemma word_uniform:
  fixes w :: u32
  shows "w XOR (if st then NOT 0 else 0) = 0 \<longleftrightarrow> (\<forall>k < 32. bit w k = st)"
  by (auto simp: bit_eq_iff bit_xor_iff bit_not_iff)

lemma granule_run:
  assumes "pos mod 32 = 0"
  shows "(\<forall>k < 32. bit (bm ! (pos div 32)) k = st) \<longleftrightarrow> run bm pos 32 st"
proof -
  have "bm_bit bm (pos + k) = bit (bm ! (pos div 32)) k" if "k < 32" for k
  proof -
    have "(pos + k) div 32 = pos div 32" "(pos + k) mod 32 = k"
      using assms that by (auto simp: mod_eq_0_iff_dvd elim!: dvdE)
    then show ?thesis by (simp add: bm_bit_def)
  qed
  then show ?thesis by (simp add: run_iff)
qed

text \<open>
  A granule that is not uniform stops the word loop, so from an unaligned position it either
  stops at once or the granule is uniform.
\<close>

lemma count_words_spec:
  assumes "count_words bm (if st then NOT 0 else 0) n pos count = Inr (pos', count')"
    and "count < n \<Longrightarrow> pos mod 32 = 0 \<or> \<not> (\<forall>k < 32. bit (bm ! (pos div 32)) k = st)"
  shows "\<exists>d. pos' = pos + d \<and> count' = count + d \<and> run bm pos d st \<and> pos' < bm_len bm \<and>
    (count \<le> n + 31 \<longrightarrow> count' \<le> n + 31)"
  using assms
proof (induction bm "if st then NOT 0 else 0 :: u32" n pos count rule: count_words.induct)
  case (1 bm n pos count)
  show ?case
  proof (cases "(\<forall>k < 32. bit (bm ! (pos div 32)) k = st) \<and> count < n")
    case False
    with "1.prems"(1) show ?thesis
      by (subst (asm) count_words.simps)
        (auto simp: rd_Inr_iff word_uniform BITMAP_GRANULE_LEN_def granule_bound_iff split: if_splits)
  next
    case True
    with "1.prems"(2) have al: "pos mod 32 = 0" by blast
    have rec: "pos div 32 < length bm"
      "count_words bm (if st then NOT 0 else 0) n (pos + 32) (count + 32) = Inr (pos', count')"
      using True "1.prems"(1)
      by (simp_all add: count_words.simps [of bm _ n pos count] rd_Inr_iff word_uniform
          BITMAP_GRANULE_LEN_def)
    have "\<exists>d. pos' = pos + 32 + d \<and> count' = count + 32 + d \<and> run bm (pos + 32) d st \<and>
        pos' < bm_len bm \<and> (count + 32 \<le> n + 31 \<longrightarrow> count' \<le> n + 31)"
      using "1.hyps" [of "bm ! (pos div 32)"] rec True al
      by (simp add: BITMAP_GRANULE_LEN_def word_uniform)
    then obtain d where d: "pos' = pos + 32 + d" "count' = count + 32 + d" "run bm (pos + 32) d st"
        "pos' < bm_len bm" "count + 32 \<le> n + 31 \<longrightarrow> count' \<le> n + 31" by blast
    with True al have "run bm pos (32 + d) st"
      by (simp add: run_add granule_run)
    with d True show ?thesis
      by (intro exI [of _ "32 + d"]) auto
  qed
qed

lemma count_bits_spec:
  assumes "count_bits bm st n pos count = Inr count'"
  shows "\<exists>d. count' = count + d \<and> run bm pos d st \<and> pos + d < bm_len bm \<and>
    (count' < n \<longrightarrow> bm_bit bm (pos + d) \<noteq> st) \<and> (d > 0 \<longrightarrow> count' \<le> n)"
  using assms
proof (induction bm st n pos count rule: count_bits.induct)
  case (1 bm st n pos count)
  from "1.prems" obtain b where b: "bitmap_get bm pos = Inr b"
    by (subst (asm) count_bits.simps) auto
  then have pos: "pos < bm_len bm" "b = bm_bit bm pos" by (simp_all add: bitmap_get_Inr_iff)
  show ?case
  proof (cases "b = st \<and> count < n")
    case False
    with "1.prems" b pos show ?thesis by (subst (asm) count_bits.simps) auto
  next
    case True
    with "1.prems" b have "count_bits bm st n (pos + 1) (count + 1) = Inr count'"
      by (subst (asm) count_bits.simps) simp
    from "1.IH" [OF b True this] obtain d where d: "count' = count + 1 + d" "run bm (pos + 1) d st"
      "pos + 1 + d < bm_len bm" "count' < n \<longrightarrow> bm_bit bm (pos + 1 + d) \<noteq> st" "d > 0 \<longrightarrow> count' \<le> n"
      by blast
    from True d(2) pos(2) have "run bm pos (1 + d) st"
      by (simp add: run_Suc)
    with d True show ?thesis
      by (intro exI [of _ "1 + d"]) auto
  qed
qed

text \<open>
  The first word: the masked comparison succeeds exactly when the bits from \<open>start\<close> to the
  end of its granule (or \<open>n\<close> of them) carry the bit of \<open>start\<close>.
\<close>

lemma first_word:
  assumes "off < 32" "0 < len" "off + len \<le> 32"
    and "m = push_bit off (mask len :: u32)"
  shows "(w XOR (if st then m else NOT m)) AND m = 0 \<longleftrightarrow> (\<forall>k \<in> {off ..< off + len}. bit w k = st)"
proof -
  have "(w XOR (if st then m else NOT m)) AND m = 0 \<longleftrightarrow>
      (\<forall>k < 32. off \<le> k \<and> k < off + len \<longrightarrow> bit w k = st)"
    by (auto simp: assms(4) bit_eq_iff [where 'a = "32 word"] bit_xor_iff bit_and_iff bit_not_iff bit_field_mask)
  with assms(3) show ?thesis by auto
qed

lemma first_word_run:
  assumes "start mod 32 + len \<le> 32"
  shows "(\<forall>k \<in> {start mod 32 ..< start mod 32 + len}. bit (bm ! (start div 32)) k = st)
    \<longleftrightarrow> run bm start len st"
proof -
  have "bm_bit bm (start + k) = bit (bm ! (start div 32)) (start mod 32 + k)" if "k < len" for k
  proof -
    from that assms have lt: "start mod 32 + k < 32" by simp
    have "(start + k) div 32 = start div 32" using lt div_add1_eq [of start k 32] by simp
    moreover have "(start + k) mod 32 = start mod 32 + k"
      using lt mod_add_left_eq [of start 32 k] by simp
    ultimately show ?thesis by (simp add: bm_bit_def)
  qed
  moreover have "(\<forall>k \<in> {start mod 32 ..< start mod 32 + len}. P k) \<longleftrightarrow> (\<forall>k < len. P (start mod 32 + k))" for P
    by (metis atLeastLessThan_iff le_add1 le_add_diff_inverse nat_add_left_cancel_less)
  ultimately show ?thesis by (simp add: run_iff)
qed

text \<open>
  What is left of \<open>bitmap_count_consecutive\<close> after the first word: the two loops, started
  after \<open>first_count\<close> bits, at a granule boundary or in a granule that is not uniform.
\<close>

definition first_count :: "bitmap \<Rightarrow> nat \<Rightarrow> nat \<Rightarrow> nat" where
  "first_count bm start n =
     (let len = min (32 - start mod 32) n in if run bm start len (bm_bit bm start) then len else 0)"

lemma first_count_run: "run bm start (first_count bm start n) (bm_bit bm start)"
  and first_count_le: "first_count bm start n \<le> n"
  by (simp_all add: first_count_def Let_def)

lemma count_consecutive_unfold:
  assumes "start < bm_len bm" "1 < n"
  shows "bitmap_count_consecutive bm sz start n =
    bindR (count_words bm (if bm_bit bm start then NOT 0 else 0) n
        (start + first_count bm start n) (first_count bm start n))
      (\<lambda>(pos, count). count_bits bm (bm_bit bm start) n pos count)"
proof -
  define len where "len = min (32 - start mod 32) n"
  define m where "m = push_bit (start mod 32) (mask len :: u32)"
  define w where "w = bm ! (start div 32)"
  define st where "st = bm_bit bm start"
  have off: "start mod 32 < 32" "0 < len" "start mod 32 + len \<le> 32" "len \<le> 32"
    using assms(2) by (auto simp: len_def)
  have msk: "BIT_MASK (start mod 32) len = Inr m"
    unfolding m_def using off by (intro BIT_MASK_eq) auto
  have first: "(w XOR (if st then m else NOT m)) AND m = 0 \<longleftrightarrow> run bm start len st"
    using first_word [OF off(1-3) m_def] first_word_run [OF off(3)] by (simp add: w_def)
  have rd: "rd bm (start div 32) = Inr w" using assms(1) by (simp add: granule_bound_iff w_def)
  have cnt: "first_count bm start n = (if run bm start len st then len else 0)"
    by (simp add: first_count_def len_def st_def)
  have get: "bitmap_get bm start = Inr st" using assms(1) by (simp add: bitmap_get_eq st_def)
  show ?thesis
    unfolding bitmap_count_consecutive_def Let_def BITMAP_GRANULE_LEN_def len_def [symmetric]
      get bindR_Inr msk rd first cnt st_def [symmetric]
    using assms(2) by simp
qed

lemma first_count_align:
  assumes "first_count bm start n < n"
  shows "(start + first_count bm start n) mod 32 = 0 \<or>
    \<not> (\<forall>k < 32. bit (bm ! ((start + first_count bm start n) div 32)) k = bm_bit bm start)"
proof -
  let ?fwb = "min (32 - start mod 32) n" and ?st = "bm_bit bm start"
  have le: "start mod 32 + ?fwb \<le> 32"
    by (metis add_le_cancel_left le_add_diff_inverse less_imp_le_nat min.cobounded1 mod_less_divisor zero_less_numeral)
  show ?thesis
  proof (cases "run bm start ?fwb ?st")
    case True
    with assms have "first_count bm start n = 32 - start mod 32"
      by (simp add: first_count_def Let_def min_def split: if_splits)
    then have "(start mod 32 + first_count bm start n) mod 32 = 0"
      using mod_less_divisor [of 32 start] by simp
    then show ?thesis by (simp only: mod_add_left_eq simp_thms)
  next
    case False
    with first_word_run [OF le, of bm ?st] obtain k where
      "k \<in> {start mod 32 ..< start mod 32 + ?fwb}" "bit (bm ! (start div 32)) k \<noteq> ?st" by blast
    moreover from this(1) le have "k < 32" by (meson atLeastLessThan_iff less_le_trans)
    ultimately have "\<not> (\<forall>k < 32. bit (bm ! (start div 32)) k = ?st)" by blast
    with False show ?thesis by (simp add: first_count_def)
  qed
qed

text \<open>
  The specification of \<open>bitmap_count_consecutive\<close>: the \<open>c\<close> bits from \<open>start\<close> on are all
  equal, the next one differs when fewer than \<open>n\<close> were counted, and the count overshoots
  \<open>n\<close> by less than a granule.
\<close>

lemma count_consecutive_start:
  "bitmap_count_consecutive bm sz start n = Inr c \<Longrightarrow> start < bm_len bm"
  by (auto simp: bitmap_count_consecutive_def Let_def bitmap_get_Inr_iff)

lemma count_consecutive_spec:
  assumes "bitmap_count_consecutive bm sz start n = Inr c" and "1 < n"
  shows "run bm start c (bm_bit bm start)" and "start + c < bm_len bm"
    and "c < n \<Longrightarrow> bm_bit bm (start + c) \<noteq> bm_bit bm start" and "0 < c" and "c \<le> n + 31"
proof -
  let ?st = "bm_bit bm start"
  define cnt where "cnt = first_count bm start n"
  from count_consecutive_unfold [OF count_consecutive_start [OF assms(1)] assms(2), of sz] assms(1)
  obtain pos' cnt' where words: "count_words bm (if ?st then NOT 0 else 0) n (start + cnt) cnt = Inr (pos', cnt')"
    and bits: "count_bits bm ?st n pos' cnt' = Inr c" by (auto simp: cnt_def)
  from count_words_spec [OF words] first_count_align obtain d where d: "pos' = start + cnt + d" "cnt' = cnt + d"
    "run bm (start + cnt) d ?st" "cnt \<le> n + 31 \<longrightarrow> cnt' \<le> n + 31" unfolding cnt_def by blast
  from count_bits_spec [OF bits] obtain e where e: "c = cnt' + e" "run bm pos' e ?st"
    "pos' + e < bm_len bm" "c < n \<longrightarrow> bm_bit bm (pos' + e) \<noteq> ?st" "e > 0 \<longrightarrow> c \<le> n" by blast
  have "run bm start cnt ?st" by (simp add: cnt_def first_count_run)
  with d e show "run bm start c ?st" by (simp add: run_add add.assoc)
  from d e show "start + c < bm_len bm" and *: "c < n \<Longrightarrow> bm_bit bm (start + c) \<noteq> ?st"
    by (simp_all add: add.assoc)
  show "0 < c"
    using * assms(2) by (cases "c = 0") auto
  have "cnt \<le> n" by (simp add: cnt_def first_count_le)
  with d(4) e(1,5) show "c \<le> n + 31" by (cases "e = 0") auto
qed

text \<open>
  When the count terminates inside the array: below a limit \<open>L\<close> that either carries the
  opposite bit or is far enough away for \<open>n\<close> bits and one more granule.
\<close>

definition count_guard :: "bitmap \<Rightarrow> bool \<Rightarrow> nat \<Rightarrow> nat \<Rightarrow> nat \<Rightarrow> nat \<Rightarrow> bool" where
  "count_guard bm st n L pos count \<longleftrightarrow> pos \<le> L \<and> L < bm_len bm \<and>
     (bm_bit bm L \<noteq> st \<or> (count < n \<longrightarrow> pos + (n - count) + 31 \<le> L))"

lemma count_words_total:
  assumes "count_guard bm st n L pos count"
    and "count < n \<Longrightarrow> pos mod 32 = 0 \<or> \<not> (\<forall>k < 32. bit (bm ! (pos div 32)) k = st)"
  shows "\<exists>pos' count'. count_words bm (if st then NOT 0 else 0) n pos count = Inr (pos', count') \<and>
    count_guard bm st n L pos' count'"
  using assms
proof (induction bm "if st then NOT 0 else 0 :: u32" n pos count rule: count_words.induct)
  case (1 bm n pos count)
  from "1.prems"(1) have len: "pos div 32 < length bm"
    by (auto simp: count_guard_def granule_bound_iff)
  show ?case
  proof (cases "(\<forall>k < 32. bit (bm ! (pos div 32)) k = st) \<and> count < n")
    case False
    then have "count_words bm (if st then NOT 0 else 0) n pos count = Inr (pos, count)"
      using len by (subst count_words.simps) (auto simp: word_uniform BITMAP_GRANULE_LEN_def)
    with "1.prems"(1) show ?thesis by blast
  next
    case True
    with "1.prems"(2) have al: "pos mod 32 = 0" by blast
    with True have "run bm pos 32 st" by (simp add: granule_run)
    then have "bm_bit bm L \<noteq> st \<Longrightarrow> pos \<le> L \<Longrightarrow> pos + 32 \<le> L"
      unfolding run_def by (metis atLeastLessThan_iff not_less)
    with "1.prems"(1) True have g: "count_guard bm st n L (pos + 32) (count + 32)"
      by (auto simp: count_guard_def)
    have "\<exists>pos' count'. count_words bm (if st then NOT 0 else 0) n (pos + 32) (count + 32) = Inr (pos', count') \<and>
        count_guard bm st n L pos' count'"
      using "1.hyps" [of "bm ! (pos div 32)"] len True al g
      by (simp add: BITMAP_GRANULE_LEN_def word_uniform)
    with True len show ?thesis
      by (simp add: count_words.simps [of bm _ n pos count] word_uniform BITMAP_GRANULE_LEN_def)
  qed
qed

lemma count_bits_total:
  assumes "count_guard bm st n L pos count"
  shows "\<exists>count'. count_bits bm st n pos count = Inr count'"
  using assms
proof (induction bm st n pos count rule: count_bits.induct)
  case (1 bm st n pos count)
  from "1.prems" have g: "bitmap_get bm pos = Inr (bm_bit bm pos)"
    by (auto simp: count_guard_def intro: bitmap_get_eq)
  show ?case
  proof (cases "bm_bit bm pos = st \<and> count < n")
    case True
    with "1.prems" have "count_guard bm st n L (pos + 1) (count + 1)"
      by (cases "L = pos") (auto simp: count_guard_def)
    from "1.IH" [OF g True this] g True show ?thesis
      by (subst count_bits.simps) simp
  qed (use g in \<open>subst count_bits.simps, auto\<close>)
qed

lemma count_consecutive_total:
  assumes "count_guard bm (bm_bit bm start) n L start 0" and "1 < n"
  shows "\<exists>c. bitmap_count_consecutive bm sz start n = Inr c"
proof -
  let ?st = "bm_bit bm start"
  define cnt where "cnt = first_count bm start n"
  have start: "start < bm_len bm" using assms(1) by (auto simp: count_guard_def)
  have "bm_bit bm L \<noteq> ?st \<Longrightarrow> start \<le> L \<Longrightarrow> start + cnt \<le> L"
    using first_count_run [of bm start n] unfolding run_def cnt_def
    by (metis atLeastLessThan_iff not_less)
  with assms(1) first_count_le [of bm start n] have "count_guard bm ?st n L (start + cnt) cnt"
    by (auto simp: count_guard_def cnt_def)
  from count_words_total [OF this] first_count_align count_bits_total
  obtain pos' cnt' c where "count_words bm (if ?st then NOT 0 else 0) n (start + cnt) cnt = Inr (pos', cnt')"
    "count_bits bm ?st n pos' cnt' = Inr c" unfolding cnt_def by blast
  then show ?thesis
    by (simp add: count_consecutive_unfold [OF start assms(2)] cnt_def)
qed

lemma count_consecutive_one:
  "start < bm_len bm \<Longrightarrow> bitmap_count_consecutive bm sz start 1 = Inr 1"
  by (simp add: bitmap_count_consecutive_def Let_def bitmap_get_eq BITMAP_GRANULE_LEN_def BIT_MASK_eq min_def)

lemma count_consecutive_pos:
  "bitmap_count_consecutive bm sz start n = Inr c \<Longrightarrow> 0 < n \<Longrightarrow> 0 < c"
  using count_consecutive_spec(4) [of bm sz start n c]
  by (cases "n = 1") (auto simp: bitmap_count_consecutive_def Let_def)

section \<open>bitmap_find_consec\<close>

termination find_consec_loop
  by (relation "measure (\<lambda>(bm, sz, n, i). sz - i)")
    (auto simp: SIZE_MAX_def dest!: count_consecutive_pos)

declare find_consec_loop.simps [simp del]

text \<open>
  The loop keeps that no window of \<open>n\<close> bits starts before \<open>i\<close> and that a run of \<open>st\<close>
  starts at \<open>i\<close>; so the first window found is the least one.
\<close>

lemma no_window: "bm_bit bm p \<noteq> st \<Longrightarrow> j \<le> p \<Longrightarrow> p < j + n \<Longrightarrow> \<not> run bm j n st"
  by (auto simp: run_def)

lemma find_consec_loop_spec:
  assumes "find_consec_loop bm sz n i = Inr r"
    and "0 < n" "bm_len bm < SIZE_MAX" "i < sz \<Longrightarrow> bm_bit bm i = st" "start \<le> i"
    and "\<forall>j \<in> {start..<i}. \<not> run bm j n st"
  shows "start \<le> r \<and> (\<forall>j \<in> {start..<r}. \<not> run bm j n st) \<and>
    (r < sz \<longrightarrow> run bm r n st \<and> r + n \<le> bm_len bm)"
  using assms
proof (induction bm sz n i rule: find_consec_loop.induct)
  case (1 bm sz n i)
  show ?case
  proof (cases "i < sz")
    case False
    with "1.prems" show ?thesis by (subst (asm) find_consec_loop.simps) auto
  next
    case i: True
    with "1.prems"(1) obtain c where c: "bitmap_count_consecutive bm sz i n = Inr c"
      by (subst (asm) find_consec_loop.simps) auto
    show ?thesis
    proof (cases "c < n")
      case False
      with "1.prems"(1) i c have r: "r = i" by (subst (asm) find_consec_loop.simps) simp
      have "run bm i n st \<and> i + n \<le> bm_len bm"
      proof (cases "n = 1")
        case True
        with "1.prems"(4) i count_consecutive_start [OF c] show ?thesis by (simp add: run_Suc)
      next
        case False
        with "1.prems"(2) have "1 < n" by simp
        with count_consecutive_spec [OF c this] \<open>\<not> c < n\<close> "1.prems"(4) i show ?thesis
          by (auto intro: run_mono)
      qed
      with r "1.prems" show ?thesis by auto
    next
      case True
      with "1.prems"(1) i c obtain d where d: "bitmap_count_consecutive bm sz (i + c) SIZE_MAX = Inr d"
        and rec: "find_consec_loop bm sz n (i + c + d) = Inr r"
        by (subst (asm) find_consec_loop.simps) auto
      have "1 < n"
        using True count_consecutive_pos [OF c "1.prems"(2)] by simp
      note spec = count_consecutive_spec [OF c this]
      have sm: "1 < SIZE_MAX" by (simp add: SIZE_MAX_def)
      note spec2 = count_consecutive_spec [OF d sm]
      have ne: "bm_bit bm (i + c) \<noteq> st" using spec(3) True "1.prems"(4) i by simp
      have "d < SIZE_MAX" using spec2(2) "1.prems"(3) by simp
      then have hit: "bm_bit bm (i + c + d) = st" using spec2(3) ne by auto
      have win: "\<not> run bm j n st" if "j \<in> {start..<i + c + d}" for j
      proof (cases "j < i")
        case True
        with that "1.prems"(6) show ?thesis by auto
      next
        case ji: False
        show ?thesis
        proof (cases "j \<le> i + c")
          case True
          with ji \<open>c < n\<close> show ?thesis by (intro no_window [OF ne]) auto
        next
          case False
          moreover have "run bm (i + c) d (\<not> st)" using spec2(1) ne by (cases st) simp_all
          ultimately have "bm_bit bm j \<noteq> st" using that by (simp add: run_def)
          then show ?thesis using "1.prems"(2) no_window [of bm j st j n] by simp
        qed
      qed
      have "start \<le> i + c + d" using "1.prems"(5) by simp
      from "1.IH" [OF i c True d rec "1.prems"(2,3) hit this] win show ?thesis by simp
    qed
  qed
qed

theorem find_consec_spec:
  assumes "bitmap_find_consec bm sz start n st = Inr r"
    and "0 < n" "sz \<le> bm_len bm" "bm_len bm < SIZE_MAX"
  shows "r = - 1 \<and> (\<forall>j \<in> {start..<sz}. \<not> run bm j n st) \<or>
    (\<exists>k. r = int k \<and> start \<le> k \<and> k < sz \<and> k + n \<le> bm_len bm \<and> run bm k n st \<and>
      (\<forall>j \<in> {start..<k}. \<not> run bm j n st))"
proof (cases "\<exists>k \<in> {start..<sz}. bm_bit bm k = st")
  case False
  with assms(1) have "r = - 1" by (simp add: bitmap_find_consec_def find_first [OF assms(3)])
  moreover have "\<not> run bm j n st" if "j \<in> {start..<sz}" for j
    using False that assms(2) by (intro no_window [of bm j]) auto
  ultimately show ?thesis by blast
next
  case True
  define i where "i = (LEAST k. start \<le> k \<and> k < sz \<and> bm_bit bm k = st)"
  from True have ex: "\<exists>k. start \<le> k \<and> k < sz \<and> bm_bit bm k = st" by auto
  from LeastI_ex [OF this] have i: "start \<le> i" "i < sz" "bm_bit bm i = st" by (simp_all add: i_def)
  have below: "\<not> run bm j n st" if "j \<in> {start..<i}" for j
  proof -
    from that not_less_Least [of j "\<lambda>k. start \<le> k \<and> k < sz \<and> bm_bit bm k = st"] i(2)
    have "bm_bit bm j \<noteq> st" by (auto simp: i_def)
    then show ?thesis using assms(2) by (intro no_window [of bm j]) auto
  qed
  from assms(1) True obtain q where q: "find_consec_loop bm sz n i = Inr q"
    "r = (if q \<ge> sz then - 1 else int q)"
    by (auto simp: bitmap_find_consec_def find_first [OF assms(3)] i_def split: if_splits)
  from find_consec_loop_spec [OF q(1) assms(2,4) _ i(1), of st] i(3) below
  have "start \<le> q" "\<forall>j \<in> {start..<q}. \<not> run bm j n st" "q < sz \<longrightarrow> run bm q n st \<and> q + n \<le> bm_len bm"
    by auto
  with q(2) show ?thesis by auto
qed

text \<open>
  The search does not fault when the bitmap has a tail behind its \<open>sz\<close> positions that is all
  \<open>st\<close> and holds \<open>n\<close> bits and two more granules: the pool bitmaps, which fill whole pages and
  start zeroed, have such a tail unless the pool fills its last page.
\<close>

lemma find_consec_loop_total:
  assumes "\<forall>k \<in> {sz ..< bm_len bm}. bm_bit bm k = st" "sz + n + 64 \<le> bm_len bm" "0 < n"
    and "bm_len bm < SIZE_MAX" "i < sz \<Longrightarrow> bm_bit bm i = st"
  shows "\<exists>r. find_consec_loop bm sz n i = Inr r"
  using assms
proof (induction bm sz n i rule: find_consec_loop.induct)
  case (1 bm sz n i)
  show ?case
  proof (cases "i < sz")
    case False
    then show ?thesis by (subst find_consec_loop.simps) simp
  next
    case i: True
    with "1.prems"(2,5) have "count_guard bm (bm_bit bm i) n (i + n + 31) i 0"
      by (simp add: count_guard_def)
    with count_consecutive_total [of bm i n "i + n + 31" sz] count_consecutive_one [of i bm sz] "1.prems"(2,3) i
    obtain c where c: "bitmap_count_consecutive bm sz i n = Inr c" by (cases "n = 1") auto
    show ?thesis
    proof (cases "c < n")
      case False
      with i c show ?thesis by (subst find_consec_loop.simps) simp
    next
      case True
      have "1 < n" using True count_consecutive_pos [OF c "1.prems"(3)] by simp
      note spec = count_consecutive_spec [OF c this]
      have ne: "bm_bit bm (i + c) \<noteq> st" using spec(3) True "1.prems"(5) i by simp
      have "i + c < sz"
        using ne spec(2) "1.prems"(1) by (meson atLeastLessThan_iff not_less)
      then have "count_guard bm (bm_bit bm (i + c)) SIZE_MAX sz (i + c) 0"
        using ne "1.prems"(1,2) by (auto simp: count_guard_def)
      with count_consecutive_total obtain d where d: "bitmap_count_consecutive bm sz (i + c) SIZE_MAX = Inr d"
        unfolding SIZE_MAX_def by fastforce
      have sm: "1 < SIZE_MAX" by (simp add: SIZE_MAX_def)
      note spec2 = count_consecutive_spec [OF d sm]
      have "d < SIZE_MAX" using spec2(2) "1.prems"(4) by simp
      then have hit: "bm_bit bm (i + c + d) = st" using spec2(3) ne by auto
      from "1.IH" [OF i c True d "1.prems"(1-4) hit] i c True d show ?thesis
        by (subst find_consec_loop.simps) simp
    qed
  qed
qed

theorem find_consec_total:
  assumes "\<forall>k \<in> {sz ..< bm_len bm}. bm_bit bm k = st" "sz + n + 64 \<le> bm_len bm" "0 < n"
    and "bm_len bm < SIZE_MAX"
  shows "\<exists>r. bitmap_find_consec bm sz start n st = Inr r"
proof (cases "\<exists>k \<in> {start..<sz}. bm_bit bm k = st")
  case False
  with assms(2) show ?thesis by (simp add: bitmap_find_consec_def find_first)
next
  case True
  then have "\<exists>k. start \<le> k \<and> k < sz \<and> bm_bit bm k = st" by auto
  from LeastI_ex [OF this] find_consec_loop_total [OF assms] obtain q where
    "find_consec_loop bm sz n (LEAST k. start \<le> k \<and> k < sz \<and> bm_bit bm k = st) = Inr q" by blast
  with True assms(2) show ?thesis by (simp add: bitmap_find_consec_def find_first)
qed

section \<open>bitmap_set_consecutive\<close>

lemma or_field_bits:
  assumes "p < bm_len bm" "p mod 32 + len \<le> 32"
  shows "bm_bit (bm[p div 32 := bm ! (p div 32) OR push_bit (p mod 32) (mask len)]) k \<longleftrightarrow>
    bm_bit bm k \<or> p \<le> k \<and> k < p + len"
proof (cases "k div 32 = p div 32")
  case True
  have "k = 32 * (p div 32) + k mod 32" "p = 32 * (p div 32) + p mod 32"
    using True mult_div_mod_eq [of 32 k] by simp_all
  then have "p mod 32 \<le> k mod 32 \<and> k mod 32 < p mod 32 + len \<longleftrightarrow> p \<le> k \<and> k < p + len"
    by linarith
  with True granule_bound [OF assms(1)] show ?thesis
    by (auto simp: bm_bit_def bit_or_iff bit_field_mask)
next
  case False
  have "\<not> (p \<le> k \<and> k < p + len)"
  proof
    assume k: "p \<le> k \<and> k < p + len"
    then have "p div 32 \<le> k div 32" by (simp add: div_le_mono)
    moreover have "k < 32 * (p div 32) + 32"
      using k assms(2) mult_div_mod_eq [of 32 p] by linarith
    then have "k div 32 < p div 32 + 1" by linarith
    ultimately show False using False by simp
  qed
  with False show ?thesis by (auto simp: bm_bit_def)
qed

lemma ones_field: "NOT 0 = push_bit 0 (mask 32 :: u32)"
  by (simp add: mask_eq_exp_minus_1)

lemma set_words_spec:
  assumes "pos mod 32 = 0" "pos + count \<le> bm_len bm"
  shows "\<exists>bm' pos' count'. set_words bm pos count = Inr (bm', pos', count') \<and> length bm' = length bm \<and>
    pos \<le> pos' \<and> count' < 32 \<and> pos' + count' = pos + count \<and> pos' mod 32 = 0 \<and>
    (\<forall>k. bm_bit bm' k \<longleftrightarrow> bm_bit bm k \<or> pos \<le> k \<and> k < pos')"
  using assms
proof (induction bm pos count rule: set_words.induct)
  case (1 bm pos count)
  show ?case
  proof (cases "32 \<le> count")
    case False
    with "1.prems" show ?thesis
      by (subst set_words.simps) (auto simp: BITMAP_GRANULE_LEN_def)
  next
    case True
    let ?g = "bm ! (pos div 32)" and ?bm = "bm[pos div 32 := bm ! (pos div 32) OR NOT 0]"
    have pos: "pos < bm_len bm" using True "1.prems"(2) by simp
    note len = granule_bound [OF pos]
    have bits: "bm_bit ?bm k \<longleftrightarrow> bm_bit bm k \<or> pos \<le> k \<and> k < pos + 32" for k
      using or_field_bits [OF pos, of 32 k] "1.prems"(1) by (simp only: ones_field add_0)
    have "(pos + 32) mod 32 = 0" "pos + 32 + (count - 32) \<le> bm_len ?bm"
      using "1.prems" True by (simp_all add: bm_len_def)
    with "1.IH" [of ?g ?bm] True len obtain bm' pos' count' where
      rec: "set_words ?bm (pos + 32) (count - 32) = Inr (bm', pos', count')" and l: "length bm' = length bm"
      and p: "pos + 32 \<le> pos'" "count' < 32" "pos' + count' = pos + count" "pos' mod 32 = 0"
      and b: "\<And>k. bm_bit bm' k \<longleftrightarrow> bm_bit ?bm k \<or> pos + 32 \<le> k \<and> k < pos'"
      by (auto simp: BITMAP_GRANULE_LEN_def)
    have "set_words bm pos count = Inr (bm', pos', count')"
      using True len rec by (subst set_words.simps) (simp add: BITMAP_GRANULE_LEN_def)
    moreover have "bm_bit bm' k \<longleftrightarrow> bm_bit bm k \<or> pos \<le> k \<and> k < pos'" for k
      using b [of k] bits [of k] p(1) by auto
    ultimately show ?thesis using l p by auto
  qed
qed

theorem set_consecutive_spec:
  assumes "0 < n" "start + n \<le> bm_len bm"
  shows "\<exists>bm'. bitmap_set_consecutive bm start n = Inr bm' \<and> length bm' = length bm \<and>
    (\<forall>k. bm_bit bm' k \<longleftrightarrow> bm_bit bm k \<or> start \<le> k \<and> k < start + n)"
proof -
  define len where "len = min (32 - start mod 32) n"
  define bm1 where "bm1 = bm[start div 32 := bm ! (start div 32) OR push_bit (start mod 32) (mask len)]"
  have off: "start mod 32 < 32" "0 < len" "start mod 32 + len \<le> 32" "len \<le> 32" "len \<le> n"
    using assms(1) by (auto simp: len_def)
  have start: "start < bm_len bm" using assms by simp
  have bits1: "bm_bit bm1 k \<longleftrightarrow> bm_bit bm k \<or> start \<le> k \<and> k < start + len" for k
    unfolding bm1_def by (rule or_field_bits [OF start off(3)])
  have len1: "length bm1 = length bm" by (simp add: bm1_def)
  have eq: "bitmap_set_consecutive bm start n =
      bindR (set_words bm1 (start + len) (n - len)) (\<lambda>(bm, pos, count).
        if count > 0 then
          bindR (BIT_MASK 0 count) (\<lambda>m. bindR (rd bm (pos div 32)) (\<lambda>g. wr bm (pos div 32) (g OR m)))
        else Inr bm)"
    unfolding bitmap_set_consecutive_def BITMAP_GRANULE_LEN_def Let_def len_def [symmetric]
    using off start by (simp add: BIT_MASK_eq granule_bound bm1_def)
  show ?thesis
  proof (cases "len = n")
    case True
    then have "set_words bm1 (start + len) (n - len) = Inr (bm1, start + len, 0)"
      by (subst set_words.simps) (simp add: BITMAP_GRANULE_LEN_def)
    with True bits1 len1 show ?thesis by (simp add: eq)
  next
    case False
    then have "len = 32 - start mod 32" using len_def by (simp add: min_def split: if_splits)
    then have "(start mod 32 + len) mod 32 = 0" using off(1) by simp
    then have al: "(start + len) mod 32 = 0" by (simp only: mod_add_left_eq)
    have "start + len + (n - len) \<le> bm_len bm1" using off(5) assms(2) len1 by (simp add: bm_len_def)
    from set_words_spec [OF al this] obtain bm2 pos count where
      w: "set_words bm1 (start + len) (n - len) = Inr (bm2, pos, count)" and len2: "length bm2 = length bm1"
      and pos: "start + len \<le> pos" "count < 32" "pos + count = start + n" "pos mod 32 = 0"
      and bits2: "\<And>k. bm_bit bm2 k \<longleftrightarrow> bm_bit bm1 k \<or> start + len \<le> k \<and> k < pos"
      using off(5) by auto
    have bits: "bm_bit bm2 k \<longleftrightarrow> bm_bit bm k \<or> start \<le> k \<and> k < pos" for k
      using bits1 bits2 pos(1) by auto
    show ?thesis
    proof (cases "count = 0")
      case True
      with w bits pos len1 len2 show ?thesis by (simp add: eq)
    next
      case False
      have lt: "pos < bm_len bm2" using False pos assms(2) len1 len2 by (simp add: bm_len_def)
      define bm3 where "bm3 = bm2[pos div 32 := bm2 ! (pos div 32) OR mask count]"
      have "bm_bit bm3 k \<longleftrightarrow> bm_bit bm k \<or> start \<le> k \<and> k < start + n" for k
      proof -
        have "bm_bit bm3 k \<longleftrightarrow> bm_bit bm2 k \<or> pos \<le> k \<and> k < pos + count"
          using or_field_bits [OF lt, of count k] pos(2,4) by (simp add: bm3_def)
        with bits [of k] pos(1,3) show ?thesis by auto
      qed
      moreover have "length bm3 = length bm" using len1 len2 by (simp add: bm3_def)
      moreover have "bitmap_set_consecutive bm start n = Inr bm3"
        using False pos(2) granule_bound [OF lt] by (simp add: eq w BIT_MASK_eq bm3_def)
      ultimately show ?thesis by blast
    qed
  qed
qed

text \<open>Two bitmaps of one length with the same bits are the same array.\<close>

lemma bm_eqI:
  assumes "length bm = length bm'" "\<And>k. k < bm_len bm \<Longrightarrow> bm_bit bm k = bm_bit bm' k"
  shows "bm = bm'"
proof (rule nth_equalityI)
  fix i assume i: "i < length bm"
  show "bm ! i = bm' ! i"
  proof (rule bit_word_eqI)
    fix n assume n: "n < LENGTH(32)"
    with i have "32 * i + n < bm_len bm" by (simp add: bm_len_def)
    from assms(2) [OF this] n show "bit (bm ! i) n = bit (bm' ! i) n" by (simp add: bm_bit_def)
  qed
qed (fact assms(1))

section \<open>The interface of a bit store\<close>

text \<open>
  What the clients of the bitmaps rely on: single bits can be read, set and cleared below the
  length, and no operation disturbs another bit. Loops over single bits are specified once
  from these laws.
\<close>

locale bit_store =
  fixes get :: "'m \<Rightarrow> nat \<Rightarrow> bool res"
    and set1 :: "'m \<Rightarrow> nat \<Rightarrow> 'm res"
    and clear1 :: "'m \<Rightarrow> nat \<Rightarrow> 'm res"
    and len :: "'m \<Rightarrow> nat"
    and has :: "'m \<Rightarrow> nat \<Rightarrow> bool"
  assumes get_has: "i < len m \<Longrightarrow> get m i = Inr (has m i)"
    and set1_has: "i < len m \<Longrightarrow>
      \<exists>m'. set1 m i = Inr m' \<and> len m' = len m \<and> (\<forall>k. has m' k \<longleftrightarrow> k = i \<or> has m k)"
    and clear1_has: "i < len m \<Longrightarrow>
      \<exists>m'. clear1 m i = Inr m' \<and> len m' = len m \<and> (\<forall>k. has m' k \<longleftrightarrow> k \<noteq> i \<and> has m k)"
begin

lemma set_range:
  assumes "start + n \<le> len m"
  shows "\<exists>m'. foldR (\<lambda>i m. set1 m (start + i)) [0..<n] m = Inr m' \<and> len m' = len m \<and>
    (\<forall>k. has m' k \<longleftrightarrow> has m k \<or> start \<le> k \<and> k < start + n)"
  using assms
proof (induction n)
  case 0
  then show ?case by auto
next
  case (Suc n)
  then obtain m1 where m1: "foldR (\<lambda>i m. set1 m (start + i)) [0..<n] m = Inr m1" "len m1 = len m"
    "\<forall>k. has m1 k \<longleftrightarrow> has m k \<or> start \<le> k \<and> k < start + n" by auto
  from set1_has [of "start + n" m1] Suc.prems m1(2) obtain m2 where m2: "set1 m1 (start + n) = Inr m2"
    "len m2 = len m1" "\<forall>k. has m2 k \<longleftrightarrow> k = start + n \<or> has m1 k" by auto
  have "has m2 k \<longleftrightarrow> has m k \<or> start \<le> k \<and> k < start + Suc n" for k
    using m1(3) [rule_format, of k] m2(3) [rule_format, of k] by auto
  with m1 m2 show ?case by (simp add: foldR_append)
qed

lemma clear_range:
  assumes "start + n \<le> len m"
  shows "\<exists>m'. foldR (\<lambda>i m. clear1 m (start + i)) [0..<n] m = Inr m' \<and> len m' = len m \<and>
    (\<forall>k. has m' k \<longleftrightarrow> has m k \<and> \<not> (start \<le> k \<and> k < start + n))"
  using assms
proof (induction n)
  case 0
  then show ?case by auto
next
  case (Suc n)
  then obtain m1 where m1: "foldR (\<lambda>i m. clear1 m (start + i)) [0..<n] m = Inr m1" "len m1 = len m"
    "\<forall>k. has m1 k \<longleftrightarrow> has m k \<and> \<not> (start \<le> k \<and> k < start + n)" by auto
  from clear1_has [of "start + n" m1] Suc.prems m1(2) obtain m2 where m2: "clear1 m1 (start + n) = Inr m2"
    "len m2 = len m1" "\<forall>k. has m2 k \<longleftrightarrow> k \<noteq> start + n \<and> has m1 k" by auto
  have "has m2 k \<longleftrightarrow> has m k \<and> \<not> (start \<le> k \<and> k < start + Suc n)" for k
    using m1(3) [rule_format, of k] m2(3) [rule_format, of k] by auto
  with m1 m2 show ?case by (simp add: foldR_append)
qed

lemma count_range:
  assumes "start \<le> n" "n \<le> len m"
  shows "foldR (\<lambda>i count. bindR (get m i) (\<lambda>b. Inr (if b = st then count + 1 else count))) [start..<n] 0
    = Inr (card {i \<in> {start..<n}. has m i = st})"
  using assms
proof (induction n)
  case 0
  then show ?case by auto
next
  case (Suc n)
  show ?case
  proof (cases "start = Suc n")
    case False
    with Suc.prems have le: "start \<le> n" by simp
    have "{i \<in> {start..<Suc n}. has m i = st} =
        (if has m n = st then insert n {i \<in> {start..<n}. has m i = st} else {i \<in> {start..<n}. has m i = st})"
      using le by (auto simp: less_Suc_eq)
    with Suc le show ?thesis by (simp add: foldR_append get_has)
  qed simp
qed

end

interpretation bm: bit_store bitmap_get bitmap_set bitmap_clear bm_len bm_bit
proof
  fix i m assume i: "i < bm_len m"
  then show "bitmap_get m i = Inr (bm_bit m i)" by (rule bitmap_get_eq)
  from bitmap_set_eq [OF i] show "\<exists>m'. bitmap_set m i = Inr m' \<and> bm_len m' = bm_len m \<and>
      (\<forall>k. bm_bit m' k \<longleftrightarrow> k = i \<or> bm_bit m k)" by (auto simp: bm_len_def)
  from bitmap_clear_eq [OF i] show "\<exists>m'. bitmap_clear m i = Inr m' \<and> bm_len m' = bm_len m \<and>
      (\<forall>k. bm_bit m' k \<longleftrightarrow> k \<noteq> i \<and> bm_bit m k)" by (auto simp: bm_len_def)
qed

lemma clear_consecutive_spec:
  assumes "start + n \<le> bm_len bm"
  shows "\<exists>bm'. bitmap_clear_consecutive bm start n = Inr bm' \<and> bm_len bm' = bm_len bm \<and>
    (\<forall>k. bm_bit bm' k \<longleftrightarrow> bm_bit bm k \<and> \<not> (start \<le> k \<and> k < start + n))"
  unfolding bitmap_clear_consecutive_def by (rule bm.clear_range [OF assms])

lemma bitmap_count_spec:
  assumes "start \<le> n" "n \<le> bm_len bm"
  shows "bitmap_count bm start n st = Inr (card {i \<in> {start..<n}. bm_bit bm i = st})"
  unfolding bitmap_count_def by (rule bm.count_range [OF assms])

text \<open>The granule-wise \<open>bitmap_set_consecutive\<close> is the loop over \<open>bitmap_set\<close>.\<close>

lemma set_consecutive_loop:
  assumes "0 < n" "start + n \<le> bm_len bm"
  shows "bitmap_set_consecutive bm start n = foldR (\<lambda>i bm. bitmap_set bm (start + i)) [0..<n] bm"
proof -
  from set_consecutive_spec [OF assms] obtain bm1 where 1: "bitmap_set_consecutive bm start n = Inr bm1"
    "length bm1 = length bm" "\<And>k. bm_bit bm1 k \<longleftrightarrow> bm_bit bm k \<or> start \<le> k \<and> k < start + n" by blast
  from bm.set_range [OF assms(2)] obtain bm2 where 2:
    "foldR (\<lambda>i bm. bitmap_set bm (start + i)) [0..<n] bm = Inr bm2" "bm_len bm2 = bm_len bm"
    "\<And>k. bm_bit bm2 k \<longleftrightarrow> bm_bit bm k \<or> start \<le> k \<and> k < start + n" by blast
  have "bm1 = bm2"
    using 1 2 by (intro bm_eqI) (auto simp: bm_len_def)
  with 1(1) 2(1) show ?thesis by simp
qed

end
