(* ===== verification/Clist.thy ===== *)
theory Clist
  imports Prelude
begin

text \<open>
  The intrusive singly linked lists of \<open>src/lib/inc/list.h\<close>. A node is an address; its first
  word, the \<open>next\<close> pointer, lives in a heap that maps addresses to pointers. A pointer is
  \<open>None\<close> for \<open>NULL\<close>. Each operation holds the list's lock throughout and is one atomic step;
  the list argument itself is never \<open>NULL\<close> (it is the address of a member everywhere).
\<close>

section \<open>The list and its operations\<close>

type_synonym node = nat
type_synonym nexts = "node \<Rightarrow> node option"

record clist =
  head :: "node option"
  tail :: "node option"

definition list_init :: clist where
  "list_init = \<lparr>head = None, tail = None\<rparr>"

definition list_push :: "nexts \<times> clist \<Rightarrow> node option \<Rightarrow> nexts \<times> clist" where
  "list_push = (\<lambda>(nx, l) nodeptr.
    case nodeptr of None \<Rightarrow> (nx, l)
    | Some nd \<Rightarrow>
       let nx = nx(nd := None);
           nx = (case tail l of None \<Rightarrow> nx | Some t \<Rightarrow> nx(t := Some nd));
           l = l\<lparr>tail := Some nd\<rparr>;
           l = (if head l = None then l\<lparr>head := Some nd\<rparr> else l)
       in (nx, l))"

definition list_pop :: "nexts \<times> clist \<Rightarrow> (nexts \<times> clist) \<times> node option" where
  "list_pop = (\<lambda>(nx, l).
    case head l of None \<Rightarrow> ((nx, l), None)
    | Some temp \<Rightarrow>
       let l = l\<lparr>head := nx temp\<rparr>;
           l = (if head l = None then l\<lparr>tail := None\<rparr> else l);
           nx = nx(temp := None)
       in ((nx, l), Some temp))"

definition list_peek :: "clist \<Rightarrow> node option" where
  "list_peek l = head l"

definition list_empty :: "clist \<Rightarrow> bool" where
  "list_empty l \<longleftrightarrow> head l = None"

text \<open>
  The search loop of \<open>list_rm\<close>: \<open>None\<close> when it does not return (a cyclic list that does not
  hold the node), otherwise the final \<open>temp\<close> and \<open>temp_prev\<close>.
\<close>

partial_function (option) rm_loop ::
  "nexts \<Rightarrow> node \<Rightarrow> node option \<Rightarrow> node option \<Rightarrow> (node option \<times> node option) option" where
  "rm_loop nx nd temp temp_prev =
    (case temp of None \<Rightarrow> Some (None, temp_prev)
     | Some t \<Rightarrow> if t = nd then Some (Some t, temp_prev) else rm_loop nx nd (nx t) (Some t))"

definition list_rm :: "nexts \<times> clist \<Rightarrow> node option \<Rightarrow> (nexts \<times> clist) res" where
  "list_rm = (\<lambda>(nx, l) nodeptr.
    case nodeptr of None \<Rightarrow> Inr (nx, l)
    | Some nd \<Rightarrow>
       (case rm_loop nx nd (head l) None of
          None \<Rightarrow> Inl Hang
        | Some (None, _) \<Rightarrow> Inr (nx, l)
        | Some (Some t, temp_prev) \<Rightarrow>
            let (nx, l) = (case temp_prev of Some p \<Rightarrow> (nx(p := nx t), l)
                           | None \<Rightarrow> (nx, l\<lparr>head := nx t\<rparr>));
                l = (if head l = None then l\<lparr>tail := None\<rparr> else l)
            in Inr (nx, l)))"

partial_function (option) insert_loop ::
  "nexts \<Rightarrow> (node \<Rightarrow> bool) \<Rightarrow> node option \<Rightarrow> node option \<Rightarrow> (node option \<times> node option) option" where
  "insert_loop nx gt cur tailp =
    (case cur of None \<Rightarrow> Some (None, tailp)
     | Some c \<Rightarrow> if gt c then Some (Some c, tailp) else insert_loop nx gt (nx c) (Some c))"

text \<open>\<open>cmp c nd\<close> is the C comparison of two nodes, an \<open>int\<close>.\<close>

definition list_insert_ordered ::
  "nexts \<times> clist \<Rightarrow> node option \<Rightarrow> (node \<Rightarrow> node \<Rightarrow> int) \<Rightarrow> (nexts \<times> clist) res" where
  "list_insert_ordered = (\<lambda>(nx, l) nodeptr cmp.
    case nodeptr of None \<Rightarrow> Inr (nx, l)
    | Some nd \<Rightarrow>
       let nx = nx(nd := None) in
       (case insert_loop nx (\<lambda>c. 0 < cmp c nd) (head l) None of
          None \<Rightarrow> Inl Hang
        | Some (cur, tailp) \<Rightarrow>
            let (nx, l) = (case cur of Some c \<Rightarrow> (nx(nd := Some c), l)
                           | None \<Rightarrow> (nx, l\<lparr>tail := Some nd\<rparr>));
                (nx, l) = (case tailp of Some t \<Rightarrow> (nx(t := Some nd), l)
                           | None \<Rightarrow> (nx, l\<lparr>head := Some nd\<rparr>))
            in Inr (nx, l)))"

text \<open>\<open>list_foreach\<close> with a body that breaks at the first node satisfying \<open>P\<close>.\<close>

partial_function (option) list_find :: "nexts \<Rightarrow> (node \<Rightarrow> bool) \<Rightarrow> node option \<Rightarrow> node option option" where
  "list_find nx P cur =
    (case cur of None \<Rightarrow> Some None
     | Some c \<Rightarrow> if P c then Some (Some c) else list_find nx P (nx c))"

section \<open>The abstract list\<close>

fun seg :: "nexts \<Rightarrow> node option \<Rightarrow> node list \<Rightarrow> node option \<Rightarrow> bool" where
  "seg nx p [] q \<longleftrightarrow> p = q"
| "seg nx p (x # xs) q \<longleftrightarrow> p = Some x \<and> seg nx (nx x) xs q"

abbreviation path :: "nexts \<Rightarrow> node option \<Rightarrow> node list \<Rightarrow> bool" where
  "path nx p xs \<equiv> seg nx p xs None"

definition last_node :: "node list \<Rightarrow> node option" where
  "last_node xs = (if xs = [] then None else Some (last xs))"

definition repr :: "nexts \<times> clist \<Rightarrow> node list \<Rightarrow> bool" where
  "repr s xs \<longleftrightarrow> path (fst s) (head (snd s)) xs \<and> tail (snd s) = last_node xs \<and> distinct xs"

lemma seg_upd [simp]: "x \<notin> set xs \<Longrightarrow> seg (nx(x := v)) p xs q = seg nx p xs q"
  by (induction xs arbitrary: p) auto

lemma seg_append [simp]: "seg nx p (xs @ ys) q \<longleftrightarrow> (\<exists>r. seg nx p xs r \<and> seg nx r ys q)"
  by (induction xs arbitrary: p) auto

lemma path_unique: "path nx p xs \<Longrightarrow> path nx p ys \<Longrightarrow> xs = ys"
proof (induction xs arbitrary: p ys)
  case Nil
  then show ?case by (cases ys) auto
next
  case (Cons x xs)
  then show ?case by (cases ys) auto
qed

text \<open>Redirecting the last node of a segment redirects its end.\<close>

lemma seg_last_upd:
  assumes "seg nx p xs q" "distinct xs" "xs \<noteq> []"
  shows "seg (nx(last xs := r)) p xs r"
proof -
  have "xs = butlast xs @ [last xs]" using assms(3) by simp
  then obtain ys x where xs: "xs = ys @ [x]" by blast
  with assms show ?thesis by auto
qed

lemma last_node_simps [simp]:
  "last_node [] = None" "last_node (x # xs) = Some (last (x # xs))"
  "last_node (xs @ [x]) = Some x"
  by (simp_all add: last_node_def)

lemma repr_init: "repr (nx, list_init) []"
  by (simp add: repr_def list_init_def last_node_def)

lemma repr_head: "repr s xs \<Longrightarrow> head (snd s) = (case xs of [] \<Rightarrow> None | x # _ \<Rightarrow> Some x)"
  by (cases xs) (simp_all add: repr_def)

lemma push_repr:
  assumes "repr s xs" "x \<notin> set xs"
  shows "repr (list_push s (Some x)) (xs @ [x])"
proof -
  obtain nx l where s: "s = (nx, l)" by (cases s)
  show ?thesis
  proof (cases "xs = []")
    case False
    have "seg (nx(x := None)) (head l) xs None" using assms s by (simp add: repr_def)
    from seg_last_upd [OF this _ False, of "Some x"] assms
    have "seg ((nx(x := None))(last xs := Some x)) (head l) xs (Some x)" by (simp add: repr_def)
    moreover have "last xs \<noteq> x" using assms(2) False last_in_set by metis
    moreover have "head l \<noteq> None" using assms False s by (auto simp: repr_def neq_Nil_conv)
    ultimately show ?thesis
      using assms s False by (auto simp: list_push_def repr_def Let_def last_node_def)
  qed (use assms s in \<open>auto simp: list_push_def repr_def Let_def\<close>)
qed

lemma push_frame:
  "repr s xs \<Longrightarrow> y \<notin> set xs \<Longrightarrow> y \<noteq> x \<Longrightarrow> fst (list_push s (Some x)) y = fst s y"
  by (cases s) (auto simp: list_push_def repr_def Let_def last_node_def split: option.splits if_splits)

lemma pop_repr_empty: "repr s [] \<Longrightarrow> list_pop s = (s, None)"
  by (cases s) (auto simp: list_pop_def repr_def)

lemma pop_repr:
  assumes "repr s (x # xs)"
  shows "\<exists>s'. list_pop s = (s', Some x) \<and> repr s' xs \<and> (\<forall>y. y \<noteq> x \<longrightarrow> fst s' y = fst s y)"
proof -
  obtain nx l where s: "s = (nx, l)" by (cases s)
  with assms show ?thesis
    by (cases xs) (auto simp: list_pop_def repr_def Let_def)
qed

lemma empty_repr: "repr s xs \<Longrightarrow> list_empty (snd s) \<longleftrightarrow> xs = []"
  by (cases xs) (auto simp: list_empty_def repr_def)

lemma find_repr:
  "path nx p xs \<Longrightarrow> list_find nx P p = Some (find P xs)"
  by (induction xs arbitrary: p) (subst list_find.simps; simp)+

section \<open>The interface of a queue\<close>

text \<open>
  A queue as its clients see it: elements go in at the end and come out at the front; an
  element may not be in the queue already (the node would be linked twice).
\<close>

locale fifo =
  fixes enq :: "'s \<Rightarrow> 'e \<Rightarrow> 's"
    and deq :: "'s \<Rightarrow> 's \<times> 'e option"
    and holds :: "'s \<Rightarrow> 'e list \<Rightarrow> bool"
  assumes enq_holds: "holds s xs \<Longrightarrow> x \<notin> set xs \<Longrightarrow> holds (enq s x) (xs @ [x])"
    and deq_empty: "holds s [] \<Longrightarrow> deq s = (s, None)"
    and deq_holds: "holds s (x # xs) \<Longrightarrow> \<exists>s'. deq s = (s', Some x) \<and> holds s' xs"
begin

fun enq_all :: "'s \<Rightarrow> 'e list \<Rightarrow> 's" where
  "enq_all s [] = s"
| "enq_all s (x # xs) = enq_all (enq s x) xs"

fun deq_n :: "'s \<Rightarrow> nat \<Rightarrow> 's \<times> 'e list" where
  "deq_n s 0 = (s, [])"
| "deq_n s (Suc n) = (case deq s of (s1, None) \<Rightarrow> (s1, [])
     | (s1, Some x) \<Rightarrow> (let (s2, xs) = deq_n s1 n in (s2, x # xs)))"

lemma enq_all_holds:
  "holds s xs \<Longrightarrow> distinct (xs @ ys) \<Longrightarrow> holds (enq_all s ys) (xs @ ys)"
proof (induction ys arbitrary: s xs)
  case (Cons y ys)
  then have "holds (enq s y) (xs @ [y])" by (intro enq_holds) auto
  from Cons.IH [OF this] Cons.prems show ?case by simp
qed simp

lemma deq_n_holds:
  "holds s xs \<Longrightarrow> \<exists>s'. deq_n s n = (s', take n xs) \<and> holds s' (drop n xs)"
proof (induction n arbitrary: s xs)
  case (Suc n)
  show ?case
  proof (cases xs)
    case Nil
    with Suc.prems deq_empty [of s] show ?thesis by simp
  next
    case (Cons x xs')
    with Suc.prems deq_holds [of s x xs'] obtain s' where "deq s = (s', Some x)" "holds s' xs'" by auto
    with Suc.IH [of s' xs'] Cons show ?thesis by auto
  qed
qed simp

lemma fifo_order:
  assumes "holds s xs" "distinct (xs @ ys)"
  shows "\<exists>s'. deq_n (enq_all s ys) (length xs + length ys) = (s', xs @ ys) \<and> holds s' []"
  using deq_n_holds [OF enq_all_holds [OF assms], of "length xs + length ys"] by simp

end

interpretation lq: fifo "\<lambda>s x. list_push s (Some x)" list_pop repr
proof
  fix s x xs
  assume "repr s (x # xs)"
  from pop_repr [OF this] show "\<exists>s'. list_pop s = (s', Some x) \<and> repr s' xs" by blast
qed (rule push_repr pop_repr_empty; assumption)+

section \<open>Removal and ordered insertion\<close>

lemma rm_loop_path:
  assumes "path nx p xs" "distinct xs"
  shows "rm_loop nx nd p pv =
    Some (if nd \<in> set xs
          then (Some nd, case takeWhile (\<lambda>y. y \<noteq> nd) xs of [] \<Rightarrow> pv | ys \<Rightarrow> Some (last ys))
          else (None, if xs = [] then pv else Some (last xs)))"
  using assms
proof (induction xs arbitrary: p pv)
  case Nil
  then show ?case by (subst rm_loop.simps) simp
next
  case (Cons x xs)
  then show ?case
    by (subst rm_loop.simps) (auto split: list.splits)
qed

lemma insert_loop_path:
  assumes "path nx p xs"
  shows "insert_loop nx g p tailp =
    Some (case dropWhile (\<lambda>y. \<not> g y) xs of [] \<Rightarrow> None | y # _ \<Rightarrow> Some y,
          case takeWhile (\<lambda>y. \<not> g y) xs of [] \<Rightarrow> tailp | ys \<Rightarrow> Some (last ys))"
  using assms
proof (induction xs arbitrary: p tailp)
  case Nil
  then show ?case by (subst insert_loop.simps) simp
next
  case (Cons x xs)
  then show ?case
    by (subst insert_loop.simps) (auto split: list.splits)
qed


lemma takeWhile_split:
  "takeWhile P xs @ dropWhile P xs = xs \<and> (dropWhile P xs = [] \<or> (\<exists>y ys. dropWhile P xs = y # ys \<and> \<not> P y))"
  by (induction xs) auto

text \<open>
  \<open>list_rm\<close> removes the node from the chain. It updates \<open>tail\<close> only when the list becomes
  empty: the result represents the shorter list unless the removed node was the last of several.
\<close>

lemma rm_repr:
  assumes "repr s xs"
  shows "\<exists>s'. list_rm s (Some nd) = Inr s' \<and> path (fst s') (head (snd s')) (remove1 nd xs)
    \<and> tail (snd s') = (if remove1 nd xs = [] then None else last_node xs)
    \<and> (\<forall>y. y \<notin> set xs \<longrightarrow> fst s' y = fst s y)"
proof -
  obtain nx l where s: "s = (nx, l)" by (cases s)
  have p: "path nx (head l) xs" "tail l = last_node xs" "distinct xs"
    using assms s by (simp_all add: repr_def)
  note lp = rm_loop_path [OF p(1,3), of nd None]
  show ?thesis
  proof (cases "nd \<in> set xs")
    case False
    with lp p s show ?thesis by (auto simp: list_rm_def remove1_idem last_node_def)
  next
    case True
    define ys zs where "ys = takeWhile (\<lambda>y. y \<noteq> nd) xs" and "zs = tl (dropWhile (\<lambda>y. y \<noteq> nd) xs)"
    have xs: "xs = ys @ nd # zs"
    proof -
      from True have "dropWhile (\<lambda>y. y \<noteq> nd) xs \<noteq> []" by (auto simp: dropWhile_eq_Nil_conv)
      with takeWhile_split [of "\<lambda>y. y \<noteq> nd" xs] obtain vs where
        "dropWhile (\<lambda>y. y \<noteq> nd) xs = nd # vs" by auto
      with takeWhile_split [of "\<lambda>y. y \<noteq> nd" xs] show ?thesis by (simp add: ys_def zs_def)
    qed
    have rm: "remove1 nd xs = ys @ zs" using p(3) xs by (simp add: remove1_append)
    obtain r where r: "seg nx (head l) ys r" "r = Some nd" "seg nx (nx nd) zs None"
      using p(1) xs by auto
    show ?thesis
    proof (cases "ys = []")
      case True
      with lp \<open>nd \<in> set xs\<close> have "rm_loop nx nd (head l) None = Some (Some nd, None)"
        by (simp add: ys_def [symmetric])
      with True r p(2) s xs rm show ?thesis
        by (cases zs) (auto simp: list_rm_def Let_def)
    next
      case False
      with lp \<open>nd \<in> set xs\<close> have lp': "rm_loop nx nd (head l) None = Some (Some nd, Some (last ys))"
        by (simp add: ys_def [symmetric] neq_Nil_conv split: list.splits)
      have "last ys \<in> set ys" using False by simp
      then have d: "distinct ys" "last ys \<notin> set zs" using p(3) xs by auto
      have d3: "head l \<noteq> None" using r(1) False by (auto simp: neq_Nil_conv)
      from seg_last_upd [OF r(1) d(1) False, of "nx nd"] d(2) r(3)
      have "seg (nx(last ys := nx nd)) (head l) (ys @ zs) None" by auto
      with lp' False d3 s p(2) rm xs show ?thesis by (auto simp: list_rm_def Let_def)
    qed
  qed
qed

lemma insert_ordered_repr:
  assumes "repr s xs" "nd \<notin> set xs"
  shows "\<exists>s'. list_insert_ordered s (Some nd) cmp = Inr s'
    \<and> repr s' (takeWhile (\<lambda>c. cmp c nd \<le> 0) xs @ nd # dropWhile (\<lambda>c. cmp c nd \<le> 0) xs)"
proof -
  obtain nx l where s: "s = (nx, l)" by (cases s)
  define ys zs where "ys = takeWhile (\<lambda>c. cmp c nd \<le> 0) xs" and "zs = dropWhile (\<lambda>c. cmp c nd \<le> 0) xs"
  have xs: "xs = ys @ zs" by (simp add: ys_def zs_def)
  let ?nx = "nx(nd := None)"
  have p: "path ?nx (head l) xs" "tail l = last_node xs" "distinct xs"
    using assms s by (simp_all add: repr_def)
  have lp: "insert_loop ?nx (\<lambda>c. 0 < cmp c nd) (head l) None =
    Some (case zs of [] \<Rightarrow> None | y # _ \<Rightarrow> Some y, case ys of [] \<Rightarrow> None | _ \<Rightarrow> Some (last ys))"
    using insert_loop_path [OF p(1), of "\<lambda>c. 0 < cmp c nd" None]
    by (simp add: ys_def zs_def not_less split: list.splits)
  obtain r where r: "seg ?nx (head l) ys r" "seg ?nx r zs None" using p(1) xs by auto
  have nd: "nd \<notin> set ys" "nd \<notin> set zs" "distinct ys" "distinct zs" "set ys \<inter> set zs = {}"
    using assms(2) p(3) xs by auto
  define nx1 where "nx1 = ?nx(nd := r)"
  have r1: "seg nx1 (head l) ys r" "seg nx1 r zs None" using r nd by (simp_all add: nx1_def)
  have cur: "(case zs of [] \<Rightarrow> None | y # _ \<Rightarrow> Some y) = r"
    using r(2) by (cases zs) auto
  have step: "list_insert_ordered s (Some nd) cmp = Inr
     (if ys = [] then (nx1, \<lparr>head = Some nd, tail = last_node (ys @ nd # zs)\<rparr>)
      else (nx1(last ys := Some nd), \<lparr>head = head l, tail = last_node (ys @ nd # zs)\<rparr>))"
    using lp p(2) xs s cur
    by (cases zs; cases ys)
      (auto simp: list_insert_ordered_def Let_def nx1_def last_node_def)
  have "seg nx1 (Some nd) (nd # zs) None" using r1(2) by (simp add: nx1_def)
  moreover have "seg (nx1(last ys := Some nd)) (head l) (ys @ nd # zs) None" if ne: "ys \<noteq> []"
  proof -
    have l: "last ys \<notin> set zs" "last ys \<noteq> nd" using nd last_in_set [OF ne] by auto
    have e: "(nx1(last ys := Some nd)) nd = r" using l by (simp add: nx1_def)
    have "seg (nx1(last ys := Some nd)) (Some nd) (nd # zs) None" using l r1(2) e by simp
    with seg_last_upd [OF r1(1) nd(3) ne, of "Some nd"] show ?thesis
      by (simp only: seg_append) blast
  qed
  ultimately have "repr (if ys = [] then (nx1, \<lparr>head = Some nd, tail = last_node (ys @ nd # zs)\<rparr>)
      else (nx1(last ys := Some nd), \<lparr>head = head l, tail = last_node (ys @ nd # zs)\<rparr>)) (ys @ nd # zs)"
    using nd by (auto simp: repr_def)
  with step show ?thesis unfolding ys_def zs_def by blast
qed


section \<open>Properties\<close>

text \<open>
  The list is a FIFO queue: pushing any sequence of fresh nodes onto a well-formed list and
  popping as many nodes as it then holds returns the old nodes followed by the pushed ones, in
  order, and leaves the list empty.
\<close>

theorem list_fifo:
  assumes "repr s xs" "distinct (xs @ ys)"
  shows "\<exists>s'. lq.deq_n (lq.enq_all s ys) (length xs + length ys) = (s', xs @ ys) \<and> repr s' []"
  by (rule lq.fifo_order [OF assms])

theorem list_fifo_witness:
  "\<exists>s'. lq.deq_n (lq.enq_all (\<lambda>_. None, list_init) [7, 3, 5]) 3 = (s', [7, 3, 5])"
  using list_fifo [OF repr_init [of "\<lambda>_. None"], of "[7, 3, 5]"]
  by (simp add: numeral_3_eq_3 [symmetric] del: lq.deq_n.simps) blast

text \<open>
  Ordered insertion keeps a list sorted: for a comparison that is the difference of two
  keys, inserting a fresh node into a list sorted by the key gives a sorted well-formed list
  that holds the old nodes and the new one, and the new node comes after its equals.
\<close>

theorem list_insert_ordered_sorted:
  fixes key :: "node \<Rightarrow> int"
  assumes "repr s xs" "nd \<notin> set xs" "sorted (map key xs)"
  shows "\<exists>s' ys zs. list_insert_ordered s (Some nd) (\<lambda>a b. key a - key b) = Inr s'
    \<and> xs = ys @ zs \<and> repr s' (ys @ nd # zs) \<and> sorted (map key (ys @ nd # zs))
    \<and> (\<forall>z \<in> set zs. key nd < key z)"
proof -
  define ys zs where "ys = takeWhile (\<lambda>c. key c - key nd \<le> 0) xs"
    and "zs = dropWhile (\<lambda>c. key c - key nd \<le> 0) xs"
  have xs: "xs = ys @ zs" by (simp add: ys_def zs_def)
  have le: "\<forall>y \<in> set ys. key y \<le> key nd" by (auto simp: ys_def dest: set_takeWhileD)
  have gt: "\<forall>z \<in> set zs. key nd < key z"
  proof (cases zs)
    case (Cons z zs')
    then have "\<not> key z - key nd \<le> 0"
      using takeWhile_split [of "\<lambda>c. key c - key nd \<le> 0" xs] by (auto simp: zs_def)
    moreover have "\<forall>y \<in> set zs'. key z \<le> key y" using assms(3) xs Cons by (auto simp: sorted_append)
    ultimately show ?thesis using Cons by force
  qed simp
  have "sorted (map key (ys @ nd # zs))"
    using assms(3) xs le gt by (auto simp: sorted_append less_imp_le)
  with insert_ordered_repr [OF assms(1,2), of "\<lambda>a b. key a - key b"] xs gt
  show ?thesis unfolding ys_def zs_def by blast
qed

theorem list_insert_ordered_sorted_witness:
  "\<exists>s'. list_insert_ordered (list_push (\<lambda>_. None, list_init) (Some 4)) (Some 2) (\<lambda>a b. int a - int b) = Inr s'
    \<and> (\<exists>ys zs. [4] = ys @ zs \<and> repr s' (ys @ 2 # zs) \<and> (\<forall>z \<in> set zs. int 2 < int z))"
proof -
  have "repr (list_push (\<lambda>_. None, list_init) (Some 4)) [4]"
    using push_repr [OF repr_init, of 4] by simp
  from list_insert_ordered_sorted [OF this, of 2 int] show ?thesis by auto
qed

text \<open>
  \<open>list_rm\<close> leaves \<open>tail\<close> on a removed last node, and a later \<open>list_push\<close> is lost: after
  pushing two nodes, removing the second and pushing a third, the list still ends after the
  first node.
\<close>

theorem list_rm_tail_loses_push:
  assumes "distinct [a, b, c]"
  shows "\<exists>s. list_rm (list_push (list_push (nx, list_init) (Some a)) (Some b)) (Some b) = Inr s
    \<and> path (fst (list_push s (Some c))) (head (snd (list_push s (Some c)))) [a]"
  using assms
  by (auto simp: list_push_def list_init_def list_rm_def Let_def rm_loop.simps)

theorem list_rm_tail_loses_push_witness:
  "\<exists>s. list_rm (list_push (list_push (\<lambda>_. None, list_init) (Some 1)) (Some 2)) (Some 2) = Inr s
    \<and> path (fst (list_push s (Some 3))) (head (snd (list_push s (Some 3)))) [1]"
  by (rule list_rm_tail_loses_push) simp

end
