(* ===== verification/Obj_Pool.thy ===== *)
theory Obj_Pool
  imports Bitmaps
begin

text \<open>
  The object pools of \<open>src/core/objpool.c\<close>: an array of \<open>num\<close> objects of \<open>objsize\<close> bytes at
  \<open>pool\<close> with a bitmap of the objects in use. Both operations run under the pool's lock. An
  object is its address; \<open>None\<close> is \<open>NULL\<close>. The contents of the objects belong to the clients.
\<close>

section \<open>The pool and its operations\<close>

record objpool =
  pool :: u64
  bitmap :: bitmap
  objsize :: u64
  num :: nat

definition OBJPOOL_ALLOC :: "u64 \<Rightarrow> u64 \<Rightarrow> nat \<Rightarrow> objpool" where
  "OBJPOOL_ALLOC array_addr sz n =
    \<lparr>pool = array_addr, bitmap = replicate (BITMAP_SIZE n) 0, objsize = sz, num = n\<rparr>"

text \<open>\<open>memset (bm, 0, n)\<close> over the bytes of the granules, the least significant byte first.\<close>

definition bitmap_memset0 :: "bitmap \<Rightarrow> nat \<Rightarrow> bitmap" where
  "bitmap_memset0 bm n =
    List.map (\<lambda>(i, g). g AND NOT (mask (8 * min 4 (n - 4 * i)))) (enumerate 0 bm)"

definition objpool_init :: "objpool \<Rightarrow> objpool" where
  "objpool_init p = p\<lparr>bitmap := bitmap_memset0 (bitmap p) (BITMAP_SIZE (num p))\<rparr>"

definition objpool_alloc :: "objpool \<Rightarrow> (objpool \<times> u64 option) res" where
  "objpool_alloc p =
    bindR (bitmap_find_nth (bitmap p) (num p) 1 0 False) (\<lambda>n.
    if 0 \<le> n then
      bindR (bitmap_set (bitmap p) (nat n)) (\<lambda>bm.
      Inr (p\<lparr>bitmap := bm\<rparr>, Some (pool p + objsize p * of_int n)))
    else Inr (p, None))"

definition objpool_free :: "objpool \<Rightarrow> u64 \<Rightarrow> objpool res" where
  "objpool_free p obj =
    (let in_pool = in_range obj (pool p) (objsize p * of_nat (num p));
         aligned = IS_ALIGNED (obj - pool p) (objsize p)
     in if in_pool \<and> aligned then
          let n = (obj - pool p) div objsize p in
          bindR (bitmap_clear (bitmap p) (unat n)) (\<lambda>bm. Inr (p\<lparr>bitmap := bm\<rparr>))
        else Inr p)"

section \<open>The abstract pool: the set of objects in use\<close>

definition pool_wf :: "objpool \<Rightarrow> bool" where
  "pool_wf p \<longleftrightarrow> num p \<le> bm_len (bitmap p) \<and> 0 < unat (objsize p)
    \<and> unat (pool p) + unat (objsize p) * (num p + 1) < 2 ^ 64"

definition obj_addr :: "objpool \<Rightarrow> nat \<Rightarrow> u64" where
  "obj_addr p i = pool p + objsize p * of_nat i"

definition objects :: "objpool \<Rightarrow> u64 set" where
  "objects p = obj_addr p ` {..<num p}"

definition in_use :: "objpool \<Rightarrow> u64 set" where
  "in_use p = obj_addr p ` {i. i < num p \<and> bm_bit (bitmap p) i}"

lemma pool_num:
  assumes "pool_wf p"
  shows "num p + 1 \<le> unat (objsize p) * (num p + 1)"
proof -
  have "1 \<le> unat (objsize p)" using assms by (simp add: pool_wf_def)
  from mult_le_mono1 [OF this, of "num p + 1"] show ?thesis by simp
qed

lemma unat_obj_addr:
  assumes "pool_wf p" "i \<le> num p"
  shows "unat (obj_addr p i) = unat (pool p) + unat (objsize p) * i"
proof -
  have le: "unat (objsize p) * i \<le> unat (objsize p) * num p" using assms(2) by simp
  note sz = pool_num [OF assms(1)]
  have "unat (pool p) + unat (objsize p) * num p < 2 ^ 64" "i < 2 ^ 64"
    using assms sz by (simp_all add: pool_wf_def)
  with le have lt: "unat (objsize p) * i < 2 ^ 64" "unat (pool p) + unat (objsize p) * i < 2 ^ 64" "i < 2 ^ 64"
    by linarith+
  then have "unat (objsize p * of_nat i) = unat (objsize p) * i"
    by (subst unat_mul_no_wrap) simp_all
  with lt(2) show ?thesis
    by (simp add: obj_addr_def unat_add_no_wrap)
qed

lemma obj_addr_inj:
  assumes "pool_wf p" "i \<le> num p" "j \<le> num p"
  shows "obj_addr p i = obj_addr p j \<longleftrightarrow> i = j"
proof
  assume "obj_addr p i = obj_addr p j"
  then have "unat (objsize p) * i = unat (objsize p) * j"
    using unat_obj_addr [OF assms(1,2)] unat_obj_addr [OF assms(1,3)] by (metis add_left_cancel)
  then show "i = j" using assms(1) by (simp add: pool_wf_def)
qed simp

lemma obj_addr_in_use:
  "pool_wf p \<Longrightarrow> i < num p \<Longrightarrow> obj_addr p i \<in> in_use p \<longleftrightarrow> bm_bit (bitmap p) i"
  by (auto simp: in_use_def image_iff obj_addr_inj)

lemma in_use_objects: "in_use p \<subseteq> objects p"
  by (auto simp: in_use_def objects_def)

lemma finite_objects [simp]: "finite (objects p)" and finite_in_use [simp]: "finite (in_use p)"
  by (auto simp: objects_def intro: finite_subset [OF in_use_objects])

lemma card_objects: "pool_wf p \<Longrightarrow> card (objects p) = num p"
  unfolding objects_def by (subst card_image) (auto simp: inj_on_def obj_addr_inj)

lemma replicate_bits: "bm_bit (replicate n 0) i = False" if "i < 32 * n"
  using that by (simp add: bm_bit_def less_mult_imp_div_less mult.commute)

lemma BITMAP_SIZE_le: "n \<le> 32 * BITMAP_SIZE n"
  by (auto simp: BITMAP_SIZE_def BITMAP_GRANULE_LEN_def)

lemma static_pool:
  assumes "0 < unat sz" "unat addr + unat sz * (n + 1) < 2 ^ 64"
  shows "pool_wf (OBJPOOL_ALLOC addr sz n)" "in_use (OBJPOOL_ALLOC addr sz n) = {}"
  using assms BITMAP_SIZE_le [of n]
  by (auto simp: pool_wf_def OBJPOOL_ALLOC_def in_use_def bm_len_def replicate_bits)

text \<open>
  \<open>objpool_init\<close> clears as many bytes as the bitmap has granules, that is, a quarter of it:
  the first $8 \cdot$ \<open>BITMAP_SIZE\<close> bits.
\<close>

lemma memset0_bits:
  assumes "i < bm_len bm"
  shows "bm_bit (bitmap_memset0 bm n) i \<longleftrightarrow> 8 * n \<le> i \<and> bm_bit bm i"
proof -
  have g: "i div 32 < length bm" using granule_bound [OF assms] .
  define q r where "q = i div 32" and "r = i mod 32"
  have i: "i = 32 * q + r" "r < 32" by (simp_all add: q_def r_def)
  have "8 * min 4 (n - 4 * q) = min 32 (8 * n - 32 * q)" by linarith
  then have "r < 8 * min 4 (n - 4 * q) \<longleftrightarrow> i < 8 * n" using i by (auto simp: min_def)
  then have "i mod 32 < 8 * min 4 (n - 4 * (i div 32)) \<longleftrightarrow> i < 8 * n"
    by (simp only: q_def r_def)
  with g show ?thesis
    by (auto simp: bm_bit_def bitmap_memset0_def nth_enumerate_eq bit_and_iff bit_not_iff bit_mask_iff)
qed

lemma objpool_init_bits:
  "i < bm_len (bitmap p) \<Longrightarrow>
    bm_bit (bitmap (objpool_init p)) i \<longleftrightarrow> 8 * BITMAP_SIZE (num p) \<le> i \<and> bm_bit (bitmap p) i"
  by (simp add: objpool_init_def memset0_bits)

lemma alloc_some:
  assumes "pool_wf p" "in_use p \<noteq> objects p"
  shows "\<exists>p' a. objpool_alloc p = Inr (p', Some a) \<and> a \<in> objects p \<and> a \<notin> in_use p
    \<and> in_use p' = insert a (in_use p) \<and> objects p' = objects p \<and> pool_wf p'"
proof -
  let ?n = "LEAST k. 0 \<le> k \<and> k < num p \<and> bm_bit (bitmap p) k = False"
  have len: "num p \<le> bm_len (bitmap p)" using assms(1) by (simp add: pool_wf_def)
  have ex: "\<exists>k \<in> {0..<num p}. bm_bit (bitmap p) k = False"
    using assms(2) by (auto simp: in_use_def objects_def)
  then obtain k0 where k0: "0 \<le> k0 \<and> k0 < num p \<and> bm_bit (bitmap p) k0 = False" by auto
  have "0 \<le> ?n \<and> ?n < num p \<and> bm_bit (bitmap p) ?n = False" using k0 by (rule LeastI)
  then have n: "?n < num p" "\<not> bm_bit (bitmap p) ?n" by simp_all
  then obtain bm where bm: "bitmap_set (bitmap p) ?n = Inr bm" "length bm = length (bitmap p)"
    "\<And>k. bm_bit bm k = (if k = ?n then True else bm_bit (bitmap p) k)"
    using bitmap_set_eq [of ?n "bitmap p"] len by auto
  let ?p' = "p\<lparr>bitmap := bm\<rparr>"
  have find: "bitmap_find_nth (bitmap p) (num p) 1 0 False = Inr (int ?n)"
    using find_first [OF len, of 0 False] ex by (simp only: One_nat_def if_True)
  have "objpool_alloc p = Inr (?p', Some (obj_addr p ?n))"
    unfolding objpool_alloc_def find using bm(1) by (simp add: obj_addr_def)
  moreover have "pool_wf ?p'" using assms(1) bm(2) by (simp add: pool_wf_def bm_len_def)
  moreover have "objects ?p' = objects p" by (simp add: objects_def obj_addr_def)
  moreover have "in_use ?p' = insert (obj_addr p ?n) (in_use p)"
    using n(1) bm(3) by (auto simp: in_use_def obj_addr_def image_iff)
  moreover have "obj_addr p ?n \<in> objects p" "obj_addr p ?n \<notin> in_use p"
    using n assms(1) by (auto simp: objects_def obj_addr_in_use)
  ultimately show ?thesis by blast
qed

lemma alloc_none:
  assumes "pool_wf p" "in_use p = objects p"
  shows "objpool_alloc p = Inr (p, None)"
proof -
  have "bm_bit (bitmap p) k" if "k < num p" for k
    using assms that obj_addr_in_use [OF assms(1) that] by (auto simp: objects_def)
  then have "\<not> (\<exists>k \<in> {0..<num p}. bm_bit (bitmap p) k = False)" by auto
  then show ?thesis
    using assms(1) find_first [of "num p" "bitmap p" 0 False]
    by (simp add: objpool_alloc_def pool_wf_def)
qed

lemma free_object:
  assumes "pool_wf p" "a \<in> objects p"
  shows "\<exists>p'. objpool_free p a = Inr p' \<and> in_use p' = in_use p - {a} \<and> objects p' = objects p \<and> pool_wf p'"
proof -
  from assms(2) obtain i where i: "i < num p" "a = obj_addr p i" by (auto simp: objects_def)
  have "obj_addr p i - pool p = objsize p * of_nat i" by (simp add: obj_addr_def)
  moreover have u: "unat (objsize p * of_nat i) = unat (objsize p) * i"
    using unat_obj_addr [OF assms(1), of i] i(1)
    by (metis add_diff_cancel_left' add_diff_cancel_left calculation le_add1 less_imp_le
        unat_sub_no_wrap word_le_not_less_conv)
  ultimately have d: "unat ((obj_addr p i - pool p) div objsize p) = i"
    "IS_ALIGNED (obj_addr p i - pool p) (objsize p)"
    using assms(1) by (simp_all add: unat_div IS_ALIGNED_def word_unat_eq_iff unat_mod pool_wf_def)
  have "unat (objsize p * of_nat (num p)) = unat (objsize p) * num p"
  proof -
    from pool_num [OF assms(1)] show ?thesis
      using assms(1) by (subst unat_mul_no_wrap) (simp_all add: pool_wf_def)
  qed
  then have r: "in_range (obj_addr p i) (pool p) (objsize p * of_nat (num p))"
    using assms(1) i(1) unat_obj_addr [OF assms(1), of i]
    by (subst in_range_iff) (simp_all add: pool_wf_def)
  have "i < bm_len (bitmap p)" using i(1) assms(1) by (simp add: pool_wf_def)
  from bitmap_clear_eq [OF this] obtain bm where bm: "bitmap_clear (bitmap p) i = Inr bm"
    "length bm = length (bitmap p)" "\<And>k. bm_bit bm k = (if k = i then False else bm_bit (bitmap p) k)" by auto
  let ?p' = "p\<lparr>bitmap := bm\<rparr>"
  have "objpool_free p a = Inr ?p'"
    using i(2) d r bm(1) by (simp add: objpool_free_def)
  moreover have "pool_wf ?p'" using assms(1) bm(2) by (simp add: pool_wf_def bm_len_def)
  moreover have "objects ?p' = objects p" by (simp add: objects_def obj_addr_def)
  moreover have "in_use ?p' = in_use p - {a}"
  proof -
    have addr: "obj_addr ?p' = obj_addr p" by (rule ext) (simp add: obj_addr_def)
    show ?thesis
      using i bm(3) obj_addr_inj [OF assms(1)] unfolding in_use_def addr
      by (auto simp: image_iff split: if_splits)
  qed
  ultimately show ?thesis by blast
qed

section \<open>The interface of an allocator\<close>

locale allocator =
  fixes alloc :: "'s \<Rightarrow> ('s \<times> 'a option) res"
    and free :: "'s \<Rightarrow> 'a \<Rightarrow> 's res"
    and inv :: "'s \<Rightarrow> bool"
    and cells :: "'s \<Rightarrow> 'a set"
    and used :: "'s \<Rightarrow> 'a set"
  assumes used_cells: "inv s \<Longrightarrow> used s \<subseteq> cells s"
    and fin: "inv s \<Longrightarrow> finite (cells s)"
    and alloc_fresh: "inv s \<Longrightarrow> used s \<noteq> cells s \<Longrightarrow>
      \<exists>s' a. alloc s = Inr (s', Some a) \<and> a \<in> cells s \<and> a \<notin> used s \<and> used s' = insert a (used s)
        \<and> cells s' = cells s \<and> inv s'"
    and alloc_full: "inv s \<Longrightarrow> used s = cells s \<Longrightarrow> alloc s = Inr (s, None)"
    and free_used: "inv s \<Longrightarrow> a \<in> cells s \<Longrightarrow>
      \<exists>s'. free s a = Inr s' \<and> used s' = used s - {a} \<and> cells s' = cells s \<and> inv s'"
begin

fun alloc_n :: "nat \<Rightarrow> 's \<Rightarrow> ('s \<times> 'a list) res" where
  "alloc_n 0 s = Inr (s, [])"
| "alloc_n (Suc n) s =
    bindR (alloc s) (\<lambda>(s1, r). case r of None \<Rightarrow> Inr (s1, [])
      | Some a \<Rightarrow> bindR (alloc_n n s1) (\<lambda>(s2, as). Inr (s2, a # as)))"

lemma alloc_n_spec:
  assumes "inv s" "n + card (used s) \<le> card (cells s)"
  shows "\<exists>s' as. alloc_n n s = Inr (s', as) \<and> length as = n \<and> distinct as
    \<and> set as \<inter> used s = {} \<and> set as \<subseteq> cells s \<and> used s' = used s \<union> set as \<and> cells s' = cells s \<and> inv s'"
  using assms
proof (induction n arbitrary: s)
  case (Suc n)
  have ne: "used s \<noteq> cells s" using Suc.prems(2) by auto
  from alloc_fresh [OF Suc.prems(1) ne] obtain s1 a where s1: "alloc s = Inr (s1, Some a)"
    "a \<in> cells s" "a \<notin> used s" "used s1 = insert a (used s)" "cells s1 = cells s" "inv s1" by blast
  have "finite (used s)" using used_cells fin Suc.prems(1) by (meson finite_subset)
  with s1 Suc.prems have "n + card (used s1) \<le> card (cells s1)" by simp
  from Suc.IH [OF s1(6) this] obtain s2 as where s2: "alloc_n n s1 = Inr (s2, as)" "length as = n"
    "distinct as" "set as \<inter> used s1 = {}" "set as \<subseteq> cells s1" "used s2 = used s1 \<union> set as"
    "cells s2 = cells s1" "inv s2" by blast
  from s1 s2 show ?case by (intro exI [of _ s2] exI [of _ "a # as"]) auto
qed simp

end

interpretation op: allocator objpool_alloc objpool_free pool_wf objects in_use
proof
  fix p assume wf: "pool_wf p"
  show "in_use p \<subseteq> objects p" by (rule in_use_objects)
  show "finite (objects p)" by simp
  show "in_use p \<noteq> objects p \<Longrightarrow> \<exists>p' a. objpool_alloc p = Inr (p', Some a) \<and> a \<in> objects p
      \<and> a \<notin> in_use p \<and> in_use p' = insert a (in_use p) \<and> objects p' = objects p \<and> pool_wf p'"
    by (rule alloc_some [OF wf])
  show "in_use p = objects p \<Longrightarrow> objpool_alloc p = Inr (p, None)" by (rule alloc_none [OF wf])
  show "\<And>a. a \<in> objects p \<Longrightarrow>
      \<exists>p'. objpool_free p a = Inr p' \<and> in_use p' = in_use p - {a} \<and> objects p' = objects p \<and> pool_wf p'"
    by (rule free_object [OF wf])
qed

section \<open>Properties\<close>

text \<open>
  A static pool hands out each of its objects once: from the initial pool, as many
  allocations as it has objects all succeed with pairwise different, in-bounds addresses, after
  which the pool is exhausted and the next allocation returns \<open>NULL\<close>.
\<close>

theorem objpool_exhaustive:
  assumes "0 < unat sz" "unat addr + unat sz * (n + 1) < 2 ^ 64"
  shows "\<exists>p as. op.alloc_n n (OBJPOOL_ALLOC addr sz n) = Inr (p, as) \<and> distinct as
    \<and> set as = objects (OBJPOOL_ALLOC addr sz n) \<and> objpool_alloc p = Inr (p, None)"
proof -
  let ?p = "OBJPOOL_ALLOC addr sz n"
  note st = static_pool [OF assms]
  have card: "card (objects ?p) = n" using card_objects [OF st(1)] by (simp add: OBJPOOL_ALLOC_def)
  from op.alloc_n_spec [OF st(1), of n] st(2) card obtain p as where
    p: "op.alloc_n n ?p = Inr (p, as)" "length as = n" "distinct as" "set as \<subseteq> objects ?p"
    "in_use p = set as" "objects p = objects ?p" "pool_wf p" by auto
  have "card (set as) = card (objects ?p)" using p(2,3) card by (simp add: distinct_card)
  with p(4) have "set as = objects ?p" by (simp add: card_subset_eq)
  with p alloc_none [OF p(7)] show ?thesis by simp
qed

theorem objpool_exhaustive_witness:
  "\<exists>p as. op.alloc_n 128 (OBJPOOL_ALLOC 0x80210000 24 128) = Inr (p, as) \<and> distinct as
    \<and> objpool_alloc p = Inr (p, None)"
  using objpool_exhaustive [where sz = 24 and addr = "0x80210000" and n = 128] by auto

end
