(* ===== verification/Cpu_Msg.thy ===== *)
theory Cpu_Msg
  imports Clist Obj_Pool
begin

text \<open>
  Messages between cores, \<open>src/core/cpu.c\<close>: a pool of message nodes and one queue of nodes per
  core. A node's first word is its list link (in \<open>nexts\<close>), its message is in \<open>node_msg\<close>. The
  pool and each queue have a lock of their own, so a send and a receive are sequences of atomic
  sections between which other cores run: allocate, push, interrupt; and pop, free. The sections
  are definitions of their own; \<open>cpu_send_msg\<close> and \<open>cpu_get_msg\<close> compose them for a core that
  runs undisturbed, and the last part of the theory interleaves them. The fence before the IPI
  orders the push before it; \<open>ipi\<close> records the pending \<open>IPI_CPU_MSG\<close> of each core.
\<close>

section \<open>State and operations\<close>

record cpu_msg =
  handler :: u32
  event :: u32
  data :: u64

record msg_state =
  msg_pool :: objpool
  nexts :: nexts
  node_msg :: "node \<Rightarrow> cpu_msg"
  event_list :: "clist list"
  handling_msgs :: "bool list"
  ipi :: "bool list"

definition CPU_MSG_POOL_SIZE :: nat where
  "CPU_MSG_POOL_SIZE = 128"

text \<open>\<open>objpool_alloc\<close> under the lock of the pool, and the test of its result.\<close>

definition cpu_msg_alloc :: "msg_state \<Rightarrow> (msg_state \<times> u64) res" where
  "cpu_msg_alloc s =
    bindR (objpool_alloc (msg_pool s)) (\<lambda>(p, nd).
    case nd of None \<Rightarrow> Inl Panic | Some a \<Rightarrow> Inr (s\<lparr>msg_pool := p\<rparr>, a))"

text \<open>The node is the sender's own until it is in the list, so filling it belongs to the push.\<close>

definition cpu_msg_push :: "msg_state \<Rightarrow> cpuid \<Rightarrow> cpu_msg \<Rightarrow> u64 \<Rightarrow> msg_state res" where
  "cpu_msg_push s trgtcpu msg node =
    bindR (rd (event_list s) trgtcpu) (\<lambda>l.
    let (nx, l) = list_push (nexts s, l) (Some (unat node)) in
    bindR (wr (event_list s) trgtcpu l) (\<lambda>ls.
    Inr (s\<lparr>node_msg := (node_msg s)(unat node := msg), nexts := nx, event_list := ls\<rparr>)))"

definition cpu_msg_ipi :: "msg_state \<Rightarrow> cpuid \<Rightarrow> msg_state res" where
  "cpu_msg_ipi s trgtcpu = bindR (wr (ipi s) trgtcpu True) (\<lambda>ip. Inr (s\<lparr>ipi := ip\<rparr>))"

definition cpu_send_msg :: "msg_state \<Rightarrow> cpuid \<Rightarrow> cpu_msg \<Rightarrow> msg_state res" where
  "cpu_send_msg s trgtcpu msg =
    bindR (cpu_msg_alloc s) (\<lambda>(s, node).
    bindR (cpu_msg_push s trgtcpu msg node) (\<lambda>s. cpu_msg_ipi s trgtcpu))"

definition cpu_msg_pop :: "msg_state \<Rightarrow> cpuid \<Rightarrow> (msg_state \<times> u64 option) res" where
  "cpu_msg_pop s c =
    bindR (rd (event_list s) c) (\<lambda>l.
    let ((nx, l), nd) = list_pop (nexts s, l) in
    bindR (wr (event_list s) c l) (\<lambda>ls.
    Inr (s\<lparr>nexts := nx, event_list := ls\<rparr>, map_option of_nat nd)))"

text \<open>The copy of the message and \<open>objpool_free\<close> under the lock of the pool.\<close>

definition cpu_msg_free :: "msg_state \<Rightarrow> u64 \<Rightarrow> (msg_state \<times> cpu_msg) res" where
  "cpu_msg_free s node =
    bindR (objpool_free (msg_pool s) node) (\<lambda>p. Inr (s\<lparr>msg_pool := p\<rparr>, node_msg s (unat node)))"

definition cpu_get_msg :: "msg_state \<Rightarrow> cpuid \<Rightarrow> (msg_state \<times> cpu_msg option) res" where
  "cpu_get_msg s c =
    bindR (cpu_msg_pop s c) (\<lambda>(s, nd).
    case nd of None \<Rightarrow> Inr (s, None)
    | Some node \<Rightarrow> bindR (cpu_msg_free s node) (\<lambda>(s, msg). Inr (s, Some msg)))"

text \<open>
  The handlers are functions of other components: they take the event, the data, the message
  state and the rest of the machine \<open>'w\<close>. \<open>None\<close> in the table is a \<open>NULL\<close> entry. The loop is
  \<open>None\<close> when it does not end (handlers that keep sending to their own core).
\<close>

type_synonym 'w handler_fn = "u32 \<Rightarrow> u64 \<Rightarrow> msg_state \<times> 'w \<Rightarrow> (msg_state \<times> 'w) res"

partial_function (option) msg_loop ::
  "'w handler_fn option list \<Rightarrow> cpuid \<Rightarrow> msg_state \<times> 'w \<Rightarrow> (msg_state \<times> 'w) res option" where
  "msg_loop hs c sw =
    (case cpu_get_msg (fst sw) c of
       Inl e \<Rightarrow> Some (Inl e)
     | Inr sm \<Rightarrow>
        (case snd sm of None \<Rightarrow> Some (Inr (fst sm, snd sw))
         | Some m \<Rightarrow>
            (case (if unat (handler m) < length hs then hs ! unat (handler m) else None) of
               None \<Rightarrow> msg_loop hs c (fst sm, snd sw)
             | Some h \<Rightarrow>
                (case h (event m) (data m) (fst sm, snd sw) of
                   Inl e \<Rightarrow> Some (Inl e)
                 | Inr sw1 \<Rightarrow> msg_loop hs c sw1))))"

definition cpu_msg_handler ::
  "'w handler_fn option list \<Rightarrow> cpuid \<Rightarrow> msg_state \<times> 'w \<Rightarrow> (msg_state \<times> 'w) res option" where
  "cpu_msg_handler hs c = (\<lambda>(s, w).
    case wr (handling_msgs s) c True of
      Inl e \<Rightarrow> Some (Inl e)
    | Inr hm \<Rightarrow>
        (case msg_loop hs c (s\<lparr>handling_msgs := hm\<rparr>, w) of
           None \<Rightarrow> None
         | Some r \<Rightarrow> Some (bindR r (\<lambda>(s, w).
             bindR (wr (handling_msgs s) c False) (\<lambda>hm. Inr (s\<lparr>handling_msgs := hm\<rparr>, w))))))"

section \<open>The abstract mailboxes\<close>

definition ncpus :: "msg_state \<Rightarrow> nat" where
  "ncpus s = length (event_list s)"

text \<open>
  \<open>q c\<close>: the nodes in the queue of core \<open>c\<close>, oldest first; \<open>h\<close>: the nodes that are out of the
  pool and in no queue, because a core is between two sections of a send or a receive.
\<close>

definition msg_inv :: "msg_state \<Rightarrow> (cpuid \<Rightarrow> u64 list) \<Rightarrow> u64 set \<Rightarrow> bool" where
  "msg_inv s q h \<longleftrightarrow> pool_wf (msg_pool s) \<and> length (ipi s) = ncpus s
    \<and> (\<forall>c < ncpus s. repr (nexts s, event_list s ! c) (List.map unat (q c)))
    \<and> (\<forall>c \<ge> ncpus s. q c = [])
    \<and> (\<forall>c d. c \<noteq> d \<longrightarrow> set (q c) \<inter> set (q d) = {})
    \<and> (\<forall>c. set (q c) \<inter> h = {})
    \<and> in_use (msg_pool s) = (\<Union>c < ncpus s. set (q c)) \<union> h"

definition queued :: "msg_state \<Rightarrow> (cpuid \<Rightarrow> u64 list) \<Rightarrow> cpuid \<Rightarrow> cpu_msg list" where
  "queued s q c = List.map (\<lambda>a. node_msg s (unat a)) (q c)"

text \<open>\<open>mailboxes s Q\<close>: no core is in a send or a receive, and \<open>Q\<close> are the messages waiting.\<close>

definition mailboxes :: "msg_state \<Rightarrow> (cpuid \<Rightarrow> cpu_msg list) \<Rightarrow> bool" where
  "mailboxes s Q \<longleftrightarrow> (\<exists>q. msg_inv s q {} \<and> Q = queued s q)"

definition waiting :: "nat \<Rightarrow> (cpuid \<Rightarrow> cpu_msg list) \<Rightarrow> nat" where
  "waiting n Q = (\<Sum>c < n. length (Q c))"

lemma msg_inv_distinct: "msg_inv s q h \<Longrightarrow> distinct (q c)"
  by (cases "c < ncpus s") (auto simp: msg_inv_def repr_def distinct_map)

lemma msg_inv_waiting:
  assumes "msg_inv s q h"
  shows "card (in_use (msg_pool s)) = (\<Sum>c < ncpus s. length (q c)) + card h"
proof -
  have "card (\<Union>c < ncpus s. set (q c)) = (\<Sum>c < ncpus s. card (set (q c)))"
    using assms by (intro card_UN_disjoint) (auto simp: msg_inv_def)
  also have "\<dots> = (\<Sum>c < ncpus s. length (q c))"
    using msg_inv_distinct [OF assms] by (intro sum.cong) (auto simp: distinct_card)
  finally have q: "card (\<Union>c < ncpus s. set (q c)) = (\<Sum>c < ncpus s. length (q c))" .
  have iu: "in_use (msg_pool s) = (\<Union>c < ncpus s. set (q c)) \<union> h"
    and dis: "(\<Union>c < ncpus s. set (q c)) \<inter> h = {}" using assms by (auto simp: msg_inv_def)
  have "finite (in_use (msg_pool s))" by (rule finite_subset [OF in_use_objects finite_objects])
  then have "finite h" using iu by simp
  with dis show ?thesis by (simp add: iu card_Un_disjoint q)
qed

lemma queued_waiting: "waiting k (queued s q) = (\<Sum>c < k. length (q c))"
  by (simp add: waiting_def queued_def)

lemma waiting_send: "t < n \<Longrightarrow> waiting n (Q(t := Q t @ [m])) = Suc (waiting n Q)"
  by (simp add: waiting_def sum.remove [of _ t])

lemma mailboxes_waiting:
  "mailboxes s Q \<Longrightarrow> card (in_use (msg_pool s)) = waiting (ncpus s) Q"
  by (auto simp: mailboxes_def queued_waiting msg_inv_waiting)

lemma mailboxes_bound: "mailboxes s Q \<Longrightarrow> waiting (ncpus s) Q \<le> num (msg_pool s)"
  using mailboxes_waiting [of s Q] card_mono [OF finite_objects in_use_objects, of "msg_pool s"]
  by (auto simp: mailboxes_def msg_inv_def card_objects)

text \<open>A list whose nodes a change of the links avoids is unchanged.\<close>

lemma repr_frame:
  assumes "repr (nx, l) xs" "\<forall>y \<in> set xs. nx' y = nx y"
  shows "repr (nx', l) xs"
proof -
  have "seg nx' p ys r = seg nx p ys r" if "set ys \<subseteq> set xs" for p ys r
    using that assms(2) by (induction ys arbitrary: p) auto
  with assms(1) show ?thesis by (simp add: repr_def)
qed

lemma unat_notin: "a \<notin> set as \<Longrightarrow> unat (a :: u64) \<notin> unat ` set as"
  by (auto dest!: unsigned_word_eqI)

section \<open>The atomic sections\<close>

lemma alloc_full:
  assumes "msg_inv s q h" "(\<Sum>c < ncpus s. length (q c)) + card h = num (msg_pool s)"
  shows "cpu_msg_alloc s = Inl Panic"
proof -
  have wf: "pool_wf (msg_pool s)" using assms(1) by (simp add: msg_inv_def)
  have "in_use (msg_pool s) = objects (msg_pool s)"
    using msg_inv_waiting [OF assms(1)] assms(2) card_objects [OF wf]
    by (intro card_subset_eq [OF finite_objects in_use_objects]) simp
  from alloc_none [OF wf this] show ?thesis by (simp add: cpu_msg_alloc_def)
qed

lemma alloc_step:
  assumes inv: "msg_inv s q h" and lt: "(\<Sum>c < ncpus s. length (q c)) + card h < num (msg_pool s)"
  shows "\<exists>p a. cpu_msg_alloc s = Inr (s\<lparr>msg_pool := p\<rparr>, a) \<and> msg_inv (s\<lparr>msg_pool := p\<rparr>) q (insert a h)
    \<and> a \<notin> h \<and> (\<forall>c. a \<notin> set (q c)) \<and> num p = num (msg_pool s)"
proof -
  have wf: "pool_wf (msg_pool s)" using inv by (simp add: msg_inv_def)
  have "card (in_use (msg_pool s)) < card (objects (msg_pool s))"
    using msg_inv_waiting [OF inv] lt card_objects [OF wf] by simp
  then have "in_use (msg_pool s) \<noteq> objects (msg_pool s)" by auto
  from alloc_some [OF wf this] obtain p a where p: "objpool_alloc (msg_pool s) = Inr (p, Some a)"
    "a \<notin> in_use (msg_pool s)" "in_use p = insert a (in_use (msg_pool s))" "objects p = objects (msg_pool s)"
    "pool_wf p" by blast
  have num: "num p = num (msg_pool s)" using card_objects [OF wf] card_objects [OF p(5)] p(4) by simp
  have fresh: "a \<notin> set (q c)" for c
    using p(2) inv by (cases "c < ncpus s") (auto simp: msg_inv_def)
  have "a \<notin> h" using p(2) inv by (auto simp: msg_inv_def)
  moreover have "msg_inv (s\<lparr>msg_pool := p\<rparr>) q (insert a h)"
    using inv p(3,5) fresh by (simp add: msg_inv_def ncpus_def)
  ultimately show ?thesis using p(1) fresh num by (auto simp: cpu_msg_alloc_def)
qed

lemma push_step:
  assumes inv: "msg_inv s q (insert a h)" and a: "a \<notin> h" and t: "t < ncpus s"
  shows "\<exists>nx ls. cpu_msg_push s t m a
      = Inr (s\<lparr>node_msg := (node_msg s)(unat a := m), nexts := nx, event_list := ls\<rparr>)
    \<and> length ls = ncpus s
    \<and> msg_inv (s\<lparr>node_msg := (node_msg s)(unat a := m), nexts := nx, event_list := ls\<rparr>) (q(t := q t @ [a])) h"
proof -
  have fresh: "a \<notin> set (q c)" for c using inv by (auto simp: msg_inv_def)
  define l where "l = event_list s ! t"
  have rt: "repr (nexts s, l) (List.map unat (q t))" using inv t by (simp add: msg_inv_def l_def)
  have ft: "unat a \<notin> set (List.map unat (q t))" using unat_notin [OF fresh [of t]] by simp
  obtain nx l' where pl: "list_push (nexts s, l) (Some (unat a)) = (nx, l')" by fastforce
  have rt': "repr (nx, l') (List.map unat (q t @ [a]))" using push_repr [OF rt ft] pl by simp
  define s' where "s' = s\<lparr>node_msg := (node_msg s)(unat a := m), nexts := nx,
    event_list := (event_list s)[t := l']\<rparr>"
  have len: "t < length (event_list s)" using t by (simp add: ncpus_def)
  have push: "cpu_msg_push s t m a = Inr s'"
    using pl len by (simp add: cpu_msg_push_def s'_def l_def)
  define q' where "q' = q(t := q t @ [a])"
  have "repr (nexts s', event_list s' ! c) (List.map unat (q' c))" if "c < ncpus s'" for c
  proof (cases "c = t")
    case True
    with rt' len show ?thesis by (simp add: q'_def s'_def)
  next
    case False
    have rc: "repr (nexts s, event_list s ! c) (List.map unat (q c))"
      using that inv by (simp add: msg_inv_def ncpus_def s'_def)
    have "\<forall>y \<in> set (List.map unat (q c)). nx y = nexts s y"
    proof
      fix y assume "y \<in> set (List.map unat (q c))"
      then obtain b where b: "b \<in> set (q c)" "y = unat b" by auto
      have "b \<notin> set (q t)" using b(1) inv False unfolding msg_inv_def by blast
      then have "y \<notin> set (List.map unat (q t))" using b(2) by (auto dest!: unsigned_word_eqI)
      moreover have "y \<noteq> unat a" using b fresh [of c] by (auto dest!: unsigned_word_eqI)
      ultimately show "nx y = nexts s y" using push_frame [OF rt, of y "unat a"] pl by simp
    qed
    from repr_frame [OF rc this] False show ?thesis by (simp add: q'_def s'_def)
  qed
  moreover have "in_use (msg_pool s') = (\<Union>c < ncpus s'. set (q' c)) \<union> h"
    using inv t by (auto simp: s'_def q'_def msg_inv_def ncpus_def split: if_splits)
  moreover have "c \<noteq> d \<longrightarrow> set (q' c) \<inter> set (q' d) = {}" for c d
    using inv fresh by (auto simp: q'_def msg_inv_def)
  moreover have "set (q' c) \<inter> h = {}" for c using inv a by (auto simp: q'_def msg_inv_def)
  ultimately have "msg_inv s' q' h"
    using inv t by (simp add: msg_inv_def s'_def ncpus_def) (simp add: q'_def)
  with push len show ?thesis unfolding s'_def q'_def
    by (intro exI [of _ nx] exI [of _ "(event_list s)[t := l']"]) (simp add: ncpus_def)
qed

lemma ipi_step:
  assumes "msg_inv s q h" "t < ncpus s"
  shows "cpu_msg_ipi s t = Inr (s\<lparr>ipi := (ipi s)[t := True]\<rparr>)"
    "msg_inv (s\<lparr>ipi := (ipi s)[t := True]\<rparr>) q h"
  using assms by (simp_all add: msg_inv_def ncpus_def cpu_msg_ipi_def)

lemma pop_empty:
  assumes "msg_inv s q h" "c < ncpus s" "q c = []"
  shows "cpu_msg_pop s c = Inr (s, None)"
proof -
  have "repr (nexts s, event_list s ! c) []" using assms by (auto simp: msg_inv_def dest!: spec [of _ c])
  from pop_repr_empty [OF this] assms(2) show ?thesis by (simp add: cpu_msg_pop_def ncpus_def)
qed

lemma pop_step:
  assumes inv: "msg_inv s q h" and c: "c < ncpus s" and qc: "q c = a # as"
  shows "\<exists>nx ls. cpu_msg_pop s c = Inr (s\<lparr>nexts := nx, event_list := ls\<rparr>, Some a) \<and> length ls = ncpus s
    \<and> msg_inv (s\<lparr>nexts := nx, event_list := ls\<rparr>) (q(c := as)) (insert a h) \<and> a \<notin> h
    \<and> (\<forall>d. a \<notin> set ((q(c := as)) d))"
proof -
  have dj: "d \<noteq> e \<Longrightarrow> set (q d) \<inter> set (q e) = {}" and dh: "set (q d) \<inter> h = {}" for d e
    using inv by (simp_all add: msg_inv_def)
  have iu: "in_use (msg_pool s) = (\<Union>d < ncpus s. set (q d)) \<union> h" using inv by (simp add: msg_inv_def)
  define l where "l = event_list s ! c"
  have rc: "repr (nexts s, l) (unat a # List.map unat as)"
    using inv qc c by (auto simp: msg_inv_def l_def dest!: spec [of _ c])
  from pop_repr [OF rc] obtain nx l' where pl: "list_pop (nexts s, l) = ((nx, l'), Some (unat a))"
    "repr (nx, l') (List.map unat as)" "\<forall>y. y \<noteq> unat a \<longrightarrow> nx y = nexts s y" by auto
  define s' where "s' = s\<lparr>nexts := nx, event_list := (event_list s)[c := l']\<rparr>"
  have len: "c < length (event_list s)" using c by (simp add: ncpus_def)
  have pop: "cpu_msg_pop s c = Inr (s', Some a)"
    using pl(1) len by (simp add: cpu_msg_pop_def s'_def l_def)
  define q' where "q' = q(c := as)"
  have other: "a \<notin> set (q' d)" for d
    using inv qc msg_inv_distinct [OF inv, of c] by (auto simp: q'_def msg_inv_def dest: spec [of _ c])
  have sub: "set (q' d) \<subseteq> set (q d)" for d using qc by (auto simp: q'_def)
  have ah: "a \<notin> h" using inv qc by (auto simp: msg_inv_def dest: spec [of _ c])
  have "repr (nexts s', event_list s' ! d) (List.map unat (q' d))" if "d < ncpus s'" for d
  proof (cases "d = c")
    case True
    with pl(2) len show ?thesis by (simp add: q'_def s'_def)
  next
    case False
    have rd: "repr (nexts s, event_list s ! d) (List.map unat (q d))"
      using that inv by (simp add: msg_inv_def ncpus_def s'_def)
    have "\<forall>y \<in> set (List.map unat (q d)). nx y = nexts s y"
    proof
      fix y assume "y \<in> set (List.map unat (q d))"
      then obtain b where b: "b \<in> set (q d)" "y = unat b" by auto
      then have "b \<noteq> a" using other [of d] False by (auto simp: q'_def)
      then have "y \<noteq> unat a" using b(2) by (auto dest!: unsigned_word_eqI)
      with pl(3) show "nx y = nexts s y" by simp
    qed
    from repr_frame [OF rd this] False show ?thesis by (simp add: q'_def s'_def)
  qed
  moreover have "(\<Union>d < ncpus s. set (q d)) = insert a (\<Union>d < ncpus s. set (q' d))"
  proof -
    have "set (q d) = (if d = c then insert a (set (q' d)) else set (q' d))" for d
      using qc by (simp add: q'_def)
    then show ?thesis using c by (simp only:) (auto split: if_splits)
  qed
  then have "in_use (msg_pool s') = (\<Union>d < ncpus s'. set (q' d)) \<union> insert a h"
    using iu by (simp add: s'_def ncpus_def)
  moreover have "d \<noteq> e \<longrightarrow> set (q' d) \<inter> set (q' e) = {}" for d e
    using dj [of d e] sub [of d] sub [of e] by blast
  moreover have "set (q' d) \<inter> insert a h = {}" for d
    using dh [of d] sub [of d] other [of d] by blast
  ultimately have "msg_inv s' q' (insert a h)"
    using inv c by (simp add: msg_inv_def s'_def ncpus_def) (simp add: q'_def)
  with pop ah other len show ?thesis unfolding s'_def q'_def
    by (intro exI [of _ nx] exI [of _ "(event_list s)[c := l']"]) (simp add: ncpus_def)
qed

lemma free_step:
  assumes inv: "msg_inv s q (insert a h)" and a: "a \<notin> h"
  shows "\<exists>p. cpu_msg_free s a = Inr (s\<lparr>msg_pool := p\<rparr>, node_msg s (unat a)) \<and> msg_inv (s\<lparr>msg_pool := p\<rparr>) q h
    \<and> num p = num (msg_pool s)"
proof -
  have wf: "pool_wf (msg_pool s)" using inv by (simp add: msg_inv_def)
  have "a \<in> in_use (msg_pool s)" using inv by (simp add: msg_inv_def)
  with in_use_objects have "a \<in> objects (msg_pool s)" by blast
  from free_object [OF wf this] obtain p where p: "objpool_free (msg_pool s) a = Inr p"
    "in_use p = in_use (msg_pool s) - {a}" "objects p = objects (msg_pool s)" "pool_wf p" by blast
  have num: "num p = num (msg_pool s)" using card_objects [OF wf] card_objects [OF p(4)] p(3) by simp
  have "(\<Union>c < ncpus s. set (q c)) \<union> insert a h - {a} = (\<Union>c < ncpus s. set (q c)) \<union> h"
    using inv a by (auto simp: msg_inv_def)
  then have "msg_inv (s\<lparr>msg_pool := p\<rparr>) q h"
    using inv p(2,4) by (simp add: msg_inv_def ncpus_def)
  with p(1) num show ?thesis by (intro exI [of _ p]) (simp add: cpu_msg_free_def)
qed

section \<open>A send and a receive of an undisturbed core\<close>

lemma send_full:
  assumes "mailboxes s Q" "waiting (ncpus s) Q = num (msg_pool s)"
  shows "cpu_send_msg s t m = Inl Panic"
  using assms alloc_full [of s _ "{}"] by (auto simp: mailboxes_def queued_waiting cpu_send_msg_def)

lemma send_ok:
  assumes "mailboxes s Q" "waiting (ncpus s) Q < num (msg_pool s)" "t < ncpus s"
  shows "\<exists>s'. cpu_send_msg s t m = Inr s' \<and> mailboxes s' (Q(t := Q t @ [m])) \<and> ipi s' = (ipi s)[t := True]
    \<and> ncpus s' = ncpus s \<and> num (msg_pool s') = num (msg_pool s) \<and> handling_msgs s' = handling_msgs s"
proof -
  from assms(1) obtain q where q: "msg_inv s q {}" "Q = queued s q" by (auto simp: mailboxes_def)
  have "(\<Sum>c < ncpus s. length (q c)) + card {} < num (msg_pool s)"
    using assms(2) by (simp add: q(2) queued_waiting)
  from alloc_step [OF q(1) this] obtain p a where al: "cpu_msg_alloc s = Inr (s\<lparr>msg_pool := p\<rparr>, a)"
    "msg_inv (s\<lparr>msg_pool := p\<rparr>) q {a}" "\<forall>c. a \<notin> set (q c)" "num p = num (msg_pool s)" by blast
  let ?s1 = "s\<lparr>msg_pool := p\<rparr>"
  have t1: "t < ncpus ?s1" using assms(3) by (simp add: ncpus_def)
  from push_step [OF al(2) _ t1, of m] obtain nx ls where pu: "cpu_msg_push ?s1 t m a
      = Inr (?s1\<lparr>node_msg := (node_msg s)(unat a := m), nexts := nx, event_list := ls\<rparr>)" "length ls = ncpus s"
    "msg_inv (?s1\<lparr>node_msg := (node_msg s)(unat a := m), nexts := nx, event_list := ls\<rparr>) (q(t := q t @ [a])) {}"
    by (auto simp: ncpus_def)
  let ?s2 = "?s1\<lparr>node_msg := (node_msg s)(unat a := m), nexts := nx, event_list := ls\<rparr>"
  have t2: "t < ncpus ?s2" using assms(3) pu(2) by (simp add: ncpus_def)
  note ip = ipi_step [OF pu(3) t2]
  let ?s3 = "?s2\<lparr>ipi := (ipi ?s2)[t := True]\<rparr>"
  have "queued ?s3 (q(t := q t @ [a])) = Q(t := Q t @ [m])"
    using al(3) by (auto simp: q(2) queued_def fun_eq_iff dest!: unsigned_word_eqI)
  with ip(2) have "mailboxes ?s3 (Q(t := Q t @ [m]))" by (auto simp: mailboxes_def)
  moreover have "cpu_send_msg s t m = Inr ?s3"
    using al(1) pu(1) ip(1) by (simp add: cpu_send_msg_def)
  ultimately show ?thesis using al(4) pu(2) by (simp add: ncpus_def)
qed

lemma get_empty:
  assumes "mailboxes s Q" "c < ncpus s" "Q c = []"
  shows "cpu_get_msg s c = Inr (s, None)"
  using assms pop_empty [of s _ "{}" c] by (auto simp: mailboxes_def queued_def cpu_get_msg_def)

lemma get_ok:
  assumes "mailboxes s Q" "c < ncpus s" "Q c = m # ms"
  shows "\<exists>s'. cpu_get_msg s c = Inr (s', Some m) \<and> mailboxes s' (Q(c := ms)) \<and> ipi s' = ipi s
    \<and> ncpus s' = ncpus s \<and> num (msg_pool s') = num (msg_pool s) \<and> handling_msgs s' = handling_msgs s"
proof -
  from assms(1) obtain q where q: "msg_inv s q {}" "Q = queued s q" by (auto simp: mailboxes_def)
  from q(2) assms(3) obtain a as where qc: "q c = a # as" "m = node_msg s (unat a)"
    "ms = List.map (\<lambda>a. node_msg s (unat a)) as" by (auto simp: queued_def)
  from pop_step [OF q(1) assms(2) qc(1)] obtain nx ls where po:
    "cpu_msg_pop s c = Inr (s\<lparr>nexts := nx, event_list := ls\<rparr>, Some a)" "length ls = ncpus s"
    "msg_inv (s\<lparr>nexts := nx, event_list := ls\<rparr>) (q(c := as)) {a}" by blast
  let ?s1 = "s\<lparr>nexts := nx, event_list := ls\<rparr>"
  from free_step [OF po(3)] obtain p where fr: "cpu_msg_free ?s1 a = Inr (?s1\<lparr>msg_pool := p\<rparr>, m)"
    "msg_inv (?s1\<lparr>msg_pool := p\<rparr>) (q(c := as)) {}" "num p = num (msg_pool s)" by (auto simp: qc(2))
  let ?s2 = "?s1\<lparr>msg_pool := p\<rparr>"
  have "queued ?s2 (q(c := as)) = Q(c := ms)" by (auto simp: q(2) queued_def qc(3) fun_eq_iff)
  with fr(2) have "mailboxes ?s2 (Q(c := ms))" by (auto simp: mailboxes_def)
  moreover have "cpu_get_msg s c = Inr (?s2, Some m)"
    using po(1) fr(1) by (simp add: cpu_get_msg_def)
  ultimately show ?thesis using fr(3) po(2) by (simp add: ncpus_def)
qed

section \<open>The interface of the mailboxes\<close>

text \<open>
  The contract other components rely on: \<open>snd_msg\<close> appends to the mailbox of its target as long
  as fewer than \<open>cap\<close> messages wait, \<open>rcv_msg\<close> takes the oldest message of its own core.
\<close>

datatype 'm mail_op = Send cpuid 'm | Receive cpuid

fun spec_op :: "'m mail_op \<Rightarrow> (cpuid \<Rightarrow> 'm list) \<Rightarrow> (cpuid \<Rightarrow> 'm list) \<times> 'm option" where
  "spec_op (Send t m) Q = (Q(t := Q t @ [m]), None)"
| "spec_op (Receive c) Q = (case Q c of [] \<Rightarrow> (Q, None) | m # ms \<Rightarrow> (Q(c := ms), Some m))"

fun spec_run :: "'m mail_op list \<Rightarrow> (cpuid \<Rightarrow> 'm list) \<Rightarrow> (cpuid \<Rightarrow> 'm list) \<times> 'm option list" where
  "spec_run [] Q = (Q, [])"
| "spec_run (x # xs) Q = (let (Q1, r) = spec_op x Q; (Q2, rs) = spec_run xs Q1 in (Q2, r # rs))"

fun op_cpu :: "'m mail_op \<Rightarrow> cpuid" where
  "op_cpu (Send t m) = t"
| "op_cpu (Receive c) = c"

text \<open>The messages waiting never exceed \<open>cap\<close> along the run.\<close>

fun within :: "nat \<Rightarrow> nat \<Rightarrow> 'm mail_op list \<Rightarrow> (cpuid \<Rightarrow> 'm list) \<Rightarrow> bool" where
  "within n cap [] Q \<longleftrightarrow> True"
| "within n cap (x # xs) Q \<longleftrightarrow> op_cpu x < n \<and> (\<Sum>c < n. length (fst (spec_op x Q) c)) \<le> cap
     \<and> within n cap xs (fst (spec_op x Q))"

locale mailbox =
  fixes snd_msg :: "'s \<Rightarrow> cpuid \<Rightarrow> 'm \<Rightarrow> 's res"
    and rcv_msg :: "'s \<Rightarrow> cpuid \<Rightarrow> ('s \<times> 'm option) res"
    and boxes :: "'s \<Rightarrow> (cpuid \<Rightarrow> 'm list) \<Rightarrow> bool"
    and n :: "'s \<Rightarrow> nat"
    and cap :: "'s \<Rightarrow> nat"
  assumes snd_law: "boxes s Q \<Longrightarrow> (\<Sum>c < n s. length (Q c)) < cap s \<Longrightarrow> t < n s \<Longrightarrow>
      \<exists>s'. snd_msg s t m = Inr s' \<and> boxes s' (Q(t := Q t @ [m])) \<and> n s' = n s \<and> cap s' = cap s"
    and rcv_none: "boxes s Q \<Longrightarrow> c < n s \<Longrightarrow> Q c = [] \<Longrightarrow> rcv_msg s c = Inr (s, None)"
    and rcv_some: "boxes s Q \<Longrightarrow> c < n s \<Longrightarrow> Q c = m # ms \<Longrightarrow>
      \<exists>s'. rcv_msg s c = Inr (s', Some m) \<and> boxes s' (Q(c := ms)) \<and> n s' = n s \<and> cap s' = cap s"
begin

fun do_op :: "'m mail_op \<Rightarrow> 's \<Rightarrow> ('s \<times> 'm option) res" where
  "do_op (Send t m) s = bindR (snd_msg s t m) (\<lambda>s. Inr (s, None))"
| "do_op (Receive c) s = rcv_msg s c"

fun do_run :: "'m mail_op list \<Rightarrow> 's \<Rightarrow> ('s \<times> 'm option list) res" where
  "do_run [] s = Inr (s, [])"
| "do_run (x # xs) s = bindR (do_op x s) (\<lambda>(s, r). bindR (do_run xs s) (\<lambda>(s, rs). Inr (s, r # rs)))"

lemma do_op_refines:
  assumes "boxes s Q" "op_cpu x < n s" "(\<Sum>c < n s. length (fst (spec_op x Q) c)) \<le> cap s"
  shows "\<exists>s'. do_op x s = Inr (s', snd (spec_op x Q)) \<and> boxes s' (fst (spec_op x Q))
    \<and> n s' = n s \<and> cap s' = cap s"
proof (cases x)
  case (Send t m)
  have "(\<Sum>c < n s. length (Q c)) < (\<Sum>c < n s. length ((Q(t := Q t @ [m])) c))"
    using assms(2) Send by (intro sum_strict_mono_ex1) auto
  with assms Send have "(\<Sum>c < n s. length (Q c)) < cap s" by simp
  from snd_law [OF assms(1) this] assms(2) Send show ?thesis by auto
next
  case (Receive c)
  show ?thesis
  proof (cases "Q c")
    case Nil
    with rcv_none [OF assms(1)] assms(1,2) Receive show ?thesis by auto
  next
    case (Cons m ms)
    with rcv_some [OF assms(1) _ Cons] assms(2) Receive show ?thesis by auto
  qed
qed

lemma do_run_refines:
  assumes "boxes s Q" "within (n s) (cap s) xs Q"
  shows "\<exists>s'. do_run xs s = Inr (s', snd (spec_run xs Q)) \<and> boxes s' (fst (spec_run xs Q))"
  using assms
proof (induction xs arbitrary: s Q)
  case (Cons x xs)
  from Cons.prems(2) have x: "op_cpu x < n s" "(\<Sum>c < n s. length (fst (spec_op x Q) c)) \<le> cap s"
    and xs: "within (n s) (cap s) xs (fst (spec_op x Q))" by simp_all
  from do_op_refines [OF Cons.prems(1) x] obtain s' where s': "do_op x s = Inr (s', snd (spec_op x Q))"
    "boxes s' (fst (spec_op x Q))" "n s' = n s" "cap s' = cap s" by blast
  from Cons.IH [OF s'(2)] xs s'(3,4) obtain s2 where "do_run xs s' = Inr (s2, snd (spec_run xs (fst (spec_op x Q))))"
    "boxes s2 (fst (spec_run xs (fst (spec_op x Q))))" by auto
  with s'(1) show ?case by (auto simp: split_def Let_def)
qed simp

end

interpretation mb: mailbox cpu_send_msg cpu_get_msg mailboxes ncpus "\<lambda>s. num (msg_pool s)"
proof
  fix s Q t m
  assume "mailboxes s Q" "(\<Sum>c < ncpus s. length (Q c)) < num (msg_pool s)" "t < ncpus s"
  from send_ok [OF this(1) _ this(3)] this(2)
  show "\<exists>s'. cpu_send_msg s t m = Inr s' \<and> mailboxes s' (Q(t := Q t @ [m])) \<and> ncpus s' = ncpus s
      \<and> num (msg_pool s') = num (msg_pool s)" by (fastforce simp: waiting_def)
next
  fix s Q c m ms
  assume "mailboxes s Q" "c < ncpus s" "Q c = m # ms"
  from get_ok [OF this]
  show "\<exists>s'. cpu_get_msg s c = Inr (s', Some m) \<and> mailboxes s' (Q(c := ms)) \<and> ncpus s' = ncpus s
      \<and> num (msg_pool s') = num (msg_pool s)" by blast
qed (rule get_empty)

section \<open>The message handler loop\<close>

text \<open>Handlers that touch only their own component: the table of their effects on \<open>'w\<close>.\<close>

definition local_handlers :: "(u32 \<Rightarrow> u64 \<Rightarrow> 'w \<Rightarrow> 'w) option list \<Rightarrow> 'w handler_fn option list" where
  "local_handlers fs = List.map (map_option (\<lambda>f e d (s, w). Inr (s, f e d w))) fs"

definition deliver :: "(u32 \<Rightarrow> u64 \<Rightarrow> 'w \<Rightarrow> 'w) option list \<Rightarrow> cpu_msg \<Rightarrow> 'w \<Rightarrow> 'w" where
  "deliver fs m w = (case if unat (handler m) < length fs then fs ! unat (handler m) else None of
     None \<Rightarrow> w | Some f \<Rightarrow> f (event m) (data m) w)"

lemma msg_loop_local:
  assumes "mailboxes s Q" "c < ncpus s"
  shows "\<exists>s'. msg_loop (local_handlers fs) c (s, w) = Some (Inr (s', fold (deliver fs) (Q c) w))
    \<and> mailboxes s' (Q(c := [])) \<and> handling_msgs s' = handling_msgs s \<and> ncpus s' = ncpus s"
  using assms
proof (induction "Q c" arbitrary: s Q w)
  case Nil
  have "Q(c := []) = Q" using Nil(1) by (auto simp: fun_eq_iff)
  with Nil get_empty [OF Nil(2,3)] show ?case by (subst msg_loop.simps) auto
next
  case (Cons m ms)
  from get_ok [OF Cons.prems Cons.hyps(2) [symmetric]] obtain s1 where s1:
    "cpu_get_msg s c = Inr (s1, Some m)" "mailboxes s1 (Q(c := ms))" "ncpus s1 = ncpus s"
    "handling_msgs s1 = handling_msgs s" by blast
  have ih: "\<exists>s'. msg_loop (local_handlers fs) c (s1, w') = Some (Inr (s', fold (deliver fs) ms w'))
    \<and> mailboxes s' (Q(c := [])) \<and> handling_msgs s' = handling_msgs s \<and> ncpus s' = ncpus s" for w'
    using Cons.hyps(1) [of "Q(c := ms)" s1 w'] s1 Cons.prems(2) by simp
  have "msg_loop (local_handlers fs) c (s, w) = msg_loop (local_handlers fs) c (s1, deliver fs m w)"
    by (subst msg_loop.simps) (auto simp: s1(1) local_handlers_def deliver_def split: option.splits)
  with ih [of "deliver fs m w"] Cons.hyps(2) [symmetric] show ?case by simp
qed

section \<open>Properties\<close>

text \<open>
  Sends and receives each undisturbed by other cores, as long as no more messages wait than the
  pool has nodes. Msg_Interleave shows the same without the two assumptions.
\<close>

lemma atomic_runs_refine:
  assumes "mailboxes s Q" "within (ncpus s) (num (msg_pool s)) xs Q"
  shows "\<exists>s'. mb.do_run xs s = Inr (s', snd (spec_run xs Q)) \<and> mailboxes s' (fst (spec_run xs Q))"
  by (rule mb.do_run_refines [OF assms])

definition boot_msgs :: msg_state where
  "boot_msgs = \<lparr>msg_pool = OBJPOOL_ALLOC 0x80210000 24 CPU_MSG_POOL_SIZE, nexts = (\<lambda>_. None),
    node_msg = (\<lambda>_. \<lparr>handler = 0, event = 0, data = 0\<rparr>), event_list = replicate 4 list_init,
    handling_msgs = replicate 4 False, ipi = replicate 4 False\<rparr>"

lemma boot_mailboxes: "mailboxes boot_msgs (\<lambda>_. [])"
proof -
  have "msg_inv boot_msgs (\<lambda>_. []) {}"
    using static_pool [where sz = 24 and addr = "0x80210000" and n = CPU_MSG_POOL_SIZE]
    by (simp add: msg_inv_def boot_msgs_def ncpus_def repr_init CPU_MSG_POOL_SIZE_def)
  moreover have "queued boot_msgs (\<lambda>_. []) = (\<lambda>_. [])" by (simp add: queued_def fun_eq_iff)
  ultimately show ?thesis unfolding mailboxes_def by metis
qed

text \<open>
  C10. The handler loop returns and drains the core's queue. With handlers that act only on
  their own component (they neither send messages nor fail), and while no other core sends,
  \<open>cpu_msg_handler\<close> ends, has delivered every waiting message once and in order to its
  registered handler, skips those without one, and leaves the other queues alone.
\<close>

theorem cpu_msg_handler_drains:
  assumes "mailboxes s Q" "c < ncpus s" "length (handling_msgs s) = ncpus s"
  shows "\<exists>s'. cpu_msg_handler (local_handlers fs) c (s, w) = Some (Inr (s', fold (deliver fs) (Q c) w))
    \<and> mailboxes s' (Q(c := [])) \<and> \<not> handling_msgs s' ! c"
proof -
  let ?s = "s\<lparr>handling_msgs := (handling_msgs s)[c := True]\<rparr>"
  have "mailboxes ?s Q" "c < ncpus ?s"
    using assms(1,2) by (simp_all add: mailboxes_def msg_inv_def ncpus_def queued_def [abs_def])
  from msg_loop_local [OF this, of fs w] obtain s1 where s1:
    "msg_loop (local_handlers fs) c (?s, w) = Some (Inr (s1, fold (deliver fs) (Q c) w))"
    "mailboxes s1 (Q(c := []))" "handling_msgs s1 = (handling_msgs s)[c := True]" by auto
  let ?s1 = "s1\<lparr>handling_msgs := (handling_msgs s)[c := False]\<rparr>"
  have "mailboxes ?s1 (Q(c := []))" using s1(2) by (simp add: mailboxes_def msg_inv_def ncpus_def queued_def [abs_def])
  with s1 assms(2,3) show ?thesis by (auto simp: cpu_msg_handler_def)
qed

text \<open>Three messages wait; the second has no handler.\<close>

theorem cpu_msg_handler_drains_witness:
  "\<exists>s s'. bindR (cpu_send_msg boot_msgs 1 \<lparr>handler = 1, event = 0, data = 3\<rparr>) (\<lambda>s.
      bindR (cpu_send_msg s 1 \<lparr>handler = 0, event = 0, data = 100\<rparr>) (\<lambda>s.
      cpu_send_msg s 1 \<lparr>handler = 1, event = 2, data = 4\<rparr>)) = Inr s
    \<and> cpu_msg_handler (local_handlers [None, Some (\<lambda>e d w. 10 * w + unat d)]) 1 (s, 5) = Some (Inr (s', 534))
    \<and> mailboxes s' (\<lambda>_. [])"
proof -
  let ?m = "\<lparr>handler = 1, event = 0, data = 3\<rparr>" and ?u = "\<lparr>handler = 0, event = 0, data = 100\<rparr>"
    and ?v = "\<lparr>handler = 1, event = 2, data = 4\<rparr>"
  have n: "ncpus boot_msgs = 4" "num (msg_pool boot_msgs) = 128" "length (handling_msgs boot_msgs) = 4"
    by (simp_all add: boot_msgs_def ncpus_def OBJPOOL_ALLOC_def CPU_MSG_POOL_SIZE_def)
  have w: "{..<4} = {0, 1, 2, 3 :: nat}" by auto
  from send_ok [OF boot_mailboxes, of 1 ?m] obtain s1 where s1: "cpu_send_msg boot_msgs 1 ?m = Inr s1"
    "mailboxes s1 ((\<lambda>_. [])(1 := [?m]))" "ncpus s1 = 4" "num (msg_pool s1) = 128" "length (handling_msgs s1) = 4"
    by (auto simp: n waiting_def)
  from send_ok [OF s1(2), of 1 ?u] obtain s2 where s2: "cpu_send_msg s1 1 ?u = Inr s2"
    "mailboxes s2 ((\<lambda>_. [])(1 := [?m, ?u]))" "ncpus s2 = 4" "num (msg_pool s2) = 128" "length (handling_msgs s2) = 4"
    by (auto simp: s1(3-5) waiting_def w)
  from send_ok [OF s2(2), of 1 ?v] obtain s3 where s3: "cpu_send_msg s2 1 ?v = Inr s3"
    "mailboxes s3 ((\<lambda>_. [])(1 := [?m, ?u, ?v]))" "ncpus s3 = 4" "length (handling_msgs s3) = 4"
    by (auto simp: s2(3-5) waiting_def w)
  from cpu_msg_handler_drains [OF s3(2), of 1 "[None, Some (\<lambda>e d w. 10 * w + unat d)]" 5] s3(3,4)
  obtain s' where "cpu_msg_handler (local_handlers [None, Some (\<lambda>e d w. 10 * w + unat d)]) 1 (s3, 5) = Some (Inr (s', 534))"
    "mailboxes s' (\<lambda>_. [])" by (auto simp: deliver_def fun_upd_idem)
  then show ?thesis using s1(1) s2(1) s3(1) by auto
qed

text \<open>
  The only way a send fails is exhaustion: with all nodes of the pool waiting in the
  queues, \<open>cpu_send_msg\<close> ends in \<open>ERROR\<close>; otherwise it succeeds, appends the message to the
  target's mailbox and raises the IPI of the target only.
\<close>

theorem cpu_send_msg_total:
  assumes "mailboxes s Q" "t < ncpus s"
  shows "if waiting (ncpus s) Q < num (msg_pool s)
    then \<exists>s'. cpu_send_msg s t m = Inr s' \<and> mailboxes s' (Q(t := Q t @ [m])) \<and> ipi s' = (ipi s)[t := True]
    else cpu_send_msg s t m = Inl Panic"
  using send_ok [OF assms(1) _ assms(2), of m] send_full [OF assms(1), of t m] mailboxes_bound [OF assms(1)]
  by auto

theorem cpu_send_msg_total_witness:
  "\<exists>s'. cpu_send_msg boot_msgs 3 \<lparr>handler = 0, event = 1, data = 7\<rparr> = Inr s' \<and> ipi s' ! 3"
proof -
  have "3 < ncpus boot_msgs" by (simp add: boot_msgs_def ncpus_def)
  from cpu_send_msg_total [OF boot_mailboxes this, of "\<lparr>handler = 0, event = 1, data = 7\<rparr>"]
  show ?thesis
    by (auto simp: boot_msgs_def ncpus_def waiting_def OBJPOOL_ALLOC_def CPU_MSG_POOL_SIZE_def)
qed

end
