(* ===== verification/Vm_Core.thy ===== *)
theory Vm_Core
  imports Bitmaps Cpu_Msg Vm_Config
begin

text \<open>
  Virtual machines and their cores: \<open>src/core/vm.c\<close> and \<open>src/core/inc/vm.h\<close>, the emulation
  tables of \<open>src/core/inc/emul.h\<close>, and the RISC-V vCPU of \<open>src/arch/riscv/vm.c\<close>. The 64-bit
  set of a VM's physical cores is read as a bitmap of two granules, the way the casts of the
  code do on a little-endian machine.
\<close>

section \<open>The vCPU\<close>

definition HSTATUS_SPV :: u64 where "HSTATUS_SPV = push_bit 7 1"
definition HSTATUS_VSXL_64 :: u64 where "HSTATUS_VSXL_64 = push_bit 32 2"
definition SSTATUS_SPP_BIT :: u64 where "SSTATUS_SPP_BIT = push_bit 8 1"
definition SSTATUS_FS_DIRTY :: u64 where "SSTATUS_FS_DIRTY = push_bit 13 3"
definition SSTATUS_XS_DIRTY :: u64 where "SSTATUS_XS_DIRTY = push_bit 15 3"
definition SSTATUS_SD :: u64 where "SSTATUS_SD = push_bit 63 1"
definition HCOUNTEREN_TM :: u64 where "HCOUNTEREN_TM = push_bit 1 1"

definition REG_A0 :: nat where "REG_A0 = 10"
definition REG_A1 :: nat where "REG_A1 = 11"

record arch_regs =
  gprs :: "u64 list"
  hstatus :: u64
  sstatus :: u64
  sepc :: u64

text \<open>The virtual supervisor's control registers that \<open>vcpu_arch_reset\<close> writes.\<close>

record vs_csrs =
  hcounteren :: u64
  htimedelta :: u64
  vsstatus :: u64
  hie :: u64
  vstvec :: u64
  vsscratch :: u64
  vsepc :: u64
  vscause :: u64
  vstval :: u64
  hvip :: u64
  vsatp :: u64

datatype sbi_hsm_state = STARTED | STOPPED | START_PENDING | STOP_PENDING

record vcpu =
  vcpu_id :: vcpuid
  phys_id :: cpuid
  is_active :: bool
  vcpu_regs :: arch_regs
  arch_hart_id :: vcpuid
  hsm_state :: sbi_hsm_state
  hsm_start_addr :: vaddr
  hsm_priv :: u32

definition vcpu_arch_init :: "vcpu \<Rightarrow> vcpu" where
  "vcpu_arch_init v = v\<lparr>hsm_state := (if vcpu_id v = 0 then STARTED else STOPPED)\<rparr>"

definition vcpu_arch_reset :: "vcpu \<Rightarrow> vaddr \<Rightarrow> vcpu \<times> vs_csrs" where
  "vcpu_arch_reset v entry =
    (let regs0 = \<lparr>gprs = replicate 31 0, hstatus = HSTATUS_SPV OR HSTATUS_VSXL_64,
           sstatus = SSTATUS_SPP_BIT OR SSTATUS_FS_DIRTY OR SSTATUS_XS_DIRTY, sepc = entry\<rparr>;
         v = v\<lparr>arch_hart_id := vcpu_id v\<rparr>;
         regs1 = regs0\<lparr>gprs := (gprs regs0)[REG_A0 - 1 := of_nat (vcpu_id v), REG_A1 - 1 := 0]\<rparr>
     in (v\<lparr>vcpu_regs := regs1\<rparr>,
         \<lparr>hcounteren = HCOUNTEREN_TM, htimedelta = 0,
          vsstatus = SSTATUS_SD OR SSTATUS_FS_DIRTY OR SSTATUS_XS_DIRTY, hie = 0, vstvec = 0,
          vsscratch = 0, vsepc = 0, vscause = 0, vstval = 0, hvip = 0, vsatp = 0\<rparr>))"

definition vcpu_readreg :: "vcpu \<Rightarrow> nat \<Rightarrow> u64" where
  "vcpu_readreg v reg = (if reg = 0 \<or> 31 < reg then 0 else gprs (vcpu_regs v) ! (reg - 1))"

definition vcpu_writereg :: "vcpu \<Rightarrow> nat \<Rightarrow> u64 \<Rightarrow> vcpu" where
  "vcpu_writereg v reg val =
    (if reg = 0 \<or> 31 < reg then v else v\<lparr>vcpu_regs := (vcpu_regs v)\<lparr>gprs := (gprs (vcpu_regs v))[reg - 1 := val]\<rparr>\<rparr>)"

definition vcpu_readpc :: "vcpu \<Rightarrow> u64" where
  "vcpu_readpc v = sepc (vcpu_regs v)"

definition vcpu_writepc :: "vcpu \<Rightarrow> u64 \<Rightarrow> vcpu" where
  "vcpu_writepc v pc = v\<lparr>vcpu_regs := (vcpu_regs v)\<lparr>sepc := pc\<rparr>\<rparr>"

datatype run_choice = Enter_guest | Cpu_idle

definition vcpu_arch_run :: "vcpu \<Rightarrow> run_choice" where
  "vcpu_arch_run v = (if hsm_state v = STARTED then Enter_guest else Cpu_idle)"

definition vcpu_run :: "vcpu \<Rightarrow> vcpu \<times> run_choice" where
  "vcpu_run v = (let v = v\<lparr>is_active := True\<rparr> in (v, vcpu_arch_run v))"

section \<open>The virtual machine\<close>

record 'h emul_mem =
  emul_va_base :: vaddr
  emul_size :: u64
  emul_mem_handler :: 'h

record 'h emul_reg =
  emul_addr :: vaddr
  emul_reg_handler :: 'h

record 'h vm =
  vm_id :: nat
  vm_master :: cpuid
  vm_cpu_num :: nat
  vm_cpus :: cpumap
  vm_vcpus :: "vcpu list"
  emul_mem_list :: "'h emul_mem list"
  emul_reg_list :: "'h emul_reg list"
  vm_interrupt_bitmap :: bitmap
  vm_ipcs :: "ipc list"
  vm_crit :: vm_criticality
  vm_health_state :: vm_health

definition INVALID_CPUID :: nat where
  "INVALID_CPUID = 2 ^ 64 - 1"

definition cpus_bitmap :: "cpumap \<Rightarrow> bitmap" where
  "cpus_bitmap m = [ucast m, ucast (drop_bit 32 m)]"

definition vm_get_vcpu :: "'h vm \<Rightarrow> vcpuid \<Rightarrow> vcpu option" where
  "vm_get_vcpu v i = (if i < vm_cpu_num v then Some (vm_vcpus v ! i) else None)"

definition vm_translate_to_pcpuid :: "'h vm \<Rightarrow> vcpuid \<Rightarrow> cpuid res" where
  "vm_translate_to_pcpuid v vcpuid =
    bindR (bitmap_find_nth (cpus_bitmap (vm_cpus v)) 64 (vcpuid + 1) 0 True) (\<lambda>i.
    Inr (if i < 0 then INVALID_CPUID else nat i))"

definition vm_translate_to_vcpuid :: "'h vm \<Rightarrow> cpuid \<Rightarrow> vcpuid res" where
  "vm_translate_to_vcpuid v pcpuid =
    bindR (shl 1 pcpuid) (\<lambda>m.
    if vm_cpus v AND m \<noteq> 0 then bitmap_count (cpus_bitmap (vm_cpus v)) 0 pcpuid True
    else Inr INVALID_CPUID)"

definition vm_has_interrupt :: "'h vm \<Rightarrow> irqid \<Rightarrow> bool res" where
  "vm_has_interrupt v int_id = bitmap_get (vm_interrupt_bitmap v) int_id"

text \<open>The loops that translate a set of cores, bit by bit.\<close>

definition translate_mask :: "(nat \<Rightarrow> nat res) \<Rightarrow> cpumap \<Rightarrow> nat \<Rightarrow> cpumap res" where
  "translate_mask tr m len =
    foldR (\<lambda>i pmask.
      bindR (shl 1 i) (\<lambda>b.
      if m AND b \<noteq> 0 then
        bindR (tr i) (\<lambda>shift.
        if shift \<noteq> INVALID_CPUID then bindR (shl 1 shift) (\<lambda>b. Inr (pmask OR b)) else Inr pmask)
      else Inr pmask)) [0..<len] 0"

definition vm_translate_to_pcpu_mask :: "'h vm \<Rightarrow> cpumap \<Rightarrow> nat \<Rightarrow> cpumap res" where
  "vm_translate_to_pcpu_mask v = translate_mask (vm_translate_to_pcpuid v)"

definition vm_translate_to_vcpu_mask :: "'h vm \<Rightarrow> cpumap \<Rightarrow> nat \<Rightarrow> cpumap res" where
  "vm_translate_to_vcpu_mask v = translate_mask (vm_translate_to_vcpuid v)"

definition vm_cpu_init :: "'h vm \<Rightarrow> cpuid \<Rightarrow> 'h vm res" where
  "vm_cpu_init v c = bindR (shl 1 c) (\<lambda>b. Inr (v\<lparr>vm_cpus := vm_cpus v OR b\<rparr>))"

definition vm_calc_vcpu_id :: "'h vm \<Rightarrow> cpuid \<Rightarrow> vcpuid res" where
  "vm_calc_vcpu_id v c =
    foldR (\<lambda>i n. bindR (bit_get (vm_cpus v) i) (\<lambda>b. Inr (if b \<noteq> 0 then n + 1 else n))) [0..<c] 0"

text \<open>The reset also writes the control registers of the core it runs on.\<close>

definition vm_vcpu_init :: "'h vm \<Rightarrow> cpuid \<Rightarrow> vaddr \<Rightarrow> ('h vm \<times> vs_csrs) res" where
  "vm_vcpu_init v c entry =
    bindR (vm_calc_vcpu_id v c) (\<lambda>i.
    case vm_get_vcpu v i of None \<Rightarrow> Inl Null_deref
    | Some u \<Rightarrow>
        let u = u\<lparr>vcpu_id := i, phys_id := c\<rparr>;
            (u, csrs) = vcpu_arch_reset (vcpu_arch_init u) entry
        in bindR (wr (vm_vcpus v) i u) (\<lambda>us. Inr (v\<lparr>vm_vcpus := us\<rparr>, csrs)))"

text \<open>A guest access that trapped, as the exception handlers describe it to an emulation handler.\<close>

record emul_access =
  acc_addr :: vaddr
  acc_write :: bool
  acc_sign_ext :: bool
  acc_width :: nat
  acc_reg :: nat
  acc_reg_high :: nat
  acc_multi_reg :: bool
  acc_reg_width :: nat

section \<open>Emulated devices and registers\<close>

definition vm_emul_add_mem :: "'h vm \<Rightarrow> 'h emul_mem \<Rightarrow> 'h vm" where
  "vm_emul_add_mem v e = v\<lparr>emul_mem_list := emul_mem_list v @ [e]\<rparr>"

definition vm_emul_add_reg :: "'h vm \<Rightarrow> 'h emul_reg \<Rightarrow> 'h vm" where
  "vm_emul_add_reg v e = v\<lparr>emul_reg_list := emul_reg_list v @ [e]\<rparr>"

definition vm_emul_get_mem :: "'h vm \<Rightarrow> vaddr \<Rightarrow> 'h option" where
  "vm_emul_get_mem v addr = map_option emul_mem_handler
    (find (\<lambda>e. emul_va_base e \<le> addr \<and> addr < emul_va_base e + emul_size e) (emul_mem_list v))"

definition vm_emul_get_reg :: "'h vm \<Rightarrow> vaddr \<Rightarrow> 'h option" where
  "vm_emul_get_reg v addr = map_option emul_reg_handler
    (find (\<lambda>e. emul_addr e = addr) (emul_reg_list v))"

section \<open>Broadcast\<close>

text \<open>
  \<open>1U << i\<close> is a 32-bit shift: from \<open>i = 32\<close> on it is undefined. The loop ends only when it has
  sent \<open>cpu_num - 1\<close> messages, the subtraction taken at 64 bits.
\<close>

function broadcast_loop :: "cpumap \<Rightarrow> cpuid \<Rightarrow> cpu_msg \<Rightarrow> nat \<Rightarrow> nat \<Rightarrow> nat \<Rightarrow> msg_state \<Rightarrow> msg_state res" where
  "broadcast_loop cpus self msg cpu_num i n s =
    (if n < (cpu_num + 2 ^ 64 - 1) mod 2 ^ 64 then
       bindR (shl (1 :: u32) i) (\<lambda>b.
       if ucast b AND cpus \<noteq> 0 \<and> i \<noteq> self then
         bindR (cpu_send_msg s i msg) (\<lambda>s. broadcast_loop cpus self msg cpu_num (i + 1) (n + 1) s)
       else broadcast_loop cpus self msg cpu_num (i + 1) n s)
     else Inr s)"
  by pat_completeness auto
termination
  by (relation "measure (\<lambda>(cpus, self, msg, cpu_num, i, n, s). 32 - i)") (auto simp: shl_def split: if_splits)

declare broadcast_loop.simps [simp del]

definition vm_msg_broadcast :: "'h vm \<Rightarrow> cpuid \<Rightarrow> cpu_msg \<Rightarrow> msg_state \<Rightarrow> msg_state res" where
  "vm_msg_broadcast v self msg s = broadcast_loop (vm_cpus v) self msg (vm_cpu_num v) 0 0 s"

section \<open>Finding the n-th core\<close>

lemma bm_len_cpus [simp]: "bm_len (cpus_bitmap m) = 64"
  by (simp add: cpus_bitmap_def bm_len_def)

lemma bm_bit_cpus: "i < 64 \<Longrightarrow> bm_bit (cpus_bitmap m) i \<longleftrightarrow> bit m i"
  by (cases "i < 32") (auto simp: cpus_bitmap_def bm_bit_def bit_ucast_iff bit_drop_bit_eq div_eq_0_iff le_div_geq le_mod_geq)

text \<open>\<open>bitmap_find_nth\<close> finds the position that has \<open>nth - 1\<close> of its kind before it.\<close>

lemma find_nth_loop_exact:
  assumes "sz \<le> bm_len bm" "i \<le> k" "k < sz" "bm_bit bm k = st"
    and "card {j \<in> {i..<k}. bm_bit bm j = st} + count + 1 = nr"
  shows "bitmap_find_nth_loop bm sz nr st i count = Inr (int k)"
  using assms
proof (induction "k - i" arbitrary: i count)
  case 0
  then show ?case by (subst bitmap_find_nth_loop.simps) (simp add: bitmap_get_eq)
next
  case (Suc d)
  then have i: "i < k" by simp
  have s: "{j \<in> {i..<k}. bm_bit bm j = st} =
      (if bm_bit bm i = st then insert i {j \<in> {i + 1..<k}. bm_bit bm j = st} else {j \<in> {i + 1..<k}. bm_bit bm j = st})"
    using i by (auto simp: le_eq_less_or_eq Suc_le_eq)
  have c: "card {j \<in> {i..<k}. bm_bit bm j = st} =
      card {j \<in> {i + 1..<k}. bm_bit bm j = st} + (if bm_bit bm i = st then 1 else 0)"
    unfolding s by simp
  have g: "bitmap_get bm i = Inr (bm_bit bm i)" using Suc.prems(1,3) i by (intro bitmap_get_eq) simp
  have step: "bitmap_find_nth_loop bm sz nr st (i + 1) (count + (if bm_bit bm i = st then 1 else 0)) = Inr (int k)"
    using Suc.hyps(2) Suc.prems i c by (intro Suc.hyps(1)) auto
  show ?case
  proof (cases "bm_bit bm i = st")
    case True
    with c Suc.prems(5) have "count + 1 \<noteq> nr" by simp
    with step True g Suc.prems i show ?thesis by (subst bitmap_find_nth_loop.simps) simp
  next
    case False
    with step g Suc.prems i show ?thesis by (subst bitmap_find_nth_loop.simps) simp
  qed
qed

lemma find_nth_exact:
  assumes "sz \<le> bm_len bm" "k < sz" "bm_bit bm k = st"
  shows "bitmap_find_nth bm sz (card {j \<in> {0..<k}. bm_bit bm j = st} + 1) 0 st = Inr (int k)"
  using find_nth_loop_exact [of sz bm 0 k st 0] assms by (simp add: bitmap_find_nth_def)

lemma find_nth_loop_none:
  assumes "sz \<le> bm_len bm" "card {j \<in> {i..<sz}. bm_bit bm j = st} + count < nr"
  shows "bitmap_find_nth_loop bm sz nr st i count = Inr (- 1)"
  using assms
proof (induction "sz - i" arbitrary: i count)
  case 0
  then show ?case by (subst bitmap_find_nth_loop.simps) simp
next
  case (Suc d)
  then have i: "i < sz" by simp
  have s: "{j \<in> {i..<sz}. bm_bit bm j = st} =
      (if bm_bit bm i = st then insert i {j \<in> {i + 1..<sz}. bm_bit bm j = st} else {j \<in> {i + 1..<sz}. bm_bit bm j = st})"
    using i by (auto simp: le_eq_less_or_eq Suc_le_eq)
  have c: "card {j \<in> {i..<sz}. bm_bit bm j = st} =
      card {j \<in> {i + 1..<sz}. bm_bit bm j = st} + (if bm_bit bm i = st then 1 else 0)"
    unfolding s by simp
  have g: "bitmap_get bm i = Inr (bm_bit bm i)" using Suc.prems(1) i by (intro bitmap_get_eq) simp
  have step: "bitmap_find_nth_loop bm sz nr st (i + 1) (count + (if bm_bit bm i = st then 1 else 0)) = Inr (- 1)"
    using Suc.hyps(2) Suc.prems i c by (intro Suc.hyps(1)) auto
  show ?case
  proof (cases "bm_bit bm i = st")
    case True
    with c Suc.prems(2) have "count + 1 \<noteq> nr" by simp
    with step True g i show ?thesis by (subst bitmap_find_nth_loop.simps) simp
  next
    case False
    with step g i show ?thesis by (subst bitmap_find_nth_loop.simps) simp
  qed
qed

section \<open>Numbering the cores\<close>

text \<open>The set of a VM's cores, and the position of a core among them.\<close>

definition cores :: "cpumap \<Rightarrow> cpuid set" where
  "cores m = {p. p < 64 \<and> bit m p}"

definition rank :: "cpumap \<Rightarrow> cpuid \<Rightarrow> nat" where
  "rank m p = card {q \<in> {0..<p}. bit m q}"

lemma finite_cores [simp]: "finite (cores m)"
  by (simp add: cores_def)

lemma rank_bitmap: "p \<le> 64 \<Longrightarrow> card {j \<in> {0..<p}. bm_bit (cpus_bitmap m) j = True} = rank m p"
  unfolding rank_def by (rule arg_cong [where f = card]) (auto simp: bm_bit_cpus)

lemma rank_less: "p \<in> cores m \<Longrightarrow> rank m p < card (cores m)"
  unfolding rank_def by (rule psubset_card_mono) (auto simp: cores_def)

lemma rank_strict: "p \<in> cores m \<Longrightarrow> p < q \<Longrightarrow> rank m p < rank m q"
  unfolding rank_def by (rule psubset_card_mono) (auto simp: cores_def)

lemma rank_inj: "inj_on (rank m) (cores m)"
  by (rule linorder_inj_onI') (use rank_strict in fastforce)

lemma rank_image: "rank m ` cores m = {0..<card (cores m)}"
proof (rule card_subset_eq)
  show "rank m ` cores m \<subseteq> {0..<card (cores m)}" using rank_less by auto
qed (simp_all add: card_image rank_inj)

lemma to_pcpuid_rank:
  assumes "p \<in> cores (vm_cpus v)"
  shows "vm_translate_to_pcpuid v (rank (vm_cpus v) p) = Inr p"
  using assms find_nth_exact [of 64 "cpus_bitmap (vm_cpus v)" p True] rank_bitmap [of p "vm_cpus v"]
  by (simp add: vm_translate_to_pcpuid_def cores_def bm_bit_cpus)

lemma to_pcpuid_invalid:
  assumes "card (cores (vm_cpus v)) \<le> i"
  shows "vm_translate_to_pcpuid v i = Inr INVALID_CPUID"
proof -
  have "{j \<in> {0..<64}. bm_bit (cpus_bitmap (vm_cpus v)) j = True} = cores (vm_cpus v)"
    by (auto simp: cores_def bm_bit_cpus)
  with assms find_nth_loop_none [of 64 "cpus_bitmap (vm_cpus v)" 0 True 0 "i + 1"] show ?thesis
    by (simp add: vm_translate_to_pcpuid_def bitmap_find_nth_def)
qed

lemma to_pcpuid_cases:
  "\<exists>p. vm_translate_to_pcpuid v i = Inr p \<and>
    (if i < card (cores (vm_cpus v)) then p \<in> cores (vm_cpus v) \<and> rank (vm_cpus v) p = i else p = INVALID_CPUID)"
proof (cases "i < card (cores (vm_cpus v))")
  case True
  then have "i \<in> rank (vm_cpus v) ` cores (vm_cpus v)" by (simp add: rank_image)
  then obtain p where "p \<in> cores (vm_cpus v)" "rank (vm_cpus v) p = i" by auto
  with to_pcpuid_rank [of p v] True show ?thesis by auto
qed (simp add: to_pcpuid_invalid)

lemma to_vcpuid_eq:
  assumes "p < 64"
  shows "vm_translate_to_vcpuid v p =
    Inr (if p \<in> cores (vm_cpus v) then rank (vm_cpus v) p else INVALID_CPUID)"
proof -
  have "bitmap_count (cpus_bitmap (vm_cpus v)) 0 p True = Inr (rank (vm_cpus v) p)"
    using assms rank_bitmap [of p "vm_cpus v"] by (subst bitmap_count_spec) simp_all
  with assms show ?thesis by (simp add: vm_translate_to_vcpuid_def and_one_shift cores_def)
qed

lemma calc_vcpu_id_eq:
  assumes "p \<le> 64"
  shows "vm_calc_vcpu_id v p = Inr (rank (vm_cpus v) p)"
  using assms
proof (induction p)
  case 0
  then show ?case by (simp add: vm_calc_vcpu_id_def rank_def)
next
  case (Suc p)
  have "{q \<in> {0..<Suc p}. bit (vm_cpus v) q} =
      (if bit (vm_cpus v) p then insert p {q \<in> {0..<p}. bit (vm_cpus v) q} else {q \<in> {0..<p}. bit (vm_cpus v) q})"
    by (auto simp: less_Suc_eq)
  then have r: "rank (vm_cpus v) (Suc p) = rank (vm_cpus v) p + (if bit (vm_cpus v) p then 1 else 0)"
    by (simp add: rank_def)
  from Suc have "vm_calc_vcpu_id v p = Inr (rank (vm_cpus v) p)" by simp
  with Suc.prems r show ?case
    by (simp add: vm_calc_vcpu_id_def foldR_append bit_get_def and_one_shift)
qed

section \<open>Masks and broadcast\<close>

lemma translate_mask_spec:
  assumes "len \<le> 64" "\<And>i. i < len \<Longrightarrow> tr i = Inr (f i)" "\<And>i. i < len \<Longrightarrow> f i = INVALID_CPUID \<or> f i < 64"
  shows "\<exists>r. translate_mask tr m len = Inr r \<and>
    (\<forall>p. bit r p \<longleftrightarrow> (\<exists>i < len. bit m i \<and> f i = p \<and> p < 64))"
  using assms
proof (induction len)
  case 0
  then show ?case by (simp add: translate_mask_def)
next
  case (Suc n)
  let ?step = "\<lambda>i pmask. bindR (shl 1 i) (\<lambda>b. if m AND b \<noteq> 0 then bindR (tr i) (\<lambda>shift.
        if shift \<noteq> INVALID_CPUID then bindR (shl 1 shift) (\<lambda>b. Inr (pmask OR b)) else Inr pmask)
      else Inr pmask)"
  from Suc obtain r where r: "translate_mask tr m n = Inr r"
    "\<forall>p. bit r p \<longleftrightarrow> (\<exists>i < n. bit m i \<and> f i = p \<and> p < 64)" by (force simp: less_Suc_eq)
  have "translate_mask tr m (Suc n) = bindR (translate_mask tr m n) (?step n)"
    unfolding translate_mask_def by (rule foldR_upt_Suc)
  with r have e: "translate_mask tr m (Suc n) = ?step n r" by simp
  have s: "shl (1 :: u64) n = Inr (2 ^ n)" "n < 64" using Suc.prems(1) by simp_all
  show ?case
  proof (cases "bit m n \<and> f n \<noteq> INVALID_CPUID")
    case True
    with Suc.prems(3) [of n] have "f n < 64" by auto
    with True s Suc.prems(2) [of n] have "translate_mask tr m (Suc n) = Inr (r OR 2 ^ f n)"
      unfolding e by simp
    with r(2) True \<open>f n < 64\<close> show ?thesis by (auto simp: bit_or_iff less_Suc_eq)
  next
    case False
    with s Suc.prems(2) [of n] have "translate_mask tr m (Suc n) = Inr r"
      unfolding e by (cases "bit m n") simp_all
    moreover have "\<not> (bit m n \<and> f n = p \<and> p < 64)" for p using False by (auto simp: INVALID_CPUID_def)
    ultimately show ?thesis using r(2) by (auto simp: less_Suc_eq)
  qed
qed

lemma bit_u32_one [simp]: "i < 32 \<Longrightarrow> (ucast (2 ^ i :: u32) :: u64) = 2 ^ i"
  by (rule bit_eqI) (auto simp: bit_ucast_iff)

text \<open>The messages of the loop: one for every other core from \<open>i\<close> on.\<close>

lemma broadcast_loop_spec:
  assumes "mailboxes s Q" "waiting (ncpus s) Q + card {p \<in> cores cpus - {self}. i \<le> p} \<le> num (msg_pool s)"
    and "cores cpus \<subseteq> {..<ncpus s}" "cores cpus \<subseteq> {..<32}"
    and "n + card {p \<in> cores cpus - {self}. i \<le> p} = cpu_num - 1" "0 < cpu_num" "cpu_num < 2 ^ 64"
    and "i \<le> 32"
  shows "\<exists>s'. broadcast_loop cpus self msg cpu_num i n s = Inr s'
    \<and> mailboxes s' (\<lambda>c. if c \<in> cores cpus - {self} \<and> i \<le> c then Q c @ [msg] else Q c)
    \<and> ncpus s' = ncpus s \<and> num (msg_pool s') = num (msg_pool s)"
  using assms
proof (induction "32 - i" arbitrary: i n s Q)
  case 0
  then have "i = 32" by simp
  with 0 have e: "{p \<in> cores cpus - {self}. i \<le> p} = {}" by auto
  then have "(\<lambda>c. if c \<in> cores cpus - {self} \<and> i \<le> c then Q c @ [msg] else Q c) = Q" by auto
  moreover have "n = cpu_num - 1" using "0.prems"(5) unfolding e by simp
  moreover have "(cpu_num + 2 ^ 64 - 1) mod 2 ^ 64 = cpu_num - 1" using "0.prems"(6,7) by (simp add: mod_if)
  ultimately show ?case using "0.prems"(1) by (subst broadcast_loop.simps) simp
next
  case (Suc d)
  let ?R = "{p \<in> cores cpus - {self}. i \<le> p}"
  let ?R' = "{p \<in> cores cpus - {self}. i + 1 \<le> p}"
  have i: "i < 32" using Suc.hyps(2) by simp
  have m: "(cpu_num + 2 ^ 64 - 1) mod 2 ^ 64 = cpu_num - 1" using Suc.prems(6,7) by (simp add: mod_if)
  have bit: "ucast (2 ^ i :: u32) AND cpus \<noteq> 0 \<longleftrightarrow> i \<in> cores cpus"
    using i by (simp add: and.commute [of _ cpus] cores_def)
  show ?case
  proof (cases "?R = {}")
    case True
    then have "(\<lambda>c. if c \<in> cores cpus - {self} \<and> i \<le> c then Q c @ [msg] else Q c) = Q" by auto
    moreover have "n = cpu_num - 1" using Suc.prems(5) unfolding True by simp
    ultimately show ?thesis using Suc.prems(1) m by (subst broadcast_loop.simps) simp
  next
    case ne: False
    have fin: "finite ?R" by simp
    then have "n < cpu_num - 1" using Suc.prems(5) ne card_gt_0_iff [of ?R] by linarith
    with m i have u: "broadcast_loop cpus self msg cpu_num i n s =
        (if i \<in> cores cpus \<and> i \<noteq> self then
           bindR (cpu_send_msg s i msg) (\<lambda>s. broadcast_loop cpus self msg cpu_num (i + 1) (n + 1) s)
         else broadcast_loop cpus self msg cpu_num (i + 1) n s)"
      using bit by (subst broadcast_loop.simps) simp
    show ?thesis
    proof (cases "i \<in> cores cpus \<and> i \<noteq> self")
      case True
      then have R: "?R = insert i ?R'" by auto
      have c: "card ?R = card ?R' + 1" unfolding R by (subst card_insert_disjoint) auto
      from True Suc.prems(3) have lt: "i < ncpus s" by auto
      have "waiting (ncpus s) Q < num (msg_pool s)" using Suc.prems(2) c by simp
      from send_ok [OF Suc.prems(1) this lt, of msg] obtain s1 where s1: "cpu_send_msg s i msg = Inr s1"
        "mailboxes s1 (Q(i := Q i @ [msg]))" "ncpus s1 = ncpus s" "num (msg_pool s1) = num (msg_pool s)" by blast
      have w: "waiting (ncpus s) (Q(i := Q i @ [msg])) = waiting (ncpus s) Q + 1"
        using lt by (simp add: waiting_def sum.remove [of "{..<ncpus s}" i])
      have d: "d = 32 - (i + 1)" using Suc.hyps(2) by simp
      have "waiting (ncpus s1) (Q(i := Q i @ [msg])) + card ?R' \<le> num (msg_pool s1)"
        "n + 1 + card ?R' = cpu_num - 1"
        using Suc.prems(2,5) w c s1(3,4) by simp_all
      from Suc.hyps(1) [OF d s1(2) this(1) _ Suc.prems(4) this(2) Suc.prems(6,7)] Suc.prems(3) s1(3,4) i
      obtain s' where s': "broadcast_loop cpus self msg cpu_num (i + 1) (n + 1) s1 = Inr s'"
        "mailboxes s' (\<lambda>c. if c \<in> cores cpus - {self} \<and> i + 1 \<le> c then (Q(i := Q i @ [msg])) c @ [msg]
          else (Q(i := Q i @ [msg])) c)" "ncpus s' = ncpus s" "num (msg_pool s') = num (msg_pool s)" by auto
      have "(\<lambda>c. if c \<in> cores cpus - {self} \<and> i + 1 \<le> c then (Q(i := Q i @ [msg])) c @ [msg]
          else (Q(i := Q i @ [msg])) c)
        = (\<lambda>c. if c \<in> cores cpus - {self} \<and> i \<le> c then Q c @ [msg] else Q c)"
        using True by (auto simp: fun_eq_iff)
      with s' s1(1) u True show ?thesis by auto
    next
      case False
      then have R: "?R = ?R'" by (auto simp: le_eq_less_or_eq Suc_le_eq)
      have d: "d = 32 - (i + 1)" using Suc.hyps(2) by simp
      from Suc.hyps(1) [OF d Suc.prems(1) Suc.prems(2) [unfolded R] Suc.prems(3,4) Suc.prems(5) [unfolded R]
          Suc.prems(6,7)] i
      obtain s' where s': "broadcast_loop cpus self msg cpu_num (i + 1) n s = Inr s'"
        "mailboxes s' (\<lambda>c. if c \<in> cores cpus - {self} \<and> i + 1 \<le> c then Q c @ [msg] else Q c)"
        "ncpus s' = ncpus s" "num (msg_pool s') = num (msg_pool s)" by auto
      have "(\<lambda>c. if c \<in> cores cpus - {self} \<and> i + 1 \<le> c then Q c @ [msg] else Q c)
        = (\<lambda>c. if c \<in> cores cpus - {self} \<and> i \<le> c then Q c @ [msg] else Q c)"
        using False by (auto simp: fun_eq_iff le_eq_less_or_eq Suc_le_eq)
      with s' u False show ?thesis by auto
    qed
  qed
qed

section \<open>Properties\<close>

definition demo_hvm :: "unit vm" where
  "demo_hvm = \<lparr>vm_id = 1, vm_master = 1, vm_cpu_num = 2, vm_cpus = 0b1010, vm_vcpus = [],
    emul_mem_list = [], emul_reg_list = [], vm_interrupt_bitmap = replicate 33 0, vm_ipcs = [],
    vm_crit = CRIT_LOW, vm_health_state = demo_health\<rparr>"

lemma demo_cores: "cores (vm_cpus demo_hvm) = {1, 3}"
proof -
  have "bit (0b1010 :: u64) p \<longleftrightarrow> p = 1 \<or> p = 3" for p
    by (auto simp: bit_numeral_rec bit_1_iff numeral_eq_Suc split: nat.splits)
  then show ?thesis by (auto simp: cores_def demo_hvm_def)
qed

text \<open>
  C30. Virtual core numbers are a bijection onto the VM's physical cores: the number a core
  computes for itself at boot is below the number of cores, is the one
  \<open>vm_translate_to_vcpuid\<close> gives for it, and \<open>vm_translate_to_pcpuid\<close> leads back from it to the
  core; a core outside the VM has no number.
\<close>

theorem vcpu_ids_roundtrip:
  assumes "p < 64"
  shows "if bit (vm_cpus v) p
    then \<exists>i < card (cores (vm_cpus v)). vm_calc_vcpu_id v p = Inr i
      \<and> vm_translate_to_vcpuid v p = Inr i \<and> vm_translate_to_pcpuid v i = Inr p
    else vm_translate_to_vcpuid v p = Inr INVALID_CPUID"
  using assms rank_less [of p "vm_cpus v"] to_pcpuid_rank [of p v]
  by (auto simp: to_vcpuid_eq calc_vcpu_id_eq cores_def)

theorem vcpu_ids_roundtrip_witness:
  "vm_translate_to_vcpuid demo_hvm 2 = Inr INVALID_CPUID
    \<and> (\<exists>i < 2. vm_calc_vcpu_id demo_hvm 3 = Inr i \<and> vm_translate_to_pcpuid demo_hvm i = Inr 3)"
proof -
  have "3 \<in> cores (vm_cpus demo_hvm)" "2 \<notin> cores (vm_cpus demo_hvm)" unfolding demo_cores by simp_all
  then have "bit (vm_cpus demo_hvm) 3" "\<not> bit (vm_cpus demo_hvm) 2" unfolding cores_def by simp_all
  with vcpu_ids_roundtrip [of 2 demo_hvm] vcpu_ids_roundtrip [of 3 demo_hvm]
  have "vm_translate_to_vcpuid demo_hvm 2 = Inr INVALID_CPUID"
    "\<exists>i < card (cores (vm_cpus demo_hvm)). vm_calc_vcpu_id demo_hvm 3 = Inr i
      \<and> vm_translate_to_pcpuid demo_hvm i = Inr 3"
    by (simp, auto)
  moreover have "card (cores (vm_cpus demo_hvm)) = 2" unfolding demo_cores by simp
  ultimately show ?thesis by simp
qed

lemma pcpu_mask_exact:
  assumes "len \<le> 64"
  shows "\<exists>r. vm_translate_to_pcpu_mask v m len = Inr r
    \<and> (\<forall>p. bit r p \<longleftrightarrow> p \<in> cores (vm_cpus v) \<and> rank (vm_cpus v) p < len \<and> bit m (rank (vm_cpus v) p))"
proof -
  let ?c = "cores (vm_cpus v)"
  define f where "f i = (case vm_translate_to_pcpuid v i of Inr p \<Rightarrow> p | Inl _ \<Rightarrow> 0)" for i
  have f: "vm_translate_to_pcpuid v i = Inr (f i)"
    "if i < card ?c then f i \<in> ?c \<and> rank (vm_cpus v) (f i) = i else f i = INVALID_CPUID" for i
    using to_pcpuid_cases [of v i] by (auto simp: f_def)
  have "f i = INVALID_CPUID \<or> f i < 64" for i using f(2) [of i] by (auto simp: cores_def split: if_splits)
  with translate_mask_spec [of len "vm_translate_to_pcpuid v" f m] assms f(1) obtain r where
    r: "vm_translate_to_pcpu_mask v m len = Inr r"
    "\<forall>p. bit r p \<longleftrightarrow> (\<exists>i < len. bit m i \<and> f i = p \<and> p < 64)" by (auto simp: vm_translate_to_pcpu_mask_def)
  have "(\<exists>i < len. bit m i \<and> f i = p \<and> p < 64) \<longleftrightarrow> p \<in> ?c \<and> rank (vm_cpus v) p < len \<and> bit m (rank (vm_cpus v) p)" for p
  proof
    assume "\<exists>i < len. bit m i \<and> f i = p \<and> p < 64"
    then obtain i where i: "i < len" "bit m i" "f i = p" "p < 64" by blast
    then have "i < card ?c" using f(2) [of i] by (auto simp: INVALID_CPUID_def split: if_splits)
    with f(2) [of i] i show "p \<in> ?c \<and> rank (vm_cpus v) p < len \<and> bit m (rank (vm_cpus v) p)" by auto
  next
    assume a: "p \<in> ?c \<and> rank (vm_cpus v) p < len \<and> bit m (rank (vm_cpus v) p)"
    with to_pcpuid_rank [of p v] f(1) have "f (rank (vm_cpus v) p) = p" by simp
    with a show "\<exists>i < len. bit m i \<and> f i = p \<and> p < 64" by (auto simp: cores_def)
  qed
  with r show ?thesis by auto
qed

text \<open>
  C29. A guest's core mask never reaches outside its VM: translating a mask of virtual cores
  returns, and the physical mask holds exactly the cores of the VM whose number is in the
  guest's mask.
\<close>

theorem vm_masks_confined:
  assumes "len \<le> 64"
  shows "\<exists>r. vm_translate_to_pcpu_mask v m len = Inr r
    \<and> (\<forall>p. bit r p \<longleftrightarrow> p \<in> cores (vm_cpus v) \<and> rank (vm_cpus v) p < len \<and> bit m (rank (vm_cpus v) p))"
  using assms by (rule pcpu_mask_exact)

theorem vm_masks_confined_witness:
  "\<exists>r. vm_translate_to_pcpu_mask demo_hvm 0xFFFE 64 = Inr r \<and> (\<forall>p. bit r p \<longrightarrow> p \<in> {1, 3})"
  using vm_masks_confined [of 64 demo_hvm "0xFFFE"] demo_cores by auto

text \<open>
  A broadcast reaches every other core of the VM once: if the VM's set of cores has as many
  members as its \<open>cpu_num\<close> (what the set-up establishes), all below 32, and the message pool has
  room, \<open>vm_msg_broadcast\<close> returns, has appended the message to the mailbox of each other core
  of the VM, and to no other mailbox.
\<close>

theorem vm_broadcast_reaches_others:
  assumes "mailboxes s Q" "waiting (ncpus s) Q + vm_cpu_num v \<le> num (msg_pool s)"
    and "cores (vm_cpus v) \<subseteq> {..<ncpus s}" "cores (vm_cpus v) \<subseteq> {..<32}"
    and "card (cores (vm_cpus v)) = vm_cpu_num v" "self \<in> cores (vm_cpus v)"
  shows "\<exists>s'. vm_msg_broadcast v self msg s = Inr s'
    \<and> mailboxes s' (\<lambda>c. if c \<in> cores (vm_cpus v) - {self} then Q c @ [msg] else Q c)"
proof -
  have c: "card (cores (vm_cpus v) - {self}) = vm_cpu_num v - 1" using assms(5,6) by simp
  have e: "{p \<in> cores (vm_cpus v) - {self}. 0 \<le> p} = cores (vm_cpus v) - {self}" by auto
  have "card (cores (vm_cpus v)) \<le> card {..<64 :: nat}" by (rule card_mono) (auto simp: cores_def)
  then have "vm_cpu_num v < 2 ^ 64" using assms(5) by simp
  moreover have "0 < vm_cpu_num v" using assms(5,6) by (metis card_gt_0_iff empty_iff finite_cores)
  moreover have "waiting (ncpus s) Q + (vm_cpu_num v - 1) \<le> num (msg_pool s)" using assms(2) by simp
  ultimately show ?thesis
    using broadcast_loop_spec [of s Q "vm_cpus v" self 0 0 "vm_cpu_num v" msg] assms(1,3,4) c
    unfolding e vm_msg_broadcast_def by auto
qed

theorem vm_broadcast_reaches_others_witness:
  "let m = \<lparr>handler = 1, event = 0, data = 7\<rparr> in \<exists>s'. vm_msg_broadcast demo_hvm 1 m boot_msgs = Inr s'
    \<and> mailboxes s' (\<lambda>c. if c = 3 then [m] else [])"
proof -
  let ?m = "\<lparr>handler = 1, event = 0, data = 7\<rparr>"
  have "waiting (ncpus boot_msgs) (\<lambda>_. []) + vm_cpu_num demo_hvm \<le> num (msg_pool boot_msgs)"
    "ncpus boot_msgs = 4" "vm_cpu_num demo_hvm = 2"
    by (simp_all add: waiting_def boot_msgs_def ncpus_def demo_hvm_def OBJPOOL_ALLOC_def CPU_MSG_POOL_SIZE_def)
  with vm_broadcast_reaches_others [OF boot_mailboxes, of demo_hvm 1 ?m] demo_cores
  have "\<exists>s'. vm_msg_broadcast demo_hvm 1 ?m boot_msgs = Inr s'
    \<and> mailboxes s' (\<lambda>c. if c \<in> {1, 3} - {1} then [] @ [?m] else [])" by simp
  moreover have "(\<lambda>c :: nat. if c \<in> {1, 3} - {1} then [] @ [?m] else []) = (\<lambda>c. if c = 3 then [?m] else [])"
    by auto
  ultimately show ?thesis unfolding Let_def by simp
qed

text \<open>
  A reset leaves nothing of the guest's earlier state: the registers, the entry point and
  the virtual supervisor's control registers after \<open>vcpu_arch_reset\<close> depend only on the vCPU's
  number and the entry address, and execution starts at that address with the number in \<open>a0\<close>.
\<close>

theorem vcpu_reset_forgets:
  assumes "vcpu_id v = vcpu_id u"
  shows "snd (vcpu_arch_reset v entry) = snd (vcpu_arch_reset u entry)
    \<and> vcpu_regs (fst (vcpu_arch_reset v entry)) = vcpu_regs (fst (vcpu_arch_reset u entry))
    \<and> vcpu_readpc (fst (vcpu_arch_reset v entry)) = entry
    \<and> (\<forall>r. vcpu_readreg (fst (vcpu_arch_reset v entry)) r = (if r = REG_A0 then of_nat (vcpu_id v) else 0))"
proof -
  have "(replicate 31 (0 :: u64))[9 := w, 10 := 0] ! (r - 1) = (if r = 10 then w else 0)"
    if "0 < r" "r \<le> 31" for r w
    using that by (cases "r = 10"; cases "r = 11") (auto simp: nth_list_update)
  with assms show ?thesis
    by (auto simp: vcpu_arch_reset_def Let_def vcpu_readpc_def vcpu_readreg_def REG_A0_def REG_A1_def)
qed

theorem vcpu_reset_forgets_witness:
  "vcpu_regs (fst (vcpu_arch_reset \<lparr>vcpu_id = 1, phys_id = 3, is_active = True,
      vcpu_regs = \<lparr>gprs = replicate 31 7, hstatus = 1, sstatus = 2, sepc = 3\<rparr>, arch_hart_id = 5,
      hsm_state = STOPPED, hsm_start_addr = 0, hsm_priv = 0\<rparr> 0x80200000))
    = vcpu_regs (fst (vcpu_arch_reset \<lparr>vcpu_id = 1, phys_id = 3, is_active = False,
      vcpu_regs = \<lparr>gprs = [], hstatus = 0, sstatus = 0, sepc = 0\<rparr>, arch_hart_id = 0,
      hsm_state = STARTED, hsm_start_addr = 0, hsm_priv = 0\<rparr> 0x80200000))"
  by (rule vcpu_reset_forgets [THEN conjunct2, THEN conjunct1]) simp

end
