(* ===== verification/Vm_Recovery.thy ===== *)
theory Vm_Recovery
  imports Cpu_Sync Vm_Config Vm_Core
begin

text \<open>
  The recovery of a failed VM, \<open>src/core/vm_recovery.c\<close>, with the image installation of
  \<open>src/core/vm.c\<close> it repeats. The cores of the VM run their recovery sequences interleaved,
  meeting at the VM's barrier: the ideal one of Cpu_Sync, which the code's refines until its
  64-bit counter wraps. Memory is physical and byte-addressed; the temporary mappings of
  the copy are seen here as the physical pages behind them, taken page by page as the code maps
  them (Vm_Init has the operation with its page tables).
\<close>

section \<open>Installing an image\<close>

type_synonym bytes = "u64 \<Rightarrow> u8"

text \<open>
  What the copy depends on: \<open>leaf_of va\<close> is the page or block of the VM's table that translates
  \<open>va\<close>, its physical address and size (\<open>None\<close>: unmapped); \<open>window_fits k\<close> says that the
  hypervisor's address space has room for both windows of \<open>k\<close> pages.
\<close>

record image_maps =
  leaf_of :: "vaddr \<Rightarrow> (paddr \<times> u64) option"
  window_fits :: "nat \<Rightarrow> bool"

text \<open>An entry holds the address of a page: mapping an address maps the page it lies in.\<close>

definition page_addr :: "u64 \<Rightarrow> u64" where
  "page_addr a = a AND NOT (PAGE_SIZE - 1)"

text \<open>
  The pages \<open>mem_map_cpy\<close> maps for \<open>k\<close> pages from \<open>vas\<close>: each round takes the size of the block it
  finds, from wherever in the block it starts (at most \<open>k\<close> rounds, a block has a page at least).
  Following an entry that maps nothing dereferences \<open>NULL\<close>.
\<close>

fun cpy_pages :: "image_maps \<Rightarrow> nat \<Rightarrow> nat \<Rightarrow> vaddr \<Rightarrow> paddr list res" where
  "cpy_pages mp rounds k vas =
    (if k = 0 then Inr []
     else case rounds of 0 \<Rightarrow> Inl Hang
     | Suc rounds \<Rightarrow>
       (case leaf_of mp vas of None \<Rightarrow> Inl Null_deref
        | Some (leaf, lvl_size) \<Rightarrow>
          let sz = (if of_nat k * PAGE_SIZE < lvl_size then of_nat k * PAGE_SIZE else lvl_size);
              npages = unat (NUM_PAGES sz);
              pa = leaf + (vas - ALIGN_FLOOR vas lvl_size) in
          bindR (cpy_pages mp rounds (k - npages) (vas + sz)) (\<lambda>ps.
          Inr (List.map (\<lambda>j. page_addr pa + of_nat j * PAGE_SIZE) [0..<npages] @ ps))))"

declare cpy_pages.simps [simp del]

text \<open>Byte \<open>i\<close> of a window over the pages \<open>ps\<close>, and \<open>memcpy\<close> in ascending order between two.\<close>

definition window_byte :: "paddr list \<Rightarrow> nat \<Rightarrow> paddr" where
  "window_byte ps i = ps ! (i div 4096) + of_nat (i mod 4096)"

definition copy_image :: "paddr list \<Rightarrow> paddr list \<Rightarrow> nat \<Rightarrow> bytes \<Rightarrow> bytes" where
  "copy_image dst src k m = fold (\<lambda>i m. m(window_byte dst i := m (window_byte src i))) [0..<k] m"

text \<open>
  Both windows start at a page boundary, so the copy starts at the beginning of the pages of the
  two addresses. When a window does not fit, its address is \<open>INVALID_VA\<close> and the copy faults.
\<close>

definition vm_install_image :: "image_maps \<Rightarrow> vm_image \<Rightarrow> vm_mem_region \<Rightarrow> bytes \<Rightarrow> bytes res" where
  "vm_install_image mp img reg m =
    (if rgn_place_phys reg \<and> base_addr img = load_addr img then Inr m
     else if rgn_place_phys reg \<and>
       range_overlap_range (base_addr img) (img_size img) (load_addr img) (img_size img) then Inl Panic
     else
       let k = unat (NUM_PAGES (img_size img));
           src = List.map (\<lambda>j. page_addr (load_addr img) + of_nat j * PAGE_SIZE) [0..<k] in
       if \<not> window_fits mp k then Inl Null_deref
       else bindR (cpy_pages mp k k (base_addr img)) (\<lambda>dst.
         Inr (copy_image dst src (unat (img_size img)) m)))"

fun vm_reinstall_image :: "image_maps \<Rightarrow> vm_image \<Rightarrow> vm_mem_region list \<Rightarrow> bytes \<Rightarrow> bytes res" where
  "vm_reinstall_image mp img [] m = Inr m"
| "vm_reinstall_image mp img (reg # regs) m =
    (if range_in_range (base_addr img) (img_size img) (rgn_base reg) (rgn_size reg)
     then vm_install_image mp img reg m
     else vm_reinstall_image mp img regs m)"

lemma fold_copy:
  assumes "inj_on dst {..<k}" "dst ` {..<k} \<inter> src ` {..<k} = {}"
  shows "(\<forall>i < k. fold (\<lambda>i m. m(dst i := m (src i))) [0..<k] m (dst i) = (m (src i) :: 'b))
    \<and> (\<forall>a. a \<notin> dst ` {..<k} \<longrightarrow> fold (\<lambda>i m. m(dst i := m (src i))) [0..<k] m a = m a)"
  using assms
proof (induction k)
  case (Suc k)
  have "inj_on dst {..<k}" "dst ` {..<k} \<inter> src ` {..<k} = {}"
    using Suc.prems by (simp_all add: lessThan_Suc)
  note ih0 = Suc.IH [OF this]
  define F where "F = fold (\<lambda>i m. m(dst i := m (src i))) [0..<k] m"
  note ih = ih0 [folded F_def]
  have "src k \<in> src ` {..<Suc k}" by simp
  with Suc.prems(2) have "src k \<notin> dst ` {..<Suc k}" by blast
  then have "src k \<notin> dst ` {..<k}" by (simp add: lessThan_Suc)
  with ih have k: "F (src k) = m (src k)" by blast
  have ne: "dst i \<noteq> dst k" if "i < k" for i using that Suc.prems(1) by (auto simp: inj_on_def)
  have S: "fold (\<lambda>i m. m(dst i := m (src i))) [0..<Suc k] m = F(dst k := m (src k))"
    using k by (simp add: F_def)
  have 1: "(F(dst k := m (src k))) (dst i) = m (src i)" if "i < Suc k" for i
    using that ih ne by (cases "i = k") auto
  have 2: "(F(dst k := m (src k))) a = m a" if "a \<notin> dst ` {..<Suc k}" for a
    using that ih by (auto simp: lessThan_Suc)
  show ?case unfolding S using 1 2 by blast
qed simp

section \<open>The recovery sequences\<close>

datatype rec_op = Barrier | Reinstall | Deactivate | Reset | HealthInit | Run

definition vm_recovery_execute :: "rec_op list" where
  "vm_recovery_execute = [Barrier, Reinstall, Barrier, Reset, HealthInit, Barrier, Run]"

definition vm_recovery_slave_execute :: "rec_op list" where
  "vm_recovery_slave_execute = [Deactivate, Barrier, Barrier, Reset, Barrier, Run]"

text \<open>
  The last lines of \<open>vm_recovery_start\<close> and the message handler: each core of the VM runs the
  sequence of its role.
\<close>

definition vm_recovery_role :: "cpuid \<Rightarrow> cpuid \<Rightarrow> rec_op list" where
  "vm_recovery_role master c = (if c = master then vm_recovery_execute else vm_recovery_slave_execute)"

record recovery_vm =
  memory :: bytes
  vcpu_active :: "cpuid \<Rightarrow> bool"
  rec_hsm :: "cpuid \<Rightarrow> sbi_hsm_state"
  rec_sepc :: "cpuid \<Rightarrow> u64"
  rec_health :: vm_health

text \<open>What the sequences read of the VM: its configuration and the time of the re-initialisation.\<close>

record recovery_env =
  env_master :: cpuid
  env_vcpu_id :: "cpuid \<Rightarrow> vcpuid"
  env_entry :: u64
  env_image :: vm_image
  env_regions :: "vm_mem_region list"
  env_tr :: image_maps
  env_health_cfg :: vm_health_config
  env_now :: u64

definition reset_hsm :: "recovery_env \<Rightarrow> cpuid \<Rightarrow> sbi_hsm_state" where
  "reset_hsm e c =
    (if c = env_master e then STARTED else if env_vcpu_id e c = 0 then STARTED else STOPPED)"

fun rec_effect :: "recovery_env \<Rightarrow> cpuid \<Rightarrow> rec_op \<Rightarrow> recovery_vm \<Rightarrow> recovery_vm res" where
  "rec_effect e c Barrier v = Inr v"
| "rec_effect e c Reinstall v =
    bindR (vm_reinstall_image (env_tr e) (env_image e) (env_regions e) (memory v)) (\<lambda>m.
    Inr (v\<lparr>memory := m\<rparr>))"
| "rec_effect e c Deactivate v = Inr (v\<lparr>vcpu_active := (vcpu_active v)(c := False)\<rparr>)"
| "rec_effect e c Reset v = Inr (v\<lparr>rec_sepc := (rec_sepc v)(c := env_entry e),
     rec_hsm := (rec_hsm v)(c := reset_hsm e c)\<rparr>)"
| "rec_effect e c HealthInit v =
    Inr (v\<lparr>rec_health := health_monitor_init (rec_health v) (Some (env_health_cfg e)) (env_now e)\<rparr>)"
| "rec_effect e c Run v = Inr (v\<lparr>vcpu_active := (vcpu_active v)(c := True)\<rparr>)"

section \<open>Interleaved execution\<close>

record rec_state =
  sync :: sync_state
  pc :: "cpuid \<Rightarrow> nat"
  vmst :: recovery_vm

abbreviation prog :: "recovery_env \<Rightarrow> cpuid \<Rightarrow> rec_op list" where
  "prog e c \<equiv> vm_recovery_role (env_master e) c"

definition at_op :: "recovery_env \<Rightarrow> rec_state \<Rightarrow> cpuid \<Rightarrow> rec_op \<Rightarrow> bool" where
  "at_op e s c x \<longleftrightarrow> pc s c < length (prog e c) \<and> prog e c ! pc s c = x"

inductive rec_step :: "recovery_env \<Rightarrow> cpuid set \<Rightarrow> rec_state \<Rightarrow> rec_state \<Rightarrow> bool" for e P where
  act: "c \<in> P \<Longrightarrow> waits (sync s) c = None \<Longrightarrow> at_op e s c x \<Longrightarrow> x \<noteq> Barrier \<Longrightarrow>
    rec_effect e c x (vmst s) = Inr v \<Longrightarrow>
    rec_step e P s (s\<lparr>pc := (pc s)(c := Suc (pc s c)), vmst := v\<rparr>)"
| arrive: "waits (sync s) c = None \<Longrightarrow> at_op e s c Barrier \<Longrightarrow> sync_step P (sync s) c y \<Longrightarrow>
    rec_step e P s (s\<lparr>sync := y\<rparr>)"
| depart: "waits (sync s) c \<noteq> None \<Longrightarrow> sync_step P (sync s) c y \<Longrightarrow>
    rec_step e P s (s\<lparr>sync := y, pc := (pc s)(c := Suc (pc s c))\<rparr>)"

inductive_cases rec_stepE: "rec_step e P s s'"

inductive rec_reach :: "recovery_env \<Rightarrow> cpuid set \<Rightarrow> rec_state \<Rightarrow> rec_state \<Rightarrow> bool" for e P s0 where
  start: "rec_reach e P s0 s0"
| more: "rec_reach e P s0 s \<Longrightarrow> rec_step e P s s' \<Longrightarrow> rec_reach e P s0 s'"

text \<open>The state in which the cores enter recovery: the barrier is between two rounds.\<close>

definition rec_start :: "cpuid set \<Rightarrow> nat \<Rightarrow> recovery_vm \<Rightarrow> rec_state" where
  "rec_start P r v = \<lparr>sync = \<lparr>token = \<lparr>parties = card P, opened = True, arrived = card P * r\<rparr>,
     waits = (\<lambda>_. None), passed = (\<lambda>_. r)\<rparr>, pc = (\<lambda>_. 0), vmst = v\<rparr>"

definition barriers :: "recovery_env \<Rightarrow> cpuid \<Rightarrow> nat \<Rightarrow> nat" where
  "barriers e c k = length (filter (\<lambda>x. x = Barrier) (take k (prog e c)))"

text \<open>What is true of the VM given how far the cores are: the master has index 0 to 7, others 0 to 6.\<close>

definition rec_data :: "recovery_env \<Rightarrow> cpuid set \<Rightarrow> recovery_vm \<Rightarrow> (cpuid \<Rightarrow> nat) \<Rightarrow> recovery_vm \<Rightarrow> bool" where
  "rec_data e P v0 k v \<longleftrightarrow>
    (\<forall>c \<in> P. c \<noteq> env_master e \<and> 1 \<le> k c \<and> k c < 6 \<longrightarrow> \<not> vcpu_active v c)
    \<and> (if k (env_master e) < 2 then memory v = memory v0
       else vm_reinstall_image (env_tr e) (env_image e) (env_regions e) (memory v0) = Inr (memory v))
    \<and> rec_health v = (if k (env_master e) < 5 then rec_health v0
         else health_monitor_init (rec_health v0) (Some (env_health_cfg e)) (env_now e))
    \<and> (\<forall>c \<in> P. 4 \<le> k c \<longrightarrow> rec_sepc v c = env_entry e
         \<and> rec_hsm v c = reset_hsm e c)"

definition rec_ctrl :: "recovery_env \<Rightarrow> cpuid set \<Rightarrow> nat \<Rightarrow> rec_state \<Rightarrow> bool" where
  "rec_ctrl e P r0 s \<longleftrightarrow> (\<exists>r. sync_inv P (sync s) r)
    \<and> (\<forall>c \<in> P. passed (sync s) c = r0 + barriers e c (pc s c) \<and> pc s c \<le> length (prog e c)
         \<and> (waits (sync s) c \<noteq> None \<longrightarrow> at_op e s c Barrier))"

definition rec_inv :: "recovery_env \<Rightarrow> cpuid set \<Rightarrow> nat \<Rightarrow> recovery_vm \<Rightarrow> rec_state \<Rightarrow> bool" where
  "rec_inv e P r0 v0 s \<longleftrightarrow> rec_ctrl e P r0 s \<and> rec_data e P v0 (pc s) (vmst s)"

lemma rec_data_barrier:
  assumes "rec_data e P v0 k v"
    and "if c = env_master e then k c \<in> {0, 2, 5} else k c \<in> {1, 2, 4}"
  shows "rec_data e P v0 (k(c := Suc (k c))) v"
  using assms by (cases "c = env_master e") (auto simp: rec_data_def)

lemma length_prog: "length (prog e c) = (if c = env_master e then 7 else 6)"
  by (simp add: vm_recovery_role_def vm_recovery_execute_def vm_recovery_slave_execute_def)

lemma prog_nth:
  "c = env_master e \<Longrightarrow> prog e c = [Barrier, Reinstall, Barrier, Reset, HealthInit, Barrier, Run]"
  "c \<noteq> env_master e \<Longrightarrow> prog e c = [Deactivate, Barrier, Barrier, Reset, Barrier, Run]"
  by (simp_all add: vm_recovery_role_def vm_recovery_execute_def vm_recovery_slave_execute_def)

lemma barriers_Suc:
  "k < length (prog e c) \<Longrightarrow> barriers e c (Suc k) = barriers e c k + (if prog e c ! k = Barrier then 1 else 0)"
  by (simp add: barriers_def take_Suc_conv_app_nth)

lemma at_op_master:
  assumes "at_op e s (env_master e) x"
  shows "(pc s (env_master e), x) \<in> {(0, Barrier), (1, Reinstall), (2, Barrier),
     (3, Reset), (4, HealthInit), (5, Barrier), (6, Run)}"
proof -
  have "pc s (env_master e) < 7" using assms by (simp add: at_op_def length_prog)
  then have "pc s (env_master e) \<in> {0, 1, 2, 3, 4, 5, 6}" by auto
  with assms show ?thesis by (elim insertE emptyE) (simp_all add: at_op_def prog_nth)
qed

lemma at_op_slave:
  assumes "at_op e s c x" "c \<noteq> env_master e"
  shows "(pc s c, x) \<in> {(0, Deactivate), (1, Barrier), (2, Barrier), (3, Reset), (4, Barrier), (5, Run)}"
proof -
  have "pc s c < 6" using assms by (simp add: at_op_def length_prog)
  then have "pc s c \<in> {0, 1, 2, 3, 4, 5}" by auto
  with assms show ?thesis by (elim insertE emptyE) (simp_all add: at_op_def prog_nth)
qed

lemma rec_inv_start:
  assumes "finite P" "P \<noteq> {}"
  shows "rec_inv e P r v (rec_start P r v)"
proof -
  have "sync_inv P (sync (rec_start P r v)) r"
    by (rule sync_inv_start [OF assms]) (simp_all add: rec_start_def)
  then show ?thesis by (auto simp: rec_inv_def rec_ctrl_def rec_data_def rec_start_def barriers_def)
qed

lemma sync_step_inv: "sync_step P s c s' \<Longrightarrow> sync_inv P s r \<Longrightarrow> \<exists>r'. sync_inv P s' r'"
  using sync_inv_steps [OF sync_steps.step [OF sync_steps.refl]] by blast

lemma sync_step_enter:
  assumes "sync_step P s c s'" "waits s c = None"
  shows "passed s' = passed s \<and> waits s' c \<noteq> None \<and> (\<forall>d. d \<noteq> c \<longrightarrow> waits s' d = waits s d)"
  using assms by (auto elim!: sync_stepE)

lemma sync_step_leave:
  assumes "sync_step P s c s'" "waits s c \<noteq> None"
  shows "c \<in> P \<and> passed s' = (passed s)(c := Suc (passed s c)) \<and> waits s' = (waits s)(c := None)"
  using assms by (auto elim!: sync_stepE)

lemma rec_data_act:
  assumes "rec_data e P v0 (pc s) (vmst s)" "at_op e s c x" "x \<noteq> Barrier"
    and "rec_effect e c x (vmst s) = Inr v"
  shows "rec_data e P v0 ((pc s)(c := Suc (pc s c))) v"
proof (cases "c = env_master e")
  case True
  with at_op_master [of e s x] assms(2,3) consider "pc s c = 1" "x = Reinstall" | "pc s c = 3" "x = Reset"
    | "pc s c = 4" "x = HealthInit" | "pc s c = 6" "x = Run" by auto
  then show ?thesis
    using assms(1,4) True unfolding rec_data_def by cases (clarsimp; force)+
next
  case False
  with at_op_slave [OF assms(2)] assms(3) consider "pc s c = 0" "x = Deactivate" | "pc s c = 3" "x = Reset"
    | "pc s c = 5" "x = Run" by auto
  then show ?thesis
    using assms(1,4) False unfolding rec_data_def by cases (clarsimp; force)+
qed

lemma rec_inv_act:
  assumes inv: "rec_inv e P r0 v0 s" and c: "c \<in> P" "waits (sync s) c = None" "at_op e s c x" "x \<noteq> Barrier"
    and eff: "rec_effect e c x (vmst s) = Inr v"
  shows "rec_inv e P r0 v0 (s\<lparr>pc := (pc s)(c := Suc (pc s c)), vmst := v\<rparr>)"
proof -
  have b: "barriers e c (Suc (pc s c)) = barriers e c (pc s c)" "Suc (pc s c) \<le> length (prog e c)"
    using c(3,4) by (simp_all add: at_op_def barriers_Suc)
  have "rec_ctrl e P r0 (s\<lparr>pc := (pc s)(c := Suc (pc s c)), vmst := v\<rparr>)"
    using inv c(2) b by (auto simp: rec_inv_def rec_ctrl_def at_op_def)
  with rec_data_act [OF _ c(3,4) eff] inv show ?thesis by (simp add: rec_inv_def)
qed

lemma rec_inv_arrive:
  assumes inv: "rec_inv e P r0 v0 s" and c: "waits (sync s) c = None" "at_op e s c Barrier"
    and st: "sync_step P (sync s) c y"
  shows "rec_inv e P r0 v0 (s\<lparr>sync := y\<rparr>)"
proof -
  from inv obtain r where "sync_inv P (sync s) r" by (auto simp: rec_inv_def rec_ctrl_def)
  from sync_step_inv [OF st this] obtain r' where r': "sync_inv P y r'" ..
  note en = sync_step_enter [OF st c(1)]
  have at: "at_op e (s\<lparr>sync := y\<rparr>) d x = at_op e s d x" for d x by (simp add: at_op_def)
  have w: "at_op e s d Barrier" if "d \<in> P" "waits y d \<noteq> None" for d
    using en c(2) inv that by (cases "d = c") (auto simp: rec_inv_def rec_ctrl_def)
  have "rec_ctrl e P r0 (s\<lparr>sync := y\<rparr>)"
    unfolding rec_ctrl_def at using r' w en inv by (auto simp: rec_inv_def rec_ctrl_def)
  with inv show ?thesis by (simp add: rec_inv_def)
qed

lemma rec_inv_depart:
  assumes inv: "rec_inv e P r0 v0 s" and c: "waits (sync s) c \<noteq> None"
    and st: "sync_step P (sync s) c y"
  shows "rec_inv e P r0 v0 (s\<lparr>sync := y, pc := (pc s)(c := Suc (pc s c))\<rparr>)"
proof -
  from inv obtain r where "sync_inv P (sync s) r" by (auto simp: rec_inv_def rec_ctrl_def)
  from sync_step_inv [OF st this] obtain r' where r': "sync_inv P y r'" ..
  note lv = sync_step_leave [OF st c]
  have at: "at_op e s c Barrier" using inv c lv by (auto simp: rec_inv_def rec_ctrl_def)
  then have b: "barriers e c (Suc (pc s c)) = Suc (barriers e c (pc s c))" "Suc (pc s c) \<le> length (prog e c)"
    by (simp_all add: at_op_def barriers_Suc)
  have "if c = env_master e then pc s c \<in> {0, 2, 5} else pc s c \<in> {1, 2, 4}"
    using at_op_master [of e s Barrier] at_op_slave [of e s c Barrier] at by auto
  then have "rec_data e P v0 ((pc s)(c := Suc (pc s c))) (vmst s)"
    using inv by (intro rec_data_barrier) (simp_all add: rec_inv_def)
  moreover have "rec_ctrl e P r0 (s\<lparr>sync := y, pc := (pc s)(c := Suc (pc s c))\<rparr>)"
    using r' lv b inv by (auto simp: rec_inv_def rec_ctrl_def at_op_def)
  ultimately show ?thesis by (simp add: rec_inv_def)
qed

lemma rec_inv_reach:
  assumes "rec_reach e P s0 s" "rec_inv e P r0 v0 s0"
  shows "rec_inv e P r0 v0 s"
  using assms
proof (induction rule: rec_reach.induct)
  case (more s s')
  then have inv: "rec_inv e P r0 v0 s" by blast
  from more.hyps(2) show ?case
    using rec_inv_act [OF inv] rec_inv_arrive [OF inv] rec_inv_depart [OF inv] by (elim rec_stepE) blast+
qed blast


section \<open>What the barriers enforce\<close>

lemma master_barriers:
  "barriers e (env_master e) k = (if k < 1 then 0 else if k < 3 then 1 else if k < 6 then 2 else 3)"
proof (cases "k < 7")
  case True
  then have "k \<in> {0, 1, 2, 3, 4, 5, 6}" by auto
  then show ?thesis by (elim insertE emptyE) (simp_all add: barriers_def prog_nth)
qed (simp add: barriers_def prog_nth)

lemma slave_barriers:
  assumes "c \<noteq> env_master e"
  shows "barriers e c k = (if k < 2 then 0 else if k < 3 then 1 else if k < 5 then 2 else 3)"
proof (cases "k < 6")
  case True
  then have "k \<in> {0, 1, 2, 3, 4, 5}" by auto
  then show ?thesis using assms by (elim insertE emptyE) (simp_all add: barriers_def prog_nth)
qed (use assms in \<open>simp add: barriers_def prog_nth\<close>)

lemma barrier_order:
  assumes "rec_inv e P r0 v0 s" "c \<in> P" "d \<in> P"
  shows "barriers e c (pc s c) \<le> barriers e d (pc s d) + (if waits (sync s) d = None then 0 else 1)"
proof -
  from assms(1) obtain r where r: "sync_inv P (sync s) r"
    and p: "\<And>c. c \<in> P \<Longrightarrow> passed (sync s) c = r0 + barriers e c (pc s c)"
    by (auto simp: rec_inv_def rec_ctrl_def)
  from sync_passed_arrived [OF r assms(2,3)] p [OF assms(2)] p [OF assms(3)] show ?thesis
    by (auto simp: arrivals_def split: if_splits)
qed

lemma reinstall_alone:
  assumes "rec_inv e P r0 v0 s" "env_master e \<in> P" "at_op e s (env_master e) Reinstall"
    and "c \<in> P" "c \<noteq> env_master e"
  shows "\<not> vcpu_active (vmst s) c"
proof -
  have m: "pc s (env_master e) = 1" using at_op_master [OF assms(3)] by auto
  have w: "waits (sync s) c \<noteq> None \<longrightarrow> pc s c \<in> {1, 2, 4}" "pc s c \<le> 6"
    using assms(1,4,5) at_op_slave [of e s c Barrier]
    by (auto simp: rec_inv_def rec_ctrl_def length_prog)
  have wm: "waits (sync s) (env_master e) = None"
    using assms(1,2,3) by (auto simp: rec_inv_def rec_ctrl_def at_op_def)
  have "barriers e c (pc s c) \<le> 1"
    using barrier_order [OF assms(1,4,2)] m wm by (simp add: master_barriers)
  then have lt: "pc s c < 3" by (simp add: slave_barriers [OF assms(5)] split: if_splits)
  have "1 \<le> pc s c"
  proof (cases "waits (sync s) c = None")
    case True
    then have "1 \<le> barriers e c (pc s c)"
      using barrier_order [OF assms(1,2,4)] m by (simp add: master_barriers)
    then show ?thesis by (simp add: slave_barriers [OF assms(5)] split: if_splits)
  qed (use w(1) in auto)
  with lt have "1 \<le> pc s c \<and> pc s c < 6" by simp
  with assms show ?thesis by (simp add: rec_inv_def rec_data_def)
qed

definition recovered :: "recovery_env \<Rightarrow> cpuid set \<Rightarrow> recovery_vm \<Rightarrow> recovery_vm \<Rightarrow> bool" where
  "recovered e P v0 v \<longleftrightarrow>
    vm_reinstall_image (env_tr e) (env_image e) (env_regions e) (memory v0) = Inr (memory v)
    \<and> rec_health v = health_monitor_init (rec_health v0) (Some (env_health_cfg e)) (env_now e)
    \<and> (\<forall>c \<in> P. rec_sepc v c = env_entry e
         \<and> rec_hsm v c = reset_hsm e c)"

lemma run_recovered:
  assumes "rec_inv e P r0 v0 s" "env_master e \<in> P" "c \<in> P"
    and "at_op e s c Run \<or> pc s c = length (prog e c)"
  shows "recovered e P v0 (vmst s)"
proof -
  have c3: "barriers e c (pc s c) = 3"
  proof (cases "c = env_master e")
    case True
    with assms(4) at_op_master [of e s Run] have "6 \<le> pc s c" by (auto simp: length_prog)
    with True show ?thesis by (simp add: master_barriers)
  next
    case False
    with assms(4) at_op_slave [of e s c Run] have "5 \<le> pc s c" by (auto simp: length_prog)
    with False show ?thesis by (simp add: slave_barriers)
  qed
  have far: "(if d = env_master e then 5 else 4) \<le> pc s d" if d: "d \<in> P" for d
  proof -
    have w: "waits (sync s) d \<noteq> None \<longrightarrow> at_op e s d Barrier"
      using assms(1) d by (auto simp: rec_inv_def rec_ctrl_def)
    note bo = barrier_order [OF assms(1,3) d, unfolded c3]
    show ?thesis
    proof (cases "d = env_master e")
      case True
      with bo w at_op_master [of e s Barrier] show ?thesis
        by (auto simp: master_barriers split: if_splits)
    next
      case False
      with bo w at_op_slave [of e s d Barrier] show ?thesis
        by (auto simp: slave_barriers split: if_splits)
    qed
  qed
  have "4 \<le> pc s d" if "d \<in> P" for d using far [OF that] by (auto split: if_splits)
  with far [OF assms(2)] assms(1) show ?thesis
    by (simp add: rec_inv_def rec_data_def recovered_def)
qed

lemma rec_progress:
  assumes inv: "rec_inv e P r0 v0 s" and m: "env_master e \<in> P"
    and img: "\<exists>m. vm_reinstall_image (env_tr e) (env_image e) (env_regions e) (memory v0) = Inr m"
    and c: "c \<in> P" "pc s c < length (prog e c)"
  shows "\<exists>s'. rec_step e P s s'"
proof -
  from inv obtain r where r: "sync_inv P (sync s) r" by (auto simp: rec_inv_def rec_ctrl_def)
  have rdy: "opened (token (sync s))" using sync_invD(4) [OF r] .
  have go: "\<exists>s'. rec_step e P s s'" if d: "d \<in> P" "waits (sync s) d = None" "pc s d < length (prog e d)" for d
  proof -
    define x where "x = prog e d ! pc s d"
    have at: "at_op e s d x" using d(3) by (simp add: at_op_def x_def)
    show ?thesis
    proof (cases "x = Barrier")
      case True
      from rdy obtain tok k where "ideal_arrive (token (sync s)) = Some (tok, k)"
        by (auto simp: ideal_arrive_def Let_def)
      from sync_step.enter [where P = P, OF d(1,2) this] rec_step.arrive [where e = e, OF d(2) at [unfolded True]]
      show ?thesis by blast
    next
      case False
      have "\<exists>v. rec_effect e d x (vmst s) = Inr v"
      proof (cases x)
        case Reinstall
        with at have "d = env_master e" using at_op_slave [of e s d x] by auto
        with at_op_master [of e s x] at Reinstall have "pc s (env_master e) = 1" by auto
        with inv img Reinstall show ?thesis by (auto simp: rec_inv_def rec_data_def)
      qed (use False in auto)
      with rec_step.act [where e = e, OF d(1,2) at False] show ?thesis by blast
    qed
  qed
  show ?thesis
  proof (cases "\<exists>d \<in> P. waits (sync s) d = None \<and> pc s d < length (prog e d)")
    case True
    with go show ?thesis by blast
  next
    case False
    show ?thesis
    proof (cases "\<exists>d \<in> P. waits (sync s) d = None")
      case False
      then have "\<forall>d \<in> P. waits (sync s) d \<noteq> None" by auto
      from sync_can_step [OF r this] obtain d k where d: "d \<in> P" "waits (sync s) d = Some k"
        "ideal_passed (token (sync s)) k" by blast
      from sync_step.leave [OF d] rec_step.depart [where e = e] d(2) show ?thesis by blast
    next
      case True
      then obtain d where d: "d \<in> P" "waits (sync s) d = None" by blast
      with False have fin: "pc s d = length (prog e d)"
        using inv by (fastforce simp: rec_inv_def rec_ctrl_def)
      then have d3: "barriers e d (pc s d) = 3"
        by (cases "d = env_master e") (simp_all add: master_barriers slave_barriers length_prog)
      from False c obtain k where k: "waits (sync s) c = Some k" by auto
      have pa: "passed (sync s) c' = r0 + barriers e c' (pc s c')" if "c' \<in> P" for c'
        using inv that by (simp add: rec_inv_def rec_ctrl_def)
      have at: "at_op e s c Barrier" using inv c(1) k by (auto simp: rec_inv_def rec_ctrl_def)
      have le3: "barriers e c' k' \<le> 3" for c' k'
        by (cases "c' = env_master e") (simp_all add: master_barriers slave_barriers)
      have "barriers e c (pc s c) \<le> 2"
        using at_op_master [of e s Barrier] at_op_slave [of e s c Barrier] at
        by (cases "c = env_master e") (auto simp: master_barriers slave_barriers)
      with pa [OF c(1)] k have "arrivals (sync s) c \<le> r0 + 3" by (simp add: arrivals_def)
      moreover have "r0 + 3 \<le> arrivals (sync s) c'" if "c' \<in> P" for c'
        using sync_passed_arrived [OF r d(1) that] pa [OF d(1)] d3 by simp
      ultimately have "ideal_passed (token (sync s)) k"
        using sync_pass_iff [OF r c(1) k] by (meson order_trans)
      from sync_step.leave [OF c(1) k this] rec_step.depart [where e = e] k show ?thesis by blast
    qed
  qed
qed

text \<open>
  Recovery starts two harts when the VM's master core does not run its vCPU 0: the master
  sequence marks its own vCPU \<open>STARTED\<close> whatever its identifier, the slave sequence marks
  vCPU 0 \<open>STARTED\<close>, where the boot (\<open>vcpu_arch_init\<close>) starts vCPU 0 alone.
\<close>

lemma recovery_starts_two_harts:
  assumes "finite P" "env_master e \<in> P" "rec_reach e P (rec_start P r v0) s"
    and "c \<in> P" "pc s c = length (prog e c)" "env_vcpu_id e c = 0" "c \<noteq> env_master e"
  shows "rec_hsm (vmst s) c = STARTED \<and> rec_hsm (vmst s) (env_master e) = STARTED"
proof -
  have "P \<noteq> {}" using assms(2) by auto
  from rec_inv_reach [OF assms(3) rec_inv_start [OF assms(1) this]] have inv: "rec_inv e P r v0 s" .
  from run_recovered [OF inv assms(2,4)] assms(2,4,5,6) show ?thesis
    by (auto simp: recovered_def reset_hsm_def)
qed

section \<open>Properties\<close>

text \<open>
  C5. Recovery is safe under every interleaving of the VM's cores: the master re-installs the
  image only while every other vCPU is stopped, and no vCPU resumes before the image is
  re-installed, every vCPU of the VM is reset to the entry point and the health record is
  re-initialised. The cores meet at the ideal barrier, which the code's refines until its counter wraps.
\<close>

theorem recovery_safe:
  assumes "finite P" "env_master e \<in> P" "rec_reach e P (rec_start P r v0) s"
  shows "(at_op e s (env_master e) Reinstall \<longrightarrow>
      (\<forall>c \<in> P. c \<noteq> env_master e \<longrightarrow> \<not> vcpu_active (vmst s) c))
    \<and> (\<forall>c \<in> P. at_op e s c Run \<or> pc s c = length (prog e c) \<longrightarrow> recovered e P v0 (vmst s))"
proof -
  have "P \<noteq> {}" using assms(2) by auto
  from rec_inv_reach [OF assms(3) rec_inv_start [OF assms(1) this]] have inv: "rec_inv e P r v0 s" .
  from reinstall_alone [OF inv assms(2)] run_recovered [OF inv assms(2)] show ?thesis by blast
qed

definition demo_maps :: image_maps where
  "demo_maps = \<lparr>leaf_of = (\<lambda>va. Some (page_addr va, PAGE_SIZE)), window_fits = (\<lambda>k. k < 1000)\<rparr>"

definition demo_env :: recovery_env where
  "demo_env = \<lparr>env_master = 1, env_vcpu_id = (\<lambda>c. c - 1), env_entry = 0x80200000,
    env_image = \<lparr>base_addr = 0x80200000, load_addr = 0x90000000, img_size = 2,
      separately_loaded = True, inplace = False\<rparr>,
    env_regions = [\<lparr>rgn_base = 0x80200000, rgn_size = 0x1000, rgn_colors = 0,
      rgn_place_phys = False, rgn_phys = 0\<rparr>],
    env_tr = demo_maps, env_health_cfg = demo_cfg, env_now = 7\<rparr>"

definition demo_vm :: recovery_vm where
  "demo_vm = \<lparr>memory = (\<lambda>_. 0), vcpu_active = (\<lambda>_. True), rec_hsm = (\<lambda>_. STARTED), rec_sepc = (\<lambda>_. 0),
    rec_health = demo_health\<rparr>"

lemma demo_reach_stopped:
  "rec_reach demo_env {1, 2} (rec_start {1, 2} 0 demo_vm)
    ((rec_start {1, 2} 0 demo_vm)\<lparr>pc := (\<lambda>_. 0)(2 := Suc 0),
       vmst := demo_vm\<lparr>vcpu_active := (\<lambda>_. True)(2 := False)\<rparr>\<rparr>)"
proof -
  have "rec_step demo_env {1, 2} (rec_start {1, 2} 0 demo_vm)
    ((rec_start {1, 2} 0 demo_vm)\<lparr>pc := (pc (rec_start {1, 2} 0 demo_vm))(2 := Suc (pc (rec_start {1, 2} 0 demo_vm) 2)),
       vmst := demo_vm\<lparr>vcpu_active := (\<lambda>_. True)(2 := False)\<rparr>\<rparr>)"
    by (rule rec_step.act [where x = Deactivate])
      (simp_all add: rec_start_def at_op_def vm_recovery_role_def vm_recovery_slave_execute_def
        demo_env_def demo_vm_def)
  from rec_reach.more [OF rec_reach.start this] show ?thesis by (simp add: rec_start_def)
qed

theorem recovery_safe_witness:
  "\<exists>s. rec_reach demo_env {1, 2} (rec_start {1, 2} 0 demo_vm) s \<and> pc s 2 = 1
    \<and> (\<forall>c \<in> {1, 2}. at_op demo_env s c Run \<longrightarrow> recovered demo_env {1, 2} demo_vm (vmst s))"
proof -
  have "finite {1, 2 :: cpuid}" "env_master demo_env \<in> {1, 2}" by (simp_all add: demo_env_def)
  from recovery_safe [OF this demo_reach_stopped] demo_reach_stopped show ?thesis by fastforce
qed

text \<open>
  C6. Recovery does not get stuck: as long as the image can be re-installed and some core has
  not finished its sequence, some core can take a step (at the ideal barrier of Cpu_Sync, which the
  code's refines until its 64-bit counter wraps).
\<close>

theorem recovery_progress:
  assumes "finite P" "env_master e \<in> P" "rec_reach e P (rec_start P r v0) s"
    and "vm_reinstall_image (env_tr e) (env_image e) (env_regions e) (memory v0) = Inr m"
    and "c \<in> P" "pc s c < length (prog e c)"
  shows "\<exists>s'. rec_step e P s s'"
proof -
  have "P \<noteq> {}" using assms(2) by auto
  from rec_inv_reach [OF assms(3) rec_inv_start [OF assms(1) this]] have inv: "rec_inv e P r v0 s" .
  from rec_progress [OF inv assms(2) _ assms(5,6)] assms(4) show ?thesis by blast
qed

theorem recovery_progress_witness:
  "\<exists>s s'. rec_reach demo_env {1, 2} (rec_start {1, 2} 0 demo_vm) s \<and> rec_step demo_env {1, 2} s s'"
proof -
  have 1: "finite {1, 2 :: cpuid}" "env_master demo_env \<in> {1, 2}" by (simp_all add: demo_env_def)
  have "unat (NUM_PAGES 2) = 1" by (simp add: NUM_PAGES_def ALIGN_def PAGE_SIZE_def)
  then obtain m where 2: "vm_reinstall_image (env_tr demo_env) (env_image demo_env) (env_regions demo_env) (memory demo_vm)
      = Inr m"
    by (simp add: demo_env_def demo_maps_def range_in_range_def vm_install_image_def cpy_pages.simps Let_def
        ALIGN_FLOOR_def page_addr_def PAGE_SIZE_def NUM_PAGES_def ALIGN_def)
  have "1 \<in> {1, 2 :: cpuid}"
    "pc ((rec_start {1, 2} 0 demo_vm)\<lparr>pc := (\<lambda>_. 0)(2 := Suc 0),
       vmst := demo_vm\<lparr>vcpu_active := (\<lambda>_. True)(2 := False)\<rparr>\<rparr>) 1 < length (prog demo_env 1)"
    by (simp_all add: length_prog)
  from recovery_progress [OF 1 demo_reach_stopped 2 this] demo_reach_stopped show ?thesis by blast
qed


section \<open>The windows\<close>

lemma unat_page_addr: "unat (page_addr a) = unat a div 4096 * 4096"
proof -
  have "a AND NOT (mask 12) = push_bit 12 (drop_bit 12 a)" by (rule bit_eqI) (auto simp: bit_simps)
  then have "page_addr a = push_bit 12 (drop_bit 12 a)"
    by (simp add: page_addr_def PAGE_SIZE_def mask_eq_exp_minus_1)
  then have "unat (page_addr a) = (unat a div 4096 * 4096) mod 2 ^ 64"
    by (simp add: push_bit_eq_mult drop_bit_eq_div unat_word_ariths unat_div mod_simps)
  moreover have "unat a div 4096 * 4096 < 2 ^ 64"
  proof -
    have "unat a < 2 ^ 64" by simp
    then show ?thesis using div_times_less_eq_dividend [of "unat a" 4096] by linarith
  qed
  ultimately show ?thesis by simp
qed

lemma page_addr_page: "unat a mod 4096 = 0 \<Longrightarrow> page_addr a = a"
  using unat_page_addr [of a] by (simp add: minus_mod_eq_div_mult [symmetric] unsigned_word_eqI)

text \<open>A byte of a page determines the page.\<close>

lemma page_byte:
  assumes "unat (p :: u64) mod 4096 = 0" "unat q mod 4096 = 0" "i < 4096" "j < 4096"
    and "p + of_nat i = q + of_nat j"
  shows "p = q \<and> i = j"
proof -
  have u: "unat (a + of_nat k) = unat a + k" if "unat a mod 4096 = 0" "k < 4096" for a :: u64 and k
  proof -
    from that(1) obtain m where m: "unat a = 4096 * m" by (metis mod_0_imp_dvd dvdE)
    have "unat a < 2 ^ 64" by simp
    then have "m < 2 ^ 52" using m by simp
    then have "unat a + k < 2 ^ 64" using m that(2) by simp
    then show ?thesis by (simp add: unat_word_ariths unat_of_nat)
  qed
  from assms(5) have "unat p + i = unat q + j" using u [OF assms(1,3)] u [OF assms(2,4)] by metis
  moreover from this have "i = j" using assms(1-4) by (metis add_0 mod_add_left_eq mod_less)
  ultimately show ?thesis by (simp add: unsigned_word_eqI)
qed

lemma NUM_PAGES_page:
  assumes "p * 4096 < 2 ^ 64"
  shows "unat (NUM_PAGES (of_nat p * PAGE_SIZE)) = p"
proof -
  have u: "unat (of_nat p * PAGE_SIZE) = p * 4096"
    using assms by (simp add: PAGE_SIZE_def unat_word_ariths unat_of_nat mod_simps)
  have "p * 4096 + 4095 < 2 ^ 64" using assms by simp
  then show ?thesis using u by (simp add: unat_NUM_PAGES)
qed

text \<open>
  The image in the VM's table: its pages translate to \<open>dst\<close>, and what follows a page in memory,
  for the size of the block that maps it, are the next pages of the image. This holds of every
  image mapped by single pages and of every image whose pages are consecutive.
\<close>

definition image_at :: "image_maps \<Rightarrow> vaddr \<Rightarrow> nat \<Rightarrow> (nat \<Rightarrow> paddr) \<Rightarrow> bool" where
  "image_at mp base k dst \<longleftrightarrow> (\<forall>j < k. \<exists>pa sz.
     let va = base + of_nat j * PAGE_SIZE in leaf_of mp va = Some (pa, sz)
     \<and> dst j = pa + (va - ALIGN_FLOOR va sz) \<and> unat (dst j) mod 4096 = 0
     \<and> 0 < unat sz \<and> unat sz mod 4096 = 0
     \<and> (\<forall>i. i < unat sz div 4096 \<and> j + i < k \<longrightarrow> dst (j + i) = dst j + of_nat i * PAGE_SIZE))"

lemma cpy_pages_image:
  assumes "image_at mp base (a + k) dst" "k \<le> r" "(a + k) * 4096 < 2 ^ 64"
  shows "cpy_pages mp r k (base + of_nat a * PAGE_SIZE) = Inr (List.map dst [a..<a + k])"
  using assms
proof (induction r arbitrary: a k)
  case 0
  then show ?case by (simp add: cpy_pages.simps)
next
  case (Suc r)
  let ?va = "base + of_nat a * PAGE_SIZE"
  show ?case
  proof (cases "k = 0")
    case True
    then show ?thesis by (simp add: cpy_pages.simps)
  next
    case False
    with Suc.prems(1) obtain pa sz where lf: "leaf_of mp ?va = Some (pa, sz)"
      and dst: "dst a = pa + (?va - ALIGN_FLOOR ?va sz)" and al: "unat (dst a) mod 4096 = 0"
      and sz: "0 < unat sz" "unat sz mod 4096 = 0"
      and run: "\<And>i. i < unat sz div 4096 \<Longrightarrow> i < k \<Longrightarrow> dst (a + i) = dst a + of_nat i * PAGE_SIZE"
      by (auto simp: image_at_def Let_def dest: spec [of _ a])
    define p where "p = min k (unat sz div 4096)"
    have sz4: "unat sz = unat sz div 4096 * 4096" using sz(2) by auto
    have p: "0 < p" "p \<le> k" "p * 4096 < 2 ^ 64"
      using False sz sz4 Suc.prems(3) by (auto simp: p_def min_def) 
    have uk: "unat (of_nat k * PAGE_SIZE) = k * 4096"
      using Suc.prems(3) by (simp add: PAGE_SIZE_def unat_word_ariths unat_of_nat mod_simps)
    have lt: "of_nat k * PAGE_SIZE < sz \<longleftrightarrow> k < unat sz div 4096"
      using sz4 by (subst word_less_nat_alt) (simp only: uk, linarith)
    have szp: "(if of_nat k * PAGE_SIZE < sz then of_nat k * PAGE_SIZE else sz) = of_nat p * PAGE_SIZE"
    proof (cases "k < unat sz div 4096")
      case True
      with lt show ?thesis by (simp add: p_def)
    next
      case False
      have "sz = of_nat (unat sz div 4096) * PAGE_SIZE"
        unfolding PAGE_SIZE_def using sz4 by (metis of_nat_mult of_nat_numeral of_nat_unat ucast_id)
      with False lt show ?thesis by (simp add: p_def)
    qed
    have ih: "cpy_pages mp r (k - p) (base + of_nat (a + p) * PAGE_SIZE) = Inr (List.map dst [a + p..<a + p + (k - p)])"
      using Suc.IH [of "a + p" "k - p"] Suc.prems p by simp
    have "List.map dst [a..<a + k] = List.map (\<lambda>j. page_addr (dst a) + of_nat j * PAGE_SIZE) [0..<p] @ List.map dst [a + p..<a + k]"
    proof -
      have "List.map dst [a..<a + p] = List.map (\<lambda>j. dst (a + j)) [0..<p]"
        by (rule nth_equalityI) auto
      also have "\<dots> = List.map (\<lambda>j. page_addr (dst a) + of_nat j * PAGE_SIZE) [0..<p]"
        using run by (auto simp: p_def page_addr_page [OF al])
      finally show ?thesis using p(2) by (metis le_add1 le_add_diff_inverse map_append nat_add_left_cancel_le upt_add_eq_append add.assoc)
    qed
    moreover have next': "?va + of_nat p * PAGE_SIZE = base + of_nat (a + p) * PAGE_SIZE" by (simp add: algebra_simps)
    ultimately show ?thesis using False lf ih p NUM_PAGES_page [OF p(3)]
      by (subst cpy_pages.simps) (simp add: Let_def szp dst [symmetric] next' del: of_nat_add)
  qed
qed

lemma reinstall_first:
  assumes "\<forall>r \<in> set pre. \<not> range_in_range (base_addr img) (img_size img) (rgn_base r) (rgn_size r)"
    and "range_in_range (base_addr img) (img_size img) (rgn_base reg) (rgn_size reg)"
  shows "vm_reinstall_image mp img (pre @ reg # post) m = vm_install_image mp img reg m"
  using assms by (induction pre) auto

text \<open>The bytes of distinct pages are distinct.\<close>

lemma window_byte_inj:
  assumes "length ps = k" "distinct ps" "\<forall>p \<in> set ps. unat p mod 4096 = 0" "sz \<le> k * 4096"
  shows "inj_on (window_byte ps) {..<sz}"
proof (rule inj_onI)
  fix i j assume ij: "i \<in> {..<sz}" "j \<in> {..<sz}" and eq: "window_byte ps i = window_byte ps j"
  then have lt: "i div 4096 < k" "j div 4096 < k" using assms(4) by (auto simp: less_mult_imp_div_less)
  then have "ps ! (i div 4096) = ps ! (j div 4096) \<and> i mod 4096 = j mod 4096"
    using eq assms(1,3) by (intro page_byte) (simp_all add: window_byte_def)
  moreover from this have "i div 4096 = j div 4096" using lt assms(1,2) nth_eq_iff_index_eq by blast
  ultimately show "i = j" by (metis div_mult_mod_eq)
qed

lemma window_byte_apart:
  assumes "length ps = k" "length qs = k" "\<forall>p \<in> set ps. unat p mod 4096 = 0" "\<forall>p \<in> set qs. unat p mod 4096 = 0"
    and "set ps \<inter> set qs = {}" "sz \<le> k * 4096"
  shows "window_byte ps ` {..<sz} \<inter> window_byte qs ` {..<sz} = {}"
proof -
  have False if ij: "i < sz" "j < sz" and eq: "window_byte ps i = window_byte qs j" for i j
  proof -
    have lt: "i div 4096 < k" "j div 4096 < k" using ij assms(6) by (auto simp: less_mult_imp_div_less)
    then have "ps ! (i div 4096) = qs ! (j div 4096)"
      using eq assms(1-4) page_byte [of "ps ! (i div 4096)" "qs ! (j div 4096)" "i mod 4096" "j mod 4096"]
      by (simp add: window_byte_def)
    moreover have "ps ! (i div 4096) \<in> set ps" "qs ! (j div 4096) \<in> set qs" using lt assms(1,2) by simp_all
    ultimately show False using assms(5) by auto
  qed
  then show ?thesis by blast
qed

definition image_pages :: "vm_image \<Rightarrow> nat" where
  "image_pages img = unat (NUM_PAGES (img_size img))"



end
