(* ===== verification/Page_Pools.thy ===== *)
theory Page_Pools
  imports Bitmaps Vm_Config
begin

text \<open>
  The physical page allocator: the pools of \<open>src/core/mem.c\<close> and the coloured allocation,
  release and reservation of \<open>src/core/mmu/mem.c\<close>. Page indices are \<open>nat\<close>, addresses and the
  pool's counter \<open>free\<close> keep their 64 bits. Each operation holds the pool's lock. The number of
  page colours \<open>COLOR_NUM\<close> and their size \<open>COLOR_SIZE\<close>, computed at boot from the caches, are
  the arguments \<open>cn\<close> and \<open>cs\<close>.
\<close>

section \<open>Pools and page sets\<close>

record ppages =
  pp_base :: paddr
  num_pages :: nat
  pp_colors :: colormap

record page_pool =
  pool_base :: paddr
  pool_size :: nat
  free :: u64
  last_index :: nat
  pool_bitmap :: bitmap

definition mem_ppages_get :: "paddr \<Rightarrow> nat \<Rightarrow> ppages" where
  "mem_ppages_get base n = \<lparr>pp_base = base, num_pages = n, pp_colors = 0\<rparr>"

definition all_clrs :: "nat \<Rightarrow> colormap \<Rightarrow> bool" where
  "all_clrs cn clrs =
    (let m = push_bit cn 1 - 1; masked_colors = clrs AND m in masked_colors = 0 \<or> masked_colors = m)"

section \<open>Allocation\<close>

lemma find_consec_loop_ge: "find_consec_loop bm sz n i = Inr r \<Longrightarrow> i \<le> r"
proof (induction bm sz n i rule: find_consec_loop.induct)
  case (1 bm sz n i)
  show ?case
  proof (cases "i < sz")
    case True
    with 1(2) obtain count where c: "bitmap_count_consecutive bm sz i n = Inr count"
      by (subst (asm) find_consec_loop.simps) auto
    show ?thesis
    proof (cases "count < n")
      case False
      with 1(2) True c show ?thesis by (subst (asm) find_consec_loop.simps) simp
    next
      case less: True
      with 1(2) True c obtain rest where rest: "bitmap_count_consecutive bm sz (i + count) SIZE_MAX = Inr rest"
        "find_consec_loop bm sz n (i + count + rest) = Inr r"
        by (subst (asm) find_consec_loop.simps) auto
      from 1(1) [OF True c less rest] show ?thesis by simp
    qed
  next
    case False
    with 1(2) show ?thesis by (subst (asm) find_consec_loop.simps) simp
  qed
qed

lemma find_consec_range:
  assumes "bitmap_find_consec bm sz start n st = Inr r" "0 \<le> r"
  shows "start \<le> nat r \<and> nat r < sz"
proof -
  from assms obtain i where i: "bitmap_find_nth bm sz 1 start st = Inr i" "0 \<le> i"
    by (auto simp: bitmap_find_consec_def split: if_splits)
  with assms obtain q where q: "find_consec_loop bm sz n (nat i) = Inr q" "q < sz" "r = int q"
    by (auto simp: bitmap_find_consec_def split: if_splits)
  from find_nth_sound [OF i(1)] i(2) have "start \<le> nat i" by fastforce
  with find_consec_loop_ge [OF q(1)] q show ?thesis by simp
qed

text \<open>
  One search of \<open>pp_alloc\<close> from \<open>cur\<close>: \<open>Some b\<close> when the pages are found, \<open>None\<close> when
  \<open>bitmap_find_consec\<close> fails (or the pool counts no free page).
\<close>

function pp_search :: "page_pool \<Rightarrow> nat \<Rightarrow> bool \<Rightarrow> nat \<Rightarrow> nat \<Rightarrow> nat option res" where
  "pp_search pool n aligned start cur =
    (if free pool \<noteq> 0 then
       bindR (bitmap_find_consec (pool_bitmap pool) (pool_size pool) cur n False) (\<lambda>b.
       if b < 0 then Inr None
       else if aligned \<and> (nat b + start) mod n \<noteq> 0
       then pp_search pool n aligned start (nat b + (nat b + start) mod n)
       else Inr (Some (nat b)))
     else Inr None)"
  by pat_completeness auto
termination
proof (relation "measure (\<lambda>(pool, n, aligned, start, cur). pool_size pool - cur)", goal_cases)
  case (2 pool n aligned start cur b)
  from 2(2,3) find_consec_range have "cur \<le> nat b \<and> nat b < pool_size pool" by simp
  with 2(4) show ?case by auto
qed simp

declare pp_search.simps [simp del]

text \<open>
  \<open>pp_alloc\<close> fills in \<open>ppages\<close>: on failure its base is left as it was. The two rounds of the
  outer loop search from the last allocation and, when that fails, from the first (aligned)
  index.
\<close>

definition pp_take :: "page_pool \<Rightarrow> nat \<Rightarrow> nat \<Rightarrow> page_pool res" where
  "pp_take pool b n =
    bindR (bitmap_set_consecutive (pool_bitmap pool) b n) (\<lambda>bm.
    Inr (pool\<lparr>pool_bitmap := bm, free := free pool - of_nat n, last_index := b + n\<rparr>))"

definition pp_alloc :: "page_pool \<Rightarrow> nat \<Rightarrow> bool \<Rightarrow> ppages \<Rightarrow> (bool \<times> page_pool \<times> ppages) res" where
  "pp_alloc pool n aligned pages =
    (let pages = pages\<lparr>pp_colors := 0, num_pages := 0\<rparr> in
     if n = 0 then Inr (True, pool, pages)
     else
       let base_page = unat (pool_base pool) div 4096;
           start = (if aligned then base_page mod n else 0);
           cur = last_index pool + ((last_index pool + start) mod n);
           next_aligned = (n - (base_page mod n)) mod n;
           found = (\<lambda>b. bindR (pp_take pool b n) (\<lambda>pool'.
             Inr (True, pool', pages\<lparr>pp_base := pool_base pool + of_nat b * PAGE_SIZE, num_pages := n\<rparr>)))
       in bindR (pp_search pool n aligned start cur) (\<lambda>first.
          case first of Some b \<Rightarrow> found b
          | None \<Rightarrow>
              bindR (pp_search pool n aligned start (if aligned then next_aligned else 0)) (\<lambda>second.
              case second of Some b \<Rightarrow> found b | None \<Rightarrow> Inr (False, pool, pages))))"

section \<open>Coloured pages\<close>

text \<open>The condition of the search loop of \<open>pp_next_clr\<close>: the page's colour is in the set.\<close>

definition has_clr :: "nat \<Rightarrow> nat \<Rightarrow> nat \<Rightarrow> colormap \<Rightarrow> nat \<Rightarrow> bool" where
  "has_clr cn cs clr_offset colors index \<longleftrightarrow> bit colors ((index + clr_offset) div cs mod cn)"

text \<open>\<open>None\<close>: the search for the next page of the colours does not return.\<close>

partial_function (option) pp_next_clr_from ::
  "nat \<Rightarrow> nat \<Rightarrow> nat \<Rightarrow> colormap \<Rightarrow> nat \<Rightarrow> nat option" where
  [code]: "pp_next_clr_from cn cs clr_offset colors index =
    (if \<not> has_clr cn cs clr_offset colors index
     then pp_next_clr_from cn cs clr_offset colors (index + 1)
     else Some index)"

definition pp_next_clr :: "nat \<Rightarrow> nat \<Rightarrow> paddr \<Rightarrow> nat \<Rightarrow> colormap \<Rightarrow> nat res" where
  "pp_next_clr cn cs base from colors =
    (case pp_next_clr_from cn cs ((unat base div 4096) mod (cn * cs)) colors from of
       None \<Rightarrow> Inl Hang | Some i \<Rightarrow> Inr i)"

lemma pp_next_clr_from_ge:
  assumes "pp_next_clr_from cn cs off colors index = Some i"
  shows "index \<le> i \<and> has_clr cn cs off colors i
    \<and> (\<forall>j. index \<le> j \<longrightarrow> j < i \<longrightarrow> \<not> has_clr cn cs off colors j)"
proof (rule pp_next_clr_from.raw_induct [where P = "\<lambda>cn cs off colors index i. index \<le> i
    \<and> has_clr cn cs off colors i
    \<and> (\<forall>j. index \<le> j \<longrightarrow> j < i \<longrightarrow> \<not> has_clr cn cs off colors j)", OF _ assms])
  fix rec cn cs off colors index i
  assume IH: "\<And>cn cs off colors index i. rec cn cs off colors index = Some i \<Longrightarrow>
      index \<le> i \<and> has_clr cn cs off colors i
      \<and> (\<forall>j. index \<le> j \<longrightarrow> j < i \<longrightarrow> \<not> has_clr cn cs off colors j)"
    and eq: "(if \<not> has_clr cn cs off colors index then rec cn cs off colors (index + 1) else Some index) = Some i"
  show "index \<le> i \<and> has_clr cn cs off colors i
      \<and> (\<forall>j. index \<le> j \<longrightarrow> j < i \<longrightarrow> \<not> has_clr cn cs off colors j)"
  proof (cases "has_clr cn cs off colors index")
    case True
    with eq show ?thesis by simp
  next
    case False
    with eq have e: "rec cn cs off colors (index + 1) = Some i" by simp
    note ih = IH [OF e]
    have "\<not> has_clr cn cs off colors j" if "index \<le> j" "j < i" for j
      using ih False that by (cases "j = index") auto
    with ih show ?thesis by simp
  qed
qed

lemma pp_next_clr_ge: "pp_next_clr cn cs base from colors = Inr i \<Longrightarrow> from \<le> i"
  by (simp add: pp_next_clr_def split: option.splits) (drule pp_next_clr_from_ge, blast)

text \<open>
  \<open>clr_skip\<close> and \<open>clr_count\<close> are the two inner loops of \<open>pp_alloc_clr\<close>, \<open>clr_search\<close> the
  loop around them; its result is \<open>allocated\<close>, \<open>first_index\<close> and \<open>index\<close>.
\<close>

function clr_skip :: "nat \<Rightarrow> nat \<Rightarrow> page_pool \<Rightarrow> colormap \<Rightarrow> nat \<Rightarrow> nat \<Rightarrow> nat res" where
  "clr_skip cn cs pool colors topi index =
    (if index < topi then
       bindR (bitmap_get (pool_bitmap pool) index) (\<lambda>used.
       if used then bindR (pp_next_clr cn cs (pool_base pool) (index + 1) colors)
         (\<lambda>index. clr_skip cn cs pool colors topi index)
       else Inr index)
     else Inr index)"
  by pat_completeness auto
termination
proof (relation "measure (\<lambda>(cn, cs, pool, colors, topi, index). topi - index)", goal_cases)
  case (2 cn cs pool colors topi index used i)
  from pp_next_clr_ge [OF 2(4)] 2(1) show ?case by simp
qed simp

function clr_count :: "nat \<Rightarrow> nat \<Rightarrow> page_pool \<Rightarrow> colormap \<Rightarrow> nat \<Rightarrow> nat \<Rightarrow> nat \<Rightarrow> nat \<Rightarrow> (nat \<times> nat) res" where
  "clr_count cn cs pool colors n topi index allocated =
    (if index < topi then
       bindR (bitmap_get (pool_bitmap pool) index) (\<lambda>used.
       if \<not> used \<and> allocated < n then
         bindR (pp_next_clr cn cs (pool_base pool) (index + 1) colors)
           (\<lambda>index. clr_count cn cs pool colors n topi index (allocated + 1))
       else Inr (allocated, index))
     else Inr (allocated, index))"
  by pat_completeness auto
termination
proof (relation "measure (\<lambda>(cn, cs, pool, colors, n, topi, index, allocated). topi - index)", goal_cases)
  case (2 cn cs pool colors n topi index allocated used i)
  from pp_next_clr_ge [OF 2(4)] 2(1) show ?case by simp
qed simp

declare clr_skip.simps [simp del] clr_count.simps [simp del]

lemma clr_skip_ge: "clr_skip cn cs pool colors topi index = Inr i \<Longrightarrow> index \<le> i"
proof (induction cn cs pool colors topi index rule: clr_skip.induct)
  case (1 cn cs pool colors topi index)
  show ?case
  proof (cases "index < topi")
    case True
    with 1(2) obtain used where u: "bitmap_get (pool_bitmap pool) index = Inr used"
      by (subst (asm) clr_skip.simps) auto
    show ?thesis
    proof (cases used)
      case False
      with 1(2) True u show ?thesis by (subst (asm) clr_skip.simps) simp
    next
      case used: True
      with 1(2) True u obtain k where k: "pp_next_clr cn cs (pool_base pool) (index + 1) colors = Inr k"
        "clr_skip cn cs pool colors topi k = Inr i"
        by (subst (asm) clr_skip.simps) auto
      from 1(1) [OF True u used k] pp_next_clr_ge [OF k(1)] show ?thesis by simp
    qed
  next
    case False
    with 1(2) show ?thesis by (subst (asm) clr_skip.simps) simp
  qed
qed

lemma clr_count_ge: "clr_count cn cs pool colors n topi index allocated = Inr (m, i) \<Longrightarrow> index \<le> i"
proof (induction cn cs pool colors n topi index allocated rule: clr_count.induct)
  case (1 cn cs pool colors n topi index allocated)
  show ?case
  proof (cases "index < topi")
    case True
    with 1(2) obtain used where u: "bitmap_get (pool_bitmap pool) index = Inr used"
      by (subst (asm) clr_count.simps) auto
    show ?thesis
    proof (cases "\<not> used \<and> allocated < n")
      case False
      with 1(2) True u show ?thesis by (subst (asm) clr_count.simps) simp
    next
      case go: True
      with 1(2) True u obtain k where k: "pp_next_clr cn cs (pool_base pool) (index + 1) colors = Inr k"
        "clr_count cn cs pool colors n topi k (allocated + 1) = Inr (m, i)"
        by (subst (asm) clr_count.simps) auto
      from 1(1) [OF True u go k] pp_next_clr_ge [OF k(1)] show ?thesis by simp
    qed
  next
    case False
    with 1(2) show ?thesis by (subst (asm) clr_count.simps) simp
  qed
qed

function clr_search :: "nat \<Rightarrow> nat \<Rightarrow> page_pool \<Rightarrow> colormap \<Rightarrow> nat \<Rightarrow> nat \<Rightarrow> nat \<Rightarrow> nat \<Rightarrow> nat \<Rightarrow>
    (nat \<times> nat \<times> nat) res" where
  "clr_search cn cs pool colors n topi index allocated first_index =
    (if allocated < n \<and> index < topi then
       bindR (clr_skip cn cs pool colors topi index) (\<lambda>first_index.
       bindR (clr_count cn cs pool colors n topi first_index 0) (\<lambda>(allocated, index).
       clr_search cn cs pool colors n topi (index + 1) allocated first_index))
     else Inr (allocated, first_index, index))"
  by pat_completeness auto
termination
proof (relation "measure (\<lambda>(cn, cs, pool, colors, n, topi, index, allocated, first_index). topi - index)",
    goal_cases)
  case (2 cn cs pool colors n topi index allocated first_index f am a m)
  from 2(3,4) have "clr_count cn cs pool colors n topi f 0 = Inr (a, m)" by simp
  from clr_skip_ge [OF 2(2)] clr_count_ge [OF this] 2(1) [THEN conjunct2] show ?case by simp
qed simp

declare clr_search.simps [simp del]

text \<open>The page right behind an index, of the pool's colours.\<close>

fun mark_clr :: "nat \<Rightarrow> nat \<Rightarrow> paddr \<Rightarrow> colormap \<Rightarrow> (bitmap \<Rightarrow> nat \<Rightarrow> bitmap res) \<Rightarrow> nat \<Rightarrow> nat \<Rightarrow>
    bitmap \<Rightarrow> (bitmap \<times> nat) res" where
  "mark_clr cn cs base colors upd 0 index bm = Inr (bm, index)"
| "mark_clr cn cs base colors upd (Suc n) index bm =
    bindR (pp_next_clr cn cs base index colors) (\<lambda>index.
    bindR (upd bm index) (\<lambda>bm. mark_clr cn cs base colors upd n (index + 1) bm))"

definition pp_alloc_clr ::
  "nat \<Rightarrow> nat \<Rightarrow> page_pool \<Rightarrow> nat \<Rightarrow> colormap \<Rightarrow> ppages \<Rightarrow> (bool \<times> page_pool \<times> ppages) res" where
  "pp_alloc_clr cn cs pool n colors pages =
    (let pages = pages\<lparr>pp_colors := colors, num_pages := 0\<rparr>;
         found = (\<lambda>first_index.
           bindR (mark_clr cn cs (pool_base pool) colors bitmap_set n first_index (pool_bitmap pool))
             (\<lambda>(bm, last). Inr (True,
               pool\<lparr>pool_bitmap := bm, free := free pool - of_nat n, last_index := last\<rparr>,
               pages\<lparr>num_pages := n, pp_base := pool_base pool + of_nat first_index * PAGE_SIZE\<rparr>)))
     in bindR (pp_next_clr cn cs (pool_base pool) (last_index pool) colors) (\<lambda>index.
        bindR (clr_search cn cs pool colors n (pool_size pool) index 0 0)
          (\<lambda>(allocated, first_index, index).
        if allocated = n then found first_index
        else
          bindR (clr_search cn cs pool colors n (pool_size pool) 0 allocated first_index)
            (\<lambda>(allocated, first_index, index).
          if allocated = n then found first_index else Inr (False, pool, pages)))))"

text \<open>\<open>mem_alloc_ppages\<close> tries the pools in the order of \<open>page_pool_list\<close>.\<close>

fun alloc_in_pools :: "nat \<Rightarrow> nat \<Rightarrow> page_pool list \<Rightarrow> colormap \<Rightarrow> nat \<Rightarrow> bool \<Rightarrow> ppages \<Rightarrow>
    (page_pool list \<times> ppages) res" where
  "alloc_in_pools cn cs [] colors n aligned pages = Inr ([], pages)"
| "alloc_in_pools cn cs (pool # pools) colors n aligned pages =
    bindR (if \<not> all_clrs cn colors \<and> \<not> aligned then pp_alloc_clr cn cs pool n colors pages
           else pp_alloc pool n aligned pages) (\<lambda>(ok, pool, pages).
    if ok then Inr (pool # pools, pages)
    else bindR (alloc_in_pools cn cs pools colors n aligned pages) (\<lambda>(pools, pages).
      Inr (pool # pools, pages)))"

definition mem_alloc_ppages :: "nat \<Rightarrow> nat \<Rightarrow> page_pool list \<Rightarrow> colormap \<Rightarrow> nat \<Rightarrow> bool \<Rightarrow>
    (page_pool list \<times> ppages) res" where
  "mem_alloc_ppages cn cs pools colors n aligned =
    alloc_in_pools cn cs pools colors n aligned \<lparr>pp_base = 0, num_pages = 0, pp_colors = 0\<rparr>"

section \<open>Release\<close>

text \<open>
  \<open>mem_free_ppages\<close> visits every pool; \<open>in_range\<close> decides by the first page alone. The
  counter \<open>free\<close> of the pool is not touched.
\<close>

definition free_in_pool :: "nat \<Rightarrow> nat \<Rightarrow> ppages \<Rightarrow> page_pool \<Rightarrow> page_pool res" where
  "free_in_pool cn cs pages pool =
    (if in_range (pp_base pages) (pool_base pool) (of_nat (pool_size pool) * PAGE_SIZE) then
       let index = unat (pp_base pages - pool_base pool) div 4096 in
       if \<not> all_clrs cn (pp_colors pages) then
         bindR (mark_clr cn cs (pool_base pool) (pp_colors pages) bitmap_clear (num_pages pages) index
           (pool_bitmap pool)) (\<lambda>(bm, _). Inr (pool\<lparr>pool_bitmap := bm\<rparr>))
       else bindR (bitmap_clear_consecutive (pool_bitmap pool) index (num_pages pages)) (\<lambda>bm.
         Inr (pool\<lparr>pool_bitmap := bm\<rparr>))
     else Inr pool)"

fun mem_free_ppages :: "nat \<Rightarrow> nat \<Rightarrow> ppages \<Rightarrow> page_pool list \<Rightarrow> page_pool list res" where
  "mem_free_ppages cn cs pages [] = Inr []"
| "mem_free_ppages cn cs pages (pool # pools) =
    bindR (free_in_pool cn cs pages pool) (\<lambda>pool.
    bindR (mem_free_ppages cn cs pages pools) (\<lambda>pools. Inr (pool # pools)))"

section \<open>Reservation\<close>

definition pages_in_pool :: "ppages \<Rightarrow> page_pool \<Rightarrow> bool" where
  "pages_in_pool pages pool = range_in_range (pp_base pages) (of_nat (num_pages pages) * PAGE_SIZE)
     (pool_base pool) (of_nat (pool_size pool) * PAGE_SIZE)"

definition mem_are_ppages_reserved_in_pool :: "page_pool \<Rightarrow> ppages \<Rightarrow> bool res" where
  "mem_are_ppages_reserved_in_pool pool pages =
    (if pages_in_pool pages pool then
       let pageoff = unat (NUM_PAGES (pp_base pages - pool_base pool)) in
       bindR (bitmap_get (pool_bitmap pool) pageoff) (\<lambda>is_alloced.
       bindR (bitmap_count_consecutive (pool_bitmap pool) (pool_size pool) pageoff (num_pages pages))
         (\<lambda>avlbl_contig_pp. Inr (is_alloced \<or> avlbl_contig_pp < num_pages pages)))
     else Inr False)"

fun mem_are_ppages_reserved :: "page_pool list \<Rightarrow> ppages \<Rightarrow> bool res" where
  "mem_are_ppages_reserved [] pages = Inr False"
| "mem_are_ppages_reserved (pool # pools) pages =
    (if pages_in_pool pages pool then mem_are_ppages_reserved_in_pool pool pages
     else mem_are_ppages_reserved pools pages)"

definition mem_reserve_ppool_ppages :: "page_pool \<Rightarrow> ppages \<Rightarrow> (bool \<times> page_pool) res" where
  "mem_reserve_ppool_ppages pool pages =
    (if \<not> pages_in_pool pages pool then Inr (True, pool)
     else
       let pageoff = unat (NUM_PAGES (pp_base pages - pool_base pool)) in
       bindR (mem_are_ppages_reserved_in_pool pool pages) (\<lambda>reserved.
       bindR (bitmap_set_consecutive (pool_bitmap pool) pageoff (num_pages pages)) (\<lambda>bm.
       Inr (\<not> reserved, pool\<lparr>pool_bitmap := bm, free := free pool - of_nat (num_pages pages)\<rparr>))))"


section \<open>The search\<close>

definition pool_ok :: "page_pool \<Rightarrow> bool" where
  "pool_ok pool \<longleftrightarrow> pool_size pool \<le> bm_len (pool_bitmap pool)
    \<and> bm_len (pool_bitmap pool) < SIZE_MAX"

definition used :: "page_pool \<Rightarrow> nat \<Rightarrow> bool" where
  "used pool k \<longleftrightarrow> bm_bit (pool_bitmap pool) k"

text \<open>
  The bitmap as \<open>memset\<close> leaves it: bits behind the pool's last page are clear, and at least
  \<open>n + 64\<close> of them are there.
\<close>

definition clear_tail :: "nat \<Rightarrow> page_pool \<Rightarrow> bool" where
  "clear_tail n pool \<longleftrightarrow> pool_size pool + n + 64 \<le> bm_len (pool_bitmap pool)
    \<and> (\<forall>k \<in> {pool_size pool ..< bm_len (pool_bitmap pool)}. \<not> used pool k)"

lemma pp_search_sound:
  assumes "pp_search pool n aligned start cur = Inr (Some k)" "0 < n" "pool_ok pool"
  shows "cur \<le> k \<and> k < pool_size pool \<and> k + n \<le> bm_len (pool_bitmap pool)
    \<and> run (pool_bitmap pool) k n False \<and> (aligned \<longrightarrow> (k + start) mod n = 0) \<and> free pool \<noteq> 0"
  using assms
proof (induction pool n aligned start cur rule: pp_search.induct)
  case (1 pool n aligned start cur)
  from 1(2) have fr: "free pool \<noteq> 0" by (subst (asm) pp_search.simps) (simp split: if_splits)
  with 1(2) obtain b where b: "bitmap_find_consec (pool_bitmap pool) (pool_size pool) cur n False = Inr b"
    "\<not> b < 0"
    "(if aligned \<and> (nat b + start) mod n \<noteq> 0
      then pp_search pool n aligned start (nat b + (nat b + start) mod n) else Inr (Some (nat b))) = Inr (Some k)"
    by (subst (asm) pp_search.simps) (auto split: if_splits)
  show ?case
  proof (cases "aligned \<and> (nat b + start) mod n \<noteq> 0")
    case True
    with b(3) have "pp_search pool n aligned start (nat b + (nat b + start) mod n) = Inr (Some k)" by simp
    from 1(1) [OF fr b(1,2) True this 1(3,4)] find_consec_range [OF b(1)] b(2) show ?thesis by simp
  next
    case False
    with b(3) have k: "k = nat b" by auto
    from find_consec_spec [OF b(1) 1(3)] 1(4) b(2) obtain q where q: "b = int q" "cur \<le> q" "q < pool_size pool"
      "q + n \<le> bm_len (pool_bitmap pool)" "run (pool_bitmap pool) q n False"
      by (auto simp: pool_ok_def)
    with k False fr show ?thesis by auto
  qed
qed

lemma pp_search_none:
  assumes "pp_search pool n False start cur = Inr None" "0 < n" "pool_ok pool" "free pool \<noteq> 0"
    and "j \<in> {cur..<pool_size pool}"
  shows "\<not> run (pool_bitmap pool) j n False"
proof -
  from assms(1,4) obtain b where b: "bitmap_find_consec (pool_bitmap pool) (pool_size pool) cur n False = Inr b"
    "b < 0"
    by (subst (asm) pp_search.simps) (auto split: if_splits)
  from find_consec_spec [OF b(1) assms(2)] assms(3,5) b(2) show ?thesis
    by (auto simp: pool_ok_def)
qed

lemma pp_search_total:
  assumes "0 < n" "pool_ok pool" "clear_tail n pool"
  shows "\<exists>r. pp_search pool n aligned start cur = Inr r"
  using assms
proof (induction pool n aligned start cur rule: pp_search.induct)
  case (1 pool n aligned start cur)
  have "\<exists>b. bitmap_find_consec (pool_bitmap pool) (pool_size pool) cur n False = Inr b"
    using 1(2-4) by (intro find_consec_total) (auto simp: pool_ok_def clear_tail_def used_def)
  then obtain b where b: "bitmap_find_consec (pool_bitmap pool) (pool_size pool) cur n False = Inr b" ..
  show ?case
  proof (cases "free pool \<noteq> 0 \<and> \<not> b < 0 \<and> aligned \<and> (nat b + start) mod n \<noteq> 0")
    case True
    with 1(1) [OF _ b _ _ 1(2-4)] b show ?thesis by (subst pp_search.simps) simp
  next
    case False
    with b show ?thesis by (subst pp_search.simps) (auto split: if_splits)
  qed
qed

lemma pp_search_no_free: "free pool = 0 \<Longrightarrow> pp_search pool n aligned start cur = Inr None"
  by (subst pp_search.simps) simp

section \<open>What an allocation does\<close>

text \<open>The pages \<open>k .. k + n - 1\<close> of the pool were free and are handed out as \<open>pages'\<close>.\<close>

definition allocates :: "page_pool \<Rightarrow> nat \<Rightarrow> nat \<Rightarrow> page_pool \<Rightarrow> ppages \<Rightarrow> bool" where
  "allocates pool n k pool' pages' \<longleftrightarrow>
    k < pool_size pool \<and> k + n \<le> bm_len (pool_bitmap pool)
    \<and> (\<forall>i \<in> {k..<k + n}. \<not> used pool i)
    \<and> (\<forall>i. used pool' i \<longleftrightarrow> used pool i \<or> i \<in> {k..<k + n})
    \<and> pool_base pool' = pool_base pool \<and> pool_size pool' = pool_size pool
    \<and> bm_len (pool_bitmap pool') = bm_len (pool_bitmap pool)
    \<and> free pool' = free pool - of_nat n \<and> last_index pool' = k + n
    \<and> pages' = \<lparr>pp_base = pool_base pool + of_nat k * PAGE_SIZE, num_pages = n, pp_colors = 0\<rparr>"

lemma pp_take_spec:
  assumes "0 < n" "k + n \<le> bm_len (pool_bitmap pool)"
  shows "\<exists>bm. pp_take pool k n =
      Inr (pool\<lparr>pool_bitmap := bm, free := free pool - of_nat n, last_index := k + n\<rparr>)
    \<and> bm_len bm = bm_len (pool_bitmap pool)
    \<and> (\<forall>i. bm_bit bm i \<longleftrightarrow> bm_bit (pool_bitmap pool) i \<or> k \<le> i \<and> i < k + n)"
  using set_consecutive_spec [OF assms] by (auto simp: pp_take_def bm_len_def)

lemma pp_take_allocates:
  assumes "0 < n" "k < pool_size pool" "k + n \<le> bm_len (pool_bitmap pool)"
    and "run (pool_bitmap pool) k n False"
  shows "\<exists>pool'. pp_take pool k n = Inr pool' \<and> allocates pool n k pool'
    \<lparr>pp_base = pool_base pool + of_nat k * PAGE_SIZE, num_pages = n, pp_colors = 0\<rparr>"
  using pp_take_spec [OF assms(1,3)] assms by (auto simp: allocates_def used_def run_def)

definition start_off :: "page_pool \<Rightarrow> nat \<Rightarrow> bool \<Rightarrow> nat" where
  "start_off pool n aligned = (if aligned then unat (pool_base pool) div 4096 mod n else 0)"

definition first_cur :: "page_pool \<Rightarrow> nat \<Rightarrow> bool \<Rightarrow> nat" where
  "first_cur pool n aligned = last_index pool + (last_index pool + start_off pool n aligned) mod n"

definition second_cur :: "page_pool \<Rightarrow> nat \<Rightarrow> bool \<Rightarrow> nat" where
  "second_cur pool n aligned =
    (if aligned then (n - (unat (pool_base pool) div 4096 mod n)) mod n else 0)"

lemma pp_alloc_unfold:
  "0 < n \<Longrightarrow> pp_alloc pool n aligned pages =
    bindR (pp_search pool n aligned (start_off pool n aligned) (first_cur pool n aligned)) (\<lambda>first.
    bindR (case first of Some b \<Rightarrow> Inr (Some b)
           | None \<Rightarrow> pp_search pool n aligned (start_off pool n aligned) (second_cur pool n aligned)) (\<lambda>r.
    case r of None \<Rightarrow> Inr (False, pool, pages\<lparr>pp_colors := 0, num_pages := 0\<rparr>)
    | Some b \<Rightarrow> bindR (pp_take pool b n) (\<lambda>pool'. Inr (True, pool',
        \<lparr>pp_base = pool_base pool + of_nat b * PAGE_SIZE, num_pages = n, pp_colors = 0\<rparr>))))"
  (is "_ \<Longrightarrow> _ = bindR ?F (\<lambda>first. bindR (case first of Some b \<Rightarrow> Inr (Some b) | None \<Rightarrow> ?G) ?K)")
proof -
  assume n: "0 < n"
  obtain pb np pc where pg: "pages = \<lparr>pp_base = pb, num_pages = np, pp_colors = pc\<rparr>" by (cases pages)
  have eq: "pp_alloc pool n aligned pages = bindR ?F (\<lambda>first. case first of Some b \<Rightarrow> ?K (Some b)
      | None \<Rightarrow> bindR ?G (\<lambda>second. case second of Some b \<Rightarrow> ?K (Some b) | None \<Rightarrow> ?K None))"
    using n unfolding pp_alloc_def Let_def start_off_def first_cur_def second_cur_def pg
    by (cases aligned) (simp_all cong: option.case_cong)
  show ?thesis
    unfolding eq
  proof (rule bindR_cong [OF refl])
    fix first
    show "(case first of None \<Rightarrow> bindR ?G (\<lambda>second. case second of None \<Rightarrow> ?K None | Some b \<Rightarrow> ?K (Some b))
        | Some b \<Rightarrow> ?K (Some b))
      = bindR (case first of None \<Rightarrow> ?G | Some b \<Rightarrow> Inr (Some b)) ?K"
    proof (cases first)
      case None
      have "(case second of None \<Rightarrow> ?K None | Some b \<Rightarrow> ?K (Some b)) = ?K second" for second
        by (cases second) simp_all
      with None show ?thesis by simp
    qed simp
  qed
qed

lemma aligned_base:
  assumes "(k + start_off pool n True) mod n = 0"
  shows "(unat (pool_base pool) div 4096 + k) mod n = 0"
  using assms by (simp add: start_off_def mod_add_right_eq add.commute)

lemma pp_alloc_sound:
  assumes "pp_alloc pool n aligned pages = Inr (got, pool', pages')" "0 < n" "pool_ok pool"
  shows "if got then \<exists>k. allocates pool n k pool' pages'
        \<and> (aligned \<longrightarrow> (unat (pool_base pool) div 4096 + k) mod n = 0) \<and> free pool \<noteq> 0
    else pool' = pool \<and> num_pages pages' = 0"
proof -
  have some: ?thesis
    if s: "pp_search pool n aligned (start_off pool n aligned) c = Inr (Some b)"
      and r: "bindR (pp_take pool b n) (\<lambda>pool'. Inr (True, pool',
        \<lparr>pp_base = pool_base pool + of_nat b * PAGE_SIZE, num_pages = n, pp_colors = 0\<rparr>)) = Inr (got, pool', pages')"
    for c b
  proof -
    from pp_search_sound [OF s assms(2,3)] have b: "b < pool_size pool" "b + n \<le> bm_len (pool_bitmap pool)"
      "run (pool_bitmap pool) b n False" "aligned \<longrightarrow> (b + start_off pool n aligned) mod n = 0" "free pool \<noteq> 0"
      by blast+
    from pp_take_allocates [OF assms(2) b(1-3)] r have "got" "allocates pool n b pool' pages'" by auto
    with b(4,5) aligned_base [of b pool n] show ?thesis by auto
  qed
  from assms(1) obtain first where f:
    "pp_search pool n aligned (start_off pool n aligned) (first_cur pool n aligned) = Inr first"
    by (auto simp: pp_alloc_unfold [OF assms(2)])
  show ?thesis
  proof (cases first)
    case (Some b)
    with f assms(1) show ?thesis by (intro some [of _ b]) (auto simp: pp_alloc_unfold [OF assms(2)])
  next
    case None
    with f assms(1) obtain second where g:
      "pp_search pool n aligned (start_off pool n aligned) (second_cur pool n aligned) = Inr second"
      by (auto simp: pp_alloc_unfold [OF assms(2)])
    show ?thesis
    proof (cases second)
      case (Some b)
      with f g None assms(1) show ?thesis by (intro some [of _ b]) (auto simp: pp_alloc_unfold [OF assms(2)])
    next
      case second: None
      with f g None assms(1) show ?thesis by (auto simp: pp_alloc_unfold [OF assms(2)])
    qed
  qed
qed

lemma pp_alloc_total:
  assumes "0 < n" "pool_ok pool" "clear_tail n pool"
  shows "\<exists>got pool' pages'. pp_alloc pool n aligned pages = Inr (got, pool', pages')"
proof -
  from pp_search_total [OF assms] obtain f where
    f: "pp_search pool n aligned (start_off pool n aligned) (first_cur pool n aligned) = Inr f" by blast
  from pp_search_total [OF assms] obtain g where
    g: "pp_search pool n aligned (start_off pool n aligned) (second_cur pool n aligned) = Inr g" by blast
  have tk: "\<exists>p. pp_take pool b n = Inr p" if "b < pool_size pool" for b
  proof -
    from that assms(3) have "b + n \<le> bm_len (pool_bitmap pool)" by (simp add: clear_tail_def)
    from pp_take_spec [OF assms(1) this] show ?thesis by blast
  qed
  have tf: "\<exists>p. pp_take pool b n = Inr p" if "f = Some b \<or> g = Some b" for b
    using that f g pp_search_sound [OF _ assms(1,2), of aligned] tk by blast
  show ?thesis
    using f g tf by (cases f; cases g) (auto simp: pp_alloc_unfold [OF assms(1)] split: option.splits)
qed

lemma pp_alloc_complete:
  assumes "pp_alloc pool n False pages = Inr (False, pool', pages')" "0 < n" "pool_ok pool" "free pool \<noteq> 0"
    and "j < pool_size pool"
  shows "\<not> run (pool_bitmap pool) j n False"
proof -
  from assms(1) have "pp_search pool n False (start_off pool n False) (second_cur pool n False) = Inr None"
    by (auto simp: pp_alloc_unfold [OF assms(2)] split: option.splits)
  from pp_search_none [OF this assms(2,3,4)] assms(5) show ?thesis by (simp add: second_cur_def)
qed


section \<open>Release and reservation\<close>

lemma pool_index:
  assumes "unat (pool_base pool) + pool_size pool * 4096 < 2 ^ 64" "k < pool_size pool"
  shows "unat (pool_base pool + of_nat k * PAGE_SIZE - pool_base pool) div 4096 = k"
    and "in_range (pool_base pool + of_nat k * PAGE_SIZE) (pool_base pool) (of_nat (pool_size pool) * PAGE_SIZE)"
    and "unat (pool_base pool + of_nat k * PAGE_SIZE) = unat (pool_base pool) + k * 4096"
proof -
  have m: "unat (of_nat j * PAGE_SIZE :: u64) = j * 4096" if "j \<le> pool_size pool" for j
    using assms(1) that by (subst unat_mul_no_wrap) simp_all
  show "unat (pool_base pool + of_nat k * PAGE_SIZE - pool_base pool) div 4096 = k"
    using m [of k] assms(2) by simp
  show a: "unat (pool_base pool + of_nat k * PAGE_SIZE) = unat (pool_base pool) + k * 4096"
    using assms m [of k] by (subst unat_add_no_wrap) simp_all
  show "in_range (pool_base pool + of_nat k * PAGE_SIZE) (pool_base pool) (of_nat (pool_size pool) * PAGE_SIZE)"
    using assms m [of "pool_size pool"] a by (subst in_range_iff) simp_all
qed

lemma free_in_pool_spec:
  assumes "unat (pool_base pool) + pool_size pool * 4096 < 2 ^ 64" "k < pool_size pool"
    and "k + n \<le> bm_len (pool_bitmap pool)"
  shows "\<exists>pool'. free_in_pool cn cs (mem_ppages_get (pool_base pool + of_nat k * PAGE_SIZE) n) pool = Inr pool'
    \<and> (\<forall>i. used pool' i \<longleftrightarrow> used pool i \<and> i \<notin> {k..<k + n}) \<and> free pool' = free pool"
proof -
  have "all_clrs cn 0" by (simp add: all_clrs_def)
  with clear_consecutive_spec [OF assms(3)] pool_index [OF assms(1,2)] show ?thesis
    by (auto simp: free_in_pool_def mem_ppages_get_def used_def)
qed

lemma pages_in_pool_at:
  assumes "unat (pool_base pool) + pool_size pool * 4096 < 2 ^ 64" "0 < n" "k + n \<le> pool_size pool"
  shows "pages_in_pool (mem_ppages_get (pool_base pool + of_nat k * PAGE_SIZE) n) pool"
    and "unat (NUM_PAGES (pool_base pool + of_nat k * PAGE_SIZE - pool_base pool)) = k"
proof -
  have m: "unat (of_nat j * PAGE_SIZE :: u64) = j * 4096" if "j \<le> pool_size pool" for j
    using assms(1) that by (subst unat_mul_no_wrap) simp_all
  have k: "k < pool_size pool" using assms(2,3) by simp
  note b = pool_index(3) [OF assms(1) k]
  have mn: "unat (of_nat n * PAGE_SIZE :: u64) = n * 4096" using m [of n] assms(3) by simp
  have ms: "unat (of_nat (pool_size pool) * PAGE_SIZE :: u64) = pool_size pool * 4096" using m by simp
  have le: "k * 4096 + n * 4096 \<le> pool_size pool * 4096" using assms(3) by linarith
  have "range_in_range (pool_base pool + of_nat k * PAGE_SIZE) (of_nat n * PAGE_SIZE)
     (pool_base pool) (of_nat (pool_size pool) * PAGE_SIZE)"
  proof (subst range_in_range_iff)
    show "unat (pool_base pool) + unat (of_nat (pool_size pool) * PAGE_SIZE :: u64) < 2 ^ 64"
      unfolding ms by (rule assms(1))
    show "unat (pool_base pool + of_nat k * PAGE_SIZE) + unat (of_nat n * PAGE_SIZE :: u64) < 2 ^ 64"
      unfolding b mn using le assms(1) by linarith
  qed (unfold b mn ms, use le in linarith)
  then show "pages_in_pool (mem_ppages_get (pool_base pool + of_nat k * PAGE_SIZE) n) pool"
    unfolding pages_in_pool_def mem_ppages_get_def by simp
  have mk: "unat (of_nat k * PAGE_SIZE :: u64) = k * 4096" using m k by simp
  have "unat (of_nat k * PAGE_SIZE :: u64) + 4095 < 2 ^ 64"
    unfolding mk using k assms(1) by linarith
  then have "unat (NUM_PAGES (of_nat k * PAGE_SIZE)) = (k * 4096 + 4095) div 4096"
    using mk by (subst unat_NUM_PAGES) simp_all
  also have "\<dots> = k" by simp
  finally show "unat (NUM_PAGES (pool_base pool + of_nat k * PAGE_SIZE - pool_base pool)) = k" by simp
qed

lemma count_guard_pool:
  assumes "pool_ok pool" "clear_tail n pool" "0 < n" "k + n \<le> pool_size pool"
  shows "\<exists>L. count_guard (pool_bitmap pool) (used pool k) n L k 0"
proof (cases "used pool k")
  case True
  have "\<not> used pool (pool_size pool)" "pool_size pool < bm_len (pool_bitmap pool)"
    using assms(2) by (simp_all add: clear_tail_def)
  then have "count_guard (pool_bitmap pool) True n (pool_size pool) k 0"
    using assms(3,4) by (simp add: count_guard_def used_def)
  with True show ?thesis by auto
next
  case False
  have "pool_size pool + n + 64 \<le> bm_len (pool_bitmap pool)" using assms(2) by (simp add: clear_tail_def)
  then have "k \<le> bm_len (pool_bitmap pool) - 1 \<and> bm_len (pool_bitmap pool) - 1 < bm_len (pool_bitmap pool)
      \<and> k + (n - 0) + 31 \<le> bm_len (pool_bitmap pool) - 1"
    using assms(4) by linarith
  then have "count_guard (pool_bitmap pool) False n (bm_len (pool_bitmap pool) - 1) k 0"
    unfolding count_guard_def by blast
  with False show ?thesis by auto
qed

lemma count_exact:
  assumes "pool_ok pool" "clear_tail n pool" "0 < n" "k + n \<le> pool_size pool"
  shows "\<exists>c. bitmap_count_consecutive (pool_bitmap pool) (pool_size pool) k n = Inr c
    \<and> (n \<le> c \<longleftrightarrow> (\<forall>i \<in> {k..<k + n}. used pool i = used pool k))"
proof (cases "n = 1")
  case True
  have "k < bm_len (pool_bitmap pool)" using assms by (simp add: pool_ok_def)
  from count_consecutive_one [OF this] have
    "bitmap_count_consecutive (pool_bitmap pool) (pool_size pool) k n = Inr 1" using True by simp
  with True show ?thesis by (intro exI [of _ 1]) simp
next
  case False
  then have n: "1 < n" using assms(3) by simp
  let ?bm = "pool_bitmap pool"
  from count_guard_pool [OF assms] obtain L where "count_guard ?bm (bm_bit ?bm k) n L k 0"
    unfolding used_def ..
  from count_consecutive_total [OF this n] obtain c where
    c: "bitmap_count_consecutive ?bm (pool_size pool) k n = Inr c" ..
  note cs = count_consecutive_spec [OF c n]
  have "n \<le> c \<longleftrightarrow> (\<forall>i \<in> {k..<k + n}. used pool i = used pool k)"
  proof (cases "n \<le> c")
    case True
    then have "{k..<k + n} \<subseteq> {k..<k + c}" by auto
    with cs(1) have "used pool i = used pool k" if "i \<in> {k..<k + n}" for i
      using that unfolding run_def used_def by blast
    with True show ?thesis by blast
  next
    case False
    with cs(3) have "used pool (k + c) \<noteq> used pool k" by (simp add: used_def)
    moreover have "k + c \<in> {k..<k + n}" using False by simp
    ultimately show ?thesis using False by blast
  qed
  with c show ?thesis by blast
qed

lemma reserve_exact:
  assumes "pool_ok pool" "clear_tail n pool" "0 < n" "k + n \<le> pool_size pool"
    and "unat (pool_base pool) + pool_size pool * 4096 < 2 ^ 64"
  shows "\<exists>pool'. mem_reserve_ppool_ppages pool (mem_ppages_get (pool_base pool + of_nat k * PAGE_SIZE) n)
      = Inr ((\<forall>i \<in> {k..<k + n}. \<not> used pool i), pool')
    \<and> (\<forall>i. used pool' i \<longleftrightarrow> used pool i \<or> i \<in> {k..<k + n})
    \<and> pool_base pool' = pool_base pool \<and> pool_size pool' = pool_size pool
    \<and> free pool' = free pool - of_nat n"
proof -
  let ?pg = "mem_ppages_get (pool_base pool + of_nat k * PAGE_SIZE) n"
  note at = pages_in_pool_at [OF assms(5,3,4)]
  from count_exact [OF assms(1-4)] obtain c where
    c: "bitmap_count_consecutive (pool_bitmap pool) (pool_size pool) k n = Inr c"
    "n \<le> c \<longleftrightarrow> (\<forall>i \<in> {k..<k + n}. used pool i = used pool k)" by blast
  have len: "k < bm_len (pool_bitmap pool)" "k + n \<le> bm_len (pool_bitmap pool)"
    using assms by (simp_all add: pool_ok_def)
  have free: "\<not> (bm_bit (pool_bitmap pool) k \<or> c < n) \<longleftrightarrow> (\<forall>i \<in> {k..<k + n}. \<not> used pool i)"
    using c(2) assms(3) by (auto simp: used_def not_less)
  have res: "mem_are_ppages_reserved_in_pool pool ?pg = Inr (bm_bit (pool_bitmap pool) k \<or> c < n)"
    using at c(1) len(1)
    by (simp add: mem_are_ppages_reserved_in_pool_def mem_ppages_get_def Let_def bitmap_get_eq)
  from set_consecutive_spec [OF assms(3) len(2)] obtain bm where
    bm: "bitmap_set_consecutive (pool_bitmap pool) k n = Inr bm"
    "\<And>i. bm_bit bm i \<longleftrightarrow> bm_bit (pool_bitmap pool) i \<or> k \<le> i \<and> i < k + n" by blast
  have "mem_reserve_ppool_ppages pool ?pg = Inr (\<not> (bm_bit (pool_bitmap pool) k \<or> c < n),
      pool\<lparr>pool_bitmap := bm, free := free pool - of_nat n\<rparr>)"
    using at res bm(1) by (simp add: mem_reserve_ppool_ppages_def mem_ppages_get_def Let_def)
  with free bm(2) show ?thesis by (auto simp: used_def)
qed

lemma pp_alloc_first_fit:
  assumes "pool_ok pool" "clear_tail n pool" "free pool \<noteq> 0" "0 < n"
    and "first_cur pool n False \<le> j" "j < pool_size pool" "run (pool_bitmap pool) j n False"
    and "\<And>i. first_cur pool n False \<le> i \<Longrightarrow> i < j \<Longrightarrow> \<not> run (pool_bitmap pool) i n False"
  shows "\<exists>pool' pages'. pp_alloc pool n False pages = Inr (True, pool', pages')
    \<and> allocates pool n j pool' pages'"
proof -
  let ?c = "first_cur pool n False"
  have "\<exists>r. bitmap_find_consec (pool_bitmap pool) (pool_size pool) ?c n False = Inr r"
    using assms(1,2,4) by (intro find_consec_total) (simp_all add: pool_ok_def clear_tail_def used_def)
  then obtain r where r: "bitmap_find_consec (pool_bitmap pool) (pool_size pool) ?c n False = Inr r" ..
  from assms(1) have ok: "pool_size pool \<le> bm_len (pool_bitmap pool)" "bm_len (pool_bitmap pool) < SIZE_MAX"
    by (simp_all add: pool_ok_def)
  from find_consec_spec [OF r assms(4) ok] assms(5-7) obtain k where
    k: "r = int k" "?c \<le> k" "k < pool_size pool" "run (pool_bitmap pool) k n False"
      "k + n \<le> bm_len (pool_bitmap pool)" "\<forall>i \<in> {?c..<k}. \<not> run (pool_bitmap pool) i n False"
    by (elim disjE exE conjE) auto
  have "k = j"
  proof (rule antisym)
    show "k \<le> j" using k(6) assms(5,7) by (meson atLeastLessThan_iff not_less)
    show "j \<le> k" using k(2,4) assms(8) by (meson not_less)
  qed
  with r k(1) assms(3) have s: "pp_search pool n False (start_off pool n False) ?c = Inr (Some j)"
    by (subst pp_search.simps) simp
  from pp_take_allocates [OF assms(4) k(3,5,4)] \<open>k = j\<close> s show ?thesis
    by (auto simp: pp_alloc_unfold [OF assms(4)])
qed

section \<open>Properties\<close>

text \<open>
  C11. An allocation hands out free pages only: when \<open>pp_alloc\<close> succeeds, the \<open>n\<close> consecutive
  pages it returns were free, start inside the pool, are aligned to their size when asked, and
  are now marked while no other page changes; when it fails, the pool is unchanged. When it
  succeeds on a pool whose bitmap is set behind the last page, all of them lie in the pool.
\<close>

theorem pp_alloc_hands_out_free_pages:
  assumes "pp_alloc pool n aligned pages = Inr (got, pool', pages')" "0 < n" "pool_ok pool"
  shows "if got then \<exists>k. allocates pool n k pool' pages'
        \<and> (aligned \<longrightarrow> (unat (pool_base pool) div 4096 + k) mod n = 0)
        \<and> ((\<forall>i \<in> {pool_size pool..<pool_size pool + n}. used pool i) \<longrightarrow> k + n \<le> pool_size pool)
    else pool' = pool \<and> num_pages pages' = 0"
proof (cases got)
  case True
  with pp_alloc_sound [OF assms] obtain k where k: "allocates pool n k pool' pages'"
    "aligned \<longrightarrow> (unat (pool_base pool) div 4096 + k) mod n = 0" by auto
  have "k + n \<le> pool_size pool" if "\<forall>i \<in> {pool_size pool..<pool_size pool + n}. used pool i"
  proof (rule ccontr)
    assume "\<not> k + n \<le> pool_size pool"
    with k(1) have "pool_size pool \<in> {k..<k + n}" by (simp add: allocates_def)
    with k(1) have "\<not> used pool (pool_size pool)" unfolding allocates_def by blast
    moreover have "pool_size pool \<in> {pool_size pool..<pool_size pool + n}" using assms(2) by simp
    with that have "used pool (pool_size pool)" by blast
    ultimately show False by simp
  qed
  with k True show ?thesis by auto
qed (use pp_alloc_sound [OF assms] in simp)

definition demo_pool :: page_pool where
  "demo_pool = \<lparr>pool_base = 0x80200000, pool_size = 40, free = 31, last_index = 0,
    pool_bitmap = [0x1FF, 0, 0, 0, 0]\<rparr>"

lemma demo_used: "used demo_pool i \<longleftrightarrow> i < 9" if "i < 160"
proof -
  have "bit (0x1FF :: u32) j \<longleftrightarrow> j < 9" if "j < 32" for j
  proof -
    have e: "mask 9 = (0x1FF :: u32)" by (simp add: mask_eq_exp_minus_1)
    show ?thesis using that unfolding e [symmetric] by (simp only: bit_mask_iff) auto
  qed
  moreover have "i div 32 < 5" using that by simp
  then have "i div 32 \<in> {0, 1, 2, 3, 4}" by auto
  ultimately show ?thesis
    by (elim insertE emptyE) (auto simp: used_def demo_pool_def bm_bit_def div_eq_0_iff)
qed

lemma demo_ok: "pool_ok demo_pool" "n \<le> 56 \<Longrightarrow> clear_tail n demo_pool"
proof -
  show "pool_ok demo_pool" by (simp add: pool_ok_def demo_pool_def bm_len_def SIZE_MAX_def)
  have len: "bm_len (pool_bitmap demo_pool) = 160" "pool_size demo_pool = 40"
    by (simp_all add: demo_pool_def bm_len_def)
  show "n \<le> 56 \<Longrightarrow> clear_tail n demo_pool"
    unfolding clear_tail_def len by (simp add: demo_used)
qed

theorem pp_alloc_hands_out_free_pages_witness:
  "\<exists>got pool' pages'. pp_alloc demo_pool 4 True \<lparr>pp_base = 0, num_pages = 0, pp_colors = 0\<rparr>
      = Inr (got, pool', pages')
    \<and> (got \<longrightarrow> (\<exists>k. allocates demo_pool 4 k pool' pages' \<and> (0x80200 + k) mod 4 = 0))"
proof -
  let ?pg = "\<lparr>pp_base = 0, num_pages = 0, pp_colors = 0\<rparr>"
  from pp_alloc_total [OF _ demo_ok(1) demo_ok(2) [of 4], of True ?pg] obtain got pool' pages' where
    r: "pp_alloc demo_pool 4 True ?pg = Inr (got, pool', pages')" by auto
  from pp_alloc_hands_out_free_pages [OF r _ demo_ok(1)]
  have "\<exists>k. allocates demo_pool 4 k pool' pages' \<and> (unat (pool_base demo_pool) div 4096 + k) mod 4 = 0" if got
    using that by auto
  moreover have "unat (pool_base demo_pool) div 4096 = 0x80200" by (simp add: demo_pool_def)
  ultimately have "got \<longrightarrow> (\<exists>k. allocates demo_pool 4 k pool' pages' \<and> (0x80200 + k) mod 4 = 0)"
    by metis
  with r show ?thesis by (intro exI conjI)
qed

text \<open>
  Two allocations never overlap: if two successive calls on a pool succeed, whatever their
  sizes and alignments, the page index ranges they return are disjoint.
\<close>

theorem pp_alloc_disjoint:
  assumes "pp_alloc pool n al pg = Inr (True, pool1, pg1)" "0 < n" "pool_ok pool"
    and "pp_alloc pool1 m al' pg' = Inr (True, pool2, pg2)" "0 < m"
  shows "\<exists>k1 k2. pp_base pg1 = pool_base pool + of_nat k1 * PAGE_SIZE \<and> num_pages pg1 = n
    \<and> pp_base pg2 = pool_base pool + of_nat k2 * PAGE_SIZE \<and> num_pages pg2 = m
    \<and> {k1..<k1 + n} \<inter> {k2..<k2 + m} = {}"
proof -
  from pp_alloc_sound [OF assms(1-3)] obtain k1 where k1: "allocates pool n k1 pool1 pg1" by auto
  have "pool_ok pool1" using assms(3) k1 by (simp add: pool_ok_def allocates_def)
  from pp_alloc_sound [OF assms(4,5) this] obtain k2 where k2: "allocates pool1 m k2 pool2 pg2" by auto
  have "i \<notin> {k2..<k2 + m}" if "i \<in> {k1..<k1 + n}" for i
    using k1 k2 that unfolding allocates_def by blast
  then have "{k1..<k1 + n} \<inter> {k2..<k2 + m} = {}" by blast
  moreover have "pp_base pg1 = pool_base pool + of_nat k1 * PAGE_SIZE" "num_pages pg1 = n"
    using k1 unfolding allocates_def by simp_all
  moreover have "pp_base pg2 = pool_base pool + of_nat k2 * PAGE_SIZE" "num_pages pg2 = m"
    using k1 k2 unfolding allocates_def by simp_all
  ultimately show ?thesis by blast
qed

theorem pp_alloc_disjoint_witness:
  "\<exists>pool1 pg1 pool2 pg2.
      pp_alloc demo_pool 3 False \<lparr>pp_base = 0, num_pages = 0, pp_colors = 0\<rparr> = Inr (True, pool1, pg1)
    \<and> pp_alloc pool1 2 False \<lparr>pp_base = 0, num_pages = 0, pp_colors = 0\<rparr> = Inr (True, pool2, pg2)
    \<and> (\<exists>k1 k2. pp_base pg1 = pool_base demo_pool + of_nat k1 * PAGE_SIZE
      \<and> pp_base pg2 = pool_base demo_pool + of_nat k2 * PAGE_SIZE
      \<and> {k1..<k1 + 3} \<inter> {k2..<k2 + 2} = {})"
proof -
  let ?pg = "\<lparr>pp_base = 0, num_pages = 0, pp_colors = 0\<rparr> :: ppages"
  have f: "first_cur demo_pool 3 False = 0" "free demo_pool \<noteq> 0" "pool_size demo_pool = 40"
    by (simp_all add: first_cur_def start_off_def demo_pool_def)
  have "run (pool_bitmap demo_pool) 9 3 False" using demo_used by (simp add: run_def used_def)
  moreover have "\<not> run (pool_bitmap demo_pool) i 3 False" if "i < 9" for i
    using demo_used [of i] that by (auto simp: run_def used_def)
  ultimately obtain pool1 pg1 where 1: "pp_alloc demo_pool 3 False ?pg = Inr (True, pool1, pg1)"
    "allocates demo_pool 3 9 pool1 pg1"
    using pp_alloc_first_fit [OF demo_ok(1) demo_ok(2) f(2), of 3 9 ?pg] f by auto
  have u1: "used pool1 i \<longleftrightarrow> i < 12" if "i < 160" for i
    using 1(2) demo_used [OF that] by (auto simp: allocates_def)
  have p1: "bm_len (pool_bitmap pool1) = 160" "pool_size pool1 = 40" "last_index pool1 = 12"
    "free pool1 \<noteq> 0" "pool_base pool1 = 0x80200000"
    using 1(2) by (simp_all add: allocates_def demo_pool_def bm_len_def)
  have ok: "pool_ok pool1" "clear_tail 2 pool1"
    using p1 u1 by (simp_all add: pool_ok_def clear_tail_def SIZE_MAX_def)
  have run: "run (pool_bitmap pool1) 12 2 False" using u1 by (simp add: run_def used_def)
  from pp_alloc_first_fit [OF ok p1(4), of 12 ?pg] run p1 obtain pool2 pg2 where
    2: "pp_alloc pool1 2 False ?pg = Inr (True, pool2, pg2)"
    by (auto simp: first_cur_def start_off_def)
  from pp_alloc_disjoint [OF 1(1) _ demo_ok(1) 2] obtain k1 k2 where
    "pp_base pg1 = pool_base demo_pool + of_nat k1 * PAGE_SIZE"
    "pp_base pg2 = pool_base demo_pool + of_nat k2 * PAGE_SIZE"
    "{k1..<k1 + 3} \<inter> {k2..<k2 + 2} = {}"
    by auto
  with 1(1) 2 show ?thesis by (intro exI conjI)
qed

text \<open>
  Allocation without alignment is complete: on a pool that counts a free page, with the
  bitmap clear behind the last page, the call returns, and it succeeds exactly if some run of
  \<open>n\<close> free pages starts inside the pool.
\<close>

theorem pp_alloc_complete_unaligned:
  assumes "0 < n" "pool_ok pool" "clear_tail n pool" "free pool \<noteq> 0"
  shows "\<exists>got pool' pages'. pp_alloc pool n False pages = Inr (got, pool', pages')
    \<and> (got \<longleftrightarrow> (\<exists>j < pool_size pool. \<forall>i \<in> {j..<j + n}. \<not> used pool i))"
proof -
  from pp_alloc_total [OF assms(1-3)] obtain got pool' pages' where
    r: "pp_alloc pool n False pages = Inr (got, pool', pages')" by blast
  have "got \<longleftrightarrow> (\<exists>j < pool_size pool. \<forall>i \<in> {j..<j + n}. \<not> used pool i)"
  proof (cases got)
    case True
    with pp_alloc_sound [OF r assms(1,2)] obtain k where "allocates pool n k pool' pages'" by auto
    then have "k < pool_size pool \<and> (\<forall>i \<in> {k..<k + n}. \<not> used pool i)" by (simp add: allocates_def)
    with True show ?thesis by blast
  next
    case False
    with pp_alloc_complete [of pool n pages pool' pages'] r assms show ?thesis
      by (auto simp: run_def used_def)
  qed
  with r show ?thesis by blast
qed

theorem pp_alloc_complete_unaligned_witness:
  "\<exists>got pool' pages'. pp_alloc demo_pool 40 False \<lparr>pp_base = 0, num_pages = 0, pp_colors = 0\<rparr>
      = Inr (got, pool', pages')
    \<and> (got \<longleftrightarrow> (\<exists>j < 40. \<forall>i \<in> {j..<j + 40}. \<not> used demo_pool i))"
  using pp_alloc_complete_unaligned [of 40 demo_pool "\<lparr>pp_base = 0, num_pages = 0, pp_colors = 0\<rparr>"]
    demo_ok(1) demo_ok(2) [of 40]
  by (simp add: demo_pool_def)

text \<open>
  C12. Release undoes allocation: freeing the pages an allocation returned, while they lie in
  the pool, makes the pool's bitmap what it was before; but the pool's counter of free pages
  stays reduced, so a pool whose counter has reached zero refuses every further allocation
  however many of its pages have been freed.
\<close>

theorem pp_free_undoes_alloc:
  assumes "pp_alloc pool n aligned pages = Inr (True, pool1, pages1)" "0 < n" "pool_ok pool"
    and "unat (pool_base pool) + pool_size pool * 4096 < 2 ^ 64"
  shows "\<exists>pool2. mem_free_ppages cn cs pages1 [pool1] = Inr [pool2]
    \<and> (\<forall>i. used pool2 i = used pool i) \<and> free pool2 = free pool - of_nat n
    \<and> (free pool = of_nat n \<and> 0 < m \<longrightarrow>
        pp_alloc pool2 m aligned' pages' = Inr (False, pool2, pages'\<lparr>pp_colors := 0, num_pages := 0\<rparr>))"
proof -
  from pp_alloc_sound [OF assms(1-3)] obtain k where k: "allocates pool n k pool1 pages1" by auto
  then have a: "unat (pool_base pool1) + pool_size pool1 * 4096 < 2 ^ 64" "k < pool_size pool1"
    "k + n \<le> bm_len (pool_bitmap pool1)"
    "pages1 = mem_ppages_get (pool_base pool1 + of_nat k * PAGE_SIZE) n"
    "free pool1 = free pool - of_nat n"
    using assms(4) by (simp_all add: allocates_def mem_ppages_get_def)
  from free_in_pool_spec [OF a(1-3), of cn cs] obtain pool2 where
    p2: "free_in_pool cn cs pages1 pool1 = Inr pool2"
    "\<forall>i. used pool2 i \<longleftrightarrow> used pool1 i \<and> i \<notin> {k..<k + n}" "free pool2 = free pool1"
    unfolding a(4) by blast
  have "\<forall>i. used pool2 i = used pool i"
    using p2(2) k unfolding allocates_def by blast
  moreover have "pp_alloc pool2 m aligned' pages' = Inr (False, pool2, pages'\<lparr>pp_colors := 0, num_pages := 0\<rparr>)"
    if "free pool = of_nat n" "0 < m"
    using that a(5) p2(3) pp_search_no_free [of pool2] by (simp add: pp_alloc_unfold)
  ultimately show ?thesis using p2(1,3) a(5) by simp
qed

theorem pp_free_undoes_alloc_witness:
  "\<exists>pool1 pages1 pool2.
      pp_alloc demo_pool 31 False \<lparr>pp_base = 0, num_pages = 0, pp_colors = 0\<rparr> = Inr (True, pool1, pages1)
    \<and> mem_free_ppages 1 1 pages1 [pool1] = Inr [pool2]
    \<and> (\<forall>i. used pool2 i = used demo_pool i)
    \<and> pp_alloc pool2 1 False pages1 = Inr (False, pool2, pages1\<lparr>pp_colors := 0, num_pages := 0\<rparr>)"
proof -
  let ?pg = "\<lparr>pp_base = 0, num_pages = 0, pp_colors = 0\<rparr> :: ppages"
  have f: "first_cur demo_pool 31 False = 0" "free demo_pool = of_nat 31" "pool_size demo_pool = 40"
    "unat (pool_base demo_pool) = 0x80200000"
    by (simp_all add: first_cur_def start_off_def demo_pool_def)
  have "run (pool_bitmap demo_pool) 9 31 False" using demo_used by (simp add: run_def used_def)
  moreover have "\<not> run (pool_bitmap demo_pool) i 31 False" if "i < 9" for i
    using demo_used [of i] that by (auto simp: run_def used_def)
  ultimately obtain pool1 pages1 where 1: "pp_alloc demo_pool 31 False ?pg = Inr (True, pool1, pages1)"
    using pp_alloc_first_fit [OF demo_ok(1) demo_ok(2), of 31 9 ?pg] f by auto
  from pp_free_undoes_alloc [OF 1 _ demo_ok(1), of 1 1 1 False pages1] f
  obtain pool2 where "mem_free_ppages 1 1 pages1 [pool1] = Inr [pool2]"
    "\<forall>i. used pool2 i = used demo_pool i"
    "pp_alloc pool2 1 False pages1 = Inr (False, pool2, pages1\<lparr>pp_colors := 0, num_pages := 0\<rparr>)"
    by auto
  with 1 show ?thesis by (intro exI conjI)
qed

text \<open>
  Reservation reports truthfully: on a range of pages inside the pool it succeeds exactly
  if every one of them was free, and marks all of them whatever it reports, touching no other
  page.
\<close>

theorem mem_reserve_ppool_exact:
  assumes "pool_ok pool" "clear_tail n pool" "0 < n" "k + n \<le> pool_size pool"
    and "unat (pool_base pool) + pool_size pool * 4096 < 2 ^ 64"
  shows "\<exists>pool'. mem_reserve_ppool_ppages pool (mem_ppages_get (pool_base pool + of_nat k * PAGE_SIZE) n)
      = Inr ((\<forall>i \<in> {k..<k + n}. \<not> used pool i), pool')
    \<and> (\<forall>i. used pool' i \<longleftrightarrow> used pool i \<or> i \<in> {k..<k + n})
    \<and> pool_base pool' = pool_base pool \<and> pool_size pool' = pool_size pool"
  using reserve_exact [OF assms] by blast

theorem mem_reserve_ppool_exact_witness:
  "\<exists>pool'. mem_reserve_ppool_ppages demo_pool
      (mem_ppages_get (pool_base demo_pool + of_nat 7 * PAGE_SIZE) 4) = Inr (False, pool')
    \<and> used pool' 10 \<and> \<not> used pool' 11"
proof -
  have "unat (pool_base demo_pool) + pool_size demo_pool * 4096 < 2 ^ 64" "7 + 4 \<le> pool_size demo_pool"
    by (simp_all add: demo_pool_def)
  from mem_reserve_ppool_exact [OF demo_ok(1) demo_ok(2) _ this(2,1)] obtain pool' where
    p: "mem_reserve_ppool_ppages demo_pool (mem_ppages_get (pool_base demo_pool + of_nat 7 * PAGE_SIZE) 4)
      = Inr ((\<forall>i \<in> {7..<7 + 4}. \<not> used demo_pool i), pool')"
    "\<forall>i. used pool' i \<longleftrightarrow> used demo_pool i \<or> i \<in> {7..<7 + 4}" by auto
  have "\<not> (\<forall>i \<in> {7..<7 + 4}. \<not> used demo_pool i)"
    using demo_used [of 7] by (intro notI) (drule bspec [of _ _ 7], simp_all)
  with p(1) have "mem_reserve_ppool_ppages demo_pool
      (mem_ppages_get (pool_base demo_pool + of_nat 7 * PAGE_SIZE) 4) = Inr (False, pool')" by simp
  moreover have "used pool' 10 \<and> \<not> used pool' 11" using p(2) demo_used [of 11] by simp
  ultimately show ?thesis by blast
qed

text \<open>
  C33. An allocation can run past the end of the pool: when the last page is free, no run of
  \<open>n > 1\<close> free pages lies inside the pool and the bitmap is clear behind it (as \<open>memset\<close> left
  it), \<open>pp_alloc\<close> does not fail but returns pages beyond the pool's last one, because
  \<open>bitmap_count_consecutive\<close> does not stop at the size it is given.
\<close>

theorem pp_alloc_overruns_pool:
  assumes "pool_ok pool" "clear_tail n pool" "free pool \<noteq> 0" "1 < n"
    and "\<not> used pool (pool_size pool - 1)" "0 < pool_size pool"
    and "\<forall>j. j + n \<le> pool_size pool \<longrightarrow> (\<exists>i \<in> {j..<j + n}. used pool i)"
  shows "\<exists>k pool' pages'. pp_alloc pool n False pages = Inr (True, pool', pages')
    \<and> num_pages pages' = n \<and> pp_base pages' = pool_base pool + of_nat k * PAGE_SIZE
    \<and> k < pool_size pool \<and> pool_size pool < k + n"
proof -
  have n: "0 < n" using assms(4) by simp
  from pp_alloc_total [OF n assms(1,2)] obtain got pool' pages' where
    r: "pp_alloc pool n False pages = Inr (got, pool', pages')" by blast
  let ?s = "pool_size pool - 1"
  have "\<not> used pool i" if "i \<in> {?s..<?s + n}" for i
  proof (cases "i = ?s")
    case False
    with that assms(2,6) have "i \<in> {pool_size pool..<bm_len (pool_bitmap pool)}"
      unfolding clear_tail_def atLeastLessThan_iff by linarith
    with assms(2) show ?thesis unfolding clear_tail_def by blast
  qed (use assms(5) in simp)
  then have "run (pool_bitmap pool) ?s n False" unfolding run_def used_def by blast
  with pp_alloc_complete [of pool n pages pool' pages' ?s] r n assms(1,3,6) have got by auto
  with pp_alloc_sound [OF r n assms(1)] obtain k where k: "allocates pool n k pool' pages'" by auto
  then have free: "\<forall>i \<in> {k..<k + n}. \<not> used pool i" and lt: "k < pool_size pool"
    unfolding allocates_def by blast+
  have "pool_size pool < k + n"
  proof (rule ccontr)
    assume "\<not> pool_size pool < k + n"
    with assms(7) free show False by (meson not_less)
  qed
  moreover have "num_pages pages' = n" "pp_base pages' = pool_base pool + of_nat k * PAGE_SIZE"
    using k by (simp_all add: allocates_def)
  moreover have "pp_alloc pool n False pages = Inr (True, pool', pages')" using r \<open>got\<close> by simp
  ultimately show ?thesis using lt by blast
qed

theorem pp_alloc_overruns_pool_witness:
  "\<exists>k pool' pages'. pp_alloc (demo_pool\<lparr>pool_size := 10, free := 1\<rparr>) 2 False
      \<lparr>pp_base = 0, num_pages = 0, pp_colors = 0\<rparr> = Inr (True, pool', pages')
    \<and> num_pages pages' = 2 \<and> pp_base pages' = 0x80200000 + of_nat k * PAGE_SIZE
    \<and> k < 10 \<and> 10 < k + 2"
proof -
  let ?p = "demo_pool\<lparr>pool_size := 10, free := 1\<rparr>"
  have u: "used ?p i \<longleftrightarrow> i < 9" if "i < 160" for i
    using demo_used [OF that] by (simp add: used_def)
  have s: "pool_size ?p = 10" "bm_len (pool_bitmap ?p) = 160" "free ?p \<noteq> 0" "pool_base ?p = 0x80200000"
    by (simp_all add: demo_pool_def bm_len_def)
  have "pool_ok ?p" "clear_tail 2 ?p"
    using s u by (simp_all add: pool_ok_def clear_tail_def SIZE_MAX_def)
  moreover have "\<forall>j. j + 2 \<le> pool_size ?p \<longrightarrow> (\<exists>i \<in> {j..<j + 2}. used ?p i)"
  proof (intro allI impI)
    fix j assume "j + 2 \<le> pool_size ?p"
    then have "used ?p j" using u [of j] s(1) by simp
    then show "\<exists>i \<in> {j..<j + 2}. used ?p i" by (intro bexI [of _ j]) simp_all
  qed
  moreover have "\<not> used ?p (pool_size ?p - 1)" using u [of 9] s(1) by simp
  ultimately show ?thesis
    using pp_alloc_overruns_pool [of ?p 2 "\<lparr>pp_base = 0, num_pages = 0, pp_colors = 0\<rparr>"] s by simp
qed

definition clr_pool :: page_pool where
  "clr_pool = \<lparr>pool_base = 0x80200000, pool_size = 8, free = 6, last_index = 0, pool_bitmap = [0x44]\<rparr>"

lemma clr_pool_next: "pp_next_clr 2 1 0x80200000 i 1 = Inr (if even i then i else i + 1)"
proof -
  have h: "has_clr 2 1 0 1 j \<longleftrightarrow> even j" for j
    by (auto simp: has_clr_def bit_1_iff even_iff_mod_2_eq_zero)
  have "pp_next_clr_from 2 1 0 1 i = Some (if even i then i else i + 1)"
    by (subst pp_next_clr_from.simps) (use h in \<open>simp add: h [unfolded One_nat_def] pp_next_clr_from.simps [of 2 "Suc 0" 0 1 "Suc i"]\<close>)
  then show ?thesis by (simp add: pp_next_clr_def)
qed

lemma mark_clr_rec:
  "0 < n \<Longrightarrow> mark_clr cn cs base colors upd n index bm =
    bindR (pp_next_clr cn cs base index colors) (\<lambda>index.
    bindR (upd bm index) (\<lambda>bm. mark_clr cn cs base colors upd (n - 1) (index + 1) bm))"
  by (cases n) simp_all

lemma clr_pool_get: "k < 8 \<Longrightarrow> bitmap_get (pool_bitmap clr_pool) k = Inr (k = 2 \<or> k = 6)"
proof -
  assume "k < 8"
  then have "k \<in> {0, 1, 2, 3, 4, 5, 6, 7}" by auto
  then show ?thesis
    by (elim insertE emptyE)
       (simp_all add: clr_pool_def bitmap_get_def BITMAP_GRANULE_LEN_def)
qed

lemma clr_pool_search: "clr_search 2 1 clr_pool 1 2 8 0 0 0 = Inr (2, 3, 7)"
proof -
  note next_clr = clr_pool_next [unfolded One_nat_def]
  have base: "pool_base clr_pool = 0x80200000" by (simp add: clr_pool_def)
  have s0: "clr_skip 2 1 clr_pool 1 8 0 = Inr 0" by (subst clr_skip.simps) (simp add: clr_pool_get)
  have s3: "clr_skip 2 1 clr_pool 1 8 3 = Inr 3" by (subst clr_skip.simps) (simp add: clr_pool_get)
  have c0: "clr_count 2 1 clr_pool 1 2 8 0 0 = Inr (1, 2)"
    by (subst clr_count.simps, simp add: clr_pool_get base next_clr)
       (subst clr_count.simps, simp add: clr_pool_get base next_clr)
  have c3: "clr_count 2 1 clr_pool 1 2 8 3 0 = Inr (2, 6)"
    by (subst clr_count.simps, simp add: clr_pool_get base next_clr)
       (subst clr_count.simps, simp add: clr_pool_get base next_clr, 
        subst clr_count.simps, simp add: clr_pool_get base next_clr)
  have "clr_search 2 1 clr_pool 1 2 8 3 1 0 = Inr (2, 3, 7)"
    by (subst clr_search.simps, simp add: s3 [unfolded One_nat_def] c3 [unfolded One_nat_def]) (subst clr_search.simps, simp)
  then show ?thesis by (subst clr_search.simps, simp add: s0 [unfolded One_nat_def] c0 [unfolded One_nat_def])
qed

text \<open>
  Coloured allocation can hand out a page that is in use: the search loop of
  \<open>pp_alloc_clr\<close> restarts with \<open>index++\<close>, which may be a page of another colour. With two
  colours, pages 2 and 6 in use and two pages of colour 0 wanted, it takes page 3 (of colour 1)
  for the first one and then marks pages 4 and 6, the second of which was already taken.
\<close>

theorem pp_alloc_clr_double_allocates:
  "pp_alloc_clr 2 1 clr_pool 2 1 \<lparr>pp_base = 0, num_pages = 0, pp_colors = 0\<rparr>
    = Inr (True, clr_pool\<lparr>pool_bitmap := [0x54], free := 4, last_index := 7\<rparr>,
        \<lparr>pp_base = 0x80203000, num_pages = 2, pp_colors = 1\<rparr>)
   \<and> used clr_pool 6 \<and> \<not> has_clr 2 1 0 1 3"
proof -
  have base: "pool_base clr_pool = 0x80200000" "last_index clr_pool = 0" "pool_size clr_pool = 8"
     "free clr_pool = 6" "pool_bitmap clr_pool = [0x44]" by (simp_all add: clr_pool_def)
  have m: "mark_clr 2 1 0x80200000 1 bitmap_set 2 3 [0x44] = Inr ([0x54], 7)"
    by (simp add: mark_clr_rec clr_pool_next clr_pool_next [unfolded One_nat_def] bitmap_set_def BITMAP_GRANULE_LEN_def)
  have "used clr_pool 6" by (simp add: used_def base bm_bit_def)
  moreover have "\<not> has_clr 2 1 0 1 3" by (simp add: has_clr_def bit_1_iff)
  ultimately show ?thesis
    unfolding pp_alloc_clr_def by (simp add: base clr_pool_next clr_pool_next [unfolded One_nat_def] clr_pool_search [unfolded One_nat_def] m [unfolded One_nat_def] PAGE_SIZE_def Let_def)
qed

end
