(* ===== verification/Vmm_Assign.thy ===== *)
theory Vmm_Assign
  imports Vm_Config
begin

text \<open>
  The assignment of physical cores to virtual machines at boot, \<open>vmm_assign_vcpu\<close> of
  \<open>src/core/vmm.c\<close>. Every core runs the function at the same time; an iteration of its loops is
  atomic under the lock of the VM it looks at, and the barrier between the loops is passed once
  every core has reached it. The interleavings of the iterations are a step relation.
\<close>

section \<open>One iteration\<close>

record vm_assignment =
  va_master :: bool
  va_ncpus :: nat
  va_cpus :: cpumap

text \<open>
  The bodies of the two loops for one VM. The result is \<open>Some m\<close> when the core is assigned to
  the VM, \<open>m\<close> telling whether as its master.
\<close>

definition assign_affinity :: "vm_config \<Rightarrow> cpuid \<Rightarrow> vm_assignment \<Rightarrow> vm_assignment \<times> bool option" where
  "assign_affinity cfg c a =
    (if cpu_affinity cfg AND push_bit c 1 \<noteq> 0 then
       if \<not> va_master a then
         (a\<lparr>va_master := True, va_ncpus := va_ncpus a + 1, va_cpus := va_cpus a OR push_bit c 1\<rparr>, Some True)
       else if va_ncpus a < plat_cpu_num (cfg_platform cfg) then
         (a\<lparr>va_ncpus := va_ncpus a + 1, va_cpus := va_cpus a OR push_bit c 1\<rparr>, Some False)
       else (a, None)
     else (a, None))"

definition assign_remaining :: "vm_config \<Rightarrow> cpuid \<Rightarrow> vm_assignment \<Rightarrow> vm_assignment \<times> bool option" where
  "assign_remaining cfg c a =
    (if va_ncpus a < plat_cpu_num (cfg_platform cfg) then
       if \<not> va_master a then
         (a\<lparr>va_master := True, va_ncpus := va_ncpus a + 1, va_cpus := va_cpus a OR push_bit c 1\<rparr>, Some True)
       else (a\<lparr>va_ncpus := va_ncpus a + 1, va_cpus := va_cpus a OR push_bit c 1\<rparr>, Some False)
     else (a, None))"

section \<open>All cores\<close>

text \<open>Where a core is: in the first loop, at the barrier, in the second loop, or returned.\<close>

datatype assign_pc = Affinity nat | At_barrier | Remaining nat | Returned

record assign_state =
  vm_assign :: "vm_assignment list"
  assign_pos :: "cpuid \<Rightarrow> assign_pc"
  assigned_to :: "cpuid \<Rightarrow> (bool \<times> nat) option"

definition past_first_loop :: "assign_pc \<Rightarrow> bool" where
  "past_first_loop p = (case p of Affinity _ \<Rightarrow> False | _ \<Rightarrow> True)"

text \<open>An iteration of a loop at the VM \<open>i\<close>, and the loop's exit.\<close>

definition assign_iter ::
  "(vm_config \<Rightarrow> cpuid \<Rightarrow> vm_assignment \<Rightarrow> vm_assignment \<times> bool option) \<Rightarrow> vm_config list \<Rightarrow> cpuid \<Rightarrow> nat \<Rightarrow>
    assign_pc \<Rightarrow> assign_pc \<Rightarrow> assign_state \<Rightarrow> assign_state" where
  "assign_iter body cfgs c i again exit s =
    (if i < length cfgs \<and> assigned_to s c = None then
       case body (cfgs ! i) c (vm_assign s ! i) of (a, r) \<Rightarrow>
         s\<lparr>vm_assign := (vm_assign s)[i := a], assign_pos := (assign_pos s)(c := again),
           assigned_to := (assigned_to s)(c := map_option (\<lambda>m. (m, i)) r)\<rparr>
     else s\<lparr>assign_pos := (assign_pos s)(c := exit)\<rparr>)"

text \<open>\<open>None\<close>: the core waits at the barrier, or has returned.\<close>

definition vmm_assign_vcpu :: "vm_config list \<Rightarrow> cpuid set \<Rightarrow> cpuid \<Rightarrow> assign_state \<Rightarrow> assign_state option" where
  "vmm_assign_vcpu cfgs P c s =
    (case assign_pos s c of
       Affinity i \<Rightarrow> Some (assign_iter assign_affinity cfgs c i (Affinity (i + 1)) At_barrier s)
     | At_barrier \<Rightarrow>
         if \<forall>d \<in> P. past_first_loop (assign_pos s d)
         then Some (s\<lparr>assign_pos := (assign_pos s)(c := Remaining 0)\<rparr>) else None
     | Remaining i \<Rightarrow> Some (assign_iter assign_remaining cfgs c i (Remaining (i + 1)) Returned s)
     | Returned \<Rightarrow> None)"

inductive assign_reach :: "vm_config list \<Rightarrow> cpuid set \<Rightarrow> assign_state \<Rightarrow> assign_state \<Rightarrow> bool" for cfgs P where
  start: "assign_reach cfgs P s s"
| step: "assign_reach cfgs P s0 s \<Longrightarrow> c \<in> P \<Longrightarrow> vmm_assign_vcpu cfgs P c s = Some s' \<Longrightarrow> assign_reach cfgs P s0 s'"

inductive_cases assign_reachE: "assign_reach cfgs P s0 s"

definition assign_start :: "vm_config list \<Rightarrow> assign_state" where
  "assign_start cfgs = \<lparr>vm_assign = replicate (length cfgs) \<lparr>va_master = False, va_ncpus = 0, va_cpus = 0\<rparr>,
    assign_pos = (\<lambda>_. Affinity 0), assigned_to = (\<lambda>_. None)\<rparr>"

section \<open>The invariant\<close>

text \<open>The cores given to a VM, and those that were made its master.\<close>

definition owners :: "assign_state \<Rightarrow> nat \<Rightarrow> cpuid set" where
  "owners s i = {c. \<exists>m. assigned_to s c = Some (m, i)}"

definition masters :: "assign_state \<Rightarrow> nat \<Rightarrow> cpuid set" where
  "masters s i = {c. assigned_to s c = Some (True, i)}"

abbreviation want :: "vm_config list \<Rightarrow> nat \<Rightarrow> nat" where
  "want cfgs i \<equiv> plat_cpu_num (cfg_platform (cfgs ! i))"

definition vm_ok :: "vm_config list \<Rightarrow> assign_state \<Rightarrow> nat \<Rightarrow> bool" where
  "vm_ok cfgs s i \<longleftrightarrow>
    (let a = vm_assign s ! i in
     va_ncpus a = card (owners s i) \<and> va_ncpus a \<le> want cfgs i
     \<and> (\<forall>c. bit (va_cpus a) c \<longleftrightarrow> c \<in> owners s i)
     \<and> (if va_master a then \<exists>c. masters s i = {c} else owners s i = {}))"

text \<open>What an unassigned core has seen: the VMs behind it in the second loop are full.\<close>

definition scanned :: "vm_config list \<Rightarrow> assign_state \<Rightarrow> cpuid \<Rightarrow> nat set" where
  "scanned cfgs s c = (case assign_pos s c of Remaining i \<Rightarrow> {..<i} | Returned \<Rightarrow> {..<length cfgs} | _ \<Rightarrow> {})"

definition assign_inv :: "vm_config list \<Rightarrow> cpuid set \<Rightarrow> assign_state \<Rightarrow> bool" where
  "assign_inv cfgs P s \<longleftrightarrow> length (vm_assign s) = length cfgs
    \<and> (\<forall>i < length cfgs. vm_ok cfgs s i \<and> owners s i \<subseteq> P)
    \<and> (\<forall>c m i. assigned_to s c = Some (m, i) \<longrightarrow> i < length cfgs)
    \<and> (\<forall>c \<in> P. assigned_to s c = None \<longrightarrow>
        (\<forall>i \<in> scanned cfgs s c. i < length cfgs \<longrightarrow> va_ncpus (vm_assign s ! i) = want cfgs i))"

text \<open>Both bodies either leave the VM alone or take the core, within the VM's size.\<close>

definition takes :: "vm_config \<Rightarrow> cpuid \<Rightarrow> vm_assignment \<Rightarrow> vm_assignment \<Rightarrow> bool option \<Rightarrow> bool" where
  "takes cfg c a a' r \<longleftrightarrow>
    (case r of None \<Rightarrow> a' = a
     | Some m \<Rightarrow> m = (\<not> va_master a) \<and> va_master a' \<and> va_ncpus a' = va_ncpus a + 1
         \<and> va_cpus a' = va_cpus a OR push_bit c 1
         \<and> (va_master a \<longrightarrow> va_ncpus a < plat_cpu_num (cfg_platform cfg)))"

lemma bodies_take:
  "assign_affinity cfg c a = (a', r) \<Longrightarrow> takes cfg c a a' r"
  "assign_remaining cfg c a = (a', r) \<Longrightarrow> takes cfg c a a' r"
  by (auto simp: assign_affinity_def assign_remaining_def takes_def split: if_splits)

lemma remaining_full:
  "assign_remaining cfg c a = (a', None) \<Longrightarrow> \<not> va_ncpus a < plat_cpu_num (cfg_platform cfg)"
  by (auto simp: assign_remaining_def split: if_splits)

lemma owners_upd:
  assumes "assigned_to s c = None" "assigned_to s' = (assigned_to s)(c := Some (m, i))"
  shows "owners s' j = (if j = i then insert c (owners s i) else owners s j)"
    and "masters s' j = (if j = i \<and> m then insert c (masters s i) else masters s j)"
    and "c \<notin> owners s j"
  using assms by (auto simp: owners_def masters_def)

lemma take_vm_ok:
  assumes "takes (cfgs ! i) c (vm_assign s ! i) a' (Some m)" "assigned_to s c = None"
    and "vm_ok cfgs s i" "owners s i \<subseteq> P" "finite P" "1 \<le> want cfgs i" "c < 64" "i < length (vm_assign s)"
    and "vm_assign s' = (vm_assign s)[i := a']" "assigned_to s' = (assigned_to s)(c := Some (m, i))"
  shows "vm_ok cfgs s' i"
proof -
  note ow = owners_upd [OF assms(2,10)]
  have fin: "finite (owners s i)" using assms(4,5) finite_subset by blast
  have a': "vm_assign s' ! i = a'" using assms(8,9) by simp
  have card: "card (owners s' i) = card (owners s i) + 1" using ow(1) [of i] ow(3) [of i] fin by simp
  have t: "m = (\<not> va_master (vm_assign s ! i))" "va_master a'" "va_ncpus a' = va_ncpus (vm_assign s ! i) + 1"
    "va_cpus a' = va_cpus (vm_assign s ! i) OR push_bit c 1"
    "va_master (vm_assign s ! i) \<longrightarrow> va_ncpus (vm_assign s ! i) < want cfgs i"
    using assms(1) by (auto simp: takes_def)
  note ok = assms(3) [unfolded vm_ok_def Let_def]
  have "bit (va_cpus a') d \<longleftrightarrow> d \<in> owners s' i" for d
    using ok assms(7) ow(1) [of i] unfolding t(4) by (auto simp: bit_or_iff bit_one_shift)
  moreover have "va_ncpus a' = card (owners s' i)" using ok card t(3) by simp
  moreover have "va_ncpus a' \<le> want cfgs i"
    using ok t(3,5) assms(6) by (cases "va_master (vm_assign s ! i)") auto
  moreover have "\<exists>d. masters s' i = {d}"
  proof (cases m)
    case True
    with ok t(1) have "owners s i = {}" by simp
    then have "masters s i = {}" by (auto simp: owners_def masters_def)
    with ow(2) [of i] True show ?thesis by auto
  next
    case False
    with ok t(1) ow(2) [of i] show ?thesis by simp
  qed
  ultimately show ?thesis using t(2) a' by (simp add: vm_ok_def)
qed

lemma vm_ok_other:
  assumes "vm_ok cfgs s j" "vm_assign s' ! j = vm_assign s ! j" "owners s' j = owners s j" "masters s' j = masters s j"
  shows "vm_ok cfgs s' j"
  using assms(1) unfolding vm_ok_def assms(2-4) .

lemma vm_ok_le: "vm_ok cfgs s i \<Longrightarrow> va_ncpus (vm_assign s ! i) \<le> want cfgs i"
  unfolding vm_ok_def Let_def by blast

lemma same_assignment:
  assumes "vm_assign s' = vm_assign s" "assigned_to s' = assigned_to s"
  shows "vm_ok cfgs s' = vm_ok cfgs s" "owners s' = owners s"
  using assms by (simp_all add: vm_ok_def owners_def masters_def fun_eq_iff)

lemma pos_irrelevant [simp]:
  "vm_ok cfgs (s\<lparr>assign_pos := p\<rparr>) j = vm_ok cfgs s j" "owners (s\<lparr>assign_pos := p\<rparr>) j = owners s j"
  by (simp_all add: vm_ok_def owners_def masters_def)

lemma assign_invI:
  assumes "length (vm_assign s) = length cfgs" "\<And>i. i < length cfgs \<Longrightarrow> vm_ok cfgs s i"
    and "\<And>i. i < length cfgs \<Longrightarrow> owners s i \<subseteq> P" "\<And>c m i. assigned_to s c = Some (m, i) \<Longrightarrow> i < length cfgs"
    and "\<And>c i. c \<in> P \<Longrightarrow> assigned_to s c = None \<Longrightarrow> i \<in> scanned cfgs s c \<Longrightarrow> i < length cfgs \<Longrightarrow>
      va_ncpus (vm_assign s ! i) = want cfgs i"
  shows "assign_inv cfgs P s"
  using assms unfolding assign_inv_def by blast

lemma assign_invD:
  assumes "assign_inv cfgs P s"
  shows "length (vm_assign s) = length cfgs" "i < length cfgs \<Longrightarrow> vm_ok cfgs s i"
    "i < length cfgs \<Longrightarrow> owners s i \<subseteq> P" "assigned_to s c = Some (m, i) \<Longrightarrow> i < length cfgs"
    "c \<in> P \<Longrightarrow> assigned_to s c = None \<Longrightarrow> i \<in> scanned cfgs s c \<Longrightarrow> i < length cfgs \<Longrightarrow>
      va_ncpus (vm_assign s ! i) = want cfgs i"
  using assms unfolding assign_inv_def by blast+

lemma iter_some:
  assumes inv: "assign_inv cfgs P s" and c: "c \<in> P" "finite P" "P \<subseteq> {..<64}" "\<forall>i < length cfgs. 1 \<le> want cfgs i"
    and True: "i < length cfgs" "assigned_to s c = None" and tk: "takes (cfgs ! i) c (vm_assign s ! i) a' (Some m)"
    and s': "vm_assign s' = (vm_assign s)[i := a']" "assign_pos s' = (assign_pos s)(c := again)"
      "assigned_to s' = (assigned_to s)(c := Some (m, i))"
  shows "assign_inv cfgs P s'"
proof -
  have len: "length (vm_assign s) = length cfgs" using assign_invD(1) [OF inv] .
  note at = s'(3)
    note ow = owners_upd [OF _ at]
    note D = assign_invD [OF inv]
    have ow_i: "owners s' i = insert c (owners s i)" using ow(1) [of i] True by simp
    have okj: "vm_ok cfgs s' j" if "j < length cfgs" for j
    proof (cases "j = i")
      case j: True
      have "vm_ok cfgs s' i"
      proof (rule take_vm_ok [OF tk True(2) D(2) [OF True(1)] D(3) [OF True(1)] c(2) _ _ _ s'(1) at])
        show "1 \<le> want cfgs i" using c(4) True(1) by blast
        show "c < 64" using c(1,3) by blast
        show "i < length (vm_assign s)" using len True(1) by simp
      qed
      with j show ?thesis by simp
    next
      case False
      with ow(1,2) [of j] True(2) s'(1) show ?thesis by (intro vm_ok_other [OF D(2) [OF that]]) simp_all
    qed
    have mono: "va_ncpus (vm_assign s' ! j) = want cfgs j"
      if j: "j < length cfgs" "va_ncpus (vm_assign s ! j) = want cfgs j" for j
    proof (cases "j = i")
      case ji: True
      from tk have "va_ncpus a' = va_ncpus (vm_assign s ! i) + 1" by (simp add: takes_def)
      moreover have "va_ncpus (vm_assign s' ! i) \<le> want cfgs i" using vm_ok_le okj [of i] ji j(1) by simp
      ultimately show ?thesis using ji j len s'(1) by simp
    next
      case False
      with j s'(1) show ?thesis by simp
    qed
    show ?thesis
    proof (rule assign_invI)
      show "length (vm_assign s') = length cfgs" using len s'(1) by simp
    next
      fix j assume "j < length cfgs"
      then show "vm_ok cfgs s' j" by (rule okj)
      show "owners s' j \<subseteq> P"
        using D(3) [OF \<open>j < length cfgs\<close>] ow(1) [OF True(2), of j] c(1) by (cases "j = i") simp_all
    next
      fix d m' j assume "assigned_to s' d = Some (m', j)"
      then show "j < length cfgs" using at True D(4) [of d m' j] by (auto split: if_splits)
    next
      fix d j assume d: "d \<in> P" "assigned_to s' d = None" "j \<in> scanned cfgs s' d" "j < length cfgs"
      then have "d \<noteq> c" "assigned_to s d = None" using at by (auto split: if_splits)
      moreover from this(1) d(3) have "j \<in> scanned cfgs s d" by (simp add: scanned_def s'(2))
      ultimately show "va_ncpus (vm_assign s' ! j) = want cfgs j" using D(5) [of d j] d(1,4) mono [of j] by simp
    qed
qed

lemma iter_same:
  assumes inv: "assign_inv cfgs P s" and same: "vm_assign s' = vm_assign s" "assigned_to s' = assigned_to s"
    and pos: "assign_pos s' = (assign_pos s)(c := p)"
    and seen: "\<And>i. assigned_to s c = None \<Longrightarrow> i \<in> scanned cfgs s' c \<Longrightarrow> i < length cfgs \<Longrightarrow>
      va_ncpus (vm_assign s ! i) = want cfgs i"
  shows "assign_inv cfgs P s'"
proof (rule assign_invI)
  note D = assign_invD [OF inv] and S = same_assignment [OF same]
  show "length (vm_assign s') = length cfgs" using D(1) same(1) by simp
  show "vm_ok cfgs s' i" "owners s' i \<subseteq> P" if "i < length cfgs" for i
    unfolding S using D(2,3) that by blast+
  show "i < length cfgs" if "assigned_to s' d = Some (m, i)" for d m i
    using D(4) that unfolding same(2) by blast
  fix d i assume d: "d \<in> P" "assigned_to s' d = None" "i \<in> scanned cfgs s' d" "i < length cfgs"
  show "va_ncpus (vm_assign s' ! i) = want cfgs i"
  proof (cases "d = c")
    case True
    with seen d same show ?thesis by simp
  next
    case False
    with d(3) pos have "i \<in> scanned cfgs s d" by (simp add: scanned_def)
    with D(5) d same show ?thesis by simp
  qed
qed

lemma iter_inv:
  assumes inv: "assign_inv cfgs P s" and c: "c \<in> P" "finite P" "P \<subseteq> {..<64}" "\<forall>i < length cfgs. 1 \<le> want cfgs i"
    and body: "\<And>a a' r. body (cfgs ! i) c a = (a', r) \<Longrightarrow> takes (cfgs ! i) c a a' r"
    and again: "\<And>a' j. i < length cfgs \<Longrightarrow> assigned_to s c = None \<Longrightarrow> body (cfgs ! i) c (vm_assign s ! i) = (a', None) \<Longrightarrow>
        j \<in> scanned cfgs (s\<lparr>assign_pos := (assign_pos s)(c := again)\<rparr>) c \<Longrightarrow> j < length cfgs \<Longrightarrow>
        va_ncpus (vm_assign s ! j) = want cfgs j"
    and exit: "\<And>j. assigned_to s c = None \<Longrightarrow> \<not> i < length cfgs \<Longrightarrow>
        j \<in> scanned cfgs (s\<lparr>assign_pos := (assign_pos s)(c := exit)\<rparr>) c \<Longrightarrow> j < length cfgs \<Longrightarrow>
        va_ncpus (vm_assign s ! j) = want cfgs j"
  shows "assign_inv cfgs P (assign_iter body cfgs c i again exit s)"
proof (cases "i < length cfgs \<and> assigned_to s c = None")
  case False
  then have e: "assign_iter body cfgs c i again exit s = s\<lparr>assign_pos := (assign_pos s)(c := exit)\<rparr>"
    unfolding assign_iter_def by (rule if_not_P)
  show ?thesis
    unfolding e by (rule iter_same [OF inv]) (use exit False in auto)
next
  case True
  obtain a' r where b: "body (cfgs ! i) c (vm_assign s ! i) = (a', r)" by (cases "body (cfgs ! i) c (vm_assign s ! i)")
  define s' where "s' = assign_iter body cfgs c i again exit s"
  have s': "vm_assign s' = (vm_assign s)[i := a']" "assign_pos s' = (assign_pos s)(c := again)"
    "assigned_to s' = (assigned_to s)(c := map_option (\<lambda>m. (m, i)) r)"
    using True b by (simp_all add: s'_def assign_iter_def)
  have "assign_inv cfgs P s'"
  proof (cases r)
    case None
    with body [OF b] have "a' = vm_assign s ! i" by (simp add: takes_def)
    with s' True None have same: "vm_assign s' = vm_assign s" "assigned_to s' = assigned_to s" by auto
    have "scanned cfgs s' c = scanned cfgs (s\<lparr>assign_pos := (assign_pos s)(c := again)\<rparr>) c"
      by (simp add: scanned_def s'(2))
    with again True b None show ?thesis by (intro iter_same [OF inv same s'(2)]) auto
  next
    case (Some m)
    with s' body [OF b] True show ?thesis by (intro iter_some [OF inv c]) auto
  qed
  then show ?thesis by (simp add: s'_def)
qed

lemma step_inv:
  assumes inv: "assign_inv cfgs P s" and c: "c \<in> P" "finite P" "P \<subseteq> {..<64}" "\<forall>i < length cfgs. 1 \<le> want cfgs i"
    and st: "vmm_assign_vcpu cfgs P c s = Some s'"
  shows "assign_inv cfgs P s'"
proof (cases "assign_pos s c")
  case (Affinity i)
  with st have "s' = assign_iter assign_affinity cfgs c i (Affinity (i + 1)) At_barrier s"
    by (simp add: vmm_assign_vcpu_def)
  moreover have "assign_inv cfgs P \<dots>"
  proof (rule iter_inv [OF inv c])
    show "takes (cfgs ! i) c a a' r" if "assign_affinity (cfgs ! i) c a = (a', r)" for a a' r
      using bodies_take(1) [OF that] .
  qed (auto simp: scanned_def)
  ultimately show ?thesis by simp
next
  case At_barrier
  with st have "s' = s\<lparr>assign_pos := (assign_pos s)(c := Remaining 0)\<rparr>"
    by (auto simp: vmm_assign_vcpu_def split: if_splits)
  then show ?thesis by (intro iter_same [OF inv]) (auto simp: scanned_def)
next
  case (Remaining i)
  with st have e: "s' = assign_iter assign_remaining cfgs c i (Remaining (i + 1)) Returned s"
    by (simp add: vmm_assign_vcpu_def)
  have seen: "va_ncpus (vm_assign s ! j) = want cfgs j" if "assigned_to s c = None" "j < i" "j < length cfgs" for j
    using inv c(1) that Remaining by (simp add: assign_inv_def scanned_def)
  have "va_ncpus (vm_assign s ! i) = want cfgs i"
    if "i < length cfgs" "assign_remaining (cfgs ! i) c (vm_assign s ! i) = (a', None)" for a'
  proof -
    have "va_ncpus (vm_assign s ! i) \<le> want cfgs i" using inv that(1) vm_ok_le by (simp add: assign_inv_def)
    with remaining_full [OF that(2)] show ?thesis by simp
  qed
  note full = this
  show ?thesis
    unfolding e
  proof (rule iter_inv [OF inv c])
    show "takes (cfgs ! i) c a a' r" if "assign_remaining (cfgs ! i) c a = (a', r)" for a a' r
      using bodies_take(2) [OF that] .
  qed (use seen full in \<open>auto simp: scanned_def less_Suc_eq\<close>)
next
  case Returned
  with st show ?thesis by (simp add: vmm_assign_vcpu_def)
qed

lemma start_inv: "assign_inv cfgs P (assign_start cfgs)"
  by (auto simp: assign_inv_def assign_start_def vm_ok_def owners_def masters_def scanned_def)

lemma reach_inv:
  assumes "assign_reach cfgs P (assign_start cfgs) s" "finite P" "P \<subseteq> {..<64}" "\<forall>i < length cfgs. 1 \<le> want cfgs i"
  shows "assign_inv cfgs P s"
  using assms(1)
proof (induction "assign_start cfgs" s rule: assign_reach.induct)
  case start
  show ?case by (rule start_inv)
next
  case (step s c s')
  then show ?case using step_inv assms(2-4) by blast
qed

section \<open>Progress\<close>

text \<open>The iterations a core has left.\<close>

definition work_left :: "nat \<Rightarrow> assign_pc \<Rightarrow> nat" where
  "work_left n p = (case p of Affinity i \<Rightarrow> 2 * (n + 2) + (n + 1 - i) | At_barrier \<Rightarrow> n + 3
    | Remaining i \<Rightarrow> n + 1 - i + 1 | Returned \<Rightarrow> 0)"

lemma iter_pos:
  "assign_pos (assign_iter body cfgs c i again exit s) =
    (assign_pos s)(c := if i < length cfgs \<and> assigned_to s c = None then again else exit)"
  by (auto simp: assign_iter_def split: prod.splits)

lemma step_work:
  assumes "vmm_assign_vcpu cfgs P c s = Some s'"
  shows "work_left (length cfgs) (assign_pos s' c) < work_left (length cfgs) (assign_pos s c)"
    and "d \<noteq> c \<Longrightarrow> assign_pos s' d = assign_pos s d"
  using assms
  by (auto simp: vmm_assign_vcpu_def work_left_def iter_pos split: assign_pc.splits if_splits)

lemma some_step:
  assumes "c \<in> P" "assign_pos s c \<noteq> Returned"
  shows "\<exists>d \<in> P. \<exists>s'. vmm_assign_vcpu cfgs P d s = Some s'"
proof (cases "\<exists>d \<in> P. \<not> past_first_loop (assign_pos s d)")
  case True
  then obtain d where d: "d \<in> P" "\<not> past_first_loop (assign_pos s d)" by blast
  from d(2) obtain i where "assign_pos s d = Affinity i"
    by (cases "assign_pos s d") (simp_all add: past_first_loop_def)
  with d(1)  show ?thesis by (intro bexI [of _ d]) (simp_all add: vmm_assign_vcpu_def)
next
  case False
  with assms show ?thesis
    by (intro bexI [of _ c]) (auto simp: vmm_assign_vcpu_def past_first_loop_def split: assign_pc.splits)
qed

lemma assign_reach_trans:
  assumes "assign_reach cfgs P s1 s2" "assign_reach cfgs P s0 s1"
  shows "assign_reach cfgs P s0 s2"
  using assms by (induction rule: assign_reach.induct) (auto intro: assign_reach.step)

lemma finishes:
  assumes "finite P"
  shows "\<exists>s'. assign_reach cfgs P s s' \<and> (\<forall>c \<in> P. assign_pos s' c = Returned)"
proof (induction "\<Sum>c \<in> P. work_left (length cfgs) (assign_pos s c)" arbitrary: s rule: less_induct)
  case less
  show ?case
  proof (cases "\<forall>c \<in> P. assign_pos s c = Returned")
    case True
    then show ?thesis using assign_reach.start by blast
  next
    case False
    then obtain c s1 where c: "c \<in> P" "vmm_assign_vcpu cfgs P c s = Some s1" using some_step by blast
    from step_work [OF c(2)] have "\<forall>d \<in> P. work_left (length cfgs) (assign_pos s1 d) \<le> work_left (length cfgs) (assign_pos s d)"
      by (metis less_or_eq_imp_le order.refl)
    with step_work(1) [OF c(2)] c(1) assms have
      "(\<Sum>c \<in> P. work_left (length cfgs) (assign_pos s1 c)) < (\<Sum>c \<in> P. work_left (length cfgs) (assign_pos s c))"
      by (intro sum_strict_mono_ex1) auto
    from less [OF this] obtain s' where s': "assign_reach cfgs P s1 s'" "\<forall>c \<in> P. assign_pos s' c = Returned" by blast
    have "assign_reach cfgs P s s1" by (rule assign_reach.step [OF assign_reach.start c])
    with s' show ?thesis using assign_reach_trans by blast
  qed
qed

section \<open>Properties\<close>

text \<open>
  C31. If every configured VM has at least one core, then however the cores interleave, the
  assignment is a partition within the configured sizes:
  in every reachable state each VM has been given at most its number of cores, its counter and
  its set of cores agree with the cores that were told so, a VM with any core has exactly one
  master, and no core is in two VMs. When a core returns unassigned, every VM is full.
\<close>

theorem vmm_assign_partition:
  assumes "assign_reach cfgs P (assign_start cfgs) s" "finite P" "P \<subseteq> {..<64}"
    and "\<forall>cfg \<in> set cfgs. 1 \<le> plat_cpu_num (cfg_platform cfg)"
  shows "(\<forall>i < length cfgs. card (owners s i) \<le> want cfgs i
      \<and> va_ncpus (vm_assign s ! i) = card (owners s i)
      \<and> (\<forall>c. bit (va_cpus (vm_assign s ! i)) c \<longleftrightarrow> c \<in> owners s i)
      \<and> (owners s i \<noteq> {} \<longrightarrow> (\<exists>!c. c \<in> masters s i))
      \<and> (\<forall>j. i \<noteq> j \<longrightarrow> owners s i \<inter> owners s j = {}))
    \<and> (\<forall>c \<in> P. assign_pos s c = Returned \<longrightarrow> assigned_to s c = None \<longrightarrow>
        (\<forall>i < length cfgs. card (owners s i) = want cfgs i))"
proof -
  have "\<forall>i < length cfgs. 1 \<le> want cfgs i" using assms(4) by simp
  note D = assign_invD [OF reach_inv [OF assms(1-3) this]]
  have vm: "card (owners s i) \<le> want cfgs i" "va_ncpus (vm_assign s ! i) = card (owners s i)"
    "bit (va_cpus (vm_assign s ! i)) c \<longleftrightarrow> c \<in> owners s i"
    "owners s i \<noteq> {} \<Longrightarrow> \<exists>!c. c \<in> masters s i" if "i < length cfgs" for i c
    using D(2) [OF that] by (auto simp: vm_ok_def Let_def split: if_splits)
  have "owners s i \<inter> owners s j = {}" if "i \<noteq> j" for i j using that by (auto simp: owners_def)
  moreover have "card (owners s i) = want cfgs i"
    if "c \<in> P" "assign_pos s c = Returned" "assigned_to s c = None" "i < length cfgs" for c i
    using D(5) [of c i] that vm(2) [of i] by (simp add: scanned_def)
  ultimately show ?thesis using vm by (intro conjI allI impI ballI) simp_all
qed

definition demo_vm_cfg :: "cpumap \<Rightarrow> nat \<Rightarrow> vm_config" where
  "demo_vm_cfg aff n = \<lparr>cfg_image = \<lparr>base_addr = 0x90000000, load_addr = 0x80300000, img_size = 0x1000,
      separately_loaded = False, inplace = False\<rparr>, cfg_entry = 0x90000000, cpu_affinity = aff,
    cfg_colors = 0, cfg_platform = \<lparr>plat_cpu_num = n, plat_regions = [], plat_ipcs = [], plat_devs = [],
      plat_plic_base = 0\<rparr>, cfg_criticality = CRIT_LOW, cfg_health = demo_cfg\<rparr>"

theorem vmm_assign_partition_witness:
  "\<exists>s. assign_reach [demo_vm_cfg 1 1, demo_vm_cfg 0 2] {0, 1, 2, 3}
      (assign_start [demo_vm_cfg 1 1, demo_vm_cfg 0 2]) s
    \<and> (\<forall>c \<in> {0, 1, 2, 3}. assign_pos s c = Returned) \<and> card (owners s 1) \<le> 2"
proof -
  let ?cfgs = "[demo_vm_cfg 1 1, demo_vm_cfg 0 2]"
  obtain s where s: "assign_reach ?cfgs {0, 1, 2, 3} (assign_start ?cfgs) s"
    "\<forall>c \<in> {0, 1, 2, 3}. assign_pos s c = Returned"
    using finishes [of "{0, 1, 2, 3}" ?cfgs "assign_start ?cfgs"] by auto
  have "\<forall>cfg \<in> set ?cfgs. 1 \<le> plat_cpu_num (cfg_platform cfg)" by (simp add: demo_vm_cfg_def)
  from vmm_assign_partition [OF s(1) _ _ this] have "card (owners s 1) \<le> want ?cfgs 1" by auto
  then have "card (owners s 1) \<le> 2" by (simp add: demo_vm_cfg_def)
  with s show ?thesis by blast
qed

text \<open>
  The assignment always finishes: from every state, whatever has happened so far, the cores
  can run on until each has returned; every step uses up some of a core's remaining iterations,
  so no core runs for ever, and as long as one has not returned some core can step.
\<close>

theorem vmm_assign_finishes:
  assumes "finite P"
  shows "(\<exists>s'. assign_reach cfgs P s s' \<and> (\<forall>c \<in> P. assign_pos s' c = Returned))
    \<and> (\<forall>c \<in> P. assign_pos s c \<noteq> Returned \<longrightarrow> (\<exists>d \<in> P. \<exists>s'. vmm_assign_vcpu cfgs P d s = Some s'))
    \<and> (\<forall>c s'. vmm_assign_vcpu cfgs P c s = Some s' \<longrightarrow>
        work_left (length cfgs) (assign_pos s' c) < work_left (length cfgs) (assign_pos s c)
        \<and> (\<forall>d. d \<noteq> c \<longrightarrow> assign_pos s' d = assign_pos s d))"
proof (intro conjI ballI impI allI)
  show "\<exists>s'. assign_reach cfgs P s s' \<and> (\<forall>c \<in> P. assign_pos s' c = Returned)" by (rule finishes [OF assms])
  show "\<exists>d \<in> P. \<exists>s'. vmm_assign_vcpu cfgs P d s = Some s'" if "c \<in> P" "assign_pos s c \<noteq> Returned" for c
    by (rule some_step [OF that])
  fix c s' assume st: "vmm_assign_vcpu cfgs P c s = Some s'"
  show "work_left (length cfgs) (assign_pos s' c) < work_left (length cfgs) (assign_pos s c)"
    by (rule step_work(1) [OF st])
  show "assign_pos s' d = assign_pos s d" if "d \<noteq> c" for d by (rule step_work(2) [OF st that])
qed

theorem vmm_assign_finishes_witness:
  "\<exists>s'. assign_reach [demo_vm_cfg 1 1] {0, 1} (assign_start [demo_vm_cfg 1 1]) s'
    \<and> (\<forall>c \<in> {0, 1}. assign_pos s' c = Returned)"
  using vmm_assign_finishes [of "{0, 1}" "[demo_vm_cfg 1 1]" "assign_start [demo_vm_cfg 1 1]"] by blast

end
