(* ===== verification/Plic.thy ===== *)
theory Plic
  imports Bitmaps "HOL-Library.Signed_Division"
begin

text \<open>
  The driver of the platform-level interrupt controller, \<open>src/arch/riscv/plic.c\<close>, for the
  default context layout of two contexts per hart and the four harts of the QEMU platform.
  The device's registers are arrays of 32-bit words. Which priority registers exist is the
  hardware's: a register of a source that is not implemented reads zero whatever is written.
\<close>

section \<open>Constants and contexts\<close>

definition PLIC_MAX_INTERRUPTS :: nat where "PLIC_MAX_INTERRUPTS = 1024"
definition PLIC_NUM_ENBL_REGS :: nat where "PLIC_NUM_ENBL_REGS = PLIC_MAX_INTERRUPTS div 32"
definition PLAT_CPU_NUM :: nat where "PLAT_CPU_NUM = 4"
definition PLAT_PLIC_CNTXT_PER_HART :: nat where "PLAT_PLIC_CNTXT_PER_HART = 2"
definition PLIC_PLAT_CNTXT_NUM :: nat where "PLIC_PLAT_CNTXT_NUM = PLAT_PLIC_CNTXT_PER_HART * PLAT_CPU_NUM"

lemma plic_consts [simp]:
  "PLIC_MAX_INTERRUPTS = 1024" "PLIC_NUM_ENBL_REGS = 32" "PLAT_CPU_NUM = 4" "PLIC_PLAT_CNTXT_NUM = 8"
  by (simp_all add: PLIC_MAX_INTERRUPTS_def PLIC_NUM_ENBL_REGS_def PLAT_CPU_NUM_def PLIC_PLAT_CNTXT_NUM_def
      PLAT_PLIC_CNTXT_PER_HART_def)

datatype plic_mode = PRIV_M | PRIV_S | PRIV_U

fun mode_val :: "plic_mode \<Rightarrow> nat" where
  "mode_val PRIV_M = 3"
| "mode_val PRIV_S = 2"
| "mode_val PRIV_U = 0"

record plic_cntxt =
  hart_id :: cpuid
  mode :: plic_mode

text \<open>
  Context identifiers are C's \<open>int\<close>: the product is formed at 64 bits and converted, the
  division truncates towards zero. Beyond the last context \<open>{-1}\<close> initialises the hart only.
\<close>

definition plic_plat_cntxt_to_id :: "plic_cntxt \<Rightarrow> int" where
  "plic_plat_cntxt_to_id c =
    (if mode c \<noteq> PRIV_M \<and> mode c \<noteq> PRIV_S then - 1
     else sint (of_nat (hart_id c * 2 + (if mode c = PRIV_M then 0 else 1)) :: u32))"

definition plic_plat_id_to_cntxt :: "int \<Rightarrow> plic_cntxt" where
  "plic_plat_id_to_cntxt i =
    (if i < int PLIC_PLAT_CNTXT_NUM
     then \<lparr>hart_id = nat ((i sdiv 2) mod 2 ^ 64), mode = (if i smod 2 = 0 then PRIV_M else PRIV_S)\<rparr>
     else \<lparr>hart_id = 2 ^ 64 - 1, mode = PRIV_U\<rparr>)"

text \<open>The parameter is unsigned: a negative identifier is compared as a large number.\<close>

definition plic_cntxt_valid :: "int \<Rightarrow> bool" where
  "plic_cntxt_valid i \<longleftrightarrow> i mod 2 ^ 32 < int PLIC_PLAT_CNTXT_NUM
    \<and> mode_val (mode (plic_plat_id_to_cntxt i)) \<le> mode_val PRIV_S"

section \<open>The device and its driver\<close>

record plic =
  plic_prio :: "u32 list"
  plic_pend :: "u32 list"
  plic_enbl :: "u32 list list"
  plic_threshold :: "u32 list"
  plic_complete :: "u32 list"
  impl_interrupts :: nat

text \<open>
  A write to a priority register, on hardware that implements the sources in \<open>impl\<close>; then the
  search for the last implemented source.
\<close>

definition prio_write :: "(irqid \<Rightarrow> bool) \<Rightarrow> irqid \<Rightarrow> u32 \<Rightarrow> u32 list \<Rightarrow> u32 list" where
  "prio_write impl i v prio = (if impl i then prio[i := v] else prio[i := 0])"

function plic_scan_loop :: "(irqid \<Rightarrow> bool) \<Rightarrow> nat \<Rightarrow> u32 list \<Rightarrow> nat \<times> u32 list" where
  "plic_scan_loop impl i prio =
    (if i < PLIC_MAX_INTERRUPTS then
       let prio = prio_write impl i (- 1) prio in
       if prio ! i = 0 then (i - 1, prio)
       else plic_scan_loop impl (i + 1) (prio_write impl i 0 prio)
     else (0, prio))"
  by pat_completeness auto
termination by (relation "measure (\<lambda>(impl, i, prio). PLIC_MAX_INTERRUPTS - i)") auto

declare plic_scan_loop.simps [simp del]

definition plic_scan_max_int :: "(irqid \<Rightarrow> bool) \<Rightarrow> plic \<Rightarrow> nat \<times> plic" where
  "plic_scan_max_int impl p =
    (case plic_scan_loop impl 1 (plic_prio p) of (res, prio) \<Rightarrow> (res, p\<lparr>plic_prio := prio\<rparr>))"

definition plic_init :: "(irqid \<Rightarrow> bool) \<Rightarrow> plic \<Rightarrow> plic" where
  "plic_init impl p =
    (let (n, p) = plic_scan_max_int impl p;
         p = p\<lparr>impl_interrupts := n\<rparr>;
         p = p\<lparr>plic_prio := fold (\<lambda>i prio. prio_write impl i 0 prio) [0..<n + 1] (plic_prio p)\<rparr>
     in p\<lparr>plic_enbl := fold (\<lambda>i en. en[i := fold (\<lambda>j row. row[j := 0]) [0..<PLIC_NUM_ENBL_REGS] (en ! i)])
            [0..<PLIC_PLAT_CNTXT_NUM] (plic_enbl p)\<rparr>)"

definition plic_cpu_init :: "cpuid \<Rightarrow> plic \<Rightarrow> int \<times> plic" where
  "plic_cpu_init c p =
    (let cntxt = plic_plat_cntxt_to_id \<lparr>hart_id = c, mode = PRIV_S\<rparr>
     in (cntxt, p\<lparr>plic_threshold := (plic_threshold p)[nat cntxt := 0]\<rparr>))"

definition plic_set_enbl :: "int \<Rightarrow> irqid \<Rightarrow> bool \<Rightarrow> plic \<Rightarrow> plic res" where
  "plic_set_enbl cntxt int_id en p =
    (if int_id \<le> impl_interrupts p \<and> plic_cntxt_valid cntxt then
       bindR (rd (plic_enbl p) (nat cntxt)) (\<lambda>row.
       bindR (if en then bitmap_set row int_id else bitmap_clear row int_id) (\<lambda>row.
       Inr (p\<lparr>plic_enbl := (plic_enbl p)[nat cntxt := row]\<rparr>)))
     else Inr p)"

definition plic_get_enbl :: "int \<Rightarrow> irqid \<Rightarrow> plic \<Rightarrow> bool res" where
  "plic_get_enbl cntxt int_id p =
    (if int_id \<le> impl_interrupts p \<and> plic_cntxt_valid cntxt
     then bindR (rd (plic_enbl p) (nat cntxt)) (\<lambda>row. bitmap_get row int_id) else Inr False)"

definition plic_set_prio :: "irqid \<Rightarrow> u32 \<Rightarrow> plic \<Rightarrow> plic res" where
  "plic_set_prio int_id prio p =
    (if int_id \<le> impl_interrupts p
     then bindR (wr (plic_prio p) int_id prio) (\<lambda>ps. Inr (p\<lparr>plic_prio := ps\<rparr>)) else Inr p)"

definition plic_get_prio :: "irqid \<Rightarrow> plic \<Rightarrow> u32 res" where
  "plic_get_prio int_id p = (if int_id \<le> impl_interrupts p then rd (plic_prio p) int_id else Inr 0)"

definition plic_get_pend :: "irqid \<Rightarrow> plic \<Rightarrow> bool res" where
  "plic_get_pend int_id p =
    (if int_id \<le> impl_interrupts p then bitmap_get (plic_pend p) int_id else Inr False)"

definition plic_set_threshold :: "int \<Rightarrow> u32 \<Rightarrow> plic \<Rightarrow> plic res" where
  "plic_set_threshold cntxt threshold p =
    (if plic_cntxt_valid cntxt
     then bindR (wr (plic_threshold p) (nat cntxt) threshold) (\<lambda>ts. Inr (p\<lparr>plic_threshold := ts\<rparr>))
     else Inr p)"

definition plic_get_thrshold :: "int \<Rightarrow> plic \<Rightarrow> u32 res" where
  "plic_get_thrshold cntxt p =
    (if plic_cntxt_valid cntxt then rd (plic_threshold p) (nat cntxt) else Inr 0)"

section \<open>Contexts\<close>

lemma mode_of_id:
  "0 \<le> i \<Longrightarrow> i < 8 \<Longrightarrow> plic_plat_id_to_cntxt i =
    \<lparr>hart_id = nat i div 2, mode = (if even i then PRIV_M else PRIV_S)\<rparr>"
proof -
  assume i: "0 \<le> i" "i < 8"
  then have s: "i sdiv 2 = i div 2" "i smod 2 = i mod 2"
    by (simp_all add: signed_divide_int_def signed_modulo_int_def sgn_if)
  have "i div 2 mod 2 ^ 64 = i div 2" using i by (intro mod_pos_pos_trivial) simp_all
  with i s show ?thesis by (simp add: plic_plat_id_to_cntxt_def nat_div_distrib even_iff_mod_2_eq_zero)
qed

lemma id_of_mode:
  assumes "h < 4" "m \<noteq> PRIV_U"
  shows "plic_plat_cntxt_to_id \<lparr>hart_id = h, mode = m\<rparr> = int (h * 2 + (if m = PRIV_M then 0 else 1))"
proof -
  have "h \<in> {0, 1, 2, 3}" using assms(1) by auto
  then show ?thesis using assms(2)
    by (cases m; elim insertE emptyE) (simp_all add: plic_plat_cntxt_to_id_def)
qed

lemma cntxt_valid_iff: "0 \<le> i \<Longrightarrow> i < 2 ^ 31 \<Longrightarrow> plic_cntxt_valid i \<longleftrightarrow> i < 8 \<and> odd i"
  by (cases "i < 8") (simp_all add: plic_cntxt_valid_def mode_of_id)

lemma cntxt_invalid_neg: "\<not> plic_cntxt_valid (- 1)"
  by (simp add: plic_cntxt_valid_def)

definition plic_wf :: "plic \<Rightarrow> bool" where
  "plic_wf p \<longleftrightarrow> length (plic_prio p) = PLIC_MAX_INTERRUPTS \<and> length (plic_pend p) = PLIC_MAX_INTERRUPTS
    \<and> length (plic_enbl p) = PLIC_PLAT_CNTXT_NUM \<and> (\<forall>row \<in> set (plic_enbl p). length row = PLIC_NUM_ENBL_REGS)
    \<and> length (plic_threshold p) = PLIC_PLAT_CNTXT_NUM \<and> impl_interrupts p < PLIC_MAX_INTERRUPTS"

text \<open>The physical enable bit of a source in a context.\<close>

definition enabled_in :: "plic \<Rightarrow> int \<Rightarrow> irqid \<Rightarrow> bool" where
  "enabled_in p cntxt i = bm_bit (plic_enbl p ! nat cntxt) i"

lemma plic_set_enbl_spec:
  assumes "plic_wf p" "plic_cntxt_valid c" "0 \<le> c" "c < 8"
  shows "\<exists>p'. plic_set_enbl c i en p = Inr p' \<and> plic_wf p'
    \<and> (\<forall>d j. 0 \<le> d \<longrightarrow>
        enabled_in p' d j = (if d = c \<and> j = i \<and> i \<le> impl_interrupts p then en else enabled_in p d j))
    \<and> plic_prio p' = plic_prio p \<and> plic_threshold p' = plic_threshold p
    \<and> impl_interrupts p' = impl_interrupts p"
proof (cases "i \<le> impl_interrupts p")
  case False
  with assms show ?thesis by (auto simp: plic_set_enbl_def)
next
  case True
  have c: "nat c < length (plic_enbl p)" using assms by (simp add: plic_wf_def)
  then have "length (plic_enbl p ! nat c) = 32" using assms(1) by (simp add: plic_wf_def)
  then have len: "i < bm_len (plic_enbl p ! nat c)" using True assms(1) by (simp add: bm_len_def plic_wf_def)
  let ?upd = "if en then bitmap_set (plic_enbl p ! nat c) i else bitmap_clear (plic_enbl p ! nat c) i"
  from bitmap_set_eq [OF len] bitmap_clear_eq [OF len] obtain row where
    row: "?upd = Inr row" "length row = length (plic_enbl p ! nat c)"
      "\<And>k. bm_bit row k \<longleftrightarrow> (if k = i then en else bm_bit (plic_enbl p ! nat c) k)"
    by (cases en) auto
  let ?p' = "p\<lparr>plic_enbl := (plic_enbl p)[nat c := row]\<rparr>"
  have "plic_set_enbl c i en p = Inr ?p'" using True assms(2) c row(1) by (simp add: plic_set_enbl_def)
  moreover have "plic_wf ?p'"
    using assms(1) c row(2) by (auto simp: plic_wf_def dest: set_update_subset_insert [THEN subsetD])
  moreover have "enabled_in ?p' d j = (if d = c \<and> j = i then en else enabled_in p d j)" if "0 \<le> d" for d j
    using that assms(3) c row(3) by (cases "d = c") (auto simp: enabled_in_def)
  ultimately show ?thesis using True by simp
qed

section \<open>Scanning\<close>

text \<open>On hardware with the sources \<open>1 .. n\<close> the loop stops behind the last one.\<close>

lemma scan_loop_step:
  assumes "length prio = 1024" "i < 1024" "impl i"
  shows "plic_scan_loop impl i prio = plic_scan_loop impl (i + 1) (prio[i := - 1, i := 0])"
  using assms by (subst plic_scan_loop.simps) (simp add: prio_write_def)

lemma scan_loop_stops:
  assumes "length prio = 1024" "1 \<le> i" "i \<le> n + 1" "n < 1023" "\<forall>k < 1024. impl k \<longleftrightarrow> 1 \<le> k \<and> k \<le> n"
  shows "fst (plic_scan_loop impl i prio) = n"
  using assms(1-3)
proof (induction "n + 1 - i" arbitrary: i prio)
  case 0
  then have i: "i = n + 1" by simp
  with 0 assms(4,5) show ?case by (subst plic_scan_loop.simps) (simp add: prio_write_def)
next
  case (Suc d)
  then have i: "impl i" "i < 1024" using assms(4,5) by auto
  from Suc.hyps(1) [of "i + 1" "prio[i := - 1, i := 0]"] Suc.hyps(2) Suc.prems
    scan_loop_step [where impl = impl, OF Suc.prems(1) i(2) i(1)] show ?case by simp
qed

lemma scan_loop_full:
  assumes "length prio = 1024" "1 \<le> i" "i \<le> 1024" "\<forall>k < 1024. 1 \<le> k \<longrightarrow> impl k"
  shows "fst (plic_scan_loop impl i prio) = 0"
  using assms
proof (induction "1024 - i" arbitrary: i prio)
  case 0
  then show ?case by (subst plic_scan_loop.simps) simp
next
  case (Suc d)
  then have i: "impl i" "i < 1024" by auto
  have "fst (plic_scan_loop impl (i + 1) (prio[i := - 1, i := 0])) = 0"
    using Suc.hyps(2) Suc.prems i by (intro Suc.hyps(1)) auto
  with scan_loop_step [of prio i impl] Suc.prems(1) i show ?case by simp
qed

section \<open>Properties\<close>

text \<open>
  The scan finds the number of interrupt sources, except when there are all 1023 of them:
  on hardware that implements the sources \<open>1 .. n\<close> it returns \<open>n\<close> for every \<open>n < 1023\<close>, but 0
  for \<open>n = 1023\<close>, because the result is only set where a source is missing; the driver then
  ignores every request for an interrupt.
\<close>

theorem plic_scan_counts:
  assumes "length (plic_prio p) = 1024" "n \<le> 1023" "\<forall>k < 1024. impl k \<longleftrightarrow> 1 \<le> k \<and> k \<le> n"
  shows "fst (plic_scan_max_int impl p) = (if n = 1023 then 0 else n)"
proof (cases "n = 1023")
  case True
  with assms scan_loop_full [of "plic_prio p" 1 impl] show ?thesis
    by (simp add: plic_scan_max_int_def case_prod_beta)
next
  case False
  with assms scan_loop_stops [of "plic_prio p" 1 n impl] show ?thesis
    by (simp add: plic_scan_max_int_def case_prod_beta)
qed

definition demo_plic :: plic where
  "demo_plic = \<lparr>plic_prio = replicate 1024 0, plic_pend = replicate 1024 0,
    plic_enbl = replicate 8 (replicate 32 0), plic_threshold = replicate 8 0,
    plic_complete = replicate 8 0, impl_interrupts = 96\<rparr>"

lemma demo_plic_wf: "plic_wf demo_plic"
  by (simp add: plic_wf_def demo_plic_def)

theorem plic_scan_counts_witness:
  "fst (plic_scan_max_int (\<lambda>k. 1 \<le> k \<and> k \<le> 96) demo_plic) = 96
    \<and> fst (plic_scan_max_int (\<lambda>k. 1 \<le> k \<and> k \<le> 1023) demo_plic) = 0"
  using plic_scan_counts [of demo_plic 96 "\<lambda>k. 1 \<le> k \<and> k \<le> 96"]
    plic_scan_counts [of demo_plic 1023 "\<lambda>k. 1 \<le> k \<and> k \<le> 1023"]
  by (simp add: demo_plic_def)

text \<open>
  Enabling is exact: for the supervisor context of any hart, \<open>plic_set_enbl\<close> succeeds,
  switches the enable bit of that source in that context and of no other source or context, and
  only if the source is implemented; \<open>plic_get_enbl\<close> then reads what was set.
\<close>

theorem plic_enable_exact:
  assumes "plic_wf p" "h < 4" "i \<le> impl_interrupts p"
    and "c = plic_plat_cntxt_to_id \<lparr>hart_id = h, mode = PRIV_S\<rparr>"
  shows "\<exists>p'. plic_set_enbl c i en p = Inr p' \<and> plic_get_enbl c i p' = Inr en
    \<and> plic_plat_id_to_cntxt c = \<lparr>hart_id = h, mode = PRIV_S\<rparr>
    \<and> (\<forall>d j. 0 \<le> d \<longrightarrow> (d, j) \<noteq> (c, i) \<longrightarrow> enabled_in p' d j = enabled_in p d j)"
proof -
  have c: "c = int (2 * h + 1)" using id_of_mode [OF assms(2), of PRIV_S] assms(4) by simp
  then have v: "plic_cntxt_valid c" "0 \<le> c" "c < 8" using assms(2) by (simp_all add: cntxt_valid_iff)
  from plic_set_enbl_spec [OF assms(1) v, of i en] obtain p' where
    p': "plic_set_enbl c i en p = Inr p'" "plic_wf p'" "impl_interrupts p' = impl_interrupts p"
      "\<forall>d j. 0 \<le> d \<longrightarrow> enabled_in p' d j =
        (if d = c \<and> j = i \<and> i \<le> impl_interrupts p then en else enabled_in p d j)" by blast
  have "length (plic_enbl p') = 8" "nat c < 8" using p'(2) v by (simp_all add: plic_wf_def)
  then have row: "nat c < length (plic_enbl p')" "length (plic_enbl p' ! nat c) = 32"
    using p'(2) by (simp_all add: plic_wf_def)
  have "i < bm_len (plic_enbl p' ! nat c)" using row(2) assms(1,3) by (simp add: bm_len_def plic_wf_def)
  from bitmap_get_eq [OF this] have "plic_get_enbl c i p' = Inr en"
    using row(1) p'(3,4) v assms(3) by (simp add: plic_get_enbl_def enabled_in_def)
  moreover have "plic_plat_id_to_cntxt c = \<lparr>hart_id = h, mode = PRIV_S\<rparr>"
    using v(2,3) c by (subst mode_of_id) auto
  ultimately show ?thesis using p'(1,4) by auto
qed

theorem plic_enable_exact_witness:
  "\<exists>p'. plic_set_enbl 5 33 True demo_plic = Inr p' \<and> plic_get_enbl 5 33 p' = Inr True"
proof -
  have "plic_plat_cntxt_to_id \<lparr>hart_id = 2, mode = PRIV_S\<rparr> = 5" by (simp add: id_of_mode)
  from plic_enable_exact [OF demo_plic_wf, of 2 33 5 True] this show ?thesis by (auto simp: demo_plic_def)
qed

end
