(* ===== verification/Vplic.thy ===== *)
theory Vplic
  imports Irq_Rate_Limit Vm_Core Plic
begin

text \<open>
  The virtual interrupt controller of a VM, \<open>src/arch/riscv/vplic.c\<close>: the guest's registers,
  injection with its rate limiter, claim and completion, and the two emulation handlers.

  The guards of the code admit the identifier \<open>PLIC_MAX_INTERRUPTS\<close>, one past the arrays, and
  \<open>vplic_complete\<close> takes any. What such an access hits is the next field of the structure, so
  the fields from \<open>hw\<close> to \<open>threshold\<close>, all arrays of 32-bit words, are modelled as the block of
  words they are in memory. Only an access outside this block is a fault.
\<close>

section \<open>State\<close>

definition HW_OFF :: nat where "HW_OFF = 0"
definition PEND_OFF :: nat where "PEND_OFF = 32"
definition ACT_OFF :: nat where "ACT_OFF = 64"
definition DEFERRED_OFF :: nat where "DEFERRED_OFF = 96"
definition PRIO_OFF :: nat where "PRIO_OFF = 128"
definition ENBL_OFF :: "nat \<Rightarrow> nat" where "ENBL_OFF vcntxt = 1152 + 32 * vcntxt"
definition THRESHOLD_OFF :: nat where "THRESHOLD_OFF = 1408"
definition VPLIC_WORDS :: nat where "VPLIC_WORDS = 1416"

lemmas vplic_offs = HW_OFF_def PEND_OFF_def ACT_OFF_def DEFERRED_OFF_def PRIO_OFF_def ENBL_OFF_def
  THRESHOLD_OFF_def VPLIC_WORDS_def

record vplic =
  cntxt_num :: nat
  vwords :: "u32 list"
  buckets :: "irq_token_bucket list"

text \<open>
  What the virtual controller shares with the rest: the physical controller, the \<open>VSEIP\<close> bit of
  each core's \<open>hvip\<close>, and the messages \<open>(VPLIC_IPI_ID, UPDATE_HART_LINE, vcntxt)\<close> sent, by target.
\<close>

record irq_state =
  vp :: vplic
  phys :: plic
  vseip :: "cpuid \<Rightarrow> bool"
  line_msgs :: "(cpuid \<times> nat) list"

section \<open>Fields\<close>

definition vbit_get :: "nat \<Rightarrow> vplic \<Rightarrow> nat \<Rightarrow> bool res" where
  "vbit_get off p i = bitmap_get (vwords p) (32 * off + i)"

definition vbit_set :: "nat \<Rightarrow> vplic \<Rightarrow> nat \<Rightarrow> vplic res" where
  "vbit_set off p i = bindR (bitmap_set (vwords p) (32 * off + i)) (\<lambda>w. Inr (p\<lparr>vwords := w\<rparr>))"

definition vbit_clear :: "nat \<Rightarrow> vplic \<Rightarrow> nat \<Rightarrow> vplic res" where
  "vbit_clear off p i = bindR (bitmap_clear (vwords p) (32 * off + i)) (\<lambda>w. Inr (p\<lparr>vwords := w\<rparr>))"

definition vplic_get_pend :: "vplic \<Rightarrow> irqid \<Rightarrow> bool res" where
  "vplic_get_pend p i = (if i \<le> PLIC_MAX_INTERRUPTS then vbit_get PEND_OFF p i else Inr False)"

definition vplic_get_act :: "vplic \<Rightarrow> irqid \<Rightarrow> bool res" where
  "vplic_get_act p i = (if i \<le> PLIC_MAX_INTERRUPTS then vbit_get ACT_OFF p i else Inr False)"

definition vplic_get_enbl :: "vplic \<Rightarrow> nat \<Rightarrow> irqid \<Rightarrow> bool res" where
  "vplic_get_enbl p vcntxt i =
    (if i \<le> PLIC_MAX_INTERRUPTS then vbit_get (ENBL_OFF vcntxt) p i else Inr False)"

definition vplic_get_prio :: "vplic \<Rightarrow> irqid \<Rightarrow> u32 res" where
  "vplic_get_prio p i = (if i \<le> PLIC_MAX_INTERRUPTS then rd (vwords p) (PRIO_OFF + i) else Inr 0)"

definition vplic_set_hw :: "vplic \<Rightarrow> irqid \<Rightarrow> vplic res" where
  "vplic_set_hw p i = (if i \<le> PLIC_MAX_INTERRUPTS then vbit_set HW_OFF p i else Inr p)"

definition vplic_get_hw :: "vplic \<Rightarrow> irqid \<Rightarrow> bool res" where
  "vplic_get_hw p i = (if i \<le> PLIC_MAX_INTERRUPTS then vbit_get HW_OFF p i else Inr False)"

definition vplic_get_theshold :: "vplic \<Rightarrow> nat \<Rightarrow> u32 res" where
  "vplic_get_theshold p vcntxt = rd (vwords p) (THRESHOLD_OFF + vcntxt)"

section \<open>Contexts and the interrupt line\<close>

definition vplic_vcntxt_to_pcntxt :: "'h vm \<Rightarrow> nat \<Rightarrow> int res" where
  "vplic_vcntxt_to_pcntxt v vcntxt_id =
    (let vcntxt = plic_plat_id_to_cntxt (int vcntxt_id) in
     bindR (vm_translate_to_pcpuid v (hart_id vcntxt)) (\<lambda>h.
     Inr (if h \<noteq> INVALID_CPUID then plic_plat_cntxt_to_id \<lparr>hart_id = h, mode = mode vcntxt\<rparr> else - 1)))"

definition vplic_vcntxt_valid :: "vplic \<Rightarrow> nat \<Rightarrow> bool" where
  "vplic_vcntxt_valid p vcntxt_id \<longleftrightarrow> vcntxt_id < cntxt_num p
    \<and> mode_val (mode (plic_plat_id_to_cntxt (int vcntxt_id))) \<le> mode_val PRIV_S"

definition next_pending_step :: "vplic \<Rightarrow> nat \<Rightarrow> nat \<Rightarrow> u32 \<times> irqid \<Rightarrow> (u32 \<times> irqid) res" where
  "next_pending_step p vcntxt i = (\<lambda>(max_prio, int_id).
    bindR (vplic_get_pend p i) (\<lambda>pd. if \<not> pd then Inr (max_prio, int_id) else
    bindR (vplic_get_act p i) (\<lambda>a. if a then Inr (max_prio, int_id) else
    bindR (vplic_get_enbl p vcntxt i) (\<lambda>e. if \<not> e then Inr (max_prio, int_id) else
    bindR (vplic_get_prio p i) (\<lambda>prio.
    Inr (if max_prio < prio then (prio, i) else (max_prio, int_id)))))))"

definition vplic_next_pending :: "vplic \<Rightarrow> nat \<Rightarrow> irqid res" where
  "vplic_next_pending p vcntxt =
    bindR (foldR (next_pending_step p vcntxt) [0..<PLIC_MAX_INTERRUPTS + 1] (0, 0)) (\<lambda>(max_prio, int_id).
    bindR (vplic_get_theshold p vcntxt) (\<lambda>t. Inr (if t < max_prio then int_id else 0)))"

definition vplic_update_hart_line :: "'h vm \<Rightarrow> cpuid \<Rightarrow> nat \<Rightarrow> irq_state \<Rightarrow> irq_state res" where
  "vplic_update_hart_line v self vcntxt s =
    bindR (vplic_vcntxt_to_pcntxt v vcntxt) (\<lambda>pcntxt_id.
    let pcntxt = plic_plat_id_to_cntxt pcntxt_id in
    if hart_id pcntxt = self then
      bindR (vplic_next_pending (vp s) vcntxt) (\<lambda>i. Inr (s\<lparr>vseip := (vseip s)(self := i \<noteq> 0)\<rparr>))
    else Inr (s\<lparr>line_msgs := line_msgs s @ [(hart_id pcntxt, vcntxt)]\<rparr>))"

definition vplic_ipi_handler :: "'h vm \<Rightarrow> cpuid \<Rightarrow> u32 \<Rightarrow> u64 \<Rightarrow> irq_state \<Rightarrow> irq_state res" where
  "vplic_ipi_handler v self ev dat s =
    (if ev = 0 then vplic_update_hart_line v self (unat dat) s else Inr s)"

section \<open>Register writes\<close>

definition vplic_set_threshold :: "'h vm \<Rightarrow> cpuid \<Rightarrow> nat \<Rightarrow> u32 \<Rightarrow> irq_state \<Rightarrow> irq_state res" where
  "vplic_set_threshold v self vcntxt threshold s =
    bindR (wr (vwords (vp s)) (THRESHOLD_OFF + vcntxt) threshold) (\<lambda>w.
    bindR (vplic_vcntxt_to_pcntxt v vcntxt) (\<lambda>pcntxt.
    bindR (plic_set_threshold pcntxt threshold (phys s)) (\<lambda>ph.
    vplic_update_hart_line v self vcntxt (s\<lparr>vp := (vp s)\<lparr>vwords := w\<rparr>, phys := ph\<rparr>))))"

definition vplic_set_enbl :: "'h vm \<Rightarrow> cpuid \<Rightarrow> nat \<Rightarrow> irqid \<Rightarrow> bool \<Rightarrow> irq_state \<Rightarrow> irq_state res" where
  "vplic_set_enbl v self vcntxt i st s =
    (if \<not> i \<le> PLIC_MAX_INTERRUPTS then Inr s else
     bindR (vplic_get_enbl (vp s) vcntxt i) (\<lambda>e. if e = st then Inr s else
     bindR (if st then vbit_set (ENBL_OFF vcntxt) (vp s) i else vbit_clear (ENBL_OFF vcntxt) (vp s) i) (\<lambda>p.
     let s = s\<lparr>vp := p\<rparr> in
     bindR (vplic_get_hw p i) (\<lambda>hw.
     if hw then
       bindR (vplic_vcntxt_to_pcntxt v vcntxt) (\<lambda>pcntxt_id.
       bindR (plic_set_enbl pcntxt_id i st (phys s)) (\<lambda>ph. Inr (s\<lparr>phys := ph\<rparr>)))
     else vplic_update_hart_line v self vcntxt s))))"

text \<open>The loops over the VM's contexts that refresh the lines on which an interrupt is enabled.\<close>

definition refresh_lines :: "'h vm \<Rightarrow> cpuid \<Rightarrow> (irq_state \<Rightarrow> nat \<Rightarrow> bool res) \<Rightarrow> irq_state \<Rightarrow> irq_state res" where
  "refresh_lines v self cond s =
    foldR (\<lambda>c s.
      if mode (plic_plat_id_to_cntxt (int c)) \<noteq> PRIV_S then Inr s
      else bindR (cond s c) (\<lambda>b. if b then vplic_update_hart_line v self c s else Inr s))
      [0..<cntxt_num (vp s)] s"

definition vplic_set_prio :: "'h vm \<Rightarrow> cpuid \<Rightarrow> irqid \<Rightarrow> u32 \<Rightarrow> irq_state \<Rightarrow> irq_state res" where
  "vplic_set_prio v self i prio s =
    (if \<not> i \<le> PLIC_MAX_INTERRUPTS then Inr s else
     bindR (vplic_get_prio (vp s) i) (\<lambda>old. if old = prio then Inr s else
     bindR (wr (vwords (vp s)) (PRIO_OFF + i) prio) (\<lambda>w.
     let s = s\<lparr>vp := (vp s)\<lparr>vwords := w\<rparr>\<rparr> in
     bindR (vplic_get_hw (vp s) i) (\<lambda>hw.
     if hw then bindR (plic_set_prio i prio (phys s)) (\<lambda>ph. Inr (s\<lparr>phys := ph\<rparr>))
     else refresh_lines v self (\<lambda>s c. vplic_get_enbl (vp s) c i) s))))"

section \<open>Claim, completion and injection\<close>

definition drain_step :: "u64 \<Rightarrow> nat \<Rightarrow> vplic \<Rightarrow> vplic res" where
  "drain_step now i p =
    bindR (vbit_get DEFERRED_OFF p i) (\<lambda>d. if \<not> d then Inr p else
    bindR (rd (buckets p) i) (\<lambda>b.
    let (b, drained) = irq_bucket_drain_deferred b now;
        p = p\<lparr>buckets := (buckets p)[i := b]\<rparr>
    in if 0 < drained then
         bindR (vbit_clear DEFERRED_OFF p i) (\<lambda>p.
         bindR (vbit_get PEND_OFF p i) (\<lambda>pd. if \<not> pd then vbit_set PEND_OFF p i else Inr p))
       else Inr p))"

definition vplic_claim :: "'h vm \<Rightarrow> cpuid \<Rightarrow> u64 \<Rightarrow> nat \<Rightarrow> irq_state \<Rightarrow> (irq_state \<times> irqid) res" where
  "vplic_claim v self now vcntxt s =
    bindR (vplic_next_pending (vp s) vcntxt) (\<lambda>int_id.
    bindR (vbit_clear PEND_OFF (vp s) int_id) (\<lambda>p.
    bindR (vbit_set ACT_OFF p int_id) (\<lambda>p.
    bindR (foldR (drain_step now) [1..<PLIC_MAX_INTERRUPTS] p) (\<lambda>p.
    bindR (vplic_update_hart_line v self vcntxt (s\<lparr>vp := p\<rparr>)) (\<lambda>s. Inr (s, int_id))))))"

text \<open>\<open>cntxt\<close> is the physical context of the core, \<open>cpu()->arch.plic_cntxt\<close>.\<close>

definition vplic_complete :: "'h vm \<Rightarrow> cpuid \<Rightarrow> nat \<Rightarrow> nat \<Rightarrow> irqid \<Rightarrow> irq_state \<Rightarrow> irq_state res" where
  "vplic_complete v self cntxt vcntxt int_id s =
    bindR (vplic_get_hw (vp s) int_id) (\<lambda>hw.
    bindR (if hw then bindR (wr (plic_complete (phys s)) cntxt (of_nat int_id)) (\<lambda>cs.
             Inr (s\<lparr>phys := (phys s)\<lparr>plic_complete := cs\<rparr>\<rparr>)) else Inr s) (\<lambda>s.
    bindR (vbit_clear ACT_OFF (vp s) int_id) (\<lambda>p.
    vplic_update_hart_line v self vcntxt (s\<lparr>vp := p\<rparr>))))"

definition vplic_inject :: "'h vm \<Rightarrow> cpuid \<Rightarrow> u64 \<Rightarrow> vcpuid \<Rightarrow> irqid \<Rightarrow> irq_state \<Rightarrow> irq_state res" where
  "vplic_inject v self now vcpu i s =
    (if \<not> (0 < i \<and> i \<le> PLIC_MAX_INTERRUPTS) then Inr s else
     bindR (vplic_get_pend (vp s) i) (\<lambda>pd. if pd then Inr s else
     bindR (rd (buckets (vp s)) i) (\<lambda>b.
     let (b, action) = irq_bucket_consume b now;
         s = s\<lparr>vp := (vp s)\<lparr>buckets := (buckets (vp s))[i := b]\<rparr>\<rparr>
     in case action of
          IRQ_RL_DROPPED \<Rightarrow> Inr s
        | IRQ_RL_DEFERRED \<Rightarrow> bindR (vbit_set DEFERRED_OFF (vp s) i) (\<lambda>p. Inr (s\<lparr>vp := p\<rparr>))
        | IRQ_RL_ALLOW \<Rightarrow>
            bindR (vbit_set PEND_OFF (vp s) i) (\<lambda>p.
            let s = s\<lparr>vp := p\<rparr> in
            bindR (vplic_get_hw p i) (\<lambda>hw.
            if hw then
              vplic_update_hart_line v self
                (nat (plic_plat_cntxt_to_id \<lparr>hart_id = vcpu, mode = PRIV_S\<rparr>)) s
            else refresh_lines v self (\<lambda>s c.
              bindR (vplic_get_enbl (vp s) c i) (\<lambda>e. if \<not> e then Inr False else
              bindR (vplic_get_prio (vp s) i) (\<lambda>prio.
              bindR (vplic_get_theshold (vp s) c) (\<lambda>t. Inr (t < prio))))) s)))))"

section \<open>Emulation of the guest's accesses\<close>

text \<open>The handlers act on the vCPU \<open>u\<close> whose access trapped; \<open>cntxt\<close> is the core's PLIC context.\<close>

definition vplic_emul_prio_access ::
  "'h vm \<Rightarrow> cpuid \<Rightarrow> emul_access \<Rightarrow> vcpu \<times> irq_state \<Rightarrow> (vcpu \<times> irq_state) res" where
  "vplic_emul_prio_access v self acc = (\<lambda>(u, s).
    let int_id = unat (acc_addr acc AND 0xfff) div 4 in
    if acc_write acc then
      bindR (vplic_set_prio v self int_id (ucast (vcpu_readreg u (acc_reg acc))) s) (\<lambda>s. Inr (u, s))
    else bindR (vplic_get_prio (vp s) int_id) (\<lambda>prio. Inr (vcpu_writereg u (acc_reg acc) (ucast prio), s)))"

definition vplic_emul_pend_access :: "emul_access \<Rightarrow> vcpu \<times> irq_state \<Rightarrow> (vcpu \<times> irq_state) res" where
  "vplic_emul_pend_access acc = (\<lambda>(u, s).
    if acc_write acc then Inr (u, s)
    else
      let first_int = unat (acc_addr acc AND 0xfff) div 4 * 32 in
      bindR (foldR (\<lambda>i w. bindR (vplic_get_pend (vp s) (first_int + i)) (\<lambda>b.
          Inr (if b then w OR push_bit i 1 else w))) [0..<32] (0 :: u32)) (\<lambda>w.
      Inr (vcpu_writereg u (acc_reg acc) (ucast w), s)))"

definition vplic_emul_enbl_access ::
  "'h vm \<Rightarrow> cpuid \<Rightarrow> emul_access \<Rightarrow> vcpu \<times> irq_state \<Rightarrow> (vcpu \<times> irq_state) res" where
  "vplic_emul_enbl_access v self acc = (\<lambda>(u, s).
    let vcntxt_id = unat ((acc_addr acc - 0x2000) AND 0x1fffff) div 4 div PLIC_NUM_ENBL_REGS;
        first_int = unat (acc_addr acc AND 0x7f) div 4 * 32;
        w = (if acc_write acc then vcpu_readreg u (acc_reg acc) else 0)
    in bindR (if \<not> vplic_vcntxt_valid (vp s) vcntxt_id then Inr (w, s)
         else foldR (\<lambda>i (w, s).
           if acc_write acc then
             bindR (vplic_set_enbl v self vcntxt_id (first_int + i) (bit w i) s) (\<lambda>s. Inr (w, s))
           else bindR (vplic_get_enbl (vp s) vcntxt_id (first_int + i)) (\<lambda>e.
             Inr (if e then w OR push_bit i 1 else w, s))) [0..<32] (w, s)) (\<lambda>(w, s).
       Inr (if acc_write acc then u else vcpu_writereg u (acc_reg acc) w, s)))"

definition vplic_global_emul_handler ::
  "'h vm \<Rightarrow> cpuid \<Rightarrow> emul_access \<Rightarrow> vcpu \<times> irq_state \<Rightarrow> ((vcpu \<times> irq_state) \<times> bool) res" where
  "vplic_global_emul_handler v self acc us =
    (if acc_width acc \<noteq> 4 \<or> acc_addr acc AND 3 \<noteq> 0 then Inr (us, False)
     else
       let k = drop_bit 12 (acc_addr acc) AND 3 in
       bindR (if k = 0 then vplic_emul_prio_access v self acc us
              else if k = 1 then vplic_emul_pend_access acc us
              else vplic_emul_enbl_access v self acc us) (\<lambda>us. Inr (us, True)))"

definition PLIC_CLAIMCMPLT_OFF :: u64 where "PLIC_CLAIMCMPLT_OFF = 0x200000"

definition vplic_hart_emul_handler ::
  "'h vm \<Rightarrow> cpuid \<Rightarrow> nat \<Rightarrow> u64 \<Rightarrow> emul_access \<Rightarrow> vcpu \<times> irq_state \<Rightarrow> ((vcpu \<times> irq_state) \<times> bool) res" where
  "vplic_hart_emul_handler v self cntxt now acc = (\<lambda>(u, s).
    if 4 < acc_width acc \<or> acc_addr acc AND 3 \<noteq> 0 then Inr ((u, s), False)
    else
      let vcntxt = unat (drop_bit 12 (acc_addr acc - PLIC_CLAIMCMPLT_OFF) AND 0x3ff);
          r = vcpu_readreg u (acc_reg acc) in
      if \<not> vplic_vcntxt_valid (vp s) vcntxt then
        Inr ((if acc_write acc then u else vcpu_writereg u (acc_reg acc) 0, s), True)
      else if acc_addr acc AND 0xf = 0 then
        if acc_write acc then
          bindR (vplic_set_threshold v self vcntxt (ucast r) s) (\<lambda>s. Inr ((u, s), True))
        else bindR (vplic_get_theshold (vp s) vcntxt) (\<lambda>t.
          Inr ((vcpu_writereg u (acc_reg acc) (ucast t), s), True))
      else if acc_addr acc AND 0xf = 4 then
        if acc_write acc then
          bindR (vplic_complete v self cntxt vcntxt (unat (ucast r :: u32)) s) (\<lambda>s. Inr ((u, s), True))
        else bindR (vplic_claim v self now vcntxt s) (\<lambda>(s, i).
          Inr ((vcpu_writereg u (acc_reg acc) (of_nat i), s), True))
      else Inr ((u, s), True))"

text \<open>
  The structure is zeroed with the VM; \<open>vplic_init\<close> sets the number of contexts and the buckets
  and registers the two regions. \<open>now i\<close> is the time read for bucket \<open>i\<close>.
\<close>

definition vplic_zero :: vplic where
  "vplic_zero = \<lparr>cntxt_num = 0, vwords = replicate VPLIC_WORDS 0,
    buckets = replicate PLIC_MAX_INTERRUPTS \<lparr>tokens = 0, max_tokens = 0, rate = 0,
      deferred_count = 0, max_deferred = 0, last_refill = 0, dropped = 0\<rparr>\<rparr>"

definition vplic_init :: "cpuid \<Rightarrow> 'h \<Rightarrow> 'h \<Rightarrow> vaddr \<Rightarrow> (nat \<Rightarrow> u64) \<Rightarrow> 'h vm \<times> vplic \<Rightarrow> 'h vm \<times> vplic" where
  "vplic_init self global_handler hart_handler vplic_base now = (\<lambda>(v, p).
    if self = vm_master v then
      let v = vm_emul_add_mem v \<lparr>emul_va_base = vplic_base, emul_size = 0x3000, emul_mem_handler = global_handler\<rparr>;
          v = vm_emul_add_mem v \<lparr>emul_va_base = vplic_base + PLIC_CLAIMCMPLT_OFF,
                emul_size = 0x1000 * of_nat (vm_cpu_num v) * of_nat PLAT_PLIC_CNTXT_PER_HART,
                emul_mem_handler = hart_handler\<rparr>
      in (v, p\<lparr>cntxt_num := vm_cpu_num v * 2,
             buckets := List.map (\<lambda>i. irq_bucket_init (crit_val (vm_crit v)) (now i)) [0..<PLIC_MAX_INTERRUPTS]\<rparr>)
    else (v, p))"

section \<open>The fields of a well-formed controller\<close>

definition vplic_wf :: "vplic \<Rightarrow> bool" where
  "vplic_wf p \<longleftrightarrow> length (vwords p) = VPLIC_WORDS \<and> length (buckets p) = PLIC_MAX_INTERRUPTS
    \<and> cntxt_num p \<le> PLIC_PLAT_CNTXT_NUM"

definition vb :: "nat \<Rightarrow> vplic \<Rightarrow> nat \<Rightarrow> bool" where
  "vb off p i = bm_bit (vwords p) (32 * off + i)"

abbreviation pendb :: "vplic \<Rightarrow> nat \<Rightarrow> bool" where "pendb \<equiv> vb PEND_OFF"
abbreviation actb :: "vplic \<Rightarrow> nat \<Rightarrow> bool" where "actb \<equiv> vb ACT_OFF"
abbreviation deferredb :: "vplic \<Rightarrow> nat \<Rightarrow> bool" where "deferredb \<equiv> vb DEFERRED_OFF"
abbreviation hwb :: "vplic \<Rightarrow> nat \<Rightarrow> bool" where "hwb \<equiv> vb HW_OFF"
abbreviation enblb :: "vplic \<Rightarrow> nat \<Rightarrow> nat \<Rightarrow> bool" where "enblb p c \<equiv> vb (ENBL_OFF c) p"
abbreviation priow :: "vplic \<Rightarrow> nat \<Rightarrow> u32" where "priow p i \<equiv> vwords p ! (PRIO_OFF + i)"
abbreviation thrw :: "vplic \<Rightarrow> nat \<Rightarrow> u32" where "thrw p c \<equiv> vwords p ! (THRESHOLD_OFF + c)"

lemma vplic_len: "vplic_wf p \<Longrightarrow> bm_len (vwords p) = 45312"
  by (simp add: vplic_wf_def bm_len_def vplic_offs)

lemma vbit_get_eq: "vplic_wf p \<Longrightarrow> 32 * off + i < 45312 \<Longrightarrow> vbit_get off p i = Inr (vb off p i)"
  by (simp add: vbit_get_def vb_def bitmap_get_eq vplic_len)

definition upd_bit :: "nat \<Rightarrow> nat \<Rightarrow> bool \<Rightarrow> vplic \<Rightarrow> vplic \<Rightarrow> bool" where
  "upd_bit off i b p p' \<longleftrightarrow> vplic_wf p' \<and> buckets p' = buckets p \<and> cntxt_num p' = cntxt_num p
    \<and> (\<forall>off' j. vb off' p' j = (if 32 * off' + j = 32 * off + i then b else vb off' p j))
    \<and> (\<forall>k. k \<noteq> off + i div 32 \<longrightarrow> vwords p' ! k = vwords p ! k)"

lemma word_of_bit: "(32 * off + i) div 32 = off + i div (32 :: nat)" "(32 * off + i) mod 32 = i mod (32 :: nat)"
  by simp_all

lemma vbit_set_spec:
  assumes "vplic_wf p" "32 * off + i < 45312"
  shows "\<exists>p'. vbit_set off p i = Inr p' \<and> upd_bit off i True p p'"
proof -
  have "32 * off + i < bm_len (vwords p)" using assms by (simp add: vplic_len)
  from bitmap_set_eq [OF this] obtain w where w: "bitmap_set (vwords p) (32 * off + i) = Inr w"
    "length w = length (vwords p)" "\<forall>k. bm_bit w k = (if k = 32 * off + i then True else bm_bit (vwords p) k)"
    by blast
  then have "w ! k = vwords p ! k" if "k \<noteq> off + i div 32" for k
    using that by (auto simp: bitmap_set_def BITMAP_GRANULE_LEN_def word_of_bit wr_Inr_iff)
  with w assms(1) show ?thesis by (simp add: vbit_set_def upd_bit_def vplic_wf_def vb_def)
qed

lemma vbit_clear_spec:
  assumes "vplic_wf p" "32 * off + i < 45312"
  shows "\<exists>p'. vbit_clear off p i = Inr p' \<and> upd_bit off i False p p'"
proof -
  have "32 * off + i < bm_len (vwords p)" using assms by (simp add: vplic_len)
  from bitmap_clear_eq [OF this] obtain w where w: "bitmap_clear (vwords p) (32 * off + i) = Inr w"
    "length w = length (vwords p)" "\<forall>k. bm_bit w k = (if k = 32 * off + i then False else bm_bit (vwords p) k)"
    by blast
  then have "w ! k = vwords p ! k" if "k \<noteq> off + i div 32" for k
    using that by (auto simp: bitmap_clear_def BITMAP_GRANULE_LEN_def word_of_bit wr_Inr_iff)
  with w assms(1) show ?thesis by (simp add: vbit_clear_def upd_bit_def vplic_wf_def vb_def)
qed

section \<open>Selection of the next interrupt\<close>

text \<open>
  The loop also looks at the identifier 1024: its pending bit is the first active bit, its
  priority the first enable word of context 0. No guest can enable anything in context 0,
  which is a machine-mode context, so this word stays zero and 1024 is never selected.
\<close>

definition no_phantom :: "vplic \<Rightarrow> bool" where
  "no_phantom p \<longleftrightarrow> (\<forall>k < 32. \<not> enblb p 0 k)"

lemma no_phantom_prio: "no_phantom p \<Longrightarrow> priow p 1024 = 0"
proof (rule bit_word_eqI)
  fix n assume p: "no_phantom p" and n: "n < LENGTH(32)"
  then have "(36864 + n) div 32 = 1152" "(36864 + n) mod 32 = n"
    using div_mult_self4 [of 32 1152 n] mod_mult_self4 [of 32 1152 n] by simp_all
  with p n show "bit (priow p 1024) n = bit 0 n"
    by (fastforce simp: no_phantom_def vb_def bm_bit_def vplic_offs)
qed

definition cand :: "vplic \<Rightarrow> nat \<Rightarrow> irqid \<Rightarrow> bool" where
  "cand p c i \<longleftrightarrow> pendb p i \<and> \<not> actb p i \<and> enblb p c i"

definition best :: "vplic \<Rightarrow> nat \<Rightarrow> nat \<Rightarrow> u32 \<times> irqid \<Rightarrow> bool" where
  "best p c n = (\<lambda>(m, i). (m = 0 \<and> i = 0 \<and> (\<forall>j < n. cand p c j \<longrightarrow> priow p j = 0)) \<or>
    (0 < m \<and> i < n \<and> cand p c i \<and> priow p i = m \<and>
     (\<forall>j < n. cand p c j \<longrightarrow> priow p j \<le> m \<and> (priow p j = m \<longrightarrow> i \<le> j))))"

lemma next_pending_step_eq:
  assumes "vplic_wf p" "c < 8" "i \<le> 1024"
  shows "next_pending_step p c i (m, k) = Inr (if cand p c i \<and> m < priow p i then (priow p i, i) else (m, k))"
  using assms
  by (simp add: next_pending_step_def vplic_get_pend_def vplic_get_act_def vplic_get_enbl_def vplic_get_prio_def
      vbit_get_eq vplic_offs cand_def vplic_wf_def)

lemma best_step:
  assumes "best p c n (m, k)"
  shows "best p c (Suc n) (if cand p c n \<and> m < priow p n then (priow p n, n) else (m, k))"
proof (cases "cand p c n \<and> m < priow p n")
  case True
  from assms have le: "\<forall>j < n. cand p c j \<longrightarrow> priow p j \<le> m" by (auto simp: best_def)
  have "0 < priow p n" using True le_less_trans [OF word_zero_le [of m]] by blast
  moreover have "\<forall>j < Suc n. cand p c j \<longrightarrow> priow p j \<le> priow p n \<and> (priow p j = priow p n \<longrightarrow> n \<le> j)"
    using le True by (force simp: less_Suc_eq)
  ultimately show ?thesis using True by (simp add: best_def)
next
  case False
  with assms show ?thesis
    by (auto simp: best_def less_Suc_eq not_less)
qed

lemma next_pending_fold:
  assumes "vplic_wf p" "c < 8" "n \<le> 1025"
  shows "\<exists>r. foldR (next_pending_step p c) [0..<n] (0, 0) = Inr r \<and> best p c n r"
  using assms(3)
proof (induction n)
  case 0
  then show ?case by (simp add: best_def)
next
  case (Suc n)
  then obtain m k where "foldR (next_pending_step p c) [0..<n] (0, 0) = Inr (m, k)" "best p c n (m, k)" by auto
  with best_step [OF this(2)] next_pending_step_eq [OF assms(1,2), of n m k] Suc.prems show ?case
    by (simp add: foldR_upt_Suc del: upt_Suc)
qed

lemma next_pending_spec:
  assumes "vplic_wf p" "c < 8" "no_phantom p" "\<not> pendb p 0"
  shows "\<exists>i. vplic_next_pending p c = Inr i \<and> i < 1024 \<and>
    (if i = 0 then \<forall>j < 1024. cand p c j \<longrightarrow> priow p j \<le> thrw p c
     else cand p c i \<and> thrw p c < priow p i \<and>
       (\<forall>j < 1024. cand p c j \<longrightarrow> priow p j \<le> priow p i \<and> (priow p j = priow p i \<longrightarrow> i \<le> j)))"
proof -
  obtain m k where f: "foldR (next_pending_step p c) [0..<1025] (0, 0) = Inr (m, k)" and b: "best p c 1025 (m, k)"
    using next_pending_fold [OF assms(1,2), of 1025] by auto
  have t: "vplic_get_theshold p c = Inr (thrw p c)"
    using assms(1,2) by (simp add: vplic_get_theshold_def vplic_offs vplic_wf_def)
  have e: "vplic_next_pending p c = Inr (if thrw p c < m then k else 0)"
    using f t by (simp add: vplic_next_pending_def)
  show ?thesis
  proof (cases "thrw p c < m")
    case True
    then have m: "0 < m" using le_less_trans [OF word_zero_le] by blast
    with b have k: "k < 1025" "cand p c k" "priow p k = m"
      "\<forall>j < 1025. cand p c j \<longrightarrow> priow p j \<le> m \<and> (priow p j = m \<longrightarrow> k \<le> j)"
      by (auto simp: best_def)
    have "k \<noteq> 1024" using k(3) m no_phantom_prio [OF assms(3)] by auto
    moreover have "k \<noteq> 0" using k(2) assms(4) by (auto simp: cand_def intro: ccontr)
    ultimately show ?thesis using e True k by (intro exI [of _ k]) auto
  next
    case False
    have "priow p j \<le> thrw p c" if "j < 1024" "cand p c j" for j
    proof -
      have "priow p j \<le> m" using b that by (auto simp: best_def)
      also have "m \<le> thrw p c" using False by simp
      finally show ?thesis .
    qed
    then show ?thesis using e False by simp
  qed
qed

section \<open>The contexts of a VM\<close>

definition on_platform :: "'h vm \<Rightarrow> bool" where
  "on_platform v \<longleftrightarrow> cores (vm_cpus v) \<subseteq> {..<PLAT_CPU_NUM}"

text \<open>The supervisor contexts of the cores the VM owns.\<close>

definition own_cntxt :: "'h vm \<Rightarrow> int \<Rightarrow> bool" where
  "own_cntxt v d \<longleftrightarrow> (\<exists>h \<in> cores (vm_cpus v). d = plic_plat_cntxt_to_id \<lparr>hart_id = h, mode = PRIV_S\<rparr>)"

lemma vcntxt_valid_iff:
  assumes "vplic_wf p"
  shows "vplic_vcntxt_valid p c \<longleftrightarrow> c < cntxt_num p \<and> odd c"
proof (cases "c < cntxt_num p")
  case True
  then have "c < 8" using assms by (simp add: vplic_wf_def)
  then show ?thesis using True by (simp add: vplic_vcntxt_valid_def mode_of_id)
qed (simp add: vplic_vcntxt_valid_def)

lemma vcntxt_to_pcntxt_cases:
  assumes "on_platform v" "c < 8" "odd c"
  shows "\<exists>d. vplic_vcntxt_to_pcntxt v c = Inr d \<and> (d = - 1 \<or> own_cntxt v d \<and> 0 \<le> d \<and> d < 8 \<and> odd d)"
proof -
  have m: "plic_plat_id_to_cntxt (int c) = \<lparr>hart_id = c div 2, mode = PRIV_S\<rparr>"
    using assms(2,3) by (simp add: mode_of_id nat_div_distrib)
  obtain h where h: "vm_translate_to_pcpuid v (c div 2) = Inr h"
    "if c div 2 < card (cores (vm_cpus v)) then h \<in> cores (vm_cpus v) \<and> rank (vm_cpus v) h = c div 2 else h = INVALID_CPUID"
    using to_pcpuid_cases by blast
  have e: "vplic_vcntxt_to_pcntxt v c =
      Inr (if h \<noteq> INVALID_CPUID then plic_plat_cntxt_to_id \<lparr>hart_id = h, mode = PRIV_S\<rparr> else - 1)"
    using h(1) by (simp add: vplic_vcntxt_to_pcntxt_def m)
  show ?thesis
  proof (cases "c div 2 < card (cores (vm_cpus v))")
    case True
    then have hc: "h \<in> cores (vm_cpus v)" using h(2) by simp
    then have "h < 4" using assms(1) by (auto simp: on_platform_def)
    then have d: "plic_plat_cntxt_to_id \<lparr>hart_id = h, mode = PRIV_S\<rparr> = int (2 * h + 1)" "h \<noteq> INVALID_CPUID"
      by (simp_all add: id_of_mode INVALID_CPUID_def)
    with hc have "own_cntxt v (int (2 * h + 1))" unfolding own_cntxt_def by metis
    with e d \<open>h < 4\<close> show ?thesis by auto
  next
    case False
    with h(2) e show ?thesis by simp
  qed
qed

lemma vcntxt_to_pcntxt_any: "\<exists>d. vplic_vcntxt_to_pcntxt v c = Inr d"
  using to_pcpuid_cases by (auto simp: vplic_vcntxt_to_pcntxt_def Let_def split: plic_mode.splits)

section \<open>The invariant\<close>

definition irq_wf :: "irq_state \<Rightarrow> bool" where
  "irq_wf s \<longleftrightarrow> vplic_wf (vp s) \<and> no_phantom (vp s) \<and> \<not> pendb (vp s) 0
    \<and> plic_wf (phys s) \<and> length (plic_complete (phys s)) = PLIC_PLAT_CNTXT_NUM"

text \<open>
  What a guest's operation may change in the physical controller: only sources assigned to the
  VM and contexts of its own cores, and the completion registers of the contexts \<open>cntxts\<close>.
\<close>

definition hw_ids :: "vplic \<Rightarrow> irqid set" where
  "hw_ids p = {i. i < PLIC_MAX_INTERRUPTS \<and> hwb p i}"

definition confined :: "'h vm \<Rightarrow> nat set \<Rightarrow> irqid set \<Rightarrow> plic \<Rightarrow> plic \<Rightarrow> bool" where
  "confined v cntxts hw ph ph' \<longleftrightarrow>
    (\<forall>i. i \<notin> hw \<longrightarrow> plic_prio ph' ! i = plic_prio ph ! i)
    \<and> (\<forall>d j. 0 \<le> d \<longrightarrow> \<not> (own_cntxt v d \<and> j \<in> hw) \<longrightarrow> enabled_in ph' d j = enabled_in ph d j)
    \<and> (\<forall>d. \<not> own_cntxt v (int d) \<longrightarrow> plic_threshold ph' ! d = plic_threshold ph ! d)
    \<and> (\<forall>d. d \<notin> cntxts \<longrightarrow> plic_complete ph' ! d = plic_complete ph ! d)
    \<and> plic_pend ph' = plic_pend ph"

lemma confined_refl [simp]: "confined v c hw ph ph"
  by (simp add: confined_def)

lemma confined_trans: "confined v c hw ph ph' \<Longrightarrow> confined v c hw ph' ph'' \<Longrightarrow> confined v c hw ph ph''"
  unfolding confined_def by simp

text \<open>What every operation keeps, except that a completion ends the activity of the sources \<open>fin\<close>.\<close>

definition kept :: "'h vm \<Rightarrow> nat set \<Rightarrow> irqid set \<Rightarrow> irq_state \<Rightarrow> irq_state \<Rightarrow> bool" where
  "kept v cntxts fin s s' \<longleftrightarrow> irq_wf s' \<and> cntxt_num (vp s') = cntxt_num (vp s)
    \<and> hw_ids (vp s') = hw_ids (vp s)
    \<and> (\<forall>j < 1024. j \<notin> fin \<longrightarrow> actb (vp s) j \<longrightarrow> actb (vp s') j)
    \<and> confined v cntxts (hw_ids (vp s)) (phys s) (phys s')"

lemma kept_lines: "irq_wf s \<Longrightarrow> vp s' = vp s \<Longrightarrow> phys s' = phys s \<Longrightarrow> kept v cntxts fin s s'"
  by (simp add: kept_def irq_wf_def)

lemma update_line:
  assumes "irq_wf s" "c < 8"
  shows "\<exists>s'. vplic_update_hart_line v self c s = Inr s' \<and> vp s' = vp s \<and> phys s' = phys s"
proof -
  obtain d where "vplic_vcntxt_to_pcntxt v c = Inr d" using vcntxt_to_pcntxt_any by blast
  moreover obtain i where "vplic_next_pending (vp s) c = Inr i"
    using next_pending_spec [of "vp s" c] assms by (auto simp: irq_wf_def)
  ultimately show ?thesis by (simp add: vplic_update_hart_line_def Let_def)
qed

lemma refresh_lines_kept:
  assumes "irq_wf s" "\<And>s' c. vp s' = vp s \<Longrightarrow> c < 8 \<Longrightarrow> \<exists>b. cond s' c = Inr b"
  shows "\<exists>s'. refresh_lines v self cond s = Inr s' \<and> vp s' = vp s \<and> phys s' = phys s"
  unfolding refresh_lines_def
proof (rule foldR_inv, goal_cases)
  case 1
  show ?case by simp
next
  case (2 c s')
  then have c: "c < 8" and wf: "irq_wf s'" using assms(1) by (auto simp: irq_wf_def vplic_wf_def)
  obtain b where "cond s' c = Inr b" using assms(2) 2 c by blast
  with update_line [OF wf c] 2 show ?case by auto
qed

end
