(* ===== verification/Vplic_Guest.thy ===== *)
theory Vplic_Guest
  imports Vplic
begin

text \<open>
  What a guest can do to the interrupt controllers: every operation of the virtual controller
  keeps an invariant, confines its effect on the physical controller to what the VM owns, and
  respects the claim protocol and the rate limiter, over any history of operations.
\<close>

section \<open>Reading and keeping the state\<close>

lemma wfD:
  assumes "irq_wf s"
  shows "vplic_wf (vp s)" "no_phantom (vp s)" "\<not> pendb (vp s) 0" "plic_wf (phys s)"
    "length (plic_complete (phys s)) = 8" "length (vwords (vp s)) = 1416" "length (buckets (vp s)) = 1024"
    "cntxt_num (vp s) \<le> 8"
  using assms by (simp_all add: irq_wf_def vplic_wf_def vplic_offs)

lemma get_hw_eq: "vplic_wf p \<Longrightarrow> i < 1024 \<Longrightarrow> vplic_get_hw p i = Inr (hwb p i)"
  by (simp add: vplic_get_hw_def vbit_get_eq vplic_offs)

lemma get_enbl_eq: "vplic_wf p \<Longrightarrow> c < 8 \<Longrightarrow> i < 1024 \<Longrightarrow> vplic_get_enbl p c i = Inr (enblb p c i)"
  by (simp add: vplic_get_enbl_def vbit_get_eq vplic_offs)

lemma get_prio_eq: "vplic_wf p \<Longrightarrow> i < 1024 \<Longrightarrow> vplic_get_prio p i = Inr (priow p i)"
  by (simp add: vplic_get_prio_def vplic_offs vplic_wf_def)

lemma get_thr_eq: "vplic_wf p \<Longrightarrow> c < 8 \<Longrightarrow> vplic_get_theshold p c = Inr (thrw p c)"
  by (simp add: vplic_get_theshold_def vplic_offs vplic_wf_def)

lemma get_pend_eq: "vplic_wf p \<Longrightarrow> i < 1024 \<Longrightarrow> vplic_get_pend p i = Inr (pendb p i)"
  by (simp add: vplic_get_pend_def vbit_get_eq vplic_offs)

lemmas vplic_reads = get_hw_eq get_enbl_eq get_prio_eq get_thr_eq get_pend_eq

text \<open>A write to a word of the priorities or thresholds leaves the bit fields alone.\<close>

lemma vb_word:
  "off + j div 32 \<noteq> k \<Longrightarrow> vb off (p\<lparr>vwords := (vwords p)[k := w]\<rparr>) j = vb off p j"
  by (simp add: vb_def bm_bit_def)

lemma kept_trans:
  assumes "kept v c f s s'" "kept v c f' s' s''" "f \<subseteq> g" "f' \<subseteq> g"
  shows "kept v c g s s''"
  using assms confined_trans unfolding kept_def by (intro conjI) (simp | blast)+

lemma set_threshold_kept:
  assumes "irq_wf s" "on_platform v" "vplic_vcntxt_valid (vp s) c"
  shows "\<exists>s'. vplic_set_threshold v self c t s = Inr s' \<and> kept v n {} s s'"
proof -
  note wf = wfD [OF assms(1)]
  have c: "c < 8" "odd c" using assms(3) wf(8) by (auto simp: vcntxt_valid_iff [OF wf(1)])
  let ?p = "(vp s)\<lparr>vwords := (vwords (vp s))[1408 + c := t]\<rparr>"
  have w: "wr (vwords (vp s)) (THRESHOLD_OFF + c) t = Inr ((vwords (vp s))[1408 + c := t])"
    using c wf(6) by (simp add: vplic_offs)
  obtain d where d: "vplic_vcntxt_to_pcntxt v c = Inr d" "d = - 1 \<or> own_cntxt v d \<and> 0 \<le> d \<and> d < 8 \<and> odd d"
    using vcntxt_to_pcntxt_cases [OF assms(2) c] by blast
  obtain ph where ph: "plic_set_threshold d t (phys s) = Inr ph" "plic_wf ph"
      "length (plic_complete ph) = 8" "confined v n (hw_ids (vp s)) (phys s) ph"
  proof (cases "d = - 1")
    case True
    then show ?thesis using that [of "phys s"] wf by (simp add: plic_set_threshold_def cntxt_invalid_neg)
  next
    case False
    let ?ph = "(phys s)\<lparr>plic_threshold := (plic_threshold (phys s))[nat d := t]\<rparr>"
    have dd: "own_cntxt v d" "0 \<le> d" "d < 8" "odd d" using d(2) False by auto
    have v: "plic_cntxt_valid d" using dd by (simp add: cntxt_valid_iff)
    have l: "nat d < length (plic_threshold (phys s))" using dd wf(4) by (simp add: plic_wf_def)
    have "plic_set_threshold d t (phys s) = Inr ?ph" using v l by (simp add: plic_set_threshold_def)
    moreover have "plic_wf ?ph" using wf(4) by (simp add: plic_wf_def)
    moreover have "nat d \<noteq> k" if "\<not> own_cntxt v (int k)" for k using that dd by auto
    then have "confined v n (hw_ids (vp s)) (phys s) ?ph" by (simp add: confined_def enabled_in_def)
    ultimately show ?thesis using that wf(5) by simp
  qed
  have vb: "vb off ?p j = vb off (vp s) j" if "off + j div 32 < 1408" for off j
    using that by (intro vb_word) simp
  let ?s = "s\<lparr>vp := ?p, phys := ph\<rparr>"
  have "irq_wf ?s" using wf ph vb by (simp add: irq_wf_def vplic_wf_def no_phantom_def vplic_offs)
  moreover have "hw_ids ?p = hw_ids (vp s)" using vb by (auto simp: hw_ids_def vplic_offs)
  ultimately have k: "kept v n {} s ?s" using ph(4) vb by (simp add: kept_def vplic_offs)
  obtain s' where "vplic_update_hart_line v self c ?s = Inr s'" "vp s' = vp ?s" "phys s' = phys ?s"
    using update_line [OF \<open>irq_wf ?s\<close> c(1)] by blast
  then show ?thesis using w d(1) ph(1) k by (simp add: vplic_set_threshold_def kept_def irq_wf_def)
qed

lemma upd_bitD:
  assumes "upd_bit off i b p p'"
  shows "vplic_wf p'" "buckets p' = buckets p" "cntxt_num p' = cntxt_num p"
    "vb off' p' j = (if 32 * off' + j = 32 * off + i then b else vb off' p j)"
  using assms by (simp_all add: upd_bit_def)

text \<open>Setting a bit outside the enables of context 0 and other than pending bit 0 keeps the invariant.\<close>

lemma upd_bit_irq_wf:
  assumes "irq_wf s" "upd_bit off i b (vp s) p'"
    and "b \<Longrightarrow> 32 * off + i \<noteq> 1024 \<and> \<not> (36864 \<le> 32 * off + i \<and> 32 * off + i < 36896)"
  shows "irq_wf (s\<lparr>vp := p'\<rparr>)"
proof -
  note u = upd_bitD [OF assms(2)] and wf = wfD [OF assms(1)]
  have "no_phantom p'" "\<not> pendb p' 0" using wf(2,3) u(4) assms(3) by (auto simp: no_phantom_def vplic_offs)
  then show ?thesis using assms(1) u(1) by (simp add: irq_wf_def)
qed

lemma upd_bit_kept:
  assumes "irq_wf s" "upd_bit off i b (vp s) p'"
    and "b \<Longrightarrow> 32 * off + i \<noteq> 1024 \<and> \<not> (36864 \<le> 32 * off + i \<and> 32 * off + i < 36896)"
    and "1024 \<le> 32 * off + i" "b \<or> 32 * off + i < 2048 \<or> 3072 \<le> 32 * off + i \<or> 32 * off + i - 2048 \<in> fin"
  shows "kept v n fin s (s\<lparr>vp := p'\<rparr>)"
proof -
  note u = upd_bitD [OF assms(2)]
  have "hw_ids p' = hw_ids (vp s)" using u(4) assms(4) by (auto simp: hw_ids_def vplic_offs)
  moreover have "\<forall>j < 1024. j \<notin> fin \<longrightarrow> actb (vp s) j \<longrightarrow> actb p' j"
  proof (intro allI impI)
    fix j assume j: "j < 1024" "j \<notin> fin" "actb (vp s) j"
    have "b" if "2048 + j = 32 * off + i"
    proof -
      have "32 * off + i - 2048 = j" using that by linarith
      with assms(5) j(1,2) that show b by auto
    qed
    with j(3) u(4) show "actb p' j" by (auto simp: vplic_offs)
  qed
  ultimately show ?thesis using upd_bit_irq_wf [OF assms(1-3)] u(3) by (simp add: kept_def)
qed

lemma set_enbl_kept:
  assumes "irq_wf s" "on_platform v" "vplic_vcntxt_valid (vp s) c" "i < 1024"
  shows "\<exists>s'. vplic_set_enbl v self c i st s = Inr s' \<and> kept v n {} s s'"
proof -
  note wf = wfD [OF assms(1)]
  have c: "c < 8" "odd c" using assms(3) wf(8) by (auto simp: vcntxt_valid_iff [OF wf(1)])
  have e: "vplic_get_enbl (vp s) c i = Inr (enblb (vp s) c i)" by (rule get_enbl_eq [OF wf(1) c(1) assms(4)])
  show ?thesis
  proof (cases "enblb (vp s) c i = st")
    case True
    then show ?thesis using e assms(4) kept_lines [OF assms(1)] by (auto simp: vplic_set_enbl_def)
  next
    case False
    have le: "32 * ENBL_OFF c + i < 45312" using c(1) assms(4) by (simp add: vplic_offs)
    obtain p where p: "(if st then vbit_set (ENBL_OFF c) (vp s) i else vbit_clear (ENBL_OFF c) (vp s) i) = Inr p"
        "upd_bit (ENBL_OFF c) i st (vp s) p"
      using vbit_set_spec [OF wf(1) le] vbit_clear_spec [OF wf(1) le] by (cases st) auto
    let ?s = "s\<lparr>vp := p\<rparr>"
    have "c \<noteq> 0" using c(2) by (auto intro: ccontr)
    with assms(4) c(1) have k: "kept v n {} s ?s"
      by (intro upd_bit_kept [OF assms(1) p(2)]) (auto simp: vplic_offs)
    then have wf': "irq_wf ?s" "hw_ids p = hw_ids (vp s)" by (simp_all add: kept_def)
    have hw: "vplic_get_hw p i = Inr (hwb p i)" by (rule get_hw_eq [OF upd_bitD(1) [OF p(2)] assms(4)])
    show ?thesis
    proof (cases "hwb p i")
      case True
      obtain d where d: "vplic_vcntxt_to_pcntxt v c = Inr d" "d = - 1 \<or> own_cntxt v d \<and> 0 \<le> d \<and> d < 8 \<and> odd d"
        using vcntxt_to_pcntxt_cases [OF assms(2) c] by blast
      obtain ph where ph: "plic_set_enbl d i st (phys s) = Inr ph" "plic_wf ph"
        "length (plic_complete ph) = 8" "confined v n (hw_ids (vp s)) (phys s) ph"
      proof (cases "d = - 1")
        case True
        then show ?thesis using that [of "phys s"] wf by (simp add: plic_set_enbl_def cntxt_invalid_neg)
      next
        case False
        have dd: "own_cntxt v d" "0 \<le> d" "d < 8" "odd d" using d(2) False by auto
        have v: "plic_cntxt_valid d" using dd by (simp add: cntxt_valid_iff)
        obtain ph where q: "plic_set_enbl d i st (phys s) = Inr ph" "plic_wf ph" "plic_prio ph = plic_prio (phys s)"
          "plic_threshold ph = plic_threshold (phys s)"
          "\<forall>d' j. 0 \<le> d' \<longrightarrow> enabled_in ph d' j =
            (if d' = d \<and> j = i \<and> i \<le> impl_interrupts (phys s) then st else enabled_in (phys s) d' j)"
          using plic_set_enbl_spec [OF wf(4) v dd(2,3), of i st] by blast
        then have "plic_complete ph = plic_complete (phys s) \<and> plic_pend ph = plic_pend (phys s)"
          by (auto simp: plic_set_enbl_def split: if_splits)
        moreover have "i \<in> hw_ids (vp s)" using True wf'(2) assms(4) by (auto simp: hw_ids_def)
        ultimately show ?thesis using that [of ph] q dd(1) wf(5) by (auto simp: confined_def)
      qed
      let ?t = "s\<lparr>vp := p, phys := ph\<rparr>"
      have "kept v n {} s ?t" using k ph wf'(1) by (simp add: kept_def irq_wf_def)
      then show ?thesis using False e p(1) hw True d(1) ph(1) assms(4) by (simp add: vplic_set_enbl_def)
    next
      case nh: False
      obtain s' where s': "vplic_update_hart_line v self c ?s = Inr s'" "vp s' = vp ?s" "phys s' = phys ?s"
        using update_line [OF wf'(1) c(1)] by blast
      then have "kept v n {} ?s s'" using wf'(1) by (intro kept_lines)
      with k have "kept v n {} s s'" by (rule kept_trans) auto
      then show ?thesis using False e p(1) hw nh s'(1) assms(4) by (simp add: vplic_set_enbl_def)
    qed
  qed
qed

lemma set_prio_kept:
  assumes "irq_wf s" "i < 1024"
  shows "\<exists>s'. vplic_set_prio v self i pr s = Inr s' \<and> kept v n {} s s'"
proof (cases "priow (vp s) i = pr")
  case True
  then show ?thesis using kept_lines [OF assms(1), of s] assms(2) get_prio_eq [OF wfD(1) [OF assms(1)] assms(2)]
    by (auto simp: vplic_set_prio_def)
next
  case False
  note wf = wfD [OF assms(1)]
  let ?p = "(vp s)\<lparr>vwords := (vwords (vp s))[128 + i := pr]\<rparr>"
  have w: "wr (vwords (vp s)) (PRIO_OFF + i) pr = Inr ((vwords (vp s))[128 + i := pr])"
    using assms(2) wf(6) by (simp add: vplic_offs)
  have vb: "vb off ?p j = vb off (vp s) j" if "off + j div 32 < 128 \<or> 1152 \<le> off" for off j
    using that assms(2) by (intro vb_word) auto
  let ?s = "s\<lparr>vp := ?p\<rparr>"
  have wf': "irq_wf ?s" using wf vb by (simp add: irq_wf_def vplic_wf_def no_phantom_def vplic_offs)
  moreover have hwi: "hw_ids ?p = hw_ids (vp s)" using vb by (auto simp: hw_ids_def vplic_offs)
  ultimately have k: "kept v n {} s ?s" using vb by (simp add: kept_def vplic_offs)
  have r: "vplic_get_prio (vp s) i = Inr (priow (vp s) i)" "vplic_get_hw ?p i = Inr (hwb ?p i)"
    using get_prio_eq [OF wf(1) assms(2)] get_hw_eq [OF _ assms(2), of ?p] wfD(1) [OF wf'] by simp_all
  show ?thesis
  proof (cases "hwb ?p i")
    case True
    then have i: "i \<in> hw_ids (vp s)" using hwi assms(2) by (auto simp: hw_ids_def)
    obtain ph where ph: "plic_set_prio i pr (phys s) = Inr ph" "plic_wf ph"
      "length (plic_complete ph) = 8" "confined v n (hw_ids (vp s)) (phys s) ph"
    proof (cases "i \<le> impl_interrupts (phys s)")
      case True
      let ?ph = "(phys s)\<lparr>plic_prio := (plic_prio (phys s))[i := pr]\<rparr>"
      have "plic_set_prio i pr (phys s) = Inr ?ph" "plic_wf ?ph"
        using True wf(4) assms(2) by (simp_all add: plic_set_prio_def plic_wf_def)
      moreover have "confined v n (hw_ids (vp s)) (phys s) ?ph"
        using i by (auto simp: confined_def enabled_in_def) (metis nth_list_update_neq)
      ultimately show ?thesis using that [of ?ph] wf(5) by simp
    next
      case False
      then show ?thesis using that [of "phys s"] wf by (simp add: plic_set_prio_def)
    qed
    let ?t = "s\<lparr>vp := ?p, phys := ph\<rparr>"
    have "kept v n {} s ?t" using k ph wf' by (simp add: kept_def irq_wf_def)
    then show ?thesis using False w r True ph(1) assms(2) by (simp add: vplic_set_prio_def)
  next
    case nh: False
    obtain s' where s': "refresh_lines v self (\<lambda>s c. vplic_get_enbl (vp s) c i) ?s = Inr s'" "vp s' = vp ?s" "phys s' = phys ?s"
      using refresh_lines_kept [OF wf', of "\<lambda>s c. vplic_get_enbl (vp s) c i" v self]
        get_enbl_eq [OF wfD(1) [OF wf'] _ assms(2)] by auto
    then have "kept v n {} ?s s'" using wf' by (intro kept_lines)
    with k have "kept v n {} s s'" by (rule kept_trans) auto
    then show ?thesis using False w r nh s'(1) assms(2) by (simp add: vplic_set_prio_def)
  qed
qed

section \<open>Draining the deferred interrupts\<close>

definition drained :: "u64 \<Rightarrow> vplic \<Rightarrow> irqid \<Rightarrow> bool" where
  "drained now p k \<longleftrightarrow> 1 \<le> k \<and> k < 1024 \<and> deferredb p k \<and> 0 < snd (irq_bucket_drain_deferred (buckets p ! k) now)"

lemma vb_at: "vb off p j = bm_bit (vwords p) (32 * off + j)"
  by (simp add: vb_def)

text \<open>The bit at position \<open>x\<close> of the block once the sources below \<open>n\<close> were drained.\<close>

definition drain_bit :: "u64 \<Rightarrow> vplic \<Rightarrow> nat \<Rightarrow> nat \<Rightarrow> bool" where
  "drain_bit now p n x =
    (if 3072 \<le> x \<and> x < 3072 + n \<and> drained now p (x - 3072) then False
     else if 1024 \<le> x \<and> x < 1024 + n \<and> drained now p (x - 1024) then True
     else bm_bit (vwords p) x)"

definition drain_bucket :: "u64 \<Rightarrow> vplic \<Rightarrow> irqid \<Rightarrow> irq_token_bucket" where
  "drain_bucket now p k =
    (if 1 \<le> k \<and> k < 1024 \<and> deferredb p k then fst (irq_bucket_drain_deferred (buckets p ! k) now) else buckets p ! k)"

definition drain_inv :: "u64 \<Rightarrow> vplic \<Rightarrow> nat \<Rightarrow> vplic \<Rightarrow> bool" where
  "drain_inv now p n p' \<longleftrightarrow> vplic_wf p' \<and> cntxt_num p' = cntxt_num p
    \<and> (\<forall>x. bm_bit (vwords p') x = drain_bit now p n x)
    \<and> (\<forall>k. buckets p' ! k = (if k < n then drain_bucket now p k else buckets p ! k))"

lemma drain_bit_same: "\<not> drained now p n \<Longrightarrow> drain_bit now p (Suc n) x = drain_bit now p n x"
proof -
  assume nd: "\<not> drained now p n"
  consider "x = 3072 + n" | "x = 1024 + n" | "x \<noteq> 3072 + n" "x \<noteq> 1024 + n" by blast
  then show ?thesis
  proof cases
    case 3
    then have "x < 3072 + Suc n \<and> 3072 \<le> x \<longleftrightarrow> x < 3072 + n \<and> 3072 \<le> x"
      "x < 1024 + Suc n \<and> 1024 \<le> x \<longleftrightarrow> x < 1024 + n \<and> 1024 \<le> x" by auto
    then show ?thesis by (auto simp: drain_bit_def)
  qed (use nd in \<open>auto simp: drain_bit_def\<close>)
qed

lemma drain_step_inv:
  assumes "drain_inv now p n p'" "1 \<le> n" "n < 1024"
  shows "\<exists>p''. drain_step now n p' = Inr p'' \<and> drain_inv now p (Suc n) p''"
proof -
  have wf: "vplic_wf p'" "cntxt_num p' = cntxt_num p" "length (buckets p') = 1024"
    and bits: "\<And>x. bm_bit (vwords p') x = drain_bit now p n x" 
    and bk: "\<forall>k. buckets p' ! k = (if k < n then drain_bucket now p k else buckets p ! k)"
    using assms(1) by (auto simp: drain_inv_def vplic_wf_def)
  have d: "deferredb p' n = deferredb p n" using bits assms(3) by (simp add: vb_at drain_bit_def vplic_offs)
  have g: "vbit_get DEFERRED_OFF p' n = Inr (deferredb p n)"
    using vbit_get_eq [OF wf(1), of DEFERRED_OFF n] assms(3) d by (simp add: vplic_offs)
  show ?thesis
  proof (cases "deferredb p n")
    case False
    then have "\<not> drained now p n" by (simp add: drained_def)
    then have "drain_bit now p (Suc n) x = drain_bit now p n x" for x by (rule drain_bit_same)
    moreover have "drain_bucket now p n = buckets p ! n" using False by (simp add: drain_bucket_def)
    ultimately have "drain_inv now p (Suc n) p'" using assms(1) by (auto simp: drain_inv_def less_Suc_eq)
    with False g show ?thesis by (simp add: drain_step_def)
  next
    case True
    obtain b m where b: "irq_bucket_drain_deferred (buckets p ! n) now = (b, m)" by fastforce
    then have r: "rd (buckets p') n = Inr (buckets p ! n)" using wf(3) assms(3) bk by simp
    let ?q = "p'\<lparr>buckets := (buckets p')[n := b]\<rparr>"
    have q: "vplic_wf ?q" "cntxt_num ?q = cntxt_num p" "\<And>x. bm_bit (vwords ?q) x = drain_bit now p n x"
      "\<forall>k. buckets ?q ! k = (if k < Suc n then drain_bucket now p k else buckets p ! k)"
      using wf bits bk b True assms(2,3) by (auto simp: vplic_wf_def drain_bucket_def nth_list_update less_Suc_eq)
    show ?thesis
    proof (cases "0 < m")
      case False
      then have nd: "\<not> drained now p n" using b by (simp add: drained_def)
      then have "drain_bit now p (Suc n) x = drain_bit now p n x" for x by (rule drain_bit_same)
      with q have "drain_inv now p (Suc n) ?q" by (simp add: drain_inv_def)
      with True g r b False show ?thesis by (simp add: drain_step_def)
    next
      case mp: True
      then have nd: "drained now p n" using b True assms by (simp add: drained_def)
      obtain q1 where q1: "vbit_clear DEFERRED_OFF ?q n = Inr q1" "upd_bit DEFERRED_OFF n False ?q q1"
        using vbit_clear_spec [OF q(1), of DEFERRED_OFF n] assms(3) by (auto simp: vplic_offs)
      note u1 = upd_bitD [OF q1(2)]
      have pg: "vbit_get PEND_OFF q1 n = Inr (pendb q1 n)"
        using vbit_get_eq [OF u1(1), of PEND_OFF n] assms(3) by (simp add: vplic_offs)
      obtain q2 where q2: "(if \<not> pendb q1 n then vbit_set PEND_OFF q1 n else Inr q1) = Inr q2"
          "upd_bit PEND_OFF n True q1 q2"
      proof (cases "pendb q1 n")
        case True
        then have "upd_bit PEND_OFF n True q1 q1" using u1(1) by (auto simp: upd_bit_def vb_at)
        with True show ?thesis using that by simp
      next
        case False
        with vbit_set_spec [OF u1(1), of PEND_OFF n] assms(3) show ?thesis
          using that by (auto simp: vplic_offs)
      qed
      note u2 = upd_bitD [OF q2(2)]
      have "drain_step now n p' = Inr q2"
        using True g r b mp q1(1) pg q2(1) by (simp add: drain_step_def)
      moreover have "bm_bit (vwords q2) x = drain_bit now p (Suc n) x" for x
      proof -
        have e: "bm_bit (vwords q2) x =
            (if x = 1024 + n then True else if x = 3072 + n then False else drain_bit now p n x)"
          using u2(4) [of 0 x] u1(4) [of 0 x] q(3) [of x] by (simp add: vb_at vplic_offs)
        consider "x = 3072 + n" | "x = 1024 + n" | "x \<noteq> 3072 + n" "x \<noteq> 1024 + n" by blast
        then show ?thesis
        proof cases
          case 3
          then have "x < 3072 + Suc n \<and> 3072 \<le> x \<longleftrightarrow> x < 3072 + n \<and> 3072 \<le> x"
            "x < 1024 + Suc n \<and> 1024 \<le> x \<longleftrightarrow> x < 1024 + n \<and> 1024 \<le> x" by auto
          with 3 e show ?thesis by (auto simp: drain_bit_def)
        qed (use e nd assms(3) in \<open>auto simp: drain_bit_def\<close>)
      qed
      moreover have "\<forall>k. buckets q2 ! k = (if k < Suc n then drain_bucket now p k else buckets p ! k)"
        using q(4) u1(2) u2(2) by simp
      ultimately show ?thesis using u1(3) u2(1,3) wf(2) by (auto simp: drain_inv_def)
    qed
  qed
qed

lemma drain_loop_inv:
  assumes "vplic_wf p" "1 \<le> n" "n \<le> 1024"
  shows "\<exists>p'. foldR (drain_step now) [1..<n] p = Inr p' \<and> drain_inv now p n p'"
  using assms(2,3)
proof (induction n rule: dec_induct)
  case base
  have "drain_bit now p 1 x = bm_bit (vwords p) x" for x
    by (auto simp: drain_bit_def drained_def)
  then show ?case using assms(1) by (simp add: drain_inv_def drain_bucket_def)
next
  case (step n)
  then obtain p' where p': "foldR (drain_step now) [1..<n] p = Inr p'" "drain_inv now p n p'" by auto
  obtain p'' where "drain_step now n p' = Inr p''" "drain_inv now p (Suc n) p''"
    using drain_step_inv [OF p'(2)] step by auto
  with p'(1) step show ?case by (simp add: foldR_snoc)
qed

lemma claim_spec:
  assumes "irq_wf s" "c < 8"
  shows "\<exists>s' i. vplic_claim v self now c s = Inr (s', i) \<and> vplic_next_pending (vp s) c = Inr i \<and> i < 1024
    \<and> kept v n {} s s'
    \<and> (\<forall>j < 1024. actb (vp s') j \<longleftrightarrow> actb (vp s) j \<or> j = i)
    \<and> (\<forall>j < 1024. pendb (vp s') j \<longleftrightarrow> pendb (vp s) j \<and> j \<noteq> i \<or> drained now (vp s) j)
    \<and> (\<forall>j < 1024. buckets (vp s') ! j = drain_bucket now (vp s) j)"
proof -
  note wf = wfD [OF assms(1)]
  obtain i where i: "vplic_next_pending (vp s) c = Inr i" "i < 1024"
    using next_pending_spec [OF wf(1) assms(2) wf(2,3)] by auto
  obtain p1 where p1: "vbit_clear PEND_OFF (vp s) i = Inr p1" "upd_bit PEND_OFF i False (vp s) p1"
    using vbit_clear_spec [OF wf(1), of PEND_OFF i] i(2) by (auto simp: vplic_offs)
  note u1 = upd_bitD [OF p1(2)]
  obtain p2 where p2: "vbit_set ACT_OFF p1 i = Inr p2" "upd_bit ACT_OFF i True p1 p2"
    using vbit_set_spec [OF u1(1), of ACT_OFF i] i(2) by (auto simp: vplic_offs)
  note u2 = upd_bitD [OF p2(2)]
  obtain p3 where p3: "foldR (drain_step now) [1..<1024] p2 = Inr p3" "drain_inv now p2 1024 p3"
    using drain_loop_inv [OF u2(1), of 1024] by auto
  have dr: "drained now p2 k = drained now (vp s) k" for k
    using u1(4) u2(4) u1(2) u2(2) i(2) by (auto simp: drained_def vplic_offs)
  have b3: "bm_bit (vwords p3) x =
      (if 3072 \<le> x \<and> x < 4096 \<and> drained now (vp s) (x - 3072) then False
       else if 1024 \<le> x \<and> x < 2048 \<and> drained now (vp s) (x - 1024) then True
       else if x = 2048 + i then True else if x = 1024 + i then False else bm_bit (vwords (vp s)) x)" for x
  proof -
    have e: "bm_bit (vwords p2) x =
        (if x = 2048 + i then True else if x = 1024 + i then False else bm_bit (vwords (vp s)) x)"
      using u1(4) [of 0 x] u2(4) [of 0 x] by (simp add: vb_at vplic_offs)
    have "bm_bit (vwords p3) x = drain_bit now p2 1024 x" using p3(2) by (simp add: drain_inv_def)
    then show ?thesis by (simp only: drain_bit_def dr e) simp
  qed
  let ?t = "s\<lparr>vp := p3\<rparr>"
  have "\<not> drained now (vp s) 0" by (simp add: drained_def)
  with wf(3) b3 have "\<not> pendb p3 0" by (auto simp: vb_at vplic_offs)
  moreover have "no_phantom p3" using wf(2) b3 i(2) by (simp add: no_phantom_def vb_at vplic_offs)
  ultimately have t: "irq_wf ?t" using assms(1) p3(2) by (simp add: irq_wf_def drain_inv_def)
  obtain s' where s': "vplic_update_hart_line v self c ?t = Inr s'" "vp s' = p3" "phys s' = phys s"
    using update_line [OF t assms(2)] by auto
  have act: "actb p3 j \<longleftrightarrow> actb (vp s) j \<or> j = i" if "j < 1024" for j
    using b3 that i(2) by (auto simp: vb_at vplic_offs)
  have pend: "pendb p3 j \<longleftrightarrow> pendb (vp s) j \<and> j \<noteq> i \<or> drained now (vp s) j" if "j < 1024" for j
    using b3 that i(2) by (auto simp: vb_at vplic_offs)
  have "hw_ids p3 = hw_ids (vp s)" using b3 i(2) by (auto simp: hw_ids_def vb_at vplic_offs)
  moreover have "cntxt_num p3 = cntxt_num (vp s)" using p3(2) u1(3) u2(3) by (simp add: drain_inv_def)
  moreover have "irq_wf s'" using t s' by (simp add: irq_wf_def)
  ultimately have "kept v n {} s s'" using act s' by (simp add: kept_def)
  moreover have "buckets p3 ! j = drain_bucket now (vp s) j" if "j < 1024" for j
  proof -
    have "deferredb p2 j = deferredb (vp s) j" using u1(4) u2(4) that i(2) by (auto simp: vplic_offs)
    with p3(2) that u1(2) u2(2) show ?thesis by (simp add: drain_inv_def drain_bucket_def)
  qed
  moreover have "vplic_claim v self now c s = Inr (s', i)"
    using i(1) p1(1) p2(1) p3(1) s'(1) by (simp add: vplic_claim_def)
  ultimately show ?thesis using i act pend s'(2) by blast
qed

section \<open>Completion and injection\<close>

lemma complete_spec:
  assumes "irq_wf s" "c < 8" "n < 8" "i < 43264" "n \<in> N"
  shows "\<exists>s'. vplic_complete v self n c i s = Inr s' \<and> kept v N {i} s s'
    \<and> (\<forall>x. bm_bit (vwords (vp s')) x \<longleftrightarrow> x \<noteq> 2048 + i \<and> bm_bit (vwords (vp s)) x)"
proof -
  note wf = wfD [OF assms(1)]
  have hw: "vplic_get_hw (vp s) i = Inr (i \<in> hw_ids (vp s))"
  proof -
    consider "i < 1024" | "i = 1024" | "1024 < i" by linarith
    then show ?thesis
    proof cases
      case 1
      then show ?thesis using get_hw_eq [OF wf(1)] by (simp add: hw_ids_def)
    next
      case 2
      then show ?thesis using vbit_get_eq [OF wf(1), of HW_OFF 1024] wf(3)
        by (simp add: vplic_get_hw_def vplic_offs vb_at hw_ids_def)
    qed (simp add: vplic_get_hw_def hw_ids_def)
  qed
  obtain p where p: "vbit_clear ACT_OFF (vp s) i = Inr p" "upd_bit ACT_OFF i False (vp s) p"
    using vbit_clear_spec [OF wf(1), of ACT_OFF i] assms(4) by (auto simp: vplic_offs)
  let ?s = "if i \<in> hw_ids (vp s) then s\<lparr>phys := (phys s)\<lparr>plic_complete := (plic_complete (phys s))[n := of_nat i]\<rparr>\<rparr> else s"
  have h: "(if i \<in> hw_ids (vp s) then bindR (wr (plic_complete (phys s)) n (of_nat i))
      (\<lambda>cs. Inr (s\<lparr>phys := (phys s)\<lparr>plic_complete := cs\<rparr>\<rparr>)) else Inr s) = Inr ?s"
    using assms(3) wf(5) by simp
  have v: "vp ?s = vp s" by simp
  have "irq_wf ?s" using assms(1) by (auto simp: irq_wf_def plic_wf_def)
  moreover have "confined v N (hw_ids (vp s)) (phys s) (phys ?s)"
    using assms(5) by (auto simp: confined_def enabled_in_def) (metis nth_list_update_neq)
  ultimately have k1: "kept v N {} s ?s" by (simp add: kept_def)
  have k2: "kept v N {i} ?s (?s\<lparr>vp := p\<rparr>)"
    using p(2) by (intro upd_bit_kept [OF \<open>irq_wf ?s\<close>, of ACT_OFF i False]) (simp_all add: vplic_offs)
  then have wf2: "irq_wf (?s\<lparr>vp := p\<rparr>)" by (simp only: kept_def)
  obtain s' where s': "vplic_update_hart_line v self c (?s\<lparr>vp := p\<rparr>) = Inr s'" "vp s' = p"
      "phys s' = phys ?s"
    using update_line [OF wf2 assms(2)] by auto
  have k3: "kept v N {} (?s\<lparr>vp := p\<rparr>) s'" using s' by (intro kept_lines [OF wf2]) simp_all
  have "kept v N {i} s (?s\<lparr>vp := p\<rparr>)" by (rule kept_trans [OF k1 k2]) simp_all
  then have k: "kept v N {i} s s'" by (rule kept_trans [OF _ k3]) simp_all
  have c: "vplic_complete v self n c i s = Inr s'"
    unfolding vplic_complete_def hw bindR_Inr h v p(1) by (rule s'(1))
  have "bm_bit (vwords p) x \<longleftrightarrow> x \<noteq> 2048 + i \<and> bm_bit (vwords (vp s)) x" for x
    using upd_bitD(4) [OF p(2), of 0 x] by (simp add: vb_at vplic_offs)
  with c k s'(2) show ?thesis by blast
qed

lemma complete_outside:
  assumes "irq_wf s" "43264 \<le> i"
  shows "vplic_complete v self n c i s = Inl Out_of_bounds"
proof -
  have "\<not> 2048 + i < bm_len (vwords (vp s))" using assms wfD(1) [OF assms(1)] by (simp add: vplic_len)
  then have "vbit_clear ACT_OFF (vp s) i = Inl Out_of_bounds"
    using wfD(6) [OF assms(1)]
    by (auto simp: vbit_clear_def bitmap_clear_def vplic_offs bm_len_def BITMAP_GRANULE_LEN_def rd_def)
  then show ?thesis using assms(2) by (simp add: vplic_complete_def vplic_get_hw_def)
qed

lemma consume_bucket_wf:
  assumes "irq_wf s"
  shows "irq_wf (s\<lparr>vp := (vp s)\<lparr>buckets := (buckets (vp s))[i := b]\<rparr>\<rparr>)"
  using assms by (simp add: irq_wf_def vplic_wf_def no_phantom_def vb_at)

text \<open>
  What an injection does: nothing if the source is pending, otherwise the bucket decides
  between pending, deferred and lost.
\<close>

definition inject_bits :: "u64 \<Rightarrow> irqid \<Rightarrow> vplic \<Rightarrow> nat \<Rightarrow> bool" where
  "inject_bits now i p x =
    (let a = snd (irq_bucket_consume (buckets p ! i) now) in
     if \<not> pendb p i \<and> a = IRQ_RL_ALLOW \<and> x = 1024 + i then True
     else if \<not> pendb p i \<and> a = IRQ_RL_DEFERRED \<and> x = 3072 + i then True
     else bm_bit (vwords p) x)"

lemma inject_refresh:
  assumes "irq_wf s" "i < 1024"
  shows "\<exists>s'. refresh_lines v self (\<lambda>s c. bindR (vplic_get_enbl (vp s) c i) (\<lambda>e. if \<not> e then Inr False else
      bindR (vplic_get_prio (vp s) i) (\<lambda>prio.
      bindR (vplic_get_theshold (vp s) c) (\<lambda>t. Inr (t < prio))))) s = Inr s' \<and> vp s' = vp s \<and> phys s' = phys s"
proof (rule refresh_lines_kept [OF assms(1)])
  fix s' :: irq_state and c :: nat
  assume "vp s' = vp s" "c < 8"
  with vplic_reads [OF wfD(1) [OF assms(1)]] assms(2)
  show "\<exists>b. bindR (vplic_get_enbl (vp s') c i) (\<lambda>e. if \<not> e then Inr False else
      bindR (vplic_get_prio (vp s') i) (\<lambda>prio.
      bindR (vplic_get_theshold (vp s') c) (\<lambda>t. Inr (t < prio)))) = Inr b"
    by (cases "enblb (vp s) c i") auto
qed

lemma inject_spec:
  assumes "irq_wf s" "0 < i" "i < 1024" "u < 4"
  shows "\<exists>s'. vplic_inject v self now u i s = Inr s' \<and> kept v n {} s s'
    \<and> (\<forall>x. bm_bit (vwords (vp s')) x = inject_bits now i (vp s) x)
    \<and> buckets (vp s') = (if pendb (vp s) i then buckets (vp s)
        else (buckets (vp s))[i := fst (irq_bucket_consume (buckets (vp s) ! i) now)])"
proof -
  note wf = wfD [OF assms(1)]
  have pd: "vplic_get_pend (vp s) i = Inr (pendb (vp s) i)" by (rule get_pend_eq [OF wf(1) assms(3)])
  show ?thesis
  proof (cases "pendb (vp s) i")
    case True
    then have "vplic_inject v self now u i s = Inr s" using pd assms by (simp add: vplic_inject_def)
    then show ?thesis using True kept_lines [OF assms(1), of s] by (simp add: inject_bits_def)
  next
    case np: False
    obtain b a where ba: "irq_bucket_consume (buckets (vp s) ! i) now = (b, a)" by fastforce
    let ?q = "(vp s)\<lparr>buckets := (buckets (vp s))[i := b]\<rparr>"
    let ?s = "s\<lparr>vp := ?q\<rparr>"
    have q: "irq_wf ?s" by (rule consume_bucket_wf [OF assms(1)])
    have kq: "kept v n {} s ?s" using q by (simp add: kept_def hw_ids_def vb_at)
    have b: "rd (buckets (vp s)) i = Inr (buckets (vp s) ! i)" using assms(3) wf(7) by simp
    note start = vplic_inject_def pd b ba np
    show ?thesis
    proof (cases a)
      case IRQ_RL_DROPPED
      then have "vplic_inject v self now u i s = Inr ?s" using assms by (simp add: start)
      then show ?thesis using kq IRQ_RL_DROPPED ba np by (auto simp: inject_bits_def)
    next
      case IRQ_RL_DEFERRED
      obtain p where p: "vbit_set DEFERRED_OFF ?q i = Inr p" "upd_bit DEFERRED_OFF i True ?q p"
        using vbit_set_spec [of ?q DEFERRED_OFF i] wfD(1) [OF q] assms(3) by (auto simp: vplic_offs)
      have "kept v n {} ?s (?s\<lparr>vp := p\<rparr>)"
        using p(2) assms(3) by (intro upd_bit_kept [OF q, of DEFERRED_OFF i True]) (simp_all add: vplic_offs)
      with kq have "kept v n {} s (s\<lparr>vp := p\<rparr>)" using kept_trans [of v n "{}" s ?s "{}"] by simp
      moreover have "vplic_inject v self now u i s = Inr (s\<lparr>vp := p\<rparr>)"
        using assms IRQ_RL_DEFERRED p(1) by (simp add: start)
      moreover have "bm_bit (vwords p) x = inject_bits now i (vp s) x" for x
        using upd_bitD(4) [OF p(2), of 0 x] np ba IRQ_RL_DEFERRED by (simp add: inject_bits_def vb_at vplic_offs)
      ultimately show ?thesis using upd_bitD(2) [OF p(2)] np ba by auto
    next
      case IRQ_RL_ALLOW
      obtain p where p: "vbit_set PEND_OFF ?q i = Inr p" "upd_bit PEND_OFF i True ?q p"
        using vbit_set_spec [of ?q PEND_OFF i] wfD(1) [OF q] assms(3) by (auto simp: vplic_offs)
      have "kept v n {} ?s (?s\<lparr>vp := p\<rparr>)"
        using p(2) assms by (intro upd_bit_kept [OF q, of PEND_OFF i True]) (simp_all add: vplic_offs)
      with kq have k: "kept v n {} s (s\<lparr>vp := p\<rparr>)" using kept_trans [of v n "{}" s ?s "{}"] by simp
      then have wf2: "irq_wf (s\<lparr>vp := p\<rparr>)" by (simp add: kept_def)
      have hw: "vplic_get_hw p i = Inr (hwb p i)" by (rule get_hw_eq [OF upd_bitD(1) [OF p(2)] assms(3)])
      let ?cond = "\<lambda>s c. bindR (vplic_get_enbl (vp s) c i) (\<lambda>e. if \<not> e then Inr False else
              bindR (vplic_get_prio (vp s) i) (\<lambda>prio.
              bindR (vplic_get_theshold (vp s) c) (\<lambda>t. Inr (t < prio))))"
      have cid: "plic_plat_cntxt_to_id \<lparr>hart_id = u, mode = PRIV_S\<rparr> = int (2 * u + 1)"
        using assms(4) by (simp add: id_of_mode)
      obtain s' where s': "(if hwb p i then vplic_update_hart_line v self (2 * u + 1) (s\<lparr>vp := p\<rparr>)
          else refresh_lines v self ?cond (s\<lparr>vp := p\<rparr>)) = Inr s'" "vp s' = p" "phys s' = phys s"
      proof (cases "hwb p i")
        case True
        then show ?thesis using that update_line [OF wf2, of "2 * u + 1" v self] assms(4) by auto
      next
        case False
        from inject_refresh [OF wf2 assms(3), of v self]
        obtain s' where "refresh_lines v self ?cond (s\<lparr>vp := p\<rparr>) = Inr s'" "vp s' = p" "phys s' = phys s"
          by auto
        with False show ?thesis using that by simp
      qed
      have "vplic_inject v self now u i s = Inr s'"
        using assms IRQ_RL_ALLOW p(1) hw s'(1) cid
        by (simp add: start nat_add_distrib nat_mult_distrib split: if_splits)
      moreover have "kept v n {} s s'"
        using k kept_lines [OF wf2, of s' v n "{}"] s'(2,3) kept_trans [of v n "{}" s "s\<lparr>vp := p\<rparr>" "{}" s'] by simp
      moreover have "bm_bit (vwords p) x = inject_bits now i (vp s) x" for x
        using upd_bitD(4) [OF p(2), of 0 x] np ba IRQ_RL_ALLOW by (simp add: inject_bits_def vb_at vplic_offs)
      ultimately show ?thesis using upd_bitD(2) [OF p(2)] np ba s'(2) by auto
    qed
  qed
qed

section \<open>Histories\<close>

text \<open>
  The operations the handlers and \<open>vplic_inject\<close>'s callers can ask for, each with the core it runs
  on, that core's PLIC context and the time it reads. A claim returns the interrupt. The hypercall
  \<open>HC_PLIC_INJECT\<close> only takes a token of the source's bucket (\<open>hc_plic_inject_exec\<close>).
\<close>

datatype vplic_op =
    Inject vcpuid irqid
  | Claim nat
  | Complete nat irqid
  | Set_prio irqid u32
  | Set_enbl nat irqid bool
  | Set_threshold nat u32
  | Hc_inject irqid

fun vplic_exec :: "'h vm \<Rightarrow> cpuid \<times> nat \<times> u64 \<Rightarrow> vplic_op \<Rightarrow> irq_state \<Rightarrow> (irq_state \<times> irqid) res" where
  "vplic_exec v (self, n, now) (Inject u i) s = bindR (vplic_inject v self now u i s) (\<lambda>s. Inr (s, 0))"
| "vplic_exec v (self, n, now) (Claim c) s = vplic_claim v self now c s"
| "vplic_exec v (self, n, now) (Complete c i) s = bindR (vplic_complete v self n c i s) (\<lambda>s. Inr (s, 0))"
| "vplic_exec v (self, n, now) (Set_prio i pr) s = bindR (vplic_set_prio v self i pr s) (\<lambda>s. Inr (s, 0))"
| "vplic_exec v (self, n, now) (Set_enbl c i b) s = bindR (vplic_set_enbl v self c i b s) (\<lambda>s. Inr (s, 0))"
| "vplic_exec v (self, n, now) (Set_threshold c t) s = bindR (vplic_set_threshold v self c t s) (\<lambda>s. Inr (s, 0))"
| "vplic_exec v (self, n, now) (Hc_inject i) s = bindR (rd (buckets (vp s)) i) (\<lambda>b.
    Inr (s\<lparr>vp := (vp s)\<lparr>buckets := (buckets (vp s))[i := fst (irq_bucket_consume b now)]\<rparr>\<rparr>, 0))"

text \<open>
  The handlers pass valid contexts and identifiers below 1024, except to a completion and to the
  hypercall, which get the word the guest wrote; \<open>ncntxt\<close> is the number of contexts of the VM. A
  completion is restricted to the identifiers whose bit lies in the register words of the structure
  (beyond them the code clears a bit of the buckets or of the memory behind the structure), a
  hypercall to those that have a bucket.
\<close>

fun op_in :: "nat \<Rightarrow> vplic_op \<Rightarrow> bool" where
  "op_in ncntxt (Inject u i) \<longleftrightarrow> u < PLAT_CPU_NUM \<and> 0 < i \<and> i < PLIC_MAX_INTERRUPTS"
| "op_in ncntxt (Claim c) \<longleftrightarrow> c < ncntxt \<and> odd c"
| "op_in ncntxt (Complete c i) \<longleftrightarrow> c < ncntxt \<and> odd c \<and> i < 43264"
| "op_in ncntxt (Set_prio i pr) \<longleftrightarrow> i < PLIC_MAX_INTERRUPTS"
| "op_in ncntxt (Set_enbl c i b) \<longleftrightarrow> c < ncntxt \<and> odd c \<and> i < PLIC_MAX_INTERRUPTS"
| "op_in ncntxt (Set_threshold c t) \<longleftrightarrow> c < ncntxt \<and> odd c"
| "op_in ncntxt (Hc_inject i) \<longleftrightarrow> i < PLIC_MAX_INTERRUPTS"

fun completes :: "vplic_op \<Rightarrow> irqid set" where
  "completes (Complete c i) = {i}"
| "completes _ = {}"

fun vplic_history ::
  "'h vm \<Rightarrow> ((cpuid \<times> nat \<times> u64) \<times> vplic_op) list \<Rightarrow> irq_state \<Rightarrow> (irq_state \<times> irqid list) res" where
  "vplic_history v [] s = Inr (s, [])"
| "vplic_history v ((e, oper) # ops) s =
    bindR (vplic_exec v e oper s) (\<lambda>(s, i). bindR (vplic_history v ops s) (\<lambda>(s, is). Inr (s, i # is)))"

lemma exec_kept:
  assumes "irq_wf s" "on_platform v" "op_in (cntxt_num (vp s)) oper" "n < 8" "n \<in> N"
  shows "\<exists>s' i. vplic_exec v (self, n, now) oper s = Inr (s', i) \<and> kept v N (completes oper) s s'
    \<and> (i \<noteq> 0 \<longrightarrow> i < 1024 \<and> \<not> actb (vp s) i \<and> actb (vp s') i)"
proof -
  note wf = wfD [OF assms(1)]
  have vv: "vplic_vcntxt_valid (vp s) c \<longleftrightarrow> c < cntxt_num (vp s) \<and> odd c" for c by (rule vcntxt_valid_iff [OF wf(1)])
  show ?thesis
  proof (cases oper)
    case (Inject u i)
    then show ?thesis using inject_spec [OF assms(1), of i u v self now N] assms(3) by auto
  next
    case (Claim c)
    then have c: "c < 8" using assms(3) wf(8) by simp
    obtain s' i where q: "vplic_claim v self now c s = Inr (s', i)" "vplic_next_pending (vp s) c = Inr i"
      "kept v N {} s s'" "\<forall>j < 1024. actb (vp s') j \<longleftrightarrow> actb (vp s) j \<or> j = i"
      using claim_spec [OF assms(1) c] by blast
    moreover have "i \<noteq> 0 \<longrightarrow> i < 1024 \<and> \<not> actb (vp s) i"
      using next_pending_spec [OF wf(1) c wf(2,3)] q(2) by (auto simp: cand_def)
    ultimately show ?thesis using Claim by auto
  next
    case (Complete c i)
    then show ?thesis using complete_spec [OF assms(1) _ assms(4) _ assms(5), of c i v self] assms(3) wf(8) by auto
  next
    case (Set_prio i pr)
    then show ?thesis using set_prio_kept [OF assms(1), of i v self pr N] assms(3) by auto
  next
    case (Set_enbl c i b)
    then show ?thesis using set_enbl_kept [OF assms(1,2), of c i self b N] assms(3) vv by auto
  next
    case (Set_threshold c t)
    then show ?thesis using set_threshold_kept [OF assms(1,2), of c self t N] assms(3) vv by auto
  next
    case (Hc_inject i)
    then have "rd (buckets (vp s)) i = Inr (buckets (vp s) ! i)" using assms(3) wf(7) by simp
    with Hc_inject consume_bucket_wf [OF assms(1)] show ?thesis by (auto simp: kept_def hw_ids_def vb_at)
  qed
qed

section \<open>Histories keep the invariant\<close>

lemma history_kept:
  assumes "irq_wf s" "on_platform v" "\<forall>((self, n, now), oper) \<in> set ops. op_in (cntxt_num (vp s)) oper \<and> n < 8 \<and> n \<in> N"
  shows "\<exists>s' is. vplic_history v ops s = Inr (s', is) \<and> length is = length ops
    \<and> kept v N (\<Union>(_, oper) \<in> set ops. completes oper) s s'"
  using assms
proof (induction ops arbitrary: s)
  case Nil
  then show ?case by (simp add: kept_def)
next
  case (Cons x ops)
  obtain self n now oper where x: "x = ((self, n, now), oper)" by (metis surj_pair)
  from Cons.prems x have p: "op_in (cntxt_num (vp s)) oper" "n < 8" "n \<in> N" by auto
  obtain s1 i where e: "vplic_exec v (self, n, now) oper s = Inr (s1, i)" "kept v N (completes oper) s s1"
    using exec_kept [OF Cons.prems(1,2) p] by blast
  then have "irq_wf s1" "cntxt_num (vp s1) = cntxt_num (vp s)" by (simp_all add: kept_def)
  with Cons.prems obtain s' "is" where h: "vplic_history v ops s1 = Inr (s', is)" "length is = length ops"
      "kept v N (\<Union>(_, oper) \<in> set ops. completes oper) s1 s'"
    using Cons.IH [of s1] by auto
  have "kept v N (\<Union>(_, oper) \<in> set (x # ops). completes oper) s s'"
    by (rule kept_trans [OF e(2) h(3)]) (auto simp: x)
  with e h x show ?case by simp
qed

lemma history_append:
  "vplic_history v (xs @ ys) s = bindR (vplic_history v xs s) (\<lambda>(s, is).
    bindR (vplic_history v ys s) (\<lambda>(s, js). Inr (s, is @ js)))"
  by (induction xs arbitrary: s) (auto simp: bindR_assoc case_prod_beta intro!: bindR_cong split: prod.splits)

section \<open>The budget of a source\<close>

lemma update_line_vp: "vplic_update_hart_line v self c s = Inr s' \<Longrightarrow> vp s' = vp s"
  by (auto simp: vplic_update_hart_line_def Let_def split: if_splits)

lemma refresh_lines_vp: "refresh_lines v self cond s = Inr s' \<Longrightarrow> vp s' = vp s"
proof -
  have "foldR (\<lambda>c s. if mode (plic_plat_id_to_cntxt (int c)) \<noteq> PRIV_S then Inr s
      else bindR (cond s c) (\<lambda>b. if b then vplic_update_hart_line v self c s else Inr s)) cs t = Inr s'
    \<Longrightarrow> vp s' = vp t" for cs t
    by (induction cs arbitrary: t) (auto split: if_splits dest!: update_line_vp)
  then show "refresh_lines v self cond s = Inr s' \<Longrightarrow> vp s' = vp s" by (simp add: refresh_lines_def)
qed

text \<open>The buckets and the pending bits.\<close>

definition quiet :: "vplic \<Rightarrow> vplic \<Rightarrow> bool" where
  "quiet p p' \<longleftrightarrow> buckets p' = buckets p \<and> (\<forall>j < 1024. pendb p' j = pendb p j)"

lemma quiet_word: "64 \<le> k \<Longrightarrow> quiet p (p\<lparr>vwords := (vwords p)[k := w]\<rparr>)"
  by (auto simp: quiet_def vplic_offs intro!: vb_word)

lemma quiet_bit: "upd_bit off i b p p' \<Longrightarrow> 2048 \<le> 32 * off + i \<Longrightarrow> quiet p p'"
  by (auto simp: quiet_def upd_bit_def vplic_offs)

lemma quiet_ops:
  assumes "irq_wf s" "on_platform v" "op_in (cntxt_num (vp s)) oper" "n < 8"
    and "vplic_exec v (self, n, now) oper s = Inr (s', i)"
    and "\<forall>u i. oper \<noteq> Inject u i" "\<forall>c. oper \<noteq> Claim c" "\<forall>i. oper \<noteq> Hc_inject i"
  shows "quiet (vp s) (vp s')"
proof (cases oper)
  case (Complete c k)
  then have c: "c < 8" "k < 43264" using assms(3) wfD(8) [OF assms(1)] by simp_all
  obtain t where t: "vplic_complete v self n c k s = Inr t"
      "\<forall>x. bm_bit (vwords (vp t)) x \<longleftrightarrow> x \<noteq> 2048 + k \<and> bm_bit (vwords (vp s)) x"
    using complete_spec [OF assms(1) c(1) assms(4) c(2), of UNIV v self] by auto
  have "buckets (vp t) = buckets (vp s)"
    using t(1) by (auto simp: vplic_complete_def vbit_clear_def split: if_splits dest!: update_line_vp)
  with t assms(5) Complete show ?thesis by (auto simp: quiet_def vb_at vplic_offs)
next
  case (Set_prio k pr)
  with assms(5) show ?thesis
    by (auto simp: vplic_set_prio_def Let_def wr_def vplic_offs quiet_word split: if_splits
        dest!: refresh_lines_vp) (simp_all add: quiet_def)
next
  case (Set_threshold c t)
  with assms(5) show ?thesis
    by (auto simp: vplic_set_threshold_def Let_def wr_def vplic_offs quiet_word split: if_splits
        dest!: update_line_vp)
next
  case (Set_enbl c k b)
  then have c: "c < 8" "k < 1024" "32 * ENBL_OFF c + k < 45312"
    using assms(3) wfD(8) [OF assms(1)] by (simp_all add: vplic_offs)
  note sp = vbit_set_spec [OF wfD(1) [OF assms(1)] c(3)] vbit_clear_spec [OF wfD(1) [OF assms(1)] c(3)]
  have "quiet (vp s) p" if "(if b then vbit_set (ENBL_OFF c) (vp s) k else vbit_clear (ENBL_OFF c) (vp s) k) = Inr p" for p
    using sp that by (cases b) (auto simp: vplic_offs intro!: quiet_bit)
  with assms(5) Set_enbl show ?thesis
    by (auto simp: vplic_set_enbl_def Let_def split: if_splits dest!: update_line_vp) (simp_all add: quiet_def)
qed (use assms(6-8) in simp_all)

lemma drain_budget:
  assumes "last_refill b \<le> now" "bucket_wf b" "irq_bucket_drain_deferred b now = (b', m)"
  shows "(if 0 < m then freq else 0) + unat (tokens b') * freq + unat (last_refill b) * unat (rate b)
      \<le> unat (tokens b) * freq + unat (last_refill b') * unat (rate b)"
    and "last_refill b \<le> last_refill b'" and "last_refill b' \<le> now" and "bucket_wf b'" and "params_eq b b'"
proof -
  let ?r = "irq_bucket_refill b now"
  have le: "tokens b \<le> max_tokens b" using assms(2) by (simp add: bucket_wf_def)
  note rb = refill_budget [OF assms(1) le]
  have e: "m = min (deferred_count b) (tokens ?r)" "tokens b' = tokens ?r - m"
      "last_refill b' = last_refill ?r" "params_eq b b'"
    using assms(3) by (auto simp: irq_bucket_drain_deferred_def drain_loop_eq Let_def params_eq_def)
  show "last_refill b \<le> last_refill b'" "last_refill b' \<le> now" "params_eq b b'" using rb(2,3) e by simp_all
  show "bucket_wf b'" using drain_wf [OF assms(2), of now] assms(3) by simp
  have "m \<le> tokens ?r" using e(1) by simp
  then have "unat m + unat (tokens b') = unat (tokens ?r)"
    by (simp add: e(2) unat_sub_no_wrap word_le_nat_alt)
  then have "(if 0 < m then 1 else 0) + unat (tokens b') \<le> unat (tokens ?r)"
    by (auto simp: word_pos_iff)
  then have "((if 0 < m then 1 else 0) + unat (tokens b')) * freq \<le> unat (tokens ?r) * freq"
    by (rule mult_le_mono1)
  with rb(1) e(3) show "(if 0 < m then freq else 0) + unat (tokens b') * freq + unat (last_refill b) * unat (rate b)
      \<le> unat (tokens b) * freq + unat (last_refill b') * unat (rate b)"
    by (simp add: add_mult_distrib split: if_splits)
qed

text \<open>What source \<open>k\<close> can still deliver: its pending bit and its tokens.\<close>

abbreviation bucket :: "irq_state \<Rightarrow> irqid \<Rightarrow> irq_token_bucket" where "bucket s k \<equiv> buckets (vp s) ! k"

definition stock :: "irq_state \<Rightarrow> irqid \<Rightarrow> nat" where
  "stock s k = (if pendb (vp s) k then freq else 0) + unat (tokens (bucket s k)) * freq"

definition pays :: "irqid \<Rightarrow> nat \<Rightarrow> u64 \<Rightarrow> irq_state \<Rightarrow> irq_state \<Rightarrow> bool" where
  "pays k n now s s' \<longleftrightarrow>
    n * freq + stock s' k + unat (last_refill (bucket s k)) * unat (rate (bucket s k))
      \<le> stock s k + unat (last_refill (bucket s' k)) * unat (rate (bucket s k))
    \<and> last_refill (bucket s k) \<le> last_refill (bucket s' k) \<and> last_refill (bucket s' k) \<le> now
    \<and> bucket_wf (bucket s' k) \<and> params_eq (bucket s k) (bucket s' k)"

lemma pays_same:
  "bucket s' k = bucket s k \<Longrightarrow> (pendb (vp s') k \<longrightarrow> pendb (vp s) k) \<Longrightarrow> bucket_wf (bucket s k) \<Longrightarrow>
    last_refill (bucket s k) \<le> now \<Longrightarrow> pays k 0 now s s'"
  by (simp add: pays_def stock_def params_eq_def)

lemma exec_pays:
  assumes "irq_wf s" "on_platform v" "op_in (cntxt_num (vp s)) oper" "n < 8"
    and "vplic_exec v (self, n, now) oper s = Inr (s', i)"
    and "0 < k" "k < 1024" "bucket_wf (bucket s k)" "last_refill (bucket s k) \<le> now"
  shows "pays k (if i = k then 1 else 0) now s s'"
proof (cases oper)
  case (Inject u j)
  then have j: "0 < j" "j < 1024" "u < 4" using assms(3) by simp_all
  have i: "i = 0" using assms(5) Inject by auto
  have s': "\<forall>x. bm_bit (vwords (vp s')) x = inject_bits now j (vp s) x"
      "buckets (vp s') = (if pendb (vp s) j then buckets (vp s)
        else (buckets (vp s))[j := fst (irq_bucket_consume (bucket s j) now)])"
    using inject_spec [OF assms(1) j, of v self now UNIV] assms(5) Inject by auto
  show ?thesis
  proof (cases "j = k \<and> \<not> pendb (vp s) k")
    case True
    obtain b a where c: "irq_bucket_consume (bucket s k) now = (b, a)" by fastforce
    note cb = consume_budget [OF assms(9,8) c]
    have b': "bucket s' k = b" using s'(2) True c assms(7) wfD(7) [OF assms(1)] by simp
    have "pendb (vp s') k \<longleftrightarrow> a = IRQ_RL_ALLOW"
      using s'(1) True c by (auto simp: vb_at vplic_offs inject_bits_def)
    with cb b' True i assms(6) consume_wf [OF assms(8) c] consume_params [OF c] show ?thesis
      by (simp add: pays_def stock_def)
  next
    case False
    have "pendb (vp s') k = pendb (vp s) k"
      using False s'(1) assms(7) by (auto simp: vb_at vplic_offs inject_bits_def Let_def)
    moreover have "bucket s' k = bucket s k" using False s'(2) by (cases "j = k") simp_all
    ultimately
    show ?thesis using i assms(6,8,9) pays_same by simp
  qed
next
  case (Claim c)
  then have c: "c < 8" using assms(3) wfD(8) [OF assms(1)] by simp
  have q: "vplic_next_pending (vp s) c = Inr i" "i < 1024"
      "\<forall>j < 1024. pendb (vp s') j \<longleftrightarrow> pendb (vp s) j \<and> j \<noteq> i \<or> drained now (vp s) j"
      "\<forall>j < 1024. bucket s' j = drain_bucket now (vp s) j"
    using claim_spec [OF assms(1) c, of v self now UNIV] assms(5) Claim by auto
  have "i \<noteq> 0 \<longrightarrow> pendb (vp s) i"
    using next_pending_spec [OF wfD(1) [OF assms(1)] c wfD(2,3) [OF assms(1)]] q(1) by (auto simp: cand_def)
  then have pi: "i = k \<Longrightarrow> pendb (vp s) k" using assms(6) by auto
  have b': "bucket s' k = drain_bucket now (vp s) k" using q(4) assms(7) by simp
  show ?thesis
  proof (cases "deferredb (vp s) k")
    case True
    obtain b m where d: "irq_bucket_drain_deferred (bucket s k) now = (b, m)" by fastforce
    note db = drain_budget [OF assms(9,8) d]
    have "bucket s' k = b" "drained now (vp s) k \<longleftrightarrow> 0 < m"
      using b' True d assms(6,7) by (auto simp: drain_bucket_def drained_def)
    with db pi q(3) assms(7) show ?thesis
      by (cases "0 < m"; cases "i = k") (simp_all add: pays_def stock_def)
  next
    case False
    then have "bucket s' k = bucket s k" "\<not> drained now (vp s) k" using b' by (simp_all add: drain_bucket_def drained_def)
    with pi q(3) assms(7-9) show ?thesis by (simp add: pays_def stock_def params_eq_def)
  qed
next
  case (Hc_inject j)
  then have j: "j < 1024" "i = 0" "vp s' = (vp s)\<lparr>buckets := (buckets (vp s))[j := fst (irq_bucket_consume (bucket s j) now)]\<rparr>"
    using assms(3,5) wfD(7) [OF assms(1)] by (auto simp: rd_def)
  then have pend: "pendb (vp s') k = pendb (vp s) k" by (simp add: vb_at)
  show ?thesis
  proof (cases "j = k")
    case True
    obtain b a where c: "irq_bucket_consume (bucket s k) now = (b, a)" by fastforce
    note cb = consume_budget [OF assms(9,8) c]
    have "bucket s' k = b" using j True c wfD(7) [OF assms(1)] by simp
    with cb pend j(2) assms(6) consume_wf [OF assms(8) c] consume_params [OF c] show ?thesis
      by (cases a) (simp_all add: pays_def stock_def)
  next
    case False
    with j pend assms(6,8,9) pays_same show ?thesis by simp
  qed
next
  case (Set_prio j p)
  with quiet_ops [OF assms(1-5)] assms(5-9) show ?thesis by (auto simp: quiet_def intro!: pays_same)
next
  case (Complete c j)
  with quiet_ops [OF assms(1-5)] assms(5-9) show ?thesis by (auto simp: quiet_def intro!: pays_same)
next
  case (Set_enbl c j b)
  with quiet_ops [OF assms(1-5)] assms(5-9) show ?thesis by (auto simp: quiet_def intro!: pays_same)
next
  case (Set_threshold c t)
  with quiet_ops [OF assms(1-5)] assms(5-9) show ?thesis by (auto simp: quiet_def intro!: pays_same)
qed

definition op_time :: "((cpuid \<times> nat \<times> u64) \<times> vplic_op) \<Rightarrow> u64" where
  "op_time x = snd (snd (fst x))"

lemma pays_trans:
  assumes "pays k m t s s1" "pays k n t' s1 s2" "t \<le> t'"
  shows "pays k (m + n) t' s s2"
  using assms by (auto simp: pays_def params_eq_def add_mult_distrib)

lemma history_pays:
  assumes "irq_wf s" "on_platform v" "\<forall>((self, n, now), oper) \<in> set ops. op_in (cntxt_num (vp s)) oper \<and> n < 8"
    and "vplic_history v ops s = Inr (s', is)" "0 < k" "k < 1024" "bucket_wf (bucket s k)"
    and "sorted (last_refill (bucket s k) # List.map op_time ops)"
  shows "pays k (count_list is k) (last (last_refill (bucket s k) # List.map op_time ops)) s s'"
  using assms
proof (induction ops arbitrary: s "is")
  case Nil
  then show ?case by (simp add: pays_def params_eq_def)
next
  case (Cons x ops)
  obtain self n now oper where x: "x = ((self, n, now), oper)" by (metis surj_pair)
  from Cons.prems x have p: "op_in (cntxt_num (vp s)) oper" "n < 8" "last_refill (bucket s k) \<le> now"
    by (auto simp: op_time_def)
  obtain s1 i js where e: "vplic_exec v (self, n, now) oper s = Inr (s1, i)"
    and h: "vplic_history v ops s1 = Inr (s', js)" "is = i # js"
    using Cons.prems(4) x by auto
  have k1: "irq_wf s1" "cntxt_num (vp s1) = cntxt_num (vp s)"
    using exec_kept [OF Cons.prems(1,2) p(1,2), of UNIV self now] e by (auto simp: kept_def)
  have p1: "pays k (if i = k then 1 else 0) now s s1"
    by (rule exec_pays [OF Cons.prems(1,2) p(1,2) e Cons.prems(5-7) p(3)])
  then have b1: "bucket_wf (bucket s1 k)" "last_refill (bucket s1 k) \<le> now" by (simp_all add: pays_def)
  have tx: "op_time x = now" by (simp add: x op_time_def)
  have srt: "sorted (now # List.map op_time ops)" using Cons.prems(8) tx by simp
  have srt1: "sorted (last_refill (bucket s1 k) # List.map op_time ops)"
    using srt b1(2) by (fastforce intro: order_trans)
  have in1: "\<forall>((self, n, now), oper) \<in> set ops. op_in (cntxt_num (vp s1)) oper \<and> n < 8"
    using Cons.prems(3) k1(2) by simp
  have p2: "pays k (count_list js k) (last (last_refill (bucket s1 k) # List.map op_time ops)) s1 s'"
    by (rule Cons.IH [OF k1(1) Cons.prems(2) in1 h(1) Cons.prems(5,6) b1(1) srt1])
  have "last (last_refill (bucket s1 k) # List.map op_time ops) \<le> last (now # List.map op_time ops)"
    using b1(2) by (cases ops) simp_all
  moreover have "now \<le> last (now # List.map op_time ops)"
    using srt by (cases ops rule: rev_cases) (auto simp: sorted_append)
  moreover have "pays k (count_list js k) (last (now # List.map op_time ops)) s1 s'"
    using p2 calculation(1) by (auto simp: pays_def)
  ultimately have "pays k ((if i = k then 1 else 0) + count_list js k) (last (now # List.map op_time ops)) s s'"
    using pays_trans [OF p1] by blast
  then show ?case using h(2) tx by (simp add: add.commute split: if_splits)
qed

lemma claimed_twice:
  assumes "irq_wf s" "on_platform v"
    and "\<forall>((self, n, now), oper) \<in> set ops. op_in (cntxt_num (vp s)) oper \<and> n < 8"
    and "vplic_history v ops s = Inr (s', is)"
    and "a < b" "b < length ops" "is ! a = i" "is ! b = i" "i \<noteq> 0"
  shows "\<exists>m. a < m \<and> m < b \<and> i \<in> completes (snd (ops ! m))"
proof (rule ccontr)
  assume nc: "\<not> ?thesis"
  define xs ys zs where "xs = take a ops" and "ys = take (b - Suc a) (drop (Suc a) ops)" and "zs = drop (Suc b) ops"
  have spl: "ops = xs @ (ops ! a) # ys @ (ops ! b) # zs"
  proof -
    have "ops = xs @ ops ! a # drop (Suc a) ops" using assms(5,6) by (simp add: xs_def id_take_nth_drop)
    moreover have "drop (Suc a) ops = ys @ ops ! b # zs"
      using id_take_nth_drop [of "b - Suc a" "drop (Suc a) ops"] assms(5,6) by (simp add: ys_def zs_def)
    ultimately show ?thesis by simp
  qed
  obtain e oa where xa: "ops ! a = (e, oa)" by fastforce
  obtain e' ob where xb: "ops ! b = (e', ob)" by fastforce
  obtain ia ib s1 s2 s3 s4 i1 i2 i3 where r: "vplic_history v xs s = Inr (s1, i1)" "vplic_exec v e oa s1 = Inr (s2, ia)"
      "vplic_history v ys s2 = Inr (s3, i2)" "vplic_exec v e' ob s3 = Inr (s4, ib)" "is = i1 @ ia # i2 @ ib # i3"
    using assms(4) unfolding spl [unfolded xa xb] by (auto simp: history_append)
  have in1: "\<forall>((self, n, now), oper) \<in> set xs. op_in (cntxt_num (vp s)) oper \<and> n < 8 \<and> n \<in> UNIV"
    and in2: "\<forall>((self, n, now), oper) \<in> set ys. op_in (cntxt_num (vp s)) oper \<and> n < 8 \<and> n \<in> UNIV"
    using assms(3) by (auto simp: xs_def ys_def dest!: in_set_takeD in_set_dropD)
  have el: "op_in (cntxt_num (vp s)) (snd (ops ! k)) \<and> fst (snd (fst (ops ! k))) < 8" if "k < length ops" for k
    using assms(3) nth_mem [OF that] by (cases "ops ! k") fastforce
  have k1: "irq_wf s1" "cntxt_num (vp s1) = cntxt_num (vp s)" "length i1 = a"
    using history_kept [OF assms(1,2) in1] r(1) assms(5,6) by (auto simp: kept_def xs_def)
  obtain se n t where e: "e = (se, n, t)" by (metis surj_pair)
  have p: "op_in (cntxt_num (vp s1)) oa" "n < 8" using el [of a] assms(5,6) xa k1 e by simp_all
  have k2: "irq_wf s2" "cntxt_num (vp s2) = cntxt_num (vp s)" "ia \<noteq> 0 \<longrightarrow> actb (vp s2) ia \<and> ia < 1024"
    using exec_kept [OF k1(1) assms(2) p, of UNIV se t] r(2) e k1(2) by (auto simp: kept_def)
  have ia: "ia = i" using assms(7) r(5) k1(3) by (simp add: nth_append)
  have k3: "irq_wf s3" "cntxt_num (vp s3) = cntxt_num (vp s)" "length i2 = length ys"
      "i \<notin> (\<Union>(_, oper) \<in> set ys. completes oper) \<Longrightarrow> actb (vp s3) i"
    using history_kept [OF k2(1) assms(2) in2 [folded k2(2)]] r(3) k2 ia assms(9) by (auto simp: kept_def)
  have "i \<notin> (\<Union>(_, oper) \<in> set ys. completes oper)"
  proof
    assume "i \<in> (\<Union>(_, oper) \<in> set ys. completes oper)"
    then obtain y where y: "y \<in> set ys" "i \<in> completes (snd y)" by auto
    then obtain k where k: "k < length ys" "ys ! k = y" by (auto simp: in_set_conv_nth)
    then have "ops ! (Suc a + k) = y" "Suc a + k < b" using assms(5,6) by (simp_all add: ys_def)
    with nc y(2) show False by (metis add_Suc le_add1 le_imp_less_Suc)
  qed
  then have act: "actb (vp s3) i" by (rule k3(4))
  obtain se' n' t' where e': "e' = (se', n', t')" by (metis surj_pair)
  have p': "op_in (cntxt_num (vp s3)) ob" "n' < 8" using el [of b] assms(6) xb k3 e' by simp_all
  have "length ys = b - Suc a" using assms(5,6) by (simp add: ys_def)
  then have "ib = i" using assms(5,8) r(5) k1(3) k3(3) by (simp add: nth_append)
  then show False
    using exec_kept [OF k3(1) assms(2) p', of UNIV se' t'] r(4) e' act assms(9) by auto
qed

section \<open>An example state\<close>

text \<open>
  Source 9, of priority 5, is assigned to the VM, enabled in the context of its first virtual core
  and pending.
\<close>

definition demo_irq :: irq_state where
  "demo_irq = \<lparr>vp = \<lparr>cntxt_num = 4,
      vwords = (replicate 1416 0)[0 := 0x200, 32 := 0x200, 137 := 5, 1184 := 0x200],
      buckets = replicate 1024 (irq_bucket_init 0 0)\<rparr>,
    phys = demo_plic, vseip = (\<lambda>_. False), line_msgs = []\<rparr>"

lemma bit_0x200: "bit (0x200 :: u32) k \<longleftrightarrow> k = 9"
proof -
  have "(0x200 :: u32) = 2 ^ 9" by simp
  then show ?thesis by (simp only: bit_two_power) auto
qed

lemma bit_0x200_int: "bit (0x200 :: int) k \<longleftrightarrow> k = 9"
proof -
  have "(0x200 :: int) = 2 ^ 9" by simp
  then show ?thesis by (simp only: bit_exp_iff) auto
qed

lemma demo_word:
  "k < 1416 \<Longrightarrow> vwords (vp demo_irq) ! k =
    (if k = 0 \<or> k = 32 \<or> k = 1184 then 0x200 else if k = 137 then 5 else 0)"
  by (simp add: demo_irq_def nth_list_update)

lemma demo_bits:
  "32 * off + j < 4096 \<Longrightarrow> vb off (vp demo_irq) j \<longleftrightarrow> 32 * off + j \<in> {9, 1033}"
proof -
  assume lt: "32 * off + j < 4096"
  then have "vwords (vp demo_irq) ! (off + j div 32) = (if off + j div 32 = 0 \<or> off + j div 32 = 32 then 0x200 else 0)"
    by (subst demo_word) auto
  then have "vb off (vp demo_irq) j \<longleftrightarrow> (off + j div 32 = 0 \<or> off + j div 32 = 32) \<and> j mod 32 = 9"
    by (auto simp: vb_def bm_bit_def bit_0x200 bit_0x200_int)
  moreover have e: "(x div 32 = 0 \<or> x div 32 = 32) \<and> x mod 32 = 9 \<longleftrightarrow> x = 9 \<or> x = 1033" for x :: nat
  proof -
    have "x = q * 32 + r" if "x div 32 = q" "x mod 32 = r" for q r
      using div_mult_mod_eq [of x 32, symmetric] unfolding that .
    from this [of 0 9] this [of 32 9] show ?thesis by auto
  qed
  ultimately show ?thesis using e [of "32 * off + j", unfolded word_of_bit] by simp
qed

lemma demo_irq_wf: "irq_wf demo_irq"
proof -
  have "\<not> enblb (vp demo_irq) 0 k" if "k < 32" for k
    using that by (simp add: vb_def bm_bit_def vplic_offs demo_word)
  then have "no_phantom (vp demo_irq)" by (simp add: no_phantom_def)
  moreover have "vplic_wf (vp demo_irq)" by (simp add: vplic_wf_def demo_irq_def vplic_offs)
  moreover have "phys demo_irq = demo_plic" "length (plic_complete demo_plic) = 8"
    by (simp_all add: demo_irq_def demo_plic_def)
  ultimately show ?thesis using demo_plic_wf demo_bits [of PEND_OFF 0] by (simp add: irq_wf_def vplic_offs)
qed

lemma demo_platform: "on_platform demo_hvm"
  unfolding on_platform_def demo_cores by auto

lemma demo_cntxts: "cntxt_num (vp demo_irq) = 4" "vplic_vcntxt_valid (vp demo_irq) 1"
  using vcntxt_valid_iff [OF wfD(1) [OF demo_irq_wf]] by (simp_all add: demo_irq_def)

lemma demo_cand: "j < 1024 \<Longrightarrow> cand (vp demo_irq) 1 j \<longleftrightarrow> j = 9"
proof -
  assume j: "j < 1024"
  have "\<not> actb (vp demo_irq) j" "pendb (vp demo_irq) j \<longleftrightarrow> j = 9"
    using j demo_bits [of ACT_OFF j] demo_bits [of PEND_OFF j] by (auto simp: vplic_offs)
  moreover have "enblb (vp demo_irq) 1 9" by (simp add: vb_def bm_bit_def vplic_offs demo_word bit_0x200)
  ultimately show ?thesis by (auto simp: cand_def)
qed

lemma demo_prio: "priow (vp demo_irq) 9 = 5" "thrw (vp demo_irq) 1 = 0"
  by (simp_all add: vplic_offs demo_word)

lemma demo_next: "vplic_next_pending (vp demo_irq) 1 = Inr 9"
proof -
  note wf = wfD [OF demo_irq_wf]
  obtain i where i: "vplic_next_pending (vp demo_irq) 1 = Inr i"
    "if i = 0 then \<forall>j < 1024. cand (vp demo_irq) 1 j \<longrightarrow> priow (vp demo_irq) j \<le> thrw (vp demo_irq) 1
     else cand (vp demo_irq) 1 i" "i < 1024"
    using next_pending_spec [OF wf(1) _ wf(2,3), of 1] by (auto split: if_splits)
  have "i = 9"
  proof (cases "i = 0")
    case True
    with i(2) have "priow (vp demo_irq) 9 \<le> thrw (vp demo_irq) 1" using demo_cand [of 9] by simp
    then show ?thesis unfolding demo_prio by simp
  next
    case False
    with i demo_cand show ?thesis by simp
  qed
  with i(1) show ?thesis by simp
qed

lemma demo_claim: "\<exists>s'. vplic_claim demo_hvm 1 0 1 demo_irq = Inr (s', 9)"
  using claim_spec [OF demo_irq_wf, of 1 demo_hvm 1 0 UNIV] demo_next by auto

section \<open>Properties\<close>

text \<open>
  The controller hands out the right interrupt: in a state that satisfies the invariant a
  claim from a valid context returns 0 only if no enabled, pending, inactive source has a
  priority above the threshold; otherwise it returns the one of highest priority, the lowest
  identifier among equals, makes it active and, unless the drain of its deferred interrupts made
  it pending again, no longer pending. The other sources become pending exactly if a deferred
  interrupt of theirs could be paid for.
\<close>

theorem vplic_claim_selects:
  assumes "irq_wf s" "vplic_vcntxt_valid (vp s) c"
  shows "\<exists>s' i. vplic_claim v self now c s = Inr (s', i) \<and> i < 1024
    \<and> (if i = 0 then \<forall>j < 1024. cand (vp s) c j \<longrightarrow> priow (vp s) j \<le> thrw (vp s) c
       else cand (vp s) c i \<and> thrw (vp s) c < priow (vp s) i
         \<and> (\<forall>j < 1024. cand (vp s) c j \<longrightarrow>
              priow (vp s) j \<le> priow (vp s) i \<and> (priow (vp s) j = priow (vp s) i \<longrightarrow> i \<le> j)))
    \<and> (\<forall>j < 1024. actb (vp s') j \<longleftrightarrow> actb (vp s) j \<or> j = i)
    \<and> (\<forall>j < 1024. pendb (vp s') j \<longleftrightarrow> pendb (vp s) j \<and> j \<noteq> i \<or> drained now (vp s) j)"
proof -
  note wf = wfD [OF assms(1)]
  have c: "c < 8" using assms(2) wf(8) vcntxt_valid_iff [OF wf(1)] by auto
  from claim_spec [OF assms(1) c, of v self now UNIV] obtain s' i where
    q: "vplic_claim v self now c s = Inr (s', i)" "vplic_next_pending (vp s) c = Inr i"
      "\<forall>j < 1024. actb (vp s') j \<longleftrightarrow> actb (vp s) j \<or> j = i"
      "\<forall>j < 1024. pendb (vp s') j \<longleftrightarrow> pendb (vp s) j \<and> j \<noteq> i \<or> drained now (vp s) j" by blast
  from next_pending_spec [OF wf(1) c wf(2,3)] obtain i' where
    n: "vplic_next_pending (vp s) c = Inr i'" "i' < 1024"
      "if i' = 0 then \<forall>j < 1024. cand (vp s) c j \<longrightarrow> priow (vp s) j \<le> thrw (vp s) c
       else cand (vp s) c i' \<and> thrw (vp s) c < priow (vp s) i'
         \<and> (\<forall>j < 1024. cand (vp s) c j \<longrightarrow>
              priow (vp s) j \<le> priow (vp s) i' \<and> (priow (vp s) j = priow (vp s) i' \<longrightarrow> i' \<le> j))" by blast
  from n(1) q(2) have "i' = i" by simp
  from q(1) n(2,3) q(3,4) show ?thesis unfolding \<open>i' = i\<close> by (intro exI conjI)
qed

theorem vplic_claim_selects_witness:
  "\<exists>s'. vplic_claim demo_hvm 1 0 1 demo_irq = Inr (s', 9) \<and> actb (vp s') 9 \<and> \<not> pendb (vp s') 9"
proof -
  have "\<not> drained 0 (vp demo_irq) 9"
    using demo_bits [of DEFERRED_OFF 9] by (simp add: drained_def vplic_offs)
  moreover obtain s' i where "vplic_claim demo_hvm 1 0 1 demo_irq = Inr (s', i)"
      "\<forall>j < 1024. actb (vp s') j \<longleftrightarrow> actb (vp demo_irq) j \<or> j = i"
      "\<forall>j < 1024. pendb (vp s') j \<longleftrightarrow> pendb (vp demo_irq) j \<and> j \<noteq> i \<or> drained 0 (vp demo_irq) j"
    using vplic_claim_selects [OF demo_irq_wf demo_cntxts(2), of demo_hvm 1 0] by blast
  ultimately show ?thesis using demo_claim by auto
qed



text \<open>
  C27. An interrupt is claimed once: in any history of injections, claims, completions of
  identifiers below 43264, register writes and hypercalls, on any cores, an interrupt that a claim
  returned is returned by a later claim only if it was completed in between.
\<close>

theorem vplic_claim_exclusive:
  assumes "irq_wf s" "on_platform v"
    and "\<forall>((self, n, now), oper) \<in> set ops. op_in (cntxt_num (vp s)) oper \<and> n < 8"
    and "vplic_history v ops s = Inr (s', is)"
  shows "\<forall>a b. a < b \<and> b < length ops \<and> is ! a = is ! b \<and> is ! a \<noteq> 0 \<longrightarrow>
    (\<exists>m. a < m \<and> m < b \<and> is ! a \<in> completes (snd (ops ! m)))"
  using claimed_twice [OF assms] by metis

theorem vplic_claim_exclusive_witness:
  "\<exists>s' i. vplic_history demo_hvm [((1, 3, 0), Claim 1), ((3, 7, 9), Claim 3)] demo_irq = Inr (s', [9, i]) \<and> i \<noteq> 9"
proof -
  let ?ops = "[((1, 3, 0), Claim 1), ((3, 7, 9), Claim 3)] :: ((cpuid \<times> nat \<times> u64) \<times> vplic_op) list"
  have inr: "\<forall>((self, n, now), oper) \<in> set ?ops. op_in (cntxt_num (vp demo_irq)) oper \<and> n < 8"
    using demo_cntxts(1) by simp
  then obtain s' "is" where h: "vplic_history demo_hvm ?ops demo_irq = Inr (s', is)" "length is = 2"
    using history_kept [OF demo_irq_wf demo_platform, of ?ops UNIV] by auto
  then obtain i j where ij: "is = [i, j]" by (auto simp: length_Suc_conv numeral_2_eq_2)
  obtain s1 where "vplic_claim demo_hvm 1 0 1 demo_irq = Inr (s1, i)" using h(1) ij by auto
  then have "i = 9" using demo_claim by auto
  moreover have "j \<noteq> 9"
    using vplic_claim_exclusive [OF demo_irq_wf demo_platform inr h(1), THEN spec [of _ 0], THEN spec [of _ 1]]
      ij \<open>i = 9\<close> by auto
  ultimately show ?thesis using h(1) ij by auto
qed

text \<open>
  C28. The rate limiter holds end to end: over any history with times in order, the number of
  times a guest can claim a source is at most one for the interrupt pending at the start, plus
  the burst capacity, plus the refill rate times the elapsed time. The histories mix injections,
  claims, register writes, \<open>HC_PLIC_INJECT\<close> hypercalls for the sources that have a bucket, and
  completions of the identifiers below 43264, whose bit lies in the register words of the
  structure. The bound needs the last restriction: \<open>vplic_complete\<close> does not check what the guest
  writes, and a larger identifier clears a bit of the buckets behind those words, for example of
  \<open>last_refill\<close>, which refills the budget.
\<close>

theorem vplic_claims_bounded:
  assumes "irq_wf s" "on_platform v"
    and "\<forall>((self, n, now), oper) \<in> set ops. op_in (cntxt_num (vp s)) oper \<and> n < 8"
    and "vplic_history v ops s = Inr (s', is)" "0 < k" "k < 1024" "bucket_wf (bucket s k)"
    and "sorted (last_refill (bucket s k) # List.map op_time ops)"
  shows "count_list is k * freq \<le> (if pendb (vp s) k then freq else 0) + unat (max_tokens (bucket s k)) * freq
    + (unat (last (last_refill (bucket s k) # List.map op_time ops)) - unat (last_refill (bucket s k)))
      * unat (rate (bucket s k))"
proof -
  let ?b = "bucket s k" and ?t = "last (last_refill (bucket s k) # List.map op_time ops)"
  have p: "count_list is k * freq + stock s' k + unat (last_refill ?b) * unat (rate ?b)
      \<le> stock s k + unat (last_refill (bucket s' k)) * unat (rate ?b)" "last_refill (bucket s' k) \<le> ?t"
    using history_pays [OF assms] by (simp_all only: pays_def)
  have "unat (last_refill (bucket s' k)) * unat (rate ?b) \<le> unat ?t * unat (rate ?b)"
    using p(2) by (intro mult_le_mono1) (simp only: word_le_nat_alt)
  moreover have "unat (tokens ?b) * freq \<le> unat (max_tokens ?b) * freq"
    using assms(7) by (intro mult_le_mono1) (simp add: bucket_wf_def word_le_nat_alt)
  ultimately show ?thesis using p(1) unfolding diff_mult_distrib stock_def by linarith
qed

theorem vplic_claims_bounded_witness:
  "\<exists>s' is. vplic_history demo_hvm [((1, 3, 5), Inject 0 9), ((1, 3, 7), Hc_inject 9), ((1, 3, 10), Claim 1)] demo_irq = Inr (s', is)
    \<and> count_list is 9 * freq \<le> freq + 100 * freq + 10 * 1000"
proof -
  let ?ops = "[((1, 3, 5), Inject 0 9), ((1, 3, 7), Hc_inject 9), ((1, 3, 10), Claim 1)] :: ((cpuid \<times> nat \<times> u64) \<times> vplic_op) list"
  have inr: "\<forall>((self, n, now), oper) \<in> set ?ops. op_in (cntxt_num (vp demo_irq)) oper \<and> n < 8"
    using demo_cntxts(1) by simp
  then obtain s' "is" where h: "vplic_history demo_hvm ?ops demo_irq = Inr (s', is)"
    using history_kept [OF demo_irq_wf demo_platform, of ?ops UNIV] by auto
  have b: "bucket demo_irq 9 = irq_bucket_init 0 0" by (simp add: demo_irq_def)
  have "count_list is 9 * freq \<le> freq + 100 * freq + 10 * 1000"
    using vplic_claims_bounded [OF demo_irq_wf demo_platform inr h, of 9] demo_bits [of PEND_OFF 9] init_wf [of 0 0]
    unfolding b by (simp add: irq_bucket_init_def irq_rl_params op_time_def vplic_offs)
  with h show ?thesis by blast
qed

text \<open>
  A completion does not check the identifier the guest writes: beyond 1023 it clears a bit
  of whatever follows the activity bits in the structure (deferred bits, priorities, enables,
  thresholds), and beyond the structure it writes to the hypervisor memory behind it.
\<close>

theorem vplic_complete_unchecked:
  assumes "irq_wf s" "vplic_vcntxt_valid (vp s) c" "n < 8" "1024 \<le> i"
  shows "if i < 43264
    then \<exists>s'. vplic_complete v self n c i s = Inr s' \<and>
      (\<forall>x. bm_bit (vwords (vp s')) x \<longleftrightarrow> x \<noteq> 32 * ACT_OFF + i \<and> bm_bit (vwords (vp s)) x)
    else vplic_complete v self n c i s = Inl Out_of_bounds"
proof -
  note wf = wfD [OF assms(1)]
  have c: "c < 8" using assms(2) wf(8) vcntxt_valid_iff [OF wf(1)] by auto
  show ?thesis
    using complete_spec [OF assms(1) c assms(3), of i UNIV v self] complete_outside [OF assms(1), of i]
    by (auto simp: vplic_offs)
qed

theorem vplic_complete_unchecked_witness:
  "bm_bit (vwords (vp demo_irq)) (32 * PRIO_OFF + 288)
    \<and> (\<exists>s'. vplic_complete demo_hvm 1 3 1 2336 demo_irq = Inr s' \<and> \<not> bm_bit (vwords (vp s')) (32 * PRIO_OFF + 288))
    \<and> vplic_complete demo_hvm 1 3 1 43264 demo_irq = Inl Out_of_bounds"
  using vplic_complete_unchecked [OF demo_irq_wf demo_cntxts(2), of 3 2336 demo_hvm 1]
    vplic_complete_unchecked [OF demo_irq_wf demo_cntxts(2), of 3 43264 demo_hvm 1]
  by (auto simp: bm_bit_def demo_word vplic_offs)

end
