(* ===== verification/Page_Table.thy ===== *)
theory Page_Table
  imports Bits
begin

text \<open>
  Page tables of the RISC-V port: the generic geometry of \<open>src/core/inc/page_table.h\<close>, the entry
  format of \<open>src/arch/riscv/inc/arch/page_table.h\<close>, the walk of \<open>src/arch/riscv/page_table.c\<close>
  and the identity map and translation of \<open>src/arch/riscv/mem.c\<close>.

  Tables are read and written through their physical addresses, which the hypervisor maps one to
  one. The memory is a map from the address of an 8-byte entry to its value; a pointer to an entry
  is its address, \<open>NULL\<close> is 0.
\<close>

section \<open>Geometry\<close>

type_synonym pte = u64
type_synonym pte_ptr = u64
type_synonym pt_mem = "pte_ptr \<Rightarrow> pte"

record page_table_dscr =
  lvls :: nat
  lvl_off :: "nat list"
  lvl_wdt :: "nat list"
  lvl_term :: "bool list"

record page_table =
  pt_root :: pte_ptr
  pt_dscr :: page_table_dscr

definition sv39_pt_dscr :: page_table_dscr where
  "sv39_pt_dscr = \<lparr>lvls = 3, lvl_off = [30, 21, 12], lvl_wdt = [39, 30, 21], lvl_term = [True, True, True]\<rparr>"

definition sv39x4_pt_dscr :: page_table_dscr where
  "sv39x4_pt_dscr = \<lparr>lvls = 3, lvl_off = [30, 21, 12], lvl_wdt = [41, 30, 21], lvl_term = [True, True, True]\<rparr>"

definition pt_nentries :: "page_table \<Rightarrow> nat \<Rightarrow> nat res" where
  "pt_nentries pt lvl =
    bindR (rd (lvl_wdt (pt_dscr pt)) lvl) (\<lambda>w. bindR (rd (lvl_off (pt_dscr pt)) lvl) (\<lambda>off.
    Inr (2 ^ w div 2 ^ off)))"

definition pt_lvlsize :: "page_table \<Rightarrow> nat \<Rightarrow> nat res" where
  "pt_lvlsize pt lvl = bindR (rd (lvl_off (pt_dscr pt)) lvl) (\<lambda>off. Inr (2 ^ off))"

definition pt_size :: "page_table \<Rightarrow> nat \<Rightarrow> nat res" where
  "pt_size pt lvl = bindR (pt_nentries pt lvl) (\<lambda>n. Inr (n * 8))"

definition pt_getpteindex :: "page_table \<Rightarrow> pte_ptr \<Rightarrow> nat \<Rightarrow> nat res" where
  "pt_getpteindex pt pte lvl = bindR (pt_size pt lvl) (\<lambda>sz. Inr (unat (pte AND (of_nat sz - 1)) div 8))"

definition pt_getpteindex_by_va :: "page_table \<Rightarrow> vaddr \<Rightarrow> nat \<Rightarrow> nat res" where
  "pt_getpteindex_by_va pt va lvl =
    bindR (rd (lvl_off (pt_dscr pt)) lvl) (\<lambda>off. bindR (pt_nentries pt lvl) (\<lambda>n.
    Inr (unat (drop_bit off va AND (of_nat n - 1)))))"

definition pt_lvl_terminal :: "page_table \<Rightarrow> nat \<Rightarrow> bool res" where
  "pt_lvl_terminal pt lvl = rd (lvl_term (pt_dscr pt)) lvl"

section \<open>Entries\<close>

definition PTE_ADDR_MSK :: u64 where "PTE_ADDR_MSK = push_bit 12 (mask 44)"
definition PTE_FLAGS_MSK :: u64 where "PTE_FLAGS_MSK = mask 8"
definition PTE_RSW_MSK :: u64 where "PTE_RSW_MSK = push_bit 8 (mask 2)"
definition PTE_RSW_RSRV :: u64 where "PTE_RSW_RSRV = push_bit 8 3"
definition PTE_VALID :: u64 where "PTE_VALID = 1"
definition PTE_RWX :: u64 where "PTE_RWX = 2 OR 4 OR 8"
definition PTE_TABLE :: u64 where "PTE_TABLE = PTE_VALID"
definition PTE_PAGE :: u64 where "PTE_PAGE = PTE_RWX OR PTE_VALID"
definition PTE_SUPERPAGE :: u64 where "PTE_SUPERPAGE = PTE_PAGE"
definition PTE_INVALID :: u64 where "PTE_INVALID = 0"
definition PTE_HYP_FLAGS :: u64 where "PTE_HYP_FLAGS = 0x20 OR 0x40 OR 0x80"
definition PTE_VM_FLAGS :: u64 where "PTE_VM_FLAGS = 0x40 OR 0x80 OR 0x10"

text \<open>The setters of the code write through a pointer; these are the values they write.\<close>

definition pte_set :: "paddr \<Rightarrow> u64 \<Rightarrow> u64 \<Rightarrow> pte" where
  "pte_set addr type flags =
    drop_bit 2 (addr AND PTE_ADDR_MSK) OR ((if type = PTE_TABLE then type else type OR flags) AND PTE_FLAGS_MSK)"

definition pte_addr :: "pte \<Rightarrow> paddr" where
  "pte_addr e = push_bit 2 e AND PTE_ADDR_MSK"

definition pte_valid :: "pte \<Rightarrow> bool" where
  "pte_valid e \<longleftrightarrow> e AND PTE_VALID \<noteq> 0"

definition pte_set_rsw :: "pte \<Rightarrow> u64 \<Rightarrow> pte" where
  "pte_set_rsw e flag = (e AND NOT PTE_RSW_MSK) OR (flag AND PTE_RSW_MSK)"

definition pte_check_rsw :: "pte \<Rightarrow> u64 \<Rightarrow> bool" where
  "pte_check_rsw e flag \<longleftrightarrow> e AND PTE_RSW_MSK = flag AND PTE_RSW_MSK"

definition pte_table :: "pte \<Rightarrow> bool" where
  "pte_table e \<longleftrightarrow> e AND 0xf = PTE_VALID"

definition pte_page :: "pte \<Rightarrow> bool" where
  "pte_page e \<longleftrightarrow> e AND PTE_VALID \<noteq> 0 \<and> e AND PTE_RWX \<noteq> 0"

section \<open>The walk\<close>

definition pte_at :: "pte_ptr \<Rightarrow> nat \<Rightarrow> pte_ptr" where
  "pte_at tbl index = tbl + 8 * of_nat index"

function pt_walk :: "pt_mem \<Rightarrow> page_table \<Rightarrow> nat \<Rightarrow> vaddr \<Rightarrow> nat \<Rightarrow> pte_ptr \<Rightarrow> pte_ptr res" where
  "pt_walk m pt lvl va i pte =
    (if i < lvl then
       if \<not> pte_valid (m pte) then Inr 0
       else bindR (pt_getpteindex_by_va pt va (i + 1)) (\<lambda>index.
         pt_walk m pt lvl va (i + 1) (pte_at (pte_addr (m pte)) index))
     else Inr pte)"
  by pat_completeness auto
termination by (relation "measure (\<lambda>(m, pt, lvl, va, i, pte). lvl - i)") auto

declare pt_walk.simps [simp del]

definition pt_get_pte :: "pt_mem \<Rightarrow> page_table \<Rightarrow> nat \<Rightarrow> vaddr \<Rightarrow> pte_ptr res" where
  "pt_get_pte m pt lvl va =
    bindR (pt_getpteindex_by_va pt va 0) (\<lambda>pte_index. pt_walk m pt lvl va 0 (pte_at (pt_root pt) pte_index))"

definition pt_get :: "pt_mem \<Rightarrow> page_table \<Rightarrow> nat \<Rightarrow> vaddr \<Rightarrow> pte_ptr res" where
  "pt_get m pt lvl va =
    bindR (pt_get_pte m pt lvl va) (\<lambda>pte. bindR (pt_size pt lvl) (\<lambda>sz. Inr (pte AND NOT (of_nat sz - 1))))"

section \<open>Translation\<close>

text \<open>
  The loop of \<open>mem_translate\<close> stops at the first entry that is no table and returns it with its
  level; when it runs through, the level is still the initial 0.
\<close>

function translate_loop :: "pt_mem \<Rightarrow> page_table \<Rightarrow> vaddr \<Rightarrow> nat \<Rightarrow> pte_ptr \<Rightarrow> (pte_ptr \<times> nat) res" where
  "translate_loop m pt va i pte =
    (if i < lvls (pt_dscr pt) then
       if \<not> pte_valid (m pte) \<or> \<not> pte_table (m pte) then Inr (pte, i)
       else bindR (pt_getpteindex_by_va pt va (i + 1)) (\<lambda>index.
         translate_loop m pt va (i + 1) (pte_at (pte_addr (m pte)) index))
     else Inr (pte, 0))"
  by pat_completeness auto
termination by (relation "measure (\<lambda>(m, pt, va, i, pte). lvls (pt_dscr pt) - i)") auto

declare translate_loop.simps [simp del]

definition mem_translate :: "pt_mem \<Rightarrow> page_table \<Rightarrow> vaddr \<Rightarrow> paddr option res" where
  "mem_translate m pt va =
    bindR (pt_getpteindex_by_va pt va 0) (\<lambda>pte_index.
    bindR (translate_loop m pt va 0 (pte_at (pt_root pt) pte_index)) (\<lambda>(pte, lvl).
    if pte \<noteq> 0 \<and> pte_valid (m pte) then
      bindR (pt_lvlsize pt lvl) (\<lambda>sz.
      let msk = of_nat sz - 1 in Inr (Some ((pte_addr (m pte) AND NOT msk) OR (va AND msk))))
    else Inr None))"

section \<open>The identity map\<close>

text \<open>One 1 GiB entry per gigabyte a region of physical memory touches; a region is its base and size.\<close>

definition map_region_identity :: "page_table \<Rightarrow> paddr \<times> u64 \<Rightarrow> pt_mem \<Rightarrow> pt_mem res" where
  "map_region_identity pt = (\<lambda>(rbase, rsize) m.
    bindR (pt_lvlsize pt 0) (\<lambda>lvl_size.
    let lvl_mask = NOT (of_nat lvl_size - 1 :: u64);
        base = rbase AND lvl_mask;
        topa = ALIGN (rbase + rsize) (of_nat lvl_size) AND lvl_mask;
        num_entries = unat ((topa - base - 1) div of_nat lvl_size + 1)
    in foldR (\<lambda>j m.
         let addr = base + of_nat j * of_nat lvl_size in
         bindR (pt_getpteindex_by_va pt addr 0) (\<lambda>index.
         Inr (m(pte_at (pt_root pt) index := pte_set addr PTE_SUPERPAGE PTE_HYP_FLAGS)))) [0..<num_entries] m))"

definition as_map_physical_identity :: "(paddr \<times> u64) list \<Rightarrow> page_table \<Rightarrow> pt_mem \<Rightarrow> pt_mem res" where
  "as_map_physical_identity regions pt m = foldR (map_region_identity pt) regions m"

end
