(* ===== verification/Addr_Space.thy ===== *)
theory Addr_Space
  imports Page_Table Page_Pools
begin

text \<open>
  Address spaces, \<open>src/core/mmu/mem.c\<close>: reservation of virtual pages, mapping, unmapping and the
  splitting of large pages, over the page tables of Page_Table and the allocator of Page_Pools.
  Every operation holds the lock of the address space (and of the section, where it is shared).

  A loop whose end depends on the contents of the tables is a tail recursion over the body of the
  loop; \<open>None\<close> says that it does not end. Recolouring, which needs the contents of the pages, is
  not modelled here.
\<close>

section \<open>Sections and address spaces\<close>

record sec =
  sec_beg :: vaddr
  sec_end :: vaddr
  sec_shared :: bool

text \<open>The symbols of the linker script that delimit the hypervisor's sections.\<close>

record link_map =
  dmem_beg :: vaddr
  cpu_private_beg :: vaddr
  cpu_private_end :: vaddr
  image_start :: vaddr
  image_end :: vaddr
  vm_beg :: vaddr
  vm_end :: vaddr

definition hyp_secs :: "link_map \<Rightarrow> sec list" where
  "hyp_secs l =
    [\<lparr>sec_beg = dmem_beg l, sec_end = cpu_private_beg l - 1, sec_shared = True\<rparr>,
     \<lparr>sec_beg = image_start l, sec_end = image_end l - 1, sec_shared = True\<rparr>,
     \<lparr>sec_beg = cpu_private_beg l, sec_end = cpu_private_end l - 1, sec_shared = False\<rparr>,
     \<lparr>sec_beg = vm_beg l, sec_end = vm_end l - 1, sec_shared = True\<rparr>]"

definition vm_secs :: "sec list" where
  "vm_secs = [\<lparr>sec_beg = 0, sec_end = MAX_VA, sec_shared = False\<rparr>]"

definition as_sections :: "link_map \<Rightarrow> as_type \<Rightarrow> sec list" where
  "as_sections l t = (case t of AS_VM \<Rightarrow> vm_secs | _ \<Rightarrow> hyp_secs l)"

record addr_space =
  as_pt :: page_table
  as_typ :: as_type
  as_colors :: colormap
  as_id :: nat

text \<open>
  What the operations act on. \<open>tlb_inv_va\<close> invalidates the address in the TLBs of all cores, for
  the hypervisor or for the VM whose identifier it is given; \<open>tlb_log\<close> records these requests.
\<close>

datatype tlb_request = Tlb_hyp_va vaddr | Tlb_vm_va nat vaddr

record mem_env =
  env_link :: link_map
  clr_num :: nat
  clr_size :: nat
  cpu_as :: addr_space

record mem_state =
  pt_words :: pt_mem
  page_pools :: "page_pool list"
  tlb_log :: "tlb_request list"

definition tlb_inv_va :: "addr_space \<Rightarrow> vaddr \<Rightarrow> mem_state \<Rightarrow> mem_state" where
  "tlb_inv_va a va s =
    (case as_typ a of AS_HYP \<Rightarrow> s\<lparr>tlb_log := tlb_log s @ [Tlb_hyp_va va]\<rparr>
     | AS_VM \<Rightarrow> s\<lparr>tlb_log := tlb_log s @ [Tlb_vm_va (as_id a) va]\<rparr>
     | AS_HYP_CPY \<Rightarrow> s)"

text \<open>Dereferences of a pointer to an entry.\<close>

definition ld_pte :: "mem_state \<Rightarrow> pte_ptr \<Rightarrow> pte res" where
  "ld_pte s p = (if p = 0 then Inl Null_deref else Inr (pt_words s p))"

definition st_pte :: "pte_ptr \<Rightarrow> pte \<Rightarrow> mem_state \<Rightarrow> mem_state res" where
  "st_pte p e s = (if p = 0 then Inl Null_deref else Inr (s\<lparr>pt_words := (pt_words s)(p := e)\<rparr>))"

definition next_pte :: "pte_ptr \<Rightarrow> pte_ptr" where
  "next_pte p = p + 8"

text \<open>\<open>mem_find_sec\<close> returns a pointer into the table of sections, here its index.\<close>

definition mem_find_sec :: "mem_env \<Rightarrow> addr_space \<Rightarrow> vaddr \<Rightarrow> nat option" where
  "mem_find_sec E a va =
    find (\<lambda>i. let c = as_sections (env_link E) (as_typ a) ! i in sec_beg c \<le> va \<and> va \<le> sec_end c)
      [0..<length (as_sections (env_link E) (as_typ a))]"

definition alloc_ppages :: "mem_env \<Rightarrow> colormap \<Rightarrow> nat \<Rightarrow> bool \<Rightarrow> mem_state \<Rightarrow> (mem_state \<times> ppages) res" where
  "alloc_ppages E clrs n aligned s =
    bindR (mem_alloc_ppages (clr_num E) (clr_size E) (page_pools s) clrs n aligned) (\<lambda>(pools, pages).
    Inr (s\<lparr>page_pools := pools\<rparr>, pages))"

section \<open>Tables\<close>

definition pte_allocable :: "addr_space \<Rightarrow> pte \<Rightarrow> nat \<Rightarrow> nat \<Rightarrow> vaddr \<Rightarrow> bool res" where
  "pte_allocable a e lvl left addr =
    (if lvl = lvls (pt_dscr (as_pt a)) - 1 then Inr True
     else bindR (pt_lvl_terminal (as_pt a) lvl) (\<lambda>t. bindR (pt_lvlsize (as_pt a) lvl) (\<lambda>sz.
       Inr (t \<and> \<not> pte_valid e \<and> sz \<le> left * 4096 mod 2 ^ 64 \<and> unat addr mod sz = 0))))"

text \<open>The result is the new table, 0 if there is no memory for it.\<close>

definition mem_alloc_pt :: "mem_env \<Rightarrow> addr_space \<Rightarrow> pte_ptr \<Rightarrow> nat \<Rightarrow> vaddr \<Rightarrow> mem_state \<Rightarrow>
    (mem_state \<times> pte_ptr) res" where
  "mem_alloc_pt E a parent lvl addr s =
    bindR (pt_size (as_pt a) (lvl + 1)) (\<lambda>sz.
    let ptsize = unat (NUM_PAGES (of_nat sz)) in
    bindR (alloc_ppages E (as_colors a) ptsize (1 < ptsize) s) (\<lambda>(s, ppage).
    if num_pages ppage = 0 then Inr (s, 0)
    else
      bindR (ld_pte s parent) (\<lambda>e.
      let pte_dflt_val = PTE_INVALID OR (e AND PTE_RSW_MSK) in
      bindR (st_pte parent (pte_set (pp_base ppage) PTE_TABLE PTE_HYP_FLAGS) s) (\<lambda>s.
      bindR (pt_get (pt_words s) (as_pt a) (lvl + 1) addr) (\<lambda>temp_pt.
      bindR (pt_nentries (as_pt a) (lvl + 1)) (\<lambda>n.
      bindR (foldR (\<lambda>i s. st_pte (pte_at temp_pt i) pte_dflt_val s) [0..<n] s) (\<lambda>s.
      Inr (s, temp_pt))))))))"

definition pt_pte_mappable :: "addr_space \<Rightarrow> pte \<Rightarrow> nat \<Rightarrow> nat \<Rightarrow> vaddr \<Rightarrow> paddr \<Rightarrow> bool res" where
  "pt_pte_mappable a e lvl left va pa =
    (if pte_valid e then Inr False
     else bindR (pt_lvlsize (as_pt a) lvl) (\<lambda>sz.
       Inr (sz \<le> left * 4096 mod 2 ^ 64 \<and> unat va mod sz = 0 \<and> unat pa mod sz = 0)))"

definition pt_page_type :: "page_table \<Rightarrow> nat \<Rightarrow> u64" where
  "pt_page_type pt lvl = (if lvl = lvls (pt_dscr pt) - 1 then PTE_PAGE else PTE_SUPERPAGE)"

text \<open>\<open>expand_fill\<close> is the loop that replicates the mapping of the split page.\<close>

function expand_fill :: "bool \<Rightarrow> bool \<Rightarrow> u64 \<Rightarrow> u64 \<Rightarrow> nat \<Rightarrow> nat \<Rightarrow> nat \<Rightarrow> pte_ptr \<Rightarrow> paddr \<Rightarrow> mem_state \<Rightarrow>
    mem_state res" where
  "expand_fill vld rsv type flags lvlsz nentries entry pte pa s =
    (if entry < nentries then
       bindR (if vld then st_pte pte (pte_set pa type flags) s
              else if rsv then bindR (ld_pte s pte) (\<lambda>e. st_pte pte (pte_set_rsw e PTE_RSW_RSRV) s)
              else Inr s)
         (\<lambda>s. expand_fill vld rsv type flags lvlsz nentries (entry + 1) (next_pte pte) (pa + of_nat lvlsz) s)
     else Inr s)"
  by pat_completeness auto
termination
  by (relation "measure (\<lambda>(vld, rsv, type, flags, lvlsz, nentries, entry, pte, pa, s). nentries - entry)") auto

declare expand_fill.simps [simp del]

definition mem_expand_pte :: "mem_env \<Rightarrow> addr_space \<Rightarrow> vaddr \<Rightarrow> nat \<Rightarrow> mem_state \<Rightarrow> mem_state res" where
  "mem_expand_pte E a va lvl s =
    (if lvls (pt_dscr (as_pt a)) - 1 \<le> lvl then Inr s
     else
       bindR (pt_get_pte (pt_words s) (as_pt a) lvl va) (\<lambda>pte.
       if pte \<noteq> 0 \<and> \<not> pte_table (pt_words s pte) then
         let pte_val = pt_words s pte; rsv = pte_check_rsw pte_val PTE_RSW_RSRV; vld = pte_valid pte_val in
         bindR (mem_alloc_pt E a pte lvl va s) (\<lambda>(s, pte).
         if vld \<or> rsv then
           let s = tlb_inv_va (cpu_as E) va s; lvl = lvl + 1 in
           bindR (pt_getpteindex (as_pt a) pte lvl) (\<lambda>entry.
           bindR (pt_nentries (as_pt a) lvl) (\<lambda>nentries.
           bindR (pt_lvlsize (as_pt a) lvl) (\<lambda>lvlsz.
           expand_fill vld rsv (pt_page_type (as_pt a) lvl)
             (if as_typ a = AS_HYP then PTE_HYP_FLAGS else PTE_VM_FLAGS) lvlsz nentries entry pte
             (pte_addr pte_val) s)))
         else Inr s)
       else Inr s))"

text \<open>
  The addresses the inner loop of \<open>mem_inflate_pt\<close> visits: from \<open>va\<close> in steps of the level's
  size while they are below the end, all at 64 bits.
\<close>

partial_function (option) inflate_lvl ::
  "mem_env \<Rightarrow> addr_space \<Rightarrow> vaddr \<Rightarrow> nat \<Rightarrow> nat \<Rightarrow> vaddr \<Rightarrow> mem_state \<Rightarrow> mem_state res option" where
  [code]: "inflate_lvl E a topa lvl lvlsz va s =
    (if va < topa then
       (case mem_expand_pte E a va lvl s of
          Inl e \<Rightarrow> Some (Inl e)
        | Inr s \<Rightarrow> inflate_lvl E a topa lvl lvlsz (va + of_nat lvlsz) s)
     else Some (Inr s))"

definition mem_inflate_pt :: "mem_env \<Rightarrow> addr_space \<Rightarrow> vaddr \<Rightarrow> u64 \<Rightarrow> mem_state \<Rightarrow> mem_state res" where
  "mem_inflate_pt E a va len s =
    foldR (\<lambda>lvl s. bindR (pt_lvlsize (as_pt a) lvl) (\<lambda>lvlsz.
      ended (inflate_lvl E a (va + len) lvl lvlsz va s))) [0..<lvls (pt_dscr (as_pt a)) - 1] s"

section \<open>Reserving virtual pages\<close>

text \<open>
  The state of the search: level, address, number of pages found so far, their first address, and
  whether it failed. \<open>vpage_look\<close> is the first half of the body of the inner loop, the decision
  about an entry; it returns the entry as the second half reads it. \<open>vpage_entries\<close> is the inner
  loop, over the entries of one table.
\<close>

record vsearch =
  vs_lvl :: nat
  vs_addr :: vaddr
  vs_count :: nat
  vs_vpage :: vaddr
  vs_failed :: bool

definition vpage_look :: "mem_env \<Rightarrow> addr_space \<Rightarrow> vaddr \<Rightarrow> nat \<Rightarrow> nat \<Rightarrow> pte_ptr \<Rightarrow> vsearch \<Rightarrow> mem_state \<Rightarrow>
    (vsearch \<times> mem_state \<times> pte) res" where
  "vpage_look E a at n lvlsze pte v s =
    bindR (ld_pte s pte) (\<lambda>e.
    if pte_check_rsw e PTE_RSW_RSRV \<or> (pte_valid e \<and> \<not> pte_table e) then
      Inr (v\<lparr>vs_count := 0, vs_vpage := INVALID_VA, vs_failed := at \<noteq> INVALID_VA\<rparr>, s, e)
    else if \<not> pte_valid e then
      bindR (pte_allocable a e (vs_lvl v) (n - vs_count v) (vs_addr v)) (\<lambda>fits.
      if fits then
        Inr (v\<lparr>vs_vpage := (if vs_count v = 0 then vs_addr v else vs_vpage v),
               vs_count := vs_count v + lvlsze div 4096\<rparr>, s, e)
      else
        bindR (mem_alloc_pt E a pte (vs_lvl v) (vs_addr v) s) (\<lambda>(s, t).
        if t = 0 then Inl Panic else bindR (ld_pte s pte) (\<lambda>e. Inr (v, s, e))))
    else Inr (v, s, e))"

function vpage_entries :: "mem_env \<Rightarrow> addr_space \<Rightarrow> vaddr \<Rightarrow> nat \<Rightarrow> nat \<Rightarrow> nat \<Rightarrow> nat \<Rightarrow> pte_ptr \<Rightarrow>
    vsearch \<Rightarrow> mem_state \<Rightarrow> (vsearch \<times> mem_state) res" where
  "vpage_entries E a at n nentries lvlsze entry pte v s =
    (if entry < nentries \<and> vs_count v < n \<and> \<not> vs_failed v then
       bindR (vpage_look E a at n lvlsze pte v s) (\<lambda>(v, s, e).
       if vs_failed v then Inr (v, s)
       else if pte_table e then Inr (v\<lparr>vs_lvl := vs_lvl v + 1\<rparr>, s)
       else
         let v = v\<lparr>vs_addr := vs_addr v + of_nat lvlsze\<rparr> in
         if nentries \<le> entry + 1 then Inr (v\<lparr>vs_lvl := 0\<rparr>, s)
         else vpage_entries E a at n nentries lvlsze (entry + 1) (next_pte pte) v s)
     else Inr (v, s))"
  by pat_completeness auto
termination
  by (relation "measure (\<lambda>(E, a, at, n, nentries, lvlsze, entry, pte, v, s). nentries - entry)") auto

declare vpage_entries.simps [simp del]

text \<open>One iteration of the outer loop; the top of the section and address 0 are the corner case.\<close>

definition vpage_round :: "mem_env \<Rightarrow> addr_space \<Rightarrow> vaddr \<Rightarrow> nat \<Rightarrow> vaddr \<Rightarrow> vsearch \<Rightarrow> mem_state \<Rightarrow>
    (vsearch \<times> mem_state) res" where
  "vpage_round E a at n topa v s =
    (let full_as = vs_addr v = 0 \<and> topa = MAX_VA in
     if \<not> full_as \<and> unat (topa + 1 - vs_addr v) div 4096 < n
     then Inr (v\<lparr>vs_vpage := INVALID_VA, vs_failed := True\<rparr>, s)
     else
       bindR (pt_get_pte (pt_words s) (as_pt a) (vs_lvl v) (vs_addr v)) (\<lambda>pte.
       bindR (pt_getpteindex (as_pt a) pte (vs_lvl v)) (\<lambda>entry.
       bindR (pt_nentries (as_pt a) (vs_lvl v)) (\<lambda>nentries.
       bindR (pt_lvlsize (as_pt a) (vs_lvl v)) (\<lambda>lvlsze.
       vpage_entries E a at n nentries lvlsze entry pte v s)))))"

partial_function (option) vpage_search ::
  "mem_env \<Rightarrow> addr_space \<Rightarrow> vaddr \<Rightarrow> nat \<Rightarrow> vaddr \<Rightarrow> vsearch \<Rightarrow> mem_state \<Rightarrow> (vsearch \<times> mem_state) res option" where
  [code]: "vpage_search E a at n topa v s =
    (if vs_count v < n \<and> \<not> vs_failed v then
       (case vpage_round E a at n topa v s of
          Inl f \<Rightarrow> Some (Inl f)
        | Inr (v, s) \<Rightarrow> vpage_search E a at n topa v s)
     else Some (Inr (v, s)))"

text \<open>
  Marking: \<open>first_invalid\<close> descends to the first invalid entry; its level is the number of levels
  if all are valid.
\<close>

function first_invalid :: "addr_space \<Rightarrow> vaddr \<Rightarrow> mem_state \<Rightarrow> nat \<Rightarrow> pte_ptr \<Rightarrow> (pte_ptr \<times> nat) res" where
  "first_invalid a va s lvl pte =
    (if lvl < lvls (pt_dscr (as_pt a)) then
       bindR (pt_get_pte (pt_words s) (as_pt a) lvl va) (\<lambda>pte.
       bindR (ld_pte s pte) (\<lambda>e. if \<not> pte_valid e then Inr (pte, lvl) else first_invalid a va s (lvl + 1) pte))
     else Inr (pte, lvl))"
  by pat_completeness auto
termination by (relation "measure (\<lambda>(a, va, s, lvl, pte). lvls (pt_dscr (as_pt a)) - lvl)") auto

declare first_invalid.simps [simp del]

definition mark_round :: "addr_space \<Rightarrow> vaddr \<Rightarrow> nat \<Rightarrow> mem_state \<Rightarrow> (vaddr \<times> nat \<times> mem_state) res" where
  "mark_round a va count s =
    bindR (first_invalid a va s 0 0) (\<lambda>(pte, lvl).
    bindR (ld_pte s pte) (\<lambda>e.
    bindR (st_pte pte (pte_set_rsw e PTE_RSW_RSRV) s) (\<lambda>s.
    bindR (pt_lvlsize (as_pt a) lvl) (\<lambda>sz. Inr (va + of_nat sz, count + sz div 4096, s)))))"

partial_function (option) mark_reserved ::
  "addr_space \<Rightarrow> nat \<Rightarrow> vaddr \<Rightarrow> nat \<Rightarrow> mem_state \<Rightarrow> mem_state res option" where
  [code]: "mark_reserved a n va count s =
    (if count < n then
       (case mark_round a va count s of
          Inl f \<Rightarrow> Some (Inl f)
        | Inr (va, count, s) \<Rightarrow> mark_reserved a n va count s)
     else Some (Inr s))"

definition mem_alloc_vpage :: "mem_env \<Rightarrow> addr_space \<Rightarrow> nat \<Rightarrow> vaddr \<Rightarrow> nat \<Rightarrow> mem_state \<Rightarrow> (mem_state \<times> vaddr) res" where
  "mem_alloc_vpage E a section at n s =
    bindR (rd (as_sections (env_link E) (as_typ a)) section) (\<lambda>c.
    if at \<noteq> INVALID_VA \<and> mem_find_sec E a at \<noteq> Some section then Inr (s, INVALID_VA)
    else
      let addr = (if at \<noteq> INVALID_VA then at else sec_beg c); topa = sec_end c in
      if topa < addr \<or> \<not> IS_ALIGNED addr PAGE_SIZE then Inr (s, INVALID_VA)
      else
        bindR (ended (vpage_search E a at n topa
          \<lparr>vs_lvl = 0, vs_addr = addr, vs_count = 0, vs_vpage = INVALID_VA, vs_failed = False\<rparr> s)) (\<lambda>(v, s).
        if vs_vpage v \<noteq> INVALID_VA \<and> \<not> vs_failed v then
          bindR (ended (mark_reserved a n (vs_vpage v) 0 s)) (\<lambda>s. Inr (s, vs_vpage v))
        else Inr (s, vs_vpage v)))"

section \<open>Unmapping\<close>

text \<open>The loop over the entries of a table; a page that sticks out of the range is split first.\<close>

function unmap_entries :: "mem_env \<Rightarrow> addr_space \<Rightarrow> vaddr \<Rightarrow> bool \<Rightarrow> nat \<Rightarrow> nat \<Rightarrow> nat \<Rightarrow> pte_ptr \<Rightarrow> vaddr \<Rightarrow> nat \<Rightarrow>
    mem_state \<Rightarrow> (nat \<times> vaddr \<times> nat \<times> mem_state) res" where
  "unmap_entries E a topa free_ppages nentries lvlsz entry pte va lvl s =
    (if entry < nentries \<and> va < topa then
       bindR (ld_pte s pte) (\<lambda>e.
       if pte_table e then Inr (entry, va, lvl, s)
       else
         let vpage_base = va AND NOT (of_nat lvlsz - 1) in
         if vpage_base < va \<or> topa < vpage_base + of_nat lvlsz then
           bindR (mem_expand_pte E a va lvl s) (\<lambda>s. Inr (entry, va, lvl + 1, s))
         else
           bindR (if free_ppages then
                    bindR (mem_free_ppages (clr_num E) (clr_size E) (mem_ppages_get (pte_addr e) (lvlsz div 4096))
                      (page_pools s)) (\<lambda>pools. Inr (s\<lparr>page_pools := pools\<rparr>))
                  else Inr s) (\<lambda>s.
           bindR (st_pte pte 0 s) (\<lambda>s.
           unmap_entries E a topa free_ppages nentries lvlsz (entry + 1) (next_pte pte) (va + of_nat lvlsz) lvl
             (tlb_inv_va (cpu_as E) va s))))
     else Inr (entry, va, lvl, s))"
  by pat_completeness auto
termination
  by (relation "measure (\<lambda>(E, a, topa, f, nentries, lvlsz, entry, pte, va, lvl, s). nentries - entry)") auto

declare unmap_entries.simps [simp del]

text \<open>\<open>lvl\<close> is a \<open>size_t\<close>: leaving a table of level 0 wraps it.\<close>

definition unmap_round :: "mem_env \<Rightarrow> addr_space \<Rightarrow> vaddr \<Rightarrow> bool \<Rightarrow> vaddr \<Rightarrow> nat \<Rightarrow> mem_state \<Rightarrow>
    (vaddr \<times> nat \<times> mem_state) res" where
  "unmap_round E a topa free_ppages va lvl s =
    bindR (pt_get_pte (pt_words s) (as_pt a) lvl va) (\<lambda>pte.
    if pte = 0 then Inl Panic
    else if \<not> pte_valid (pt_words s pte) then
      bindR (pt_lvlsize (as_pt a) lvl) (\<lambda>lvlsz. Inr (va + of_nat lvlsz, lvl, s))
    else if pte_table (pt_words s pte) then Inr (va, lvl + 1, s)
    else
      bindR (pt_getpteindex (as_pt a) pte lvl) (\<lambda>entry.
      bindR (pt_nentries (as_pt a) lvl) (\<lambda>nentries.
      bindR (pt_lvlsize (as_pt a) lvl) (\<lambda>lvlsz.
      bindR (unmap_entries E a topa free_ppages nentries lvlsz entry pte va lvl s) (\<lambda>(entry, va, lvl, s).
      Inr (va, if entry = nentries then (if lvl = 0 then 2 ^ 64 - 1 else lvl - 1) else lvl, s))))))"

partial_function (option) unmap_loop ::
  "mem_env \<Rightarrow> addr_space \<Rightarrow> vaddr \<Rightarrow> bool \<Rightarrow> vaddr \<Rightarrow> nat \<Rightarrow> mem_state \<Rightarrow> mem_state res option" where
  [code]: "unmap_loop E a topa free_ppages va lvl s =
    (if va < topa then
       (case unmap_round E a topa free_ppages va lvl s of
          Inl f \<Rightarrow> Some (Inl f)
        | Inr (va, lvl, s) \<Rightarrow> unmap_loop E a topa free_ppages va lvl s)
     else Some (Inr s))"

definition mem_unmap :: "mem_env \<Rightarrow> addr_space \<Rightarrow> vaddr \<Rightarrow> nat \<Rightarrow> bool \<Rightarrow> mem_state \<Rightarrow> mem_state res" where
  "mem_unmap E a at n free_ppages s =
    (case mem_find_sec E a at of
       None \<Rightarrow> Inl Null_deref
     | Some _ \<Rightarrow> ended (unmap_loop E a (at + of_nat n * PAGE_SIZE) free_ppages at 0 s))"

section \<open>Mapping\<close>

text \<open>Pages of given colours are mapped one by one, on tables split down to the last level.\<close>

definition map_colored :: "mem_env \<Rightarrow> addr_space \<Rightarrow> vaddr \<Rightarrow> ppages \<Rightarrow> nat \<Rightarrow> u64 \<Rightarrow> mem_state \<Rightarrow> mem_state res" where
  "map_colored E a va pages n flags s =
    bindR (mem_inflate_pt E a va (of_nat n * PAGE_SIZE) s) (\<lambda>s.
    bindR (foldR (\<lambda>_ (va, index, s).
        bindR (pt_get_pte (pt_words s) (as_pt a) (lvls (pt_dscr (as_pt a)) - 1) va) (\<lambda>pte.
        bindR (pp_next_clr (clr_num E) (clr_size E) (pp_base pages) index (pp_colors pages)) (\<lambda>index.
        bindR (st_pte pte (pte_set (pp_base pages + of_nat index * PAGE_SIZE) PTE_PAGE flags) s) (\<lambda>s.
        Inr (va + PAGE_SIZE, index + 1, s))))) [0..<num_pages pages] (va, 0, s)) (\<lambda>(_, _, s).
    Inr s))"

text \<open>
  The descent to the entry that can take a mapping. Its level is the number of levels when the loop
  runs through; \<open>pa\<close> is the physical address, 0 if the pages are still to be allocated.
\<close>

function map_descend :: "mem_env \<Rightarrow> addr_space \<Rightarrow> vaddr \<Rightarrow> paddr \<Rightarrow> nat \<Rightarrow> nat \<Rightarrow> pte_ptr \<Rightarrow> mem_state \<Rightarrow>
    (pte_ptr \<times> nat \<times> mem_state) res" where
  "map_descend E a va pa left lvl pte s =
    (if lvl < lvls (pt_dscr (as_pt a)) then
       bindR (pt_get_pte (pt_words s) (as_pt a) lvl va) (\<lambda>pte.
       bindR (pt_lvl_terminal (as_pt a) lvl) (\<lambda>t.
       if t then
         bindR (ld_pte s pte) (\<lambda>e.
         bindR (pt_pte_mappable a e lvl left va pa) (\<lambda>mappable.
         if mappable then Inr (pte, lvl, s)
         else if \<not> pte_valid e then
           bindR (mem_alloc_pt E a pte lvl va s) (\<lambda>(s, _). map_descend E a va pa left (lvl + 1) pte s)
         else if \<not> pte_table e then Inl Panic
         else map_descend E a va pa left (lvl + 1) pte s))
       else map_descend E a va pa left (lvl + 1) pte s))
     else Inr (pte, lvl, s))"
  by pat_completeness auto
termination
  by (relation "measure (\<lambda>(E, a, va, pa, left, lvl, pte, s). lvls (pt_dscr (as_pt a)) - lvl)") auto

declare map_descend.simps [simp del]

text \<open>
  The loop over the entries of the table found. Without given pages it allocates; when that fails
  above the last level it makes a table instead and leaves the loop.
\<close>

function map_entries :: "mem_env \<Rightarrow> addr_space \<Rightarrow> bool \<Rightarrow> nat \<Rightarrow> u64 \<Rightarrow> nat \<Rightarrow> nat \<Rightarrow> nat \<Rightarrow> nat \<Rightarrow> pte_ptr \<Rightarrow>
    vaddr \<Rightarrow> paddr \<Rightarrow> nat \<Rightarrow> mem_state \<Rightarrow> (vaddr \<times> paddr \<times> nat \<times> mem_state) res" where
  "map_entries E a alloc n flags lvl nentries lvlsz entry pte va pa count s =
    (if entry < nentries \<and> count < n \<and> lvlsz div 4096 \<le> n - count then
       bindR (if alloc then alloc_ppages E (as_colors a) (lvlsz div 4096) True s
              else Inr (s, mem_ppages_get pa (lvlsz div 4096))) (\<lambda>(s, temp).
       if alloc \<and> num_pages temp < lvlsz div 4096 then
         if lvl = lvls (pt_dscr (as_pt a)) - 1 then Inl Panic
         else
           bindR (pt_get_pte (pt_words s) (as_pt a) lvl va) (\<lambda>pte.
           bindR (ld_pte s pte) (\<lambda>e.
           if \<not> pte_valid e then bindR (mem_alloc_pt E a pte lvl va s) (\<lambda>(s, _). Inr (va, pa, count, s))
           else Inr (va, pa, count, s)))
       else
         bindR (st_pte pte (pte_set (pp_base temp) (pt_page_type (as_pt a) lvl) flags) s) (\<lambda>s.
         map_entries E a alloc n flags lvl nentries lvlsz (entry + 1) (next_pte pte) (va + of_nat lvlsz)
           (pp_base temp + of_nat lvlsz) (count + lvlsz div 4096) s))
     else Inr (va, pa, count, s))"
  by pat_completeness auto
termination
  by (relation "measure (\<lambda>(E, a, alloc, n, flags, lvl, nentries, lvlsz, entry, pte, va, pa, count, s).
    nentries - entry)") auto

declare map_entries.simps [simp del]

definition map_round :: "mem_env \<Rightarrow> addr_space \<Rightarrow> bool \<Rightarrow> nat \<Rightarrow> u64 \<Rightarrow> vaddr \<Rightarrow> paddr \<Rightarrow> nat \<Rightarrow> mem_state \<Rightarrow>
    (vaddr \<times> paddr \<times> nat \<times> mem_state) res" where
  "map_round E a alloc n flags va pa count s =
    bindR (map_descend E a va (if alloc then 0 else pa) (n - count) 0 0 s) (\<lambda>(pte, lvl, s).
    bindR (pt_getpteindex (as_pt a) pte lvl) (\<lambda>entry.
    bindR (pt_nentries (as_pt a) lvl) (\<lambda>nentries.
    bindR (pt_lvlsize (as_pt a) lvl) (\<lambda>lvlsz.
    map_entries E a alloc n flags lvl nentries lvlsz entry pte va pa count s))))"

partial_function (option) map_loop ::
  "mem_env \<Rightarrow> addr_space \<Rightarrow> bool \<Rightarrow> nat \<Rightarrow> u64 \<Rightarrow> vaddr \<Rightarrow> paddr \<Rightarrow> nat \<Rightarrow> mem_state \<Rightarrow> mem_state res option" where
  [code]: "map_loop E a alloc n flags va pa count s =
    (if count < n then
       (case map_round E a alloc n flags va pa count s of
          Inl f \<Rightarrow> Some (Inl f)
        | Inr (va, pa, count, s) \<Rightarrow> map_loop E a alloc n flags va pa count s)
     else Some (Inr s))"

definition mem_map :: "mem_env \<Rightarrow> addr_space \<Rightarrow> vaddr \<Rightarrow> ppages option \<Rightarrow> nat \<Rightarrow> u64 \<Rightarrow> mem_state \<Rightarrow>
    (mem_state \<times> bool) res" where
  "mem_map E a va pages n flags s =
    (let va = va AND NOT (PAGE_SIZE - 1); sc = mem_find_sec E a va in
     if sc = None \<or> sc \<noteq> mem_find_sec E a (va + of_nat n * PAGE_SIZE - 1) then Inr (s, False)
     else
       bindR (if pages = None \<and> \<not> all_clrs (clr_num E) (as_colors a) then
                bindR (alloc_ppages E (as_colors a) n False s) (\<lambda>(s, temp).
                if num_pages temp < n then Inl Panic else Inr (s, Some temp))
              else Inr (s, pages)) (\<lambda>(s, pages).
       bindR (case pages of
           Some p \<Rightarrow>
             if \<not> all_clrs (clr_num E) (pp_colors p) then map_colored E a va p n flags s
             else ended (map_loop E a False n flags va (pp_base p) 0 s)
         | None \<Rightarrow> ended (map_loop E a True n flags va 0 0 s)) (\<lambda>s.
       Inr (s, True))))"

section \<open>Combinations\<close>

definition mem_alloc_map :: "mem_env \<Rightarrow> addr_space \<Rightarrow> nat \<Rightarrow> ppages option \<Rightarrow> vaddr \<Rightarrow> nat \<Rightarrow> u64 \<Rightarrow> mem_state \<Rightarrow>
    (mem_state \<times> vaddr) res" where
  "mem_alloc_map E a section page at n flags s =
    bindR (mem_alloc_vpage E a section at n s) (\<lambda>(s, address).
    if address \<noteq> INVALID_VA
    then bindR (mem_map E a address page n flags s) (\<lambda>(s, _). Inr (s, address)) else Inr (s, address))"

text \<open>The flags of a device page are those of a normal one.\<close>

definition mem_alloc_map_dev :: "mem_env \<Rightarrow> addr_space \<Rightarrow> nat \<Rightarrow> vaddr \<Rightarrow> paddr \<Rightarrow> nat \<Rightarrow> mem_state \<Rightarrow>
    (mem_state \<times> vaddr) res" where
  "mem_alloc_map_dev E a section at pa n s =
    bindR (mem_alloc_vpage E a section at n s) (\<lambda>(s, address).
    if address \<noteq> INVALID_VA then
      bindR (mem_map E a address (Some (mem_ppages_get pa n)) n
        (if as_typ a = AS_HYP then PTE_HYP_FLAGS else PTE_VM_FLAGS) s) (\<lambda>(s, _). Inr (s, address))
    else Inr (s, address))"

definition mem_alloc_page :: "mem_env \<Rightarrow> nat \<Rightarrow> nat \<Rightarrow> bool \<Rightarrow> mem_state \<Rightarrow> (mem_state \<times> vaddr) res" where
  "mem_alloc_page E n section phys_aligned s =
    bindR (alloc_ppages E (as_colors (cpu_as E)) n phys_aligned s) (\<lambda>(s, pages).
    if num_pages pages = n
    then mem_alloc_map E (cpu_as E) section (Some pages) INVALID_VA n PTE_HYP_FLAGS s
    else Inr (s, INVALID_VA))"

text \<open>
  \<open>copy_leaf\<close> descends to the page a virtual address is mapped by; following an invalid entry
  yields \<open>NULL\<close>, which the loop dereferences.
\<close>

function copy_leaf :: "addr_space \<Rightarrow> vaddr \<Rightarrow> mem_state \<Rightarrow> nat \<Rightarrow> pte_ptr \<Rightarrow> (pte_ptr \<times> nat) res" where
  "copy_leaf a va s lvl pte =
    (if lvl \<le> lvls (pt_dscr (as_pt a)) then
       bindR (ld_pte s pte) (\<lambda>e.
       if \<not> pte_page e then
         bindR (pt_get_pte (pt_words s) (as_pt a) (lvl + 1) va) (\<lambda>pte. copy_leaf a va s (lvl + 1) pte)
       else Inr (pte, lvl))
     else Inl Out_of_bounds)"
  by pat_completeness auto
termination by (relation "measure (\<lambda>(a, va, s, lvl, pte). Suc (lvls (pt_dscr (as_pt a))) - lvl)") auto

declare copy_leaf.simps [simp del]

definition copy_round :: "mem_env \<Rightarrow> addr_space \<Rightarrow> addr_space \<Rightarrow> vaddr \<Rightarrow> vaddr \<Rightarrow> nat \<Rightarrow> u64 \<Rightarrow> mem_state \<Rightarrow>
    (vaddr \<times> vaddr \<times> nat \<times> u64 \<times> mem_state) res" where
  "copy_round E ass asd vas vad count to_map s =
    bindR (pt_get_pte (pt_words s) (as_pt ass) 0 vas) (\<lambda>pte.
    bindR (copy_leaf ass vas s 0 pte) (\<lambda>(pte, lvl).
    bindR (pt_lvlsize (as_pt ass) lvl) (\<lambda>lvl_size.
    let sz = (if to_map < of_nat lvl_size then to_map else of_nat lvl_size);
        npages = unat (NUM_PAGES sz);
        pa = pte_addr (pt_words s pte) + (vas - ALIGN_FLOOR vas (of_nat lvl_size))
    in bindR (mem_map E asd vad (Some (mem_ppages_get pa npages)) npages PTE_HYP_FLAGS s) (\<lambda>(s, _).
       Inr (vas + sz, vad + sz, count + npages, to_map - sz, s)))))"

partial_function (option) copy_loop :: "mem_env \<Rightarrow> addr_space \<Rightarrow> addr_space \<Rightarrow> nat \<Rightarrow> vaddr \<Rightarrow> vaddr \<Rightarrow> nat \<Rightarrow> u64 \<Rightarrow>
    mem_state \<Rightarrow> mem_state res option" where
  [code]: "copy_loop E ass asd n vas vad count to_map s =
    (if count < n then
       (case copy_round E ass asd vas vad count to_map s of
          Inl f \<Rightarrow> Some (Inl f)
        | Inr (vas, vad, count, to_map, s) \<Rightarrow> copy_loop E ass asd n vas vad count to_map s)
     else Some (Inr s))"

definition mem_map_cpy :: "mem_env \<Rightarrow> addr_space \<Rightarrow> addr_space \<Rightarrow> vaddr \<Rightarrow> vaddr \<Rightarrow> nat \<Rightarrow> mem_state \<Rightarrow>
    (mem_state \<times> vaddr) res" where
  "mem_map_cpy E ass asd vas vad n s =
    bindR (mem_alloc_vpage E asd SEC_HYP_GLOBAL vad n s) (\<lambda>(s, vad).
    bindR (ended (copy_loop E ass asd n vas vad 0 (of_nat n * PAGE_SIZE) s)) (\<lambda>s. Inr (s, vad)))"

section \<open>Creation\<close>

text \<open>
  \<open>as_init\<close> gets a root table or allocates one and clears it. The code reaches an allocated root
  through the hypervisor's address space; \<open>pt_root\<close> is the physical address behind this mapping.
\<close>

definition new_root :: "mem_env \<Rightarrow> as_type \<Rightarrow> page_table_dscr \<Rightarrow> mem_state \<Rightarrow> (mem_state \<times> pte_ptr) res" where
  "new_root E t dscr s =
    bindR (pt_size \<lparr>pt_root = 0, pt_dscr = dscr\<rparr> 0) (\<lambda>sz.
    let n = unat (NUM_PAGES (of_nat sz)) in
    bindR (mem_alloc_page E n (if t = AS_VM then SEC_HYP_VM else SEC_HYP_PRIVATE) True s) (\<lambda>(s, va).
    bindR (mem_translate (pt_words s) (as_pt (cpu_as E)) va) (\<lambda>pa.
    case pa of None \<Rightarrow> Inl Null_deref
    | Some pa \<Rightarrow> Inr (s\<lparr>pt_words := fold (\<lambda>k m. m(pte_at pa k := 0)) [0..<n * 512] (pt_words s)\<rparr>, pa))))"

definition as_init :: "mem_env \<Rightarrow> (paddr \<times> u64) list \<Rightarrow> as_type \<Rightarrow> nat \<Rightarrow> pte_ptr option \<Rightarrow> colormap \<Rightarrow> mem_state \<Rightarrow>
    (mem_state \<times> addr_space) res" where
  "as_init E regions t asid root_pt colors s =
    (let dscr = (if t = AS_VM then sv39x4_pt_dscr else sv39_pt_dscr) in
     bindR (case root_pt of Some r \<Rightarrow> Inr (s, r) | None \<Rightarrow> new_root E t dscr s) (\<lambda>(s, r).
     let a = \<lparr>as_pt = \<lparr>pt_root = r, pt_dscr = dscr\<rparr>, as_typ = t, as_colors = colors, as_id = asid\<rparr> in
     bindR (if t = AS_HYP then as_map_physical_identity regions (as_pt a) (pt_words s) else Inr (pt_words s)) (\<lambda>m.
     Inr (s\<lparr>pt_words := m\<rparr>, a))))"

end
