(* ===== verification/Pt_Tree.thy ===== *)
theory Pt_Tree
  imports Addr_Space
begin

text \<open>
  What a page table denotes. The tree of tables under a root, its well-formedness (disjoint tables,
  no entry at address 0), the mapping from virtual to physical addresses it denotes, which is what
  \<open>mem_translate\<close> computes, and the effect on it of the two kinds of writes the hypervisor makes:
  writing an entry that is no table, and hanging a new table into an entry that was none.
\<close>

section \<open>Geometry\<close>

definition good_pt :: "page_table \<Rightarrow> bool" where
  "good_pt pt \<longleftrightarrow> pt_dscr pt = sv39_pt_dscr \<or> pt_dscr pt = sv39x4_pt_dscr"

text \<open>Number of index bits and page bits of a level.\<close>

definition ibits :: "page_table \<Rightarrow> nat \<Rightarrow> nat" where
  "ibits pt l = (if l = 0 \<and> pt_dscr pt = sv39x4_pt_dscr then 11 else 9)"

definition obits :: "nat \<Rightarrow> nat" where
  "obits l = 30 - 9 * l"

abbreviation nent :: "page_table \<Rightarrow> nat \<Rightarrow> nat" where "nent pt l \<equiv> 2 ^ ibits pt l"

definition vidx :: "page_table \<Rightarrow> vaddr \<Rightarrow> nat \<Rightarrow> nat" where
  "vidx pt va l = unat va div 2 ^ obits l mod nent pt l"

lemma less_3_cases: "(l::nat) < 3 \<Longrightarrow> l = 0 \<or> l = 1 \<or> l = 2"
  by auto

lemma dscr_differ: "sv39_pt_dscr \<noteq> sv39x4_pt_dscr"
  by (simp add: sv39_pt_dscr_def sv39x4_pt_dscr_def)

lemma geometry:
  assumes "good_pt pt"
  shows "lvls (pt_dscr pt) = 3"
    and "l < 3 \<Longrightarrow> pt_nentries pt l = Inr (nent pt l)"
    and "l < 3 \<Longrightarrow> pt_lvlsize pt l = Inr (2 ^ obits l)"
    and "l < 3 \<Longrightarrow> pt_size pt l = Inr (nent pt l * 8)"
    and "l < 3 \<Longrightarrow> pt_lvl_terminal pt l = Inr True"
proof -
  show "lvls (pt_dscr pt) = 3" using assms by (auto simp: good_pt_def sv39_pt_dscr_def sv39x4_pt_dscr_def)
  show n: "pt_nentries pt l = Inr (nent pt l)" if "l < 3"
    using less_3_cases [OF that] assms dscr_differ
    by (elim disjE) (auto simp: good_pt_def pt_nentries_def sv39_pt_dscr_def sv39x4_pt_dscr_def ibits_def rd_def)
  show "pt_lvlsize pt l = Inr (2 ^ obits l)" if "l < 3"
    using less_3_cases [OF that] assms
    by (elim disjE) (auto simp: good_pt_def pt_lvlsize_def sv39_pt_dscr_def sv39x4_pt_dscr_def obits_def rd_def)
  show "pt_size pt l = Inr (nent pt l * 8)" if "l < 3" by (simp add: pt_size_def n [OF that])
  show "pt_lvl_terminal pt l = Inr True" if "l < 3"
    using less_3_cases [OF that] assms
    by (elim disjE) (auto simp: good_pt_def pt_lvl_terminal_def sv39_pt_dscr_def sv39x4_pt_dscr_def rd_def)
qed

lemma ibits_le: "ibits pt l \<le> 11"
  by (simp add: ibits_def)

lemma nent_le: "nent pt l \<le> 2048"
proof -
  have "(2::nat) ^ ibits pt l \<le> 2 ^ 11" using ibits_le [of pt l] by (intro power_increasing) simp_all
  then show ?thesis by simp
qed

lemma nent_pos [simp]: "1 \<le> l \<Longrightarrow> nent pt l = 512"
  by (simp add: ibits_def)

lemma nat_mask: "of_nat (2 ^ n) - 1 = (mask n :: u64)"
  by (simp add: mask_eq_exp_minus_1)

lemma unat_and_mask: "unat (w AND mask n :: u64) = unat w mod 2 ^ n"
  by (simp only: take_bit_eq_mask [symmetric] unsigned_take_bit_eq) (simp add: take_bit_eq_mod)

lemma index_by_va:
  assumes "good_pt pt" "l < 3"
  shows "pt_getpteindex_by_va pt va l = Inr (vidx pt va l)"
proof -
  have "rd (lvl_off (pt_dscr pt)) l = Inr (obits l)"
    using less_3_cases [OF assms(2)] assms(1)
    by (elim disjE) (auto simp: good_pt_def sv39_pt_dscr_def sv39x4_pt_dscr_def obits_def rd_def)
  moreover have "unat (drop_bit k va) = unat va div 2 ^ k" for k
    unfolding unat_drop_bit_eq by (rule drop_bit_eq_div)
  ultimately show ?thesis
    using geometry(2) [OF assms]
    by (simp add: pt_getpteindex_by_va_def vidx_def nat_mask unat_and_mask del: of_nat_power)
qed

lemma vidx_less: "vidx pt va l < nent pt l"
  by (simp add: vidx_def)

section \<open>Entries in tables\<close>

lemma unat_8_times: "i < 2 ^ 61 \<Longrightarrow> unat (8 * of_nat i :: u64) = 8 * i"
  by (simp add: unat_word_ariths)

lemma pte_at_inj:
  assumes "i < 2048" "j < 2048" "pte_at b i = pte_at b j"
  shows "i = j"
proof -
  from assms(3) have "(8 * of_nat i :: u64) = 8 * of_nat j" by (simp add: pte_at_def)
  then have "unat (8 * of_nat i :: u64) = unat (8 * of_nat j :: u64)" by simp
  moreover have "unat (8 * of_nat i :: u64) = 8 * i" "unat (8 * of_nat j :: u64) = 8 * j"
    using assms(1,2) by (simp_all add: unat_8_times)
  ultimately show ?thesis by linarith
qed

lemma next_pte_at: "next_pte (pte_at b i) = pte_at b (i + 1)"
  by (simp add: next_pte_def pte_at_def algebra_simps)

lemma pte_at_aligned:
  assumes "b AND mask (k + 3) = 0" "i < 2 ^ k" "k + 3 < 64"
  shows "pte_at b i AND mask (k + 3) = 8 * of_nat i" "pte_at b i AND NOT (mask (k + 3)) = b"
proof -
  have "(2::nat) ^ k * 8 = 2 ^ (k + 3)" by (simp add: power_add)
  then have lt: "8 * i < 2 ^ (k + 3)" using assms(2) by simp
  also have "(2::nat) ^ (k + 3) \<le> 2 ^ 63" using assms(3) by (intro power_increasing) simp_all
  finally have i61: "i < 2 ^ 61" by simp
  have "unat (8 * of_nat i AND mask (k + 3) :: u64) = unat (8 * of_nat i :: u64)"
    unfolding unat_and_mask unat_8_times [OF i61] using lt by simp
  then have low: "(8 * of_nat i AND mask (k + 3) :: u64) = 8 * of_nat i" by (simp add: word_unat_eq_iff)
  have z: "b AND 8 * of_nat i = 0"
  proof -
    have "b AND 8 * of_nat i = b AND (mask (k + 3) AND 8 * of_nat i)" using low by (simp add: ac_simps)
    also have "\<dots> = 0" using assms(1) by (simp flip: and.assoc)
    finally show ?thesis .
  qed
  then have p: "pte_at b i = b OR 8 * of_nat i" unfolding pte_at_def by (rule disjunctive_add_eq_or)
  show "pte_at b i AND mask (k + 3) = 8 * of_nat i"
    unfolding p bit.conj_disj_distrib2 using assms(1) low by simp
  show "pte_at b i AND NOT (mask (k + 3)) = b"
  proof -
    have "\<not> (bit b j \<and> j < k + 3)" for j
    proof
      assume "bit b j \<and> j < k + 3"
      then have "bit (b AND mask (k + 3)) j" using bit_imp_le_length [of b j] by (simp add: bit_and_iff bit_mask_iff)
      then show False by (simp add: assms(1))
    qed
    then have "b AND NOT (mask (k + 3)) = b"
      by (auto intro!: bit_word_eqI simp: bit_and_iff bit_not_iff bit_mask_iff)
    moreover have "8 * of_nat i AND NOT (mask (k + 3)) = (0 :: u64)"
      by (metis (no_types) low and.assoc bit.conj_cancel_right bit.conj_zero_right)
    ultimately show ?thesis unfolding p bit.conj_disj_distrib2 by simp
  qed
qed

section \<open>The tree of tables\<close>

text \<open>
  The table of level \<open>l\<close> on the way of an address, if the entries above it are tables; the entry of
  the address in it.
\<close>

fun tbl :: "pt_mem \<Rightarrow> page_table \<Rightarrow> vaddr \<Rightarrow> nat \<Rightarrow> pte_ptr option" where
  "tbl m pt va 0 = Some (pt_root pt)"
| "tbl m pt va (Suc l) =
    (case tbl m pt va l of None \<Rightarrow> None
     | Some b \<Rightarrow> let e = m (pte_at b (vidx pt va l)) in if pte_table e then Some (pte_addr e) else None)"

declare tbl.simps(2) [simp del]

lemma tbl_Suc_None: "tbl m pt va l = None \<Longrightarrow> tbl m pt va (Suc l) = None"
  by (simp add: tbl.simps(2))

lemma tbl_Suc_Some: "tbl m pt va l = Some b \<Longrightarrow> tbl m pt va (Suc l) =
    (if pte_table (m (pte_at b (vidx pt va l))) then Some (pte_addr (m (pte_at b (vidx pt va l)))) else None)"
  by (simp add: Let_def tbl.simps(2))

definition slot :: "pt_mem \<Rightarrow> page_table \<Rightarrow> vaddr \<Rightarrow> nat \<Rightarrow> pte_ptr option" where
  "slot m pt va l = map_option (\<lambda>b. pte_at b (vidx pt va l)) (tbl m pt va l)"

text \<open>Two addresses that share the table of level \<open>l\<close>, and its entry.\<close>

definition same_tbl :: "page_table \<Rightarrow> vaddr \<Rightarrow> vaddr \<Rightarrow> nat \<Rightarrow> bool" where
  "same_tbl pt va va' l \<longleftrightarrow> (\<forall>k < l. vidx pt va k = vidx pt va' k)"

abbreviation same_entry :: "page_table \<Rightarrow> vaddr \<Rightarrow> vaddr \<Rightarrow> nat \<Rightarrow> bool" where
  "same_entry pt va va' l \<equiv> same_tbl pt va va' (Suc l)"

lemma tbl_same: "same_tbl pt va va' l \<Longrightarrow> tbl m pt va l = tbl m pt va' l"
  by (induction l) (auto simp: same_tbl_def tbl.simps(2) split: option.splits)

lemma tbl_upto: "tbl m pt va l = Some b \<Longrightarrow> k \<le> l \<Longrightarrow> \<exists>c. tbl m pt va k = Some c"
  by (induction l arbitrary: b) (auto simp: le_Suc_eq tbl.simps(2) split: option.splits)

text \<open>
  A well-formed tree: tables are disjoint, entries are not at address 0, the root is aligned to its
  size, and the last level holds no tables.
\<close>

definition wf_tree :: "pt_mem \<Rightarrow> page_table \<Rightarrow> bool" where
  "wf_tree m pt \<longleftrightarrow> good_pt pt \<and> pt_root pt AND mask (ibits pt 0 + 3) = 0
    \<and> (\<forall>va l b i. l < 3 \<longrightarrow> tbl m pt va l = Some b \<longrightarrow> i < nent pt l \<longrightarrow> pte_at b i \<noteq> 0)
    \<and> (\<forall>va l b i va' l' b' i'. l < 3 \<longrightarrow> l' < 3 \<longrightarrow> tbl m pt va l = Some b \<longrightarrow> tbl m pt va' l' = Some b' \<longrightarrow>
        i < nent pt l \<longrightarrow> i' < nent pt l' \<longrightarrow> pte_at b i = pte_at b' i' \<longrightarrow> l = l' \<and> b = b' \<and> same_tbl pt va va' l)
    \<and> (\<forall>va. tbl m pt va 3 = None)"

lemma wf_treeD:
  assumes "wf_tree m pt"
  shows "good_pt pt" "pt_root pt AND mask (ibits pt 0 + 3) = 0"
    "l < 3 \<Longrightarrow> tbl m pt va l = Some b \<Longrightarrow> i < nent pt l \<Longrightarrow> pte_at b i \<noteq> 0"
    "tbl m pt va 3 = None"
  using assms by (simp_all add: wf_tree_def)

lemma wf_tree_disjoint:
  assumes "wf_tree m pt" "l < 3" "l' < 3" "tbl m pt va l = Some b" "tbl m pt va' l' = Some b'"
    "i < nent pt l" "i' < nent pt l'" "pte_at b i = pte_at b' i'"
  shows "l = l' \<and> b = b' \<and> same_tbl pt va va' l \<and> i = i'"
proof -
  from assms have "l = l' \<and> b = b' \<and> same_tbl pt va va' l" unfolding wf_tree_def by blast
  moreover from this assms have "i = i'"
    using pte_at_inj [of i i' b] nent_le [of pt l] nent_le [of pt l'] by simp
  ultimately show ?thesis by blast
qed

lemma slot_disjoint:
  assumes "wf_tree m pt" "l < 3" "l' < 3" "slot m pt va l = Some p" "slot m pt va' l' = Some p"
  shows "l = l' \<and> same_entry pt va va' l"
proof -
  from assms(4,5) obtain b b' where b: "tbl m pt va l = Some b" "tbl m pt va' l' = Some b'"
    "p = pte_at b (vidx pt va l)" "p = pte_at b' (vidx pt va' l')" by (auto simp: slot_def)
  then have "pte_at b (vidx pt va l) = pte_at b' (vidx pt va' l')" by simp
  from wf_tree_disjoint [OF assms(1-3) b(1,2) vidx_less vidx_less this] show ?thesis
    by (auto simp: same_tbl_def less_Suc_eq)
qed

lemma slot_nonzero: "wf_tree m pt \<Longrightarrow> l < 3 \<Longrightarrow> slot m pt va l = Some p \<Longrightarrow> p \<noteq> 0"
  using wf_treeD(3) vidx_less by (auto simp: slot_def)

lemma tbl_base_aligned:
  assumes "wf_tree m pt" "l < 3" "tbl m pt va l = Some b"
  shows "b AND mask (ibits pt l + 3) = 0"
proof (cases l)
  case 0
  then show ?thesis using assms(3) wf_treeD(2) [OF assms(1)] by simp
next
  case (Suc k)
  have "(PTE_ADDR_MSK AND mask 12 :: u64) = 0"
    by (simp add: PTE_ADDR_MSK_def mask_eq_exp_minus_1)
  then have "pte_addr e AND mask 12 = 0" for e by (simp add: pte_addr_def and.assoc)
  moreover have "ibits pt l + 3 = 12" using Suc by (simp add: ibits_def)
  ultimately show ?thesis using assms(3) Suc by (auto split: option.splits if_splits simp: Let_def tbl.simps(2))
qed

lemma table_valid: "pte_table e \<Longrightarrow> pte_valid e"
proof -
  assume "pte_table e"
  then have "(e AND 0xf) AND 1 = 1" by (simp add: pte_table_def PTE_VALID_def)
  moreover have "(e AND 0xf) AND 1 = e AND 1" by (simp add: and.assoc)
  ultimately show "pte_valid e" by (simp add: pte_valid_def PTE_VALID_def)
qed

lemma walk_slot:
  assumes "good_pt pt" "l < 3" "i \<le> l" "slot m pt va l = Some p" "slot m pt va i = Some q"
  shows "pt_walk m pt l va i q = Inr p"
  using assms(3,5)
proof (induction "l - i" arbitrary: i q)
  case 0
  then show ?case using assms(4) by (subst pt_walk.simps) simp
next
  case (Suc d)
  then have il: "i < l" by simp
  from assms(4) tbl_upto [of m pt va l _ "Suc i"] il obtain c where c: "tbl m pt va (Suc i) = Some c"
    by (auto simp: slot_def)
  with Suc.prems(2) have e: "pte_table (m q)" "c = pte_addr (m q)"
    by (auto simp: slot_def tbl.simps(2) Let_def split: if_splits)
  have "slot m pt va (Suc i) = Some (pte_at (pte_addr (m q)) (vidx pt va (Suc i)))" using c e by (simp add: slot_def)
  then have "pt_walk m pt l va (Suc i) (pte_at (pte_addr (m q)) (vidx pt va (Suc i))) = Inr p"
    using Suc.hyps(2) il by (intro Suc.hyps(1)) auto
  with il e(1) index_by_va [OF assms(1), of "Suc i" va] assms(2) show ?case
    by (subst pt_walk.simps) (simp add: table_valid)
qed

lemma get_pte_slot:
  assumes "good_pt pt" "l < 3" "slot m pt va l = Some p"
  shows "pt_get_pte m pt l va = Inr p"
  using walk_slot [OF assms(1,2) _ assms(3), of 0] index_by_va [OF assms(1), of 0 va]
  by (simp add: pt_get_pte_def slot_def)

section \<open>Writing an entry\<close>

text \<open>
  Overwriting the entry of \<open>va\<close> at level \<open>l\<close> with something that is no table cuts off the tables
  below it and changes nothing else.
\<close>

lemma tbl_write:
  assumes "wf_tree m pt" "l < 3" "slot m pt va l = Some p" "\<not> pte_table e" "l' \<le> 3"
  shows "tbl (m(p := e)) pt va' l' = (if l < l' \<and> same_entry pt va va' l then None else tbl m pt va' l')"
  using assms(5)
proof (induction l')
  case 0
  then show ?case by simp
next
  case (Suc k)
  have ih: "tbl (m(p := e)) pt va' k = (if l < k \<and> same_entry pt va va' l then None else tbl m pt va' k)"
    by (rule Suc.IH) (use Suc.prems in simp)
  show ?case
  proof (cases "tbl m pt va' k")
    case None
    then have "tbl (m(p := e)) pt va' k = None" using ih by (simp only: if_cancel)
    from tbl_Suc_None [OF this] tbl_Suc_None [OF None] show ?thesis by (simp only: if_cancel)
  next
    case (Some b)
    let ?q = "pte_at b (vidx pt va' k)"
    have q: "slot m pt va' k = Some ?q" using Some by (simp add: slot_def)
    have top: "l = k \<and> same_entry pt va va' l \<Longrightarrow> ?q = p"
    proof -
      assume a: "l = k \<and> same_entry pt va va' l"
      then have "tbl m pt va l = tbl m pt va' l" by (intro tbl_same) (simp add: same_tbl_def)
      moreover have "vidx pt va l = vidx pt va' l" using a by (simp add: same_tbl_def)
      ultimately show "?q = p" using a Some assms(3) by (auto simp: slot_def)
    qed
    have top': "?q = p \<Longrightarrow> l = k \<and> same_entry pt va va' l"
      using slot_disjoint [OF assms(1,2) _ assms(3), of k va'] q Suc.prems by auto
    show ?thesis
    proof (cases "l < k \<and> same_entry pt va va' l")
      case True
      with ih have "tbl (m(p := e)) pt va' k = None" by simp
      moreover have "l < Suc k \<and> same_entry pt va va' l" using True by simp
      ultimately show ?thesis by (simp only: tbl_Suc_None if_True simp_thms)
    next
      case False
      with ih Some have "tbl (m(p := e)) pt va' k = Some b" by simp
      note s = tbl_Suc_Some [OF this] tbl_Suc_Some [OF Some]
      show ?thesis
      proof (cases "?q = p")
        case True
        then have "l < Suc k \<and> same_entry pt va va' l" using top' by (metis lessI)
        moreover have "(m(p := e)) ?q = e" using True by simp
        ultimately show ?thesis using assms(4) unfolding s(1) by (simp only: if_True if_False simp_thms)
      next
        case nq: False
        then have "\<not> (l < Suc k \<and> same_entry pt va va' l)" using top False by (auto simp: less_Suc_eq)
        moreover have "(m(p := e)) ?q = m ?q" using nq by simp
        ultimately show ?thesis unfolding s by (simp only: if_False simp_thms)
      qed
    qed
  qed
qed

lemma tbl_write_sub:
  assumes "wf_tree m pt" "l < 3" "slot m pt va l = Some p" "\<not> pte_table e" "l' \<le> 3"
    "tbl (m(p := e)) pt va' l' = Some b"
  shows "tbl m pt va' l' = Some b"
proof -
  have "(if l < l' \<and> same_entry pt va va' l then None else tbl m pt va' l') = Some b"
    using tbl_write [OF assms(1-5), of va'] assms(6) by simp
  then show ?thesis by (simp split: if_splits)
qed

lemma wf_write:
  assumes "wf_tree m pt" "l < 3" "slot m pt va l = Some p" "\<not> pte_table e"
  shows "wf_tree (m(p := e)) pt"
  unfolding wf_tree_def
proof (intro conjI allI impI)
  note sub = tbl_write_sub [OF assms(1-4)]
  show "good_pt pt" "pt_root pt AND mask (ibits pt 0 + 3) = 0" using wf_treeD(1,2) [OF assms(1)] .
  show "tbl (m(p := e)) pt va' 3 = None" for va' using sub [of 3 va'] wf_treeD(4) [OF assms(1), of va'] by force
  show "pte_at b i \<noteq> 0" if "l' < 3" "tbl (m(p := e)) pt va' l' = Some b" "i < nent pt l'" for va' l' b i
    using sub [of l' va' b] wf_treeD(3) [OF assms(1) that(1) _ that(3)] that by simp
  fix va1 l1 b1 i1 va2 l2 b2 i2
  assume a: "l1 < 3" "l2 < 3" "tbl (m(p := e)) pt va1 l1 = Some b1" "tbl (m(p := e)) pt va2 l2 = Some b2"
    "i1 < nent pt l1" "i2 < nent pt l2" "pte_at b1 i1 = pte_at b2 i2"
  have "tbl m pt va1 l1 = Some b1" "tbl m pt va2 l2 = Some b2" using sub a by simp_all
  from wf_tree_disjoint [OF assms(1) a(1,2) this a(5-7)]
  show "l1 = l2" "b1 = b2" "same_tbl pt va1 va2 l1" by blast+
qed

lemma slot_write:
  assumes "wf_tree m pt" "l < 3" "slot m pt va l = Some p" "\<not> pte_table e" "l' < 3"
  shows "slot (m(p := e)) pt va' l' = (if l < l' \<and> same_entry pt va va' l then None else slot m pt va' l')"
  using tbl_write [OF assms(1-4), of l' va'] assms(5) by (simp add: slot_def)

section \<open>The mapping a tree denotes\<close>

definition leaf :: "pt_mem \<Rightarrow> page_table \<Rightarrow> vaddr \<Rightarrow> nat \<times> pte_ptr" where
  "leaf m pt va =
    (case tbl m pt va 2 of Some b \<Rightarrow> (2, pte_at b (vidx pt va 2))
     | None \<Rightarrow> (case tbl m pt va 1 of Some b \<Rightarrow> (1, pte_at b (vidx pt va 1))
       | None \<Rightarrow> (0, pte_at (pt_root pt) (vidx pt va 0))))"

text \<open>What an entry of level \<open>l\<close> that is no table says about an address.\<close>

definition maps_to :: "pte \<Rightarrow> nat \<Rightarrow> vaddr \<Rightarrow> paddr option" where
  "maps_to e l va =
    (if pte_valid e then Some ((pte_addr e AND NOT (mask (obits l))) OR (va AND mask (obits l))) else None)"

definition phys :: "pt_mem \<Rightarrow> page_table \<Rightarrow> vaddr \<Rightarrow> paddr option" where
  "phys m pt va = (case leaf m pt va of (l, p) \<Rightarrow> maps_to (m p) l va)"

definition is_leaf :: "pt_mem \<Rightarrow> page_table \<Rightarrow> vaddr \<Rightarrow> nat \<Rightarrow> pte_ptr \<Rightarrow> bool" where
  "is_leaf m pt va l p \<longleftrightarrow> l < 3 \<and> slot m pt va l = Some p \<and> \<not> pte_table (m p)"

lemma is_leaf_tbl:
  assumes "is_leaf m pt va l p" "l < k"
  shows "tbl m pt va k = None"
proof -
  obtain b where b: "tbl m pt va l = Some b" "p = pte_at b (vidx pt va l)" "\<not> pte_table (m p)"
    using assms(1) by (auto simp: is_leaf_def slot_def)
  have "tbl m pt va (Suc l) = None" using tbl_Suc_Some [OF b(1)] b(2,3) by simp
  then show ?thesis using tbl_upto [of m pt va k _ "Suc l"] assms(2) by (cases "tbl m pt va k") auto
qed

lemma leaf_eq: "is_leaf m pt va l p \<Longrightarrow> leaf m pt va = (l, p)"
proof -
  assume a: "is_leaf m pt va l p"
  then obtain b where b: "tbl m pt va l = Some b" "p = pte_at b (vidx pt va l)" "l < 3"
    by (auto simp: is_leaf_def slot_def)
  from less_3_cases [OF b(3)] show ?thesis
    using b is_leaf_tbl [OF a, of 1] is_leaf_tbl [OF a, of 2] by (elim disjE) (auto simp: leaf_def)
qed

lemma leaf_exists:
  assumes "wf_tree m pt"
  shows "\<exists>l p. is_leaf m pt va l p"
proof -
  have step: "is_leaf m pt va l (pte_at b (vidx pt va l)) \<or> (\<exists>c. tbl m pt va (Suc l) = Some c)"
    if "tbl m pt va l = Some b" "l < 3" for l b
    using that tbl_Suc_Some [OF that(1)] by (auto simp: is_leaf_def slot_def split: if_splits)
  show ?thesis
  proof (rule ccontr)
    assume n: "\<not> ?thesis"
    obtain b where b: "tbl m pt va (Suc 0) = Some b" using step [of 0] n by auto
    obtain c where c: "tbl m pt va (Suc (Suc 0)) = Some c" using step [OF b] n by auto
    obtain d where "tbl m pt va (Suc (Suc (Suc 0))) = Some d" using step [OF c] n by auto
    then show False using wf_treeD(4) [OF assms, of va] by (simp add: numeral_3_eq_3)
  qed
qed

lemma phys_leaf: "is_leaf m pt va l p \<Longrightarrow> phys m pt va = maps_to (m p) l va"
  by (simp add: phys_def leaf_eq)

lemma translate_loop_slot:
  assumes "wf_tree m pt" "is_leaf m pt va l p" "i \<le> l" "slot m pt va i = Some q"
  shows "translate_loop m pt va i q = Inr (p, l)"
  using assms(3,4)
proof (induction "l - i" arbitrary: i q)
  case 0
  then have "i = l" "q = p" "\<not> pte_table (m p)" "l < 3" using assms(2) by (auto simp: is_leaf_def)
  then show ?case using geometry(1) [OF wf_treeD(1) [OF assms(1)]] by (subst translate_loop.simps) simp
next
  case (Suc d)
  then have il: "i < l" "l < 3" using assms(2) by (simp_all add: is_leaf_def)
  from assms(2) obtain b where "tbl m pt va l = Some b" by (auto simp: is_leaf_def slot_def)
  with tbl_upto [OF this, of "Suc i"] il obtain c where c: "tbl m pt va (Suc i) = Some c" by auto
  with Suc.prems(2) have e: "pte_table (m q)" "c = pte_addr (m q)"
    by (auto simp: slot_def tbl.simps(2) Let_def split: if_splits)
  have "slot m pt va (Suc i) = Some (pte_at (pte_addr (m q)) (vidx pt va (Suc i)))" using c e by (simp add: slot_def)
  then have "translate_loop m pt va (Suc i) (pte_at (pte_addr (m q)) (vidx pt va (Suc i))) = Inr (p, l)"
    using Suc.hyps(2) il by (intro Suc.hyps(1)) auto
  with il e(1) index_by_va [OF wf_treeD(1) [OF assms(1)], of "Suc i" va] geometry(1) [OF wf_treeD(1) [OF assms(1)]]
  show ?case by (subst translate_loop.simps) (simp add: table_valid)
qed

text \<open>\<open>mem_translate\<close> computes the mapping the tree denotes.\<close>

lemma translate_phys:
  assumes "wf_tree m pt"
  shows "mem_translate m pt va = Inr (phys m pt va)"
proof -
  note g = wf_treeD(1) [OF assms]
  obtain l p where lf: "is_leaf m pt va l p" using leaf_exists [OF assms] by blast
  then have lp: "l < 3" "p \<noteq> 0" using slot_nonzero [OF assms] by (auto simp: is_leaf_def)
  have "translate_loop m pt va 0 (pte_at (pt_root pt) (vidx pt va 0)) = Inr (p, l)"
    by (rule translate_loop_slot [OF assms lf]) (simp_all add: slot_def)
  then show ?thesis
    using lp index_by_va [OF g, of 0 va] geometry(3) [OF g lp(1)] phys_leaf [OF lf]
    by (simp add: mem_translate_def maps_to_def Let_def nat_mask del: of_nat_power)
qed

lemma phys_write:
  assumes "wf_tree m pt" "l < 3" "slot m pt va l = Some p" "\<not> pte_table e"
  shows "phys (m(p := e)) pt va' = (if same_entry pt va va' l then maps_to e l va' else phys m pt va')"
proof (cases "same_entry pt va va' l")
  case True
  have "slot m pt va' l = Some p"
  proof -
    have "tbl m pt va l = tbl m pt va' l" by (rule tbl_same) (use True in \<open>simp add: same_tbl_def\<close>)
    moreover have "vidx pt va l = vidx pt va' l" using True by (simp add: same_tbl_def)
    ultimately show ?thesis using assms(3) by (simp add: slot_def)
  qed
  then have "is_leaf (m(p := e)) pt va' l p"
    using slot_write [OF assms(1-4,2), of va'] assms(2,4) by (simp add: is_leaf_def)
  from phys_leaf [OF this] True show ?thesis by simp
next
  case False
  obtain l' q where lf: "is_leaf m pt va' l' q" using leaf_exists [OF assms(1)] by blast
  then have "q \<noteq> p" using slot_disjoint [OF assms(1,2), of l' va p va'] assms(3) False by (auto simp: is_leaf_def)
  then have "is_leaf (m(p := e)) pt va' l' q"
    using lf slot_write [OF assms(1-4), of l' va'] False by (simp add: is_leaf_def)
  from phys_leaf [OF this] phys_leaf [OF lf] False \<open>q \<noteq> p\<close> show ?thesis by simp
qed

section \<open>Adding a table\<close>

text \<open>A block of memory that no table of the tree touches.\<close>

definition fresh_block :: "pt_mem \<Rightarrow> page_table \<Rightarrow> pte_ptr \<Rightarrow> bool" where
  "fresh_block m pt b \<longleftrightarrow> (\<forall>j < 512. pte_at b j \<noteq> 0)
    \<and> (\<forall>va l c i j. l < 3 \<longrightarrow> tbl m pt va l = Some c \<longrightarrow> i < nent pt l \<longrightarrow> j < 512 \<longrightarrow> pte_at b j \<noteq> pte_at c i)"

definition table_added :: "pt_mem \<Rightarrow> pte_ptr \<Rightarrow> pte_ptr \<Rightarrow> pt_mem \<Rightarrow> bool" where
  "table_added m p b m' \<longleftrightarrow> pte_table (m' p) \<and> pte_addr (m' p) = b
    \<and> (\<forall>j < 512. \<not> pte_table (m' (pte_at b j)))
    \<and> (\<forall>q. q \<noteq> p \<longrightarrow> (\<forall>j < 512. q \<noteq> pte_at b j) \<longrightarrow> m' q = m q)"

lemma tbl_added:
  assumes "wf_tree m pt" "l < 2" "slot m pt va l = Some p" "\<not> pte_table (m p)" "fresh_block m pt b"
    "table_added m p b m'" "l' \<le> 3"
  shows "tbl m' pt va' l' = (if same_entry pt va va' l \<and> l' = Suc l then Some b else tbl m pt va' l')"
  using assms(7)
proof (induction l')
  case 0
  then show ?case by simp
next
  case (Suc k)
  have ih: "tbl m' pt va' k = (if same_entry pt va va' l \<and> k = Suc l then Some b else tbl m pt va' k)"
    by (rule Suc.IH) (use Suc.prems in simp)
  have same: "tbl m pt va' l = tbl m pt va l" "vidx pt va' l = vidx pt va l" if "same_entry pt va va' l"
    using that tbl_same [of pt va va' l m] by (simp_all add: same_tbl_def)
  obtain c0 where c0: "tbl m pt va l = Some c0" "p = pte_at c0 (vidx pt va l)" using assms(3) by (auto simp: slot_def)
  have below: "tbl m pt va' (Suc l) = None" if "same_entry pt va va' l"
    using tbl_Suc_Some [of m pt va' l c0] same [OF that] c0 assms(4) by simp
  show ?case
  proof (cases "tbl m pt va' k")
    case None
    have nk: "\<not> (same_entry pt va va' l \<and> k = l)" using None same c0 by auto
    have "tbl m' pt va' (Suc k) = None"
    proof (cases "same_entry pt va va' l \<and> k = Suc l")
      case True
      then have "tbl m' pt va' k = Some b" using ih by simp
      moreover have "vidx pt va' k < 512" using vidx_less [of pt va' k] True by (simp add: ibits_def)
      ultimately show ?thesis using tbl_Suc_Some assms(6) by (simp add: table_added_def)
    next
      case False
      then have "tbl m' pt va' k = None" using ih None by simp
      then show ?thesis by (rule tbl_Suc_None)
    qed
    then show ?thesis using tbl_Suc_None [OF None] nk by auto
  next
    case (Some c)
    have nk: "\<not> (same_entry pt va va' l \<and> k = Suc l)" using Some below by auto
    have t': "tbl m' pt va' k = Some c" by (simp only: ih if_not_P [OF nk] Some)
    let ?q = "pte_at c (vidx pt va' k)"
    have qs: "slot m pt va' k = Some ?q" using Some by (simp add: slot_def)
    have k3: "k < 3" using Suc.prems by simp
    have iff: "?q = p \<longleftrightarrow> same_entry pt va va' l \<and> k = l"
      using slot_disjoint [OF assms(1) _ k3 assms(3), of va'] qs assms(2) same c0 Some by auto
    have nb: "\<forall>j < 512. ?q \<noteq> pte_at b j"
      using assms(5) k3 Some vidx_less [of pt va' k] by (fastforce simp: fresh_block_def)
    show ?thesis
    proof (cases "?q = p")
      case True
      then show ?thesis using tbl_Suc_Some [OF t'] iff assms(6) by (simp add: table_added_def)
    next
      case False
      then have "m' ?q = m ?q" using assms(6) nb by (simp add: table_added_def)
      then show ?thesis using tbl_Suc_Some [OF t'] tbl_Suc_Some [OF Some] iff False by auto
    qed
  qed
qed

lemma wf_added:
  assumes "wf_tree m pt" "l < 2" "slot m pt va l = Some p" "\<not> pte_table (m p)" "fresh_block m pt b"
    "table_added m p b m'"
  shows "wf_tree m' pt"
  unfolding wf_tree_def
proof (intro conjI allI impI)
  note t = tbl_added [OF assms]
  show "good_pt pt" "pt_root pt AND mask (ibits pt 0 + 3) = 0" using wf_treeD(1,2) [OF assms(1)] .
  show "tbl m' pt va' 3 = None" for va' using t [of 3 va'] wf_treeD(4) [OF assms(1), of va'] assms(2) by auto
  have cases: "tbl m pt va' l' = Some c \<or> same_entry pt va va' l \<and> l' = Suc l \<and> c = b \<and> nent pt l' = 512"
    if "l' < 3" "tbl m' pt va' l' = Some c" for va' l' c
    using t [of l' va'] that by (auto simp: ibits_def split: if_splits)
  show "pte_at c i \<noteq> 0" if "l' < 3" "tbl m' pt va' l' = Some c" "i < nent pt l'" for va' l' c i
    using cases [OF that(1,2)] wf_treeD(3) [OF assms(1) that(1) _ that(3)] assms(5) that(3)
    by (auto simp: fresh_block_def)
  fix va1 l1 b1 i1 va2 l2 b2 i2
  assume a: "l1 < 3" "l2 < 3" "tbl m' pt va1 l1 = Some b1" "tbl m' pt va2 l2 = Some b2"
    "i1 < nent pt l1" "i2 < nent pt l2" "pte_at b1 i1 = pte_at b2 i2"
  have fr: "pte_at b j \<noteq> pte_at c i" if "l' < 3" "tbl m pt va' l' = Some c" "i < nent pt l'" "j < 512" for va' l' c i j
    using assms(5) that unfolding fresh_block_def by blast
  have "l1 = l2 \<and> b1 = b2 \<and> same_tbl pt va1 va2 l1"
    using cases [OF a(1,3)] cases [OF a(2,4)]
  proof (elim disjE conjE, goal_cases)
    case 1
    then show ?case using wf_tree_disjoint [OF assms(1) a(1,2) 1 a(5-7)] by blast
  next
    case 2
    then show ?case using fr [OF a(1) _ a(5), of va1 b1 i2] a(6,7) by auto
  next
    case 3
    then show ?case using fr [OF a(2) _ a(6), of va2 b2 i1] a(5,7) by auto
  next
    case 4
    then show ?case by (simp add: same_tbl_def)
  qed
  then show "l1 = l2" "b1 = b2" "same_tbl pt va1 va2 l1" by blast+
qed

lemma phys_added:
  assumes "wf_tree m pt" "l < 2" "slot m pt va l = Some p" "\<not> pte_table (m p)" "fresh_block m pt b"
    "table_added m p b m'"
  shows "phys m' pt va' = (if same_entry pt va va' l then maps_to (m' (pte_at b (vidx pt va' (Suc l)))) (Suc l) va'
    else phys m pt va')"
proof (cases "same_entry pt va va' l")
  case True
  then have "tbl m' pt va' (Suc l) = Some b" using tbl_added [OF assms, of "Suc l" va'] assms(2) by simp
  moreover have "vidx pt va' (Suc l) < 512" using vidx_less [of pt va' "Suc l"] by (simp add: ibits_def)
  ultimately have "is_leaf m' pt va' (Suc l) (pte_at b (vidx pt va' (Suc l)))"
    using assms(2,6) by (simp add: is_leaf_def slot_def table_added_def)
  from phys_leaf [OF this] True show ?thesis by simp
next
  case False
  obtain l' q where lf: "is_leaf m pt va' l' q" using leaf_exists [OF assms(1)] by blast
  then obtain c where c: "tbl m pt va' l' = Some c" "q = pte_at c (vidx pt va' l')" "l' < 3"
    by (auto simp: is_leaf_def slot_def)
  have "q \<noteq> p" using slot_disjoint [OF assms(1) _ c(3) assms(3), of va'] assms(2) lf False by (auto simp: is_leaf_def)
  moreover have "\<forall>j < 512. q \<noteq> pte_at b j"
    using assms(5) c vidx_less [of pt va' l'] by (fastforce simp: fresh_block_def)
  ultimately have "m' q = m q" using assms(6) by (simp add: table_added_def)
  moreover have "tbl m' pt va' l' = Some c" using tbl_added [OF assms, of l' va'] c False by auto
  ultimately have "is_leaf m' pt va' l' q" using lf c by (simp add: is_leaf_def slot_def)
  from phys_leaf [OF this] phys_leaf [OF lf] False \<open>m' q = m q\<close> show ?thesis by simp
qed

end
