(* ===== verification/Pt_Alloc.thy ===== *)
theory Pt_Alloc
  imports Pt_Tree
begin

text \<open>
  Where the tables of a tree come from. Pages of the pools that hold no table of a tree, the entries
  the operations write, and \<open>mem_alloc_pt\<close>: it hangs a table of invalid entries, in a page that was
  free, into an entry that was none, and keeps the tree well-formed and outside the free pages.
\<close>

section \<open>Single pages from the pools\<close>

definition geo :: "page_pool \<Rightarrow> paddr \<times> nat" where
  "geo pool = (pool_base pool, pool_size pool)"

definition geo_ok :: "paddr \<times> nat \<Rightarrow> bool" where
  "geo_ok g \<longleftrightarrow> fst g AND mask 12 = 0 \<and> fst g \<noteq> 0 \<and> unat (fst g) + snd g * 4096 < 2 ^ 56"

definition geo_disjoint :: "paddr \<times> nat \<Rightarrow> paddr \<times> nat \<Rightarrow> bool" where
  "geo_disjoint g h \<longleftrightarrow> unat (fst g) + snd g * 4096 \<le> unat (fst h) \<or> unat (fst h) + snd h * 4096 \<le> unat (fst g)"

text \<open>Pools of aligned, non-zero, pairwise disjoint physical memory.\<close>

definition pools_ok :: "page_pool list \<Rightarrow> bool" where
  "pools_ok pools \<longleftrightarrow> (\<forall>pool \<in> set pools. pool_ok pool \<and> geo_ok (geo pool))
    \<and> sorted_wrt geo_disjoint (List.map geo pools)"

definition page_of :: "page_pool \<Rightarrow> nat \<Rightarrow> paddr" where
  "page_of pool k = pool_base pool + of_nat k * PAGE_SIZE"

definition free_page :: "page_pool list \<Rightarrow> paddr \<Rightarrow> bool" where
  "free_page pools a \<longleftrightarrow> (\<exists>pool \<in> set pools. \<exists>k < pool_size pool. a = page_of pool k \<and> \<not> used pool k)"

lemma free_page_Cons:
  "free_page (pool # pools) a \<longleftrightarrow> (\<exists>k < pool_size pool. a = page_of pool k \<and> \<not> used pool k) \<or> free_page pools a"
  by (auto simp: free_page_def)

lemma unat_page_of:
  assumes "geo_ok (geo pool)" "k < pool_size pool"
  shows "unat (page_of pool k) = unat (pool_base pool) + k * 4096"
proof -
  have "k * 4096 < pool_size pool * 4096" using assms(2) by simp
  then have lt: "unat (pool_base pool) + k * 4096 < 2 ^ 56" using assms(1) unfolding geo_ok_def geo_def by simp
  have k: "unat (of_nat k :: u64) = k" using lt by (intro unat_of_nat_u64) simp
  have ps: "unat PAGE_SIZE = 4096" by (simp add: PAGE_SIZE_def)
  have m: "unat (of_nat k * PAGE_SIZE :: u64) = k * 4096"
    using unat_mul_no_wrap [of "of_nat k" PAGE_SIZE] lt unfolding k ps by simp
  show ?thesis unfolding page_of_def using unat_add_no_wrap [of "pool_base pool" "of_nat k * PAGE_SIZE"] lt
    unfolding m by simp
qed

lemma page_of_inj:
  assumes "geo_ok (geo pool)" "k < pool_size pool" "j < pool_size pool" "page_of pool k = page_of pool j"
  shows "k = j"
proof -
  have "unat (pool_base pool) + k * 4096 = unat (pool_base pool) + j * 4096"
    unfolding unat_page_of [OF assms(1,2), symmetric] unat_page_of [OF assms(1,3), symmetric] assms(4) ..
  then show ?thesis by simp
qed

lemma page_of_props:
  assumes "geo_ok (geo pool)" "k < pool_size pool"
  shows "page_of pool k AND mask 12 = 0" "unat (page_of pool k) + 4096 < 2 ^ 56" "page_of pool k \<noteq> 0"
proof -
  have "Suc k * 4096 \<le> pool_size pool * 4096" using assms(2) by (intro mult_le_mono1) simp
  then show "unat (page_of pool k) + 4096 < 2 ^ 56"
    using unat_page_of [OF assms] assms(1) unfolding geo_ok_def geo_def by simp
  have "unat (pool_base pool) \<noteq> 0" using assms(1) by (simp add: geo_ok_def geo_def unat_eq_0)
  then show "page_of pool k \<noteq> 0" using unat_page_of [OF assms] by auto
  have "unat (pool_base pool AND mask 12) = 0" using assms(1) by (simp add: geo_ok_def geo_def)
  then have "unat (pool_base pool) mod 4096 = 0" by (simp add: unat_and_mask)
  then have "unat (page_of pool k) mod 4096 = 0" unfolding unat_page_of [OF assms] by simp
  then show "page_of pool k AND mask 12 = 0" by (simp add: word_unat_eq_iff unat_and_mask)
qed

lemma pages_apart:
  assumes "geo_ok (geo p)" "geo_ok (geo q)" "geo_disjoint (geo p) (geo q)" "k < pool_size p" "j < pool_size q"
  shows "page_of p k \<noteq> page_of q j"
proof
  assume eq: "page_of p k = page_of q j"
  have "Suc k * 4096 \<le> pool_size p * 4096" "Suc j * 4096 \<le> pool_size q * 4096"
    using assms(4,5) by (intro mult_le_mono1; simp)+
  moreover have "unat (pool_base p) + k * 4096 = unat (pool_base q) + j * 4096"
    unfolding unat_page_of [OF assms(1,4), symmetric] unat_page_of [OF assms(2,5), symmetric] eq ..
  ultimately show False using assms(3) unfolding geo_disjoint_def geo_def fst_conv snd_conv
    by (elim disjE; simp)
qed

text \<open>One page that some pool hands out: it was free, it is not any more, and nothing else changed.\<close>

lemma alloc_one:
  assumes "alloc_in_pools cn cs pools clrs 1 False pg0 = Inr (pools', pg)" "all_clrs cn clrs" "pools_ok pools"
    "num_pages pg0 = 0"
  shows "pools_ok pools' \<and> List.map geo pools' = List.map geo pools \<and> (if num_pages pg = 0 then free_page pools' = free_page pools
    else num_pages pg = 1 \<and> free_page pools (pp_base pg) \<and> (\<forall>a. free_page pools' a \<longleftrightarrow> free_page pools a \<and> a \<noteq> pp_base pg))"
  using assms
proof (induction pools arbitrary: pools' pg0)
  case Nil
  then show ?case by (simp add: free_page_def)
next
  case (Cons pool rest)
  have ok: "pool_ok pool" "geo_ok (geo pool)" "pools_ok rest" "\<forall>q \<in> set rest. geo_disjoint (geo pool) (geo q) \<and> geo_ok (geo q)"
    using Cons.prems(3) by (auto simp: pools_ok_def)
  obtain got pool1 pg1 where a: "pp_alloc pool 1 False pg0 = Inr (got, pool1, pg1)"
    using Cons.prems(1,2) by (cases "pp_alloc pool 1 False pg0") auto
  from pp_alloc_sound [OF a _ ok(1)] have s: "if got then \<exists>k. allocates pool 1 k pool1 pg1 else pool1 = pool \<and> num_pages pg1 = 0"
    by (auto split: if_splits)
  show ?case
  proof (cases got)
    case True
    then have r: "pools' = pool1 # rest" "pg = pg1" using Cons.prems(1,2) a by auto
    from s True obtain k where k: "allocates pool 1 k pool1 pg1" by auto
    then have kk: "k < pool_size pool" "\<not> used pool k" "\<forall>i. used pool1 i \<longleftrightarrow> used pool i \<or> i = k"
        "pool_base pool1 = pool_base pool" "pool_size pool1 = pool_size pool" "pp_base pg = page_of pool k"
        "num_pages pg = 1" "bm_len (pool_bitmap pool1) = bm_len (pool_bitmap pool)"
      using r(2) by (auto simp: allocates_def page_of_def)
    have g: "geo pool1 = geo pool" "page_of pool1 = page_of pool" using kk by (auto simp: geo_def page_of_def fun_eq_iff)
    have "pool_ok pool1" using ok(1) kk by (simp add: pool_ok_def)
    then have "pools_ok pools'" using Cons.prems(3) r(1) g by (auto simp: pools_ok_def)
    moreover have "\<not> free_page rest (page_of pool k)"
      using pages_apart [OF ok(2)] ok(4) kk(1) by (fastforce simp: free_page_def)
    then have "free_page pools' a \<longleftrightarrow> free_page (pool # rest) a \<and> a \<noteq> page_of pool k" for a
      using kk g r(1) page_of_inj [OF ok(2) _ kk(1)] unfolding r(1) free_page_Cons by auto
    moreover have "free_page (pool # rest) (page_of pool k)" using kk by (auto simp: free_page_Cons)
    ultimately show ?thesis using kk r(1) g by simp
  next
    case False
    then have p1: "pool1 = pool" "num_pages pg1 = 0" using s by simp_all
    with False obtain rest' where r: "alloc_in_pools cn cs rest clrs 1 False pg1 = Inr (rest', pg)" "pools' = pool # rest'"
      using Cons.prems(1,2) a by auto
    note ih = Cons.IH [OF r(1) Cons.prems(2) ok(3) p1(2)]
    have "set (List.map geo rest') = set (List.map geo rest)" using ih by simp
    then have "pools_ok pools'" using ih ok r(2) by (auto simp: pools_ok_def)
    moreover have "\<not> (\<exists>k < pool_size pool. pp_base pg = page_of pool k \<and> \<not> used pool k)" if "num_pages pg \<noteq> 0"
    proof
      assume "\<exists>k < pool_size pool. pp_base pg = page_of pool k \<and> \<not> used pool k"
      then obtain k where k: "k < pool_size pool" "pp_base pg = page_of pool k" by blast
      from ih that have "free_page rest (pp_base pg)" by simp
      then obtain q j where "q \<in> set rest" "j < pool_size q" "pp_base pg = page_of q j" by (auto simp: free_page_def)
      with pages_apart [OF ok(2), of q k j] ok(4) k show False by auto
    qed
    ultimately show ?thesis using ih r(2) by (auto simp: free_page_Cons fun_eq_iff split: if_splits)
  qed
qed

section \<open>Entries that the operations write\<close>

lemma addr_of_pte_set: "pte_addr (pte_set pa type flags) = pa AND PTE_ADDR_MSK"
proof (rule bit_word_eqI)
  fix k assume k: "k < LENGTH(64)"
  have m: "bit PTE_ADDR_MSK j \<longleftrightarrow> 12 \<le> j \<and> j < 56" if "j < 64" for j
    using that by (auto simp: PTE_ADDR_MSK_def bit_push_bit_iff bit_mask_iff)
  have f: "\<not> bit PTE_FLAGS_MSK j" if "10 \<le> j" for j
    using that by (simp add: PTE_FLAGS_MSK_def bit_mask_iff)
  show "bit (pte_addr (pte_set pa type flags)) k \<longleftrightarrow> bit (pa AND PTE_ADDR_MSK) k"
  proof (cases "12 \<le> k \<and> k < 56")
    case True
    then have "2 + (k - 2) = k" "10 \<le> k - 2" by arith+
    with True k m [of k] f [of "k - 2"] show ?thesis
      unfolding pte_addr_def pte_set_def bit_and_iff bit_or_iff bit_push_bit_iff bit_drop_bit_eq o_apply by simp
  next
    case False
    then have "\<not> bit PTE_ADDR_MSK k" using m [of k] k by simp
    then show ?thesis by (simp add: pte_addr_def bit_and_iff)
  qed
qed

lemma low_of_pte_set: "n \<le> 8 \<Longrightarrow> pte_set pa type flags AND mask n = (if type = PTE_TABLE then type else type OR flags) AND mask n"
proof (rule bit_word_eqI)
  fix k assume n: "n \<le> 8" and k: "k < LENGTH(64)"
  have "\<not> bit (pa AND PTE_ADDR_MSK) (k + 2)" if "k < n"
    using that n by (simp add: PTE_ADDR_MSK_def bit_and_iff bit_push_bit_iff)
  then show "bit (pte_set pa type flags AND mask n) k
      \<longleftrightarrow> bit ((if type = PTE_TABLE then type else type OR flags) AND mask n) k"
    using n by (auto simp: pte_set_def PTE_FLAGS_MSK_def bit_and_iff bit_or_iff bit_mask_iff bit_drop_bit_eq ac_simps)
qed

lemma nibble: "(0xf :: u64) = mask 4" and one: "(1 :: u64) = mask 1"
  by (simp_all add: mask_eq_exp_minus_1)

lemma table_pte_set: "pte_table (pte_set pa PTE_TABLE flags)"
  using low_of_pte_set [of 4 pa PTE_TABLE flags]
  by (simp add: pte_table_def PTE_TABLE_def PTE_VALID_def mask_eq_exp_minus_1)

text \<open>The types and flags that mark a page.\<close>

definition page_bits :: "u64 \<Rightarrow> u64 \<Rightarrow> bool" where
  "page_bits type flags \<longleftrightarrow> type = PTE_PAGE \<and> flags AND 0xf = 0"

lemma page_type: "pt_page_type pt l = PTE_PAGE"
  by (simp add: pt_page_type_def PTE_SUPERPAGE_def)

lemma page_pte_set:
  assumes "page_bits type flags"
  shows "pte_valid (pte_set pa type flags)" "\<not> pte_table (pte_set pa type flags)"
proof -
  have t: "type \<noteq> PTE_TABLE" "type AND 0xf = 0xf"
    using assms by (simp_all add: page_bits_def PTE_PAGE_def PTE_TABLE_def PTE_RWX_def PTE_VALID_def)
  then have "pte_set pa type flags AND 0xf = 0xf"
    using low_of_pte_set [of 4 pa type flags] assms
    by (simp add: page_bits_def bit.conj_disj_distrib2 mask_eq_exp_minus_1)
  then show "\<not> pte_table (pte_set pa type flags)" by (simp add: pte_table_def PTE_VALID_def)
  have "pte_set pa type flags AND 1 = (pte_set pa type flags AND 0xf) AND 1" by (simp add: and.assoc)
  also have "\<dots> = 1" unfolding \<open>pte_set pa type flags AND 0xf = 0xf\<close> by simp
  finally show "pte_valid (pte_set pa type flags)" by (simp add: pte_valid_def PTE_VALID_def)
qed

lemma rsw_low: "(e AND PTE_RSW_MSK) AND mask 4 = 0"
  by (rule bit_word_eqI) (auto simp: PTE_RSW_MSK_def bit_and_iff bit_push_bit_iff bit_mask_iff)

lemma default_pte: "\<not> pte_valid (PTE_INVALID OR (e AND PTE_RSW_MSK))" "\<not> pte_table (PTE_INVALID OR (e AND PTE_RSW_MSK))"
proof -
  have "(e AND PTE_RSW_MSK) AND 0xf = 0" using rsw_low [of e] by (simp add: mask_eq_exp_minus_1)
  then show "\<not> pte_table (PTE_INVALID OR (e AND PTE_RSW_MSK))" by (simp add: pte_table_def PTE_INVALID_def PTE_VALID_def)
  have "(e AND PTE_RSW_MSK) AND 1 = ((e AND PTE_RSW_MSK) AND 0xf) AND 1" by (simp add: and.assoc)
  also have "\<dots> = 0" unfolding \<open>(e AND PTE_RSW_MSK) AND 0xf = 0\<close> by simp
  finally show "\<not> pte_valid (PTE_INVALID OR (e AND PTE_RSW_MSK))" by (simp add: pte_valid_def PTE_INVALID_def PTE_VALID_def)
qed

lemma in_addr_mask: "pa AND mask 12 = 0 \<Longrightarrow> unat pa < 2 ^ 56 \<Longrightarrow> pa AND PTE_ADDR_MSK = pa"
proof (rule bit_word_eqI)
  fix k assume a: "pa AND mask 12 = 0" "unat pa < 2 ^ 56" and k: "k < LENGTH(64)"
  have lo: "\<not> (bit pa k \<and> k < 12)"
  proof
    assume "bit pa k \<and> k < 12"
    then have "bit (pa AND mask 12) k" using k by (simp add: bit_and_iff bit_mask_iff)
    then show False by (simp add: a(1))
  qed
  have "take_bit 56 pa = pa"
    using a(2) by (simp only: word_unat_eq_iff unsigned_take_bit_eq take_bit_nat_eq_self)
  then have "bit pa k \<Longrightarrow> k < 56" by (metis bit_take_bit_iff)
  with lo k show "bit (pa AND PTE_ADDR_MSK) k = bit pa k"
    by (auto simp: PTE_ADDR_MSK_def bit_and_iff bit_push_bit_iff bit_mask_iff)
qed

section \<open>Making a table\<close>

definition tree_owned :: "page_pool list \<Rightarrow> pt_mem \<Rightarrow> page_table \<Rightarrow> bool" where
  "tree_owned pools m pt \<longleftrightarrow> (\<forall>a. free_page pools a \<longrightarrow> fresh_block m pt a)"

lemma free_page_props:
  assumes "pools_ok pools" "free_page pools a"
  shows "a AND mask 12 = 0" "unat a + 4096 < 2 ^ 56" "a \<noteq> 0"
  using assms page_of_props by (auto simp: pools_ok_def free_page_def)

lemma pages_differ:
  assumes "a AND mask 12 = 0" "b AND mask 12 = 0" "a \<noteq> b" "i < 512" "j < 512"
  shows "pte_at a i \<noteq> pte_at b j"
proof
  assume "pte_at a i = pte_at b j"
  with pte_at_aligned(2) [of a 9 i] pte_at_aligned(2) [of b 9 j] assms show False by simp
qed

lemma tbl_write_above:
  assumes "wf_tree m pt" "l < 3" "slot m pt va l = Some p" "k \<le> l"
  shows "tbl (m(p := e)) pt va k = tbl m pt va k"
  using assms(4)
proof (induction k)
  case (Suc k)
  have ih: "tbl (m(p := e)) pt va k = tbl m pt va k" by (rule Suc.IH) (use Suc.prems in simp)
  show ?case
  proof (cases "tbl m pt va k")
    case None
    have "tbl (m(p := e)) pt va k = None" by (rule trans [OF ih None])
    from tbl_Suc_None [OF this] tbl_Suc_None [OF None] show ?thesis by (simp only:)
  next
    case (Some b)
    let ?q = "pte_at b (vidx pt va k)"
    have "?q \<noteq> p" using slot_disjoint [OF assms(1,2) _ assms(3), of k va] Some Suc.prems assms(2) by (auto simp: slot_def)
    then have "(m(p := e)) ?q = m ?q" by simp
    moreover have "tbl (m(p := e)) pt va k = Some b" by (rule trans [OF ih Some])
    ultimately show ?thesis using tbl_Suc_Some [of "m(p := e)" pt va k b] tbl_Suc_Some [OF Some] by (simp only:)
  qed
qed simp

lemma fill_entries:
  assumes "\<forall>j < 512. pte_at b j \<noteq> 0" "n \<le> 512"
  shows "foldR (\<lambda>i s. st_pte (pte_at b i) d s) [0..<n] s =
    Inr (s\<lparr>pt_words := (\<lambda>q. if \<exists>j < n. q = pte_at b j then d else pt_words s q)\<rparr>)"
  using assms(2)
proof (induction n)
  case (Suc n)
  have "(\<lambda>q. if \<exists>j < Suc n. q = pte_at b j then d else pt_words s q) =
      (\<lambda>q. if \<exists>j < n. q = pte_at b j then d else pt_words s q)(pte_at b n := d)"
    by (auto simp: fun_eq_iff less_Suc_eq)
  with Suc assms(1) show ?case by (simp add: foldR_upt_Suc st_pte_def del: upt_Suc)
qed simp

text \<open>What \<open>mem_alloc_pt\<close> needs of the address space and its state.\<close>

definition mem_ok :: "mem_env \<Rightarrow> addr_space \<Rightarrow> mem_state \<Rightarrow> bool" where
  "mem_ok E a s \<longleftrightarrow> wf_tree (pt_words s) (as_pt a) \<and> pools_ok (page_pools s)
    \<and> tree_owned (page_pools s) (pt_words s) (as_pt a) \<and> all_clrs (clr_num E) (as_colors a)"

lemma mem_okD:
  assumes "mem_ok E a s"
  shows "wf_tree (pt_words s) (as_pt a)" "pools_ok (page_pools s)" "good_pt (as_pt a)"
    "tree_owned (page_pools s) (pt_words s) (as_pt a)" "all_clrs (clr_num E) (as_colors a)"
  using assms wf_treeD(1) by (auto simp: mem_ok_def)

text \<open>The pools can serve that many more requests for one page.\<close>

fun can_alloc :: "mem_env \<Rightarrow> colormap \<Rightarrow> nat \<Rightarrow> mem_state \<Rightarrow> bool" where
  "can_alloc E clrs 0 s \<longleftrightarrow> True"
| "can_alloc E clrs (Suc k) s \<longleftrightarrow>
    (case alloc_ppages E clrs 1 False s of Inl _ \<Rightarrow> False
     | Inr (s', pg) \<Rightarrow> num_pages pg \<noteq> 0 \<and> can_alloc E clrs k s')"

lemma can_alloc_pools:
  "page_pools s = page_pools t \<Longrightarrow> can_alloc E clrs k s = can_alloc E clrs k t"
proof (induction k arbitrary: s t)
  case (Suc k)
  show ?case
  proof (cases "mem_alloc_ppages (clr_num E) (clr_size E) (page_pools t) clrs 1 False")
    case (Inr x)
    obtain pools pg where x: "x = (pools, pg)" by fastforce
    have "can_alloc E clrs k (s\<lparr>page_pools := pools\<rparr>) = can_alloc E clrs k (t\<lparr>page_pools := pools\<rparr>)"
      by (rule Suc.IH) simp
    with Inr x Suc.prems show ?thesis by (simp add: alloc_ppages_def)
  qed (simp add: alloc_ppages_def Suc.prems)
qed simp

lemma can_alloc_SucE:
  assumes "can_alloc E clrs (Suc k) s"
  obtains s' pg where "alloc_ppages E clrs 1 False s = Inr (s', pg)" "num_pages pg \<noteq> 0" "can_alloc E clrs k s'"
  using assms by (auto split: sum.splits)

lemma can_alloc_less: "can_alloc E clrs (Suc k) s \<Longrightarrow> can_alloc E clrs k s"
proof (induction k arbitrary: s)
  case (Suc k)
  obtain s' pg where a: "alloc_ppages E clrs 1 False s = Inr (s', pg)" "num_pages pg \<noteq> 0" "can_alloc E clrs (Suc k) s'"
    using Suc.prems by (rule can_alloc_SucE)
  from Suc.IH [OF a(3)] a(1,2) show ?case by simp
qed simp

lemma can_alloc_mono: "can_alloc E clrs k s \<Longrightarrow> j \<le> k \<Longrightarrow> can_alloc E clrs j s"
proof (induction k)
  case (Suc k)
  then show ?case using can_alloc_less [of E clrs k s] by (cases "j = Suc k") (simp_all del: can_alloc.simps(2))
qed simp

lemma owned_added:
  assumes ad: "wf_tree m pt" "l < 2" "slot m pt va l = Some p" "\<not> pte_table (m p)" "fresh_block m pt b" "table_added m p b m'"
    and pools: "pools_ok pools" "free_page pools b" "\<And>x. free_page pools' x \<longleftrightarrow> free_page pools x \<and> x \<noteq> b"
    and own: "tree_owned pools m pt"
  shows "tree_owned pools' m' pt"
  unfolding tree_owned_def
proof (intro allI impI)
  fix x assume x: "free_page pools' x"
  then have fx: "fresh_block m pt x" "x \<noteq> b" "x AND mask 12 = 0"
    using pools(3) own free_page_props(1) [OF pools(1)] by (auto simp: tree_owned_def)
  have bb: "b AND mask 12 = 0" by (rule free_page_props(1) [OF pools(1,2)])
  show "fresh_block m' pt x"
    unfolding fresh_block_def
  proof (intro conjI allI impI)
    show "pte_at x j \<noteq> 0" if "j < 512" for j using fx(1) that unfolding fresh_block_def by blast
    fix va' l' c' i and j :: nat
    assume h: "l' < 3" "tbl m' pt va' l' = Some c'" "i < nent pt l'" "j < 512"
    have "l' \<le> 3" using h(1) by simp
    note t = tbl_added [OF ad this, of va']
    show "pte_at x j \<noteq> pte_at c' i"
    proof (cases "same_entry pt va va' l \<and> l' = Suc l")
      case True
      then have "c' = b" "i < 512" using t h(2,3) by (simp_all add: ibits_def)
      with pages_differ [OF fx(3) bb fx(2) h(4), of i] show ?thesis by simp
    next
      case False
      then have "tbl m pt va' l' = Some c'" using t h(2) by (simp only: if_False)
      with fx(1) h show ?thesis unfolding fresh_block_def by blast
    qed
  qed
qed

lemma next_table:
  assumes "wf_tree m pt" "l < 2" "slot m pt va l = Some p" "pte_table e" "pte_addr e = b" "b AND mask 12 = 0"
  shows "pt_get (m(p := e)) pt (Suc l) va = Inr b"
proof -
  have l3: "l < 3" "Suc l < 3" using assms(2) by simp_all
  obtain c where c: "tbl m pt va l = Some c" "p = pte_at c (vidx pt va l)" using assms(3) by (auto simp: slot_def)
  let ?m = "m(p := e)"
  have "tbl ?m pt va l = Some c" by (rule trans [OF tbl_write_above [OF assms(1) l3(1) assms(3) order_refl] c(1)])
  moreover have "?m (pte_at c (vidx pt va l)) = e" using c by simp
  ultimately have "tbl ?m pt va (Suc l) = Some b" using assms(4,5) tbl_Suc_Some by (simp only: if_True)
  then have sl: "slot ?m pt va (Suc l) = Some (pte_at b (vidx pt va (Suc l)))" by (simp only: slot_def option.map)
  have ix: "vidx pt va (Suc l) < 512" using vidx_less [of pt va "Suc l"] by (simp add: ibits_def)
  have "pte_at b (vidx pt va (Suc l)) AND NOT (mask 12) = b" using pte_at_aligned(2) [of b 9] assms(6) ix by simp
  moreover have "(4096 - 1 :: u64) = mask 12" by (simp add: mask_eq_exp_minus_1)
  ultimately show ?thesis
    using get_pte_slot [OF wf_treeD(1) [OF assms(1)] l3(2) sl] geometry(4) [OF wf_treeD(1) [OF assms(1)] l3(2)]
    by (simp add: pt_get_def ibits_def)
qed

text \<open>The run of \<open>mem_alloc_pt\<close> on a page \<open>b\<close>: the entry \<open>p\<close> and the contents of the table.\<close>

definition hang_table :: "pte_ptr \<Rightarrow> pte_ptr \<Rightarrow> pt_mem \<Rightarrow> pt_mem" where
  "hang_table p b m = (\<lambda>q. if \<exists>j < 512. q = pte_at b j then PTE_INVALID OR (m p AND PTE_RSW_MSK)
    else (m(p := pte_set b PTE_TABLE PTE_HYP_FLAGS)) q)"

lemma mem_alloc_pt_run:
  assumes "wf_tree (pt_words s) (as_pt a)" "l < 2" "slot (pt_words s) (as_pt a) va l = Some p"
    and "alloc_ppages E (as_colors a) 1 False s = Inr (s1, pg)" "num_pages pg \<noteq> 0" "pt_words s1 = pt_words s"
    and "\<forall>j < 512. pte_at (pp_base pg) j \<noteq> 0" "pp_base pg AND mask 12 = 0" "unat (pp_base pg) < 2 ^ 56"
  shows "mem_alloc_pt E a p l va s = Inr (s1\<lparr>pt_words := hang_table p (pp_base pg) (pt_words s)\<rparr>, pp_base pg)"
proof -
  define b where "b = pp_base pg"
  have l3: "l < 3" "Suc l < 3" using assms(2) by simp_all
  note g = geometry [OF wf_treeD(1) [OF assms(1)]]
  let ?e = "pte_set b PTE_TABLE PTE_HYP_FLAGS" and ?d = "PTE_INVALID OR (pt_words s p AND PTE_RSW_MSK)"
  let ?s1 = "s1\<lparr>pt_words := (pt_words s)(p := ?e)\<rparr>"
  have e: "pte_addr ?e = b" using addr_of_pte_set in_addr_mask [OF assms(8,9)] by (simp add: b_def)
  have p0: "p \<noteq> 0" by (rule slot_nonzero [OF assms(1) l3(1) assms(3)])
  have st: "st_pte p ?e s1 = Inr ?s1" using p0 assms(6) by (simp add: st_pte_def)
  have pg1: "pt_get ((pt_words s)(p := ?e)) (as_pt a) (Suc l) va = Inr b"
    by (rule next_table [OF assms(1-3) table_pte_set e]) (use assms(8) in \<open>simp add: b_def\<close>)
  have fill: "foldR (\<lambda>i s. st_pte (pte_at b i) ?d s) [0..<512] ?s1 = Inr (s1\<lparr>pt_words := hang_table p b (pt_words s)\<rparr>)"
    unfolding fill_entries [OF assms(7) [folded b_def] order_refl] hang_table_def by (simp cong: if_cong)
  have np: "unat (NUM_PAGES (of_nat (nent (as_pt a) (Suc l) * 8))) = 1"
    by (simp add: ibits_def NUM_PAGES_def ALIGN_def PAGE_SIZE_def)
  show ?thesis
    using g(4) [OF l3(2)] np assms(4,5,6) p0 st pg1 g(2) [OF l3(2)] fill
    by (simp add: mem_alloc_pt_def ld_pte_def b_def ibits_def Let_def)
qed

lemma hang_added:
  assumes "wf_tree m pt" "l < 2" "slot m pt va l = Some p" "fresh_block m pt b" "b AND mask 12 = 0" "unat b < 2 ^ 56"
  shows "table_added m p b (hang_table p b m)"
proof -
  obtain c where c: "tbl m pt va l = Some c" "p = pte_at c (vidx pt va l)" using assms(3) by (auto simp: slot_def)
  have "pte_at b j \<noteq> pte_at c (vidx pt va l)" if "j < 512" for j
  proof -
    have "l < 3" using assms(2) by simp
    from assms(4) [unfolded fresh_block_def, THEN conjunct2, rule_format, OF this c(1) vidx_less that] show ?thesis .
  qed
  then have pb: "\<not> (\<exists>j < 512. p = pte_at b j)" using c(2) by metis
  have "pte_addr (pte_set b PTE_TABLE PTE_HYP_FLAGS) = b" using addr_of_pte_set in_addr_mask [OF assms(5,6)] by simp
  then show ?thesis using pb default_pte(2) [of "m p"] table_pte_set by (auto simp: table_added_def hang_table_def)
qed

lemma mem_alloc_pt_spec:
  assumes "mem_ok E a s" "l < 2" "slot (pt_words s) (as_pt a) va l = Some p" "\<not> pte_table (pt_words s p)"
    and "can_alloc E (as_colors a) (Suc k) s"
  shows "\<exists>s' b. mem_alloc_pt E a p l va s = Inr (s', b) \<and> fresh_block (pt_words s) (as_pt a) b
    \<and> b \<noteq> 0 \<and> b AND mask 12 = 0 \<and> unat b < 2 ^ 56 \<and> pt_words s' = hang_table p b (pt_words s)
    \<and> mem_ok E a s' \<and> can_alloc E (as_colors a) k s' \<and> tlb_log s' = tlb_log s"
proof -
  let ?pt = "as_pt a" and ?m = "pt_words s"
  note ok = mem_okD [OF assms(1)]
  obtain s1 pg where al: "alloc_ppages E (as_colors a) 1 False s = Inr (s1, pg)" "num_pages pg \<noteq> 0"
      "can_alloc E (as_colors a) k s1"
    using assms(5) by (rule can_alloc_SucE)
  then obtain pools where pools: "alloc_in_pools (clr_num E) (clr_size E) (page_pools s) (as_colors a) 1 False
      \<lparr>pp_base = 0, num_pages = 0, pp_colors = 0\<rparr> = Inr (pools, pg)" "s1 = s\<lparr>page_pools := pools\<rparr>"
    by (auto simp: alloc_ppages_def mem_alloc_ppages_def)
  define b where "b = pp_base pg"
  note one = alloc_one [OF pools(1) ok(5,2)]
  have fp: "pools_ok pools" "free_page (page_pools s) b" "\<And>x. free_page pools x \<longleftrightarrow> free_page (page_pools s) x \<and> x \<noteq> b"
    using one al(2) by (simp_all add: b_def)
  note fb = free_page_props [OF ok(2) fp(2)]
  have fresh: "fresh_block ?m ?pt b" using ok(4) fp(2) by (simp add: tree_owned_def)
  have nz: "\<forall>j < 512. pte_at b j \<noteq> 0" using fresh by (simp add: fresh_block_def)
  have run: "mem_alloc_pt E a p l va s = Inr (s1\<lparr>pt_words := hang_table p b ?m\<rparr>, b)"
    unfolding b_def by (rule mem_alloc_pt_run [OF ok(1) assms(2,3) al(1,2) _ nz [unfolded b_def]])
      (use fb pools(2) in \<open>simp_all add: b_def\<close>)
  have added: "table_added ?m p b (hang_table p b ?m)"
    by (rule hang_added [OF ok(1) assms(2,3) fresh fb(1)]) (use fb(2) in simp)
  note ad = ok(1) assms(2-4) fresh added
  have "mem_ok E a (s1\<lparr>pt_words := hang_table p b ?m\<rparr>)"
    using wf_added [OF ad] owned_added [OF ad ok(2) fp(2,3) ok(4)] fp(1) ok(5) pools(2) by (simp add: mem_ok_def)
  moreover have "can_alloc E (as_colors a) k (s1\<lparr>pt_words := hang_table p b ?m\<rparr>)"
    by (subst can_alloc_pools [of _ s1]) (simp_all add: al(3))
  ultimately show ?thesis using run fresh fb pools(2)
    by (intro exI [of _ "s1\<lparr>pt_words := hang_table p b ?m\<rparr>"] exI [of _ b]) simp
qed

lemma phys_hang:
  assumes "wf_tree m pt" "l < 2" "slot m pt va l = Some p" "\<not> pte_table (m p)" "fresh_block m pt b"
    "b AND mask 12 = 0" "unat b < 2 ^ 56"
  shows "phys (hang_table p b m) pt va' = (if same_entry pt va va' l then None else phys m pt va')"
    and "tbl (hang_table p b m) pt va (Suc l) = Some b"
    and "j < 512 \<Longrightarrow> hang_table p b m (pte_at b j) = PTE_INVALID OR (m p AND PTE_RSW_MSK)"
proof -
  note ad = assms(1-5) hang_added [OF assms(1-3,5-7)]
  show d: "hang_table p b m (pte_at b j) = PTE_INVALID OR (m p AND PTE_RSW_MSK)" if "j < 512" for j
    using that by (auto simp: hang_table_def)
  have ix: "vidx pt va' (Suc l) < 512" for va' using vidx_less [of pt va' "Suc l"] by (simp add: ibits_def)
  show "phys (hang_table p b m) pt va' = (if same_entry pt va va' l then None else phys m pt va')"
    using phys_added [OF ad, of va'] default_pte(1) [of "m p"] d [OF ix [of va']] by (simp add: maps_to_def)
  show "tbl (hang_table p b m) pt va (Suc l) = Some b"
    using tbl_added [OF ad, of "Suc l" va] assms(2) by (simp add: same_tbl_def)
qed

end
