(* ===== verification/Pt_Blocks.thy ===== *)
theory Pt_Blocks
  imports Pt_Alloc
begin

text \<open>
  Blocks of a mapping. The position of an address is the part of it that tables translate; an entry
  of a level covers one aligned block of positions, and writing a page entry maps this block.
\<close>

section \<open>Positions\<close>

text \<open>
  Tables translate the low 39 (41 for the second stage of a VM) bits of an address, its position.
\<close>

definition vtop :: "page_table \<Rightarrow> nat" where
  "vtop pt = 2 ^ (30 + ibits pt 0)"

definition vpos :: "page_table \<Rightarrow> vaddr \<Rightarrow> nat" where
  "vpos pt va = unat va mod vtop pt"

lemma vpos_less: "vpos pt va < vtop pt"
  by (simp add: vpos_def vtop_def)

lemma mod_div_mod:
  fixes v :: nat
  assumes "k + i \<le> n"
  shows "v mod 2 ^ n div 2 ^ k mod 2 ^ i = v div 2 ^ k mod 2 ^ i"
proof -
  have "take_bit i (drop_bit k (take_bit n v)) = take_bit i (drop_bit k v)"
    by (rule bit_eqI) (use assms in \<open>auto simp: bit_take_bit_iff bit_drop_bit_eq\<close>)
  then show ?thesis by (simp add: take_bit_eq_mod drop_bit_eq_div)
qed

lemma vidx_vpos: "vidx pt va l = vpos pt va div 2 ^ obits l mod nent pt l"
  unfolding vidx_def vpos_def vtop_def by (rule mod_div_mod [symmetric]) (cases l; simp add: obits_def ibits_def)

lemma vidx_0: "vidx pt va 0 = vpos pt va div 2 ^ 30"
proof -
  have "vpos pt va div 2 ^ 30 < nent pt 0"
    using vpos_less [of pt va] unfolding vtop_def by (intro less_mult_imp_div_less) (simp add: power_add mult.commute)
  then show ?thesis by (simp add: vidx_vpos obits_def)
qed

text \<open>Addresses share an entry iff their positions are in the same block of its size.\<close>

lemma div_step:
  fixes p q :: nat
  shows "p div k = q div k \<longleftrightarrow> p div (k * j) = q div (k * j) \<and> p div k mod j = q div k mod j"
  by (metis div_mult2_eq div_mult_mod_eq)

lemma same_entry_iff:
  assumes "l < 3"
  shows "same_entry pt va va' l \<longleftrightarrow> vpos pt va div 2 ^ obits l = vpos pt va' div 2 ^ obits l"
proof -
  let ?p = "vpos pt va" and ?q = "vpos pt va'"
  have s: "same_entry pt va va' 0 \<longleftrightarrow> ?p div 2 ^ 30 = ?q div 2 ^ 30" by (simp add: same_tbl_def vidx_0)
  have s1: "same_entry pt va va' 1 \<longleftrightarrow> ?p div 2 ^ 21 = ?q div 2 ^ 21"
  proof -
    have "same_entry pt va va' 1 \<longleftrightarrow> same_entry pt va va' 0 \<and> vidx pt va 1 = vidx pt va' 1"
      by (auto simp: same_tbl_def less_Suc_eq)
    then show ?thesis using s div_step [of ?p "2 ^ 21" ?q "2 ^ 9"] by (simp add: vidx_vpos obits_def ibits_def)
  qed
  have s2: "same_entry pt va va' 2 \<longleftrightarrow> ?p div 2 ^ 12 = ?q div 2 ^ 12"
  proof -
    have "same_entry pt va va' 2 \<longleftrightarrow> same_entry pt va va' 1 \<and> vidx pt va 2 = vidx pt va' 2"
      by (auto simp: same_tbl_def less_Suc_eq numeral_2_eq_2)
    then show ?thesis using s1 div_step [of ?p "2 ^ 12" ?q "2 ^ 9"] by (simp add: vidx_vpos obits_def ibits_def)
  qed
  from less_3_cases [OF assms] show ?thesis using s s1 s2 by (elim disjE) (simp_all add: obits_def)
qed

lemma vpos_add:
  assumes "vpos pt va + k < vtop pt"
  shows "vpos pt (va + of_nat k) = vpos pt va + k"
proof -
  have t: "30 + ibits pt 0 \<le> 64" using ibits_le [of pt 0] by simp
  have m: "x mod 2 ^ 64 mod vtop pt = x mod vtop pt" for x :: nat
    unfolding vtop_def using mod_div_mod [of 0 "30 + ibits pt 0" 64 x] t by simp
  have "vpos pt (va + of_nat k) = (unat va + k mod 2 ^ 64) mod 2 ^ 64 mod vtop pt"
    by (simp add: vpos_def unat_word_ariths unat_of_nat)
  also have "\<dots> = (unat va mod vtop pt + k mod 2 ^ 64 mod vtop pt) mod vtop pt" unfolding m [of "unat va + k mod 2 ^ 64"]
    by (simp only: mod_add_eq)
  also have "\<dots> = (unat va mod vtop pt + k) mod vtop pt" unfolding m by (simp only: mod_add_right_eq)
  also have "\<dots> = vpos pt va + k" using assms by (simp add: vpos_def)
  finally show ?thesis .
qed

lemma vpos_mod:
  assumes "l < 3"
  shows "vpos pt va mod 2 ^ obits l = unat va mod 2 ^ obits l"
proof -
  have "obits l \<le> 30 + ibits pt 0" by (simp add: obits_def)
  then show ?thesis using mod_div_mod [of 0 "obits l" "30 + ibits pt 0" "unat va"] by (simp add: vpos_def vtop_def)
qed

text \<open>Going to the next entry of a table.\<close>

lemma next_entry:
  assumes "l < 3" "vpos pt va mod 2 ^ obits l = 0" "vpos pt va + 2 ^ obits l < vtop pt" "Suc (vidx pt va l) < nent pt l"
  shows "same_tbl pt va (va + of_nat (2 ^ obits l)) l" "vidx pt (va + of_nat (2 ^ obits l)) l = Suc (vidx pt va l)"
proof -
  let ?q = "vpos pt va div 2 ^ obits l" and ?va = "va + of_nat (2 ^ obits l)"
  have p: "vpos pt ?va = vpos pt va + 2 ^ obits l" by (rule vpos_add [OF assms(3)])
  have q: "vpos pt ?va div 2 ^ obits l = Suc ?q" unfolding p using div_add_self2 [of "2 ^ obits l" "vpos pt va"] by simp
  have e: "Suc (?q mod nent pt l) < nent pt l" using assms(4) by (simp add: vidx_vpos)
  then show "vidx pt ?va l = Suc (vidx pt va l)" unfolding vidx_vpos q by (simp add: mod_Suc)
  have d: "Suc ?q div nent pt l = ?q div nent pt l" using e by (simp add: div_Suc mod_Suc)
  show "same_tbl pt va ?va l"
    unfolding same_tbl_def
  proof (intro allI impI)
    fix k assume k: "k < l"
    then have "obits k = obits l + ibits pt l + (obits k - obits l - 9)" using assms(1) by (simp add: obits_def ibits_def)
    then have "(2::nat) ^ obits k = 2 ^ obits l * nent pt l * 2 ^ (obits k - obits l - 9)" by (metis power_add)
    then have "x div 2 ^ obits k = x div 2 ^ obits l div nent pt l div 2 ^ (obits k - obits l - 9)" for x :: nat
      by (simp add: div_mult2_eq)
    then show "vidx pt va k = vidx pt ?va k" unfolding vidx_vpos q by (simp only: d q)
  qed
qed

section \<open>Mapped blocks\<close>

definition block_mapped :: "page_table \<Rightarrow> pt_mem \<Rightarrow> pt_mem \<Rightarrow> nat \<Rightarrow> nat \<Rightarrow> paddr \<Rightarrow> bool" where
  "block_mapped pt m m' p k base \<longleftrightarrow> (\<forall>va. phys m' pt va =
    (if p \<le> vpos pt va \<and> vpos pt va < p + k then Some (base + of_nat (vpos pt va - p)) else phys m pt va))"

lemma block_mapped_0 [simp]: "block_mapped pt m m p 0 base"
  by (auto simp: block_mapped_def)

lemma block_mapped_empty: "block_mapped pt m m' p 0 base \<longleftrightarrow> phys m' pt = phys m pt"
  by (auto simp: block_mapped_def fun_eq_iff)

lemma block_mapped_append:
  assumes "block_mapped pt m m' p k base" "block_mapped pt m' m'' (p + k) j (base + of_nat k)"
  shows "block_mapped pt m m'' p (k + j) base"
proof -
  have "base + of_nat k + of_nat (vpos pt va - (p + k)) = base + of_nat (vpos pt va - p)" if "p + k \<le> vpos pt va" for va
  proof -
    have "vpos pt va - p = k + (vpos pt va - (p + k))" using that by simp
    then show ?thesis by (simp only: of_nat_add add.assoc)
  qed
  then show ?thesis using assms unfolding block_mapped_def by (auto split: if_splits)
qed

lemma word_low_add:
  fixes pa va :: u64
  assumes "pa AND mask k = 0"
  shows "(pa AND NOT (mask k)) OR (va AND mask k) = pa + of_nat (unat va mod 2 ^ k)"
proof -
  have n: "pa AND NOT (mask k) = pa"
    by (metis (no_types) assms and.comm_neutral bit.conj_disj_distrib bit.disj_cancel_right or.left_neutral)
  have m: "va AND mask k = of_nat (unat va mod 2 ^ k)"
  proof -
    have "unat va mod 2 ^ k < 2 ^ 64" using le_less_trans [OF mod_less_eq_dividend unsigned_less [of va]] by simp
    then show ?thesis by (simp add: word_unat_eq_iff unat_and_mask unat_of_nat)
  qed
  have "pa AND (va AND mask k) = 0" using assms by (metis (no_types) and.assoc and.commute and_zero_eq)
  then have "pa OR (va AND mask k) = pa + (va AND mask k)" by (rule disjunctive_add_eq_or [symmetric])
  then show ?thesis by (simp only: n m)
qed

text \<open>A page or superpage entry maps its block.\<close>

lemma maps_to_page:
  assumes "l < 3" "page_bits type flags" "unat pa mod 2 ^ obits l = 0" "unat pa + 2 ^ obits l \<le> 2 ^ 56"
  shows "maps_to (pte_set pa type flags) l va = Some (pa + of_nat (unat va mod 2 ^ obits l))"
proof -
  have o12: "12 \<le> obits l" using assms(1) by (simp add: obits_def)
  have z: "pa AND mask (obits l) = 0" using assms(3) by (simp add: word_unat_eq_iff unat_and_mask)
  have "mask 12 = (mask (obits l) AND mask 12 :: u64)"
    by (rule bit_word_eqI) (use o12 in \<open>auto simp: bit_and_iff bit_mask_iff\<close>)
  then have "pa AND mask 12 = 0" using z by (metis (no_types) and.assoc and_zero_eq and.commute)
  moreover have "unat pa < 2 ^ 56" using assms(4) by (meson less_le_trans less_add_same_cancel1 zero_less_power zero_less_numeral)
  ultimately have a: "pte_addr (pte_set pa type flags) = pa" using addr_of_pte_set in_addr_mask by simp
  then show ?thesis using page_pte_set(1) [OF assms(2)] word_low_add [OF z] by (simp add: maps_to_def)
qed

lemma div_block: "0 < n \<Longrightarrow> q div n = k \<longleftrightarrow> n * k \<le> q \<and> q < n * Suc k" for q n k :: nat
  by (metis div_nat_eqI dividend_less_times_div mult_Suc_right times_div_less_eq_dividend add.commute)

lemma page_written:
  assumes "wf_tree m pt" "l < 3" "slot m pt va l = Some p" "page_bits type flags"
    "vpos pt va mod 2 ^ obits l = 0" "unat pa mod 2 ^ obits l = 0" "unat pa + 2 ^ obits l \<le> 2 ^ 56"
  shows "block_mapped pt m (m(p := pte_set pa type flags)) (vpos pt va) (2 ^ obits l) pa"
  unfolding block_mapped_def
proof
  fix va'
  let ?o = "(2::nat) ^ obits l" and ?p = "vpos pt va" and ?q = "vpos pt va'"
  have p: "?p = ?o * (?p div ?o)" using mult_div_mod_eq [of ?o ?p] assms(5) by linarith
  have in_iff: "same_entry pt va va' l \<longleftrightarrow> ?p \<le> ?q \<and> ?q < ?p + ?o"
  proof -
    have "?q div ?o = ?p div ?o \<longleftrightarrow> ?o * (?p div ?o) \<le> ?q \<and> ?q < ?o * Suc (?p div ?o)"
      by (rule div_block) simp
    also have "?o * Suc (?p div ?o) = ?p + ?o" using p by simp
    finally show ?thesis using same_entry_iff [OF assms(2), of pt va va'] p by (metis (no_types))
  qed
  have "?q - ?p = unat va' mod ?o" if "?p \<le> ?q" "?q < ?p + ?o"
  proof -
    have "?q mod ?o = (?p mod ?o + (?q - ?p)) mod ?o" using that(1) by (simp only: mod_add_left_eq le_add_diff_inverse)
    then have "(?q - ?p) mod ?o = ?q mod ?o" unfolding assms(5) by simp
    moreover have "(?q - ?p) mod ?o = ?q - ?p" by (rule mod_less) (use that in linarith)
    ultimately show ?thesis using vpos_mod [OF assms(2), of pt va'] by metis
  qed
  then show "phys (m(p := pte_set pa type flags)) pt va' = (if ?p \<le> ?q \<and> ?q < ?p + ?o
      then Some (pa + of_nat (?q - ?p)) else phys m pt va')"
    unfolding phys_write [OF assms(1-3) page_pte_set(2) [OF assms(4)]] in_iff
      maps_to_page [OF assms(2,4,6,7)] by simp
qed

end
