(* ===== verification/Mem_Map.thy ===== *)
theory Mem_Map
  imports Pt_Blocks
begin

text \<open>
  \<open>mem_map\<close> maps what it was asked to map. The descent to an entry that fits changes no
  translation, the loop over the entries maps one block after the other, and the outer loop makes
  progress in every round and ends; it needs at most two tables per page.
\<close>

section \<open>Reserved entries\<close>

text \<open>
  No entry on the way of an address is reserved. Mapping reserves nothing: a new table inherits the
  mark of the entry it hangs in, a mapping clears it.
\<close>

definition free_at :: "pt_mem \<Rightarrow> page_table \<Rightarrow> vaddr \<Rightarrow> bool" where
  "free_at m pt va \<longleftrightarrow> (\<forall>l p. l < 3 \<longrightarrow> slot m pt va l = Some p \<longrightarrow> \<not> pte_check_rsw (m p) PTE_RSW_RSRV)"

definition keeps_free :: "page_table \<Rightarrow> pt_mem \<Rightarrow> pt_mem \<Rightarrow> bool" where
  "keeps_free pt m m' \<longleftrightarrow> (\<forall>va. free_at m pt va \<longrightarrow> free_at m' pt va)"

lemma keeps_free_refl [simp]: "keeps_free pt m m"
  and keeps_free_trans: "keeps_free pt m m1 \<Longrightarrow> keeps_free pt m1 m' \<Longrightarrow> keeps_free pt m m'"
  by (simp_all add: keeps_free_def)

lemma pte_set_free: "\<not> pte_check_rsw (pte_set pa type flags) PTE_RSW_RSRV"
proof -
  have "pte_set pa type flags AND PTE_RSW_MSK = 0"
    by (rule bit_word_eqI)
      (auto simp: pte_set_def PTE_RSW_MSK_def PTE_ADDR_MSK_def PTE_FLAGS_MSK_def bit_and_iff bit_or_iff bit_push_bit_iff
        bit_mask_iff bit_drop_bit_eq)
  moreover have "PTE_RSW_RSRV AND PTE_RSW_MSK \<noteq> 0" by (simp add: PTE_RSW_RSRV_def PTE_RSW_MSK_def mask_eq_exp_minus_1)
  ultimately show ?thesis by (simp add: pte_check_rsw_def)
qed

lemma keeps_free_write:
  assumes "wf_tree m pt" "l < 3" "slot m pt va l = Some p" "\<not> pte_table e" "\<not> pte_check_rsw e PTE_RSW_RSRV"
  shows "keeps_free pt m (m(p := e))"
  using slot_write [OF assms(1-4)] assms(5) by (auto simp: keeps_free_def free_at_def split: if_splits)

lemma keeps_free_hang:
  assumes "wf_tree m pt" "l < 2" "slot m pt va l = Some p" "\<not> pte_table (m p)" "fresh_block m pt b"
    "b AND mask 12 = 0" "unat b < 2 ^ 56"
  shows "keeps_free pt m (hang_table p b m)"
  unfolding keeps_free_def free_at_def
proof (intro allI impI)
  fix va' l' q
  assume f: "\<forall>l q. l < 3 \<longrightarrow> slot m pt va' l = Some q \<longrightarrow> \<not> pte_check_rsw (m q) PTE_RSW_RSRV"
    and l': "l' < 3" and q: "slot (hang_table p b m) pt va' l' = Some q"
  have t: "tbl (hang_table p b m) pt va' l' = (if same_entry pt va va' l \<and> l' = Suc l then Some b else tbl m pt va' l')"
    by (rule tbl_added [OF assms(1-5) hang_added [OF assms(1-3,5-7)]]) (use l' in simp)
  show "\<not> pte_check_rsw (hang_table p b m q) PTE_RSW_RSRV"
  proof (cases "same_entry pt va va' l \<and> l' = Suc l")
    case True
    then have "q = pte_at b (vidx pt va' (Suc l))" using t q by (simp add: slot_def)
    moreover have "vidx pt va' (Suc l) < 512" using vidx_less [of pt va' "Suc l"] by (simp add: ibits_def)
    ultimately have e: "hang_table p b m q = PTE_INVALID OR (m p AND PTE_RSW_MSK)" using phys_hang(3) [OF assms] by blast
    have "slot m pt va' l = Some p"
      using assms(3) tbl_same [of pt va va' l m] True by (auto simp: slot_def same_tbl_def)
    then have "\<not> pte_check_rsw (m p) PTE_RSW_RSRV" using f [rule_format, of l p] assms(2) by simp
    then show ?thesis by (simp add: e pte_check_rsw_def PTE_INVALID_def and.assoc)
  next
    case False
    then have s: "slot m pt va' l' = Some q" using t q unfolding slot_def by (simp only: if_False)
    then obtain c where c: "tbl m pt va' l' = Some c" "q = pte_at c (vidx pt va' l')" by (auto simp: slot_def)
    have "\<forall>j < 512. q \<noteq> pte_at b j"
      using assms(5) l' c vidx_less [of pt va' l'] by (fastforce simp: fresh_block_def)
    then have "hang_table p b m q = (m(p := pte_set b PTE_TABLE PTE_HYP_FLAGS)) q" by (auto simp: hang_table_def)
    then show ?thesis using f l' s pte_set_free by simp
  qed
qed

section \<open>The descent\<close>

text \<open>
  Where an address is not mapped, the descent finds an entry that can take a mapping that fits,
  hanging tables into invalid entries on the way, which changes no translation.
\<close>

definition fits :: "nat \<Rightarrow> nat \<Rightarrow> vaddr \<Rightarrow> paddr \<Rightarrow> bool" where
  "fits l left va pa \<longleftrightarrow> 2 ^ obits l \<le> left * 4096 \<and> unat va mod 2 ^ obits l = 0 \<and> unat pa mod 2 ^ obits l = 0"

lemma mappable_fits:
  assumes "good_pt (as_pt a)" "l < 3" "left * 4096 < 2 ^ 64"
  shows "pt_pte_mappable a e l left va pa = Inr (\<not> pte_valid e \<and> fits l left va pa)"
  using geometry(3) [OF assms(1,2)] assms(3) by (simp add: pt_pte_mappable_def fits_def)

lemma wf_slot_next:
  assumes "wf_tree m pt" "l < 3" "slot m pt va l = Some p" "pte_table (m p)"
  shows "Suc l < 3" "\<exists>q. slot m pt va (Suc l) = Some q"
proof -
  obtain b where "tbl m pt va l = Some b" "p = pte_at b (vidx pt va l)" using assms(3) by (auto simp: slot_def)
  with assms(4) have t: "tbl m pt va (Suc l) = Some (pte_addr (m p))" using tbl_Suc_Some by simp
  then show "\<exists>q. slot m pt va (Suc l) = Some q" by (simp add: slot_def)
  have "Suc l \<noteq> 3" using t wf_treeD(4) [OF assms(1), of va] by auto
  then show "Suc l < 3" using assms(2) by simp
qed

definition descends :: "mem_env \<Rightarrow> addr_space \<Rightarrow> vaddr \<Rightarrow> paddr \<Rightarrow> nat \<Rightarrow> nat \<Rightarrow> mem_state \<Rightarrow>
    pte_ptr \<times> nat \<times> mem_state \<Rightarrow> bool" where
  "descends E a va pa left k s = (\<lambda>(p, l, s'). l < 3 \<and> slot (pt_words s') (as_pt a) va l = Some p
    \<and> fits l left va pa \<and> mem_ok E a s' \<and> can_alloc E (as_colors a) k s' \<and> tlb_log s' = tlb_log s
    \<and> phys (pt_words s') (as_pt a) = phys (pt_words s) (as_pt a) \<and> keeps_free (as_pt a) (pt_words s) (pt_words s'))"

lemma map_descend_spec:
  assumes "mem_ok E a s" "i < 3" "slot (pt_words s) (as_pt a) va i = Some q" "phys (pt_words s) (as_pt a) va = None"
    and "fits 2 left va pa" "left * 4096 < 2 ^ 64" "can_alloc E (as_colors a) (2 - i + k) s"
  shows "\<exists>r. map_descend E a va pa left i pte s = Inr r \<and> descends E a va pa left k s r"
  using assms(1-4,7)
proof (induction "2 - i" arbitrary: i q pte s rule: less_induct)
  case less
  let ?pt = "as_pt a" and ?m = "pt_words s"
  note ok = mem_okD [OF less.prems(1)]
  note g = geometry [OF ok(3)]
  have ld: "ld_pte s q = Inr (?m q)" using slot_nonzero [OF ok(1) less.prems(2,3)] by (simp add: ld_pte_def)
  note run = map_descend.simps [of E a va pa left i pte s] g(1) get_pte_slot [OF ok(3) less.prems(2,3)]
    g(5) [OF less.prems(2)] ld mappable_fits [OF ok(3) less.prems(2) assms(6), of "?m q" va pa] less.prems(2)
  show ?case
  proof (cases "pte_table (?m q)")
    case True
    note nx = wf_slot_next [OF ok(1) less.prems(2,3) True]
    then obtain q' where q': "slot ?m ?pt va (Suc i) = Some q'" by blast
    have "can_alloc E (as_colors a) (2 - Suc i + k) s" by (rule can_alloc_mono [OF less.prems(5)]) simp
    from less.hyps [OF _ less.prems(1) nx(1) q' less.prems(4) this, of q] nx(1)
    have "\<exists>r. map_descend E a va pa left (Suc i) q s = Inr r \<and> descends E a va pa left k s r" by simp
    then show ?thesis using run True table_valid [OF True] by simp
  next
    case False
    then have lf: "is_leaf ?m ?pt va i q" using less.prems(2,3) by (simp add: is_leaf_def)
    then have inv: "\<not> pte_valid (?m q)" using phys_leaf [OF lf] less.prems(4) by (auto simp: maps_to_def split: if_splits)
    show ?thesis
    proof (cases "fits i left va pa")
      case True
      have "can_alloc E (as_colors a) k s" by (rule can_alloc_mono [OF less.prems(5)]) simp
      then have "descends E a va pa left k s (q, i, s)" using less.prems(1-3) True by (simp add: descends_def)
      then show ?thesis using run inv True by simp
    next
      case nf: False
      then have i2: "i < 2" using assms(5) less.prems(2) by (cases "i = 2") auto
      then have "2 - i + k = Suc (2 - Suc i + k)" by simp
      then have ca: "can_alloc E (as_colors a) (Suc (2 - Suc i + k)) s" using less.prems(5) by (simp only:)
      obtain s' b where al: "mem_alloc_pt E a q i va s = Inr (s', b)" "fresh_block ?m ?pt b" "b AND mask 12 = 0"
          "unat b < 2 ^ 56" "pt_words s' = hang_table q b ?m" "mem_ok E a s'"
          "can_alloc E (as_colors a) (2 - Suc i + k) s'" "tlb_log s' = tlb_log s"
        using mem_alloc_pt_spec [OF less.prems(1) i2 less.prems(3) False ca] by blast
      note h = phys_hang [OF ok(1) i2 less.prems(3) False al(2-4)]
      have kf: "keeps_free ?pt ?m (pt_words s')" using keeps_free_hang [OF ok(1) i2 less.prems(3) False al(2-4)] al(5) by simp
      have t: "slot (pt_words s') ?pt va (Suc i) = Some (pte_at b (vidx ?pt va (Suc i)))" using h(2) al(5) by (simp add: slot_def)
      have same: "phys (pt_words s') ?pt va' = phys ?m ?pt va'" for va'
      proof (cases "same_entry ?pt va va' i")
        case True
        then have "is_leaf ?m ?pt va' i q"
          using lf tbl_same [of ?pt va va' i ?m] by (auto simp: is_leaf_def slot_def same_tbl_def)
        then have "phys ?m ?pt va' = None" using phys_leaf inv by (simp add: maps_to_def)
        then show ?thesis using h(1) [of va'] al(5) by simp
      qed (use h(1) [of va'] al(5) in simp)
      then have eq: "phys (pt_words s') ?pt = phys ?m ?pt" by (rule ext)
      have none: "phys (pt_words s') ?pt va = None" using eq less.prems(4) by simp
      have i3: "Suc i < 3" "2 - Suc i < 2 - i" using i2 by simp_all
      obtain r where r: "map_descend E a va pa left (Suc i) q s' = Inr r" "descends E a va pa left k s' r"
        using less.hyps [OF i3(2) al(6) i3(1) t none al(7)] by blast
      have "descends E a va pa left k s r" using r(2) eq al(8) keeps_free_trans [OF kf] by (cases r) (simp add: descends_def)
      then show ?thesis using run inv nf al(1) r(1) by simp
    qed
  qed
qed

section \<open>The entries\<close>

lemma mem_ok_write:
  assumes "mem_ok E a s" "l < 3" "slot (pt_words s) (as_pt a) va l = Some p" "\<not> pte_table e"
  shows "mem_ok E a (s\<lparr>pt_words := (pt_words s)(p := e)\<rparr>)"
proof -
  note ok = mem_okD [OF assms(1)]
  have "fresh_block ((pt_words s)(p := e)) (as_pt a) x" if x: "free_page (page_pools s) x" for x
  proof -
    have "fresh_block (pt_words s) (as_pt a) x" using ok(4) x by (simp add: tree_owned_def)
    then show ?thesis using tbl_write_sub [OF ok(1) assms(2-4)] unfolding fresh_block_def by (meson less_imp_le)
  qed
  then show ?thesis using wf_write [OF ok(1) assms(2-4)] ok(2,5) by (simp add: mem_ok_def tree_owned_def)
qed

definition spends :: "mem_env \<Rightarrow> addr_space \<Rightarrow> nat \<Rightarrow> mem_state \<Rightarrow> mem_state \<Rightarrow> bool" where
  "spends E a d s s' \<longleftrightarrow> (\<forall>k. can_alloc E (as_colors a) (d + k) s \<longrightarrow> can_alloc E (as_colors a) k s')"

lemma spends_trans: "spends E a d s s1 \<Longrightarrow> spends E a e s1 s' \<Longrightarrow> spends E a (d + e) s s'"
  by (simp add: spends_def add.assoc)

lemma spends_0: "page_pools s' = page_pools s \<Longrightarrow> spends E a 0 s s'"
  unfolding spends_def add_0 using can_alloc_pools [of s' s E "as_colors a"] by blast

lemma spends_mono: "spends E a d s s' \<Longrightarrow> d \<le> e \<Longrightarrow> spends E a e s s'"
  unfolding spends_def using can_alloc_mono by (meson add_le_mono1)

text \<open>What a stretch of the mapping has done, from \<open>count\<close> to \<open>count'\<close> pages, with at most \<open>d\<close> allocations.\<close>

definition mapped_to :: "mem_env \<Rightarrow> addr_space \<Rightarrow> nat \<Rightarrow> nat \<Rightarrow> vaddr \<Rightarrow> paddr \<Rightarrow> nat \<Rightarrow> mem_state \<Rightarrow>
    vaddr \<times> paddr \<times> nat \<times> mem_state \<Rightarrow> bool" where
  "mapped_to E a n d va pa count s = (\<lambda>(va', pa', count', s'). count \<le> count' \<and> count' \<le> n
    \<and> va' = va + of_nat ((count' - count) * 4096) \<and> pa' = pa + of_nat ((count' - count) * 4096)
    \<and> block_mapped (as_pt a) (pt_words s) (pt_words s') (vpos (as_pt a) va) ((count' - count) * 4096) pa
    \<and> mem_ok E a s' \<and> spends E a d s s' \<and> tlb_log s' = tlb_log s \<and> keeps_free (as_pt a) (pt_words s) (pt_words s'))"

lemma mapped_to_refl: "mem_ok E a s \<Longrightarrow> count \<le> n \<Longrightarrow> mapped_to E a n 0 va pa count s (va, pa, count, s)"
  by (simp add: mapped_to_def spends_def)

lemma page_unit:
  assumes "l < 3"
  shows "2 ^ obits l = 2 ^ obits l div 4096 * (4096::nat)" "0 < (2::nat) ^ obits l div 4096"
  using less_3_cases [OF assms] by (auto simp: obits_def)

text \<open>The addresses stay in the window the tables translate, the pages below the 56 address bits.\<close>

definition in_window :: "page_table \<Rightarrow> vaddr \<Rightarrow> paddr \<Rightarrow> nat \<Rightarrow> bool" where
  "in_window pt va pa k \<longleftrightarrow> vpos pt va + k * 4096 \<le> vtop pt \<and> unat pa + k * 4096 \<le> 2 ^ 56"

lemma in_window_step:
  assumes "in_window pt va pa (j + k)"
  shows "0 < k \<Longrightarrow> vpos pt (va + of_nat (j * 4096)) = vpos pt va + j * 4096" "unat (pa + of_nat (j * 4096)) = unat pa + j * 4096"
    "0 < k \<Longrightarrow> in_window pt (va + of_nat (j * 4096)) (pa + of_nat (j * 4096)) k"
proof -
  have w: "vpos pt va + j * 4096 + k * 4096 \<le> vtop pt" "unat pa + j * 4096 + k * 4096 \<le> 2 ^ 56"
    using assms by (simp_all add: in_window_def add_mult_distrib)
  show v: "vpos pt (va + of_nat (j * 4096)) = vpos pt va + j * 4096" if "0 < k"
    by (rule vpos_add) (use w(1) that in linarith)
  have j: "unat (of_nat (j * 4096) :: u64) = j * 4096" using w(2) by (intro unat_of_nat_u64) simp
  show p: "unat (pa + of_nat (j * 4096)) = unat pa + j * 4096"
    using unat_add_no_wrap [of pa "of_nat (j * 4096)"] w(2) unfolding j by simp
  show "in_window pt (va + of_nat (j * 4096)) (pa + of_nat (j * 4096)) k" if "0 < k"
    unfolding in_window_def v [OF that] p using w by simp
qed

lemma mapped_to_step:
  assumes "mem_ok E a s" "mem_ok E a s1" "spends E a d s s1" "tlb_log s1 = tlb_log s"
    and kf: "keeps_free (as_pt a) (pt_words s) (pt_words s1)"
    and blk: "block_mapped (as_pt a) (pt_words s) (pt_words s1) (vpos (as_pt a) va) (j * 4096) pa"
    and rest: "mapped_to E a n e (va + of_nat (j * 4096)) (pa + of_nat (j * 4096)) (count + j) s1 r"
    and win: "in_window (as_pt a) va pa (n - count)"
  shows "mapped_to E a n (d + e) va pa count s r"
proof -
  obtain va' pa' c s' where r: "r = (va', pa', c, s')" by (cases r)
  have c: "count + j \<le> c" "c \<le> n" using rest by (simp_all add: mapped_to_def r)
  have cj: "c - count = j + (c - (count + j))" using c by simp
  have blk2: "block_mapped (as_pt a) (pt_words s1) (pt_words s') (vpos (as_pt a) va + j * 4096)
      ((c - (count + j)) * 4096) (pa + of_nat (j * 4096))"
  proof (cases "c = count + j")
    case True
    have "block_mapped (as_pt a) (pt_words s1) (pt_words s') (vpos (as_pt a) (va + of_nat (j * 4096))) 0 (pa + of_nat (j * 4096))"
      using rest True by (simp add: mapped_to_def r)
    then show ?thesis using True by (simp add: block_mapped_empty)
  next
    case False
    then have "in_window (as_pt a) va pa (j + (n - (count + j)))" "0 < n - (count + j)" using win c by simp_all
    from in_window_step(1) [OF this] show ?thesis using rest by (simp add: mapped_to_def r)
  qed
  have "block_mapped (as_pt a) (pt_words s) (pt_words s') (vpos (as_pt a) va) ((c - count) * 4096) pa"
    using block_mapped_append [OF blk blk2] unfolding cj add_mult_distrib .
  moreover have "va' = va + of_nat ((c - count) * 4096)" "pa' = pa + of_nat ((c - count) * 4096)"
    using rest unfolding cj add_mult_distrib of_nat_add by (simp_all add: mapped_to_def r add.assoc)
  moreover have "count \<le> c" using c(1) by simp
  moreover have "spends E a (d + e) s s'" using spends_trans [OF assms(3)] rest by (simp add: mapped_to_def r)
  moreover have "keeps_free (as_pt a) (pt_words s) (pt_words s')"
    using keeps_free_trans [OF kf] rest by (simp add: mapped_to_def r)
  ultimately show ?thesis using rest assms(4) unfolding mapped_to_def r by (simp only: prod.case simp_thms)
qed

lemma map_entries_step:
  assumes "entry < N \<and> count < n \<and> lvlsz div 4096 \<le> n - count" "st_pte pte (pte_set pa PTE_PAGE flags) s = Inr s1"
  shows "map_entries E a False n flags l N lvlsz entry pte va pa count s =
    map_entries E a False n flags l N lvlsz (Suc entry) (next_pte pte) (va + of_nat lvlsz) (pa + of_nat lvlsz)
      (count + lvlsz div 4096) s1"
  by (rule trans [OF map_entries.simps]) (simp add: assms page_type mem_ppages_get_def)

lemma map_entries_spec:
  assumes "mem_ok E a s" "l < 3" "page_bits PTE_PAGE flags" "count \<le> n" "in_window (as_pt a) va pa (n - count)"
    and "unat va mod 2 ^ obits l = 0" "unat pa mod 2 ^ obits l = 0"
    and "entry < nent (as_pt a) l \<Longrightarrow> count < n \<Longrightarrow>
      slot (pt_words s) (as_pt a) va l = Some pte \<and> vidx (as_pt a) va l = entry"
  shows "\<exists>r. map_entries E a False n flags l (nent (as_pt a) l) (2 ^ obits l) entry pte va pa count s = Inr r
    \<and> mapped_to E a n 0 va pa count s r
    \<and> (entry < nent (as_pt a) l \<longrightarrow> count < n \<longrightarrow> 2 ^ obits l \<le> (n - count) * 4096 \<longrightarrow> count < fst (snd (snd r)))"
  using assms(1,4-8)
proof (induction "nent (as_pt a) l - entry" arbitrary: entry pte va pa count s rule: less_induct)
  case less
  let ?pt = "as_pt a" and ?o = "(2::nat) ^ obits l" and ?m = "pt_words s" and ?N = "nent (as_pt a) l"
  define j where "j = ?o div 4096"
  have o: "?o = j * 4096" "0 < j" using page_unit [OF assms(2)] by (simp_all add: j_def)
  note ok = mem_okD [OF less.prems(1)]
  note run = map_entries.simps [of E a False n flags l ?N ?o entry pte va pa count s]
  show ?case
  proof (cases "entry < ?N \<and> count < n \<and> j \<le> n - count")
    case False
    have "map_entries E a False n flags l ?N ?o entry pte va pa count s = Inr (va, pa, count, s)"
      by (rule trans [OF run]) (simp only: j_def [symmetric] False if_False)
    moreover have "\<not> (entry < ?N \<and> count < n \<and> ?o \<le> (n - count) * 4096)" using False o by auto
    ultimately show ?thesis using mapped_to_refl [OF less.prems(1,2)] by auto
  next
    case True
    have sl: "slot ?m ?pt va l = Some pte" "vidx ?pt va l = entry" using less.prems(6) True by simp_all
    have nk: "n - count = j + (n - (count + j))" using True by (elim conjE) arith
    note win = less.prems(3) [unfolded nk]
    have wb: "vpos ?pt va + ?o \<le> vtop ?pt" "unat pa + ?o \<le> 2 ^ 56"
      using win unfolding in_window_def add_mult_distrib o(1) by linarith+
    let ?e = "pte_set pa PTE_PAGE flags"
    let ?s1 = "s\<lparr>pt_words := ?m(pte := ?e)\<rparr>" and ?va1 = "va + of_nat (j * 4096)" and ?pa1 = "pa + of_nat (j * 4096)"
    have st: "st_pte pte ?e s = Inr ?s1" using slot_nonzero [OF ok(1) assms(2) sl(1)] by (simp add: st_pte_def)
    have ok1: "mem_ok E a ?s1" by (rule mem_ok_write [OF less.prems(1) assms(2) sl(1) page_pte_set(2) [OF assms(3)]])
    have vm: "vpos ?pt va mod ?o = 0" using vpos_mod [OF assms(2)] less.prems(4) by simp
    have blk: "block_mapped ?pt ?m (pt_words ?s1) (vpos ?pt va) (j * 4096) pa"
      using page_written [OF ok(1) assms(2) sl(1) assms(3) vm less.prems(5) wb(2)] by (simp add: o(1))
    have pm: "unat ?pa1 mod ?o = 0" using in_window_step(2) [OF win] less.prems(5) by (simp add: o(1))
    have vm1: "unat ?va1 mod ?o = 0" if "count + j < n"
    proof -
      have "vpos ?pt ?va1 = vpos ?pt va + ?o" using in_window_step(1) [OF win] that by (simp add: o(1))
      then have "vpos ?pt ?va1 mod ?o = 0" using vm by simp
      then show ?thesis using vpos_mod [OF assms(2)] by simp
    qed
    have next_sl: "slot (pt_words ?s1) ?pt ?va1 l = Some (next_pte pte) \<and> vidx ?pt ?va1 l = Suc entry"
      if "Suc entry < ?N" "count + j < n"
    proof -
      have "in_window ?pt ?va1 ?pa1 (n - (count + j))" "vpos ?pt ?va1 = vpos ?pt va + j * 4096"
        using in_window_step(1,3) [OF win] that(2) by simp_all
      then have "vpos ?pt va + ?o < vtop ?pt" using vpos_less [of ?pt ?va1] by (simp add: o(1))
      note nx = next_entry [OF assms(2) vm this, unfolded sl(2), OF that(1), unfolded o(1)]
      obtain b where b: "tbl ?m ?pt va l = Some b" "pte = pte_at b entry" using sl by (auto simp: slot_def)
      then have "tbl ?m ?pt ?va1 l = Some b" using tbl_same [OF nx(1), of ?m] by simp
      then have "slot ?m ?pt ?va1 l = Some (next_pte pte)" using nx(2) b(2) by (simp add: slot_def next_pte_at)
      moreover have "slot (pt_words ?s1) ?pt ?va1 l = slot ?m ?pt ?va1 l"
        using slot_write [OF ok(1) assms(2) sl(1) page_pte_set(2) [OF assms(3)] assms(2)] by simp
      ultimately show ?thesis using nx(2) by simp
    qed
    have win1: "in_window ?pt ?va1 ?pa1 (n - (count + j))"  if "count + j < n"
      using in_window_step(3) [OF win] that by simp
    let ?run1 = "map_entries E a False n flags l ?N ?o (Suc entry) (next_pte pte) ?va1 ?pa1 (count + j) ?s1"
    have "\<exists>r. ?run1 = Inr r \<and> mapped_to E a n 0 ?va1 ?pa1 (count + j) ?s1 r"
    proof (cases "count + j < n")
      case True
      have "?N - Suc entry < ?N - entry" using \<open>entry < ?N \<and> _\<close> by (elim conjE) arith
      from less.hyps [OF this ok1 less_imp_le [OF True] win1 [OF True] vm1 [OF True] pm next_sl] show ?thesis by blast
    next
      case False
      then have "?run1 = Inr (?va1, ?pa1, count + j, ?s1)"
        using map_entries.simps [of E a False n flags l ?N ?o "Suc entry" "next_pte pte" ?va1 ?pa1 "count + j" ?s1] by simp
      moreover have "mapped_to E a n 0 ?va1 ?pa1 (count + j) ?s1 (?va1, ?pa1, count + j, ?s1)"
        using mapped_to_refl [OF ok1, of "count + j" n] \<open>_ \<and> _ \<and> j \<le> n - count\<close> by (elim conjE) auto
      ultimately show ?thesis by blast
    qed
    then obtain r where r: "?run1 = Inr r" "mapped_to E a n 0 ?va1 ?pa1 (count + j) ?s1 r" by blast
    have "mapped_to E a n 0 va pa count s r"
      using mapped_to_step [OF less.prems(1) ok1 spends_0 _ _ blk r(2) less.prems(3)]
        keeps_free_write [OF ok(1) assms(2) sl(1) page_pte_set(2) [OF assms(3)] pte_set_free] by simp
    moreover have "count < fst (snd (snd r))" using r(2) o(2) by (cases r) (simp add: mapped_to_def)
    moreover have "map_entries E a False n flags l ?N ?o entry pte va pa count s = ?run1"
      using map_entries_step [of entry ?N count n ?o, unfolded j_def [symmetric], OF True st] by (simp add: o(1))
    ultimately show ?thesis using r(1) by auto
  qed
qed

section \<open>The whole mapping\<close>

lemma slot_index:
  assumes "wf_tree m (as_pt a)" "l < 3" "slot m (as_pt a) va l = Some p"
  shows "pt_getpteindex (as_pt a) p l = Inr (vidx (as_pt a) va l)"
proof -
  let ?pt = "as_pt a" and ?i = "vidx (as_pt a) va l"
  obtain b where b: "tbl m ?pt va l = Some b" "p = pte_at b ?i" using assms(3) by (auto simp: slot_def)
  have i: "?i < 2 ^ ibits ?pt l" by (rule vidx_less)
  then have "?i < 2 ^ 61" using nent_le [of ?pt l] by simp
  have le: "ibits ?pt l + 3 < 64" using ibits_le [of ?pt l] by simp
  have "of_nat (nent ?pt l * 8) - 1 = (mask (ibits ?pt l + 3) :: u64)"
    using nat_mask [of "ibits ?pt l + 3"] by (simp add: power_add)
  moreover have "unat (p AND mask (ibits ?pt l + 3)) div 8 = ?i"
    unfolding b(2) pte_at_aligned(1) [OF tbl_base_aligned [OF assms(1,2) b(1)] i le] unat_8_times [OF \<open>?i < 2 ^ 61\<close>] by simp
  ultimately show ?thesis using geometry(4) [OF wf_treeD(1) [OF assms(1)] assms(2)] by (simp add: pt_getpteindex_def)
qed

definition unmapped :: "page_table \<Rightarrow> pt_mem \<Rightarrow> nat \<Rightarrow> nat \<Rightarrow> bool" where
  "unmapped pt m p k \<longleftrightarrow> (\<forall>va. p \<le> vpos pt va \<longrightarrow> vpos pt va < p + k \<longrightarrow> phys m pt va = None)"

lemma map_round_spec:
  assumes "mem_ok E a s" "page_bits PTE_PAGE flags" "count < n" "in_window (as_pt a) va pa (n - count)"
    and "unat va mod 4096 = 0" "unat pa mod 4096 = 0" "unmapped (as_pt a) (pt_words s) (vpos (as_pt a) va) ((n - count) * 4096)"
    and "can_alloc E (as_colors a) (2 + k) s"
  shows "\<exists>va' pa' c s'. map_round E a False n flags va pa count s = Inr (va', pa', c, s') \<and> count < c
    \<and> mapped_to E a n 2 va pa count s (va', pa', c, s')"
proof -
  let ?pt = "as_pt a" and ?left = "n - count"
  note ok = mem_okD [OF assms(1)]
  have left: "0 < ?left" using assms(3) by simp
  have "vtop ?pt \<le> 2 ^ 41" unfolding vtop_def using ibits_le [of ?pt 0] by (intro power_increasing) simp_all
  then have l64: "?left * 4096 < 2 ^ 64" using assms(4) unfolding in_window_def by simp
  have f2: "fits 2 ?left va pa" using assms(5,6) left by (simp add: fits_def obits_def)
  have "vpos ?pt va < vpos ?pt va + ?left * 4096" using left by simp
  then have none: "phys (pt_words s) ?pt va = None" using assms(7) unfolding unmapped_def by blast
  have s0: "slot (pt_words s) ?pt va 0 = Some (pte_at (pt_root ?pt) (vidx ?pt va 0))" by (simp add: slot_def)
  have z3: "(0::nat) < 3" by simp
  have "\<exists>p l s1. map_descend E a va pa ?left 0 0 s = Inr (p, l, s1) \<and> l < 3 \<and> slot (pt_words s1) ?pt va l = Some p
      \<and> fits l ?left va pa \<and> mem_ok E a s1 \<and> can_alloc E (as_colors a) j s1 \<and> tlb_log s1 = tlb_log s
      \<and> phys (pt_words s1) ?pt = phys (pt_words s) ?pt \<and> keeps_free ?pt (pt_words s) (pt_words s1)" if "can_alloc E (as_colors a) (2 + j) s" for j
    using map_descend_spec [OF assms(1) z3 s0 none f2 l64, of j 0] that unfolding diff_zero descends_def by (simp add: split_paired_Ex)
  note desc = this
  from desc [OF assms(8)] obtain p l s1 where d: "map_descend E a va pa ?left 0 0 s = Inr (p, l, s1)" "l < 3"
      "slot (pt_words s1) ?pt va l = Some p" "fits l ?left va pa" "mem_ok E a s1" "tlb_log s1 = tlb_log s"
      "phys (pt_words s1) ?pt = phys (pt_words s) ?pt" "keeps_free ?pt (pt_words s) (pt_words s1)" by blast
  have sp: "spends E a 2 s s1" unfolding spends_def
  proof (intro allI impI)
    fix j assume "can_alloc E (as_colors a) (2 + j) s"
    from desc [OF this] d(1) show "can_alloc E (as_colors a) j s1" by auto
  qed
  note ok1 = mem_okD [OF d(5)]
  have dm: "unat va mod 2 ^ obits l = 0" "unat pa mod 2 ^ obits l = 0" using d(4) by (simp_all add: fits_def)
  obtain r where r: "map_entries E a False n flags l (nent ?pt l) (2 ^ obits l) (vidx ?pt va l) p va pa count s1 = Inr r"
      "mapped_to E a n 0 va pa count s1 r" "count < fst (snd (snd r))"
    using map_entries_spec [OF d(5,2) assms(2) less_imp_le [OF assms(3)] assms(4) dm, of "vidx ?pt va l" p]
      d(3,4) vidx_less [of ?pt va l] assms(3) by (auto simp: fits_def)
  have blk: "block_mapped ?pt (pt_words s) (pt_words s1) (vpos ?pt va) (0 * 4096) pa"
    using d(7) by (simp add: block_mapped_empty)
  have z: "va + of_nat (0 * 4096) = va" "pa + of_nat (0 * 4096) = pa" "count + 0 = count" by simp_all
  have "mapped_to E a n (2 + 0) va pa count s r"
    using mapped_to_step [OF assms(1) d(5) sp d(6,8) blk, of n 0 count r, unfolded z, OF r(2) assms(4)] .
  moreover have "map_round E a False n flags va pa count s = Inr r"
    using d(1) slot_index [OF ok1(1) d(2,3)] geometry(2,3) [OF ok(3) d(2)] r(1) by (simp add: map_round_def)
  ultimately show ?thesis using r(3) by (cases r) auto
qed

lemma unmapped_rest:
  assumes "mapped_to E a n d va pa count s (va', pa', c, s')" "in_window (as_pt a) va pa (n - count)" "c < n"
    and "unmapped (as_pt a) (pt_words s) (vpos (as_pt a) va) ((n - count) * 4096)"
  shows "in_window (as_pt a) va' pa' (n - c)" "vpos (as_pt a) va' = vpos (as_pt a) va + (c - count) * 4096"
    "unmapped (as_pt a) (pt_words s') (vpos (as_pt a) va') ((n - c) * 4096)"
proof -
  have c: "count \<le> c" "n - count = (c - count) + (n - c)" "0 < n - c" using assms(1,3) by (simp_all add: mapped_to_def)
  have v: "va' = va + of_nat ((c - count) * 4096)" "pa' = pa + of_nat ((c - count) * 4096)"
    using assms(1) by (simp_all add: mapped_to_def)
  note w = in_window_step [OF assms(2) [unfolded c(2)]]
  show "in_window (as_pt a) va' pa' (n - c)" unfolding v by (rule w(3) [OF c(3)])
  show p: "vpos (as_pt a) va' = vpos (as_pt a) va + (c - count) * 4096" unfolding v by (rule w(1) [OF c(3)])
  have "block_mapped (as_pt a) (pt_words s) (pt_words s') (vpos (as_pt a) va) ((c - count) * 4096) pa"
    using assms(1) by (simp add: mapped_to_def)
  then show "unmapped (as_pt a) (pt_words s') (vpos (as_pt a) va') ((n - c) * 4096)"
    using assms(4) unfolding unmapped_def p c(2) add_mult_distrib block_mapped_def by simp
qed

lemma aligned_step:
  assumes "unat va mod 4096 = (0::nat)"
  shows "unat (va + of_nat (k * 4096) :: u64) mod 4096 = 0"
proof -
  have "(x :: nat) mod 2 ^ 64 mod 4096 = x mod 4096" for x using mod_div_mod [of 0 12 64 x] by simp
  then show ?thesis using assms by (simp add: unat_word_ariths unat_of_nat mod_simps)
qed

lemma map_loop_spec:
  assumes "mem_ok E a s" "page_bits PTE_PAGE flags" "count \<le> n" "in_window (as_pt a) va pa (n - count)"
    and "unat va mod 4096 = 0" "unat pa mod 4096 = 0" "unmapped (as_pt a) (pt_words s) (vpos (as_pt a) va) ((n - count) * 4096)"
    and "can_alloc E (as_colors a) (2 * (n - count)) s"
  shows "\<exists>s'. map_loop E a False n flags va pa count s = Some (Inr s') \<and> mem_ok E a s' \<and> tlb_log s' = tlb_log s
    \<and> spends E a (2 * (n - count)) s s' \<and> keeps_free (as_pt a) (pt_words s) (pt_words s')
    \<and> block_mapped (as_pt a) (pt_words s) (pt_words s') (vpos (as_pt a) va) ((n - count) * 4096) pa"
  using assms(1,3-8)
proof (induction "n - count" arbitrary: va pa count s rule: less_induct)
  case less
  show ?case
  proof (cases "count < n")
    case False
    then show ?thesis using less.prems(1) by (subst map_loop.simps) (simp add: spends_def)
  next
    case True
    then have "2 * (n - count) = 2 + 2 * (n - Suc count)" by simp
    then have ca: "can_alloc E (as_colors a) (2 + 2 * (n - Suc count)) s" using less.prems(7) by (simp only:)
    obtain va' pa' c s' where r: "map_round E a False n flags va pa count s = Inr (va', pa', c, s')" "count < c"
        "mapped_to E a n 2 va pa count s (va', pa', c, s')"
      using map_round_spec [OF less.prems(1) assms(2) True less.prems(3-6) ca] by blast
    have c: "c \<le> n" "va' = va + of_nat ((c - count) * 4096)" "pa' = pa + of_nat ((c - count) * 4096)" "mem_ok E a s'"
      "spends E a 2 s s'" "tlb_log s' = tlb_log s" "keeps_free (as_pt a) (pt_words s) (pt_words s')"
      "block_mapped (as_pt a) (pt_words s) (pt_words s') (vpos (as_pt a) va) ((c - count) * 4096) pa"
      using r(3) by (simp_all add: mapped_to_def)
    have run: "map_loop E a False n flags va pa count s = map_loop E a False n flags va' pa' c s'"
      using True r(1) by (subst map_loop.simps) simp
    show ?thesis
    proof (cases "c < n")
      case False
      then have "c = n" using c(1) by simp
      then have "map_loop E a False n flags va' pa' c s' = Some (Inr s')" by (subst map_loop.simps) simp
      moreover have "spends E a (2 * (n - count)) s s'" by (rule spends_mono [OF c(5)]) (use True in simp)
      ultimately show ?thesis using run c \<open>c = n\<close> by simp
    next
      case cn: True
      note w = unmapped_rest [OF r(3) less.prems(3) cn less.prems(6)]
      have "can_alloc E (as_colors a) (2 * (n - Suc count)) s'" using c(5) ca unfolding spends_def by blast
      then have al: "can_alloc E (as_colors a) (2 * (n - c)) s'" by (rule can_alloc_mono) (use r(2) in simp)
      have less': "n - c < n - count" using r(2) cn by simp
      have m: "unat va' mod 4096 = 0" "unat pa' mod 4096 = 0"
        unfolding c(2,3) by (rule aligned_step [OF less.prems(4)], rule aligned_step [OF less.prems(5)])
      obtain t where t: "map_loop E a False n flags va' pa' c s' = Some (Inr t)" "mem_ok E a t" "tlb_log t = tlb_log s'"
          "spends E a (2 * (n - c)) s' t" "keeps_free (as_pt a) (pt_words s') (pt_words t)"
          "block_mapped (as_pt a) (pt_words s') (pt_words t) (vpos (as_pt a) va') ((n - c) * 4096) pa'"
        using less.hyps [OF less' c(4,1) w(1) m w(3) al] by (elim exE conjE)
      have "n - count = (c - count) + (n - c)" using r(2) cn by simp
      then have "block_mapped (as_pt a) (pt_words s) (pt_words t) (vpos (as_pt a) va) ((n - count) * 4096) pa"
        using block_mapped_append [OF c(8)] t(6) unfolding w(2) c(3) by (simp add: add_mult_distrib)
      moreover have "spends E a (2 * (n - count)) s t"
        by (rule spends_mono [OF spends_trans [OF c(5) t(4)]]) (use r(2) cn in simp)
      ultimately show ?thesis using run t(1-3) c(6) keeps_free_trans [OF c(7) t(5)] by simp
    qed
  qed
qed

section \<open>Enough memory\<close>

lemma one_more_page:
  assumes "pool_ok pool" "clear_tail 1 pool" "free pool \<noteq> 0" "k < pool_size pool" "\<not> used pool k"
  obtains j pool' pg where "pp_alloc pool 1 False pg0 = Inr (True, pool', pg)" "num_pages pg = 1" "pool_ok pool'" "clear_tail 1 pool'"
    "free pool' = free pool - 1" "j < pool_size pool" "\<not> used pool j" "pool_size pool' = pool_size pool"
    "\<And>i. used pool' i \<longleftrightarrow> used pool i \<or> i = j"
proof -
  have z: "(0::nat) < 1" by simp
  obtain got pool' pg where r: "pp_alloc pool 1 False pg0 = Inr (got, pool', pg)"
    using pp_alloc_total [OF z assms(1,2), of False pg0] by blast
  have got
  proof (rule ccontr)
    assume "\<not> got"
    then have "\<not> run (pool_bitmap pool) k 1 False" using pp_alloc_complete r z assms(1,3,4) by simp
    then show False using assms(5) by (simp add: run_def used_def)
  qed
  moreover obtain j where j: "allocates pool 1 j pool' pg" using pp_alloc_sound [OF r z assms(1)] \<open>got\<close> by auto
  ultimately show thesis
    by (intro that [of pool' pg j]) (use r assms(1,2) in \<open>auto simp: allocates_def pool_ok_def clear_tail_def\<close>)
qed

lemma can_alloc_enough:
  assumes "page_pools s = pool # rest" "all_clrs (clr_num E) clrs" "pool_ok pool" "clear_tail 1 pool"
    and "k \<le> unat (free pool)" "k \<le> card {i. i < pool_size pool \<and> \<not> used pool i}"
  shows "can_alloc E clrs k s"
  using assms(1,3-6)
proof (induction k arbitrary: s pool)
  case (Suc k)
  let ?free = "\<lambda>p. {i. i < pool_size p \<and> \<not> used p i}" and ?pg = "\<lparr>pp_base = 0, num_pages = 0, pp_colors = 0\<rparr>"
  have nz: "free pool \<noteq> 0" using Suc.prems(4) by auto
  have "?free pool \<noteq> {}" using Suc.prems(5) by (metis card.empty not_less_eq_eq zero_le)
  then obtain i where i: "i < pool_size pool" "\<not> used pool i" by blast
  obtain j pool' pg where a: "pp_alloc pool 1 False ?pg = Inr (True, pool', pg)" "num_pages pg = 1" "pool_ok pool'" "clear_tail 1 pool'"
      "free pool' = free pool - 1" "j < pool_size pool" "\<not> used pool j" "pool_size pool' = pool_size pool"
      "\<And>i. used pool' i \<longleftrightarrow> used pool i \<or> i = j"
    by (rule one_more_page [where ?pg0.0 = ?pg, OF Suc.prems(2,3) nz i]) (rule that)
  have f: "?free pool' = ?free pool - {j}" using a(8,9) by auto
  have "j \<in> ?free pool" "finite (?free pool)" using a(6,7) by simp_all
  then have "card (?free pool') = card (?free pool) - 1" unfolding f by (simp add: card_Diff_singleton)
  then have c: "k \<le> card (?free pool')" using Suc.prems(5) by simp
  have "unat (free pool') = unat (free pool) - 1" unfolding a(5) by (rule unat_minus_one [OF nz])
  then have u: "k \<le> unat (free pool')" using Suc.prems(4) by simp
  have "can_alloc E clrs k (s\<lparr>page_pools := pool' # rest\<rparr>)" by (rule Suc.IH [OF _ a(3,4) u c]) simp
  then show ?case using a(1,2) Suc.prems(1) assms(2) by (simp add: alloc_ppages_def mem_alloc_ppages_def)
qed simp

section \<open>Mapping\<close>

lemma page_mask: "va AND NOT (PAGE_SIZE - 1) = va AND NOT (mask 12)"
  by (simp add: PAGE_SIZE_def mask_eq_exp_minus_1)

lemma page_floor: "unat (va AND NOT (mask 12) :: u64) mod 4096 = 0"
proof -
  have "(va AND NOT (mask 12)) AND mask 12 = 0" by (simp add: and.assoc)
  then have "unat ((va AND NOT (mask 12)) AND mask 12) = 0" by simp
  then show ?thesis unfolding unat_and_mask by simp
qed

text \<open>
  C19. Mapping given pages maps exactly them: on a well-formed tree whose tables lie outside the
  free memory, and with memory for the tables, \<open>mem_map\<close> of contiguous pages to an unmapped range
  succeeds. Afterwards every address of the range translates to its page, whatever mixture of
  pages and superpages was used, every other translation is what it was, the tree is still
  well-formed and no TLB entry was invalidated.
\<close>

theorem mem_map_maps:
  fixes E a s va p n flags
  defines "v \<equiv> va AND NOT (PAGE_SIZE - 1)"
  assumes "mem_ok E a s" "can_alloc E (as_colors a) (2 * n) s"
    and "mem_find_sec E a v = Some sc" "mem_find_sec E a (v + of_nat n * PAGE_SIZE - 1) = Some sc"
    and "all_clrs (clr_num E) (pp_colors p)" "unat (pp_base p) mod 4096 = 0" "flags AND 0xf = 0"
    and "in_window (as_pt a) v (pp_base p) n" "unmapped (as_pt a) (pt_words s) (vpos (as_pt a) v) (n * 4096)"
  shows "\<exists>s'. mem_map E a va (Some p) n flags s = Inr (s', True) \<and> mem_ok E a s' \<and> tlb_log s' = tlb_log s
    \<and> (\<forall>x. mem_translate (pt_words s') (as_pt a) x =
        (if vpos (as_pt a) v \<le> vpos (as_pt a) x \<and> vpos (as_pt a) x < vpos (as_pt a) v + n * 4096
         then Inr (Some (pp_base p + of_nat (vpos (as_pt a) x - vpos (as_pt a) v)))
         else mem_translate (pt_words s) (as_pt a) x))"
proof -
  have al: "unat v mod 4096 = 0" unfolding v_def page_mask by (rule page_floor)
  have b: "page_bits PTE_PAGE flags" using assms(8) by (simp add: page_bits_def)
  obtain s' where s': "map_loop E a False n flags v (pp_base p) 0 s = Some (Inr s')" "mem_ok E a s'" "tlb_log s' = tlb_log s"
      "block_mapped (as_pt a) (pt_words s) (pt_words s') (vpos (as_pt a) v) (n * 4096) (pp_base p)"
    using map_loop_spec [OF assms(2) b, of 0 n v "pp_base p"] assms(3,7,9,10) al by auto
  have "mem_map E a va (Some p) n flags s = Inr (s', True)"
    using assms(4-6) s'(1) by (simp add: mem_map_def v_def [symmetric] ended_def Let_def)
  moreover have "wf_tree (pt_words s) (as_pt a)" "wf_tree (pt_words s') (as_pt a)"
    using assms(2) s'(2) by (simp_all add: mem_ok_def)
  ultimately show ?thesis using s' by (auto simp: translate_phys block_mapped_def)
qed

definition demo_as :: addr_space where
  "demo_as = \<lparr>as_pt = \<lparr>pt_root = 0x80000000, pt_dscr = sv39x4_pt_dscr\<rparr>, as_typ = AS_VM, as_colors = 0, as_id = 1\<rparr>"

definition demo_env :: mem_env where
  "demo_env = \<lparr>env_link = \<lparr>dmem_beg = 0, cpu_private_beg = 0, cpu_private_end = 0, image_start = 0, image_end = 0,
    vm_beg = 0, vm_end = 0\<rparr>, clr_num = 1, clr_size = 4096, cpu_as = demo_as\<rparr>"

definition demo_mem :: mem_state where
  "demo_mem = \<lparr>pt_words = (\<lambda>_. 0), page_pools = [demo_pool], tlb_log = []\<rparr>"

text \<open>Memory full of zeros holds the tree of the empty mapping.\<close>

lemma tbl_zero: "tbl (\<lambda>_. 0) pt va l = (if l = 0 then Some (pt_root pt) else None)"
  by (induction l) (simp_all add: tbl.simps(2) pte_table_def PTE_VALID_def Let_def)

lemma wf_zero:
  assumes "good_pt pt" "pt_root pt AND mask (ibits pt 0 + 3) = 0" "pt_root pt \<noteq> 0"
  shows "wf_tree (\<lambda>_. 0) pt"
proof -
  have "pte_at (pt_root pt) i \<noteq> 0" if "i < nent pt 0" for i
    using pte_at_aligned(2) [OF assms(2) that] ibits_le [of pt 0] assms(3) by auto
  then show ?thesis using assms(1,2) by (auto simp: wf_tree_def tbl_zero same_tbl_def split: if_splits)
qed

lemma phys_zero: "phys (\<lambda>_. 0) pt va = None"
  by (simp add: phys_def leaf_def tbl_zero maps_to_def pte_valid_def)

lemma unat_pte_at: "unat b + 8 * i < 2 ^ 64 \<Longrightarrow> unat (pte_at b i) = unat b + 8 * i"
  using unat_add_no_wrap [of b "8 * of_nat i"] unat_8_times [of i] by (simp add: pte_at_def)

lemma demo_mem_ok: "mem_ok demo_env demo_as demo_mem" "k \<le> 31 \<Longrightarrow> can_alloc demo_env 0 k demo_mem"
proof -
  have c: "all_clrs (clr_num demo_env) 0" by (simp add: all_clrs_def)
  show "mem_ok demo_env demo_as demo_mem"
  proof -
    let ?pt = "as_pt demo_as"
    have ib: "ibits ?pt 0 = 11" by (simp add: ibits_def demo_as_def)
    have wf: "wf_tree (\<lambda>_. 0) ?pt"
      by (rule wf_zero) (unfold ib, simp_all add: good_pt_def demo_as_def mask_eq_exp_minus_1)
    have ps: "pools_ok [demo_pool]"
      using demo_ok(1) by (simp add: pools_ok_def geo_ok_def geo_def demo_pool_def mask_eq_exp_minus_1)
    have "fresh_block (\<lambda>_. 0) ?pt a" if f: "free_page [demo_pool] a" for a
    proof -
      obtain k where k: "k < pool_size demo_pool" "a = page_of demo_pool k" using f by (auto simp: free_page_def)
      have g: "geo_ok (geo demo_pool)" using ps by (simp add: pools_ok_def)
      have u: "unat a = 0x80200000 + k * 4096" using unat_page_of [OF g k(1)] k(2) by (simp add: demo_pool_def)
      have k40: "k < 40" using k(1) by (simp add: demo_pool_def)
      have aj: "unat (pte_at a j) = 0x80200000 + k * 4096 + 8 * j" if "j < 512" for j
        using unat_pte_at [of a j] that u k40 by simp
      have ri: "unat (pte_at 0x80000000 i) = 0x80000000 + 8 * i" if "i < 2048" for i
        using unat_pte_at [of "0x80000000" i] that by simp
      have rt: "pt_root ?pt = 0x80000000" by (simp add: demo_as_def)
      have "pte_at a j \<noteq> pte_at 0x80000000 i" if "j < 512" "i < 2048" for j i
      proof
        assume "pte_at a j = pte_at 0x80000000 i"
        then have "unat (pte_at a j) = unat (pte_at 0x80000000 i)" by simp
        then show False using aj [OF that(1)] ri [OF that(2)] that by simp
      qed
      moreover have "pte_at a j \<noteq> 0" if "j < 512" for j using aj [OF that] by auto
      ultimately show ?thesis by (auto simp: fresh_block_def tbl_zero ib rt split: if_splits)
    qed
    then show ?thesis using wf ps c by (simp add: mem_ok_def tree_owned_def demo_mem_def demo_as_def)
  qed
  have f: "{i. i < pool_size demo_pool \<and> \<not> used demo_pool i} = {9..<40}"
    using demo_used by (auto simp: demo_pool_def)
  show "can_alloc demo_env 0 k demo_mem" if "k \<le> 31"
    by (rule can_alloc_enough [OF _ c demo_ok(1,2)]) (use that f in \<open>simp_all add: demo_mem_def demo_pool_def\<close>)
qed

theorem mem_map_maps_witness:
  "\<exists>s'. mem_map demo_env demo_as 0x40000123 (Some (mem_ppages_get 0x90000000 3)) 3 PTE_VM_FLAGS demo_mem = Inr (s', True)
    \<and> mem_translate (pt_words s') (as_pt demo_as) 0x40002010 = Inr (Some 0x90002010)
    \<and> mem_translate (pt_words s') (as_pt demo_as) 0x40003010 = mem_translate (pt_words demo_mem) (as_pt demo_as) 0x40003010"
proof -
  let ?p = "mem_ppages_get 0x90000000 3"
  have v: "(0x40000123 :: u64) AND NOT (PAGE_SIZE - 1) = 0x40000000" by (simp add: PAGE_SIZE_def)
  have sec: "mem_find_sec demo_env demo_as x = Some 0" for x
    by (simp add: mem_find_sec_def demo_as_def as_sections_def vm_secs_def MAX_VA_def)
  have vp: "vpos (as_pt demo_as) x = unat x mod 2 ^ 41" for x by (simp add: vpos_def vtop_def ibits_def demo_as_def)
  have vt: "vtop (as_pt demo_as) = 2 ^ 41" by (simp add: vtop_def ibits_def demo_as_def)
  have p: "all_clrs (clr_num demo_env) (pp_colors ?p)" "unat (pp_base ?p) mod 4096 = 0" "PTE_VM_FLAGS AND 0xf = 0"
    by (simp_all add: all_clrs_def mem_ppages_get_def PTE_VM_FLAGS_def)
  have w: "in_window (as_pt demo_as) 0x40000000 (pp_base ?p) 3" by (simp add: in_window_def vp vt mem_ppages_get_def)
  have u: "unmapped (as_pt demo_as) (pt_words demo_mem) (vpos (as_pt demo_as) 0x40000000) (3 * 4096)"
    by (simp add: unmapped_def demo_mem_def phys_zero)
  have ca: "can_alloc demo_env (as_colors demo_as) (2 * 3) demo_mem" using demo_mem_ok(2) [of 6] by (simp add: demo_as_def)
  obtain s' where "mem_map demo_env demo_as 0x40000123 (Some ?p) 3 PTE_VM_FLAGS demo_mem = Inr (s', True)"
    "\<forall>x. mem_translate (pt_words s') (as_pt demo_as) x =
        (if vpos (as_pt demo_as) 0x40000000 \<le> vpos (as_pt demo_as) x \<and> vpos (as_pt demo_as) x < vpos (as_pt demo_as) 0x40000000 + 3 * 4096
         then Inr (Some (pp_base ?p + of_nat (vpos (as_pt demo_as) x - vpos (as_pt demo_as) 0x40000000)))
         else mem_translate (pt_words demo_mem) (as_pt demo_as) x)"
    using mem_map_maps [OF demo_mem_ok(1), where n = 3 and va = "0x40000123" and sc = 0 and p = ?p and flags = PTE_VM_FLAGS, unfolded v, OF ca sec sec p w u] by (elim exE conjE)
  then show ?thesis by (intro exI [of _ s']) (simp add: vp mem_ppages_get_def)
qed

text \<open>
  Without memory for a table \<open>mem_map\<close> dereferences \<open>NULL\<close>: it ignores the result of
  \<open>mem_alloc_pt\<close>. When a mapping needs a table below the first level and no pool has a page left,
  the call does not return \<open>false\<close> or stop with an error; the next step of the descent reads
  through the null entry the walk yields.
\<close>

theorem mem_map_without_table_memory:
  assumes "good_pt (as_pt a)" "pt_root (as_pt a) \<noteq> 0" "pt_root (as_pt a) AND mask (ibits (as_pt a) 0 + 3) = 0"
    and "v = va AND NOT (PAGE_SIZE - 1)" "mem_find_sec E a v = Some sc" "mem_find_sec E a (v + of_nat n * PAGE_SIZE - 1) = Some sc"
    and "0 < n" "n < 2 ^ 18" "all_clrs (clr_num E) (pp_colors p)"
    and "\<not> pte_valid (pt_words s (pte_at (pt_root (as_pt a)) (vidx (as_pt a) v 0)))"
    and "alloc_ppages E (as_colors a) 1 False s = Inr (s1, pg)" "num_pages pg = 0"
  shows "mem_map E a va (Some p) n flags s = Inl Null_deref"
proof -
  let ?pt = "as_pt a" and ?q = "pte_at (pt_root (as_pt a)) (vidx (as_pt a) v 0)"
  note g = geometry [OF assms(1)]
  have le: "ibits ?pt 0 + 3 < 64" using ibits_le [of ?pt 0] by simp
  have q0: "?q \<noteq> 0" using pte_at_aligned(2) [OF assms(3) vidx_less le, of v] assms(2) by auto
  have sl: "slot m ?pt v 0 = Some ?q" for m by (simp add: slot_def)
  have np: "unat (NUM_PAGES (of_nat (nent ?pt (Suc 0) * 8))) = 1" by (simp add: ibits_def NUM_PAGES_def ALIGN_def PAGE_SIZE_def)
  have al: "mem_alloc_pt E a ?q 0 v s = Inr (s1, 0)"
    using g(4) [of "Suc 0"] np assms(11,12) by (simp add: mem_alloc_pt_def ibits_def Let_def)
  have w: "pt_words s1 = pt_words s" using assms(11) by (auto simp: alloc_ppages_def bindR_def split: sum.splits)
  have walk: "pt_get_pte (pt_words s1) ?pt (Suc 0) v = Inr 0"
    using index_by_va [OF assms(1), of 0 v] assms(10) by (simp add: pt_get_pte_def w pt_walk.simps)
  have "map_descend E a v (pp_base p) n (Suc 0) ?q s1 = Inl Null_deref"
    using g(1) g(5) [of "Suc 0"] walk by (subst map_descend.simps) (simp add: ld_pte_def)
  moreover have "pt_pte_mappable a (pt_words s ?q) 0 n v (pp_base p) = Inr False"
    using mappable_fits [OF assms(1), of 0 n] assms(8,10) by (simp add: fits_def obits_def)
  ultimately have "map_descend E a v (pp_base p) n 0 0 s = Inl Null_deref"
    using g(1) g(5) [of 0] get_pte_slot [OF assms(1) _ sl, of "pt_words s"] q0 al assms(10)
    by (subst map_descend.simps) (simp add: ld_pte_def)
  then have "map_loop E a False n flags v (pp_base p) 0 s = Some (Inl Null_deref)"
    using assms(7) by (subst map_loop.simps) (simp add: map_round_def)
  then show ?thesis using assms(5,6,9) by (simp add: mem_map_def assms(4) [symmetric] ended_def Let_def)
qed

theorem mem_map_without_table_memory_witness:
  "mem_map demo_env demo_as 0x40000000 (Some (mem_ppages_get 0x90000000 3)) 3 PTE_VM_FLAGS
    (demo_mem\<lparr>page_pools := []\<rparr>) = Inl Null_deref"
proof -
  have ib: "ibits (as_pt demo_as) 0 = 11" by (simp add: ibits_def demo_as_def)
  have sec: "mem_find_sec demo_env demo_as x = Some 0" for x
    by (simp add: mem_find_sec_def demo_as_def as_sections_def vm_secs_def MAX_VA_def)
  show ?thesis
    by (rule mem_map_without_table_memory [OF _ _ _ _ sec sec, where v = "0x40000000"
      and pg = "\<lparr>pp_base = 0, num_pages = 0, pp_colors = 0\<rparr>" and ?s1.0 = "demo_mem\<lparr>page_pools := []\<rparr>"])
      (unfold ib, simp_all add: good_pt_def demo_as_def mask_eq_exp_minus_1 PAGE_SIZE_def all_clrs_def mem_ppages_get_def
        demo_mem_def pte_valid_def alloc_ppages_def mem_alloc_ppages_def)
qed

end
