(* ===== verification/Mem_Expand.thy ===== *)
theory Mem_Expand
  imports Mem_Map
begin

text \<open>
  \<open>mem_expand_pte\<close> splits an entry into a table of the next level. What the filling loop leaves in
  the new table, and why no address translates differently afterwards.
\<close>

section \<open>Filling the new table\<close>

definition fill_entry :: "bool \<Rightarrow> bool \<Rightarrow> u64 \<Rightarrow> u64 \<Rightarrow> paddr \<Rightarrow> pte \<Rightarrow> pte" where
  "fill_entry vld rsv type flags pa e =
    (if vld then pte_set pa type flags else if rsv then pte_set_rsw e PTE_RSW_RSRV else e)"

lemma expand_fill_run:
  assumes "\<forall>j < 512. pte_at b j \<noteq> 0" "n \<le> 512"
  shows "expand_fill vld rsv type flags sz n i (pte_at b i) (pa + of_nat (i * sz)) s = Inr (s\<lparr>pt_words :=
    (\<lambda>q. if \<exists>j \<ge> i. j < n \<and> q = pte_at b j
         then fill_entry vld rsv type flags (pa + of_nat ((THE j. j < n \<and> q = pte_at b j) * sz)) (pt_words s q) else pt_words s q)\<rparr>)"
proof (induction "n - i" arbitrary: i s)
  case 0
  then have n: "\<not> (\<exists>j \<ge> i. j < n \<and> q = pte_at b j)" "\<not> i < n" for q by auto
  show ?case by (subst expand_fill.simps) (simp only: n if_False, simp)
next
  case (Suc k)
  then have i: "i < n" "i < 512" using assms(2) by simp_all
  let ?e = "fill_entry vld rsv type flags (pa + of_nat (i * sz)) (pt_words s (pte_at b i))"
  have the: "(THE j. j < n \<and> pte_at b i = pte_at b j) = i" using i assms(2) pte_at_inj [of _ i b] by (intro the_equality) auto
  let ?s = "s\<lparr>pt_words := (pt_words s)(pte_at b i := ?e)\<rparr>"
  have step: "(if vld then st_pte (pte_at b i) (pte_set (pa + of_nat (i * sz)) type flags) s
      else if rsv then bindR (ld_pte s (pte_at b i)) (\<lambda>e. st_pte (pte_at b i) (pte_set_rsw e PTE_RSW_RSRV) s)
      else Inr s) = Inr ?s"
    using assms(1) i(2) by (simp add: st_pte_def ld_pte_def fill_entry_def)
  have pa: "pa + of_nat (i * sz) + of_nat sz = pa + of_nat (Suc i * sz)" by (simp add: algebra_simps)
  have "expand_fill vld rsv type flags sz n i (pte_at b i) (pa + of_nat (i * sz)) s =
      expand_fill vld rsv type flags sz n (Suc i) (pte_at b (Suc i)) (pa + of_nat (Suc i * sz)) ?s"
    by (subst expand_fill.simps) (simp only: step i(1) if_True bindR_Inr next_pte_at pa Suc_eq_plus1)
  also have "\<dots> = Inr (?s\<lparr>pt_words := (\<lambda>q. if \<exists>j \<ge> Suc i. j < n \<and> q = pte_at b j
      then fill_entry vld rsv type flags (pa + of_nat ((THE j. j < n \<and> q = pte_at b j) * sz)) (pt_words ?s q) else pt_words ?s q)\<rparr>)"
    by (rule Suc.hyps(1)) (use Suc.hyps(2) in simp)
  also have "(\<lambda>q. if \<exists>j \<ge> Suc i. j < n \<and> q = pte_at b j
      then fill_entry vld rsv type flags (pa + of_nat ((THE j. j < n \<and> q = pte_at b j) * sz)) (pt_words ?s q) else pt_words ?s q)
    = (\<lambda>q. if \<exists>j \<ge> i. j < n \<and> q = pte_at b j
      then fill_entry vld rsv type flags (pa + of_nat ((THE j. j < n \<and> q = pte_at b j) * sz)) (pt_words s q) else pt_words s q)"
  proof (rule ext, goal_cases)
    case (1 q)
    have ne: "pte_at b j \<noteq> pte_at b i" if "Suc i \<le> j" "j < n" for j using pte_at_inj [of j i b] that i assms(2) by auto
    consider "q = pte_at b i" | "q \<noteq> pte_at b i" by blast
    then show ?case
    proof cases
      case 1
      then have no: "\<not> (\<exists>j \<ge> Suc i. j < n \<and> q = pte_at b j)" using ne by metis
      have yes: "\<exists>j \<ge> i. j < n \<and> q = pte_at b j" using 1 i by blast
      show ?thesis unfolding if_not_P [OF no] if_P [OF yes] using 1 the by simp
    next
      case 2
      then have iff: "(\<exists>j \<ge> Suc i. j < n \<and> q = pte_at b j) \<longleftrightarrow> (\<exists>j \<ge> i. j < n \<and> q = pte_at b j)"
        by (metis Suc_leD le_antisym not_less_eq_eq)
      have ps: "pt_words ?s q = pt_words s q" using 2 by simp
      show ?thesis by (simp only: iff ps)
    qed
  qed
  finally show ?case by simp
qed

lemma rsw_keeps_low: "pte_set_rsw e f AND mask 4 = e AND mask 4"
  by (rule bit_word_eqI)
    (auto simp: pte_set_rsw_def PTE_RSW_MSK_def bit_and_iff bit_or_iff bit_not_iff bit_push_bit_iff bit_mask_iff)

lemma low_decides: "e AND mask 4 = e' AND mask 4 \<Longrightarrow> pte_table e = pte_table e'" "e AND mask 4 = e' AND mask 4 \<Longrightarrow> pte_valid e = pte_valid e'"
proof -
  assume a: "e AND mask 4 = e' AND mask 4"
  show "pte_table e = pte_table e'" using a by (simp add: pte_table_def mask_eq_exp_minus_1)
  have "x AND 1 = (x AND mask 4) AND 1" for x :: u64 by (simp add: and.assoc mask_eq_exp_minus_1)
  then show "pte_valid e = pte_valid e'" unfolding pte_valid_def PTE_VALID_def using a by metis
qed

section \<open>Expanding an entry\<close>

text \<open>The memory after an entry \<open>p\<close> with contents \<open>e\<close> was expanded into the table \<open>b\<close>.\<close>

definition expanded :: "addr_space \<Rightarrow> pte_ptr \<Rightarrow> nat \<Rightarrow> pte_ptr \<Rightarrow> pt_mem \<Rightarrow> pt_mem" where
  "expanded a p l b m = (\<lambda>q. if \<exists>j < 512. q = pte_at b j
    then fill_entry (pte_valid (m p)) (pte_check_rsw (m p) PTE_RSW_RSRV) PTE_PAGE
      (if as_typ a = AS_HYP then PTE_HYP_FLAGS else PTE_VM_FLAGS)
      (pte_addr (m p) + of_nat ((THE j. j < 512 \<and> q = pte_at b j) * 2 ^ obits (Suc l)))
      (PTE_INVALID OR (m p AND PTE_RSW_MSK))
    else hang_table p b m q)"

lemma expanded_entry:
  assumes "j < 512"
  shows "expanded a p l b m (pte_at b j) = fill_entry (pte_valid (m p)) (pte_check_rsw (m p) PTE_RSW_RSRV) PTE_PAGE
      (if as_typ a = AS_HYP then PTE_HYP_FLAGS else PTE_VM_FLAGS) (pte_addr (m p) + of_nat (j * 2 ^ obits (Suc l)))
      (PTE_INVALID OR (m p AND PTE_RSW_MSK))"
proof -
  have "(THE i. i < 512 \<and> pte_at b j = pte_at b i) = j" using assms pte_at_inj [of _ j b] by (intro the_equality) auto
  then show ?thesis using assms by (auto simp: expanded_def)
qed

lemma both_flags: "page_bits PTE_PAGE (if as_typ a = AS_HYP then PTE_HYP_FLAGS else PTE_VM_FLAGS)"
  by (simp add: page_bits_def PTE_HYP_FLAGS_def PTE_VM_FLAGS_def)

lemma filled_low:
  assumes "\<not> vld"
  shows "\<not> pte_valid (fill_entry vld rsv type flags pa (PTE_INVALID OR (e AND PTE_RSW_MSK)))"
    and "\<not> pte_table (fill_entry vld rsv type flags pa (PTE_INVALID OR (e AND PTE_RSW_MSK)))"
  using assms default_pte [of e] low_decides [OF rsw_keeps_low [of "PTE_INVALID OR (e AND PTE_RSW_MSK)" PTE_RSW_RSRV]]
  by (simp_all add: fill_entry_def)

lemma expanded_added:
  assumes "wf_tree m (as_pt a)" "l < 2" "slot m (as_pt a) va l = Some p" "fresh_block m (as_pt a) b" "b AND mask 12 = 0" "unat b < 2 ^ 56"
  shows "table_added m p b (expanded a p l b m)"
proof -
  note h = hang_added [OF assms]
  have "\<not> pte_table (expanded a p l b m (pte_at b j))" if "j < 512" for j
  proof (cases "pte_valid (m p)")
    case True
    show ?thesis unfolding expanded_entry [OF that] fill_entry_def if_P [OF True] by (rule page_pte_set(2) [OF both_flags])
  next
    case False
    then show ?thesis unfolding expanded_entry [OF that] by (rule filled_low(2))
  qed
  moreover have "expanded a p l b m q = hang_table p b m q" if "\<forall>j < 512. q \<noteq> pte_at b j" for q
    using that by (auto simp: expanded_def)
  moreover have "\<forall>j < 512. p \<noteq> pte_at b j"
  proof (intro allI impI)
    fix j :: nat assume j: "j < 512"
    obtain c where c: "tbl m (as_pt a) va l = Some c" "p = pte_at c (vidx (as_pt a) va l)" using assms(3) by (auto simp: slot_def)
    have "l < 3" using assms(2) by simp
    from assms(4) [unfolded fresh_block_def, THEN conjunct2, rule_format, OF this c(1) vidx_less j]
    show "p \<noteq> pte_at b j" using c(2) by metis
  qed
  ultimately show ?thesis using h by (simp add: table_added_def)
qed

text \<open>The new entries say about every address of the block what the old one said.\<close>

lemma expanded_says_same:
  assumes "l < 2" "pte_addr e AND mask (obits l) = 0" "pte_valid e"
    and "i = unat va div 2 ^ obits (Suc l) mod 512"
    and "page_bits PTE_PAGE flags"
  shows "maps_to (pte_set (pte_addr e + of_nat (i * 2 ^ obits (Suc l))) PTE_PAGE flags) (Suc l) va = maps_to e l va"
proof -
  let ?o = "(2::nat) ^ obits l" and ?o' = "(2::nat) ^ obits (Suc l)" and ?pa = "pte_addr e"
  have oo: "?o = ?o' * 512" using assms(1) by (cases l) (auto simp: obits_def less_Suc_eq)
  have o56: "?o \<le> 2 ^ 56" by (rule power_increasing) (simp_all add: obits_def)
  have i: "i < 512" using assms(4) by simp
  have pm: "unat ?pa mod ?o = 0" using assms(2) by (metis unat_and_mask unat_0)
  have p56: "unat ?pa < 2 ^ 56"
  proof -
    have "?pa AND mask 56 = ?pa"
      by (rule bit_word_eqI) (auto simp: pte_addr_def PTE_ADDR_MSK_def bit_and_iff bit_mask_iff bit_push_bit_iff)
    then have "unat ?pa mod 2 ^ 56 = unat ?pa" by (metis unat_and_mask)
    then show ?thesis by (metis mod_less_divisor zero_less_numeral zero_less_power)
  qed
  have top: "unat ?pa + ?o \<le> 2 ^ 56"
  proof -
    have "(2::nat) ^ 56 = ?o * 2 ^ (56 - obits l)" by (simp add: obits_def flip: power_add)
    moreover have "unat ?pa = ?o * (unat ?pa div ?o)" using pm by (metis add.right_neutral mult_div_mod_eq)
    ultimately have "unat ?pa div ?o < 2 ^ (56 - obits l)" using p56 by (metis mult_less_cancel1)
    then have "?o * Suc (unat ?pa div ?o) \<le> ?o * 2 ^ (56 - obits l)" by (intro mult_le_mono2) simp
    then show ?thesis using \<open>2 ^ 56 = _\<close> \<open>unat ?pa = _\<close> by simp
  qed
  have io: "Suc i * ?o' \<le> ?o" unfolding oo using i by (simp add: mult.commute)
  have iw: "unat (of_nat (i * ?o') :: u64) = i * ?o'" using io o56 by (intro unat_of_nat_u64) simp
  have pi: "unat (?pa + of_nat (i * ?o')) = unat ?pa + i * ?o'"
    using unat_add_no_wrap [of ?pa "of_nat (i * ?o')"] top io unfolding iw by simp
  have "unat ?pa mod ?o' = 0" using pm unfolding oo by (metis mod_mult_right_eq mod_mod_cancel dvd_triv_left mod_0)
  then have m': "unat (?pa + of_nat (i * ?o')) mod ?o' = 0" unfolding pi by (simp add: mod_mult_self1 mod_add_left_eq [symmetric])
  have new: "maps_to (pte_set (?pa + of_nat (i * ?o')) PTE_PAGE flags) (Suc l) va =
      Some (?pa + of_nat (i * ?o') + of_nat (unat va mod ?o'))"
  proof (rule maps_to_page [OF _ assms(5) m'])
    show "Suc l < 3" using assms(1) by simp
    show "unat (?pa + of_nat (i * ?o')) + ?o' \<le> 2 ^ 56" unfolding pi using top io by simp
  qed
  have "unat va mod ?o = ?o' * i + unat va mod ?o'" unfolding oo assms(4) by (rule mod_mult2_eq)
  then have "of_nat (i * ?o') + of_nat (unat va mod ?o') = (of_nat (unat va mod ?o) :: u64)" by (simp add: mult.commute flip: of_nat_add of_nat_mult)
  then have new': "?pa + of_nat (i * ?o') + of_nat (unat va mod ?o') = ?pa + of_nat (unat va mod ?o)" by (simp add: add.assoc)
  have "maps_to e l va = Some (?pa + of_nat (unat va mod ?o))"
    using assms(2,3) word_low_add [of ?pa "obits l" va] by (simp add: maps_to_def)
  then show ?thesis using new new' by simp
qed

lemma phys_expanded:
  assumes "wf_tree m (as_pt a)" "l < 2" "slot m (as_pt a) va l = Some p" "\<not> pte_table (m p)" "fresh_block m (as_pt a) b"
    "b AND mask 12 = 0" "unat b < 2 ^ 56" and al: "pte_valid (m p) \<longrightarrow> pte_addr (m p) AND mask (obits l) = 0"
  shows "phys (expanded a p l b m) (as_pt a) x = phys m (as_pt a) x"
proof -
  let ?pt = "as_pt a" and ?i = "vidx (as_pt a) x (Suc l)"
  note ad = assms(1-5) expanded_added [OF assms(1-3,5-7)]
  show ?thesis
  proof (cases "same_entry ?pt va x l")
    case False
    then show ?thesis using phys_added [OF ad, of x] by simp
  next
    case True
    have ix: "?i < 512" "?i = unat x div 2 ^ obits (Suc l) mod 512" by (simp_all add: vidx_def ibits_def)
    have "is_leaf m ?pt x l p"
      using tbl_same [of ?pt va x l m] True assms(2-4) by (auto simp: is_leaf_def slot_def same_tbl_def)
    note old = phys_leaf [OF this]
    have "maps_to (expanded a p l b m (pte_at b ?i)) (Suc l) x = maps_to (m p) l x"
    proof (cases "pte_valid (m p)")
      case v: True
      show ?thesis unfolding expanded_entry [OF ix(1)] fill_entry_def if_P [OF v]
        by (rule expanded_says_same [OF assms(2) _ v ix(2) both_flags]) (use al v in simp)
    next
      case v: False
      then have "maps_to (m p) l x = None" by (simp add: maps_to_def)
      moreover have "\<not> pte_valid (expanded a p l b m (pte_at b ?i))"
        unfolding expanded_entry [OF ix(1)] by (rule filled_low(1) [OF v])
      ultimately show ?thesis by (simp add: maps_to_def)
    qed
    then show ?thesis using phys_added [OF ad, of x] True old by simp
  qed
qed

lemma mem_expand_run:
  assumes "mem_ok E a s" "l < 2" "slot (pt_words s) (as_pt a) va l = Some p" "\<not> pte_table (pt_words s p)"
    and "can_alloc E (as_colors a) 1 s"
  shows "\<exists>s' b. mem_expand_pte E a va l s = Inr s' \<and> fresh_block (pt_words s) (as_pt a) b \<and> b AND mask 12 = 0 \<and> unat b < 2 ^ 56
    \<and> pt_words s' = expanded a p l b (pt_words s) \<and> mem_ok E a s'"
proof -
  let ?pt = "as_pt a" and ?m = "pt_words s"
  note ok = mem_okD [OF assms(1)]
  note g = geometry [OF ok(3)]
  have l3: "l < 3" "Suc l < 3" using assms(2) by simp_all
  let ?vld = "pte_valid (?m p)" and ?rsv = "pte_check_rsw (?m p) PTE_RSW_RSRV"
  let ?flags = "if as_typ a = AS_HYP then PTE_HYP_FLAGS else PTE_VM_FLAGS"
  have p0: "p \<noteq> 0" by (rule slot_nonzero [OF ok(1) l3(1) assms(3)])
  obtain s1 b where al: "mem_alloc_pt E a p l va s = Inr (s1, b)" "fresh_block ?m ?pt b" "b AND mask 12 = 0" "unat b < 2 ^ 56"
      "pt_words s1 = hang_table p b ?m" "mem_ok E a s1"
    using mem_alloc_pt_spec [OF assms(1-4), of 0] assms(5) by auto
  have ix: "pt_getpteindex ?pt b (Suc l) = Inr 0"
    using g(4) [OF l3(2)] al(3) by (simp add: pt_getpteindex_def ibits_def mask_eq_exp_minus_1)
  have nz: "\<forall>j < 512. pte_at b j \<noteq> 0" using al(2) by (simp add: fresh_block_def)
  note ad = expanded_added [OF ok(1) assms(2,3) al(2-4)]
  note hg = phys_hang(3) [OF ok(1) assms(2-4) al(2-4)]
  have words: "(\<lambda>q. if \<exists>j \<ge> 0. j < 512 \<and> q = pte_at b j
      then fill_entry ?vld ?rsv PTE_PAGE ?flags (pte_addr (?m p) + of_nat ((THE j. j < 512 \<and> q = pte_at b j) * 2 ^ obits (Suc l))) (pt_words t q)
      else pt_words t q) = expanded a p l b ?m" if "pt_words t = hang_table p b ?m" for t :: mem_state
    unfolding expanded_def that by (rule ext) (auto simp: hg)
  have fill: "expand_fill ?vld ?rsv PTE_PAGE ?flags (2 ^ obits (Suc l)) 512 0 b (pte_addr (?m p)) t =
      Inr (t\<lparr>pt_words := expanded a p l b ?m\<rparr>)" if "pt_words t = hang_table p b ?m" for t
    using expand_fill_run [OF nz order_refl, of ?vld ?rsv PTE_PAGE ?flags "2 ^ obits (Suc l)" 0 "pte_addr (?m p)" t]
    unfolding words [OF that] by (simp add: pte_at_def)
  have same: "expanded a p l b ?m = hang_table p b ?m" if "\<not> ?vld" "\<not> ?rsv"
    unfolding expanded_def using that by (auto simp: fun_eq_iff fill_entry_def hg)
  have "\<exists>s'. mem_expand_pte E a va l s = Inr s' \<and> pt_words s' = expanded a p l b ?m \<and> page_pools s' = page_pools s1"
  proof (cases "?vld \<or> ?rsv")
    case True
    let ?t = "tlb_inv_va (cpu_as E) va s1"
    have t: "pt_words ?t = hang_table p b ?m" "page_pools ?t = page_pools s1"
      using al(5) by (simp_all add: tlb_inv_va_def split: as_type.split)
    show ?thesis
      using g(1) g(2,3) [OF l3(2)] get_pte_slot [OF ok(3) l3(1) assms(3)] p0 assms(2,4) al(1) ix True fill [OF t(1)] t(2)
      by (simp add: mem_expand_pte_def Let_def page_type ibits_def)
  next
    case False
    then show ?thesis
      using g(1) get_pte_slot [OF ok(3) l3(1) assms(3)] p0 assms(2,4) al(1,5) same by (simp add: mem_expand_pte_def Let_def)
  qed
  then obtain s' where s': "mem_expand_pte E a va l s = Inr s'" "pt_words s' = expanded a p l b ?m" "page_pools s' = page_pools s1" by blast
  have "tbl (expanded a p l b ?m) ?pt x k = tbl (hang_table p b ?m) ?pt x k" if "k < 3" for x k
    using tbl_added [OF ok(1) assms(2-4) al(2) ad, of k x]
      tbl_added [OF ok(1) assms(2-4) al(2) hang_added [OF ok(1) assms(2,3) al(2-4)], of k x] that by simp
  then have "tree_owned (page_pools s1) (expanded a p l b ?m) ?pt"
    using al(5,6) by (auto simp: mem_ok_def tree_owned_def fresh_block_def)
  then have "mem_ok E a s'"
    using s'(2,3) al(6) wf_added [OF ok(1) assms(2-4) al(2) ad] by (simp add: mem_ok_def)
  then show ?thesis using s'(1,2) al(2-4) by blast
qed

lemma rsw_set_check: "pte_check_rsw (pte_set_rsw e f) f"
  by (simp add: pte_check_rsw_def pte_set_rsw_def bit_eq_iff bit_simps) blast

text \<open>The table at \<open>b\<close> holds only entries that are invalid and reserved.\<close>

definition all_reserved :: "pt_mem \<Rightarrow> pte_ptr \<Rightarrow> bool" where
  "all_reserved m b \<longleftrightarrow> (\<forall>j < 512. \<not> pte_valid (m (pte_at b j)) \<and> pte_check_rsw (m (pte_at b j)) PTE_RSW_RSRV)"

lemma expanded_reserved:
  assumes "\<not> pte_valid (m p)" "pte_check_rsw (m p) PTE_RSW_RSRV"
  shows "all_reserved (expanded a p l b m) b"
proof -
  have "\<not> pte_valid (expanded a p l b m (pte_at b j)) \<and> pte_check_rsw (expanded a p l b m (pte_at b j)) PTE_RSW_RSRV"
    if "j < 512" for j
    unfolding expanded_entry [OF that] by (rule conjI, rule filled_low(1) [OF assms(1)], simp add: assms fill_entry_def rsw_set_check)
  then show ?thesis by (simp add: all_reserved_def)
qed

text \<open>
  C20. Splitting a page changes no translation: \<open>mem_expand_pte\<close> replaces the entry of an address
  by a table, unless it is one or belongs to the last level. With a page for the table, and when
  the entry, if it maps a superpage, is aligned to the size of that superpage (otherwise the
  bases of the parts and of the whole differ), it succeeds and every address translates as before;
  the address has a slot at the next level, and a reserved entry leaves a table of reserved
  entries.
\<close>

theorem mem_expand_preserves:
  assumes "mem_ok E a s" "l < 3" "slot (pt_words s) (as_pt a) va l = Some p" "can_alloc E (as_colors a) 1 s"
    and "pte_valid (pt_words s p) \<and> \<not> pte_table (pt_words s p) \<longrightarrow> pte_addr (pt_words s p) AND mask (obits l) = 0"
  shows "\<exists>s'. mem_expand_pte E a va l s = Inr s' \<and> mem_ok E a s'
    \<and> (\<forall>x. mem_translate (pt_words s') (as_pt a) x = mem_translate (pt_words s) (as_pt a) x)
    \<and> (l < 2 \<longrightarrow> (\<exists>q. slot (pt_words s') (as_pt a) va (Suc l) = Some q))
    \<and> (l < 2 \<and> \<not> pte_valid (pt_words s p) \<and> pte_check_rsw (pt_words s p) PTE_RSW_RSRV \<longrightarrow>
        (\<exists>b. slot (pt_words s') (as_pt a) va (Suc l) = Some (pte_at b (vidx (as_pt a) va (Suc l))) \<and> all_reserved (pt_words s') b))"
proof -
  let ?pt = "as_pt a" and ?m = "pt_words s"
  note ok = mem_okD [OF assms(1)]
  note g = geometry [OF ok(3)]
  consider "l = 2" | "l < 2" "pte_table (?m p)" | "l < 2" "\<not> pte_table (?m p)" using assms(2) by linarith
  then show ?thesis
  proof cases
    case 1
    then have "mem_expand_pte E a va l s = Inr s" using g(1) by (simp add: mem_expand_pte_def)
    then show ?thesis using assms(1) 1 by simp
  next
    case 2
    then have "mem_expand_pte E a va l s = Inr s"
      using g(1) get_pte_slot [OF ok(3) assms(2,3)] by (simp add: mem_expand_pte_def)
    then show ?thesis using assms(1) wf_slot_next(2) [OF ok(1) assms(2,3) 2(2)] table_valid [OF 2(2)] by simp
  next
    case 3
    obtain s' b where r: "mem_expand_pte E a va l s = Inr s'" "fresh_block ?m ?pt b" "b AND mask 12 = 0" "unat b < 2 ^ 56"
        "pt_words s' = expanded a p l b ?m" "mem_ok E a s'"
      using mem_expand_run [OF assms(1) 3(1) assms(3) 3(2) assms(4)] by blast
    note ad = ok(1) 3(1) assms(3) 3(2) r(2) expanded_added [OF ok(1) 3(1) assms(3) r(2-4)]
    have "phys (pt_words s') ?pt x = phys ?m ?pt x" for x
      using phys_expanded [OF ok(1) 3(1) assms(3) 3(2) r(2-4)] assms(5) 3(2) r(5) by simp
    moreover have "slot (pt_words s') ?pt va (Suc l) = Some (pte_at b (vidx ?pt va (Suc l)))"
      using tbl_added [OF ad, of "Suc l" va] 3(1) r(5) by (simp add: slot_def same_tbl_def)
    moreover have "all_reserved (pt_words s') b" if "\<not> pte_valid (?m p)" "pte_check_rsw (?m p) PTE_RSW_RSRV"
      unfolding r(5) using that by (rule expanded_reserved)
    ultimately show ?thesis using r(1,6) ok(1) mem_okD(1) [OF r(6)] by (auto simp: translate_phys)
  qed
qed

text \<open>A gigabyte page of the demonstration address space, split into 2 MiB pages.\<close>

definition demo_super :: mem_state where
  "demo_super = demo_mem\<lparr>pt_words := (\<lambda>_. 0)(0x80000008 := pte_set 0x80000000 PTE_SUPERPAGE PTE_VM_FLAGS)\<rparr>"

theorem mem_expand_preserves_witness:
  "\<exists>s'. mem_expand_pte demo_env demo_as 0x40201234 0 demo_super = Inr s'
    \<and> mem_translate (pt_words s') (as_pt demo_as) 0x40201234 = mem_translate (pt_words demo_super) (as_pt demo_as) 0x40201234"
proof -
  let ?pt = "as_pt demo_as" and ?e = "pte_set 0x80000000 PTE_PAGE PTE_VM_FLAGS"
  have sl: "slot m ?pt 0x40201234 0 = Some 0x80000008" for m
    by (simp add: slot_def vidx_def obits_def ibits_def demo_as_def pte_at_def)
  have b: "page_bits PTE_PAGE PTE_VM_FLAGS" by (simp add: page_bits_def PTE_VM_FLAGS_def)
  have ok: "mem_ok demo_env demo_as demo_super"
    using mem_ok_write [OF demo_mem_ok(1) _ sl page_pte_set(2) [OF b], of "0x80000000"]
    by (simp add: demo_super_def demo_mem_def PTE_SUPERPAGE_def)
  have w: "pt_words demo_super 0x80000008 = ?e" by (simp add: demo_super_def PTE_SUPERPAGE_def)
  have "pte_addr ?e = 0x80000000" unfolding addr_of_pte_set by (simp add: PTE_ADDR_MSK_def mask_eq_exp_minus_1)
  then have al: "pte_addr (pt_words demo_super 0x80000008) AND mask (obits 0) = 0"
    by (simp add: w obits_def mask_eq_exp_minus_1)
  have ca: "can_alloc demo_env (as_colors demo_as) 1 demo_super"
    using demo_mem_ok(2) [of 1] can_alloc_pools [of demo_super demo_mem demo_env 0 1] by (simp add: demo_super_def demo_as_def)
  from mem_expand_preserves [OF ok _ sl ca] al show ?thesis by fastforce
qed

end
