(* ===== verification/Identity_Map.thy ===== *)
theory Identity_Map
  imports Mem_Map
begin

text \<open>
  The hypervisor's identity map of physical memory, one entry of a gigabyte per write: what each
  write, each region and all regions map.
\<close>

section \<open>The identity map\<close>

lemma identity_entry:
  assumes "wf_tree m pt" "g < nent pt 0" "g < 2 ^ 26"
  shows "pt_getpteindex_by_va pt (of_nat (g * 2 ^ 30)) 0 = Inr g"
    and "wf_tree (m(pte_at (pt_root pt) g := pte_set (of_nat (g * 2 ^ 30)) PTE_SUPERPAGE PTE_HYP_FLAGS)) pt"
    and "phys (m(pte_at (pt_root pt) g := pte_set (of_nat (g * 2 ^ 30)) PTE_SUPERPAGE PTE_HYP_FLAGS)) pt x =
      (if vpos pt x div 2 ^ 30 = g then Some (of_nat (vpos pt x)) else phys m pt x)"
proof -
  let ?va = "of_nat (g * 2 ^ 30) :: u64"
  let ?m = "m(pte_at (pt_root pt) g := pte_set ?va PTE_PAGE PTE_HYP_FLAGS)"
  have u: "unat ?va = g * 2 ^ 30" using assms(3) by (intro unat_of_nat_u64) simp
  have vi: "vidx pt ?va 0 = g" unfolding vidx_def u using assms(2) by (simp add: obits_def)
  show "pt_getpteindex_by_va pt ?va 0 = Inr g" using index_by_va [OF wf_treeD(1) [OF assms(1)], of 0 ?va] vi by simp
  have "vtop pt = 2 ^ 30 * nent pt 0" by (simp add: vtop_def power_add)
  then have "g * 2 ^ 30 < vtop pt" using assms(2) by simp
  then have vp: "vpos pt ?va = g * 2 ^ 30" unfolding vpos_def u by (rule mod_less)
  have sl: "slot m pt ?va 0 = Some (pte_at (pt_root pt) g)" unfolding slot_def vi by simp
  have b: "page_bits PTE_PAGE PTE_HYP_FLAGS" by (simp add: page_bits_def PTE_HYP_FLAGS_def)
  have z3: "(0::nat) < 3" by simp
  show "wf_tree (m(pte_at (pt_root pt) g := pte_set ?va PTE_SUPERPAGE PTE_HYP_FLAGS)) pt"
    unfolding PTE_SUPERPAGE_def by (rule wf_write [OF assms(1) z3 sl page_pte_set(2) [OF b]])
  have "Suc g * 2 ^ 30 \<le> 2 ^ 26 * 2 ^ 30" using assms(3) by (intro mult_le_mono1) simp
  then have "block_mapped pt m ?m (g * 2 ^ 30) (2 ^ 30) ?va"
    using page_written [OF assms(1) z3 sl b, of ?va] u vp by (simp add: obits_def)
  then have p: "phys ?m pt x = (if g * 2 ^ 30 \<le> vpos pt x \<and> vpos pt x < g * 2 ^ 30 + 2 ^ 30
      then Some (?va + of_nat (vpos pt x - g * 2 ^ 30)) else phys m pt x)"
    by (simp add: block_mapped_def)
  have i: "vpos pt x div 2 ^ 30 = g \<longleftrightarrow> g * 2 ^ 30 \<le> vpos pt x \<and> vpos pt x < g * 2 ^ 30 + 2 ^ 30"
    using div_block [of "2 ^ 30" "vpos pt x" g] by (simp add: mult.commute add.commute)
  have e: "?va + of_nat (vpos pt x - g * 2 ^ 30) = of_nat (vpos pt x)" if "g * 2 ^ 30 \<le> vpos pt x"
    using that by (simp only: of_nat_add [symmetric] le_add_diff_inverse)
  show "phys (m(pte_at (pt_root pt) g := pte_set ?va PTE_SUPERPAGE PTE_HYP_FLAGS)) pt x =
      (if vpos pt x div 2 ^ 30 = g then Some (of_nat (vpos pt x)) else phys m pt x)"
    unfolding PTE_SUPERPAGE_def p i using e by simp
qed

lemma identity_entries:
  assumes "wf_tree m pt" "b0 + n \<le> nent pt 0"
  shows "\<exists>m'. foldR (\<lambda>j m. let addr = of_nat (b0 * 2 ^ 30) + of_nat j * of_nat (2 ^ 30) in
      bindR (pt_getpteindex_by_va pt addr 0) (\<lambda>index.
      Inr (m(pte_at (pt_root pt) index := pte_set addr PTE_SUPERPAGE PTE_HYP_FLAGS)))) [0..<n] m = Inr m'
    \<and> wf_tree m' pt
    \<and> (\<forall>x. phys m' pt x = (if b0 \<le> vpos pt x div 2 ^ 30 \<and> vpos pt x div 2 ^ 30 < b0 + n
        then Some (of_nat (vpos pt x)) else phys m pt x))"
  using assms(2)
proof (induction n)
  case 0
  then show ?case using assms(1) by auto
next
  case (Suc n)
  let ?f = "\<lambda>j m. let addr = of_nat (b0 * 2 ^ 30) + of_nat j * of_nat (2 ^ 30) in
      bindR (pt_getpteindex_by_va pt addr 0) (\<lambda>index.
      Inr (m(pte_at (pt_root pt) index := pte_set addr PTE_SUPERPAGE PTE_HYP_FLAGS)))"
  obtain m1 where m1: "foldR ?f [0..<n] m = Inr m1" "wf_tree m1 pt"
      "\<forall>x. phys m1 pt x = (if b0 \<le> vpos pt x div 2 ^ 30 \<and> vpos pt x div 2 ^ 30 < b0 + n
        then Some (of_nat (vpos pt x)) else phys m pt x)"
  proof -
    have "b0 + n \<le> nent pt 0" using Suc.prems by simp
    from that Suc.IH [OF this] show ?thesis by (elim exE conjE)
  qed
  have g: "b0 + n < nent pt 0" "b0 + n < 2 ^ 26" using Suc.prems nent_le [of pt 0] by simp_all
  note e = identity_entry [OF m1(2) g]
  let ?va = "of_nat ((b0 + n) * 2 ^ 30) :: u64"
  have a: "of_nat (b0 * 2 ^ 30) + of_nat n * of_nat (2 ^ 30) = ?va" by (simp add: algebra_simps)
  have "foldR ?f [0..<Suc n] m = Inr (m1(pte_at (pt_root pt) (b0 + n) := pte_set ?va PTE_SUPERPAGE PTE_HYP_FLAGS))"
    unfolding foldR_upt_Suc m1(1) bindR_Inr a unfolding Let_def e(1) bindR_Inr ..
  moreover have "phys (m1(pte_at (pt_root pt) (b0 + n) := pte_set ?va PTE_SUPERPAGE PTE_HYP_FLAGS)) pt x =
     (if b0 \<le> vpos pt x div 2 ^ 30 \<and> vpos pt x div 2 ^ 30 < b0 + Suc n then Some (of_nat (vpos pt x)) else phys m pt x)" for x
    unfolding e(3) using m1(3) by auto
  ultimately show ?case using e(2) by blast
qed

lemma unat_gb_floor: "unat (w AND NOT (mask 30) :: u64) = unat w div 2 ^ 30 * 2 ^ 30"
proof -
  have "unat (w AND NOT (mask 30)) = push_bit 30 (drop_bit 30 (unat w))"
    by (rule bit_eqI)
      (auto simp: bit_unsigned_iff bit_and_iff bit_not_iff bit_mask_iff bit_push_bit_iff bit_drop_bit_eq dest: bit_imp_le_length)
  then show ?thesis by (simp add: push_bit_eq_mult drop_bit_eq_div)
qed

lemma unat_gb: "k \<le> 2 ^ 30 \<Longrightarrow> unat (of_nat (k * 2 ^ 30) :: u64) = k * 2 ^ 30"
  by (intro unat_of_nat_u64) simp

text \<open>The gigabytes a region of memory touches.\<close>

definition gb_in :: "paddr \<times> u64 \<Rightarrow> nat \<Rightarrow> bool" where
  "gb_in r g \<longleftrightarrow> unat (fst r) div 2 ^ 30 \<le> g \<and> g < (unat (fst r) + unat (snd r) + (2 ^ 30 - 1)) div 2 ^ 30"

definition region_ok :: "paddr \<times> u64 \<Rightarrow> bool" where
  "region_ok r \<longleftrightarrow> snd r \<noteq> 0 \<and> unat (fst r) + unat (snd r) \<le> 2 ^ 39"

lemma map_region_spec:
  assumes "wf_tree m pt" "region_ok r"
  shows "\<exists>m'. map_region_identity pt r m = Inr m' \<and> wf_tree m' pt
    \<and> (\<forall>x. phys m' pt x = (if gb_in r (vpos pt x div 2 ^ 30) then Some (of_nat (vpos pt x)) else phys m pt x))"
proof -
  obtain rb rs where r: "r = (rb, rs)" by (cases r)
  define b0 t0 where "b0 = unat rb div 2 ^ 30" and "t0 = (unat rb + unat rs + (2 ^ 30 - 1)) div 2 ^ 30"
  have rs: "0 < unat rs" "unat rb + unat rs \<le> 2 ^ 39" using assms(2) by (auto simp: region_ok_def r unat_gt_0)
  have lt: "b0 < t0" "t0 \<le> 512" using rs unfolding b0_def t0_def by simp_all
  have ub: "unat (of_nat (b0 * 2 ^ 30) :: u64) = b0 * 2 ^ 30" "unat (of_nat (t0 * 2 ^ 30) :: u64) = t0 * 2 ^ 30"
    using lt by (intro unat_gb, simp)+
  have base: "rb AND NOT (of_nat (2 ^ 30) - 1) = of_nat (b0 * 2 ^ 30)"
    unfolding nat_mask word_unat_eq_iff unat_gb_floor ub by (simp add: b0_def)
  have sum: "unat (rb + rs) = unat rb + unat rs" using rs(2) by (intro unat_add_no_wrap) simp
  have g30: "unat (of_nat (2 ^ 30) :: u64) = 2 ^ 30" by simp
  have "unat (rb + rs + of_nat (2 ^ 30) - 1) = unat rb + unat rs + (2 ^ 30 - 1)"
  proof -
    have "rb + rs + of_nat (2 ^ 30) - 1 = (rb + rs) + of_nat (2 ^ 30 - 1)" by simp
    moreover have c: "unat (of_nat (2 ^ 30 - 1) :: u64) = 2 ^ 30 - 1" by simp
    have "unat (rb + rs + of_nat (2 ^ 30 - 1)) = unat rb + unat rs + (2 ^ 30 - 1)"
    proof -
      have "unat rb + unat rs + (2 ^ 30 - 1) < 2 ^ 64" using rs(2) by simp
      then show ?thesis using unat_add_no_wrap [of "rb + rs" "of_nat (2 ^ 30 - 1)"] unfolding sum c by blast
    qed
    ultimately show ?thesis by (simp only:)
  qed
  then have "unat ((rb + rs + of_nat (2 ^ 30) - 1) div of_nat (2 ^ 30)) = t0" unfolding unat_div g30 t0_def by simp
  moreover have "unat (of_nat t0 :: u64) = t0" using lt(2) by (intro unat_of_nat_u64) simp
  ultimately have "(rb + rs + of_nat (2 ^ 30) - 1) div of_nat (2 ^ 30) = of_nat t0" unfolding word_unat_eq_iff by (simp only:)
  then have al: "ALIGN (rb + rs) (of_nat (2 ^ 30)) = of_nat (t0 * 2 ^ 30)" unfolding ALIGN_def by (simp only: of_nat_mult)
  have "unat ((of_nat (t0 * 2 ^ 30) :: u64) AND NOT (mask 30)) = unat (of_nat (t0 * 2 ^ 30) :: u64)"
    unfolding unat_gb_floor ub by simp
  then have top: "ALIGN (rb + rs) (of_nat (2 ^ 30)) AND NOT (of_nat (2 ^ 30) - 1) = of_nat (t0 * 2 ^ 30)"
    unfolding al nat_mask word_unat_eq_iff .
  have num: "unat ((of_nat (t0 * 2 ^ 30) - of_nat (b0 * 2 ^ 30) - 1) div of_nat (2 ^ 30) + 1 :: u64) = t0 - b0"
  proof -
    define k where "k = (t0 - b0) - 1"
    have "of_nat (t0 * 2 ^ 30) - of_nat (b0 * 2 ^ 30) - 1 = (of_nat (k * 2 ^ 30 + (2 ^ 30 - 1)) :: u64)"
    proof -
      have "t0 * 2 ^ 30 = b0 * 2 ^ 30 + (k * 2 ^ 30 + (2 ^ 30 - 1)) + 1" using lt by (simp add: k_def algebra_simps)
      then show ?thesis by (simp only: of_nat_add of_nat_1) simp
    qed
    note w = this
    have u: "unat (of_nat (k * 2 ^ 30 + (2 ^ 30 - 1)) :: u64) = k * 2 ^ 30 + (2 ^ 30 - 1)"
      using lt by (intro unat_of_nat_u64) (simp add: k_def)
    have d: "unat ((of_nat (t0 * 2 ^ 30) - of_nat (b0 * 2 ^ 30) - 1) div of_nat (2 ^ 30) :: u64) = k"
      unfolding unat_div g30 w u by simp
    then show ?thesis using unat_add_no_wrap [of "(of_nat (t0 * 2 ^ 30) - of_nat (b0 * 2 ^ 30) - 1) div of_nat (2 ^ 30)" 1] lt
      unfolding d by (simp add: k_def)
  qed
  have "b0 + (t0 - b0) \<le> nent pt 0" using lt by (simp add: ibits_def)
  from identity_entries [OF assms(1) this] obtain m' where m': "foldR (\<lambda>j m. let addr = of_nat (b0 * 2 ^ 30) + of_nat j * of_nat (2 ^ 30) in
      bindR (pt_getpteindex_by_va pt addr 0) (\<lambda>index.
      Inr (m(pte_at (pt_root pt) index := pte_set addr PTE_SUPERPAGE PTE_HYP_FLAGS)))) [0..<t0 - b0] m = Inr m'"
    "wf_tree m' pt" "\<forall>x. phys m' pt x = (if b0 \<le> vpos pt x div 2 ^ 30 \<and> vpos pt x div 2 ^ 30 < b0 + (t0 - b0)
        then Some (of_nat (vpos pt x)) else phys m pt x)" by blast
  have gz: "pt_lvlsize pt 0 = Inr (2 ^ 30)" using geometry(3) [OF wf_treeD(1) [OF assms(1)], of 0] by (simp add: obits_def)
  have "map_region_identity pt r m = Inr m'"
    unfolding map_region_identity_def r prod.case gz bindR_Inr Let_def base top num using m'(1) [unfolded Let_def] .
  moreover have "gb_in r g \<longleftrightarrow> b0 \<le> g \<and> g < b0 + (t0 - b0)" for g using lt by (simp add: gb_in_def r b0_def t0_def)
  ultimately show ?thesis using m'(2,3) by auto
qed

lemma identity_map_spec:
  assumes "wf_tree m pt" "\<forall>r \<in> set rs. region_ok r"
  shows "\<exists>m'. as_map_physical_identity rs pt m = Inr m' \<and> wf_tree m' pt
    \<and> (\<forall>x. phys m' pt x = (if \<exists>r \<in> set rs. gb_in r (vpos pt x div 2 ^ 30) then Some (of_nat (vpos pt x)) else phys m pt x))"
  using assms
proof (induction rs arbitrary: m)
  case Nil
  then show ?case by (simp add: as_map_physical_identity_def)
next
  case (Cons r rs)
  obtain m1 where m1: "map_region_identity pt r m = Inr m1" "wf_tree m1 pt"
    "\<forall>x. phys m1 pt x = (if gb_in r (vpos pt x div 2 ^ 30) then Some (of_nat (vpos pt x)) else phys m pt x)"
  proof -
    have "region_ok r" using Cons.prems(2) by simp
    from that map_region_spec [OF Cons.prems(1) this] show ?thesis by (elim exE conjE)
  qed
  have "\<forall>r \<in> set rs. region_ok r" using Cons.prems(2) by simp
  from Cons.IH [OF m1(2) this] m1(3) show ?case
    by (simp add: as_map_physical_identity_def m1(1)) (elim exE conjE, auto)
qed

text \<open>
  C21. The identity map: \<open>as_map_physical_identity\<close> makes the hypervisor's table translate every
  address of every region of physical memory to itself, and keeps every translation outside the
  gigabytes that the regions touch.
\<close>

theorem identity_map_exact:
  assumes "wf_tree m pt" "\<forall>r \<in> set rs. region_ok r"
  shows "\<exists>m'. as_map_physical_identity rs pt m = Inr m' \<and> wf_tree m' pt
    \<and> (\<forall>(b, sz) \<in> set rs. \<forall>x. unat b \<le> unat x \<and> unat x < unat b + unat sz \<longrightarrow> mem_translate m' pt x = Inr (Some x))
    \<and> (\<forall>x. (\<forall>r \<in> set rs. \<not> gb_in r (vpos pt x div 2 ^ 30)) \<longrightarrow> mem_translate m' pt x = mem_translate m pt x)"
proof -
  obtain m' where m': "as_map_physical_identity rs pt m = Inr m'" "wf_tree m' pt"
    "\<forall>x. phys m' pt x = (if \<exists>r \<in> set rs. gb_in r (vpos pt x div 2 ^ 30) then Some (of_nat (vpos pt x)) else phys m pt x)"
    using identity_map_spec [OF assms] by (elim exE conjE)
  have "phys m' pt x = Some x" if r: "(b, sz) \<in> set rs" "unat b \<le> unat x" "unat x < unat b + unat sz" for b sz x
  proof -
    have "unat b + unat sz \<le> 2 ^ 39" using assms(2) r(1) by (auto simp: region_ok_def)
    moreover have "(2::nat) ^ 39 \<le> vtop pt" unfolding vtop_def by (rule power_increasing) (simp_all add: ibits_def)
    ultimately have v: "vpos pt x = unat x" using r(3) by (simp add: vpos_def)
    have "unat x div 2 ^ 30 < (unat b + unat sz + (2 ^ 30 - 1)) div 2 ^ 30" using r(3) by simp
    then have "gb_in (b, sz) (vpos pt x div 2 ^ 30)" using r(2) unfolding gb_in_def v by (simp add: div_le_mono)
    then show ?thesis using m'(3) r(1) v by auto
  qed
  note inside = this
  have "phys m' pt x = phys m pt x" if "\<forall>r \<in> set rs. \<not> gb_in r (vpos pt x div 2 ^ 30)" for x using m'(3) that by auto
  then show ?thesis using m'(1,2) inside
    by (intro exI [of _ m']) (auto simp: translate_phys [OF assms(1)] translate_phys [OF m'(2)] simp del: split_paired_All)
qed

theorem identity_map_exact_witness:
  "\<exists>m'. as_map_physical_identity [(0x80200000, 0xFFE00000)] \<lparr>pt_root = 0x90000000, pt_dscr = sv39_pt_dscr\<rparr> (\<lambda>_. 0) = Inr m'
    \<and> mem_translate m' \<lparr>pt_root = 0x90000000, pt_dscr = sv39_pt_dscr\<rparr> 0x9ABCDEF0 = Inr (Some 0x9ABCDEF0)
    \<and> mem_translate m' \<lparr>pt_root = 0x90000000, pt_dscr = sv39_pt_dscr\<rparr> 0x7FFFFFFF = Inr None"
proof -
  let ?pt = "\<lparr>pt_root = 0x90000000, pt_dscr = sv39_pt_dscr\<rparr>" and ?r = "(0x80200000 :: u64, 0xFFE00000 :: u64)"
  have ib: "ibits ?pt 0 = 9" by (simp add: ibits_def dscr_differ)
  have wf: "wf_tree (\<lambda>_. 0) ?pt" by (rule wf_zero) (unfold ib, simp_all add: good_pt_def mask_eq_exp_minus_1)
  have rok: "\<forall>r \<in> set [?r]. region_ok r" by (simp add: region_ok_def)
  have out: "\<forall>r \<in> set [?r]. \<not> gb_in r (vpos ?pt 0x7FFFFFFF div 2 ^ 30)"
    by (simp add: gb_in_def vpos_def vtop_def ib)
  from identity_map_exact [OF wf rok] obtain m' where m': "as_map_physical_identity [?r] ?pt (\<lambda>_. 0) = Inr m'"
    "\<forall>(b, sz) \<in> set [?r]. \<forall>x. unat b \<le> unat x \<and> unat x < unat b + unat sz \<longrightarrow> mem_translate m' ?pt x = Inr (Some x)"
    "\<forall>x. (\<forall>r \<in> set [?r]. \<not> gb_in r (vpos ?pt x div 2 ^ 30)) \<longrightarrow> mem_translate m' ?pt x = mem_translate (\<lambda>_. 0) ?pt x"
    by (elim exE conjE)
  have "mem_translate m' ?pt 0x9ABCDEF0 = Inr (Some 0x9ABCDEF0)" using m'(2) by simp
  moreover have "mem_translate m' ?pt 0x7FFFFFFF = Inr None"
    using m'(3) [rule_format, OF out [rule_format]] by (simp add: translate_phys [OF wf] phys_zero)
  ultimately show ?thesis using m'(1) by blast
qed

end
