(* ===== verification/Hart.thy ===== *)
theory Hart
  imports Health_Monitor Cpu_Msg Vplic Addr_Space
begin

text \<open>
  A hart of the machine while the hypervisor runs on it: the virtual machine and vCPU it serves,
  its control registers, and what it shares with the other harts, together with the calls it makes
  to the SBI firmware (the wrappers of \<open>src/arch/riscv/sbi.c\<close>). Trap handlers (Interrupts,
  Hypercall, Sbi, Traps) are functions on this state.
\<close>

section \<open>Firmware calls\<close>

record sbi_req =
  req_eid :: u64
  req_fid :: u64
  req_args :: "u64 list"

record sbiret =
  sbi_error :: u64
  sbi_value :: u64

definition SBI_SUCCESS :: u64 where "SBI_SUCCESS = 0"
definition SBI_ERR_FAILURE :: u64 where "SBI_ERR_FAILURE = - 1"
definition SBI_ERR_NOT_SUPPORTED :: u64 where "SBI_ERR_NOT_SUPPORTED = - 2"
definition SBI_ERR_INVALID_PARAM :: u64 where "SBI_ERR_INVALID_PARAM = - 3"
definition SBI_ERR_ALREADY_AVAILABLE :: u64 where "SBI_ERR_ALREADY_AVAILABLE = - 6"

definition SBI_EXTID_BASE :: u64 where "SBI_EXTID_BASE = 0x10"
definition SBI_GET_SBI_SPEC_VERSION_FID :: u64 where "SBI_GET_SBI_SPEC_VERSION_FID = 0"
definition SBI_PROBE_EXTENSION_FID :: u64 where "SBI_PROBE_EXTENSION_FID = 3"
definition SBI_GET_SBI_IMPL_ID_FID :: u64 where "SBI_GET_SBI_IMPL_ID_FID = 1"
definition SBI_GET_SBI_IMPL_VERSION_FID :: u64 where "SBI_GET_SBI_IMPL_VERSION_FID = 2"
definition SBI_GET_MVENDORID_FID :: u64 where "SBI_GET_MVENDORID_FID = 4"
definition SBI_GET_MARCHID_FID :: u64 where "SBI_GET_MARCHID_FID = 5"
definition SBI_GET_MIMPID_FID :: u64 where "SBI_GET_MIMPID_FID = 6"
definition SBI_HART_STOP_FID :: u64 where "SBI_HART_STOP_FID = 1"
definition SBI_REMOTE_HFENCE_GVMA_FID :: u64 where "SBI_REMOTE_HFENCE_GVMA_FID = 3"
definition SBI_REMOTE_HFENCE_GVMA_VMID_FID :: u64 where "SBI_REMOTE_HFENCE_GVMA_VMID_FID = 4"
definition SBI_EXTID_TIME :: u64 where "SBI_EXTID_TIME = 0x54494D45"
definition SBI_SET_TIMER_FID :: u64 where "SBI_SET_TIMER_FID = 0"
definition SBI_EXTID_IPI :: u64 where "SBI_EXTID_IPI = 0x735049"
definition SBI_SEND_IPI_FID :: u64 where "SBI_SEND_IPI_FID = 0"
definition SBI_EXTID_HSM :: u64 where "SBI_EXTID_HSM = 0x48534D"
definition SBI_HART_START_FID :: u64 where "SBI_HART_START_FID = 0"
definition SBI_HART_STATUS_FID :: u64 where "SBI_HART_STATUS_FID = 2"
definition SBI_EXTID_RFNC :: u64 where "SBI_EXTID_RFNC = 0x52464E43"
definition SBI_REMOTE_FENCE_I_FID :: u64 where "SBI_REMOTE_FENCE_I_FID = 0"
definition SBI_REMOTE_SFENCE_VMA_FID :: u64 where "SBI_REMOTE_SFENCE_VMA_FID = 1"
definition SBI_REMOTE_SFENCE_VMA_ASID_FID :: u64 where "SBI_REMOTE_SFENCE_VMA_ASID_FID = 2"
definition SBI_REMOTE_HFENCE_VVMA_FID :: u64 where "SBI_REMOTE_HFENCE_VVMA_FID = 5"
definition SBI_REMOTE_HFENCE_VVMA_ASID_FID :: u64 where "SBI_REMOTE_HFENCE_VVMA_ASID_FID = 6"
definition SBI_EXTID_BAO :: u64 where "SBI_EXTID_BAO = 0x08000ba0"

text \<open>The requests of the wrappers the hypervisor uses; unused argument registers are 0.\<close>

definition sbi_get_spec_version :: sbi_req where
  "sbi_get_spec_version = \<lparr>req_eid = SBI_EXTID_BASE, req_fid = SBI_GET_SBI_SPEC_VERSION_FID, req_args = [0, 0, 0, 0, 0, 0]\<rparr>"

definition sbi_probe_extension :: "u64 \<Rightarrow> sbi_req" where
  "sbi_probe_extension ext = \<lparr>req_eid = SBI_EXTID_BASE, req_fid = SBI_PROBE_EXTENSION_FID, req_args = [ext, 0, 0, 0, 0, 0]\<rparr>"

definition sbi_send_ipi :: "u64 \<Rightarrow> u64 \<Rightarrow> sbi_req" where
  "sbi_send_ipi hart_mask hart_mask_base =
    \<lparr>req_eid = SBI_EXTID_IPI, req_fid = SBI_SEND_IPI_FID, req_args = [hart_mask, hart_mask_base, 0, 0, 0, 0]\<rparr>"

definition sbi_set_timer :: "u64 \<Rightarrow> sbi_req" where
  "sbi_set_timer stime = \<lparr>req_eid = SBI_EXTID_TIME, req_fid = SBI_SET_TIMER_FID, req_args = [stime, 0, 0, 0, 0, 0]\<rparr>"

definition sbi_remote_fence_i :: "u64 \<Rightarrow> u64 \<Rightarrow> sbi_req" where
  "sbi_remote_fence_i hart_mask hart_mask_base =
    \<lparr>req_eid = SBI_EXTID_RFNC, req_fid = SBI_REMOTE_FENCE_I_FID, req_args = [hart_mask, hart_mask_base, 0, 0, 0, 0]\<rparr>"

definition sbi_remote_hfence_vvma :: "u64 \<Rightarrow> u64 \<Rightarrow> u64 \<Rightarrow> u64 \<Rightarrow> sbi_req" where
  "sbi_remote_hfence_vvma hart_mask hart_mask_base start_addr sz =
    \<lparr>req_eid = SBI_EXTID_RFNC, req_fid = SBI_REMOTE_HFENCE_VVMA_FID, req_args = [hart_mask, hart_mask_base, start_addr, sz, 0, 0]\<rparr>"

definition sbi_remote_hfence_vvma_asid :: "u64 \<Rightarrow> u64 \<Rightarrow> u64 \<Rightarrow> u64 \<Rightarrow> u64 \<Rightarrow> sbi_req" where
  "sbi_remote_hfence_vvma_asid hart_mask hart_mask_base start_addr sz asid =
    \<lparr>req_eid = SBI_EXTID_RFNC, req_fid = SBI_REMOTE_HFENCE_VVMA_ASID_FID,
      req_args = [hart_mask, hart_mask_base, start_addr, sz, asid, 0]\<rparr>"

text \<open>The remaining wrappers of the file, which nothing calls yet.\<close>

definition sbi_get_impl_id :: "sbi_req" where
  "sbi_get_impl_id = \<lparr>req_eid = SBI_EXTID_BASE, req_fid = SBI_GET_SBI_IMPL_ID_FID,
    req_args = [0, 0, 0, 0, 0, 0]\<rparr>"

definition sbi_get_impl_version :: "sbi_req" where
  "sbi_get_impl_version = \<lparr>req_eid = SBI_EXTID_BASE, req_fid = SBI_GET_SBI_IMPL_VERSION_FID,
    req_args = [0, 0, 0, 0, 0, 0]\<rparr>"

definition sbi_get_mvendorid :: "sbi_req" where
  "sbi_get_mvendorid = \<lparr>req_eid = SBI_EXTID_BASE, req_fid = SBI_GET_MVENDORID_FID,
    req_args = [0, 0, 0, 0, 0, 0]\<rparr>"

definition sbi_get_marchid :: "sbi_req" where
  "sbi_get_marchid = \<lparr>req_eid = SBI_EXTID_BASE, req_fid = SBI_GET_MARCHID_FID,
    req_args = [0, 0, 0, 0, 0, 0]\<rparr>"

definition sbi_get_mimpid :: "sbi_req" where
  "sbi_get_mimpid = \<lparr>req_eid = SBI_EXTID_BASE, req_fid = SBI_GET_MIMPID_FID,
    req_args = [0, 0, 0, 0, 0, 0]\<rparr>"

definition sbi_console_putchar :: "u64 \<Rightarrow> sbi_req" where
  "sbi_console_putchar ch = \<lparr>req_eid = 1, req_fid = 0,
    req_args = [ch, 0, 0, 0, 0, 0]\<rparr>"

definition sbi_remote_sfence_vma :: "u64 \<Rightarrow> u64 \<Rightarrow> u64 \<Rightarrow> u64 \<Rightarrow> sbi_req" where
  "sbi_remote_sfence_vma hart_mask hart_mask_base start_addr sz = \<lparr>req_eid = SBI_EXTID_RFNC, req_fid = SBI_REMOTE_SFENCE_VMA_FID,
    req_args = [hart_mask, hart_mask_base, start_addr, sz, 0, 0]\<rparr>"

definition sbi_remote_hfence_gvma :: "u64 \<Rightarrow> u64 \<Rightarrow> u64 \<Rightarrow> u64 \<Rightarrow> sbi_req" where
  "sbi_remote_hfence_gvma hart_mask hart_mask_base start_addr sz = \<lparr>req_eid = SBI_EXTID_RFNC, req_fid = SBI_REMOTE_HFENCE_GVMA_FID,
    req_args = [hart_mask, hart_mask_base, start_addr, sz, 0, 0]\<rparr>"

definition sbi_remote_hfence_gvma_vmid :: "u64 \<Rightarrow> u64 \<Rightarrow> u64 \<Rightarrow> u64 \<Rightarrow> u64 \<Rightarrow> sbi_req" where
  "sbi_remote_hfence_gvma_vmid hart_mask hart_mask_base start_addr sz vmid = \<lparr>req_eid = SBI_EXTID_RFNC, req_fid = SBI_REMOTE_HFENCE_GVMA_VMID_FID,
    req_args = [hart_mask, hart_mask_base, start_addr, sz, vmid, 0]\<rparr>"

definition sbi_hart_start :: "u64 \<Rightarrow> u64 \<Rightarrow> u64 \<Rightarrow> sbi_req" where
  "sbi_hart_start hartid start_addr priv = \<lparr>req_eid = SBI_EXTID_HSM, req_fid = SBI_HART_START_FID,
    req_args = [hartid, start_addr, priv, 0, 0, 0]\<rparr>"

definition sbi_hart_stop :: "sbi_req" where
  "sbi_hart_stop = \<lparr>req_eid = SBI_EXTID_HSM, req_fid = SBI_HART_STOP_FID,
    req_args = [0, 0, 0, 0, 0, 0]\<rparr>"

definition sbi_hart_status :: "u64 \<Rightarrow> sbi_req" where
  "sbi_hart_status hartid = \<lparr>req_eid = SBI_EXTID_HSM, req_fid = SBI_HART_STATUS_FID,
    req_args = [hartid, 0, 0, 0, 0, 0]\<rparr>"

section \<open>The state\<close>

text \<open>
  The interrupt bookkeeping of \<open>src/core/interrupts.c\<close>, shared by all harts. The handlers that the
  code registers are those of messages and of the timer.
\<close>

datatype int_handler = Cpu_msg_handler | Sbi_timer_irq_handler

record int_tables =
  hyp_interrupt_bitmap :: bitmap
  global_interrupt_bitmap :: bitmap
  interrupt_handlers :: "int_handler option list"

text \<open>The static counters of the test hypercall \<open>HC_PLIC_INJECT\<close>.\<close>

record inject_stats =
  inject_total :: u64
  inject_allowed :: u64
  inject_deferred :: u64
  inject_dropped :: u64

text \<open>
  What does not change: the numbers the linker gives the message handlers, the firmware (what it
  answers to a request after the requests so far), the build option for recovery, the monitor's
  configuration of the VM, the environment of the memory manager and whether an IOMMU is active.
\<close>

record hart_env =
  sbi_msg_id :: u32
  vplic_ipi_id :: u32
  ipc_cpumsg_id :: u32
  firmware :: "sbi_req list \<Rightarrow> sbi_req \<Rightarrow> sbiret"
  bao_recovery :: bool
  health_cfg :: vm_health_config
  mem_manager :: mem_env
  iommu_on :: bool

text \<open>
  \<open>cur_vcpu\<close> is the index of \<open>cpu()->vcpu\<close> in its VM; \<open>vs\<close> are the supervisor registers of the
  guest on this hart, whose \<open>hvip\<close> keeps the \<open>VSEIP\<close> bit in \<open>vseip\<close> of \<open>irqs\<close>. \<open>recoveries\<close>
  counts the recoveries of the VM the hart has entered.
\<close>

record 'h hart =
  cpu_id :: cpuid
  cur_vm :: "'h vm"
  cur_vcpu :: nat
  irqs :: irq_state
  msgs :: msg_state
  ints :: int_tables
  plic_cntxt_id :: int
  vs :: vs_csrs
  sie :: u64
  sip :: u64
  ecalls :: "sbi_req list"
  recoveries :: nat
  shmem_table :: "shmem list"
  stats :: inject_stats
  mem :: mem_state
  ram :: "u64 \<Rightarrow> u8"

definition SIE_SSIE :: u64 where "SIE_SSIE = push_bit 1 1"
definition SIE_STIE :: u64 where "SIE_STIE = push_bit 5 1"
definition SIE_SEIE :: u64 where "SIE_SEIE = push_bit 9 1"
definition HIP_VSSIP :: u64 where "HIP_VSSIP = push_bit 2 1"
definition HIP_VSTIP :: u64 where "HIP_VSTIP = push_bit 6 1"

definition csrs_sie :: "u64 \<Rightarrow> 'h hart \<Rightarrow> 'h hart" where "csrs_sie b h = h\<lparr>sie := sie h OR b\<rparr>"
definition csrc_sie :: "u64 \<Rightarrow> 'h hart \<Rightarrow> 'h hart" where "csrc_sie b h = h\<lparr>sie := sie h AND NOT b\<rparr>"
definition csrc_sip :: "u64 \<Rightarrow> 'h hart \<Rightarrow> 'h hart" where "csrc_sip b h = h\<lparr>sip := sip h AND NOT b\<rparr>"
definition csrs_hvip :: "u64 \<Rightarrow> 'h hart \<Rightarrow> 'h hart" where "csrs_hvip b h = h\<lparr>vs := (vs h)\<lparr>hvip := hvip (vs h) OR b\<rparr>\<rparr>"
definition csrc_hvip :: "u64 \<Rightarrow> 'h hart \<Rightarrow> 'h hart" where "csrc_hvip b h = h\<lparr>vs := (vs h)\<lparr>hvip := hvip (vs h) AND NOT b\<rparr>\<rparr>"

definition sbi_ecall :: "hart_env \<Rightarrow> sbi_req \<Rightarrow> 'h hart \<Rightarrow> 'h hart \<times> sbiret" where
  "sbi_ecall E r h = (h\<lparr>ecalls := ecalls h @ [r]\<rparr>, firmware E (ecalls h) r)"

section \<open>The current vCPU\<close>

definition this_vcpu :: "'h hart \<Rightarrow> vcpu res" where
  "this_vcpu h = rd (vm_vcpus (cur_vm h)) (cur_vcpu h)"

definition set_vcpu :: "nat \<Rightarrow> vcpu \<Rightarrow> 'h hart \<Rightarrow> 'h hart res" where
  "set_vcpu i u h = bindR (wr (vm_vcpus (cur_vm h)) i u) (\<lambda>us. Inr (h\<lparr>cur_vm := (cur_vm h)\<lparr>vm_vcpus := us\<rparr>\<rparr>))"

definition read_arg :: "nat \<Rightarrow> 'h hart \<Rightarrow> u64 res" where
  "read_arg r h = bindR (this_vcpu h) (\<lambda>u. Inr (vcpu_readreg u r))"

definition write_arg :: "nat \<Rightarrow> u64 \<Rightarrow> 'h hart \<Rightarrow> 'h hart res" where
  "write_arg r x h = bindR (this_vcpu h) (\<lambda>u. set_vcpu (cur_vcpu h) (vcpu_writereg u r x) h)"

text \<open>
  An operation of the virtual interrupt controller, whose messages to other harts are sent as
  \<open>(VPLIC_IPI_ID, UPDATE_HART_LINE, vcntxt)\<close>.
\<close>

definition UPDATE_HART_LINE :: u32 where "UPDATE_HART_LINE = 0"

definition send_lines :: "hart_env \<Rightarrow> (cpuid \<times> nat) list \<Rightarrow> msg_state \<Rightarrow> msg_state res" where
  "send_lines E ls = foldR (\<lambda>(t, c) m.
    cpu_send_msg m t \<lparr>handler = vplic_ipi_id E, event = UPDATE_HART_LINE, data = of_nat c\<rparr>) ls"

definition with_vplic :: "hart_env \<Rightarrow> (irq_state \<Rightarrow> irq_state res) \<Rightarrow> 'h hart \<Rightarrow> 'h hart res" where
  "with_vplic E f h =
    bindR (f (irqs h)) (\<lambda>s.
    bindR (send_lines E (line_msgs s) (msgs h)) (\<lambda>m. Inr (h\<lparr>irqs := s\<lparr>line_msgs := []\<rparr>, msgs := m\<rparr>)))"

definition vcpu_inject_hw_irq :: "hart_env \<Rightarrow> u64 \<Rightarrow> irqid \<Rightarrow> 'h hart \<Rightarrow> 'h hart res" where
  "vcpu_inject_hw_irq E now i h =
    bindR (this_vcpu h) (\<lambda>u. with_vplic E (vplic_inject (cur_vm h) (cpu_id h) now (vcpu_id u) i) h)"

end
