(* ===== verification/Interrupts.thy ===== *)
theory Interrupts
  imports Hart
begin

text \<open>
  Physical interrupts: the tables of \<open>src/core/interrupts.c\<close> that say who owns an interrupt, the
  RISC-V back end \<open>src/arch/riscv/interrupts.c\<close> and the claim loop \<open>plic_handle\<close> of
  \<open>src/arch/riscv/plic.c\<close>. An interrupt is reserved by the hypervisor, assigned to a VM, or unknown.
\<close>

section \<open>Numbers\<close>

definition SOFT_INT_ID :: nat where "SOFT_INT_ID = PLIC_MAX_INTERRUPTS + 1"
definition TIMR_INT_ID :: nat where "TIMR_INT_ID = PLIC_MAX_INTERRUPTS + 2"
definition MAX_INTERRUPTS :: nat where "MAX_INTERRUPTS = TIMR_INT_ID + 1"
definition IPI_CPU_MSG :: nat where "IPI_CPU_MSG = SOFT_INT_ID"

definition SIP_SSIP :: u64 where "SIP_SSIP = SIE_SSIE"
definition SIP_STIP :: u64 where "SIP_STIP = SIE_STIE"

definition SCAUSE_INT_BIT :: u64 where "SCAUSE_INT_BIT = push_bit 63 1"
definition SCAUSE_CODE_SSI :: u64 where "SCAUSE_CODE_SSI = 1 OR SCAUSE_INT_BIT"
definition SCAUSE_CODE_STI :: u64 where "SCAUSE_CODE_STI = 5 OR SCAUSE_INT_BIT"
definition SCAUSE_CODE_SEI :: u64 where "SCAUSE_CODE_SEI = 9 OR SCAUSE_INT_BIT"

section \<open>Ownership\<close>

definition interrupts_reserve :: "irqid \<Rightarrow> int_handler \<Rightarrow> int_tables \<Rightarrow> int_tables res" where
  "interrupts_reserve i k t =
    (if i < MAX_INTERRUPTS then
       bindR (wr (interrupt_handlers t) i (Some k)) (\<lambda>hs.
       bindR (bitmap_set (hyp_interrupt_bitmap t) i) (\<lambda>hb.
       bindR (bitmap_set (global_interrupt_bitmap t) i) (\<lambda>gb.
       Inr (t\<lparr>interrupt_handlers := hs, hyp_interrupt_bitmap := hb, global_interrupt_bitmap := gb\<rparr>))))
     else Inr t)"

definition interrupt_is_reserved :: "int_tables \<Rightarrow> irqid \<Rightarrow> bool res" where
  "interrupt_is_reserved t i = bitmap_get (hyp_interrupt_bitmap t) i"

definition interrupts_arch_conflict :: "bitmap \<Rightarrow> irqid \<Rightarrow> bool res" where
  "interrupts_arch_conflict bm i = bitmap_get bm i"

definition interrupts_arch_vm_assign :: "vplic \<Rightarrow> irqid \<Rightarrow> vplic res" where
  "interrupts_arch_vm_assign p i = vplic_set_hw p i"

definition interrupts_vm_assign :: "irqid \<Rightarrow> int_tables \<times> 'h vm \<times> vplic \<Rightarrow> (int_tables \<times> 'h vm \<times> vplic) res" where
  "interrupts_vm_assign i = (\<lambda>(t, v, p).
    bindR (interrupts_arch_conflict (global_interrupt_bitmap t) i) (\<lambda>c.
    if c then Inl Panic else
    bindR (interrupts_arch_vm_assign p i) (\<lambda>p.
    bindR (bitmap_set (vm_interrupt_bitmap v) i) (\<lambda>vb.
    bindR (bitmap_set (global_interrupt_bitmap t) i) (\<lambda>gb.
    Inr (t\<lparr>global_interrupt_bitmap := gb\<rparr>, v\<lparr>vm_interrupt_bitmap := vb\<rparr>, p))))))"

section \<open>The back end\<close>

definition interrupts_arch_enable :: "irqid \<Rightarrow> bool \<Rightarrow> 'h hart \<Rightarrow> 'h hart res" where
  "interrupts_arch_enable i en h =
    (if i = SOFT_INT_ID then Inr (if en then csrs_sie SIE_SSIE h else csrc_sie SIE_SSIE h)
     else if i = TIMR_INT_ID then Inr (if en then csrs_sie SIE_STIE h else csrc_sie SIE_STIE h)
     else
       bindR (plic_set_enbl (plic_cntxt_id h) i en (phys (irqs h))) (\<lambda>ph.
       bindR (plic_set_prio i 0xFE ph) (\<lambda>ph. Inr (h\<lparr>irqs := (irqs h)\<lparr>phys := ph\<rparr>\<rparr>))))"

definition interrupts_cpu_enable :: "irqid \<Rightarrow> bool \<Rightarrow> 'h hart \<Rightarrow> 'h hart res" where
  "interrupts_cpu_enable i en h = interrupts_arch_enable i en h"

definition interrupts_arch_check :: "irqid \<Rightarrow> 'h hart \<Rightarrow> bool res" where
  "interrupts_arch_check i h =
    (if i = SOFT_INT_ID then Inr (sip h AND SIP_SSIP \<noteq> 0)
     else if i = TIMR_INT_ID then Inr (sip h AND SIP_STIP \<noteq> 0)
     else plic_get_pend i (phys (irqs h)))"

definition interrupts_arch_clear :: "irqid \<Rightarrow> 'h hart \<Rightarrow> 'h hart" where
  "interrupts_arch_clear i h = (if i = SOFT_INT_ID then csrc_sip SIP_SSIP h else h)"

text \<open>The request to the firmware; \<open>cpu_send_msg\<close> records its effect in \<open>ipi\<close> of the message state.\<close>

definition interrupts_arch_ipi_send :: "hart_env \<Rightarrow> cpuid \<Rightarrow> irqid \<Rightarrow> 'h hart \<Rightarrow> 'h hart res" where
  "interrupts_arch_ipi_send E target ipi_id h =
    bindR (shl 1 target) (\<lambda>m. Inr (fst (sbi_ecall E (sbi_send_ipi m 0) h)))"

section \<open>Dispatch\<close>

datatype irq_res = HANDLED_BY_HYP | FORWARD_TO_VM

text \<open>\<open>rh\<close> calls a registered handler; \<open>now\<close> is the time read by the rate limiter.\<close>

definition interrupts_handle :: "hart_env \<Rightarrow> (int_handler \<Rightarrow> 'h hart \<Rightarrow> 'h hart res) \<Rightarrow> u64 \<Rightarrow> irqid \<Rightarrow> 'h hart \<Rightarrow>
    ('h hart \<times> irq_res) res" where
  "interrupts_handle E rh now i h =
    bindR (vm_has_interrupt (cur_vm h) i) (\<lambda>mine.
    if mine then bindR (vcpu_inject_hw_irq E now i h) (\<lambda>h. Inr (h, FORWARD_TO_VM))
    else
      bindR (interrupt_is_reserved (ints h) i) (\<lambda>res.
      if res then
        bindR (rd (interrupt_handlers (ints h)) i) (\<lambda>k.
        case k of None \<Rightarrow> Inl Null_deref
        | Some k \<Rightarrow> bindR (rh k h) (\<lambda>h. Inr (h, HANDLED_BY_HYP)))
      else Inl Panic))"

text \<open>\<open>claim\<close> is what the claim register of the physical controller returns.\<close>

definition plic_handle :: "hart_env \<Rightarrow> (int_handler \<Rightarrow> 'h hart \<Rightarrow> 'h hart res) \<Rightarrow> u64 \<Rightarrow> u32 \<Rightarrow> 'h hart \<Rightarrow> 'h hart res" where
  "plic_handle E rh now claim h =
    (if claim \<noteq> 0 then
       bindR (interrupts_handle E rh now (unat claim) h) (\<lambda>(h, r).
       if r = HANDLED_BY_HYP then
         bindR (wr (plic_complete (phys (irqs h))) (nat (plic_cntxt_id h)) claim) (\<lambda>cs.
         Inr (h\<lparr>irqs := (irqs h)\<lparr>phys := (phys (irqs h))\<lparr>plic_complete := cs\<rparr>\<rparr>\<rparr>))
       else Inr h)
     else Inr h)"

definition interrupts_arch_handle :: "hart_env \<Rightarrow> (int_handler \<Rightarrow> 'h hart \<Rightarrow> 'h hart res) \<Rightarrow> u64 \<Rightarrow> u64 \<Rightarrow> u32 \<Rightarrow>
    'h hart \<Rightarrow> 'h hart res" where
  "interrupts_arch_handle E rh now scause claim h =
    (if scause = SCAUSE_CODE_SSI then
       bindR (interrupts_handle E rh now SOFT_INT_ID h) (\<lambda>(h, _). Inr (csrc_sip SIP_SSIP h))
     else if scause = SCAUSE_CODE_STI then
       bindR (interrupts_handle E rh now TIMR_INT_ID h) (\<lambda>(h, _). Inr h)
     else if scause = SCAUSE_CODE_SEI then plic_handle E rh now claim h
     else Inr h)"

end
