(* ===== verification/Irq_Owners.thy ===== *)
theory Irq_Owners
  imports Interrupts
begin

text \<open>
  Who owns an interrupt: what \<open>interrupts_reserve\<close> and \<open>interrupts_vm_assign\<close> keep true of the
  tables of \<open>src/core/interrupts.c\<close> and of the interrupt bitmaps of the VMs.
\<close>

section \<open>Who owns an interrupt\<close>

lemma bitmap_setD:
  assumes "bitmap_set bm i = Inr bm'"
  shows "bm_bit bm' k \<longleftrightarrow> bm_bit bm k \<or> k = i"
proof -
  have "i < bm_len bm"
    using assms by (auto simp: bitmap_set_def BITMAP_GRANULE_LEN_def rd_def granule_bound_iff split: if_splits)
  from bitmap_set_eq [OF this] assms show ?thesis by auto
qed

text \<open>The set-up: the hypervisor reserves its interrupts, then VMs (numbered) get theirs.\<close>

type_synonym 'h int_setup = "int_tables \<times> (nat \<Rightarrow> 'h vm \<times> vplic)"

definition reserve_all :: "(irqid \<times> int_handler) list \<Rightarrow> int_tables \<Rightarrow> int_tables res" where
  "reserve_all = foldR (\<lambda>(i, k). interrupts_reserve i k)"

definition assign_all :: "(nat \<times> irqid) list \<Rightarrow> 'h int_setup \<Rightarrow> 'h int_setup res" where
  "assign_all = foldR (\<lambda>(k, i) (t, f). bindR (interrupts_vm_assign i (t, f k)) (\<lambda>(t, vp). Inr (t, f(k := vp))))"

abbreviation vm_int :: "(nat \<Rightarrow> 'h vm \<times> vplic) \<Rightarrow> nat \<Rightarrow> irqid \<Rightarrow> bool" where
  "vm_int f k i \<equiv> bm_bit (vm_interrupt_bitmap (fst (f k))) i"

definition owned :: "'h int_setup \<Rightarrow> bool" where
  "owned = (\<lambda>(t, f).
    (\<forall>i < MAX_INTERRUPTS. bm_bit (global_interrupt_bitmap t) i \<longleftrightarrow> bm_bit (hyp_interrupt_bitmap t) i \<or> (\<exists>k. vm_int f k i))
    \<and> (\<forall>i < MAX_INTERRUPTS. \<forall>k. vm_int f k i \<longrightarrow> \<not> bm_bit (hyp_interrupt_bitmap t) i)
    \<and> (\<forall>i < MAX_INTERRUPTS. \<forall>k k'. vm_int f k i \<longrightarrow> vm_int f k' i \<longrightarrow> k = k'))"

lemma reserve_owned:
  assumes "reserve_all rs t = Inr t'" "\<forall>k. \<forall>i < MAX_INTERRUPTS. \<not> vm_int f k i" "global_interrupt_bitmap t = hyp_interrupt_bitmap t"
  shows "owned (t', f)"
proof -
  have "\<forall>i. bm_bit (global_interrupt_bitmap t') i \<longleftrightarrow> bm_bit (hyp_interrupt_bitmap t') i"
    using assms(1) assms(3) [THEN arg_cong, of bm_bit]
  proof (induction rs arbitrary: t)
    case Nil
    then show ?case by (simp add: reserve_all_def)
  next
    case (Cons r rs)
    obtain i k where r: "r = (i, k)" by (cases r)
    from Cons.prems(1) obtain t1 where t1: "interrupts_reserve i k t = Inr t1" "reserve_all rs t1 = Inr t'"
      by (auto simp: reserve_all_def r bindR_def split: sum.splits)
    have "bm_bit (global_interrupt_bitmap t1) = bm_bit (hyp_interrupt_bitmap t1)"
      using t1(1) Cons.prems(2) by (auto simp: interrupts_reserve_def bindR_def fun_eq_iff bitmap_setD split: if_splits sum.splits)
    from Cons.IH [OF t1(2) this] show ?case .
  qed
  then show ?thesis using assms(2) by (simp add: owned_def)
qed

lemma assign_owned: "assign_all as s = Inr s' \<Longrightarrow> owned s \<Longrightarrow> owned s'"
proof (induction as arbitrary: s)
  case Nil
  then show ?case by (simp add: assign_all_def)
next
  case (Cons a as)
  obtain k i where a: "a = (k, i)" by (cases a)
  obtain t f where s: "s = (t, f)" by (cases s)
  from Cons.prems(1) obtain t1 v p where t1: "interrupts_vm_assign i (t, f k) = Inr (t1, v, p)"
      "assign_all as (t1, f(k := (v, p))) = Inr s'"
    by (auto simp: assign_all_def a s bindR_def split: sum.splits)
  have free: "\<not> bm_bit (global_interrupt_bitmap t) i"
    using t1(1) by (cases "f k") (auto simp: interrupts_vm_assign_def interrupts_arch_conflict_def bindR_def bitmap_get_Inr_iff split: sum.splits if_splits)
  have new: "hyp_interrupt_bitmap t1 = hyp_interrupt_bitmap t" "\<And>j. bm_bit (vm_interrupt_bitmap v) j \<longleftrightarrow> vm_int f k j \<or> j = i"
      "\<And>j. bm_bit (global_interrupt_bitmap t1) j \<longleftrightarrow> bm_bit (global_interrupt_bitmap t) j \<or> j = i"
    using t1(1) by (cases "f k"; auto simp: interrupts_vm_assign_def bindR_def bitmap_setD split: sum.splits if_splits)+
  have upd: "vm_int (f(k := (v, p))) k' j \<longleftrightarrow> vm_int f k' j \<or> (k' = k \<and> j = i)" for k' j using new(2) by simp
  have o: "\<And>i. i < MAX_INTERRUPTS \<Longrightarrow> bm_bit (global_interrupt_bitmap t) i \<longleftrightarrow> bm_bit (hyp_interrupt_bitmap t) i \<or> (\<exists>k. vm_int f k i)"
      "\<And>i k. i < MAX_INTERRUPTS \<Longrightarrow> vm_int f k i \<Longrightarrow> \<not> bm_bit (hyp_interrupt_bitmap t) i"
      "\<And>i k k'. i < MAX_INTERRUPTS \<Longrightarrow> vm_int f k i \<Longrightarrow> vm_int f k' i \<Longrightarrow> k = k'"
    using Cons.prems(2) unfolding owned_def s prod.case by blast+
  have none: "i < MAX_INTERRUPTS \<Longrightarrow> \<not> bm_bit (hyp_interrupt_bitmap t) i" "\<And>k. i < MAX_INTERRUPTS \<Longrightarrow> \<not> vm_int f k i"
    using o(1) [of i] free by simp_all
  have "owned (t1, f(k := (v, p)))"
    unfolding owned_def prod.case upd new(1,3)
  proof (intro conjI allI impI)
    fix j assume "j < MAX_INTERRUPTS" then show "(bm_bit (global_interrupt_bitmap t) j \<or> j = i) \<longleftrightarrow>
        (bm_bit (hyp_interrupt_bitmap t) j \<or> (\<exists>k'. vm_int f k' j \<or> k' = k \<and> j = i))"
      using o(1) [of j] by blast
  next
    fix j k' assume "j < MAX_INTERRUPTS" "vm_int f k' j \<or> k' = k \<and> j = i"
    then show "\<not> bm_bit (hyp_interrupt_bitmap t) j" using o(2) none(1) by blast
  next
    fix j k1 k2 assume "j < MAX_INTERRUPTS" "vm_int f k1 j \<or> k1 = k \<and> j = i" "vm_int f k2 j \<or> k2 = k \<and> j = i"
    then show "k1 = k2" using o(3) none(2) by blast
  qed
  from Cons.IH [OF t1(2) this] show ?case .
qed

text \<open>
  C22. Every interrupt has at most one owner: when the hypervisor has reserved its interrupts and
  interrupts have been assigned to VMs in any order, and no assignment stopped on a conflict, no
  interrupt belongs to two VMs or to a VM and the hypervisor, and the global table holds exactly
  the interrupts that have an owner.
\<close>

theorem interrupts_have_one_owner:
  assumes "reserve_all rs t = Inr t0" "global_interrupt_bitmap t = hyp_interrupt_bitmap t"
    and "\<forall>k. \<forall>i < MAX_INTERRUPTS. \<not> vm_int f k i" "assign_all as (t0, f) = Inr (t', f')"
  shows "(\<forall>i < MAX_INTERRUPTS. \<forall>k. vm_int f' k i \<longrightarrow> \<not> bm_bit (hyp_interrupt_bitmap t') i)
    \<and> (\<forall>i < MAX_INTERRUPTS. \<forall>k k'. vm_int f' k i \<and> vm_int f' k' i \<longrightarrow> k = k')
    \<and> (\<forall>i < MAX_INTERRUPTS. bm_bit (global_interrupt_bitmap t') i \<longleftrightarrow> bm_bit (hyp_interrupt_bitmap t') i \<or> (\<exists>k. vm_int f' k i))"
proof -
  have "owned (t', f')" by (rule assign_owned [OF assms(4) reserve_owned [OF assms(1,3,2)]])
  then show ?thesis unfolding owned_def prod.case by blast
qed

definition fresh_tables :: int_tables where
  "fresh_tables = \<lparr>hyp_interrupt_bitmap = replicate 33 0, global_interrupt_bitmap = replicate 33 0,
    interrupt_handlers = replicate MAX_INTERRUPTS None\<rparr>"

definition fresh_vm :: "nat \<Rightarrow> nat vm" where
  "fresh_vm k = \<lparr>vm_id = k, vm_master = k, vm_cpu_num = 1, vm_cpus = 1, vm_vcpus = [], emul_mem_list = [], emul_reg_list = [],
    vm_interrupt_bitmap = replicate 33 0, vm_ipcs = [], vm_crit = CRIT_LOW,
    vm_health_state = \<lparr>status = VM_HEALTHY, last_heartbeat = 0, missed_count = 0, max_missed = 3,
      heartbeat_timeout = 1, recovery_count = 0\<rparr>\<rparr>"

theorem interrupts_have_one_owner_witness:
  "\<exists>t0 t' f'. reserve_all [(IPI_CPU_MSG, Cpu_msg_handler)] fresh_tables = Inr t0
    \<and> assign_all [(0, 5), (1, 7)] (t0, \<lambda>k. (fresh_vm k, vplic_zero)) = Inr (t', f')
    \<and> (\<forall>k k'. vm_int f' k 7 \<and> vm_int f' k' 7 \<longrightarrow> k = k')"
proof -
  let ?f = "\<lambda>k. (fresh_vm k, vplic_zero)"
  have z: "\<not> bm_bit (replicate 33 0) i" if "i < MAX_INTERRUPTS" for i
  proof -
    have "i div 32 < 33" using that by (simp add: MAX_INTERRUPTS_def TIMR_INT_ID_def PLIC_MAX_INTERRUPTS_def)
    then show ?thesis by (simp add: bm_bit_def)
  qed
  have r: "\<exists>t0 t' f'. reserve_all [(IPI_CPU_MSG, Cpu_msg_handler)] fresh_tables = Inr t0
      \<and> assign_all [(0, 5), (1, 7)] (t0, ?f) = Inr (t', f')"
    by (simp add: reserve_all_def assign_all_def interrupts_reserve_def interrupts_vm_assign_def interrupts_arch_conflict_def
        interrupts_arch_vm_assign_def bitmap_set_def bitmap_get_def vplic_set_hw_def vbit_set_def fresh_tables_def fresh_vm_def
        vplic_zero_def IPI_CPU_MSG_def MAX_INTERRUPTS_def TIMR_INT_ID_def SOFT_INT_ID_def PLIC_MAX_INTERRUPTS_def
        BITMAP_GRANULE_LEN_def nth_list_update VPLIC_WORDS_def HW_OFF_def del: bindR_eq_Inr)
  then obtain t0 t' f' where r: "reserve_all [(IPI_CPU_MSG, Cpu_msg_handler)] fresh_tables = Inr t0"
      "assign_all [(0, 5), (1, 7)] (t0, ?f) = Inr (t', f')" by blast
  have "\<forall>k. \<forall>i < MAX_INTERRUPTS. \<not> vm_int ?f k i" "global_interrupt_bitmap fresh_tables = hyp_interrupt_bitmap fresh_tables"
    using z by (simp_all add: fresh_vm_def fresh_tables_def)
  from interrupts_have_one_owner [OF r(1) this(2,1) r(2)] have
    "\<forall>i < MAX_INTERRUPTS. \<forall>k k'. vm_int f' k i \<and> vm_int f' k' i \<longrightarrow> k = k'" by blast
  moreover have "7 < MAX_INTERRUPTS" by (simp add: MAX_INTERRUPTS_def TIMR_INT_ID_def PLIC_MAX_INTERRUPTS_def)
  ultimately show ?thesis using r by blast
qed

end
