(* ===== verification/Hypercall.thy ===== *)
theory Hypercall
  imports Interrupts Mem_Map
begin

text \<open>
  Calls of a guest into the hypervisor: inter-VM notifications (\<open>src/core/ipc.c\<close>) and the
  dispatcher \<open>src/core/hypercall.c\<close>. The arguments are the guest's registers \<open>a0\<close>, \<open>a1\<close>, \<open>a2\<close>;
  results are 64-bit, error codes negated. Printing is left out.
\<close>

section \<open>Notifications between VMs\<close>

definition HC_E_SUCCESS :: u64 where "HC_E_SUCCESS = 0"
definition HC_E_FAILURE :: u64 where "HC_E_FAILURE = 1"
definition HC_E_INVAL_ID :: u64 where "HC_E_INVAL_ID = 2"
definition HC_E_INVAL_ARGS :: u64 where "HC_E_INVAL_ARGS = 3"

definition IPC_NOTIFY :: u32 where "IPC_NOTIFY = 0"

text \<open>The message carries the two identifiers as its lowest bytes.\<close>

record ipc_msg_data =
  imsg_shmem_id :: u8
  imsg_event_id :: u8

definition ipc_raw :: "ipc_msg_data \<Rightarrow> u64" where
  "ipc_raw d = ucast (imsg_shmem_id d) OR push_bit 8 (ucast (imsg_event_id d))"

definition ipc_unraw :: "u64 \<Rightarrow> ipc_msg_data" where
  "ipc_unraw w = \<lparr>imsg_shmem_id = ucast w, imsg_event_id = ucast (drop_bit 8 w)\<rparr>"

definition ipc_get_shmem :: "shmem list \<Rightarrow> nat \<Rightarrow> shmem option" where
  "ipc_get_shmem tab i = (if i < length tab then Some (tab ! i) else None)"

definition ipc_find_by_shmemid :: "'h vm \<Rightarrow> nat \<Rightarrow> ipc option" where
  "ipc_find_by_shmemid v i = find (\<lambda>c. ipc_shmem_id c = i) (vm_ipcs v)"

definition ipc_notify :: "hart_env \<Rightarrow> u64 \<Rightarrow> nat \<Rightarrow> nat \<Rightarrow> 'h hart \<Rightarrow> 'h hart res" where
  "ipc_notify E now shmem_id event_id h =
    (case ipc_find_by_shmemid (cur_vm h) shmem_id of
       Some c \<Rightarrow> if event_id < length (ipc_interrupts c)
         then vcpu_inject_hw_irq E now (ipc_interrupts c ! event_id) h else Inr h
     | None \<Rightarrow> Inr h)"

definition ipc_handler :: "hart_env \<Rightarrow> u64 \<Rightarrow> u32 \<Rightarrow> u64 \<Rightarrow> 'h hart \<Rightarrow> 'h hart res" where
  "ipc_handler E now ev dat h =
    (let d = ipc_unraw dat in
     if ev = IPC_NOTIFY then ipc_notify E now (unat (imsg_shmem_id d)) (unat (imsg_event_id d)) h else Inr h)"

definition ipc_msg :: "hart_env \<Rightarrow> nat \<Rightarrow> u64 \<Rightarrow> cpu_msg" where
  "ipc_msg E shmem_id ipc_event = \<lparr>handler = ipc_cpumsg_id E, event = IPC_NOTIFY,
    data = ipc_raw \<lparr>imsg_shmem_id = of_nat shmem_id, imsg_event_id = ucast ipc_event\<rparr>\<rparr>"

definition ipc_hypercall :: "hart_env \<Rightarrow> u64 \<Rightarrow> u64 \<Rightarrow> u64 \<Rightarrow> 'h hart \<Rightarrow> ('h hart \<times> u64) res" where
  "ipc_hypercall E ipc_id ipc_event arg2 h =
    (let ipcs = vm_ipcs (cur_vm h) in
     if unat ipc_id < length ipcs then
       (case ipc_get_shmem (shmem_table h) (ipc_shmem_id (ipcs ! unat ipc_id)) of
          None \<Rightarrow> Inr (h, - HC_E_INVAL_ARGS)
        | Some sm \<Rightarrow>
            let masters = shm_cpu_masters sm AND NOT (vm_cpus (cur_vm h)) in
            bindR (foldR (\<lambda>i m. bindR (shl 1 i) (\<lambda>b.
                if masters AND b \<noteq> 0 then cpu_send_msg m i (ipc_msg E (ipc_shmem_id (ipcs ! unat ipc_id)) ipc_event)
                else Inr m)) [0..<PLAT_CPU_NUM] (msgs h)) (\<lambda>m.
            Inr (h\<lparr>msgs := m\<rparr>, - HC_E_SUCCESS)))
     else Inr (h, - HC_E_INVAL_ARGS))"

text \<open>At boot the master allocates the regions without a place and clears the sets of masters.\<close>

definition ipc_alloc_shmem :: "nat \<Rightarrow> nat \<Rightarrow> shmem list \<Rightarrow> page_pool list \<Rightarrow> (shmem list \<times> page_pool list) res" where
  "ipc_alloc_shmem cn cs tab pools =
    foldR (\<lambda>i (tab, pools).
      bindR (rd tab i) (\<lambda>sm.
      if \<not> shm_place_phys sm then
        let n_pg = unat (NUM_PAGES (shm_size sm)) in
        bindR (mem_alloc_ppages cn cs pools (shm_colors sm) n_pg False) (\<lambda>(pools, pages).
        if num_pages pages < n_pg then Inl Panic
        else bindR (wr tab i (sm\<lparr>shm_phys := pp_base pages\<rparr>)) (\<lambda>tab. Inr (tab, pools)))
      else Inr (tab, pools))) [0..<length tab] (tab, pools)"

definition ipc_init :: "bool \<Rightarrow> nat \<Rightarrow> nat \<Rightarrow> config \<Rightarrow> page_pool list \<Rightarrow> (config \<times> page_pool list) res" where
  "ipc_init is_master cn cs cfg pools =
    (if is_master then
       bindR (ipc_alloc_shmem cn cs (shmemlist cfg) pools) (\<lambda>(tab, pools).
       Inr (cfg\<lparr>shmemlist := List.map (\<lambda>sm. sm\<lparr>shm_cpu_masters := 0\<rparr>) tab\<rparr>, pools))
     else Inr (cfg, pools))"

section \<open>The dispatcher\<close>

definition HC_IPC :: u64 where "HC_IPC = 1"
definition HC_HEARTBEAT :: u64 where "HC_HEARTBEAT = 2"
definition HC_PLIC_INJECT :: u64 where "HC_PLIC_INJECT = 3"
definition HC_DMA_WRITE :: u64 where "HC_DMA_WRITE = 4"

definition HYPCALL_ARG_REG :: "nat \<Rightarrow> nat" where "HYPCALL_ARG_REG arg = arg + REG_A0"

text \<open>The index into the buckets is not checked against their number.\<close>

definition hc_plic_inject :: "u64 \<Rightarrow> u64 \<Rightarrow> 'h hart \<Rightarrow> 'h hart res" where
  "hc_plic_inject now arg0 h =
    (let i = unat (ucast arg0 :: u32); p = vp (irqs h); st = stats h in
     bindR (rd (buckets p) i) (\<lambda>b.
     let (b, action) = irq_bucket_consume b now;
         st = (case action of IRQ_RL_ALLOW \<Rightarrow> st\<lparr>inject_allowed := inject_allowed st + 1\<rparr>
               | IRQ_RL_DEFERRED \<Rightarrow> st\<lparr>inject_deferred := inject_deferred st + 1\<rparr>
               | IRQ_RL_DROPPED \<Rightarrow> st\<lparr>inject_dropped := inject_dropped st + 1\<rparr>)
     in Inr (h\<lparr>irqs := (irqs h)\<lparr>vp := p\<lparr>buckets := (buckets p)[i := b]\<rparr>\<rparr>,
               stats := st\<lparr>inject_total := inject_total st + 1\<rparr>\<rparr>)))"

text \<open>A 32-bit store through the hypervisor's own page table; an unmapped address faults.\<close>

definition store32 :: "mem_env \<Rightarrow> vaddr \<Rightarrow> u32 \<Rightarrow> 'h hart \<Rightarrow> 'h hart res" where
  "store32 M va x h =
    bindR (mem_translate (pt_words (mem h)) (as_pt (cpu_as M)) va) (\<lambda>pa.
    case pa of None \<Rightarrow> Inl Null_deref
    | Some pa \<Rightarrow> Inr (h\<lparr>ram := (ram h)(pa := ucast x, pa + 1 := ucast (drop_bit 8 x),
        pa + 2 := ucast (drop_bit 16 x), pa + 3 := ucast (drop_bit 24 x))\<rparr>))"

text \<open>The test for failure is for 0, which \<open>mem_alloc_map_dev\<close> does not return.\<close>

definition hc_dma_write :: "hart_env \<Rightarrow> u64 \<Rightarrow> u64 \<Rightarrow> 'h hart \<Rightarrow> ('h hart \<times> u64) res" where
  "hc_dma_write E target_pa arg1 h =
    (if iommu_on E then Inr (h, HC_E_FAILURE)
     else
       let M = mem_manager E; page_pa = target_pa AND NOT (PAGE_SIZE - 1); offset = target_pa AND (PAGE_SIZE - 1) in
       bindR (mem_alloc_map_dev M (cpu_as M) SEC_HYP_GLOBAL INVALID_VA page_pa 1 (mem h)) (\<lambda>(s, va).
       let h = h\<lparr>mem := s\<rparr> in
       if va \<noteq> 0 then
         bindR (store32 M (va + offset) (ucast arg1) h) (\<lambda>h.
         bindR (mem_unmap M (cpu_as M) va 1 False (mem h)) (\<lambda>s. Inr (h\<lparr>mem := s\<rparr>, HC_E_SUCCESS)))
       else Inr (h, HC_E_FAILURE)))"

definition hypercall :: "hart_env \<Rightarrow> u64 \<Rightarrow> u64 \<Rightarrow> 'h hart \<Rightarrow> ('h hart \<times> u64) res" where
  "hypercall E now hid h =
    bindR (read_arg (HYPCALL_ARG_REG 0) h) (\<lambda>ipc_id.
    bindR (read_arg (HYPCALL_ARG_REG 1) h) (\<lambda>arg1.
    bindR (read_arg (HYPCALL_ARG_REG 2) h) (\<lambda>arg2.
    if hid = HC_IPC then ipc_hypercall E ipc_id arg1 arg2 h
    else if hid = HC_HEARTBEAT then
      Inr (h\<lparr>cur_vm := (cur_vm h)\<lparr>vm_health_state := health_monitor_heartbeat (vm_health_state (cur_vm h)) now\<rparr>\<rparr>,
        HC_E_SUCCESS)
    else if hid = HC_PLIC_INJECT then bindR (hc_plic_inject now ipc_id h) (\<lambda>h. Inr (h, HC_E_SUCCESS))
    else if hid = HC_DMA_WRITE then hc_dma_write E ipc_id arg1 h
    else Inr (h, - HC_E_INVAL_ID))))"

end
