(* ===== verification/Sbi.thy ===== *)
theory Sbi
  imports Hypercall
begin

text \<open>
  The SBI calls of a guest, \<open>src/arch/riscv/sbi.c\<close>: the hypervisor emulates the firmware interface
  for its VMs, with hart identifiers and masks of the guest translated to physical harts. A local
  \<open>struct sbiret\<close> that the code does not initialise starts with an indeterminate content, the
  argument \<open>und\<close>.
\<close>

section \<open>Messages\<close>

definition SEND_IPI :: u32 where "SEND_IPI = 0"
definition HART_START :: u32 where "HART_START = 1"

definition REG_A2 :: nat where "REG_A2 = 12"
definition REG_A3 :: nat where "REG_A3 = 13"
definition REG_A4 :: nat where "REG_A4 = 14"
definition REG_A6 :: nat where "REG_A6 = 16"
definition REG_A7 :: nat where "REG_A7 = 17"

definition sbi_msg_handler :: "u32 \<Rightarrow> u64 \<Rightarrow> 'h hart \<Rightarrow> 'h hart res" where
  "sbi_msg_handler ev dat h =
    (if ev = SEND_IPI then Inr (csrs_hvip HIP_VSSIP h)
     else if ev = HART_START then
       bindR (this_vcpu h) (\<lambda>u.
       if hsm_state u = START_PENDING then
         let (u, csrs) = vcpu_arch_reset u (hsm_start_addr u);
             u = (vcpu_writereg u REG_A1 (ucast (hsm_priv u)))\<lparr>hsm_state := STARTED\<rparr>;
             h = h\<lparr>vs := csrs, irqs := (irqs h)\<lparr>vseip := (vseip (irqs h))(cpu_id h := False)\<rparr>\<rparr>
         in set_vcpu (cur_vcpu h) u h
       else Inr h)
     else Inr h)"

section \<open>Time\<close>

definition sbi_time_handler :: "hart_env \<Rightarrow> u64 \<Rightarrow> 'h hart \<Rightarrow> ('h hart \<times> sbiret) res" where
  "sbi_time_handler E fid h =
    (if fid \<noteq> SBI_SET_TIMER_FID then Inr (h, \<lparr>sbi_error = SBI_ERR_NOT_SUPPORTED, sbi_value = 0\<rparr>)
     else
       bindR (read_arg REG_A0 h) (\<lambda>stime_value.
       let h = fst (sbi_ecall E (sbi_set_timer stime_value) h)
       in Inr (csrs_sie SIE_STIE (csrc_hvip HIP_VSTIP h), \<lparr>sbi_error = SBI_SUCCESS, sbi_value = 0\<rparr>)))"

text \<open>
  The timer's interrupt checks the VM's health. Where the check starts a recovery, the hart leaves
  for the recovery sequence and does not come back here.
\<close>

definition sbi_timer_irq_handler :: "hart_env \<Rightarrow> u64 \<Rightarrow> u64 \<Rightarrow> 'h hart \<Rightarrow> 'h hart res" where
  "sbi_timer_irq_handler E now now' h =
    (let (hl, entered) = health_monitor_check (bao_recovery E) (health_cfg E) (vm_health_state (cur_vm h)) now;
         h = h\<lparr>cur_vm := (cur_vm h)\<lparr>vm_health_state := hl\<rparr>\<rparr>
     in if entered then Inr (h\<lparr>recoveries := recoveries h + 1\<rparr>)
        else
          let h = csrc_sie SIE_STIE (csrs_hvip HIP_VSTIP h)
          in Inr (if status hl \<noteq> VM_NOT_MONITORED
               then csrs_sie SIE_STIE (fst (sbi_ecall E (sbi_set_timer (now' + HEALTH_WATCHDOG_TICKS)) h))
               else h))"

section \<open>Interrupts and fences\<close>

definition sbi_ipi_handler :: "hart_env \<Rightarrow> u64 \<Rightarrow> 'h hart \<Rightarrow> ('h hart \<times> sbiret) res" where
  "sbi_ipi_handler E fid h =
    (if fid \<noteq> SBI_SEND_IPI_FID then Inr (h, \<lparr>sbi_error = SBI_ERR_NOT_SUPPORTED, sbi_value = 0\<rparr>)
     else
       bindR (read_arg REG_A0 h) (\<lambda>hart_mask.
       bindR (read_arg REG_A1 h) (\<lambda>hart_mask_base.
       bindR (foldR (\<lambda>i m.
           bindR (bitmap_get (cpus_bitmap hart_mask) i) (\<lambda>b.
           if b then
             bindR (vm_translate_to_pcpuid (cur_vm h) (unat (hart_mask_base + of_nat i))) (\<lambda>p.
             if p \<noteq> INVALID_CPUID
             then cpu_send_msg m p \<lparr>handler = sbi_msg_id E, event = SEND_IPI, data = 0\<rparr> else Inr m)
           else Inr m)) [0..<64] (msgs h)) (\<lambda>m.
       Inr (h\<lparr>msgs := m\<rparr>, \<lparr>sbi_error = SBI_SUCCESS, sbi_value = 0\<rparr>)))))"

definition sbi_rfence_handler :: "hart_env \<Rightarrow> sbiret \<Rightarrow> u64 \<Rightarrow> 'h hart \<Rightarrow> ('h hart \<times> sbiret) res" where
  "sbi_rfence_handler E und fid h =
    bindR (read_arg REG_A0 h) (\<lambda>hart_mask.
    bindR (read_arg REG_A1 h) (\<lambda>hart_mask_base.
    bindR (read_arg REG_A2 h) (\<lambda>start_addr.
    bindR (read_arg REG_A3 h) (\<lambda>sz.
    bindR (read_arg REG_A4 h) (\<lambda>asid.
    bindR (if hart_mask_base = 0 then Inr False
           else if 64 \<le> hart_mask_base then Inr True
           else bindR (bitmap_find_nth (cpus_bitmap hart_mask) 64 1 (64 - unat hart_mask_base) True) (\<lambda>i. Inr (0 < i)))
      (\<lambda>invalid.
    if invalid then Inr (h, \<lparr>sbi_error = SBI_ERR_INVALID_PARAM, sbi_value = 0\<rparr>)
    else
      bindR (vm_translate_to_pcpu_mask (cur_vm h) (drop_bit (unat hart_mask_base) hart_mask) 64) (\<lambda>phart_mask.
      Inr (if fid = SBI_REMOTE_FENCE_I_FID then sbi_ecall E (sbi_remote_fence_i phart_mask 0) h
           else if fid = SBI_REMOTE_SFENCE_VMA_FID then sbi_ecall E (sbi_remote_hfence_vvma phart_mask 0 start_addr sz) h
           else if fid = SBI_REMOTE_SFENCE_VMA_ASID_FID
             then sbi_ecall E (sbi_remote_hfence_vvma_asid phart_mask 0 start_addr sz asid) h
           else (h, und\<lparr>sbi_error := SBI_ERR_NOT_SUPPORTED\<rparr>)))))))))"

section \<open>Base and hart state management\<close>

definition ext_table :: "u64 list" where
  "ext_table = [SBI_EXTID_BASE, SBI_EXTID_TIME, SBI_EXTID_IPI, SBI_EXTID_RFNC, SBI_EXTID_HSM]"

definition sbi_base_handler :: "u64 \<Rightarrow> 'h hart \<Rightarrow> sbiret res" where
  "sbi_base_handler fid h =
    bindR (read_arg REG_A0 h) (\<lambda>extid.
    Inr \<lparr>sbi_error = SBI_SUCCESS,
      sbi_value = (if fid = SBI_GET_SBI_SPEC_VERSION_FID then 2
        else if fid = SBI_PROBE_EXTENSION_FID then if extid \<in> set ext_table then extid else 0
        else 0)\<rparr>)"

fun hsm_state_val :: "sbi_hsm_state \<Rightarrow> u64" where
  "hsm_state_val STARTED = 0"
| "hsm_state_val STOPPED = 1"
| "hsm_state_val START_PENDING = 2"
| "hsm_state_val STOP_PENDING = 3"

definition hart_start_msg :: "hart_env \<Rightarrow> cpu_msg" where
  "hart_start_msg E = \<lparr>handler = sbi_msg_id E, event = HART_START, data = 0xdeadbeef\<rparr>"

definition sbi_hsm_start_handler :: "hart_env \<Rightarrow> sbiret \<Rightarrow> 'h hart \<Rightarrow> ('h hart \<times> sbiret) res" where
  "sbi_hsm_start_handler E und h =
    bindR (this_vcpu h) (\<lambda>me.
    let vhart_id = vcpu_readreg me REG_A0; i = unat vhart_id in
    if i = vcpu_id me then Inr (h, und\<lparr>sbi_error := SBI_ERR_ALREADY_AVAILABLE\<rparr>)
    else case vm_get_vcpu (cur_vm h) i of
      None \<Rightarrow> Inr (h, und\<lparr>sbi_error := SBI_ERR_INVALID_PARAM\<rparr>)
    | Some u \<Rightarrow>
        if hsm_state u = STARTED then Inr (h, und\<lparr>sbi_error := SBI_ERR_ALREADY_AVAILABLE\<rparr>)
        else if hsm_state u \<noteq> STOPPED then Inr (h, und\<lparr>sbi_error := SBI_ERR_FAILURE\<rparr>)
        else
          let u = u\<lparr>hsm_state := START_PENDING, hsm_start_addr := vcpu_readreg me REG_A1,
                    hsm_priv := ucast (vcpu_readreg me REG_A2)\<rparr>
          in bindR (set_vcpu i u h) (\<lambda>h.
             bindR (cpu_send_msg (msgs h) (phys_id u) (hart_start_msg E)) (\<lambda>m.
             Inr (h\<lparr>msgs := m\<rparr>, und\<lparr>sbi_error := SBI_SUCCESS\<rparr>))))"

definition sbi_hsm_status_handler :: "sbiret \<Rightarrow> 'h hart \<Rightarrow> sbiret res" where
  "sbi_hsm_status_handler und h =
    bindR (read_arg REG_A0 h) (\<lambda>vhart_id.
    case vm_get_vcpu (cur_vm h) (unat vhart_id) of
      Some u \<Rightarrow> Inr \<lparr>sbi_error = SBI_SUCCESS, sbi_value = hsm_state_val (hsm_state u)\<rparr>
    | None \<Rightarrow> Inr (und\<lparr>sbi_error := SBI_ERR_INVALID_PARAM\<rparr>))"

definition sbi_hsm_handler :: "hart_env \<Rightarrow> sbiret \<Rightarrow> u64 \<Rightarrow> 'h hart \<Rightarrow> ('h hart \<times> sbiret) res" where
  "sbi_hsm_handler E und fid h =
    (if fid = SBI_HART_START_FID then sbi_hsm_start_handler E und h
     else if fid = SBI_HART_STATUS_FID then bindR (sbi_hsm_status_handler und h) (\<lambda>r. Inr (h, r))
     else Inr (h, und\<lparr>sbi_error := SBI_ERR_NOT_SUPPORTED\<rparr>))"

definition sbi_bao_handler :: "hart_env \<Rightarrow> sbiret \<Rightarrow> u64 \<Rightarrow> u64 \<Rightarrow> 'h hart \<Rightarrow> ('h hart \<times> sbiret) res" where
  "sbi_bao_handler E und now fid h = bindR (hypercall E now fid h) (\<lambda>(h, e). Inr (h, und\<lparr>sbi_error := e\<rparr>))"

section \<open>The dispatcher\<close>

text \<open>The result is the length of the instruction to skip.\<close>

definition sbi_vs_handler :: "hart_env \<Rightarrow> sbiret \<Rightarrow> u64 \<Rightarrow> 'h hart \<Rightarrow> ('h hart \<times> nat) res" where
  "sbi_vs_handler E und now h =
    bindR (read_arg REG_A7 h) (\<lambda>extid.
    bindR (read_arg REG_A6 h) (\<lambda>fid.
    bindR (if extid = SBI_EXTID_BASE then bindR (sbi_base_handler fid h) (\<lambda>r. Inr (h, r))
           else if extid = SBI_EXTID_TIME then sbi_time_handler E fid h
           else if extid = SBI_EXTID_IPI then sbi_ipi_handler E fid h
           else if extid = SBI_EXTID_RFNC then sbi_rfence_handler E und fid h
           else if extid = SBI_EXTID_HSM then sbi_hsm_handler E und fid h
           else if extid = SBI_EXTID_BAO then sbi_bao_handler E und now fid h
           else Inr (h, und\<lparr>sbi_value := SBI_ERR_NOT_SUPPORTED\<rparr>)) (\<lambda>(h, ret).
    bindR (write_arg REG_A0 (sbi_error ret) h) (\<lambda>h.
    bindR (write_arg REG_A1 (sbi_value ret) h) (\<lambda>h.
    Inr (h, 4))))))"

text \<open>Start-up: the firmware must have the interface the hypervisor relies on.\<close>

definition sbi_init :: "hart_env \<Rightarrow> 'h hart \<Rightarrow> 'h hart res" where
  "sbi_init E h =
    (let (h, ret) = sbi_ecall E sbi_get_spec_version h in
     if sbi_error ret \<noteq> SBI_SUCCESS \<or> sint (sbi_value ret) < 2 then Inl Panic
     else
       bindR (foldR (\<lambda>ext h.
           let (h, ret) = sbi_ecall E (sbi_probe_extension ext) h in
           if sbi_error ret \<noteq> SBI_SUCCESS \<or> sbi_value ret = 0 then Inl Panic else Inr h) ext_table h) (\<lambda>h.
       bindR (interrupts_reserve TIMR_INT_ID Sbi_timer_irq_handler (ints h)) (\<lambda>t. Inr (h\<lparr>ints := t\<rparr>))))"

end
