(* ===== verification/Sbi_Guest.thy ===== *)
theory Sbi_Guest
  imports Sbi
begin

text \<open>
  What the SBI calls of a guest (\<open>src/arch/riscv/sbi.c\<close>) do to the machine: no call but those of
  the hypervisor's own extension stops the hypervisor, and their effects stay within the VM.
\<close>

section \<open>Loops that send messages\<close>

text \<open>What a loop over \<open>xs\<close> sends to core \<open>c\<close>, when its step for \<open>x\<close> sends the message of \<open>f x\<close>.\<close>

definition sent :: "('a \<Rightarrow> (cpuid \<times> cpu_msg) option) \<Rightarrow> 'a list \<Rightarrow> cpuid \<Rightarrow> cpu_msg list" where
  "sent f xs c = concat (List.map (\<lambda>x. case f x of Some (t, m) \<Rightarrow> if t = c then [m] else [] | None \<Rightarrow> []) xs)"

lemma sent_simps [simp]: "sent f [] c = []"
  "sent f (x # xs) c = (case f x of Some (t, m) \<Rightarrow> if t = c then [m] else [] | None \<Rightarrow> []) @ sent f xs c"
  by (simp_all add: sent_def)

lemma sent_none: "(\<And>x m. x \<in> set xs \<Longrightarrow> f x \<noteq> Some (c, m)) \<Longrightarrow> sent f xs c = []"
  by (induction xs) (auto split: option.splits)

lemma foldR_sends:
  assumes "\<And>i m. i \<in> set xs \<Longrightarrow> F i m = (case f i of None \<Rightarrow> Inr m | Some (t, x) \<Rightarrow> cpu_send_msg m t x)"
    and "\<And>i t x. i \<in> set xs \<Longrightarrow> f i = Some (t, x) \<Longrightarrow> t < ncpus s"
    and "mailboxes s Q" "waiting (ncpus s) Q + length xs \<le> num (msg_pool s)"
  shows "\<exists>s'. foldR F xs s = Inr s' \<and> mailboxes s' (\<lambda>c. Q c @ sent f xs c) \<and> ncpus s' = ncpus s
    \<and> num (msg_pool s') = num (msg_pool s)"
  using assms
proof (induction xs arbitrary: s Q)
  case (Cons i xs)
  show ?case
  proof (cases "f i")
    case None
    with Cons.prems(1) [of i s] have s: "F i s = Inr s" by simp
    have w: "waiting (ncpus s) Q + length xs \<le> num (msg_pool s)" using Cons.prems(4) by simp
    have st: "F j m = (case f j of None \<Rightarrow> Inr m | Some (t, x) \<Rightarrow> cpu_send_msg m t x)" if "j \<in> set xs" for j m
      using Cons.prems(1) that by simp
    have tg: "t < ncpus s" if "j \<in> set xs" "f j = Some (t, x)" for j t x using Cons.prems(2) [of j t x] that by simp
    from Cons.IH [OF st tg Cons.prems(3) w] None s show ?thesis by simp
  next
    case (Some tx)
    obtain t x where tx: "tx = (t, x)" by (cases tx)
    have t: "t < ncpus s" using Cons.prems(2) [of i t x] Some tx by simp
    from send_ok [OF Cons.prems(3) _ t, of x] Cons.prems(4) obtain s1 where s1: "cpu_send_msg s t x = Inr s1"
        "mailboxes s1 (Q(t := Q t @ [x]))" "ncpus s1 = ncpus s" "num (msg_pool s1) = num (msg_pool s)" by auto
    have w: "waiting (ncpus s1) (Q(t := Q t @ [x])) + length xs \<le> num (msg_pool s1)"
      using Cons.prems(4) s1(3,4) waiting_send [OF t, of Q x] by simp
    have st: "F j m = (case f j of None \<Rightarrow> Inr m | Some (t, x) \<Rightarrow> cpu_send_msg m t x)" if "j \<in> set xs" for j m
      using Cons.prems(1) that by simp
    have tg: "t < ncpus s1" if "j \<in> set xs" "f j = Some (t, x)" for j t x using Cons.prems(2) [of j t x] that s1(3) by simp
    have s: "F i s = Inr s1" using Cons.prems(1) [of i s] Some tx s1(1) by simp
    have q: "(\<lambda>c. (Q(t := Q t @ [x])) c @ sent f xs c) = (\<lambda>c. Q c @ sent f (i # xs) c)"
      using Some tx by (simp add: fun_eq_iff)
    from Cons.IH [OF st tg s1(2) w] show ?thesis unfolding q using s s1(3,4) by (simp add: Some tx)
  qed
qed simp

text \<open>A send raises the interrupt of its target only.\<close>

lemma send_ipi_other: "cpu_send_msg s t m = Inr s' \<Longrightarrow> c \<noteq> t \<Longrightarrow> ipi s' ! c = ipi s ! c"
  by (auto simp: cpu_send_msg_def cpu_msg_alloc_def cpu_msg_push_def cpu_msg_ipi_def wr_def split_def Let_def bindR_def
      split: sum.splits option.splits if_splits)

lemma foldR_ipi_other:
  assumes "\<And>i m. i \<in> set xs \<Longrightarrow> F i m = (case f i of None \<Rightarrow> Inr m | Some (t, x) \<Rightarrow> cpu_send_msg m t x)"
    and "\<And>i x. i \<in> set xs \<Longrightarrow> f i \<noteq> Some (c, x)" "foldR F xs s = Inr s'"
  shows "ipi s' ! c = ipi s ! c"
  using assms
proof (induction xs arbitrary: s)
  case (Cons i xs)
  from Cons.prems(3) obtain s1 where s1: "F i s = Inr s1" "foldR F xs s1 = Inr s'"
    by (auto simp: bindR_def split: sum.splits)
  have "ipi s1 ! c = ipi s ! c"
    using Cons.prems(1) [of i s] Cons.prems(2) [of i] s1(1) send_ipi_other
    by (cases "f i") (fastforce split: prod.splits)+
  moreover have "ipi s' ! c = ipi s1 ! c"
    using Cons.IH [of s1] Cons.prems(1,2) s1(2) by simp
  ultimately show ?case by simp
qed simp

section \<open>Well-formed harts\<close>

text \<open>
  The shape of a hart's state: its vCPU exists, every vCPU has its 31 registers and runs on a core
  of the VM, the VM's cores are cores of the machine, and the message queues are intact.
\<close>

definition hart_wf :: "'h hart \<Rightarrow> bool" where
  "hart_wf h \<longleftrightarrow> cur_vcpu h < length (vm_vcpus (cur_vm h))
    \<and> vm_cpu_num (cur_vm h) \<le> length (vm_vcpus (cur_vm h))
    \<and> (\<forall>u \<in> set (vm_vcpus (cur_vm h)). length (gprs (vcpu_regs u)) = 31 \<and> phys_id u \<in> cores (vm_cpus (cur_vm h)))
    \<and> (\<forall>p \<in> cores (vm_cpus (cur_vm h)). p < ncpus (msgs h))
    \<and> (\<exists>Q. mailboxes (msgs h) Q)"

text \<open>At least \<open>k\<close> message nodes are free.\<close>

definition room :: "nat \<Rightarrow> 'h hart \<Rightarrow> bool" where
  "room k h \<longleftrightarrow> card (in_use (msg_pool (msgs h))) + k \<le> num (msg_pool (msgs h))"

text \<open>
  What a call may change: registers and state of the VM's vCPUs, the hart's control registers,
  the mailboxes of the VM's own cores and the interrupts pending there (\<open>cpu_send_msg\<close> asks the
  firmware for them; \<open>ipi\<close> records these requests), and other requests to the firmware, which set
  the hart's timer or fence cores of the VM.
\<close>

definition own_request :: "cpumap \<Rightarrow> sbi_req \<Rightarrow> bool" where
  "own_request m r \<longleftrightarrow> req_eid r = SBI_EXTID_TIME \<and> req_fid r = SBI_SET_TIMER_FID
    \<or> req_eid r = SBI_EXTID_RFNC \<and> req_args r ! 1 = 0 \<and> (\<forall>p. bit (req_args r ! 0) p \<longrightarrow> p \<in> cores m)"

definition call_confined :: "'h hart \<Rightarrow> 'h hart \<Rightarrow> bool" where
  "call_confined h h' \<longleftrightarrow>
    h' = h\<lparr>cur_vm := (cur_vm h)\<lparr>vm_vcpus := vm_vcpus (cur_vm h')\<rparr>, msgs := msgs h', vs := vs h', sie := sie h', ecalls := ecalls h'\<rparr>
    \<and> List.map phys_id (vm_vcpus (cur_vm h')) = List.map phys_id (vm_vcpus (cur_vm h))
    \<and> (\<forall>Q. mailboxes (msgs h) Q \<longrightarrow> (\<exists>Q'. mailboxes (msgs h') Q' \<and> (\<forall>c. c \<notin> cores (vm_cpus (cur_vm h)) \<longrightarrow> Q' c = Q c)))
    \<and> (\<forall>c. c \<notin> cores (vm_cpus (cur_vm h)) \<longrightarrow> ipi (msgs h') ! c = ipi (msgs h) ! c)
    \<and> (\<exists>es. ecalls h' = ecalls h @ es \<and> (\<forall>r \<in> set es. own_request (vm_cpus (cur_vm h)) r))"

lemma call_confined_refl [simp]: "call_confined h h"
  by (simp add: call_confined_def) blast

lemma hart_wf_this: "hart_wf h \<Longrightarrow> this_vcpu h = Inr (vm_vcpus (cur_vm h) ! cur_vcpu h)"
  by (simp add: hart_wf_def this_vcpu_def)

lemma hart_wf_arg: "hart_wf h \<Longrightarrow> \<exists>x. read_arg r h = Inr x"
  by (simp add: read_arg_def hart_wf_this)

text \<open>A step that changes only one vCPU's registers.\<close>

lemma set_vcpu_step:
  assumes "hart_wf h" "i < length (vm_vcpus (cur_vm h))" "length (gprs (vcpu_regs u)) = 31"
    and "phys_id u = phys_id (vm_vcpus (cur_vm h) ! i)"
  shows "\<exists>h'. set_vcpu i u h = Inr h' \<and> hart_wf h' \<and> call_confined h h' \<and> msgs h' = msgs h
    \<and> vm_vcpus (cur_vm h') = (vm_vcpus (cur_vm h))[i := u]"
proof -
  have m: "List.map phys_id ((vm_vcpus (cur_vm h))[i := u]) = List.map phys_id (vm_vcpus (cur_vm h))"
    using assms(2,4) by (simp add: map_update list_update_same_conv)
  have "u' \<in> set ((vm_vcpus (cur_vm h))[i := u]) \<Longrightarrow> length (gprs (vcpu_regs u')) = 31 \<and> phys_id u' \<in> cores (vm_cpus (cur_vm h))" for u'
    using assms set_update_subset_insert [of "vm_vcpus (cur_vm h)" i u] nth_mem [OF assms(2)] by (auto simp: hart_wf_def)
  then have "hart_wf (h\<lparr>cur_vm := (cur_vm h)\<lparr>vm_vcpus := (vm_vcpus (cur_vm h))[i := u]\<rparr>\<rparr>)"
    using assms(1) by (simp add: hart_wf_def)
  moreover have "call_confined h (h\<lparr>cur_vm := (cur_vm h)\<lparr>vm_vcpus := (vm_vcpus (cur_vm h))[i := u]\<rparr>\<rparr>)"
    using m by (auto simp: call_confined_def)
  ultimately show ?thesis using assms(2) by (simp add: set_vcpu_def wr_def)
qed

lemma call_confined_cpus: "call_confined h h' \<Longrightarrow> vm_cpus (cur_vm h') = vm_cpus (cur_vm h)"
  unfolding call_confined_def by (drule conjunct1, drule arg_cong [where f = "\<lambda>h. vm_cpus (cur_vm h)"]) simp

lemma call_confined_trans:
  assumes "call_confined h h1" "call_confined h1 h2"
  shows "call_confined h h2"
proof -
  note c = call_confined_cpus [OF assms(1)]
  have "h2 = h\<lparr>cur_vm := (cur_vm h)\<lparr>vm_vcpus := vm_vcpus (cur_vm h2)\<rparr>, msgs := msgs h2, vs := vs h2, sie := sie h2, ecalls := ecalls h2\<rparr>"
    using assms [unfolded call_confined_def, THEN conjunct1]
    by (cases h; cases h1; cases h2; cases "cur_vm h"; cases "cur_vm h1"; cases "cur_vm h2") simp
  moreover obtain es es' where "ecalls h1 = ecalls h @ es" "ecalls h2 = ecalls h1 @ es'"
      "\<forall>r \<in> set es. own_request (vm_cpus (cur_vm h)) r" "\<forall>r \<in> set es'. own_request (vm_cpus (cur_vm h)) r"
    using assms c unfolding call_confined_def by auto
  moreover from this have "ecalls h2 = ecalls h @ (es @ es')" "\<forall>r \<in> set (es @ es'). own_request (vm_cpus (cur_vm h)) r" by auto
  moreover have "\<forall>Q. mailboxes (msgs h) Q \<longrightarrow> (\<exists>Q'. mailboxes (msgs h2) Q' \<and> (\<forall>c. c \<notin> cores (vm_cpus (cur_vm h)) \<longrightarrow> Q' c = Q c))"
    using assms c unfolding call_confined_def by metis
  moreover have "\<forall>c. c \<notin> cores (vm_cpus (cur_vm h)) \<longrightarrow> ipi (msgs h2) ! c = ipi (msgs h) ! c"
    using assms c unfolding call_confined_def by simp
  ultimately show ?thesis using assms unfolding call_confined_def by metis
qed

lemma card_cores: "card (cores m) \<le> 64"
proof -
  have "cores m \<subseteq> {0..<64}" by (auto simp: cores_def)
  from card_mono [OF _ this] show ?thesis by simp
qed

section \<open>Inter-processor interrupts\<close>

definition ipi_msg :: "hart_env \<Rightarrow> cpu_msg" where
  "ipi_msg E = \<lparr>handler = sbi_msg_id E, event = SEND_IPI, data = 0\<rparr>"

definition ipi_target :: "hart_env \<Rightarrow> cpumap \<Rightarrow> u64 \<Rightarrow> u64 \<Rightarrow> nat \<Rightarrow> (cpuid \<times> cpu_msg) option" where
  "ipi_target E cpus msk base i =
    (if bit msk i \<and> unat (base + of_nat i) < card (cores cpus)
     then Some (inv_into (cores cpus) (rank cpus) (unat (base + of_nat i)), ipi_msg E) else None)"

lemma ipi_target_Some:
  assumes "ipi_target E cpus msk base i = Some (t, x)"
  shows "t \<in> cores cpus" "rank cpus t = unat (base + of_nat i)" "bit msk i" "x = ipi_msg E"
proof -
  have "unat (base + of_nat i) \<in> rank cpus ` cores cpus" using assms by (simp add: ipi_target_def rank_image split: if_splits)
  then show "t \<in> cores cpus" "rank cpus t = unat (base + of_nat i)" "bit msk i" "x = ipi_msg E"
    using assms by (auto simp: ipi_target_def inv_into_into f_inv_into_f split: if_splits)
qed

lemma sbi_ipi_step:
  assumes "i < 64"
  shows "bindR (bitmap_get (cpus_bitmap msk) i) (\<lambda>b. if b then
             bindR (vm_translate_to_pcpuid v (unat (base + of_nat i))) (\<lambda>p.
             if p \<noteq> INVALID_CPUID
             then cpu_send_msg m p \<lparr>handler = sbi_msg_id E, event = SEND_IPI, data = 0\<rparr> else Inr m)
           else Inr m)
    = (case ipi_target E (vm_cpus v) msk base i of None \<Rightarrow> Inr m | Some (t, x) \<Rightarrow> cpu_send_msg m t x)"
proof -
  obtain p where p: "vm_translate_to_pcpuid v (unat (base + of_nat i)) = Inr p"
    "if unat (base + of_nat i) < card (cores (vm_cpus v)) then p \<in> cores (vm_cpus v) \<and> rank (vm_cpus v) p = unat (base + of_nat i) else p = INVALID_CPUID"
    using to_pcpuid_cases by blast
  have "p \<in> cores (vm_cpus v) \<Longrightarrow> p \<noteq> INVALID_CPUID" by (auto simp: INVALID_CPUID_def cores_def)
  moreover have "p \<in> cores (vm_cpus v) \<Longrightarrow> inv_into (cores (vm_cpus v)) (rank (vm_cpus v)) (rank (vm_cpus v) p) = p"
    by (rule inv_into_f_f [OF rank_inj])
  ultimately show ?thesis using p assms by (auto simp: bitmap_get_eq bm_bit_cpus ipi_target_def ipi_msg_def)
qed

lemma sent_ipi:
  "sent (ipi_target E cpus msk base) [0..<64] c =
    (if c \<in> cores cpus \<and> bit msk (unat (of_nat (rank cpus c) - base)) then [ipi_msg E] else [])"
proof (cases "c \<in> cores cpus \<and> bit msk (unat (of_nat (rank cpus c) - base))")
  case False
  have "ipi_target E cpus msk base i \<noteq> Some (c, m)" if "i < 64" for i m
  proof
    assume t: "ipi_target E cpus msk base i = Some (c, m)"
    have "of_nat (rank cpus c) - base = (of_nat i :: u64)" using ipi_target_Some(2) [OF t] by simp
    then have "unat (of_nat (rank cpus c) - base) = i" using that by (simp add: unat_of_nat_u64)
    with False ipi_target_Some(1,3) [OF t] show False by simp
  qed
  then have "sent (ipi_target E cpus msk base) [0..<64] c = []" by (intro sent_none) auto
  with False show ?thesis by simp
next
  case True
  define k where "k = unat (of_nat (rank cpus c) - base)"
  have k: "k < 64" "bit msk k" using True by (auto simp: k_def dest: bit_imp_le_length)
  have "rank cpus c < card (cores cpus)" "card (cores cpus) \<le> 64"
    using True rank_less card_cores by auto
  then have r: "unat (base + of_nat k) = rank cpus c" by (simp add: k_def unat_of_nat_u64)
  have t: "ipi_target E cpus msk base k = Some (c, ipi_msg E)"
    using k r \<open>rank cpus c < card (cores cpus)\<close> True by (simp add: ipi_target_def inv_into_f_f [OF rank_inj])
  have o: "ipi_target E cpus msk base i \<noteq> Some (c, m)" if "i < 64" "i \<noteq> k" for i m
  proof
    assume t: "ipi_target E cpus msk base i = Some (c, m)"
    have "of_nat (rank cpus c) - base = (of_nat i :: u64)" using ipi_target_Some(2) [OF t] by simp
    then have "k = i" using that(1) by (simp add: unat_of_nat_u64 k_def)
    with that show False by simp
  qed
  have s: "[0..<64] = [0..<k] @ k # [Suc k..<64]" using k(1) upt_add_eq_append [of 0 k "64 - k"] by (simp add: upt_conv_Cons)
  have a: "sent f (xs @ ys) c = sent f xs c @ sent f ys c" for f :: "nat \<Rightarrow> (nat \<times> cpu_msg) option" and xs ys by (simp add: sent_def)
  have n: "sent (ipi_target E cpus msk base) [0..<k] c = []" "sent (ipi_target E cpus msk base) [Suc k..<64] c = []"
    using o k(1) by (auto intro!: sent_none)
  show ?thesis using True unfolding s a by (simp add: n t)
qed

lemma hart_wf_msgs:
  assumes "hart_wf h" "mailboxes m Q" "ncpus m = ncpus (msgs h)"
  shows "hart_wf (h\<lparr>msgs := m\<rparr>)"
  using assms by (auto simp: hart_wf_def)

lemma room_waiting: "room k h \<Longrightarrow> mailboxes (msgs h) Q \<Longrightarrow> waiting (ncpus (msgs h)) Q + k \<le> num (msg_pool (msgs h))"
  using mailboxes_waiting by (fastforce simp: room_def)

lemma sbi_ipi_ok:
  assumes "hart_wf h" "room 64 h" "read_arg REG_A0 h = Inr msk" "read_arg REG_A1 h = Inr base"
  shows "\<exists>m. sbi_ipi_handler E SBI_SEND_IPI_FID h = Inr (h\<lparr>msgs := m\<rparr>, \<lparr>sbi_error = SBI_SUCCESS, sbi_value = 0\<rparr>)
    \<and> ncpus m = ncpus (msgs h)
    \<and> (\<forall>Q. mailboxes (msgs h) Q \<longrightarrow> mailboxes m (\<lambda>c. Q c @
        (if c \<in> cores (vm_cpus (cur_vm h)) \<and> bit msk (unat (of_nat (rank (vm_cpus (cur_vm h)) c) - base)) then [ipi_msg E] else [])))"
proof -
  let ?F = "\<lambda>i m. bindR (bitmap_get (cpus_bitmap msk) i) (\<lambda>b. if b then
             bindR (vm_translate_to_pcpuid (cur_vm h) (unat (base + of_nat i))) (\<lambda>p.
             if p \<noteq> INVALID_CPUID
             then cpu_send_msg m p \<lparr>handler = sbi_msg_id E, event = SEND_IPI, data = 0\<rparr> else Inr m)
           else Inr m)"
  let ?t = "ipi_target E (vm_cpus (cur_vm h)) msk base"
  have tg: "t < ncpus (msgs h)" if "i \<in> set [0..<64]" "?t i = Some (t, x)" for i t x
    using ipi_target_Some(1) [OF that(2)] assms(1) by (auto simp: hart_wf_def)
  have st: "?F i m = (case ?t i of None \<Rightarrow> Inr m | Some (t, x) \<Rightarrow> cpu_send_msg m t x)" if "i \<in> set [0..<64]" for i m
    using that by (intro sbi_ipi_step) simp
  have run: "\<exists>m. foldR ?F [0..<64] (msgs h) = Inr m \<and> mailboxes m (\<lambda>c. Q c @ sent ?t [0..<64] c) \<and> ncpus m = ncpus (msgs h)
      \<and> num (msg_pool m) = num (msg_pool (msgs h))" if "mailboxes (msgs h) Q" for Q
    by (rule foldR_sends [OF st tg that]) (use room_waiting [OF assms(2) that] in simp_all)
  from assms(1) obtain Q0 where "mailboxes (msgs h) Q0" by (auto simp: hart_wf_def)
  from run [OF this] obtain m where m: "foldR ?F [0..<64] (msgs h) = Inr m" "ncpus m = ncpus (msgs h)" by auto
  have all: "\<forall>Q. mailboxes (msgs h) Q \<longrightarrow> mailboxes m (\<lambda>c. Q c @ sent ?t [0..<64] c)" using run m(1) by auto
  have e: "sbi_ipi_handler E SBI_SEND_IPI_FID h = bindR (foldR ?F [0..<64] (msgs h)) (\<lambda>m.
       Inr (h\<lparr>msgs := m\<rparr>, \<lparr>sbi_error = SBI_SUCCESS, sbi_value = 0\<rparr>))"
    by (simp only: sbi_ipi_handler_def assms(3,4) bindR_Inr if_False not_not simp_thms)
  show ?thesis
    by (rule exI [of _ m]) (use all in \<open>simp only: e m bindR_Inr sent_ipi simp_thms\<close>)
qed

lemma sbi_ipi_others:
  assumes "sbi_ipi_handler E SBI_SEND_IPI_FID h = Inr (h', r)" "read_arg REG_A0 h = Inr msk" "read_arg REG_A1 h = Inr base"
    and "c \<notin> cores (vm_cpus (cur_vm h))"
  shows "ipi (msgs h') ! c = ipi (msgs h) ! c"
proof -
  let ?F = "\<lambda>i m. bindR (bitmap_get (cpus_bitmap msk) i) (\<lambda>b. if b then
             bindR (vm_translate_to_pcpuid (cur_vm h) (unat (base + of_nat i))) (\<lambda>p.
             if p \<noteq> INVALID_CPUID
             then cpu_send_msg m p \<lparr>handler = sbi_msg_id E, event = SEND_IPI, data = 0\<rparr> else Inr m)
           else Inr m)"
  let ?t = "ipi_target E (vm_cpus (cur_vm h)) msk base"
  have "sbi_ipi_handler E SBI_SEND_IPI_FID h = bindR (foldR ?F [0..<64] (msgs h)) (\<lambda>m.
       Inr (h\<lparr>msgs := m\<rparr>, \<lparr>sbi_error = SBI_SUCCESS, sbi_value = 0\<rparr>))"
    by (simp only: sbi_ipi_handler_def assms(2,3) bindR_Inr if_False not_not simp_thms)
  with assms(1) have fold: "foldR ?F [0..<64] (msgs h) = Inr (msgs h')"
    by (cases "foldR ?F [0..<64] (msgs h)") auto
  have st: "?F i m = (case ?t i of None \<Rightarrow> Inr m | Some (t, x) \<Rightarrow> cpu_send_msg m t x)" if "i \<in> set [0..<64]" for i m
    using that by (intro sbi_ipi_step) simp
  have "?t i \<noteq> Some (c, x)" for i x using ipi_target_Some(1) assms(4) by blast
  from foldR_ipi_other [OF st this fold] show ?thesis .
qed

text \<open>The result of a call that neither stops the hypervisor nor leaves the VM.\<close>

definition good :: "'h hart \<Rightarrow> ('h hart \<times> 'r) res \<Rightarrow> bool" where
  "good h r \<longleftrightarrow> (\<exists>h' x. r = Inr (h', x) \<and> hart_wf h' \<and> call_confined h h')"

lemma goodI: "r = Inr (h', x) \<Longrightarrow> hart_wf h' \<Longrightarrow> call_confined h h' \<Longrightarrow> good h r"
  by (auto simp: good_def)

lemma good_refl [simp]: "hart_wf h \<Longrightarrow> good h (Inr (h, x))"
  by (simp add: good_def)

lemma ipi_good:
  assumes "hart_wf h" "room 64 h"
  shows "good h (sbi_ipi_handler E fid h)"
proof (cases "fid = SBI_SEND_IPI_FID")
  case True
  obtain msk base where a: "read_arg REG_A0 h = Inr msk" "read_arg REG_A1 h = Inr base" using hart_wf_arg [OF assms(1)] by metis
  from sbi_ipi_ok [OF assms a, of E] obtain m where m: "sbi_ipi_handler E SBI_SEND_IPI_FID h = Inr (h\<lparr>msgs := m\<rparr>, \<lparr>sbi_error = SBI_SUCCESS, sbi_value = 0\<rparr>)"
    "ncpus m = ncpus (msgs h)" "\<And>Q. mailboxes (msgs h) Q \<Longrightarrow> mailboxes m (\<lambda>c. Q c @
        (if c \<in> cores (vm_cpus (cur_vm h)) \<and> bit msk (unat (of_nat (rank (vm_cpus (cur_vm h)) c) - base)) then [ipi_msg E] else []))" by blast
  obtain Q where "mailboxes (msgs h) Q" using assms(1) by (auto simp: hart_wf_def)
  from hart_wf_msgs [OF assms(1) m(3) [OF this] m(2)] have wf: "hart_wf (h\<lparr>msgs := m\<rparr>)" .
  have c: "call_confined h (h\<lparr>msgs := m\<rparr>)"
  proof -
    have "\<exists>Q'. mailboxes m Q' \<and> (\<forall>c. c \<notin> cores (vm_cpus (cur_vm h)) \<longrightarrow> Q' c = Q c)" if "mailboxes (msgs h) Q" for Q
      by (rule exI, rule conjI [OF m(3) [OF that]]) simp
    then show ?thesis using sbi_ipi_others [OF m(1) a] by (simp add: call_confined_def)
  qed
  show ?thesis unfolding True by (rule goodI [OF m(1) wf c])
qed (simp add: sbi_ipi_handler_def assms)

lemma time_good: "hart_wf h \<Longrightarrow> good h (sbi_time_handler E fid h)"
proof (cases "fid = SBI_SET_TIMER_FID")
  case True
  assume wf: "hart_wf h"
  from hart_wf_arg [OF this] obtain x where x: "read_arg REG_A0 h = Inr x" by blast
  let ?h = "csrs_sie SIE_STIE (csrc_hvip HIP_VSTIP (fst (sbi_ecall E (sbi_set_timer x) h)))"
  have "own_request m (sbi_set_timer x)" for m by (simp add: own_request_def sbi_set_timer_def)
  then have "call_confined h ?h" by (auto simp: call_confined_def csrs_sie_def csrc_hvip_def sbi_ecall_def)
  moreover have "hart_wf ?h" using wf by (simp add: hart_wf_def csrs_sie_def csrc_hvip_def sbi_ecall_def)
  ultimately show ?thesis by (simp add: sbi_time_handler_def True x good_def)
qed (simp add: sbi_time_handler_def)

section \<open>Fences\<close>

definition fence_valid :: "u64 \<Rightarrow> u64 \<Rightarrow> bool" where
  "fence_valid msk base \<longleftrightarrow> base = 0 \<or> base < 64 \<and> (\<forall>i. 64 - unat base \<le> i \<longrightarrow> \<not> bit msk i)"

lemma fence_check:
  "(if base = 0 then Inr False else if 64 \<le> base then Inr True
    else bindR (bitmap_find_nth (cpus_bitmap msk) 64 1 (64 - unat base) True) (\<lambda>i. Inr (0 < i)))
   = (Inr (\<not> fence_valid msk base) :: bool res)"
proof (cases "base = 0 \<or> 64 \<le> base")
  case False
  then have b: "0 < unat base" "unat base < 64" "base < 64" by (simp_all add: word_less_nat_alt word_le_nat_alt unat_gt_0)
  let ?P = "\<lambda>k. 64 - unat base \<le> k \<and> k < 64 \<and> bm_bit (cpus_bitmap msk) k = True"
  have "bitmap_find_nth (cpus_bitmap msk) 64 1 (64 - unat base) True =
      (if \<exists>k \<in> {64 - unat base..<64}. bm_bit (cpus_bitmap msk) k = True then Inr (int (LEAST k. ?P k)) else Inr (- 1))"
    using find_first [of 64 "cpus_bitmap msk" "64 - unat base" True] by simp
  moreover have "0 < (LEAST k. ?P k)" if "\<exists>k \<in> {64 - unat base..<64}. bm_bit (cpus_bitmap msk) k = True"
  proof -
    from that have "\<exists>k. ?P k" by auto
    from LeastI_ex [OF this] b show ?thesis by linarith
  qed
  moreover have "(\<exists>k \<in> {64 - unat base..<64}. bm_bit (cpus_bitmap msk) k = True) \<longleftrightarrow> \<not> fence_valid msk base"
    using False b bit_imp_le_length [of msk] by (fastforce simp: fence_valid_def bm_bit_cpus)
  ultimately show ?thesis using False by auto
qed (auto simp: fence_valid_def)

definition fence_request :: "u64 \<Rightarrow> u64 \<Rightarrow> u64 \<Rightarrow> u64 \<Rightarrow> u64 \<Rightarrow> sbi_req option" where
  "fence_request fid pm start_addr sz asid =
    (if fid = SBI_REMOTE_FENCE_I_FID then Some (sbi_remote_fence_i pm 0)
     else if fid = SBI_REMOTE_SFENCE_VMA_FID then Some (sbi_remote_hfence_vvma pm 0 start_addr sz)
     else if fid = SBI_REMOTE_SFENCE_VMA_ASID_FID then Some (sbi_remote_hfence_vvma_asid pm 0 start_addr sz asid)
     else None)"

lemma sbi_rfence_ok:
  assumes "read_arg REG_A0 h = Inr msk" "read_arg REG_A1 h = Inr base" "read_arg REG_A2 h = Inr st"
    and "read_arg REG_A3 h = Inr sz" "read_arg REG_A4 h = Inr asid"
  shows "\<exists>pm. (\<forall>p. bit pm p \<longleftrightarrow> p \<in> cores (vm_cpus (cur_vm h)) \<and> bit msk (rank (vm_cpus (cur_vm h)) p + unat base))
    \<and> sbi_rfence_handler E und fid h =
      Inr (if \<not> fence_valid msk base then (h, \<lparr>sbi_error = SBI_ERR_INVALID_PARAM, sbi_value = 0\<rparr>)
        else case fence_request fid pm st sz asid of
          Some r \<Rightarrow> sbi_ecall E r h
        | None \<Rightarrow> (h, und\<lparr>sbi_error := SBI_ERR_NOT_SUPPORTED\<rparr>))"
proof -
  from pcpu_mask_exact [of 64 "cur_vm h" "drop_bit (unat base) msk", OF order_refl] obtain pm where
    pm: "vm_translate_to_pcpu_mask (cur_vm h) (drop_bit (unat base) msk) 64 = Inr pm"
      "\<forall>p. bit pm p \<longleftrightarrow> p \<in> cores (vm_cpus (cur_vm h)) \<and> rank (vm_cpus (cur_vm h)) p < 64
        \<and> bit (drop_bit (unat base) msk) (rank (vm_cpus (cur_vm h)) p)" by (elim exE conjE)
  have "bit pm p \<longleftrightarrow> p \<in> cores (vm_cpus (cur_vm h)) \<and> bit msk (rank (vm_cpus (cur_vm h)) p + unat base)" for p
    using pm(2) [rule_format, of p] rank_less [of p "vm_cpus (cur_vm h)"] card_cores [of "vm_cpus (cur_vm h)"]
    by (auto simp: bit_drop_bit_eq ac_simps)
  moreover have "sbi_rfence_handler E und fid h =
      Inr (if \<not> fence_valid msk base then (h, \<lparr>sbi_error = SBI_ERR_INVALID_PARAM, sbi_value = 0\<rparr>)
        else case fence_request fid pm st sz asid of
          Some r \<Rightarrow> sbi_ecall E r h
        | None \<Rightarrow> (h, und\<lparr>sbi_error := SBI_ERR_NOT_SUPPORTED\<rparr>))"
    unfolding sbi_rfence_handler_def assms bindR_Inr fence_check pm(1) by (simp add: fence_request_def)
  ultimately show ?thesis by blast
qed

lemma rfence_good: "hart_wf h \<Longrightarrow> good h (sbi_rfence_handler E und fid h)"
proof -
  assume wf: "hart_wf h"
  obtain msk base st sz asid where a: "read_arg REG_A0 h = Inr msk" "read_arg REG_A1 h = Inr base" "read_arg REG_A2 h = Inr st"
    "read_arg REG_A3 h = Inr sz" "read_arg REG_A4 h = Inr asid" using hart_wf_arg [OF wf] by metis
  from sbi_rfence_ok [OF a, of E und fid] obtain pm where
    pm: "\<And>p. bit pm p \<Longrightarrow> p \<in> cores (vm_cpus (cur_vm h))"
    and r: "sbi_rfence_handler E und fid h =
      Inr (if \<not> fence_valid msk base then (h, \<lparr>sbi_error = SBI_ERR_INVALID_PARAM, sbi_value = 0\<rparr>)
        else case fence_request fid pm st sz asid of
          Some r \<Rightarrow> sbi_ecall E r h
        | None \<Rightarrow> (h, und\<lparr>sbi_error := SBI_ERR_NOT_SUPPORTED\<rparr>))" by blast
  have "good h (Inr (sbi_ecall E q h))" if "fence_request fid pm st sz asid = Some q" for q
  proof -
    have "own_request (vm_cpus (cur_vm h)) q" using that pm
      by (auto simp: fence_request_def own_request_def sbi_remote_fence_i_def sbi_remote_hfence_vvma_def
          sbi_remote_hfence_vvma_asid_def split: if_splits)
    then have "call_confined h (h\<lparr>ecalls := ecalls h @ [q]\<rparr>)" by (auto simp: call_confined_def)
    moreover have "hart_wf (h\<lparr>ecalls := ecalls h @ [q]\<rparr>)" using wf by (simp add: hart_wf_def)
    ultimately show ?thesis by (simp add: sbi_ecall_def good_def)
  qed
  then show ?thesis using wf by (auto simp: r split: option.splits)
qed

section \<open>Starting harts\<close>

lemma hsm_good:
  assumes "hart_wf h" "room 1 h"
  shows "good h (sbi_hsm_start_handler E und h)"
proof -
  note me = hart_wf_this [OF assms(1)]
  define x where "x = vcpu_readreg (vm_vcpus (cur_vm h) ! cur_vcpu h) REG_A0"
  let ?i = "unat x"
  let ?w = "vm_vcpus (cur_vm h) ! ?i"
  let ?a = "vcpu_readreg (vm_vcpus (cur_vm h) ! cur_vcpu h) REG_A1"
  let ?p = "ucast (vcpu_readreg (vm_vcpus (cur_vm h) ! cur_vcpu h) REG_A2) :: u32"
  let ?u = "?w\<lparr>hsm_state := START_PENDING, hsm_start_addr := ?a, hsm_priv := ?p\<rparr>"
  show ?thesis
  proof (cases "?i \<noteq> vcpu_id (vm_vcpus (cur_vm h) ! cur_vcpu h) \<and> ?i < vm_cpu_num (cur_vm h) \<and> hsm_state ?w = STOPPED")
    case True
    then have i: "?i < length (vm_vcpus (cur_vm h))" using assms(1) by (simp add: hart_wf_def)
    have w: "length (gprs (vcpu_regs ?w)) = 31" "phys_id ?w \<in> cores (vm_cpus (cur_vm h))" "phys_id ?w < ncpus (msgs h)"
      using assms(1) nth_mem [OF i] unfolding hart_wf_def by blast+
    obtain h1 where h1: "set_vcpu ?i ?u h = Inr h1" "hart_wf h1" "call_confined h h1" "msgs h1 = msgs h"
      using set_vcpu_step [OF assms(1) i, of ?u] w by auto
    obtain Q where Q: "mailboxes (msgs h) Q" using assms(1) by (auto simp: hart_wf_def)
    have snd: "\<exists>m. cpu_send_msg (msgs h) (phys_id ?w) (hart_start_msg E) = Inr m \<and> ncpus m = ncpus (msgs h)
        \<and> mailboxes m (Q(phys_id ?w := Q (phys_id ?w) @ [hart_start_msg E]))" if "mailboxes (msgs h) Q" for Q
      using send_ok [OF that _ w(3), of "hart_start_msg E"] room_waiting [OF assms(2) that] by auto
    from snd [OF Q] obtain m where m: "cpu_send_msg (msgs h) (phys_id ?w) (hart_start_msg E) = Inr m" "ncpus m = ncpus (msgs h)"
        "mailboxes m (Q(phys_id ?w := Q (phys_id ?w) @ [hart_start_msg E]))" by blast
    have "hart_wf (h1\<lparr>msgs := m\<rparr>)" using hart_wf_msgs [OF h1(2) m(3)] m(2) h1(4) by simp
    moreover have "call_confined h1 (h1\<lparr>msgs := m\<rparr>)"
    proof -
      have "\<exists>Q'. mailboxes m Q' \<and> (\<forall>c. c \<notin> cores (vm_cpus (cur_vm h1)) \<longrightarrow> Q' c = Q c)" if "mailboxes (msgs h) Q" for Q
        using snd [OF that] m(1) w(2) call_confined_cpus [OF h1(3)] by (fastforce intro: exI [of _ "Q(phys_id ?w := Q (phys_id ?w) @ [hart_start_msg E])"])
      moreover have "ipi m ! c = ipi (msgs h) ! c" if "c \<notin> cores (vm_cpus (cur_vm h1))" for c
        using send_ipi_other [OF m(1)] w(2) call_confined_cpus [OF h1(3)] that by metis
      ultimately show ?thesis by (simp add: call_confined_def h1(4))
    qed
    moreover have "sbi_hsm_start_handler E und h = Inr (h1\<lparr>msgs := m\<rparr>, und\<lparr>sbi_error := SBI_SUCCESS\<rparr>)"
      using True m(1) h1(1,4) by (simp add: sbi_hsm_start_handler_def me x_def vm_get_vcpu_def Let_def)
    ultimately show ?thesis using call_confined_trans [OF h1(3)] by (auto simp: good_def)
  next
    case False
    then have "\<exists>r. sbi_hsm_start_handler E und h = Inr (h, r)"
      by (auto simp: sbi_hsm_start_handler_def me x_def vm_get_vcpu_def Let_def)
    with assms(1) show ?thesis by auto
  qed
qed

section \<open>The dispatcher\<close>

lemma room_less: "room k h \<Longrightarrow> j \<le> k \<Longrightarrow> room j h"
  by (simp add: room_def)

lemma base_good: "hart_wf h \<Longrightarrow> \<exists>r. sbi_base_handler fid h = Inr r"
  using hart_wf_arg [of h REG_A0] by (auto simp: sbi_base_handler_def)

lemma status_good: "hart_wf h \<Longrightarrow> \<exists>r. sbi_hsm_status_handler und h = Inr r"
  using hart_wf_arg [of h REG_A0] by (cases "vm_get_vcpu (cur_vm h) (unat (case read_arg REG_A0 h of Inr x \<Rightarrow> x))") (auto simp: sbi_hsm_status_handler_def)

lemma write_arg_good: "hart_wf h \<Longrightarrow> \<exists>h'. write_arg r x h = Inr h' \<and> hart_wf h' \<and> call_confined h h'"
proof -
  assume wf: "hart_wf h"
  let ?u = "vm_vcpus (cur_vm h) ! cur_vcpu h"
  have i: "cur_vcpu h < length (vm_vcpus (cur_vm h))" using wf by (simp add: hart_wf_def)
  then have "length (gprs (vcpu_regs ?u)) = 31" using wf nth_mem [OF i] by (auto simp: hart_wf_def)
  then have "length (gprs (vcpu_regs (vcpu_writereg ?u r x))) = 31" "phys_id (vcpu_writereg ?u r x) = phys_id ?u"
    by (simp_all add: vcpu_writereg_def)
  from set_vcpu_step [OF wf i this] show ?thesis by (auto simp: write_arg_def hart_wf_this [OF wf])
qed

lemma goodE: "good h r \<Longrightarrow> (\<And>h' x. r = Inr (h', x) \<Longrightarrow> hart_wf h' \<Longrightarrow> call_confined h h' \<Longrightarrow> P) \<Longrightarrow> P"
  by (auto simp: good_def)

lemma sbi_vs_good:
  assumes "hart_wf h" "room 64 h" "read_arg REG_A7 h \<noteq> Inr SBI_EXTID_BAO"
  shows "\<exists>h'. sbi_vs_handler E und now h = Inr (h', 4) \<and> hart_wf h' \<and> call_confined h h'"
proof -
  obtain ext fid where a: "read_arg REG_A7 h = Inr ext" "read_arg REG_A6 h = Inr fid" using hart_wf_arg [OF assms(1)] by metis
  have e: "ext \<noteq> SBI_EXTID_BAO" using a(1) assms(3) by auto
  let ?r = "if ext = SBI_EXTID_BASE then bindR (sbi_base_handler fid h) (\<lambda>r. Inr (h, r))
           else if ext = SBI_EXTID_TIME then sbi_time_handler E fid h
           else if ext = SBI_EXTID_IPI then sbi_ipi_handler E fid h
           else if ext = SBI_EXTID_RFNC then sbi_rfence_handler E und fid h
           else if ext = SBI_EXTID_HSM then sbi_hsm_handler E und fid h
           else if ext = SBI_EXTID_BAO then sbi_bao_handler E und now fid h
           else Inr (h, und\<lparr>sbi_value := SBI_ERR_NOT_SUPPORTED\<rparr>)"
  have "good h (sbi_hsm_handler E und fid h)"
    using hsm_good [OF assms(1) room_less [OF assms(2), of 1], of E und] status_good [OF assms(1), of und] assms(1)
    by (auto simp: sbi_hsm_handler_def)
  moreover obtain r0 where "sbi_base_handler fid h = Inr r0" using base_good [OF assms(1)] by blast
  ultimately have "good h ?r"
    using e assms(1) time_good [OF assms(1), of E fid] ipi_good [OF assms(1,2), of E fid] rfence_good [OF assms(1), of E und fid]
    by simp
  then obtain h1 ret where h1: "?r = Inr (h1, ret)" "hart_wf h1" "call_confined h h1" by (rule goodE)
  obtain h2 where h2: "write_arg REG_A0 (sbi_error ret) h1 = Inr h2" "hart_wf h2" "call_confined h1 h2" using write_arg_good [OF h1(2)] by blast
  obtain h3 where h3: "write_arg REG_A1 (sbi_value ret) h2 = Inr h3" "hart_wf h3" "call_confined h2 h3" using write_arg_good [OF h2(2)] by blast
  have "sbi_vs_handler E und now h = Inr (h3, 4)"
    unfolding sbi_vs_handler_def a bindR_Inr h1(1) prod.case h2(1) h3(1) ..
  with h3(2) call_confined_trans [OF call_confined_trans [OF h1(3) h2(3)] h3(3)] show ?thesis by blast
qed

section \<open>Properties\<close>

text \<open>
  C17. A guest cannot stop the hypervisor with an SBI call: whatever the registers hold, a call of
  any extension but the hypervisor's own returns, past the call instruction, to a hart whose state
  is again well formed, as long as 64 message nodes are free.
\<close>

theorem sbi_call_returns:
  assumes "hart_wf h" "room 64 h" "read_arg REG_A7 h \<noteq> Inr SBI_EXTID_BAO"
  shows "\<exists>h'. sbi_vs_handler E und now h = Inr (h', 4) \<and> hart_wf h'"
  using sbi_vs_good [OF assms] by blast

text \<open>A hart of the VM with cores 1 and 3, whose guest has made a call.\<close>

definition demo_vcpu :: "nat \<Rightarrow> cpuid \<Rightarrow> sbi_hsm_state \<Rightarrow> u64 list \<Rightarrow> vcpu" where
  "demo_vcpu i p st rs = \<lparr>vcpu_id = i, phys_id = p, is_active = True,
    vcpu_regs = \<lparr>gprs = rs, hstatus = 0, sstatus = 0, sepc = 0x80200000\<rparr>, arch_hart_id = i, hsm_state = st,
    hsm_start_addr = 0, hsm_priv = 0\<rparr>"

definition demo_regs :: "u64 \<Rightarrow> u64 \<Rightarrow> u64 \<Rightarrow> u64 \<Rightarrow> u64 \<Rightarrow> u64 list" where
  "demo_regs a0 a1 a2 a6 a7 = (replicate 31 0)[9 := a0, 10 := a1, 11 := a2, 15 := a6, 16 := a7]"

definition demo_hart :: "u64 list \<Rightarrow> unit hart" where
  "demo_hart rs = \<lparr>cpu_id = 1,
    cur_vm = demo_hvm\<lparr>vm_vcpus := [demo_vcpu 0 1 STARTED rs, demo_vcpu 1 3 STOPPED (replicate 31 0)]\<rparr>, cur_vcpu = 0,
    irqs = \<lparr>vp = vplic_zero, phys = \<lparr>plic_prio = replicate 1024 0, plic_pend = replicate 32 0,
      plic_enbl = replicate 8 (replicate 32 0), plic_threshold = replicate 8 0, plic_complete = replicate 8 0,
      impl_interrupts = 127\<rparr>, vseip = (\<lambda>_. False), line_msgs = []\<rparr>,
    msgs = boot_msgs,
    ints = \<lparr>hyp_interrupt_bitmap = replicate 33 0, global_interrupt_bitmap = replicate 33 0,
      interrupt_handlers = replicate MAX_INTERRUPTS None\<rparr>,
    plic_cntxt_id = 3,
    vs = snd (vcpu_arch_reset (demo_vcpu 0 1 STARTED rs) 0),
    sie = 0, sip = 0, ecalls = [], recoveries = 0, shmem_table = [],
    stats = \<lparr>inject_total = 0, inject_allowed = 0, inject_deferred = 0, inject_dropped = 0\<rparr>,
    mem = demo_mem, ram = (\<lambda>_. 0)\<rparr>"

definition demo_hart_env :: hart_env where
  "demo_hart_env = \<lparr>sbi_msg_id = 1, vplic_ipi_id = 2, ipc_cpumsg_id = 3,
    firmware = (\<lambda>_ _. \<lparr>sbi_error = SBI_SUCCESS, sbi_value = 0\<rparr>), bao_recovery = True,
    health_cfg = \<lparr>enabled = True, heartbeat_period_ms = 100, timeout_ms = 500, cfg_max_missed = 3,
      auto_recover = True, max_recoveries = 1\<rparr>,
    mem_manager = demo_env, iommu_on = False\<rparr>"

lemma demo_hart_cores: "cores (vm_cpus (cur_vm (demo_hart rs))) = {1, 3}"
  using demo_cores by (simp add: demo_hart_def)

lemma demo_hart_wf: "length rs = 31 \<Longrightarrow> hart_wf (demo_hart rs)"
  using boot_mailboxes unfolding hart_wf_def demo_hart_cores
  by (auto simp: demo_hart_def demo_hvm_def demo_vcpu_def boot_msgs_def ncpus_def)

lemma demo_hart_room: "k \<le> 128 \<Longrightarrow> room k (demo_hart rs)"
  using mailboxes_waiting [OF boot_mailboxes]
  by (simp add: room_def demo_hart_def waiting_def) (simp add: boot_msgs_def OBJPOOL_ALLOC_def CPU_MSG_POOL_SIZE_def)

lemma demo_regs_len [simp]: "length (demo_regs a b c d e) = 31"
  by (simp add: demo_regs_def)

lemma demo_args [simp]:
  "read_arg REG_A0 (demo_hart (demo_regs a b c d e)) = Inr a" "read_arg REG_A1 (demo_hart (demo_regs a b c d e)) = Inr b"
  "read_arg REG_A2 (demo_hart (demo_regs a b c d e)) = Inr c" "read_arg REG_A3 (demo_hart (demo_regs a b c d e)) = Inr 0"
  "read_arg REG_A4 (demo_hart (demo_regs a b c d e)) = Inr 0" "read_arg REG_A6 (demo_hart (demo_regs a b c d e)) = Inr d"
  "read_arg REG_A7 (demo_hart (demo_regs a b c d e)) = Inr e"
  by (simp_all add: read_arg_def this_vcpu_def demo_hart_def demo_hvm_def demo_vcpu_def vcpu_readreg_def demo_regs_def
      REG_A0_def REG_A1_def REG_A2_def REG_A3_def REG_A4_def REG_A6_def REG_A7_def nth_list_update)

theorem sbi_call_returns_witness:
  "\<exists>h'. sbi_vs_handler demo_hart_env \<lparr>sbi_error = 7, sbi_value = 7\<rparr> 0
    (demo_hart (demo_regs (- 1) 3 0 SBI_REMOTE_SFENCE_VMA_FID SBI_EXTID_RFNC)) = Inr (h', 4)"
  using sbi_call_returns [OF demo_hart_wf demo_hart_room, of "demo_regs (- 1) 3 0 SBI_REMOTE_SFENCE_VMA_FID SBI_EXTID_RFNC"
      demo_hart_env "\<lparr>sbi_error = 7, sbi_value = 7\<rparr>" 0]
  by (auto simp: SBI_EXTID_RFNC_def SBI_EXTID_BAO_def)

text \<open>
  C18. The effects of an SBI call, of any extension but the hypervisor's own and with 64 free message
  nodes, stay in the VM: interrupt controllers, interrupt tables, memory
  management and the RAM are untouched, no other part of the VM than its vCPUs changes and these keep their
  cores, and cores outside the VM get no message. The firmware is asked for interrupts of cores of
  the VM only (those of the messages: the pending interrupt of no other core changes), and
  otherwise only to set this hart's timer or to fence cores of the VM.
\<close>

theorem sbi_call_confined:
  assumes "hart_wf h" "room 64 h" "read_arg REG_A7 h \<noteq> Inr SBI_EXTID_BAO"
    and "sbi_vs_handler E und now h = Inr (h', n)" "mailboxes (msgs h) Q"
  shows "irqs h' = irqs h \<and> ints h' = ints h \<and> mem h' = mem h \<and> ram h' = ram h
    \<and> cur_vm h' = (cur_vm h)\<lparr>vm_vcpus := vm_vcpus (cur_vm h')\<rparr>
    \<and> List.map phys_id (vm_vcpus (cur_vm h')) = List.map phys_id (vm_vcpus (cur_vm h))
    \<and> (\<exists>Q'. mailboxes (msgs h') Q' \<and> (\<forall>c. c \<notin> cores (vm_cpus (cur_vm h)) \<longrightarrow> Q' c = Q c))
    \<and> (\<forall>c. c \<notin> cores (vm_cpus (cur_vm h)) \<longrightarrow> ipi (msgs h') ! c = ipi (msgs h) ! c)
    \<and> (\<exists>es. ecalls h' = ecalls h @ es \<and> (\<forall>r \<in> set es. own_request (vm_cpus (cur_vm h)) r))"
proof -
  have c: "call_confined h h'" using sbi_vs_good [OF assms(1-3), of E und now] assms(4) by auto
  then have e: "h' = h\<lparr>cur_vm := (cur_vm h)\<lparr>vm_vcpus := vm_vcpus (cur_vm h')\<rparr>, msgs := msgs h', vs := vs h', sie := sie h', ecalls := ecalls h'\<rparr>"
    by (simp add: call_confined_def)
  have "irqs h' = irqs h" "ints h' = ints h" "mem h' = mem h" "ram h' = ram h" "cur_vm h' = (cur_vm h)\<lparr>vm_vcpus := vm_vcpus (cur_vm h')\<rparr>"
    by (subst e, simp)+
  with c assms(5) show ?thesis unfolding call_confined_def by blast
qed

lemma write_arg_ecalls: "write_arg r x h = Inr h' \<Longrightarrow> ecalls h' = ecalls h"
  by (auto simp: write_arg_def set_vcpu_def this_vcpu_def bindR_def split: sum.splits)

text \<open>A remote fence asked for all harts, and an interrupt sent to all harts.\<close>

theorem sbi_call_confined_witness:
  "(\<exists>h' n r. sbi_vs_handler demo_hart_env \<lparr>sbi_error = 7, sbi_value = 7\<rparr> 0
      (demo_hart (demo_regs (- 1) 0 0 SBI_REMOTE_SFENCE_VMA_FID SBI_EXTID_RFNC)) = Inr (h', n) \<and> ecalls h' = [r]
      \<and> \<not> bit (req_args r ! 0) 0 \<and> \<not> bit (req_args r ! 0) 2)
    \<and> (\<exists>h' n Q'. sbi_vs_handler demo_hart_env \<lparr>sbi_error = 7, sbi_value = 7\<rparr> 0
      (demo_hart (demo_regs (- 1) 0 0 SBI_SEND_IPI_FID SBI_EXTID_IPI)) = Inr (h', n) \<and> mem h' = demo_mem
      \<and> mailboxes (msgs h') Q' \<and> Q' 0 = [] \<and> Q' 2 = [] \<and> \<not> ipi (msgs h') ! 0 \<and> \<not> ipi (msgs h') ! 2)"
proof (rule conjI)
  let ?und = "\<lparr>sbi_error = 7, sbi_value = 7\<rparr>"
  have mb: "mailboxes (msgs (demo_hart rs)) (\<lambda>_. [])" for rs using boot_mailboxes by (simp add: demo_hart_def)
  have ip: "\<not> ipi (msgs (demo_hart rs)) ! 0" "\<not> ipi (msgs (demo_hart rs)) ! 2" "ecalls (demo_hart rs) = []" for rs
    by (simp_all add: demo_hart_def boot_msgs_def)
  let ?h = "demo_hart (demo_regs (- 1) 0 0 SBI_REMOTE_SFENCE_VMA_FID SBI_EXTID_RFNC)"
  have wf: "hart_wf ?h" and room: "room 64 ?h" and e: "read_arg REG_A7 ?h \<noteq> Inr SBI_EXTID_BAO"
    by (simp_all add: demo_hart_wf demo_hart_room SBI_EXTID_RFNC_def SBI_EXTID_BAO_def)
  obtain h' n where r: "sbi_vs_handler demo_hart_env ?und 0 ?h = Inr (h', n)"
    using sbi_vs_good [OF wf room e] by blast
  from sbi_rfence_ok [where E = demo_hart_env and und = ?und and fid = SBI_REMOTE_SFENCE_VMA_FID and h = ?h, OF demo_args(1-5)] obtain pm where
    "sbi_rfence_handler demo_hart_env ?und SBI_REMOTE_SFENCE_VMA_FID ?h
      = Inr (sbi_ecall demo_hart_env (sbi_remote_hfence_vvma pm 0 0 0) ?h)"
    by (auto simp: fence_valid_def fence_request_def SBI_REMOTE_SFENCE_VMA_FID_def SBI_REMOTE_FENCE_I_FID_def)
  then have "ecalls h' = [sbi_remote_hfence_vvma pm 0 0 0]"
    using r ip(3) by (auto simp: sbi_vs_handler_def SBI_EXTID_BASE_def SBI_EXTID_TIME_def SBI_EXTID_IPI_def SBI_EXTID_RFNC_def
        sbi_ecall_def bindR_def dest!: write_arg_ecalls split: sum.splits)
  moreover from sbi_call_confined [OF wf room e r mb] this ip(3)
  have "own_request (vm_cpus (cur_vm ?h)) (sbi_remote_hfence_vvma pm 0 0 0)" by auto
  then have "\<not> bit (req_args (sbi_remote_hfence_vvma pm 0 0 0) ! 0) 0" "\<not> bit (req_args (sbi_remote_hfence_vvma pm 0 0 0) ! 0) 2"
    by (auto simp: own_request_def sbi_remote_hfence_vvma_def SBI_EXTID_RFNC_def SBI_EXTID_TIME_def demo_hart_cores)
  ultimately show "\<exists>h' n r. sbi_vs_handler demo_hart_env ?und 0 ?h = Inr (h', n) \<and> ecalls h' = [r]
      \<and> \<not> bit (req_args r ! 0) 0 \<and> \<not> bit (req_args r ! 0) 2" using r by blast
  let ?h = "demo_hart (demo_regs (- 1) 0 0 SBI_SEND_IPI_FID SBI_EXTID_IPI)"
  have wf: "hart_wf ?h" and room: "room 64 ?h" and e: "read_arg REG_A7 ?h \<noteq> Inr SBI_EXTID_BAO"
    by (simp_all add: demo_hart_wf demo_hart_room SBI_EXTID_IPI_def SBI_EXTID_BAO_def)
  obtain h' n where r: "sbi_vs_handler demo_hart_env ?und 0 ?h = Inr (h', n)"
    using sbi_vs_good [OF wf room e] by blast
  from sbi_call_confined [OF wf room e r mb] have
    "mem h' = mem ?h" and "\<exists>Q'. mailboxes (msgs h') Q' \<and> (\<forall>c. c \<notin> {1, 3} \<longrightarrow> Q' c = [])"
      "\<not> ipi (msgs h') ! 0" "\<not> ipi (msgs h') ! 2"
    unfolding demo_hart_cores using ip(1,2) by auto
  then obtain Q' where "mailboxes (msgs h') Q'" "Q' 0 = []" "Q' 2 = []" by auto
  with r \<open>mem h' = mem ?h\<close> \<open>\<not> ipi (msgs h') ! 0\<close> \<open>\<not> ipi (msgs h') ! 2\<close>
  show "\<exists>h' n Q'. sbi_vs_handler demo_hart_env ?und 0 ?h = Inr (h', n) \<and> mem h' = demo_mem
      \<and> mailboxes (msgs h') Q' \<and> Q' 0 = [] \<and> Q' 2 = [] \<and> \<not> ipi (msgs h') ! 0 \<and> \<not> ipi (msgs h') ! 2"
    by (auto simp: demo_hart_def)
qed

text \<open>
  C24. With 64 free message nodes, an inter-processor interrupt reaches exactly the harts it names: a hart of the VM gets one
  message if the bit of its number, counted from the base, is set in the mask; no other hart
  gets any, bits beyond the VM's harts are ignored and nothing else of the hart changes.
\<close>

theorem sbi_ipi_exact:
  assumes "hart_wf h" "room 64 h" "read_arg REG_A0 h = Inr msk" "read_arg REG_A1 h = Inr base" "mailboxes (msgs h) Q"
  shows "\<exists>m. sbi_ipi_handler E SBI_SEND_IPI_FID h = Inr (h\<lparr>msgs := m\<rparr>, \<lparr>sbi_error = SBI_SUCCESS, sbi_value = 0\<rparr>)
    \<and> mailboxes m (\<lambda>c. if c \<in> cores (vm_cpus (cur_vm h)) \<and> bit msk (unat (of_nat (rank (vm_cpus (cur_vm h)) c) - base))
        then Q c @ [\<lparr>handler = sbi_msg_id E, event = SEND_IPI, data = 0\<rparr>] else Q c)"
proof -
  let ?P = "\<lambda>c. c \<in> cores (vm_cpus (cur_vm h)) \<and> bit msk (unat (of_nat (rank (vm_cpus (cur_vm h)) c) - base))"
  obtain m where m: "sbi_ipi_handler E SBI_SEND_IPI_FID h = Inr (h\<lparr>msgs := m\<rparr>, \<lparr>sbi_error = SBI_SUCCESS, sbi_value = 0\<rparr>)"
      "\<forall>Q. mailboxes (msgs h) Q \<longrightarrow> mailboxes m (\<lambda>c. Q c @ (if ?P c then [ipi_msg E] else []))"
    using sbi_ipi_ok [OF assms(1-4), of E] by (elim exE conjE)
  have e: "(\<lambda>c. Q c @ (if ?P c then [ipi_msg E] else [])) =
      (\<lambda>c. if ?P c then Q c @ [\<lparr>handler = sbi_msg_id E, event = SEND_IPI, data = 0\<rparr>] else Q c)"
    by (simp add: ipi_msg_def fun_eq_iff)
  from m(2) assms(5) have "mailboxes m (\<lambda>c. Q c @ (if ?P c then [ipi_msg E] else []))" by (elim allE impE)
  with m(1) show ?thesis unfolding e by (intro exI conjI)
qed

lemma demo_ranks: "rank (vm_cpus (cur_vm (demo_hart rs))) 1 = 0" "rank (vm_cpus (cur_vm (demo_hart rs))) 3 = 1"
proof -
  have b: "bit (vm_cpus (cur_vm (demo_hart rs))) q \<longleftrightarrow> q \<in> {1, 3}" if "q < 64" for q
    using demo_hart_cores [of rs] that unfolding cores_def by blast
  have "{q \<in> {0..<1}. bit (vm_cpus (cur_vm (demo_hart rs))) q} = {}" "{q \<in> {0..<3}. bit (vm_cpus (cur_vm (demo_hart rs))) q} = {1}"
    using b by auto
  then show "rank (vm_cpus (cur_vm (demo_hart rs))) 1 = 0" "rank (vm_cpus (cur_vm (demo_hart rs))) 3 = 1"
    by (simp_all add: rank_def)
qed

theorem sbi_ipi_exact_witness:
  "\<exists>m Q. sbi_ipi_handler demo_hart_env SBI_SEND_IPI_FID (demo_hart (demo_regs 1 1 0 0 SBI_EXTID_IPI))
      = Inr ((demo_hart (demo_regs 1 1 0 0 SBI_EXTID_IPI))\<lparr>msgs := m\<rparr>, \<lparr>sbi_error = SBI_SUCCESS, sbi_value = 0\<rparr>)
    \<and> mailboxes m Q \<and> Q 1 = [] \<and> Q 2 = [] \<and> Q 3 = [\<lparr>handler = 1, event = SEND_IPI, data = 0\<rparr>]"
proof -
  let ?h = "demo_hart (demo_regs 1 1 0 0 SBI_EXTID_IPI)"
  have mb: "mailboxes (msgs ?h) (\<lambda>_. [])" using boot_mailboxes by (simp add: demo_hart_def)
  let ?Q = "\<lambda>c. if c \<in> cores (vm_cpus (cur_vm ?h)) \<and> bit (1 :: u64) (unat (of_nat (rank (vm_cpus (cur_vm ?h)) c) - 1 :: u64))
        then [] @ [\<lparr>handler = sbi_msg_id demo_hart_env, event = SEND_IPI, data = 0\<rparr>] else []"
  from sbi_ipi_exact [OF demo_hart_wf demo_hart_room demo_args(1,2) mb, of demo_hart_env] obtain m where
    m: "sbi_ipi_handler demo_hart_env SBI_SEND_IPI_FID ?h = Inr (?h\<lparr>msgs := m\<rparr>, \<lparr>sbi_error = SBI_SUCCESS, sbi_value = 0\<rparr>)"
    "mailboxes m ?Q" by auto
  have "?Q 1 = []" "?Q 2 = []" "?Q 3 = [\<lparr>handler = 1, event = SEND_IPI, data = 0\<rparr>]"
    unfolding demo_hart_cores using demo_ranks by (simp_all add: bit_1_iff demo_hart_env_def unat_gt_0)
  with m show ?thesis by (intro exI conjI)
qed

text \<open>
  A remote fence reaches exactly the VM's harts whose bit, shifted right by the base, is set
  in the mask; the firmware gets one request with the physical mask and the guest's range, and a
  mask with bits that the shift by the base would lose is refused.
\<close>

theorem sbi_rfence_exact:
  assumes "read_arg REG_A0 h = Inr msk" "read_arg REG_A1 h = Inr base" "read_arg REG_A2 h = Inr st"
    and "read_arg REG_A3 h = Inr sz" "read_arg REG_A4 h = Inr asid"
  shows "\<exists>pm. (\<forall>p. bit pm p \<longleftrightarrow> p \<in> cores (vm_cpus (cur_vm h)) \<and> bit msk (rank (vm_cpus (cur_vm h)) p + unat base))
    \<and> sbi_rfence_handler E und SBI_REMOTE_SFENCE_VMA_ASID_FID h =
      Inr (if base = 0 \<or> base < 64 \<and> (\<forall>i. 64 - unat base \<le> i \<longrightarrow> \<not> bit msk i)
        then sbi_ecall E (sbi_remote_hfence_vvma_asid pm 0 st sz asid) h
        else (h, \<lparr>sbi_error = SBI_ERR_INVALID_PARAM, sbi_value = 0\<rparr>))"
proof -
  from sbi_rfence_ok [OF assms, of E und SBI_REMOTE_SFENCE_VMA_ASID_FID] obtain pm where
    pm: "\<forall>p. bit pm p \<longleftrightarrow> p \<in> cores (vm_cpus (cur_vm h)) \<and> bit msk (rank (vm_cpus (cur_vm h)) p + unat base)"
    and r: "sbi_rfence_handler E und SBI_REMOTE_SFENCE_VMA_ASID_FID h =
      Inr (if \<not> fence_valid msk base then (h, \<lparr>sbi_error = SBI_ERR_INVALID_PARAM, sbi_value = 0\<rparr>)
        else case fence_request SBI_REMOTE_SFENCE_VMA_ASID_FID pm st sz asid of
          Some r \<Rightarrow> sbi_ecall E r h
        | None \<Rightarrow> (h, und\<lparr>sbi_error := SBI_ERR_NOT_SUPPORTED\<rparr>))" by blast
  have "fence_request SBI_REMOTE_SFENCE_VMA_ASID_FID pm st sz asid = Some (sbi_remote_hfence_vvma_asid pm 0 st sz asid)"
    by (simp add: fence_request_def SBI_REMOTE_SFENCE_VMA_ASID_FID_def SBI_REMOTE_SFENCE_VMA_FID_def SBI_REMOTE_FENCE_I_FID_def)
  with pm r show ?thesis by (auto simp: fence_valid_def)
qed

theorem sbi_rfence_exact_witness:
  "\<exists>pm. bit pm 3 \<and> \<not> bit pm 2 \<and> sbi_rfence_handler demo_hart_env \<lparr>sbi_error = 0, sbi_value = 0\<rparr> SBI_REMOTE_SFENCE_VMA_ASID_FID
      (demo_hart (demo_regs 3 0 0x1000 0 0))
    = Inr (sbi_ecall demo_hart_env (sbi_remote_hfence_vvma_asid pm 0 0x1000 0 0) (demo_hart (demo_regs 3 0 0x1000 0 0)))"
proof -
  let ?h = "demo_hart (demo_regs 3 0 0x1000 0 0)"
  obtain pm where pm: "\<forall>p. bit pm p \<longleftrightarrow> p \<in> cores (vm_cpus (cur_vm ?h)) \<and> bit (3 :: u64) (rank (vm_cpus (cur_vm ?h)) p + unat (0 :: u64))"
    "sbi_rfence_handler demo_hart_env \<lparr>sbi_error = 0, sbi_value = 0\<rparr> SBI_REMOTE_SFENCE_VMA_ASID_FID ?h =
      Inr (if (0 :: u64) = 0 \<or> (0 :: u64) < 64 \<and> (\<forall>i. 64 - unat (0 :: u64) \<le> i \<longrightarrow> \<not> bit (3 :: u64) i)
        then sbi_ecall demo_hart_env (sbi_remote_hfence_vvma_asid pm 0 0x1000 0 0) ?h
        else (?h, \<lparr>sbi_error = SBI_ERR_INVALID_PARAM, sbi_value = 0\<rparr>))"
    using sbi_rfence_exact [where h = ?h and E = demo_hart_env and und = "\<lparr>sbi_error = 0, sbi_value = 0\<rparr>", OF demo_args(1-5)] by (elim exE conjE)
  have "bit pm 3" "\<not> bit pm 2" using pm(1) demo_ranks unfolding demo_hart_cores by (simp_all add: bit_numeral_rec)
  with pm(2) show ?thesis by (simp only: if_True simp_thms) blast
qed

text \<open>
  A call of an extension the hypervisor does not offer is not reported as an error: the code
  puts \<open>SBI_ERR_NOT_SUPPORTED\<close> in the value and leaves the error, which goes to the guest's
  \<open>a0\<close>, as whatever the stack held; it can read as success.
\<close>

theorem sbi_unknown_extension:
  assumes "hart_wf h" "read_arg REG_A7 h = Inr ext" "ext \<notin> set ext_table" "ext \<noteq> SBI_EXTID_BAO"
  shows "\<exists>h'. sbi_vs_handler E und now h = Inr (h', 4)
    \<and> read_arg REG_A0 h' = Inr (sbi_error und) \<and> read_arg REG_A1 h' = Inr SBI_ERR_NOT_SUPPORTED"
proof -
  obtain fid where f: "read_arg REG_A6 h = Inr fid" using hart_wf_arg [OF assms(1)] by metis
  have i: "cur_vcpu h < length (vm_vcpus (cur_vm h))" using assms(1) by (simp add: hart_wf_def)
  then have l: "length (gprs (vcpu_regs (vm_vcpus (cur_vm h) ! cur_vcpu h))) = 31"
    using assms(1) nth_mem [OF i] by (auto simp: hart_wf_def)
  have "sbi_vs_handler E und now h = bindR (write_arg REG_A0 (sbi_error und) h) (\<lambda>h.
      bindR (write_arg REG_A1 SBI_ERR_NOT_SUPPORTED h) (\<lambda>h. Inr (h, 4)))"
    using assms(2-4) f by (simp add: sbi_vs_handler_def ext_table_def)
  then show ?thesis using i l
    by (simp add: write_arg_def read_arg_def this_vcpu_def set_vcpu_def wr_def vcpu_writereg_def vcpu_readreg_def REG_A0_def REG_A1_def)
qed

theorem sbi_unknown_extension_witness:
  "\<exists>h'. sbi_vs_handler demo_hart_env \<lparr>sbi_error = SBI_SUCCESS, sbi_value = 5\<rparr> 0 (demo_hart (demo_regs 0 0 0 0 0x53525354)) = Inr (h', 4)
    \<and> read_arg REG_A0 h' = Inr SBI_SUCCESS"
  using sbi_unknown_extension [OF demo_hart_wf demo_args(7), of 0 0 0 0 "0x53525354" demo_hart_env "\<lparr>sbi_error = SBI_SUCCESS, sbi_value = 5\<rparr>" 0]
  by (auto simp: ext_table_def SBI_EXTID_BASE_def SBI_EXTID_TIME_def SBI_EXTID_IPI_def SBI_EXTID_RFNC_def SBI_EXTID_HSM_def SBI_EXTID_BAO_def)

lemma start_pending_msg:
  assumes "this_vcpu t = Inr u" "hsm_state u = START_PENDING"
  shows "\<exists>t' u'. sbi_msg_handler HART_START d t = Inr t' \<and> this_vcpu t' = Inr u' \<and> hsm_state u' = STARTED
    \<and> vcpu_readpc u' = hsm_start_addr u \<and> vcpu_readreg u' REG_A0 = of_nat (vcpu_id u) \<and> vcpu_readreg u' REG_A1 = ucast (hsm_priv u)
    \<and> vs t' = snd (vcpu_arch_reset u (hsm_start_addr u))"
proof -
  have i: "cur_vcpu t < length (vm_vcpus (cur_vm t))" using assms(1) by (simp add: this_vcpu_def rd_def split: if_splits)
  show ?thesis using i assms
    by (simp add: sbi_msg_handler_def HART_START_def SEND_IPI_def vcpu_arch_reset_def Let_def set_vcpu_def wr_def
        this_vcpu_def vcpu_writereg_def vcpu_readreg_def vcpu_readpc_def REG_A0_def REG_A1_def)
qed

text \<open>
  C23. Starting a hart: with a free message node, a start of a stopped hart of the VM succeeds and sends that hart's core one
  message; when the core handles it, its vCPU is reset and started at the address given, with its
  number in \<open>a0\<close> and the low 32 bits of the caller's value in \<open>a1\<close>; it then enters the guest, and a
  second message changes nothing.
\<close>

theorem hart_start_runs:
  assumes "hart_wf h" "room 1 h" "mailboxes (msgs h) Q" "this_vcpu h = Inr me"
    and "unat (vcpu_readreg me REG_A0) = i" "i \<noteq> vcpu_id me" "vm_get_vcpu (cur_vm h) i = Some u" "hsm_state u = STOPPED"
  shows "\<exists>h'. sbi_hsm_start_handler E und h = Inr (h', und\<lparr>sbi_error := SBI_SUCCESS\<rparr>)
    \<and> mailboxes (msgs h') (Q(phys_id u := Q (phys_id u) @ [hart_start_msg E]))
    \<and> (\<forall>t. cur_vm t = cur_vm h' \<and> cur_vcpu t = i \<longrightarrow> (\<exists>t' u'. sbi_msg_handler HART_START 0xdeadbeef t = Inr t'
        \<and> this_vcpu t' = Inr u' \<and> snd (vcpu_run u') = Enter_guest \<and> vcpu_readpc u' = vcpu_readreg me REG_A1
        \<and> vcpu_readreg u' REG_A0 = of_nat (vcpu_id u) \<and> vcpu_readreg u' REG_A1 = vcpu_readreg me REG_A2 AND mask 32
        \<and> vsatp (vs t') = 0 \<and> sbi_msg_handler HART_START 0xdeadbeef t' = Inr t'))"
proof -
  let ?u = "u\<lparr>hsm_state := START_PENDING, hsm_start_addr := vcpu_readreg me REG_A1, hsm_priv := ucast (vcpu_readreg me REG_A2)\<rparr>"
  have i: "i < length (vm_vcpus (cur_vm h))" and u: "u = vm_vcpus (cur_vm h) ! i"
    using assms(1,7) by (auto simp: hart_wf_def vm_get_vcpu_def split: if_splits)
  have w: "length (gprs (vcpu_regs u)) = 31" "phys_id u < ncpus (msgs h)"
    using assms(1) nth_mem [OF i] unfolding hart_wf_def u by blast+
  obtain h1 where h1: "set_vcpu i ?u h = Inr h1" "msgs h1 = msgs h" "vm_vcpus (cur_vm h1) = (vm_vcpus (cur_vm h))[i := ?u]"
    using set_vcpu_step [OF assms(1) i, of ?u] w by (auto simp: u)
  obtain m where m: "cpu_send_msg (msgs h) (phys_id u) (hart_start_msg E) = Inr m"
      "mailboxes m (Q(phys_id u := Q (phys_id u) @ [hart_start_msg E]))"
    using send_ok [OF assms(3) _ w(2), of "hart_start_msg E"] room_waiting [OF assms(2,3)] by auto
  have r: "sbi_hsm_start_handler E und h = Inr (h1\<lparr>msgs := m\<rparr>, und\<lparr>sbi_error := SBI_SUCCESS\<rparr>)"
    using assms(4-8) m(1) h1(1,2) by (simp add: sbi_hsm_start_handler_def Let_def)
  have "\<exists>t' u'. sbi_msg_handler HART_START 0xdeadbeef t = Inr t'
        \<and> this_vcpu t' = Inr u' \<and> snd (vcpu_run u') = Enter_guest \<and> vcpu_readpc u' = vcpu_readreg me REG_A1
        \<and> vcpu_readreg u' REG_A0 = of_nat (vcpu_id u) \<and> vcpu_readreg u' REG_A1 = vcpu_readreg me REG_A2 AND mask 32
        \<and> vsatp (vs t') = 0 \<and> sbi_msg_handler HART_START 0xdeadbeef t' = Inr t'"
    if "cur_vm t = cur_vm h1" "cur_vcpu t = i" for t :: "'a hart"
  proof -
    have "this_vcpu t = Inr ?u" using that h1(3) i by (simp add: this_vcpu_def)
    from start_pending_msg [where d = "0xdeadbeef", OF this] obtain t' u' where t': "sbi_msg_handler HART_START 0xdeadbeef t = Inr t'"
        "this_vcpu t' = Inr u'" "hsm_state u' = STARTED" "vcpu_readpc u' = vcpu_readreg me REG_A1"
        "vcpu_readreg u' REG_A0 = of_nat (vcpu_id u)" "vcpu_readreg u' REG_A1 = ucast (ucast (vcpu_readreg me REG_A2) :: u32)"
        "vs t' = snd (vcpu_arch_reset ?u (vcpu_readreg me REG_A1))" by auto
    moreover have "ucast (ucast x :: u32) = x AND mask 32" for x :: u64
      by (rule bit_eqI) (auto simp: bit_simps)
    moreover have "sbi_msg_handler HART_START 0xdeadbeef t' = Inr t'"
      using t'(2,3) by (simp add: sbi_msg_handler_def HART_START_def SEND_IPI_def)
    ultimately show ?thesis by (simp add: vcpu_run_def vcpu_arch_run_def vcpu_arch_reset_def Let_def)
  qed
  with r m(2) show ?thesis by (intro exI [of _ "h1\<lparr>msgs := m\<rparr>"]) simp
qed

theorem hart_start_runs_witness:
  "\<exists>h'. sbi_hsm_start_handler demo_hart_env \<lparr>sbi_error = 9, sbi_value = 0\<rparr>
        (demo_hart (demo_regs 1 0x80400000 0x1234567890 SBI_HART_START_FID SBI_EXTID_HSM))
      = Inr (h', \<lparr>sbi_error = SBI_SUCCESS, sbi_value = 0\<rparr>)
    \<and> (\<exists>Q. mailboxes (msgs h') Q \<and> Q 3 = [hart_start_msg demo_hart_env] \<and> Q 2 = [])
    \<and> (\<exists>t' u'. sbi_msg_handler HART_START 0xdeadbeef (h'\<lparr>cur_vcpu := 1\<rparr>) = Inr t' \<and> this_vcpu t' = Inr u'
        \<and> vcpu_readpc u' = 0x80400000 \<and> vcpu_readreg u' REG_A0 = 1 \<and> vcpu_readreg u' REG_A1 = 0x34567890)"
proof -
  let ?rs = "demo_regs 1 0x80400000 0x1234567890 SBI_HART_START_FID SBI_EXTID_HSM"
  let ?h = "demo_hart ?rs"
  let ?me = "demo_vcpu 0 1 STARTED ?rs" and ?u = "demo_vcpu 1 3 STOPPED (replicate 31 0)"
  have mb: "mailboxes (msgs ?h) (\<lambda>_. [])" using boot_mailboxes by (simp add: demo_hart_def)
  have rm: "room 1 ?h" by (rule demo_hart_room) simp
  have th: "this_vcpu ?h = Inr ?me" by (simp add: this_vcpu_def demo_hart_def)
  have a: "vcpu_readreg ?me REG_A0 = 1" "vcpu_readreg ?me REG_A1 = 0x80400000" "vcpu_readreg ?me REG_A2 = 0x1234567890"
    using demo_args(1-3) [of 1 "0x80400000" "0x1234567890" SBI_HART_START_FID SBI_EXTID_HSM] by (simp_all add: read_arg_def th)
  have u: "vm_get_vcpu (cur_vm ?h) 1 = Some ?u" by (simp add: vm_get_vcpu_def demo_hart_def demo_hvm_def)
  have c: "unat (vcpu_readreg ?me REG_A0) = 1" "1 \<noteq> vcpu_id ?me" and s: "hsm_state ?u = STOPPED"
    unfolding a by (simp_all add: demo_vcpu_def)
  obtain h' where h': "sbi_hsm_start_handler demo_hart_env \<lparr>sbi_error = 9, sbi_value = 0\<rparr> ?h = Inr (h', \<lparr>sbi_error = 9, sbi_value = 0\<rparr>\<lparr>sbi_error := SBI_SUCCESS\<rparr>)"
      "mailboxes (msgs h') ((\<lambda>_. [])(phys_id ?u := [] @ [hart_start_msg demo_hart_env]))"
      "\<forall>t. cur_vm t = cur_vm h' \<and> cur_vcpu t = 1 \<longrightarrow> (\<exists>t' u'. sbi_msg_handler HART_START 0xdeadbeef t = Inr t'
        \<and> this_vcpu t' = Inr u' \<and> snd (vcpu_run u') = Enter_guest \<and> vcpu_readpc u' = vcpu_readreg ?me REG_A1
        \<and> vcpu_readreg u' REG_A0 = of_nat (vcpu_id ?u) \<and> vcpu_readreg u' REG_A1 = vcpu_readreg ?me REG_A2 AND mask 32
        \<and> vsatp (vs t') = 0 \<and> sbi_msg_handler HART_START 0xdeadbeef t' = Inr t')"
    using hart_start_runs [OF demo_hart_wf [OF demo_regs_len] rm mb th c u s, of demo_hart_env "\<lparr>sbi_error = 9, sbi_value = 0\<rparr>"]
    by (elim exE conjE) (rule that)
  have "(0x1234567890 :: u64) AND mask 32 = 0x34567890" by (simp add: mask_eq_exp_minus_1)
  with h'(3) [rule_format, of "h'\<lparr>cur_vcpu := 1\<rparr>"] have "\<exists>t' u'. sbi_msg_handler HART_START 0xdeadbeef (h'\<lparr>cur_vcpu := 1\<rparr>) = Inr t' \<and> this_vcpu t' = Inr u'
        \<and> vcpu_readpc u' = 0x80400000 \<and> vcpu_readreg u' REG_A0 = 1 \<and> vcpu_readreg u' REG_A1 = 0x34567890"
    unfolding a by (auto simp: demo_vcpu_def)
  moreover have "\<exists>Q. mailboxes (msgs h') Q \<and> Q 3 = [hart_start_msg demo_hart_env] \<and> Q 2 = []"
    by (rule exI, rule conjI, rule h'(2)) (simp add: demo_vcpu_def)
  ultimately show ?thesis using h'(1) by auto
qed

end
