(* ===== verification/Guest_Calls.thy ===== *)
theory Guest_Calls
  imports Sbi_Guest Vplic_Guest
begin

text \<open>
  What the hypercalls of a guest (\<open>src/core/hypercall.c\<close>, \<open>src/core/ipc.c\<close>) do: who a
  notification reaches, and the unchecked argument of \<open>HC_PLIC_INJECT\<close>.
\<close>

section \<open>Notifications between VMs\<close>

lemma ipc_unraw_raw: "ipc_unraw (ipc_raw d) = d"
proof -
  have "ucast (ucast a OR push_bit 8 (ucast b :: u64) :: u64) = a" for a b :: u8
    by (rule bit_eqI) (auto simp: bit_simps)
  moreover have "ucast (drop_bit 8 (ucast a OR push_bit 8 (ucast b :: u64)) :: u64) = b" for a b :: u8
    by (rule bit_eqI) (auto simp: bit_simps dest: bit_imp_le_length)
  ultimately show ?thesis by (simp add: ipc_unraw_def ipc_raw_def)
qed

text \<open>
  C25. With four free message nodes, a notification reaches exactly the masters of the other VMs that share the object: each of
  the first four cores whose bit is among the object's masters and not among the caller's own
  cores gets one message; handling it notifies the object and event of the call, both modulo 256.
\<close>

theorem ipc_notifies_masters:
  assumes "mailboxes (msgs h) Q" "room 4 h" "4 \<le> ncpus (msgs h)"
    and "unat ipc_id < length (vm_ipcs (cur_vm h))" "k = ipc_shmem_id (vm_ipcs (cur_vm h) ! unat ipc_id)"
    and "ipc_get_shmem (shmem_table h) k = Some sm"
  shows "\<exists>m d. ipc_hypercall E ipc_id ev arg2 h = Inr (h\<lparr>msgs := m\<rparr>, HC_E_SUCCESS)
    \<and> mailboxes m (\<lambda>c. if c < 4 \<and> bit (shm_cpu_masters sm) c \<and> \<not> bit (vm_cpus (cur_vm h)) c
        then Q c @ [\<lparr>handler = ipc_cpumsg_id E, event = IPC_NOTIFY, data = d\<rparr>] else Q c)
    \<and> (\<forall>now t. ipc_handler E now IPC_NOTIFY d t = ipc_notify E now (k mod 256) (unat ev mod 256) t)"
proof -
  define msk where "msk = shm_cpu_masters sm AND NOT (vm_cpus (cur_vm h))"
  define d where "d = data (ipc_msg E k ev)"
  have e: "ipc_msg E k ev = \<lparr>handler = ipc_cpumsg_id E, event = IPC_NOTIFY, data = d\<rparr>" by (simp add: ipc_msg_def d_def)
  let ?F = "\<lambda>i m. bindR (shl 1 i) (\<lambda>b. if msk AND b \<noteq> 0 then cpu_send_msg m i (ipc_msg E k ev) else Inr m)"
  let ?f = "\<lambda>i. if bit msk i then Some (i, ipc_msg E k ev) else None"
  have st: "?F i m = (case ?f i of None \<Rightarrow> Inr m | Some (t, x) \<Rightarrow> cpu_send_msg m t x)" if "i \<in> set [0..<4]" for i m
    using that by (simp add: and_one_shift)
  have tg: "t < ncpus (msgs h)" if "i \<in> set [0..<4]" "?f i = Some (t, x)" for i t x
    using that assms(3) by (auto split: if_splits)
  have w: "waiting (ncpus (msgs h)) Q + length [0..<4] \<le> num (msg_pool (msgs h))" using room_waiting [OF assms(2,1)] by simp
  have "\<exists>m. foldR ?F [0..<4] (msgs h) = Inr m \<and> mailboxes m (\<lambda>c. Q c @ sent ?f [0..<4] c) \<and> ncpus m = ncpus (msgs h)
      \<and> num (msg_pool m) = num (msg_pool (msgs h))"
    by (rule foldR_sends [OF st tg assms(1) w])
  then obtain m where m: "foldR ?F [0..<4] (msgs h) = Inr m" "mailboxes m (\<lambda>c. Q c @ sent ?f [0..<4] c)" by blast
  have "sent ?f [0..<4] c = (if c < 4 \<and> bit msk c then [ipc_msg E k ev] else [])" for c
    by (auto simp: numeral_eq_Suc less_Suc_eq)
  moreover have "bit msk c \<longleftrightarrow> bit (shm_cpu_masters sm) c \<and> \<not> bit (vm_cpus (cur_vm h)) c" for c
    by (auto simp: msk_def bit_and_iff bit_not_iff dest: bit_imp_le_length)
  ultimately have q: "(\<lambda>c. Q c @ sent ?f [0..<4] c) = (\<lambda>c. if c < 4 \<and> bit (shm_cpu_masters sm) c \<and> \<not> bit (vm_cpus (cur_vm h)) c
        then Q c @ [ipc_msg E k ev] else Q c)"
    by (simp add: fun_eq_iff)
  have "ipc_hypercall E ipc_id ev arg2 h = Inr (h\<lparr>msgs := m\<rparr>, HC_E_SUCCESS)"
    using assms(4,6) m(1) unfolding assms(5) msk_def by (simp add: ipc_hypercall_def PLAT_CPU_NUM_def HC_E_SUCCESS_def)
  moreover have "ipc_handler E now IPC_NOTIFY d t = ipc_notify E now (k mod 256) (unat ev mod 256) t" for now t
    by (simp add: d_def ipc_handler_def ipc_msg_def ipc_unraw_raw unat_of_nat unsigned_ucast_eq take_bit_eq_mod)
  moreover have "mailboxes m (\<lambda>c. if c < 4 \<and> bit (shm_cpu_masters sm) c \<and> \<not> bit (vm_cpus (cur_vm h)) c
        then Q c @ [\<lparr>handler = ipc_cpumsg_id E, event = IPC_NOTIFY, data = d\<rparr>] else Q c)"
    by (rule m(2) [unfolded q, unfolded e])
  ultimately show ?thesis by blast
qed

text \<open>A hart of the VM on cores 1 and 3, sharing object 0x102 with VMs whose masters are 0 to 2.\<close>

definition demo_ipc_hart :: "unit hart" where
  "demo_ipc_hart = (demo_hart (demo_regs 0 0 0 0 0))
    \<lparr>cur_vm := (cur_vm (demo_hart (demo_regs 0 0 0 0 0)))\<lparr>vm_ipcs := [\<lparr>ipc_base = 0, ipc_size = 0x1000, ipc_shmem_id = 1, ipc_interrupts = [52]\<rparr>]\<rparr>,
     shmem_table := replicate 2 \<lparr>shm_size = 0x1000, shm_colors = 0, shm_place_phys = True, shm_phys = 0, shm_cpu_masters = 7\<rparr>\<rparr>"

theorem ipc_notifies_masters_witness:
  "\<exists>m Q. ipc_hypercall demo_hart_env 0 0x105 0 demo_ipc_hart = Inr (demo_ipc_hart\<lparr>msgs := m\<rparr>, HC_E_SUCCESS)
    \<and> mailboxes m Q \<and> length (Q 0) = 1 \<and> Q 1 = [] \<and> length (Q 2) = 1 \<and> Q 3 = []"
proof -
  let ?h = demo_ipc_hart
  have mb: "mailboxes (msgs ?h) (\<lambda>_. [])" using boot_mailboxes by (simp add: demo_ipc_hart_def demo_hart_def)
  have rm: "room 4 ?h" using demo_hart_room [of 4] by (simp add: room_def demo_ipc_hart_def)
  have n: "4 \<le> ncpus (msgs ?h)" by (simp add: demo_ipc_hart_def demo_hart_def boot_msgs_def ncpus_def)
  have c: "vm_cpus (cur_vm ?h) = vm_cpus (cur_vm (demo_hart (demo_regs 0 0 0 0 0)))" by (simp add: demo_ipc_hart_def)
  have b: "bit (vm_cpus (cur_vm ?h)) p \<longleftrightarrow> p \<in> {1, 3}" if "p < 64" for p
    using demo_hart_cores [of "demo_regs 0 0 0 0 0"] that unfolding cores_def c by blast
  have v: "unat (0 :: u64) < length (vm_ipcs (cur_vm ?h))" "1 = ipc_shmem_id (vm_ipcs (cur_vm ?h) ! unat (0 :: u64))"
    by (simp_all add: demo_ipc_hart_def)
  have s: "ipc_get_shmem (shmem_table ?h) 1 = Some \<lparr>shm_size = 0x1000, shm_colors = 0, shm_place_phys = True, shm_phys = 0, shm_cpu_masters = 7\<rparr>"
    by (simp add: demo_ipc_hart_def ipc_get_shmem_def)
  let ?Q = "\<lambda>d c. if c < 4 \<and> bit (7 :: u64) c \<and> \<not> bit (vm_cpus (cur_vm ?h)) c
        then [] @ [\<lparr>handler = ipc_cpumsg_id demo_hart_env, event = IPC_NOTIFY, data = d\<rparr>] else []"
  obtain m d where m: "ipc_hypercall demo_hart_env 0 0x105 0 ?h = Inr (?h\<lparr>msgs := m\<rparr>, HC_E_SUCCESS)" "mailboxes m (?Q d)"
    using ipc_notifies_masters [OF mb rm n v s, of demo_hart_env "0x105" 0] by auto
  have "length (?Q d 0) = 1" "?Q d 1 = []" "length (?Q d 2) = 1" "?Q d 3 = []" using b by (simp_all add: bit_numeral_rec)
  with m show ?thesis by (intro exI conjI)
qed

text \<open>The effect of \<open>HC_PLIC_INJECT\<close> on the controllers is the step \<open>Hc_inject\<close> of the histories of \<open>Vplic_Guest\<close>.\<close>

lemma hc_plic_inject_exec:
  "hc_plic_inject now arg0 h = Inr h' \<Longrightarrow>
    vplic_exec v (self, n, now) (Hc_inject (unat (ucast arg0 :: u32))) (irqs h) = Inr (irqs h', 0)"
  by (cases "rd (buckets (vp (irqs h))) (unat (ucast arg0 :: u32))")
    (auto simp: hc_plic_inject_def Let_def split: prod.splits)

text \<open>
  \<open>HC_PLIC_INJECT\<close> does not check its argument: with an identifier of 1024 or more a guest
  makes the hypervisor read and write a bucket behind the array.
\<close>

theorem plic_inject_out_of_bounds:
  assumes "vplic_wf (vp (irqs h))" "hart_wf h" "read_arg REG_A0 h = Inr i" "PLIC_MAX_INTERRUPTS \<le> unat (ucast i :: u32)"
  shows "hypercall E now HC_PLIC_INJECT h = Inl Out_of_bounds"
proof -
  obtain b c where "read_arg REG_A1 h = Inr b" "read_arg REG_A2 h = Inr c" using hart_wf_arg [OF assms(2)] by metis
  moreover have "rd (buckets (vp (irqs h))) (unat (ucast i :: u32)) = Inl Out_of_bounds"
    using assms(1,4) by (intro rd_out) (simp add: vplic_wf_def)
  ultimately show ?thesis using assms(3)
    by (simp add: hypercall_def HYPCALL_ARG_REG_def REG_A0_def REG_A1_def REG_A2_def hc_plic_inject_def
        HC_PLIC_INJECT_def HC_HEARTBEAT_def HC_IPC_def)
qed

theorem plic_inject_out_of_bounds_witness:
  "hypercall demo_hart_env 0 HC_PLIC_INJECT (demo_hart (demo_regs 0x400 0 0 HC_PLIC_INJECT SBI_EXTID_BAO)) = Inl Out_of_bounds"
proof (rule plic_inject_out_of_bounds [OF _ demo_hart_wf demo_args(1)])
  show "vplic_wf (vp (irqs (demo_hart (demo_regs 0x400 0 0 HC_PLIC_INJECT SBI_EXTID_BAO))))"
    by (simp add: vplic_wf_def demo_hart_def vplic_zero_def)
qed (simp_all add: PLIC_MAX_INTERRUPTS_def)

end
