(* ===== verification/Irq_Dispatch.thy ===== *)
theory Irq_Dispatch
  imports Guest_Calls
begin

text \<open>
  What becomes of a physical interrupt that the dispatcher (\<open>src/arch/riscv/plic.c\<close>,
  \<open>src/core/interrupts.c\<close>) hands to the virtual controller of a VM.
\<close>


definition demo_irq_hart :: "unit hart" where
  "demo_irq_hart = (demo_hart (demo_regs 0 0 0 0 0))
    \<lparr>cur_vm := (cur_vm (demo_hart (demo_regs 0 0 0 0 0)))\<lparr>vm_interrupt_bitmap := (replicate 33 0)[0 := 0x200]\<rparr>\<rparr>"

text \<open>The same with a bucket that has no token but room for deferred interrupts.\<close>

definition demo_defer_hart :: "unit hart" where
  "demo_defer_hart = demo_irq_hart\<lparr>irqs := (irqs demo_irq_hart)\<lparr>vp := (vp (irqs demo_irq_hart))\<lparr>buckets :=
    (buckets (vp (irqs demo_irq_hart)))[9 := \<lparr>tokens = 0, max_tokens = 5, rate = 10, deferred_count = 0, max_deferred = 3,
      last_refill = 0, dropped = 0\<rparr>]\<rparr>\<rparr>\<rparr>"


end
