(* ===== verification/Traps.thy ===== *)
theory Traps
  imports Sbi
begin

text \<open>
  Traps from a guest: the synchronous exceptions of \<open>src/arch/riscv/sync_exceptions.c\<close> (SBI calls,
  accesses to emulated devices, virtual instructions), and the handlers that interrupts and
  messages run, which close the loop between Interrupts, Cpu_Msg, Sbi, Hypercall and Vplic.
\<close>

section \<open>Decoding\<close>

definition INS_COMPRESSED :: "u64 \<Rightarrow> bool" where "INS_COMPRESSED ins \<longleftrightarrow> ins AND 3 \<noteq> 3"
definition INS_SIZE :: "u64 \<Rightarrow> nat" where "INS_SIZE ins = (if ins AND 3 = 3 then 4 else 2)"
definition INS_OPCODE :: "u64 \<Rightarrow> u64" where "INS_OPCODE ins = ins AND 0x7f"
definition INS_FUNCT3 :: "u64 \<Rightarrow> u64" where "INS_FUNCT3 ins = drop_bit 12 ins AND 7"
definition INS_RD :: "u64 \<Rightarrow> u64" where "INS_RD ins = drop_bit 7 ins AND 0x1f"
definition INS_RS2 :: "u64 \<Rightarrow> u64" where "INS_RS2 ins = drop_bit 20 ins AND 0x1f"
definition MATCH_LOAD :: u64 where "MATCH_LOAD = 0x03"
definition MATCH_STORE :: u64 where "MATCH_STORE = 0x23"
definition INS_C_OPCODE :: "u64 \<Rightarrow> u64" where "INS_C_OPCODE ins = ins AND 0xe003"
definition INS_C_RD_RS2 :: "u64 \<Rightarrow> u64" where "INS_C_RD_RS2 ins = drop_bit 2 ins AND 7"
definition MATCH_C_LOAD :: u64 where "MATCH_C_LOAD = 0x4000"
definition MATCH_C_STORE :: u64 where "MATCH_C_STORE = 0xc000"
definition REGLEN :: nat where "REGLEN = 8"

definition TINST_PSEUDO_STORE :: u32 where "TINST_PSEUDO_STORE = 0x3020"
definition TINST_PSEUDO_LOAD :: u32 where "TINST_PSEUDO_LOAD = 0x3000"
definition TINST_INS_SIZE :: "u64 \<Rightarrow> nat" where "TINST_INS_SIZE tinst = (if tinst AND 2 = 0 then 2 else 4)"

text \<open>
  The access that a load or store instruction makes; fields the code does not set keep their
  (indeterminate) content. \<open>None\<close> is the result \<open>false\<close>.
\<close>

definition ins_ldst_decode :: "u64 \<Rightarrow> emul_access \<Rightarrow> emul_access option" where
  "ins_ldst_decode ins acc =
    (if INS_COMPRESSED ins then
       if INS_C_OPCODE ins \<noteq> MATCH_C_LOAD \<and> INS_C_OPCODE ins \<noteq> MATCH_C_STORE then None
       else Some (acc\<lparr>acc_width := 4, acc_reg_width := REGLEN, acc_write := INS_C_OPCODE ins = MATCH_C_STORE,
         acc_reg := unat (INS_C_RD_RS2 ins) + 8, acc_sign_ext := True\<rparr>)
     else
       if INS_OPCODE ins \<noteq> MATCH_LOAD \<and> INS_OPCODE ins \<noteq> MATCH_STORE then None
       else
         let funct3 = INS_FUNCT3 ins; write = INS_OPCODE ins = MATCH_STORE in
         Some (acc\<lparr>acc_width := (if funct3 AND 3 = 0 then 1 else if funct3 AND 3 = 1 then 2
             else if funct3 AND 3 = 2 then 4 else 8),
           acc_reg_width := REGLEN, acc_write := write,
           acc_reg := unat (if write then INS_RS2 ins else INS_RD ins), acc_sign_ext := funct3 AND 4 = 0\<rparr>))"

definition is_pseudo_ins :: "u32 \<Rightarrow> bool" where
  "is_pseudo_ins ins \<longleftrightarrow> ins = TINST_PSEUDO_STORE \<or> ins = TINST_PSEUDO_LOAD"

text \<open>\<open>hlvxhu\<close> is the instruction that reads a halfword of the guest's code.\<close>

definition read_ins :: "(u64 \<Rightarrow> u64) \<Rightarrow> u64 \<Rightarrow> u32 res" where
  "read_ins hlvxhu ins_addr =
    (if ins_addr AND 1 \<noteq> 0 then Inl Panic
     else
       let ins = ucast (hlvxhu ins_addr) :: u32 in
       Inr (if ins AND 3 = 3 then ins OR push_bit 16 (ucast (hlvxhu (ins_addr + 2))) else ins))"

section \<open>Emulated accesses\<close>

datatype emul_handler = Vplic_global_emul_handler | Vplic_hart_emul_handler

text \<open>The registers that describe a trap, and the guest's code memory.\<close>

record trap =
  scause :: u64
  htval :: u64
  htinst :: u64
  trap_hstatus :: u64
  trap_sepc :: u64
  code_mem :: "u64 \<Rightarrow> u64"

definition run_emul_handler :: "hart_env \<Rightarrow> u64 \<Rightarrow> emul_handler \<Rightarrow> emul_access \<Rightarrow> 'h hart \<Rightarrow> ('h hart \<times> bool) res" where
  "run_emul_handler E now k acc h =
    bindR (this_vcpu h) (\<lambda>u.
    bindR (case k of
        Vplic_global_emul_handler \<Rightarrow> vplic_global_emul_handler (cur_vm h) (cpu_id h) acc (u, irqs h)
      | Vplic_hart_emul_handler \<Rightarrow>
          vplic_hart_emul_handler (cur_vm h) (cpu_id h) (nat (plic_cntxt_id h)) now acc (u, irqs h)) (\<lambda>((u, s), done).
    bindR (set_vcpu (cur_vcpu h) u h) (\<lambda>h.
    bindR (send_lines E (line_msgs s) (msgs h)) (\<lambda>m.
    Inr (h\<lparr>irqs := s\<lparr>line_msgs := []\<rparr>, msgs := m\<rparr>, done)))))"

text \<open>The instruction is taken from \<open>htinst\<close>, or read from the guest's code where that is 0.\<close>

definition fault_ins :: "trap \<Rightarrow> (u64 \<times> nat) res" where
  "fault_ins t =
    (if htinst t = 0 then
       bindR (read_ins (code_mem t) (trap_sepc t)) (\<lambda>ins. Inr (ucast ins, INS_SIZE (ucast ins)))
     else if is_pseudo_ins (ucast (htinst t)) then Inl Panic
     else Inr (htinst t OR 2, TINST_INS_SIZE (htinst t)))"

definition guest_page_fault_handler :: "hart_env \<Rightarrow> emul_access \<Rightarrow> u64 \<Rightarrow> trap \<Rightarrow> emul_handler hart \<Rightarrow>
    (emul_handler hart \<times> nat) res" where
  "guest_page_fault_handler E und now t h =
    (let addr = push_bit 2 (htval t) in
     case vm_emul_get_mem (cur_vm h) addr of
       None \<Rightarrow> Inl Panic
     | Some k \<Rightarrow>
         bindR (fault_ins t) (\<lambda>(ins, ins_size).
         case ins_ldst_decode ins und of
           None \<Rightarrow> Inl Panic
         | Some acc \<Rightarrow>
             bindR (run_emul_handler E now k (acc\<lparr>acc_addr := addr\<rparr>) h) (\<lambda>(h, done).
             if done then Inr (h, ins_size) else Inl Panic)))"

definition virtual_instruction_handler :: "trap \<Rightarrow> nat" where
  "virtual_instruction_handler t = (if htinst t \<noteq> 0 then TINST_INS_SIZE (htinst t) else 4)"

definition SCAUSE_CODE_ECV :: u64 where "SCAUSE_CODE_ECV = 10"
definition SCAUSE_CODE_LGPF :: u64 where "SCAUSE_CODE_LGPF = 21"
definition SCAUSE_CODE_VRTI :: u64 where "SCAUSE_CODE_VRTI = 22"
definition SCAUSE_CODE_SGPF :: u64 where "SCAUSE_CODE_SGPF = 23"

text \<open>A trap that does not come from a guest is fatal, as is a cause without a handler.\<close>

definition sync_exception_handler :: "hart_env \<Rightarrow> sbiret \<Rightarrow> emul_access \<Rightarrow> u64 \<Rightarrow> trap \<Rightarrow> emul_handler hart \<Rightarrow>
    emul_handler hart res" where
  "sync_exception_handler E und undacc now t h =
    (if trap_hstatus t AND HSTATUS_SPV = 0 then Inl Panic
     else
       bindR (if scause t = SCAUSE_CODE_ECV then sbi_vs_handler E und now h
              else if scause t = SCAUSE_CODE_LGPF \<or> scause t = SCAUSE_CODE_SGPF
                then guest_page_fault_handler E undacc now t h
              else if scause t = SCAUSE_CODE_VRTI then Inr (h, virtual_instruction_handler t)
              else Inl Panic) (\<lambda>(h, pc_step).
       bindR (this_vcpu h) (\<lambda>u.
       set_vcpu (cur_vcpu h) (vcpu_writepc u (vcpu_readpc u + of_nat pc_step)) h)))"

section \<open>Message and interrupt handlers\<close>

text \<open>A handler of this hart as one of the message loop's, which keeps the messages apart.\<close>

definition on_hart :: "(u32 \<Rightarrow> u64 \<Rightarrow> 'h hart \<Rightarrow> 'h hart res) \<Rightarrow> 'h hart handler_fn" where
  "on_hart f ev dat = (\<lambda>(m, h). bindR (f ev dat (h\<lparr>msgs := m\<rparr>)) (\<lambda>h. Inr (msgs h, h)))"

definition vplic_msg_handler :: "hart_env \<Rightarrow> u32 \<Rightarrow> u64 \<Rightarrow> 'h hart \<Rightarrow> 'h hart res" where
  "vplic_msg_handler E ev dat h = with_vplic E (vplic_ipi_handler (cur_vm h) (cpu_id h) ev dat) h"

text \<open>The table that the linker builds; \<open>rest\<close> are the handlers of other components.\<close>

definition ipi_cpumsg_handlers :: "hart_env \<Rightarrow> u64 \<Rightarrow> (u32 \<Rightarrow> 'h hart handler_fn option) \<Rightarrow> nat \<Rightarrow> 'h hart handler_fn option list" where
  "ipi_cpumsg_handlers E now rest n = List.map (\<lambda>i.
     if i = unat (sbi_msg_id E) then Some (on_hart sbi_msg_handler)
     else if i = unat (vplic_ipi_id E) then Some (on_hart (vplic_msg_handler E))
     else if i = unat (ipc_cpumsg_id E) then Some (on_hart (ipc_handler E now))
     else rest (of_nat i)) [0..<n]"

definition run_int_handler :: "hart_env \<Rightarrow> u64 \<Rightarrow> u64 \<Rightarrow> 'h hart handler_fn option list \<Rightarrow> int_handler \<Rightarrow> 'h hart \<Rightarrow> 'h hart res" where
  "run_int_handler E now now' table k h =
    (case k of
       Cpu_msg_handler \<Rightarrow> bindR (ended (cpu_msg_handler table (cpu_id h) (msgs h, h))) (\<lambda>(m, h). Inr (h\<lparr>msgs := m\<rparr>))
     | Sbi_timer_irq_handler \<Rightarrow> sbi_timer_irq_handler E now now' h)"

text \<open>A hart that was idle handles its messages, then runs its vCPU.\<close>

definition cpu_idle_wakeup :: "hart_env \<Rightarrow> u64 \<Rightarrow> u64 \<Rightarrow> 'h hart handler_fn option list \<Rightarrow> 'h hart \<Rightarrow> ('h hart \<times> run_choice) res" where
  "cpu_idle_wakeup E now now' table h =
    bindR (interrupts_arch_check IPI_CPU_MSG h) (\<lambda>c.
    bindR (if c then run_int_handler E now now' table Cpu_msg_handler (interrupts_arch_clear IPI_CPU_MSG h) else Inr h) (\<lambda>h.
    bindR (this_vcpu h) (\<lambda>u.
    let (u, r) = vcpu_run u in bindR (set_vcpu (cur_vcpu h) u h) (\<lambda>h. Inr (h, r)))))"

end
