(* ===== verification/Iommu.thy ===== *)
theory Iommu
  imports Addr_Space
begin

text \<open>
  The RISC-V IOMMU driver, \<open>src/arch/riscv/iommu.c\<close> with \<open>src/core/mmu/io.c\<close>: the device
  directory with one context per device, the command and the fault queue. The device is a
  parameter: a function from the accesses to its registers so far and a register to the value a
  read returns. Printing is left out.
\<close>

section \<open>Constants\<close>

definition RISCV_IOMMU_REG_CAP :: u64 where "RISCV_IOMMU_REG_CAP = 0x0000"
definition RISCV_IOMMU_REG_FCTL :: u64 where "RISCV_IOMMU_REG_FCTL = 0x0008"
definition RISCV_IOMMU_REG_DDTP :: u64 where "RISCV_IOMMU_REG_DDTP = 0x0010"
definition RISCV_IOMMU_REG_CQB :: u64 where "RISCV_IOMMU_REG_CQB = 0x0018"
definition RISCV_IOMMU_REG_CQH :: u64 where "RISCV_IOMMU_REG_CQH = 0x0020"
definition RISCV_IOMMU_REG_CQT :: u64 where "RISCV_IOMMU_REG_CQT = 0x0024"
definition RISCV_IOMMU_REG_FQB :: u64 where "RISCV_IOMMU_REG_FQB = 0x0028"
definition RISCV_IOMMU_REG_FQH :: u64 where "RISCV_IOMMU_REG_FQH = 0x0030"
definition RISCV_IOMMU_REG_FQT :: u64 where "RISCV_IOMMU_REG_FQT = 0x0034"
definition RISCV_IOMMU_REG_CQCSR :: u64 where "RISCV_IOMMU_REG_CQCSR = 0x0048"
definition RISCV_IOMMU_REG_FQCSR :: u64 where "RISCV_IOMMU_REG_FQCSR = 0x004C"
definition RISCV_IOMMU_REG_IPSR :: u64 where "RISCV_IOMMU_REG_IPSR = 0x0054"

definition RISCV_IOMMU_CAP_SV39X4 :: u64 where "RISCV_IOMMU_CAP_SV39X4 = push_bit 17 1"
definition RISCV_IOMMU_CAP_IGS_OFF :: nat where "RISCV_IOMMU_CAP_IGS_OFF = 28"
definition RISCV_IOMMU_CAP_IGS_MSK :: u64 where "RISCV_IOMMU_CAP_IGS_MSK = push_bit RISCV_IOMMU_CAP_IGS_OFF 3"
definition RISCV_IOMMU_CAP_IGS_WSI :: u64 where "RISCV_IOMMU_CAP_IGS_WSI = 1"
definition RISCV_IOMMU_CAP_IGS_BOTH :: u64 where "RISCV_IOMMU_CAP_IGS_BOTH = 2"
definition RISCV_IOMMU_FCTL_WSI :: u64 where "RISCV_IOMMU_FCTL_WSI = push_bit 1 1"
definition RISCV_IOMMU_DDTP_MODE_BARE :: u64 where "RISCV_IOMMU_DDTP_MODE_BARE = 0"
definition RISCV_IOMMU_DDTP_MODE_1LVL :: u64 where "RISCV_IOMMU_DDTP_MODE_1LVL = 2"
definition RISCV_IOMMU_DDTP_BUSY :: u64 where "RISCV_IOMMU_DDTP_BUSY = push_bit 4 1"
definition RISCV_IOMMU_DDTP_PPN_OFF :: nat where "RISCV_IOMMU_DDTP_PPN_OFF = 10"
definition RISCV_IOMMU_CQCSR_CQEN :: u64 where "RISCV_IOMMU_CQCSR_CQEN = push_bit 0 1"
definition RISCV_IOMMU_CQCSR_CQON :: u64 where "RISCV_IOMMU_CQCSR_CQON = push_bit 16 1"
definition RISCV_IOMMU_FQCSR_FQEN :: u64 where "RISCV_IOMMU_FQCSR_FQEN = push_bit 0 1"
definition RISCV_IOMMU_FQCSR_FQON :: u64 where "RISCV_IOMMU_FQCSR_FQON = push_bit 16 1"
definition RISCV_IOMMU_IPSR_FIP :: u64 where "RISCV_IOMMU_IPSR_FIP = push_bit 1 1"
definition RISCV_IOMMU_QXB_PPN_OFF :: nat where "RISCV_IOMMU_QXB_PPN_OFF = 10"
definition RISCV_IOMMU_QXB_LOG2SZ_MSK :: u64 where "RISCV_IOMMU_QXB_LOG2SZ_MSK = 0x1F"
definition RISCV_IOMMU_DC_TC_V :: u64 where "RISCV_IOMMU_DC_TC_V = push_bit 0 1"
definition RISCV_IOMMU_DC_IOHGATP_MODE_OFF :: nat where "RISCV_IOMMU_DC_IOHGATP_MODE_OFF = 60"
definition RISCV_IOMMU_DC_IOHGATP_GSCID_OFF :: nat where "RISCV_IOMMU_DC_IOHGATP_GSCID_OFF = 44"
definition RISCV_IOMMU_DC_IOHGATP_PPN_MSK :: u64 where "RISCV_IOMMU_DC_IOHGATP_PPN_MSK = 0xFFFFFFFFFFF"
definition RISCV_IOMMU_IOHGATP_SV39X4 :: u64 where "RISCV_IOMMU_IOHGATP_SV39X4 = 8"
definition RISCV_IOMMU_CMD_IODIR_INVAL_DDT_OPCODE :: u64 where "RISCV_IOMMU_CMD_IODIR_INVAL_DDT_OPCODE = 3"
definition RISCV_IOMMU_CMD_IODIR_DV :: u64 where "RISCV_IOMMU_CMD_IODIR_DV = push_bit 33 1"
definition RISCV_IOMMU_CMD_IODIR_DID_OFF :: nat where "RISCV_IOMMU_CMD_IODIR_DID_OFF = 40"
definition RISCV_IOMMU_CMD_IOFENCE_OPCODE :: u64 where "RISCV_IOMMU_CMD_IOFENCE_OPCODE = 2"
definition RISCV_IOMMU_DDT_1LVL_MAX_DEVS :: nat where "RISCV_IOMMU_DDT_1LVL_MAX_DEVS = 64"

definition CQ_LOG2SZ :: u64 where "CQ_LOG2SZ = 4"
definition CQ_NUM :: u32 where "CQ_NUM = push_bit 4 1"
definition FQ_LOG2SZ :: u64 where "FQ_LOG2SZ = 4"
definition FQ_NUM :: u32 where "FQ_NUM = push_bit 4 1"

section \<open>State\<close>

record riscv_iommu_dc =
  tc :: u64
  iohgatp :: u64
  ta :: u64
  fsc :: u64
  msiptp :: u64
  msi_addr_mask :: u64
  msi_addr_pattern :: u64
  dc_reserved :: u64

record riscv_iommu_fq_record =
  fq_hdr :: u64
  fq_reserved :: u64
  fq_iotval :: u64
  fq_iotval2 :: u64

datatype mmio = Mmio_read u64 | Mmio_write u64 u64

text \<open>
  The three pages are given by their pointer (0 is \<open>NULL\<close>), their contents and their physical
  address; \<open>mmio\<close> are the accesses to the device's registers.
\<close>

record iommu_state =
  iommu_base :: vaddr
  ddt :: vaddr
  ddt_dcs :: "riscv_iommu_dc list"
  ddt_phys :: paddr
  cq :: vaddr
  cq_entries :: "(u64 \<times> u64) list"
  cq_phys :: paddr
  fq :: vaddr
  fq_entries :: "riscv_iommu_fq_record list"
  fq_phys :: paddr
  mmio_log :: "mmio list"
  iommu_mem :: mem_state

text \<open>\<open>stale_dcs\<close>, \<open>stale_cq\<close> and \<open>stale_fq\<close> are what the allocated pages hold.\<close>

record iommu_env =
  iommu_hw :: "mmio list \<Rightarrow> u64 \<Rightarrow> u64"
  plat_iommu_base :: paddr
  iommu_mm :: mem_env
  stale_dcs :: "riscv_iommu_dc list"
  stale_cq :: "(u64 \<times> u64) list"
  stale_fq :: "riscv_iommu_fq_record list"

text \<open>An access through the failure value of the mapping functions faults.\<close>

definition iommu_read64 :: "iommu_env \<Rightarrow> u64 \<Rightarrow> iommu_state \<Rightarrow> (iommu_state \<times> u64) res" where
  "iommu_read64 E off s =
    (if iommu_base s = 0 \<or> iommu_base s = INVALID_VA then Inl Null_deref
     else Inr (s\<lparr>mmio_log := mmio_log s @ [Mmio_read off]\<rparr>, iommu_hw E (mmio_log s) off))"

definition iommu_read32 :: "iommu_env \<Rightarrow> u64 \<Rightarrow> iommu_state \<Rightarrow> (iommu_state \<times> u32) res" where
  "iommu_read32 E off s =
    (if iommu_base s = 0 \<or> iommu_base s = INVALID_VA then Inl Null_deref
     else Inr (s\<lparr>mmio_log := mmio_log s @ [Mmio_read off]\<rparr>, ucast (iommu_hw E (mmio_log s) off)))"

definition iommu_write64 :: "u64 \<Rightarrow> u64 \<Rightarrow> iommu_state \<Rightarrow> iommu_state res" where
  "iommu_write64 off x s =
    (if iommu_base s = 0 \<or> iommu_base s = INVALID_VA then Inl Null_deref
     else Inr (s\<lparr>mmio_log := mmio_log s @ [Mmio_write off x]\<rparr>))"

definition iommu_write32 :: "u64 \<Rightarrow> u32 \<Rightarrow> iommu_state \<Rightarrow> iommu_state res" where
  "iommu_write32 off x s =
    (if iommu_base s = 0 \<or> iommu_base s = INVALID_VA then Inl Null_deref
     else Inr (s\<lparr>mmio_log := mmio_log s @ [Mmio_write off (ucast x)]\<rparr>))"

text \<open>The loops that read a register until it satisfies a condition.\<close>

partial_function (option) iommu_wait :: "iommu_env \<Rightarrow> u64 \<Rightarrow> (u64 \<Rightarrow> bool) \<Rightarrow> iommu_state \<Rightarrow> iommu_state res option" where
  [code]: "iommu_wait E off P s =
    (case iommu_read64 E off s of
       Inl e \<Rightarrow> Some (Inl e)
     | Inr (s, x) \<Rightarrow> if P x then Some (Inr s) else iommu_wait E off P s)"

section \<open>Commands\<close>

definition iommu_submit_cmd :: "iommu_env \<Rightarrow> u64 \<Rightarrow> u64 \<Rightarrow> iommu_state \<Rightarrow> iommu_state res" where
  "iommu_submit_cmd E dword0 dword1 s =
    bindR (iommu_read32 E RISCV_IOMMU_REG_CQT s) (\<lambda>(s, tail).
    let nxt = (tail + 1) AND (CQ_NUM - 1) in
    bindR (ended (iommu_wait E RISCV_IOMMU_REG_CQH (\<lambda>x. nxt \<noteq> ucast x) s)) (\<lambda>s.
    if cq s = 0 \<or> cq s = INVALID_VA then Inl Null_deref
    else bindR (wr (cq_entries s) (unat tail) (dword0, dword1)) (\<lambda>es.
         iommu_write32 RISCV_IOMMU_REG_CQT nxt (s\<lparr>cq_entries := es\<rparr>))))"

definition iommu_cmd_inval_ddt :: "iommu_env \<Rightarrow> u32 \<Rightarrow> iommu_state \<Rightarrow> iommu_state res" where
  "iommu_cmd_inval_ddt E device_id s =
    iommu_submit_cmd E (RISCV_IOMMU_CMD_IODIR_INVAL_DDT_OPCODE OR RISCV_IOMMU_CMD_IODIR_DV
      OR push_bit RISCV_IOMMU_CMD_IODIR_DID_OFF (ucast device_id)) 0 s"

definition iommu_cmd_iofence :: "iommu_env \<Rightarrow> iommu_state \<Rightarrow> iommu_state res" where
  "iommu_cmd_iofence E s =
    bindR (iommu_submit_cmd E RISCV_IOMMU_CMD_IOFENCE_OPCODE 0 s) (\<lambda>s.
    bindR (iommu_read32 E RISCV_IOMMU_REG_CQT s) (\<lambda>(s, tail).
    ended (iommu_wait E RISCV_IOMMU_REG_CQH (\<lambda>x. ucast x = tail) s)))"

section \<open>Faults\<close>

text \<open>Draining reads every record for a message and then moves the head.\<close>

partial_function (option) drain_fq :: "iommu_state \<Rightarrow> u32 \<Rightarrow> u32 \<Rightarrow> u32 res option" where
  [code]: "drain_fq s head tail =
    (if head \<noteq> tail then
       (case rd (fq_entries s) (unat head) of
          Inl e \<Rightarrow> Some (Inl e)
        | Inr _ \<Rightarrow> drain_fq s ((head + 1) AND (FQ_NUM - 1)) tail)
     else Some (Inr head))"

definition iommu_drain_fq :: "iommu_env \<Rightarrow> iommu_state \<Rightarrow> iommu_state res" where
  "iommu_drain_fq E s =
    (if iommu_base s = 0 \<or> fq s = 0 then Inr s
     else
       bindR (iommu_read32 E RISCV_IOMMU_REG_FQH s) (\<lambda>(s, head).
       bindR (iommu_read32 E RISCV_IOMMU_REG_FQT s) (\<lambda>(s, tail).
       bindR (ended (drain_fq s head tail)) (\<lambda>head.
       bindR (iommu_write32 RISCV_IOMMU_REG_FQH head s) (\<lambda>s.
       iommu_write32 RISCV_IOMMU_REG_IPSR (ucast RISCV_IOMMU_IPSR_FIP) s)))))"

definition iommu_check_faults :: "iommu_env \<Rightarrow> iommu_state \<Rightarrow> iommu_state res" where
  "iommu_check_faults E s = iommu_drain_fq E s"

section \<open>Initialisation\<close>

definition iommu_active :: "iommu_state \<Rightarrow> bool" where
  "iommu_active s \<longleftrightarrow> iommu_base s \<noteq> 0"

definition zero_dc :: riscv_iommu_dc where
  "zero_dc = \<lparr>tc = 0, iohgatp = 0, ta = 0, fsc = 0, msiptp = 0, msi_addr_mask = 0, msi_addr_pattern = 0, dc_reserved = 0\<rparr>"

text \<open>A page for a table of the device; a write through the failure value of \<open>mem_alloc_page\<close> faults.\<close>

definition iommu_page :: "iommu_env \<Rightarrow> iommu_state \<Rightarrow> (iommu_state \<times> vaddr) res" where
  "iommu_page E s =
    bindR (mem_alloc_page (iommu_mm E) 1 SEC_HYP_GLOBAL True (iommu_mem s)) (\<lambda>(m, va). Inr (s\<lparr>iommu_mem := m\<rparr>, va))"

definition iommu_translate :: "iommu_env \<Rightarrow> vaddr \<Rightarrow> paddr \<Rightarrow> iommu_state \<Rightarrow> paddr res" where
  "iommu_translate E va old s =
    bindR (mem_translate (pt_words (iommu_mem s)) (as_pt (cpu_as (iommu_mm E))) va) (\<lambda>pa.
    Inr (case pa of Some pa \<Rightarrow> pa | None \<Rightarrow> old))"

definition init_ddt :: "iommu_env \<Rightarrow> iommu_state \<Rightarrow> (iommu_state \<times> bool) res" where
  "init_ddt E s =
    bindR (iommu_page E s) (\<lambda>(s, va).
    let s = s\<lparr>ddt := va, ddt_dcs := stale_dcs E\<rparr> in
    if va = 0 then Inr (s, False)
    else if va = INVALID_VA then Inl Null_deref
    else
      bindR (foldR (\<lambda>i dcs. wr dcs i zero_dc) [0..<RISCV_IOMMU_DDT_1LVL_MAX_DEVS] (ddt_dcs s)) (\<lambda>dcs.
      let s = s\<lparr>ddt_dcs := dcs\<rparr> in
      bindR (iommu_translate E va (ddt_phys s) s) (\<lambda>pa. Inr (s\<lparr>ddt_phys := pa\<rparr>, True))))"

definition queue_base :: "paddr \<Rightarrow> u64 \<Rightarrow> u64" where
  "queue_base phys log2sz = push_bit RISCV_IOMMU_QXB_PPN_OFF (drop_bit 12 phys) OR ((log2sz - 1) AND RISCV_IOMMU_QXB_LOG2SZ_MSK)"

definition init_cq :: "iommu_env \<Rightarrow> iommu_state \<Rightarrow> (iommu_state \<times> bool) res" where
  "init_cq E s =
    bindR (iommu_page E s) (\<lambda>(s, va).
    let s = s\<lparr>cq := va, cq_entries := stale_cq E\<rparr> in
    if va = 0 then Inr (s, False)
    else
      bindR (iommu_translate E va (cq_phys s) s) (\<lambda>pa.
      let s = s\<lparr>cq_phys := pa\<rparr> in
      bindR (iommu_write64 RISCV_IOMMU_REG_CQB (queue_base pa CQ_LOG2SZ) s) (\<lambda>s.
      bindR (iommu_write32 RISCV_IOMMU_REG_CQH 0 s) (\<lambda>s.
      bindR (iommu_write32 RISCV_IOMMU_REG_CQT 0 s) (\<lambda>s. Inr (s, True))))))"

definition init_fq :: "iommu_env \<Rightarrow> iommu_state \<Rightarrow> (iommu_state \<times> bool) res" where
  "init_fq E s =
    bindR (iommu_page E s) (\<lambda>(s, va).
    let s = s\<lparr>fq := va, fq_entries := stale_fq E\<rparr> in
    if va = 0 then Inr (s, False)
    else
      bindR (iommu_translate E va (fq_phys s) s) (\<lambda>pa.
      let s = s\<lparr>fq_phys := pa\<rparr> in
      bindR (iommu_write64 RISCV_IOMMU_REG_FQB (queue_base pa FQ_LOG2SZ) s) (\<lambda>s.
      bindR (iommu_write32 RISCV_IOMMU_REG_FQH 0 s) (\<lambda>s.
      bindR (iommu_write32 RISCV_IOMMU_REG_FQT 0 s) (\<lambda>s. Inr (s, True))))))"

text \<open>Steps 7 and 8: the queues are switched on, then translation.\<close>

definition iommu_enable :: "iommu_env \<Rightarrow> iommu_state \<Rightarrow> iommu_state res" where
  "iommu_enable E s =
    bindR (iommu_write32 RISCV_IOMMU_REG_CQCSR (ucast RISCV_IOMMU_CQCSR_CQEN) s) (\<lambda>s.
    bindR (ended (iommu_wait E RISCV_IOMMU_REG_CQCSR (\<lambda>x. (ucast x :: u32) AND ucast RISCV_IOMMU_CQCSR_CQON \<noteq> 0) s)) (\<lambda>s.
    bindR (iommu_write32 RISCV_IOMMU_REG_FQCSR (ucast RISCV_IOMMU_FQCSR_FQEN) s) (\<lambda>s.
    bindR (ended (iommu_wait E RISCV_IOMMU_REG_FQCSR (\<lambda>x. (ucast x :: u32) AND ucast RISCV_IOMMU_FQCSR_FQON \<noteq> 0) s)) (\<lambda>s.
    bindR (iommu_write64 RISCV_IOMMU_REG_DDTP
      (push_bit RISCV_IOMMU_DDTP_PPN_OFF (drop_bit 12 (ddt_phys s)) OR RISCV_IOMMU_DDTP_MODE_1LVL) s) (\<lambda>s.
    ended (iommu_wait E RISCV_IOMMU_REG_DDTP (\<lambda>x. x AND RISCV_IOMMU_DDTP_BUSY = 0) s))))))"

definition cap_supported :: "u64 \<Rightarrow> bool" where
  "cap_supported cap \<longleftrightarrow> cap AND RISCV_IOMMU_CAP_SV39X4 \<noteq> 0
    \<and> drop_bit RISCV_IOMMU_CAP_IGS_OFF (cap AND RISCV_IOMMU_CAP_IGS_MSK) \<in> {RISCV_IOMMU_CAP_IGS_WSI, RISCV_IOMMU_CAP_IGS_BOTH}"

definition iommu_arch_init :: "iommu_env \<Rightarrow> bool \<Rightarrow> iommu_state \<Rightarrow> (iommu_state \<times> bool) res" where
  "iommu_arch_init E is_master s =
    (if \<not> is_master \<or> plat_iommu_base E = 0 then Inr (s, True)
     else
       bindR (mem_alloc_map_dev (iommu_mm E) (cpu_as (iommu_mm E)) SEC_HYP_GLOBAL INVALID_VA (plat_iommu_base E)
         (unat (NUM_PAGES PAGE_SIZE)) (iommu_mem s)) (\<lambda>(m, va).
       let s = s\<lparr>iommu_mem := m, iommu_base := va\<rparr> in
       if va = 0 then Inr (s, False)
       else
         bindR (iommu_write64 RISCV_IOMMU_REG_DDTP RISCV_IOMMU_DDTP_MODE_BARE s) (\<lambda>s.
         bindR (ended (iommu_wait E RISCV_IOMMU_REG_DDTP (\<lambda>x. x AND RISCV_IOMMU_DDTP_BUSY = 0) s)) (\<lambda>s.
         bindR (iommu_read64 E RISCV_IOMMU_REG_CAP s) (\<lambda>(s, cap).
         if \<not> cap_supported cap then Inr (s, False)
         else
           bindR (iommu_write32 RISCV_IOMMU_REG_FCTL (ucast RISCV_IOMMU_FCTL_WSI) s) (\<lambda>s.
           bindR (init_ddt E s) (\<lambda>(s, ok1). if \<not> ok1 then Inr (s, False) else
           bindR (init_cq E s) (\<lambda>(s, ok2). if \<not> ok2 then Inr (s, False) else
           bindR (init_fq E s) (\<lambda>(s, ok3). if \<not> ok3 then Inr (s, False) else
           bindR (iommu_enable E s) (\<lambda>s. Inr (s, True)))))))))))"

section \<open>Devices of a VM\<close>

text \<open>
  What the driver uses of a VM: its identifier, its \<open>io.prot.mmu.gscid\<close> and its address space,
  whose \<open>pt_root\<close> is the physical address the code gets from \<open>mem_translate\<close>.
\<close>

record io_vm =
  io_vm_id :: nat
  gscid :: int
  io_as :: addr_space

definition iommu_arch_vm_init :: "iommu_state \<Rightarrow> io_vm \<Rightarrow> io_vm \<times> bool" where
  "iommu_arch_vm_init s v = (if iommu_base s = 0 then (v, True) else (v\<lparr>gscid := int (io_vm_id v)\<rparr>, True))"

definition vm_iohgatp :: "io_vm \<Rightarrow> u64" where
  "vm_iohgatp v =
    (let g = of_int (gscid v) AND 0xFFFF :: u64 in
     push_bit RISCV_IOMMU_DC_IOHGATP_MODE_OFF RISCV_IOMMU_IOHGATP_SV39X4
     OR push_bit RISCV_IOMMU_DC_IOHGATP_GSCID_OFF g
     OR (drop_bit 12 (pt_root (as_pt (io_as v))) AND RISCV_IOMMU_DC_IOHGATP_PPN_MSK))"

definition iommu_arch_vm_add_device :: "iommu_env \<Rightarrow> io_vm \<Rightarrow> u32 \<Rightarrow> iommu_state \<Rightarrow> (iommu_state \<times> bool) res" where
  "iommu_arch_vm_add_device E v i s =
    (if iommu_base s = 0 then Inr (s, True)
     else if RISCV_IOMMU_DDT_1LVL_MAX_DEVS \<le> unat i then Inr (s, False)
     else if ddt s = 0 \<or> ddt s = INVALID_VA then Inl Null_deref
     else
       bindR (wr (ddt_dcs s) (unat i) (zero_dc\<lparr>iohgatp := vm_iohgatp v, tc := RISCV_IOMMU_DC_TC_V\<rparr>)) (\<lambda>dcs.
       bindR (iommu_cmd_inval_ddt E i (s\<lparr>ddt_dcs := dcs\<rparr>)) (\<lambda>s.
       bindR (iommu_cmd_iofence E s) (\<lambda>s. Inr (s, True)))))"

section \<open>The layer above\<close>

text \<open>\<open>io_init\<close> and \<open>vmm_io_init\<close> drop the result of the driver.\<close>

definition io_init :: "iommu_env \<Rightarrow> bool \<Rightarrow> iommu_state \<Rightarrow> iommu_state res" where
  "io_init E is_master s = bindR (iommu_arch_init E is_master s) (\<lambda>(s, _). Inr s)"

definition vmm_io_init :: "iommu_env \<Rightarrow> bool \<Rightarrow> iommu_state \<Rightarrow> iommu_state res" where
  "vmm_io_init E is_master s = io_init E is_master s"

definition io_vm_init :: "iommu_state \<Rightarrow> io_vm \<Rightarrow> io_vm \<times> bool" where
  "io_vm_init s v = iommu_arch_vm_init s v"

definition io_vm_add_device :: "iommu_env \<Rightarrow> io_vm \<Rightarrow> u32 \<Rightarrow> iommu_state \<Rightarrow> (iommu_state \<times> bool) res" where
  "io_vm_add_device E v sid s =
    (if sid \<noteq> 0 then iommu_arch_vm_add_device E v sid s else Inr (s, False))"

end
