(* ===== verification/Vm_Init.thy ===== *)
theory Vm_Init
  imports Iommu Hypercall Vm_Recovery
begin

text \<open>
  Start-up of a virtual machine: \<open>vm_init\<close> and what it calls in \<open>src/core/vm.c\<close>,
  \<open>src/arch/riscv/vm.c\<close>, \<open>src/core/mmu/vm.c\<close>, and the allocation of a VM's structures and their
  hand-over to its other cores in \<open>src/core/vmm.c\<close> and \<open>src/core/mmu/vmm.c\<close>.
\<close>

section \<open>Copying through mappings\<close>

text \<open>\<open>memcpy\<close> between addresses of the current address space; an address without translation faults.\<close>

definition mapped_va :: "mem_env \<Rightarrow> mem_state \<Rightarrow> vaddr \<Rightarrow> paddr res" where
  "mapped_va E s va =
    bindR (mem_translate (pt_words s) (as_pt (cpu_as E)) va) (\<lambda>pa.
    case pa of None \<Rightarrow> Inl Null_deref | Some pa \<Rightarrow> Inr pa)"

definition memcpy_va :: "mem_env \<Rightarrow> mem_state \<Rightarrow> vaddr \<Rightarrow> vaddr \<Rightarrow> nat \<Rightarrow> bytes \<Rightarrow> bytes res" where
  "memcpy_va E s dst src k bs =
    foldR (\<lambda>i bs.
      bindR (mapped_va E s (src + of_nat i)) (\<lambda>p.
      bindR (mapped_va E s (dst + of_nat i)) (\<lambda>q. Inr (bs(q := bs p))))) [0..<k] bs"

section \<open>Recolouring\<close>

text \<open>
  \<open>mem_map_reclr\<close> maps pages in place where they have a colour of the address space and copies the
  others to pages of its colours. \<open>reclr_count\<close> is the number of the others.
\<close>

definition own_clr :: "mem_env \<Rightarrow> addr_space \<Rightarrow> nat \<Rightarrow> nat \<Rightarrow> bool" where
  "own_clr E a clr_offset i \<longleftrightarrow> bit (as_colors a) ((i + clr_offset) div clr_size E mod clr_num E)"

definition reclr_count :: "mem_env \<Rightarrow> addr_space \<Rightarrow> ppages \<Rightarrow> nat \<Rightarrow> nat" where
  "reclr_count E a p k =
    (let clr_offset = unat (pp_base p) div 4096 mod (clr_num E * clr_size E) in
     k div (clr_num E * clr_size E) * clr_size E * List.length (List.filter (\<lambda>i. \<not> bit (as_colors a) i) [0..<clr_num E])
     + List.length (List.filter (\<lambda>i. \<not> own_clr E a clr_offset i) [0..<k mod (clr_num E * clr_size E)]))"

definition reclr_page :: "mem_env \<Rightarrow> addr_space \<Rightarrow> u64 \<Rightarrow> paddr \<Rightarrow> nat \<Rightarrow> nat \<Rightarrow>
    vaddr \<times> paddr \<times> vaddr \<times> vaddr \<times> nat \<times> mem_state \<times> bytes \<Rightarrow>
    (vaddr \<times> paddr \<times> vaddr \<times> vaddr \<times> nat \<times> mem_state \<times> bytes) res" where
  "reclr_page E a flags clrd_base clr_offset i = (\<lambda>(va, pa, clrd_va, phys_va, index, s, bs).
    bindR (pt_get_pte (pt_words s) (as_pt a) (lvls (pt_dscr (as_pt a)) - 1) va) (\<lambda>pte.
    bindR (if own_clr E a clr_offset i
      then bindR (st_pte pte (pte_set pa PTE_PAGE flags) s) (\<lambda>s. Inr (clrd_va, index, s, bs))
      else
        bindR (memcpy_va E s clrd_va phys_va 4096 bs) (\<lambda>bs.
        bindR (pp_next_clr (clr_num E) (clr_size E) clrd_base index (as_colors a)) (\<lambda>index.
        bindR (st_pte pte (pte_set (clrd_base + of_nat index * PAGE_SIZE) PTE_PAGE flags) s) (\<lambda>s.
        Inr (clrd_va + PAGE_SIZE, index + 1, s, bs))))) (\<lambda>(clrd_va, index, s, bs).
    Inr (va + PAGE_SIZE, pa + PAGE_SIZE, clrd_va, phys_va + PAGE_SIZE, index, s, bs))))"

definition mem_map_reclr :: "mem_env \<Rightarrow> addr_space \<Rightarrow> vaddr \<Rightarrow> ppages option \<Rightarrow> nat \<Rightarrow> u64 \<Rightarrow> mem_state \<Rightarrow> bytes \<Rightarrow>
    (mem_state \<times> bytes \<times> bool) res" where
  "mem_map_reclr E a va pages k flags s bs =
    (case pages of None \<Rightarrow> Inl Panic
     | Some p \<Rightarrow>
       let reclrd_num = reclr_count E a p k; clr_offset = unat (pp_base p) div 4096 mod (clr_num E * clr_size E) in
       if all_clrs (clr_num E) (as_colors a) \<or> reclrd_num = 0
       then bindR (mem_map E a va (Some p) k flags s) (\<lambda>(s, r). Inr (s, bs, r))
       else
         bindR (mem_alloc_vpage E (cpu_as E) SEC_HYP_VM INVALID_VA reclrd_num s) (\<lambda>(s, reclrd_va_base).
         bindR (alloc_ppages E (as_colors a) reclrd_num False s) (\<lambda>(s, reclrd_ppages).
         bindR (mem_map E (cpu_as E) reclrd_va_base (Some reclrd_ppages) reclrd_num PTE_HYP_FLAGS s) (\<lambda>(s, _).
         bindR (mem_alloc_vpage E (cpu_as E) SEC_HYP_VM INVALID_VA k s) (\<lambda>(s, phys_va_base).
         bindR (mem_map E (cpu_as E) phys_va_base (Some p) k PTE_HYP_FLAGS s) (\<lambda>(s, _).
         let va = va AND NOT (PAGE_SIZE - 1) in
         bindR (mem_inflate_pt E a va (of_nat k * PAGE_SIZE) s) (\<lambda>s.
         bindR (foldR (reclr_page E a flags (pp_base reclrd_ppages) clr_offset) [0..<k]
           (va, pp_base p, reclrd_va_base, phys_va_base, 0, s, bs)) (\<lambda>(_, _, _, _, _, s, bs).
         bindR (mem_free_ppages (clr_num E) (clr_size E)
           \<lparr>pp_base = pp_base p, num_pages = reclrd_num, pp_colors = NOT (as_colors a)\<rparr> (page_pools s)) (\<lambda>pools.
         bindR (mem_unmap E (cpu_as E) reclrd_va_base reclrd_num False (s\<lparr>page_pools := pools\<rparr>)) (\<lambda>s.
         bindR (mem_unmap E (cpu_as E) phys_va_base k False s) (\<lambda>s.
         Inr (s, bs, True))))))))))))"

section \<open>The state\<close>

text \<open>
  A VM while it is set up: its structure (\<open>bt_io\<close> holds \<open>vm->as\<close> and \<open>vm->io\<close>), what start-up shares
  with the other VMs (interrupt tables, IOMMU with the memory manager's state, shared-memory table,
  memory), and \<open>hgatp\<close> and the guest's control registers of each core.
\<close>

record 'h vm_boot =
  bt_vm :: "'h vm"
  bt_sync :: cpu_synctoken
  bt_io :: io_vm
  bt_vplic :: vplic
  bt_ints :: int_tables
  bt_iommu :: iommu_state
  bt_shmems :: "shmem list"
  bt_ram :: bytes
  bt_hgatp :: "cpuid \<Rightarrow> u64"
  bt_csrs :: "cpuid \<Rightarrow> vs_csrs"

abbreviation bt_mem :: "'h vm_boot \<Rightarrow> mem_state" where "bt_mem b \<equiv> iommu_mem (bt_iommu b)"
abbreviation bt_as :: "'h vm_boot \<Rightarrow> addr_space" where "bt_as b \<equiv> io_as (bt_io b)"

definition set_mem :: "mem_state \<Rightarrow> 'h vm_boot \<Rightarrow> 'h vm_boot" where
  "set_mem s b = b\<lparr>bt_iommu := (bt_iommu b)\<lparr>iommu_mem := s\<rparr>\<rparr>"

section \<open>Memory regions\<close>

definition vm_map_mem_region :: "mem_env \<Rightarrow> vm_mem_region \<Rightarrow> 'h vm_boot \<Rightarrow> 'h vm_boot res" where
  "vm_map_mem_region E reg b =
    (let k = unat (NUM_PAGES (rgn_size reg));
         pa = (if rgn_place_phys reg then Some ((mem_ppages_get (rgn_phys reg) k)\<lparr>pp_colors := rgn_colors reg\<rparr>) else None) in
     bindR (mem_alloc_map E (bt_as b) SEC_VM_ANY pa (rgn_base reg) k PTE_VM_FLAGS (bt_mem b)) (\<lambda>(s, va).
     if va \<noteq> rgn_base reg then Inl Panic else Inr (set_mem s b)))"

definition vm_map_img_rgn_inplace :: "mem_env \<Rightarrow> vm_image \<Rightarrow> vm_mem_region \<Rightarrow> 'h vm_boot \<Rightarrow> 'h vm_boot res" where
  "vm_map_img_rgn_inplace E img reg b =
    (let img_base = base_addr img;
         n_before = unat (NUM_PAGES (img_base - rgn_base reg));
         n_aft = unat (NUM_PAGES ((rgn_base reg + rgn_size reg) - (img_base + img_size img)));
         n_img = unat (NUM_PAGES (img_size img));
         pa_img = mem_ppages_get (load_addr img) n_img in
     bindR (mem_alloc_map E (bt_as b) SEC_VM_ANY None (rgn_base reg) n_before PTE_VM_FLAGS (bt_mem b)) (\<lambda>(s, _).
     bindR (if all_clrs (clr_num E) (as_colors (bt_as b))
       then bindR (mem_alloc_map E (bt_as b) SEC_VM_ANY (Some pa_img) img_base n_img PTE_VM_FLAGS s) (\<lambda>(s, _).
         Inr (s, bt_ram b))
       else bindR (mem_map_reclr E (bt_as b) img_base (Some pa_img) n_img PTE_VM_FLAGS s (bt_ram b)) (\<lambda>(s, bs, _).
         Inr (s, bs))) (\<lambda>(s, bs).
     bindR (mem_alloc_map E (bt_as b) SEC_VM_ANY None (img_base + NUM_PAGES (img_size img) * PAGE_SIZE) n_aft PTE_VM_FLAGS s)
       (\<lambda>(s, _). Inr (set_mem s (b\<lparr>bt_ram := bs\<rparr>))))))"

text \<open>
  \<open>vm_install_image\<close> with its temporary mappings; Vm_Recovery has the same operation over the
  pages behind the mappings.
\<close>

definition install_image :: "mem_env \<Rightarrow> vm_image \<Rightarrow> vm_mem_region \<Rightarrow> 'h vm_boot \<Rightarrow> 'h vm_boot res" where
  "install_image E img reg b =
    (if rgn_place_phys reg \<and> base_addr img = load_addr img then Inr b
     else if rgn_place_phys reg \<and>
       range_overlap_range (base_addr img) (img_size img) (load_addr img) (img_size img) then Inl Panic
     else
       let k = unat (NUM_PAGES (img_size img)) in
       bindR (mem_alloc_map E (cpu_as E) SEC_HYP_GLOBAL (Some (mem_ppages_get (load_addr img) k)) INVALID_VA k PTE_HYP_FLAGS
         (bt_mem b)) (\<lambda>(s, src_va).
       bindR (mem_map_cpy E (bt_as b) (cpu_as E) (base_addr img) INVALID_VA k s) (\<lambda>(s, dst_va).
       bindR (memcpy_va E s dst_va src_va (unat (img_size img)) (bt_ram b)) (\<lambda>bs.
       bindR (mem_unmap E (cpu_as E) src_va k False s) (\<lambda>s.
       bindR (mem_unmap E (cpu_as E) dst_va k False s) (\<lambda>s.
       Inr (set_mem s (b\<lparr>bt_ram := bs\<rparr>))))))))"

definition vm_map_img_rgn :: "mem_env \<Rightarrow> vm_image \<Rightarrow> vm_mem_region \<Rightarrow> 'h vm_boot \<Rightarrow> 'h vm_boot res" where
  "vm_map_img_rgn E img reg b =
    (if \<not> rgn_place_phys reg \<and> inplace img then vm_map_img_rgn_inplace E img reg b
     else bindR (vm_map_mem_region E reg b) (install_image E img reg))"

definition vm_init_mem_regions :: "mem_env \<Rightarrow> vm_config \<Rightarrow> 'h vm_boot \<Rightarrow> 'h vm_boot res" where
  "vm_init_mem_regions E cfg =
    foldR (\<lambda>reg b.
      if range_in_range (base_addr (cfg_image cfg)) (img_size (cfg_image cfg)) (rgn_base reg) (rgn_size reg)
      then vm_map_img_rgn E (cfg_image cfg) reg b
      else vm_map_mem_region E reg b) (plat_regions (cfg_platform cfg))"

section \<open>Shared memory and devices\<close>

definition init_ipc :: "mem_env \<Rightarrow> cpuid \<Rightarrow> ipc \<Rightarrow> 'h vm_boot \<Rightarrow> 'h vm_boot res" where
  "init_ipc E self c b =
    (case ipc_get_shmem (bt_shmems b) (ipc_shmem_id c) of
       None \<Rightarrow> Inr b
     | Some sm \<Rightarrow>
       let sz = (if shm_size sm < ipc_size c then shm_size sm else ipc_size c) in
       bindR (shl 1 self) (\<lambda>m.
       bindR (wr (bt_shmems b) (ipc_shmem_id c) (sm\<lparr>shm_cpu_masters := shm_cpu_masters sm OR m\<rparr>)) (\<lambda>tab.
       vm_map_mem_region E \<lparr>rgn_base = ipc_base c, rgn_size = sz, rgn_colors = shm_colors sm, rgn_place_phys = True,
         rgn_phys = shm_phys sm\<rparr> (b\<lparr>bt_shmems := tab\<rparr>))))"

definition vm_init_ipc :: "mem_env \<Rightarrow> cpuid \<Rightarrow> vm_config \<Rightarrow> 'h vm_boot \<Rightarrow> 'h vm_boot res" where
  "vm_init_ipc E self cfg b =
    foldR (init_ipc E self) (plat_ipcs (cfg_platform cfg))
      (b\<lparr>bt_vm := (bt_vm b)\<lparr>vm_ipcs := plat_ipcs (cfg_platform cfg)\<rparr>\<rparr>)"

definition assign_irqs :: "irqid list \<Rightarrow> 'h vm_boot \<Rightarrow> 'h vm_boot res" where
  "assign_irqs is b =
    bindR (foldR interrupts_vm_assign is (bt_ints b, bt_vm b, bt_vplic b)) (\<lambda>(t, v, p).
    Inr (b\<lparr>bt_ints := t, bt_vm := v, bt_vplic := p\<rparr>))"

definition init_dev :: "mem_env \<Rightarrow> vm_dev_region \<Rightarrow> 'h vm_boot \<Rightarrow> 'h vm_boot res" where
  "init_dev E dev b =
    (let k = unat (ALIGN (dev_size dev) PAGE_SIZE div PAGE_SIZE) in
     bindR (if dev_va dev \<noteq> INVALID_VA
       then bindR (mem_alloc_map_dev E (bt_as b) SEC_VM_ANY (dev_va dev) (dev_pa dev) k (bt_mem b)) (\<lambda>(s, _). Inr (set_mem s b))
       else Inr b) (\<lambda>b.
     assign_irqs (List.map irq_id (dev_interrupts dev)) b))"

definition init_dev_io :: "iommu_env \<Rightarrow> vm_dev_region \<Rightarrow> 'h vm_boot \<Rightarrow> 'h vm_boot res" where
  "init_dev_io E dev b =
    (if vm_dev_region.dev_id dev \<noteq> 0 then
       bindR (io_vm_add_device E (bt_io b) (vm_dev_region.dev_id dev) (bt_iommu b)) (\<lambda>(i, done).
       if done then Inr (b\<lparr>bt_iommu := i\<rparr>) else Inl Panic)
     else Inr b)"

definition vm_init_dev :: "iommu_env \<Rightarrow> vm_config \<Rightarrow> 'h vm_boot \<Rightarrow> 'h vm_boot res" where
  "vm_init_dev E cfg b =
    bindR (foldR (init_dev (iommu_mm E)) (plat_devs (cfg_platform cfg)) b) (\<lambda>b.
    let (io, done) = io_vm_init (bt_iommu b) (bt_io b); b = b\<lparr>bt_io := io\<rparr> in
    if done then foldR (init_dev_io E) (plat_devs (cfg_platform cfg)) b else Inr b)"

section \<open>The architecture's part\<close>

definition HGATP_VMID_OFF :: nat where "HGATP_VMID_OFF = 44"
definition HGATP_VMID_LEN :: nat where "HGATP_VMID_LEN = 14"
definition HGATP_MODE_DFLT :: u64 where "HGATP_MODE_DFLT = push_bit 60 8"
definition HGATP_VMID_MSK :: u64 where "HGATP_VMID_MSK = push_bit HGATP_VMID_OFF (mask HGATP_VMID_LEN)"

definition vm_hgatp :: "addr_space \<Rightarrow> nat \<Rightarrow> u64" where
  "vm_hgatp a i = drop_bit 12 (pt_root (as_pt a)) OR HGATP_MODE_DFLT OR (push_bit HGATP_VMID_OFF (of_nat i) AND HGATP_VMID_MSK)"

text \<open>\<open>hs\<close> are the handlers of the two regions of the virtual PLIC, \<open>now\<close> the times read for the buckets.\<close>

definition vm_arch_init :: "cpuid \<Rightarrow> 'h \<times> 'h \<Rightarrow> vaddr \<Rightarrow> (nat \<Rightarrow> u64) \<Rightarrow> 'h vm_boot \<Rightarrow> 'h vm_boot" where
  "vm_arch_init self hs plic_base now b =
    (let (v, p) = vplic_init self (fst hs) (snd hs) plic_base now (bt_vm b, bt_vplic b) in
     b\<lparr>bt_hgatp := (bt_hgatp b)(self := vm_hgatp (bt_as b) (vm_id (bt_vm b))), bt_vm := v, bt_vplic := p\<rparr>)"

section \<open>Start-up\<close>

definition vm_mem_prot_init :: "mem_env \<Rightarrow> vm_config \<Rightarrow> 'h vm_boot \<Rightarrow> 'h vm_boot res" where
  "vm_mem_prot_init E cfg b =
    bindR (as_init E [] AS_VM (vm_id (bt_vm b)) None (cfg_colors cfg) (bt_mem b)) (\<lambda>(s, a).
    Inr (set_mem s (b\<lparr>bt_io := (bt_io b)\<lparr>io_as := a\<rparr>\<rparr>)))"

text \<open>\<open>now\<close> is the time the health monitor reads.\<close>

definition vm_master_init :: "mem_env \<Rightarrow> cpuid \<Rightarrow> u64 \<Rightarrow> vm_config \<Rightarrow> nat \<Rightarrow> 'h vm_boot \<Rightarrow> 'h vm_boot res" where
  "vm_master_init E self now cfg i b =
    (let v = (bt_vm b)\<lparr>vm_master := self, vm_cpu_num := plat_cpu_num (cfg_platform cfg), vm_id := i,
           vm_crit := cfg_criticality cfg\<rparr>;
         v = v\<lparr>vm_health_state := health_monitor_init (vm_health_state v) (Some (cfg_health cfg)) now\<rparr> in
     vm_mem_prot_init E cfg (b\<lparr>bt_vm := v, bt_io := (bt_io b)\<lparr>io_vm_id := i\<rparr>, bt_sync := cpu_sync_init (of_nat (vm_cpu_num v))\<rparr>))"

text \<open>\<open>vm_init\<close> up to its first barrier, up to its second, and the rest.\<close>

definition vm_init_1 :: "mem_env \<Rightarrow> cpuid \<Rightarrow> bool \<Rightarrow> u64 \<Rightarrow> vm_config \<Rightarrow> nat \<Rightarrow> 'h vm_boot \<Rightarrow> 'h vm_boot res" where
  "vm_init_1 E self master now cfg i b =
    bindR (if master then vm_master_init E self now cfg i b else Inr b) (\<lambda>b.
    bindR (vm_cpu_init (bt_vm b) self) (\<lambda>v. Inr (b\<lparr>bt_vm := v\<rparr>)))"

definition vm_init_2 :: "cpuid \<Rightarrow> vm_config \<Rightarrow> 'h vm_boot \<Rightarrow> 'h vm_boot res" where
  "vm_init_2 self cfg b =
    bindR (vm_vcpu_init (bt_vm b) self (cfg_entry cfg)) (\<lambda>(v, csrs).
    Inr (b\<lparr>bt_vm := v, bt_csrs := (bt_csrs b)(self := csrs)\<rparr>))"

definition vm_init_3 :: "iommu_env \<Rightarrow> cpuid \<Rightarrow> bool \<Rightarrow> 'h \<times> 'h \<Rightarrow> vaddr \<Rightarrow> (nat \<Rightarrow> u64) \<Rightarrow> vm_config \<Rightarrow> 'h vm_boot \<Rightarrow>
    'h vm_boot res" where
  "vm_init_3 E self master hs plic_base now cfg b =
    (let b = vm_arch_init self hs plic_base now b in
     if master then
       bindR (vm_init_mem_regions (iommu_mm E) cfg b) (\<lambda>b.
       bindR (vm_init_dev E cfg b) (vm_init_ipc (iommu_mm E) self cfg))
     else Inr b)"

end
