(* ===== verification/Mem_Vpage.thy ===== *)
theory Mem_Vpage
  imports Mem_Expand
begin

text \<open>
  \<open>mem_alloc_vpage\<close> at a given address of a VM: it finds the range made of whole invalid entries,
  splitting entries where needed, reserves it, and changes no translation; with \<open>mem_map\<close> it maps
  exactly the range. Ranges of whole invalid entries, the search, the marking, and the combination.
\<close>

section \<open>Leaves\<close>

lemma leaf_unique:
  assumes "is_leaf m pt va l p" "is_leaf m pt va k q"
  shows "l = k \<and> p = q"
  using leaf_eq [OF assms(1)] leaf_eq [OF assms(2)] by simp

lemma leaf_same:
  assumes "is_leaf m pt va l p" "same_entry pt va va' l"
  shows "is_leaf m pt va' l p"
  using assms tbl_same [of pt va va' l m] by (auto simp: is_leaf_def slot_def same_tbl_def)

lemma leaf_write:
  assumes "wf_tree m pt" "is_leaf m pt va l p" "\<not> pte_table e" "is_leaf m pt va' k q"
  shows "is_leaf (m(p := e)) pt va' k q"
proof -
  have l: "l < 3" "slot m pt va l = Some p" and k: "k < 3" "slot m pt va' k = Some q" "\<not> pte_table (m q)"
    using assms(2,4) by (simp_all add: is_leaf_def)
  have "\<not> (l < k \<and> same_entry pt va va' l)"
    using leaf_unique [OF leaf_same [OF assms(2)] assms(4)] by auto
  then show ?thesis using slot_write [OF assms(1) l assms(3) k(1), of va'] k assms(3) by (auto simp: is_leaf_def)
qed

lemma leaf_hang:
  assumes "wf_tree m pt" "l < 2" "is_leaf m pt va l p" "fresh_block m pt b" "b AND mask 12 = 0" "unat b < 2 ^ 56"
    and "is_leaf m pt va' k q" "\<not> same_entry pt va va' l"
  shows "is_leaf (hang_table p b m) pt va' k q" "hang_table p b m q = m q"
proof -
  have p: "slot m pt va l = Some p" "\<not> pte_table (m p)" using assms(3) by (simp_all add: is_leaf_def)
  have k: "k < 3" "slot m pt va' k = Some q" "\<not> pte_table (m q)" using assms(7) by (simp_all add: is_leaf_def)
  have t: "tbl (hang_table p b m) pt va' k = tbl m pt va' k"
    using tbl_added [OF assms(1,2) p assms(4) hang_added [OF assms(1,2) p(1) assms(4-6)], of k va'] k(1) assms(8) by simp
  obtain c where c: "tbl m pt va' k = Some c" "q = pte_at c (vidx pt va' k)" using k(2) by (auto simp: slot_def)
  have nb: "\<forall>j < 512. q \<noteq> pte_at b j"
    using assms(4) k(1) c vidx_less [of pt va' k] by (fastforce simp: fresh_block_def)
  have "q \<noteq> p" using slot_disjoint [OF assms(1) _ k(1), of l va p va'] p(1) k(2) assms(2,8) by auto
  then show e: "hang_table p b m q = m q" using nb by (auto simp: hang_table_def)
  show "is_leaf (hang_table p b m) pt va' k q" using k e t by (simp add: is_leaf_def slot_def)
qed

section \<open>Ranges made of whole invalid entries\<close>

definition block_of :: "page_table \<Rightarrow> vaddr \<Rightarrow> nat \<Rightarrow> nat" where
  "block_of pt va l = vpos pt va div 2 ^ obits l * 2 ^ obits l"

lemma block_of_bounds: "block_of pt va l \<le> vpos pt va" "vpos pt va < block_of pt va l + 2 ^ obits l"
proof -
  show "block_of pt va l \<le> vpos pt va" by (simp add: block_of_def)
  have "vpos pt va = vpos pt va div 2 ^ obits l * 2 ^ obits l + vpos pt va mod 2 ^ obits l" by (rule div_mult_mod_eq [symmetric])
  moreover have "vpos pt va mod 2 ^ obits l < 2 ^ obits l" by simp
  ultimately show "vpos pt va < block_of pt va l + 2 ^ obits l" unfolding block_of_def by linarith
qed

lemma same_entry_block: "l < 3 \<Longrightarrow> same_entry pt va va' l \<longleftrightarrow> block_of pt va l = block_of pt va' l"
  unfolding same_entry_iff by (simp add: block_of_def)

lemma block_of_eq:
  assumes "vpos pt va mod 2 ^ obits l = 0" "vpos pt va \<le> vpos pt va'" "vpos pt va' < vpos pt va + 2 ^ obits l"
  shows "block_of pt va' l = vpos pt va" "block_of pt va l = vpos pt va"
proof -
  let ?o = "(2::nat) ^ obits l"
  have p: "vpos pt va = ?o * (vpos pt va div ?o)" using mult_div_mod_eq [of ?o "vpos pt va"] assms(1) by linarith
  then show b: "block_of pt va l = vpos pt va" by (simp add: block_of_def mult.commute)
  have "?o * Suc (vpos pt va div ?o) = vpos pt va + ?o" using p by simp
  then have "vpos pt va' div ?o = vpos pt va div ?o"
    using div_block [of ?o "vpos pt va'" "vpos pt va div ?o"] assms(2,3) p by simp
  then show "block_of pt va' l = vpos pt va" using b by (simp add: block_of_def)
qed

lemma vpos_of_nat: "k < vtop pt \<Longrightarrow> vpos pt (of_nat k) = k"
  using vpos_add [of pt 0 k] by (simp add: vpos_def)

definition tiled :: "page_table \<Rightarrow> pt_mem \<Rightarrow> nat \<Rightarrow> nat \<Rightarrow> bool" where
  "tiled pt m p k \<longleftrightarrow> (\<forall>va. p \<le> vpos pt va \<longrightarrow> vpos pt va < p + k \<longrightarrow>
    (\<exists>l q. is_leaf m pt va l q \<and> \<not> pte_valid (m q) \<and> p \<le> block_of pt va l \<and> block_of pt va l + 2 ^ obits l \<le> p + k))"

lemma tiled_0 [simp]: "tiled pt m p 0"
  by (simp add: tiled_def)

lemma tiled_leaf:
  assumes "tiled pt m p k" "p \<le> vpos pt va" "vpos pt va < p + k" "is_leaf m pt va l q"
  shows "\<not> pte_valid (m q)" "p \<le> block_of pt va l" "block_of pt va l + 2 ^ obits l \<le> p + k"
proof -
  from assms(1-3) obtain l' q' where x: "is_leaf m pt va l' q'" "\<not> pte_valid (m q')" "p \<le> block_of pt va l'"
      "block_of pt va l' + 2 ^ obits l' \<le> p + k" unfolding tiled_def by blast
  with leaf_unique [OF x(1) assms(4)]
  show "\<not> pte_valid (m q)" "p \<le> block_of pt va l" "block_of pt va l + 2 ^ obits l \<le> p + k" by simp_all
qed

lemma tiled_extend:
  assumes "tiled pt m p k" "is_leaf m pt va l q" "\<not> pte_valid (m q)" "vpos pt va = p + k" "vpos pt va mod 2 ^ obits l = 0"
  shows "tiled pt m p (k + 2 ^ obits l)"
  unfolding tiled_def
proof (intro allI impI)
  fix va' assume a: "p \<le> vpos pt va'" "vpos pt va' < p + (k + 2 ^ obits l)"
  show "\<exists>l' q'. is_leaf m pt va' l' q' \<and> \<not> pte_valid (m q') \<and> p \<le> block_of pt va' l'
      \<and> block_of pt va' l' + 2 ^ obits l' \<le> p + (k + 2 ^ obits l)"
  proof (cases "vpos pt va' < p + k")
    case True
    then obtain l' q' where "is_leaf m pt va' l' q'" "\<not> pte_valid (m q')" "p \<le> block_of pt va' l'"
        "block_of pt va' l' + 2 ^ obits l' \<le> p + k" using assms(1) a(1) unfolding tiled_def by blast
    then show ?thesis by (intro exI [of _ l'] exI [of _ q']) simp
  next
    case False
    then have b: "block_of pt va' l = vpos pt va" "block_of pt va l = vpos pt va"
      using block_of_eq [OF assms(5), of va'] a assms(4) by simp_all
    then have "same_entry pt va va' l" using same_entry_block assms(2) by (simp add: is_leaf_def)
    then show ?thesis using leaf_same [OF assms(2)] assms(3,4) b by (intro exI [of _ l] exI [of _ q]) simp
  qed
qed

text \<open>The first block of a range, and the rest.\<close>

lemma tiled_first:
  assumes "wf_tree m pt" "tiled pt m (vpos pt va) k" "0 < k"
  obtains l q where "is_leaf m pt va l q" "\<not> pte_valid (m q)" "vpos pt va mod 2 ^ obits l = 0" "2 ^ obits l \<le> k"
    "tiled pt m (vpos pt va + 2 ^ obits l) (k - 2 ^ obits l)"
proof -
  from assms(2,3) obtain l q where x: "is_leaf m pt va l q" "\<not> pte_valid (m q)" "vpos pt va \<le> block_of pt va l"
      "block_of pt va l + 2 ^ obits l \<le> vpos pt va + k" unfolding tiled_def by force
  have b: "block_of pt va l = vpos pt va" using x(3) block_of_bounds(1) [of pt va l] by simp
  have al: "vpos pt va mod 2 ^ obits l = 0" using b by (metis block_of_def mod_mult_self2_is_0)
  have le: "2 ^ obits l \<le> k" using x(4) b by simp
  have "tiled pt m (vpos pt va + 2 ^ obits l) (k - 2 ^ obits l)"
    unfolding tiled_def
  proof (intro allI impI)
    fix va' assume a: "vpos pt va + 2 ^ obits l \<le> vpos pt va'" "vpos pt va' < vpos pt va + 2 ^ obits l + (k - 2 ^ obits l)"
    then have "vpos pt va \<le> vpos pt va'" "vpos pt va' < vpos pt va + k" using le by simp_all
    then obtain l' q' where y: "is_leaf m pt va' l' q'" "\<not> pte_valid (m q')" "vpos pt va \<le> block_of pt va' l'"
        "block_of pt va' l' + 2 ^ obits l' \<le> vpos pt va + k" using assms(2) unfolding tiled_def by blast
    have l': "l' < 3" "l < 3" using y(1) x(1) by (simp_all add: is_leaf_def)
    have "vpos pt va + 2 ^ obits l \<le> block_of pt va' l'"
    proof (rule ccontr)
      assume n: "\<not> ?thesis"
      define x where "x = (of_nat (block_of pt va' l') :: u64)"
      have "block_of pt va' l' < vtop pt" using block_of_bounds(1) [of pt va' l'] vpos_less [of pt va'] by linarith
      then have px: "vpos pt x = block_of pt va' l'" unfolding x_def by (rule vpos_of_nat)
      have "block_of pt x l = block_of pt va l" using block_of_eq [OF al, of x] px n y(3) b by simp
      then have lx: "is_leaf m pt x l q" using leaf_same [OF x(1)] same_entry_block [OF l'(2)] by simp
      have "block_of pt x l' = block_of pt va' l'" unfolding block_of_def px by simp
      then have lx': "is_leaf m pt x l' q'" using leaf_same [OF y(1)] same_entry_block [OF l'(1)] by simp
      have e: "l' = l" using leaf_unique [OF lx lx'] by simp
      have "block_of pt va' l' = vpos pt va"
        using \<open>block_of pt x l = _\<close> \<open>block_of pt x l' = _\<close> b unfolding e by simp
      then show False using a(1) block_of_bounds(2) [of pt va' l'] unfolding e by simp
    qed
    then show "\<exists>l' q'. is_leaf m pt va' l' q' \<and> \<not> pte_valid (m q') \<and> vpos pt va + 2 ^ obits l \<le> block_of pt va' l'
        \<and> block_of pt va' l' + 2 ^ obits l' \<le> vpos pt va + 2 ^ obits l + (k - 2 ^ obits l)"
      using y le by (intro exI [of _ l'] exI [of _ q']) simp
  qed
  with x al le show ?thesis by (intro that)
qed

section \<open>The search\<close>

definition vm_range :: "addr_space \<Rightarrow> vaddr \<Rightarrow> nat \<Rightarrow> bool" where
  "vm_range a at n \<longleftrightarrow> as_typ a = AS_VM \<and> unat at mod 4096 = 0 \<and> unat at + n * 4096 \<le> vtop (as_pt a)"

lemma vtop_le: "vtop pt \<le> 2 ^ 41"
  unfolding vtop_def using ibits_le [of pt 0] by (intro power_increasing) simp_all

lemma vm_range_vpos:
  assumes "vm_range a at n" "j < n"
  shows "vpos (as_pt a) at = unat at" "vpos (as_pt a) (at + of_nat (j * 4096)) = unat at + j * 4096"
    "unat (at + of_nat (j * 4096)) = unat at + j * 4096"
proof -
  have w: "unat at + n * 4096 \<le> vtop (as_pt a)" using assms(1) by (simp add: vm_range_def)
  have j: "j * 4096 < n * 4096" using assms(2) by simp
  then have lt: "unat at < vtop (as_pt a)" "unat at + j * 4096 < vtop (as_pt a)" using w by linarith+
  then show p: "vpos (as_pt a) at = unat at" by (simp add: vpos_def)
  show "vpos (as_pt a) (at + of_nat (j * 4096)) = unat at + j * 4096" using vpos_add [of "as_pt a" at "j * 4096"] lt(2) p by simp
  have u: "unat (of_nat (j * 4096) :: u64) = j * 4096" using lt(2) vtop_le [of "as_pt a"] by (intro unat_of_nat_u64) simp
  show "unat (at + of_nat (j * 4096)) = unat at + j * 4096"
    using unat_add_no_wrap [of at "of_nat (j * 4096)"] lt(2) vtop_le [of "as_pt a"] unfolding u by simp
qed

text \<open>The range is unmapped and not reserved.\<close>

definition open_range :: "page_table \<Rightarrow> pt_mem \<Rightarrow> nat \<Rightarrow> nat \<Rightarrow> bool" where
  "open_range pt m p k \<longleftrightarrow> (\<forall>va. p \<le> vpos pt va \<longrightarrow> vpos pt va < p + k \<longrightarrow> phys m pt va = None \<and> free_at m pt va)"

text \<open>What the search keeps: the pages found so far are whole invalid entries.\<close>

definition found :: "mem_env \<Rightarrow> addr_space \<Rightarrow> vaddr \<Rightarrow> nat \<Rightarrow> nat \<Rightarrow> mem_state \<Rightarrow> vsearch \<Rightarrow> mem_state \<Rightarrow> bool" where
  "found E a at n k s0 v s \<longleftrightarrow> mem_ok E a s \<and> \<not> vs_failed v \<and> vs_count v \<le> n \<and> vs_addr v = at + of_nat (vs_count v * 4096)
    \<and> (0 < vs_count v \<longrightarrow> vs_vpage v = at) \<and> tiled (as_pt a) (pt_words s) (unat at) (vs_count v * 4096)
    \<and> (vs_count v < n \<longrightarrow> vs_lvl v < 3 \<and> (\<exists>b. tbl (pt_words s) (as_pt a) (vs_addr v) (vs_lvl v) = Some b)
        \<and> can_alloc E (as_colors a) (2 * (n - vs_count v) + k - vs_lvl v) s)
    \<and> can_alloc E (as_colors a) k s
    \<and> phys (pt_words s) (as_pt a) = phys (pt_words s0) (as_pt a) \<and> keeps_free (as_pt a) (pt_words s0) (pt_words s)
    \<and> tlb_log s = tlb_log s0"

lemma found_move:
  assumes "found E a at n k s0 v s" "mem_ok E a s'" "tiled (as_pt a) (pt_words s') (unat at) (vs_count v * 4096)"
    and "l < 3" "tbl (pt_words s') (as_pt a) (vs_addr v) l = Some b"
    and "can_alloc E (as_colors a) (2 * (n - vs_count v) + k - l) s'" "can_alloc E (as_colors a) k s'"
    and "phys (pt_words s') (as_pt a) = phys (pt_words s) (as_pt a)" "keeps_free (as_pt a) (pt_words s) (pt_words s')"
    and "tlb_log s' = tlb_log s"
  shows "found E a at n k s0 (v\<lparr>vs_lvl := l\<rparr>) s'"
proof -
  have "keeps_free (as_pt a) (pt_words s0) (pt_words s')"
    using assms(1) keeps_free_trans [OF _ assms(9)] unfolding found_def by blast
  then show ?thesis using assms(1) assms(2-8,10) unfolding found_def by simp
qed

lemma found_lvl:
  assumes "found E a at n k s0 v s" "l < 3" "tbl (pt_words s) (as_pt a) (vs_addr v) l = Some b"
    and "can_alloc E (as_colors a) (2 * (n - vs_count v) + k - l) s"
  shows "found E a at n k s0 (v\<lparr>vs_lvl := l\<rparr>) s"
  by (rule found_move [OF assms(1) _ _ assms(2-4)]) (use assms(1) in \<open>auto simp: found_def\<close>)

lemma found_count:
  assumes "found E a at n k s0 v s" "vs_count v < n" "0 < j" "vs_count v + j \<le> n"
    and "tiled (as_pt a) (pt_words s) (unat at) ((vs_count v + j) * 4096)"
    and "vs_count v + j < n \<Longrightarrow> l < 3 \<and> (\<exists>b. tbl (pt_words s) (as_pt a) (at + of_nat ((vs_count v + j) * 4096)) l = Some b)"
  shows "found E a at n k s0 (v\<lparr>vs_vpage := at, vs_count := vs_count v + j, vs_addr := at + of_nat ((vs_count v + j) * 4096), vs_lvl := l\<rparr>) s"
proof -
  have ca: "can_alloc E (as_colors a) (2 * (n - vs_count v) + k - vs_lvl v) s" and l3: "vs_lvl v < 3"
    using assms(1,2) unfolding found_def by simp_all
  have "can_alloc E (as_colors a) (2 * (n - (vs_count v + j)) + k - l) s" if "vs_count v + j < n"
    by (rule can_alloc_mono [OF ca]) (use that assms(2,3) l3 in auto)
  then show ?thesis using assms(1,4-6) unfolding found_def by simp
qed

lemma open_now:
  assumes "open_range (as_pt a) (pt_words s0) (unat at) (n * 4096)" "vm_range a at n" "vs_count v < n" "found E a at n k s0 v s"
  shows "phys (pt_words s) (as_pt a) (vs_addr v) = None" "free_at (pt_words s) (as_pt a) (vs_addr v)"
proof -
  have v: "vs_addr v = at + of_nat (vs_count v * 4096)" using assms(4) by (simp add: found_def)
  have p: "vpos (as_pt a) (vs_addr v) = unat at + vs_count v * 4096" using vm_range_vpos [OF assms(2,3)] v by simp
  have "vs_count v * 4096 < n * 4096" using assms(3) by simp
  then have "phys (pt_words s0) (as_pt a) (vs_addr v) = None" "free_at (pt_words s0) (as_pt a) (vs_addr v)"
    using assms(1) p unfolding open_range_def by auto
  then show "phys (pt_words s) (as_pt a) (vs_addr v) = None" "free_at (pt_words s) (as_pt a) (vs_addr v)"
    using assms(4) by (simp_all add: found_def keeps_free_def)
qed

lemma allocable_fits:
  assumes "good_pt (as_pt a)" "l < 3" "left * 4096 < 2 ^ 64" "\<not> pte_valid e" "0 < left" "unat va mod 4096 = 0"
  shows "pte_allocable a e l left va = Inr (2 ^ obits l \<le> left * 4096 \<and> unat va mod 2 ^ obits l = 0)"
  using geometry(1) [OF assms(1)] geometry(3,5) [OF assms(1,2)] assms(2-6)
  by (auto simp: pte_allocable_def obits_def)

text \<open>Splitting the entry the search stands on leaves the pages found as they are.\<close>

lemma tiled_hang:
  assumes "wf_tree m pt" "l < 2" "is_leaf m pt va l p" "fresh_block m pt b" "b AND mask 12 = 0" "unat b < 2 ^ 56"
    and "tiled pt m p0 k" "vpos pt va = p0 + k"
  shows "tiled pt (hang_table p b m) p0 k"
  unfolding tiled_def
proof (intro allI impI)
  fix va' assume a: "p0 \<le> vpos pt va'" "vpos pt va' < p0 + k"
  then obtain l' q' where x: "is_leaf m pt va' l' q'" "\<not> pte_valid (m q')" "p0 \<le> block_of pt va' l'"
      "block_of pt va' l' + 2 ^ obits l' \<le> p0 + k" using assms(7) unfolding tiled_def by blast
  have "\<not> same_entry pt va va' l"
  proof
    assume s: "same_entry pt va va' l"
    then have e: "l' = l" using leaf_unique [OF x(1) leaf_same [OF assms(3) s]] by simp
    have "block_of pt va l = block_of pt va' l" using s same_entry_block [of l pt va va'] assms(2) by simp
    then show False using x(4) block_of_bounds(2) [of pt va l] assms(8) unfolding e by simp
  qed
  note h = leaf_hang [OF assms(1-6) x(1) this]
  show "\<exists>l' q'. is_leaf (hang_table p b m) pt va' l' q' \<and> \<not> pte_valid (hang_table p b m q') \<and> p0 \<le> block_of pt va' l'
      \<and> block_of pt va' l' + 2 ^ obits l' \<le> p0 + k"
    using h x(2-4) by (intro exI [of _ l'] exI [of _ q']) simp
qed

text \<open>
  One entry: either it is a table, or becomes one, or is an invalid entry that fits and is counted.
\<close>

lemma look_spec:
  assumes "found E a at n k s0 v s" "vm_range a at n" "at \<noteq> INVALID_VA" "vs_count v < n"
    and "open_range (as_pt a) (pt_words s0) (unat at) (n * 4096)"
    and "slot (pt_words s) (as_pt a) (vs_addr v) (vs_lvl v) = Some p"
  obtains (table) s' e where "vpage_look E a at n (2 ^ obits (vs_lvl v)) p v s = Inr (v, s', e)" "pte_table e"
      "found E a at n k s0 (v\<lparr>vs_lvl := vs_lvl v + 1\<rparr>) s'"
    | (leaf) v' e where "vpage_look E a at n (2 ^ obits (vs_lvl v)) p v s = Inr (v', s, e)" "\<not> pte_table e" "vs_lvl v' = vs_lvl v"
      "vs_addr v' = vs_addr v" "\<not> vs_failed v'"
      "vs_count v' = vs_count v + 2 ^ obits (vs_lvl v) div 4096" "vs_count v' \<le> n" "vpos (as_pt a) (vs_addr v) mod 2 ^ obits (vs_lvl v) = 0"
      "\<And>l. (vs_count v' < n \<longrightarrow> l < 3 \<and> (\<exists>b. tbl (pt_words s) (as_pt a) (at + of_nat (vs_count v' * 4096)) l = Some b)) \<Longrightarrow>
        found E a at n k s0 (v'\<lparr>vs_addr := vs_addr v + of_nat (2 ^ obits (vs_lvl v)), vs_lvl := l\<rparr>) s"
proof -
  let ?pt = "as_pt a" and ?m = "pt_words s" and ?l = "vs_lvl v" and ?va = "vs_addr v" and ?c = "vs_count v"
  note f = assms(1) [unfolded found_def]
  have ok: "mem_ok E a s" and l3: "?l < 3" using f assms(4) by simp_all
  note w = mem_okD [OF ok]
  have va: "?va = at + of_nat (?c * 4096)" using f by simp
  note vp = vm_range_vpos [OF assms(2,4)]
  have p0: "p \<noteq> 0" by (rule slot_nonzero [OF w(1) l3 assms(6)])
  note op = open_now [OF assms(5,2,4,1)]
  have nr: "\<not> pte_check_rsw (?m p) PTE_RSW_RSRV" using op(2) l3 assms(6) by (simp add: free_at_def)
  have ld: "ld_pte s p = Inr (?m p)" using p0 by (simp add: ld_pte_def)
  show ?thesis
  proof (cases "pte_table (?m p)")
    case True
    note nx = wf_slot_next [OF w(1) l3 assms(6) True]
    obtain q where q: "slot ?m ?pt ?va (Suc ?l) = Some q" using nx(2) by blast
    then obtain b where b: "tbl ?m ?pt ?va (Suc ?l) = Some b" by (auto simp: slot_def)
    have "can_alloc E (as_colors a) (2 * (n - ?c) + k - Suc ?l) s"
      by (rule can_alloc_mono [of _ _ "2 * (n - ?c) + k - ?l"]) (use f assms(4) in auto)
    from found_lvl [OF assms(1) nx(1) b this] have "found E a at n k s0 (v\<lparr>vs_lvl := ?l + 1\<rparr>) s" by simp
    moreover have "vpage_look E a at n (2 ^ obits ?l) p v s = Inr (v, s, ?m p)"
      using True nr ld table_valid [OF True] by (simp add: vpage_look_def)
    ultimately show ?thesis using True by (intro table)
  next
    case False
    then have lf: "is_leaf ?m ?pt ?va ?l p" using l3 assms(6) by (simp add: is_leaf_def)
    then have inv: "\<not> pte_valid (?m p)" using phys_leaf [OF lf] op(1) by (auto simp: maps_to_def split: if_splits)
    have left: "(n - ?c) * 4096 < 2 ^ 64" "0 < n - ?c"
      using assms(2,4) vtop_le [of ?pt] unfolding vm_range_def by auto
    have m12: "unat ?va mod 4096 = 0" using vp(3) assms(2) unfolding va vm_range_def by simp
    note al = allocable_fits [OF w(3) l3 left(1) inv left(2) m12]
    show ?thesis
    proof (cases "2 ^ obits ?l \<le> (n - ?c) * 4096 \<and> unat ?va mod 2 ^ obits ?l = 0")
      case True
      define j where "j = (2::nat) ^ obits ?l div 4096"
      let ?v' = "v\<lparr>vs_vpage := (if ?c = 0 then ?va else vs_vpage v), vs_count := ?c + j\<rparr>"
      have oj: "(2::nat) ^ obits ?l = j * 4096" unfolding j_def by (rule page_unit(1) [OF l3])
      have jp: "0 < j" unfolding j_def by (rule page_unit(2) [OF l3])
      have run: "vpage_look E a at n (2 ^ obits ?l) p v s = Inr (?v', s, ?m p)"
        using nr ld inv False al True by (simp add: vpage_look_def j_def)
      have "j * 4096 \<le> (n - ?c) * 4096" using True oj by linarith
      then have cn: "?c + j \<le> n" using assms(4) by simp
      have vm: "vpos ?pt ?va mod 2 ^ obits ?l = 0" using vpos_mod [OF l3] True by simp
      have til: "tiled ?pt ?m (unat at) ((?c + j) * 4096)"
        using tiled_extend [of ?pt ?m "unat at" "?c * 4096" ?va ?l p] f lf inv vp(2) va vm oj by (simp add: add_mult_distrib)
      have ad: "?va + of_nat (2 ^ obits ?l) = at + of_nat ((?c + j) * 4096)"
        unfolding va oj by (simp only: add_mult_distrib of_nat_add add.assoc)
      have vpg: "(if ?c = 0 then ?va else vs_vpage v) = at" using f va by auto
      have "found E a at n k s0 (?v'\<lparr>vs_addr := ?va + of_nat (2 ^ obits ?l), vs_lvl := l\<rparr>) s"
        if h: "?c + j < n \<longrightarrow> l < 3 \<and> (\<exists>b. tbl ?m ?pt (at + of_nat ((?c + j) * 4096)) l = Some b)" for l
        unfolding vpg ad using found_count [OF assms(1,4) jp cn til] h by simp
      then show ?thesis using run False cn vm f by (intro leaf [of ?v' "?m p"]) (simp_all add: j_def)
    next
      case nofit: False
      then have l2: "?l < 2" using l3 left(2) m12 by (cases "?l = 2") (auto simp: obits_def)
      have "2 * (n - ?c) + k - ?l = Suc (2 * (n - ?c) + k - Suc ?l)" using l2 assms(4) by simp
      then have ca: "can_alloc E (as_colors a) (Suc (2 * (n - ?c) + k - Suc ?l)) s" using f assms(4) by simp
      obtain s' b where h: "mem_alloc_pt E a p ?l ?va s = Inr (s', b)" "fresh_block ?m ?pt b" "b \<noteq> 0" "b AND mask 12 = 0"
          "unat b < 2 ^ 56" "pt_words s' = hang_table p b ?m" "mem_ok E a s'"
          "can_alloc E (as_colors a) (2 * (n - ?c) + k - Suc ?l) s'" "tlb_log s' = tlb_log s"
        using mem_alloc_pt_spec [OF ok l2 assms(6) False ca] by blast
      note pa = phys_hang [OF w(1) l2 assms(6) False h(2,4,5)]
      have te: "pte_table (pt_words s' p)"
        unfolding h(6) by (rule hang_added [OF w(1) l2 assms(6) h(2,4,5), unfolded table_added_def, THEN conjunct1])
      have ld': "ld_pte s' p = Inr (pt_words s' p)" using p0 by (simp add: ld_pte_def)
      have run: "vpage_look E a at n (2 ^ obits ?l) p v s = Inr (v, s', pt_words s' p)"
        using nr ld inv False al nofit h(1,3) ld' by (simp add: vpage_look_def)
      have same: "phys (pt_words s') ?pt = phys ?m ?pt"
      proof
        fix va'
        show "phys (pt_words s') ?pt va' = phys ?m ?pt va'"
        proof (cases "same_entry ?pt ?va va' ?l")
          case True
          then have "phys ?m ?pt va' = None" using phys_leaf [OF leaf_same [OF lf True]] inv by (simp add: maps_to_def)
          then show ?thesis using pa(1) [of va'] h(6) by simp
        qed (use pa(1) [of va'] h(6) in simp)
      qed
      have til: "tiled ?pt (pt_words s') (unat at) (?c * 4096)"
        unfolding h(6) by (rule tiled_hang [OF w(1) l2 lf h(2,4,5)]) (use f vp(2) va in simp_all)
      have kf: "keeps_free ?pt ?m (pt_words s')"
        using keeps_free_hang [OF w(1) l2 assms(6) False h(2,4,5)] h(6) by simp
      have ck: "can_alloc E (as_colors a) k s'" by (rule can_alloc_mono [OF h(8)]) (use l2 assms(4) in simp)
      have tb: "tbl (pt_words s') ?pt ?va (Suc ?l) = Some b" using pa(2) h(6) by simp
      have "Suc ?l < 3" using l2 by simp
      from found_move [OF assms(1) h(7) til this tb h(8) ck same kf h(9)]
      have "found E a at n k s0 (v\<lparr>vs_lvl := Suc ?l\<rparr>) s'" .
      then have "found E a at n k s0 (v\<lparr>vs_lvl := ?l + 1\<rparr>) s'" by simp
      then show ?thesis using run te by (intro table)
    qed
  qed
qed

lemma entries_spec:
  assumes "vm_range a at n" "at \<noteq> INVALID_VA" "open_range (as_pt a) (pt_words s0) (unat at) (n * 4096)" "l < 3"
    and "found E a at n k s0 v s" "vs_count v < n" "vs_lvl v = l"
    and "slot (pt_words s) (as_pt a) (vs_addr v) l = Some p" "vidx (as_pt a) (vs_addr v) l = entry"
  shows "\<exists>v' s'. vpage_entries E a at n (nent (as_pt a) l) (2 ^ obits l) entry p v s = Inr (v', s')
    \<and> found E a at n k s0 v' s' \<and> (vs_count v < vs_count v' \<or> vs_count v' = vs_count v \<and> vs_lvl v' = Suc l)"
  using assms(5-9)
proof (induction "nent (as_pt a) l - entry" arbitrary: entry p v s rule: less_induct)
  case less
  let ?pt = "as_pt a" and ?N = "nent (as_pt a) l" and ?va = "vs_addr v"
  have nf: "\<not> vs_failed v" and va: "?va = at + of_nat (vs_count v * 4096)" using less.prems(1) by (simp_all add: found_def)
  have en: "entry < ?N" using vidx_less [of ?pt ?va l] less.prems(5) by simp
  note sl = less.prems(4) [folded less.prems(3)]
  note run = vpage_entries.simps [of E a at n ?N "2 ^ obits l" entry p v s]
  note lk = look_spec [OF less.prems(1) assms(1,2) less.prems(2) assms(3) sl, unfolded less.prems(3)]
  show ?case
  proof (rule lk)
    fix s' e
    assume t: "vpage_look E a at n (2 ^ obits l) p v s = Inr (v, s', e)" "pte_table e" "found E a at n k s0 (v\<lparr>vs_lvl := l + 1\<rparr>) s'"
    have "vpage_entries E a at n ?N (2 ^ obits l) entry p v s = Inr (v\<lparr>vs_lvl := l + 1\<rparr>, s')"
      using run t(1,2) en less.prems(2,3) nf by simp
    then show ?thesis using t(3) by (intro exI [of _ "v\<lparr>vs_lvl := l + 1\<rparr>"] exI [of _ s']) simp
  next
    fix v' e
    assume lf: "vpage_look E a at n (2 ^ obits l) p v s = Inr (v', s, e)" "\<not> pte_table e" "vs_lvl v' = l" "vs_addr v' = ?va"
      "\<not> vs_failed v'" "vs_count v' = vs_count v + 2 ^ obits l div 4096" "vs_count v' \<le> n" "vpos ?pt ?va mod 2 ^ obits l = 0"
      "\<And>l'. (vs_count v' < n \<longrightarrow> l' < 3 \<and> (\<exists>b. tbl (pt_words s) ?pt (at + of_nat (vs_count v' * 4096)) l' = Some b)) \<Longrightarrow>
        found E a at n k s0 (v'\<lparr>vs_addr := ?va + of_nat (2 ^ obits l), vs_lvl := l'\<rparr>) s"
    let ?va1 = "?va + of_nat (2 ^ obits l)"
    have more: "vs_count v < vs_count v'" using lf(6) page_unit(2) [OF assms(4)] by simp
    show ?thesis
    proof (cases "?N \<le> entry + 1")
      case True
      have f0: "found E a at n k s0 (v'\<lparr>vs_addr := ?va1, vs_lvl := 0\<rparr>) s" by (rule lf(9)) simp
      have "vpage_entries E a at n ?N (2 ^ obits l) entry p v s = Inr (v'\<lparr>vs_addr := ?va1, vs_lvl := 0\<rparr>, s)"
        using run lf(1,2,4,5) en less.prems(2) nf True by (simp add: Let_def)
      then show ?thesis using f0 more by (intro exI [of _ "v'\<lparr>vs_addr := ?va1, vs_lvl := 0\<rparr>"] exI [of _ s]) simp
    next
      case False
      let ?v1 = "v'\<lparr>vs_addr := ?va1\<rparr>"
      have v1: "?v1 = v'\<lparr>vs_addr := ?va1, vs_lvl := l\<rparr>" using lf(3) by simp
      have step: "vpage_entries E a at n ?N (2 ^ obits l) entry p v s =
          vpage_entries E a at n ?N (2 ^ obits l) (Suc entry) (next_pte p) ?v1 s"
        using run lf(1,2,4,5) en less.prems(2) nf False by (simp add: Let_def)
      show ?thesis
      proof (cases "vs_count v' < n")
        case full: False
        have f1: "found E a at n k s0 ?v1 s" using lf(9) [of l] full unfolding v1 [symmetric] by simp
        have "vpage_entries E a at n ?N (2 ^ obits l) (Suc entry) (next_pte p) ?v1 s = Inr (?v1, s)"
          using full by (subst vpage_entries.simps) simp
        then show ?thesis using step f1 more by (intro exI [of _ ?v1] exI [of _ s]) simp
      next
        case True
        have o: "(2::nat) ^ obits l = 2 ^ obits l div 4096 * 4096" by (rule page_unit(1) [OF assms(4)])
        have cc: "vs_count v' * 4096 = vs_count v * 4096 + 2 ^ obits l" unfolding lf(6) add_mult_distrib o [symmetric] ..
        have va1: "?va1 = at + of_nat (vs_count v' * 4096)" unfolding va cc by simp
        have vt: "vpos ?pt ?va + 2 ^ obits l < vtop ?pt"
          using vm_range_vpos(2) [OF assms(1) less.prems(2)] vm_range_vpos(2) [OF assms(1) True]
            vpos_less [of ?pt "at + of_nat (vs_count v' * 4096)"] cc
          unfolding va by linarith
        have "Suc (vidx ?pt ?va l) < ?N" using False less.prems(5) by simp
        note nx = next_entry [OF assms(4) lf(8) vt this]
        obtain b where b: "tbl (pt_words s) ?pt ?va l = Some b" "p = pte_at b entry"
          using less.prems(4,5) by (auto simp: slot_def)
        have tb: "tbl (pt_words s) ?pt ?va1 l = Some b" using tbl_same [OF nx(1)] b(1) by simp
        have f1: "found E a at n k s0 ?v1 s" using lf(9) [of l] assms(4) tb va1 unfolding v1 [symmetric] by simp
        have sl1: "slot (pt_words s) ?pt (vs_addr ?v1) l = Some (next_pte p)" using tb nx(2) b(2) less.prems(5)
          by (simp add: slot_def next_pte_at)
        have ix1: "vidx ?pt (vs_addr ?v1) l = Suc entry" using nx(2) less.prems(5) by simp
        have lt1: "vs_count ?v1 < n" "vs_lvl ?v1 = l" "?N - Suc entry < ?N - entry" using True lf(3) en by simp_all
        obtain v2 s2 where r: "vpage_entries E a at n ?N (2 ^ obits l) (Suc entry) (next_pte p) ?v1 s = Inr (v2, s2)"
            "found E a at n k s0 v2 s2" "vs_count ?v1 < vs_count v2 \<or> vs_count v2 = vs_count ?v1 \<and> vs_lvl v2 = Suc l"
          using less.hyps [OF lt1(3) f1 lt1(1,2) sl1 ix1] by (elim exE conjE)
        have lt: "vs_count v < vs_count v2" using r(3) more by auto
        have "vpage_entries E a at n ?N (2 ^ obits l) entry p v s = Inr (v2, s2)" unfolding step by (rule r(1))
        then show ?thesis by (intro exI conjI disjI1) (assumption, rule r(2), rule lt)
      qed
    qed
  qed
qed

lemma round_spec:
  assumes "vm_range a at n" "at \<noteq> INVALID_VA" "open_range (as_pt a) (pt_words s0) (unat at) (n * 4096)"
    and "found E a at n k s0 v s" "vs_count v < n"
  shows "\<exists>v' s'. vpage_round E a at n MAX_VA v s = Inr (v', s') \<and> found E a at n k s0 v' s'
    \<and> (vs_count v < vs_count v' \<or> vs_count v' = vs_count v \<and> vs_lvl v' = Suc (vs_lvl v))"
proof -
  let ?pt = "as_pt a" and ?va = "vs_addr v" and ?l = "vs_lvl v"
  have ok: "mem_ok E a s" and l3: "?l < 3" and t: "\<exists>b. tbl (pt_words s) ?pt ?va ?l = Some b"
    and va: "?va = at + of_nat (vs_count v * 4096)" using assms(4,5) unfolding found_def by blast+
  note w = mem_okD [OF ok]
  from t obtain p where p: "slot (pt_words s) ?pt ?va ?l = Some p" by (auto simp: slot_def)
  have space: "\<not> unat (MAX_VA + 1 - ?va) div 4096 < n" if "?va \<noteq> 0"
  proof -
    have u: "unat ?va = unat at + vs_count v * 4096" using vm_range_vpos(3) [OF assms(1,5)] va by simp
    have b: "unat at + n * 4096 \<le> 2 ^ 41" using assms(1) vtop_le [of ?pt] by (simp add: vm_range_def)
    have "vs_count v * 4096 < n * 4096" using assms(5) by simp
    then have uv: "unat ?va < 2 ^ 41" using u b by linarith
    have "unat (MAX_VA + 1 - ?va) = 2 ^ 64 - unat ?va" using that unat_sub_if_size [of 0 ?va] by (simp add: MAX_VA_def word_size unat_eq_0 word_le_nat_alt)
    then have "2 ^ 63 \<le> unat (MAX_VA + 1 - ?va)" using uv by simp
    then have "2 ^ 63 div 4096 \<le> unat (MAX_VA + 1 - ?va) div 4096" by (rule div_le_mono)
    then show ?thesis using b by simp
  qed
  show ?thesis
    using entries_spec [OF assms(1-3) l3 assms(4,5) refl p refl] space get_pte_slot [OF w(3) l3 p] slot_index [OF w(1) l3 p]
      geometry(2,3) [OF w(3) l3]
    by (auto simp: vpage_round_def Let_def)
qed

lemma search_spec:
  assumes "vm_range a at n" "at \<noteq> INVALID_VA" "open_range (as_pt a) (pt_words s0) (unat at) (n * 4096)"
    and "found E a at n k s0 v s"
  shows "\<exists>v' s'. vpage_search E a at n MAX_VA v s = Some (Inr (v', s')) \<and> found E a at n k s0 v' s' \<and> vs_count v' = n"
  using assms(4)
proof (induction "4 * (n - vs_count v) + (3 - vs_lvl v)" arbitrary: v s rule: less_induct)
  case less
  have nf: "\<not> vs_failed v" "vs_count v \<le> n" using less.prems by (simp_all add: found_def)
  show ?case
  proof (cases "vs_count v < n")
    case False
    then have "vpage_search E a at n MAX_VA v s = Some (Inr (v, s))" by (subst vpage_search.simps) simp
    then show ?thesis using less.prems nf(2) False by auto
  next
    case True
    obtain v' s' where r: "vpage_round E a at n MAX_VA v s = Inr (v', s')" "found E a at n k s0 v' s'"
        "vs_count v < vs_count v' \<or> vs_count v' = vs_count v \<and> vs_lvl v' = Suc (vs_lvl v)"
      using round_spec [OF assms(1-3) less.prems True] by blast
    have step: "vpage_search E a at n MAX_VA v s = vpage_search E a at n MAX_VA v' s'"
      using True nf(1) r(1) by (subst vpage_search.simps) simp
    have "vs_lvl v < 3" using less.prems True by (simp add: found_def)
    moreover have "vs_count v' \<le> n" using r(2) by (simp add: found_def)
    ultimately have "4 * (n - vs_count v') + (3 - vs_lvl v') < 4 * (n - vs_count v) + (3 - vs_lvl v)" using r(3) True by auto
    from less.hyps [OF this r(2)] step show ?thesis by simp
  qed
qed

section \<open>Marking\<close>

lemma first_invalid_leaf:
  assumes "wf_tree (pt_words s) (as_pt a)" "is_leaf (pt_words s) (as_pt a) va l q" "\<not> pte_valid (pt_words s q)" "i \<le> l"
  shows "first_invalid a va s i pte = Inr (q, l)"
  using assms(4)
proof (induction "l - i" arbitrary: i pte)
  case 0
  then have "i = l" "l < 3" using assms(2) by (simp_all add: is_leaf_def)
  moreover have "slot (pt_words s) (as_pt a) va l = Some q" using assms(2) by (simp add: is_leaf_def)
  moreover note g = wf_treeD(1) [OF assms(1)]
  ultimately show ?case
    using geometry(1) [OF g] get_pte_slot [OF g] slot_nonzero [OF assms(1)] assms(3)
    by (subst first_invalid.simps) (simp add: ld_pte_def)
next
  case (Suc d)
  note g = wf_treeD(1) [OF assms(1)]
  have il: "i < l" "i < 3" "Suc i \<le> l" using Suc.hyps(2) assms(2) by (auto simp: is_leaf_def)
  obtain b where "tbl (pt_words s) (as_pt a) va l = Some b" using assms(2) by (auto simp: is_leaf_def slot_def)
  with tbl_upto [OF this, of "Suc i"] il obtain c where c: "tbl (pt_words s) (as_pt a) va (Suc i) = Some c" by auto
  then obtain b' where b': "tbl (pt_words s) (as_pt a) va i = Some b'" using tbl_upto [OF c, of i] by auto
  let ?r = "pte_at b' (vidx (as_pt a) va i)"
  have sl: "slot (pt_words s) (as_pt a) va i = Some ?r" using b' by (simp add: slot_def)
  have "pte_table (pt_words s ?r)" using tbl_Suc_Some [OF b'] c by (simp split: if_splits)
  then have v: "pte_valid (pt_words s ?r)" by (rule table_valid)
  have "first_invalid a va s (Suc i) ?r = Inr (q, l)" by (rule Suc.hyps(1)) (use Suc.hyps(2) il in simp_all)
  then show ?case using geometry(1) [OF g] get_pte_slot [OF g il(2) sl] slot_nonzero [OF assms(1) il(2) sl] v il(2)
    by (subst first_invalid.simps) (simp add: ld_pte_def)
qed

definition marks :: "mem_env \<Rightarrow> addr_space \<Rightarrow> nat \<Rightarrow> nat \<Rightarrow> mem_state \<Rightarrow> mem_state \<Rightarrow> bool" where
  "marks E a p k s s' \<longleftrightarrow> mem_ok E a s' \<and> phys (pt_words s') (as_pt a) = phys (pt_words s) (as_pt a)
    \<and> page_pools s' = page_pools s \<and> tlb_log s' = tlb_log s
    \<and> (\<forall>va. vpos (as_pt a) va < p \<or> p + k \<le> vpos (as_pt a) va \<longrightarrow>
        free_at (pt_words s) (as_pt a) va \<longrightarrow> free_at (pt_words s') (as_pt a) va)"

lemma marks_refl: "mem_ok E a s \<Longrightarrow> marks E a p k s s"
  by (simp add: marks_def)

lemma marks_append:
  assumes "marks E a p j s s1" "marks E a (p + j) k s1 s'"
  shows "marks E a p (j + k) s s'"
  using assms unfolding marks_def by (simp add: add.assoc)

lemma reserved_pte:
  assumes "\<not> pte_valid e"
  shows "\<not> pte_valid (pte_set_rsw e f)" "\<not> pte_table (pte_set_rsw e f)"
  using low_decides [OF rsw_keeps_low [of e f]] assms table_valid by auto

lemma mark_round_spec:
  assumes "mem_ok E a s" "tiled (as_pt a) (pt_words s) (vpos (as_pt a) va) ((n - c) * 4096)" "c < n"
  shows "\<exists>l s'. mark_round a va c s = Inr (va + of_nat (2 ^ obits l), c + 2 ^ obits l div 4096, s') \<and> l < 3
    \<and> 2 ^ obits l \<le> (n - c) * 4096 \<and> marks E a (vpos (as_pt a) va) (2 ^ obits l) s s'
    \<and> tiled (as_pt a) (pt_words s') (vpos (as_pt a) va + 2 ^ obits l) ((n - c) * 4096 - 2 ^ obits l)"
proof -
  let ?pt = "as_pt a" and ?m = "pt_words s"
  note w = mem_okD [OF assms(1)]
  have k0: "0 < (n - c) * 4096" using assms(3) by simp
  obtain l q where lf: "is_leaf ?m ?pt va l q" "\<not> pte_valid (?m q)" "vpos ?pt va mod 2 ^ obits l = 0" "2 ^ obits l \<le> (n - c) * 4096"
      "tiled ?pt ?m (vpos ?pt va + 2 ^ obits l) ((n - c) * 4096 - 2 ^ obits l)"
    by (rule tiled_first [OF w(1) assms(2) k0])
  have l3: "l < 3" and sl: "slot ?m ?pt va l = Some q" using lf(1) by (simp_all add: is_leaf_def)
  have q0: "q \<noteq> 0" by (rule slot_nonzero [OF w(1) l3 sl])
  define e where "e = pte_set_rsw (?m q) PTE_RSW_RSRV"
  have e: "\<not> pte_valid e" "\<not> pte_table e" using reserved_pte [OF lf(2)] by (simp_all add: e_def)
  let ?s = "s\<lparr>pt_words := ?m(q := e)\<rparr>"
  have run: "mark_round a va c s = Inr (va + of_nat (2 ^ obits l), c + 2 ^ obits l div 4096, ?s)"
    using first_invalid_leaf [OF w(1) lf(1,2), of 0 0] q0 geometry(3) [OF w(3) l3]
    by (simp add: mark_round_def ld_pte_def st_pte_def e_def)
  have ok: "mem_ok E a ?s" by (rule mem_ok_write [OF assms(1) l3 sl e(2)])
  have ph: "phys (?m(q := e)) ?pt = phys ?m ?pt"
  proof
    fix va'
    show "phys (?m(q := e)) ?pt va' = phys ?m ?pt va'"
      using phys_write [OF w(1) l3 sl e(2), of va'] phys_leaf [OF leaf_same [OF lf(1)], of va'] e(1) lf(2)
      by (simp add: maps_to_def split: if_splits)
  qed
  have fr: "free_at (?m(q := e)) ?pt va'"
    if o: "vpos ?pt va' < vpos ?pt va \<or> vpos ?pt va + 2 ^ obits l \<le> vpos ?pt va'" and f: "free_at ?m ?pt va'" for va'
    unfolding free_at_def
  proof (intro allI impI)
    fix l' p assume l': "l' < 3" "slot (?m(q := e)) ?pt va' l' = Some p"
    then have old: "slot ?m ?pt va' l' = Some p" using slot_write [OF w(1) l3 sl e(2) l'(1), of va'] by (simp split: if_splits)
    have "p \<noteq> q"
    proof
      assume "p = q"
      then have "same_entry ?pt va va' l" using slot_disjoint [OF w(1) l3 l'(1) sl, of va'] old by blast
      then have "block_of ?pt va' l = vpos ?pt va"
        using same_entry_block [OF l3] block_of_eq(2) [OF lf(3), of va] by simp
      then show False using o block_of_bounds [of ?pt va' l] by simp
    qed
    then show "\<not> pte_check_rsw ((?m(q := e)) p) PTE_RSW_RSRV" using f old l'(1) by (auto simp: free_at_def)
  qed
  have "marks E a (vpos ?pt va) (2 ^ obits l) s ?s" using ok ph fr by (simp add: marks_def)
  moreover have "tiled ?pt (pt_words ?s) (vpos ?pt va + 2 ^ obits l) ((n - c) * 4096 - 2 ^ obits l)"
    unfolding tiled_def
  proof (intro allI impI)
    fix va' assume "vpos ?pt va + 2 ^ obits l \<le> vpos ?pt va'" "vpos ?pt va' < vpos ?pt va + 2 ^ obits l + ((n - c) * 4096 - 2 ^ obits l)"
    then obtain l' q' where x: "is_leaf ?m ?pt va' l' q'" "\<not> pte_valid (?m q')" "vpos ?pt va + 2 ^ obits l \<le> block_of ?pt va' l'"
        "block_of ?pt va' l' + 2 ^ obits l' \<le> vpos ?pt va + 2 ^ obits l + ((n - c) * 4096 - 2 ^ obits l)"
      using lf(5) unfolding tiled_def by blast
    have "is_leaf (pt_words ?s) ?pt va' l' q'" using leaf_write [OF w(1) lf(1) e(2) x(1)] by simp
    moreover have "\<not> pte_valid (pt_words ?s q')" using x(2) e(1) by simp
    ultimately show "\<exists>l' q'. is_leaf (pt_words ?s) ?pt va' l' q' \<and> \<not> pte_valid (pt_words ?s q')
        \<and> vpos ?pt va + 2 ^ obits l \<le> block_of ?pt va' l'
        \<and> block_of ?pt va' l' + 2 ^ obits l' \<le> vpos ?pt va + 2 ^ obits l + ((n - c) * 4096 - 2 ^ obits l)"
      using x(3,4) by blast
  qed
  ultimately show ?thesis using run l3 lf(4) by blast
qed

lemma mark_reserved_spec:
  assumes "mem_ok E a s" "tiled (as_pt a) (pt_words s) (vpos (as_pt a) va) ((n - c) * 4096)" "c \<le> n"
    and "vpos (as_pt a) va + (n - c) * 4096 \<le> vtop (as_pt a)"
  shows "\<exists>s'. mark_reserved a n va c s = Some (Inr s') \<and> marks E a (vpos (as_pt a) va) ((n - c) * 4096) s s'"
  using assms
proof (induction "n - c" arbitrary: va c s rule: less_induct)
  case less
  let ?pt = "as_pt a"
  show ?case
  proof (cases "c < n")
    case False
    then show ?thesis using marks_refl [OF less.prems(1)] by (subst mark_reserved.simps) auto
  next
    case True
    obtain l s' where r: "mark_round a va c s = Inr (va + of_nat (2 ^ obits l), c + 2 ^ obits l div 4096, s')" "l < 3"
        "2 ^ obits l \<le> (n - c) * 4096" "marks E a (vpos ?pt va) (2 ^ obits l) s s'"
        "tiled ?pt (pt_words s') (vpos ?pt va + 2 ^ obits l) ((n - c) * 4096 - 2 ^ obits l)"
      using mark_round_spec [OF less.prems(1,2) True] by blast
    define j where "j = (2::nat) ^ obits l div 4096"
    have o: "(2::nat) ^ obits l = j * 4096" "0 < j" using page_unit [OF r(2)] by (simp_all add: j_def)
    have "j * 4096 \<le> (n - c) * 4096" using r(3) unfolding o(1) .
    then have jn: "c + j \<le> n" using True by simp
    have split: "(n - c) * 4096 = j * 4096 + (n - (c + j)) * 4096" using jn by (simp add: diff_mult_distrib)
    have run: "mark_reserved a n va c s = mark_reserved a n (va + of_nat (j * 4096)) (c + j) s'"
      using True r(1) unfolding j_def [symmetric] o(1) by (subst mark_reserved.simps) simp
    have mk: "marks E a (vpos ?pt va) (j * 4096) s s'" using r(4) unfolding o(1) .
    show ?thesis
    proof (cases "c + j < n")
      case False
      then have "c + j = n" using jn by simp
      then have "mark_reserved a n va c s = Some (Inr s')" unfolding run by (subst mark_reserved.simps) simp
      moreover have "(n - c) * 4096 = j * 4096" using split \<open>c + j = n\<close> by simp
      ultimately show ?thesis using mk by simp
    next
      case cn: True
      have "0 < (n - (c + j)) * 4096" using cn by simp
      then have vp: "vpos ?pt (va + of_nat (j * 4096)) = vpos ?pt va + j * 4096"
        using less.prems(4) unfolding split by (intro vpos_add) linarith
      have "(n - c) * 4096 - j * 4096 = (n - (c + j)) * 4096" using split by simp
      then have til: "tiled ?pt (pt_words s') (vpos ?pt (va + of_nat (j * 4096))) ((n - (c + j)) * 4096)"
        using r(5) unfolding vp o(1) by simp
      have w2: "vpos ?pt (va + of_nat (j * 4096)) + (n - (c + j)) * 4096 \<le> vtop ?pt" using less.prems(4) unfolding vp split by simp
      have ok: "mem_ok E a s'" using mk by (simp add: marks_def)
      have lt: "n - (c + j) < n - c" using cn o(2) by simp
      obtain t where t: "mark_reserved a n (va + of_nat (j * 4096)) (c + j) s' = Some (Inr t)"
          "marks E a (vpos ?pt (va + of_nat (j * 4096))) ((n - (c + j)) * 4096) s' t"
        using less.hyps [OF lt ok til jn w2] by (elim exE conjE)
      have "marks E a (vpos ?pt va) ((n - c) * 4096) s t" unfolding split by (rule marks_append [OF mk t(2) [unfolded vp]])
      then show ?thesis using run t(1) by simp
    qed
  qed
qed

section \<open>Allocating and mapping at an address\<close>

lemma low_va_valid: "unat at < 2 ^ 41 \<Longrightarrow> at \<noteq> INVALID_VA"
proof
  assume "unat at < 2 ^ 41" "at = INVALID_VA"
  moreover have "unat INVALID_VA = 2 ^ 64 - 1" by (simp add: INVALID_VA_def MAX_VA_def unsigned_minus_1_eq_mask mask_eq_exp_minus_1)
  ultimately show False by simp
qed

lemma vm_sec: "as_typ a = AS_VM \<Longrightarrow> mem_find_sec E a va = Some 0" "as_typ a = AS_VM \<Longrightarrow>
    rd (as_sections (env_link E) (as_typ a)) SEC_VM_ANY = Inr \<lparr>sec_beg = 0, sec_end = MAX_VA, sec_shared = False\<rparr>"
  by (simp_all add: mem_find_sec_def as_sections_def vm_secs_def MAX_VA_def rd_def SEC_VM_ANY_def)

lemma alloc_vpage_spec:
  assumes "vm_range a at n" "0 < n" "mem_ok E a s" "open_range (as_pt a) (pt_words s) (unat at) (n * 4096)"
    and "can_alloc E (as_colors a) (2 * n) s"
  shows "\<exists>s'. mem_alloc_vpage E a SEC_VM_ANY at n s = Inr (s', at) \<and> mem_ok E a s' \<and> spends E a (2 * n) s s'
    \<and> phys (pt_words s') (as_pt a) = phys (pt_words s) (as_pt a) \<and> tlb_log s' = tlb_log s
    \<and> (\<forall>va. vpos (as_pt a) va < unat at \<or> unat at + n * 4096 \<le> vpos (as_pt a) va \<longrightarrow>
        free_at (pt_words s) (as_pt a) va \<longrightarrow> free_at (pt_words s') (as_pt a) va)"
proof -
  let ?pt = "as_pt a"
  let ?v0 = "\<lparr>vs_lvl = 0, vs_addr = at, vs_count = 0, vs_vpage = INVALID_VA, vs_failed = False\<rparr>"
  have vm: "as_typ a = AS_VM" using assms(1) by (simp add: vm_range_def)
  have lt: "unat at < 2 ^ 41" using vm_range_vpos(1) [OF assms(1,2)] vpos_less [of ?pt at] vtop_le [of ?pt] by simp
  have at: "at \<noteq> INVALID_VA" by (rule low_va_valid [OF lt])
  have al: "IS_ALIGNED at PAGE_SIZE" using assms(1) by (simp add: vm_range_def IS_ALIGNED_def PAGE_SIZE_def unat_mod word_unat_eq_iff)
  have found0: "found E a at n k s ?v0 s" if "can_alloc E (as_colors a) (2 * n + k) s" for k
  proof -
    have "can_alloc E (as_colors a) k s" by (rule can_alloc_mono [OF that]) simp
    then show ?thesis using assms(3) that by (simp add: found_def)
  qed
  have srch: "\<exists>v' s'. vpage_search E a at n MAX_VA ?v0 s = Some (Inr (v', s')) \<and> found E a at n k s v' s' \<and> vs_count v' = n"
    if "can_alloc E (as_colors a) (2 * n + k) s" for k
    by (rule search_spec [OF assms(1) at assms(4) found0 [OF that]])
  obtain v s1 where s1: "vpage_search E a at n MAX_VA ?v0 s = Some (Inr (v, s1))" "found E a at n 0 s v s1" "vs_count v = n"
    using srch [of 0] assms(5) by auto
  have sp: "spends E a (2 * n) s s1"
    unfolding spends_def
  proof (intro allI impI)
    fix k assume "can_alloc E (as_colors a) (2 * n + k) s"
    from srch [OF this] s1(1) show "can_alloc E (as_colors a) k s1" by (auto simp: found_def)
  qed
  have f: "mem_ok E a s1" "\<not> vs_failed v" "vs_vpage v = at" "tiled ?pt (pt_words s1) (unat at) (n * 4096)"
    "phys (pt_words s1) ?pt = phys (pt_words s) ?pt" "keeps_free ?pt (pt_words s) (pt_words s1)" "tlb_log s1 = tlb_log s"
    using s1(2,3) assms(2) by (simp_all add: found_def)
  have vp: "vpos ?pt at = unat at" by (rule vm_range_vpos(1) [OF assms(1,2)])
  have "tiled ?pt (pt_words s1) (vpos ?pt at) ((n - 0) * 4096)" "vpos ?pt at + (n - 0) * 4096 \<le> vtop ?pt"
    using f(4) assms(1) vp by (simp_all add: vm_range_def)
  from mark_reserved_spec [OF f(1) this(1) _ this(2)] obtain s2 where
    s2: "mark_reserved a n at 0 s1 = Some (Inr s2)" "marks E a (unat at) (n * 4096) s1 s2" using vp by auto
  have "spends E a (2 * n) s s2"
    using sp can_alloc_pools [of s2 s1 E "as_colors a"] s2(2) by (auto simp: spends_def marks_def)
  moreover have "mem_alloc_vpage E a SEC_VM_ANY at n s = Inr (s2, at)"
    using s1(1) s2(1) f(2,3) at al vm vm_sec [OF vm]
    by (simp add: mem_alloc_vpage_def ended_def Let_def MAX_VA_def SEC_VM_ANY_def)
  ultimately show ?thesis using s2(2) f(5-7) by (intro exI [of _ s2]) (simp add: marks_def keeps_free_def)
qed

text \<open>What mapping a range has done: exactly the range, and nothing outside it is reserved.\<close>

definition region_mapped :: "mem_env \<Rightarrow> addr_space \<Rightarrow> nat \<Rightarrow> vaddr \<Rightarrow> paddr \<Rightarrow> nat \<Rightarrow> mem_state \<Rightarrow> mem_state \<Rightarrow> bool" where
  "region_mapped E a d at pa k s s' \<longleftrightarrow> mem_ok E a s' \<and> spends E a d s s' \<and> tlb_log s' = tlb_log s
    \<and> block_mapped (as_pt a) (pt_words s) (pt_words s') (unat at) k pa
    \<and> (\<forall>va. vpos (as_pt a) va < unat at \<or> unat at + k \<le> vpos (as_pt a) va \<longrightarrow>
        free_at (pt_words s) (as_pt a) va \<longrightarrow> free_at (pt_words s') (as_pt a) va)"

lemma alloc_map_spec:
  assumes "vm_range a at n" "0 < n" "mem_ok E a s" "open_range (as_pt a) (pt_words s) (unat at) (n * 4096)"
    and "can_alloc E (as_colors a) (4 * n) s" "all_clrs (clr_num E) (pp_colors p)" "unat (pp_base p) mod 4096 = 0"
    and "unat (pp_base p) + n * 4096 \<le> 2 ^ 56" "flags AND 0xf = 0"
  shows "\<exists>s'. mem_alloc_map E a SEC_VM_ANY (Some p) at n flags s = Inr (s', at)
    \<and> region_mapped E a (4 * n) at (pp_base p) (n * 4096) s s'"
proof -
  let ?pt = "as_pt a"
  have four: "4 * n = 2 * n + 2 * n" by simp
  have "can_alloc E (as_colors a) (2 * n) s" by (rule can_alloc_mono [OF assms(5)]) simp
  from alloc_vpage_spec [OF assms(1-4) this] obtain s1 where
    s1: "mem_alloc_vpage E a SEC_VM_ANY at n s = Inr (s1, at)" "mem_ok E a s1" "spends E a (2 * n) s s1"
      "phys (pt_words s1) ?pt = phys (pt_words s) ?pt" "tlb_log s1 = tlb_log s"
      "\<forall>va. vpos ?pt va < unat at \<or> unat at + n * 4096 \<le> vpos ?pt va \<longrightarrow>
        free_at (pt_words s) ?pt va \<longrightarrow> free_at (pt_words s1) ?pt va" by blast
  have vm: "as_typ a = AS_VM" using assms(1) by (simp add: vm_range_def)
  have vp: "vpos ?pt at = unat at" by (rule vm_range_vpos(1) [OF assms(1,2)])
  have lt: "unat at < 2 ^ 41" using vp vpos_less [of ?pt at] vtop_le [of ?pt] by simp
  have at: "at \<noteq> INVALID_VA" by (rule low_va_valid [OF lt])
  have v: "at AND NOT (PAGE_SIZE - 1) = at"
  proof -
    have "at AND mask 12 = 0" using assms(1) by (simp add: vm_range_def word_unat_eq_iff unat_and_mask)
    then show ?thesis unfolding page_mask using word_low_add [of at 12 0] by simp
  qed
  have win: "in_window ?pt at (pp_base p) (n - 0)" using assms(1,8) vp by (simp add: in_window_def vm_range_def)
  have um: "unmapped ?pt (pt_words s1) (vpos ?pt at) ((n - 0) * 4096)"
    using assms(4) s1(4) vp by (simp add: unmapped_def open_range_def)
  have b: "page_bits PTE_PAGE flags" using assms(9) by (simp add: page_bits_def)
  have "unat at mod 4096 = 0" using assms(1) by (simp add: vm_range_def)
  moreover have "can_alloc E (as_colors a) (2 * (n - 0)) s1" using s1(3) assms(5) unfolding spends_def four by simp
  ultimately obtain s2 where s2: "map_loop E a False n flags at (pp_base p) 0 s1 = Some (Inr s2)" "mem_ok E a s2" "tlb_log s2 = tlb_log s1"
      "spends E a (2 * n) s1 s2" "keeps_free ?pt (pt_words s1) (pt_words s2)"
      "block_mapped ?pt (pt_words s1) (pt_words s2) (vpos ?pt at) (n * 4096) (pp_base p)"
    using map_loop_spec [OF s1(2) b _ win _ assms(7) um] by auto
  have run: "mem_map E a at (Some p) n flags s1 = Inr (s2, True)"
    using s2(1) assms(6) vm_sec(1) [OF vm] by (simp add: mem_map_def v ended_def Let_def)
  have "spends E a (4 * n) s s2" unfolding four by (rule spends_trans [OF s1(3) s2(4)])
  moreover have "block_mapped ?pt (pt_words s) (pt_words s2) (unat at) (n * 4096) (pp_base p)"
    using s2(6) s1(4) unfolding vp block_mapped_def by simp
  ultimately have "region_mapped E a (4 * n) at (pp_base p) (n * 4096) s s2"
    using s2(2,3,5) s1(5,6) by (simp add: region_mapped_def keeps_free_def)
  then have "mem_alloc_map E a SEC_VM_ANY (Some p) at n flags s = Inr (s2, at) \<and> region_mapped E a (4 * n) at (pp_base p) (n * 4096) s s2"
    using s1(1) run at by (simp add: mem_alloc_map_def)
  then show ?thesis by (rule exI)
qed

end
