(* ===== verification/Iommu_Dma.thy ===== *)
theory Iommu_Dma
  imports Iommu
begin

text \<open>
  DMA confinement: what the device directory written by \<open>src/arch/riscv/iommu.c\<close> lets a device
  reach, given that the device works off its command queue.
\<close>

section \<open>The device's side\<close>

text \<open>
  Documented behaviour of the hardware: the tail register reads as it was last written, and the
  device consumes commands until the head has caught up with it.
\<close>

fun last_tail :: "mmio list \<Rightarrow> u64" where
  "last_tail [] = 0"
| "last_tail (Mmio_read off # log) = last_tail log"
| "last_tail (Mmio_write off x # log) = (if off = RISCV_IOMMU_REG_CQT then x else last_tail log)"

definition cq_tail :: "mmio list \<Rightarrow> u64" where
  "cq_tail log = last_tail (rev log)"

definition hw_consumes :: "(mmio list \<Rightarrow> u64 \<Rightarrow> u64) \<Rightarrow> bool" where
  "hw_consumes hw \<longleftrightarrow> (\<forall>log. hw log RISCV_IOMMU_REG_CQT = cq_tail log)
    \<and> (\<forall>log. \<exists>n. hw (log @ replicate n (Mmio_read RISCV_IOMMU_REG_CQH)) RISCV_IOMMU_REG_CQH = cq_tail log)"

text \<open>
  How the device translates an access: by the context of the device's identifier in the
  directory; without a valid one it faults. The first stage is off. The device's caches are not
  modelled, so what an invalidation command names, and the GSCID that tags the entries, play no part:
  the directory and the tables are read at every access, as if the invalidations took full effect.
\<close>

definition dma_translate :: "pt_mem \<Rightarrow> riscv_iommu_dc list \<Rightarrow> nat \<Rightarrow> vaddr \<Rightarrow> paddr option res" where
  "dma_translate m dcs d iova =
    (if d < length dcs \<and> tc (dcs ! d) AND RISCV_IOMMU_DC_TC_V \<noteq> 0 then
       if drop_bit RISCV_IOMMU_DC_IOHGATP_MODE_OFF (iohgatp (dcs ! d)) = RISCV_IOMMU_IOHGATP_SV39X4
       then mem_translate m \<lparr>pt_root = push_bit 12 (iohgatp (dcs ! d) AND RISCV_IOMMU_DC_IOHGATP_PPN_MSK),
         pt_dscr = sv39x4_pt_dscr\<rparr> iova
       else Inr (Some iova)
     else Inr None)"

section \<open>Commands\<close>

definition iommu_ready :: "iommu_env \<Rightarrow> iommu_state \<Rightarrow> bool" where
  "iommu_ready E s \<longleftrightarrow> hw_consumes (iommu_hw E) \<and> iommu_base s \<notin> {0, INVALID_VA} \<and> ddt s \<notin> {0, INVALID_VA}
    \<and> cq s \<notin> {0, INVALID_VA} \<and> length (ddt_dcs s) = RISCV_IOMMU_DDT_1LVL_MAX_DEVS \<and> 16 \<le> length (cq_entries s)
    \<and> cq_tail (mmio_log s) < 16"

lemma cq_tail_snoc [simp]:
  "cq_tail (log @ [Mmio_read off]) = cq_tail log"
  "cq_tail (log @ [Mmio_write off x]) = (if off = RISCV_IOMMU_REG_CQT then x else cq_tail log)"
  by (simp_all add: cq_tail_def)

lemma cq_tail_reads [simp]: "cq_tail (log @ replicate n (Mmio_read off)) = cq_tail log"
proof (induction n)
  case (Suc n)
  have "log @ replicate (Suc n) (Mmio_read off) = (log @ replicate n (Mmio_read off)) @ [Mmio_read off]"
    by (simp add: replicate_append_same)
  then show ?case using Suc by (simp only: cq_tail_snoc)
qed simp

lemma wait_ends:
  assumes "iommu_base s \<notin> {0, INVALID_VA}" "P (iommu_hw E (mmio_log s @ replicate n (Mmio_read off)) off)"
  shows "\<exists>k. iommu_wait E off P s = Some (Inr (s\<lparr>mmio_log := mmio_log s @ replicate k (Mmio_read off)\<rparr>))"
  using assms
proof (induction n arbitrary: s)
  case 0
  then have "iommu_wait E off P s = Some (Inr (s\<lparr>mmio_log := mmio_log s @ [Mmio_read off]\<rparr>))"
    by (subst iommu_wait.simps) (simp add: iommu_read64_def)
  then show ?case by (intro exI [of _ 1]) simp
next
  case (Suc n)
  let ?s = "s\<lparr>mmio_log := mmio_log s @ [Mmio_read off]\<rparr>"
  have "\<exists>k. iommu_wait E off P ?s = Some (Inr (?s\<lparr>mmio_log := mmio_log ?s @ replicate k (Mmio_read off)\<rparr>))"
    by (rule Suc.IH) (use Suc.prems in simp_all)
  then obtain k where k: "iommu_wait E off P ?s = Some (Inr (s\<lparr>mmio_log := mmio_log s @ Mmio_read off # replicate k (Mmio_read off)\<rparr>))" by auto
  show ?case
  proof (cases "P (iommu_hw E (mmio_log s) off)")
    case True
    with Suc.prems have "iommu_wait E off P s = Some (Inr ?s)" by (subst iommu_wait.simps) (simp add: iommu_read64_def)
    then show ?thesis by (intro exI [of _ 1]) simp
  next
    case False
    with Suc.prems have "iommu_wait E off P s = iommu_wait E off P ?s" by (subst iommu_wait.simps) (simp add: iommu_read64_def)
    with k show ?thesis by (intro exI [of _ "Suc k"]) simp
  qed
qed

lemma next_tail: "unat ((y :: u32) AND (CQ_NUM - 1)) = unat y mod 16"
proof -
  have "y AND (CQ_NUM - 1) = take_bit 4 y" by (simp add: CQ_NUM_def take_bit_eq_mask mask_eq_exp_minus_1)
  then show ?thesis by (simp add: unsigned_take_bit_eq take_bit_nat_def)
qed

lemma tail_next_less: "ucast ((y :: u32) AND (CQ_NUM - 1)) < (16 :: u64)"
  using next_tail [of y] by (simp add: word_less_nat_alt unat_ucast_32_64)

lemma tail_next_differs: "(ucast x + 1 :: u32) AND (CQ_NUM - 1) \<noteq> ucast x" if "x < 16" for x :: u64
proof
  have x: "unat x < 16" using that by (simp add: word_less_nat_alt)
  then have u: "unat (ucast x :: u32) = unat x" by (simp add: unsigned_ucast_eq take_bit_nat_def)
  then have "unat (ucast x + 1 :: u32) = unat x + 1" using x by (simp add: unat_word_ariths)
  moreover assume "(ucast x + 1 :: u32) AND (CQ_NUM - 1) = ucast x"
  ultimately have "(unat x + 1) mod 16 = unat x" using next_tail [of "ucast x + 1"] u by simp
  with x show False by (cases "unat x = 15") auto
qed

lemma submit_spec:
  assumes "iommu_ready E s"
  shows "\<exists>s'. iommu_submit_cmd E a b s = Inr s' \<and> iommu_ready E s' \<and> ddt_dcs s' = ddt_dcs s
    \<and> iommu_base s' = iommu_base s"
proof -
  let ?t = "cq_tail (mmio_log s)"
  let ?nx = "(ucast ?t + 1 :: u32) AND (CQ_NUM - 1)"
  have base: "iommu_base s \<notin> {0, INVALID_VA}" and t: "?t < 16" and hw: "hw_consumes (iommu_hw E)"
    using assms by (simp_all add: iommu_ready_def)
  let ?s = "s\<lparr>mmio_log := mmio_log s @ [Mmio_read RISCV_IOMMU_REG_CQT]\<rparr>"
  have rt: "iommu_read32 E RISCV_IOMMU_REG_CQT s = Inr (?s, ucast ?t)"
    using base hw by (simp add: iommu_read32_def hw_consumes_def)
  from hw obtain n where "iommu_hw E (mmio_log ?s @ replicate n (Mmio_read RISCV_IOMMU_REG_CQH)) RISCV_IOMMU_REG_CQH = cq_tail (mmio_log ?s)"
    unfolding hw_consumes_def by blast
  then have P: "?nx \<noteq> ucast (iommu_hw E (mmio_log ?s @ replicate n (Mmio_read RISCV_IOMMU_REG_CQH)) RISCV_IOMMU_REG_CQH)"
    using tail_next_differs [OF t] by simp
  have b: "iommu_base ?s \<notin> {0, INVALID_VA}" using base by simp
  from wait_ends [OF b, where P = "\<lambda>x. ?nx \<noteq> ucast x", OF P] obtain k where
    k: "iommu_wait E RISCV_IOMMU_REG_CQH (\<lambda>x. ?nx \<noteq> ucast x) ?s
      = Some (Inr (?s\<lparr>mmio_log := mmio_log ?s @ replicate k (Mmio_read RISCV_IOMMU_REG_CQH)\<rparr>))" by blast
  have ut: "unat (ucast ?t :: u32) < length (cq_entries s)"
    using t assms le_less_trans [OF take_bit_nat_less_eq_self, of "unat ?t" 16 32]
    by (simp add: iommu_ready_def unsigned_ucast_eq word_less_nat_alt)
  have "cq_tail (mmio_log s @ Mmio_read RISCV_IOMMU_REG_CQT # replicate k (Mmio_read RISCV_IOMMU_REG_CQH) @ [Mmio_write RISCV_IOMMU_REG_CQT x]) = x" for x
    using cq_tail_snoc(2) [of "mmio_log s @ Mmio_read RISCV_IOMMU_REG_CQT # replicate k (Mmio_read RISCV_IOMMU_REG_CQH)" RISCV_IOMMU_REG_CQT x] by simp
  then show ?thesis using rt k ut assms tail_next_less
    by (simp add: iommu_submit_cmd_def ended_def iommu_ready_def wr_def iommu_write32_def)
qed

lemma iofence_spec:
  assumes "iommu_ready E s"
  shows "\<exists>s'. iommu_cmd_iofence E s = Inr s' \<and> iommu_ready E s' \<and> ddt_dcs s' = ddt_dcs s"
proof -
  obtain s1 where s1: "iommu_submit_cmd E RISCV_IOMMU_CMD_IOFENCE_OPCODE 0 s = Inr s1" "iommu_ready E s1" "ddt_dcs s1 = ddt_dcs s"
    using submit_spec [OF assms] by blast
  let ?t = "cq_tail (mmio_log s1)"
  let ?s = "s1\<lparr>mmio_log := mmio_log s1 @ [Mmio_read RISCV_IOMMU_REG_CQT]\<rparr>"
  have hw: "hw_consumes (iommu_hw E)" and b: "iommu_base ?s \<notin> {0, INVALID_VA}" using s1(2) by (simp_all add: iommu_ready_def)
  then have rt: "iommu_read32 E RISCV_IOMMU_REG_CQT s1 = Inr (?s, ucast ?t)" by (simp add: iommu_read32_def hw_consumes_def)
  from hw obtain n where "iommu_hw E (mmio_log ?s @ replicate n (Mmio_read RISCV_IOMMU_REG_CQH)) RISCV_IOMMU_REG_CQH = cq_tail (mmio_log ?s)"
    unfolding hw_consumes_def by blast
  then have P: "ucast (iommu_hw E (mmio_log ?s @ replicate n (Mmio_read RISCV_IOMMU_REG_CQH)) RISCV_IOMMU_REG_CQH) = (ucast ?t :: u32)" by simp
  from wait_ends [OF b, where P = "\<lambda>x. ucast x = (ucast ?t :: u32)", OF P] obtain k where
    k: "iommu_wait E RISCV_IOMMU_REG_CQH (\<lambda>x. ucast x = (ucast ?t :: u32)) ?s
      = Some (Inr (?s\<lparr>mmio_log := mmio_log ?s @ replicate k (Mmio_read RISCV_IOMMU_REG_CQH)\<rparr>))" by blast
  have "cq_tail (mmio_log s1 @ Mmio_read RISCV_IOMMU_REG_CQT # replicate k (Mmio_read RISCV_IOMMU_REG_CQH)) = cq_tail (mmio_log s1)"
    using cq_tail_reads [of "mmio_log s1 @ [Mmio_read RISCV_IOMMU_REG_CQT]" k] by simp
  then show ?thesis using s1 rt k by (simp add: iommu_cmd_iofence_def ended_def iommu_ready_def)
qed

lemma add_device_spec:
  assumes "iommu_ready E s" "0 < i" "i < 64"
  shows "\<exists>s'. io_vm_add_device E v i s = Inr (s', True) \<and> iommu_ready E s'
    \<and> ddt_dcs s' = (ddt_dcs s)[unat i := zero_dc\<lparr>iohgatp := vm_iohgatp v, tc := RISCV_IOMMU_DC_TC_V\<rparr>]"
proof -
  let ?dcs = "(ddt_dcs s)[unat i := zero_dc\<lparr>iohgatp := vm_iohgatp v, tc := RISCV_IOMMU_DC_TC_V\<rparr>]"
  have i: "unat i < 64" "i \<noteq> 0" using assms(2,3) by (auto simp: word_less_nat_alt)
  have "iommu_ready E (s\<lparr>ddt_dcs := ?dcs\<rparr>)" using assms(1) by (simp add: iommu_ready_def)
  from submit_spec [OF this] obtain s1 where s1: "iommu_cmd_inval_ddt E i (s\<lparr>ddt_dcs := ?dcs\<rparr>) = Inr s1" "iommu_ready E s1" "ddt_dcs s1 = ?dcs"
    unfolding iommu_cmd_inval_ddt_def by fastforce
  from iofence_spec [OF s1(2)] obtain s2 where s2: "iommu_cmd_iofence E s1 = Inr s2" "iommu_ready E s2" "ddt_dcs s2 = ?dcs" using s1(3) by auto
  have "io_vm_add_device E v i s = Inr (s2, True)"
    using assms(1) i s1(1) s2(1)
    by (simp add: io_vm_add_device_def iommu_arch_vm_add_device_def iommu_ready_def RISCV_IOMMU_DDT_1LVL_MAX_DEVS_def wr_def)
  with s2 show ?thesis by blast
qed

section \<open>Attaching the devices of the VMs\<close>

text \<open>The loop of \<open>vm_init_dev\<close> over the devices of a VM; \<open>attach_all\<close> takes those of all VMs in turn.\<close>

definition attach :: "iommu_env \<Rightarrow> io_vm \<times> u32 \<Rightarrow> iommu_state \<Rightarrow> iommu_state res" where
  "attach E = (\<lambda>(v, i) s. bindR (io_vm_add_device E v i s) (\<lambda>(s, done). if done then Inr s else Inl Panic))"

definition attached :: "(io_vm \<times> u32) list \<Rightarrow> nat \<Rightarrow> io_vm option" where
  "attached xs d = map_option fst (find (\<lambda>(v, i). unat i = d) (rev xs))"

lemma attached_simps: "attached [] d = None" "attached (xs @ [(v, i)]) d = (if unat i = d then Some v else attached xs d)"
  by (simp_all add: attached_def)

definition dc_of :: "io_vm option \<Rightarrow> riscv_iommu_dc" where
  "dc_of v = (case v of Some v \<Rightarrow> zero_dc\<lparr>iohgatp := vm_iohgatp v, tc := RISCV_IOMMU_DC_TC_V\<rparr> | None \<Rightarrow> zero_dc)"

lemma attach_spec:
  assumes "iommu_ready E s" "\<forall>(v, i) \<in> set xs. 0 < i \<and> i < 64"
  shows "\<exists>s'. foldR (attach E) xs s = Inr s' \<and> iommu_ready E s'
    \<and> (\<forall>d < 64. ddt_dcs s' ! d = (case attached xs d of None \<Rightarrow> ddt_dcs s ! d | Some v \<Rightarrow> dc_of (Some v)))"
  using assms(2)
proof (induction xs rule: rev_induct)
  case Nil
  then show ?case using assms(1) by (simp add: attached_simps)
next
  case (snoc x xs)
  obtain v i where x: "x = (v, i)" by (cases x)
  from snoc obtain s1 where s1: "foldR (attach E) xs s = Inr s1" "iommu_ready E s1"
      "\<forall>d < 64. ddt_dcs s1 ! d = (case attached xs d of None \<Rightarrow> ddt_dcs s ! d | Some v \<Rightarrow> dc_of (Some v))" by auto
  obtain s2 where s2: "io_vm_add_device E v i s1 = Inr (s2, True)" "iommu_ready E s2"
      "ddt_dcs s2 = (ddt_dcs s1)[unat i := zero_dc\<lparr>iohgatp := vm_iohgatp v, tc := RISCV_IOMMU_DC_TC_V\<rparr>]"
    using add_device_spec [OF s1(2), of i v] snoc.prems x by auto
  have "\<forall>d < 64. ddt_dcs s2 ! d = (case attached (xs @ [x]) d of None \<Rightarrow> ddt_dcs s ! d | Some v \<Rightarrow> dc_of (Some v))"
    using s1(2,3) s2(3) x by (auto simp: nth_list_update attached_simps dc_of_def iommu_ready_def RISCV_IOMMU_DDT_1LVL_MAX_DEVS_def)
  moreover have "foldR (attach E) (xs @ [x]) s = Inr s2" using s1(1) s2(1) x by (simp add: foldR_snoc attach_def)
  ultimately show ?case using s2(2) by blast
qed

lemma attached_in: "attached xs d = Some v \<Longrightarrow> \<exists>i. (v, i) \<in> set xs \<and> unat i = d"
  by (auto simp: attached_def find_Some_iff) (metis nth_mem set_rev length_rev)

lemma iohgatp_fields:
  assumes "pt_root (as_pt (io_as v)) AND mask 12 = 0" "pt_root (as_pt (io_as v)) < 2 ^ 56"
  shows "drop_bit RISCV_IOMMU_DC_IOHGATP_MODE_OFF (vm_iohgatp v) = RISCV_IOMMU_IOHGATP_SV39X4"
    and "push_bit 12 (vm_iohgatp v AND RISCV_IOMMU_DC_IOHGATP_PPN_MSK) = pt_root (as_pt (io_as v))"
proof -
  let ?r = "pt_root (as_pt (io_as v))"
  have hi: "n < 56" if "bit ?r n" for n
  proof -
    have "take_bit 56 ?r = ?r" using assms(2)
      by (simp add: word_unat_eq_iff unsigned_take_bit_eq take_bit_nat_eq_self_iff word_less_nat_alt)
    with that show ?thesis by (metis bit_take_bit_iff)
  qed
  have lo: "12 \<le> n" if "bit ?r n" for n
  proof (rule ccontr)
    assume "\<not> 12 \<le> n"
    then have "bit (?r AND mask 12) n" using that by (simp add: bit_simps)
    with assms(1) show False by simp
  qed
  have ppn: "RISCV_IOMMU_DC_IOHGATP_PPN_MSK = mask 44" and g: "(0xFFFF :: u64) = mask 16"
    by (simp_all add: RISCV_IOMMU_DC_IOHGATP_PPN_MSK_def mask_eq_exp_minus_1)
  have md: "bit (push_bit 60 (8 :: u64)) n \<longleftrightarrow> n = 63" for n using bit_two_power [of 63 n, where 'a = 64] by simp
  have b: "bit (vm_iohgatp v) n \<longleftrightarrow> n = 63 \<or> (44 \<le> n \<and> n < 60 \<and> bit (of_int (gscid v) :: u64) (n - 44)) \<or> n < 44 \<and> bit ?r (n + 12)" for n
    unfolding vm_iohgatp_def Let_def RISCV_IOMMU_DC_IOHGATP_MODE_OFF_def RISCV_IOMMU_DC_IOHGATP_GSCID_OFF_def
      RISCV_IOMMU_IOHGATP_SV39X4_def ppn g
    by (simp only: bit_or_iff md) (auto simp: bit_push_bit_iff bit_and_iff bit_mask_iff bit_drop_bit_eq ac_simps)
  show "drop_bit RISCV_IOMMU_DC_IOHGATP_MODE_OFF (vm_iohgatp v) = RISCV_IOMMU_IOHGATP_SV39X4"
  proof (rule bit_eqI)
    fix n
    have "bit (8 :: u64) n \<longleftrightarrow> n = 3" using bit_two_power [of 3 n, where 'a = 64] by simp
    then show "bit (drop_bit RISCV_IOMMU_DC_IOHGATP_MODE_OFF (vm_iohgatp v)) n \<longleftrightarrow> bit RISCV_IOMMU_IOHGATP_SV39X4 n"
      using hi [of "n + 72"] by (auto simp: bit_drop_bit_eq b RISCV_IOMMU_DC_IOHGATP_MODE_OFF_def RISCV_IOMMU_IOHGATP_SV39X4_def)
  qed
  show "push_bit 12 (vm_iohgatp v AND RISCV_IOMMU_DC_IOHGATP_PPN_MSK) = ?r"
  proof (rule bit_eqI)
    fix n
    show "bit (push_bit 12 (vm_iohgatp v AND RISCV_IOMMU_DC_IOHGATP_PPN_MSK)) n \<longleftrightarrow> bit ?r n"
      using hi [of n] lo [of n] by (auto simp: bit_push_bit_iff bit_and_iff ppn bit_mask_iff b)
  qed
qed

lemma dma_of_attached:
  assumes "d < length dcs" "dcs ! d = dc_of (Some v)" "pt_dscr (as_pt (io_as v)) = sv39x4_pt_dscr"
    and "pt_root (as_pt (io_as v)) AND mask 12 = 0" "pt_root (as_pt (io_as v)) < 2 ^ 56"
  shows "dma_translate m dcs d iova = mem_translate m (as_pt (io_as v)) iova"
proof -
  have "\<lparr>pt_root = pt_root (as_pt (io_as v)), pt_dscr = sv39x4_pt_dscr\<rparr> = as_pt (io_as v)" using assms(3) by simp
  then show ?thesis using assms(1,2) iohgatp_fields [OF assms(4,5)]
    by (simp add: dma_translate_def dc_of_def RISCV_IOMMU_DC_TC_V_def)
qed

section \<open>What a successful start-up leaves\<close>

lemma wait_frame:
  assumes "iommu_wait E off P s = Some (Inr s')"
  shows "\<exists>k. s' = s\<lparr>mmio_log := mmio_log s @ replicate k (Mmio_read off)\<rparr>"
proof -
  let ?Q = "\<lambda>x (r :: iommu_state res). \<forall>s'. r = Inr s' \<longrightarrow> (\<exists>k. s' = (snd x)\<lparr>mmio_log := mmio_log (snd x) @ replicate k (Mmio_read (snd (fst (fst (x :: ((iommu_env \<times> u64) \<times> (u64 \<Rightarrow> bool)) \<times> iommu_state)))))\<rparr>)"
  have "?Q (((E, off), P), s) (Inr s')"
  proof (rule iommu_wait.raw_induct [where Pa = ?Q, OF _ assms])
    fix rec E off P s r
    assume IH: "\<And>E off P s r. rec E off P s = Some r \<Longrightarrow> ?Q (((E, off), P), s) r"
      and eq: "(case iommu_read64 E off s of Inl e \<Rightarrow> Some (Inl e) | Inr (s, x) \<Rightarrow> if P x then Some (Inr s) else rec E off P s) = Some r"
    show "?Q (((E, off), P), s) r"
    proof (cases "iommu_read64 E off s")
      case (Inl e)
      with eq show ?thesis by auto
    next
      case (Inr a)
      then have a: "a = (s\<lparr>mmio_log := mmio_log s @ [Mmio_read off]\<rparr>, iommu_hw E (mmio_log s) off)"
        by (simp add: iommu_read64_def split: if_splits)
      show ?thesis
      proof (cases "P (snd a)")
        case True
        then show ?thesis using eq Inr a by (auto intro: exI [of _ 1])
      next
        case False
        then have "rec E off P (fst a) = Some r" using eq Inr by (simp add: case_prod_beta)
        note rec = IH [OF this]
        show ?thesis
        proof (intro allI impI)
          fix s'
          assume "r = Inr s'"
          with rec obtain k where "s' = fst a\<lparr>mmio_log := mmio_log (fst a) @ replicate k (Mmio_read off)\<rparr>" by auto
          then show "\<exists>k. s' = snd (((E, off), P), s)\<lparr>mmio_log := mmio_log (snd (((E, off), P), s)) @
              replicate k (Mmio_read (snd (fst (fst (((E, off), P), s)))))\<rparr>"
            using a by (intro exI [of _ "Suc k"]) simp
        qed
      qed
    qed
  qed
  then show ?thesis by simp
qed

text \<open>Everything but the log.\<close>

definition same_tables :: "iommu_state \<Rightarrow> iommu_state \<Rightarrow> bool" where
  "same_tables s s' \<longleftrightarrow> iommu_base s' = iommu_base s \<and> ddt s' = ddt s \<and> ddt_dcs s' = ddt_dcs s \<and> ddt_phys s' = ddt_phys s
    \<and> cq s' = cq s \<and> cq_entries s' = cq_entries s"

lemma same_tables_trans: "same_tables a b \<Longrightarrow> same_tables b c \<Longrightarrow> same_tables a c"
  by (simp add: same_tables_def)

lemma wait_same:
  assumes "ended (iommu_wait E off P s) = Inr s'"
  shows "same_tables s s' \<and> cq_tail (mmio_log s') = cq_tail (mmio_log s)"
proof -
  have "iommu_wait E off P s = Some (Inr s')" using assms by (simp add: ended_def split: option.splits)
  from wait_frame [OF this] show ?thesis by (auto simp: same_tables_def)
qed

lemma write_same:
  assumes "iommu_write32 off x s = Inr s'"
  shows "same_tables s s' \<and> cq_tail (mmio_log s') = (if off = RISCV_IOMMU_REG_CQT then ucast x else cq_tail (mmio_log s))
    \<and> iommu_base s \<notin> {0, INVALID_VA}"
  using assms by (auto simp: iommu_write32_def same_tables_def split: if_splits)

lemma write64_same:
  assumes "iommu_write64 off x s = Inr s'"
  shows "same_tables s s' \<and> cq_tail (mmio_log s') = (if off = RISCV_IOMMU_REG_CQT then x else cq_tail (mmio_log s))"
  using assms by (auto simp: iommu_write64_def same_tables_def split: if_splits)

lemma enable_same:
  assumes "iommu_enable E s = Inr s'"
  shows "same_tables s s' \<and> cq_tail (mmio_log s') = cq_tail (mmio_log s) \<and> iommu_base s \<notin> {0, INVALID_VA}"
proof -
  obtain a b c d e where "iommu_write32 RISCV_IOMMU_REG_CQCSR (ucast RISCV_IOMMU_CQCSR_CQEN) s = Inr a"
    "ended (iommu_wait E RISCV_IOMMU_REG_CQCSR (\<lambda>x. (ucast x :: u32) AND ucast RISCV_IOMMU_CQCSR_CQON \<noteq> 0) a) = Inr b"
    "iommu_write32 RISCV_IOMMU_REG_FQCSR (ucast RISCV_IOMMU_FQCSR_FQEN) b = Inr c"
    "ended (iommu_wait E RISCV_IOMMU_REG_FQCSR (\<lambda>x. (ucast x :: u32) AND ucast RISCV_IOMMU_FQCSR_FQON \<noteq> 0) c) = Inr d"
    "iommu_write64 RISCV_IOMMU_REG_DDTP (push_bit RISCV_IOMMU_DDTP_PPN_OFF (drop_bit 12 (ddt_phys d)) OR RISCV_IOMMU_DDTP_MODE_1LVL) d = Inr e"
    "ended (iommu_wait E RISCV_IOMMU_REG_DDTP (\<lambda>x. x AND RISCV_IOMMU_DDTP_BUSY = 0) e) = Inr s'"
    using assms unfolding iommu_enable_def bindR_eq_Inr by blast
  note st = write_same [OF this(1)] wait_same [OF this(2)] write_same [OF this(3)] wait_same [OF this(4)] write64_same [OF this(5)] wait_same [OF this(6)]
  have "RISCV_IOMMU_REG_CQCSR \<noteq> RISCV_IOMMU_REG_CQT" "RISCV_IOMMU_REG_FQCSR \<noteq> RISCV_IOMMU_REG_CQT" "RISCV_IOMMU_REG_DDTP \<noteq> RISCV_IOMMU_REG_CQT"
    by (simp_all add: RISCV_IOMMU_REG_CQCSR_def RISCV_IOMMU_REG_FQCSR_def RISCV_IOMMU_REG_DDTP_def RISCV_IOMMU_REG_CQT_def)
  with st show ?thesis by (simp add: same_tables_def)
qed

lemma clear_ddt:
  assumes "length xs = 64"
  shows "foldR (\<lambda>i dcs. wr dcs i zero_dc) [0..<64] xs = Inr (replicate 64 zero_dc)"
proof -
  have "foldR (\<lambda>i dcs. wr dcs i zero_dc) [0..<n] xs = Inr (replicate n zero_dc @ drop n xs)" if "n \<le> 64" for n
    using that
  proof (induction n)
    case (Suc n)
    then have "drop n xs = xs ! n # drop (Suc n) xs" using assms by (simp add: Cons_nth_drop_Suc)
    with Suc assms show ?case by (simp add: foldR_upt_Suc wr_def list_update_append replicate_append_same [symmetric] del: upt_Suc)
  qed simp
  from this [of 64] assms show ?thesis by simp
qed

lemma init_ready:
  assumes "iommu_arch_init E True s = Inr (s', True)" "plat_iommu_base E \<noteq> 0"
    and "hw_consumes (iommu_hw E)" "length (stale_dcs E) = 64" "16 \<le> length (stale_cq E)" "cq s' \<noteq> INVALID_VA"
  shows "iommu_ready E s' \<and> ddt_dcs s' = replicate 64 zero_dc"
proof -
  obtain s1 s2 s3 s4 where ddt: "init_ddt E s1 = Inr (s2, True)" and cq: "init_cq E s2 = Inr (s3, True)"
    and fq: "init_fq E s3 = Inr (s4, True)" and en: "iommu_enable E s4 = Inr s'"
    using assms(1,2) by (auto simp: iommu_arch_init_def Let_def split: if_splits)
  have d: "ddt_dcs s2 = replicate 64 zero_dc" "ddt s2 \<notin> {0, INVALID_VA}"
    using ddt clear_ddt [OF assms(4)] by (auto simp: init_ddt_def iommu_page_def Let_def RISCV_IOMMU_DDT_1LVL_MAX_DEVS_def split: if_splits)
  have c: "ddt_dcs s3 = ddt_dcs s2" "ddt s3 = ddt s2" "cq_entries s3 = stale_cq E" "cq s3 \<noteq> 0" "cq_tail (mmio_log s3) = 0"
    using cq by (auto simp: init_cq_def iommu_page_def Let_def iommu_write64_def iommu_write32_def cq_tail_def split: if_splits)
  have "cq_tail (mmio_log s4) = cq_tail (mmio_log s3)" "same_tables s3 s4"
    using fq by (auto simp: init_fq_def iommu_page_def Let_def iommu_write64_def iommu_write32_def same_tables_def RISCV_IOMMU_REG_FQB_def
      RISCV_IOMMU_REG_CQT_def RISCV_IOMMU_REG_FQH_def RISCV_IOMMU_REG_FQT_def cq_tail_def last_tail.simps split: if_splits)
  moreover note enable_same [OF en]
  ultimately show ?thesis using d c assms(3-6) by (simp add: iommu_ready_def same_tables_def RISCV_IOMMU_DDT_1LVL_MAX_DEVS_def)
qed

section \<open>Properties\<close>


definition demo_hw :: "mmio list \<Rightarrow> u64 \<Rightarrow> u64" where
  "demo_hw log off = (if off = RISCV_IOMMU_REG_CQT \<or> off = RISCV_IOMMU_REG_CQH then cq_tail log else 0)"

definition demo_io_vm :: "nat \<Rightarrow> u64 \<Rightarrow> io_vm" where
  "demo_io_vm k root = \<lparr>io_vm_id = k, gscid = int k,
    io_as = \<lparr>as_pt = \<lparr>pt_root = root, pt_dscr = sv39x4_pt_dscr\<rparr>, as_typ = AS_VM, as_colors = 0, as_id = k\<rparr>\<rparr>"

definition demo_iommu_env :: "mem_env \<Rightarrow> iommu_env" where
  "demo_iommu_env M = \<lparr>iommu_hw = demo_hw, plat_iommu_base = 0x3010000, iommu_mm = M, stale_dcs = [], stale_cq = [], stale_fq = []\<rparr>"

definition demo_iommu :: "mem_state \<Rightarrow> iommu_state" where
  "demo_iommu m = \<lparr>iommu_base = 0x1000, ddt = 0x2000, ddt_dcs = replicate 64 zero_dc, ddt_phys = 0x80002000,
    cq = 0x3000, cq_entries = replicate 256 (0, 0), cq_phys = 0x80003000, fq = 0x4000, fq_entries = [], fq_phys = 0,
    mmio_log = [], iommu_mem = m\<rparr>"


text \<open>
  A failed mapping of the IOMMU's registers is not noticed: \<open>mem_alloc_map_dev\<close> returns
  \<open>INVALID_VA\<close>, the driver tests for 0, and start-up faults instead of going on without the IOMMU.
\<close>

theorem iommu_map_failure_faults:
  assumes "plat_iommu_base E \<noteq> 0"
    and "mem_alloc_map_dev (iommu_mm E) (cpu_as (iommu_mm E)) SEC_HYP_GLOBAL INVALID_VA (plat_iommu_base E)
      (unat (NUM_PAGES PAGE_SIZE)) (iommu_mem s) = Inr (m, INVALID_VA)"
  shows "vmm_io_init E True s = Inl Null_deref"
  using assms by (simp add: vmm_io_init_def io_init_def iommu_arch_init_def INVALID_VA_def MAX_VA_def iommu_write64_def)

text \<open>A hypervisor address space whose global section is empty.\<close>

definition demo_full_mm :: mem_env where
  "demo_full_mm = \<lparr>env_link = \<lparr>dmem_beg = 0x1000, cpu_private_beg = 0x1000, cpu_private_end = 0x2000,
      image_start = 0, image_end = 0, vm_beg = 0, vm_end = 0\<rparr>, clr_num = 1, clr_size = 4096,
      cpu_as = \<lparr>as_pt = \<lparr>pt_root = 0x80000000, pt_dscr = sv39_pt_dscr\<rparr>, as_typ = AS_HYP, as_colors = 0, as_id = 0\<rparr>\<rparr>"

theorem iommu_map_failure_faults_witness:
  "vmm_io_init (demo_iommu_env demo_full_mm) True (demo_iommu \<lparr>pt_words = (\<lambda>_. 0), page_pools = [], tlb_log = []\<rparr>) = Inl Null_deref"
proof (rule iommu_map_failure_faults)
  show "plat_iommu_base (demo_iommu_env demo_full_mm) \<noteq> 0" by (simp add: demo_iommu_env_def)
  show "mem_alloc_map_dev (iommu_mm (demo_iommu_env demo_full_mm)) (cpu_as (iommu_mm (demo_iommu_env demo_full_mm)))
     SEC_HYP_GLOBAL INVALID_VA (plat_iommu_base (demo_iommu_env demo_full_mm)) (unat (NUM_PAGES PAGE_SIZE))
     (iommu_mem (demo_iommu \<lparr>pt_words = (\<lambda>_. 0), page_pools = [], tlb_log = []\<rparr>))
    = Inr (\<lparr>pt_words = (\<lambda>_. 0), page_pools = [], tlb_log = []\<rparr>, INVALID_VA)"
    by (simp add: mem_alloc_map_dev_def mem_alloc_vpage_def demo_iommu_env_def demo_iommu_def demo_full_mm_def as_sections_def
        hyp_secs_def SEC_HYP_GLOBAL_def INVALID_VA_def MAX_VA_def)
qed

end
