(* ===== verification/Vm_Space.thy ===== *)
theory Vm_Space
  imports Vm_Init Mem_Vpage Iommu_Dma
begin

text \<open>
  What a VM can address once \<open>vm_init\<close> has set up its memory regions, devices and shared memories:
  exactly the physical ranges its configuration names, at the addresses it names.
\<close>

section \<open>Ranges\<close>

text \<open>A range is its virtual address, its physical address and its number of pages.\<close>

type_synonym range = "vaddr \<times> paddr \<times> nat"

definition covers :: "range \<Rightarrow> nat \<Rightarrow> bool" where
  "covers r x \<longleftrightarrow> unat (fst r) \<le> x \<and> x < unat (fst r) + snd (snd r) * 4096"

definition range_phys :: "range list \<Rightarrow> nat \<Rightarrow> paddr option" where
  "range_phys rs x = map_option (\<lambda>r. fst (snd r) + of_nat (x - unat (fst r))) (find (\<lambda>r. covers r x) rs)"

definition range_ok :: "addr_space \<Rightarrow> range \<Rightarrow> bool" where
  "range_ok a r \<longleftrightarrow> vm_range a (fst r) (snd (snd r)) \<and> 0 < snd (snd r) \<and> unat (fst (snd r)) mod 4096 = 0
    \<and> unat (fst (snd r)) + snd (snd r) * 4096 \<le> 2 ^ 56"

definition ranges_apart :: "range \<Rightarrow> range \<Rightarrow> bool" where
  "ranges_apart r r' \<longleftrightarrow> unat (fst r) + snd (snd r) * 4096 \<le> unat (fst r') \<or> unat (fst r') + snd (snd r') * 4096 \<le> unat (fst r)"

lemma apart_covers: "ranges_apart r r' \<Longrightarrow> covers r x \<Longrightarrow> \<not> covers r' x"
  by (auto simp: ranges_apart_def covers_def)

lemma apart_sym: "ranges_apart r r' \<longleftrightarrow> ranges_apart r' r"
  by (auto simp: ranges_apart_def)

definition range_pages :: "range list \<Rightarrow> nat" where
  "range_pages rs = sum_list (List.map (\<lambda>r. snd (snd r)) rs)"

text \<open>The address space holds exactly the ranges, and nothing outside them is reserved.\<close>

definition space :: "mem_env \<Rightarrow> addr_space \<Rightarrow> range list \<Rightarrow> mem_state \<Rightarrow> bool" where
  "space E a rs s \<longleftrightarrow> mem_ok E a s \<and> (\<forall>va. phys (pt_words s) (as_pt a) va = range_phys rs (vpos (as_pt a) va)
    \<and> ((\<forall>r \<in> set rs. \<not> covers r (vpos (as_pt a) va)) \<longrightarrow> free_at (pt_words s) (as_pt a) va))"

lemma range_phys_None: "(\<forall>r \<in> set rs. \<not> covers r x) \<Longrightarrow> range_phys rs x = None"
  by (simp add: range_phys_def find_None_iff)

lemma range_phys_snoc:
  "range_phys (rs @ [r]) x = (if \<exists>r \<in> set rs. covers r x then range_phys rs x
    else if covers r x then Some (fst (snd r) + of_nat (x - unat (fst r))) else None)"
  by (induction rs) (auto simp: range_phys_def)

lemma space_add:
  assumes "space E a rs s" "range_ok a (at, pa, k)" "\<forall>r \<in> set rs. ranges_apart r (at, pa, k)"
    and "can_alloc E (as_colors a) (4 * k + j) s" "pp_base p = pa" "all_clrs (clr_num E) (pp_colors p)" "flags AND 0xf = 0"
  shows "\<exists>s'. mem_alloc_map E a SEC_VM_ANY (Some p) at k flags s = Inr (s', at) \<and> space E a (rs @ [(at, pa, k)]) s'
    \<and> can_alloc E (as_colors a) j s'"
proof -
  let ?pt = "as_pt a" and ?r = "(at, pa, k)"
  have ok: "mem_ok E a s" and ph: "\<And>va. phys (pt_words s) ?pt va = range_phys rs (vpos ?pt va)"
    and fr: "\<And>va. (\<forall>r \<in> set rs. \<not> covers r (vpos ?pt va)) \<Longrightarrow> free_at (pt_words s) ?pt va"
    using assms(1) unfolding space_def by blast+
  have r: "vm_range a at k" "0 < k" "unat (pp_base p) mod 4096 = 0" "unat (pp_base p) + k * 4096 \<le> 2 ^ 56"
    using assms(2,5) by (simp_all add: range_ok_def)
  have out: "\<forall>r \<in> set rs. \<not> covers r x" if "covers ?r x" for x using apart_covers assms(3) that by blast
  have op: "open_range ?pt (pt_words s) (unat at) (k * 4096)"
    unfolding open_range_def
  proof (intro allI impI)
    fix va assume "unat at \<le> vpos ?pt va" "vpos ?pt va < unat at + k * 4096"
    then have "covers ?r (vpos ?pt va)" by (simp add: covers_def)
    from out [OF this] show "phys (pt_words s) ?pt va = None \<and> free_at (pt_words s) ?pt va"
      using fr ph range_phys_None by simp
  qed
  have "can_alloc E (as_colors a) (4 * k) s" by (rule can_alloc_mono [OF assms(4)]) simp
  from alloc_map_spec [OF r(1,2) ok op this assms(6) r(3,4) assms(7)] obtain s' where
    s': "mem_alloc_map E a SEC_VM_ANY (Some p) at k flags s = Inr (s', at)"
      "region_mapped E a (4 * k) at (pp_base p) (k * 4096) s s'" by blast
  have m: "mem_ok E a s'" "spends E a (4 * k) s s'"
    "\<And>va. phys (pt_words s') ?pt va = (if covers ?r (vpos ?pt va) then Some (pa + of_nat (vpos ?pt va - unat at)) else phys (pt_words s) ?pt va)"
    "\<And>va. \<not> covers ?r (vpos ?pt va) \<Longrightarrow> free_at (pt_words s) ?pt va \<Longrightarrow> free_at (pt_words s') ?pt va"
    using s'(2) assms(5) by (auto simp: region_mapped_def block_mapped_def covers_def)
  have "phys (pt_words s') ?pt va = range_phys (rs @ [?r]) (vpos ?pt va)" for va
    using m(3) [of va] ph [of va] out [of "vpos ?pt va"] range_phys_None [of rs "vpos ?pt va"]
    unfolding range_phys_snoc by auto
  moreover have "free_at (pt_words s') ?pt va" if "\<forall>r \<in> set (rs @ [?r]). \<not> covers r (vpos ?pt va)" for va
    using m(4) [of va] fr [of va] that by simp
  ultimately have "space E a (rs @ [?r]) s'" using m(1) by (simp add: space_def)
  moreover have "can_alloc E (as_colors a) j s'" using m(2) assms(4) by (simp add: spends_def)
  ultimately show ?thesis using s'(1) by blast
qed

section \<open>Regions\<close>

definition region_range :: "vm_mem_region \<Rightarrow> range" where
  "region_range reg = (rgn_base reg, rgn_phys reg, unat (NUM_PAGES (rgn_size reg)))"

lemma vm_region_spec:
  assumes "space E (bt_as b) rs (bt_mem b)" "rgn_place_phys reg" "range_ok (bt_as b) (region_range reg)"
    and "\<forall>r \<in> set rs. ranges_apart r (region_range reg)" "all_clrs (clr_num E) (rgn_colors reg)"
    and "can_alloc E (as_colors (bt_as b)) (4 * snd (snd (region_range reg)) + j) (bt_mem b)"
  shows "\<exists>s. vm_map_mem_region E reg b = Inr (set_mem s b) \<and> space E (bt_as b) (rs @ [region_range reg]) s
    \<and> can_alloc E (as_colors (bt_as b)) j s"
proof -
  let ?k = "unat (NUM_PAGES (rgn_size reg))"
  let ?p = "(mem_ppages_get (rgn_phys reg) ?k)\<lparr>pp_colors := rgn_colors reg\<rparr>"
  have "PTE_VM_FLAGS AND 0xf = 0" by (simp add: PTE_VM_FLAGS_def)
  from space_add [OF assms(1,3,4,6) [unfolded region_range_def snd_conv], of ?p, OF _ _ this]
  obtain s where s: "mem_alloc_map E (bt_as b) SEC_VM_ANY (Some ?p) (rgn_base reg) ?k PTE_VM_FLAGS (bt_mem b) = Inr (s, rgn_base reg)"
      "space E (bt_as b) (rs @ [region_range reg]) s" "can_alloc E (as_colors (bt_as b)) j s"
    using assms(5) by (auto simp: mem_ppages_get_def region_range_def)
  have "vm_map_mem_region E reg b = Inr (set_mem s b)"
    using s(1) assms(2) by (simp add: vm_map_mem_region_def Let_def)
  then show ?thesis using s(2,3) by blast
qed

lemma set_mem_simps [simp]:
  "bt_mem (set_mem s b) = s" "bt_io (set_mem s b) = bt_io b" "bt_ints (set_mem s b) = bt_ints b" "bt_vm (set_mem s b) = bt_vm b"
  "bt_vplic (set_mem s b) = bt_vplic b" "bt_shmems (set_mem s b) = bt_shmems b"
  "bt_hgatp (set_mem s b) = bt_hgatp b"
  "set_mem s (set_mem s' b) = set_mem s b" "set_mem (bt_mem b) b = b"
  by (simp_all add: set_mem_def)

lemma set_mem_iommu [simp]: "bt_iommu (set_mem s b) = (bt_iommu b)\<lparr>iommu_mem := s\<rparr>"
  by (simp add: set_mem_def)

text \<open>A region of the configuration that can be placed as it is.\<close>

definition placed :: "mem_env \<Rightarrow> vm_image \<Rightarrow> vm_mem_region \<Rightarrow> bool" where
  "placed E img reg \<longleftrightarrow> rgn_place_phys reg \<and> all_clrs (clr_num E) (rgn_colors reg)
    \<and> (range_in_range (base_addr img) (img_size img) (rgn_base reg) (rgn_size reg) \<longrightarrow> base_addr img = load_addr img)"

lemma apart_snoc: "sorted_wrt ranges_apart (rs @ r # rs') \<Longrightarrow> sorted_wrt ranges_apart ((rs @ [r]) @ rs') \<and> (\<forall>r' \<in> set rs. ranges_apart r' r)"
  by (simp add: sorted_wrt_append)

lemma range_pages_Cons [simp]: "range_pages [] = 0" "range_pages (r # rs) = snd (snd r) + range_pages rs"
  and range_pages_append [simp]: "range_pages (rs @ rs') = range_pages rs + range_pages rs'"
  by (simp_all add: range_pages_def)

lemma regions_spec:
  assumes "space E (bt_as b) rs (bt_mem b)" "\<forall>reg \<in> set regs. placed E img reg \<and> range_ok (bt_as b) (region_range reg)"
    and "sorted_wrt ranges_apart (rs @ List.map region_range regs)"
    and "can_alloc E (as_colors (bt_as b)) (4 * range_pages (List.map region_range regs) + j) (bt_mem b)"
  shows "\<exists>s. foldR (\<lambda>reg b. if range_in_range (base_addr img) (img_size img) (rgn_base reg) (rgn_size reg)
        then vm_map_img_rgn E img reg b else vm_map_mem_region E reg b) regs b = Inr (set_mem s b)
    \<and> space E (bt_as b) (rs @ List.map region_range regs) s \<and> can_alloc E (as_colors (bt_as b)) j s"
  using assms
proof (induction regs arbitrary: rs b)
  case Nil
  then show ?case by (intro exI [of _ "bt_mem b"]) simp
next
  case (Cons reg regs)
  have ap: "sorted_wrt ranges_apart ((rs @ [region_range reg]) @ List.map region_range regs)"
      "\<forall>r \<in> set rs. ranges_apart r (region_range reg)"
    using apart_snoc [OF Cons.prems(3) [unfolded list.map]] by blast+
  have pl: "rgn_place_phys reg" "all_clrs (clr_num E) (rgn_colors reg)" "range_ok (bt_as b) (region_range reg)"
    using Cons.prems(2) by (simp_all add: placed_def)
  have "4 * range_pages (List.map region_range (reg # regs)) + j
      = 4 * snd (snd (region_range reg)) + (4 * range_pages (List.map region_range regs) + j)" by simp
  note ca = Cons.prems(4) [unfolded this]
  obtain s where s: "vm_map_mem_region E reg b = Inr (set_mem s b)" "space E (bt_as b) (rs @ [region_range reg]) s"
      "can_alloc E (as_colors (bt_as b)) (4 * range_pages (List.map region_range regs) + j) s"
    using vm_region_spec [OF Cons.prems(1) pl(1,3) ap(2) pl(2) ca] by blast
  have st: "(if range_in_range (base_addr img) (img_size img) (rgn_base reg) (rgn_size reg)
      then vm_map_img_rgn E img reg b else vm_map_mem_region E reg b) = Inr (set_mem s b)"
    using s(1) Cons.prems(2) by (simp add: vm_map_img_rgn_def install_image_def placed_def)
  obtain s' where "foldR (\<lambda>reg b. if range_in_range (base_addr img) (img_size img) (rgn_base reg) (rgn_size reg)
        then vm_map_img_rgn E img reg b else vm_map_mem_region E reg b) regs (set_mem s b) = Inr (set_mem s' b)"
      "space E (bt_as b) (rs @ List.map region_range (reg # regs)) s'" "can_alloc E (as_colors (bt_as b)) j s'"
    using Cons.IH [of "set_mem s b" "rs @ [region_range reg]"] s(2,3) ap(1) Cons.prems(2) by (auto simp: append_assoc)
  then show ?case unfolding foldR.simps st bindR_Inr by blast
qed

section \<open>Devices\<close>

definition dev_range :: "vm_dev_region \<Rightarrow> range" where
  "dev_range dev = (dev_va dev, dev_pa dev, unat (ALIGN (dev_size dev) PAGE_SIZE div PAGE_SIZE))"

definition dev_ranges :: "vm_dev_region list \<Rightarrow> range list" where
  "dev_ranges devs = List.map dev_range (List.filter (\<lambda>dev. dev_va dev \<noteq> INVALID_VA) devs)"

definition dev_irqs :: "vm_dev_region list \<Rightarrow> irqid list" where
  "dev_irqs devs = concat (List.map (\<lambda>dev. List.map irq_id (dev_interrupts dev)) devs)"

lemma alloc_map_dev_eq:
  assumes "as_typ a = AS_VM"
  shows "mem_alloc_map_dev E a section at pa k s = mem_alloc_map E a section (Some (mem_ppages_get pa k)) at k PTE_VM_FLAGS s"
  using assms by (simp add: mem_alloc_map_dev_def mem_alloc_map_def)

lemma init_dev_spec:
  assumes "space E (bt_as b) rs (bt_mem b)" "as_typ (bt_as b) = AS_VM" "\<forall>r \<in> set (dev_ranges [dev]). range_ok (bt_as b) r"
    and "sorted_wrt ranges_apart (rs @ dev_ranges [dev])"
    and "can_alloc E (as_colors (bt_as b)) (4 * range_pages (dev_ranges [dev]) + j) (bt_mem b)"
    and "foldR interrupts_vm_assign (List.map irq_id (dev_interrupts dev)) (bt_ints b, bt_vm b, bt_vplic b) = Inr (t, v, p)"
  shows "\<exists>s. init_dev E dev b = Inr (set_mem s (b\<lparr>bt_ints := t, bt_vm := v, bt_vplic := p\<rparr>))
    \<and> space E (bt_as b) (rs @ dev_ranges [dev]) s \<and> can_alloc E (as_colors (bt_as b)) j s"
proof (cases "dev_va dev = INVALID_VA")
  case True
  then show ?thesis using assms(1,5,6)
    by (intro exI [of _ "bt_mem b"]) (simp add: init_dev_def dev_ranges_def assign_irqs_def set_mem_def)
next
  case False
  let ?k = "unat (ALIGN (dev_size dev) PAGE_SIZE div PAGE_SIZE)"
  have r: "dev_ranges [dev] = [(dev_va dev, dev_pa dev, ?k)]" using False by (simp add: dev_ranges_def dev_range_def)
  have fl: "PTE_VM_FLAGS AND 0xf = 0" by (simp add: PTE_VM_FLAGS_def)
  have "all_clrs (clr_num E) (pp_colors (mem_ppages_get (dev_pa dev) ?k))" by (simp add: mem_ppages_get_def all_clrs_def)
  from space_add [OF assms(1) _ _ _ _ this fl, of "dev_va dev" "dev_pa dev" ?k j] obtain s where
    s: "mem_alloc_map E (bt_as b) SEC_VM_ANY (Some (mem_ppages_get (dev_pa dev) ?k)) (dev_va dev) ?k PTE_VM_FLAGS (bt_mem b)
        = Inr (s, dev_va dev)" "space E (bt_as b) (rs @ dev_ranges [dev]) s" "can_alloc E (as_colors (bt_as b)) j s"
    using assms(3-5) by (auto simp: r sorted_wrt_append mem_ppages_get_def)
  then show ?thesis using assms(2,6) False
    by (intro exI [of _ s]) (simp add: init_dev_def alloc_map_dev_eq assign_irqs_def set_mem_def)
qed

lemma dev_ranges_simps: "dev_ranges [] = []" "dev_ranges (dev # devs) = dev_ranges [dev] @ dev_ranges devs"
  and dev_irqs_simps: "dev_irqs [] = []" "dev_irqs (dev # devs) = List.map irq_id (dev_interrupts dev) @ dev_irqs devs"
  by (simp_all add: dev_ranges_def dev_irqs_def)

lemma devs_spec:
  assumes "space E (bt_as b) rs (bt_mem b)" "as_typ (bt_as b) = AS_VM" "\<forall>r \<in> set (dev_ranges devs). range_ok (bt_as b) r"
    and "sorted_wrt ranges_apart (rs @ dev_ranges devs)"
    and "can_alloc E (as_colors (bt_as b)) (4 * range_pages (dev_ranges devs) + j) (bt_mem b)"
    and "foldR interrupts_vm_assign (dev_irqs devs) (bt_ints b, bt_vm b, bt_vplic b) = Inr (t, v, p)"
  shows "\<exists>s. foldR (init_dev E) devs b = Inr (set_mem s (b\<lparr>bt_ints := t, bt_vm := v, bt_vplic := p\<rparr>))
    \<and> space E (bt_as b) (rs @ dev_ranges devs) s \<and> can_alloc E (as_colors (bt_as b)) j s"
  using assms
proof (induction devs arbitrary: rs b)
  case Nil
  then show ?case by (intro exI [of _ "bt_mem b"]) (simp add: dev_ranges_simps dev_irqs_simps set_mem_def)
next
  case (Cons dev devs)
  have r: "dev_ranges (dev # devs) = dev_ranges [dev] @ dev_ranges devs" by (rule dev_ranges_simps)
  obtain t1 v1 p1 where i1: "foldR interrupts_vm_assign (List.map irq_id (dev_interrupts dev)) (bt_ints b, bt_vm b, bt_vplic b) = Inr (t1, v1, p1)"
    and i2: "foldR interrupts_vm_assign (dev_irqs devs) (t1, v1, p1) = Inr (t, v, p)"
    using Cons.prems(6) by (auto simp: dev_irqs_simps foldR_append)
  have n: "4 * range_pages (dev_ranges (dev # devs)) + j = 4 * range_pages (dev_ranges [dev]) + (4 * range_pages (dev_ranges devs) + j)"
    unfolding r by simp
  have ok: "\<forall>r \<in> set (dev_ranges [dev]). range_ok (bt_as b) r" "\<forall>r \<in> set (dev_ranges devs). range_ok (bt_as b) r"
    using Cons.prems(3) unfolding r by auto
  have ap: "sorted_wrt ranges_apart (rs @ dev_ranges [dev])" "sorted_wrt ranges_apart ((rs @ dev_ranges [dev]) @ dev_ranges devs)"
    using Cons.prems(4) unfolding r by (simp_all add: sorted_wrt_append)
  from init_dev_spec [OF Cons.prems(1,2) ok(1) ap(1) Cons.prems(5) [unfolded n] i1] obtain s where
    s: "init_dev E dev b = Inr (set_mem s (b\<lparr>bt_ints := t1, bt_vm := v1, bt_vplic := p1\<rparr>))"
      "space E (bt_as b) (rs @ dev_ranges [dev]) s" "can_alloc E (as_colors (bt_as b)) (4 * range_pages (dev_ranges devs) + j) s" by blast
  let ?b = "set_mem s (b\<lparr>bt_ints := t1, bt_vm := v1, bt_vplic := p1\<rparr>)"
  have b: "bt_io ?b = bt_io b" "bt_mem ?b = s" "bt_ints ?b = t1" "bt_vm ?b = v1" "bt_vplic ?b = p1" by (simp_all add: set_mem_def)
  obtain s' where s': "foldR (init_dev E) devs ?b = Inr (set_mem s' (?b\<lparr>bt_ints := t, bt_vm := v, bt_vplic := p\<rparr>))"
      "space E (bt_as b) ((rs @ dev_ranges [dev]) @ dev_ranges devs) s'" "can_alloc E (as_colors (bt_as b)) j s'"
    using Cons.IH [of ?b "rs @ dev_ranges [dev]", unfolded b, OF s(2) Cons.prems(2) ok(2) ap(2) s(3) i2] by blast
  have "set_mem s' (?b\<lparr>bt_ints := t, bt_vm := v, bt_vplic := p\<rparr>) = set_mem s' (b\<lparr>bt_ints := t, bt_vm := v, bt_vplic := p\<rparr>)"
    by (simp add: set_mem_def)
  then show ?case using s(1) s' unfolding r by (intro exI [of _ s']) simp
qed

text \<open>The loop that attaches the devices to the IOMMU.\<close>

definition dma_devs :: "io_vm \<Rightarrow> vm_dev_region list \<Rightarrow> (io_vm \<times> u32) list" where
  "dma_devs io devs = List.map (\<lambda>dev. (io, vm_dev_region.dev_id dev)) (List.filter (\<lambda>dev. vm_dev_region.dev_id dev \<noteq> 0) devs)"

lemma init_devs_io:
  "foldR (init_dev_io E) devs b = bindR (foldR (attach E) (dma_devs (bt_io b) devs) (bt_iommu b)) (\<lambda>i. Inr (b\<lparr>bt_iommu := i\<rparr>))"
proof (induction devs arbitrary: b)
  case Nil
  then show ?case by (simp add: dma_devs_def)
next
  case (Cons dev devs)
  show ?case
  proof (cases "vm_dev_region.dev_id dev = 0")
    case True
    then show ?thesis using Cons by (simp add: dma_devs_def init_dev_io_def)
  next
    case False
    show ?thesis
    proof (cases "io_vm_add_device E (bt_io b) (vm_dev_region.dev_id dev) (bt_iommu b)")
      case (Inl e)
      then show ?thesis using False by (simp add: dma_devs_def init_dev_io_def attach_def)
    next
      case (Inr x)
      then show ?thesis using False Cons [of "b\<lparr>bt_iommu := fst x\<rparr>"]
        by (cases x) (simp add: dma_devs_def init_dev_io_def attach_def)
    qed
  qed
qed

lemma submit_mem: "iommu_submit_cmd E x y s = Inr s' \<Longrightarrow> iommu_mem s' = iommu_mem s"
  by (auto simp: iommu_submit_cmd_def iommu_read32_def iommu_write32_def ended_def Let_def dest!: wait_frame split: if_splits option.splits)

lemma add_device_mem: "io_vm_add_device E v i s = Inr (s', r) \<Longrightarrow> iommu_mem s' = iommu_mem s"
  by (auto simp: io_vm_add_device_def iommu_arch_vm_add_device_def iommu_cmd_inval_ddt_def iommu_cmd_iofence_def iommu_read32_def
      ended_def dest!: wait_frame submit_mem split: if_splits option.splits)

lemma attach_mem: "foldR (attach E) xs s = Inr s' \<Longrightarrow> iommu_mem s' = iommu_mem s"
proof (induction xs arbitrary: s)
  case (Cons x xs)
  then obtain s1 where s1: "attach E x s = Inr s1" "foldR (attach E) xs s1 = Inr s'" by auto
  then have "iommu_mem s1 = iommu_mem s" by (auto simp: attach_def split: prod.splits if_splits dest: add_device_mem)
  then show ?case using Cons.IH [OF s1(2)] by simp
qed simp

section \<open>Shared memories\<close>

text \<open>The range of an IPC object; one whose memory the table does not have is left out.\<close>

definition ipc_range :: "shmem list \<Rightarrow> ipc \<Rightarrow> range list" where
  "ipc_range tab c =
    (case ipc_get_shmem tab (ipc_shmem_id c) of None \<Rightarrow> []
     | Some sm \<Rightarrow> [(ipc_base c, shm_phys sm, unat (NUM_PAGES (min (shm_size sm) (ipc_size c))))])"

definition ipc_ranges :: "shmem list \<Rightarrow> ipc list \<Rightarrow> range list" where
  "ipc_ranges tab cs = concat (List.map (ipc_range tab) cs)"

text \<open>What the ranges depend on.\<close>

definition same_shmems :: "shmem list \<Rightarrow> shmem list \<Rightarrow> bool" where
  "same_shmems tab tab' \<longleftrightarrow> List.map (\<lambda>sm. sm\<lparr>shm_cpu_masters := 0\<rparr>) tab = List.map (\<lambda>sm. sm\<lparr>shm_cpu_masters := 0\<rparr>) tab'"

lemma same_shmems_get:
  assumes "same_shmems tab tab'"
  shows "map_option (\<lambda>sm. sm\<lparr>shm_cpu_masters := 0\<rparr>) (ipc_get_shmem tab i) = map_option (\<lambda>sm. sm\<lparr>shm_cpu_masters := 0\<rparr>) (ipc_get_shmem tab' i)"
proof -
  have "length tab = length tab'" using assms by (metis same_shmems_def length_map)
  moreover have "(tab ! i)\<lparr>shm_cpu_masters := 0\<rparr> = (tab' ! i)\<lparr>shm_cpu_masters := 0\<rparr>" if "i < length tab"
    using arg_cong [OF assms [unfolded same_shmems_def], of "\<lambda>xs. xs ! i"] that \<open>length tab = length tab'\<close> by simp
  ultimately show ?thesis by (simp add: ipc_get_shmem_def)
qed

lemma same_shmems_range:
  assumes "same_shmems tab tab'"
  shows "ipc_range tab' c = ipc_range tab c"
proof -
  have f: "shm_phys sm = shm_phys (sm\<lparr>shm_cpu_masters := 0\<rparr>)" "shm_size sm = shm_size (sm\<lparr>shm_cpu_masters := 0\<rparr>)" for sm :: shmem by simp_all
  show ?thesis using same_shmems_get [OF assms, of "ipc_shmem_id c"] unfolding ipc_range_def
    by (auto split: option.splits) (metis f)+
qed

lemma same_shmems_update:
  assumes "i < length tab"
  shows "same_shmems tab (tab[i := (tab ! i)\<lparr>shm_cpu_masters := m\<rparr>])"
  unfolding same_shmems_def using assms by (intro nth_equalityI) (auto simp: nth_list_update)


lemma init_ipc_spec:
  assumes "space E (bt_as b) rs (bt_mem b)" "self < 32" "\<forall>r \<in> set (ipc_range (bt_shmems b) c). range_ok (bt_as b) r"
    and "sorted_wrt ranges_apart (rs @ ipc_range (bt_shmems b) c)" "\<forall>sm \<in> set (bt_shmems b). all_clrs (clr_num E) (shm_colors sm)"
    and "can_alloc E (as_colors (bt_as b)) (4 * range_pages (ipc_range (bt_shmems b) c) + j) (bt_mem b)"
  shows "\<exists>s tab. init_ipc E self c b = Inr (set_mem s (b\<lparr>bt_shmems := tab\<rparr>)) \<and> same_shmems (bt_shmems b) tab
    \<and> space E (bt_as b) (rs @ ipc_range (bt_shmems b) c) s \<and> can_alloc E (as_colors (bt_as b)) j s"
proof (cases "ipc_get_shmem (bt_shmems b) (ipc_shmem_id c)")
  case None
  then show ?thesis using assms(1,6)
    by (intro exI [of _ "bt_mem b"] exI [of _ "bt_shmems b"]) (simp add: init_ipc_def ipc_range_def same_shmems_def set_mem_def)
next
  case (Some sm)
  let ?i = "ipc_shmem_id c"
  have i: "?i < length (bt_shmems b)" "sm = bt_shmems b ! ?i" using Some by (auto simp: ipc_get_shmem_def split: if_splits)
  let ?sz = "if shm_size sm < ipc_size c then shm_size sm else ipc_size c"
  let ?tab = "(bt_shmems b)[?i := sm\<lparr>shm_cpu_masters := shm_cpu_masters sm OR push_bit self 1\<rparr>]"
  let ?reg = "\<lparr>rgn_base = ipc_base c, rgn_size = ?sz, rgn_colors = shm_colors sm, rgn_place_phys = True, rgn_phys = shm_phys sm\<rparr>"
  have sz: "min (shm_size sm) (ipc_size c) = ?sz" by (auto simp: min_def)
  have r: "ipc_range (bt_shmems b) c = [region_range ?reg]" unfolding ipc_range_def Some by (simp add: region_range_def sz)
  have b: "bt_io (b\<lparr>bt_shmems := ?tab\<rparr>) = bt_io b" "bt_mem (b\<lparr>bt_shmems := ?tab\<rparr>) = bt_mem b" by simp_all
  have "all_clrs (clr_num E) (rgn_colors ?reg)" using assms(5) i by simp
  from vm_region_spec [of E "b\<lparr>bt_shmems := ?tab\<rparr>" rs ?reg j, unfolded b, OF assms(1) _ _ _ this] obtain s where
    s: "vm_map_mem_region E ?reg (b\<lparr>bt_shmems := ?tab\<rparr>) = Inr (set_mem s (b\<lparr>bt_shmems := ?tab\<rparr>))"
      "space E (bt_as b) (rs @ [region_range ?reg]) s" "can_alloc E (as_colors (bt_as b)) j s"
    using assms(3,4,6) unfolding r by (auto simp: sorted_wrt_append)
  have w: "wr (bt_shmems b) ?i (sm\<lparr>shm_cpu_masters := shm_cpu_masters sm OR push_bit self 1\<rparr>) = Inr ?tab"
    using i(1) by (rule wr_in)
  have "init_ipc E self c b = Inr (set_mem s (b\<lparr>bt_shmems := ?tab\<rparr>))"
    using s(1) assms(2) w by (simp add: init_ipc_def Some shl_def Let_def)
  moreover have "same_shmems (bt_shmems b) ?tab" using same_shmems_update [OF i(1)] i(2) by simp
  ultimately show ?thesis using s(2,3) unfolding r by blast
qed

lemma same_shmems_colors:
  assumes "same_shmems tab tab'" "sm \<in> set tab'"
  shows "\<exists>sm' \<in> set tab. shm_colors sm = shm_colors sm'"
proof -
  have "sm\<lparr>shm_cpu_masters := 0\<rparr> \<in> set (List.map (\<lambda>sm. sm\<lparr>shm_cpu_masters := 0\<rparr>) tab)"
    using assms by (simp add: same_shmems_def)
  then obtain sm' where "sm' \<in> set tab" "sm\<lparr>shm_cpu_masters := 0\<rparr> = sm'\<lparr>shm_cpu_masters := 0\<rparr>" by auto
  moreover have "shm_colors x = shm_colors (x\<lparr>shm_cpu_masters := 0\<rparr>)" for x :: shmem by simp
  ultimately show ?thesis by metis
qed

lemma ipcs_spec:
  assumes "space E (bt_as b) rs (bt_mem b)" "self < 32" "\<forall>r \<in> set (ipc_ranges tab cs). range_ok (bt_as b) r"
    and "sorted_wrt ranges_apart (rs @ ipc_ranges tab cs)" "\<forall>sm \<in> set tab. all_clrs (clr_num E) (shm_colors sm)"
    and "can_alloc E (as_colors (bt_as b)) (4 * range_pages (ipc_ranges tab cs) + j) (bt_mem b)" "same_shmems tab (bt_shmems b)"
  shows "\<exists>s tab'. foldR (init_ipc E self) cs b = Inr (set_mem s (b\<lparr>bt_shmems := tab'\<rparr>))
    \<and> space E (bt_as b) (rs @ ipc_ranges tab cs) s \<and> can_alloc E (as_colors (bt_as b)) j s"
  using assms
proof (induction cs arbitrary: rs b)
  case Nil
  then show ?case by (intro exI [of _ "bt_mem b"] exI [of _ "bt_shmems b"]) (simp add: ipc_ranges_def set_mem_def)
next
  case (Cons c cs)
  have r: "ipc_ranges tab (c # cs) = ipc_range tab c @ ipc_ranges tab cs" by (simp add: ipc_ranges_def)
  have rc: "ipc_range (bt_shmems b) c = ipc_range tab c" by (rule same_shmems_range [OF Cons.prems(7)])
  have n: "4 * range_pages (ipc_ranges tab (c # cs)) + j = 4 * range_pages (ipc_range tab c) + (4 * range_pages (ipc_ranges tab cs) + j)"
    unfolding r by simp
  have ok: "\<forall>r \<in> set (ipc_range tab c). range_ok (bt_as b) r" "\<forall>r \<in> set (ipc_ranges tab cs). range_ok (bt_as b) r"
    using Cons.prems(3) unfolding r by auto
  have ap: "sorted_wrt ranges_apart (rs @ ipc_range tab c)" "sorted_wrt ranges_apart ((rs @ ipc_range tab c) @ ipc_ranges tab cs)"
    using Cons.prems(4) unfolding r by (simp_all add: sorted_wrt_append)
  have cl: "\<forall>sm \<in> set (bt_shmems b). all_clrs (clr_num E) (shm_colors sm)"
    using Cons.prems(5) same_shmems_colors [OF Cons.prems(7)] by fastforce
  from init_ipc_spec [OF Cons.prems(1,2) ok(1) [folded rc] ap(1) [folded rc] cl Cons.prems(6) [unfolded n, folded rc]]
  obtain s tab1 where s: "init_ipc E self c b = Inr (set_mem s (b\<lparr>bt_shmems := tab1\<rparr>))" "same_shmems (bt_shmems b) tab1"
      "space E (bt_as b) (rs @ ipc_range tab c) s" "can_alloc E (as_colors (bt_as b)) (4 * range_pages (ipc_ranges tab cs) + j) s"
    unfolding rc by blast
  let ?b = "set_mem s (b\<lparr>bt_shmems := tab1\<rparr>)"
  have b: "bt_io ?b = bt_io b" "bt_mem ?b = s" "bt_shmems ?b = tab1" by (simp_all add: set_mem_def)
  have "same_shmems tab tab1" using Cons.prems(7) s(2) by (simp add: same_shmems_def)
  from Cons.IH [of ?b "rs @ ipc_range tab c", unfolded b, OF s(3) Cons.prems(2) ok(2) ap(2) Cons.prems(5) s(4) this]
  obtain s' tab' where s': "foldR (init_ipc E self) cs ?b = Inr (set_mem s' (?b\<lparr>bt_shmems := tab'\<rparr>))"
      "space E (bt_as b) ((rs @ ipc_range tab c) @ ipc_ranges tab cs) s'" "can_alloc E (as_colors (bt_as b)) j s'" by blast
  have "set_mem s' (?b\<lparr>bt_shmems := tab'\<rparr>) = set_mem s' (b\<lparr>bt_shmems := tab'\<rparr>)" by (simp add: set_mem_def)
  then show ?case using s(1) s' unfolding r by (intro exI [of _ s'] exI [of _ tab']) simp
qed

section \<open>The hart's side\<close>

text \<open>
  How a hart translates an access of a guest, given \<open>hgatp\<close>: Sv39x4 with the root page the register
  names; guest physical addresses have 41 bits and others fault. The first stage is the guest's own.
\<close>

definition hart_translate :: "pt_mem \<Rightarrow> u64 \<Rightarrow> vaddr \<Rightarrow> paddr option res" where
  "hart_translate m hgatp va =
    (if drop_bit 60 hgatp = 8 then
       if 2 ^ 41 \<le> unat va then Inr None
       else mem_translate m \<lparr>pt_root = push_bit 12 (hgatp AND mask 44), pt_dscr = sv39x4_pt_dscr\<rparr> va
     else Inr (Some va))"

lemma hgatp_iohgatp:
  assumes "pt_root (as_pt a) < 2 ^ 56" "i < 2 ^ 14"
  shows "vm_hgatp a i = vm_iohgatp \<lparr>io_vm_id = i, gscid = int i, io_as = a\<rparr>"
proof -
  have "unat (of_nat i :: u64) = i" using assms(2) by (simp add: unsigned_of_nat take_bit_nat_eq_self)
  then have i: "take_bit 14 (of_nat i :: u64) = of_nat i" "take_bit 16 (of_nat i :: u64) = of_nat i"
    using assms(2) by (simp_all add: word_unat_eq_iff unsigned_take_bit_eq take_bit_nat_eq_self_iff)
  have g: "(0xFFFF :: u64) = mask 16" "RISCV_IOMMU_DC_IOHGATP_PPN_MSK = mask 44"
    by (simp_all add: RISCV_IOMMU_DC_IOHGATP_PPN_MSK_def mask_eq_exp_minus_1)
  have r: "take_bit 44 (drop_bit 12 (pt_root (as_pt a))) = drop_bit 12 (pt_root (as_pt a))"
  proof -
    have "take_bit 56 (pt_root (as_pt a)) = pt_root (as_pt a)" using assms(1)
      by (simp add: word_unat_eq_iff unsigned_take_bit_eq take_bit_nat_eq_self_iff word_less_nat_alt)
    then show ?thesis by (simp add: take_bit_drop_bit)
  qed
  have v: "push_bit HGATP_VMID_OFF (of_nat i) AND HGATP_VMID_MSK = push_bit 44 (of_nat i :: u64)"
    using i(1) by (simp add: HGATP_VMID_MSK_def HGATP_VMID_LEN_def HGATP_VMID_OFF_def take_bit_eq_mask flip: push_bit_and)
  have gs: "of_int (int i) AND mask 16 = (of_nat i :: u64)" using i(2) by (simp add: take_bit_eq_mask)
  show ?thesis
    unfolding vm_hgatp_def vm_iohgatp_def v g Let_def io_vm.simps gs take_bit_eq_mask [symmetric] r
    by (simp add: HGATP_MODE_DFLT_def RISCV_IOMMU_DC_IOHGATP_MODE_OFF_def RISCV_IOMMU_DC_IOHGATP_GSCID_OFF_def
        RISCV_IOMMU_IOHGATP_SV39X4_def i(2) ac_simps del: push_bit_numeral)
qed

lemma hart_translate_root:
  assumes "pt_dscr (as_pt a) = sv39x4_pt_dscr" "pt_root (as_pt a) AND mask 12 = 0" "pt_root (as_pt a) < 2 ^ 56" "i < 2 ^ 14"
  shows "hart_translate m (vm_hgatp a i) va = (if 2 ^ 41 \<le> unat va then Inr None else mem_translate m (as_pt a) va)"
proof -
  let ?v = "\<lparr>io_vm_id = i, gscid = int i, io_as = a\<rparr>"
  have v: "as_pt (io_as ?v) = as_pt a" by simp
  have "drop_bit 60 (vm_hgatp a i) = 8" "push_bit 12 (vm_hgatp a i AND mask 44) = pt_root (as_pt a)"
    using iohgatp_fields [of ?v, unfolded v, OF assms(2,3)] unfolding hgatp_iohgatp [OF assms(3,4)]
    by (simp_all add: RISCV_IOMMU_DC_IOHGATP_MODE_OFF_def RISCV_IOMMU_IOHGATP_SV39X4_def RISCV_IOMMU_DC_IOHGATP_PPN_MSK_def mask_eq_exp_minus_1)
  moreover have "\<lparr>pt_root = pt_root (as_pt a), pt_dscr = sv39x4_pt_dscr\<rparr> = as_pt a" using assms(1) by simp
  ultimately show ?thesis by (simp add: hart_translate_def)
qed

lemma stage2_pos: "pt_dscr (as_pt a) = sv39x4_pt_dscr \<Longrightarrow> unat va < 2 ^ 41 \<Longrightarrow> vpos (as_pt a) va = unat va"
  by (simp add: vpos_def vtop_def ibits_def sv39x4_pt_dscr_def)

section \<open>The whole configuration\<close>

definition vm_ranges :: "shmem list \<Rightarrow> vm_config \<Rightarrow> range list" where
  "vm_ranges tab cfg = List.map region_range (plat_regions (cfg_platform cfg)) @ dev_ranges (plat_devs (cfg_platform cfg))
    @ ipc_ranges tab (plat_ipcs (cfg_platform cfg))"

text \<open>A configuration that names page-aligned ranges that do not overlap, and no image to copy.\<close>

definition cfg_ok :: "mem_env \<Rightarrow> addr_space \<Rightarrow> shmem list \<Rightarrow> vm_config \<Rightarrow> bool" where
  "cfg_ok M a tab cfg \<longleftrightarrow> (\<forall>reg \<in> set (plat_regions (cfg_platform cfg)). placed M (cfg_image cfg) reg)
    \<and> (\<forall>sm \<in> set tab. all_clrs (clr_num M) (shm_colors sm)) \<and> (\<forall>r \<in> set (vm_ranges tab cfg). range_ok a r)
    \<and> sorted_wrt ranges_apart (vm_ranges tab cfg)"

text \<open>The address space that start-up builds on: a table of the VM with all entries free.\<close>

definition stage2_root :: "addr_space \<Rightarrow> bool" where
  "stage2_root a \<longleftrightarrow> as_typ a = AS_VM \<and> pt_dscr (as_pt a) = sv39x4_pt_dscr \<and> pt_root (as_pt a) AND mask 12 = 0
    \<and> pt_root (as_pt a) < 2 ^ 56"

lemma dma_devs_attached:
  assumes "dev \<in> set devs" "vm_dev_region.dev_id dev \<noteq> 0"
  shows "attached (dma_devs io devs) (unat (vm_dev_region.dev_id dev)) = Some io"
proof -
  have f: "fst x = io" if "x \<in> set (dma_devs io devs)" for x using that by (auto simp: dma_devs_def)
  have "(io, vm_dev_region.dev_id dev) \<in> set (dma_devs io devs)" using assms by (auto simp: dma_devs_def)
  then have "find (\<lambda>(v, i). unat i = unat (vm_dev_region.dev_id dev)) (rev (dma_devs io devs)) \<noteq> None"
    by (auto simp: find_None_iff)
  then obtain x where x: "find (\<lambda>(v, i). unat i = unat (vm_dev_region.dev_id dev)) (rev (dma_devs io devs)) = Some x" by blast
  then have "x \<in> set (dma_devs io devs)" by (auto simp: find_Some_iff) (metis nth_mem set_rev length_rev)
  with f x show ?thesis by (simp add: attached_def)
qed

lemma io_phase:
  assumes "iommu_ready E (bt_iommu b)" "\<forall>dev \<in> set devs. vm_dev_region.dev_id dev < 64"
    and "stage2_root (bt_as b)"
  shows "\<exists>i. foldR (init_dev_io E) devs b = Inr (b\<lparr>bt_iommu := i\<rparr>) \<and> iommu_mem i = bt_mem b
    \<and> (\<forall>dev \<in> set devs. \<forall>m iova. vm_dev_region.dev_id dev = 0 \<or>
      dma_translate m (ddt_dcs i) (unat (vm_dev_region.dev_id dev)) iova = mem_translate m (as_pt (bt_as b)) iova)"
proof -
  let ?xs = "dma_devs (bt_io b) devs"
  have "\<forall>(v, i) \<in> set ?xs. 0 < i \<and> i < 64" using assms(2) by (auto simp: dma_devs_def word_gt_0)
  from attach_spec [OF assms(1) this] obtain i where
    i: "foldR (attach E) ?xs (bt_iommu b) = Inr i" "iommu_ready E i"
      "\<And>d. d < 64 \<Longrightarrow> ddt_dcs i ! d = (case attached ?xs d of None \<Rightarrow> ddt_dcs (bt_iommu b) ! d | Some v \<Rightarrow> dc_of (Some v))" by blast
  have "dma_translate m (ddt_dcs i) (unat (vm_dev_region.dev_id dev)) iova = mem_translate m (as_pt (bt_as b)) iova"
    if "dev \<in> set devs" "vm_dev_region.dev_id dev \<noteq> 0" for dev m iova
  proof -
    have d: "unat (vm_dev_region.dev_id dev) < 64" using assms(2) that(1) by (auto simp: word_less_nat_alt)
    then have "ddt_dcs i ! unat (vm_dev_region.dev_id dev) = dc_of (Some (bt_io b))"
      using i(3) dma_devs_attached [OF that] by simp
    moreover have "unat (vm_dev_region.dev_id dev) < length (ddt_dcs i)"
      using d i(2) by (simp add: iommu_ready_def RISCV_IOMMU_DDT_1LVL_MAX_DEVS_def)
    ultimately show ?thesis using dma_of_attached assms(3) by (simp add: stage2_root_def)
  qed
  moreover have "foldR (init_dev_io E) devs b = Inr (b\<lparr>bt_iommu := i\<rparr>)" unfolding init_devs_io i(1) by simp
  moreover have "iommu_mem i = bt_mem b" using attach_mem [OF i(1)] by simp
  ultimately show ?thesis by blast
qed

lemma sorted_apart_append: "sorted_wrt ranges_apart (xs @ ys) \<Longrightarrow> sorted_wrt ranges_apart xs"
  by (simp add: sorted_wrt_append)

lemma space_translate:
  assumes "space E a rs s"
  shows "mem_translate (pt_words s) (as_pt a) va = Inr (range_phys rs (vpos (as_pt a) va))"
  using assms translate_phys [OF mem_okD(1), of E a s va] by (simp add: space_def)

lemma vm_init_dev_spec:
  assumes "space (iommu_mm E) (bt_as b) rs (bt_mem b)" "stage2_root (bt_as b)"
    and "\<forall>r \<in> set (dev_ranges (plat_devs (cfg_platform cfg))). range_ok (bt_as b) r"
    and "sorted_wrt ranges_apart (rs @ dev_ranges (plat_devs (cfg_platform cfg)))"
    and "can_alloc (iommu_mm E) (as_colors (bt_as b)) (4 * range_pages (dev_ranges (plat_devs (cfg_platform cfg))) + j) (bt_mem b)"
    and "ok (foldR interrupts_vm_assign (dev_irqs (plat_devs (cfg_platform cfg))) (bt_ints b, bt_vm b, bt_vplic b))"
    and "iommu_ready E (bt_iommu b)" "\<forall>dev \<in> set (plat_devs (cfg_platform cfg)). vm_dev_region.dev_id dev < 64"
  shows "\<exists>b'. vm_init_dev E cfg b = Inr b' \<and> bt_as b' = bt_as b \<and> bt_shmems b' = bt_shmems b \<and> bt_hgatp b' = bt_hgatp b
    \<and> space (iommu_mm E) (bt_as b) (rs @ dev_ranges (plat_devs (cfg_platform cfg))) (bt_mem b')
    \<and> can_alloc (iommu_mm E) (as_colors (bt_as b)) j (bt_mem b')
    \<and> (\<forall>dev \<in> set (plat_devs (cfg_platform cfg)). \<forall>m iova. vm_dev_region.dev_id dev = 0 \<or>
      dma_translate m (ddt_dcs (bt_iommu b')) (unat (vm_dev_region.dev_id dev)) iova = mem_translate m (as_pt (bt_as b)) iova)"
proof -
  let ?M = "iommu_mm E" and ?devs = "plat_devs (cfg_platform cfg)"
  obtain t v p where ints: "foldR interrupts_vm_assign (dev_irqs ?devs) (bt_ints b, bt_vm b, bt_vplic b) = Inr (t, v, p)"
    using assms(6) unfolding ok_iff by auto
  have vt: "as_typ (bt_as b) = AS_VM" using assms(2) by (simp add: stage2_root_def)
  obtain s where s: "foldR (init_dev ?M) ?devs b = Inr (set_mem s (b\<lparr>bt_ints := t, bt_vm := v, bt_vplic := p\<rparr>))"
      "space ?M (bt_as b) (rs @ dev_ranges ?devs) s" "can_alloc ?M (as_colors (bt_as b)) j s"
    using devs_spec [OF assms(1) vt assms(3-5) ints] by blast
  define b2 where "b2 = set_mem s (b\<lparr>bt_ints := t, bt_vm := v, bt_vplic := p\<rparr>)"
  define io where "io = (bt_io b)\<lparr>gscid := int (io_vm_id (bt_io b))\<rparr>"
  let ?b3 = "b2\<lparr>bt_io := io\<rparr>"
  have b2: "bt_io b2 = bt_io b" "bt_mem b2 = s" "bt_shmems b2 = bt_shmems b" "bt_hgatp b2 = bt_hgatp b"
      "bt_iommu b2 = (bt_iommu b)\<lparr>iommu_mem := s\<rparr>"
    unfolding b2_def by (simp_all add: set_mem_def)
  have ioas: "io_as io = bt_as b" by (simp add: io_def)
  have ready: "iommu_ready E (bt_iommu ?b3)" using assms(7) by (simp add: b2 iommu_ready_def)
  have iov: "io_vm_init (bt_iommu b2) (bt_io b2) = (io, True)"
    using assms(7) by (simp add: b2 io_def io_vm_init_def iommu_arch_vm_init_def iommu_ready_def)
  have "stage2_root (bt_as ?b3)" using assms(2) by (simp add: ioas)
  from io_phase [OF ready assms(8) this] obtain i where
    i: "foldR (init_dev_io E) ?devs ?b3 = Inr (?b3\<lparr>bt_iommu := i\<rparr>)" "iommu_mem i = s"
      "\<forall>dev \<in> set ?devs. \<forall>m iova. vm_dev_region.dev_id dev = 0 \<or>
      dma_translate m (ddt_dcs i) (unat (vm_dev_region.dev_id dev)) iova = mem_translate m (as_pt (bt_as b)) iova"
    by (auto simp: b2 ioas)
  have "vm_init_dev E cfg b = Inr (?b3\<lparr>bt_iommu := i\<rparr>)"
    using s(1) i(1) iov unfolding vm_init_dev_def b2_def [symmetric] by (simp add: Let_def)
  then show ?thesis using s(2,3) i(2,3) b2 ioas by (intro exI [of _ "?b3\<lparr>bt_iommu := i\<rparr>"]) simp
qed

lemma vm_init_ipc_spec:
  assumes "space M (bt_as b) rs (bt_mem b)" "self < 32"
    and "\<forall>r \<in> set (ipc_ranges (bt_shmems b) (plat_ipcs (cfg_platform cfg))). range_ok (bt_as b) r"
    and "sorted_wrt ranges_apart (rs @ ipc_ranges (bt_shmems b) (plat_ipcs (cfg_platform cfg)))"
    and "\<forall>sm \<in> set (bt_shmems b). all_clrs (clr_num M) (shm_colors sm)"
    and "can_alloc M (as_colors (bt_as b)) (4 * range_pages (ipc_ranges (bt_shmems b) (plat_ipcs (cfg_platform cfg)))) (bt_mem b)"
  shows "\<exists>b'. vm_init_ipc M self cfg b = Inr b' \<and> bt_hgatp b' = bt_hgatp b \<and> ddt_dcs (bt_iommu b') = ddt_dcs (bt_iommu b)
    \<and> space M (bt_as b) (rs @ ipc_ranges (bt_shmems b) (plat_ipcs (cfg_platform cfg))) (bt_mem b')"
proof -
  let ?b = "b\<lparr>bt_vm := (bt_vm b)\<lparr>vm_ipcs := plat_ipcs (cfg_platform cfg)\<rparr>\<rparr>"
  have b: "bt_io ?b = bt_io b" "bt_mem ?b = bt_mem b" "bt_shmems ?b = bt_shmems b" by simp_all
  obtain s tab where "foldR (init_ipc M self) (plat_ipcs (cfg_platform cfg)) ?b = Inr (set_mem s (?b\<lparr>bt_shmems := tab\<rparr>))"
      "space M (bt_as b) (rs @ ipc_ranges (bt_shmems b) (plat_ipcs (cfg_platform cfg))) s"
    using ipcs_spec [of M ?b rs self "bt_shmems b" "plat_ipcs (cfg_platform cfg)" 0, unfolded b add_0_right, OF assms]
    by (auto simp: same_shmems_def)
  then show ?thesis by (simp add: vm_init_ipc_def set_mem_def)
qed


definition demo_cfg :: vm_config where
  "demo_cfg = \<lparr>cfg_image = \<lparr>base_addr = 0x90000000, load_addr = 0x90000000, img_size = 0x800, separately_loaded = False, inplace = False\<rparr>,
    cfg_entry = 0x90000000, cpu_affinity = 0, cfg_colors = 0,
    cfg_platform = \<lparr>plat_cpu_num = 2,
      plat_regions = [\<lparr>rgn_base = 0x90000000, rgn_size = 0x1800, rgn_colors = 0, rgn_place_phys = True, rgn_phys = 0x90000000\<rparr>],
      plat_ipcs = [\<lparr>ipc_base = 0x50000000, ipc_size = 0x1000, ipc_shmem_id = 0, ipc_interrupts = []\<rparr>],
      plat_devs = [\<lparr>dev_pa = 0x10000000, dev_va = 0x30000000, dev_size = 0x1000, dev_interrupts = [\<lparr>irq_id = 10, irq_criticality = CRIT_LOW\<rparr>],
        dev_id = 5\<rparr>], plat_plic_base = 0\<rparr>,
    cfg_criticality = CRIT_LOW,
    cfg_health = \<lparr>enabled = False, heartbeat_period_ms = 0, timeout_ms = 0, cfg_max_missed = 0, auto_recover = False, max_recoveries = 0\<rparr>\<rparr>"

definition demo_shmem :: shmem where
  "demo_shmem = \<lparr>shm_size = 0x2000, shm_colors = 0, shm_place_phys = True, shm_phys = 0xA0000000, shm_cpu_masters = 0\<rparr>"

definition demo_boot :: "unit vm_boot" where
  "demo_boot = \<lparr>bt_vm = demo_hvm, bt_sync = cpu_sync_init 2, bt_io = \<lparr>io_vm_id = 1, gscid = 0, io_as = demo_as\<rparr>, bt_vplic = vplic_zero,
    bt_ints = \<lparr>hyp_interrupt_bitmap = replicate 33 0, global_interrupt_bitmap = replicate 33 0, interrupt_handlers = []\<rparr>,
    bt_iommu = demo_iommu demo_mem, bt_shmems = [demo_shmem], bt_ram = (\<lambda>_. 0), bt_hgatp = (\<lambda>_. 0), bt_csrs = (\<lambda>_. undefined)\<rparr>"

lemma demo_ranges: "vm_ranges [demo_shmem] demo_cfg
   = [(0x90000000, 0x90000000, 2), (0x30000000, 0x10000000, 1), (0x50000000, 0xA0000000, 1)]"
  by (simp add: vm_ranges_def demo_cfg_def demo_shmem_def region_range_def dev_ranges_def dev_range_def ipc_ranges_def ipc_range_def
      NUM_PAGES_def ALIGN_def PAGE_SIZE_def INVALID_VA_def MAX_VA_def ipc_get_shmem_def min_def)

lemma demo_space: "space Mem_Map.demo_env demo_as [] demo_mem"
proof -
  have "free_at (pt_words demo_mem) (as_pt demo_as) va" for va
    by (simp add: free_at_def demo_mem_def pte_check_rsw_def PTE_RSW_RSRV_def PTE_RSW_MSK_def mask_eq_exp_minus_1)
  then show ?thesis using demo_mem_ok(1) by (simp add: space_def range_phys_def demo_mem_def phys_zero)
qed

lemma demo_vplic:
  "vplic_init 1 () () 0 now (demo_hvm, vplic_zero) = (vm_emul_add_mem (vm_emul_add_mem demo_hvm
    \<lparr>emul_va_base = 0, emul_size = 0x3000, emul_mem_handler = ()\<rparr>) \<lparr>emul_va_base = PLIC_CLAIMCMPLT_OFF,
    emul_size = 0x1000 * 2 * of_nat PLAT_PLIC_CNTXT_PER_HART, emul_mem_handler = ()\<rparr>,
    vplic_zero\<lparr>cntxt_num := 4, buckets := List.map (\<lambda>i. irq_bucket_init (crit_val CRIT_LOW) (now i)) [0..<PLIC_MAX_INTERRUPTS]\<rparr>)"
  by (simp add: vplic_init_def demo_hvm_def vm_emul_add_mem_def)

lemma demo_assign:
  "ok (foldR interrupts_vm_assign [10] (bt_ints demo_boot, vplic_init 1 () () 0 now (demo_hvm, vplic_zero)))"
  unfolding demo_vplic
  by (simp add: interrupts_vm_assign_def interrupts_arch_conflict_def interrupts_arch_vm_assign_def vplic_set_hw_def
      bitmap_get_def bitmap_set_def vbit_set_def demo_boot_def vplic_zero_def demo_hvm_def vm_emul_add_mem_def
      BITMAP_GRANULE_LEN_def PLIC_MAX_INTERRUPTS_def VPLIC_WORDS_def HW_OFF_def)



end
