(* ===== verification/Mem_Boot.thy ===== *)
theory Mem_Boot
  imports Pt_Alloc
begin

text \<open>
  The set-up of the physical page pools at boot, \<open>mem_init\<close> and what it calls in \<open>src/core/mem.c\<close>:
  the root pool with its bitmap, the reservation of the hypervisor's own memory and of everything
  the configuration places, and the other pools. Recolouring the hypervisor, which continues on a
  copy of its stack, is left out.
\<close>

section \<open>The environment\<close>

record mem_region =
  mr_base :: paddr
  mr_size :: u64

text \<open>
  The linker's symbols, \<open>sizeof(struct cpu)\<close>, the number of cores and the platform's regions.
\<close>

record boot_env =
  boot_mm :: mem_env
  sym_image_start :: u64
  sym_image_load_end :: u64
  sym_image_end :: u64
  sym_vm_image_start :: u64
  sym_vm_image_end :: u64
  sizeof_cpu :: u64
  plat_cpus :: nat
  plat_mem :: "mem_region list"

abbreviation boot_as :: "boot_env \<Rightarrow> addr_space" where "boot_as E \<equiv> cpu_as (boot_mm E)"

definition mem_cpu_boot_alloc_size :: "boot_env \<Rightarrow> u64 res" where
  "mem_cpu_boot_alloc_size E =
    foldR (\<lambda>i size. bindR (pt_size (as_pt (boot_as E)) i) (\<lambda>z. Inr (size + ALIGN (of_nat z) PAGE_SIZE)))
      [0..<lvls (pt_dscr (as_pt (boot_as E)))] (ALIGN (sizeof_cpu E) PAGE_SIZE)"

section \<open>The root pool\<close>

definition bitmap_pages :: "nat \<Rightarrow> nat" where
  "bitmap_pages k = k div (8 * 4096) + (if k mod (8 * 4096) \<noteq> 0 then 1 else 0)"

text \<open>A cleared bitmap of whole pages; clearing it through the failure value of a mapping faults.\<close>

definition clear_bitmap :: "vaddr \<Rightarrow> nat \<Rightarrow> page_pool \<Rightarrow> page_pool res" where
  "clear_bitmap va n pool = (if va = INVALID_VA then Inl Null_deref else Inr (pool\<lparr>pool_bitmap := replicate (n * 1024) 0\<rparr>))"

definition root_bitmap_base :: "boot_env \<Rightarrow> paddr \<Rightarrow> u64 \<Rightarrow> paddr" where
  "root_bitmap_base E load cpu_size =
    load + (sym_image_end E - sym_image_start E) + (sym_vm_image_end E - sym_vm_image_start E) + cpu_size"

definition root_pool_set_up_bitmap :: "boot_env \<Rightarrow> paddr \<Rightarrow> page_pool \<Rightarrow> mem_state \<Rightarrow> (mem_state \<times> bool \<times> page_pool) res" where
  "root_pool_set_up_bitmap E load pool s =
    bindR (mem_cpu_boot_alloc_size E) (\<lambda>z.
    let cpu_size = of_nat (plat_cpus E) * z;
        bitmap_num_pages = bitmap_pages (pool_size pool) in
    if pool_size pool \<le> bitmap_num_pages then Inr (s, False, pool)
    else
      let bitmap_pp = mem_ppages_get (root_bitmap_base E load cpu_size) bitmap_num_pages in
      bindR (mem_alloc_map (boot_mm E) (boot_as E) SEC_HYP_GLOBAL (Some bitmap_pp) INVALID_VA bitmap_num_pages PTE_HYP_FLAGS s) (\<lambda>(s, va).
      bindR (clear_bitmap va bitmap_num_pages pool) (\<lambda>pool.
      bindR (mem_reserve_ppool_ppages pool bitmap_pp) (\<lambda>(r, pool). Inr (s, r, pool)))))"

definition hyp_pages :: "boot_env \<Rightarrow> paddr \<Rightarrow> u64 \<Rightarrow> ppages list" where
  "hyp_pages E load cpu_size =
    (let image_load_size = sym_image_load_end E - sym_image_start E;
         image_noload_size = sym_image_end E - sym_image_load_end E;
         image_noload_addr = load + image_load_size + (sym_vm_image_end E - sym_vm_image_start E);
         cpu_base_addr = image_noload_addr + image_noload_size in
     [mem_ppages_get load (unat (NUM_PAGES image_load_size)),
      mem_ppages_get image_noload_addr (unat (NUM_PAGES image_noload_size)),
      mem_ppages_get cpu_base_addr (unat (NUM_PAGES cpu_size))])"

text \<open>All three are reserved, whatever comes of the first ones.\<close>

definition pp_root_reserve_hyp_mem :: "boot_env \<Rightarrow> paddr \<Rightarrow> page_pool \<Rightarrow> (bool \<times> page_pool) res" where
  "pp_root_reserve_hyp_mem E load pool =
    bindR (mem_cpu_boot_alloc_size E) (\<lambda>z.
    foldR (\<lambda>pages (r, pool). bindR (mem_reserve_ppool_ppages pool pages) (\<lambda>(r', pool). Inr (r \<and> r', pool)))
      (hyp_pages E load (of_nat (plat_cpus E) * z)) (True, pool))"

definition pp_root_init :: "boot_env \<Rightarrow> paddr \<Rightarrow> mem_region \<Rightarrow> mem_state \<Rightarrow> (mem_state \<times> bool \<times> page_pool) res" where
  "pp_root_init E load reg s =
    (let size = mr_size reg div PAGE_SIZE;
         pool = \<lparr>pool_base = ALIGN (mr_base reg) PAGE_SIZE, pool_size = unat size, free = size, last_index = 0, pool_bitmap = []\<rparr> in
     bindR (root_pool_set_up_bitmap E load pool s) (\<lambda>(s, r, pool).
     if \<not> r then Inr (s, False, pool)
     else bindR (pp_root_reserve_hyp_mem E load pool) (\<lambda>(r, pool).
          if \<not> r then Inr (s, False, pool) else Inr (s, True, pool\<lparr>last_index := 0\<rparr>))))"

definition mem_find_root_region :: "boot_env \<Rightarrow> paddr \<Rightarrow> nat option" where
  "mem_find_root_region E load =
    find (\<lambda>i. range_in_range load (sym_image_end E - sym_image_start E) (mr_base (plat_mem E ! i)) (mr_size (plat_mem E ! i)))
      [0..<length (plat_mem E)]"

definition mem_setup_root_pool :: "boot_env \<Rightarrow> paddr \<Rightarrow> mem_state \<Rightarrow> (mem_state \<times> (nat \<times> page_pool) option) res" where
  "mem_setup_root_pool E load s =
    (case mem_find_root_region E load of
       None \<Rightarrow> Inr (s, None)
     | Some i \<Rightarrow> bindR (pp_root_init E load (plat_mem E ! i) s) (\<lambda>(s, r, pool). Inr (s, if r then Some (i, pool) else None)))"

section \<open>What the configuration places\<close>

definition mem_vm_img_in_phys_rgn :: "vm_config \<Rightarrow> bool" where
  "mem_vm_img_in_phys_rgn cfg =
    list_ex (\<lambda>reg. rgn_place_phys reg \<and>
      range_in_range (load_addr (cfg_image cfg)) (img_size (cfg_image cfg)) (rgn_phys reg) (rgn_size reg)) (plat_regions (cfg_platform cfg))"

text \<open>A loop that reserves pages and stops at the first failure; \<open>None\<close> is \<open>continue\<close>.\<close>

fun reserve_loop :: "('a \<Rightarrow> ppages option) \<Rightarrow> 'a list \<Rightarrow> page_pool \<Rightarrow> (bool \<times> page_pool) res" where
  "reserve_loop f [] pool = Inr (True, pool)"
| "reserve_loop f (x # xs) pool =
    (case f x of
       None \<Rightarrow> reserve_loop f xs pool
     | Some pages \<Rightarrow> bindR (mem_reserve_ppool_ppages pool pages) (\<lambda>(r, pool).
         if \<not> r then Inr (False, pool) else reserve_loop f xs pool))"

definition img_pages :: "vm_config \<Rightarrow> ppages option" where
  "img_pages cfg = (if mem_vm_img_in_phys_rgn cfg then None
    else Some (mem_ppages_get (load_addr (cfg_image cfg)) (unat (NUM_PAGES (img_size (cfg_image cfg))))))"

definition rgn_pages :: "vm_mem_region \<Rightarrow> ppages option" where
  "rgn_pages reg = (if rgn_place_phys reg then Some (mem_ppages_get (rgn_phys reg) (unat (NUM_PAGES (rgn_size reg)))) else None)"

definition shm_pages :: "shmem \<Rightarrow> ppages option" where
  "shm_pages sm = (if shm_place_phys sm then Some (mem_ppages_get (shm_phys sm) (unat (NUM_PAGES (shm_size sm)))) else None)"

text \<open>The last loop also stores \<open>phys\<close> of a shared memory, the value it has.\<close>

definition mem_reserve_physical_memory :: "config \<Rightarrow> page_pool \<Rightarrow> (bool \<times> page_pool) res" where
  "mem_reserve_physical_memory cfg pool =
    bindR (reserve_loop img_pages (vmlist cfg) pool) (\<lambda>(r, pool).
    if \<not> r then Inr (False, pool)
    else
      bindR (reserve_loop rgn_pages (concat (List.map (\<lambda>vm. plat_regions (cfg_platform vm)) (vmlist cfg))) pool) (\<lambda>(r, pool).
      if \<not> r then Inr (False, pool) else reserve_loop shm_pages (shmemlist cfg) pool))"

section \<open>The other pools\<close>

text \<open>On failure the pool is left with no free page and without a bitmap (the empty list).\<close>

definition pp_init :: "boot_env \<Rightarrow> mem_region \<Rightarrow> mem_state \<Rightarrow> (mem_state \<times> page_pool) res" where
  "pp_init E reg s =
    (let size = NUM_PAGES (mr_size reg);
         pool = \<lparr>pool_base = ALIGN (mr_base reg) PAGE_SIZE, pool_size = unat size, free = 0, last_index = 0, pool_bitmap = []\<rparr>;
         bitmap_size = bitmap_pages (unat size) in
     if unat (mr_size reg) \<le> bitmap_size then Inr (s, pool)
     else
       bindR (alloc_ppages (boot_mm E) (as_colors (boot_as E)) bitmap_size False s) (\<lambda>(s, pages).
       if num_pages pages \<noteq> bitmap_size then Inr (s, pool)
       else
         bindR (mem_alloc_map (boot_mm E) (boot_as E) SEC_HYP_GLOBAL (Some pages) INVALID_VA bitmap_size PTE_HYP_FLAGS s) (\<lambda>(s, va).
         if va = 0 then Inr (s, pool)
         else bindR (clear_bitmap va bitmap_size pool) (\<lambda>pool. Inr (s, pool\<lparr>last_index := 0, free := size\<rparr>)))))"

definition mem_create_ppools :: "boot_env \<Rightarrow> config \<Rightarrow> nat \<Rightarrow> mem_state \<Rightarrow> (mem_state \<times> bool) res" where
  "mem_create_ppools E cfg root s =
    foldR (\<lambda>i (s, r).
      if \<not> r \<or> i = root then Inr (s, r)
      else
        bindR (pp_init E (plat_mem E ! i) s) (\<lambda>(s, pool).
        bindR (mem_reserve_physical_memory cfg pool) (\<lambda>(r, pool).
        if \<not> r then Inr (s, False) else Inr (s\<lparr>page_pools := page_pools s @ [pool]\<rparr>, True))))
      [0..<length (plat_mem E)] (s, True)"

section \<open>Start-up\<close>

text \<open>\<open>mem_init\<close> on the master up to its first barrier; the result has the index of the root region.\<close>

definition mem_init_root :: "boot_env \<Rightarrow> config \<Rightarrow> paddr \<Rightarrow> mem_state \<Rightarrow> (mem_state \<times> config \<times> nat) res" where
  "mem_init_root E cfg load s =
    bindR (mem_setup_root_pool E load s) (\<lambda>(s, r).
    case r of
      None \<Rightarrow> Inl Panic
    | Some (i, pool) \<Rightarrow>
        let cfg = config_init cfg load in
        bindR (mem_reserve_physical_memory cfg pool) (\<lambda>(r, pool).
        if \<not> r then Inl Panic else Inr (s\<lparr>page_pools := [pool]\<rparr>, cfg, i)))"

text \<open>The rest, without recolouring the hypervisor.\<close>

definition mem_init :: "boot_env \<Rightarrow> config \<Rightarrow> paddr \<Rightarrow> mem_state \<Rightarrow> (mem_state \<times> config) res" where
  "mem_init E cfg load s =
    bindR (mem_init_root E cfg load s) (\<lambda>(s, cfg, i).
    bindR (mem_create_ppools E cfg i s) (\<lambda>(s, r). if \<not> r then Inl Panic else Inr (s, cfg)))"

text \<open>The indices in a pool of pages that are given by address, as \<open>mem_reserve_ppool_ppages\<close> computes them.\<close>

definition pool_pages :: "page_pool \<Rightarrow> ppages \<Rightarrow> nat set" where
  "pool_pages pool pages =
    (if pages_in_pool pages pool
     then {unat (NUM_PAGES (pp_base pages - pool_base pool)) ..< unat (NUM_PAGES (pp_base pages - pool_base pool)) + num_pages pages}
     else {})"

lemma pool_pages_geo: "geo p = geo q \<Longrightarrow> pool_pages p = pool_pages q"
  by (simp add: pool_pages_def fun_eq_iff geo_def pages_in_pool_def)

text \<open>\<open>pool'\<close> is \<open>pool\<close> with the pages reserved, which were free and do not overlap.\<close>

definition reserved :: "page_pool \<Rightarrow> ppages list \<Rightarrow> page_pool \<Rightarrow> bool" where
  "reserved pool pgs pool' \<longleftrightarrow> geo pool' = geo pool \<and> bm_len (pool_bitmap pool') = bm_len (pool_bitmap pool)
    \<and> (\<forall>pg \<in> set pgs. \<forall>i \<in> pool_pages pool pg. \<not> used pool i)
    \<and> sorted_wrt (\<lambda>p q. pool_pages pool p \<inter> pool_pages pool q = {}) pgs
    \<and> (\<forall>i. used pool' i \<longleftrightarrow> used pool i \<or> (\<exists>pg \<in> set pgs. i \<in> pool_pages pool pg))"

lemma reserved_Nil: "reserved pool [] pool"
  by (simp add: reserved_def)

lemma reservedD:
  assumes "reserved pool pgs pool'"
  shows "geo pool' = geo pool" "bm_len (pool_bitmap pool') = bm_len (pool_bitmap pool)"
    and "pg \<in> set pgs \<Longrightarrow> i \<in> pool_pages pool pg \<Longrightarrow> \<not> used pool i"
    and "sorted_wrt (\<lambda>p q. pool_pages pool p \<inter> pool_pages pool q = {}) pgs"
    and "used pool' i \<longleftrightarrow> used pool i \<or> (\<exists>pg \<in> set pgs. i \<in> pool_pages pool pg)"
  using assms by (simp_all add: reserved_def)

lemma reserved_append:
  assumes "reserved p xs q" "reserved q ys r"
  shows "reserved p (xs @ ys) r"
proof -
  note 1 = reservedD [OF assms(1)] and 2 = reservedD [OF assms(2)]
  have g: "pool_pages q = pool_pages p" by (rule pool_pages_geo [OF 1(1)])
  have yq: "\<not> used p i \<and> (\<forall>pg \<in> set xs. i \<notin> pool_pages p pg)" if "y \<in> set ys" "i \<in> pool_pages p y" for y i
    using 2(3) [of y i] 1(5) [of i] that unfolding g by simp
  show ?thesis
    unfolding reserved_def
  proof (intro conjI ballI allI)
    show "geo r = geo p" "bm_len (pool_bitmap r) = bm_len (pool_bitmap p)" using 1(1,2) 2(1,2) by simp_all
    show "\<not> used p i" if "pg \<in> set (xs @ ys)" "i \<in> pool_pages p pg" for pg i
      using that 1(3) [of pg i] yq [of pg i] by auto
    have "\<forall>x \<in> set xs. \<forall>y \<in> set ys. pool_pages p x \<inter> pool_pages p y = {}" using yq by blast
    then show "sorted_wrt (\<lambda>p' q'. pool_pages p p' \<inter> pool_pages p q' = {}) (xs @ ys)"
      using 1(4) 2(4) unfolding g by (simp add: sorted_wrt_append)
    show "used r i \<longleftrightarrow> used p i \<or> (\<exists>pg \<in> set (xs @ ys). i \<in> pool_pages p pg)" for i
      using 1(5) [of i] 2(5) [of i] unfolding g by (simp add: bex_Un)
  qed
qed

lemma reserve_sound:
  assumes "mem_reserve_ppool_ppages pool pages = Inr (True, pool')" "pool_ok pool"
  shows "reserved pool [pages] pool'"
proof (cases "pages_in_pool pages pool")
  case False
  then show ?thesis using assms(1) by (auto simp: mem_reserve_ppool_ppages_def reserved_def pool_pages_def)
next
  case True
  let ?k = "unat (NUM_PAGES (pp_base pages - pool_base pool))" and ?n = "num_pages pages" and ?bm = "pool_bitmap pool"
  obtain bm where bm: "bitmap_set_consecutive ?bm ?k ?n = Inr bm" "mem_are_ppages_reserved_in_pool pool pages = Inr False"
      "pool' = pool\<lparr>pool_bitmap := bm, free := free pool - of_nat ?n\<rparr>"
    using assms(1) True by (auto simp: mem_reserve_ppool_ppages_def Let_def)
  then obtain c where c: "bitmap_count_consecutive ?bm (pool_size pool) ?k ?n = Inr c" "\<not> c < ?n" "\<not> bm_bit ?bm ?k" "?k < bm_len ?bm"
    using True by (auto simp: mem_are_ppages_reserved_in_pool_def Let_def bitmap_get_Inr_iff)
  have n: "0 < ?n"
  proof (rule ccontr)
    assume "\<not> 0 < ?n"
    then show False using bm(1) by (simp add: bitmap_set_consecutive_def Let_def BIT_MASK_def)
  qed
  have run: "run ?bm ?k ?n False" and len: "?k + ?n \<le> bm_len ?bm"
  proof -
    consider "?n = 1" | "1 < ?n" using n by linarith
    then have "run ?bm ?k ?n False \<and> ?k + ?n \<le> bm_len ?bm"
    proof cases
      case 1
      then show ?thesis using c(3,4) by (simp add: run_def)
    next
      case 2
      from count_consecutive_spec [OF c(1) 2] c(2,3) show ?thesis by (auto simp: run_def)
    qed
    then show "run ?bm ?k ?n False" "?k + ?n \<le> bm_len ?bm" by simp_all
  qed
  from set_consecutive_spec [OF n len] bm(1)
  have b: "bm_len bm = bm_len ?bm" "\<And>i. bm_bit bm i \<longleftrightarrow> bm_bit ?bm i \<or> ?k \<le> i \<and> i < ?k + ?n" by (auto simp: bm_len_def)
  then show ?thesis using bm(3) run True by (auto simp: reserved_def geo_def used_def pool_pages_def run_def)
qed

lemma reserved_ok: "reserved p xs q \<Longrightarrow> pool_ok p \<Longrightarrow> pool_ok q"
  by (simp add: reserved_def pool_ok_def geo_def)

lemma reserve_loop_sound:
  assumes "reserve_loop f xs pool = Inr (True, pool')" "pool_ok pool"
  shows "reserved pool (List.map_filter f xs) pool'"
  using assms
proof (induction f xs pool rule: reserve_loop.induct)
  case (1 f pool)
  then show ?case by (simp add: reserved_Nil)
next
  case (2 f x xs pool)
  show ?case
  proof (cases "f x")
    case None
    then show ?thesis using 2 by simp
  next
    case (Some pages)
    with 2 obtain pool1 where p: "mem_reserve_ppool_ppages pool pages = Inr (True, pool1)" "reserve_loop f xs pool1 = Inr (True, pool')"
      by (auto split: if_splits)
    note r = reserve_sound [OF p(1) 2(4)]
    have "reserved pool1 (List.map_filter f xs) pool'" using 2(2) [OF Some p(1) refl _ p(2) reserved_ok [OF r 2(4)]] by simp
    from reserved_append [OF r this] Some show ?thesis by simp
  qed
qed

definition config_pages :: "config \<Rightarrow> ppages list" where
  "config_pages cfg = List.map_filter img_pages (vmlist cfg)
    @ List.map_filter rgn_pages (concat (List.map (\<lambda>vm. plat_regions (cfg_platform vm)) (vmlist cfg)))
    @ List.map_filter shm_pages (shmemlist cfg)"

lemma reserve_config_sound:
  assumes "mem_reserve_physical_memory cfg pool = Inr (True, pool')" "pool_ok pool"
  shows "reserved pool (config_pages cfg) pool'"
proof -
  obtain p1 p2 where p: "reserve_loop img_pages (vmlist cfg) pool = Inr (True, p1)"
      "reserve_loop rgn_pages (concat (List.map (\<lambda>vm. plat_regions (cfg_platform vm)) (vmlist cfg))) p1 = Inr (True, p2)"
      "reserve_loop shm_pages (shmemlist cfg) p2 = Inr (True, pool')"
    using assms(1) by (auto simp: mem_reserve_physical_memory_def split: if_splits)
  note r1 = reserve_loop_sound [OF p(1) assms(2)]
  note r2 = reserve_loop_sound [OF p(2) reserved_ok [OF r1 assms(2)]]
  note r3 = reserve_loop_sound [OF p(3) reserved_ok [OF r2 reserved_ok [OF r1 assms(2)]]]
  show ?thesis unfolding config_pages_def by (rule reserved_append [OF r1 reserved_append [OF r2 r3]])
qed

section \<open>Addresses\<close>

definition page_bytes :: "ppages \<Rightarrow> nat set" where
  "page_bytes pg = {unat (pp_base pg) ..< unat (pp_base pg) + num_pages pg * 4096}"

lemma range_in_rangeD:
  assumes "range_in_range b1 s1 b2 s2" "unat b2 + unat s2 < 2 ^ 64 - 1"
  shows "unat b2 \<le> unat b1 \<and> unat b1 + unat s1 \<le> unat b2 + unat s2"
proof -
  have l2: "unat (b2 + s2) = unat b2 + unat s2" using assms(2) by (intro unat_add_no_wrap) simp
  then have w2: "\<not> b2 + s2 < b2" by (simp add: word_less_nat_alt)
  have m: "\<not> (- 1 :: u64) \<le> b2 + s2" using l2 assms(2) by (simp add: word_le_nat_alt unsigned_minus_1_eq_mask mask_eq_exp_minus_1)
  have r: "b2 \<le> b1" "\<not> b1 + s1 < b1" "b1 + s1 \<le> b2 + s2" using assms(1) w2 m by (auto simp: range_in_range_def Let_def split: if_splits)
  then have "unat (b1 + s1) = unat b1 + unat s1"
    by (metis not_le olen_add_eqv unat_plus_simple add.commute)
  then show ?thesis using r l2 by (simp add: word_le_nat_alt)
qed

lemma in_pool_bytes:
  assumes "pages_in_pool pg pool" "unat (pp_base pg) mod 4096 = 0" "unat (pool_base pool) mod 4096 = 0"
    and "unat (pool_base pool) + pool_size pool * 4096 < 2 ^ 57" "num_pages pg * 4096 < 2 ^ 64"
  shows "x \<in> page_bytes pg \<longleftrightarrow> unat (pool_base pool) \<le> x \<and> (x - unat (pool_base pool)) div 4096 \<in> pool_pages pool pg"
proof -
  let ?b = "unat (pool_base pool)" and ?a = "unat (pp_base pg)"
  have n: "unat (of_nat (num_pages pg) * PAGE_SIZE :: u64) = num_pages pg * 4096"
    using unat_mul_no_wrap [of "of_nat (num_pages pg)" PAGE_SIZE] unat_of_nat_u64 [of "num_pages pg"] assms(5) by simp
  have sz: "unat (of_nat (pool_size pool) * PAGE_SIZE :: u64) = pool_size pool * 4096"
    using unat_mul_no_wrap [of "of_nat (pool_size pool)" PAGE_SIZE] unat_of_nat_u64 [of "pool_size pool"] assms(4) by simp
  have r: "?b \<le> ?a" "?a + num_pages pg * 4096 \<le> ?b + pool_size pool * 4096"
    using range_in_rangeD [OF assms(1) [unfolded pages_in_pool_def]] assms(4) unfolding n sz by simp_all
  have d: "unat (pp_base pg - pool_base pool) = ?a - ?b" using r(1) by (intro unat_sub_no_wrap) (simp add: word_le_nat_alt)
  obtain j where j: "?a = ?b + 4096 * j"
  proof -
    have "?a = 4096 * (?a div 4096)" "?b = 4096 * (?b div 4096)" using assms(2,3) by auto
    then have "?a = ?b + 4096 * (?a div 4096 - ?b div 4096)" using r(1) by (simp add: diff_mult_distrib2)
    then show ?thesis by (rule that)
  qed
  have "unat (NUM_PAGES (pp_base pg - pool_base pool)) = (4096 * j + 4095) div 4096"
    using unat_NUM_PAGES [of "pp_base pg - pool_base pool"] r assms(4) unfolding d j by simp
  then have pp: "pool_pages pool pg = {j ..< j + num_pages pg}" using assms(1) by (simp add: pool_pages_def)
  show ?thesis
  proof (cases "?b \<le> x")
    case True
    then obtain y where y: "x = ?b + y" by (metis le_Suc_ex)
    have "4096 * j \<le> y \<and> y < 4096 * j + num_pages pg * 4096 \<longleftrightarrow> j \<le> y div 4096 \<and> y div 4096 < j + num_pages pg" by linarith
    then show ?thesis unfolding page_bytes_def pp j y by simp
  next
    case False
    then show ?thesis unfolding page_bytes_def j by simp
  qed
qed

section \<open>What start-up reserves\<close>

text \<open>The bitmap, the hypervisor's image, the cores' private memory, and what the configuration places.\<close>

definition boot_pages :: "boot_env \<Rightarrow> config \<Rightarrow> paddr \<Rightarrow> u64 \<Rightarrow> nat \<Rightarrow> ppages list" where
  "boot_pages E cfg load cpu_size k =
    mem_ppages_get (root_bitmap_base E load cpu_size) (bitmap_pages k) # hyp_pages E load cpu_size @ config_pages (config_init cfg load)"

definition empty_pool :: "mem_region \<Rightarrow> page_pool" where
  "empty_pool reg = \<lparr>pool_base = ALIGN (mr_base reg) PAGE_SIZE, pool_size = unat (mr_size reg div PAGE_SIZE), free = mr_size reg div PAGE_SIZE,
    last_index = 0, pool_bitmap = replicate (bitmap_pages (unat (mr_size reg div PAGE_SIZE)) * 1024) 0\<rparr>"

lemma bitmap_pages_enough: "k \<le> bitmap_pages k * 32768" "bitmap_pages k * 32768 \<le> k + 32767"
proof -
  obtain q r where k: "k = q * 32768 + r" "r < 32768" by (rule that [of "k div 32768" "k mod 32768"]) simp_all
  then show "k \<le> bitmap_pages k * 32768" "bitmap_pages k * 32768 \<le> k + 32767"
    by (simp_all add: bitmap_pages_def)
qed

lemma region_pages: "unat (mr_size reg div PAGE_SIZE) * 4096 \<le> unat (mr_size reg)"
  by (simp add: unat_div)

lemma empty_pool_facts:
  "pool_ok (empty_pool reg)" "bm_len (pool_bitmap (empty_pool reg)) = bitmap_pages (pool_size (empty_pool reg)) * 32768"
proof -
  let ?n = "unat (mr_size reg div PAGE_SIZE)"
  have "?n * 4096 < 18446744073709551616" by (rule le_less_trans [OF region_pages unat_lt_u64])
  then have "?n < 2 ^ 52" by simp
  then show "pool_ok (empty_pool reg)" using bitmap_pages_enough [of ?n]
    by (simp add: pool_ok_def empty_pool_def bm_len_def SIZE_MAX_def)
  show "bm_len (pool_bitmap (empty_pool reg)) = bitmap_pages (pool_size (empty_pool reg)) * 32768" by (simp add: empty_pool_def bm_len_def)
qed

lemma reserve_three:
  assumes "foldR (\<lambda>pages (r, pool). bindR (mem_reserve_ppool_ppages pool pages) (\<lambda>(r', pool). Inr (r \<and> r', pool))) pgs (True, pool) = Inr (True, pool')"
    and "pool_ok pool"
  shows "reserved pool pgs pool'"
proof -
  have F: "r = True \<and> (r = True \<longrightarrow> pool_ok p \<longrightarrow> reserved p pgs pool')"
    if "foldR (\<lambda>pages (r, pool). bindR (mem_reserve_ppool_ppages pool pages) (\<lambda>(r', pool). Inr (r \<and> r', pool))) pgs (r, p) = Inr (True, pool')" for r p
    using that
  proof (induction pgs arbitrary: r p)
    case Nil
    then show ?case by (simp add: reserved_Nil)
  next
    case (Cons pg pgs)
    then obtain r1 p1 where s: "mem_reserve_ppool_ppages p pg = Inr (r1, p1)"
      and rest: "foldR (\<lambda>pages (r, pool). bindR (mem_reserve_ppool_ppages pool pages) (\<lambda>(r', pool). Inr (r \<and> r', pool))) pgs (r \<and> r1, p1) = Inr (True, pool')"
      by auto
    note ih = Cons.IH [OF rest]
    then have r: "r" "r1" by simp_all
    show ?case
    proof (intro conjI impI)
      show "r = True" using r by simp
      assume ok: "pool_ok p"
      have "reserved p [pg] p1" using s r(2) ok by (intro reserve_sound) simp_all
      moreover from reserved_ok [OF this ok] ih r have "reserved p1 pgs pool'" by simp
      ultimately show "reserved p (pg # pgs) pool'" using reserved_append [of p "[pg]" p1 pgs pool'] by simp
    qed
  qed
  then show ?thesis using assms by blast
qed


lemma reserved_last_index: "reserved p xs q \<Longrightarrow> reserved p xs (q\<lparr>last_index := k\<rparr>)" "reserved (q\<lparr>last_index := k\<rparr>) ys r \<Longrightarrow> reserved q ys r"
proof -
  have g: "pool_pages (q\<lparr>last_index := k\<rparr>) = pool_pages q" by (rule pool_pages_geo) (simp add: geo_def)
  show "reserved p xs q \<Longrightarrow> reserved p xs (q\<lparr>last_index := k\<rparr>)" by (simp add: reserved_def geo_def used_def)
  show "reserved (q\<lparr>last_index := k\<rparr>) ys r \<Longrightarrow> reserved q ys r" unfolding reserved_def g by (simp add: geo_def used_def)
qed

lemma mem_init_root_sound:
  assumes "mem_init_root E cfg load s = Inr (s', cfg', i)"
  shows "\<exists>z root. mem_cpu_boot_alloc_size E = Inr z \<and> page_pools s' = [root] \<and> cfg' = config_init cfg load
    \<and> reserved (empty_pool (plat_mem E ! i))
      (boot_pages E cfg load (of_nat (plat_cpus E) * z) (pool_size (empty_pool (plat_mem E ! i)))) root"
proof -
  let ?p0 = "empty_pool (plat_mem E ! i)"
  obtain s1 r where r: "mem_setup_root_pool E load s = Inr (s1, r)"
    using assms by (cases "mem_setup_root_pool E load s") (auto simp: mem_init_root_def)
  then obtain j pool1 where j: "r = Some (j, pool1)" using assms by (cases r) (auto simp: mem_init_root_def)
  obtain d root where res': "mem_reserve_physical_memory (config_init cfg load) pool1 = Inr (d, root)"
    using assms r j by (cases "mem_reserve_physical_memory (config_init cfg load) pool1") (auto simp: mem_init_root_def Let_def)
  have fin: "d" "s' = s1\<lparr>page_pools := [root]\<rparr>" "cfg' = config_init cfg load" "j = i"
    using assms unfolding mem_init_root_def r bindR_Inr prod.case j option.case Let_def res' by (simp_all split: if_splits)
  have su: "mem_setup_root_pool E load s = Inr (s1, Some (i, pool1))" using r j fin(4) by simp
  have res: "mem_reserve_physical_memory (config_init cfg load) pool1 = Inr (True, root)" using res' fin(1) by simp
  have s': "page_pools s' = [root]" "cfg' = config_init cfg load" using fin by simp_all
  have init: "pp_root_init E load (plat_mem E ! i) s = Inr (s1, True, pool1)"
    using su by (auto simp: mem_setup_root_pool_def split: option.splits if_splits)
  then obtain p2 p3 where bmp: "root_pool_set_up_bitmap E load (?p0\<lparr>pool_bitmap := []\<rparr>) s = Inr (s1, True, p2)"
    and hyp: "pp_root_reserve_hyp_mem E load p2 = Inr (True, p3)" and p1: "pool1 = p3\<lparr>last_index := 0\<rparr>"
    by (auto simp: pp_root_init_def Let_def empty_pool_def split: if_splits)
  obtain z where z: "mem_cpu_boot_alloc_size E = Inr z" using hyp by (auto simp: pp_root_reserve_hyp_mem_def)
  let ?c = "of_nat (plat_cpus E) * z"
  have "mem_reserve_ppool_ppages ?p0 (mem_ppages_get (root_bitmap_base E load ?c) (bitmap_pages (pool_size ?p0))) = Inr (True, p2)"
    using bmp z by (auto simp: root_pool_set_up_bitmap_def Let_def clear_bitmap_def empty_pool_def split: if_splits)
  note r1 = reserve_sound [OF this empty_pool_facts(1)]
  have ok2: "pool_ok p2" by (rule reserved_ok [OF r1 empty_pool_facts(1)])
  have r2: "reserved p2 (hyp_pages E load ?c) p3" using hyp z ok2 by (intro reserve_three) (simp_all add: pp_root_reserve_hyp_mem_def)
  have ok3: "pool_ok (p3\<lparr>last_index := 0\<rparr>)" using reserved_ok [OF r2 ok2] by (simp add: pool_ok_def)
  have r3: "reserved p3 (config_pages (config_init cfg load)) root"
    using reserved_last_index(2) [OF reserve_config_sound [OF res [unfolded p1] ok3]] .
  have "reserved ?p0 (boot_pages E cfg load ?c (pool_size ?p0)) root"
    using reserved_append [OF r1 reserved_append [OF r2 r3]] by (simp add: boot_pages_def)
  with z s' show ?thesis by blast
qed

lemma pages_bound: "unat (NUM_PAGES x) * 4096 < 2 ^ 64"
proof -
  have "unat (NUM_PAGES x) * 4096 \<le> unat (ALIGN x PAGE_SIZE)" by (simp add: NUM_PAGES_def unat_div)
  also have "\<dots> < 2 ^ 64" by simp
  finally show ?thesis .
qed

lemma boot_pages_bound:
  assumes "pg \<in> set (boot_pages E cfg load c k)" "k < 2 ^ 56"
  shows "num_pages pg * 4096 < 2 ^ 64"
proof -
  have mf: "\<exists>x \<in> set xs. f x = Some pg" if "pg \<in> set (List.map_filter f xs)" for f and xs :: "'x list"
    using that by (auto simp: List.map_filter_def)
  consider "pg = mem_ppages_get (root_bitmap_base E load c) (bitmap_pages k)" | "pg \<in> set (hyp_pages E load c)"
    | "pg \<in> set (config_pages (config_init cfg load))" using assms(1) by (auto simp: boot_pages_def)
  then show ?thesis
  proof cases
    case 1
    then show ?thesis using bitmap_pages_enough(2) [of k] assms(2) by (simp add: mem_ppages_get_def)
  next
    case 2
    then show ?thesis using pages_bound by (auto simp: hyp_pages_def Let_def mem_ppages_get_def)
  next
    case 3
    then obtain b x where "pg = mem_ppages_get b (unat (NUM_PAGES x))"
      by (auto simp: config_pages_def img_pages_def rgn_pages_def shm_pages_def dest!: mf split: if_splits)
    then show ?thesis using pages_bound by (simp add: mem_ppages_get_def)
  qed
qed

lemma alloc_bytes:
  assumes "allocates pool n k pool' pg" "unat (pool_base pool) + bm_len (pool_bitmap pool) * 4096 < 2 ^ 64" "x \<in> page_bytes pg"
  shows "unat (pool_base pool) \<le> x \<and> \<not> used pool ((x - unat (pool_base pool)) div 4096)"
proof -
  let ?b = "unat (pool_base pool)"
  have k: "k + n \<le> bm_len (pool_bitmap pool)" "\<forall>i \<in> {k..<k + n}. \<not> used pool i" "num_pages pg = n"
      "pp_base pg = pool_base pool + of_nat k * PAGE_SIZE"
    using assms(1) by (simp_all add: allocates_def)
  have m: "unat (of_nat k * PAGE_SIZE :: u64) = k * 4096"
    using unat_mul_no_wrap [of "of_nat k" PAGE_SIZE] unat_of_nat_u64 [of k] assms(2) k(1) by simp
  have "unat (pp_base pg) = ?b + k * 4096"
    unfolding k(4) using unat_add_no_wrap [of "pool_base pool" "of_nat k * PAGE_SIZE"] assms(2) k(1) unfolding m by simp
  then obtain y where y: "x = ?b + y" "k * 4096 \<le> y" "y < (k + n) * 4096"
    using assms(3) k(3) by (auto simp: page_bytes_def algebra_simps intro: that [of "x - ?b"])
  have "y div 4096 \<in> {k..<k + n}" using y(2,3) by (auto simp: div_less_iff_less_mult less_eq_div_iff_mult_less_eq)
  then show ?thesis using k(2) y(1) by simp
qed

definition demo_hyp_as :: addr_space where
  "demo_hyp_as = \<lparr>as_pt = \<lparr>pt_root = 0x80301000, pt_dscr = sv39_pt_dscr\<rparr>, as_typ = AS_HYP, as_colors = 0, as_id = 0\<rparr>"

definition demo_hyp_env :: mem_env where
  "demo_hyp_env = \<lparr>env_link = \<lparr>dmem_beg = 0x40000000, cpu_private_beg = 0x80000000, cpu_private_end = 0x90000000, image_start = 0xC0000000,
    image_end = 0xC0010000, vm_beg = 0x100000000, vm_end = 0x140000000\<rparr>, clr_num = 1, clr_size = 1, cpu_as = demo_hyp_as\<rparr>"

definition demo_boot_words :: pt_mem where
  "demo_boot_words = (\<lambda>_. 0)(0x80301008 := 0x200C0801, 0x80302000 := 0x200C0C01)"

definition demo_boot_env :: boot_env where
  "demo_boot_env = \<lparr>boot_mm = demo_hyp_env, sym_image_start = 0xC0000000, sym_image_load_end = 0xC0008000, sym_image_end = 0xC0010000,
    sym_vm_image_start = 0xC0020000, sym_vm_image_end = 0xC0022000, sizeof_cpu = 0x3000, plat_cpus = 1,
    plat_mem = [\<lparr>mr_base = 0x80200000, mr_size = 0x200000\<rparr>]\<rparr>"


lemmas demo_as_simps = demo_hyp_as_def sv39_pt_dscr_def

lemma demo_get:
  assumes "m 0x80301008 = 0x200C0801" "m 0x80302000 = 0x200C0C01"
  shows "pt_get_pte m (as_pt demo_hyp_as) 0 0x40000000 = Inr 0x80301008"
    and "pt_get_pte m (as_pt demo_hyp_as) 1 0x40000000 = Inr 0x80302000"
    and "pt_get_pte m (as_pt demo_hyp_as) 2 0x40000000 = Inr 0x80303000"
  using assms
  by (simp_all add: pt_get_pte_def pt_walk.simps pt_getpteindex_by_va_def pt_nentries_def demo_as_simps pte_at_def pte_valid_def
      pte_addr_def PTE_VALID_def PTE_ADDR_MSK_def mask_eq_exp_minus_1 rd_def)


lemma demo_fields:
  "lvls (pt_dscr (as_pt demo_hyp_as)) = 3" "lvl_off (pt_dscr (as_pt demo_hyp_as)) = [30, 21, 12]"
  "lvl_wdt (pt_dscr (as_pt demo_hyp_as)) = [39, 30, 21]" "lvl_term (pt_dscr (as_pt demo_hyp_as)) = [True, True, True]"
  "as_typ demo_hyp_as = AS_HYP" "as_colors demo_hyp_as = 0" "pt_root (as_pt demo_hyp_as) = 0x80301000"
  by (simp_all add: demo_as_simps)

lemmas demo_pt_simps = pt_getpteindex_def pt_size_def pt_nentries_def pt_lvlsize_def rd_def

lemma demo_rounds:
  assumes "pt_words s 0x80301008 = 0x200C0801" "pt_words s 0x80302000 = 0x200C0C01" "pt_words s 0x80303000 = 0"
  shows "vpage_round demo_hyp_env demo_hyp_as INVALID_VA 1 0x7FFFFFFF
      \<lparr>vs_lvl = 0, vs_addr = 0x40000000, vs_count = 0, vs_vpage = INVALID_VA, vs_failed = False\<rparr> s
      = Inr (\<lparr>vs_lvl = 1, vs_addr = 0x40000000, vs_count = 0, vs_vpage = INVALID_VA, vs_failed = False\<rparr>, s)"
    and "vpage_round demo_hyp_env demo_hyp_as INVALID_VA 1 0x7FFFFFFF
      \<lparr>vs_lvl = 1, vs_addr = 0x40000000, vs_count = 0, vs_vpage = INVALID_VA, vs_failed = False\<rparr> s
      = Inr (\<lparr>vs_lvl = 2, vs_addr = 0x40000000, vs_count = 0, vs_vpage = INVALID_VA, vs_failed = False\<rparr>, s)"
    and "vpage_round demo_hyp_env demo_hyp_as INVALID_VA 1 0x7FFFFFFF
      \<lparr>vs_lvl = 2, vs_addr = 0x40000000, vs_count = 0, vs_vpage = INVALID_VA, vs_failed = False\<rparr> s
      = Inr (\<lparr>vs_lvl = 2, vs_addr = 0x40001000, vs_count = 1, vs_vpage = 0x40000000, vs_failed = False\<rparr>, s)"
  using assms
  by (simp_all add: vpage_round_def demo_get demo_get(2) [unfolded One_nat_def] demo_fields demo_pt_simps vpage_entries.simps vpage_look_def ld_pte_def pte_check_rsw_def
      pte_valid_def pte_table_def PTE_VALID_def PTE_RSW_RSRV_def PTE_RSW_MSK_def mask_eq_exp_minus_1 pte_allocable_def MAX_VA_def)

lemma demo_search:
  assumes "pt_words s 0x80301008 = 0x200C0801" "pt_words s 0x80302000 = 0x200C0C01" "pt_words s 0x80303000 = 0"
  shows "mem_alloc_vpage demo_hyp_env demo_hyp_as SEC_HYP_GLOBAL INVALID_VA 1 s
    = Inr (s\<lparr>pt_words := (pt_words s)(0x80303000 := 0x300)\<rparr>, 0x40000000)"
proof -
  note r = demo_rounds [OF assms, unfolded One_nat_def]
  have se: "vpage_search demo_hyp_env demo_hyp_as INVALID_VA 1 0x7FFFFFFF
      \<lparr>vs_lvl = 0, vs_addr = 0x40000000, vs_count = 0, vs_vpage = INVALID_VA, vs_failed = False\<rparr> s
      = Some (Inr (\<lparr>vs_lvl = 2, vs_addr = 0x40001000, vs_count = 1, vs_vpage = 0x40000000, vs_failed = False\<rparr>, s))"
    unfolding One_nat_def
    by (subst vpage_search.simps, simp only: r sum.case prod.case vsearch.simps if_True not_False_eq_True simp_thms zero_less_Suc,
        subst vpage_search.simps, simp only: r sum.case prod.case vsearch.simps if_True not_False_eq_True simp_thms zero_less_Suc,
        subst vpage_search.simps, simp only: r sum.case prod.case vsearch.simps if_True not_False_eq_True simp_thms zero_less_Suc,
        subst vpage_search.simps, simp)
  have fi: "first_invalid demo_hyp_as 0x40000000 s 0 0 = Inr (0x80303000, 2)"
    using assms by (simp add: first_invalid.simps demo_fields demo_get demo_get(2) [unfolded One_nat_def] demo_get(3) [unfolded numeral_2_eq_2] ld_pte_def pte_valid_def PTE_VALID_def)
  have mr: "mark_round demo_hyp_as 0x40000000 0 s = Inr (0x40001000, 1, s\<lparr>pt_words := (pt_words s)(0x80303000 := 0x300)\<rparr>)"
    using assms by (simp add: mark_round_def fi ld_pte_def st_pte_def pte_set_rsw_def PTE_RSW_RSRV_def PTE_RSW_MSK_def mask_eq_exp_minus_1
        demo_pt_simps demo_fields)
  have mk: "mark_reserved demo_hyp_as 1 0x40000000 0 s = Some (Inr (s\<lparr>pt_words := (pt_words s)(0x80303000 := 0x300)\<rparr>))"
    by (subst mark_reserved.simps, simp only: mr sum.case prod.case if_True zero_less_one, subst mark_reserved.simps, simp)
  have hs: "hyp_secs (env_link demo_hyp_env) ! 0 = \<lparr>sec_beg = 0x40000000, sec_end = 0x7FFFFFFF, sec_shared = True\<rparr>"
    by (simp add: hyp_secs_def demo_hyp_env_def)
  have "INVALID_VA \<noteq> 0x40000000" by (simp add: INVALID_VA_def MAX_VA_def)
  then show ?thesis
    using hs by (simp add: mem_alloc_vpage_def demo_fields as_sections_def SEC_HYP_GLOBAL_def Let_def ended_def se [unfolded One_nat_def] mk [unfolded One_nat_def] IS_ALIGNED_def PAGE_SIZE_def
        INVALID_VA_def [symmetric] rd_def hyp_secs_def) 
qed

lemma demo_alloc_map:
  assumes "pt_words s 0x80301008 = 0x200C0801" "pt_words s 0x80302000 = 0x200C0C01" "pt_words s 0x80303000 = 0" "unat pa mod 4096 = 0"
  shows "\<exists>s'. mem_alloc_map demo_hyp_env demo_hyp_as SEC_HYP_GLOBAL (Some (mem_ppages_get pa 1)) INVALID_VA 1 PTE_HYP_FLAGS s
    = Inr (s', 0x40000000)"
proof -
  let ?s = "s\<lparr>pt_words := (pt_words s)(0x80303000 := 0x300)\<rparr>"
  have w: "pt_words ?s 0x80301008 = 0x200C0801" "pt_words ?s 0x80302000 = 0x200C0C01" using assms by simp_all
  have sc: "mem_find_sec demo_hyp_env demo_hyp_as 0x40000000 = Some 0" "mem_find_sec demo_hyp_env demo_hyp_as 0x40000FFF = Some 0"
    by (simp_all add: mem_find_sec_def demo_fields as_sections_def hyp_secs_def demo_hyp_env_def upt_rec)
  have de: "map_descend demo_hyp_env demo_hyp_as 0x40000000 pa 1 0 0 ?s = Inr (0x80303000, 2, ?s)"
    using w assms(4) by (simp add: map_descend.simps demo_pt_simps demo_get demo_get(2) [unfolded One_nat_def] demo_get(3) [unfolded numeral_2_eq_2] demo_fields pt_lvl_terminal_def
        rd_def ld_pte_def pt_pte_mappable_def pte_valid_def PTE_VALID_def pte_table_def)
  have "\<exists>s'. map_round demo_hyp_env demo_hyp_as False 1 PTE_HYP_FLAGS 0x40000000 pa 0 ?s = Inr (0x40001000, pa + 0x1000, 1, s')"
    unfolding map_round_def if_False diff_zero de bindR_Inr prod.case
    by (simp add: demo_pt_simps demo_fields, subst map_entries.simps, simp add: st_pte_def mem_ppages_get_def, subst map_entries.simps, simp)
  then obtain s' where mr: "map_round demo_hyp_env demo_hyp_as False 1 PTE_HYP_FLAGS 0x40000000 pa 0 ?s = Inr (0x40001000, pa + 0x1000, 1, s')" ..
  have "map_loop demo_hyp_env demo_hyp_as False 1 PTE_HYP_FLAGS 0x40000000 pa 0 ?s = Some (Inr s')"
    by (subst map_loop.simps, simp only: mr sum.case prod.case if_True zero_less_one, subst map_loop.simps, simp)
  then have "mem_map demo_hyp_env demo_hyp_as 0x40000000 (Some (mem_ppages_get pa 1)) 1 PTE_HYP_FLAGS ?s = Inr (s', True)"
    by (simp add: mem_map_def Let_def PAGE_SIZE_def sc ended_def mem_ppages_get_def all_clrs_def)
  then show ?thesis
    unfolding mem_alloc_map_def demo_search [OF assms(1-3)] by (simp add: INVALID_VA_def MAX_VA_def)
qed

text \<open>
  C13. What start-up reserves stays reserved: when the set-up of the root pool returns, the pages of
  its bitmap, of the hypervisor's image, of the cores' private memory and of every image, region
  and shared memory that the configuration places in the root region do not overlap each other
  (an overlap stops start-up), and no later allocation of contiguous pages (\<open>pp_alloc\<close>, which
  serves requests of all colours and aligned ones) ever hands out a byte of them, as long as they
  are not freed. The load address, images, regions and shared memories are page aligned, as whole
  pages from the page containing them are reserved, and the root region ends below $2^{56}$. The
  coloured allocator gives no such guarantee: it can take pages in use
  (\<open>pp_alloc_clr_double_allocates\<close> of Page_Pools).
\<close>

theorem boot_memory_stays_reserved:
  assumes "mem_init_root E cfg load s = Inr (s', cfg', i)" "mem_cpu_boot_alloc_size E = Inr z"
    and "unat (mr_base (plat_mem E ! i)) + unat (mr_size (plat_mem E ! i)) \<le> 2 ^ 56"
    and "pgs = boot_pages E cfg load (of_nat (plat_cpus E) * z) (unat (mr_size (plat_mem E ! i) div PAGE_SIZE))"
    and "\<forall>pg \<in> set pgs. unat (pp_base pg) mod 4096 = 0"
  shows "\<exists>root. page_pools s' = [root]
    \<and> sorted_wrt (\<lambda>p q. pages_in_pool p root \<longrightarrow> pages_in_pool q root \<longrightarrow> page_bytes p \<inter> page_bytes q = {}) pgs
    \<and> (\<forall>pool n aligned pg0 pool' pg q. geo pool = geo root \<longrightarrow> bm_len (pool_bitmap pool) = bm_len (pool_bitmap root)
        \<longrightarrow> (\<forall>k. used root k \<longrightarrow> used pool k) \<longrightarrow> 0 < n \<longrightarrow> pp_alloc pool n aligned pg0 = Inr (True, pool', pg)
        \<longrightarrow> q \<in> set pgs \<longrightarrow> pages_in_pool q root \<longrightarrow> page_bytes pg \<inter> page_bytes q = {})"
proof -
  let ?p0 = "empty_pool (plat_mem E ! i)" and ?reg = "plat_mem E ! i"
  obtain root where root: "page_pools s' = [root]" "reserved ?p0 pgs root"
    using mem_init_root_sound [OF assms(1)] assms(2,4) by (auto simp: empty_pool_def)
  note r = reservedD [OF root(2)]
  have base: "pool_base root = ALIGN (mr_base ?reg) PAGE_SIZE" and size: "pool_size root = unat (mr_size ?reg div PAGE_SIZE)"
    using r(1) by (simp_all add: geo_def empty_pool_def)
  have ub: "unat (pool_base root) = (unat (mr_base ?reg) + 4095) div 4096 * 4096"
    unfolding base using assms(3) by (intro unat_ALIGN) simp
  have top: "unat (pool_base root) + bm_len (pool_bitmap root) * 4096 < 2 ^ 57"
  proof -
    have "unat (pool_base root) \<le> unat (mr_base ?reg) + 4095" unfolding ub by simp
    moreover have "bm_len (pool_bitmap root) \<le> pool_size root + 32767"
      using r(1,2) empty_pool_facts(2) [of ?reg] bitmap_pages_enough(2) [of "pool_size root"] by (simp add: geo_def)
    moreover have "pool_size root * 4096 \<le> unat (mr_size ?reg)" unfolding size by (rule region_pages)
    ultimately show ?thesis using assms(3) by simp
  qed
  have ok: "pool_ok root" by (rule reserved_ok [OF root(2) empty_pool_facts(1)])
  then have le: "pool_size root * 4096 \<le> bm_len (pool_bitmap root) * 4096" by (simp add: pool_ok_def)
  have pp: "pool_pages ?p0 = pool_pages root" by (rule pool_pages_geo [OF r(1) [symmetric]])
  have bytes: "x \<in> page_bytes q \<longleftrightarrow> unat (pool_base root) \<le> x \<and> (x - unat (pool_base root)) div 4096 \<in> pool_pages root q"
    if "q \<in> set pgs" "pages_in_pool q root" for q x
  proof (rule in_pool_bytes [OF that(2)])
    show "unat (pp_base q) mod 4096 = 0" using assms(5) that(1) by blast
    show "unat (pool_base root) mod 4096 = 0" unfolding ub by simp
    show "unat (pool_base root) + pool_size root * 4096 < 2 ^ 57" using top le by simp
    have "pool_size root < 2 ^ 56" using top le by simp
    then show "num_pages q * 4096 < 2 ^ 64" using boot_pages_bound that(1) unfolding assms(4) size by blast
  qed
  have "sorted_wrt (\<lambda>p q. pages_in_pool p root \<longrightarrow> pages_in_pool q root \<longrightarrow> page_bytes p \<inter> page_bytes q = {}) pgs"
    using r(4) unfolding pp by (rule sorted_wrt_mono_rel [rotated]) (use bytes in blast)
  moreover have "page_bytes pg \<inter> page_bytes q = {}"
    if "geo pool = geo root" "bm_len (pool_bitmap pool) = bm_len (pool_bitmap root)" "\<forall>k. used root k \<longrightarrow> used pool k" "0 < n"
      "pp_alloc pool n aligned pg0 = Inr (True, pool', pg)" "q \<in> set pgs" "pages_in_pool q root" for pool n aligned pg0 pool' pg q
  proof -
    have "pool_ok pool" using ok that(1,2) by (simp add: pool_ok_def geo_def)
    from pp_alloc_sound [OF that(5,4) this] obtain k where al: "allocates pool n k pool' pg" by auto
    have b: "pool_base pool = pool_base root" using that(1) by (simp add: geo_def)
    have "unat (pool_base root) \<le> x \<and> \<not> used pool ((x - unat (pool_base root)) div 4096)" if "x \<in> page_bytes pg" for x
      using alloc_bytes [OF al _ that] top b \<open>bm_len (pool_bitmap pool) = bm_len (pool_bitmap root)\<close> by simp
    moreover have "used pool k" if "k \<in> pool_pages root q" for k
      using r(5) [of k] that \<open>q \<in> set pgs\<close> \<open>\<forall>k. used root k \<longrightarrow> used pool k\<close> unfolding pp by blast
    ultimately show ?thesis using bytes [OF that(6,7)] by blast
  qed
  ultimately show ?thesis using root(1) by blast
qed

definition demo_pool_at :: "page_pool \<Rightarrow> nat set \<Rightarrow> bool" where
  "demo_pool_at p S \<longleftrightarrow> free p = 512 - of_nat (card S) \<and> pool_base p = 0x80200000 \<and> pool_size p = 512 \<and> bm_len (pool_bitmap p) = 32768
    \<and> (\<forall>i < 32768. used p i \<longleftrightarrow> i \<in> S) \<and> S \<subseteq> {..<512}"

lemma demo_reserve:
  assumes "demo_pool_at p S" "a = 0x80200000 + of_nat k * PAGE_SIZE" "\<forall>i \<in> S. i < k \<or> k + n \<le> i" "k + n \<le> 512" "0 < n"
  shows "\<exists>p'. mem_reserve_ppool_ppages p (mem_ppages_get a n) = Inr (True, p') \<and> demo_pool_at p' (S \<union> {k..<k + n})"
proof -
  have dj: "S \<inter> {k..<k + n} = {}" using assms(3) by force
  have fr0: "free p = 512 - of_nat (card S)" using assms(1) by (simp add: demo_pool_at_def)
  have p: "pool_base p = 0x80200000" "pool_size p = 512" "bm_len (pool_bitmap p) = 32768" "\<And>i. i < 32768 \<Longrightarrow> used p i \<longleftrightarrow> i \<in> S" "S \<subseteq> {..<512}"
    using assms(1) by (auto simp: demo_pool_at_def)
  have ok: "pool_ok p" by (simp add: pool_ok_def p SIZE_MAX_def)
  have ct: "clear_tail n p" using assms(4) p(5) by (auto simp: clear_tail_def p(1-4))
  have fr: "\<forall>i \<in> {k..<k + n}. \<not> used p i" using dj assms(4) by (auto simp: p)
  obtain p' where r: "mem_reserve_ppool_ppages p (mem_ppages_get a n) = Inr (True, p')"
      "\<forall>i. used p' i \<longleftrightarrow> used p i \<or> i \<in> {k..<k + n}" "free p' = free p - of_nat n"
    using reserve_exact [OF ok ct assms(5), of k] assms(2,4) fr by (auto simp: p)
  have "geo p' = geo p" "bm_len (pool_bitmap p') = bm_len (pool_bitmap p)"
    using reservedD(1,2) [OF reserve_sound [OF r(1) ok]] by simp_all
  moreover have "card (S \<union> {k..<k + n}) = card S + n"
    using dj finite_subset [OF p(5)] by (simp add: card_Un_disjoint)
  ultimately have "demo_pool_at p' (S \<union> {k..<k + n})" using p r(2,3) fr0 assms(4) by (auto simp: demo_pool_at_def geo_def)
  with r(1) show ?thesis by blast
qed

definition demo_boot_config :: config where
  "demo_boot_config = \<lparr>hyp_colors = 0, shmemlist = [], vmlist = [\<lparr>
    cfg_image = \<lparr>base_addr = 0x80340000, load_addr = 0x80340000, img_size = 0x800, separately_loaded = True, inplace = False\<rparr>,
    cfg_entry = 0x80340000, cpu_affinity = 0, cfg_colors = 0,
    cfg_platform = \<lparr>plat_cpu_num = 1,
      plat_regions = [\<lparr>rgn_base = 0x80340000, rgn_size = 0x10000, rgn_colors = 0, rgn_place_phys = True, rgn_phys = 0x80340000\<rparr>],
      plat_ipcs = [], plat_devs = [], plat_plic_base = 0\<rparr>,
    cfg_criticality = CRIT_LOW,
    cfg_health = \<lparr>enabled = False, heartbeat_period_ms = 0, timeout_ms = 0, cfg_max_missed = 0, auto_recover = False, max_recoveries = 0\<rparr>\<rparr>]\<rparr>"

definition demo_boot_mem :: mem_state where
  "demo_boot_mem = \<lparr>pt_words = demo_boot_words, page_pools = [], tlb_log = []\<rparr>"

lemma demo_cpu_size: "mem_cpu_boot_alloc_size demo_boot_env = Inr 0x6000"
  by (simp add: mem_cpu_boot_alloc_size_def demo_boot_env_def demo_hyp_env_def demo_as_simps upt_rec pt_size_def pt_nentries_def rd_def
      ALIGN_def PAGE_SIZE_def)

lemma demo_init_root:
  "\<exists>s' root. mem_init_root demo_boot_env demo_boot_config 0x80200000 demo_boot_mem = Inr (s', demo_boot_config, 0)
    \<and> page_pools s' = [root] \<and> demo_pool_at root ({24..<25} \<union> {0..<8} \<union> {10..<18} \<union> {18..<24} \<union> {320..<336})"
proof -
  let ?E = demo_boot_env and ?reg = "\<lparr>mr_base = 0x80200000, mr_size = 0x200000\<rparr>"
  have e: "plat_mem ?E = [?reg]" "boot_mm ?E = demo_hyp_env" "cpu_as demo_hyp_env = demo_hyp_as" by (simp_all add: demo_boot_env_def demo_hyp_env_def)
  have fr: "mem_find_root_region ?E 0x80200000 = Some 0"
    by (simp add: mem_find_root_region_def e upt_rec range_in_range_def demo_boot_env_def)
  have bb: "root_bitmap_base ?E 0x80200000 0x6000 = 0x80218000" by (simp add: root_bitmap_base_def demo_boot_env_def)
  obtain s1 where am: "mem_alloc_map demo_hyp_env demo_hyp_as SEC_HYP_GLOBAL (Some (mem_ppages_get 0x80218000 1)) INVALID_VA 1 PTE_HYP_FLAGS
      demo_boot_mem = Inr (s1, 0x40000000)"
    using demo_alloc_map [of demo_boot_mem "0x80218000"] by (auto simp: demo_boot_mem_def demo_boot_words_def)
  define p0 where "p0 = \<lparr>pool_base = 0x80200000, pool_size = 512, free = 512, last_index = 0, pool_bitmap = replicate 1024 0\<rparr>"
  have "demo_pool_at p0 {}" by (simp add: demo_pool_at_def p0_def bm_len_def used_def bm_bit_def)
  from demo_reserve [OF this, of "0x80218000" 24 1] obtain p1 where
    p1: "mem_reserve_ppool_ppages p0 (mem_ppages_get 0x80218000 1) = Inr (True, p1)" "demo_pool_at p1 {24..<25}" by (auto simp: PAGE_SIZE_def ball_Un)
  from demo_reserve [OF p1(2), of "0x80200000" 0 8] obtain p2 where
    p2: "mem_reserve_ppool_ppages p1 (mem_ppages_get 0x80200000 8) = Inr (True, p2)" "demo_pool_at p2 ({24..<25} \<union> {0..<8})" by (auto simp: PAGE_SIZE_def ball_Un)
  from demo_reserve [OF p2(2), of "0x8020A000" 10 8] obtain p3 where
    p3: "mem_reserve_ppool_ppages p2 (mem_ppages_get 0x8020A000 8) = Inr (True, p3)" "demo_pool_at p3 ({24..<25} \<union> {0..<8} \<union> {10..<18})" by (auto simp: PAGE_SIZE_def ball_Un)
  from demo_reserve [OF p3(2), of "0x80212000" 18 6] obtain p4 where
    p4: "mem_reserve_ppool_ppages p3 (mem_ppages_get 0x80212000 6) = Inr (True, p4)"
      "demo_pool_at p4 ({24..<25} \<union> {0..<8} \<union> {10..<18} \<union> {18..<24})" by (auto simp: PAGE_SIZE_def ball_Un)
  let ?p4 = "p4\<lparr>last_index := 0\<rparr>"
  have "demo_pool_at ?p4 ({24..<25} \<union> {0..<8} \<union> {10..<18} \<union> {18..<24})" using p4(2) by (simp add: demo_pool_at_def used_def)
  from demo_reserve [OF this, of "0x80340000" 320 16] obtain p5 where
    p5: "mem_reserve_ppool_ppages ?p4 (mem_ppages_get 0x80340000 16) = Inr (True, p5)"
      "demo_pool_at p5 ({24..<25} \<union> {0..<8} \<union> {10..<18} \<union> {18..<24} \<union> {320..<336})" by (auto simp: PAGE_SIZE_def ball_Un)
  have hp: "hyp_pages ?E 0x80200000 0x6000 = [mem_ppages_get 0x80200000 8, mem_ppages_get 0x8020A000 8, mem_ppages_get 0x80212000 6]"
    by (simp add: hyp_pages_def demo_boot_env_def NUM_PAGES_def ALIGN_def PAGE_SIZE_def)
  have n: "plat_cpus ?E = 1" by (simp add: demo_boot_env_def)
  have bm: "root_pool_set_up_bitmap ?E 0x80200000 \<lparr>pool_base = 0x80200000, pool_size = 512, free = 512, last_index = 0, pool_bitmap = []\<rparr>
      demo_boot_mem = Inr (s1, True, p1)"
    using am p1(1) by (simp add: root_pool_set_up_bitmap_def demo_cpu_size n Let_def bitmap_pages_def bb e clear_bitmap_def INVALID_VA_def MAX_VA_def p0_def)
  have hy: "pp_root_reserve_hyp_mem ?E 0x80200000 p1 = Inr (True, p4)"
    using p2(1) p3(1) p4(1) by (simp add: pp_root_reserve_hyp_mem_def demo_cpu_size n hp)
  have "pp_root_init ?E 0x80200000 ?reg demo_boot_mem = Inr (s1, True, ?p4)"
    using bm hy by (simp add: pp_root_init_def Let_def ALIGN_def PAGE_SIZE_def)
  then have su: "mem_setup_root_pool ?E 0x80200000 demo_boot_mem = Inr (s1, Some (0, ?p4))"
    by (simp add: mem_setup_root_pool_def fr e)
  have cf: "config_init demo_boot_config 0x80200000 = demo_boot_config"
    by (simp add: config_init_def config_adjust_vm_image_addr_def demo_boot_config_def)
  have "mem_reserve_physical_memory demo_boot_config ?p4 = Inr (True, p5)"
    using p5(1) by (simp add: mem_reserve_physical_memory_def demo_boot_config_def img_pages_def mem_vm_img_in_phys_rgn_def
        range_in_range_def rgn_pages_def NUM_PAGES_def ALIGN_def PAGE_SIZE_def)
  then have "mem_init_root ?E demo_boot_config 0x80200000 demo_boot_mem = Inr (s1\<lparr>page_pools := [p5]\<rparr>, demo_boot_config, 0)"
    by (simp add: mem_init_root_def su cf Let_def)
  with p5(2) show ?thesis by auto
qed

theorem boot_memory_stays_reserved_witness:
  "\<exists>s' root. mem_init_root demo_boot_env demo_boot_config 0x80200000 demo_boot_mem = Inr (s', demo_boot_config, 0)
    \<and> page_pools s' = [root] \<and> (\<exists>pool' pg. pp_alloc root 4 False (mem_ppages_get 0 0) = Inr (True, pool', pg)
      \<and> page_bytes pg \<inter> {0x80340000..<0x80350000} = {} \<and> page_bytes pg \<inter> {0x80200000..<0x80208000} = {})"
proof -
  obtain s' root where r: "mem_init_root demo_boot_env demo_boot_config 0x80200000 demo_boot_mem = Inr (s', demo_boot_config, 0)"
      "page_pools s' = [root]" "demo_pool_at root ({24..<25} \<union> {0..<8} \<union> {10..<18} \<union> {18..<24} \<union> {320..<336})"
    using demo_init_root by blast
  let ?pgs = "boot_pages demo_boot_env demo_boot_config 0x80200000 (of_nat (plat_cpus demo_boot_env) * 0x6000)
      (unat (mr_size (plat_mem demo_boot_env ! 0) div PAGE_SIZE))"
  have hp: "hyp_pages demo_boot_env 0x80200000 0x6000 = [mem_ppages_get 0x80200000 8, mem_ppages_get 0x8020A000 8, mem_ppages_get 0x80212000 6]"
    by (simp add: hyp_pages_def demo_boot_env_def NUM_PAGES_def ALIGN_def PAGE_SIZE_def)
  have cp: "config_pages (config_init demo_boot_config 0x80200000) = [mem_ppages_get 0x80340000 16]"
    by (simp add: config_pages_def config_init_def config_adjust_vm_image_addr_def demo_boot_config_def img_pages_def
        mem_vm_img_in_phys_rgn_def range_in_range_def rgn_pages_def NUM_PAGES_def ALIGN_def PAGE_SIZE_def)
  have pgs: "?pgs = [mem_ppages_get 0x80218000 1, mem_ppages_get 0x80200000 8, mem_ppages_get 0x8020A000 8, mem_ppages_get 0x80212000 6,
      mem_ppages_get 0x80340000 16]"
  proof -
    have "plat_cpus demo_boot_env = 1" "plat_mem demo_boot_env ! 0 = \<lparr>mr_base = 0x80200000, mr_size = 0x200000\<rparr>"
      "root_bitmap_base demo_boot_env 0x80200000 0x6000 = 0x80218000" "bitmap_pages 512 = 1" "unat ((0x200000 :: u64) div PAGE_SIZE) = 512"
      by (simp_all add: demo_boot_env_def root_bitmap_base_def bitmap_pages_def PAGE_SIZE_def)
    then show ?thesis by (simp add: boot_pages_def hp cp)
  qed
  have mr: "unat (mr_base (plat_mem demo_boot_env ! 0)) + unat (mr_size (plat_mem demo_boot_env ! 0)) \<le> 2 ^ 56" by (simp add: demo_boot_env_def)
  have al: "\<forall>pg \<in> set ?pgs. unat (pp_base pg) mod 4096 = 0" unfolding pgs by (simp add: mem_ppages_get_def)
  have main: "page_bytes pg \<inter> page_bytes q = {}"
    if "pp_alloc root 4 False (mem_ppages_get 0 0) = Inr (True, pool', pg)" "q \<in> set ?pgs" "pages_in_pool q root" for pool' pg q
  proof -
    obtain root' where root': "page_pools s' = [root']" and A: "\<forall>pool n aligned pg0 pool' pg q. geo pool = geo root' \<longrightarrow>
        bm_len (pool_bitmap pool) = bm_len (pool_bitmap root') \<longrightarrow> (\<forall>k. used root' k \<longrightarrow> used pool k) \<longrightarrow> 0 < n \<longrightarrow>
        pp_alloc pool n aligned pg0 = Inr (True, pool', pg) \<longrightarrow> q \<in> set ?pgs \<longrightarrow> pages_in_pool q root' \<longrightarrow> page_bytes pg \<inter> page_bytes q = {}"
      using boot_memory_stays_reserved [OF r(1) demo_cpu_size mr refl al] by (elim exE conjE) (rule that)
    have eq: "root' = root" using root' r(2) by simp
    show ?thesis by (rule A [unfolded eq, rule_format, OF refl refl _ _ that]) simp_all
  qed
  have ok: "pool_ok root" "clear_tail 4 root" using r(3) by (auto simp: demo_pool_at_def pool_ok_def SIZE_MAX_def clear_tail_def)
  have in_pool: "pages_in_pool (mem_ppages_get 0x80340000 16) root" "pages_in_pool (mem_ppages_get 0x80200000 8) root"
    using r(3) by (simp_all add: demo_pool_at_def pages_in_pool_def range_in_range_def mem_ppages_get_def PAGE_SIZE_def)
  have bytes: "page_bytes (mem_ppages_get 0x80340000 16) = {0x80340000..<0x80350000}" "page_bytes (mem_ppages_get 0x80200000 8) = {0x80200000..<0x80208000}"
    by (simp_all add: page_bytes_def mem_ppages_get_def)
  obtain got pool' pg where a: "pp_alloc root 4 False (mem_ppages_get 0 0) = Inr (got, pool', pg)"
    using pp_alloc_total [OF _ ok, of False "mem_ppages_get 0 0"] by auto
  have "got"
  proof (rule ccontr)
    assume ng: "\<not> got"
    have "free root \<noteq> 0 \<longrightarrow> \<not> run (pool_bitmap root) 100 4 False"
      using pp_alloc_complete [of root 4 "mem_ppages_get 0 0" pool' pg 100] a ng ok(1) r(3) by (auto simp: demo_pool_at_def)
    moreover have "run (pool_bitmap root) 100 4 False" using r(3) by (auto simp: demo_pool_at_def run_def used_def)
    moreover have "free root \<noteq> 0"
    proof -
      let ?xs = "[24..<25] @ [0..<8] @ [10..<18] @ [18..<24] @ [320..<336::nat]"
      have "set ?xs = {24..<25} \<union> {0..<8} \<union> {10..<18} \<union> {18..<24} \<union> {320..<336}" by (simp only: set_append set_upt Un_assoc)
      moreover have "card (set ?xs) = length ?xs" by (intro distinct_card) auto
      ultimately have "card ({24..<25} \<union> {0..<8} \<union> {10..<18} \<union> {18..<24} \<union> {320..<336::nat}) = 39" by simp
      then show ?thesis using r(3) by (simp add: demo_pool_at_def)
    qed
    ultimately show False by blast
  qed
  with a main [of pool' pg] in_pool show ?thesis using r(1,2) unfolding pgs by (auto simp: bytes [symmetric])
qed

end
