(* ===== verification/Caches.thy ===== *)
theory Caches
  imports Page_Pools
begin

text \<open>
  The page colours of \<open>src/core/cache.c\<close> and what they are for: pages of different colours never
  compete for a set of the last-level cache.
\<close>

section \<open>The code\<close>

datatype cache_type = UNIFIED | SEPARATE | DATA | INSTRUCTION
datatype cache_indexed = PIPT | VIPT

text \<open>The inner lists have two entries, for data (or unified, whose value is 0) and instructions.\<close>

record cache =
  cache_lvls :: nat
  min_shared_lvl :: nat
  cache_typ :: "cache_type list"
  cache_idx :: "cache_indexed list list"
  line_size :: "u64 list list"
  assoc :: "u64 list list"
  numset :: "u64 list list"

definition rd2 :: "'a list list \<Rightarrow> nat \<Rightarrow> nat \<Rightarrow> 'a res" where
  "rd2 xs i j = bindR (rd xs i) (\<lambda>ys. rd ys j)"

definition divide :: "u64 \<Rightarrow> u64 \<Rightarrow> u64 res" where
  "divide a b = (if b = 0 then Inl Div_zero else Inr (a div b))"

definition way_size :: "cache \<Rightarrow> nat \<Rightarrow> nat \<Rightarrow> u64 res" where
  "way_size c i j = bindR (rd2 (numset c) i j) (\<lambda>n. bindR (rd2 (line_size c) i j) (\<lambda>l. Inr (n * l)))"

text \<open>The way size of the first level: the smaller one where a virtually indexed data cache allows.\<close>

definition flc_way_size :: "cache \<Rightarrow> u64 res" where
  "flc_way_size c =
    bindR (rd (cache_typ c) 0) (\<lambda>t.
    if t \<noteq> UNIFIED then
      bindR (way_size c 0 0) (\<lambda>d.
      bindR (way_size c 0 1) (\<lambda>i.
      bindR (rd2 (cache_idx c) 0 0) (\<lambda>xd.
      bindR (rd2 (cache_idx c) 0 1) (\<lambda>xi.
      Inr (if (xd = PIPT \<or> i < d) \<and> xi = PIPT then i else d)))))
    else Inr 0)"

text \<open>The result is \<open>COLOR_NUM\<close> and \<open>COLOR_SIZE\<close>.\<close>

definition cache_calc_colors :: "cache \<Rightarrow> u64 \<Rightarrow> u64 \<times> u64 \<Rightarrow> (u64 \<times> u64) res" where
  "cache_calc_colors c page_size clrs =
    (if cache_lvls c = 0 then Inr clrs
     else
       let llc = min_shared_lvl c in
       bindR (rd (cache_typ c) llc) (\<lambda>t.
       if t \<noteq> UNIFIED then Inr clrs
       else
         bindR (rd2 (cache_idx c) llc 0) (\<lambda>x.
         if x \<noteq> PIPT then Inr clrs
         else
           bindR (way_size c llc 0) (\<lambda>llc_way_size.
           bindR (flc_way_size c) (\<lambda>flc_way.
           bindR (divide llc_way_size page_size) (\<lambda>llc_num_colors.
           bindR (divide flc_way page_size) (\<lambda>flc_num_colors.
           bindR (divide llc_num_colors flc_num_colors) (\<lambda>color_num.
           Inr (color_num, flc_num_colors)))))))))"

definition cache_arch_enumerate :: "cache \<Rightarrow> cache" where
  "cache_arch_enumerate plat_cache = plat_cache"

definition cache_enumerate :: "cache \<Rightarrow> (u64 \<times> u64) res" where
  "cache_enumerate plat_cache = cache_calc_colors (cache_arch_enumerate plat_cache) PAGE_SIZE (1, 1)"

text \<open>A unified first level leaves the size 0, and the last division divides by it.\<close>

lemma unified_first_level_divides_by_zero:
  assumes "cache_lvls c \<noteq> 0" "rd (cache_typ c) 0 = Inr UNIFIED" "rd (cache_typ c) (min_shared_lvl c) = Inr UNIFIED"
    and "rd2 (cache_idx c) (min_shared_lvl c) 0 = Inr PIPT" "ok (way_size c (min_shared_lvl c) 0)"
  shows "cache_enumerate c = Inl Div_zero"
  using assms by (auto simp: cache_enumerate_def cache_arch_enumerate_def cache_calc_colors_def flc_way_size_def divide_def PAGE_SIZE_def ok_iff)

section \<open>Colours and cache sets\<close>

text \<open>The set of a physically indexed cache an address goes to, and the colour of its page.\<close>

definition llc_set :: "nat \<Rightarrow> nat \<Rightarrow> nat \<Rightarrow> nat" where
  "llc_set line sets a = a div line mod sets"

definition page_color :: "nat \<Rightarrow> nat \<Rightarrow> nat \<Rightarrow> nat" where
  "page_color cn cs a = a div 4096 div cs mod cn"

lemma div_mod_swap: "(x div m) mod c = (x mod (m * c)) div m" for x m c :: nat
  by (cases "m = 0") (simp_all add: mod_mult2_eq)

text \<open>An address's set determines its colour, when the colours cut the way evenly.\<close>

lemma page_color_of_set:
  assumes "line * sets = cn * cs * 4096" "line dvd 4096" "0 < line"
  obtains k where "\<And>x. page_color cn cs x = llc_set line sets x div k"
proof -
  obtain k where k: "4096 = line * k" using assms(2) by (elim dvdE)
  have "line * sets = line * (k * cs * cn)" using assms(1) unfolding k by (simp only: ac_simps)
  then have sets: "sets = k * cs * cn" using assms(3) by simp
  have "page_color cn cs x = llc_set line sets x div (k * cs)" for x
  proof -
    have "x div 4096 div cs = x div line div (k * cs)" unfolding k by (simp only: div_mult2_eq)
    then show ?thesis unfolding page_color_def llc_set_def sets by (simp only: div_mod_swap [of _ "k * cs"])
  qed
  then show ?thesis using that by blast
qed

lemma same_set_same_color:
  assumes "line * sets = cn * cs * 4096" "line dvd 4096" "0 < line" "llc_set line sets a = llc_set line sets b"
  shows "page_color cn cs a = page_color cn cs b"
  by (metis page_color_of_set [OF assms(1-3)] assms(4))

text \<open>The colour the page pools give a page is that of its addresses.\<close>

lemma has_clr_page_color:
  assumes "4096 dvd base" "base + i * 4096 \<le> a" "a < base + i * 4096 + 4096"
  shows "has_clr cn cs (base div 4096 mod (cn * cs)) colors i \<longleftrightarrow> bit colors (page_color cn cs a)"
proof -
  obtain q where q: "base = 4096 * q" using assms(1) by (elim dvdE)
  have a: "a div 4096 = i + q" using assms(2,3) unfolding q by (intro div_nat_eqI) auto
  have "(i + q mod (cn * cs)) div cs mod cn = (i + q) div cs mod cn"
    by (simp only: div_mod_swap [of _ cs cn] mult.commute [of cn cs] mod_add_right_eq)
  then show ?thesis unfolding has_clr_def page_color_def a q by simp
qed

lemma disjoint_colors: "c1 AND c2 = 0 \<Longrightarrow> bit c1 n \<Longrightarrow> \<not> bit c2 n" for c1 c2 :: u64
  by (metis bit_and_iff bit_0_eq bot_fun_def bot_bool_def)

text \<open>What the start-up computes: the ways of the last level over those of the first.\<close>

lemma cache_enumerate_way:
  assumes "cache_enumerate c = Inr (cn, cs)" "cache_lvls c \<noteq> 0"
    and "rd (cache_typ c) (min_shared_lvl c) = Inr UNIFIED" "rd2 (cache_idx c) (min_shared_lvl c) 0 = Inr PIPT"
    and "rd2 (numset c) (min_shared_lvl c) 0 = Inr sets" "rd2 (line_size c) (min_shared_lvl c) 0 = Inr line"
  shows "cn = sets * line div 4096 div cs \<and> cs \<noteq> 0"
  using assms by (auto simp: cache_enumerate_def cache_arch_enumerate_def cache_calc_colors_def way_size_def divide_def PAGE_SIZE_def
      split: if_splits)

lemma cache_enumerate_exact:
  assumes "cache_enumerate c = Inr (cn, cs)" "cache_lvls c \<noteq> 0"
    and "rd (cache_typ c) (min_shared_lvl c) = Inr UNIFIED" "rd2 (cache_idx c) (min_shared_lvl c) 0 = Inr PIPT"
    and "rd2 (numset c) (min_shared_lvl c) 0 = Inr sets" "rd2 (line_size c) (min_shared_lvl c) 0 = Inr line"
    and "unat sets * unat line < 2 ^ 64" "4096 * unat cs dvd unat sets * unat line"
  shows "unat line * unat sets = unat cn * unat cs * 4096"
proof -
  have way: "unat (sets * line) = unat sets * unat line" using assms(7) by (simp add: unat_mult_lem [THEN iffD1])
  have "unat cn = unat sets * unat line div (4096 * unat cs)"
    using cache_enumerate_way [OF assms(1-6)] by (simp add: unat_div way div_mult2_eq)
  then show ?thesis using dvd_div_mult_self [OF assms(8)] by (simp add: ac_simps)
qed

text \<open>C14. Pages of different colours never meet in the last-level cache: for the number and size of
  colours that \<open>cache_enumerate\<close> computes from the platform's cache (when its way is a whole number of
  colours), if two allocations ask for disjoint sets of colours, then no address of a page that
  the pools' search accepts for the first goes to the same cache set as an address of a page
  accepted for the second, whichever pools the two pages are in.\<close>

theorem colours_partition_cache:
  assumes "cache_enumerate c = Inr (cn, cs)" "cache_lvls c \<noteq> 0"
    and "rd (cache_typ c) (min_shared_lvl c) = Inr UNIFIED" "rd2 (cache_idx c) (min_shared_lvl c) 0 = Inr PIPT"
    and "rd2 (numset c) (min_shared_lvl c) 0 = Inr sets" "rd2 (line_size c) (min_shared_lvl c) 0 = Inr line"
    and "unat sets * unat line < 2 ^ 64" "4096 * unat cs dvd unat sets * unat line" "line \<noteq> 0" "unat line dvd 4096"
    and "4096 dvd base1" "has_clr (unat cn) (unat cs) (base1 div 4096 mod (unat cn * unat cs)) colors1 i"
    and "4096 dvd base2" "has_clr (unat cn) (unat cs) (base2 div 4096 mod (unat cn * unat cs)) colors2 j"
    and "colors1 AND colors2 = 0"
    and "base1 + i * 4096 \<le> a" "a < base1 + i * 4096 + 4096" "base2 + j * 4096 \<le> b" "b < base2 + j * 4096 + 4096"
  shows "llc_set (unat line) (unat sets) a \<noteq> llc_set (unat line) (unat sets) b"
proof
  assume eq: "llc_set (unat line) (unat sets) a = llc_set (unat line) (unat sets) b"
  have "0 < unat line" using assms(9) by (simp add: unat_gt_0)
  from same_set_same_color [OF cache_enumerate_exact [OF assms(1-8)] assms(10) this eq]
  have "page_color (unat cn) (unat cs) a = page_color (unat cn) (unat cs) b" .
  moreover have "bit colors1 (page_color (unat cn) (unat cs) a)"
    using assms(12) has_clr_page_color [OF assms(11,16,17)] by blast
  moreover have "bit colors2 (page_color (unat cn) (unat cs) b)"
    using assms(14) has_clr_page_color [OF assms(13,18,19)] by blast
  ultimately show False using disjoint_colors [OF assms(15)] by simp
qed

text \<open>Two levels: separate first-level caches of two pages a way, and a last level of sixteen.\<close>

definition demo_cache :: cache where
  "demo_cache = \<lparr>cache_lvls = 2, min_shared_lvl = 1, cache_typ = [SEPARATE, UNIFIED],
     cache_idx = [[PIPT, PIPT], [PIPT, PIPT]], line_size = [[64, 64], [64, 64]],
     assoc = [[4, 4], [16, 16]], numset = [[128, 128], [1024, 1024]]\<rparr>"

lemma demo_cache_colors: "cache_enumerate demo_cache = Inr (8, 2)"
  by (simp add: cache_enumerate_def cache_arch_enumerate_def cache_calc_colors_def flc_way_size_def
      way_size_def divide_def rd2_def rd_def demo_cache_def PAGE_SIZE_def)

lemma colours_partition_cache_witness: "llc_set 64 1024 0x80002040 \<noteq> llc_set 64 1024 0x80006040"
proof -
  have "llc_set (unat (64::u64)) (unat (1024::u64)) (0x80000000 + 2 * 4096 + 0x40) \<noteq>
    llc_set (unat (64::u64)) (unat (1024::u64)) (0x80000000 + 6 * 4096 + 0x40)"
    by (rule colours_partition_cache [OF demo_cache_colors, where ?colors1.0 = 2 and ?colors2.0 = 8
        and ?base1.0 = "0x80000000" and ?base2.0 = "0x80000000" and i = 2 and j = 6])
      (simp_all add: demo_cache_def rd2_def rd_def has_clr_def bit_iff_odd)
  then show ?thesis by simp
qed

end
