(* ===== verification/Mpu.thy ===== *)
theory Mpu
  imports Clist Bitmaps Bits
begin

text \<open>
  The physical MPU of the Armv8-R port (AArch64), \<open>src/arch/armv8/armv8-r/mpu.c\<close>: the entries of one
  core's MPU, ordered by base address in an intrusive list, the mapping of a region for the hypervisor
  or for a VM, and its removal. The registers \<open>PRBAR\<close> and \<open>PRLAR\<close> are functions of the entry that
  \<open>PRSELR\<close> selects. The node of entry \<open>i\<close> in the list is the number \<open>i\<close>, which \<open>mpu_init\<close> also stores
  in it; \<open>INVALID_MPID\<close> is \<open>None\<close>.
\<close>

section \<open>Registers and flags\<close>

datatype priv = PRIV_NONE | PRIV_HYP | PRIV_VM

definition PERM_X :: u32 where "PERM_X = 1"
definition PERM_R :: u32 where "PERM_R = 2"
definition PERM_W :: u32 where "PERM_W = 4"
definition PERM_NONE :: u32 where "PERM_NONE = 0"
definition PERM_RW :: u32 where "PERM_RW = PERM_R OR PERM_W"
definition PERM_RWX :: u32 where "PERM_RWX = PERM_R OR PERM_W OR PERM_X"

definition PRBAR_XN :: u16 where "PRBAR_XN = push_bit 1 1"
definition PRBAR_NWR_BIT :: u16 where "PRBAR_NWR_BIT = push_bit 1 (push_bit 2 1)"
definition PRBAR_EL1_BIT :: u16 where "PRBAR_EL1_BIT = push_bit 1 (push_bit 1 1)"
definition PRBAR_AP_RW_EL2 :: u16 where "PRBAR_AP_RW_EL2 = 0"
definition PRBAR_AP_RW_EL1_EL2 :: u16 where "PRBAR_AP_RW_EL1_EL2 = push_bit 1 (push_bit 1 1)"
definition PRBAR_AP_RO_EL2 :: u16 where "PRBAR_AP_RO_EL2 = push_bit 1 (push_bit 1 2)"
definition PRBAR_SH_IS :: u16 where "PRBAR_SH_IS = push_bit 4 3"
definition PRBAR_FLAGS_MSK :: u64 where "PRBAR_FLAGS_MSK = 0x3F"
definition PRBAR_MEM_ATTR_FLAGS_MSK :: u16 where "PRBAR_MEM_ATTR_FLAGS_MSK = push_bit 1 0x18"
definition PRBAR_PERMS_FLAGS_MSK :: u16 where "PRBAR_PERMS_FLAGS_MSK = push_bit 4 1 - 1"
definition PRLAR_EN :: u64 where "PRLAR_EN = 1"
definition PRLAR_ATTR :: "u16 \<Rightarrow> u16" where "PRLAR_ATTR n = push_bit 1 n AND push_bit 1 3"
definition PRLAR_MEM_ATTR_FLAGS_MSK :: u16 where "PRLAR_MEM_ATTR_FLAGS_MSK = 0x0E"

definition PRBAR_BASE :: "u64 \<Rightarrow> u64" where "PRBAR_BASE base = base AND NOT PRBAR_FLAGS_MSK"
definition PRLAR_LIMIT :: "u64 \<Rightarrow> u64" where "PRLAR_LIMIT limit = (limit AND NOT PRBAR_FLAGS_MSK) OR 0x3F"
definition MPUIR_REGION :: "u64 \<Rightarrow> nat" where "MPUIR_REGION r = unat (r AND 0xFF)"

text \<open>The union \<open>mem_flags_t\<close> is its \<open>raw\<close> word, whose upper half belongs to neither member.\<close>

type_synonym mem_flags = u64

definition fl_prbar :: "mem_flags \<Rightarrow> u16" where "fl_prbar f = ucast f"
definition fl_prlar :: "mem_flags \<Rightarrow> u16" where "fl_prlar f = ucast (drop_bit 16 f)"

definition set_flags :: "mem_flags \<Rightarrow> u16 \<Rightarrow> u16 \<Rightarrow> mem_flags" where
  "set_flags f b l = (f AND NOT (mask 32)) OR push_bit 16 (ucast l) OR ucast b"

definition PTE_FLAGS :: "u16 \<Rightarrow> u16 \<Rightarrow> mem_flags" where "PTE_FLAGS b l = set_flags 0 b l"

record mp_region =
  mpr_base :: vaddr
  mpr_size :: u64
  mpr_flags :: mem_flags
  mpr_sec :: int

definition SEC_UNKNOWN :: int where "SEC_UNKNOWN = - 1"

text \<open>Despite its name: whether the first region lies inside the second.\<close>

definition mem_regions_overlap :: "mp_region \<Rightarrow> mp_region \<Rightarrow> bool" where
  "mem_regions_overlap reg1 reg2 = range_in_range (mpr_base reg1) (mpr_size reg1) (mpr_base reg2) (mpr_size reg2)"

section \<open>The state of an MPU\<close>

record mpu_perms =
  el2 :: u32
  el1 :: u32

record mpu =
  mpu_bitmap :: bitmap
  mpu_locked :: bitmap
  mpu_pr :: "mpu_perms list"
  mpu_nexts :: nexts
  mpu_order :: clist
  mpuir :: u64
  prbar :: "nat \<Rightarrow> u64"
  prlar :: "nat \<Rightarrow> u64"

definition MPU_ARCH_MAX_NUM_ENTRIES :: nat where "MPU_ARCH_MAX_NUM_ENTRIES = 64"

definition mpu_num_entries :: "mpu \<Rightarrow> nat" where
  "mpu_num_entries p = MPUIR_REGION (mpuir p)"

section \<open>Entries\<close>

text \<open>\<open>und\<close> is what the region held before: the upper half of its flags stays.\<close>

definition mpu_entry_get_region :: "mpu \<Rightarrow> u64 \<Rightarrow> nat \<Rightarrow> mp_region" where
  "mpu_entry_get_region p und mpid =
    \<lparr>mpr_base = PRBAR_BASE (prbar p mpid), mpr_size = PRLAR_LIMIT (prlar p mpid) + 1 - PRBAR_BASE (prbar p mpid),
     mpr_flags = set_flags und (ucast (prbar p mpid AND PRBAR_FLAGS_MSK)) (ucast (prlar p mpid AND PRBAR_FLAGS_MSK)),
     mpr_sec = SEC_UNKNOWN\<rparr>"

definition mpu_node_cmp :: "mpu \<Rightarrow> nat \<Rightarrow> nat \<Rightarrow> int" where
  "mpu_node_cmp p n1 n2 =
    (let r1 = mpu_entry_get_region p 0 n1; r2 = mpu_entry_get_region p 0 n2 in
     if mpr_base r2 < mpr_base r1 then 1 else if mpr_base r1 < mpr_base r2 then - 1 else 0)"

definition put_order :: "mpu \<Rightarrow> (nexts \<times> clist) res \<Rightarrow> mpu res" where
  "put_order p r = bindR r (\<lambda>(nx, l). Inr (p\<lparr>mpu_nexts := nx, mpu_order := l\<rparr>))"

definition mpu_entry_set :: "nat \<Rightarrow> mp_region \<Rightarrow> mpu \<Rightarrow> mpu res" where
  "mpu_entry_set mpid mpr p =
    (let lim = mpr_base mpr + mpr_size mpr - 1;
         p = p\<lparr>prbar := (prbar p)(mpid := (mpr_base mpr AND NOT PRBAR_FLAGS_MSK) OR ucast (fl_prbar (mpr_flags mpr))),
               prlar := (prlar p)(mpid := (lim AND NOT PRBAR_FLAGS_MSK) OR ucast (fl_prlar (mpr_flags mpr)))\<rparr> in
     put_order p (list_insert_ordered (mpu_nexts p, mpu_order p) (Some mpid) (mpu_node_cmp p)))"

definition mpu_order_rm :: "nat \<Rightarrow> mpu \<Rightarrow> mpu res" where
  "mpu_order_rm mpid p = put_order p (list_rm (mpu_nexts p, mpu_order p) (Some mpid))"

definition mpu_entry_modify :: "nat \<Rightarrow> mp_region \<Rightarrow> mpu \<Rightarrow> mpu res" where
  "mpu_entry_modify mpid mpr p = bindR (mpu_order_rm mpid p) (mpu_entry_set mpid mpr)"

definition mpu_entry_clear :: "nat \<Rightarrow> mpu \<Rightarrow> mpu res" where
  "mpu_entry_clear mpid p =
    bindR (mpu_order_rm mpid p) (\<lambda>p. Inr (p\<lparr>prlar := (prlar p)(mpid := 0), prbar := (prbar p)(mpid := 0)\<rparr>))"

definition mpu_entry_free :: "nat \<Rightarrow> mpu \<Rightarrow> mpu res" where
  "mpu_entry_free mpid p =
    bindR (mpu_entry_clear mpid p) (\<lambda>p. bindR (bitmap_clear (mpu_bitmap p) mpid) (\<lambda>bm. Inr (p\<lparr>mpu_bitmap := bm\<rparr>)))"

definition mpu_entry_valid :: "mpu \<Rightarrow> nat \<Rightarrow> bool" where
  "mpu_entry_valid p mpid \<longleftrightarrow> prlar p mpid AND PRLAR_EN \<noteq> 0"

definition mpu_entry_locked :: "mpu \<Rightarrow> nat \<Rightarrow> bool res" where
  "mpu_entry_locked p mpid = bitmap_get (mpu_locked p) mpid"

definition mpu_entry_has_priv :: "mpu \<Rightarrow> nat \<Rightarrow> priv \<Rightarrow> bool res" where
  "mpu_entry_has_priv p mpid pv = bindR (rd (mpu_pr p) mpid) (\<lambda>m. Inr (if pv = PRIV_VM then el1 m \<noteq> PERM_NONE else el2 m \<noteq> PERM_NONE))"

definition mem_vmpu_entry_perms :: "mp_region \<Rightarrow> u32" where
  "mem_vmpu_entry_perms mpr =
    PERM_R OR (if fl_prbar (mpr_flags mpr) AND PRBAR_XN = 0 then PERM_X else 0)
      OR (if fl_prbar (mpr_flags mpr) AND PRBAR_NWR_BIT = 0 then PERM_W else 0)"

definition mpu_entry_set_perms :: "mp_region \<Rightarrow> mpu_perms \<Rightarrow> mp_region" where
  "mpu_entry_set_perms mpr m =
    (let pm = el1 m OR el2 m;
         b = fl_prbar (mpr_flags mpr) AND NOT PRBAR_PERMS_FLAGS_MSK;
         b = b OR (if pm AND PERM_W \<noteq> 0 then PRBAR_AP_RW_EL2 else PRBAR_AP_RO_EL2);
         b = (if pm AND PERM_X = 0 then b OR PRBAR_XN else b);
         b = (if el1 m \<noteq> PERM_NONE then b OR PRBAR_EL1_BIT else b) in
     mpr\<lparr>mpr_flags := set_flags (mpr_flags mpr) b (fl_prlar (mpr_flags mpr))\<rparr>)"

definition mpu_entry_update_priv_perms :: "priv \<Rightarrow> nat \<Rightarrow> u32 \<Rightarrow> mpu \<Rightarrow> mpu res" where
  "mpu_entry_update_priv_perms pv mpid pm p =
    bindR (rd (mpu_pr p) mpid) (\<lambda>m. bindR (wr (mpu_pr p) mpid (if pv = PRIV_VM then m\<lparr>el1 := pm\<rparr> else m\<lparr>el2 := pm\<rparr>))
      (\<lambda>pr. Inr (p\<lparr>mpu_pr := pr\<rparr>)))"

definition mpu_perms_equivalent :: "mpu_perms \<Rightarrow> mpu_perms \<Rightarrow> bool" where
  "mpu_perms_equivalent p1 p2 \<longleftrightarrow> el1 p1 = el1 p2 \<and> el2 p1 = el2 p2"

text \<open>Both masks go to \<open>prbar\<close>, of which nothing is left.\<close>

definition mpu_entry_attrs :: "mp_region \<Rightarrow> u64" where
  "mpu_entry_attrs mpr =
    (let f = mpr_flags mpr in
     set_flags f (fl_prbar f AND PRBAR_MEM_ATTR_FLAGS_MSK AND PRLAR_MEM_ATTR_FLAGS_MSK) (fl_prlar f))"

fun allocate_loop :: "nat list \<Rightarrow> bitmap \<Rightarrow> (bitmap \<times> nat option) res" where
  "allocate_loop [] bm = Inr (bm, None)"
| "allocate_loop (i # is) bm =
    bindR (bitmap_get bm i) (\<lambda>b.
    if \<not> b then bindR (bitmap_set bm i) (\<lambda>bm. Inr (bm, Some i)) else allocate_loop is bm)"

definition mpu_entry_allocate :: "mpu \<Rightarrow> (mpu \<times> nat option) res" where
  "mpu_entry_allocate p = bindR (allocate_loop [0..<mpu_num_entries p] (mpu_bitmap p)) (\<lambda>(bm, r). Inr (p\<lparr>mpu_bitmap := bm\<rparr>, r))"

definition mem_region_get_overlap :: "mp_region \<Rightarrow> mp_region \<Rightarrow> mp_region \<Rightarrow> mp_region \<times> bool" where
  "mem_region_get_overlap reg1 reg2 overlap =
    (if mem_regions_overlap reg1 reg2 then
       let reg1_lim = mpr_base reg1 + mpr_size reg1;
           reg2_lim = mpr_base reg2 + mpr_size reg2;
           base = (if mpr_base reg1 < mpr_base reg2 then mpr_base reg2 else mpr_base reg1);
           lim = (if reg1_lim < reg2_lim then reg1_lim else reg2_lim) in
       (overlap\<lparr>mpr_base := base, mpr_size := lim - base\<rparr>, True)
     else (overlap, False))"

section \<open>Mapping\<close>

text \<open>The search of \<open>mpu_map\<close> through the ordered entries, with the entry before the one it stops at.\<close>

datatype map_hit = Map_end | Map_next nat | Map_overlap nat

partial_function (option) map_scan :: "mpu \<Rightarrow> u64 \<Rightarrow> mp_region \<Rightarrow> node option \<Rightarrow> nat option \<Rightarrow> (nat option \<times> map_hit) option" where
  [code]: "map_scan p und new_reg cur prev =
    (case cur of
       None \<Rightarrow> Some (prev, Map_end)
     | Some mpid \<Rightarrow>
         let r = mpu_entry_get_region p und mpid in
         if mpr_base new_reg + mpr_size new_reg \<le> mpr_base r then Some (prev, Map_next mpid)
         else if \<not> mem_regions_overlap new_reg r then map_scan p und new_reg (mpu_nexts p mpid) (Some mpid)
         else Some (prev, Map_overlap mpid))"

text \<open>The variables of \<open>mpu_map\<close> that live through its loop; \<open>new_reg\<close> points to one of the regions.\<close>

record map_vars =
  size_left :: u64
  failed :: bool
  reg1 :: mp_region
  reg2 :: mp_region
  reg1_valid :: bool
  reg2_valid :: bool
  bottom_mpid :: "nat option"
  top_mpid :: "nat option"

definition allocate_if :: "bool \<Rightarrow> mpu \<Rightarrow> (mpu \<times> nat option) res" where
  "allocate_if b p = (if b then mpu_entry_allocate p else Inr (p, None))"

text \<open>A part of the overlapped entry that keeps its permissions gets an entry of its own.\<close>

definition set_part :: "priv \<Rightarrow> mp_region \<Rightarrow> mpu_perms \<Rightarrow> u32 \<Rightarrow> vaddr \<Rightarrow> u64 \<Rightarrow> nat option \<Rightarrow> mpu \<Rightarrow> mpu res" where
  "set_part overlapped_priv overlapped_reg overlapped_perms perms2 base sz mpid p =
    (case mpid of
       None \<Rightarrow> Inr p
     | Some i \<Rightarrow>
         bindR (mpu_entry_update_priv_perms overlapped_priv i perms2 p)
           (mpu_entry_set i (mpu_entry_set_perms (overlapped_reg\<lparr>mpr_base := base, mpr_size := sz\<rparr>) overlapped_perms)))"

text \<open>Whether the permissions of an overlap are refused.\<close>

definition perms_refused :: "mpu_perms \<Rightarrow> bool" where
  "perms_refused m \<longleftrightarrow> (el1 m AND PERM_RW = PERM_R \<and> el2 m AND PERM_W \<noteq> PERM_NONE) \<or> el1 m AND PERM_X \<noteq> el2 m AND PERM_X"

text \<open>What becomes of the region that was to be mapped: the parts around the overlapped entry are left.\<close>

definition map_rest :: "mp_region \<Rightarrow> u64 \<Rightarrow> u64 \<Rightarrow> u64 \<Rightarrow> bool \<Rightarrow> u64 \<Rightarrow> map_vars \<Rightarrow> map_vars" where
  "map_rest new_reg overlapped_limit top_left bottom_left inside middle_size v =
    (let v = (if 0 < bottom_left then v\<lparr>reg1_valid := True, reg1 := (reg1 v)\<lparr>mpr_base := mpr_base new_reg, mpr_size := bottom_left\<rparr>\<rparr>
              else v\<lparr>reg1_valid := False\<rparr>);
         v = (if 0 < top_left then v\<lparr>reg2_valid := True, reg2 := (reg2 v)\<lparr>mpr_base := overlapped_limit, mpr_size := top_left\<rparr>\<rparr>
              else v\<lparr>reg2_valid := True\<rparr>) in
     if 0 < bottom_left \<or> 0 < top_left then v\<lparr>size_left := top_left + bottom_left\<rparr>
     else if inside then v\<lparr>size_left := 0\<rparr>
     else v\<lparr>size_left := size_left v - middle_size\<rparr>)"

definition map_overlapped :: "u64 \<Rightarrow> priv \<Rightarrow> mp_region \<Rightarrow> nat \<Rightarrow> mpu \<Rightarrow> map_vars \<Rightarrow> (mpu \<times> map_vars) res" where
  "map_overlapped und pv new_reg mpid p v =
    (let o_reg = mpu_entry_get_region p und mpid;
         new_perms = mem_vmpu_entry_perms new_reg in
     bindR (mpu_entry_has_priv p mpid pv) (\<lambda>h.
     if h then Inr (p, v\<lparr>failed := True\<rparr>)
     else
       bindR (rd (mpu_pr p) mpid) (\<lambda>o_perms.
       let overlap_perms = (if pv = PRIV_VM then o_perms\<lparr>el1 := new_perms\<rparr> else o_perms\<lparr>el2 := new_perms\<rparr>);
           o_priv = (if pv = PRIV_VM then PRIV_HYP else PRIV_VM);
           o_perms2 = (if pv = PRIV_VM then el2 o_perms else el1 o_perms) in
       if perms_refused overlap_perms \<or> mpu_entry_attrs new_reg \<noteq> mpu_entry_attrs o_reg then Inr (p, v\<lparr>failed := True\<rparr>)
       else
         let new_limit = mpr_base new_reg + mpr_size new_reg;
             o_limit = mpr_base o_reg + mpr_size o_reg;
             top_size = (if o_limit \<le> new_limit then 0 else o_limit - new_limit);
             bottom_size = (if mpr_base new_reg \<le> mpr_base o_reg then 0 else mpr_base new_reg - mpr_base o_reg);
             top_left = (if new_limit \<le> o_limit then 0 else new_limit - o_limit);
             bottom_left = (if mpr_base o_reg \<le> mpr_base new_reg then 0 else mpr_base o_reg - mpr_base new_reg);
             inside = (mpr_base o_reg \<le> mpr_base new_reg \<and> new_limit \<le> o_limit);
             middle = mpu_entry_set_perms (o_reg\<lparr>mpr_base := mpr_base o_reg + bottom_size, mpr_size := mpr_size o_reg - (top_size + bottom_size)\<rparr>) overlap_perms in
         bindR (allocate_if (0 < bottom_size) p) (\<lambda>(p, b).
         let v = v\<lparr>bottom_mpid := b\<rparr> in
         if 0 < bottom_size \<and> b = None then Inr (p, v\<lparr>failed := True\<rparr>)
         else
           bindR (allocate_if (0 < top_size) p) (\<lambda>(p, t).
           let v = v\<lparr>top_mpid := t\<rparr> in
           if 0 < top_size \<and> t = None then Inr (p, v\<lparr>failed := True\<rparr>)
           else
             bindR (mpu_entry_update_priv_perms pv mpid new_perms p) (\<lambda>p.
             bindR (mpu_entry_modify mpid middle p) (\<lambda>p.
             bindR (set_part o_priv o_reg o_perms o_perms2 (mpr_base o_reg) bottom_size b p) (\<lambda>p.
             bindR (set_part o_priv o_reg o_perms o_perms2 new_limit top_size t p) (\<lambda>p.
             Inr (p, map_rest new_reg o_limit top_left bottom_left inside (mpr_size middle) v))))))))))"

text \<open>
  The region overlaps no entry: it is merged with the entry before it, the one behind it, or both,
  or gets an entry of its own. The result has the region as it was set.
\<close>

definition same_kind :: "mpu \<Rightarrow> nat \<Rightarrow> mp_region \<Rightarrow> mp_region \<Rightarrow> mpu_perms \<Rightarrow> bool res" where
  "same_kind p i r new_reg new_perms =
    (if mpu_entry_attrs r = mpu_entry_attrs new_reg then bindR (rd (mpu_pr p) i) (\<lambda>m. Inr (mpu_perms_equivalent m new_perms)) else Inr False)"

definition merge_prev :: "u64 \<Rightarrow> mpu \<Rightarrow> mpu_perms \<Rightarrow> nat option \<Rightarrow> mp_region \<Rightarrow> (nat option \<times> mp_region) res" where
  "merge_prev und p new_perms prev new_reg =
    (case prev of
       None \<Rightarrow> Inr (None, new_reg)
     | Some i \<Rightarrow>
         bindR (mpu_entry_locked p i) (\<lambda>l.
         let r = mpu_entry_get_region p und i in
         if l \<or> mpr_base r + mpr_size r \<noteq> mpr_base new_reg then Inr (None, new_reg)
         else bindR (same_kind p i r new_reg new_perms) (\<lambda>k.
           if k then Inr (Some i, new_reg\<lparr>mpr_base := mpr_base r, mpr_size := mpr_size new_reg + mpr_size r\<rparr>) else Inr (None, new_reg))))"

definition merge_next :: "u64 \<Rightarrow> mpu_perms \<Rightarrow> nat option \<Rightarrow> nat option \<Rightarrow> mp_region \<Rightarrow> mpu \<Rightarrow> (mpu \<times> nat option \<times> mp_region) res" where
  "merge_next und new_perms nxt merge_mpid new_reg p =
    (case nxt of
       None \<Rightarrow> Inr (p, merge_mpid, new_reg)
     | Some i \<Rightarrow>
         bindR (mpu_entry_locked p i) (\<lambda>l.
         let r = mpu_entry_get_region p und i in
         if l \<or> mpr_base new_reg + mpr_size new_reg \<noteq> mpr_base r then Inr (p, merge_mpid, new_reg)
         else bindR (same_kind p i r new_reg new_perms) (\<lambda>k.
           if \<not> k then Inr (p, merge_mpid, new_reg)
           else bindR (if merge_mpid = None then Inr (p, Some i) else bindR (mpu_entry_free i p) (\<lambda>p. Inr (p, merge_mpid))) (\<lambda>(p, m).
             Inr (p, m, new_reg\<lparr>mpr_size := mpr_size new_reg + mpr_size r\<rparr>)))))"

definition map_new :: "u64 \<Rightarrow> priv \<Rightarrow> nat option \<Rightarrow> nat option \<Rightarrow> mp_region \<Rightarrow> mpu \<Rightarrow> (mpu \<times> mp_region) res" where
  "map_new und pv prev nxt new_reg p =
    (let new_perms = mem_vmpu_entry_perms new_reg;
         new_reg_perms = (if pv = PRIV_VM then \<lparr>el2 = PERM_NONE, el1 = new_perms\<rparr> else \<lparr>el2 = new_perms, el1 = PERM_NONE\<rparr>) in
     bindR (merge_prev und p new_reg_perms prev new_reg) (\<lambda>(m, r).
     bindR (merge_next und new_reg_perms nxt m r p) (\<lambda>(p, m, r).
     case m of
       Some i \<Rightarrow> bindR (mpu_entry_update_priv_perms pv i new_perms p) (\<lambda>p. bindR (mpu_entry_modify i r p) (\<lambda>p. Inr (p, r)))
     | None \<Rightarrow>
         bindR (mpu_entry_allocate p) (\<lambda>(p, a).
         case a of
           None \<Rightarrow> Inl Panic
         | Some i \<Rightarrow> bindR (mpu_entry_update_priv_perms pv i new_perms p) (\<lambda>p. bindR (mpu_entry_set i r p) (\<lambda>p. Inr (p, r)))))))"

definition map_pass :: "u64 \<Rightarrow> priv \<Rightarrow> mpu \<Rightarrow> map_vars \<Rightarrow> (mpu \<times> map_vars) res" where
  "map_pass und pv p v =
    (let new_reg = (if reg1_valid v then reg1 v else reg2 v);
         v = v\<lparr>bottom_mpid := None, top_mpid := None\<rparr> in
     case map_scan p und new_reg (head (mpu_order p)) None of
       None \<Rightarrow> Inl Hang
     | Some (prev, Map_overlap mpid) \<Rightarrow> map_overlapped und pv new_reg mpid p v
     | Some (prev, hit) \<Rightarrow>
         bindR (map_new und pv prev (case hit of Map_next i \<Rightarrow> Some i | _ \<Rightarrow> None) new_reg p) (\<lambda>(p, r).
         Inr (p, (if reg1_valid v then v\<lparr>reg1 := r\<rparr> else v\<lparr>reg2 := r\<rparr>)\<lparr>size_left := size_left v - mpr_size new_reg\<rparr>)))"

partial_function (option) map_passes :: "u64 \<Rightarrow> priv \<Rightarrow> mpu \<Rightarrow> map_vars \<Rightarrow> (mpu \<times> map_vars) res option" where
  [code]: "map_passes und pv p v =
    (if 0 < size_left v \<and> \<not> failed v \<and> (reg1_valid v \<or> reg2_valid v) then
       (case map_pass und pv p v of Inl e \<Rightarrow> Some (Inl e) | Inr (p, v) \<Rightarrow> map_passes und pv p v)
     else Some (Inr (p, v)))"

definition free_opt :: "nat option \<Rightarrow> mpu \<Rightarrow> mpu res" where
  "free_opt m p = (case m of None \<Rightarrow> Inr p | Some i \<Rightarrow> mpu_entry_free i p)"

definition mpu_map :: "u64 \<Rightarrow> priv \<Rightarrow> mp_region \<Rightarrow> mpu \<Rightarrow> (mpu \<times> bool) res" where
  "mpu_map und pv mpr p =
    bindR (ended (map_passes und pv p
      \<lparr>size_left = mpr_size mpr, failed = False, reg1 = mpr, reg2 = mpr, reg1_valid = True, reg2_valid = False,
       bottom_mpid = None, top_mpid = None\<rparr>)) (\<lambda>(p, v).
    if failed v then bindR (free_opt (bottom_mpid v) p) (\<lambda>p. bindR (free_opt (top_mpid v) p) (\<lambda>p. Inr (p, False)))
    else Inr (p, True))"

section \<open>Removal\<close>

text \<open>The search of \<open>mpu_unmap\<close>: an entry of the privilege inside the region.\<close>

partial_function (option) unmap_scan :: "mpu \<Rightarrow> u64 \<Rightarrow> priv \<Rightarrow> mp_region \<Rightarrow> node option \<Rightarrow> nat option res option" where
  [code]: "unmap_scan p und pv mpr cur =
    (case cur of
       None \<Rightarrow> Some (Inr None)
     | Some mpid \<Rightarrow>
         let r = mpu_entry_get_region p und mpid in
         if mpr_base mpr + mpr_size mpr < mpr_base r then Some (Inr None)
         else (case mpu_entry_has_priv p mpid pv of
             Inl e \<Rightarrow> Some (Inl e)
           | Inr h \<Rightarrow> if h \<and> mem_regions_overlap r mpr then Some (Inr (Some mpid))
               else unmap_scan p und pv mpr (mpu_nexts p mpid)))"

text \<open>A rest of the entry gets an entry of its own; without a free one the code writes before its arrays.\<close>

definition unmap_part :: "mp_region \<Rightarrow> mpu_perms \<Rightarrow> mpu \<Rightarrow> mpu res" where
  "unmap_part r orig_perms p =
    (if mpr_size r = 0 then Inr p
     else
       bindR (mpu_entry_allocate p) (\<lambda>(p, a).
       case a of
         None \<Rightarrow> Inl Out_of_bounds
       | Some i \<Rightarrow> bindR (wr (mpu_pr p) i orig_perms) (\<lambda>pr. mpu_entry_set i r (p\<lparr>mpu_pr := pr\<rparr>))))"

definition unmap_entry :: "u64 \<Rightarrow> priv \<Rightarrow> mp_region \<Rightarrow> nat \<Rightarrow> mpu \<Rightarrow> (mpu \<times> u64) res" where
  "unmap_entry und pv mpr mpid p =
    (let r = mpu_entry_get_region p und mpid;
         mpr_limit = mpr_base mpr + mpr_size mpr;
         reg_limit = mpr_base r + mpr_size r;
         top_size = (if reg_limit \<le> mpr_limit then 0 else reg_limit - mpr_limit);
         bottom_size = (if mpr_base mpr \<le> mpr_base r then 0 else mpr_base mpr - mpr_base r) in
     bindR (rd (mpu_pr p) mpid) (\<lambda>orig_perms.
     bindR (mpu_entry_update_priv_perms pv mpid PERM_NONE p) (\<lambda>p.
     bindR (rd (mpu_pr p) mpid) (\<lambda>m.
     bindR (if \<not> (el1 m = PERM_NONE \<and> el2 m = PERM_NONE)
            then mpu_entry_modify mpid (mpu_entry_set_perms
              (r\<lparr>mpr_base := if 0 < bottom_size then mpr_base mpr else mpr_base r, mpr_size := mpr_size r - top_size - bottom_size\<rparr>) m) p
            else mpu_entry_free mpid p) (\<lambda>p.
     bindR (unmap_part (r\<lparr>mpr_base := mpr_limit, mpr_size := top_size\<rparr>) orig_perms p) (\<lambda>p.
     bindR (unmap_part (r\<lparr>mpr_size := bottom_size\<rparr>) orig_perms p) (\<lambda>p.
     Inr (p, mpr_size r - top_size - bottom_size))))))))"

partial_function (option) unmap_rounds :: "u64 \<Rightarrow> priv \<Rightarrow> mp_region \<Rightarrow> u64 \<Rightarrow> mpu \<Rightarrow> (mpu \<times> u64) res option" where
  [code]: "unmap_rounds und pv mpr left p =
    (if 0 < left then
       (case ended (unmap_scan p und pv mpr (head (mpu_order p))) of
          Inl e \<Rightarrow> Some (Inl e)
        | Inr None \<Rightarrow> Some (Inr (p, left))
        | Inr (Some mpid) \<Rightarrow>
            (case unmap_entry und pv mpr mpid p of
               Inl e \<Rightarrow> Some (Inl e)
             | Inr (p, overlap_size) \<Rightarrow> unmap_rounds und pv mpr (left - overlap_size) p))
     else Some (Inr (p, left)))"

definition mpu_unmap :: "u64 \<Rightarrow> priv \<Rightarrow> mp_region \<Rightarrow> mpu \<Rightarrow> (mpu \<times> bool) res" where
  "mpu_unmap und pv mpr p = bindR (ended (unmap_rounds und pv mpr (mpr_size mpr) p)) (\<lambda>(p, left). Inr (p, left = 0))"

section \<open>Start-up\<close>

text \<open>The entries that the start code enabled are kept and never merged.\<close>

definition mpu_init_entry :: "nat \<Rightarrow> mpu \<Rightarrow> mpu res" where
  "mpu_init_entry mpid p =
    (if mpu_entry_valid p mpid then
       bindR (bitmap_set (mpu_bitmap p) mpid) (\<lambda>bm.
       bindR (bitmap_set (mpu_locked p) mpid) (\<lambda>lk.
       bindR (wr (mpu_pr p) mpid \<lparr>el2 = PERM_RWX, el1 = PERM_NONE\<rparr>) (\<lambda>pr.
       let p = p\<lparr>mpu_bitmap := bm, mpu_locked := lk, mpu_pr := pr\<rparr> in
       put_order p (list_insert_ordered (mpu_nexts p, mpu_order p) (Some mpid) (mpu_node_cmp p)))))
     else Inr p)"

definition mpu_init :: "mpu \<Rightarrow> mpu res" where
  "mpu_init p =
    bindR (bitmap_clear_consecutive (mpu_bitmap p) 0 (mpu_num_entries p)) (\<lambda>bm.
    foldR mpu_init_entry [0..<mpu_num_entries p] (p\<lparr>mpu_bitmap := bm, mpu_order := list_init\<rparr>))"

end
