(* ===== verification/Mpu_View.thy ===== *)
theory Mpu_View
  imports Mpu
begin

text \<open>
  What the entries of the MPU grant: the addresses an enabled entry covers, and which of them the
  guest (EL1) can reach; and that mapping a region changes both by exactly that region.
\<close>

section \<open>The registers of an entry\<close>

definition base_of :: "mpu \<Rightarrow> nat \<Rightarrow> nat" where
  "base_of p i = unat (PRBAR_BASE (prbar p i))"

definition lim_of :: "mpu \<Rightarrow> nat \<Rightarrow> nat" where
  "lim_of p i = unat (PRLAR_LIMIT (prlar p i)) + 1"

definition ent :: "mpu \<Rightarrow> nat \<Rightarrow> nat set" where
  "ent p i = {base_of p i ..< lim_of p i}"

definition el1_bit :: "mpu \<Rightarrow> nat \<Rightarrow> bool" where
  "el1_bit p i \<longleftrightarrow> bit (prbar p i) 2"

text \<open>All addresses an entry covers, which the hypervisor reaches, and those the guest reaches.\<close>

definition mpu_range :: "mpu \<Rightarrow> nat set" where
  "mpu_range p = (\<Union>i \<in> {i. i < mpu_num_entries p \<and> mpu_entry_valid p i}. ent p i)"

definition guest_range :: "mpu \<Rightarrow> nat set" where
  "guest_range p = (\<Union>i \<in> {i. i < mpu_num_entries p \<and> mpu_entry_valid p i \<and> el1_bit p i}. ent p i)"

definition reg_range :: "mp_region \<Rightarrow> nat set" where
  "reg_range r = {unat (mpr_base r) ..< unat (mpr_base r) + unat (mpr_size r)}"

text \<open>A region the entries can hold, with the flags of an enabled one.\<close>

definition region_fits :: "mp_region \<Rightarrow> bool" where
  "region_fits r \<longleftrightarrow> take_bit 6 (mpr_base r) = 0 \<and> take_bit 6 (mpr_size r) = 0 \<and> mpr_size r \<noteq> 0
    \<and> unat (mpr_base r) + unat (mpr_size r) < 2 ^ 64
    \<and> fl_prbar (mpr_flags r) AND NOT 0x3F = 0 \<and> fl_prlar (mpr_flags r) AND NOT 0x3F = 0 \<and> bit (fl_prlar (mpr_flags r)) 0"

lemma prbar_word:
  assumes "take_bit 6 (b :: u64) = 0" "f AND NOT 0x3F = (0 :: u16)"
  shows "PRBAR_BASE ((b AND NOT PRBAR_FLAGS_MSK) OR ucast f) = b"
    and "bit ((b AND NOT PRBAR_FLAGS_MSK) OR ucast f :: u64) 2 = bit f 2"
proof -
  have m: "PRBAR_FLAGS_MSK = mask 6" "(0x3F :: u16) = mask 6" by (simp_all add: PRBAR_FLAGS_MSK_def mask_eq_exp_minus_1)
  have b: "bit b n \<Longrightarrow> 6 \<le> n" for n using assms(1) by (metis bit_take_bit_iff bit_0_eq bot_fun_def bot_bool_def not_le)
  have f: "bit f n \<Longrightarrow> n < 6" for n
  proof -
    assume n: "bit f n"
    then have "n < 16" using bit_imp_le_length by force
    then show "n < 6" using assms(2) n unfolding m
      by (metis bit_and_iff bit_not_iff bit_mask_iff bit_0_eq bot_fun_def bot_bool_def possible_bit_word len_num1 bit_imp_possible_bit)
  qed
  show "PRBAR_BASE ((b AND NOT PRBAR_FLAGS_MSK) OR ucast f) = b"
    unfolding PRBAR_BASE_def m
  proof (rule bit_word_eqI)
    fix n
    show "bit ((b AND NOT (mask 6) OR ucast f) AND NOT (mask 6)) n = bit b n" if "n < LENGTH(64)"
      using b [of n] f [of n] that by (cases "n < 6") (auto simp: bit_simps)
  qed
  show "bit ((b AND NOT PRBAR_FLAGS_MSK) OR ucast f :: u64) 2 = bit f 2"
    unfolding m by (auto simp: bit_simps)
qed

lemma prlar_word:
  assumes "take_bit 6 (l :: u64) = mask 6" "f AND NOT 0x3F = (0 :: u16)"
  shows "PRLAR_LIMIT ((l AND NOT PRBAR_FLAGS_MSK) OR ucast f) = l"
    and "bit ((l AND NOT PRBAR_FLAGS_MSK) OR ucast f :: u64) 0 = bit f 0"
proof -
  have m: "PRBAR_FLAGS_MSK = mask 6" "(0x3F :: u16) = mask 6" "(0x3F :: u64) = mask 6" by (simp_all add: PRBAR_FLAGS_MSK_def mask_eq_exp_minus_1)
  have l: "n < 6 \<Longrightarrow> bit l n" for n
  proof -
    assume n: "n < 6"
    have "bit (take_bit 6 l) n = bit (mask 6 :: u64) n" using assms(1) by simp
    then show "bit l n" using n by (simp add: bit_take_bit_iff bit_mask_iff)
  qed
  have f: "bit f n \<Longrightarrow> n < 6" for n
    using assms(2) unfolding m by (metis bit_and_iff bit_not_iff bit_mask_iff bit_0_eq bot_fun_def bot_bool_def bit_imp_possible_bit)
  show "PRLAR_LIMIT ((l AND NOT PRBAR_FLAGS_MSK) OR ucast f) = l"
    unfolding PRLAR_LIMIT_def m
  proof (rule bit_word_eqI)
    fix n
    show "bit ((l AND NOT (mask 6) OR ucast f) AND NOT (mask 6) OR mask 6) n = bit l n" if "n < LENGTH(64)"
      using l [of n] f [of n] that by (cases "n < 6") (auto simp: bit_simps)
  qed
  show "bit ((l AND NOT PRBAR_FLAGS_MSK) OR ucast f :: u64) 0 = bit f 0"
    unfolding m by (auto simp: bit_simps)
qed

lemma pred_mod_64: "x mod 64 = 0 \<Longrightarrow> 0 < x \<Longrightarrow> (x - 1) mod 64 = (63 :: nat)"
  by (cases x) (simp_all add: mod_Suc split: if_splits)

lemma lim_word:
  assumes "take_bit 6 (b :: u64) = 0" "take_bit 6 s = 0" "s \<noteq> 0" "unat b + unat s < 2 ^ 64"
  shows "take_bit 6 (b + s - 1) = mask 6" "unat (b + s - 1) + 1 = unat b + unat s"
proof -
  have "0 < unat (b + s)" using assms(3,4) by (simp add: unat_add_no_wrap unat_gt_0)
  then have "b + s \<noteq> 0" by (simp add: unat_gt_0)
  then have "unat (b + s - 1) = unat (b + s) - 1" by (simp add: unat_minus_one)
  then show "unat (b + s - 1) + 1 = unat b + unat s" using \<open>0 < unat (b + s)\<close> assms(4) by (simp add: unat_add_no_wrap)
  have t: "unat (take_bit 6 x) = unat x mod 64" for x :: u64 by (simp add: take_bit_eq_mod unat_mod)
  have "unat b mod 64 = 0" "unat s mod 64 = 0" using t [of b] t [of s] assms(1,2) by simp_all
  then have "unat (b + s) mod 64 = 0" using assms(4) by (simp add: unat_add_no_wrap mod_add_eq [symmetric])
  then have "unat (b + s - 1) mod 64 = 63" unfolding \<open>unat (b + s - 1) = unat (b + s) - 1\<close> by (intro pred_mod_64 \<open>0 < unat (b + s)\<close>)
  then have "unat (take_bit 6 (b + s - 1)) = 63" using t by simp
  then show "take_bit 6 (b + s - 1) = mask 6" by (simp add: word_unat_eq_iff mask_eq_exp_minus_1)
qed

text \<open>An entry reads as it was set.\<close>

lemma entry_set_regs:
  assumes "region_fits r" "mpu_entry_set i r p = Inr p'"
  shows "base_of p' i = unat (mpr_base r)" "lim_of p' i = unat (mpr_base r) + unat (mpr_size r)"
    and "mpu_entry_valid p' i" "el1_bit p' i \<longleftrightarrow> bit (fl_prbar (mpr_flags r)) 2"
    and "j \<noteq> i \<Longrightarrow> prbar p' j = prbar p j" "j \<noteq> i \<Longrightarrow> prlar p' j = prlar p j"
    and "mpu_bitmap p' = mpu_bitmap p" "mpu_locked p' = mpu_locked p" "mpu_pr p' = mpu_pr p" "mpuir p' = mpuir p"
proof -
  note f = assms(1) [unfolded region_fits_def]
  note l = lim_word [OF f [THEN conjunct1] f [THEN conjunct2, THEN conjunct1]]
  have p': "prbar p' = (prbar p)(i := (mpr_base r AND NOT PRBAR_FLAGS_MSK) OR ucast (fl_prbar (mpr_flags r)))"
    "prlar p' = (prlar p)(i := ((mpr_base r + mpr_size r - 1) AND NOT PRBAR_FLAGS_MSK) OR ucast (fl_prlar (mpr_flags r)))"
    "mpu_bitmap p' = mpu_bitmap p" "mpu_locked p' = mpu_locked p" "mpu_pr p' = mpu_pr p" "mpuir p' = mpuir p"
    using assms(2) by (auto simp: mpu_entry_set_def Let_def put_order_def)
  then show "j \<noteq> i \<Longrightarrow> prbar p' j = prbar p j" "j \<noteq> i \<Longrightarrow> prlar p' j = prlar p j"
    "mpu_bitmap p' = mpu_bitmap p" "mpu_locked p' = mpu_locked p" "mpu_pr p' = mpu_pr p" "mpuir p' = mpuir p" by simp_all
  show "base_of p' i = unat (mpr_base r)" "el1_bit p' i \<longleftrightarrow> bit (fl_prbar (mpr_flags r)) 2"
    using prbar_word [of "mpr_base r" "fl_prbar (mpr_flags r)"] f by (simp_all add: base_of_def el1_bit_def p'(1))
  show "lim_of p' i = unat (mpr_base r) + unat (mpr_size r)"
    using prlar_word(1) [of "mpr_base r + mpr_size r - 1" "fl_prlar (mpr_flags r)"] l f by (simp add: lim_of_def p'(2))
  show "mpu_entry_valid p' i"
    using prlar_word(2) [of "mpr_base r + mpr_size r - 1" "fl_prlar (mpr_flags r)"] l f
    by (simp add: mpu_entry_valid_def PRLAR_EN_def p'(2) and_one_eq bit_0 odd_iff_mod_2_eq_one)
qed

section \<open>The ordered list\<close>

definition listed :: "mpu \<Rightarrow> nat list \<Rightarrow> bool" where
  "listed p xs \<longleftrightarrow> path (mpu_nexts p) (head (mpu_order p)) xs \<and> distinct xs
    \<and> sorted_wrt (\<lambda>i j. lim_of p i \<le> base_of p j) xs \<and> (\<forall>i \<in> set xs. base_of p i < lim_of p i \<and> lim_of p i < 2 ^ 64)"

text \<open>The list operations do not look at \<open>tail\<close>.\<close>

lemma rm_path:
  assumes "path nx (head l) xs" "distinct xs"
  shows "\<exists>nx' l'. list_rm (nx, l) (Some nd) = Inr (nx', l') \<and> path nx' (head l') (remove1 nd xs)"
proof -
  have "repr (nx, l\<lparr>tail := last_node xs\<rparr>) xs" using assms by (simp add: repr_def)
  from rm_repr [OF this, of nd] obtain nx' l' where
    "list_rm (nx, l\<lparr>tail := last_node xs\<rparr>) (Some nd) = Inr (nx', l')" "path nx' (head l') (remove1 nd xs)" by auto
  then show ?thesis by (auto simp: list_rm_def Let_def split: option.splits if_splits)
qed

lemma insert_ordered_path:
  assumes "path nx (head l) xs" "distinct xs" "nd \<notin> set xs"
  shows "\<exists>nx' l'. list_insert_ordered (nx, l) (Some nd) cmp = Inr (nx', l')
    \<and> path nx' (head l') (takeWhile (\<lambda>c. cmp c nd \<le> 0) xs @ nd # dropWhile (\<lambda>c. cmp c nd \<le> 0) xs)"
proof -
  have "repr (nx, l\<lparr>tail := last_node xs\<rparr>) xs" using assms by (simp add: repr_def)
  from insert_ordered_repr [OF this assms(3), of cmp] obtain nx' l' where
    "list_insert_ordered (nx, l\<lparr>tail := last_node xs\<rparr>) (Some nd) cmp = Inr (nx', l')"
    "path nx' (head l') (takeWhile (\<lambda>c. cmp c nd \<le> 0) xs @ nd # dropWhile (\<lambda>c. cmp c nd \<le> 0) xs)" by (auto simp: repr_def)
  then show ?thesis by (auto simp: list_insert_ordered_def Let_def split: option.splits prod.splits)
qed

definition same_regs :: "mpu \<Rightarrow> mpu \<Rightarrow> bool" where
  "same_regs p q \<longleftrightarrow> prbar p = prbar q \<and> prlar p = prlar q \<and> mpu_bitmap p = mpu_bitmap q \<and> mpu_locked p = mpu_locked q
    \<and> mpu_pr p = mpu_pr q \<and> mpuir p = mpuir q"

lemma sorted_wrt_remove1: "sorted_wrt P xs \<Longrightarrow> sorted_wrt P (remove1 x xs)"
  by (induction xs) (auto dest: notin_set_remove1)

lemma rm_listed:
  assumes "listed p xs"
  obtains p' where "mpu_order_rm i p = Inr p'" "listed p' (remove1 i xs)" "same_regs p' p"
proof -
  obtain nx' l' where l: "list_rm (mpu_nexts p, mpu_order p) (Some i) = Inr (nx', l')" "path nx' (head l') (remove1 i xs)"
    using rm_path assms by (metis listed_def)
  let ?p = "p\<lparr>mpu_nexts := nx', mpu_order := l'\<rparr>"
  have e: "lim_of ?p = lim_of p" "base_of ?p = base_of p" by (simp_all add: fun_eq_iff lim_of_def base_of_def)
  have "listed ?p (remove1 i xs)"
    unfolding listed_def e using assms l(2) sorted_wrt_remove1 [of _ xs i]
    by (auto simp: listed_def dest: notin_set_remove1)
  moreover have "same_regs ?p p" by (simp add: same_regs_def)
  ultimately show ?thesis using l(1) by (intro that) (simp_all add: mpu_order_rm_def put_order_def)
qed

lemma node_cmp: "mpu_node_cmp p i j \<le> 0 \<longleftrightarrow> base_of p i \<le> base_of p j"
  by (simp add: mpu_node_cmp_def mpu_entry_get_region_def base_of_def word_less_nat_alt Let_def)

lemma sorted_insert:
  fixes b l :: "nat \<Rightarrow> nat"
  assumes "sorted_wrt (\<lambda>i j. l i \<le> b j) xs" "\<forall>j \<in> set xs. b j < l j" "b i < l i"
    and "\<forall>j \<in> set xs. l j \<le> b i \<or> l i \<le> b j"
  shows "sorted_wrt (\<lambda>i j. l i \<le> b j) (takeWhile (\<lambda>c. b c \<le> b i) xs @ i # dropWhile (\<lambda>c. b c \<le> b i) xs)"
  using assms
proof (induction xs)
  case Nil
  then show ?case by simp
next
  case (Cons x xs)
  show ?case
  proof (cases "b x \<le> b i")
    case True
    then have "l x \<le> b i" using Cons.prems by auto
    moreover have "l x \<le> b y" if "y \<in> set (takeWhile (\<lambda>c. b c \<le> b i) xs @ dropWhile (\<lambda>c. b c \<le> b i) xs)" for y
      using that Cons.prems(1) by simp
    ultimately show ?thesis using Cons True by (auto dest: set_takeWhileD set_dropWhileD)
  next
    case False
    have "l i \<le> b y" if "y \<in> set (x # xs)" for y
    proof -
      have "b x \<le> b y" using that Cons.prems(1,2) by auto
      then show ?thesis using that Cons.prems(4) False Cons.prems(2) by fastforce
    qed
    then show ?thesis using Cons.prems(1) False by simp
  qed
qed

lemma set_listed:
  assumes "listed p xs" "i \<notin> set xs" "region_fits r" "\<forall>j \<in> set xs. ent p j \<inter> reg_range r = {}"
  obtains p' xs' where "mpu_entry_set i r p = Inr p'" "listed p' xs'" "set xs' = insert i (set xs)"
proof -
  note l = assms(1) [unfolded listed_def]
  define q where "q = p\<lparr>prbar := (prbar p)(i := (mpr_base r AND NOT PRBAR_FLAGS_MSK) OR ucast (fl_prbar (mpr_flags r))),
    prlar := (prlar p)(i := ((mpr_base r + mpr_size r - 1) AND NOT PRBAR_FLAGS_MSK) OR ucast (fl_prlar (mpr_flags r)))\<rparr>"
  obtain nx' l' where n: "list_insert_ordered (mpu_nexts q, mpu_order q) (Some i) (mpu_node_cmp q) = Inr (nx', l')"
      "path nx' (head l') (takeWhile (\<lambda>c. mpu_node_cmp q c i \<le> 0) xs @ i # dropWhile (\<lambda>c. mpu_node_cmp q c i \<le> 0) xs)"
    using insert_ordered_path [of "mpu_nexts p" "mpu_order p" xs i "mpu_node_cmp q"] l assms(2) by (auto simp: q_def)
  define p' where "p' = q\<lparr>mpu_nexts := nx', mpu_order := l'\<rparr>"
  have set: "mpu_entry_set i r p = Inr p'"
    using n(1) unfolding p'_def by (simp add: mpu_entry_set_def put_order_def q_def)
  note R = entry_set_regs [OF assms(3) set]
  let ?xs = "takeWhile (\<lambda>c. base_of p' c \<le> base_of p' i) xs @ i # dropWhile (\<lambda>c. base_of p' c \<le> base_of p' i) xs"
  have old: "base_of p' j = base_of p j" "lim_of p' j = lim_of p j" if "j \<in> set xs" for j
  proof -
    have "j \<noteq> i" using that assms(2) by blast
    then show "base_of p' j = base_of p j" "lim_of p' j = lim_of p j" using R(5,6) [of j] by (simp_all add: base_of_def lim_of_def)
  qed
  have bq: "base_of q = base_of p'" by (simp add: p'_def base_of_def fun_eq_iff)
  have i: "base_of p' i < lim_of p' i" "lim_of p' i < 2 ^ 64"
    using R(1,2) assms(3) by (auto simp: region_fits_def unat_gt_0)
  have dis: "\<forall>j \<in> set xs. lim_of p' j \<le> base_of p' i \<or> lim_of p' i \<le> base_of p' j"
  proof
    fix j assume j: "j \<in> set xs"
    have "ent p j \<inter> reg_range r = {}" "base_of p j < lim_of p j" using assms(4) l j by auto
    then show "lim_of p' j \<le> base_of p' i \<or> lim_of p' i \<le> base_of p' j"
      unfolding old [OF j] R(1,2) using i(1) [unfolded R(1,2)]
      by (auto simp: ent_def reg_range_def disjoint_iff not_le dest: spec [of _ "max (base_of p j) (unat (mpr_base r))"])
  qed
  have "sorted_wrt (\<lambda>i j. lim_of p' i \<le> base_of p' j) xs"
  proof -
    have "sorted_wrt (\<lambda>i j. lim_of p i \<le> base_of p j) xs" using l by simp
    then show ?thesis by (rule sorted_wrt_mono_rel [rotated]) (simp add: old)
  qed
  then have "sorted_wrt (\<lambda>i j. lim_of p' i \<le> base_of p' j) ?xs"
    using l dis i by (intro sorted_insert) (auto simp: old)
  moreover have "path nx' (head l') ?xs" using n(2) unfolding node_cmp bq .
  moreover have st: "set ?xs = insert i (set xs)" using arg_cong [OF takeWhile_dropWhile_id [of "\<lambda>c. base_of p' c \<le> base_of p' i" xs], of set] by (simp only: set_append list.set Un_insert_right)
  moreover have "distinct ?xs" 
  proof -
    have "distinct (takeWhile (\<lambda>c. base_of p' c \<le> base_of p' i) xs @ dropWhile (\<lambda>c. base_of p' c \<le> base_of p' i) xs)"
      using l by (simp only: takeWhile_dropWhile_id)
    then show ?thesis using assms(2) unfolding distinct_append by (auto dest: set_takeWhileD set_dropWhileD)
  qed
  moreover have "\<forall>j \<in> insert i (set xs). base_of p' j < lim_of p' j \<and> lim_of p' j < 2 ^ 64" using l i by (simp add: old)
  moreover have "mpu_nexts p' = nx'" "mpu_order p' = l'" by (simp_all add: p'_def)
  ultimately have "listed p' ?xs" unfolding listed_def st by (intro conjI) (simp_all only:)
  from that [OF set this st] show ?thesis .
qed

section \<open>The invariant\<close>

definition mpu_wf :: "mpu \<Rightarrow> bool" where
  "mpu_wf p \<longleftrightarrow> mpu_num_entries p \<le> 64 \<and> length (mpu_pr p) = 64 \<and> bm_len (mpu_bitmap p) = 64 \<and> bm_len (mpu_locked p) = 64"

text \<open>The recorded permissions of an entry and what its register grants the guest.\<close>

definition perms_fit :: "mpu \<Rightarrow> nat \<Rightarrow> bool" where
  "perms_fit p i \<longleftrightarrow> (el1 (mpu_pr p ! i) = PERM_NONE \<longrightarrow> \<not> el1_bit p i) \<and> (el2 (mpu_pr p ! i) = PERM_NONE \<longrightarrow> el1_bit p i)"

text \<open>All enabled entries other than those in \<open>out\<close> are in the list, disjoint and in order; \<open>mpu_ok\<close> leaves none out.\<close>

definition mpu_but :: "nat set \<Rightarrow> mpu \<Rightarrow> nat list \<Rightarrow> bool" where
  "mpu_but out p xs \<longleftrightarrow> mpu_wf p \<and> listed p xs \<and> set xs = {i. i < mpu_num_entries p \<and> mpu_entry_valid p i} - out
    \<and> (\<forall>i \<in> set xs. bm_bit (mpu_bitmap p) i \<and> perms_fit p i)"

abbreviation mpu_ok :: "mpu \<Rightarrow> nat list \<Rightarrow> bool" where "mpu_ok \<equiv> mpu_but {}"

lemma same_regs_eqs:
  assumes "same_regs p q"
  shows "base_of p = base_of q" "lim_of p = lim_of q" "ent p = ent q" "el1_bit p = el1_bit q" "mpu_entry_valid p = mpu_entry_valid q"
    "mpu_num_entries p = mpu_num_entries q" "perms_fit p = perms_fit q" "mpu_wf p = mpu_wf q" "mpu_bitmap p = mpu_bitmap q" "mpu_pr p = mpu_pr q"
  using assms by (simp_all add: same_regs_def fun_eq_iff base_of_def lim_of_def ent_def el1_bit_def mpu_entry_valid_def
      mpu_num_entries_def perms_fit_def mpu_wf_def)

lemma ok_ranges:
  assumes "mpu_ok p xs"
  shows "mpu_range p = (\<Union>i \<in> set xs. ent p i)" "guest_range p = (\<Union>i \<in> {i \<in> set xs. el1_bit p i}. ent p i)"
  using assms by (auto simp: mpu_but_def mpu_range_def guest_range_def)

lemma ents_disjoint:
  assumes "listed p xs" "i \<in> set xs" "j \<in> set xs" "i \<noteq> j"
  shows "ent p i \<inter> ent p j = {}"
proof -
  have s: "sorted_wrt (\<lambda>i j. lim_of p i \<le> base_of p j) xs" using assms(1) by (simp add: listed_def)
  obtain a b where ab: "a < length xs" "b < length xs" "xs ! a = i" "xs ! b = j" using assms(2,3) by (metis in_set_conv_nth)
  then have "a < b \<or> b < a" using assms(4) by (metis linorder_neqE_nat)
  then have "lim_of p i \<le> base_of p j \<or> lim_of p j \<le> base_of p i"
    using sorted_wrt_nth_less [OF s] ab by metis
  then show ?thesis by (auto simp: ent_def)
qed

lemma rm_but:
  assumes "mpu_but out p xs"
  obtains p' where "mpu_order_rm i p = Inr p'" "mpu_but (insert i out) p' (remove1 i xs)" "same_regs p' p"
proof -
  have l: "listed p xs" "distinct xs" using assms by (simp_all add: mpu_but_def listed_def)
  from rm_listed [OF l(1), of i] obtain p' where p': "mpu_order_rm i p = Inr p'" "listed p' (remove1 i xs)" "same_regs p' p" .
  have "mpu_but (insert i out) p' (remove1 i xs)"
    using assms p'(2) l(2) unfolding mpu_but_def same_regs_eqs [OF p'(3)] by (auto simp: set_remove1_eq)
  then show ?thesis using that p' by blast
qed

text \<open>Setting the entry that was left out.\<close>

lemma set_but:
  assumes "mpu_but {i} p xs" "i < mpu_num_entries p" "bm_bit (mpu_bitmap p) i" "region_fits r" "\<forall>j \<in> set xs. ent p j \<inter> reg_range r = {}"
    and "el1 (mpu_pr p ! i) = PERM_NONE \<longrightarrow> \<not> bit (fl_prbar (mpr_flags r)) 2"
    and "el2 (mpu_pr p ! i) = PERM_NONE \<longrightarrow> bit (fl_prbar (mpr_flags r)) 2"
  obtains p' xs' where "mpu_entry_set i r p = Inr p'" "mpu_ok p' xs'"
    "mpu_range p' = (\<Union>j \<in> set xs. ent p j) \<union> reg_range r"
    "guest_range p' = (\<Union>j \<in> {j \<in> set xs. el1_bit p j}. ent p j) \<union> (if bit (fl_prbar (mpr_flags r)) 2 then reg_range r else {})"
    "mpu_bitmap p' = mpu_bitmap p" "mpu_num_entries p' = mpu_num_entries p"
proof -
  note b = assms(1) [unfolded mpu_but_def]
  have i: "i \<notin> set xs" using b by simp
  from set_listed [OF b [THEN conjunct2, THEN conjunct1] i assms(4,5)] obtain p' xs' where
    p': "mpu_entry_set i r p = Inr p'" "listed p' xs'" "set xs' = insert i (set xs)" .
  note R = entry_set_regs [OF assms(4) p'(1)]
  have old: "ent p' j = ent p j" "el1_bit p' j = el1_bit p j" "mpu_entry_valid p' j = mpu_entry_valid p j" "perms_fit p' j = perms_fit p j" if "j \<noteq> i" for j
    using R(5,6) [OF that] R(9) by (simp_all add: ent_def base_of_def lim_of_def el1_bit_def mpu_entry_valid_def perms_fit_def)
  have ni: "ent p' i = reg_range r" using R(1,2) by (simp add: ent_def reg_range_def)
  have n: "mpu_num_entries p' = mpu_num_entries p" using R(10) by (simp add: mpu_num_entries_def)
  have wf: "mpu_wf p'" using b R(7-9) n by (simp add: mpu_wf_def)
  have st: "set xs' = {j. j < mpu_num_entries p' \<and> mpu_entry_valid p' j}"
    using b old(3) R(3) assms(2) unfolding p'(3) n by auto
  have fit: "\<forall>j \<in> set xs'. bm_bit (mpu_bitmap p') j \<and> perms_fit p' j"
    using b assms(3,6,7) old(4) i R(4,7,9) unfolding p'(3) by (auto simp: perms_fit_def)
  have ok: "mpu_ok p' xs'" using wf p'(2) st fit by (simp add: mpu_but_def)
  have "mpu_range p' = (\<Union>j \<in> set xs. ent p j) \<union> reg_range r"
  proof -
    have "(\<Union>j \<in> set xs. ent p' j) = (\<Union>j \<in> set xs. ent p j)" using i old(1) by (intro SUP_cong refl) metis
    then show ?thesis unfolding ok_ranges(1) [OF ok] p'(3) using ni by auto
  qed
  moreover have "guest_range p' = (\<Union>j \<in> {j \<in> set xs. el1_bit p j}. ent p j) \<union> (if bit (fl_prbar (mpr_flags r)) 2 then reg_range r else {})"
  proof -
    have "{j \<in> set xs'. el1_bit p' j} = {j \<in> set xs. el1_bit p j} \<union> (if bit (fl_prbar (mpr_flags r)) 2 then {i} else {})"
    proof -
      have "\<forall>j \<in> set xs. el1_bit p' j = el1_bit p j" using i old(2) by metis
      then show ?thesis unfolding p'(3) using R(4) by auto
    qed
    moreover have "(\<Union>j \<in> {j \<in> set xs. el1_bit p j}. ent p' j) = (\<Union>j \<in> {j \<in> set xs. el1_bit p j}. ent p j)"
      using i old(1) by (intro SUP_cong refl) (metis (no_types, lifting) mem_Collect_eq)
    ultimately show ?thesis unfolding ok_ranges(2) [OF ok] using ni by auto
  qed
  ultimately show ?thesis using that p'(1) ok R(7) n by blast
qed

lemma listed_cong:
  assumes "listed p xs" "mpu_nexts q = mpu_nexts p" "mpu_order q = mpu_order p"
    and "\<And>j. j \<in> set xs \<Longrightarrow> base_of q j = base_of p j" "\<And>j. j \<in> set xs \<Longrightarrow> lim_of q j = lim_of p j"
  shows "listed q xs"
proof -
  have "sorted_wrt (\<lambda>i j. lim_of q i \<le> base_of q j) xs"
    by (rule sorted_wrt_mono_rel [of xs "\<lambda>i j. lim_of p i \<le> base_of p j"]) (use assms(1,4,5) in \<open>simp_all add: listed_def\<close>)
  then show ?thesis using assms by (simp add: listed_def)
qed

lemma free_entry:
  assumes "mpu_ok p xs" "i \<in> set xs"
  obtains p' where "mpu_entry_free i p = Inr p'" "mpu_ok p' (remove1 i xs)"
    "\<And>j. j \<noteq> i \<Longrightarrow> ent p' j = ent p j" "\<And>j. j \<noteq> i \<Longrightarrow> el1_bit p' j = el1_bit p j"
    "mpu_pr p' = mpu_pr p" "mpu_num_entries p' = mpu_num_entries p" "mpu_locked p' = mpu_locked p"
    "\<And>j. j \<noteq> i \<Longrightarrow> mpu_entry_valid p' j = mpu_entry_valid p j" "\<And>k. bm_bit (mpu_bitmap p') k \<Longrightarrow> bm_bit (mpu_bitmap p) k"
proof -
  from rm_but [OF assms(1), of i] obtain q where q: "mpu_order_rm i p = Inr q" "mpu_but {i} q (remove1 i xs)" "same_regs q p" .
  note b = assms(1) [unfolded mpu_but_def] and e = same_regs_eqs [OF q(3)]
  have "i < bm_len (mpu_bitmap q)" using b assms(2) by (auto simp: e mpu_wf_def)
  from bitmap_clear_eq [OF this] obtain bm where bm: "bitmap_clear (mpu_bitmap q) i = Inr bm" "length bm = length (mpu_bitmap q)"
    "\<And>k. bm_bit bm k = (if k = i then False else bm_bit (mpu_bitmap q) k)" by auto
  let ?p = "q\<lparr>prlar := (prlar q)(i := 0), prbar := (prbar q)(i := 0), mpu_bitmap := bm\<rparr>"
  have r: "mpu_entry_free i p = Inr ?p" using q(1) bm(1) by (simp add: mpu_entry_free_def mpu_entry_clear_def)
  have old: "ent ?p j = ent p j" "el1_bit ?p j = el1_bit p j" "mpu_entry_valid ?p j = mpu_entry_valid p j" "perms_fit ?p j = perms_fit p j"
      "base_of ?p j = base_of p j" "lim_of ?p j = lim_of p j" if "j \<noteq> i" for j
    using that q(3) by (simp_all add: same_regs_def ent_def base_of_def lim_of_def el1_bit_def mpu_entry_valid_def perms_fit_def)
  have v: "mpu_entry_valid ?p j \<longleftrightarrow> j \<noteq> i \<and> mpu_entry_valid p j" for j
    using q(3) by (simp add: mpu_entry_valid_def same_regs_def)
  have n: "mpu_num_entries ?p = mpu_num_entries p" "mpu_pr ?p = mpu_pr p" "mpu_locked ?p = mpu_locked p"
    using q(3) by (simp_all add: same_regs_def mpu_num_entries_def)
  have d: "distinct xs" "i \<notin> set (remove1 i xs)" using b by (simp_all add: listed_def)
  have "listed q (remove1 i xs)" using q(2) by (simp add: mpu_but_def)
  then have l: "listed ?p (remove1 i xs)"
  proof (rule listed_cong)
    fix j assume "j \<in> set (remove1 i xs)"
    then have "j \<noteq> i" using d(2) by blast
    then show "base_of ?p j = base_of q j" "lim_of ?p j = lim_of q j" using old(5,6) by (simp_all add: e)
  qed simp_all
  have "mpu_ok ?p (remove1 i xs)"
    unfolding mpu_but_def
  proof (intro conjI ballI)
    show "mpu_wf ?p" using b bm(2) n by (simp add: e mpu_wf_def bm_len_def)
    show "set (remove1 i xs) = {j. j < mpu_num_entries ?p \<and> mpu_entry_valid ?p j} - {}"
      unfolding v n(1) using b d(1) by (auto simp: set_remove1_eq)
    fix j assume "j \<in> set (remove1 i xs)"
    then have "j \<noteq> i" "j \<in> set xs" using d by (auto dest: notin_set_remove1)
    then show "bm_bit (mpu_bitmap ?p) j" "perms_fit ?p j" using b old(4) bm(3) by (simp_all add: e)
  qed (rule l)
  moreover have "bm_bit (mpu_bitmap ?p) k \<Longrightarrow> bm_bit (mpu_bitmap p) k" for k using bm(3) [of k] by (simp add: e split: if_splits)
  ultimately show ?thesis using that [OF r] old(1-3) n by simp
qed

lemma free_entry_ex:
  assumes "mpu_ok p xs" "i \<in> set xs"
  shows "\<exists>p'. mpu_entry_free i p = Inr p' \<and> mpu_ok p' (remove1 i xs) \<and> (\<forall>j. j \<noteq> i \<longrightarrow> ent p' j = ent p j \<and> el1_bit p' j = el1_bit p j)
    \<and> mpu_pr p' = mpu_pr p \<and> mpu_num_entries p' = mpu_num_entries p \<and> (\<forall>j. j \<noteq> i \<longrightarrow> mpu_entry_valid p' j = mpu_entry_valid p j)
    \<and> (\<forall>k. bm_bit (mpu_bitmap p') k \<longrightarrow> bm_bit (mpu_bitmap p) k)"
  by (rule free_entry [OF assms]) metis

section \<open>Mapping a region that meets no entry\<close>

lemma get_region_nat:
  assumes "base_of p i < lim_of p i" "lim_of p i < 2 ^ 64"
  shows "unat (mpr_base (mpu_entry_get_region p u i)) = base_of p i"
    and "unat (mpr_size (mpu_entry_get_region p u i)) = lim_of p i - base_of p i"
    and "unat (mpr_base (mpu_entry_get_region p u i) + mpr_size (mpu_entry_get_region p u i)) = lim_of p i"
proof -
  let ?r = "mpu_entry_get_region p u i"
  show b: "unat (mpr_base ?r) = base_of p i" by (simp add: mpu_entry_get_region_def base_of_def)
  have l: "unat (PRLAR_LIMIT (prlar p i) + 1) = lim_of p i"
    using assms(2) by (simp add: lim_of_def unat_add_no_wrap)
  have e: "mpr_base ?r + mpr_size ?r = PRLAR_LIMIT (prlar p i) + 1" by (simp add: mpu_entry_get_region_def)
  show "unat (mpr_base ?r + mpr_size ?r) = lim_of p i" unfolding e by (rule l)
  have "PRBAR_BASE (prbar p i) \<le> PRLAR_LIMIT (prlar p i) + 1" using assms(1) l by (simp add: word_le_nat_alt base_of_def)
  then show "unat (mpr_size ?r) = lim_of p i - base_of p i"
    using l by (simp add: mpu_entry_get_region_def base_of_def unat_sub_no_wrap)
qed

lemma fits_end: "region_fits r \<Longrightarrow> unat (mpr_base r + mpr_size r) = unat (mpr_base r) + unat (mpr_size r)"
  by (simp add: region_fits_def unat_add_no_wrap)

text \<open>No entry holds the whole region.\<close>

lemma not_inside:
  assumes "region_fits r" "base_of p i < lim_of p i" "lim_of p i < 2 ^ 64" "ent p i \<inter> reg_range r = {}"
  shows "\<not> mem_regions_overlap r (mpu_entry_get_region p u i)"
proof
  note g = get_region_nat [OF assms(2,3), of u] and f = assms(1) [unfolded region_fits_def]
  assume "mem_regions_overlap r (mpu_entry_get_region p u i)"
  then have "base_of p i \<le> unat (mpr_base r) \<and> unat (mpr_base r) + unat (mpr_size r) \<le> lim_of p i"
    unfolding mem_regions_overlap_def using f assms(2,3) by (subst (asm) range_in_range_iff) (simp_all add: g)
  then have "unat (mpr_base r) \<in> ent p i \<inter> reg_range r" using f by (auto simp: ent_def reg_range_def unat_gt_0)
  then show False using assms(4) by simp
qed

lemma map_scan_disjoint:
  assumes "path (mpu_nexts p) cur xs" "\<forall>i \<in> set xs. base_of p i < lim_of p i \<and> lim_of p i < 2 ^ 64 \<and> ent p i \<inter> reg_range r = {}"
    and "region_fits r" "\<forall>i. prev = Some i \<longrightarrow> lim_of p i \<le> unat (mpr_base r)"
  shows "\<exists>q hit. map_scan p u r cur prev = Some (q, hit) \<and> (\<forall>j. hit \<noteq> Map_overlap j)
    \<and> (\<forall>i. q = Some i \<longrightarrow> (prev = Some i \<or> i \<in> set xs) \<and> lim_of p i \<le> unat (mpr_base r))
    \<and> (\<forall>i. hit = Map_next i \<longrightarrow> i \<in> set xs \<and> unat (mpr_base r) + unat (mpr_size r) \<le> base_of p i)"
  using assms
proof (induction xs arbitrary: cur prev)
  case Nil
  then show ?case by (subst map_scan.simps) simp
next
  case (Cons x xs)
  let ?x = "mpu_entry_get_region p u x"
  have x: "cur = Some x" "path (mpu_nexts p) (mpu_nexts p x) xs" "base_of p x < lim_of p x" "lim_of p x < 2 ^ 64"
    "ent p x \<inter> reg_range r = {}" using Cons.prems(1,2) by auto
  note g = get_region_nat [OF x(3,4), of u]
  have le: "mpr_base r + mpr_size r \<le> mpr_base ?x \<longleftrightarrow> unat (mpr_base r) + unat (mpr_size r) \<le> base_of p x"
    by (simp add: word_le_nat_alt fits_end [OF Cons.prems(3)] g)
  show ?case
  proof (cases "unat (mpr_base r) + unat (mpr_size r) \<le> base_of p x")
    case True
    then have "map_scan p u r cur prev = Some (prev, Map_next x)"
      using x(1) le by (subst map_scan.simps) simp
    then show ?thesis using True Cons.prems(4) by simp
  next
    case False
    have "lim_of p x \<le> unat (mpr_base r)"
    proof (rule ccontr)
      assume "\<not> lim_of p x \<le> unat (mpr_base r)"
      then have "max (base_of p x) (unat (mpr_base r)) \<in> ent p x \<inter> reg_range r"
        using False x(3) Cons.prems(3) by (auto simp: ent_def reg_range_def region_fits_def unat_gt_0)
      then show False using x(5) by blast
    qed
    moreover have "map_scan p u r cur prev = map_scan p u r (mpu_nexts p x) (Some x)"
      using x(1) False le not_inside [OF Cons.prems(3) x(3-5)] by (subst map_scan.simps) simp
    ultimately show ?thesis
      using Cons.IH [OF x(2) _ Cons.prems(3), of "Some x"] Cons.prems(2) by (simp, metis)
  qed
qed

text \<open>What merging makes of the region: it takes over the neighbours in \<open>A\<close>.\<close>

definition absorbs :: "mpu \<Rightarrow> mp_region \<Rightarrow> nat set \<Rightarrow> mp_region \<Rightarrow> bool" where
  "absorbs p r A r' \<longleftrightarrow> region_fits r' \<and> mpr_flags r' = mpr_flags r \<and> reg_range r' = reg_range r \<union> (\<Union>i \<in> A. ent p i)"

lemma aligned_sum: "take_bit 6 a = 0 \<Longrightarrow> take_bit 6 b = 0 \<Longrightarrow> take_bit 6 (a + b) = (0 :: u64)"
  and aligned_diff: "take_bit 6 a = 0 \<Longrightarrow> take_bit 6 b = 0 \<Longrightarrow> take_bit 6 (a - b) = (0 :: u64)"
  by (simp_all add: take_bit_eq_0_iff)

lemma entry_aligned:
  shows "take_bit 6 (mpr_base (mpu_entry_get_region p u i)) = 0" "take_bit 6 (mpr_size (mpu_entry_get_region p u i)) = 0"
proof -
  have m: "PRBAR_FLAGS_MSK = mask 6" "(0x3F :: u64) = mask 6" by (simp_all add: PRBAR_FLAGS_MSK_def mask_eq_exp_minus_1)
  have b: "take_bit 6 (PRBAR_BASE x) = 0" for x unfolding PRBAR_BASE_def m by (rule bit_word_eqI) (auto simp: bit_simps)
  then show "take_bit 6 (mpr_base (mpu_entry_get_region p u i)) = 0" by (simp add: mpu_entry_get_region_def)
  have "PRLAR_LIMIT x + 1 = PRBAR_BASE x + 64" for x
  proof -
    have "PRBAR_BASE x OR mask 6 = PRBAR_BASE x + mask 6"
      by (rule disjunctive_add_eq_or [symmetric]) (auto simp: PRBAR_BASE_def m bit_eq_iff bit_simps)
    moreover have "PRLAR_LIMIT x = PRBAR_BASE x OR mask 6" unfolding PRLAR_LIMIT_def PRBAR_BASE_def m ..
    moreover have "mask 6 + 1 = (64 :: u64)" by (simp add: mask_eq_exp_minus_1)
    ultimately show ?thesis by (simp add: add.assoc)
  qed
  then have "take_bit 6 (PRLAR_LIMIT x + 1) = 0" for x using aligned_sum [OF b [of x], of 64] by (simp add: add.commute)
  then show "take_bit 6 (mpr_size (mpu_entry_get_region p u i)) = 0" using b by (simp add: mpu_entry_get_region_def aligned_diff)
qed

lemma alloc_loop:
  assumes "\<forall>i \<in> set ks. i < bm_len bm"
  shows "(\<exists>i bm'. i \<in> set ks \<and> \<not> bm_bit bm i \<and> allocate_loop ks bm = Inr (bm', Some i) \<and> bm_len bm' = bm_len bm
      \<and> (\<forall>k. bm_bit bm' k \<longleftrightarrow> k = i \<or> bm_bit bm k))
    \<or> ((\<forall>i \<in> set ks. bm_bit bm i) \<and> allocate_loop ks bm = Inr (bm, None))"
  using assms
proof (induction ks)
  case Nil
  then show ?case by simp
next
  case (Cons i ks)
  from Cons.prems obtain bm' where "bitmap_set bm i = Inr bm'" "length bm' = length bm"
    "\<And>k. bm_bit bm' k = (if k = i then True else bm_bit bm k)" using bitmap_set_eq [of i bm] by auto
  then show ?case using Cons bitmap_get_eq [of i bm] by (cases "bm_bit bm i") (auto simp: bm_len_def)
qed

lemma allocate_entry:
  assumes "mpu_wf p" "i0 < mpu_num_entries p" "\<not> bm_bit (mpu_bitmap p) i0"
  obtains i bm where "mpu_entry_allocate p = Inr (p\<lparr>mpu_bitmap := bm\<rparr>, Some i)" "i < mpu_num_entries p" "\<not> bm_bit (mpu_bitmap p) i"
    "bm_len bm = bm_len (mpu_bitmap p)" "\<forall>k. bm_bit bm k \<longleftrightarrow> k = i \<or> bm_bit (mpu_bitmap p) k"
proof -
  have "\<forall>i \<in> set [0..<mpu_num_entries p]. i < bm_len (mpu_bitmap p)" using assms(1) by (auto simp: mpu_wf_def)
  from alloc_loop [OF this] assms(2,3) show ?thesis using that by (auto simp: mpu_entry_allocate_def)
qed

lemma but_free:
  assumes "mpu_ok p xs" "i \<notin> set xs" "bm_len bm = bm_len (mpu_bitmap p)" "\<forall>k. bm_bit bm k \<longleftrightarrow> k = i \<or> bm_bit (mpu_bitmap p) k"
  shows "mpu_but {i} (p\<lparr>mpu_bitmap := bm, mpu_pr := (mpu_pr p)[i := m]\<rparr>) xs"
proof -
  let ?p = "p\<lparr>mpu_bitmap := bm, mpu_pr := (mpu_pr p)[i := m]\<rparr>"
  note b = assms(1) [unfolded mpu_but_def]
  have e: "mpu_num_entries ?p = mpu_num_entries p" "mpu_entry_valid ?p = mpu_entry_valid p"
    by (simp_all add: mpu_num_entries_def mpu_entry_valid_def fun_eq_iff)
  have "listed ?p xs" by (rule listed_cong [of p]) (use b in \<open>simp_all add: base_of_def lim_of_def\<close>)
  moreover have "perms_fit ?p j \<longleftrightarrow> perms_fit p j" if "j \<in> set xs" for j
    using that assms(2) by (cases "j = i") (simp_all add: perms_fit_def el1_bit_def)
  moreover have "mpu_wf ?p" using b assms(3) by (simp add: mpu_wf_def e)
  ultimately show ?thesis using b assms(2,4) unfolding mpu_but_def e by auto
qed

lemma merge_prev_absorbs:
  assumes "mpu_ok p xs" "region_fits r" "\<forall>i. prev = Some i \<longrightarrow> i \<in> set xs \<and> lim_of p i \<le> unat (mpr_base r)"
  shows "\<exists>m r'. merge_prev u p np prev r = Inr (m, r') \<and> absorbs p r (set_option m) r'
    \<and> unat (mpr_base r') + unat (mpr_size r') = unat (mpr_base r) + unat (mpr_size r) \<and> (\<forall>i. m = Some i \<longrightarrow> prev = Some i \<and> mpu_perms_equivalent (mpu_pr p ! i) np)"
proof -
  note b = assms(1) [unfolded mpu_but_def]
  have none: "absorbs p r (set_option None) r" using assms(2) by (simp add: absorbs_def)
  show ?thesis
  proof (cases prev)
    case None
    then show ?thesis using none by (simp add: merge_prev_def)
  next
    case (Some i)
    let ?i = "mpu_entry_get_region p u i"
    have i: "i \<in> set xs" "lim_of p i \<le> unat (mpr_base r)" using assms(3) Some by auto
    then have lk: "mpu_entry_locked p i = Inr (bm_bit (mpu_locked p) i)" "i < length (mpu_pr p)"
      using b by (auto simp: mpu_entry_locked_def mpu_wf_def intro!: bitmap_get_eq)
    have bi: "base_of p i < lim_of p i" "lim_of p i < 2 ^ 64" using b i(1) by (simp_all add: listed_def)
    note g = get_region_nat [OF bi, of u]
    let ?r = "r\<lparr>mpr_base := mpr_base ?i, mpr_size := mpr_size r + mpr_size ?i\<rparr>"
    have "absorbs p r {i} ?r \<and> unat (mpr_base ?r) + unat (mpr_size ?r) = unat (mpr_base r) + unat (mpr_size r)" if "mpr_base ?i + mpr_size ?i = mpr_base r"
    proof -
      have l: "lim_of p i = unat (mpr_base r)" using g(3) that by simp
      have f: "unat (mpr_base r) + unat (mpr_size r) < 2 ^ 64" "0 < unat (mpr_size r)"
        using assms(2) by (simp_all add: region_fits_def unat_gt_0)
      have sz: "unat (mpr_size r + mpr_size ?i) = unat (mpr_size r) + (lim_of p i - base_of p i)"
        using f bi l g(2) by (subst unat_add_no_wrap) simp_all
      then have "unat (mpr_size r + mpr_size ?i) \<noteq> 0" using f by simp
      then have nz: "mpr_size r + mpr_size ?i \<noteq> 0" by (metis unat_0)
      have "region_fits ?r"
        using assms(2) aligned_sum entry_aligned [of p u i] bi f sz l g(1) nz unfolding region_fits_def by simp
      moreover have "reg_range ?r = reg_range r \<union> ent p i" unfolding reg_range_def ent_def using sz g(1) l f bi by auto
      moreover have "unat (mpr_base ?r) + unat (mpr_size ?r) = unat (mpr_base r) + unat (mpr_size r)" using sz g(1) l bi by simp
      ultimately show ?thesis by (simp add: absorbs_def)
    qed
    moreover have "merge_prev u p np prev r =
        Inr (if \<not> bm_bit (mpu_locked p) i \<and> mpr_base ?i + mpr_size ?i = mpr_base r \<and> mpu_entry_attrs ?i = mpu_entry_attrs r
              \<and> mpu_perms_equivalent (mpu_pr p ! i) np then (Some i, ?r) else (None, r))"
      using lk Some by (simp add: merge_prev_def same_kind_def Let_def del: bindR_eq_Inr Inr_eq_bindR)
    ultimately show ?thesis using none Some by (cases "\<not> bm_bit (mpu_locked p) i \<and> mpr_base ?i + mpr_size ?i = mpr_base r
      \<and> mpu_entry_attrs ?i = mpu_entry_attrs r \<and> mpu_perms_equivalent (mpu_pr p ! i) np") (simp_all del: not_not)
  qed
qed


text \<open>The entry behind is merged too; when the one before it already is, it is freed.\<close>

lemma merge_next_absorbs:
  assumes "mpu_ok p xs" "region_fits r" "\<forall>i. nxt = Some i \<longrightarrow> i \<in> set xs \<and> unat (mpr_base r) + unat (mpr_size r) \<le> base_of p i"
    and "absorbs p r0 (set_option m) r" "\<forall>i. m = Some i \<longrightarrow> i \<in> set xs"
  shows "\<exists>p' m' r' xs' B. merge_next u np nxt m r p = Inr (p', m', r') \<and> mpu_ok p' xs' \<and> set xs' = set xs - B \<and> B \<subseteq> set xs
    \<and> absorbs p r0 (set_option m' \<union> B) r' \<and> (\<forall>i. m' = Some i \<longrightarrow> i \<in> set xs') \<and> mpu_pr p' = mpu_pr p \<and> (\<forall>k. bm_bit (mpu_bitmap p') k \<longrightarrow> bm_bit (mpu_bitmap p) k)
    \<and> mpu_num_entries p' = mpu_num_entries p \<and> (\<forall>j \<in> set xs'. ent p' j = ent p j \<and> el1_bit p' j = el1_bit p j) \<and> (m' = None \<longrightarrow> p' = p)
    \<and> (\<forall>i \<in> set_option m' \<union> B. m = Some i \<or> mpu_perms_equivalent (mpu_pr p ! i) np)"
proof -
  note b = assms(1) [unfolded mpu_but_def]
  have same: ?thesis if "merge_next u np nxt m r p = Inr (p, m, r)"
    by (intro exI [of _ p] exI [of _ m] exI [of _ r] exI [of _ xs] exI [of _ "{}"]) (use that assms in simp)
  show ?thesis
  proof (cases nxt)
    case None
    then show ?thesis by (intro same) (simp add: merge_next_def)
  next
    case (Some i)
    let ?i = "mpu_entry_get_region p u i"
    have i: "i \<in> set xs" "unat (mpr_base r) + unat (mpr_size r) \<le> base_of p i" using assms(3) Some by auto
    then have lk: "mpu_entry_locked p i = Inr (bm_bit (mpu_locked p) i)" "i < length (mpu_pr p)"
      using b by (auto simp: mpu_entry_locked_def mpu_wf_def intro!: bitmap_get_eq)
    have bi: "base_of p i < lim_of p i" "lim_of p i < 2 ^ 64" using b i(1) by (simp_all add: listed_def)
    note g = get_region_nat [OF bi, of u]
    let ?r = "r\<lparr>mpr_size := mpr_size r + mpr_size ?i\<rparr>"
    define c where "c \<longleftrightarrow> \<not> bm_bit (mpu_locked p) i \<and> mpr_base r + mpr_size r = mpr_base ?i \<and> mpu_entry_attrs ?i = mpu_entry_attrs r
      \<and> mpu_perms_equivalent (mpu_pr p ! i) np"
    have eq: "merge_next u np nxt m r p = (if \<not> c then Inr (p, m, r) else if m = None then Inr (p, Some i, ?r)
        else bindR (mpu_entry_free i p) (\<lambda>p. Inr (p, m, ?r)))"
      using lk Some by (simp add: merge_next_def same_kind_def Let_def c_def bindR_assoc del: bindR_eq_Inr Inr_eq_bindR)
    show ?thesis
    proof (cases c)
      case False
      then show ?thesis by (intro same) (simp add: eq)
    next
      case True
      have f: "unat (mpr_base r) + unat (mpr_size r) < 2 ^ 64" "0 < unat (mpr_size r)"
        using assms(2) by (simp_all add: region_fits_def unat_gt_0)
      have l: "base_of p i = unat (mpr_base r) + unat (mpr_size r)" using True g(1) fits_end [OF assms(2)] by (simp add: c_def)
      have sz: "unat (mpr_size r + mpr_size ?i) = unat (mpr_size r) + (lim_of p i - base_of p i)"
        using f bi l g(2) by (subst unat_add_no_wrap) simp_all
      then have "unat (mpr_size r + mpr_size ?i) \<noteq> 0" using f by simp
      then have nz: "mpr_size r + mpr_size ?i \<noteq> 0" by (metis unat_0)
      have "region_fits ?r"
        using assms(2) aligned_sum entry_aligned [of p u i] bi f sz l nz unfolding region_fits_def by simp
      moreover have "reg_range ?r = reg_range r \<union> ent p i" unfolding reg_range_def ent_def using sz l f bi by auto
      ultimately have a: "absorbs p r0 (insert i (set_option m)) ?r" using assms(4) by (auto simp: absorbs_def)
      have eqv: "mpu_perms_equivalent (mpu_pr p ! i) np" using True by (simp add: c_def)
      show ?thesis
      proof (cases m)
        case None
        then show ?thesis using eq True a assms(1) i(1) eqv
          by (intro exI [of _ p] exI [of _ "Some i"] exI [of _ ?r] exI [of _ xs] exI [of _ "{}"]) simp
      next
        case (Some k)
        have k: "k \<in> set xs" "k \<noteq> i"
        proof -
          show "k \<in> set xs" using assms(5) Some by blast
          then have bk: "base_of p k < lim_of p k" using b by (simp add: listed_def)
          have "ent p k \<subseteq> reg_range r" using assms(4) Some by (simp add: absorbs_def)
          then have "base_of p k \<in> reg_range r" using bk by (auto simp: ent_def)
          then show "k \<noteq> i" using i(2) by (auto simp: reg_range_def)
        qed
        from free_entry_ex [OF assms(1) i(1)] obtain p' where p': "mpu_entry_free i p = Inr p'" "mpu_ok p' (remove1 i xs)"
          "\<forall>j. j \<noteq> i \<longrightarrow> ent p' j = ent p j \<and> el1_bit p' j = el1_bit p j" "mpu_pr p' = mpu_pr p" "\<forall>k. bm_bit (mpu_bitmap p') k \<longrightarrow> bm_bit (mpu_bitmap p) k"
          "mpu_num_entries p' = mpu_num_entries p"
          by (elim exE conjE)
        have "set (remove1 i xs) = set xs - {i}" using b by (simp add: listed_def)
        then show ?thesis using eq True a p' i(1) k Some eqv
          by (intro exI [of _ p'] exI [of _ m] exI [of _ ?r] exI [of _ "remove1 i xs"] exI [of _ "{i}"]) (auto simp: insert_commute)
      qed
    qed
  qed
qed


text \<open>The permissions of a mapping by one side.\<close>

definition side_perms :: "priv \<Rightarrow> u32 \<Rightarrow> mpu_perms" where
  "side_perms pv np = (if pv = PRIV_VM then \<lparr>el2 = PERM_NONE, el1 = np\<rparr> else \<lparr>el2 = np, el1 = PERM_NONE\<rparr>)"

lemma entry_perms_nonzero: "mem_vmpu_entry_perms r \<noteq> PERM_NONE"
proof -
  have "bit (mem_vmpu_entry_perms r) 1" by (simp add: mem_vmpu_entry_perms_def PERM_R_def bit_or_iff)
  then show ?thesis by (auto simp: PERM_NONE_def)
qed

lemma side_bit:
  assumes "mpu_perms_equivalent (mpu_pr p ! i) (side_perms pv np)" "perms_fit p i" "np \<noteq> PERM_NONE"
  shows "el1_bit p i \<longleftrightarrow> pv = PRIV_VM"
  using assms by (auto simp: mpu_perms_equivalent_def side_perms_def perms_fit_def split: if_splits)

lemma update_same:
  assumes "mpu_perms_equivalent (mpu_pr p ! i) (side_perms pv np)" "i < length (mpu_pr p)"
  shows "mpu_entry_update_priv_perms pv i np p = Inr p"
proof -
  have "(if pv = PRIV_VM then (mpu_pr p ! i)\<lparr>el1 := np\<rparr> else (mpu_pr p ! i)\<lparr>el2 := np\<rparr>) = mpu_pr p ! i"
    using assms(1) by (cases "mpu_pr p ! i") (auto simp: mpu_perms_equivalent_def side_perms_def)
  then show ?thesis using assms(2) by (simp add: mpu_entry_update_priv_perms_def del: bindR_eq_Inr Inr_eq_bindR)
qed

lemma update_in:
  "i < length (mpu_pr p) \<Longrightarrow> mpu_entry_update_priv_perms pv i np p =
    Inr (p\<lparr>mpu_pr := (mpu_pr p)[i := if pv = PRIV_VM then (mpu_pr p ! i)\<lparr>el1 := np\<rparr> else (mpu_pr p ! i)\<lparr>el2 := np\<rparr>]\<rparr>)"
  by (simp only: mpu_entry_update_priv_perms_def rd_in wr_in bindR_Inr)

text \<open>The end of a mapping, when it has an entry of its own.\<close>

lemma map_own:
  assumes "mpu_ok p xs" "region_fits r" "\<forall>j \<in> set xs. ent p j \<inter> reg_range r = {}"
    and "bit (fl_prbar (mpr_flags r)) 2 \<longleftrightarrow> pv = PRIV_VM" "i0 < mpu_num_entries p" "\<not> bm_bit (mpu_bitmap p) i0" "np \<noteq> PERM_NONE"
  obtains i q p' xs' where "mpu_entry_allocate p = Inr (q, Some i)"
    "bindR (mpu_entry_update_priv_perms pv i np q) (\<lambda>p. mpu_entry_set i r p) = Inr p'" "mpu_ok p' xs'"
    "mpu_range p' = mpu_range p \<union> reg_range r" "guest_range p' = guest_range p \<union> (if pv = PRIV_VM then reg_range r else {})"
    "\<forall>k. bm_bit (mpu_bitmap p') k \<longrightarrow> k = i \<or> bm_bit (mpu_bitmap p) k" "mpu_num_entries p' = mpu_num_entries p"
proof -
  note b = assms(1) [unfolded mpu_but_def]
  from allocate_entry [OF b [THEN conjunct1] assms(5,6)] obtain i bm where a: "mpu_entry_allocate p = Inr (p\<lparr>mpu_bitmap := bm\<rparr>, Some i)" "i < mpu_num_entries p" "\<not> bm_bit (mpu_bitmap p) i"
    "bm_len bm = bm_len (mpu_bitmap p)" "\<forall>k. bm_bit bm k \<longleftrightarrow> k = i \<or> bm_bit (mpu_bitmap p) k" .
  have i: "i \<notin> set xs" "i < length (mpu_pr p)" using a(2,3) b by (auto simp: mpu_wf_def)
  let ?m = "if pv = PRIV_VM then (mpu_pr p ! i)\<lparr>el1 := np\<rparr> else (mpu_pr p ! i)\<lparr>el2 := np\<rparr>"
  define q where "q = p\<lparr>mpu_bitmap := bm, mpu_pr := (mpu_pr p)[i := ?m]\<rparr>"
  have u: "mpu_entry_update_priv_perms pv i np (p\<lparr>mpu_bitmap := bm\<rparr>) = Inr q"
    using update_in [of i "p\<lparr>mpu_bitmap := bm\<rparr>" pv np] i(2) by (simp add: q_def)
  have e: "ent q = ent p" "el1_bit q = el1_bit p" "mpu_num_entries q = mpu_num_entries p" "mpu_bitmap q = bm" "mpu_pr q ! i = ?m"
    using i(2) by (simp_all add: q_def fun_eq_iff ent_def base_of_def lim_of_def el1_bit_def mpu_num_entries_def split del: if_split)
  have but: "mpu_but {i} q xs" unfolding q_def using but_free [OF assms(1) i(1) a(4)] a(5) by blast
  have qi: "i < mpu_num_entries q" "bm_bit (mpu_bitmap q) i" using a(2,5) by (simp_all add: e(3,4))
  have dis: "\<forall>j \<in> set xs. ent q j \<inter> reg_range r = {}" using assms(3) by (simp only: e)
  have fit: "el1 (mpu_pr q ! i) = PERM_NONE \<longrightarrow> \<not> bit (fl_prbar (mpr_flags r)) 2" "el2 (mpu_pr q ! i) = PERM_NONE \<longrightarrow> bit (fl_prbar (mpr_flags r)) 2"
    unfolding e(5) using assms(4,7) by simp_all
  from set_but [OF but qi assms(2) dis fit] obtain p' xs' where s: "mpu_entry_set i r q = Inr p'" "mpu_ok p' xs'"
    "mpu_range p' = (\<Union>j \<in> set xs. ent q j) \<union> reg_range r"
    "guest_range p' = (\<Union>j \<in> {j \<in> set xs. el1_bit q j}. ent q j) \<union> (if bit (fl_prbar (mpr_flags r)) 2 then reg_range r else {})"
    "mpu_bitmap p' = mpu_bitmap q" "mpu_num_entries p' = mpu_num_entries q" .
  have bits: "\<forall>k. bm_bit (mpu_bitmap p') k \<longrightarrow> k = i \<or> bm_bit (mpu_bitmap p) k" using a(5) s(5) by (simp add: e(4))
  have "mpu_range p' = mpu_range p \<union> reg_range r" using s(3) ok_ranges(1) [OF assms(1)] by (simp only: e)
  moreover have "guest_range p' = guest_range p \<union> (if pv = PRIV_VM then reg_range r else {})"
    using s(4) ok_ranges(2) [OF assms(1)] assms(4) by (simp only: e)
  moreover have "bindR (mpu_entry_update_priv_perms pv i np (p\<lparr>mpu_bitmap := bm\<rparr>)) (\<lambda>p. mpu_entry_set i r p) = Inr p'"
    unfolding u using s(1) by (simp only: bindR_Inr)
  moreover have "mpu_num_entries p' = mpu_num_entries p" using s(6) e(3) by simp
  ultimately show ?thesis using that a(1) s(2) bits by blast
qed

text \<open>And when it takes over the neighbours in \<open>B\<close> and the entry \<open>i\<close>.\<close>

lemma map_merged:
  assumes "mpu_ok p xs" "mpu_ok p1 xs1" "set xs1 = set xs - B" "B \<subseteq> set xs" "i \<in> set xs1" "absorbs p r0 (insert i B) r"
    and "\<forall>j \<in> set xs1. ent p1 j = ent p j \<and> el1_bit p1 j = el1_bit p j" "mpu_pr p1 = mpu_pr p"
    and "\<forall>j \<in> set xs. ent p j \<inter> reg_range r0 = {}" "bit (fl_prbar (mpr_flags r0)) 2 \<longleftrightarrow> pv = PRIV_VM" "np \<noteq> PERM_NONE"
    and "\<forall>j \<in> insert i B. mpu_perms_equivalent (mpu_pr p ! j) (side_perms pv np)"
  obtains p' xs' where "bindR (mpu_entry_update_priv_perms pv i np p1) (\<lambda>p. mpu_entry_modify i r p) = Inr p'" "mpu_ok p' xs'"
    "mpu_range p' = mpu_range p \<union> reg_range r0" "guest_range p' = guest_range p \<union> (if pv = PRIV_VM then reg_range r0 else {})"
    "mpu_bitmap p' = mpu_bitmap p1" "mpu_num_entries p' = mpu_num_entries p1"
proof -
  note b = assms(1) [unfolded mpu_but_def] and b1 = assms(2) [unfolded mpu_but_def] and a = assms(6) [unfolded absorbs_def]
  have i: "i < mpu_num_entries p1" "bm_bit (mpu_bitmap p1) i" "i < length (mpu_pr p1)" "perms_fit p1 i"
    using b1 assms(5) by (auto simp: mpu_wf_def)
  have u: "mpu_entry_update_priv_perms pv i np p1 = Inr p1"
    using assms(8,12) i(3) by (intro update_same) simp_all
  obtain q where q: "mpu_order_rm i p1 = Inr q" "mpu_but {i} q (remove1 i xs1)" "same_regs q p1" using rm_but [OF assms(2), of i] by auto
  note e = same_regs_eqs [OF q(3)]
  have st: "set (remove1 i xs1) = set xs1 - {i}" using b1 by (simp add: listed_def)
  have old: "ent q j = ent p j" "el1_bit q j = el1_bit p j" if "j \<in> set (remove1 i xs1)" for j using assms(7) that st by (simp_all add: e)
  have dis: "\<forall>j \<in> set (remove1 i xs1). ent q j \<inter> reg_range r = {}"
  proof
    fix j assume j: "j \<in> set (remove1 i xs1)"
    then have jx: "j \<in> set xs" "j \<notin> insert i B" using st assms(3) by auto
    have "ent p j \<inter> ent p k = {}" if "k \<in> insert i B" for k
      using ents_disjoint [of p xs j k] b jx that assms(3-5) by blast
    then show "ent q j \<inter> reg_range r = {}" using assms(9) jx(1) a unfolding old(1) [OF j] by auto
  qed
  have pe: "mpu_perms_equivalent (mpu_pr q ! i) (side_perms pv np)" using assms(8,12) by (simp add: e)
  have fit: "el1 (mpu_pr q ! i) = PERM_NONE \<longrightarrow> \<not> bit (fl_prbar (mpr_flags r)) 2" "el2 (mpu_pr q ! i) = PERM_NONE \<longrightarrow> bit (fl_prbar (mpr_flags r)) 2"
    using pe a assms(10,11) by (auto simp: mpu_perms_equivalent_def side_perms_def split: if_splits)
  have qi: "i < mpu_num_entries q" "bm_bit (mpu_bitmap q) i" using i(1,2) by (simp_all add: e)
  from set_but [OF q(2) qi a [THEN conjunct1] dis fit] obtain p' xs' where s: "mpu_entry_set i r q = Inr p'" "mpu_ok p' xs'"
    "mpu_range p' = (\<Union>j \<in> set (remove1 i xs1). ent q j) \<union> reg_range r"
    "guest_range p' = (\<Union>j \<in> {j \<in> set (remove1 i xs1). el1_bit q j}. ent q j) \<union> (if bit (fl_prbar (mpr_flags r)) 2 then reg_range r else {})"
    "mpu_bitmap p' = mpu_bitmap q" "mpu_num_entries p' = mpu_num_entries q" .
  have all: "set xs = set (remove1 i xs1) \<union> insert i B" using st assms(3-5) by auto
  have "\<forall>j \<in> insert i B. el1_bit p j \<longleftrightarrow> pv = PRIV_VM" using side_bit assms(3-5,11,12) b by blast
  then have g: "{j \<in> set xs. el1_bit p j} = {j \<in> set (remove1 i xs1). el1_bit p j} \<union> (if pv = PRIV_VM then insert i B else {})"
    unfolding all by auto
  have "mpu_range p' = mpu_range p \<union> reg_range r0"
    unfolding s(3) ok_ranges(1) [OF assms(1)] all using a old(1) by auto
  moreover have "guest_range p' = guest_range p \<union> (if pv = PRIV_VM then reg_range r0 else {})"
  proof -
    have "(\<Union>j \<in> {j \<in> set (remove1 i xs1). el1_bit q j}. ent q j) = (\<Union>j \<in> {j \<in> set (remove1 i xs1). el1_bit p j}. ent p j)"
      using old by auto
    then show ?thesis unfolding s(4) ok_ranges(2) [OF assms(1)] g using a assms(10) by auto
  qed
  moreover have "bindR (mpu_entry_update_priv_perms pv i np p1) (\<lambda>p. mpu_entry_modify i r p) = Inr p'"
    unfolding u using q(1) s(1) by (simp add: mpu_entry_modify_def)
  moreover have "mpu_bitmap p' = mpu_bitmap p1" "mpu_num_entries p' = mpu_num_entries p1" using s(5,6) by (simp_all add: e)
  ultimately show ?thesis using that s(2) by blast
qed

lemma map_new_exact:
  assumes "mpu_ok p xs" "region_fits r" "\<forall>j \<in> set xs. ent p j \<inter> reg_range r = {}"
    and "bit (fl_prbar (mpr_flags r)) 2 \<longleftrightarrow> pv = PRIV_VM" "i0 < mpu_num_entries p" "\<not> bm_bit (mpu_bitmap p) i0"
    and "\<forall>i. prev = Some i \<longrightarrow> i \<in> set xs \<and> lim_of p i \<le> unat (mpr_base r)"
    and "\<forall>i. nxt = Some i \<longrightarrow> i \<in> set xs \<and> unat (mpr_base r) + unat (mpr_size r) \<le> base_of p i"
  shows "\<exists>p' r' xs'. map_new u pv prev nxt r p = Inr (p', r') \<and> mpu_ok p' xs'
    \<and> mpu_range p' = mpu_range p \<union> reg_range r \<and> guest_range p' = guest_range p \<union> (if pv = PRIV_VM then reg_range r else {})
    \<and> (\<exists>k. \<forall>j. bm_bit (mpu_bitmap p') j \<longrightarrow> j = k \<or> bm_bit (mpu_bitmap p) j) \<and> mpu_num_entries p' = mpu_num_entries p"
proof -
  define np where "np = mem_vmpu_entry_perms r"
  have nz: "np \<noteq> PERM_NONE" unfolding np_def by (rule entry_perms_nonzero)
  from merge_prev_absorbs [OF assms(1,2,7), of u "side_perms pv np"] obtain m1 r1 where
    1: "merge_prev u p (side_perms pv np) prev r = Inr (m1, r1)" "absorbs p r (set_option m1) r1"
      "\<forall>i. m1 = Some i \<longrightarrow> prev = Some i \<and> mpu_perms_equivalent (mpu_pr p ! i) (side_perms pv np)"
      and end1: "unat (mpr_base r1) + unat (mpr_size r1) = unat (mpr_base r) + unat (mpr_size r)" by blast
  have fl: "region_fits r1" "mpr_flags r1 = mpr_flags r" using 1(2) by (simp_all add: absorbs_def)
  have m1: "\<forall>i. m1 = Some i \<longrightarrow> i \<in> set xs" using 1(3) assms(7) by blast
  have "\<forall>i. nxt = Some i \<longrightarrow> i \<in> set xs \<and> unat (mpr_base r1) + unat (mpr_size r1) \<le> base_of p i" using assms(8) end1 by simp
  from merge_next_absorbs [OF assms(1) fl(1) this 1(2) m1, of u "side_perms pv np"] obtain p1 m2 r2 xs1 B where
    2: "merge_next u (side_perms pv np) nxt m1 r1 p = Inr (p1, m2, r2)" "mpu_ok p1 xs1" "set xs1 = set xs - B" "B \<subseteq> set xs"
      "absorbs p r (set_option m2 \<union> B) r2" "\<forall>i. m2 = Some i \<longrightarrow> i \<in> set xs1" "mpu_pr p1 = mpu_pr p"
      "\<forall>j \<in> set xs1. ent p1 j = ent p j \<and> el1_bit p1 j = el1_bit p j" "m2 = None \<longrightarrow> p1 = p"
      "\<forall>i \<in> set_option m2 \<union> B. m1 = Some i \<or> mpu_perms_equivalent (mpu_pr p ! i) (side_perms pv np)"
      "\<forall>k. bm_bit (mpu_bitmap p1) k \<longrightarrow> bm_bit (mpu_bitmap p) k" "mpu_num_entries p1 = mpu_num_entries p" by blast
  have eqv: "\<forall>i \<in> set_option m2 \<union> B. mpu_perms_equivalent (mpu_pr p ! i) (side_perms pv np)" using 2(10) 1(3) by blast
  have new: "map_new u pv prev nxt r p = (case m2 of
       Some i \<Rightarrow> bindR (bindR (mpu_entry_update_priv_perms pv i np p1) (\<lambda>p. mpu_entry_modify i r2 p)) (\<lambda>p. Inr (p, r2))
     | None \<Rightarrow> bindR (mpu_entry_allocate p1) (\<lambda>(p, a). case a of None \<Rightarrow> Inl Panic
         | Some i \<Rightarrow> bindR (bindR (mpu_entry_update_priv_perms pv i np p) (\<lambda>p. mpu_entry_set i r2 p)) (\<lambda>p. Inr (p, r2))))"
    using 1(1) 2(1) unfolding map_new_def side_perms_def [symmetric] np_def [symmetric] Let_def
    by (simp add: bindR_assoc split_def del: bindR_eq_Inr Inr_eq_bindR cong: option.case_cong)
  show ?thesis
  proof (cases m2)
    case None
    then have B: "B = {}" "p1 = p" using 2(2,3,4,9) assms(1) by (auto simp: mpu_but_def)
    have r2: "region_fits r2" "mpr_flags r2 = mpr_flags r" "reg_range r2 = reg_range r" using 2(5) None B(1) by (simp_all add: absorbs_def)
    from map_own [OF assms(1) r2(1) _ _ assms(5,6) nz, unfolded r2(2,3), OF assms(3,4)] obtain i q p' xs' where
      "mpu_entry_allocate p = Inr (q, Some i)" "bindR (mpu_entry_update_priv_perms pv i np q) (\<lambda>p. mpu_entry_set i r2 p) = Inr p'" "mpu_ok p' xs'"
      "mpu_range p' = mpu_range p \<union> reg_range r" "guest_range p' = guest_range p \<union> (if pv = PRIV_VM then reg_range r else {})"
      "\<forall>k. bm_bit (mpu_bitmap p') k \<longrightarrow> k = i \<or> bm_bit (mpu_bitmap p) k" "mpu_num_entries p' = mpu_num_entries p" .
    then show ?thesis unfolding new None B(2) by (intro exI [of _ p'] exI [of _ r2] exI [of _ xs'] conjI exI [of _ i]) (simp_all del: bindR_eq_Inr Inr_eq_bindR)
  next
    case (Some i)
    have x: "i \<in> set xs1" "absorbs p r (insert i B) r2" "\<forall>j \<in> insert i B. mpu_perms_equivalent (mpu_pr p ! j) (side_perms pv np)"
      using 2(5,6) eqv Some by simp_all
    from map_merged [OF assms(1) 2(2-4) x(1,2) 2(8,7) assms(3,4) nz x(3)] obtain p' xs' where
      "bindR (mpu_entry_update_priv_perms pv i np p1) (\<lambda>p. mpu_entry_modify i r2 p) = Inr p'" "mpu_ok p' xs'"
      "mpu_range p' = mpu_range p \<union> reg_range r" "guest_range p' = guest_range p \<union> (if pv = PRIV_VM then reg_range r else {})"
      "mpu_bitmap p' = mpu_bitmap p1" "mpu_num_entries p' = mpu_num_entries p1" .
    then show ?thesis using 2(11,12) unfolding new Some by (intro exI [of _ p'] exI [of _ r2] exI [of _ xs'] conjI exI [of _ 0]) (simp_all del: bindR_eq_Inr Inr_eq_bindR)
  qed
qed


definition mpu_good :: "mpu \<Rightarrow> bool" where
  "mpu_good p \<longleftrightarrow> (\<exists>xs. mpu_ok p xs)"

lemma map_pass_exact:
  assumes "mpu_ok p xs" "region_fits r" "mpu_range p \<inter> reg_range r = {}"
    and "bit (fl_prbar (mpr_flags r)) 2 \<longleftrightarrow> pv = PRIV_VM" "i0 < mpu_num_entries p" "\<not> bm_bit (mpu_bitmap p) i0"
    and "reg1_valid v" "reg1 v = r" "size_left v = mpr_size r"
  shows "\<exists>p' v'. map_pass u pv p v = Inr (p', v') \<and> mpu_good p' \<and> size_left v' = 0 \<and> failed v' = failed v
    \<and> mpu_range p' = mpu_range p \<union> reg_range r \<and> guest_range p' = guest_range p \<union> (if pv = PRIV_VM then reg_range r else {})
    \<and> (\<exists>k. \<forall>j. bm_bit (mpu_bitmap p') j \<longrightarrow> j = k \<or> bm_bit (mpu_bitmap p) j) \<and> mpu_num_entries p' = mpu_num_entries p"
proof -
  have dis: "\<forall>j \<in> set xs. ent p j \<inter> reg_range r = {}" using assms(3) ok_ranges(1) [OF assms(1)] by auto
  have l: "path (mpu_nexts p) (head (mpu_order p)) xs" "\<forall>i \<in> set xs. base_of p i < lim_of p i \<and> lim_of p i < 2 ^ 64 \<and> ent p i \<inter> reg_range r = {}"
    using assms(1) dis by (simp_all add: mpu_but_def listed_def)
  from map_scan_disjoint [OF l assms(2), of None u] obtain q hit where
    s: "map_scan p u r (head (mpu_order p)) None = Some (q, hit)" "\<forall>j. hit \<noteq> Map_overlap j"
      "\<forall>i. q = Some i \<longrightarrow> i \<in> set xs \<and> lim_of p i \<le> unat (mpr_base r)"
      "\<forall>i. hit = Map_next i \<longrightarrow> i \<in> set xs \<and> unat (mpr_base r) + unat (mpr_size r) \<le> base_of p i" by auto
  define nx where "nx = (case hit of Map_next i \<Rightarrow> Some i | _ \<Rightarrow> None)"
  have nx: "\<forall>i. nx = Some i \<longrightarrow> i \<in> set xs \<and> unat (mpr_base r) + unat (mpr_size r) \<le> base_of p i"
    using s(4) by (cases hit) (simp_all add: nx_def)
  from map_new_exact [OF assms(1,2) dis assms(4-6) s(3) nx, of u] obtain p' r' xs' where
    m: "map_new u pv q nx r p = Inr (p', r')" "mpu_ok p' xs'" "mpu_range p' = mpu_range p \<union> reg_range r"
      "guest_range p' = guest_range p \<union> (if pv = PRIV_VM then reg_range r else {})"
      "\<exists>k. \<forall>j. bm_bit (mpu_bitmap p') j \<longrightarrow> j = k \<or> bm_bit (mpu_bitmap p) j" "mpu_num_entries p' = mpu_num_entries p" by blast
  have "\<exists>v'. map_pass u pv p v = Inr (p', v') \<and> size_left v' = 0 \<and> failed v' = failed v"
    using s(1,2) m(1) assms(7-9)
    by (cases hit) (simp_all add: map_pass_def nx_def del: bindR_eq_Inr Inr_eq_bindR)
  then show ?thesis using m(2-6) unfolding mpu_good_def by blast
qed

lemma mpu_map_facts:
  assumes "mpu_good p" "region_fits r" "mpu_range p \<inter> reg_range r = {}"
    and "bit (fl_prbar (mpr_flags r)) 2 \<longleftrightarrow> pv = PRIV_VM" "i0 < mpu_num_entries p" "\<not> bm_bit (mpu_bitmap p) i0"
  shows "\<exists>p'. mpu_map und pv r p = Inr (p', True) \<and> mpu_good p' \<and> mpu_range p' = mpu_range p \<union> reg_range r
    \<and> guest_range p' = guest_range p \<union> (if pv = PRIV_VM then reg_range r else {})
    \<and> (\<exists>k. \<forall>j. bm_bit (mpu_bitmap p') j \<longrightarrow> j = k \<or> bm_bit (mpu_bitmap p) j) \<and> mpu_num_entries p' = mpu_num_entries p"
proof -
  obtain xs where ok: "mpu_ok p xs" using assms(1) by (auto simp: mpu_good_def)
  let ?v = "\<lparr>size_left = mpr_size r, failed = False, reg1 = r, reg2 = r, reg1_valid = True, reg2_valid = False,
       bottom_mpid = None, top_mpid = None\<rparr>"
  have v: "reg1_valid ?v" "reg1 ?v = r" "size_left ?v = mpr_size r" by simp_all
  from map_pass_exact [OF ok assms(2-6) v, of und] obtain p' v' where
    m: "map_pass und pv p ?v = Inr (p', v')" "size_left v' = 0" "\<not> failed v'" "mpu_good p'" "mpu_range p' = mpu_range p \<union> reg_range r"
      "guest_range p' = guest_range p \<union> (if pv = PRIV_VM then reg_range r else {})"
      "\<exists>k. \<forall>j. bm_bit (mpu_bitmap p') j \<longrightarrow> j = k \<or> bm_bit (mpu_bitmap p) j" "mpu_num_entries p' = mpu_num_entries p" by auto
  have "0 < mpr_size r" using assms(2) by (simp add: region_fits_def word_neq_0_conv)
  then have "map_passes und pv p ?v = map_passes und pv p' v'" by (subst map_passes.simps) (simp add: m(1))
  also have "\<dots> = Some (Inr (p', v'))" using m(2) by (subst map_passes.simps) simp
  finally have "mpu_map und pv r p = Inr (p', True)" using m(3) by (simp add: mpu_map_def ended_def)
  then show ?thesis using m(4-8) by blast
qed

text \<open>C34. Mapping a region in the MPU grants exactly that region: when no enabled entry covers any of it and
  an entry is free, \<open>mpu_map\<close> succeeds, also where it merges the region with the entries before and
  behind it. Afterwards the enabled entries cover what they covered before and the region; the guest reaches what it
  reached before, and the region if it was mapped for the VM; and the entries are disjoint, in order and
  accounted for as before.\<close>

theorem mpu_map_exact:
  assumes "mpu_good p" "region_fits r" "mpu_range p \<inter> reg_range r = {}"
    and "bit (fl_prbar (mpr_flags r)) 2 \<longleftrightarrow> pv = PRIV_VM" "i0 < mpu_num_entries p" "\<not> bm_bit (mpu_bitmap p) i0"
  shows "\<exists>p'. mpu_map und pv r p = Inr (p', True) \<and> mpu_good p' \<and> mpu_range p' = mpu_range p \<union> reg_range r
    \<and> guest_range p' = guest_range p \<union> (if pv = PRIV_VM then reg_range r else {})"
  using mpu_map_facts [OF assms] by blast

text \<open>An MPU of 16 entries: the hypervisor's image at \<open>0x8000\<close> and two pages of a VM at \<open>0x100000\<close>.\<close>

definition demo_mpu :: mpu where
  "demo_mpu = \<lparr>mpu_bitmap = [3, 0], mpu_locked = [1, 0],
     mpu_pr = (replicate 64 \<lparr>el2 = 0, el1 = 0\<rparr>)[0 := \<lparr>el2 = 7, el1 = 0\<rparr>, 1 := \<lparr>el2 = 0, el1 = 7\<rparr>],
     mpu_nexts = (\<lambda>_. None)(0 := Some 1), mpu_order = \<lparr>head = Some 0, tail = Some 1\<rparr>, mpuir = 16,
     prbar = (\<lambda>_. 0)(0 := 0x8030, 1 := 0x100034), prlar = (\<lambda>_. 0)(0 := 0xBFC3, 1 := 0x101FC3)\<rparr>"

definition demo_region :: "vaddr \<Rightarrow> mp_region" where
  "demo_region b = \<lparr>mpr_base = b, mpr_size = 0x1000, mpr_flags = 0x30034, mpr_sec = 0\<rparr>"

lemma demo_mpu_regs:
  "mpu_num_entries demo_mpu = 16" "mpu_entry_valid demo_mpu i \<longleftrightarrow> i = 0 \<or> i = 1" "base_of demo_mpu 0 = 0x8000" "lim_of demo_mpu 0 = 0xC000"
  "base_of demo_mpu 1 = 0x100000" "lim_of demo_mpu 1 = 0x102000" "\<not> el1_bit demo_mpu 0" "el1_bit demo_mpu 1"
  by (simp_all add: demo_mpu_def mpu_num_entries_def MPUIR_REGION_def mpu_entry_valid_def PRLAR_EN_def base_of_def lim_of_def
      PRBAR_BASE_def PRLAR_LIMIT_def PRBAR_FLAGS_MSK_def el1_bit_def bit_iff_odd)

lemma demo_mpu_list:
  "mpu_nexts demo_mpu 0 = Some 1" "mpu_nexts demo_mpu 1 = None" "head (mpu_order demo_mpu) = Some 0"
  "mpu_pr demo_mpu ! 0 = \<lparr>el2 = 7, el1 = 0\<rparr>" "mpu_pr demo_mpu ! 1 = \<lparr>el2 = 0, el1 = 7\<rparr>"
  "mpu_bitmap demo_mpu = [3, 0]" "mpu_locked demo_mpu = [1, 0]" "length (mpu_pr demo_mpu) = 64"
  by (simp_all add: demo_mpu_def)

lemma demo_mpu_ok: "mpu_ok demo_mpu [0, 1]"
  unfolding mpu_but_def
proof (intro conjI)
  show "mpu_wf demo_mpu" unfolding mpu_wf_def demo_mpu_regs(1) demo_mpu_list by (simp add: bm_len_def)
  show "listed demo_mpu [0, 1]" unfolding listed_def
    by (simp add: demo_mpu_regs [unfolded One_nat_def] demo_mpu_list [unfolded One_nat_def])
  show "set [0, 1] = {i. i < mpu_num_entries demo_mpu \<and> mpu_entry_valid demo_mpu i} - {}" unfolding demo_mpu_regs(1,2) by auto
  show "\<forall>i \<in> set [0, 1]. bm_bit (mpu_bitmap demo_mpu) i \<and> perms_fit demo_mpu i"
    by (simp add: perms_fit_def demo_mpu_regs [unfolded One_nat_def] demo_mpu_list [unfolded One_nat_def] PERM_NONE_def bm_bit_def bit_iff_odd)
qed

lemma demo_region_fits: "region_fits (demo_region 0x102000)" "region_fits (demo_region 0x100000)"
  by (simp_all add: region_fits_def demo_region_def fl_prbar_def fl_prlar_def take_bit_eq_mod bit_iff_odd)

lemma demo_mpu_ranges: "mpu_range demo_mpu = {0x8000..<0xC000} \<union> {0x100000..<0x102000}" "guest_range demo_mpu = {0x100000..<0x102000}"
  unfolding ok_ranges [OF demo_mpu_ok]
  by (auto simp: ent_def demo_mpu_regs [unfolded One_nat_def] demo_mpu_regs)

text \<open>The next page of the VM is merged with the entry it has.\<close>

lemma mpu_map_exact_witness:
  "\<exists>p'. mpu_map 0 PRIV_VM (demo_region 0x102000) demo_mpu = Inr (p', True) \<and> mpu_good p' \<and> guest_range p' = {0x100000..<0x103000}"
proof -
  have r: "reg_range (demo_region 0x102000) = {0x102000..<0x103000}" by (simp add: reg_range_def demo_region_def)
  have "\<exists>p'. mpu_map 0 PRIV_VM (demo_region 0x102000) demo_mpu = Inr (p', True) \<and> mpu_good p'
      \<and> mpu_range p' = mpu_range demo_mpu \<union> reg_range (demo_region 0x102000)
      \<and> guest_range p' = guest_range demo_mpu \<union> (if PRIV_VM = PRIV_VM then reg_range (demo_region 0x102000) else {})"
  proof (rule mpu_map_exact)
    show "mpu_good demo_mpu" using demo_mpu_ok by (auto simp: mpu_good_def)
    show "region_fits (demo_region 0x102000)" by (rule demo_region_fits)
    show "mpu_range demo_mpu \<inter> reg_range (demo_region 0x102000) = {}" unfolding r demo_mpu_ranges by auto
    show "bit (fl_prbar (mpr_flags (demo_region 0x102000))) 2 = (PRIV_VM = PRIV_VM)" by (simp add: demo_region_def fl_prbar_def bit_iff_odd)
    show "2 < mpu_num_entries demo_mpu" by (simp add: demo_mpu_regs)
    show "\<not> bm_bit (mpu_bitmap demo_mpu) 2" by (simp add: demo_mpu_list bm_bit_def bit_iff_odd)
  qed
  moreover have "{0x100000..<0x102000} \<union> {0x102000..<0x103000} = {0x100000..<0x103000 :: nat}" by auto
  ultimately show ?thesis unfolding r demo_mpu_ranges by auto
qed

end
