(* ===== verification/Mpu_Unmap.thy ===== *)
theory Mpu_Unmap
  imports Mpu_View
begin

text \<open>
  Removing a region from the MPU: what \<open>mpu_unmap\<close> takes away when no entry is cut by the border
  of the region, and the two ways in which it does not do what is asked of it.
\<close>

section \<open>Removing a region\<close>

lemma unmap_scan_none:
  assumes "path (mpu_nexts p) cur xs" "region_fits r"
    and "\<forall>i \<in> set xs. i < length (mpu_pr p) \<and> base_of p i < lim_of p i \<and> lim_of p i < 2 ^ 64 \<and> \<not> ent p i \<subseteq> reg_range r"
  shows "unmap_scan p u pv r cur = Some (Inr None)"
  using assms
proof (induction xs arbitrary: cur)
  case Nil
  then show ?case by (subst unmap_scan.simps) simp
next
  case (Cons x xs)
  have x: "cur = Some x" "path (mpu_nexts p) (mpu_nexts p x) xs" "base_of p x < lim_of p x" "lim_of p x < 2 ^ 64"
    "\<not> ent p x \<subseteq> reg_range r" "x < length (mpu_pr p)" using Cons.prems(1,3) by auto
  note g = get_region_nat [OF x(3,4), of u]
  have "\<not> mem_regions_overlap (mpu_entry_get_region p u x) r"
    unfolding mem_regions_overlap_def using Cons.prems(2) x(3-5)
    by (subst range_in_range_iff) (auto simp: g region_fits_def ent_def reg_range_def)
  then show ?case using Cons.IH [OF x(2) Cons.prems(2)] Cons.prems(3) x(1,6)
    by (subst unmap_scan.simps) (simp add: mpu_entry_has_priv_def Let_def del: bindR_eq_Inr Inr_eq_bindR)
qed

text \<open>A mapping that was merged cannot be taken back: \<open>mem_regions_overlap\<close> tests whether one region lies inside the
  other, so \<open>mpu_unmap\<close> only finds entries that lie wholly inside the region to be removed. When there is
  none, as when \<open>mpu_map\<close> merged the region with its neighbours, it changes nothing: the guest still
  reaches the region. The result is false, which the callers in \<open>core/mpu/mem.c\<close> ignore.\<close>

theorem mpu_unmap_misses_merged:
  assumes "mpu_good p" "region_fits r" "\<forall>i. i < mpu_num_entries p \<longrightarrow> mpu_entry_valid p i \<longrightarrow> \<not> ent p i \<subseteq> reg_range r"
  shows "mpu_unmap und pv r p = Inr (p, False)"
proof -
  obtain xs where ok: "mpu_ok p xs" using assms(1) by (auto simp: mpu_good_def)
  then have "\<forall>i \<in> set xs. i < length (mpu_pr p) \<and> base_of p i < lim_of p i \<and> lim_of p i < 2 ^ 64 \<and> \<not> ent p i \<subseteq> reg_range r"
    using assms(3) by (auto simp: mpu_but_def listed_def mpu_wf_def)
  then have s: "unmap_scan p und pv r (head (mpu_order p)) = Some (Inr None)"
    using ok assms(2) by (intro unmap_scan_none [of _ _ xs]) (simp_all add: mpu_but_def listed_def)
  have "0 < mpr_size r" using assms(2) by (simp add: region_fits_def word_neq_0_conv)
  then have "unmap_rounds und pv r (mpr_size r) p = Some (Inr (p, mpr_size r))"
    by (subst unmap_rounds.simps) (simp add: s ended_def)
  then show ?thesis using \<open>0 < mpr_size r\<close> by (simp add: mpu_unmap_def ended_def)
qed

lemma mpu_unmap_misses_merged_witness:
  "mpu_unmap 0 PRIV_VM (demo_region 0x100000) demo_mpu = Inr (demo_mpu, False) \<and> {0x100000..<0x101000} \<subseteq> guest_range demo_mpu"
proof
  have r: "reg_range (demo_region 0x100000) = {0x100000..<0x101000}" by (simp add: reg_range_def demo_region_def)
  show "mpu_unmap 0 PRIV_VM (demo_region 0x100000) demo_mpu = Inr (demo_mpu, False)"
  proof (rule mpu_unmap_misses_merged)
    show "mpu_good demo_mpu" using demo_mpu_ok by (auto simp: mpu_good_def)
    show "region_fits (demo_region 0x100000)" by (rule demo_region_fits)
    show "\<forall>i. i < mpu_num_entries demo_mpu \<longrightarrow> mpu_entry_valid demo_mpu i \<longrightarrow> \<not> ent demo_mpu i \<subseteq> reg_range (demo_region 0x100000)"
      unfolding r demo_mpu_regs(1,2) by (auto simp: ent_def demo_mpu_regs [unfolded One_nat_def] demo_mpu_regs)
  qed
  show "{0x100000..<0x101000} \<subseteq> guest_range demo_mpu" unfolding demo_mpu_ranges by auto
qed

definition has_side :: "mpu \<Rightarrow> nat \<Rightarrow> priv \<Rightarrow> bool" where
  "has_side p i pv \<longleftrightarrow> (if pv = PRIV_VM then el1 (mpu_pr p ! i) \<noteq> PERM_NONE else el2 (mpu_pr p ! i) \<noteq> PERM_NONE)"

text \<open>The addresses mapped for a side, as the permissions record it, and the record being that of the registers.\<close>

definition side_range :: "mpu \<Rightarrow> priv \<Rightarrow> nat set" where
  "side_range p pv = (\<Union>i \<in> {i. i < mpu_num_entries p \<and> mpu_entry_valid p i \<and> has_side p i pv}. ent p i)"

definition accurate :: "mpu \<Rightarrow> bool" where
  "accurate p \<longleftrightarrow> (\<forall>i. i < mpu_num_entries p \<longrightarrow> mpu_entry_valid p i \<longrightarrow> (has_side p i PRIV_VM \<longleftrightarrow> el1_bit p i))"

lemma accurate_guest: "accurate p \<Longrightarrow> side_range p PRIV_VM = guest_range p"
  by (auto simp: side_range_def guest_range_def accurate_def)

lemma set_flags_fl: "fl_prbar (set_flags f b l) = b" "fl_prlar (set_flags f b l) = l"
proof -
  show "fl_prbar (set_flags f b l) = b" unfolding fl_prbar_def set_flags_def
    by (rule bit_word_eqI) (auto simp: bit_simps)
  show "fl_prlar (set_flags f b l) = l" unfolding fl_prlar_def set_flags_def
    by (rule bit_word_eqI) (auto simp: bit_simps dest: bit_imp_le_length)
qed

lemma or_and_zero: "(a OR b) AND c = 0 \<longleftrightarrow> a AND c = 0 \<and> b AND c = (0 :: 'a::len word)"
  by (simp add: bit.conj_disj_distrib2 or_eq_0_iff)

lemma and_and_zero: "a AND c = 0 \<Longrightarrow> (a AND b) AND c = (0 :: 'a::len word)"
  by (metis bit.conj_zero_left and.assoc and.commute)

lemma entry_set_perms_flags:
  assumes "fl_prbar (mpr_flags r) AND NOT 0x3F = 0"
  shows "fl_prlar (mpr_flags (mpu_entry_set_perms r m)) = fl_prlar (mpr_flags r)"
    and "fl_prbar (mpr_flags (mpu_entry_set_perms r m)) AND NOT 0x3F = 0"
    and "bit (fl_prbar (mpr_flags (mpu_entry_set_perms r m))) 2 \<longleftrightarrow> el1 m \<noteq> PERM_NONE"
    and "mpr_base (mpu_entry_set_perms r m) = mpr_base r" "mpr_size (mpu_entry_set_perms r m) = mpr_size r"
proof -
  note d = mpu_entry_set_perms_def Let_def set_flags_fl PRBAR_PERMS_FLAGS_MSK_def PRBAR_AP_RW_EL2_def PRBAR_AP_RO_EL2_def PRBAR_XN_def PRBAR_EL1_BIT_def
  show "fl_prlar (mpr_flags (mpu_entry_set_perms r m)) = fl_prlar (mpr_flags r)"
    "mpr_base (mpu_entry_set_perms r m) = mpr_base r" "mpr_size (mpu_entry_set_perms r m) = mpr_size r" by (simp_all add: d)
  have "(fl_prbar (mpr_flags r) AND x) AND NOT 0x3F = 0" for x using assms by (rule and_and_zero)
  then show "fl_prbar (mpr_flags (mpu_entry_set_perms r m)) AND NOT 0x3F = 0" by (simp add: d or_and_zero)
  have "\<not> bit (x AND NOT 15) 2" for x :: u16 by (simp add: bit_and_iff bit_not_iff bit_iff_odd [of 15])
  then show "bit (fl_prbar (mpr_flags (mpu_entry_set_perms r m))) 2 \<longleftrightarrow> el1 m \<noteq> PERM_NONE"
    by (simp add: d bit_or_iff bit_iff_odd [of 8] bit_iff_odd [of 2] bit_iff_odd [of 4])
qed

lemma get_region_flags:
  "fl_prbar (mpr_flags (mpu_entry_get_region p u i)) = ucast (prbar p i AND 0x3F)"
  "fl_prlar (mpr_flags (mpu_entry_get_region p u i)) = ucast (prlar p i AND 0x3F)"
  by (simp_all add: mpu_entry_get_region_def set_flags_fl PRBAR_FLAGS_MSK_def)

lemma flags_small: "(ucast (w AND 0x3F :: u64) :: u16) AND NOT 0x3F = 0"
proof -
  have m: "(0x3F :: u64) = mask 6" "(0x3F :: u16) = mask 6" by (simp_all add: mask_eq_exp_minus_1)
  show ?thesis unfolding m by (rule bit_word_eqI) (auto simp: bit_simps)
qed

text \<open>An entry with new permissions.\<close>

lemma reset_entry_fits:
  assumes "base_of p i < lim_of p i" "lim_of p i < 2 ^ 64" "mpu_entry_valid p i"
  shows "region_fits (mpu_entry_set_perms (mpu_entry_get_region p u i) m)"
    and "reg_range (mpu_entry_set_perms (mpu_entry_get_region p u i) m) = ent p i"
    and "bit (fl_prbar (mpr_flags (mpu_entry_set_perms (mpu_entry_get_region p u i) m))) 2 \<longleftrightarrow> el1 m \<noteq> PERM_NONE"
proof -
  let ?r = "mpu_entry_get_region p u i"
  have fl: "fl_prbar (mpr_flags ?r) AND NOT 0x3F = 0" "fl_prlar (mpr_flags ?r) AND NOT 0x3F = 0"
    unfolding get_region_flags by (rule flags_small)+
  have "bit (prlar p i) 0" using assms(3) by (auto simp: mpu_entry_valid_def PRLAR_EN_def and_one_eq odd_iff_mod_2_eq_one bit_0)
  moreover have "bit (0x3F :: u64) 0" by simp
  ultimately have "bit (fl_prlar (mpr_flags ?r)) 0" unfolding get_region_flags by (simp only: bit_simps) simp
  moreover note f = entry_set_perms_flags [OF fl(1), of m] and g = get_region_nat [OF assms(1,2), of u] and entry_aligned [of p u i]
  moreover have "mpr_size ?r \<noteq> 0" using g(2) assms(1) by (metis unat_0 zero_less_diff less_irrefl)
  ultimately show "region_fits (mpu_entry_set_perms ?r m)" using fl(2) assms(1,2) by (simp add: region_fits_def)
  show "reg_range (mpu_entry_set_perms ?r m) = ent p i" using assms(1) by (simp add: reg_range_def ent_def f g)
  show "bit (fl_prbar (mpr_flags (mpu_entry_set_perms ?r m))) 2 \<longleftrightarrow> el1 m \<noteq> PERM_NONE" by (rule f(3))
qed

lemma mpu_pr_swap:
  "p\<lparr>mpu_pr := x, mpu_nexts := a, mpu_order := b\<rparr> = p\<lparr>mpu_nexts := a, mpu_order := b, mpu_pr := x\<rparr>"
  "p\<lparr>mpu_pr := x, prlar := c, prbar := d, mpu_bitmap := e\<rparr> = p\<lparr>prlar := c, prbar := d, mpu_bitmap := e, mpu_pr := x\<rparr>"
  by (cases p; simp)+

lemma order_rm_pr: "mpu_order_rm i (p\<lparr>mpu_pr := x\<rparr>) = bindR (mpu_order_rm i p) (\<lambda>q. Inr (q\<lparr>mpu_pr := x\<rparr>))"
  by (simp add: mpu_order_rm_def put_order_def bindR_assoc split_def mpu_pr_swap del: bindR_eq_Inr Inr_eq_bindR)

lemma entry_free_pr: "mpu_entry_free i (p\<lparr>mpu_pr := x\<rparr>) = bindR (mpu_entry_free i p) (\<lambda>q. Inr (q\<lparr>mpu_pr := x\<rparr>))"
  by (simp add: mpu_entry_free_def mpu_entry_clear_def order_rm_pr bindR_assoc mpu_pr_swap del: bindR_eq_Inr Inr_eq_bindR)

lemma but_pr:
  assumes "mpu_but out p xs" "i \<notin> set xs"
  shows "mpu_but out (p\<lparr>mpu_pr := (mpu_pr p)[i := m]\<rparr>) xs"
proof -
  let ?p = "p\<lparr>mpu_pr := (mpu_pr p)[i := m]\<rparr>"
  note b = assms(1) [unfolded mpu_but_def]
  have e: "mpu_num_entries ?p = mpu_num_entries p" "mpu_entry_valid ?p = mpu_entry_valid p"
    by (simp_all add: mpu_num_entries_def mpu_entry_valid_def fun_eq_iff)
  have "listed ?p xs" by (rule listed_cong [of p]) (use b in \<open>simp_all add: base_of_def lim_of_def\<close>)
  moreover have "perms_fit ?p j \<longleftrightarrow> perms_fit p j" if "j \<in> set xs" for j
    using that assms(2) by (cases "j = i") (simp_all add: perms_fit_def el1_bit_def)
  moreover have "mpu_wf ?p" using b by (simp add: mpu_wf_def e)
  ultimately show ?thesis using b unfolding mpu_but_def e by auto
qed

text \<open>\<open>p'\<close> is \<open>p\<close> with entry \<open>i\<close> withdrawn from a side.\<close>

definition withdrawn :: "mpu \<Rightarrow> nat \<Rightarrow> priv \<Rightarrow> mpu \<Rightarrow> bool" where
  "withdrawn p i pv p' \<longleftrightarrow> mpu_num_entries p' = mpu_num_entries p
    \<and> (\<forall>j < mpu_num_entries p. mpu_entry_valid p' j \<longleftrightarrow> mpu_entry_valid p j \<and> (j = i \<longrightarrow> (\<exists>s \<in> {PRIV_HYP, PRIV_VM}. s \<noteq> pv \<and> has_side p i s)))
    \<and> (\<forall>j < mpu_num_entries p. mpu_entry_valid p' j \<longrightarrow> ent p' j = ent p j
        \<and> (\<forall>s \<in> {PRIV_HYP, PRIV_VM}. has_side p' j s \<longleftrightarrow> has_side p j s \<and> (j = i \<longrightarrow> s \<noteq> pv))
        \<and> (el1_bit p' j \<longleftrightarrow> (if j = i then has_side p' j PRIV_VM else el1_bit p j)))"

lemma withdrawnI:
  assumes "mpu_num_entries p' = mpu_num_entries p"
    and "\<And>j. j \<noteq> i \<Longrightarrow> mpu_entry_valid p' j = mpu_entry_valid p j" "\<And>j. j \<noteq> i \<Longrightarrow> ent p' j = ent p j"
    and "\<And>j. j \<noteq> i \<Longrightarrow> el1_bit p' j = el1_bit p j" "\<And>j s. j \<noteq> i \<Longrightarrow> has_side p' j s = has_side p j s"
    and "mpu_entry_valid p' i \<longleftrightarrow> mpu_entry_valid p i \<and> (\<exists>s \<in> {PRIV_HYP, PRIV_VM}. s \<noteq> pv \<and> has_side p i s)"
    and "mpu_entry_valid p' i \<Longrightarrow> ent p' i = ent p i \<and> el1_bit p' i = has_side p' i PRIV_VM"
    and "\<And>s. mpu_entry_valid p' i \<Longrightarrow> s \<in> {PRIV_HYP, PRIV_VM} \<Longrightarrow> has_side p' i s \<longleftrightarrow> has_side p i s \<and> s \<noteq> pv"
  shows "withdrawn p i pv p'"
  unfolding withdrawn_def
proof (intro conjI allI impI ballI)
  fix j
  show "mpu_entry_valid p' j \<longleftrightarrow> mpu_entry_valid p j \<and> (j = i \<longrightarrow> (\<exists>s \<in> {PRIV_HYP, PRIV_VM}. s \<noteq> pv \<and> has_side p i s))"
    using assms(2) [of j] assms(6) by (cases "j = i") simp_all
  assume v: "mpu_entry_valid p' j"
  show "ent p' j = ent p j" using assms(3) [of j] assms(7) v by (cases "j = i") simp_all
  show "el1_bit p' j \<longleftrightarrow> (if j = i then has_side p' j PRIV_VM else el1_bit p j)" using assms(4) [of j] assms(7) v by (cases "j = i") simp_all
  show "has_side p' j s \<longleftrightarrow> has_side p j s \<and> (j = i \<longrightarrow> s \<noteq> pv)" if "s \<in> {PRIV_HYP, PRIV_VM}" for s
    using assms(5) [of j s] assms(8) [of s] that v by (cases "j = i") simp_all
qed (rule assms(1))

lemma withdrawn_accurate: "withdrawn p i pv p' \<Longrightarrow> accurate p \<Longrightarrow> accurate p'"
  by (auto simp: withdrawn_def accurate_def)

lemma unmap_entry_step:
  assumes "mpu_ok p xs" "i \<in> set xs" "ent p i \<subseteq> reg_range r" "region_fits r" "pv \<in> {PRIV_HYP, PRIV_VM}"
  shows "\<exists>p' xs'. unmap_entry u pv r i p = Inr (p', of_nat (lim_of p i - base_of p i)) \<and> mpu_ok p' xs' \<and> withdrawn p i pv p'
    \<and> (\<forall>k. bm_bit (mpu_bitmap p') k \<longrightarrow> bm_bit (mpu_bitmap p) k)"
proof -
  note b = assms(1) [unfolded mpu_but_def]
  have bi: "base_of p i < lim_of p i" "lim_of p i < 2 ^ 64" "mpu_entry_valid p i" "i < length (mpu_pr p)" "i < mpu_num_entries p"
    "bm_bit (mpu_bitmap p) i" using b assms(2) by (auto simp: listed_def mpu_wf_def)
  define m where "m = (if pv = PRIV_VM then (mpu_pr p ! i)\<lparr>el1 := PERM_NONE\<rparr> else (mpu_pr p ! i)\<lparr>el2 := PERM_NONE\<rparr>)"
  let ?r = "mpu_entry_get_region p u i"
  note g = get_region_nat [OF bi(1,2), of u]
  define p1 where "p1 = p\<lparr>mpu_pr := (mpu_pr p)[i := m]\<rparr>"
  have u: "mpu_entry_update_priv_perms pv i PERM_NONE p = Inr p1" unfolding p1_def m_def by (rule update_in [OF bi(4)])
  have rm: "rd (mpu_pr p1) i = Inr m" using bi(4) by (simp add: p1_def)
  have in_r: "unat (mpr_base r) \<le> base_of p i" "lim_of p i \<le> unat (mpr_base r + mpr_size r)"
    using assms(3) bi(1) fits_end [OF assms(4)] by (simp_all add: ent_def reg_range_def)
  have lim: "mpr_base ?r + mpr_size ?r \<le> mpr_base r + mpr_size r" "mpr_base r \<le> mpr_base ?r"
    using in_r g by (simp_all add: word_le_nat_alt)
  have sz: "mpr_size ?r = of_nat (lim_of p i - base_of p i)" 
  proof -
    have "of_nat (unat (mpr_size ?r)) = mpr_size ?r" by simp
    then show ?thesis unfolding g(2) by simp
  qed
  define q where "q = (if \<not> (el1 m = PERM_NONE \<and> el2 m = PERM_NONE) then mpu_entry_modify i (mpu_entry_set_perms ?r m) p1 else mpu_entry_free i p1)"
  have eq: "unmap_entry u pv r i p = bindR q (\<lambda>p'. Inr (p', of_nat (lim_of p i - base_of p i)))"
    unfolding unmap_entry_def Let_def rd_in [OF bi(4)] bindR_Inr u rm q_def
    unfolding if_P [OF lim(1)] if_P [OF lim(2)]
    by (simp add: unmap_part_def sz [symmetric] del: bindR_eq_Inr Inr_eq_bindR cong: if_cong)
  have n1: "mpu_num_entries p1 = mpu_num_entries p" "length (mpu_pr p1) = length (mpu_pr p)" by (simp_all add: p1_def mpu_num_entries_def)
  have pr1: "mpu_pr p1 ! i = m" "\<And>j. j \<noteq> i \<Longrightarrow> mpu_pr p1 ! j = mpu_pr p ! j" using bi(4) by (simp_all add: p1_def)
  have i1: "i \<notin> set (remove1 i xs)" using b by (simp add: listed_def)
  show ?thesis
  proof (cases "el1 m = PERM_NONE \<and> el2 m = PERM_NONE")
    case True
    from free_entry_ex [OF assms(1,2)] obtain f where f: "mpu_entry_free i p = Inr f" "mpu_ok f (remove1 i xs)"
      "\<forall>j. j \<noteq> i \<longrightarrow> ent f j = ent p j \<and> el1_bit f j = el1_bit p j" "mpu_pr f = mpu_pr p" "mpu_num_entries f = mpu_num_entries p"
      "\<forall>j. j \<noteq> i \<longrightarrow> mpu_entry_valid f j = mpu_entry_valid p j" "\<forall>k. bm_bit (mpu_bitmap f) k \<longrightarrow> bm_bit (mpu_bitmap p) k"
      by (elim exE conjE)
    define p2 where "p2 = f\<lparr>mpu_pr := (mpu_pr f)[i := m]\<rparr>"
    have q: "q = Inr p2" using True f(1,4) unfolding q_def p1_def entry_free_pr p2_def by (simp)
    have ok: "mpu_ok p2 (remove1 i xs)" unfolding p2_def by (rule but_pr [OF f(2) i1])
    have v: "{j. j < mpu_num_entries p \<and> mpu_entry_valid p2 j} = {j. j < mpu_num_entries p \<and> mpu_entry_valid p j} - {i}"
      using ok b i1 f(5) by (simp add: mpu_but_def p2_def mpu_num_entries_def set_remove1_eq [of xs] listed_def)
    have "withdrawn p i pv p2"
    proof (rule withdrawnI)
      show "mpu_num_entries p2 = mpu_num_entries p" using f(5) by (simp add: p2_def mpu_num_entries_def)
      have val: "mpu_entry_valid p2 j = mpu_entry_valid f j" for j by (simp add: p2_def mpu_entry_valid_def)
      have "i \<notin> {j. j < mpu_num_entries p \<and> mpu_entry_valid p2 j}" unfolding v by simp
      then have "\<not> mpu_entry_valid p2 i" using bi(5) by blast
      then show "mpu_entry_valid p2 i \<longleftrightarrow> mpu_entry_valid p i \<and> (\<exists>s \<in> {PRIV_HYP, PRIV_VM}. s \<noteq> pv \<and> has_side p i s)"
        "mpu_entry_valid p2 i \<Longrightarrow> ent p2 i = ent p i \<and> el1_bit p2 i = has_side p2 i PRIV_VM"
        "\<And>s. mpu_entry_valid p2 i \<Longrightarrow> s \<in> {PRIV_HYP, PRIV_VM} \<Longrightarrow> has_side p2 i s \<longleftrightarrow> has_side p i s \<and> s \<noteq> pv"
        using True assms(5) by (auto simp: has_side_def m_def)
      fix j assume j: "j \<noteq> i"
      show "mpu_entry_valid p2 j = mpu_entry_valid p j" using f(6) j by (simp add: val)
      show "ent p2 j = ent p j" "el1_bit p2 j = el1_bit p j" "\<And>s. has_side p2 j s = has_side p j s"
        using f(3,4) j by (simp_all add: p2_def ent_def base_of_def lim_of_def el1_bit_def has_side_def)
    qed
    moreover have "\<forall>k. bm_bit (mpu_bitmap p2) k \<longrightarrow> bm_bit (mpu_bitmap p) k" using f(7) by (simp add: p2_def)
    ultimately show ?thesis unfolding eq q bindR_Inr using ok by blast
  next
    case False
    obtain f where f: "mpu_order_rm i p = Inr f" "mpu_but {i} f (remove1 i xs)" "same_regs f p" using rm_but [OF assms(1), of i] by blast
    note e = same_regs_eqs [OF f(3)]
    define p2 where "p2 = f\<lparr>mpu_pr := (mpu_pr f)[i := m]\<rparr>"
    have e2: "ent p2 = ent p" "el1_bit p2 = el1_bit p" "mpu_entry_valid p2 = mpu_entry_valid p" "mpu_num_entries p2 = mpu_num_entries p"
        "mpu_bitmap p2 = mpu_bitmap p" "mpu_pr p2 = mpu_pr p1"
      using f(3) by (simp_all add: same_regs_def p2_def p1_def fun_eq_iff ent_def base_of_def lim_of_def el1_bit_def mpu_entry_valid_def mpu_num_entries_def)
    have but: "mpu_but {i} p2 (remove1 i xs)" unfolding p2_def by (rule but_pr [OF f(2) i1])
    note R = reset_entry_fits [OF bi(1-3), of u m]
    let ?n = "mpu_entry_set_perms ?r m"
    have dis: "\<forall>j \<in> set (remove1 i xs). ent p2 j \<inter> reg_range ?n = {}"
      unfolding e2 R(2) using ents_disjoint b assms(2) i1 by (metis notin_set_remove1)
    have fit: "el1 (mpu_pr p2 ! i) = PERM_NONE \<longrightarrow> \<not> bit (fl_prbar (mpr_flags ?n)) 2" "el2 (mpu_pr p2 ! i) = PERM_NONE \<longrightarrow> bit (fl_prbar (mpr_flags ?n)) 2"
      unfolding e2 R(3) pr1(1) using False by blast+
    have qi: "i < mpu_num_entries p2" "bm_bit (mpu_bitmap p2) i" using bi(5,6) by (simp_all add: e2)
    from set_but [OF but qi R(1) dis fit] obtain p3 xs3 where s: "mpu_entry_set i ?n p2 = Inr p3" "mpu_ok p3 xs3" "mpu_bitmap p3 = mpu_bitmap p2" "mpu_num_entries p3 = mpu_num_entries p2" .
    note G = entry_set_regs [OF R(1) s(1)]
    have q: "q = Inr p3" using False f(1) s(1) unfolding q_def mpu_entry_modify_def
      by (simp add: p1_def order_rm_pr p2_def [symmetric] e(10) [symmetric])
    have "withdrawn p i pv p3"
    proof (rule withdrawnI)
      show "mpu_num_entries p3 = mpu_num_entries p" using G(10) e2(4) by (simp add: mpu_num_entries_def)
      show "mpu_entry_valid p3 i \<longleftrightarrow> mpu_entry_valid p i \<and> (\<exists>s \<in> {PRIV_HYP, PRIV_VM}. s \<noteq> pv \<and> has_side p i s)"
        using False assms(5) G(3) bi(3) by (auto simp: has_side_def m_def)
      have "ent p3 i = ent p i" using R(2) G(1,2) by (simp add: ent_def reg_range_def)
      moreover have "el1_bit p3 i = has_side p3 i PRIV_VM" unfolding G(4) R(3) by (simp add: has_side_def G(9) e2(6) pr1(1))
      ultimately show "ent p3 i = ent p i \<and> el1_bit p3 i = has_side p3 i PRIV_VM" by simp
      show "\<And>s. s \<in> {PRIV_HYP, PRIV_VM} \<Longrightarrow> has_side p3 i s \<longleftrightarrow> has_side p i s \<and> s \<noteq> pv"
        using assms(5) by (auto simp: has_side_def G(9) e2(6) pr1(1) m_def)
      fix j assume j: "j \<noteq> i"
      show "mpu_entry_valid p3 j = mpu_entry_valid p j" "ent p3 j = ent p j" "el1_bit p3 j = el1_bit p j"
        using G(5,6) [OF j] unfolding e2 [symmetric] by (simp_all add: ent_def base_of_def lim_of_def el1_bit_def mpu_entry_valid_def)
      show "\<And>s. has_side p3 j s = has_side p j s" using pr1(2) [OF j] G(9) e2(6) by (simp add: has_side_def)
    qed
    moreover have "\<forall>k. bm_bit (mpu_bitmap p3) k \<longrightarrow> bm_bit (mpu_bitmap p) k" using s(3) by (simp add: e2(5))
    ultimately show ?thesis unfolding eq q bindR_Inr using s(2) by blast
  qed
qed

definition targets :: "mpu \<Rightarrow> nat list \<Rightarrow> priv \<Rightarrow> mp_region \<Rightarrow> nat set" where
  "targets p xs pv r = {i \<in> set xs. has_side p i pv \<and> ent p i \<subseteq> reg_range r}"

lemma inside_iff:
  assumes "region_fits r" "base_of p i < lim_of p i" "lim_of p i < 2 ^ 64"
  shows "mem_regions_overlap (mpu_entry_get_region p u i) r \<longleftrightarrow> ent p i \<subseteq> reg_range r"
  unfolding mem_regions_overlap_def using assms get_region_nat [OF assms(2,3), of u]
  by (subst range_in_range_iff) (auto simp: region_fits_def ent_def reg_range_def)

lemma unmap_scan_spec:
  assumes "path (mpu_nexts p) cur xs" "region_fits r" "sorted_wrt (\<lambda>i j. lim_of p i \<le> base_of p j) xs" "pv \<in> {PRIV_HYP, PRIV_VM}"
    and "\<forall>i \<in> set xs. i < length (mpu_pr p) \<and> base_of p i < lim_of p i \<and> lim_of p i < 2 ^ 64"
  shows "(targets p xs pv r = {} \<and> unmap_scan p u pv r cur = Some (Inr None))
    \<or> (\<exists>i \<in> targets p xs pv r. unmap_scan p u pv r cur = Some (Inr (Some i)))"
  using assms
proof (induction xs arbitrary: cur)
  case Nil
  then show ?case by (subst unmap_scan.simps) (simp add: targets_def)
next
  case (Cons x xs)
  have x: "cur = Some x" "path (mpu_nexts p) (mpu_nexts p x) xs" "base_of p x < lim_of p x" "lim_of p x < 2 ^ 64" "x < length (mpu_pr p)"
    using Cons.prems(1,5) by auto
  note g = get_region_nat [OF x(3,4), of u] and ins = inside_iff [OF Cons.prems(2) x(3,4), of u]
  have side: "mpu_entry_has_priv p x pv = Inr (has_side p x pv)" using x(5) by (simp add: mpu_entry_has_priv_def has_side_def)
  have brk: "mpr_base r + mpr_size r < mpr_base (mpu_entry_get_region p u x) \<longleftrightarrow> unat (mpr_base r) + unat (mpr_size r) < base_of p x"
    using fits_end [OF Cons.prems(2)] g(1) by (simp add: word_less_nat_alt)
  show ?case
  proof (cases "unat (mpr_base r) + unat (mpr_size r) < base_of p x")
    case True
    have "\<not> ent p y \<subseteq> reg_range r" if "y \<in> set (x # xs)" for y
    proof -
      have "base_of p x \<le> base_of p y" using that Cons.prems(3) x(3) by auto
      moreover have "base_of p y < lim_of p y" using that Cons.prems(5) by blast
      ultimately show ?thesis using True by (auto simp: ent_def reg_range_def)
    qed
    then have "targets p (x # xs) pv r = {}" unfolding targets_def by blast
    moreover have "unmap_scan p u pv r cur = Some (Inr None)" using True brk x(1) by (subst unmap_scan.simps) simp
    ultimately show ?thesis by simp
  next
    case False
    show ?thesis
    proof (cases "has_side p x pv \<and> ent p x \<subseteq> reg_range r")
      case True
      then have "unmap_scan p u pv r cur = Some (Inr (Some x))" using False brk x(1) side ins by (subst unmap_scan.simps) (simp add: Let_def)
      then show ?thesis using True by (auto simp: targets_def)
    next
      case no: False
      have "unmap_scan p u pv r cur = unmap_scan p u pv r (mpu_nexts p x)"
        using False brk x(1) side ins by (subst unmap_scan.simps) (use no in \<open>auto simp: Let_def\<close>)
      moreover have "targets p (x # xs) pv r = targets p xs pv r" using no by (auto simp: targets_def)
      ultimately show ?thesis using Cons.IH [OF x(2) Cons.prems(2) _ Cons.prems(4)] Cons.prems(3,5) by simp
    qed
  qed
qed

lemma ok_entries: "mpu_ok p xs \<Longrightarrow> {i. i < mpu_num_entries p \<and> mpu_entry_valid p i} = set xs"
  by (simp add: mpu_but_def)

lemma side_range_list: "mpu_ok p xs \<Longrightarrow> side_range p s = (\<Union>i \<in> {i \<in> set xs. has_side p i s}. ent p i)"
  unfolding side_range_def using ok_entries [of p xs] by auto

lemma withdrawn_list:
  assumes "withdrawn p i pv p'" "mpu_ok p xs" "mpu_ok p' xs'"
  shows "j \<in> set xs' \<Longrightarrow> j \<in> set xs" "j \<in> set xs \<Longrightarrow> j \<notin> set xs' \<Longrightarrow> j = i"
    and "j \<in> set xs' \<Longrightarrow> ent p' j = ent p j"
    and "j \<in> set xs' \<Longrightarrow> s \<in> {PRIV_HYP, PRIV_VM} \<Longrightarrow> has_side p' j s \<longleftrightarrow> has_side p j s \<and> (j = i \<longrightarrow> s \<noteq> pv)"
    and "i \<in> set xs \<Longrightarrow> i \<notin> set xs' \<Longrightarrow> s \<in> {PRIV_HYP, PRIV_VM} \<Longrightarrow> s \<noteq> pv \<Longrightarrow> \<not> has_side p i s"
proof -
  have s: "set xs = {i. i < mpu_num_entries p \<and> mpu_entry_valid p i}" "set xs' = {i. i < mpu_num_entries p' \<and> mpu_entry_valid p' i}"
    using assms(2,3) by (simp_all add: ok_entries)
  note w = assms(1) [unfolded withdrawn_def]
  show "j \<in> set xs' \<Longrightarrow> j \<in> set xs" "j \<in> set xs \<Longrightarrow> j \<notin> set xs' \<Longrightarrow> j = i"
    "j \<in> set xs' \<Longrightarrow> ent p' j = ent p j" using w unfolding s by auto
  show "j \<in> set xs' \<Longrightarrow> s \<in> {PRIV_HYP, PRIV_VM} \<Longrightarrow> has_side p' j s \<longleftrightarrow> has_side p j s \<and> (j = i \<longrightarrow> s \<noteq> pv)"
    using w unfolding s by auto
  show "i \<in> set xs \<Longrightarrow> i \<notin> set xs' \<Longrightarrow> s \<in> {PRIV_HYP, PRIV_VM} \<Longrightarrow> s \<noteq> pv \<Longrightarrow> \<not> has_side p i s" using w unfolding s by auto
qed

lemma withdrawn_ranges:
  assumes "withdrawn p i pv p'" "mpu_ok p xs" "mpu_ok p' xs'" "i \<in> set xs" "has_side p i pv" "pv \<in> {PRIV_HYP, PRIV_VM}"
  shows "side_range p' pv = side_range p pv - ent p i"
    and "s \<in> {PRIV_HYP, PRIV_VM} \<Longrightarrow> s \<noteq> pv \<Longrightarrow> side_range p' s = side_range p s"
    and "targets p' xs' pv r = targets p xs pv r - {i}"
proof -
  note w = withdrawn_list [OF assms(1-3)]
  have dj: "ent p j \<inter> ent p i = {}" if "j \<in> set xs" "j \<noteq> i" for j
    using ents_disjoint [of p xs j i] assms(2,4) that by (simp add: mpu_but_def)
  have m: "j \<in> set xs' \<and> has_side p' j pv \<longleftrightarrow> j \<in> set xs \<and> has_side p j pv \<and> j \<noteq> i" for j
    using w(1,2) [of j] w(4) [of j pv] assms(6) by blast
  show "targets p' xs' pv r = targets p xs pv r - {i}" using m w(3) by (auto simp: targets_def)
  show "side_range p' pv = side_range p pv - ent p i"
  proof -
    have "side_range p' pv = (\<Union>j \<in> {j \<in> set xs'. has_side p' j pv}. ent p j)"
      unfolding side_range_list [OF assms(3)] using w(3) by (intro SUP_cong) auto
    then show ?thesis unfolding side_range_list [OF assms(2)] m using dj by blast
  qed
  show "side_range p' s = side_range p s" if "s \<in> {PRIV_HYP, PRIV_VM}" "s \<noteq> pv"
  proof -
    have "j \<in> set xs' \<and> has_side p' j s \<longleftrightarrow> j \<in> set xs \<and> has_side p j s" for j
      using w(1,2) [of j] w(4) [of j s] w(5) [of s] that assms(4) by blast
    moreover have "side_range p' s = (\<Union>j \<in> {j \<in> set xs'. has_side p' j s}. ent p j)"
      unfolding side_range_list [OF assms(3)] using w(3) by (intro SUP_cong) auto
    ultimately show ?thesis unfolding side_range_list [OF assms(2)] by simp
  qed
qed


text \<open>The bytes of the entries still to be withdrawn.\<close>

definition todo :: "mpu \<Rightarrow> nat list \<Rightarrow> priv \<Rightarrow> mp_region \<Rightarrow> nat" where
  "todo p xs pv r = (\<Sum>i \<in> targets p xs pv r. card (ent p i))"

lemma todo_le:
  assumes "mpu_ok p xs"
  shows "todo p xs pv r \<le> unat (mpr_size r)"
proof -
  have l: "listed p xs" using assms by (simp add: mpu_but_def)
  have "todo p xs pv r = card (\<Union>i \<in> targets p xs pv r. ent p i)"
    unfolding todo_def
    by (rule card_UN_disjoint [symmetric]) (auto simp: targets_def ent_def [of p] dest: ents_disjoint [OF l] intro: ents_disjoint [OF l, unfolded ent_def])
  also have "\<dots> \<le> card (reg_range r)" by (rule card_mono) (auto simp: reg_range_def targets_def)
  finally show ?thesis by (simp add: reg_range_def)
qed

lemma todo_step:
  assumes "withdrawn p i pv p'" "mpu_ok p xs" "mpu_ok p' xs'" "i \<in> targets p xs pv r" "pv \<in> {PRIV_HYP, PRIV_VM}"
  shows "todo p xs pv r = todo p' xs' pv r + (lim_of p i - base_of p i)"
proof -
  have i: "i \<in> set xs" "has_side p i pv" using assms(4) by (auto simp: targets_def)
  note t = withdrawn_ranges(3) [OF assms(1-3) i assms(5), of r]
  have f: "finite (targets p xs pv r)" by (simp add: targets_def)
  have "todo p xs pv r = card (ent p i) + (\<Sum>j \<in> targets p xs pv r - {i}. card (ent p j))"
    unfolding todo_def by (rule sum.remove [OF f assms(4)])
  also have "(\<Sum>j \<in> targets p xs pv r - {i}. card (ent p j)) = todo p' xs' pv r"
    unfolding todo_def t [symmetric] using withdrawn_list(3) [OF assms(1-3)] by (intro sum.cong) (auto simp: targets_def)
  finally show ?thesis by (simp add: ent_def)
qed

lemma unmap_rounds_exact:
  assumes "mpu_ok p xs" "region_fits r" "pv \<in> {PRIV_HYP, PRIV_VM}" "todo p xs pv r \<le> unat left"
    and "\<forall>i \<in> set xs. has_side p i pv \<longrightarrow> ent p i \<subseteq> reg_range r \<or> ent p i \<inter> reg_range r = {}"
  shows "\<exists>p' left'. unmap_rounds u pv r left p = Some (Inr (p', left')) \<and> mpu_good p' \<and> (accurate p \<longrightarrow> accurate p')
    \<and> side_range p' pv = side_range p pv - reg_range r \<and> (\<forall>s \<in> {PRIV_HYP, PRIV_VM}. s \<noteq> pv \<longrightarrow> side_range p' s = side_range p s)
    \<and> (\<forall>k. bm_bit (mpu_bitmap p') k \<longrightarrow> bm_bit (mpu_bitmap p) k) \<and> mpu_num_entries p' = mpu_num_entries p"
  using assms
proof (induction "card (targets p xs pv r)" arbitrary: p xs left rule: less_induct)
  case less
  note ok = less.prems(1)
  have l: "listed p xs" "path (mpu_nexts p) (head (mpu_order p)) xs" "sorted_wrt (\<lambda>i j. lim_of p i \<le> base_of p j) xs"
      "\<forall>i \<in> set xs. i < length (mpu_pr p) \<and> base_of p i < lim_of p i \<and> lim_of p i < 2 ^ 64"
    using ok by (auto simp: mpu_but_def listed_def mpu_wf_def)
  have fin: "finite (targets p xs pv r)" by (simp add: targets_def)
  have stop: ?case if "targets p xs pv r = {}" "unmap_rounds u pv r left p = Some (Inr (p, left))"
  proof -
    have "ent p i \<inter> reg_range r = {}" if "i \<in> set xs" "has_side p i pv" for i
      using less.prems(5) that \<open>targets p xs pv r = {}\<close> by (auto simp: targets_def)
    then have "side_range p pv - reg_range r = side_range p pv" unfolding side_range_list [OF ok] by blast
    then show ?thesis using that(2) ok by (auto simp: mpu_good_def)
  qed
  show ?case
  proof (cases "left = 0")
    case True
    have "card (ent p i) \<noteq> 0" if "i \<in> targets p xs pv r" for i using that l(4) by (auto simp: targets_def ent_def)
    then have "targets p xs pv r = {}" using less.prems(4) True fin unfolding todo_def by (auto simp: sum_eq_0_iff)
    moreover have "unmap_rounds u pv r left p = Some (Inr (p, left))" using True by (subst unmap_rounds.simps) simp
    ultimately show ?thesis by (rule stop)
  next
    case False
    then have pos: "0 < left" by (simp add: word_neq_0_conv)
    from unmap_scan_spec [OF l(2) less.prems(2) l(3) less.prems(3) l(4), of u]
    show ?thesis
    proof (elim disjE conjE bexE)
      assume "targets p xs pv r = {}" "unmap_scan p u pv r (head (mpu_order p)) = Some (Inr None)"
      moreover from this(2) have "unmap_rounds u pv r left p = Some (Inr (p, left))" using pos by (subst unmap_rounds.simps) (simp add: ended_def)
      ultimately show ?thesis by (intro stop)
    next
      fix i assume i: "i \<in> targets p xs pv r" and s: "unmap_scan p u pv r (head (mpu_order p)) = Some (Inr (Some i))"
      have ii: "i \<in> set xs" "has_side p i pv" "ent p i \<subseteq> reg_range r" using i by (auto simp: targets_def)
      from unmap_entry_step [OF ok ii(1,3) less.prems(2,3), of u] obtain p1 xs1 where
        p1: "unmap_entry u pv r i p = Inr (p1, of_nat (lim_of p i - base_of p i))" "mpu_ok p1 xs1" "withdrawn p i pv p1"
          "\<forall>k. bm_bit (mpu_bitmap p1) k \<longrightarrow> bm_bit (mpu_bitmap p) k" by blast
      let ?k = "lim_of p i - base_of p i"
      note W = withdrawn_ranges [OF p1(3) ok p1(2) ii(1,2) less.prems(3)] and L = withdrawn_list [OF p1(3) ok p1(2)]
      have k: "todo p xs pv r = todo p1 xs1 pv r + ?k" by (rule todo_step [OF p1(3) ok p1(2) i less.prems(3)])
      have "?k \<le> unat left" using k less.prems(4) by simp
      then have left: "unat (left - of_nat ?k) = unat left - ?k"
      proof -
        assume "?k \<le> unat left"
        then have "unat (of_nat ?k :: u64) = ?k" using le_less_trans [OF _ unat_lt_u64] by (intro unat_of_nat_u64) simp
        then show ?thesis using \<open>?k \<le> unat left\<close> by (subst unat_sub_no_wrap) (simp_all add: word_le_nat_alt)
      qed
      have step: "unmap_rounds u pv r left p = unmap_rounds u pv r (left - of_nat ?k) p1"
        using pos s p1(1) by (subst unmap_rounds.simps) (simp add: ended_def)
      have "card (targets p1 xs1 pv r) < card (targets p xs pv r)" unfolding W(3) by (rule card_Diff1_less [OF fin i])
      moreover have "todo p1 xs1 pv r \<le> unat (left - of_nat ?k)" using k less.prems(4) left by simp
      moreover have "\<forall>j \<in> set xs1. has_side p1 j pv \<longrightarrow> ent p1 j \<subseteq> reg_range r \<or> ent p1 j \<inter> reg_range r = {}"
        using less.prems(3,5) L(1,3,4) by metis
      ultimately obtain p' left' where F: "unmap_rounds u pv r (left - of_nat ?k) p1 = Some (Inr (p', left'))" "mpu_good p'"
          "accurate p1 \<longrightarrow> accurate p'" "side_range p' pv = side_range p1 pv - reg_range r"
          "\<forall>s \<in> {PRIV_HYP, PRIV_VM}. s \<noteq> pv \<longrightarrow> side_range p' s = side_range p1 s"
          "\<forall>k. bm_bit (mpu_bitmap p') k \<longrightarrow> bm_bit (mpu_bitmap p1) k" "mpu_num_entries p' = mpu_num_entries p1"
        using less.hyps [of p1 xs1 "left - of_nat ?k"] p1(2) less.prems(2,3) by blast
      have "side_range p' pv = side_range p pv - reg_range r" unfolding F(4) W(1) using ii(3) by blast
      moreover have "\<forall>s \<in> {PRIV_HYP, PRIV_VM}. s \<noteq> pv \<longrightarrow> side_range p' s = side_range p s" using F(5) W(2) by metis
      moreover have "\<forall>k. bm_bit (mpu_bitmap p') k \<longrightarrow> bm_bit (mpu_bitmap p) k" using F(6) p1(4) by blast
      moreover have "mpu_num_entries p' = mpu_num_entries p" using F(7) p1(3) by (simp add: withdrawn_def)
      ultimately show ?thesis using F(1-3) step withdrawn_accurate [OF p1(3)] by simp
    qed
  qed
qed


lemma mpu_unmap_facts:
  assumes "mpu_good p" "accurate p" "region_fits r" "pv \<in> {PRIV_HYP, PRIV_VM}"
    and "\<forall>i. i < mpu_num_entries p \<longrightarrow> mpu_entry_valid p i \<longrightarrow> has_side p i pv \<longrightarrow> ent p i \<subseteq> reg_range r \<or> ent p i \<inter> reg_range r = {}"
  shows "\<exists>p' b. mpu_unmap und pv r p = Inr (p', b) \<and> mpu_good p' \<and> accurate p'
    \<and> guest_range p' = guest_range p - (if pv = PRIV_VM then reg_range r else {})
    \<and> side_range p' PRIV_HYP = side_range p PRIV_HYP - (if pv = PRIV_HYP then reg_range r else {})
    \<and> (\<forall>k. bm_bit (mpu_bitmap p') k \<longrightarrow> bm_bit (mpu_bitmap p) k) \<and> mpu_num_entries p' = mpu_num_entries p"
proof -
  obtain xs where ok: "mpu_ok p xs" using assms(1) by (auto simp: mpu_good_def)
  have "\<forall>i \<in> set xs. has_side p i pv \<longrightarrow> ent p i \<subseteq> reg_range r \<or> ent p i \<inter> reg_range r = {}"
    using assms(5) ok_entries [OF ok] by blast
  from unmap_rounds_exact [OF ok assms(3,4) todo_le [OF ok] this, of und] obtain p' left' where
    F: "unmap_rounds und pv r (mpr_size r) p = Some (Inr (p', left'))" "mpu_good p'" "accurate p'"
      "side_range p' pv = side_range p pv - reg_range r" "\<forall>s \<in> {PRIV_HYP, PRIV_VM}. s \<noteq> pv \<longrightarrow> side_range p' s = side_range p s"
      "\<forall>k. bm_bit (mpu_bitmap p') k \<longrightarrow> bm_bit (mpu_bitmap p) k" "mpu_num_entries p' = mpu_num_entries p"
    using assms(2) by blast
  have r: "mpu_unmap und pv r p = Inr (p', left' = 0)" by (simp add: mpu_unmap_def F(1) ended_def)
  have "side_range p' s = side_range p s - (if pv = s then reg_range r else {})" if "s \<in> {PRIV_HYP, PRIV_VM}" for s
    using F(4,5) that by (cases "pv = s") auto
  then have "side_range p' PRIV_VM = side_range p PRIV_VM - (if pv = PRIV_VM then reg_range r else {})"
    "side_range p' PRIV_HYP = side_range p PRIV_HYP - (if pv = PRIV_HYP then reg_range r else {})" by blast+
  then show ?thesis using r F(2,3,6,7) unfolding accurate_guest [OF F(3)] accurate_guest [OF assms(2)] by blast
qed

text \<open>C35. Removing a region from the MPU takes away exactly that region from exactly one side: when no entry of
  the side is cut by the border of the region and the recorded permissions are those of the
  registers, \<open>mpu_unmap\<close> returns; then the guest reaches what it reached before, without the region if it
  was removed for the VM, and what is mapped for the hypervisor changes only if it was removed for
  the hypervisor. Entries that both sides share stay for the other side. The records stay accurate.\<close>

theorem mpu_unmap_exact:
  assumes "mpu_good p" "accurate p" "region_fits r" "pv \<in> {PRIV_HYP, PRIV_VM}"
    and "\<forall>i. i < mpu_num_entries p \<longrightarrow> mpu_entry_valid p i \<longrightarrow> has_side p i pv \<longrightarrow> ent p i \<subseteq> reg_range r \<or> ent p i \<inter> reg_range r = {}"
  shows "\<exists>p' b. mpu_unmap und pv r p = Inr (p', b) \<and> mpu_good p' \<and> accurate p'
    \<and> guest_range p' = guest_range p - (if pv = PRIV_VM then reg_range r else {})
    \<and> side_range p' PRIV_HYP = side_range p PRIV_HYP - (if pv = PRIV_HYP then reg_range r else {})"
  using mpu_unmap_facts [OF assms] by blast

lemma mpu_unmap_exact_witness:
  "\<exists>p' b. mpu_unmap 0 PRIV_VM (demo_region 0x100000\<lparr>mpr_size := 0x2000\<rparr>) demo_mpu = Inr (p', b) \<and> guest_range p' = {}
    \<and> side_range p' PRIV_HYP = {0x8000..<0xC000}"
proof -
  let ?r = "demo_region 0x100000\<lparr>mpr_size := 0x2000\<rparr>"
  have r: "reg_range ?r = {0x100000..<0x102000}" by (simp add: reg_range_def demo_region_def)
  have side: "has_side demo_mpu 0 PRIV_HYP" "\<not> has_side demo_mpu 0 PRIV_VM" "has_side demo_mpu 1 PRIV_VM" "\<not> has_side demo_mpu 1 PRIV_HYP"
    by (simp_all add: has_side_def demo_mpu_list PERM_NONE_def demo_mpu_list [unfolded One_nat_def])
  have e: "ent demo_mpu 0 = {0x8000..<0xC000}" "ent demo_mpu 1 = {0x100000..<0x102000}" by (simp_all add: ent_def demo_mpu_regs demo_mpu_regs [unfolded One_nat_def])
  have "\<exists>p' b. mpu_unmap 0 PRIV_VM ?r demo_mpu = Inr (p', b) \<and> mpu_good p' \<and> accurate p'
    \<and> guest_range p' = guest_range demo_mpu - (if PRIV_VM = PRIV_VM then reg_range ?r else {})
    \<and> side_range p' PRIV_HYP = side_range demo_mpu PRIV_HYP - (if PRIV_VM = PRIV_HYP then reg_range ?r else {})"
  proof (rule mpu_unmap_exact)
    show "mpu_good demo_mpu" using demo_mpu_ok by (auto simp: mpu_good_def)
    show "accurate demo_mpu" using side demo_mpu_regs(7,8) unfolding accurate_def demo_mpu_regs(2) by auto
    show "region_fits ?r" by (simp add: region_fits_def demo_region_def fl_prbar_def fl_prlar_def take_bit_eq_mod bit_iff_odd)
    show "\<forall>i. i < mpu_num_entries demo_mpu \<longrightarrow> mpu_entry_valid demo_mpu i \<longrightarrow> has_side demo_mpu i PRIV_VM \<longrightarrow>
      ent demo_mpu i \<subseteq> reg_range ?r \<or> ent demo_mpu i \<inter> reg_range ?r = {}"
      unfolding demo_mpu_regs(2) r using side e by auto
  qed simp
  moreover have "side_range demo_mpu PRIV_HYP = {0x8000..<0xC000}"
  proof -
    have "{i \<in> set [0, 1]. has_side demo_mpu i PRIV_HYP} = {0}" using side by auto
    then show ?thesis unfolding side_range_list [OF demo_mpu_ok] using e by simp
  qed
  ultimately show ?thesis unfolding r demo_mpu_ranges by auto
qed

section \<open>Permissions of a freed entry\<close>

text \<open>An entry recorded for both sides whose register lets only the hypervisor in.\<close>

lemma unmap_grants:
  assumes "mpu_good p" "region_fits r" "i < mpu_num_entries p" "mpu_entry_valid p i" "ent p i = reg_range r"
    and "has_side p i PRIV_HYP" "has_side p i PRIV_VM" "\<not> el1_bit p i"
  shows "\<exists>p'. mpu_unmap und PRIV_HYP r p = Inr (p', True) \<and> reg_range r \<subseteq> guest_range p' \<and> reg_range r \<inter> guest_range p = {}"
proof -
  obtain xs where ok: "mpu_ok p xs" using assms(1) by (auto simp: mpu_good_def)
  have l: "listed p xs" "path (mpu_nexts p) (head (mpu_order p)) xs" "sorted_wrt (\<lambda>i j. lim_of p i \<le> base_of p j) xs"
      "\<forall>i \<in> set xs. i < length (mpu_pr p) \<and> base_of p i < lim_of p i \<and> lim_of p i < 2 ^ 64"
    using ok by (auto simp: mpu_but_def listed_def mpu_wf_def)
  have i: "i \<in> set xs" using ok_entries [OF ok] assms(3,4) by blast
  have others: "ent p j \<inter> reg_range r = {}" if "j \<in> set xs" "j \<noteq> i" for j using ents_disjoint [OF l(1) that(1) i that(2)] assms(5) by simp
  have ne: "ent p j \<noteq> {}" if "j \<in> set xs" for j using l(4) that by (simp add: ent_def)
  have "\<not> ent p j \<subseteq> reg_range r" if "j \<in> set xs" "j \<noteq> i" for j using others [OF that] ne [OF that(1)] by blast
  then have "targets p xs PRIV_HYP r = {i}" using i assms(5,6) unfolding targets_def by blast
  then have s: "unmap_scan p und PRIV_HYP r (head (mpu_order p)) = Some (Inr (Some i))"
    using unmap_scan_spec [OF l(2) assms(2) l(3) _ l(4), of PRIV_HYP und] by auto
  from unmap_entry_step [OF ok i _ assms(2), of PRIV_HYP und] assms(5) obtain p1 xs1 where
    p1: "unmap_entry und PRIV_HYP r i p = Inr (p1, of_nat (lim_of p i - base_of p i))" "mpu_ok p1 xs1" "withdrawn p i PRIV_HYP p1" by auto
  have "card (ent p i) = card (reg_range r)" using assms(5) by simp
  then have sz: "lim_of p i - base_of p i = unat (mpr_size r)" by (simp add: ent_def reg_range_def)
  have "0 < mpr_size r" using assms(2) by (simp add: region_fits_def word_neq_0_conv)
  then have "unmap_rounds und PRIV_HYP r (mpr_size r) p = unmap_rounds und PRIV_HYP r 0 p1"
    using s p1(1) by (subst unmap_rounds.simps) (simp add: ended_def sz)
  also have "\<dots> = Some (Inr (p1, 0))" by (subst unmap_rounds.simps) simp
  finally have "mpu_unmap und PRIV_HYP r p = Inr (p1, True)" by (simp add: mpu_unmap_def ended_def)
  moreover have w: "mpu_entry_valid p1 i" "ent p1 i = ent p i" "el1_bit p1 i" "mpu_num_entries p1 = mpu_num_entries p"
    using p1(3) assms(3,4,7) by (auto simp: withdrawn_def)
  then have "reg_range r \<subseteq> guest_range p1" using assms(3,5) unfolding guest_range_def by auto
  moreover have "reg_range r \<inter> guest_range p = {}" unfolding ok_ranges(2) [OF ok] using others assms(8) by blast
  ultimately show ?thesis by blast
qed

section \<open>A run that grants the guest a page of the hypervisor\<close>

text \<open>A sequence of calls of \<open>mpu_map\<close> and \<open>mpu_unmap\<close> and what each returned.\<close>

datatype mpu_call = Map_call priv mp_region | Unmap_call priv mp_region

fun mpu_calls :: "u64 \<Rightarrow> mpu_call list \<Rightarrow> mpu \<Rightarrow> (mpu \<times> bool list) res" where
  "mpu_calls und [] p = Inr (p, [])"
| "mpu_calls und (Map_call pv r # cs) p =
    bindR (mpu_map und pv r p) (\<lambda>(p, b). bindR (mpu_calls und cs p) (\<lambda>(p, bs). Inr (p, b # bs)))"
| "mpu_calls und (Unmap_call pv r # cs) p =
    bindR (mpu_unmap und pv r p) (\<lambda>(p, b). bindR (mpu_calls und cs p) (\<lambda>(p, bs). Inr (p, b # bs)))"

text \<open>
  An MPU of 16 entries as the start code leaves it, with the image at \<open>0x8000\<close>. A VM's pages at
  \<open>0x100000\<close> and \<open>0x102000\<close> get entries 1 and 2; the page between them joins all three in entry 1
  and frees entry 2, which the hypervisor's page at \<open>0x200000\<close> gets.
\<close>

definition boot_mpu :: mpu where
  "boot_mpu = \<lparr>mpu_bitmap = [0, 0], mpu_locked = [0, 0], mpu_pr = replicate 64 \<lparr>el2 = 0, el1 = 0\<rparr>, mpu_nexts = (\<lambda>_. None),
     mpu_order = list_init, mpuir = 16, prbar = (\<lambda>_. 0)(0 := 0x8030), prlar = (\<lambda>_. 0)(0 := 0xBFC3)\<rparr>"

definition hyp_page :: mp_region where
  "hyp_page = \<lparr>mpr_base = 0x200000, mpr_size = 0x1000, mpr_flags = PTE_FLAGS (PRBAR_AP_RW_EL2 OR PRBAR_SH_IS) (PRLAR_ATTR 1 OR 1), mpr_sec = 0\<rparr>"

definition guest_page :: "vaddr \<Rightarrow> mp_region" where
  "guest_page b = \<lparr>mpr_base = b, mpr_size = 0x1000, mpr_flags = PTE_FLAGS (PRBAR_AP_RW_EL1_EL2 OR PRBAR_SH_IS) (PRLAR_ATTR 1 OR 1), mpr_sec = 0\<rparr>"

definition reuse_calls :: "mpu_call list" where
  "reuse_calls = [Map_call PRIV_VM (guest_page 0x100000), Map_call PRIV_VM (guest_page 0x102000),
     Map_call PRIV_VM (guest_page 0x101000), Map_call PRIV_HYP hyp_page]"

lemma bindR_weak_cong: "m = n \<Longrightarrow> bindR m f = bindR n f" by simp

lemma hyp_page_eq: "hyp_page = \<lparr>mpr_base = 0x200000, mpr_size = 0x1000, mpr_flags = 0x30030, mpr_sec = 0\<rparr>"
  by code_simp
lemma guest_page_eq: "guest_page b = \<lparr>mpr_base = b, mpr_size = 0x1000, mpr_flags = 0x30034, mpr_sec = 0\<rparr>"
proof -
  have "PTE_FLAGS (PRBAR_AP_RW_EL1_EL2 OR PRBAR_SH_IS) (PRLAR_ATTR 1 OR 1) = 0x30034" by code_simp
  then show ?thesis by (simp add: guest_page_def)
qed

lemmas mpu_ops = map_pass_def map_new_def merge_prev_def merge_next_def same_kind_def mpu_entry_locked_def 
  mpu_entry_allocate_def mpu_entry_update_priv_perms_def mpu_entry_set_def mpu_entry_modify_def mpu_order_rm_def mpu_entry_free_def mpu_entry_clear_def
  put_order_def list_insert_ordered_def list_rm_def 
  mpu_num_entries_def MPUIR_REGION_def mpu_perms_equivalent_def
  bitmap_get_def bitmap_set_def bitmap_clear_def

lemma attrs_page: "mpu_entry_attrs \<lparr>mpr_base = b, mpr_size = s, mpr_flags = 0x30034, mpr_sec = c\<rparr> = 0x30000"
  "mpu_entry_attrs \<lparr>mpr_base = b, mpr_size = s, mpr_flags = 0x30030, mpr_sec = c\<rparr> = 0x30000"
  "mem_vmpu_entry_perms \<lparr>mpr_base = b, mpr_size = s, mpr_flags = 0x30034, mpr_sec = c\<rparr> = 7"
  "mem_vmpu_entry_perms \<lparr>mpr_base = b, mpr_size = s, mpr_flags = 0x30030, mpr_sec = c\<rparr> = 7"
  "fl_prbar 0x30034 = 0x34" "fl_prlar 0x30034 = 3" "fl_prbar 0x30030 = 0x30" "fl_prlar 0x30030 = 3"
  by (simp_all add: mpu_entry_attrs_def set_flags_def fl_prbar_def fl_prlar_def mem_vmpu_entry_perms_def PERM_X_def PERM_R_def PERM_W_def PRBAR_XN_def PRBAR_NWR_BIT_def
   PRBAR_MEM_ATTR_FLAGS_MSK_def PRLAR_MEM_ATTR_FLAGS_MSK_def mask_eq_exp_minus_1)


text \<open>The MPU with the contents of its first three entries.\<close>

definition three :: "u32 \<Rightarrow> clist \<Rightarrow> mpu_perms list \<Rightarrow> nexts \<Rightarrow> (nat \<Rightarrow> u64) \<Rightarrow> (nat \<Rightarrow> u64) \<Rightarrow> mpu" where
  "three bm l prs nx b lim = \<lparr>mpu_bitmap = [bm, 0], mpu_locked = [1, 0], mpu_pr = prs @ replicate 61 \<lparr>el2 = 0, el1 = 0\<rparr>, mpu_nexts = nx,
     mpu_order = l, mpuir = 16, prbar = b, prlar = lim\<rparr>"

abbreviation none2 :: mpu_perms where "none2 \<equiv> \<lparr>el2 = 0, el1 = 0\<rparr>"

definition run0 :: mpu where
  "run0 = three 1 \<lparr>head = Some 0, tail = Some 0\<rparr> [\<lparr>el2 = 7, el1 = 0\<rparr>, none2, none2] (\<lambda>_. None) ((\<lambda>_. 0)(0 := 0x8030)) ((\<lambda>_. 0)(0 := 0xBFC3))"

definition run1 :: mpu where
  "run1 = three 3 \<lparr>head = Some 0, tail = Some 1\<rparr> [\<lparr>el2 = 7, el1 = 0\<rparr>, \<lparr>el2 = 0, el1 = 7\<rparr>, none2] ((\<lambda>_. None)(0 := Some 1))
     ((\<lambda>_. 0)(0 := 0x8030, 1 := 0x100034)) ((\<lambda>_. 0)(0 := 0xBFC3, 1 := 0x100FC3))"

lemma replicate64: "replicate 64 x = x # x # x # replicate 61 x" by (simp add: numeral_eq_Suc)

lemma init_run: "mpu_init boot_mpu = Inr run0"
  by (simp add: mpu_init_def boot_mpu_def run0_def three_def upt_rec mpu_num_entries_def MPUIR_REGION_def mpu_init_entry_def mpu_entry_valid_def PRLAR_EN_def
     bitmap_clear_consecutive_def bitmap_clear_def bitmap_set_def BITMAP_GRANULE_LEN_def put_order_def list_insert_ordered_def list_init_def insert_loop.simps Let_def
     PERM_RWX_def PERM_NONE_def PERM_X_def PERM_R_def PERM_W_def replicate64 fun_upd_idem)

definition run2 :: mpu where
  "run2 = three 7 \<lparr>head = Some 0, tail = Some 2\<rparr> [\<lparr>el2 = 7, el1 = 0\<rparr>, \<lparr>el2 = 0, el1 = 7\<rparr>, \<lparr>el2 = 0, el1 = 7\<rparr>] ((\<lambda>_. None)(0 := Some 1, 1 := Some 2))
     ((\<lambda>_. 0)(0 := 0x8030, 1 := 0x100034, 2 := 0x102034)) ((\<lambda>_. 0)(0 := 0xBFC3, 1 := 0x100FC3, 2 := 0x102FC3))"

definition run3 :: mpu where
  "run3 = three 3 \<lparr>head = Some 0, tail = Some 1\<rparr> [\<lparr>el2 = 7, el1 = 0\<rparr>, \<lparr>el2 = 0, el1 = 7\<rparr>, \<lparr>el2 = 0, el1 = 7\<rparr>] ((\<lambda>_. None)(0 := Some 1))
     ((\<lambda>_. 0)(0 := 0x8030, 1 := 0x100034)) ((\<lambda>_. 0)(0 := 0xBFC3, 1 := 0x102FC3))"

definition run4 :: mpu where
  "run4 = three 7 \<lparr>head = Some 0, tail = Some 2\<rparr> [\<lparr>el2 = 7, el1 = 0\<rparr>, \<lparr>el2 = 0, el1 = 7\<rparr>, \<lparr>el2 = 7, el1 = 7\<rparr>] ((\<lambda>_. None)(0 := Some 1, 1 := Some 2))
     ((\<lambda>_. 0)(0 := 0x8030, 1 := 0x100034, 2 := 0x200030)) ((\<lambda>_. 0)(0 := 0xBFC3, 1 := 0x102FC3, 2 := 0x200FC3))"

lemmas mpu_run_defs = three_def run0_def run1_def run2_def run3_def run4_def guest_page_eq hyp_page_eq

lemma get_three:
  "mpu_entry_get_region (three bm l prs nx b lim) und i = \<lparr>mpr_base = PRBAR_BASE (b i), mpr_size = PRLAR_LIMIT (lim i) + 1 - PRBAR_BASE (b i),
     mpr_flags = set_flags und (ucast (b i AND PRBAR_FLAGS_MSK)) (ucast (lim i AND PRBAR_FLAGS_MSK)), mpr_sec = SEC_UNKNOWN\<rparr>"
  by (simp add: mpu_entry_get_region_def three_def)

lemmas mpu_words = PRBAR_BASE_def PRLAR_LIMIT_def PRBAR_FLAGS_MSK_def set_flags_def mask_eq_exp_minus_1 mem_regions_overlap_def range_in_range_def

lemma run_scan:
  "map_scan run0 0 (guest_page 0x100000) (Some 0) None = Some (Some 0, Map_end)"
  "map_scan run1 0 (guest_page 0x102000) (Some 0) None = Some (Some 1, Map_end)"
  "map_scan run2 0 (guest_page 0x101000) (Some 0) None = Some (Some 1, Map_next 2)"
  "map_scan run3 0 hyp_page (Some 0) None = Some (Some 1, Map_end)"
  by (simp_all add: mpu_run_defs map_scan.simps mpu_entry_get_region_def mpu_words)

lemmas mpu_evals = mpu_run_defs mpu_ops Let_def attrs_page BITMAP_GRANULE_LEN_def mpu_entry_get_region_def mpu_words PERM_NONE_def upt_rec
  mpu_node_cmp_def insert_loop.simps rm_loop.simps

definition guest_image :: mp_region where
  "guest_image = (guest_page 0x100000)\<lparr>mpr_size := 0x3000\<rparr>"

lemma run_new0: "map_new 0 PRIV_VM (Some 0) None (guest_page 0x100000) run0 = Inr (run1, guest_page 0x100000)"
  by (simp add: mpu_evals)

lemma run_new1: "map_new 0 PRIV_VM (Some 1) None (guest_page 0x102000) run1 = Inr (run2, guest_page 0x102000)"
  by (simp add: mpu_evals) (auto simp: fun_eq_iff numeral_2_eq_2)

lemma run_new2: "map_new 0 PRIV_VM (Some 1) (Some 2) (guest_page 0x101000) run2 = Inr (run3, guest_image)"
  by (simp add: mpu_evals guest_image_def) (auto simp: fun_eq_iff numeral_2_eq_2)

lemma run_new3: "map_new 0 PRIV_HYP (Some 1) None hyp_page run3 = Inr (run4, hyp_page)"
  by (simp add: mpu_evals) (auto simp: fun_eq_iff numeral_2_eq_2)

lemma map_once:
  assumes "map_scan p und r (head (mpu_order p)) None = Some (prev, hit)" "hit = Map_end \<or> hit = Map_next i" "0 < mpr_size r"
    and "map_new und pv prev (case hit of Map_next i \<Rightarrow> Some i | _ \<Rightarrow> None) r p = Inr (p', r')"
  shows "mpu_map und pv r p = Inr (p', True)"
proof -
  let ?v = "\<lparr>size_left = mpr_size r, failed = False, reg1 = r, reg2 = r, reg1_valid = True, reg2_valid = False, bottom_mpid = None, top_mpid = None\<rparr>"
  have "map_pass und pv p ?v = Inr (p', ?v\<lparr>reg1 := r', size_left := 0\<rparr>)"
    using assms(1,2,4) by (auto simp: map_pass_def Let_def)
  moreover have "map_passes und pv p' (?v\<lparr>reg1 := r', size_left := 0\<rparr>) = Some (Inr (p', ?v\<lparr>reg1 := r', size_left := 0\<rparr>))"
    by (subst map_passes.simps) simp
  ultimately have "map_passes und pv p ?v = Some (Inr (p', ?v\<lparr>reg1 := r', size_left := 0\<rparr>))"
    using assms(3) by (subst map_passes.simps) simp
  then show ?thesis by (simp add: mpu_map_def ended_def)
qed

lemma run_heads: "head (mpu_order run0) = Some 0" "head (mpu_order run1) = Some 0" "head (mpu_order run2) = Some 0" "head (mpu_order run3) = Some 0"
  by (simp_all add: mpu_run_defs)

lemma page_sizes: "0 < mpr_size (guest_page b)" "0 < mpr_size hyp_page" by (simp_all add: guest_page_eq hyp_page_eq)

lemma reuse_run: "bindR (mpu_init boot_mpu) (mpu_calls 0 reuse_calls) = Inr (run4, [True, True, True, True])"
proof -
  have "mpu_map 0 PRIV_VM (guest_page 0x100000) run0 = Inr (run1, True)"
    by (rule map_once [of _ _ _ "Some 0" Map_end]) (simp_all add: run_heads run_scan page_sizes run_new0)
  moreover have "mpu_map 0 PRIV_VM (guest_page 0x102000) run1 = Inr (run2, True)"
    by (rule map_once [of _ _ _ "Some 1" Map_end]) (simp_all add: run_heads run_scan page_sizes run_new1 [unfolded One_nat_def])
  moreover have "mpu_map 0 PRIV_VM (guest_page 0x101000) run2 = Inr (run3, True)"
    by (rule map_once [of _ _ _ "Some 1" "Map_next 2"]) (simp_all add: run_heads run_scan page_sizes run_new2 [unfolded One_nat_def])
  moreover have "mpu_map 0 PRIV_HYP hyp_page run3 = Inr (run4, True)"
    by (rule map_once [of _ _ _ "Some 1" Map_end]) (simp_all add: run_heads run_scan page_sizes run_new3 [unfolded One_nat_def])
  ultimately show ?thesis by (simp add: init_run reuse_calls_def)
qed

lemma run4_regs:
  "mpu_num_entries run4 = 16" "mpu_entry_valid run4 i \<longleftrightarrow> i = 0 \<or> i = 1 \<or> i = 2" "base_of run4 0 = 0x8000" "lim_of run4 0 = 0xC000"
  "base_of run4 1 = 0x100000" "lim_of run4 1 = 0x103000" "base_of run4 2 = 0x200000" "lim_of run4 2 = 0x201000"
  "\<not> el1_bit run4 0" "el1_bit run4 1" "\<not> el1_bit run4 2"
  "mpu_nexts run4 0 = Some 1" "mpu_nexts run4 1 = Some 2" "mpu_nexts run4 2 = None" "head (mpu_order run4) = Some 0"
  "mpu_pr run4 ! 0 = \<lparr>el2 = 7, el1 = 0\<rparr>" "mpu_pr run4 ! 1 = \<lparr>el2 = 0, el1 = 7\<rparr>" "mpu_pr run4 ! 2 = \<lparr>el2 = 7, el1 = 7\<rparr>"
  "mpu_bitmap run4 = [7, 0]" "mpu_locked run4 = [1, 0]" "length (mpu_pr run4) = 64"
  by (simp_all add: run4_def three_def mpu_num_entries_def MPUIR_REGION_def mpu_entry_valid_def PRLAR_EN_def base_of_def lim_of_def
      PRBAR_BASE_def PRLAR_LIMIT_def PRBAR_FLAGS_MSK_def el1_bit_def bit_iff_odd)

lemma run4_ok: "mpu_ok run4 [0, 1, 2]"
  unfolding mpu_but_def
proof (intro conjI)
  show "mpu_wf run4" unfolding mpu_wf_def run4_regs by (simp add: bm_len_def)
  show "listed run4 [0, 1, 2]" unfolding listed_def by (simp add: run4_regs [unfolded One_nat_def] run4_regs)
  show "set [0, 1, 2] = {i. i < mpu_num_entries run4 \<and> mpu_entry_valid run4 i} - {}" unfolding run4_regs(1,2) by auto
  show "\<forall>i \<in> set [0, 1, 2]. bm_bit (mpu_bitmap run4) i \<and> perms_fit run4 i"
    by (simp add: perms_fit_def run4_regs(9-11,16-19) [unfolded One_nat_def] run4_regs(9-11,16-19) PERM_NONE_def bm_bit_def)
qed

lemma run4_guest: "guest_range run4 = {0x100000..<0x103000}"
proof -
  have "{i \<in> set [0, 1, 2]. el1_bit run4 i} = {1}" by (auto simp: run4_regs [unfolded One_nat_def] run4_regs)
  moreover have "guest_range run4 = (\<Union>i \<in> {i \<in> set [0, 1, 2]. el1_bit run4 i}. ent run4 i)"
    unfolding ok_ranges(2) [OF run4_ok] by blast
  ultimately show ?thesis by (simp add: ent_def run4_regs(5,6) [unfolded One_nat_def])
qed

lemma hyp_page_range: "reg_range hyp_page = {0x200000..<0x201000}" "region_fits hyp_page"
  by (simp_all add: reg_range_def hyp_page_eq region_fits_def fl_prbar_def fl_prlar_def take_bit_eq_mod bit_iff_odd)

lemma run4_stale: "ent run4 2 = reg_range hyp_page" "has_side run4 2 PRIV_HYP" "has_side run4 2 PRIV_VM"
  by (simp_all add: hyp_page_range ent_def run4_regs has_side_def PERM_NONE_def)

text \<open>
  C40. The permissions a freed entry had are not reset, and \<open>mpu_map\<close> records only those of its own
  side, so an entry that a merge freed still counts as a guest's when it serves the hypervisor next.
  First, whenever an entry is recorded for both sides and its register lets only the hypervisor in,
  removing the hypervisor's mapping of it succeeds but sets the bit that lets the guest in: the guest
  reaches the whole region, which it did not reach before. Second, the code gets there: from the MPU
  the start code leaves, \<open>mpu_init\<close>, three \<open>mpu_map\<close> calls for pages of a VM, the last of which merges
  them, and one for a page of the hypervisor all succeed and leave that page in such an entry, outside
  of what the guest reaches (with uninitialised locals read as zero).
\<close>

theorem mpu_unmap_grants_stale:
  assumes "mpu_good p" "region_fits r" "i < mpu_num_entries p" "mpu_entry_valid p i" "ent p i = reg_range r"
    and "has_side p i PRIV_HYP" "has_side p i PRIV_VM" "\<not> el1_bit p i"
  shows "(\<exists>p'. mpu_unmap und PRIV_HYP r p = Inr (p', True) \<and> reg_range r \<subseteq> guest_range p' \<and> reg_range r \<inter> guest_range p = {})
    \<and> (\<exists>q. bindR (mpu_init boot_mpu) (mpu_calls 0 reuse_calls) = Inr (q, [True, True, True, True])
        \<and> mpu_good q \<and> guest_range q = {0x100000..<0x103000} \<and> 2 < mpu_num_entries q \<and> mpu_entry_valid q 2
        \<and> ent q 2 = reg_range hyp_page \<and> has_side q 2 PRIV_HYP \<and> has_side q 2 PRIV_VM \<and> \<not> el1_bit q 2)"
proof (intro conjI)
  show "\<exists>p'. mpu_unmap und PRIV_HYP r p = Inr (p', True) \<and> reg_range r \<subseteq> guest_range p' \<and> reg_range r \<inter> guest_range p = {}"
    by (rule unmap_grants [OF assms])
  have "mpu_good run4" using run4_ok by (auto simp: mpu_good_def)
  then show "\<exists>q. bindR (mpu_init boot_mpu) (mpu_calls 0 reuse_calls) = Inr (q, [True, True, True, True])
      \<and> mpu_good q \<and> guest_range q = {0x100000..<0x103000} \<and> 2 < mpu_num_entries q \<and> mpu_entry_valid q 2
      \<and> ent q 2 = reg_range hyp_page \<and> has_side q 2 PRIV_HYP \<and> has_side q 2 PRIV_VM \<and> \<not> el1_bit q 2"
    using reuse_run run4_guest run4_stale run4_regs(1,2,11) by (intro exI [of _ run4]) simp
qed

text \<open>The whole run from the start code's MPU: the guest ends up with the hypervisor's page at \<open>0x200000\<close>.\<close>

lemma mpu_unmap_grants_stale_witness:
  "\<exists>q q'. bindR (mpu_init boot_mpu) (mpu_calls 0 reuse_calls) = Inr (q, [True, True, True, True])
    \<and> guest_range q = {0x100000..<0x103000} \<and> mpu_unmap 0 PRIV_HYP hyp_page q = Inr (q', True) \<and> {0x200000..<0x201000} \<subseteq> guest_range q'"
proof -
  have "mpu_good run4" using run4_ok by (auto simp: mpu_good_def)
  moreover have "2 < mpu_num_entries run4" "mpu_entry_valid run4 2" "\<not> el1_bit run4 2" by (simp_all add: run4_regs)
  ultimately obtain q' where "mpu_unmap 0 PRIV_HYP hyp_page run4 = Inr (q', True)" "reg_range hyp_page \<subseteq> guest_range q'"
    using mpu_unmap_grants_stale [of run4 hyp_page 2 0] hyp_page_range(2) run4_stale by blast
  then show ?thesis using reuse_run run4_guest hyp_page_range(1) by auto
qed

end
