(* ===== verification/Mpu_Mem.thy ===== *)
theory Mpu_Mem
  imports Mpu_Unmap Page_Pools Cpu_Msg
begin

text \<open>
  Memory protection over an MPU, \<open>src/core/mpu/mem.c\<close>: the regions of an address space (its virtual
  MPU), their mapping in the physical one, and the messages that make the other cores follow.
  The operations run on one core, under the lock of the address space.
\<close>

section \<open>Address spaces\<close>

datatype mpe_state = MPE_S_FREE | MPE_S_INVALID | MPE_S_VALID

record mpe =
  mpe_st :: mpe_state
  mpe_region :: mp_region

record mpu_as =
  vas_id :: u64
  vas_type :: as_type
  vas_colors :: colormap
  vmpu :: "mpe list"

definition VMPU_NUM_ENTRIES :: nat where "VMPU_NUM_ENTRIES = 64"
definition HYP_ASID :: u64 where "HYP_ASID = 0"

record shared_region =
  sh_as_type :: as_type
  sh_asid :: u64
  sh_region :: mp_region

definition MEM_INSERT_REGION :: u32 where "MEM_INSERT_REGION = 0"
definition MEM_REMOVE_REGION :: u32 where "MEM_REMOVE_REGION = 1"

text \<open>
  One core: its own address space and that of the VM whose vCPU it runs, its MPU, the pool of shared regions
  with the contents of its nodes, the queues of messages between the cores, the identifier of the handler
  \<open>MEM_PROT_SYNC\<close> (the linker numbers the handlers), and the page pools. \<open>mc_sent\<close> is a history of the
  calls of \<open>cpu_send_msg\<close> (to which core, event, data), which nothing reads.
\<close>

record mpu_core =
  mc_id :: nat
  mc_cpus :: nat
  mc_as :: mpu_as
  mc_vm :: "(mpu_as \<times> u64) option"
  mc_mpu :: mpu
  mc_pool :: objpool
  mc_nodes :: "u64 \<Rightarrow> shared_region"
  mc_msgs :: msg_state
  mc_sync :: u32
  mc_sent :: "(nat \<times> u32 \<times> u64) list"
  mc_pages :: "page_pool list"

text \<open>A pointer to an address space is one of these two.\<close>

datatype as_ref = Cpu_as | Vm_as

definition get_as :: "as_ref \<Rightarrow> mpu_core \<Rightarrow> mpu_as res" where
  "get_as a s = (case a of Cpu_as \<Rightarrow> Inr (mc_as s) | Vm_as \<Rightarrow> (case mc_vm s of None \<Rightarrow> Inl Null_deref | Some (v, _) \<Rightarrow> Inr v))"

definition put_as :: "as_ref \<Rightarrow> mpu_as \<Rightarrow> mpu_core \<Rightarrow> mpu_core" where
  "put_as a v s = (case a of Cpu_as \<Rightarrow> s\<lparr>mc_as := v\<rparr> | Vm_as \<Rightarrow> s\<lparr>mc_vm := map_option (\<lambda>(_, c). (v, c)) (mc_vm s)\<rparr>)"

section \<open>The entries of the virtual MPU\<close>

text \<open>\<open>INVALID_MPID\<close> passes the test of \<open>mem_vmpu_get_entry\<close>, which is signed: the entry is before the array.\<close>

definition mem_vmpu_get_entry :: "mpu_as \<Rightarrow> nat option \<Rightarrow> mpe res" where
  "mem_vmpu_get_entry v mpid =
    (case mpid of None \<Rightarrow> Inl Out_of_bounds
     | Some i \<Rightarrow> if i < VMPU_NUM_ENTRIES then rd (vmpu v) i else Inl Null_deref)"

definition mem_vmpu_put_entry :: "mpu_as \<Rightarrow> nat \<Rightarrow> mpe \<Rightarrow> mpu_as res" where
  "mem_vmpu_put_entry v mpid e = bindR (wr (vmpu v) mpid e) (\<lambda>es. Inr (v\<lparr>vmpu := es\<rparr>))"

definition mem_vmpu_set_entry :: "mpu_as \<Rightarrow> nat \<Rightarrow> mp_region \<Rightarrow> mpu_as res" where
  "mem_vmpu_set_entry v mpid mpr = mem_vmpu_put_entry v mpid \<lparr>mpe_st = MPE_S_VALID, mpe_region = mpr\<rparr>"

definition PTE_INVALID_MPU :: mem_flags where "PTE_INVALID_MPU = PTE_FLAGS 0 0"

definition mem_vmpu_clear_entry :: "mpu_as \<Rightarrow> nat \<Rightarrow> mpu_as res" where
  "mem_vmpu_clear_entry v mpid = mem_vmpu_put_entry v mpid
    \<lparr>mpe_st = MPE_S_INVALID, mpe_region = \<lparr>mpr_base = 0, mpr_size = 0, mpr_flags = PTE_INVALID_MPU, mpr_sec = SEC_UNKNOWN\<rparr>\<rparr>"

definition mem_vmpu_free_entry :: "mpu_as \<Rightarrow> nat \<Rightarrow> mpu_as res" where
  "mem_vmpu_free_entry v mpid =
    bindR (mem_vmpu_clear_entry v mpid) (\<lambda>v. bindR (rd (vmpu v) mpid) (\<lambda>e. mem_vmpu_put_entry v mpid (e\<lparr>mpe_st := MPE_S_FREE\<rparr>)))"

text \<open>The three loops over the entries stop at the first that satisfies a condition.\<close>

definition first_mpe :: "(mpe \<Rightarrow> bool) \<Rightarrow> mpu_as \<Rightarrow> nat option" where
  "first_mpe P v = find (\<lambda>i. P (vmpu v ! i)) [0..<length (vmpu v)]"

definition mem_vmpu_allocate_entry :: "mpu_as \<Rightarrow> mpu_as \<times> nat option" where
  "mem_vmpu_allocate_entry v =
    (case first_mpe (\<lambda>e. mpe_st e = MPE_S_FREE) v of
       None \<Rightarrow> (v, None)
     | Some i \<Rightarrow> (v\<lparr>vmpu := (vmpu v)[i := (vmpu v ! i)\<lparr>mpe_st := MPE_S_INVALID\<rparr>]\<rparr>, Some i))"

definition mem_vmpu_get_entry_by_addr :: "mpu_as \<Rightarrow> vaddr \<Rightarrow> nat option" where
  "mem_vmpu_get_entry_by_addr v addr =
    first_mpe (\<lambda>e. mpe_st e = MPE_S_VALID \<and> mpr_base (mpe_region e) \<le> addr
      \<and> addr < mpr_base (mpe_region e) + mpr_size (mpe_region e)) v"

definition mem_vmpu_find_overlapping_region :: "mpu_as \<Rightarrow> mp_region \<Rightarrow> nat option" where
  "mem_vmpu_find_overlapping_region v region =
    first_mpe (\<lambda>e. mpe_st e = MPE_S_VALID \<and> mem_regions_overlap region (mpe_region e)) v"

definition as_priv :: "mpu_as \<Rightarrow> priv" where
  "as_priv v = (case vas_type v of AS_HYP \<Rightarrow> PRIV_HYP | AS_HYP_CPY \<Rightarrow> PRIV_HYP | AS_VM \<Rightarrow> PRIV_VM)"

section \<open>Other cores\<close>

definition mem_section_shared_cpus :: "mpu_as \<Rightarrow> int \<Rightarrow> mpu_core \<Rightarrow> u64 res" where
  "mem_section_shared_cpus v section s =
    (if vas_type v = AS_HYP then
       if section = int SEC_HYP_GLOBAL \<or> section = int SEC_HYP_IMAGE then BIT_MASK 0 (mc_cpus s)
       else if section = int SEC_HYP_VM then Inr (case mc_vm s of None \<Rightarrow> 0 | Some (_, cpus) \<Rightarrow> cpus)
       else Inr 0
     else (case mc_vm s of None \<Rightarrow> Inl Null_deref | Some (_, cpus) \<Rightarrow> Inr cpus))"

definition send_region :: "shared_region \<Rightarrow> u32 \<Rightarrow> nat \<Rightarrow> mpu_core \<Rightarrow> mpu_core res" where
  "send_region sh op_id c s =
    bindR (objpool_alloc (mc_pool s)) (\<lambda>(q, node).
    case node of
      None \<Rightarrow> Inl Panic
    | Some n \<Rightarrow>
        bindR (cpu_send_msg (mc_msgs s) c \<lparr>handler = mc_sync s, event = op_id, data = n\<rparr>) (\<lambda>m.
        Inr (s\<lparr>mc_pool := q, mc_nodes := (mc_nodes s)(n := sh), mc_msgs := m, mc_sent := mc_sent s @ [(c, op_id, n)]\<rparr>)))"

definition mem_region_broadcast :: "mpu_as \<Rightarrow> mp_region \<Rightarrow> u32 \<Rightarrow> mpu_core \<Rightarrow> mpu_core res" where
  "mem_region_broadcast v mpr op_id s =
    bindR (mem_section_shared_cpus v (mpr_sec mpr) s) (\<lambda>cpus.
    if cpus = 0 then Inr s
    else
      foldR (\<lambda>c s. if mc_id s \<noteq> c \<and> bit cpus c
          then send_region \<lparr>sh_as_type = vas_type v, sh_asid = vas_id v, sh_region = mpr\<rparr> op_id c s else Inr s)
        [0..<mc_cpus s] s)"

section \<open>Regions\<close>

definition mem_vmpu_insert_region :: "u64 \<Rightarrow> as_ref \<Rightarrow> nat option \<Rightarrow> mp_region \<Rightarrow> bool \<Rightarrow> mpu_core \<Rightarrow> (mpu_core \<times> bool) res" where
  "mem_vmpu_insert_region und a mpid mpr broadcast s =
    (case mpid of
       None \<Rightarrow> Inr (s, False)
     | Some i \<Rightarrow>
         bindR (get_as a s) (\<lambda>v.
         bindR (mpu_map und (as_priv v) mpr (mc_mpu s)) (\<lambda>(p, r).
         let s = s\<lparr>mc_mpu := p\<rparr> in
         if \<not> r then Inr (s, False)
         else
           bindR (mem_vmpu_set_entry v i mpr) (\<lambda>v.
           let s = put_as a v s in
           bindR (if broadcast then mem_region_broadcast v mpr MEM_INSERT_REGION s else Inr s) (\<lambda>s. Inr (s, True))))))"

text \<open>What \<open>mpu_unmap\<close> returns is not looked at.\<close>

definition mem_vmpu_remove_region :: "u64 \<Rightarrow> as_ref \<Rightarrow> nat option \<Rightarrow> bool \<Rightarrow> mpu_core \<Rightarrow> (mpu_core \<times> bool) res" where
  "mem_vmpu_remove_region und a mpid broadcast s =
    bindR (get_as a s) (\<lambda>v.
    case mpid of
      None \<Rightarrow> Inl Out_of_bounds
    | Some i \<Rightarrow>
        if \<not> i < VMPU_NUM_ENTRIES then Inr (s, False)
        else
          bindR (rd (vmpu v) i) (\<lambda>e.
          if mpe_st e \<noteq> MPE_S_VALID then Inr (s, False)
          else
            bindR (if broadcast then mem_region_broadcast v (mpe_region e) MEM_REMOVE_REGION s else Inr s) (\<lambda>s.
            bindR (mpu_unmap und (as_priv v) (mpe_region e) (mc_mpu s)) (\<lambda>(p, _).
            bindR (mem_vmpu_free_entry v i) (\<lambda>v.
            Inr (put_as a v (s\<lparr>mc_mpu := p\<rparr>), True))))))"

definition mem_map_mpu :: "u64 \<Rightarrow> as_ref \<Rightarrow> mp_region \<Rightarrow> bool \<Rightarrow> mpu_core \<Rightarrow> (mpu_core \<times> bool) res" where
  "mem_map_mpu und a mpr broadcast s =
    (if mpr_size mpr = 0 then Inr (s, True)
     else if mpr_size mpr mod PAGE_SIZE \<noteq> 0 then Inl Panic
     else
       bindR (get_as a s) (\<lambda>v.
       if mem_vmpu_find_overlapping_region v mpr \<noteq> None then Inr (s, False)
       else
         let (v, mpid) = mem_vmpu_allocate_entry v; s = put_as a v s in
         if mpid = None then Inr (s, False) else mem_vmpu_insert_region und a mpid mpr broadcast s))"

text \<open>What is left of a removed region is inserted again; its failure is not looked at.\<close>

definition insert_rest :: "u64 \<Rightarrow> as_ref \<Rightarrow> mp_region \<Rightarrow> mpu_core \<Rightarrow> mpu_core res" where
  "insert_rest und a r s =
    (if mpr_size r = 0 then Inr s
     else
       bindR (get_as a s) (\<lambda>v.
       let (v, mpid) = mem_vmpu_allocate_entry v in
       bindR (mem_vmpu_insert_region und a mpid r True (put_as a v s)) (\<lambda>(s, _). Inr s)))"

definition unmap_region :: "u64 \<Rightarrow> as_ref \<Rightarrow> vaddr \<Rightarrow> u64 \<Rightarrow> nat \<Rightarrow> mpu_core \<Rightarrow> (mpu_core \<times> u64) res" where
  "unmap_region und a va sz mpid s =
    bindR (get_as a s) (\<lambda>v.
    bindR (mem_vmpu_get_entry v (Some mpid)) (\<lambda>e.
    let reg = mpe_region e;
        limit = va + sz;
        r_limit = mpr_base reg + mpr_size reg;
        top_size = (if r_limit \<le> limit then 0 else r_limit - limit);
        bottom_size = (if va \<le> mpr_base reg then 0 else va - mpr_base reg) in
    bindR (mem_vmpu_remove_region und a (Some mpid) True s) (\<lambda>(s, _).
    bindR (insert_rest und a (reg\<lparr>mpr_base := limit, mpr_size := top_size\<rparr>) s) (\<lambda>s.
    bindR (insert_rest und a (reg\<lparr>mpr_size := bottom_size\<rparr>) s) (\<lambda>s.
    Inr (s, mpr_size reg - top_size - bottom_size))))))"

partial_function (option) unmap_range_loop :: "u64 \<Rightarrow> as_ref \<Rightarrow> vaddr \<Rightarrow> u64 \<Rightarrow> u64 \<Rightarrow> mpu_core \<Rightarrow> (mpu_core \<times> u64) res option" where
  [code]: "unmap_range_loop und a va sz left s =
    (if 0 < left then
       (case get_as a s of
          Inl e \<Rightarrow> Some (Inl e)
        | Inr v \<Rightarrow>
            (case mem_vmpu_find_overlapping_region v \<lparr>mpr_base = va, mpr_size = sz, mpr_flags = 0, mpr_sec = 0\<rparr> of
               None \<Rightarrow> Some (Inr (s, left))
             | Some mpid \<Rightarrow>
                 (case unmap_region und a va sz mpid s of
                    Inl e \<Rightarrow> Some (Inl e)
                  | Inr (s, overlap_size) \<Rightarrow> unmap_range_loop und a va sz (left - overlap_size) s)))
     else Some (Inr (s, left)))"

text \<open>The argument \<open>broadcast\<close> is not used: every change is sent.\<close>

definition mem_unmap_range :: "u64 \<Rightarrow> as_ref \<Rightarrow> vaddr \<Rightarrow> u64 \<Rightarrow> bool \<Rightarrow> mpu_core \<Rightarrow> (mpu_core \<times> bool) res" where
  "mem_unmap_range und a va sz broadcast s =
    bindR (ended (unmap_range_loop und a va sz sz s)) (\<lambda>(s, left). Inr (s, left = 0))"

text \<open>Every pool that holds the base releases the pages.\<close>

fun mem_free_ppages_mpu :: "ppages \<Rightarrow> page_pool list \<Rightarrow> page_pool list res" where
  "mem_free_ppages_mpu pages [] = Inr []"
| "mem_free_ppages_mpu pages (q # qs) =
    bindR (if in_range (pp_base pages) (pool_base q) (of_nat (pool_size q) * PAGE_SIZE)
           then bindR (bitmap_clear_consecutive (pool_bitmap q) (unat (pp_base pages - pool_base q) div 4096) (num_pages pages))
             (\<lambda>bm. Inr (q\<lparr>pool_bitmap := bm\<rparr>))
           else Inr q) (\<lambda>q. bindR (mem_free_ppages_mpu pages qs) (\<lambda>qs. Inr (q # qs)))"

definition mem_unmap_mpu :: "u64 \<Rightarrow> as_ref \<Rightarrow> vaddr \<Rightarrow> nat \<Rightarrow> bool \<Rightarrow> mpu_core \<Rightarrow> mpu_core res" where
  "mem_unmap_mpu und a at n free_ppages s =
    bindR (mem_unmap_range und a at (of_nat n * PAGE_SIZE) True s) (\<lambda>(s, r).
    if r \<and> free_ppages then bindR (mem_free_ppages_mpu (mem_ppages_get at n) (mc_pages s)) (\<lambda>qs. Inr (s\<lparr>mc_pages := qs\<rparr>))
    else Inr s)"

text \<open>Copying maps the whole region of the source address, whatever number of pages is asked for.\<close>

definition mem_map_cpy_mpu :: "u64 \<Rightarrow> as_ref \<Rightarrow> as_ref \<Rightarrow> vaddr \<Rightarrow> vaddr \<Rightarrow> nat \<Rightarrow> mpu_core \<Rightarrow> (mpu_core \<times> vaddr) res" where
  "mem_map_cpy_mpu und ass asd vas vad n s =
    (if ass \<noteq> asd \<and> (vad = INVALID_VA \<or> vad = vas) then
       bindR (get_as ass s) (\<lambda>v.
       bindR (mem_vmpu_get_entry v (mem_vmpu_get_entry_by_addr v vas)) (\<lambda>e.
       bindR (mem_map_mpu und asd (mpe_region e) True s) (\<lambda>(s, r). Inr (s, if r then vas else INVALID_VA))))
     else Inr (s, INVALID_VA))"

definition mem_translate_mpu :: "mpu_as \<Rightarrow> vaddr \<Rightarrow> paddr option" where
  "mem_translate_mpu v va = (if mem_vmpu_get_entry_by_addr v va \<noteq> None then Some va else None)"

text \<open>The result is the address, also when the mapping failed.\<close>

definition mem_alloc_map_mpu :: "u64 \<Rightarrow> as_ref \<Rightarrow> int \<Rightarrow> ppages option \<Rightarrow> vaddr \<Rightarrow> nat \<Rightarrow> mem_flags \<Rightarrow> mpu_core \<Rightarrow> (mpu_core \<times> vaddr) res" where
  "mem_alloc_map_mpu und a section pages at n flags s =
    (if at = INVALID_VA \<and> pages = None then Inl Panic
     else if at \<noteq> INVALID_VA \<and> (\<exists>q. pages = Some q \<and> at \<noteq> pp_base q) then Inl Panic
     else
       let at = (if at = INVALID_VA then pp_base (the pages) else at);
           q = (case pages of None \<Rightarrow> mem_ppages_get at n | Some q \<Rightarrow> q) in
       bindR (mem_map_mpu und a \<lparr>mpr_base = pp_base q, mpr_size = of_nat n * PAGE_SIZE, mpr_flags = flags, mpr_sec = section\<rparr> True s)
         (\<lambda>(s, _). Inr (s, at)))"

definition PTE_HYP_DEV_FLAGS_MPU :: mem_flags where
  "PTE_HYP_DEV_FLAGS_MPU = PTE_FLAGS (PRBAR_XN OR PRBAR_AP_RW_EL2 OR PRBAR_SH_IS) (PRLAR_ATTR 2 OR 1)"

definition PTE_VM_DEV_FLAGS_MPU :: mem_flags where
  "PTE_VM_DEV_FLAGS_MPU = PTE_FLAGS (PRBAR_XN OR PRBAR_AP_RW_EL1_EL2 OR PRBAR_SH_IS) (PRLAR_ATTR 2 OR 1)"

definition PTE_HYP_FLAGS_MPU :: mem_flags where
  "PTE_HYP_FLAGS_MPU = PTE_FLAGS (PRBAR_AP_RW_EL2 OR PRBAR_SH_IS) (PRLAR_ATTR 1 OR 1)"

definition mem_alloc_map_dev_mpu :: "u64 \<Rightarrow> as_ref \<Rightarrow> int \<Rightarrow> vaddr \<Rightarrow> paddr \<Rightarrow> nat \<Rightarrow> mpu_core \<Rightarrow> (mpu_core \<times> vaddr) res" where
  "mem_alloc_map_dev_mpu und a section at pa n s =
    bindR (get_as a s) (\<lambda>v.
    mem_alloc_map_mpu und a section (Some (mem_ppages_get pa n)) at n
      (if vas_type v = AS_HYP then PTE_HYP_DEV_FLAGS_MPU else PTE_VM_DEV_FLAGS_MPU) s)"

section \<open>Messages of other cores\<close>

definition mem_handle_broadcast_insert :: "u64 \<Rightarrow> mpu_as \<Rightarrow> mp_region \<Rightarrow> mpu_core \<Rightarrow> mpu_core res" where
  "mem_handle_broadcast_insert und v mpr s =
    (if vas_type v = AS_HYP then bindR (mem_map_mpu und Cpu_as mpr False s) (\<lambda>(s, _). Inr s)
     else bindR (mpu_map und (as_priv v) mpr (mc_mpu s)) (\<lambda>(p, _). Inr (s\<lparr>mc_mpu := p\<rparr>)))"

definition mem_handle_broadcast_remove :: "u64 \<Rightarrow> mpu_as \<Rightarrow> mp_region \<Rightarrow> mpu_core \<Rightarrow> mpu_core res" where
  "mem_handle_broadcast_remove und v mpr s =
    (if vas_type v = AS_HYP then bindR (mem_unmap_range und Cpu_as (mpr_base mpr) (mpr_size mpr) False s) (\<lambda>(s, _). Inr s)
     else bindR (mpu_unmap und (as_priv v) mpr (mc_mpu s)) (\<lambda>(p, _). Inr (s\<lparr>mc_mpu := p\<rparr>)))"

definition mem_handle_broadcast_region :: "u64 \<Rightarrow> u32 \<Rightarrow> u64 \<Rightarrow> mpu_core \<Rightarrow> mpu_core res" where
  "mem_handle_broadcast_region und event_id node s =
    (if node = 0 then Inr s
     else
       let sh = mc_nodes s node in
       bindR (if sh_as_type sh = AS_HYP then Inr (mc_as s)
              else bindR (get_as Vm_as s) (\<lambda>v. if vas_id v \<noteq> sh_asid sh then Inl Panic else Inr v)) (\<lambda>v.
       bindR (if event_id = MEM_INSERT_REGION then mem_handle_broadcast_insert und v (sh_region sh) s
              else if event_id = MEM_REMOVE_REGION then mem_handle_broadcast_remove und v (sh_region sh) s
              else Inl Panic) (\<lambda>s.
       bindR (objpool_free (mc_pool s) node) (\<lambda>q. Inr (s\<lparr>mc_pool := q\<rparr>)))))"

section \<open>Start-up\<close>

definition as_init_mpu :: "as_type \<Rightarrow> u64 \<Rightarrow> colormap \<Rightarrow> mpu_as \<Rightarrow> mpu_as res" where
  "as_init_mpu t asid colors v =
    foldR (\<lambda>i v. mem_vmpu_free_entry v i) [0..<VMPU_NUM_ENTRIES] (v\<lparr>vas_type := t, vas_colors := 0, vas_id := asid\<rparr>)"

record mpu_boot =
  mb_image_start :: u64
  mb_image_load_end :: u64
  mb_image_noload_start :: u64
  mb_image_end :: u64
  mb_cpu :: u64
  mb_sizeof_cpu :: u64

definition mem_cpu_boot_alloc_size_mpu :: "mpu_boot \<Rightarrow> u64" where
  "mem_cpu_boot_alloc_size_mpu E = ALIGN (mb_sizeof_cpu E) PAGE_SIZE"

definition boot_regions :: "mpu_boot \<Rightarrow> mp_region list" where
  "boot_regions E =
    (let separate = mb_image_load_end E \<noteq> mb_image_noload_start E;
         first_end = (if separate then mb_image_load_end E else mb_image_end E) in
     [\<lparr>mpr_base = mb_image_start E, mpr_size = first_end - mb_image_start E, mpr_flags = PTE_HYP_FLAGS_MPU, mpr_sec = int SEC_HYP_IMAGE\<rparr>]
     @ (if separate then [\<lparr>mpr_base = mb_image_noload_start E, mpr_size = mb_image_end E - mb_image_noload_start E,
          mpr_flags = PTE_HYP_FLAGS_MPU, mpr_sec = int SEC_HYP_IMAGE\<rparr>] else [])
     @ [\<lparr>mpr_base = mb_cpu E, mpr_size = ALIGN (mb_sizeof_cpu E) PAGE_SIZE, mpr_flags = PTE_HYP_FLAGS_MPU, mpr_sec = int SEC_HYP_PRIVATE\<rparr>])"

definition as_init_boot_regions :: "mpu_boot \<Rightarrow> mpu_as \<Rightarrow> mpu_as res" where
  "as_init_boot_regions E v = foldR (\<lambda>(i, r) v. mem_vmpu_set_entry v i r) (enumerate 0 (boot_regions E)) v"

definition mem_prot_init_mpu :: "mpu_boot \<Rightarrow> mpu_core \<Rightarrow> mpu_core res" where
  "mem_prot_init_mpu E s =
    bindR (mpu_init (mc_mpu s)) (\<lambda>p.
    bindR (as_init_mpu AS_HYP HYP_ASID 0 (mc_as s)) (\<lambda>v.
    bindR (as_init_boot_regions E v) (\<lambda>v. Inr (s\<lparr>mc_mpu := p, mc_as := v\<rparr>))))"

text \<open>
  \<open>src/core/mpu/config.c\<close>, \<open>vm.c\<close> and \<open>vmm.c\<close>. Regions and shared memories are placed where they are seen; the
  field \<open>shm_phys\<close> is a union with \<open>base\<close>.
\<close>

definition ipcs_checked :: "config \<Rightarrow> ipc list \<Rightarrow> bool res" where
  "ipcs_checked cfg is = foldR (\<lambda>p (r :: bool). bindR (rd (shmemlist cfg) (ipc_shmem_id p)) (\<lambda>sh.
     if ipc_base p \<noteq> shm_phys sh then Inl Panic else Inr r)) is True"

definition config_mem_prot_init_mpu :: "config \<Rightarrow> config res" where
  "config_mem_prot_init_mpu cfg =
    bindR (foldR (\<lambda>vm vms.
        bindR (ipcs_checked cfg (plat_ipcs (cfg_platform vm))) (\<lambda>_.
        Inr (vms @ [vm\<lparr>cfg_platform := (cfg_platform vm)\<lparr>plat_regions :=
          List.map (\<lambda>r. r\<lparr>rgn_place_phys := True, rgn_phys := rgn_base r\<rparr>) (plat_regions (cfg_platform vm))\<rparr>\<rparr>])))
      (vmlist cfg) []) (\<lambda>vms.
    Inr (cfg\<lparr>vmlist := vms, shmemlist := List.map (\<lambda>sh. sh\<lparr>shm_place_phys := True\<rparr>) (shmemlist cfg)\<rparr>))"

definition vm_mem_prot_init_mpu :: "u64 \<Rightarrow> mpu_as \<Rightarrow> mpu_as res" where
  "vm_mem_prot_init_mpu vm_id v = as_init_mpu AS_VM vm_id 0 v"

definition vmm_vm_install_mpu :: "u64 \<Rightarrow> vaddr \<times> u64 \<Rightarrow> mpu_core \<Rightarrow> mpu_core res" where
  "vmm_vm_install_mpu und install_info s =
    (let (base, sz) = install_info; n = unat (NUM_PAGES sz) in
     bindR (mem_alloc_map_mpu und Cpu_as (int SEC_HYP_VM) (Some (mem_ppages_get base n)) base n PTE_HYP_FLAGS_MPU s)
       (\<lambda>(s, _). Inr s))"

end
