(* ===== verification/Mpu_Space.thy ===== *)
theory Mpu_Space imports Mpu_Mem begin

text \<open>
  Regions of a VM over an MPU: mapping and unmapping them changes the regions of the VM, what its MPU lets the
  guest reach, and what the other cores are told, by exactly that region.
\<close>

section \<open>What the other cores are told\<close>

text \<open>Nodes for \<open>k\<close> messages, none of them at the null address.\<close>

definition node_room :: "objpool \<Rightarrow> nat \<Rightarrow> bool" where
  "node_room q k \<longleftrightarrow> pool_wf q \<and> card (in_use q) + k \<le> card (objects q) \<and> 0 \<notin> objects q"

text \<open>Nodes for \<open>k\<close> messages in the queues of the cores, and a queue for every core.\<close>

definition msg_room :: "mpu_core \<Rightarrow> nat \<Rightarrow> bool" where
  "msg_room s k \<longleftrightarrow> (\<exists>Q. mailboxes (mc_msgs s) Q \<and> waiting (ncpus (mc_msgs s)) Q + k \<le> num (msg_pool (mc_msgs s)))
    \<and> mc_cpus s \<le> ncpus (mc_msgs s)"

definition send_room :: "mpu_core \<Rightarrow> nat \<Rightarrow> bool" where
  "send_room s k \<longleftrightarrow> node_room (mc_pool s) k \<and> msg_room s k"

lemma send_room_upd [simp]:
  "send_room (s\<lparr>mc_vm := v\<rparr>) k = send_room s k" "send_room (s\<lparr>mc_mpu := p\<rparr>) k = send_room s k"
  by (simp_all add: send_room_def msg_room_def)

lemma send_room_less: "send_room s (j + k) \<Longrightarrow> send_room s k"
  by (auto simp: send_room_def msg_room_def node_room_def)

text \<open>The messages with the regions they point to, and that these are not overwritten.\<close>

definition told :: "mpu_core \<Rightarrow> (nat \<times> u32 \<times> shared_region) list" where
  "told s = List.map (\<lambda>(c, op_id, n). (c, op_id, mc_nodes s n)) (mc_sent s)"

definition nodes_held :: "mpu_core \<Rightarrow> bool" where
  "nodes_held s \<longleftrightarrow> (\<forall>(c, op_id, n) \<in> set (mc_sent s). n \<in> in_use (mc_pool s))"

definition same_core :: "mpu_core \<Rightarrow> mpu_core \<Rightarrow> bool" where
  "same_core s' s \<longleftrightarrow> mc_id s' = mc_id s \<and> mc_cpus s' = mc_cpus s \<and> mc_as s' = mc_as s \<and> mc_vm s' = mc_vm s
    \<and> mc_mpu s' = mc_mpu s \<and> mc_pages s' = mc_pages s"

definition other_cpus :: "mpu_core \<Rightarrow> u64 \<Rightarrow> nat list" where
  "other_cpus s cpus = List.filter (\<lambda>c. mc_id s \<noteq> c \<and> bit cpus c) [0..<mc_cpus s]"

lemma send_region_ok:
  assumes "send_room s (Suc k)" "nodes_held s" "c < mc_cpus s"
  shows "\<exists>s'. send_region sh op_id c s = Inr s' \<and> same_core s' s \<and> send_room s' k \<and> nodes_held s' \<and> told s' = told s @ [(c, op_id, sh)]"
proof -
  have A: "node_room (mc_pool s) (Suc k)" "msg_room s (Suc k)" using assms(1) by (simp_all add: send_room_def)
  have wf: "pool_wf (mc_pool s)" and c: "card (in_use (mc_pool s)) + Suc k \<le> card (objects (mc_pool s))" using A(1) by (simp_all add: node_room_def)
  then have "in_use (mc_pool s) \<noteq> objects (mc_pool s)" by auto
  from alloc_some [OF wf this] obtain q n where q: "objpool_alloc (mc_pool s) = Inr (q, Some n)" "n \<notin> in_use (mc_pool s)"
    "in_use q = insert n (in_use (mc_pool s))" "objects q = objects (mc_pool s)" "pool_wf q" by blast
  from A(2) obtain Q where Q: "mailboxes (mc_msgs s) Q" "waiting (ncpus (mc_msgs s)) Q + Suc k \<le> num (msg_pool (mc_msgs s))"
    "mc_cpus s \<le> ncpus (mc_msgs s)" by (auto simp: msg_room_def)
  then have t: "c < ncpus (mc_msgs s)" "waiting (ncpus (mc_msgs s)) Q < num (msg_pool (mc_msgs s))" using assms(3) by simp_all
  let ?m = "\<lparr>handler = mc_sync s, event = op_id, data = n\<rparr>"
  from send_ok [OF Q(1) t(2,1), of ?m] obtain m where m: "cpu_send_msg (mc_msgs s) c ?m = Inr m" "mailboxes m (Q(c := Q c @ [?m]))"
    "ncpus m = ncpus (mc_msgs s)" "num (msg_pool m) = num (msg_pool (mc_msgs s))" by blast
  let ?s = "s\<lparr>mc_pool := q, mc_nodes := (mc_nodes s)(n := sh), mc_msgs := m, mc_sent := mc_sent s @ [(c, op_id, n)]\<rparr>"
  have "send_region sh op_id c s = Inr ?s" using q(1) m(1) by (simp add: send_region_def)
  moreover have "node_room (mc_pool ?s) k" using q(2-5) c A(1) by (simp add: node_room_def)
  moreover have "waiting (ncpus m) (Q(c := Q c @ [?m])) = Suc (waiting (ncpus (mc_msgs s)) Q)"
    unfolding m(3) by (rule waiting_send [OF t(1)])
  then have "msg_room ?s k" using m Q(2,3) by (auto simp: msg_room_def intro!: exI [of _ "Q(c := Q c @ [?m])"])
  moreover have "nodes_held ?s" using assms(2) q(3) by (auto simp: nodes_held_def)
  moreover have "told ?s = told s @ [(c, op_id, sh)]" using assms(2) q(2) by (auto simp: told_def nodes_held_def)
  ultimately show ?thesis by (intro exI [of _ ?s]) (simp add: same_core_def send_room_def)
qed

lemma same_core_trans: "same_core a b \<Longrightarrow> same_core b c \<Longrightarrow> same_core a c"
  by (simp add: same_core_def)

lemma broadcast_ok:
  assumes "mc_vm s = Some (v0, cpus)" "vas_type v = AS_VM" "send_room s (length (other_cpus s cpus) + k)" "nodes_held s"
  shows "\<exists>s'. mem_region_broadcast v r op_id s = Inr s' \<and> same_core s' s \<and> send_room s' k \<and> nodes_held s'
    \<and> told s' = told s @ List.map (\<lambda>c. (c, op_id, \<lparr>sh_as_type = AS_VM, sh_asid = vas_id v, sh_region = r\<rparr>)) (other_cpus s cpus)"
proof -
  let ?sh = "\<lparr>sh_as_type = AS_VM, sh_asid = vas_id v, sh_region = r\<rparr>"
  let ?f = "\<lambda>c s. if mc_id s \<noteq> c \<and> bit cpus c then send_region ?sh op_id c s else Inr s"
  have F: "\<exists>s'. foldR ?f cs t = Inr s' \<and> same_core s' t \<and> send_room s' k \<and> nodes_held s'
      \<and> told s' = told t @ List.map (\<lambda>c. (c, op_id, ?sh)) (List.filter (\<lambda>c. mc_id t \<noteq> c \<and> bit cpus c) cs)"
    if "set cs \<subseteq> {..<mc_cpus t}" "send_room t (length (List.filter (\<lambda>c. mc_id t \<noteq> c \<and> bit cpus c) cs) + k)" "nodes_held t" for cs t
    using that
  proof (induction cs arbitrary: t)
    case Nil
    then show ?case by (simp add: same_core_def)
  next
    case (Cons c cs)
    show ?case
    proof (cases "mc_id t \<noteq> c \<and> bit cpus c")
      case True
      then obtain t1 where t1: "send_region ?sh op_id c t = Inr t1" "same_core t1 t"
        "send_room t1 (length (List.filter (\<lambda>c. mc_id t \<noteq> c \<and> bit cpus c) cs) + k)" "nodes_held t1" "told t1 = told t @ [(c, op_id, ?sh)]"
        using send_region_ok [OF _ Cons.prems(3), of "length (List.filter (\<lambda>c. mc_id t \<noteq> c \<and> bit cpus c) cs) + k" c ?sh op_id] Cons.prems(1,2) by auto
      have id: "mc_id t1 = mc_id t" "set cs \<subseteq> {..<mc_cpus t1}" using Cons.prems(1) t1(2) by (simp_all add: same_core_def)
      from Cons.IH [of t1, unfolded id(1), OF id(2) t1(3,4)] obtain s' where "foldR ?f cs t1 = Inr s'" "same_core s' t1" "send_room s' k" "nodes_held s'"
        "told s' = told t1 @ List.map (\<lambda>c. (c, op_id, ?sh)) (List.filter (\<lambda>c. mc_id t \<noteq> c \<and> bit cpus c) cs)" by blast
      then show ?thesis using True t1(1,5) same_core_trans [OF _ t1(2), of s'] by (intro exI [of _ s']) simp
    next
      case False
      have e: "List.filter (\<lambda>c. mc_id t \<noteq> c \<and> bit cpus c) (c # cs) = List.filter (\<lambda>c. mc_id t \<noteq> c \<and> bit cpus c) cs" using False by auto
      have f: "foldR ?f (c # cs) t = foldR ?f cs t" using False by auto
      show ?thesis using Cons.IH [of t] Cons.prems unfolding e f by simp
    qed
  qed
  show ?thesis
  proof (cases "cpus = 0")
    case True
    then have "other_cpus s cpus = []" by (simp add: other_cpus_def)
    then show ?thesis using True assms by (intro exI [of _ s]) (simp add: mem_region_broadcast_def mem_section_shared_cpus_def same_core_def)
  next
    case False
    then have "mem_region_broadcast v r op_id s = foldR ?f [0..<mc_cpus s] s"
      using assms(1,2) by (simp add: mem_region_broadcast_def mem_section_shared_cpus_def del: bindR_eq_Inr Inr_eq_bindR cong: if_cong)
    then show ?thesis using F [of "[0..<mc_cpus s]" s] assms(3,4) unfolding other_cpus_def by (simp add: atLeast_upt)
  qed
qed

section \<open>The regions of a VM\<close>

definition mpe_valid :: "mpu_as \<Rightarrow> nat \<Rightarrow> bool" where
  "mpe_valid v i \<longleftrightarrow> i < VMPU_NUM_ENTRIES \<and> mpe_st (vmpu v ! i) = MPE_S_VALID"

definition mpe_range :: "mpu_as \<Rightarrow> nat \<Rightarrow> nat set" where
  "mpe_range v i = reg_range (mpe_region (vmpu v ! i))"

definition vmpu_range :: "mpu_as \<Rightarrow> nat set" where
  "vmpu_range v = (\<Union>i \<in> {i. mpe_valid v i}. mpe_range v i)"

text \<open>A region a VM may have: one the MPU can hold, which the guest reaches.\<close>

definition guest_region :: "mp_region \<Rightarrow> bool" where
  "guest_region r \<longleftrightarrow> region_fits r \<and> bit (fl_prbar (mpr_flags r)) 2"

definition vmpu_ok :: "mpu_as \<Rightarrow> bool" where
  "vmpu_ok v \<longleftrightarrow> length (vmpu v) = VMPU_NUM_ENTRIES \<and> (\<forall>i. mpe_valid v i \<longrightarrow> guest_region (mpe_region (vmpu v ! i)))
    \<and> (\<forall>i j. mpe_valid v i \<longrightarrow> mpe_valid v j \<longrightarrow> i \<noteq> j \<longrightarrow> mpe_range v i \<inter> mpe_range v j = {})"

text \<open>Entries of the MPU that are not in use.\<close>

definition spare :: "mpu \<Rightarrow> nat set" where
  "spare p = {i. i < mpu_num_entries p \<and> \<not> bm_bit (mpu_bitmap p) i}"

text \<open>A core that runs a VM with this address space on these cores, with nodes for \<open>k\<close> messages.\<close>

definition runs_vm :: "mpu_core \<Rightarrow> mpu_as \<Rightarrow> u64 \<Rightarrow> nat \<Rightarrow> bool" where
  "runs_vm s v cpus k \<longleftrightarrow> mc_vm s = Some (v, cpus) \<and> vas_type v = AS_VM \<and> vmpu_ok v \<and> mpu_good (mc_mpu s)
    \<and> send_room s k \<and> nodes_held s"

definition announce :: "u32 \<Rightarrow> mpu_as \<Rightarrow> mp_region \<Rightarrow> nat list \<Rightarrow> (nat \<times> u32 \<times> shared_region) list" where
  "announce op_id v r cs = List.map (\<lambda>c. (c, op_id, \<lparr>sh_as_type = AS_VM, sh_asid = vas_id v, sh_region = r\<rparr>)) cs"

definition same_site :: "mpu_core \<Rightarrow> mpu_core \<Rightarrow> bool" where
  "same_site s' s \<longleftrightarrow> mc_id s' = mc_id s \<and> mc_cpus s' = mc_cpus s \<and> mc_as s' = mc_as s \<and> mc_pages s' = mc_pages s"

lemma same_site_others: "same_site s' s \<Longrightarrow> other_cpus s' cpus = other_cpus s cpus"
  by (simp add: same_site_def other_cpus_def)

lemma same_site_trans: "same_site a b \<Longrightarrow> same_site b c \<Longrightarrow> same_site a c"
  by (simp add: same_site_def)

lemma vmpu_ok_length: "vmpu_ok v \<Longrightarrow> length (vmpu v) = VMPU_NUM_ENTRIES"
  by (simp add: vmpu_ok_def)

lemma put_region_ok:
  assumes "vmpu_ok v" "i < VMPU_NUM_ENTRIES" "\<not> mpe_valid v i" "guest_region r" "vmpu_range v \<inter> reg_range r = {}"
  defines "w \<equiv> v\<lparr>vmpu := (vmpu v)[i := \<lparr>mpe_st = MPE_S_VALID, mpe_region = r\<rparr>]\<rparr>"
  shows "vmpu_ok w" "vmpu_range w = vmpu_range v \<union> reg_range r" "j \<noteq> i \<Longrightarrow> vmpu w ! j = vmpu v ! j"
proof -
  note l = vmpu_ok_length [OF assms(1)]
  have e: "mpe_valid w j \<longleftrightarrow> mpe_valid v j \<or> j = i" "mpe_range w j = (if j = i then reg_range r else mpe_range v j)"
    "vmpu w ! j = (if j = i then \<lparr>mpe_st = MPE_S_VALID, mpe_region = r\<rparr> else vmpu v ! j)" for j
    using assms(2) l by (auto simp: w_def mpe_valid_def mpe_range_def nth_list_update)
  show "j \<noteq> i \<Longrightarrow> vmpu w ! j = vmpu v ! j" by (simp add: e(3))
  have d: "mpe_range v j \<inter> reg_range r = {}" if "mpe_valid v j" for j using assms(5) that by (auto simp: vmpu_range_def)
  show "vmpu_range w = vmpu_range v \<union> reg_range r" unfolding vmpu_range_def using assms(3) by (auto simp: e(1,2))
  have "length (vmpu w) = VMPU_NUM_ENTRIES" using l by (simp add: w_def)
  moreover have "\<forall>j. mpe_valid w j \<longrightarrow> guest_region (mpe_region (vmpu w ! j))"
    using assms(1,4) by (simp add: e vmpu_ok_def)
  moreover have "mpe_range w a \<inter> mpe_range w b = {}" if "mpe_valid w a" "mpe_valid w b" "a \<noteq> b" for a b
  proof -
    have "mpe_valid v a \<Longrightarrow> mpe_valid v b \<Longrightarrow> mpe_range v a \<inter> mpe_range v b = {}" using that(3) assms(1) by (simp add: vmpu_ok_def)
    then show ?thesis using that assms(3) d [of a] d [of b] by (cases "a = i"; cases "b = i") (simp_all add: e(1,2) Int_commute)
  qed
  ultimately show "vmpu_ok w" by (simp add: vmpu_ok_def)
qed

lemma drop_region_ok:
  assumes "vmpu_ok v" "i < VMPU_NUM_ENTRIES" "mpe_st e \<noteq> MPE_S_VALID" "mpe_valid v i \<longrightarrow> X = mpe_range v i" "\<not> mpe_valid v i \<longrightarrow> X = {}"
  defines "w \<equiv> v\<lparr>vmpu := (vmpu v)[i := e]\<rparr>"
  shows "vmpu_ok w" "vmpu_range w = vmpu_range v - X" "j \<noteq> i \<Longrightarrow> vmpu w ! j = vmpu v ! j" "vmpu w ! i = e"
proof -
  note l = vmpu_ok_length [OF assms(1)]
  have e: "mpe_valid w j \<longleftrightarrow> mpe_valid v j \<and> j \<noteq> i" "mpe_range w j = (if j = i then reg_range (mpe_region e) else mpe_range v j)"
    "vmpu w ! j = (if j = i then e else vmpu v ! j)" for j
    using assms(2,3) l by (auto simp: w_def mpe_valid_def mpe_range_def nth_list_update)
  show "j \<noteq> i \<Longrightarrow> vmpu w ! j = vmpu v ! j" "vmpu w ! i = e" by (simp_all add: e(3))
  have d: "mpe_range v a \<inter> mpe_range v b = {}" if "mpe_valid v a" "mpe_valid v b" "a \<noteq> b" for a b
    using that assms(1) by (simp add: vmpu_ok_def)
  show "vmpu_range w = vmpu_range v - X"
  proof (cases "mpe_valid v i")
    case True
    then have "X = mpe_range v i" using assms(4) by simp
    then show ?thesis unfolding vmpu_range_def using d [OF _ True] True by (auto simp: e(1,2) disjoint_iff)
  next
    case False
    then have "X = {}" using assms(5) by simp
    then show ?thesis unfolding vmpu_range_def using False by (auto simp: e(1,2))
  qed
  show "vmpu_ok w" using assms(1) d unfolding vmpu_ok_def by (auto simp: e l) (simp add: w_def l)
qed

section \<open>Inserting and removing a region\<close>

lemma spare_shrink:
  assumes "card (spare p) = Suc n" "\<exists>k. \<forall>j. bm_bit (mpu_bitmap p') j \<longrightarrow> j = k \<or> bm_bit (mpu_bitmap p) j" "mpu_num_entries p' = mpu_num_entries p"
  shows "n \<le> card (spare p')"
proof -
  obtain k where k: "\<And>j. bm_bit (mpu_bitmap p') j \<Longrightarrow> j = k \<or> bm_bit (mpu_bitmap p) j" using assms(2) by blast
  have "spare p - {k} \<subseteq> spare p'" using k assms(3) by (auto simp: spare_def)
  then have "card (spare p - {k}) \<le> card (spare p')" by (intro card_mono) (simp_all add: spare_def)
  then show ?thesis using assms(1) by (simp add: card_Diff_singleton_if split: if_splits)
qed

lemma insert_ok:
  assumes "runs_vm s v cpus (length (other_cpus s cpus) + k)" "i < VMPU_NUM_ENTRIES" "\<not> mpe_valid v i" "guest_region r"
    and "vmpu_range v \<inter> reg_range r = {}" "mpu_range (mc_mpu s) \<inter> reg_range r = {}" "Suc n \<le> card (spare (mc_mpu s))"
  shows "\<exists>s' w. mem_vmpu_insert_region und Vm_as (Some i) r True s = Inr (s', True) \<and> same_site s' s \<and> runs_vm s' w cpus k
    \<and> vmpu_range w = vmpu_range v \<union> reg_range r \<and> vas_id w = vas_id v \<and> (\<forall>j. j \<noteq> i \<longrightarrow> vmpu w ! j = vmpu v ! j)
    \<and> mpu_range (mc_mpu s') = mpu_range (mc_mpu s) \<union> reg_range r \<and> guest_range (mc_mpu s') = guest_range (mc_mpu s) \<union> reg_range r
    \<and> n \<le> card (spare (mc_mpu s')) \<and> told s' = told s @ announce MEM_INSERT_REGION v r (other_cpus s cpus)"
proof -
  note A = assms(1) [unfolded runs_vm_def]
  let ?p = "mc_mpu s" and ?w = "v\<lparr>vmpu := (vmpu v)[i := \<lparr>mpe_st = MPE_S_VALID, mpe_region = r\<rparr>]\<rparr>"
  have "spare ?p \<noteq> {}" using assms(7) by auto
  then obtain i0 where i0: "i0 < mpu_num_entries ?p" "\<not> bm_bit (mpu_bitmap ?p) i0" by (auto simp: spare_def)
  have pr: "as_priv v = PRIV_VM" using A by (simp add: as_priv_def)
  have r: "region_fits r" "bit (fl_prbar (mpr_flags r)) 2 \<longleftrightarrow> PRIV_VM = PRIV_VM" using assms(4) by (simp_all add: guest_region_def)
  have "\<exists>p'. mpu_map und PRIV_VM r ?p = Inr (p', True) \<and> mpu_good p' \<and> mpu_range p' = mpu_range ?p \<union> reg_range r
    \<and> guest_range p' = guest_range ?p \<union> (if PRIV_VM = PRIV_VM then reg_range r else {})
    \<and> (\<exists>k. \<forall>j. bm_bit (mpu_bitmap p') j \<longrightarrow> j = k \<or> bm_bit (mpu_bitmap ?p) j) \<and> mpu_num_entries p' = mpu_num_entries ?p"
    using A by (intro mpu_map_facts [OF _ r(1) assms(6) r(2) i0]) simp
  then obtain p' where p': "mpu_map und PRIV_VM r ?p = Inr (p', True)" "mpu_good p'" "mpu_range p' = mpu_range ?p \<union> reg_range r"
    "guest_range p' = guest_range ?p \<union> reg_range r" "\<exists>k. \<forall>j. bm_bit (mpu_bitmap p') j \<longrightarrow> j = k \<or> bm_bit (mpu_bitmap ?p) j"
    "mpu_num_entries p' = mpu_num_entries ?p" by auto
  have l: "i < length (vmpu v)" using A assms(2) by (simp add: vmpu_ok_def)
  define t where "t = s\<lparr>mc_mpu := p', mc_vm := Some (?w, cpus)\<rparr>"
  have t: "mc_vm t = Some (?w, cpus)" "send_room t = send_room s" "mc_mpu t = p'" "told t = told s" "nodes_held t" "same_site t s" "vas_type v = AS_VM"
    using A by (simp_all add: t_def told_def nodes_held_def same_site_def fun_eq_iff)
  have o: "other_cpus t cpus = other_cpus s cpus" by (rule same_site_others [OF t(6)])
  obtain s' where s': "mem_region_broadcast ?w r MEM_INSERT_REGION t = Inr s'" "same_core s' t" "send_room s' k" "nodes_held s'"
    "told s' = told s @ announce MEM_INSERT_REGION v r (other_cpus s cpus)"
    using broadcast_ok [OF t(1), of ?w k r MEM_INSERT_REGION] A unfolding o t(2,4) announce_def by (auto simp: t(5))
  have "mem_vmpu_insert_region und Vm_as (Some i) r True s = Inr (s', True)"
    using p'(1) l s'(1) A by (simp add: mem_vmpu_insert_region_def get_as_def put_as_def pr mem_vmpu_set_entry_def mem_vmpu_put_entry_def wr_def t_def)
  moreover have "same_site s' s" using s'(2) t(6) by (simp add: same_core_def same_site_def)
  moreover have m: "mc_mpu s' = p'" "mc_vm s' = Some (?w, cpus)" using s'(2) t by (simp_all add: same_core_def)
  moreover have "runs_vm s' ?w cpus k" using m s'(3,4) A p'(2) put_region_ok(1) [OF _ assms(2-5)] by (simp add: runs_vm_def)
  moreover have "n \<le> card (spare p')"
  proof -
    from assms(7) obtain m where "card (spare ?p) = Suc m" "n \<le> m" by (cases "card (spare ?p)") auto
    then show ?thesis using spare_shrink [OF _ p'(5,6)] by fastforce
  qed
  ultimately show ?thesis using put_region_ok(2,3) [OF _ assms(2-5)] A p'(3,4) s'(5)
    by (intro exI [of _ s'] exI [of _ ?w]) simp
qed

definition whole_entries :: "mpu \<Rightarrow> nat set \<Rightarrow> bool" where
  "whole_entries p R \<longleftrightarrow> (\<forall>i. i < mpu_num_entries p \<longrightarrow> mpu_entry_valid p i \<longrightarrow> has_side p i PRIV_VM \<longrightarrow> ent p i \<subseteq> R \<or> ent p i \<inter> R = {})"

lemma range_sides:
  assumes "mpu_good p" "accurate p"
  shows "mpu_range p = guest_range p \<union> side_range p PRIV_HYP"
proof -
  obtain xs where ok: "mpu_ok p xs" using assms(1) by (auto simp: mpu_good_def)
  have "el1_bit p i \<or> has_side p i PRIV_HYP" if "i < mpu_num_entries p" "mpu_entry_valid p i" for i
    using that ok ok_entries [OF ok] by (auto simp: mpu_but_def perms_fit_def has_side_def)
  then show ?thesis unfolding mpu_range_def guest_range_def side_range_def by blast
qed

lemma remove_ok:
  assumes "runs_vm s v cpus (length (other_cpus s cpus) + k)" "mpe_valid v i" "accurate (mc_mpu s)" "whole_entries (mc_mpu s) (mpe_range v i)"
  shows "\<exists>s' w. mem_vmpu_remove_region und Vm_as (Some i) True s = Inr (s', True) \<and> same_site s' s \<and> runs_vm s' w cpus k
    \<and> vmpu_range w = vmpu_range v - mpe_range v i \<and> vas_id w = vas_id v \<and> mpe_st (vmpu w ! i) = MPE_S_FREE \<and> (\<forall>j. j \<noteq> i \<longrightarrow> vmpu w ! j = vmpu v ! j)
    \<and> guest_range (mc_mpu s') = guest_range (mc_mpu s) - mpe_range v i \<and> side_range (mc_mpu s') PRIV_HYP = side_range (mc_mpu s) PRIV_HYP
    \<and> accurate (mc_mpu s') \<and> card (spare (mc_mpu s)) \<le> card (spare (mc_mpu s'))
    \<and> told s' = told s @ announce MEM_REMOVE_REGION v (mpe_region (vmpu v ! i)) (other_cpus s cpus)"
proof -
  note A = assms(1) [unfolded runs_vm_def]
  let ?r = "mpe_region (vmpu v ! i)" and ?p = "mc_mpu s"
  let ?e = "\<lparr>mpe_st = MPE_S_FREE, mpe_region = \<lparr>mpr_base = 0, mpr_size = 0, mpr_flags = PTE_INVALID_MPU, mpr_sec = SEC_UNKNOWN\<rparr>\<rparr>"
  let ?w = "v\<lparr>vmpu := (vmpu v)[i := ?e]\<rparr>"
  have i: "i < VMPU_NUM_ENTRIES" "i < length (vmpu v)" "mpe_st (vmpu v ! i) = MPE_S_VALID" using A assms(2) by (simp_all add: mpe_valid_def vmpu_ok_def)
  have pr: "as_priv v = PRIV_VM" using A by (simp add: as_priv_def)
  have r: "region_fits ?r" using A assms(2) by (simp add: vmpu_ok_def guest_region_def)
  have w: "\<forall>j. j < mpu_num_entries ?p \<longrightarrow> mpu_entry_valid ?p j \<longrightarrow> has_side ?p j PRIV_VM \<longrightarrow> ent ?p j \<subseteq> reg_range ?r \<or> ent ?p j \<inter> reg_range ?r = {}"
    using assms(4) by (simp add: whole_entries_def mpe_range_def)
  obtain s1 where s1: "mem_region_broadcast v ?r MEM_REMOVE_REGION s = Inr s1" "same_core s1 s" "send_room s1 k" "nodes_held s1"
    "told s1 = told s @ announce MEM_REMOVE_REGION v ?r (other_cpus s cpus)"
    using broadcast_ok [of s v cpus v k ?r MEM_REMOVE_REGION] A unfolding announce_def by auto
  have m: "mc_mpu s1 = ?p" "mc_vm s1 = Some (v, cpus)" using s1(2) A by (simp_all add: same_core_def)
  have "\<exists>p' b. mpu_unmap und PRIV_VM ?r ?p = Inr (p', b) \<and> mpu_good p' \<and> accurate p'
    \<and> guest_range p' = guest_range ?p - (if PRIV_VM = PRIV_VM then reg_range ?r else {})
    \<and> side_range p' PRIV_HYP = side_range ?p PRIV_HYP - (if PRIV_VM = PRIV_HYP then reg_range ?r else {})
    \<and> (\<forall>k. bm_bit (mpu_bitmap p') k \<longrightarrow> bm_bit (mpu_bitmap ?p) k) \<and> mpu_num_entries p' = mpu_num_entries ?p"
    using A by (intro mpu_unmap_facts [OF _ assms(3) r _ w]) simp_all
  then obtain p' b where p': "mpu_unmap und PRIV_VM ?r ?p = Inr (p', b)" "mpu_good p'" "accurate p'" "guest_range p' = guest_range ?p - reg_range ?r"
    "side_range p' PRIV_HYP = side_range ?p PRIV_HYP" "\<forall>k. bm_bit (mpu_bitmap p') k \<longrightarrow> bm_bit (mpu_bitmap ?p) k" "mpu_num_entries p' = mpu_num_entries ?p" by auto
  let ?t = "s1\<lparr>mc_mpu := p', mc_vm := Some (?w, cpus)\<rparr>"
  have "mem_vmpu_remove_region und Vm_as (Some i) True s = Inr (?t, True)"
    using A i s1(1) p'(1) m by (simp add: mem_vmpu_remove_region_def get_as_def put_as_def pr mem_vmpu_free_entry_def mem_vmpu_clear_entry_def
        mem_vmpu_put_entry_def wr_def rd_def)
  moreover have "same_site ?t s" using s1(2) by (simp add: same_core_def same_site_def)
  moreover have "told ?t = told s1" "nodes_held ?t" using s1(4) by (simp_all add: told_def nodes_held_def)
  moreover have "runs_vm ?t ?w cpus k" using A s1(3) p'(2) drop_region_ok(1) [of v i ?e "mpe_range v i"] i(1) assms(2) \<open>nodes_held ?t\<close>
    by (simp add: runs_vm_def)
  moreover have "card (spare ?p) \<le> card (spare p')" using p'(6,7) by (intro card_mono) (auto simp: spare_def)
  ultimately show ?thesis using drop_region_ok(2-4) [of v i ?e "mpe_range v i"] A i assms(2) p'(3-5) s1(5)
    by (intro exI [of _ ?t] exI [of _ ?w]) (simp add: mpe_range_def)
qed

section \<open>Allocation of an entry\<close>

definition free_mpes :: "mpu_as \<Rightarrow> nat set" where
  "free_mpes v = {i. i < VMPU_NUM_ENTRIES \<and> mpe_st (vmpu v ! i) = MPE_S_FREE}"

lemma first_mpe_some:
  "first_mpe P v = Some i \<longleftrightarrow> i < length (vmpu v) \<and> P (vmpu v ! i) \<and> (\<forall>j < i. \<not> P (vmpu v ! j))"
  unfolding first_mpe_def by (auto simp: find_Some_iff) 

lemma first_mpe_none: "first_mpe P v = None \<longleftrightarrow> (\<forall>i < length (vmpu v). \<not> P (vmpu v ! i))"
  by (auto simp: first_mpe_def find_None_iff)

lemma allocate_ok:
  assumes "vmpu_ok v" "free_mpes v \<noteq> {}"
  shows "\<exists>w i. mem_vmpu_allocate_entry v = (w, Some i) \<and> vmpu_ok w \<and> vmpu_range w = vmpu_range v \<and> i < VMPU_NUM_ENTRIES \<and> \<not> mpe_valid w i
    \<and> i \<in> free_mpes v \<and> free_mpes w = free_mpes v - {i} \<and> vas_id w = vas_id v \<and> vas_type w = vas_type v \<and> (\<forall>j. j \<noteq> i \<longrightarrow> vmpu w ! j = vmpu v ! j)"
proof -
  note l = vmpu_ok_length [OF assms(1)]
  have "first_mpe (\<lambda>e. mpe_st e = MPE_S_FREE) v \<noteq> None" using assms(2) l by (auto simp: first_mpe_none free_mpes_def)
  then obtain i where i: "first_mpe (\<lambda>e. mpe_st e = MPE_S_FREE) v = Some i" by blast
  then have f: "i < VMPU_NUM_ENTRIES" "mpe_st (vmpu v ! i) = MPE_S_FREE" using l by (simp_all add: first_mpe_some)
  let ?e = "(vmpu v ! i)\<lparr>mpe_st := MPE_S_INVALID\<rparr>"
  let ?w = "v\<lparr>vmpu := (vmpu v)[i := ?e]\<rparr>"
  have nv: "\<not> mpe_valid v i" using f by (simp add: mpe_valid_def)
  note D = drop_region_ok [OF assms(1) f(1), of ?e "{}"]
  have "free_mpes ?w = free_mpes v - {i}" using l f(1) by (auto simp: free_mpes_def nth_list_update)
  moreover have "mem_vmpu_allocate_entry v = (?w, Some i)" using i by (simp add: mem_vmpu_allocate_entry_def)
  moreover have "i \<in> free_mpes v" using f by (simp add: free_mpes_def)
  moreover have "\<not> mpe_valid ?w i" using f(1) l by (simp add: mpe_valid_def)
  ultimately show ?thesis using D nv f(1) by (intro exI [of _ ?w] exI [of _ i]) simp
qed

text \<open>What is left of a region is inserted in a free entry and told, or nothing happens when nothing is left.\<close>

definition announced :: "mpu_as \<Rightarrow> mp_region \<Rightarrow> nat list \<Rightarrow> (nat \<times> u32 \<times> shared_region) list" where
  "announced v r cs = (if mpr_size r = 0 then [] else announce MEM_INSERT_REGION v r cs)"

lemma announce_id: "vas_id w = vas_id v \<Longrightarrow> announce op_id w r cs = announce op_id v r cs"
  by (simp add: announce_def)

lemma insert_rest_ok:
  assumes "runs_vm s v cpus (length (other_cpus s cpus) + k)" "mpr_size r \<noteq> 0 \<longrightarrow> guest_region r" "Suc m \<le> card (free_mpes v)"
    and "vmpu_range v \<inter> reg_range r = {}" "mpu_range (mc_mpu s) \<inter> reg_range r = {}" "Suc n \<le> card (spare (mc_mpu s))"
  shows "\<exists>s' w. insert_rest und Vm_as r s = Inr s' \<and> same_site s' s \<and> runs_vm s' w cpus k
    \<and> vmpu_range w = vmpu_range v \<union> reg_range r \<and> vas_id w = vas_id v \<and> m \<le> card (free_mpes w)
    \<and> mpu_range (mc_mpu s') = mpu_range (mc_mpu s) \<union> reg_range r \<and> guest_range (mc_mpu s') = guest_range (mc_mpu s) \<union> reg_range r
    \<and> n \<le> card (spare (mc_mpu s')) \<and> told s' = told s @ announced v r (other_cpus s cpus)"
proof (cases "mpr_size r = 0")
  case True
  then have "reg_range r = {}" by (simp add: reg_range_def)
  moreover have "runs_vm s v cpus k" using assms(1) send_room_less by (auto simp: runs_vm_def)
  ultimately show ?thesis using True assms(3,6)
    by (intro exI [of _ s] exI [of _ v]) (simp add: insert_rest_def same_site_def announced_def)
next
  case False
  note A = assms(1) [unfolded runs_vm_def]
  have ne: "free_mpes v \<noteq> {}" using assms(3) by auto
  have ok: "vmpu_ok v" using A by simp
  from allocate_ok [OF ok ne] obtain w i where w: "mem_vmpu_allocate_entry v = (w, Some i)" "vmpu_ok w" "vmpu_range w = vmpu_range v"
    "i < VMPU_NUM_ENTRIES" "\<not> mpe_valid w i" "i \<in> free_mpes v" "free_mpes w = free_mpes v - {i}" "vas_id w = vas_id v" "vas_type w = vas_type v"
    by (elim exE conjE)
  define t where "t = s\<lparr>mc_vm := Some (w, cpus)\<rparr>"
  have t: "mc_vm t = Some (w, cpus)" "mc_mpu t = mc_mpu s" "told t = told s" "same_site t s" "runs_vm t w cpus (length (other_cpus s cpus) + k)"
    using A w(2,9) by (simp_all add: t_def told_def nodes_held_def same_site_def runs_vm_def)
  have o: "other_cpus t cpus = other_cpus s cpus" by (rule same_site_others [OF t(4)])
  have rw: "vmpu_range w \<inter> reg_range r = {}" "mpu_range (mc_mpu t) \<inter> reg_range r = {}" "Suc n \<le> card (spare (mc_mpu t))"
    using assms(4-6) w(3) t(2) by simp_all
  from insert_ok [OF t(5) [folded o] w(4,5) assms(2) [rule_format, OF False] rw, of und] obtain s' w' where
    s': "mem_vmpu_insert_region und Vm_as (Some i) r True t = Inr (s', True)" "same_site s' t" "runs_vm s' w' cpus k"
    "vmpu_range w' = vmpu_range w \<union> reg_range r" "vas_id w' = vas_id w" "\<forall>j. j \<noteq> i \<longrightarrow> vmpu w' ! j = vmpu w ! j"
    "mpu_range (mc_mpu s') = mpu_range (mc_mpu t) \<union> reg_range r" "guest_range (mc_mpu s') = guest_range (mc_mpu t) \<union> reg_range r"
    "n \<le> card (spare (mc_mpu s'))" "told s' = told t @ announce MEM_INSERT_REGION w r (other_cpus t cpus)" by (elim exE conjE)
  have "free_mpes v - {i} \<subseteq> free_mpes w'"
  proof
    fix j assume j: "j \<in> free_mpes v - {i}"
    then have "j \<in> free_mpes w" "j \<noteq> i" unfolding w(7) by simp_all
    then show "j \<in> free_mpes w'" using s'(6) by (simp add: free_mpes_def)
  qed
  then have "card (free_mpes v - {i}) \<le> card (free_mpes w')" by (intro card_mono) (simp_all add: free_mpes_def)
  then have "m \<le> card (free_mpes w')" using w(6) assms(3) by (simp add: free_mpes_def)
  moreover have "insert_rest und Vm_as r s = Inr s'"
    using False A w(1) s'(1) by (simp add: insert_rest_def get_as_def put_as_def t_def)
  moreover have "same_site s' s" using s'(2) t(4) by (rule same_site_trans)
  ultimately show ?thesis using s'(3-5,7-10) False w(3,8) t(2,3) unfolding o
    by (intro exI [of _ s'] exI [of _ w']) (simp add: announced_def announce_id [OF w(8)])
qed

section \<open>Unmapping a range\<close>

text \<open>What is left of a region above and below the range.\<close>

definition rest_above :: "mp_region \<Rightarrow> vaddr \<Rightarrow> u64 \<Rightarrow> mp_region" where
  "rest_above r va sz = r\<lparr>mpr_base := va + sz, mpr_size := (mpr_base r + mpr_size r) - (va + sz)\<rparr>"

definition rest_below :: "mp_region \<Rightarrow> vaddr \<Rightarrow> mp_region" where
  "rest_below r va = r\<lparr>mpr_size := va - mpr_base r\<rparr>"

definition in_region :: "vaddr \<Rightarrow> u64 \<Rightarrow> mp_region \<Rightarrow> bool" where
  "in_region va sz r \<longleftrightarrow> take_bit 6 va = 0 \<and> take_bit 6 sz = 0 \<and> sz \<noteq> 0 \<and> unat (mpr_base r) \<le> unat va
    \<and> unat va + unat sz \<le> unat (mpr_base r) + unat (mpr_size r)"

lemma rests:
  assumes "guest_region r" "in_region va sz r"
  defines "R \<equiv> {unat va ..< unat va + unat sz}"
  shows "reg_range (rest_above r va sz) \<union> reg_range (rest_below r va) = reg_range r - R"
    and "reg_range (rest_above r va sz) \<inter> reg_range (rest_below r va) = {}" "R \<subseteq> reg_range r"
    and "mpr_size (rest_above r va sz) \<noteq> 0 \<Longrightarrow> guest_region (rest_above r va sz)"
    and "mpr_size (rest_below r va) \<noteq> 0 \<Longrightarrow> guest_region (rest_below r va)"
    and "mpr_size r - mpr_size (rest_above r va sz) - mpr_size (rest_below r va) = sz"
    and "(if mpr_base r + mpr_size r \<le> va + sz then 0 else mpr_base r + mpr_size r - (va + sz)) = mpr_size (rest_above r va sz)"
    and "(if va \<le> mpr_base r then 0 else va - mpr_base r) = mpr_size (rest_below r va)"
    and "range_in_range va sz (mpr_base r) (mpr_size r)"
proof -
  note f = assms(1) [unfolded guest_region_def region_fits_def]
  note i = assms(2) [unfolded in_region_def]
  have u: "unat (mpr_base r + mpr_size r) = unat (mpr_base r) + unat (mpr_size r)" "unat (va + sz) = unat va + unat sz"
    using f i by (simp_all add: unat_add_no_wrap)
  have s: "unat (mpr_base r + mpr_size r - (va + sz)) = unat (mpr_base r) + unat (mpr_size r) - (unat va + unat sz)"
    "unat (va - mpr_base r) = unat va - unat (mpr_base r)"
    using i by (simp_all add: unat_sub word_le_nat_alt u)
  have a: "reg_range (rest_above r va sz) = {unat va + unat sz ..< unat (mpr_base r) + unat (mpr_size r)}"
    using i by (simp add: reg_range_def rest_above_def u s)
  have b: "reg_range (rest_below r va) = {unat (mpr_base r) ..< unat va}"
    using i by (simp add: reg_range_def rest_below_def s)
  show "reg_range (rest_above r va sz) \<union> reg_range (rest_below r va) = reg_range r - R"
    "reg_range (rest_above r va sz) \<inter> reg_range (rest_below r va) = {}" "R \<subseteq> reg_range r"
    unfolding a b using i by (auto simp: reg_range_def R_def)
  show "mpr_size (rest_above r va sz) \<noteq> 0 \<Longrightarrow> guest_region (rest_above r va sz)"
    using f i by (simp add: guest_region_def region_fits_def rest_above_def u s aligned_sum aligned_diff)
  show "mpr_size (rest_below r va) \<noteq> 0 \<Longrightarrow> guest_region (rest_below r va)"
    using f i by (simp add: guest_region_def region_fits_def rest_below_def u s aligned_sum aligned_diff)
  show "mpr_size r - mpr_size (rest_above r va sz) - mpr_size (rest_below r va) = sz"
    by (simp add: rest_above_def rest_below_def)
  show "(if mpr_base r + mpr_size r \<le> va + sz then 0 else mpr_base r + mpr_size r - (va + sz)) = mpr_size (rest_above r va sz)"
    using i by (auto simp: rest_above_def word_le_nat_alt u s word_unat_eq_iff)
  show "(if va \<le> mpr_base r then 0 else va - mpr_base r) = mpr_size (rest_below r va)"
    using i by (auto simp: rest_below_def word_le_nat_alt s word_unat_eq_iff)
  show "range_in_range va sz (mpr_base r) (mpr_size r)" using f i by (subst range_in_range_iff) auto
qed

text \<open>An MPU that has these addresses for the guest alone, in entries that hold nothing else, and two entries to spare.\<close>

definition separable :: "mpu \<Rightarrow> nat set \<Rightarrow> bool" where
  "separable p X \<longleftrightarrow> mpu_good p \<and> accurate p \<and> whole_entries p X \<and> X \<subseteq> guest_range p \<and> X \<inter> side_range p PRIV_HYP = {}
    \<and> 2 \<le> card (spare p)"

lemma unmap_region_ok:
  assumes "runs_vm s v cpus (3 * length (other_cpus s cpus))" "mpe_valid v i" "in_region va sz (mpe_region (vmpu v ! i))"
    and "separable (mc_mpu s) (mpe_range v i)" "free_mpes v \<noteq> {}"
  defines "r \<equiv> mpe_region (vmpu v ! i)" and "R \<equiv> {unat va ..< unat va + unat sz}" and "cs \<equiv> other_cpus s cpus"
  shows "\<exists>s' w. unmap_region und Vm_as va sz i s = Inr (s', sz) \<and> runs_vm s' w cpus 0 \<and> vas_id w = vas_id v \<and> vmpu_range w = vmpu_range v - R
    \<and> guest_range (mc_mpu s') = guest_range (mc_mpu s) - R
    \<and> told s' = told s @ announce MEM_REMOVE_REGION v r cs @ announced v (rest_above r va sz) cs @ announced v (rest_below r va) cs"
proof -
  note A = assms(1) [unfolded runs_vm_def]
  let ?a = "rest_above r va sz" and ?b = "rest_below r va"
  have i: "i < VMPU_NUM_ENTRIES" "i < length (vmpu v)" and g: "guest_region r" using A assms(2) by (simp_all add: mpe_valid_def vmpu_ok_def r_def)
  note F = rests [OF g, of va sz, folded R_def] and X = assms(3) [folded r_def] and S = assms(4) [unfolded separable_def]
  have rr: "mpe_range v i = reg_range r" by (simp add: mpe_range_def r_def)
  have node_room: "runs_vm s v cpus (length (other_cpus s cpus) + (length cs + length cs))" using assms(1) by (simp add: cs_def mult.commute numeral_3_eq_3)
  have acc: "accurate (mc_mpu s)" "whole_entries (mc_mpu s) (mpe_range v i)" using S by simp_all
  from remove_ok [OF node_room assms(2) acc, of und] obtain s1 w1 where
    s1: "mem_vmpu_remove_region und Vm_as (Some i) True s = Inr (s1, True)" "same_site s1 s" "runs_vm s1 w1 cpus (length cs + length cs)"
    "vmpu_range w1 = vmpu_range v - mpe_range v i" "vas_id w1 = vas_id v" "mpe_st (vmpu w1 ! i) = MPE_S_FREE" "\<forall>j. j \<noteq> i \<longrightarrow> vmpu w1 ! j = vmpu v ! j"
    "guest_range (mc_mpu s1) = guest_range (mc_mpu s) - mpe_range v i" "side_range (mc_mpu s1) PRIV_HYP = side_range (mc_mpu s) PRIV_HYP"
    "accurate (mc_mpu s1)" "card (spare (mc_mpu s)) \<le> card (spare (mc_mpu s1))"
    "told s1 = told s @ announce MEM_REMOVE_REGION v (mpe_region (vmpu v ! i)) (other_cpus s cpus)" by (elim exE conjE)
  have m1: "mpu_range (mc_mpu s1) \<inter> reg_range r = {}"
    using range_sides [of "mc_mpu s1"] s1(3,8-10) S unfolding rr runs_vm_def by blast
  have parts: "reg_range ?a \<subseteq> reg_range r" "reg_range ?b \<subseteq> reg_range r" using F(1) [OF X] by blast+
  have "Suc (Suc 0) \<le> card (free_mpes w1)"
  proof -
    have "insert i (free_mpes v) \<subseteq> free_mpes w1" using s1(6,7) i(1) by (auto simp: free_mpes_def)
    moreover have "i \<notin> free_mpes v" using assms(2) by (simp add: free_mpes_def mpe_valid_def)
    moreover have "finite (free_mpes v)" "finite (free_mpes w1)" by (simp_all add: free_mpes_def)
    moreover have "card (free_mpes v) > 0" using assms(5) \<open>finite (free_mpes v)\<close> by (simp add: card_gt_0_iff)
    ultimately show ?thesis using card_mono [of "free_mpes w1" "insert i (free_mpes v)"] by simp
  qed
  have "Suc (Suc 0) \<le> card (spare (mc_mpu s1))" using s1(11) S by simp
  have o1: "other_cpus s1 cpus = cs" unfolding cs_def by (rule same_site_others [OF s1(2)])
  have pa: "vmpu_range w1 \<inter> reg_range ?a = {}" "mpu_range (mc_mpu s1) \<inter> reg_range ?a = {}" using parts m1 s1(4) unfolding rr by blast+
  have fits: "mpr_size ?a \<noteq> 0 \<longrightarrow> guest_region ?a" "mpr_size ?b \<noteq> 0 \<longrightarrow> guest_region ?b" using F(4,5) [OF X] by blast+
  from insert_rest_ok [OF s1(3) [folded o1] fits(1) \<open>Suc (Suc 0) \<le> card (free_mpes w1)\<close> pa \<open>Suc (Suc 0) \<le> card (spare (mc_mpu s1))\<close>, of und] obtain s2 w2 where
    s2: "insert_rest und Vm_as ?a s1 = Inr s2" "same_site s2 s1" "runs_vm s2 w2 cpus (length (other_cpus s1 cpus))" "vmpu_range w2 = vmpu_range w1 \<union> reg_range ?a"
    "vas_id w2 = vas_id w1" "Suc 0 \<le> card (free_mpes w2)" "mpu_range (mc_mpu s2) = mpu_range (mc_mpu s1) \<union> reg_range ?a"
    "guest_range (mc_mpu s2) = guest_range (mc_mpu s1) \<union> reg_range ?a" "Suc 0 \<le> card (spare (mc_mpu s2))"
    "told s2 = told s1 @ announced w1 ?a (other_cpus s1 cpus)" by (elim exE conjE)
  have o2: "other_cpus s2 cpus = cs" using same_site_others [OF s2(2)] o1 by simp
  have pb: "vmpu_range w2 \<inter> reg_range ?b = {}" "mpu_range (mc_mpu s2) \<inter> reg_range ?b = {}"
    using parts m1 s1(4) s2(4,7) F(2) [OF X] unfolding rr by blast+
  have r2: "runs_vm s2 w2 cpus (length (other_cpus s2 cpus) + 0)" using s2(3) unfolding o1 o2 by simp
  from insert_rest_ok [OF r2 fits(2) s2(6) pb s2(9), of und] obtain s3 w3 where
    s3: "insert_rest und Vm_as ?b s2 = Inr s3" "runs_vm s3 w3 cpus 0" "vmpu_range w3 = vmpu_range w2 \<union> reg_range ?b"
    "vas_id w3 = vas_id w2" "guest_range (mc_mpu s3) = guest_range (mc_mpu s2) \<union> reg_range ?b" "told s3 = told s2 @ announced w2 ?b (other_cpus s2 cpus)" by (elim exE conjE)
  have "unmap_region und Vm_as va sz i s = Inr (s3, sz)"
    using i s1(1) s2(1) s3(1) A F(6-8) [OF X]
    by (simp add: unmap_region_def get_as_def mem_vmpu_get_entry_def rd_def r_def [symmetric] rest_above_def rest_below_def)
  moreover have C: "(Y - reg_range r \<union> reg_range ?a) \<union> reg_range ?b = Y - R" if "reg_range r \<subseteq> Y" for Y
    using that F(1,3) [OF X] by blast
  moreover have "reg_range r \<subseteq> vmpu_range v" using assms(2) rr by (auto simp: vmpu_range_def)
  then have "vmpu_range w3 = vmpu_range v - R" unfolding s3(3) s2(4) s1(4) rr by (rule C)
  moreover have "guest_range (mc_mpu s3) = guest_range (mc_mpu s) - R"
    unfolding s3(5) s2(8) s1(8) rr by (rule C) (use S rr in simp)
  moreover have "vas_id w2 = vas_id v" using s2(5) s1(5) by simp
  then have "told s3 = told s @ announce MEM_REMOVE_REGION v r cs @ announced v ?a cs @ announced v ?b cs"
    unfolding s3(6) s2(10) s1(12) o1 o2 using s1(5) by (simp add: announced_def announce_def r_def cs_def)
  moreover have "vas_id w3 = vas_id v" using s3(4) s2(5) s1(5) by simp
  ultimately show ?thesis using s3(2) by blast
qed

lemma mem_unmap_range_ok:
  assumes "runs_vm s v cpus (3 * length (other_cpus s cpus))" "mpe_valid v i" "in_region va sz (mpe_region (vmpu v ! i))"
    and "separable (mc_mpu s) (mpe_range v i)" "free_mpes v \<noteq> {}"
  defines "r \<equiv> mpe_region (vmpu v ! i)" and "R \<equiv> {unat va ..< unat va + unat sz}" and "cs \<equiv> other_cpus s cpus"
  shows "\<exists>s' w. mem_unmap_range und Vm_as va sz b s = Inr (s', True) \<and> runs_vm s' w cpus 0 \<and> vas_id w = vas_id v \<and> vmpu_range w = vmpu_range v - R
    \<and> guest_range (mc_mpu s') = guest_range (mc_mpu s) - R
    \<and> told s' = told s @ announce MEM_REMOVE_REGION v r cs @ announced v (rest_above r va sz) cs @ announced v (rest_below r va) cs"
proof -
  note A = assms(1) [unfolded runs_vm_def]
  have len: "length (vmpu v) = VMPU_NUM_ENTRIES" using A by (simp add: vmpu_ok_def)
  let ?P = "\<lambda>e. mpe_st e = MPE_S_VALID \<and> mem_regions_overlap \<lparr>mpr_base = va, mpr_size = sz, mpr_flags = 0, mpr_sec = 0\<rparr> (mpe_region e)"
  have g: "guest_region (mpe_region (vmpu v ! j))" if "mpe_valid v j" for j using A that by (simp add: vmpu_ok_def)
  have small: "unat va + unat sz < 2 ^ 64"
    using g [OF assms(2)] assms(3) unfolding in_region_def guest_region_def region_fits_def by linarith
  have in_reg: "in_region va sz (mpe_region (vmpu v ! j))" if "mpe_valid v j" "?P (vmpu v ! j)" for j
    using g [OF that(1)] that(2) assms(3) small unfolding mem_regions_overlap_def
    by (subst (asm) range_in_range_iff) (auto simp: in_region_def guest_region_def region_fits_def)
  have sub: "R \<subseteq> mpe_range v j" if "mpe_valid v j" "?P (vmpu v ! j)" for j
    using rests(3) [OF g [OF that(1)] in_reg [OF that]] by (simp add: R_def mpe_range_def)
  have i: "i < length (vmpu v)" "?P (vmpu v ! i)" using assms(2) len rests(9) [OF g [OF assms(2)] assms(3)] by (simp_all add: mpe_valid_def mem_regions_overlap_def)
  have "first_mpe ?P v \<noteq> None" using i by (auto simp: first_mpe_none)
  then obtain j where j: "first_mpe ?P v = Some j" by blast
  then have jv: "mpe_valid v j" "?P (vmpu v ! j)" using len by (simp_all add: first_mpe_some mpe_valid_def)
  have "R \<noteq> {}" using assms(3) by (simp add: R_def in_region_def word_neq_0_conv unat_gt_0)
  then have "j = i" using sub [OF jv] sub [OF assms(2) i(2)] A jv(1) assms(2) unfolding vmpu_ok_def by blast
  then have f: "mem_vmpu_find_overlapping_region v \<lparr>mpr_base = va, mpr_size = sz, mpr_flags = 0, mpr_sec = 0\<rparr> = Some i"
    using j by (simp add: mem_vmpu_find_overlapping_region_def)
  from unmap_region_ok [OF assms(1-5), of und] obtain s' w where
    u: "unmap_region und Vm_as va sz i s = Inr (s', sz)" "runs_vm s' w cpus 0" "vas_id w = vas_id v" "vmpu_range w = vmpu_range v - R"
    "guest_range (mc_mpu s') = guest_range (mc_mpu s) - R"
    "told s' = told s @ announce MEM_REMOVE_REGION v r cs @ announced v (rest_above r va sz) cs @ announced v (rest_below r va) cs"
    unfolding r_def R_def cs_def by (elim exE conjE)
  have "0 < sz" using assms(3) by (simp add: in_region_def word_neq_0_conv)
  have z: "unmap_range_loop und Vm_as va sz 0 s' = Some (Inr (s', 0))" by (subst unmap_range_loop.simps) simp
  have "unmap_range_loop und Vm_as va sz sz s = Some (Inr (s', 0))"
    using \<open>0 < sz\<close> A f u(1) z by (subst unmap_range_loop.simps) (simp add: get_as_def)
  then show ?thesis using u(2-6) by (intro exI [of _ s'] exI [of _ w]) (simp add: mem_unmap_range_def ended_def)
qed

section \<open>Mapping a region\<close>

lemma mem_map_ok:
  assumes "runs_vm s v cpus (length (other_cpus s cpus) + k)" "guest_region r" "mpr_size r mod PAGE_SIZE = 0" "free_mpes v \<noteq> {}"
    and "vmpu_range v \<inter> reg_range r = {}" "mpu_range (mc_mpu s) \<inter> reg_range r = {}" "spare (mc_mpu s) \<noteq> {}"
  shows "\<exists>s' w. mem_map_mpu und Vm_as r True s = Inr (s', True) \<and> runs_vm s' w cpus k \<and> vmpu_range w = vmpu_range v \<union> reg_range r
    \<and> guest_range (mc_mpu s') = guest_range (mc_mpu s) \<union> reg_range r
    \<and> told s' = told s @ announce MEM_INSERT_REGION v r (other_cpus s cpus)"
proof -
  note A = assms(1) [unfolded runs_vm_def] and f = assms(2) [unfolded guest_region_def region_fits_def]
  have len: "length (vmpu v) = VMPU_NUM_ENTRIES" and ok: "vmpu_ok v" using A by (simp_all add: vmpu_ok_def)
  have "reg_range r \<noteq> {}" using f by (simp add: reg_range_def unat_gt_0)
  have "\<not> mem_regions_overlap r (mpe_region (vmpu v ! j))" if "mpe_valid v j" for j
  proof
    assume "mem_regions_overlap r (mpe_region (vmpu v ! j))"
    moreover have "region_fits (mpe_region (vmpu v ! j))" using ok that by (simp add: vmpu_ok_def guest_region_def)
    ultimately have "reg_range r \<subseteq> mpe_range v j"
      using f unfolding mem_regions_overlap_def by (subst (asm) range_in_range_iff) (auto simp: region_fits_def reg_range_def mpe_range_def)
    then show False using \<open>reg_range r \<noteq> {}\<close> assms(5) that unfolding vmpu_range_def by blast
  qed
  then have no: "mem_vmpu_find_overlapping_region v r = None"
    using len by (auto simp: mem_vmpu_find_overlapping_region_def first_mpe_none mpe_valid_def)
  from allocate_ok [OF ok assms(4)] obtain w i where w: "mem_vmpu_allocate_entry v = (w, Some i)" "vmpu_ok w" "vmpu_range w = vmpu_range v"
    "i < VMPU_NUM_ENTRIES" "\<not> mpe_valid w i" "vas_id w = vas_id v" "vas_type w = vas_type v" by (elim exE conjE)
  define t where "t = s\<lparr>mc_vm := Some (w, cpus)\<rparr>"
  have t: "mc_mpu t = mc_mpu s" "told t = told s" "same_site t s" "runs_vm t w cpus (length (other_cpus s cpus) + k)"
    using A w(2,7) by (simp_all add: t_def told_def nodes_held_def same_site_def runs_vm_def)
  have o: "other_cpus t cpus = other_cpus s cpus" by (rule same_site_others [OF t(3)])
  have "card (spare (mc_mpu t)) > 0" using assms(7) t(1) by (simp add: card_gt_0_iff spare_def)
  then have rw: "vmpu_range w \<inter> reg_range r = {}" "mpu_range (mc_mpu t) \<inter> reg_range r = {}" "Suc 0 \<le> card (spare (mc_mpu t))"
    using assms(5,6) w(3) t(1) by simp_all
  from insert_ok [OF t(4) [folded o] w(4,5) assms(2) rw, of und] obtain s' w' where
    s': "mem_vmpu_insert_region und Vm_as (Some i) r True t = Inr (s', True)" "runs_vm s' w' cpus k"
    "vmpu_range w' = vmpu_range w \<union> reg_range r" "guest_range (mc_mpu s') = guest_range (mc_mpu t) \<union> reg_range r"
    "told s' = told t @ announce MEM_INSERT_REGION w r (other_cpus t cpus)" by (elim exE conjE)
  have "mem_map_mpu und Vm_as r True s = Inr (s', True)"
    using A f assms(3) no w(1) s'(1) by (simp add: mem_map_mpu_def get_as_def put_as_def t_def)
  then show ?thesis using s'(2-5) w(3) t(1,2) unfolding o
    by (intro exI [of _ s'] exI [of _ w']) (simp add: announce_id [OF w(6)])
qed

section \<open>The other cores follow\<close>

text \<open>The messages a core was sent between two states, and their handling in order.\<close>

definition sent_to :: "nat \<Rightarrow> mpu_core \<Rightarrow> mpu_core \<Rightarrow> (nat \<times> u32 \<times> u64) list" where
  "sent_to c s s' = List.filter (\<lambda>(d, _, _). d = c) (drop (length (mc_sent s)) (mc_sent s'))"

definition handle_all :: "u64 \<Rightarrow> (nat \<times> u32 \<times> u64) list \<Rightarrow> mpu_core \<Rightarrow> mpu_core res" where
  "handle_all und ms b = foldR (\<lambda>(_, op_id, n) b. mem_handle_broadcast_region und op_id n b) ms b"

definition resolve :: "(u64 \<Rightarrow> shared_region) \<Rightarrow> (nat \<times> u32 \<times> u64) list \<Rightarrow> (nat \<times> u32 \<times> shared_region) list" where
  "resolve nodes ms = List.map (\<lambda>(c, op_id, n). (c, op_id, nodes n)) ms"

definition follows :: "mpu_core \<Rightarrow> mpu_as \<Rightarrow> (nat \<times> u32 \<times> u64) list \<Rightarrow> bool" where
  "follows b v ms \<longleftrightarrow> (\<exists>w cpus. mc_vm b = Some (w, cpus) \<and> vas_type w = AS_VM \<and> vas_id w = vas_id v) \<and> pool_wf (mc_pool b)
    \<and> (\<forall>(c, op_id, n) \<in> set ms. n \<noteq> 0 \<and> n \<in> objects (mc_pool b))"

lemma sent_resolved:
  assumes "told s' = told s @ xs"
  shows "resolve (mc_nodes s') (sent_to c s s') = List.filter (\<lambda>(d, _, _). d = c) xs"
proof -
  have t: "told s = resolve (mc_nodes s) (mc_sent s)" "told s' = resolve (mc_nodes s') (mc_sent s')" by (simp_all add: told_def resolve_def)
  have "drop (length (mc_sent s)) (told s') = xs" unfolding assms by (simp add: t(1) resolve_def)
  then have "resolve (mc_nodes s') (drop (length (mc_sent s)) (mc_sent s')) = xs" unfolding t(2) by (simp add: resolve_def drop_map)
  moreover have "resolve nd (List.filter (\<lambda>(d, _, _). d = c) ms) = List.filter (\<lambda>(d, _, _). d = c) (resolve nd ms)" for nd ms
    by (induction ms) (auto simp: resolve_def)
  ultimately show ?thesis by (simp add: sent_to_def)
qed

lemma announce_to:
  assumes "c \<in> set cs" "distinct cs"
  shows "List.filter (\<lambda>(d, _, _). d = c) (announce op_id v r cs) = announce op_id v r [c]"
    and "List.filter (\<lambda>(d, _, _). d = c) (announced v r cs) = announced v r [c]"
proof -
  have "List.filter (\<lambda>(d, _, _). d = c) (announce op_id v r cs) = announce op_id v r [c]" for op_id
    using assms by (induction cs) (auto simp: announce_def filter_empty_conv)
  then show "List.filter (\<lambda>(d, _, _). d = c) (announce op_id v r cs) = announce op_id v r [c]"
    "List.filter (\<lambda>(d, _, _). d = c) (announced v r cs) = announced v r [c]" by (simp_all add: announced_def)
qed

lemma handled:
  assumes "follows b v ((c, op_id, n) # ms)" "mc_nodes b n = \<lparr>sh_as_type = AS_VM, sh_asid = vas_id v, sh_region = r\<rparr>"
    and "op_id = MEM_INSERT_REGION \<and> mpu_map und PRIV_VM r (mc_mpu b) = Inr (p, x)
      \<or> op_id = MEM_REMOVE_REGION \<and> mpu_unmap und PRIV_VM r (mc_mpu b) = Inr (p, x)"
  shows "\<exists>b'. mem_handle_broadcast_region und op_id n b = Inr b' \<and> follows b' v ms \<and> mc_nodes b' = mc_nodes b \<and> mc_mpu b' = p"
proof -
  note A = assms(1) [unfolded follows_def]
  obtain w cpus where w: "mc_vm b = Some (w, cpus)" "vas_type w = AS_VM" "vas_id w = vas_id v" using A by blast
  have n: "n \<noteq> 0" "n \<in> objects (mc_pool b)" "pool_wf (mc_pool b)" using A by simp_all
  from free_object [OF n(3,2)] obtain q where q: "objpool_free (mc_pool b) n = Inr q" "objects q = objects (mc_pool b)" "pool_wf q" by blast
  let ?b = "b\<lparr>mc_mpu := p, mc_pool := q\<rparr>"
  have pr: "as_priv w = PRIV_VM" using w(2) by (simp add: as_priv_def)
  have "mem_handle_broadcast_region und op_id n b = Inr ?b"
    using assms(2,3) w n(1) q(1) pr by (auto simp: mem_handle_broadcast_region_def get_as_def Let_def mem_handle_broadcast_insert_def
        mem_handle_broadcast_remove_def MEM_INSERT_REGION_def MEM_REMOVE_REGION_def)
  moreover have "follows ?b v ms" using A q(2,3) unfolding follows_def by (auto simp: w)
  ultimately show ?thesis by (intro exI [of _ ?b]) simp
qed

lemma handle_insert:
  assumes "follows b v (ms1 @ ms)" "resolve (mc_nodes b) ms1 = announced v r [c]" "mpr_size r \<noteq> 0 \<longrightarrow> guest_region r"
    and "mpu_good (mc_mpu b)" "mpu_range (mc_mpu b) \<inter> reg_range r = {}" "Suc n \<le> card (spare (mc_mpu b))"
  shows "\<exists>b'. handle_all und ms1 b = Inr b' \<and> follows b' v ms \<and> mc_nodes b' = mc_nodes b \<and> mpu_good (mc_mpu b')
    \<and> mpu_range (mc_mpu b') = mpu_range (mc_mpu b) \<union> reg_range r \<and> guest_range (mc_mpu b') = guest_range (mc_mpu b) \<union> reg_range r
    \<and> n \<le> card (spare (mc_mpu b'))"
proof (cases "mpr_size r = 0")
  case True
  then have "ms1 = []" "reg_range r = {}" using assms(2) by (simp_all add: announced_def resolve_def reg_range_def)
  then show ?thesis using assms by (intro exI [of _ b]) (simp add: handle_all_def)
next
  case False
  then obtain a where a: "ms1 = [(c, MEM_INSERT_REGION, a)]" "mc_nodes b a = \<lparr>sh_as_type = AS_VM, sh_asid = vas_id v, sh_region = r\<rparr>"
    using assms(2) by (auto simp: announced_def announce_def resolve_def)
  let ?p = "mc_mpu b"
  have r: "region_fits r" "bit (fl_prbar (mpr_flags r)) 2 \<longleftrightarrow> PRIV_VM = PRIV_VM" using assms(3) False by (simp_all add: guest_region_def)
  have "spare ?p \<noteq> {}" using assms(6) by auto
  then obtain i0 where i0: "i0 < mpu_num_entries ?p" "\<not> bm_bit (mpu_bitmap ?p) i0" by (auto simp: spare_def)
  from mpu_map_facts [OF assms(4) r(1) assms(5) r(2) i0, of und] obtain p' where
    p': "mpu_map und PRIV_VM r ?p = Inr (p', True)" "mpu_good p'" "mpu_range p' = mpu_range ?p \<union> reg_range r"
    "guest_range p' = guest_range ?p \<union> (if PRIV_VM = PRIV_VM then reg_range r else {})"
    "\<exists>k. \<forall>j. bm_bit (mpu_bitmap p') j \<longrightarrow> j = k \<or> bm_bit (mpu_bitmap ?p) j" "mpu_num_entries p' = mpu_num_entries ?p"
    by (elim exE conjE) (rule that, assumption, assumption, assumption, assumption, blast, assumption)
  have "follows b v ((c, MEM_INSERT_REGION, a) # ms)" using assms(1) a(1) by simp
  from handled [OF this a(2)] p'(1) obtain b' where b': "mem_handle_broadcast_region und MEM_INSERT_REGION a b = Inr b'" "follows b' v ms"
    "mc_nodes b' = mc_nodes b" "mc_mpu b' = p'" by blast
  have "n \<le> card (spare p')"
  proof -
    from assms(6) obtain m where "card (spare ?p) = Suc m" "n \<le> m" by (cases "card (spare ?p)") auto
    then show ?thesis using spare_shrink [OF _ p'(5,6)] by fastforce
  qed
  then show ?thesis using a(1) b' p'(2-4) by (intro exI [of _ b']) (simp add: handle_all_def)
qed

lemma handle_remove:
  assumes "follows b v (ms1 @ ms)" "resolve (mc_nodes b) ms1 = announce MEM_REMOVE_REGION v r [c]" "guest_region r" "separable (mc_mpu b) (reg_range r)"
  shows "\<exists>b'. handle_all und ms1 b = Inr b' \<and> follows b' v ms \<and> mc_nodes b' = mc_nodes b \<and> mpu_good (mc_mpu b') \<and> 2 \<le> card (spare (mc_mpu b'))
    \<and> mpu_range (mc_mpu b') \<inter> reg_range r = {} \<and> guest_range (mc_mpu b') = guest_range (mc_mpu b) - reg_range r"
proof -
  obtain a where a: "ms1 = [(c, MEM_REMOVE_REGION, a)]" "mc_nodes b a = \<lparr>sh_as_type = AS_VM, sh_asid = vas_id v, sh_region = r\<rparr>"
    using assms(2) by (auto simp: announce_def resolve_def)
  let ?p = "mc_mpu b"
  note S = assms(4) [unfolded separable_def]
  have h: "mpu_good ?p" "accurate ?p" "region_fits r" "PRIV_VM \<in> {PRIV_HYP, PRIV_VM}" using S assms(3) by (simp_all add: guest_region_def)
  have w: "\<forall>j. j < mpu_num_entries ?p \<longrightarrow> mpu_entry_valid ?p j \<longrightarrow> has_side ?p j PRIV_VM \<longrightarrow> ent ?p j \<subseteq> reg_range r \<or> ent ?p j \<inter> reg_range r = {}"
    using S by (simp add: whole_entries_def)
  from mpu_unmap_facts [OF h w, of und] obtain p' x where p': "mpu_unmap und PRIV_VM r ?p = Inr (p', x)" "mpu_good p'" "accurate p'"
    "guest_range p' = guest_range ?p - (if PRIV_VM = PRIV_VM then reg_range r else {})"
    "side_range p' PRIV_HYP = side_range ?p PRIV_HYP - (if PRIV_VM = PRIV_HYP then reg_range r else {})"
    "\<forall>k. bm_bit (mpu_bitmap p') k \<longrightarrow> bm_bit (mpu_bitmap ?p) k" "mpu_num_entries p' = mpu_num_entries ?p" by (elim exE conjE)
  have "follows b v ((c, MEM_REMOVE_REGION, a) # ms)" using assms(1) a(1) by simp
  from handled [OF this a(2)] p'(1) obtain b' where b': "mem_handle_broadcast_region und MEM_REMOVE_REGION a b = Inr b'" "follows b' v ms"
    "mc_nodes b' = mc_nodes b" "mc_mpu b' = p'" by blast
  have "card (spare ?p) \<le> card (spare p')" using p'(6,7) by (intro card_mono) (auto simp: spare_def)
  moreover have "mpu_range p' \<inter> reg_range r = {}" using range_sides [OF p'(2,3)] p'(4,5) S by auto
  ultimately show ?thesis using a(1) b' p'(2,4) S by (intro exI [of _ b']) (simp add: handle_all_def)
qed

lemma handle_all_append: "handle_all und (ms @ ms') b = bindR (handle_all und ms b) (handle_all und ms')"
  by (simp add: handle_all_def [abs_def] foldR_append del: bindR_eq_Inr Inr_eq_bindR)

lemma resolve_append3:
  assumes "resolve nd ms = xs @ ys @ zs"
  shows "\<exists>m1 m2 m3. ms = m1 @ m2 @ m3 \<and> resolve nd m1 = xs \<and> resolve nd m2 = ys \<and> resolve nd m3 = zs"
proof -
  obtain us vs where a: "ms = us @ vs" "xs = resolve nd us" "ys @ zs = resolve nd vs"
    using assms unfolding resolve_def map_eq_append_conv by (elim exE conjE)
  obtain us' vs' where b: "vs = us' @ vs'" "ys = resolve nd us'" "zs = resolve nd vs'"
    using a(3) [symmetric] unfolding resolve_def map_eq_append_conv by (elim exE conjE)
  show ?thesis using a b by blast
qed

lemma handle_unmap:
  assumes "follows b v ms" "guest_region r" "in_region va sz r" "separable (mc_mpu b) (reg_range r)"
    and "resolve (mc_nodes b) ms = announce MEM_REMOVE_REGION v r [c] @ announced v (rest_above r va sz) [c] @ announced v (rest_below r va) [c]"
  defines "R \<equiv> {unat va ..< unat va + unat sz}"
  shows "\<exists>b'. handle_all und ms b = Inr b' \<and> guest_range (mc_mpu b') = guest_range (mc_mpu b) - R"
proof -
  let ?a = "rest_above r va sz" and ?b = "rest_below r va" and ?N = "mc_nodes b"
  note F = rests [OF assms(2,3), folded R_def]
  have fits: "mpr_size ?a \<noteq> 0 \<longrightarrow> guest_region ?a" "mpr_size ?b \<noteq> 0 \<longrightarrow> guest_region ?b" using F(4,5) by blast+
  obtain m1 m2 m3 where m: "ms = m1 @ m2 @ m3" "resolve ?N m1 = announce MEM_REMOVE_REGION v r [c]" "resolve ?N m2 = announced v ?a [c]"
    "resolve ?N m3 = announced v ?b [c]" using resolve_append3 [OF assms(5)] by blast
  have parts: "reg_range ?a \<subseteq> reg_range r" "reg_range ?b \<subseteq> reg_range r" using F(1) by blast+
  from handle_remove [OF assms(1) [unfolded m(1)] m(2) assms(2,4), of und] obtain b1 where
    b1: "handle_all und m1 b = Inr b1" "follows b1 v (m2 @ m3)" "mc_nodes b1 = ?N" "mpu_good (mc_mpu b1)" "2 \<le> card (spare (mc_mpu b1))"
    "mpu_range (mc_mpu b1) \<inter> reg_range r = {}" "guest_range (mc_mpu b1) = guest_range (mc_mpu b) - reg_range r" by (elim exE conjE)
  have p1: "mpu_range (mc_mpu b1) \<inter> reg_range ?a = {}" "Suc (Suc 0) \<le> card (spare (mc_mpu b1))" using b1(5,6) parts by auto
  from handle_insert [OF b1(2) m(3) [folded b1(3)] fits(1) b1(4) p1, of und] obtain b2 where
    b2: "handle_all und m2 b1 = Inr b2" "follows b2 v m3" "mc_nodes b2 = mc_nodes b1" "mpu_good (mc_mpu b2)"
    "mpu_range (mc_mpu b2) = mpu_range (mc_mpu b1) \<union> reg_range ?a" "guest_range (mc_mpu b2) = guest_range (mc_mpu b1) \<union> reg_range ?a"
    "Suc 0 \<le> card (spare (mc_mpu b2))" by (elim exE conjE)
  have n2: "mc_nodes b2 = ?N" using b2(3) b1(3) by simp
  have p2: "mpu_range (mc_mpu b2) \<inter> reg_range ?b = {}" using b1(6) b2(5) parts F(2) by blast
  have f3: "follows b2 v (m3 @ [])" using b2(2) by simp
  from handle_insert [OF f3 m(4) [folded n2] fits(2) b2(4) p2 b2(7), of und] obtain b3 where
    b3: "handle_all und m3 b2 = Inr b3" "guest_range (mc_mpu b3) = guest_range (mc_mpu b2) \<union> reg_range ?b" by (elim exE conjE)
  have "handle_all und ms b = Inr b3" using b1(1) b2(1) b3(1) unfolding m(1) by (simp add: handle_all_append)
  moreover have "guest_range (mc_mpu b3) = guest_range (mc_mpu b) - R"
    unfolding b3(2) b2(6) b1(7) using F(1,3) assms(4) unfolding separable_def by blast
  ultimately show ?thesis by blast
qed

lemma sent_held:
  assumes "runs_vm s' w cpus k"
  shows "\<forall>(c, op_id, n) \<in> set (sent_to c s s'). n \<noteq> 0 \<and> n \<in> objects (mc_pool s')"
proof -
  have "set (sent_to c s s') \<subseteq> set (mc_sent s')" by (auto simp: sent_to_def dest: in_set_dropD)
  moreover have "\<forall>(c, op_id, n) \<in> set (mc_sent s'). n \<in> objects (mc_pool s')" "0 \<notin> objects (mc_pool s')"
    using assms in_use_objects by (fastforce simp: runs_vm_def nodes_held_def send_room_def node_room_def)+
  ultimately show ?thesis by fastforce
qed

text \<open>
  C36. On a system with an MPU, a range inside one region of a VM that is unmapped (\<open>mem_unmap_range\<close>) is lost by exactly its
  addresses, on every core: the regions of the address space, what the guest reaches on the core that unmaps, and, once
  another core of the VM has handled the messages sent to it in order, what the guest reaches there. The hypotheses
  are that both MPUs hold the region in entries of its own for the guest alone, with two free entries, that the
  address space has one, and that there are three nodes for each other core both in the pool of shared regions and
  in that of the messages, whose exhaustion stops the hypervisor.
\<close>

theorem unmap_range_followed:
  assumes "runs_vm s v cpus (3 * length (other_cpus s cpus))" "free_mpes v \<noteq> {}"
    and "mpe_valid v i" "in_region va sz (mpe_region (vmpu v ! i))"
    and "separable (mc_mpu s) (mpe_range v i)" "separable (mc_mpu b) (mpe_range v i)" "c \<in> set (other_cpus s cpus)"
  defines "R \<equiv> {unat va ..< unat va + unat sz}"
  shows "\<exists>s' w b'. mem_unmap_range und Vm_as va sz x s = Inr (s', True) \<and> mc_vm s' = Some (w, cpus)
    \<and> vmpu_range w = vmpu_range v - R \<and> guest_range (mc_mpu s') = guest_range (mc_mpu s) - R
    \<and> handle_all und (sent_to c s s') (b\<lparr>mc_vm := mc_vm s', mc_pool := mc_pool s', mc_nodes := mc_nodes s'\<rparr>) = Inr b'
    \<and> guest_range (mc_mpu b') = guest_range (mc_mpu b) - R"
proof -
  let ?r = "mpe_region (vmpu v ! i)" and ?cs = "other_cpus s cpus"
  have g: "guest_region ?r" using assms(1,3) by (simp add: runs_vm_def vmpu_ok_def)
  have dis: "distinct ?cs" by (simp add: other_cpus_def)
  from mem_unmap_range_ok [OF assms(1,3,4,5,2), of und x] obtain s' w where
    s': "mem_unmap_range und Vm_as va sz x s = Inr (s', True)" "runs_vm s' w cpus 0" "vas_id w = vas_id v" "vmpu_range w = vmpu_range v - R"
    "guest_range (mc_mpu s') = guest_range (mc_mpu s) - R"
    "told s' = told s @ announce MEM_REMOVE_REGION v ?r ?cs @ announced v (rest_above ?r va sz) ?cs @ announced v (rest_below ?r va) ?cs"
    unfolding R_def by (elim exE conjE)
  let ?b = "b\<lparr>mc_vm := mc_vm s', mc_pool := mc_pool s', mc_nodes := mc_nodes s'\<rparr>"
  have res: "resolve (mc_nodes ?b) (sent_to c s s') = announce MEM_REMOVE_REGION v ?r [c] @ announced v (rest_above ?r va sz) [c] @ announced v (rest_below ?r va) [c]"
    using sent_resolved [OF s'(6), of c] announce_to [OF assms(7) dis] by simp
  have "follows ?b v (sent_to c s s')" using s'(2,3) sent_held [OF s'(2), of c s] by (auto simp: follows_def runs_vm_def send_room_def node_room_def)
  from handle_unmap [OF this g assms(4) _ res, of und] assms(6) obtain b' where
    "handle_all und (sent_to c s s') ?b = Inr b'" "guest_range (mc_mpu b') = guest_range (mc_mpu b) - R"
    by (auto simp: mpe_range_def R_def)
  then show ?thesis using s'(1,2,4,5) by (intro exI [of _ s'] exI [of _ w] exI [of _ b']) (simp add: runs_vm_def)
qed

text \<open>Two cores with the MPU of \<open>demo_mpu\<close> run a VM whose one region is its two pages; the second page is unmapped.\<close>

definition demo_mpu_vm :: mpu_as where
  "demo_mpu_vm = \<lparr>vas_id = 1, vas_type = AS_VM, vas_colors = 0,
     vmpu = (replicate 64 \<lparr>mpe_st = MPE_S_FREE, mpe_region = demo_region 0\<rparr>)
       [0 := \<lparr>mpe_st = MPE_S_VALID, mpe_region = (demo_region 0x100000)\<lparr>mpr_size := 0x2000\<rparr>\<rparr>]\<rparr>"

definition demo_core :: "nat \<Rightarrow> mpu_core" where
  "demo_core c = \<lparr>mc_id = c, mc_cpus = 2, mc_as = demo_mpu_vm\<lparr>vas_type := AS_HYP\<rparr>, mc_vm = Some (demo_mpu_vm, 3), mc_mpu = demo_mpu,
     mc_pool = OBJPOOL_ALLOC 0x80220000 40 128, mc_nodes = (\<lambda>_. \<lparr>sh_as_type = AS_VM, sh_asid = 0, sh_region = demo_region 0\<rparr>),
     mc_msgs = boot_msgs, mc_sync = 2, mc_sent = [], mc_pages = []\<rparr>"

lemma demo_mpu_vm_entries:
  "length (vmpu demo_mpu_vm) = VMPU_NUM_ENTRIES" "mpe_valid demo_mpu_vm i \<longleftrightarrow> i = 0" "vas_type demo_mpu_vm = AS_VM"
  "mpe_region (vmpu demo_mpu_vm ! 0) = (demo_region 0x100000)\<lparr>mpr_size := 0x2000\<rparr>" "mpe_range demo_mpu_vm 0 = {0x100000..<0x102000}" "1 \<in> free_mpes demo_mpu_vm"
  by (auto simp: demo_mpu_vm_def VMPU_NUM_ENTRIES_def mpe_valid_def nth_list_update mpe_range_def reg_range_def demo_region_def free_mpes_def)

lemma demo_mpu_vm_ok: "vmpu_ok demo_mpu_vm"
proof -
  have "guest_region ((demo_region 0x100000)\<lparr>mpr_size := 0x2000\<rparr>)"
    by (simp add: guest_region_def region_fits_def demo_region_def fl_prbar_def fl_prlar_def take_bit_eq_mod bit_iff_odd)
  then show ?thesis by (simp add: vmpu_ok_def demo_mpu_vm_entries)
qed

lemma demo_separable: "separable demo_mpu {0x100000..<0x102000}"
proof -
  have side: "has_side demo_mpu 0 PRIV_HYP" "\<not> has_side demo_mpu 0 PRIV_VM" "has_side demo_mpu 1 PRIV_VM" "\<not> has_side demo_mpu 1 PRIV_HYP"
    by (simp_all add: has_side_def demo_mpu_list [unfolded One_nat_def] demo_mpu_list PERM_NONE_def)
  have e: "ent demo_mpu 0 = {0x8000..<0xC000}" "ent demo_mpu 1 = {0x100000..<0x102000}" by (simp_all add: ent_def demo_mpu_regs [unfolded One_nat_def] demo_mpu_regs)
  have "side_range demo_mpu PRIV_HYP = {0x8000..<0xC000}" 
  proof -
    have "{i \<in> set [0, 1]. has_side demo_mpu i PRIV_HYP} = {0}" using side by auto
    then show ?thesis unfolding side_range_list [OF demo_mpu_ok] using e by simp
  qed
  moreover have "accurate demo_mpu" unfolding accurate_def demo_mpu_regs(2) using side demo_mpu_regs(7,8) by auto
  moreover have "whole_entries demo_mpu {0x100000..<0x102000}" unfolding whole_entries_def demo_mpu_regs(2) using side e by auto
  moreover have "mpu_good demo_mpu" using demo_mpu_ok by (auto simp: mpu_good_def)
  moreover have "{2, 3} \<subseteq> spare demo_mpu" by (simp add: spare_def demo_mpu_regs(1) demo_mpu_list bm_bit_def bit_iff_odd)
  then have "card {2, 3 :: nat} \<le> card (spare demo_mpu)" by (intro card_mono) (simp_all add: spare_def)
  ultimately show ?thesis by (simp add: separable_def demo_mpu_ranges)
qed

lemma demo_node_room: "node_room (OBJPOOL_ALLOC 0x80220000 40 128) 3"
proof -
  let ?q = "OBJPOOL_ALLOC 0x80220000 40 128"
  have st: "pool_wf ?q" "in_use ?q = {}" by (rule static_pool; simp)+
  have "0 \<noteq> obj_addr ?q i" if "i < num ?q" for i using unat_obj_addr [OF st(1), of i] that by (auto simp: OBJPOOL_ALLOC_def)
  then have "0 \<notin> objects ?q" by (auto simp: objects_def)
  then show ?thesis using st card_objects [OF st(1)] by (simp add: node_room_def OBJPOOL_ALLOC_def)
qed

lemma unmap_range_followed_witness:
  "\<exists>s' w b'. mem_unmap_range 0 Vm_as 0x101000 0x1000 True (demo_core 0) = Inr (s', True) \<and> mc_vm s' = Some (w, 3)
    \<and> vmpu_range w = {0x100000..<0x101000} \<and> guest_range (mc_mpu s') = {0x100000..<0x101000}
    \<and> handle_all 0 (sent_to 1 (demo_core 0) s') (demo_core 1\<lparr>mc_vm := mc_vm s', mc_pool := mc_pool s', mc_nodes := mc_nodes s'\<rparr>) = Inr b'
    \<and> guest_range (mc_mpu b') = {0x100000..<0x101000}"
proof -
  have o: "other_cpus (demo_core 0) 3 = [1]" by (simp add: other_cpus_def demo_core_def upt_rec bit_iff_odd)
  have "msg_room (demo_core 0) 3" unfolding msg_room_def
    using boot_mailboxes by (auto simp: demo_core_def boot_msgs_def ncpus_def waiting_def OBJPOOL_ALLOC_def CPU_MSG_POOL_SIZE_def intro!: exI [of _ "\<lambda>_. []"])
  then have s: "runs_vm (demo_core 0) demo_mpu_vm 3 (3 * length (other_cpus (demo_core 0) 3))"
    unfolding o using demo_mpu_vm_ok demo_node_room demo_separable
    by (simp add: runs_vm_def send_room_def demo_mpu_vm_entries nodes_held_def separable_def) (simp add: demo_core_def)
  have sep: "separable (mc_mpu (demo_core c)) (mpe_range demo_mpu_vm 0)" for c using demo_separable by (simp add: demo_core_def demo_mpu_vm_entries(5))
  have f: "free_mpes demo_mpu_vm \<noteq> {}" using demo_mpu_vm_entries(6) by blast
  have v: "mpe_valid demo_mpu_vm 0" by (simp add: demo_mpu_vm_entries(2))
  have r: "in_region 0x101000 0x1000 (mpe_region (vmpu demo_mpu_vm ! 0))"
    unfolding demo_mpu_vm_entries(4) by (simp add: in_region_def demo_region_def take_bit_eq_mod)
  have c: "1 \<in> set (other_cpus (demo_core 0) 3)" unfolding o by simp
  have "vmpu_range demo_mpu_vm = {0x100000..<0x102000}" by (simp add: vmpu_range_def demo_mpu_vm_entries(2,5))
  moreover have "{0x100000..<0x102000} - {unat (0x101000 :: u64)..<unat (0x101000 :: u64) + unat (0x1000 :: u64)} = {0x100000..<0x101000}" by auto
  moreover have "guest_range (mc_mpu (demo_core c)) = {0x100000..<0x102000}" for c by (simp add: demo_core_def demo_mpu_ranges)
  ultimately show ?thesis using unmap_range_followed [OF s f v r sep sep c, of 0 True 1] by simp
qed

end
