(* ===== verification/Armv8_Vm.thy ===== *)
theory Armv8_Vm
  imports Vm_Core
begin

text \<open>
  The Armv8 (AArch64) vCPU: \<open>src/arch/armv8/vm.c\<close>, \<open>src/arch/armv8/aarch64/vm.c\<close>, the power
  management calls of \<open>src/arch/armv8/psci.c\<close> and \<open>armv8-a/psci.c\<close>, and the synchronous traps of
  \<open>src/arch/armv8/aborts.c\<close>. What both architectures share of a VM is the record \<open>vm\<close>, whose RISC-V
  vCPUs are not used here. The interrupt controller is left out.
\<close>

section \<open>The vCPU\<close>

record arm_regs =
  gpr_x :: "u64 list"
  elr_el2 :: u64
  spsr_el2 :: u64

datatype psci_state = ON | OFF | ON_PENDING

record psci_ctx =
  entrypoint :: u64
  context_id :: u64
  psci_st :: psci_state

record arm_vcpu =
  av_id :: vcpuid
  av_regs :: arm_regs
  vmpidr :: u64
  psci :: psci_ctx

text \<open>The system registers of a core that starting a vCPU writes, and those of the hypervisor.\<close>

record el1_sysregs =
  vmpidr_el2 :: u64
  cntvoff_el2 :: u64
  sctlr_el1 :: u64
  cntkctl_el1 :: u64
  pmcr_el0 :: u64

record el2_sysregs =
  tcr_el2 :: u64
  ttbr0_el2 :: u64
  mair_el2 :: u64
  cptr_el2 :: u64
  hcr_el2 :: u64
  vtcr_el2 :: u64
  vttbr_el2 :: u64

datatype wakeup_reason = PSCI_WAKEUP_CPU_OFF | PSCI_WAKEUP_POWERDOWN | PSCI_WAKEUP_IDLE

record psci_off_state =
  off_el2 :: el2_sysregs
  off_vmpidr :: u64
  off_reason :: wakeup_reason
  off_flat_map :: paddr

text \<open>A core that may run a vCPU, named by its place in the VM, and the VM.\<close>

record 'h arm_core =
  ac_vcpu :: "nat option"
  ac_vm :: "'h vm"
  ac_vcpus :: "arm_vcpu list"
  ac_el1 :: el1_sysregs
  ac_el2 :: el2_sysregs
  ac_off :: psci_off_state
  ac_msgs :: msg_state

definition MPIDR_RES1 :: u32 where "MPIDR_RES1 = 0x80000000"
definition MPIDR_RES0_MSK :: u64 where "MPIDR_RES0_MSK = NOT (push_bit 25 0x1f)"
definition MPIDR_U_BIT :: u64 where "MPIDR_U_BIT = push_bit 30 1"
definition MPIDR_AFF_MSK :: u64 where "MPIDR_AFF_MSK = 0xffff"
definition SPSR_EL1h :: u64 where "SPSR_EL1h = 5"
definition SPSR_F :: u64 where "SPSR_F = push_bit 6 1"
definition SPSR_I :: u64 where "SPSR_I = push_bit 7 1"
definition SPSR_A :: u64 where "SPSR_A = push_bit 8 1"
definition SPSR_D :: u64 where "SPSR_D = push_bit 9 1"
definition SCTLR_RES1 :: u64 where "SCTLR_RES1 = 0x30C50830"

definition vcpu_readreg_arm :: "arm_vcpu \<Rightarrow> nat \<Rightarrow> u64" where
  "vcpu_readreg_arm u reg = (if 30 < reg then 0 else gpr_x (av_regs u) ! reg)"

definition vcpu_writereg_arm :: "arm_vcpu \<Rightarrow> nat \<Rightarrow> u64 \<Rightarrow> arm_vcpu" where
  "vcpu_writereg_arm u reg val =
    (if 30 < reg then u else u\<lparr>av_regs := (av_regs u)\<lparr>gpr_x := (gpr_x (av_regs u))[reg := val]\<rparr>\<rparr>)"

definition vcpu_readpc_arm :: "arm_vcpu \<Rightarrow> u64" where
  "vcpu_readpc_arm u = elr_el2 (av_regs u)"

definition vcpu_writepc_arm :: "arm_vcpu \<Rightarrow> u64 \<Rightarrow> arm_vcpu" where
  "vcpu_writepc_arm u pc = u\<lparr>av_regs := (av_regs u)\<lparr>elr_el2 := pc\<rparr>\<rparr>"

definition vcpu_subarch_reset :: "arm_vcpu \<Rightarrow> arm_vcpu" where
  "vcpu_subarch_reset u = u\<lparr>av_regs := (av_regs u)\<lparr>spsr_el2 := SPSR_EL1h OR SPSR_F OR SPSR_I OR SPSR_A OR SPSR_D\<rparr>\<rparr>"

definition vm_cpuid_to_mpidr :: "'h vm \<Rightarrow> vcpuid \<Rightarrow> u64" where
  "vm_cpuid_to_mpidr v i =
    (if vm_cpu_num v < i then NOT (ucast (NOT MPIDR_RES1) AND MPIDR_RES0_MSK)
     else
       let mpidr = of_nat i OR ucast MPIDR_RES1 in
       if vm_cpu_num v = 1 then mpidr OR MPIDR_U_BIT else mpidr)"

definition vm_get_vcpu_by_mpidr :: "'h vm \<Rightarrow> arm_vcpu list \<Rightarrow> u64 \<Rightarrow> nat option" where
  "vm_get_vcpu_by_mpidr v us mpidr =
    find (\<lambda>i. vmpidr (us ! i) AND MPIDR_AFF_MSK = mpidr AND MPIDR_AFF_MSK) [0..<vm_cpu_num v]"

text \<open>The first part of \<open>vcpu_arch_init\<close>, before the memory and the interrupts of the vCPU are set up.\<close>

definition vcpu_arch_init_arm :: "'h vm \<Rightarrow> arm_vcpu \<Rightarrow> el1_sysregs \<Rightarrow> arm_vcpu \<times> el1_sysregs" where
  "vcpu_arch_init_arm v u r =
    (let u = u\<lparr>vmpidr := vm_cpuid_to_mpidr v (av_id u)\<rparr> in
     (u\<lparr>psci := (psci u)\<lparr>psci_st := (if av_id u = 0 then ON else OFF)\<rparr>\<rparr>, r\<lparr>vmpidr_el2 := vmpidr u\<rparr>))"

definition vcpu_arch_reset_arm :: "arm_vcpu \<Rightarrow> vaddr \<Rightarrow> el1_sysregs \<Rightarrow> arm_vcpu \<times> el1_sysregs" where
  "vcpu_arch_reset_arm u entry r =
    (let u = u\<lparr>av_regs := \<lparr>gpr_x = replicate 31 0, elr_el2 = 0, spsr_el2 = 0\<rparr>\<rparr>;
         u = vcpu_writepc_arm (vcpu_subarch_reset u) entry in
     (u, r\<lparr>cntvoff_el2 := 0, sctlr_el1 := SCTLR_RES1, cntkctl_el1 := 0, pmcr_el0 := 0\<rparr>))"

definition vcpu_psci_state_on :: "arm_vcpu \<Rightarrow> bool" where
  "vcpu_psci_state_on u \<longleftrightarrow> psci_st (psci u) = ON"

definition vcpu_arch_run_arm :: "arm_vcpu \<Rightarrow> run_choice" where
  "vcpu_arch_run_arm u = (if vcpu_psci_state_on u then Enter_guest else Cpu_idle)"

section \<open>Power management\<close>

definition PSCI_VERSION :: u32 where "PSCI_VERSION = 0x84000000"
definition PSCI_CPU_SUSPEND_SMC32 :: u32 where "PSCI_CPU_SUSPEND_SMC32 = 0x84000001"
definition PSCI_CPU_SUSPEND_SMC64 :: u32 where "PSCI_CPU_SUSPEND_SMC64 = 0xc4000001"
definition PSCI_CPU_OFF :: u32 where "PSCI_CPU_OFF = 0x84000002"
definition PSCI_CPU_ON_SMC32 :: u32 where "PSCI_CPU_ON_SMC32 = 0x84000003"
definition PSCI_CPU_ON_SMC64 :: u32 where "PSCI_CPU_ON_SMC64 = 0xc4000003"
definition PSCI_AFFINITY_INFO_SMC32 :: u32 where "PSCI_AFFINITY_INFO_SMC32 = 0x84000004"
definition PSCI_AFFINITY_INFO_SMC64 :: u32 where "PSCI_AFFINITY_INFO_SMC64 = 0xc4000004"
definition PSCI_FEATURES :: u32 where "PSCI_FEATURES = 0x8400000A"
definition PSCI_MIG_INFO_TYPE :: u32 where "PSCI_MIG_INFO_TYPE = 0x84000006"
definition PSCI_TOS_NOT_PRESENT_MP :: u32 where "PSCI_TOS_NOT_PRESENT_MP = 2"
definition PSCI_VERSION_0_2 :: u32 where "PSCI_VERSION_0_2 = 2"
definition PSCI_E_SUCCESS :: u32 where "PSCI_E_SUCCESS = 0"
definition PSCI_E_NOT_SUPPORTED :: u32 where "PSCI_E_NOT_SUPPORTED = - 1"
definition PSCI_E_INVALID_PARAMS :: u32 where "PSCI_E_INVALID_PARAMS = - 2"
definition PSCI_E_ALREADY_ON :: u32 where "PSCI_E_ALREADY_ON = - 4"
definition PSCI_MSG_ON :: u32 where "PSCI_MSG_ON = 0"
definition PSCI_STATE_TYPE_BIT :: u32 where "PSCI_STATE_TYPE_BIT = push_bit 16 1"
definition PSCI_STATE_TYPE_POWERDOWN :: u32 where "PSCI_STATE_TYPE_POWERDOWN = 1"

text \<open>
  What the model takes from outside: the number the linker gave the message handler, the address
  translation of the hypervisor, and the firmware's answer to a suspend request; \<open>None\<close> means that the core is
  powered down, and starts again in \<open>psci_wake\<close>.
\<close>

record arm_env =
  PSCI_CPUSMG_ID :: u32
  hyp_pa :: "vaddr \<Rightarrow> paddr"
  va_flat_pt :: vaddr
  va_off_state :: vaddr
  va_boot_entry :: vaddr
  fw_suspend :: "u32 \<Rightarrow> paddr \<Rightarrow> paddr \<Rightarrow> u32 option"

text \<open>How a call ends: with a result for the guest, or without returning to its caller.\<close>

datatype psci_end = Psci_ret u32 | Psci_idle | Psci_powered_down

definition this_arm :: "'h arm_core \<Rightarrow> arm_vcpu res" where
  "this_arm c = (case ac_vcpu c of None \<Rightarrow> Inl Null_deref | Some i \<Rightarrow> rd (ac_vcpus c) i)"

definition set_arm :: "nat \<Rightarrow> arm_vcpu \<Rightarrow> 'h arm_core \<Rightarrow> 'h arm_core res" where
  "set_arm i u c = bindR (wr (ac_vcpus c) i u) (\<lambda>us. Inr (c\<lparr>ac_vcpus := us\<rparr>))"

definition psci_wake_from_off :: "'h arm_core \<Rightarrow> 'h arm_core res" where
  "psci_wake_from_off c =
    (case ac_vcpu c of
       None \<Rightarrow> Inr c
     | Some i \<Rightarrow>
         bindR (this_arm c) (\<lambda>u.
         if psci_st (psci u) = ON_PENDING then
           let (u, r) = vcpu_arch_reset_arm u (entrypoint (psci u)) (ac_el1 c);
               u = u\<lparr>psci := (psci u)\<lparr>psci_st := ON\<rparr>\<rparr>;
               u = vcpu_writereg_arm u 0 (context_id (psci u)) in
           set_arm i u (c\<lparr>ac_el1 := r\<rparr>)
         else Inr c))"

definition psci_cpumsg_handler :: "u32 \<Rightarrow> u64 \<Rightarrow> 'h arm_core \<Rightarrow> 'h arm_core res" where
  "psci_cpumsg_handler ev d c = (if ev = PSCI_MSG_ON then psci_wake_from_off c else Inr c)"

definition psci_wake_from_powerdown :: "'h arm_core \<Rightarrow> ('h arm_core \<times> run_choice) res" where
  "psci_wake_from_powerdown c =
    (case ac_vcpu c of
       None \<Rightarrow> Inl Panic
     | Some i \<Rightarrow>
         bindR (this_arm c) (\<lambda>u.
         let (u, r) = vcpu_arch_reset_arm u (entrypoint (psci u)) (ac_el1 c);
             u = vcpu_writereg_arm u 0 (context_id (psci u)) in
         bindR (set_arm i u (c\<lparr>ac_el1 := r\<rparr>)) (\<lambda>c. Inr (c, vcpu_arch_run_arm u))))"

definition psci_save_state :: "arm_env \<Rightarrow> wakeup_reason \<Rightarrow> 'h arm_core \<Rightarrow> 'h arm_core" where
  "psci_save_state E reason c =
    c\<lparr>ac_off := \<lparr>off_el2 = ac_el2 c, off_vmpidr = vmpidr_el2 (ac_el1 c), off_reason = reason, off_flat_map = hyp_pa E (va_flat_pt E)\<rparr>\<rparr>"

definition psci_power_down :: "arm_env \<Rightarrow> wakeup_reason \<Rightarrow> 'h arm_core \<Rightarrow> 'h arm_core \<times> psci_end" where
  "psci_power_down E reason c =
    (psci_save_state E reason c,
     case fw_suspend E PSCI_STATE_TYPE_POWERDOWN (hyp_pa E (va_boot_entry E)) (hyp_pa E (va_off_state E)) of
       None \<Rightarrow> Psci_powered_down | Some r \<Rightarrow> Psci_ret r)"

definition psci_cpu_suspend_handler :: "arm_env \<Rightarrow> u32 \<Rightarrow> u64 \<Rightarrow> u64 \<Rightarrow> 'h arm_core \<Rightarrow> ('h arm_core \<times> psci_end) res" where
  "psci_cpu_suspend_handler E power_state entry ctx c =
    (if power_state AND PSCI_STATE_TYPE_BIT \<noteq> 0 then
       bindR (this_arm c) (\<lambda>u.
       bindR (set_arm (the (ac_vcpu c)) (u\<lparr>psci := (psci u)\<lparr>entrypoint := entry, context_id := ctx\<rparr>\<rparr>) c) (\<lambda>c.
       Inr (psci_power_down E PSCI_WAKEUP_POWERDOWN c)))
     else Inr (c, Psci_ret PSCI_E_SUCCESS))"

text \<open>\<open>cpu_idle\<close> does not return: the core starts over in \<open>cpu_idle_wakeup\<close>.\<close>

definition psci_cpu_off_handler :: "'h arm_core \<Rightarrow> ('h arm_core \<times> psci_end) res" where
  "psci_cpu_off_handler c =
    bindR (this_arm c) (\<lambda>u.
    bindR (set_arm (the (ac_vcpu c)) (u\<lparr>psci := (psci u)\<lparr>psci_st := OFF\<rparr>\<rparr>) c) (\<lambda>c. Inr (c, Psci_idle)))"

definition psci_on_msg :: "arm_env \<Rightarrow> cpu_msg" where
  "psci_on_msg E = \<lparr>handler = PSCI_CPUSMG_ID E, event = PSCI_MSG_ON, data = 0\<rparr>"

definition psci_cpu_on_handler :: "arm_env \<Rightarrow> u64 \<Rightarrow> u64 \<Rightarrow> u64 \<Rightarrow> 'h arm_core \<Rightarrow> ('h arm_core \<times> psci_end) res" where
  "psci_cpu_on_handler E target_cpu entry ctx c =
    bindR (this_arm c) (\<lambda>_.
    case vm_get_vcpu_by_mpidr (ac_vm c) (ac_vcpus c) target_cpu of
      None \<Rightarrow> Inr (c, Psci_ret PSCI_E_INVALID_PARAMS)
    | Some t \<Rightarrow>
        bindR (rd (ac_vcpus c) t) (\<lambda>u.
        if psci_st (psci u) \<noteq> OFF then Inr (c, Psci_ret PSCI_E_ALREADY_ON)
        else
          bindR (set_arm t (u\<lparr>psci := \<lparr>entrypoint = entry, context_id = ctx, psci_st = ON_PENDING\<rparr>\<rparr>) c) (\<lambda>c.
          bindR (vm_translate_to_pcpuid (ac_vm c) (av_id u)) (\<lambda>pcpuid.
          if pcpuid = INVALID_CPUID then Inr (c, Psci_ret PSCI_E_INVALID_PARAMS)
          else bindR (cpu_send_msg (ac_msgs c) pcpuid (psci_on_msg E)) (\<lambda>m. Inr (c\<lparr>ac_msgs := m\<rparr>, Psci_ret PSCI_E_SUCCESS))))))"

definition psci_features_handler :: "u32 \<Rightarrow> u32" where
  "psci_features_handler feature_id =
    (if feature_id \<in> {PSCI_VERSION, PSCI_CPU_OFF, PSCI_CPU_SUSPEND_SMC32, PSCI_CPU_SUSPEND_SMC64, PSCI_CPU_ON_SMC32,
       PSCI_CPU_ON_SMC64, PSCI_AFFINITY_INFO_SMC32, PSCI_AFFINITY_INFO_SMC64, PSCI_FEATURES}
     then PSCI_E_SUCCESS else PSCI_E_NOT_SUPPORTED)"

definition psci_smc_handler :: "arm_env \<Rightarrow> u32 \<Rightarrow> u64 \<Rightarrow> u64 \<Rightarrow> u64 \<Rightarrow> 'h arm_core \<Rightarrow> ('h arm_core \<times> psci_end) res" where
  "psci_smc_handler E smc_fid x1 x2 x3 c =
    (if smc_fid = PSCI_VERSION then Inr (c, Psci_ret PSCI_VERSION_0_2)
     else if smc_fid = PSCI_CPU_OFF then psci_cpu_off_handler c
     else if smc_fid = PSCI_CPU_SUSPEND_SMC32 \<or> smc_fid = PSCI_CPU_SUSPEND_SMC64 then psci_cpu_suspend_handler E (ucast x1) x2 x3 c
     else if smc_fid = PSCI_CPU_ON_SMC32 \<or> smc_fid = PSCI_CPU_ON_SMC64 then psci_cpu_on_handler E x1 x2 x3 c
     else if smc_fid = PSCI_AFFINITY_INFO_SMC32 \<or> smc_fid = PSCI_AFFINITY_INFO_SMC64 then Inr (c, Psci_ret 0)
     else if smc_fid = PSCI_FEATURES then Inr (c, Psci_ret (psci_features_handler (ucast x1)))
     else if smc_fid = PSCI_MIG_INFO_TYPE then Inr (c, Psci_ret PSCI_TOS_NOT_PRESENT_MP)
     else Inr (c, Psci_ret PSCI_E_NOT_SUPPORTED))"

section \<open>Traps of the guest\<close>

definition SMC_FID_MASK :: u64 where "SMC_FID_MASK = 0xff000000"
definition PSCI_FID_MASK :: u64 where "PSCI_FID_MASK = 0xffe0"
definition is_smc32_stdsrvc_fid :: "u64 \<Rightarrow> bool" where "is_smc32_stdsrvc_fid fid \<longleftrightarrow> fid AND SMC_FID_MASK = 0x84000000"
definition is_smc64_stdsrvc_fid :: "u64 \<Rightarrow> bool" where "is_smc64_stdsrvc_fid fid \<longleftrightarrow> fid AND SMC_FID_MASK = 0xc4000000"

definition is_psci_fid :: "u64 \<Rightarrow> bool" where
  "is_psci_fid fid \<longleftrightarrow> (is_smc64_stdsrvc_fid fid \<or> is_smc32_stdsrvc_fid fid) \<and> fid AND PSCI_FID_MASK = 0"

definition SMCC32_FID_STD_SRVC :: u64 where "SMCC32_FID_STD_SRVC = 0x84000000"
definition SMCC64_FID_STD_SRVC :: u64 where "SMCC64_FID_STD_SRVC = SMCC32_FID_STD_SRVC OR 0x40000000"
definition SMCC32_FID_VND_HYP_SRVC :: u64 where "SMCC32_FID_VND_HYP_SRVC = 0x86000000"
definition SMCC64_FID_VND_HYP_SRVC :: u64 where "SMCC64_FID_VND_HYP_SRVC = SMCC32_FID_VND_HYP_SRVC OR 0x40000000"
definition SMCC_FID_FN_NUM_MSK :: u64 where "SMCC_FID_FN_NUM_MSK = 0xFFFF"
definition SMCC_E_NOT_SUPPORTED :: u64 where "SMCC_E_NOT_SUPPORTED = - 1"

text \<open>A call that does not return, or the value for \<open>x0\<close>, sign-extended.\<close>

datatype call_end = Call_ret u64 | Call_gone psci_end

definition standard_service_call :: "arm_env \<Rightarrow> 'h arm_core \<Rightarrow> ('h arm_core \<times> call_end) res" where
  "standard_service_call E c =
    bindR (this_arm c) (\<lambda>u.
    let smc_fid = vcpu_readreg_arm u 0 in
    if is_psci_fid smc_fid then
      bindR (psci_smc_handler E (ucast smc_fid) (vcpu_readreg_arm u 1) (vcpu_readreg_arm u 2) (vcpu_readreg_arm u 3) c) (\<lambda>(c, r).
      Inr (c, case r of Psci_ret x \<Rightarrow> Call_ret (scast x) | _ \<Rightarrow> Call_gone r))
    else Inr (c, Call_ret (- 1)))"

text \<open>
  The hypercalls are the argument \<open>hypercall_fn\<close> (the dispatcher of theory Hypercall, over the RISC-V hart), the
  emulation handlers the argument \<open>em\<close>; the handlers that are registered are those of the virtual GIC.
\<close>

type_synonym 'h hypercall_fn = "u64 \<Rightarrow> 'h arm_core \<Rightarrow> ('h arm_core \<times> u64) res"
type_synonym 'h emul_fn = "'h \<Rightarrow> emul_access \<Rightarrow> 'h arm_core \<Rightarrow> ('h arm_core \<times> bool) res"

definition syscall_handler :: "arm_env \<Rightarrow> 'h hypercall_fn \<Rightarrow> 'h arm_core \<Rightarrow> ('h arm_core \<times> psci_end option) res" where
  "syscall_handler E hypercall_fn c =
    bindR (this_arm c) (\<lambda>u.
    let fid = vcpu_readreg_arm u 0; srv = fid AND NOT SMCC_FID_FN_NUM_MSK in
    bindR (if srv = SMCC32_FID_STD_SRVC \<or> srv = SMCC64_FID_STD_SRVC then standard_service_call E c
           else if srv = SMCC32_FID_VND_HYP_SRVC \<or> srv = SMCC64_FID_VND_HYP_SRVC
                then bindR (hypercall_fn (fid AND SMCC_FID_FN_NUM_MSK) c) (\<lambda>(c, r). Inr (c, Call_ret r))
           else Inr (c, Call_ret SMCC_E_NOT_SUPPORTED)) (\<lambda>(c, r).
    case r of
      Call_gone g \<Rightarrow> Inr (c, Some g)
    | Call_ret x \<Rightarrow> bindR (this_arm c) (\<lambda>u. bindR (set_arm (the (ac_vcpu c)) (vcpu_writereg_arm u 0 x) c) (\<lambda>c. Inr (c, None)))))"

definition step_pc :: "u64 \<Rightarrow> 'h arm_core \<Rightarrow> 'h arm_core res" where
  "step_pc k c = bindR (this_arm c) (\<lambda>u. set_arm (the (ac_vcpu c)) (vcpu_writepc_arm u (vcpu_readpc_arm u + k)) c)"

definition hvc_handler :: "arm_env \<Rightarrow> 'h hypercall_fn \<Rightarrow> 'h arm_core \<Rightarrow> ('h arm_core \<times> psci_end option) res" where
  "hvc_handler E hypercall_fn c = syscall_handler E hypercall_fn c"

definition smc_handler :: "arm_env \<Rightarrow> 'h hypercall_fn \<Rightarrow> 'h arm_core \<Rightarrow> ('h arm_core \<times> psci_end option) res" where
  "smc_handler E hypercall_fn c =
    bindR (syscall_handler E hypercall_fn c) (\<lambda>(c, g).
    if g \<noteq> None then Inr (c, g) else bindR (step_pc 4 c) (\<lambda>c. Inr (c, None)))"

definition ESR_ISS_DA_ISV_BIT :: u64 where "ESR_ISS_DA_ISV_BIT = push_bit 24 1"
definition ESR_ISS_DA_FnV_BIT :: u64 where "ESR_ISS_DA_FnV_BIT = push_bit 10 1"
definition ESR_ISS_DA_WnR_BIT :: u64 where "ESR_ISS_DA_WnR_BIT = push_bit 6 1"
definition ESR_ISS_DA_DSFC_TRNSLT :: u64 where "ESR_ISS_DA_DSFC_TRNSLT = 4"
definition ESR_ISS_DA_DSFC_PERMIS :: u64 where "ESR_ISS_DA_DSFC_PERMIS = 0xC"

text \<open>The fields are constants within the word, so \<open>bit64_extract\<close> does not fail.\<close>

definition iss_field :: "u64 \<Rightarrow> nat \<Rightarrow> nat \<Rightarrow> u64" where
  "iss_field iss off len = drop_bit off iss AND mask len"

definition data_abort_access :: "u64 \<Rightarrow> vaddr \<Rightarrow> emul_access \<Rightarrow> emul_access" where
  "data_abort_access iss addr und =
    und\<lparr>acc_addr := addr, acc_width := 2 ^ unat (iss_field iss 22 2), acc_write := iss AND ESR_ISS_DA_WnR_BIT \<noteq> 0,
      acc_reg := unat (iss_field iss 16 5), acc_reg_width := 4 + 4 * unat (iss_field iss 15 1), acc_sign_ext := iss_field iss 21 1 \<noteq> 0\<rparr>"

definition emulate :: "'h emul_fn \<Rightarrow> 'h option \<Rightarrow> emul_access \<Rightarrow> u64 \<Rightarrow> 'h arm_core \<Rightarrow> 'h arm_core res" where
  "emulate em k acc il c =
    (case k of None \<Rightarrow> Inl Panic
     | Some h \<Rightarrow> bindR (em h acc c) (\<lambda>(c, ok). if ok then step_pc (2 + 2 * il) c else Inl Panic))"

definition aborts_data_lower :: "'h emul_fn \<Rightarrow> emul_access \<Rightarrow> u64 \<Rightarrow> u64 \<Rightarrow> u64 \<Rightarrow> 'h arm_core \<Rightarrow> 'h arm_core res" where
  "aborts_data_lower em und iss far il c =
    (if iss AND ESR_ISS_DA_ISV_BIT = 0 \<or> iss AND ESR_ISS_DA_FnV_BIT \<noteq> 0 then Inl Panic
     else
       let DSFC = iss_field iss 0 6 AND push_bit 2 0xf in
       if DSFC \<noteq> ESR_ISS_DA_DSFC_TRNSLT \<and> DSFC \<noteq> ESR_ISS_DA_DSFC_PERMIS then Inl Panic
       else emulate em (vm_emul_get_mem (ac_vm c) far) (data_abort_access iss far und) il c)"

definition ICC_SGI1R_CASE :: u64 where "ICC_SGI1R_CASE = 0x18"
definition ICC_SGI1R_ADDR :: u64 where "ICC_SGI1R_ADDR = 0x3A3016"
definition UNDEFINED_REG_ADDR :: u64 where "UNDEFINED_REG_ADDR = 0xFFFFFFFF"
definition ESR_ISS_SYSREG_ADDR_32 :: u64 where "ESR_ISS_SYSREG_ADDR_32 = 0xFFC1E"
definition ESR_ISS_SYSREG_ADDR_64 :: u64 where "ESR_ISS_SYSREG_ADDR_64 = 0xF001E"
definition OP0_MRS_CP15 :: u64 where "OP0_MRS_CP15 = push_bit 20 3"
definition ESR_EC_RG_32 :: u64 where "ESR_EC_RG_32 = 3"
definition ESR_EC_RG_64 :: u64 where "ESR_EC_RG_64 = 4"
definition ESR_EC_HVC32 :: u64 where "ESR_EC_HVC32 = 0x12"
definition ESR_EC_SMC32 :: u64 where "ESR_EC_SMC32 = 0x13"
definition ESR_EC_HVC64 :: u64 where "ESR_EC_HVC64 = 0x16"
definition ESR_EC_SMC64 :: u64 where "ESR_EC_SMC64 = 0x17"
definition ESR_EC_SYSRG :: u64 where "ESR_EC_SYSRG = 0x18"
definition ESR_EC_DALEL :: u64 where "ESR_EC_DALEL = 0x24"

definition reg_addr_translate :: "u64 \<Rightarrow> u64" where
  "reg_addr_translate iss = (if iss AND ESR_ISS_SYSREG_ADDR_64 = ICC_SGI1R_CASE then ICC_SGI1R_ADDR else UNDEFINED_REG_ADDR)"

definition sysreg_handler :: "'h emul_fn \<Rightarrow> u64 \<Rightarrow> u64 \<Rightarrow> u64 \<Rightarrow> 'h arm_core \<Rightarrow> 'h arm_core res" where
  "sysreg_handler em iss il ec c =
    (let reg_addr = (if ec = ESR_EC_RG_64 then reg_addr_translate iss else (iss AND ESR_ISS_SYSREG_ADDR_32) OR OP0_MRS_CP15) in
     emulate em (vm_emul_get_reg (ac_vm c) reg_addr)
       \<lparr>acc_addr = reg_addr, acc_write = (iss AND 1 = 0), acc_sign_ext = False, acc_width = 8, acc_reg = unat (iss_field iss 5 5),
        acc_reg_high = unat (iss_field iss 10 5), acc_multi_reg = (ec = ESR_EC_RG_64), acc_reg_width = 8\<rparr> il c)"

text \<open>\<open>mmu\<close> is whether the address comes with the page that faulted.\<close>

definition aborts_sync_handler :: "arm_env \<Rightarrow> 'h hypercall_fn \<Rightarrow> 'h emul_fn \<Rightarrow> emul_access \<Rightarrow> bool \<Rightarrow> u64 \<Rightarrow> u64 \<Rightarrow> u64 \<Rightarrow> 'h arm_core \<Rightarrow> ('h arm_core \<times> psci_end option) res" where
  "aborts_sync_handler E hypercall_fn em und mmu esr far hpfar c =
    (let addr = (if mmu then (far AND 0xFFF) OR push_bit 8 hpfar else far);
         ec = iss_field esr 26 6; il = iss_field esr 25 1; iss = iss_field esr 0 25;
         stay = (\<lambda>r. bindR r (\<lambda>c. Inr (c, None))) in
     if ec = ESR_EC_DALEL then stay (aborts_data_lower em und iss addr il c)
     else if ec = ESR_EC_SMC32 \<or> ec = ESR_EC_SMC64 then smc_handler E hypercall_fn c
     else if ec = ESR_EC_SYSRG \<or> ec = ESR_EC_RG_32 \<or> ec = ESR_EC_RG_64 then stay (sysreg_handler em iss il ec c)
     else if ec = ESR_EC_HVC32 \<or> ec = ESR_EC_HVC64 then hvc_handler E hypercall_fn c
     else Inl Panic)"

end
