(* ===== verification/Psci.thy ===== *)
theory Psci
  imports Armv8_Vm
begin

text \<open>
  Starting a vCPU of an Armv8 VM (\<open>src/arch/armv8/psci.c\<close>): what a call of CPU_ON leads to when no other
  core makes one, and what two cores that make one at the same time can obtain.
\<close>

section \<open>One caller\<close>

text \<open>A VM as it is set up: as many vCPUs as cores, each with its number and the affinity made from it.\<close>

definition arm_wf :: "'h arm_core \<Rightarrow> bool" where
  "arm_wf c \<longleftrightarrow> length (ac_vcpus c) = vm_cpu_num (ac_vm c) \<and> card (cores (vm_cpus (ac_vm c))) = vm_cpu_num (ac_vm c)
    \<and> (\<forall>i < vm_cpu_num (ac_vm c). av_id (ac_vcpus c ! i) = i \<and> vmpidr (ac_vcpus c ! i) = vm_cpuid_to_mpidr (ac_vm c) i
        \<and> length (gpr_x (av_regs (ac_vcpus c ! i))) = 31)
    \<and> (\<forall>p \<in> cores (vm_cpus (ac_vm c)). p < ncpus (ac_msgs c)) \<and> (\<forall>i. ac_vcpu c = Some i \<longrightarrow> i < vm_cpu_num (ac_vm c))"

lemma cores_64: "card (cores m) \<le> 64"
proof -
  have "card (cores m) \<le> card {0..<64 :: nat}" by (rule card_mono) (auto simp: cores_def)
  then show ?thesis by simp
qed

lemma mpidr_affinity:
  assumes "i < 64" "i \<le> vm_cpu_num v"
  shows "vm_cpuid_to_mpidr v i AND MPIDR_AFF_MSK = of_nat i"
proof -
  have m: "MPIDR_AFF_MSK = mask 16" by (simp add: MPIDR_AFF_MSK_def mask_eq_exp_minus_1)
  have "take_bit 16 (ucast MPIDR_RES1 :: u64) = 0" "take_bit 16 MPIDR_U_BIT = 0"
    by (simp_all add: MPIDR_RES1_def MPIDR_U_BIT_def)
  moreover have "take_bit 16 (of_nat i :: u64) = of_nat i"
    using assms(1) by (simp add: take_bit_eq_mod word_unat_eq_iff unat_mod unat_of_nat)
  ultimately show ?thesis using assms(2) unfolding m take_bit_eq_mask [symmetric] by (simp add: vm_cpuid_to_mpidr_def Let_def take_bit_or)
qed

lemma get_by_mpidr:
  assumes "arm_wf c"
  shows "vm_get_vcpu_by_mpidr (ac_vm c) (ac_vcpus c) tgt
    = (if unat (tgt AND MPIDR_AFF_MSK) < vm_cpu_num (ac_vm c) then Some (unat (tgt AND MPIDR_AFF_MSK)) else None)"
proof -
  note A = assms [unfolded arm_wf_def]
  let ?n = "vm_cpu_num (ac_vm c)" and ?t = "unat (tgt AND MPIDR_AFF_MSK)"
  have n: "?n \<le> 64" using A cores_64 [of "vm_cpus (ac_vm c)"] by simp
  have e: "vmpidr (ac_vcpus c ! i) AND MPIDR_AFF_MSK = tgt AND MPIDR_AFF_MSK \<longleftrightarrow> i = ?t" if "i < ?n" for i
  proof -
    have "vmpidr (ac_vcpus c ! i) AND MPIDR_AFF_MSK = of_nat i" using that n A mpidr_affinity [of i "ac_vm c"] by simp
    moreover have "unat (of_nat i :: u64) = i" using that n by (simp add: unat_of_nat)
    ultimately show ?thesis by (auto simp: word_unat_eq_iff)
  qed
  show ?thesis
  proof (cases "?t < ?n")
    case True
    then show ?thesis using e unfolding vm_get_vcpu_by_mpidr_def by (auto simp: find_Some_iff)
  next
    case False
    then show ?thesis using e unfolding vm_get_vcpu_by_mpidr_def by (auto simp: find_None_iff)
  qed
qed

lemma writereg_arm:
  assumes "length (gpr_x (av_regs u)) = 31" "r \<le> 30"
  shows "vcpu_readreg_arm (vcpu_writereg_arm u r x) k = (if k = r then x else vcpu_readreg_arm u k)"
  using assms by (simp add: vcpu_readreg_arm_def vcpu_writereg_arm_def)

lemma woken:
  assumes "this_arm b = Inr u" "psci_st (psci u) = ON_PENDING"
  shows "\<exists>b' w. psci_cpumsg_handler PSCI_MSG_ON d b = Inr b' \<and> this_arm b' = Inr w \<and> vcpu_arch_run_arm w = Enter_guest
    \<and> vcpu_readpc_arm w = entrypoint (psci u) \<and> (\<forall>k. vcpu_readreg_arm w k = (if k = 0 then context_id (psci u) else 0))
    \<and> sctlr_el1 (ac_el1 b') = SCTLR_RES1 \<and> ac_msgs b' = ac_msgs b \<and> psci_cpumsg_handler PSCI_MSG_ON d b' = Inr b'"
proof -
  obtain i where i: "ac_vcpu b = Some i" "i < length (ac_vcpus b)" "ac_vcpus b ! i = u"
    using assms(1) by (auto simp: this_arm_def rd_def split: option.splits if_splits)
  obtain w r where v: "vcpu_arch_reset_arm u (entrypoint (psci u)) (ac_el1 b) = (w, r)" by fastforce
  have w: "gpr_x (av_regs w) = replicate 31 0" "elr_el2 (av_regs w) = entrypoint (psci u)" "psci w = psci u" "sctlr_el1 r = SCTLR_RES1"
    using v by (auto simp: vcpu_arch_reset_arm_def vcpu_writepc_arm_def vcpu_subarch_reset_def Let_def)
  let ?w = "vcpu_writereg_arm (w\<lparr>psci := (psci w)\<lparr>psci_st := ON\<rparr>\<rparr>) 0 (context_id (psci u))"
  let ?b = "b\<lparr>ac_el1 := r, ac_vcpus := (ac_vcpus b)[i := ?w]\<rparr>"
  have "psci_cpumsg_handler PSCI_MSG_ON d b = Inr ?b"
    using assms i v w(3) by (simp add: psci_cpumsg_handler_def psci_wake_from_off_def set_arm_def wr_def Let_def)
  moreover have t: "this_arm ?b = Inr ?w" using i by (simp add: this_arm_def)
  moreover have on: "psci_st (psci ?w) = ON" by (simp add: vcpu_writereg_arm_def)
  moreover have "psci_cpumsg_handler PSCI_MSG_ON d ?b = Inr ?b"
    using t on i by (simp add: psci_cpumsg_handler_def psci_wake_from_off_def)
  moreover have "vcpu_readreg_arm ?w k = (if k = 0 then context_id (psci u) else 0)" for k
    using w(1) by (simp add: vcpu_readreg_arm_def vcpu_writereg_arm_def nth_append nth_list_update)
  moreover have "vcpu_readpc_arm ?w = entrypoint (psci u)" using w(2) by (simp add: vcpu_readpc_arm_def vcpu_writereg_arm_def)
  ultimately show ?thesis using w(4) by (intro exI [of _ ?b] exI [of _ ?w]) (simp add: vcpu_arch_run_arm_def vcpu_psci_state_on_def)
qed

section \<open>A VM of two vCPUs\<close>

definition demo_arm_vcpu :: "nat \<Rightarrow> psci_state \<Rightarrow> u64 list \<Rightarrow> arm_vcpu" where
  "demo_arm_vcpu i st rs = \<lparr>av_id = i, av_regs = \<lparr>gpr_x = rs, elr_el2 = 0x40080000, spsr_el2 = 5\<rparr>,
     vmpidr = vm_cpuid_to_mpidr demo_hvm i, psci = \<lparr>entrypoint = 0, context_id = 0, psci_st = st\<rparr>\<rparr>"

definition demo_arm :: "u64 list \<Rightarrow> unit arm_core" where
  "demo_arm rs = \<lparr>ac_vcpu = Some 0, ac_vm = demo_hvm, ac_vcpus = [demo_arm_vcpu 0 ON rs, demo_arm_vcpu 1 OFF (replicate 31 0)],
     ac_el1 = \<lparr>vmpidr_el2 = 0x80000000, cntvoff_el2 = 0, sctlr_el1 = 0, cntkctl_el1 = 0, pmcr_el0 = 0\<rparr>,
     ac_el2 = \<lparr>tcr_el2 = 1, ttbr0_el2 = 2, mair_el2 = 3, cptr_el2 = 4, hcr_el2 = 5, vtcr_el2 = 6, vttbr_el2 = 7\<rparr>,
     ac_off = \<lparr>off_el2 = \<lparr>tcr_el2 = 0, ttbr0_el2 = 0, mair_el2 = 0, cptr_el2 = 0, hcr_el2 = 0, vtcr_el2 = 0, vttbr_el2 = 0\<rparr>,
       off_vmpidr = 0, off_reason = PSCI_WAKEUP_IDLE, off_flat_map = 0\<rparr>,
     ac_msgs = boot_msgs\<rparr>"

definition demo_arm_env :: arm_env where
  "demo_arm_env = \<lparr>PSCI_CPUSMG_ID = 1, hyp_pa = (\<lambda>va. va - 0x1000), va_flat_pt = 0x2000, va_off_state = 0x3000, va_boot_entry = 0x4000,
     fw_suspend = (\<lambda>_ _ _. None)\<rparr>"

lemma demo_arm_facts:
  assumes "length rs = 31"
  shows "arm_wf (demo_arm rs)" "ac_vcpu (demo_arm rs) \<noteq> None" "mailboxes (ac_msgs (demo_arm rs)) (\<lambda>_. [])"
    "waiting (ncpus (ac_msgs (demo_arm rs))) (\<lambda>_. []) < num (msg_pool (ac_msgs (demo_arm rs)))" "vm_cpu_num (ac_vm (demo_arm rs)) = 2"
proof -
  have c: "cores (vm_cpus (ac_vm (demo_arm rs))) = {1, 3}" using demo_cores by (simp add: demo_arm_def)
  show n: "vm_cpu_num (ac_vm (demo_arm rs)) = 2" by (simp add: demo_arm_def demo_hvm_def)
  have v: "av_id (ac_vcpus (demo_arm rs) ! i) = i \<and> vmpidr (ac_vcpus (demo_arm rs) ! i) = vm_cpuid_to_mpidr demo_hvm i
      \<and> length (gpr_x (av_regs (ac_vcpus (demo_arm rs) ! i))) = 31" if "i < 2" for i
    using that assms by (auto simp: demo_arm_def demo_arm_vcpu_def less_2_cases_iff)
  show "arm_wf (demo_arm rs)" unfolding arm_wf_def c n using v by (auto simp: demo_arm_def ncpus_def boot_msgs_def)
  show "ac_vcpu (demo_arm rs) \<noteq> None" by (simp add: demo_arm_def)
  show "mailboxes (ac_msgs (demo_arm rs)) (\<lambda>_. [])" using boot_mailboxes by (simp add: demo_arm_def)
  show "waiting (ncpus (ac_msgs (demo_arm rs))) (\<lambda>_. []) < num (msg_pool (ac_msgs (demo_arm rs)))"
    by (simp add: demo_arm_def waiting_def boot_msgs_def OBJPOOL_ALLOC_def CPU_MSG_POOL_SIZE_def)
qed

lemma cpu_on_sent:
  fixes e x :: u64
  assumes "arm_wf c" "ac_vcpu c \<noteq> None" "mailboxes (ac_msgs c) Q" "waiting (ncpus (ac_msgs c)) Q < num (msg_pool (ac_msgs c))"
    and "t = unat (tgt AND MPIDR_AFF_MSK)" "t < vm_cpu_num (ac_vm c)" "psci_st (psci (ac_vcpus c ! t)) = OFF"
  defines "u \<equiv> (ac_vcpus c ! t)\<lparr>psci := \<lparr>entrypoint = e, context_id = x, psci_st = ON_PENDING\<rparr>\<rparr>"
  shows "\<exists>p m. psci_cpu_on_handler E tgt e x c = Inr (c\<lparr>ac_vcpus := (ac_vcpus c)[t := u], ac_msgs := m\<rparr>, Psci_ret PSCI_E_SUCCESS)
    \<and> p \<in> cores (vm_cpus (ac_vm c)) \<and> rank (vm_cpus (ac_vm c)) p = t \<and> mailboxes m (Q(p := Q p @ [psci_on_msg E])) \<and> ncpus m = ncpus (ac_msgs c)"
proof -
  note A = assms(1) [unfolded arm_wf_def]
  obtain me where me: "this_arm c = Inr me" using A assms(2) by (auto simp: this_arm_def)
  note G = get_by_mpidr [OF assms(1), of tgt, folded assms(5)]
  have t: "t < length (ac_vcpus c)" "av_id (ac_vcpus c ! t) = t" using A assms(6) by simp_all
  obtain p where p: "vm_translate_to_pcpuid (ac_vm c) t = Inr p" "p \<in> cores (vm_cpus (ac_vm c))" "rank (vm_cpus (ac_vm c)) p = t"
    using to_pcpuid_cases [of "ac_vm c" t] A assms(6) by auto
  then have "p \<noteq> INVALID_CPUID" by (auto simp: cores_def INVALID_CPUID_def)
  obtain m where m: "cpu_send_msg (ac_msgs c) p (psci_on_msg E) = Inr m" "mailboxes m (Q(p := Q p @ [psci_on_msg E]))" "ncpus m = ncpus (ac_msgs c)"
    using send_ok [OF assms(3,4), of p "psci_on_msg E"] A p(2) by blast
  have "psci_cpu_on_handler E tgt e x c = Inr (c\<lparr>ac_vcpus := (ac_vcpus c)[t := u], ac_msgs := m\<rparr>, Psci_ret PSCI_E_SUCCESS)"
    using me G assms(6,7) t p(1) m(1) \<open>p \<noteq> INVALID_CPUID\<close> by (simp add: psci_cpu_on_handler_def set_arm_def wr_def u_def)
  then show ?thesis using p(2,3) m(2,3) by blast
qed

lemma cpu_on_refused:
  assumes "arm_wf c" "ac_vcpu c \<noteq> None" "t = unat (tgt AND MPIDR_AFF_MSK)"
    and "\<not> (t < vm_cpu_num (ac_vm c) \<and> psci_st (psci (ac_vcpus c ! t)) = OFF)"
  shows "psci_cpu_on_handler E tgt e x c = Inr (c, Psci_ret (if vm_cpu_num (ac_vm c) \<le> t then PSCI_E_INVALID_PARAMS else PSCI_E_ALREADY_ON))"
proof -
  obtain me where "this_arm c = Inr me" using assms(1,2) by (auto simp: this_arm_def arm_wf_def)
  then show ?thesis using assms get_by_mpidr [OF assms(1), of tgt, folded assms(3)] by (auto simp: psci_cpu_on_handler_def arm_wf_def)
qed

text \<open>
  C37. CPU_ON of a vCPU that is off succeeds, with a free message node: it changes no other vCPU and sends one message, to the core that has the
  place of the vCPU among the cores of the VM. A second call for it is refused. When that core
  handles the message, the vCPU enters the guest at the entry point of the call, with the context in
  \<open>x0\<close> and every other register zero, and the message handled again does nothing. A call for an affinity
  that the VM does not have, or for a vCPU that is not off, changes nothing.
\<close>

theorem cpu_on_starts:
  fixes tgt :: u64 and c :: "'h arm_core"
  assumes "arm_wf c" "ac_vcpu c \<noteq> None" "mailboxes (ac_msgs c) Q" "waiting (ncpus (ac_msgs c)) Q < num (msg_pool (ac_msgs c))"
  defines "t \<equiv> unat (tgt AND MPIDR_AFF_MSK)"
  shows "if vm_cpu_num (ac_vm c) \<le> t then psci_cpu_on_handler E tgt e x c = Inr (c, Psci_ret PSCI_E_INVALID_PARAMS)
    else if psci_st (psci (ac_vcpus c ! t)) \<noteq> OFF then psci_cpu_on_handler E tgt e x c = Inr (c, Psci_ret PSCI_E_ALREADY_ON)
    else \<exists>c' p. psci_cpu_on_handler E tgt e x c = Inr (c', Psci_ret PSCI_E_SUCCESS) \<and> p \<in> cores (vm_cpus (ac_vm c))
      \<and> rank (vm_cpus (ac_vm c)) p = t \<and> mailboxes (ac_msgs c') (Q(p := Q p @ [psci_on_msg E]))
      \<and> (\<forall>j. j \<noteq> t \<longrightarrow> ac_vcpus c' ! j = ac_vcpus c ! j)
      \<and> psci_cpu_on_handler E tgt e' x' c' = Inr (c', Psci_ret PSCI_E_ALREADY_ON)
      \<and> (\<forall>b :: 'h arm_core. ac_vcpu b = Some t \<and> ac_vcpus b = ac_vcpus c' \<longrightarrow> (\<exists>b' u. psci_cpumsg_handler PSCI_MSG_ON d b = Inr b'
          \<and> this_arm b' = Inr u \<and> vcpu_arch_run_arm u = Enter_guest \<and> vcpu_readpc_arm u = e
          \<and> (\<forall>k. vcpu_readreg_arm u k = (if k = 0 then x else 0)) \<and> psci_cpumsg_handler PSCI_MSG_ON d b' = Inr b'))"
proof (cases "t < vm_cpu_num (ac_vm c) \<and> psci_st (psci (ac_vcpus c ! t)) = OFF")
  case False
  from cpu_on_refused [OF assms(1,2) meta_eq_to_obj_eq [OF t_def] this] False show ?thesis by auto
next
  case True
  let ?u = "(ac_vcpus c ! t)\<lparr>psci := \<lparr>entrypoint = e, context_id = x, psci_st = ON_PENDING\<rparr>\<rparr>"
  have te: "t = unat (tgt AND MPIDR_AFF_MSK)" by (simp add: t_def)
  from cpu_on_sent [OF assms(1-4) te conjunct1 [OF True] conjunct2 [OF True], of E e x] obtain p m where
    on: "psci_cpu_on_handler E tgt e x c = Inr (c\<lparr>ac_vcpus := (ac_vcpus c)[t := ?u], ac_msgs := m\<rparr>, Psci_ret PSCI_E_SUCCESS)"
    "p \<in> cores (vm_cpus (ac_vm c))" "rank (vm_cpus (ac_vm c)) p = t" "mailboxes m (Q(p := Q p @ [psci_on_msg E]))" "ncpus m = ncpus (ac_msgs c)"
    by (elim exE conjE)
  let ?c = "c\<lparr>ac_vcpus := (ac_vcpus c)[t := ?u], ac_msgs := m\<rparr>"
  have l: "t < length (ac_vcpus c)" using assms(1) True by (simp add: arm_wf_def)
  have "arm_wf ?c" using assms(1) l on(5) by (simp add: arm_wf_def nth_list_update)
  then have again: "psci_cpu_on_handler E tgt e' x' ?c = Inr (?c, Psci_ret PSCI_E_ALREADY_ON)"
    using cpu_on_refused [OF _ _ te, of ?c E e' x'] assms(2) l True by simp
  have wake: "\<exists>b' u. psci_cpumsg_handler PSCI_MSG_ON d b = Inr b'
        \<and> this_arm b' = Inr u \<and> vcpu_arch_run_arm u = Enter_guest \<and> vcpu_readpc_arm u = e
        \<and> (\<forall>k. vcpu_readreg_arm u k = (if k = 0 then x else 0)) \<and> psci_cpumsg_handler PSCI_MSG_ON d b' = Inr b'"
    if "ac_vcpu b = Some t" "ac_vcpus b = ac_vcpus ?c" for b :: "'h arm_core"
  proof -
    have "this_arm b = Inr ?u" using that l by (simp add: this_arm_def)
    from woken [OF this, of d] show ?thesis by auto
  qed
  show ?thesis using True on(1-4) again wake by (auto intro!: exI [of _ ?c])
qed

lemma cpu_on_starts_witness:
  "\<exists>c' b' u. psci_cpu_on_handler demo_arm_env 1 0x40080000 7 (demo_arm (replicate 31 0)) = Inr (c', Psci_ret PSCI_E_SUCCESS)
    \<and> psci_cpumsg_handler PSCI_MSG_ON 0 (c'\<lparr>ac_vcpu := Some 1\<rparr>) = Inr b' \<and> this_arm b' = Inr u \<and> vcpu_arch_run_arm u = Enter_guest
    \<and> vcpu_readpc_arm u = 0x40080000 \<and> vcpu_readreg_arm u 0 = 7"
proof -
  let ?c = "demo_arm (replicate 31 0)"
  have t: "unat ((1 :: u64) AND MPIDR_AFF_MSK) = 1" by (simp add: MPIDR_AFF_MSK_def)
  note F = demo_arm_facts [OF length_replicate [of 31 "0 :: u64"]]
  have o: "psci_st (psci (ac_vcpus ?c ! 1)) = OFF" by (simp add: demo_arm_def demo_arm_vcpu_def)
  have n: "\<not> (2 :: nat) \<le> 1" "\<not> psci_st (psci (ac_vcpus ?c ! 1)) \<noteq> OFF" using o by simp_all
  from cpu_on_starts [OF F(1-4), of 1 demo_arm_env "0x40080000" 7 0 0 0, unfolded t F(5) if_not_P [OF n(1)] if_not_P [OF n(2)]]
  obtain c' where c': "psci_cpu_on_handler demo_arm_env 1 0x40080000 7 ?c = Inr (c', Psci_ret PSCI_E_SUCCESS)"
    "\<forall>b :: unit arm_core. ac_vcpu b = Some 1 \<and> ac_vcpus b = ac_vcpus c' \<longrightarrow> (\<exists>b' u. psci_cpumsg_handler PSCI_MSG_ON 0 b = Inr b'
          \<and> this_arm b' = Inr u \<and> vcpu_arch_run_arm u = Enter_guest \<and> vcpu_readpc_arm u = 0x40080000
          \<and> (\<forall>k. vcpu_readreg_arm u k = (if k = 0 then 7 else 0)) \<and> psci_cpumsg_handler PSCI_MSG_ON 0 b' = Inr b')" by (elim exE conjE)
  have "ac_vcpu (c'\<lparr>ac_vcpu := Some 1\<rparr>) = Some 1 \<and> ac_vcpus (c'\<lparr>ac_vcpu := Some 1\<rparr>) = ac_vcpus c'" by simp
  from c'(2) [rule_format, OF this] c'(1) show ?thesis by auto
qed

section \<open>What a call can change\<close>

definition psci_kept :: "'h arm_core \<Rightarrow> 'h arm_core \<Rightarrow> bool" where
  "psci_kept c' c \<longleftrightarrow> arm_wf c' \<and> ac_vm c' = ac_vm c \<and> ac_vcpu c' = ac_vcpu c \<and> ac_el1 c' = ac_el1 c
    \<and> (\<forall>j. av_regs (ac_vcpus c' ! j) = av_regs (ac_vcpus c ! j))
    \<and> (\<forall>j. ac_vcpus c' ! j = ac_vcpus c ! j \<or> ac_vcpu c = Some j
        \<or> psci_st (psci (ac_vcpus c ! j)) = OFF \<and> psci_st (psci (ac_vcpus c' ! j)) = ON_PENDING)"

lemma psci_kept_refl: "arm_wf c \<Longrightarrow> psci_kept c c"
  by (simp add: psci_kept_def)

lemma set_self_kept:
  assumes "arm_wf c" "ac_vcpu c = Some i"
  shows "\<exists>c'. set_arm i ((ac_vcpus c ! i)\<lparr>psci := p\<rparr>) c = Inr c' \<and> psci_kept c' c"
proof -
  let ?c = "c\<lparr>ac_vcpus := (ac_vcpus c)[i := (ac_vcpus c ! i)\<lparr>psci := p\<rparr>]\<rparr>"
  have i: "i < length (ac_vcpus c)" using assms by (simp add: arm_wf_def)
  have "arm_wf ?c" using assms(1) i by (simp add: arm_wf_def nth_list_update)
  then have "psci_kept ?c c" using assms(2) i by (auto simp: psci_kept_def nth_list_update)
  then show ?thesis using i by (intro exI [of _ ?c]) (simp add: set_arm_def wr_def)
qed

text \<open>
  C38. With a free message node, a call of the standard services always ends, with a result, with the core idle or with it powered down, and
  it is confined: no register of any vCPU and no control register of the guest changes, and of the other
  vCPUs only one that was off can change, to being started. (Without a free node \<open>cpu_send_msg\<close> stops the hypervisor.)
\<close>

theorem psci_calls_confined:
  assumes "arm_wf c" "ac_vcpu c \<noteq> None" "mailboxes (ac_msgs c) Q" "waiting (ncpus (ac_msgs c)) Q < num (msg_pool (ac_msgs c))"
  shows "\<exists>c' r. standard_service_call E c = Inr (c', r) \<and> psci_kept c' c"
proof -
  obtain i where i: "ac_vcpu c = Some i" "i < length (ac_vcpus c)" using assms(1,2) by (auto simp: arm_wf_def)
  have me: "this_arm c = Inr (ac_vcpus c ! i)" using i by (simp add: this_arm_def)
  note kept = psci_kept_refl [OF assms(1)]
  have off: "\<exists>c' r. psci_cpu_off_handler c = Inr (c', r) \<and> psci_kept c' c"
    using set_self_kept [OF assms(1) i(1)] me i(1) by (auto simp: psci_cpu_off_handler_def) 
  have save: "psci_kept (psci_save_state E s c') c \<longleftrightarrow> psci_kept c' c" for s c'
    by (simp add: psci_kept_def psci_save_state_def arm_wf_def)
  have sus: "\<exists>c' r. psci_cpu_suspend_handler E a e x c = Inr (c', r) \<and> psci_kept c' c" for a e x
  proof -
    obtain c' where "set_arm i ((ac_vcpus c ! i)\<lparr>psci := (psci (ac_vcpus c ! i))\<lparr>entrypoint := e, context_id := x\<rparr>\<rparr>) c = Inr c'" "psci_kept c' c"
      using set_self_kept [OF assms(1) i(1)] by blast
    then show ?thesis using me i(1) kept by (simp add: psci_cpu_suspend_handler_def psci_power_down_def save)
  qed
  have on: "\<exists>c' r. psci_cpu_on_handler E tgt e x c = Inr (c', r) \<and> psci_kept c' c" for tgt e x
  proof (cases "unat (tgt AND MPIDR_AFF_MSK) < vm_cpu_num (ac_vm c) \<and> psci_st (psci (ac_vcpus c ! unat (tgt AND MPIDR_AFF_MSK))) = OFF")
    case False
    from cpu_on_refused [OF assms(1,2) refl this, of E e x] kept show ?thesis by blast
  next
    case True
    let ?t = "unat (tgt AND MPIDR_AFF_MSK)"
    have l: "?t < length (ac_vcpus c)" using assms(1) True by (simp add: arm_wf_def)
    from cpu_on_sent [OF assms refl conjunct1 [OF True] conjunct2 [OF True], of E e x] obtain m where
      m: "psci_cpu_on_handler E tgt e x c = Inr (c\<lparr>ac_vcpus := (ac_vcpus c)[?t := (ac_vcpus c ! ?t)\<lparr>psci := \<lparr>entrypoint = e, context_id = x, psci_st = ON_PENDING\<rparr>\<rparr>], ac_msgs := m\<rparr>, Psci_ret PSCI_E_SUCCESS)"
      "ncpus m = ncpus (ac_msgs c)" by blast
    have "psci_kept (c\<lparr>ac_vcpus := (ac_vcpus c)[?t := (ac_vcpus c ! ?t)\<lparr>psci := \<lparr>entrypoint = e, context_id = x, psci_st = ON_PENDING\<rparr>\<rparr>], ac_msgs := m\<rparr>) c"
      using assms(1) l m(2) True by (auto simp: psci_kept_def arm_wf_def nth_list_update)
    then show ?thesis using m(1) by blast
  qed
  show ?thesis
  proof (cases "is_psci_fid (vcpu_readreg_arm (ac_vcpus c ! i) 0)")
    case True
    have "\<exists>c' r. psci_smc_handler E f x1 x2 x3 c = Inr (c', r) \<and> psci_kept c' c" for f x1 x2 x3
      unfolding psci_smc_handler_def using off sus on kept by simp
    then show ?thesis using True me by (fastforce simp: standard_service_call_def Let_def)
  next
    case False
    then show ?thesis using me kept by (simp add: standard_service_call_def Let_def)
  qed
qed

lemma psci_calls_confined_witness:
  "\<exists>c' r. standard_service_call demo_arm_env (demo_arm (0x84000002 # replicate 30 0)) = Inr (c', r)
    \<and> psci_kept c' (demo_arm (0x84000002 # replicate 30 0))"
proof -
  have "length (0x84000002 # replicate 30 (0 :: u64)) = 31" by simp
  from psci_calls_confined [OF demo_arm_facts(1-4) [OF this], of demo_arm_env] show ?thesis by blast
qed

section \<open>Two callers\<close>

text \<open>
  The accesses of \<open>psci_cpu_on_handler\<close> to the context of the target, one step each, for callers named by their
  vCPU. The lock that is taken is that of the caller's own context, not that of the target's.
\<close>

datatype on_pc = On_lock | On_check | On_state | On_entry | On_context | On_unlock bool | On_message | On_done u32

record on_world =
  ow_vcpus :: "arm_vcpu list"
  ow_locked :: "nat \<Rightarrow> bool"
  ow_pc :: "nat \<Rightarrow> on_pc"
  ow_sent :: "nat list"

definition on_next :: "(nat \<Rightarrow> nat \<times> u64 \<times> u64) \<Rightarrow> nat \<Rightarrow> on_world \<Rightarrow> on_world option" where
  "on_next arg i w =
    (let (t, e, x) = arg i; p = psci (ow_vcpus w ! t);
         put = (\<lambda>p. w\<lparr>ow_vcpus := (ow_vcpus w)[t := (ow_vcpus w ! t)\<lparr>psci := p\<rparr>]\<rparr>);
         go = (\<lambda>l w. Some (w\<lparr>ow_pc := (ow_pc w)(i := l)\<rparr>)) in
     case ow_pc w i of
       On_lock \<Rightarrow> if ow_locked w i then None else go On_check (w\<lparr>ow_locked := (ow_locked w)(i := True)\<rparr>)
     | On_check \<Rightarrow> go (if psci_st p = OFF then On_state else On_unlock True) w
     | On_state \<Rightarrow> go On_entry (put (p\<lparr>psci_st := ON_PENDING\<rparr>))
     | On_entry \<Rightarrow> go On_context (put (p\<lparr>entrypoint := e\<rparr>))
     | On_context \<Rightarrow> go (On_unlock False) (put (p\<lparr>context_id := x\<rparr>))
     | On_unlock already_on \<Rightarrow> go (if already_on then On_done PSCI_E_ALREADY_ON else On_message) (w\<lparr>ow_locked := (ow_locked w)(i := False)\<rparr>)
     | On_message \<Rightarrow> go (On_done PSCI_E_SUCCESS) (w\<lparr>ow_sent := ow_sent w @ [t]\<rparr>)
     | On_done _ \<Rightarrow> None)"

inductive on_step :: "(nat \<Rightarrow> nat \<times> u64 \<times> u64) \<Rightarrow> on_world \<Rightarrow> on_world \<Rightarrow> bool" for arg where
  step: "on_next arg i w = Some w' \<Longrightarrow> on_step arg w w'"

fun on_run :: "(nat \<Rightarrow> nat \<times> u64 \<times> u64) \<Rightarrow> nat list \<Rightarrow> on_world \<Rightarrow> on_world option" where
  "on_run arg [] w = Some w"
| "on_run arg (i # is) w = (case on_next arg i w of None \<Rightarrow> None | Some w \<Rightarrow> on_run arg is w)"

lemma ctx_written: "(p :: psci_ctx)\<lparr>psci_st := s, entrypoint := e, context_id := x\<rparr> = \<lparr>entrypoint = e, context_id = x, psci_st = s\<rparr>"
  by (cases p) simp

lemma on_run_reach: "on_run arg is w = Some w' \<Longrightarrow> (on_step arg)\<^sup>*\<^sup>* w w'"
  by (induction "is" arbitrary: w) (auto split: option.splits intro: converse_rtranclp_into_rtranclp on_step.intros)

text \<open>A caller that is not interrupted does what \<open>psci_cpu_on_handler\<close> does.\<close>

lemma on_alone:
  assumes "arg i = (t, e, x)" "t < length (ow_vcpus w)" "ow_pc w i = On_lock" "\<not> ow_locked w i"
  shows "if psci_st (psci (ow_vcpus w ! t)) = OFF
    then \<exists>w'. on_run arg (replicate 7 i) w = Some w' \<and> ow_pc w' i = On_done PSCI_E_SUCCESS \<and> ow_sent w' = ow_sent w @ [t]
      \<and> ow_vcpus w' = (ow_vcpus w)[t := (ow_vcpus w ! t)\<lparr>psci := \<lparr>entrypoint = e, context_id = x, psci_st = ON_PENDING\<rparr>\<rparr>]
    else \<exists>w'. on_run arg (replicate 3 i) w = Some w' \<and> ow_pc w' i = On_done PSCI_E_ALREADY_ON \<and> ow_sent w' = ow_sent w \<and> ow_vcpus w' = ow_vcpus w"
  using assms by (simp add: numeral_eq_Suc on_next_def Let_def ctx_written)

text \<open>
  C39. Two vCPUs that call CPU_ON for the same vCPU at the same time can both be told of success: they hold
  different locks, so both can find the target off. Two messages are sent, and the target starts at the
  entry point of one caller with the context of the other.
\<close>

theorem cpu_on_race:
  assumes "arg i = (t, ei, xi)" "arg j = (t, ej, xj)" "i \<noteq> j" "t < length (ow_vcpus w)" "psci_st (psci (ow_vcpus w ! t)) = OFF"
    and "ow_pc w i = On_lock" "ow_pc w j = On_lock" "\<not> ow_locked w i" "\<not> ow_locked w j"
  shows "\<exists>w'. (on_step arg)\<^sup>*\<^sup>* w w' \<and> ow_pc w' i = On_done PSCI_E_SUCCESS \<and> ow_pc w' j = On_done PSCI_E_SUCCESS
    \<and> ow_sent w' = ow_sent w @ [t, t] \<and> psci (ow_vcpus w' ! t) = \<lparr>entrypoint = ei, context_id = xj, psci_st = ON_PENDING\<rparr>"
proof -
  let ?is = "[i, j, i, j, i, j, j, i, i, j, i, j, i, j]"
  have "\<exists>w'. on_run arg ?is w = Some w' \<and> ow_pc w' i = On_done PSCI_E_SUCCESS \<and> ow_pc w' j = On_done PSCI_E_SUCCESS
    \<and> ow_sent w' = ow_sent w @ [t, t] \<and> psci (ow_vcpus w' ! t) = \<lparr>entrypoint = ei, context_id = xj, psci_st = ON_PENDING\<rparr>"
    using assms by (simp add: on_next_def Let_def)
  then show ?thesis using on_run_reach by blast
qed

lemma cpu_on_race_witness:
  "\<exists>w'. (on_step (\<lambda>i. (2, of_nat i + 0x40000000, of_nat i + 7)))\<^sup>*\<^sup>*
      \<lparr>ow_vcpus = [demo_arm_vcpu 0 ON [], demo_arm_vcpu 1 ON [], demo_arm_vcpu 2 OFF []], ow_locked = (\<lambda>_. False), ow_pc = (\<lambda>_. On_lock), ow_sent = []\<rparr> w'
    \<and> ow_pc w' 0 = On_done PSCI_E_SUCCESS \<and> ow_pc w' 1 = On_done PSCI_E_SUCCESS
    \<and> psci (ow_vcpus w' ! 2) = \<lparr>entrypoint = 0x40000000, context_id = 8, psci_st = ON_PENDING\<rparr>"
proof -
  let ?arg = "\<lambda>i :: nat. (2 :: nat, of_nat i + 0x40000000 :: u64, of_nat i + 7 :: u64)"
  let ?w = "\<lparr>ow_vcpus = [demo_arm_vcpu 0 ON [], demo_arm_vcpu 1 ON [], demo_arm_vcpu 2 OFF []], ow_locked = (\<lambda>_. False), ow_pc = (\<lambda>_ :: nat. On_lock), ow_sent = []\<rparr>"
  have "?arg 0 = (2, 0x40000000, 7)" "?arg 1 = (2, 0x40000001, 8)" "(0 :: nat) \<noteq> 1" "2 < length (ow_vcpus ?w)"
    "psci_st (psci (ow_vcpus ?w ! 2)) = OFF" "ow_pc ?w 0 = On_lock" "ow_pc ?w 1 = On_lock" "\<not> ow_locked ?w 0" "\<not> ow_locked ?w 1"
    by (simp_all add: demo_arm_vcpu_def numeral_2_eq_2)
  from cpu_on_race [OF this] show ?thesis by auto
qed

end
