(* ===== verification/Msg_Interleave.thy ===== *)
theory Msg_Interleave
  imports Cpu_Msg
begin

text \<open>
  Sends and receives of several cores at the grain of the locks of \<open>src/core/cpu.c\<close>. A core is
  idle or between two atomic sections of \<open>cpu_send_msg\<close> or \<open>cpu_get_msg\<close>; a schedule says which
  core takes the next step and, when that core is idle, what it starts. The steps are the
  sections of Cpu_Msg. The specification has a FIFO queue per core and what each core has in
  hand, and no pool, nodes or links.
\<close>

section \<open>The cores\<close>

datatype msg_pc = M_idle | M_push cpuid cpu_msg u64 | M_ipi cpuid | M_free u64

datatype msg_act = Act_send cpuid cpu_msg | Act_receive

text \<open>
  What a run shows: a message has entered a queue, the interrupt of a core is raised, a core's
  \<open>cpu_get_msg\<close> has returned.
\<close>

datatype msg_event = Sent cpuid cpu_msg | Kicked cpuid | Got cpuid "cpu_msg option"

type_synonym msg_sys = "msg_state \<times> (cpuid \<Rightarrow> msg_pc)"

text \<open>One atomic section of core \<open>c\<close>: the next of what it is doing, or the first of \<open>x\<close>.\<close>

fun msg_micro :: "cpuid \<Rightarrow> msg_act \<Rightarrow> msg_sys \<Rightarrow> (msg_sys \<times> msg_event list) res" where
  "msg_micro c x (s, p) = (case p c of
     M_idle \<Rightarrow> (case x of
        Act_send t m \<Rightarrow> bindR (cpu_msg_alloc s) (\<lambda>(s, a). Inr ((s, p(c := M_push t m a)), []))
      | Act_receive \<Rightarrow> bindR (cpu_msg_pop s c) (\<lambda>(s, nd). case nd of
            None \<Rightarrow> Inr ((s, p), [Got c None])
          | Some a \<Rightarrow> Inr ((s, p(c := M_free a)), [])))
   | M_push t m a \<Rightarrow> bindR (cpu_msg_push s t m a) (\<lambda>s. Inr ((s, p(c := M_ipi t)), [Sent t m]))
   | M_ipi t \<Rightarrow> bindR (cpu_msg_ipi s t) (\<lambda>s. Inr ((s, p(c := M_idle)), [Kicked t]))
   | M_free a \<Rightarrow> bindR (cpu_msg_free s a) (\<lambda>(s, m). Inr ((s, p(c := M_idle)), [Got c (Some m)])))"

fun msg_runs :: "(cpuid \<times> msg_act) list \<Rightarrow> msg_sys \<Rightarrow> (msg_sys \<times> msg_event list) res" where
  "msg_runs [] y = Inr (y, [])"
| "msg_runs ((c, x) # xs) y =
    bindR (msg_micro c x y) (\<lambda>(y, es). bindR (msg_runs xs y) (\<lambda>(y, fs). Inr (y, es @ fs)))"

text \<open>A core that runs alone does what \<open>cpu_send_msg\<close> and \<open>cpu_get_msg\<close> do.\<close>

lemma send_alone:
  assumes "p c = M_idle"
  shows "bindR (msg_runs [(c, Act_send t m), (c, x), (c, y)] (s, p)) (\<lambda>(y, es). Inr (fst y))
    = cpu_send_msg s t m"
  using assms by (auto simp: cpu_send_msg_def bindR_def cpu_msg_alloc_def split: sum.splits option.splits)

lemma get_alone:
  assumes "p c = M_idle"
  shows "bindR (cpu_msg_pop s c) (\<lambda>(s', nd).
      bindR (msg_runs (if nd = None then [(c, Act_receive)] else [(c, Act_receive), (c, x)]) (s, p))
        (\<lambda>(y, es). Inr (fst y, es)))
    = bindR (cpu_get_msg s c) (\<lambda>(s, m). Inr (s, [Got c m]))"
  using assms by (auto simp: cpu_get_msg_def bindR_def split: sum.splits option.splits)

section \<open>The specification\<close>

datatype spec_pc = S_idle | S_push cpuid cpu_msg | S_ipi cpuid | S_got cpu_msg

type_synonym spec_sys = "(cpuid \<Rightarrow> cpu_msg list) \<times> (cpuid \<Rightarrow> spec_pc)"

fun in_hand :: "spec_pc \<Rightarrow> nat" where
  "in_hand (S_push t m) = 1"
| "in_hand (S_got m) = 1"
| "in_hand _ = 0"

definition taken :: "nat \<Rightarrow> (cpuid \<Rightarrow> spec_pc) \<Rightarrow> nat" where
  "taken k A = (\<Sum>c < k. in_hand (A c))"

text \<open>
  \<open>None\<close>: a send starts when as many messages as the pool has nodes (\<open>cap\<close>) wait or are in the
  hands of a core.
\<close>

fun spec_micro :: "nat \<Rightarrow> nat \<Rightarrow> cpuid \<Rightarrow> msg_act \<Rightarrow> spec_sys \<Rightarrow> (spec_sys \<times> msg_event list) option" where
  "spec_micro k cap c x (Q, A) = (case A c of
     S_idle \<Rightarrow> (case x of
        Act_send t m \<Rightarrow>
          if waiting k Q + taken k A < cap then Some ((Q, A(c := S_push t m)), []) else None
      | Act_receive \<Rightarrow> (case Q c of
            [] \<Rightarrow> Some ((Q, A), [Got c None])
          | m # ms \<Rightarrow> Some ((Q(c := ms), A(c := S_got m)), [])))
   | S_push t m \<Rightarrow> Some ((Q(t := Q t @ [m]), A(c := S_ipi t)), [Sent t m])
   | S_ipi t \<Rightarrow> Some ((Q, A(c := S_idle)), [Kicked t])
   | S_got m \<Rightarrow> Some ((Q, A(c := S_idle)), [Got c (Some m)]))"

fun spec_runs :: "nat \<Rightarrow> nat \<Rightarrow> (cpuid \<times> msg_act) list \<Rightarrow> spec_sys \<Rightarrow> (spec_sys \<times> msg_event list) option" where
  "spec_runs k cap [] Y = Some (Y, [])"
| "spec_runs k cap ((c, x) # xs) Y =
    (case spec_micro k cap c x Y of None \<Rightarrow> None
     | Some (Y, es) \<Rightarrow> (case spec_runs k cap xs Y of None \<Rightarrow> None | Some (Y, fs) \<Rightarrow> Some (Y, es @ fs)))"

text \<open>The messages sent to a core, those it has received, and the one it has in hand.\<close>

fun sent_to :: "cpuid \<Rightarrow> msg_event list \<Rightarrow> cpu_msg list" where
  "sent_to t [] = []"
| "sent_to t (Sent u m # es) = (if u = t then m # sent_to t es else sent_to t es)"
| "sent_to t (_ # es) = sent_to t es"

fun got_by :: "cpuid \<Rightarrow> msg_event list \<Rightarrow> cpu_msg list" where
  "got_by t [] = []"
| "got_by t (Got u (Some m) # es) = (if u = t then m # got_by t es else got_by t es)"
| "got_by t (_ # es) = got_by t es"

fun hand :: "spec_pc \<Rightarrow> cpu_msg list" where
  "hand (S_got m) = [m]"
| "hand _ = []"

lemma sent_to_append [simp]: "sent_to t (es @ fs) = sent_to t es @ sent_to t fs"
  by (induction t es rule: sent_to.induct) auto

lemma got_by_append [simp]: "got_by t (es @ fs) = got_by t es @ got_by t fs"
  by (induction t es rule: got_by.induct) auto

lemma spec_micro_fifo:
  "spec_micro k cap c x (Q, A) = Some ((Q', A'), es) \<Longrightarrow>
    got_by t es @ hand (A' t) @ Q' t = hand (A t) @ Q t @ sent_to t es"
  by (auto split: spec_pc.splits msg_act.splits list.splits if_splits)

text \<open>First in, first out, without loss or duplication.\<close>

lemma spec_runs_fifo:
  "spec_runs k cap xs (Q, A) = Some ((Q', A'), es) \<Longrightarrow>
    got_by t es @ hand (A' t) @ Q' t = hand (A t) @ Q t @ sent_to t es"
proof (induction xs arbitrary: Q A es)
  case (Cons cx xs)
  obtain c x where cx: "cx = (c, x)" by fastforce
  from Cons.prems cx obtain Q1 A1 es1 es2 where 1: "spec_micro k cap c x (Q, A) = Some ((Q1, A1), es1)"
    and 2: "spec_runs k cap xs (Q1, A1) = Some ((Q', A'), es2)" and es: "es = es1 @ es2"
    by (auto split: option.splits simp del: spec_micro.simps)
  show ?case using spec_micro_fifo [OF 1, of t] Cons.IH [OF 2] unfolding es
    by (metis append.assoc got_by_append sent_to_append)
qed simp

section \<open>The abstraction\<close>

fun held :: "msg_pc \<Rightarrow> u64 set" where
  "held (M_push t m a) = {a}"
| "held (M_free a) = {a}"
| "held _ = {}"

fun pc_target :: "msg_pc \<Rightarrow> cpuid set" where
  "pc_target (M_push t m a) = {t}"
| "pc_target (M_ipi t) = {t}"
| "pc_target _ = {}"

fun spec_of :: "msg_state \<Rightarrow> msg_pc \<Rightarrow> spec_pc" where
  "spec_of s M_idle = S_idle"
| "spec_of s (M_push t m a) = S_push t m"
| "spec_of s (M_ipi t) = S_ipi t"
| "spec_of s (M_free a) = S_got (node_msg s (unat a))"

definition apart :: "(cpuid \<Rightarrow> msg_pc) \<Rightarrow> bool" where
  "apart p \<longleftrightarrow> (\<forall>c d. c \<noteq> d \<longrightarrow> held (p c) \<inter> held (p d) = {})"

definition all_held :: "(cpuid \<Rightarrow> msg_pc) \<Rightarrow> u64 set" where
  "all_held p = (\<Union>c. held (p c))"

definition sys_inv :: "msg_state \<Rightarrow> (cpuid \<Rightarrow> msg_pc) \<Rightarrow> (cpuid \<Rightarrow> u64 list) \<Rightarrow> bool" where
  "sys_inv s p q \<longleftrightarrow> msg_inv s q (all_held p) \<and> apart p \<and> (\<forall>c. pc_target (p c) \<subseteq> {..<ncpus s})
    \<and> (\<forall>c \<ge> ncpus s. p c = M_idle)"

definition sys_rel :: "msg_sys \<Rightarrow> spec_sys \<Rightarrow> bool" where
  "sys_rel = (\<lambda>(s, p) Y. \<exists>q. sys_inv s p q \<and> Y = (queued s q, \<lambda>c. spec_of s (p c)))"

text \<open>The nodes of the other cores.\<close>

definition held_else :: "(cpuid \<Rightarrow> msg_pc) \<Rightarrow> cpuid \<Rightarrow> u64 set" where
  "held_else p c = (\<Union>d \<in> - {c}. held (p d))"

lemma held_others:
  assumes "apart p"
  shows "all_held p = held (p c) \<union> held_else p c" "held (p c) \<inter> held_else p c = {}"
    "all_held (p(c := y)) = held y \<union> held_else p c"
    "held y \<inter> held_else p c = {} \<Longrightarrow> apart (p(c := y))"
    "d \<noteq> c \<Longrightarrow> held (p d) \<subseteq> held_else p c"
proof -
  show "all_held p = held (p c) \<union> held_else p c" by (auto simp: all_held_def held_else_def)
  show "held (p c) \<inter> held_else p c = {}"
    using assms unfolding apart_def held_else_def by blast
  show "all_held (p(c := y)) = held y \<union> held_else p c"
    by (auto simp: all_held_def held_else_def split: if_splits)
  show "apart (p(c := y))" if "held y \<inter> held_else p c = {}"
    using that assms by (auto simp: apart_def held_else_def)
  show "held (p d) \<subseteq> held_else p c" if "d \<noteq> c" using that by (auto simp: held_else_def)
qed

lemma finite_held: "finite (held y)"
  by (cases y) simp_all

lemma card_held:
  assumes "apart p" "\<forall>c \<ge> k. p c = M_idle"
  shows "card (all_held p) = taken k (\<lambda>c. spec_of s (p c))"
proof -
  have "all_held p = (\<Union>c < k. held (p c))"
    using assms(2) by (auto simp: all_held_def) (metis empty_iff held.simps(3) leI lessThan_iff)
  then have "card (all_held p) = (\<Sum>c < k. card (held (p c)))"
    using assms(1) by (simp add: apart_def card_UN_disjoint finite_held)
  moreover have "card (held (p c)) = in_hand (spec_of s (p c))" for c by (cases "p c") simp_all
  ultimately show ?thesis by (simp add: taken_def)
qed

section \<open>Each section refines its specification\<close>

text \<open>What a step keeps, and the interrupts it raises.\<close>

fun raise :: "msg_event list \<Rightarrow> bool list \<Rightarrow> bool list" where
  "raise [] ip = ip"
| "raise (Kicked t # es) ip = raise es (ip[t := True])"
| "raise (_ # es) ip = raise es ip"

lemma raise_append [simp]: "raise (es @ fs) ip = raise fs (raise es ip)"
  by (induction es ip rule: raise.induct) auto

definition refined :: "msg_state \<Rightarrow> (msg_sys \<times> msg_event list) res \<Rightarrow> (spec_sys \<times> msg_event list) option \<Rightarrow> bool" where
  "refined s r R = (case R of None \<Rightarrow> r = Inl Panic
     | Some (Y, es) \<Rightarrow> \<exists>s' p'. r = Inr ((s', p'), es) \<and> sys_rel (s', p') Y \<and> ncpus s' = ncpus s
         \<and> num (msg_pool s') = num (msg_pool s) \<and> ipi s' = raise es (ipi s))"

lemma refinedI:
  assumes "sys_inv s' p' q'" "Y = (queued s' q', \<lambda>c. spec_of s' (p' c))" "ncpus s' = ncpus s"
    "num (msg_pool s') = num (msg_pool s)" "ipi s' = raise es (ipi s)"
  shows "refined s (Inr ((s', p'), es)) (Some (Y, es))"
  using assms by (auto simp: refined_def sys_rel_def)

lemma refined_send:
  assumes inv: "sys_inv s p q" and idle: "p c = M_idle" and c: "c < ncpus s" and t: "t < ncpus s"
  shows "refined s (msg_micro c (Act_send t m) (s, p))
    (spec_micro (ncpus s) (num (msg_pool s)) c (Act_send t m) (queued s q, \<lambda>c. spec_of s (p c)))"
proof -
  have mi: "msg_inv s q (all_held p)" and ap: "apart p" and k: "\<forall>c \<ge> ncpus s. p c = M_idle"
    using inv by (simp_all add: sys_inv_def)
  have cnt: "(\<Sum>c < ncpus s. length (q c)) + card (all_held p)
      = waiting (ncpus s) (queued s q) + taken (ncpus s) (\<lambda>c. spec_of s (p c))"
    by (simp add: queued_waiting card_held [OF ap k])
  show ?thesis
  proof (cases "waiting (ncpus s) (queued s q) + taken (ncpus s) (\<lambda>c. spec_of s (p c)) < num (msg_pool s)")
    case False
    have "card (in_use (msg_pool s)) \<le> num (msg_pool s)"
      using card_mono [OF finite_objects in_use_objects, of "msg_pool s"] mi
      by (simp add: msg_inv_def card_objects)
    with False cnt have "(\<Sum>c < ncpus s. length (q c)) + card (all_held p) = num (msg_pool s)"
      using msg_inv_waiting [OF mi] by simp
    from alloc_full [OF mi this] False idle show ?thesis by (simp add: refined_def)
  next
    case True
    with cnt have "(\<Sum>c < ncpus s. length (q c)) + card (all_held p) < num (msg_pool s)" by simp
    from alloc_step [OF mi this] obtain pl a where al: "cpu_msg_alloc s = Inr (s\<lparr>msg_pool := pl\<rparr>, a)"
      "msg_inv (s\<lparr>msg_pool := pl\<rparr>) q (insert a (all_held p))" "a \<notin> all_held p" "num pl = num (msg_pool s)" by blast
    define h where "h = held_else p c"
    note ho = held_others [OF ap, where c = c, folded h_def]
    note h0 = ho(1,2) and h' = ho(3-5)
    have "all_held p = h" using h0 idle by simp
    note h = this h'
    let ?s = "s\<lparr>msg_pool := pl\<rparr>" and ?p = "p(c := M_push t m a)"
    have sp: "spec_of ?s y = spec_of s y" for y by (cases y) simp_all
    have "sys_inv ?s ?p q"
      using inv al(2,3) h(1,2) h(3) [of "M_push t m a"] c t by (auto simp: sys_inv_def ncpus_def)
    moreover have "msg_micro c (Act_send t m) (s, p) = Inr ((?s, ?p), [])" using al(1) idle by simp
    moreover have "spec_micro (ncpus s) (num (msg_pool s)) c (Act_send t m) (queued s q, \<lambda>c. spec_of s (p c))
        = Some ((queued ?s q, \<lambda>c. spec_of ?s (?p c)), [])"
      using True idle by (auto simp: sp queued_def fun_eq_iff)
    ultimately show ?thesis using al(4) by (auto intro!: refinedI simp: ncpus_def)
  qed
qed

lemma refined_receive:
  assumes inv: "sys_inv s p q" and idle: "p c = M_idle" and c: "c < ncpus s"
  shows "refined s (msg_micro c Act_receive (s, p))
    (spec_micro (ncpus s) (num (msg_pool s)) c Act_receive (queued s q, \<lambda>c. spec_of s (p c)))"
proof -
  have mi: "msg_inv s q (all_held p)" and ap: "apart p" using inv by (simp_all add: sys_inv_def)
  show ?thesis
  proof (cases "q c")
    case Nil
    with pop_empty [OF mi c Nil] idle inv show ?thesis
      by (auto intro!: refinedI simp: queued_def)
  next
    case (Cons a as)
    from pop_step [OF mi c Cons] obtain nx ls where po:
      "cpu_msg_pop s c = Inr (s\<lparr>nexts := nx, event_list := ls\<rparr>, Some a)" "length ls = ncpus s"
      "msg_inv (s\<lparr>nexts := nx, event_list := ls\<rparr>) (q(c := as)) (insert a (all_held p))" "a \<notin> all_held p" by blast
    define h where "h = held_else p c"
    note ho = held_others [OF ap, where c = c, folded h_def]
    note h0 = ho(1,2) and h' = ho(3-5)
    have "all_held p = h" using h0 idle by simp
    note h = this h'
    let ?s = "s\<lparr>nexts := nx, event_list := ls\<rparr>" and ?p = "p(c := M_free a)"
    have sp: "spec_of ?s y = spec_of s y" for y by (cases y) simp_all
    have "sys_inv ?s ?p (q(c := as))"
      using inv po(2-4) h(1,2) h(3) [of "M_free a"] c by (auto simp: sys_inv_def ncpus_def)
    moreover have "msg_micro c Act_receive (s, p) = Inr ((?s, ?p), [])" using po(1) idle by simp
    moreover have "spec_micro (ncpus s) (num (msg_pool s)) c Act_receive (queued s q, \<lambda>c. spec_of s (p c))
        = Some ((queued ?s (q(c := as)), \<lambda>c. spec_of ?s (?p c)), [])"
      using Cons idle by (auto simp: sp queued_def fun_eq_iff)
    ultimately show ?thesis using po(2) by (auto intro!: refinedI simp: ncpus_def)
  qed
qed

lemma refined_push:
  assumes inv: "sys_inv s p q" and pc: "p c = M_push t m a"
  shows "refined s (msg_micro c x (s, p))
    (spec_micro (ncpus s) (num (msg_pool s)) c x (queued s q, \<lambda>c. spec_of s (p c)))"
proof -
  have mi: "msg_inv s q (all_held p)" and ap: "apart p" and t: "t < ncpus s"
    using inv pc by (auto simp: sys_inv_def dest: spec [of _ c])
  have c: "c < ncpus s" using inv pc by (metis leI msg_pc.distinct(1) sys_inv_def)
  define h where "h = held_else p c"
  note ho = held_others [OF ap, where c = c, folded h_def]
  note h0 = ho(1,2) and h' = ho(3-5)
  have "all_held p = insert a h" "a \<notin> h" using h0 pc by auto
  note h = this h'
  from push_step [OF mi [unfolded h(1)] h(2) t, of m] obtain nx ls where pu: "cpu_msg_push s t m a
      = Inr (s\<lparr>node_msg := (node_msg s)(unat a := m), nexts := nx, event_list := ls\<rparr>)" "length ls = ncpus s"
    "msg_inv (s\<lparr>node_msg := (node_msg s)(unat a := m), nexts := nx, event_list := ls\<rparr>) (q(t := q t @ [a])) h" by blast
  let ?s = "s\<lparr>node_msg := (node_msg s)(unat a := m), nexts := nx, event_list := ls\<rparr>" and ?p = "p(c := M_ipi t)"
  have fresh: "a \<notin> set (q d)" for d using mi h(1) by (auto simp: msg_inv_def)
  have sp: "spec_of ?s (p d) = spec_of s (p d)" if "d \<noteq> c" for d
    using h(2) h(5) [OF that] by (cases "p d") (auto dest!: unsigned_word_eqI)
  have qd: "queued ?s (q(t := q t @ [a])) = (queued s q)(t := queued s q t @ [m])"
    using fresh by (auto simp: queued_def fun_eq_iff dest!: unsigned_word_eqI)
  have "sys_inv ?s ?p (q(t := q t @ [a]))"
    using inv pu(2,3) h(3) h(4) [of "M_ipi t"] c t by (auto simp: sys_inv_def ncpus_def)
  moreover have "msg_micro c x (s, p) = Inr ((?s, ?p), [Sent t m])" using pu(1) pc by simp
  moreover have "spec_micro (ncpus s) (num (msg_pool s)) c x (queued s q, \<lambda>c. spec_of s (p c))
      = Some ((queued ?s (q(t := q t @ [a])), \<lambda>c. spec_of ?s (?p c)), [Sent t m])"
    unfolding qd using pc sp by (auto simp: fun_eq_iff)
  ultimately show ?thesis using pu(2) by (auto intro!: refinedI simp: ncpus_def)
qed

lemma refined_ipi:
  assumes inv: "sys_inv s p q" and pc: "p c = M_ipi t"
  shows "refined s (msg_micro c x (s, p))
    (spec_micro (ncpus s) (num (msg_pool s)) c x (queued s q, \<lambda>c. spec_of s (p c)))"
proof -
  have mi: "msg_inv s q (all_held p)" and ap: "apart p" and t: "t < ncpus s"
    using inv pc by (auto simp: sys_inv_def dest: spec [of _ c])
  define h where "h = held_else p c"
  note ho = held_others [OF ap, where c = c, folded h_def]
  note h0 = ho(1,2) and h' = ho(3-5)
  have "all_held p = h" using h0 pc by simp
  note h = this h'
  note ip = ipi_step [OF mi t]
  let ?s = "s\<lparr>ipi := (ipi s)[t := True]\<rparr>" and ?p = "p(c := M_idle)"
  have sp: "spec_of ?s y = spec_of s y" for y by (cases y) simp_all
  have "sys_inv ?s ?p q"
    using inv ip(2) h(1,2) h(3) [of M_idle] by (auto simp: sys_inv_def ncpus_def)
  moreover have "msg_micro c x (s, p) = Inr ((?s, ?p), [Kicked t])" using ip(1) pc by simp
  moreover have "spec_micro (ncpus s) (num (msg_pool s)) c x (queued s q, \<lambda>c. spec_of s (p c))
      = Some ((queued ?s q, \<lambda>c. spec_of ?s (?p c)), [Kicked t])"
    using pc by (auto simp: sp queued_def fun_eq_iff)
  ultimately show ?thesis by (auto intro!: refinedI simp: ncpus_def)
qed

lemma refined_free:
  assumes inv: "sys_inv s p q" and pc: "p c = M_free a"
  shows "refined s (msg_micro c x (s, p))
    (spec_micro (ncpus s) (num (msg_pool s)) c x (queued s q, \<lambda>c. spec_of s (p c)))"
proof -
  have mi: "msg_inv s q (all_held p)" and ap: "apart p" using inv by (simp_all add: sys_inv_def)
  define h where "h = held_else p c"
  note ho = held_others [OF ap, where c = c, folded h_def]
  note h0 = ho(1,2) and h' = ho(3-5)
  have "all_held p = insert a h" "a \<notin> h" using h0 pc by auto
  note h = this h'
  from free_step [OF mi [unfolded h(1)] h(2)] obtain pl where fr:
    "cpu_msg_free s a = Inr (s\<lparr>msg_pool := pl\<rparr>, node_msg s (unat a))"
    "msg_inv (s\<lparr>msg_pool := pl\<rparr>) q h" "num pl = num (msg_pool s)" by blast
  let ?s = "s\<lparr>msg_pool := pl\<rparr>" and ?p = "p(c := M_idle)"
  have sp: "spec_of ?s y = spec_of s y" for y by (cases y) simp_all
  have "sys_inv ?s ?p q"
    using inv fr(2) h(3) h(4) [of M_idle] by (auto simp: sys_inv_def ncpus_def)
  moreover have "msg_micro c x (s, p) = Inr ((?s, ?p), [Got c (Some (node_msg s (unat a)))])"
    using fr(1) pc by simp
  moreover have "spec_micro (ncpus s) (num (msg_pool s)) c x (queued s q, \<lambda>c. spec_of s (p c))
      = Some ((queued ?s q, \<lambda>c. spec_of ?s (?p c)), [Got c (Some (node_msg s (unat a)))])"
    using pc by (auto simp: sp queued_def fun_eq_iff)
  ultimately show ?thesis using fr(3) by (auto intro!: refinedI simp: ncpus_def)
qed

text \<open>The schedules considered: existing cores, sending to existing cores.\<close>

fun act_in :: "nat \<Rightarrow> cpuid \<times> msg_act \<Rightarrow> bool" where
  "act_in k (c, Act_send t m) \<longleftrightarrow> c < k \<and> t < k"
| "act_in k (c, Act_receive) \<longleftrightarrow> c < k"

lemma refined_micro:
  assumes "sys_rel (s, p) Y" "act_in (ncpus s) (c, x)"
  shows "refined s (msg_micro c x (s, p)) (spec_micro (ncpus s) (num (msg_pool s)) c x Y)"
proof -
  from assms(1) obtain q where inv: "sys_inv s p q" and Y: "Y = (queued s q, \<lambda>c. spec_of s (p c))"
    by (auto simp: sys_rel_def)
  show ?thesis unfolding Y
  proof (cases "p c")
    case M_idle
    show "refined s (msg_micro c x (s, p))
        (spec_micro (ncpus s) (num (msg_pool s)) c x (queued s q, \<lambda>c. spec_of s (p c)))"
      using refined_send [OF inv M_idle] refined_receive [OF inv M_idle] assms(2) by (cases x) auto
  qed (use refined_push [OF inv] refined_ipi [OF inv] refined_free [OF inv] in blast)+
qed

lemma refined_runs:
  assumes "sys_rel (s, p) Y" "\<forall>a \<in> set xs. act_in (ncpus s) a"
  shows "refined s (msg_runs xs (s, p)) (spec_runs (ncpus s) (num (msg_pool s)) xs Y)"
  using assms
proof (induction xs arbitrary: s p Y)
  case Nil
  then show ?case by (simp add: refined_def)
next
  case (Cons a xs)
  obtain c x where a: "a = (c, x)" by fastforce
  have "refined s (msg_micro c x (s, p)) (spec_micro (ncpus s) (num (msg_pool s)) c x Y)"
    using refined_micro [OF Cons.prems(1)] Cons.prems(2) a by simp
  note st = this [unfolded refined_def]
  show ?case
  proof (cases "spec_micro (ncpus s) (num (msg_pool s)) c x Y")
    case None
    with st a show ?thesis by (simp add: refined_def)
  next
    case (Some Z)
    obtain Y1 es where Z: "Z = (Y1, es)" by fastforce
    from st Some Z obtain s1 p1 where s1: "msg_micro c x (s, p) = Inr ((s1, p1), es)" "sys_rel (s1, p1) Y1"
      "ncpus s1 = ncpus s" "num (msg_pool s1) = num (msg_pool s)" "ipi s1 = raise es (ipi s)" by auto
    have "refined s1 (msg_runs xs (s1, p1)) (spec_runs (ncpus s) (num (msg_pool s)) xs Y1)"
      using Cons.IH [OF s1(2)] Cons.prems(2) s1(3,4) by simp
    then show ?thesis using Some Z s1 a
      by (auto simp: refined_def split: option.splits prod.splits simp del: msg_micro.simps spec_micro.simps)
  qed
qed

lemma rel_start: "mailboxes s Q \<Longrightarrow> sys_rel (s, \<lambda>_. M_idle) (Q, \<lambda>_. S_idle)"
  by (auto simp: mailboxes_def sys_rel_def sys_inv_def all_held_def apart_def)

lemma rel_rest:
  assumes "sys_rel (s, p) (Q, A)" "\<forall>c. A c = S_idle"
  shows "mailboxes s Q"
proof -
  from assms(1) obtain q where q: "sys_inv s p q" "Q = queued s q" "A = (\<lambda>c. spec_of s (p c))"
    by (auto simp: sys_rel_def)
  have "p c = M_idle" for c using assms(2) q(3) by (cases "p c") (auto dest: spec [of _ c])
  then have "all_held p = {}" by (simp add: all_held_def)
  with q(1,2) show ?thesis by (auto simp: sys_inv_def mailboxes_def)
qed

section \<open>Properties\<close>

text \<open>
  C9. Messages between cores are delivered in order, without loss or duplication. Whatever cores
  send and receive, and however the atomic sections of their sends and receives interleave, the
  code does what one FIFO queue per core does: every core receives exactly the messages sent to
  it, oldest first, those it has not received are in its queue or in its hand, the interrupts
  raised are those of the sends, and with no core inside an operation the queues are again
  mailboxes. The one failure is \<open>ERROR\<close>, when a send starts while as many messages as the pool
  has nodes are waiting or in the hands of a core between two sections.
\<close>

theorem messages_refine_mailboxes:
  assumes "mailboxes s Q" "\<forall>a \<in> set xs. act_in (ncpus s) a"
  shows "case spec_runs (ncpus s) (num (msg_pool s)) xs (Q, \<lambda>_. S_idle) of
      None \<Rightarrow> msg_runs xs (s, \<lambda>_. M_idle) = Inl Panic
    | Some ((Q', A'), es) \<Rightarrow> \<exists>s' p'. msg_runs xs (s, \<lambda>_. M_idle) = Inr ((s', p'), es)
        \<and> (\<forall>t. got_by t es @ hand (A' t) @ Q' t = Q t @ sent_to t es)
        \<and> ipi s' = raise es (ipi s) \<and> ((\<forall>c. A' c = S_idle) \<longrightarrow> mailboxes s' Q')"
proof (cases "spec_runs (ncpus s) (num (msg_pool s)) xs (Q, \<lambda>_. S_idle)")
  case None
  with refined_runs [OF rel_start [OF assms(1)] assms(2)] show ?thesis by (simp add: refined_def)
next
  case (Some Z)
  obtain Q' A' es where Z: "Z = ((Q', A'), es)" by (metis prod.collapse)
  from refined_runs [OF rel_start [OF assms(1)] assms(2)] Some Z obtain s' p' where
    "msg_runs xs (s, \<lambda>_. M_idle) = Inr ((s', p'), es)" "sys_rel (s', p') (Q', A')" "ipi s' = raise es (ipi s)"
    by (auto simp: refined_def)
  moreover have "got_by t es @ hand (A' t) @ Q' t = Q t @ sent_to t es" for t
    using spec_runs_fifo [of _ _ xs Q "\<lambda>_. S_idle" Q' A' es t] Some Z by simp
  ultimately show ?thesis using rel_rest Some Z by auto
qed

text \<open>A pool of one node, for the exhaustion.\<close>

definition one_node :: msg_state where
  "one_node = boot_msgs\<lparr>msg_pool := OBJPOOL_ALLOC 0x80210000 24 1\<rparr>"

lemma one_node_mailboxes: "mailboxes one_node (\<lambda>_. [])"
proof -
  have "msg_inv one_node (\<lambda>_. []) {}"
    using static_pool [where sz = 24 and addr = "0x80210000" and n = 1]
    by (simp add: msg_inv_def one_node_def boot_msgs_def ncpus_def repr_init)
  moreover have "queued one_node (\<lambda>_. []) = (\<lambda>_. [])" by (simp add: queued_def fun_eq_iff)
  ultimately show ?thesis unfolding mailboxes_def by metis
qed

text \<open>
  Two cores send to a third, the later to allocate pushing first, and the third receives one
  message between; and with one node, a send while the only message is in its receiver's hand.
\<close>

theorem messages_refine_mailboxes_witness:
  "let m1 = \<lparr>handler = 0, event = 1, data = 7\<rparr>; m2 = \<lparr>handler = 0, event = 2, data = 8\<rparr> in
    (\<exists>s' p'. msg_runs [(0, Act_send 2 m1), (1, Act_send 2 m2), (1, Act_receive), (2, Act_receive), (0, Act_receive),
        (0, Act_receive), (2, Act_receive), (1, Act_receive)] (boot_msgs, \<lambda>_. M_idle)
      = Inr ((s', p'), [Sent 2 m2, Sent 2 m1, Kicked 2, Got 2 (Some m2), Kicked 2]) \<and> mailboxes s' ((\<lambda>_. [])(2 := [m1])))
    \<and> msg_runs [(0, Act_send 1 m1), (0, Act_receive), (0, Act_receive), (1, Act_receive), (0, Act_send 1 m2)]
        (one_node, \<lambda>_. M_idle) = Inl Panic"
proof -
  let ?m1 = "\<lparr>handler = 0, event = 1, data = 7\<rparr>" and ?m2 = "\<lparr>handler = 0, event = 2, data = 8\<rparr>"
  let ?xs = "[(0, Act_send 2 ?m1), (1, Act_send 2 ?m2), (1, Act_receive), (2, Act_receive), (0, Act_receive),
    (0, Act_receive), (2, Act_receive), (1, Act_receive)]"
  let ?ys = "[(0, Act_send 1 ?m1), (0, Act_receive), (0, Act_receive), (1, Act_receive), (0, Act_send 1 ?m2)]"
  have n: "ncpus boot_msgs = 4" "num (msg_pool boot_msgs) = 128" "ncpus one_node = 4" "num (msg_pool one_node) = 1"
    by (simp_all add: boot_msgs_def one_node_def ncpus_def OBJPOOL_ALLOC_def CPU_MSG_POOL_SIZE_def)
  have w: "{..<4} = {0, 1, 2, 3 :: nat}" by auto
  have "\<forall>a \<in> set ?xs. act_in (ncpus boot_msgs) a" "\<forall>a \<in> set ?ys. act_in (ncpus one_node) a" by (simp_all add: n)
  note 1 = messages_refine_mailboxes [OF boot_mailboxes this(1)]
    and 2 = messages_refine_mailboxes [OF one_node_mailboxes this(2)]
  have e1: "spec_runs 4 128 ?xs (\<lambda>_. [], \<lambda>_. S_idle)
      = Some (((\<lambda>_. [])(2 := [?m1]), \<lambda>_. S_idle), [Sent 2 ?m2, Sent 2 ?m1, Kicked 2, Got 2 (Some ?m2), Kicked 2])"
    by (simp add: waiting_def taken_def w fun_eq_iff)
  have e2: "spec_runs 4 1 ?ys (\<lambda>_. [], \<lambda>_. S_idle) = None"
    by (simp add: waiting_def taken_def w)
  show ?thesis using 1 2 unfolding n e1 e2 by (auto simp: Let_def simp del: msg_runs.simps)
qed

end
