(* ===== verification/Spec2Isabelle.thy ===== *)
theory Spec2Isabelle
  imports Irq_Rate_Limit Health_Monitor Vm_Recovery Page_Pools Vmm_Assign Plic Vplic_Guest
    Mem_Expand Identity_Map Irq_Owners Irq_Dispatch Traps Vm_Space
    Mem_Boot Caches Mpu_Space Psci Msg_Interleave
begin

text \<open>
  A verification library for the Bao hypervisor with its mixed-criticality extensions, in the
  configuration RISC-V, MMU, platform \<open>qemu-riscv64-virt\<close> (four cores); the memory protection also in
  its other configuration, the MPU of Armv8-R (AArch64), and the vCPU of Armv8. Paths are under \<open>src/src\<close>.

  \<^bold>\<open>The program.\<close> Bao is a static partitioning hypervisor. At start-up the cores are assigned to
  the VMs of the configuration (\<open>core/vmm.c\<close>) and every VM gets memory (\<open>core/mem.c\<close>,
  \<open>core/mmu/mem.c\<close>), interrupts (\<open>core/interrupts.c\<close>) and virtual devices. Then the cores run the
  guests and enter the hypervisor only on traps: SBI calls and hypercalls (\<open>arch/riscv/sbi.c\<close>,
  \<open>core/hypercall.c\<close>, \<open>core/ipc.c\<close>), accesses to the virtual PLIC (\<open>arch/riscv/vplic.c\<close>) that
  \<open>arch/riscv/sync_exceptions.c\<close> decodes, physical interrupts (\<open>arch/riscv/interrupts.c\<close>,
  \<open>arch/riscv/plic.c\<close>) and messages of other cores (\<open>core/cpu.c\<close>). The extensions are a token
  bucket per interrupt of a VM (\<open>core/inc/irq_rate_limit.h\<close>), a heartbeat monitor
  (\<open>core/health_monitor.c\<close>) that the timer interrupt runs, and the recovery of a silent VM by all
  its cores (\<open>core/vm_recovery.c\<close>).

  \<^bold>\<open>Theories and code.\<close>
  \<^item> Prelude: results \<open>fault + 'a\<close> (a C fault or \<open>ERROR\<close> is a branch of every definition), checked
    array access, loops \<open>foldR\<close>; Bits (\<open>lib/inc/bit.h\<close>, \<open>lib/inc/util.h\<close>), Bitmaps
    (\<open>lib/bitmap.c\<close>, \<open>lib/inc/bitmap.h\<close>), Clist (\<open>lib/inc/list.h\<close>), Obj_Pool
    (\<open>core/objpool.c\<close>).
  \<^item> Irq_Rate_Limit and Health_Monitor: the extensions' state machines. Cpu_Sync (\<open>core/inc/cpu.h\<close>):
    the barrier with its 64-bit counter, which refines an ideal barrier until the counter wraps.
    Vm_Recovery: the recovery as a step relation of all cores over the ideal barrier, and the
    installation of the image of the VM, page by page.
  \<^item> Cpu_Msg (\<open>core/cpu.c\<close>): message pool, queues and handler loop, refined to one mailbox per core;
    the locale \<open>mailbox\<close> is the contract that Sbi_Guest and Guest_Calls rely on. Its atomic sections
    (allocate, push, interrupt; pop, free) are separate, and Msg_Interleave proves the refinement for
    every interleaving of them, nodes in hand counted as used.
  \<^item> Vm_Config, Vm_Core, Vmm_Assign (\<open>core/config.c\<close>, \<open>core/vm.c\<close>, \<open>arch/riscv/vm.c\<close>,
    \<open>core/vmm.c\<close>): configuration, VMs and vCPUs, assignment of cores as interleaved critical
    sections.
  \<^item> Page_Pools (\<open>core/mem.c\<close>, \<open>core/mmu/mem.c\<close>): physical pages. Mem_Boot (\<open>core/mem.c\<close>):
    the pools at boot and what they reserve. Caches (\<open>core/cache.c\<close>): page colours. Page_Table
    (\<open>core/inc/page_table.h\<close>, \<open>arch/riscv/page_table.c\<close>, \<open>arch/riscv/mem.c\<close>) and Addr_Space
    (\<open>core/mmu/mem.c\<close>): tables in memory, mapping, unmapping, copying. Pt_Tree, Pt_Alloc and
    Pt_Blocks hold the tree invariant, table allocation and block arithmetic; Mem_Map, Mem_Expand
    and Identity_Map prove what mapping, expansion and the identity map do to the mapping a tree denotes.
  \<^item> Plic, Vplic, Vplic_Guest (\<open>arch/riscv/plic.c\<close>, \<open>arch/riscv/vplic.c\<close>): the physical
    controller, the virtual one, and what a guest can do with it.
  \<^item> Hart: the state of a hart while the hypervisor runs on it, firmware calls; Interrupts,
    Hypercall, Sbi and Traps: the trap handlers. Irq_Owners, Irq_Dispatch, Sbi_Guest and
    Guest_Calls: their properties.
  \<^item> Iommu (\<open>arch/riscv/iommu.c\<close>, \<open>core/mmu/io.c\<close>): the IOMMU driver over the log of register accesses;
    Iommu_Dma: what devices reach.
  \<^item> Vm_Init (\<open>core/vm.c\<close>, \<open>arch/riscv/vm.c\<close>): a VM's start-up on each of its cores. Mem_Vpage: the
    allocation of virtual ranges; Vm_Space: what a started VM can address.
  \<^item> Mpu (\<open>arch/armv8/armv8-r/mpu.c\<close>): the MPU driver over the registers of every entry; Mpu_View and
    Mpu_Unmap: what the entries grant hypervisor and guest, before and after mapping and unmapping.
    Mpu_Mem (\<open>core/mpu\<close>): regions of an address space and the messages that announce them;
    Mpu_Space: what unmapping does on the core that unmaps and on those that follow.
  \<^item> Armv8_Vm (\<open>arch/armv8/vm.c\<close>, \<open>psci.c\<close>, \<open>aborts.c\<close>): the Armv8 vCPU, its power management calls and the
    synchronous traps; Psci: what the calls do, also when two cores interleave.

  \<^bold>\<open>State.\<close> Structures are records with the fields of the code; global and shared data are fields
  of the state an operation takes and returns. Words have their width in C; positions in arrays are
  natural numbers. A guest memory or page table is a map from addresses to contents. Operations
  under one lock are atomic; where several cores interleave (recovery, barrier, assignment, the
  sections of a send and a receive, \<open>CPU_ON\<close>) the steps are explicit. A handler that sends messages runs
  its sends undisturbed. Time is an argument (\<open>now\<close>), as are indeterminate contents of
  local variables (\<open>und\<close>), the firmware and the hardware's answers (record \<open>hart_env\<close>). Undefined
  shifts, indices outside arrays and null pointers are faults.

  \<^bold>\<open>Loops.\<close> Loops that end are \<open>fun\<close> or \<open>function\<close> with a measure. Loops of the code that may run for ever
  (\<open>msg_loop\<close>, \<open>map_loop\<close>, searches of Addr_Space, \<open>pp_alloc\<close>) are partial functions whose value
  \<open>None\<close>, or the fault \<open>Hang\<close>, is not returning; properties of them state that they return.

  \<^bold>\<open>Properties.\<close> Numbered C1 and on where they are stated, with what they assume. Theorems whose name ends
  in \<open>_witness\<close> apply them to concrete states. The lemmas before them are: invariants (\<open>*_wf\<close>,
  \<open>*_inv\<close>, \<open>*_ok\<close>), one specification per operation (\<open>*_spec\<close>, \<open>*_eq\<close>), frames (\<open>kept\<close>,
  \<open>confined\<close>), and for each abstraction (set of bits, list of nodes, mailboxes, mapping of a tree)
  the operation's effect on it.

  \<^bold>\<open>Restrictions.\<close> Each property says in its text what it assumes: for example page-aligned regions at
  boot (C13) and in a VM's start-up (C15), a VM without colours (C15), completions whose bit lies in the
  register words of the virtual PLIC (C26 to C28), a barrier whose counter has not wrapped (C8).

  \<^bold>\<open>Not modelled.\<close> The caches of the IOMMU. Of the Armv8 port the interrupt controllers, the SMMU and AArch32; drivers and
  platform descriptions, the console, assembly, and the start-up code that maps devices and
  recolours the hypervisor.
\<close>

end
